(* ===== verification/Prelude.thy ===== *)
theory Prelude
  imports Main "HOL-Library.Word"
begin

text \<open>
  Shared vocabulary of the development: the machine integer types, the result type of a kernel
  routine that may panic, byte blocks with their 16- and 32-bit views, and the interfaces
  (locales) that several components implement.
\<close>

unbundle bit_operations_syntax

section \<open>Machine integers and results\<close>

type_synonym u8 = "8 word"
type_synonym u16 = "16 word"
type_synonym u32 = "32 word"

lemma unat_u8_less: "unat (w :: u8) < 256"
  using unsigned_less[of w, where ?'a = nat] by simp

lemma unat_u16_less: "unat (w :: u16) < 65536"
  using unsigned_less[of w, where ?'a = nat] by simp

lemma unat_u32_less: "unat (w :: u32) < 4294967296"
  using unsigned_less[of w, where ?'a = nat] by simp

lemma uint_eq_iff [simp]: "uint x = uint y \<longleftrightarrow> (x :: 'a::len word) = y"
  by (simp flip: word_uint_eq_iff)

lemma sint_u32: "sint (a :: u32) = (if uint a < 2 ^ 31 then uint a else uint a - 2 ^ 32)"
proof -
  have u: "0 \<le> uint a" "uint a < 2 ^ 32" using unsigned_less[of a] by simp_all
  have "sint a = (uint a + 2 ^ 31) mod 2 ^ 32 - 2 ^ 31"
    by (simp add: sint_uint signed_take_bit_eq_take_bit_shift take_bit_eq_mod)
  moreover have "(uint a + 2 ^ 31) mod 2 ^ 32 = uint a + 2 ^ 31" if "uint a < 2 ^ 31" using u that by simp
  moreover have "(uint a + 2 ^ 31) mod 2 ^ 32 = uint a - 2 ^ 31" if "\<not> uint a < 2 ^ 31"
  proof -
    have "(uint a + 2 ^ 31) mod 2 ^ 32 = (uint a - 2 ^ 31 + 2 ^ 32) mod 2 ^ 32" by (simp add: add.commute)
    also have "\<dots> = (uint a - 2 ^ 31) mod 2 ^ 32" by (rule mod_add_self2)
    finally show ?thesis using u that by simp
  qed
  ultimately show ?thesis by simp
qed

lemma sint_small:
  assumes "unat (w :: u32) < 2 ^ 31"
  shows "sint w = int (unat w)"
proof -
  have u: "uint w = int (unat w)" by simp
  have "sint w = signed_take_bit 31 (uint w)" by (simp add: sint_uint)
  also have "\<dots> = uint w"
  proof (rule signed_take_bit_int_eq_self)
    show "- (2 ^ 31) \<le> uint w" by (rule order_trans[OF _ uint_nonnegative]) simp
    have "int (unat w) < int (2 ^ 31)" using assms by (simp only: of_nat_less_iff)
    then show "uint w < 2 ^ 31" unfolding u by simp
  qed
  finally show ?thesis by simp
qed

lemma unat_of_nat_u16: "n < 65536 \<Longrightarrow> unat (of_nat n :: u16) = n"
  by (simp add: unat_of_nat)

lemma u8_succ_le_1:
  assumes "(c :: u8) + 1 \<le> 1" and "c \<noteq> 255"
  shows "c = 0"
proof -
  have "unat c \<noteq> unat (255 :: u8)" using assms(2) by (simp only: word_unat_eq_iff not_False_eq_True)
  then show ?thesis using assms(1) unat_u8_less[of c]
    by (simp add: word_le_nat_alt unat_word_ariths word_unat_eq_iff)
qed

text \<open>
  A kernel routine either returns or stops the machine. \<open>Panic\<close> carries the message of the
  source's \<open>panic\<close> call; \<open>NullDeref\<close> stands for the use of a null pointer the code does not
  check, \<open>OutOfBounds\<close> for an array index it does not check. \<open>Exits\<close> is a call of \<open>do_exit\<close>, which does
  not return, with its code, and \<open>Unfinished\<close> a loop that is still running when its fuel is spent.
\<close>

datatype kerr = Panic string | NullDeref | OutOfBounds | Exits nat | Unfinished

type_synonym 'a kres = "kerr + 'a"

fun kbind :: "'a kres \<Rightarrow> ('a \<Rightarrow> 'b kres) \<Rightarrow> 'b kres" where
  "kbind (Inl e) f = Inl e"
| "kbind (Inr a) f = f a"

lemma kbind_Inr_iff: "kbind m f = Inr b \<longleftrightarrow> (\<exists>a. m = Inr a \<and> f a = Inr b)"
  by (cases m) auto

lemma kbind_InrE:
  assumes "kbind m f = Inr b"
  obtains a where "m = Inr a" and "f a = Inr b"
  using assms by (cases m) auto

named_theorems state_simps \<open>how each operation changes the fields of its state\<close>

section \<open>Blocks of bytes\<close>

text \<open>
  A buffer's data as a function from the byte offset to the byte. The kernel reads the same
  memory as bytes, as little-endian shorts (\<open>((unsigned short *) b_data)[i]\<close>) and as longs.
\<close>

type_synonym block = "nat \<Rightarrow> u8"

definition zero_block :: block where
  "zero_block = (\<lambda>_. 0)"

definition get16 :: "block \<Rightarrow> nat \<Rightarrow> u16" where
  "get16 b i = ucast (b (2 * i)) OR push_bit 8 (ucast (b (2 * i + 1)))"

definition put16 :: "block \<Rightarrow> nat \<Rightarrow> u16 \<Rightarrow> block" where
  "put16 b i v = b(2 * i := ucast v, 2 * i + 1 := ucast (drop_bit 8 v))"

definition get32 :: "block \<Rightarrow> nat \<Rightarrow> u32" where
  "get32 b i = ucast (get16 b (2 * i)) OR push_bit 16 (ucast (get16 b (2 * i + 1)))"

text \<open>Bit \<open>n\<close> of a block counted the way the \<open>bt\<close> instructions count it.\<close>

definition blk_bit :: "block \<Rightarrow> nat \<Rightarrow> bool" where
  "blk_bit b n = bit (b (n div 8)) (n mod 8)"

definition blk_set_bit :: "block \<Rightarrow> nat \<Rightarrow> block" where
  "blk_set_bit b n = b(n div 8 := set_bit (n mod 8) (b (n div 8)))"

definition blk_clear_bit :: "block \<Rightarrow> nat \<Rightarrow> block" where
  "blk_clear_bit b n = b(n div 8 := unset_bit (n mod 8) (b (n div 8)))"

lemma blk_bit_set: "blk_bit (blk_set_bit b n) m = (m = n \<or> blk_bit b m)"
proof (cases "m div 8 = n div 8")
  case True
  then have "m mod 8 = n mod 8 \<longleftrightarrow> m = n" by (metis div_mult_mod_eq)
  with True show ?thesis by (auto simp: blk_bit_def blk_set_bit_def bit_set_bit_iff)
next
  case False
  then show ?thesis by (auto simp: blk_bit_def blk_set_bit_def)
qed

lemma blk_bit_clear: "blk_bit (blk_clear_bit b n) m = (m \<noteq> n \<and> blk_bit b m)"
proof (cases "m div 8 = n div 8")
  case True
  then have "m mod 8 = n mod 8 \<longleftrightarrow> m = n" by (metis div_mult_mod_eq)
  with True show ?thesis by (auto simp: blk_bit_def blk_clear_bit_def bit_unset_bit_iff)
next
  case False
  then show ?thesis by (auto simp: blk_bit_def blk_clear_bit_def)
qed

lemma bit_join_bytes:
  fixes lo hi :: "'a::len word"
  assumes "LENGTH('b::len) = 2 * LENGTH('a)"
  shows "bit (ucast lo OR push_bit LENGTH('a) (ucast hi) :: 'b word) k \<longleftrightarrow>
    (if k < LENGTH('a) then bit lo k else bit hi (k - LENGTH('a)))"
  using bit_imp_le_length[of lo k] bit_imp_le_length[of hi "k - LENGTH('a)"] assms
  by (simp only: bit_or_iff bit_word_ucast_iff bit_push_bit_iff possible_bit_word) auto

lemma bit_get16: "bit (get16 b i) k = (if k < 8 then bit (b (2 * i)) k else bit (b (2 * i + 1)) (k - 8))"
  using bit_join_bytes[where 'a=8 and 'b=16, of "b (2*i)" "b (2*i+1)" k] by (simp only: get16_def) simp
lemma bit_get32: "bit (get32 b i) k = (if k < 16 then bit (get16 b (2 * i)) k else bit (get16 b (2 * i + 1)) (k - 16))"
  using bit_join_bytes[where 'a=16 and 'b=32, of "get16 b (2*i)" "get16 b (2*i+1)" k] by (simp only: get32_def) simp
lemma bit_get16_blk:
  assumes "k < 16"
  shows "bit (get16 b i) k = blk_bit b (16 * i + k)"
proof -
  have "(8 * (2 * i) + k) div 8 = 2 * i + k div 8" "(8 * (2 * i) + k) mod 8 = k mod 8"
    by (simp_all only: div_mult_self4 mod_mult_self4 div_mult_self3)
  then have "blk_bit b (16 * i + k) = bit (b (2 * i + k div 8)) (k mod 8)"
    by (simp add: blk_bit_def)
  moreover have "k < 8 \<Longrightarrow> k div 8 = 0" "\<not> k < 8 \<Longrightarrow> k div 8 = 1 \<and> k mod 8 = k - 8"
    using assms by (auto simp: div_if mod_if)
  ultimately show ?thesis by (cases "k < 8") (simp_all add: bit_get16)
qed
lemma bit_get32_blk: "k < 32 \<Longrightarrow> bit (get32 b i) k = blk_bit b (32 * i + k)"
  using bit_get16_blk[of k b "2*i"] bit_get16_blk[of "k - 16" b "2*i+1"]
  by (simp add: bit_get32)

lemma get16_put16_same [simp]: "get16 (put16 b i v) i = v"
proof (rule bit_word_eqI)
  fix n assume "n < LENGTH(16)"
  then show "bit (get16 (put16 b i v) i) n = bit v n"
    by (simp only: bit_get16 put16_def) (auto simp add: bit_word_ucast_iff bit_drop_bit_eq)
qed
lemma get16_put16_other [simp]: 
  assumes "i \<noteq> j"
  shows "get16 (put16 b i v) j = get16 b j"
proof -
  have "2 * j \<noteq> Suc (2 * i)" "Suc (2 * j) \<noteq> 2 * i" by (simp_all add: double_not_eq_Suc_double Suc_double_not_eq_double)
  with assms show ?thesis by (simp add: get16_def put16_def)
qed

lemma get16_put16: "get16 (put16 b i v) j = (if i = j then v else get16 b j)"
  by simp

lemma get16_zero [simp]: "get16 zero_block i = 0"
  by (simp add: get16_def zero_block_def)

section \<open>Linked chains\<close>

text \<open>
  Following the pointer \<open>f\<close> from \<open>h\<close> visits exactly \<open>cs\<close> and ends in null; \<open>back_chain\<close> is the
  same for the pointers back.
\<close>

fun chain :: "(nat \<Rightarrow> nat option) \<Rightarrow> nat option \<Rightarrow> nat list \<Rightarrow> bool" where
  "chain f h [] \<longleftrightarrow> h = None"
| "chain f h (c # cs) \<longleftrightarrow> h = Some c \<and> chain f (f c) cs"

lemma chain_cong: "(\<And>c. c \<in> set cs \<Longrightarrow> f c = g c) \<Longrightarrow> chain f h cs = chain g h cs"
  by (induction cs arbitrary: h) auto

text \<open>A segment ends in the pointer \<open>e\<close>.\<close>

fun seg :: "(nat \<Rightarrow> nat option) \<Rightarrow> nat option \<Rightarrow> nat list \<Rightarrow> nat option \<Rightarrow> bool" where
  "seg f h [] e \<longleftrightarrow> h = e"
| "seg f h (c # cs) e \<longleftrightarrow> h = Some c \<and> seg f (f c) cs e"

lemma seg_None: "seg f h cs None = chain f h cs"
  by (induction cs arbitrary: h) auto

lemma chain_append: "chain f h (xs @ ys) \<longleftrightarrow> (\<exists>m. seg f h xs m \<and> chain f m ys)"
  by (induction xs arbitrary: h) auto

lemma seg_upd_last:
  "seg f h xs e \<Longrightarrow> xs \<noteq> [] \<Longrightarrow> distinct xs \<Longrightarrow> (\<And>c. c \<in> set xs \<Longrightarrow> c \<noteq> last xs \<Longrightarrow> g c = f c) \<Longrightarrow>
    g (last xs) = e' \<Longrightarrow> seg g h xs e'"
proof (induction xs arbitrary: h)
  case Nil
  then show ?case by simp
next
  case (Cons c cs)
  show ?case
  proof (cases "cs = []")
    case True
    with Cons.prems show ?thesis by simp
  next
    case False
    then have "g c = f c" using Cons.prems(3) by (intro Cons.prems(4)) auto
    moreover have "seg g (f c) cs e'"
      by (rule Cons.IH) (use Cons.prems False in auto)
    ultimately show ?thesis using Cons.prems(1) by simp
  qed
qed

lemma seg_last: "seg f h xs e \<Longrightarrow> xs \<noteq> [] \<Longrightarrow> f (last xs) = e"
  by (induction xs arbitrary: h) auto

fun back_chain :: "(nat \<Rightarrow> nat option) \<Rightarrow> nat option \<Rightarrow> nat list \<Rightarrow> bool" where
  "back_chain f prev [] \<longleftrightarrow> True"
| "back_chain f prev (c # cs) \<longleftrightarrow> f c = prev \<and> back_chain f (Some c) cs"

lemma back_chain_cong: "(\<And>c. c \<in> set cs \<Longrightarrow> f c = g c) \<Longrightarrow> back_chain f h cs = back_chain g h cs"
  by (induction cs arbitrary: h) auto

lemma back_chain_append: "back_chain f p (cs @ ds) \<longleftrightarrow>
    back_chain f p cs \<and> back_chain f (if cs = [] then p else Some (last cs)) ds"
  by (induction cs arbitrary: p) auto

definition last_opt :: "nat list \<Rightarrow> nat option" where
  "last_opt xs = (if xs = [] then None else Some (last xs))"

lemma back_chain_replace:
  "back_chain f p ys \<Longrightarrow> distinct ys \<Longrightarrow> (\<And>c. c \<in> set ys \<Longrightarrow> g c = (if c = hd ys then q else f c)) \<Longrightarrow>
    back_chain g q ys"
proof (cases ys)
  case (Cons c cs)
  assume a: "back_chain f p ys" and d: "distinct ys"
    and g: "\<And>c. c \<in> set ys \<Longrightarrow> g c = (if c = hd ys then q else f c)"
  have "back_chain g (Some c) cs = back_chain f (Some c) cs"
    by (rule back_chain_cong) (use d g Cons in auto)
  with a g[of c] Cons show ?thesis by simp
qed simp

section \<open>Interfaces\<close>

text \<open>
  A deterministic transition system with an invariant: the client's fact is that a run over any
  list of events keeps it. The components whose operations are total functions of the state
  interpret it.
\<close>

locale transition_system =
  fixes step :: "'s \<Rightarrow> 'e \<Rightarrow> 's"
    and inv :: "'s \<Rightarrow> bool"
  assumes step_inv: "inv s \<Longrightarrow> inv (step s e)"
begin

lemma run_inv: "inv s \<Longrightarrow> inv (foldl step s es)"
  by (induction es arbitrary: s) (auto intro: step_inv)

end

text \<open>
  An allocator of numbered resources: disk zones, inode numbers, page frames, swap slots.
  \<open>used\<close> is what the client sees. A run of allocations hands out distinct numbers that were
  all free, and freeing what was just allocated restores the used set.
\<close>

locale allocator =
  fixes used :: "'s \<Rightarrow> nat set"
    and inv :: "'s \<Rightarrow> bool"
    and alloc :: "'s \<Rightarrow> (nat \<times> 's) option"
    and free :: "'s \<Rightarrow> nat \<Rightarrow> 's option"
  assumes alloc_fresh: "inv s \<Longrightarrow> alloc s = Some (n, s') \<Longrightarrow> n \<notin> used s"
    and alloc_used: "inv s \<Longrightarrow> alloc s = Some (n, s') \<Longrightarrow> used s' = insert n (used s)"
    and alloc_inv: "inv s \<Longrightarrow> alloc s = Some (n, s') \<Longrightarrow> inv s'"
    and free_used: "inv s \<Longrightarrow> n \<in> used s \<Longrightarrow> free s n = Some s' \<Longrightarrow> used s' = used s - {n}"
    and free_inv: "inv s \<Longrightarrow> n \<in> used s \<Longrightarrow> free s n = Some s' \<Longrightarrow> inv s'"
begin

fun alloc_many :: "nat \<Rightarrow> 's \<Rightarrow> (nat list \<times> 's) option" where
  "alloc_many 0 s = Some ([], s)"
| "alloc_many (Suc k) s =
     (case alloc s of None \<Rightarrow> None
      | Some (n, s') \<Rightarrow> map_option (\<lambda>(ns, s''). (n # ns, s'')) (alloc_many k s'))"

lemma alloc_many_distinct:
  "inv s \<Longrightarrow> alloc_many k s = Some (ns, s') \<Longrightarrow>
    distinct ns \<and> set ns \<inter> used s = {} \<and> used s' = set ns \<union> used s \<and> inv s'"
proof (induction k arbitrary: s ns)
  case 0
  then show ?case by simp
next
  case (Suc k)
  from Suc.prems(2) obtain n t ms where a: "alloc s = Some (n, t)"
    and m: "alloc_many k t = Some (ms, s')" and ns: "ns = n # ms"
    by (auto split: option.splits prod.splits)
  note t = alloc_fresh[OF Suc.prems(1) a] alloc_used[OF Suc.prems(1) a]
    alloc_inv[OF Suc.prems(1) a]
  from Suc.IH[OF t(3) m] t(1,2) ns show ?case by auto
qed

lemma alloc_free_used:
  assumes "inv s" and "alloc s = Some (n, t)" and "free t n = Some u"
  shows "used u = used s"
proof -
  note a = alloc_fresh[OF assms(1,2)] alloc_used[OF assms(1,2)] alloc_inv[OF assms(1,2)]
  have "used u = used t - {n}" by (rule free_used[OF a(3) _ assms(3)]) (simp add: a(2))
  with a show ?thesis by simp
qed

end

text \<open>
  A bounded first-in first-out buffer over a ring: terminal queues and pipes.
\<close>

locale bounded_fifo =
  fixes list :: "'q \<Rightarrow> 'a list"
    and inv :: "'q \<Rightarrow> bool"
    and cap :: nat
    and enq :: "'a \<Rightarrow> 'q \<Rightarrow> 'q"
    and deq :: "'q \<Rightarrow> 'a \<times> 'q"
  assumes list_enq: "inv q \<Longrightarrow> length (list q) < cap \<Longrightarrow> list (enq x q) = list q @ [x]"
    and inv_enq: "inv q \<Longrightarrow> length (list q) < cap \<Longrightarrow> inv (enq x q)"
    and list_deq: "inv q \<Longrightarrow> list q \<noteq> [] \<Longrightarrow> fst (deq q) = hd (list q) \<and> list (snd (deq q)) = tl (list q)"
    and inv_deq: "inv q \<Longrightarrow> list q \<noteq> [] \<Longrightarrow> inv (snd (deq q))"
begin

lemma enq_many:
  "inv q \<Longrightarrow> length (list q) + length xs \<le> cap \<Longrightarrow>
    list (foldl (\<lambda>q x. enq x q) q xs) = list q @ xs \<and> inv (foldl (\<lambda>q x. enq x q) q xs)"
proof (induction xs arbitrary: q)
  case Nil
  then show ?case by simp
next
  case (Cons x xs)
  then have l: "list (enq x q) = list q @ [x]" and i: "inv (enq x q)"
    by (auto intro: list_enq inv_enq)
  from Cons.IH[OF i] Cons.prems l show ?case by simp
qed

fun deq_many :: "nat \<Rightarrow> 'q \<Rightarrow> 'a list \<times> 'q" where
  "deq_many 0 q = ([], q)"
| "deq_many (Suc n) q = (let (x, q') = deq q; (xs, q'') = deq_many n q' in (x # xs, q''))"

lemma deq_many_list:
  "inv q \<Longrightarrow> n \<le> length (list q) \<Longrightarrow>
    fst (deq_many n q) = take n (list q) \<and> list (snd (deq_many n q)) = drop n (list q)
      \<and> inv (snd (deq_many n q))"
proof (induction n arbitrary: q)
  case 0
  then show ?case by simp
next
  case (Suc n)
  then have ne: "list q \<noteq> []" by auto
  note d = list_deq[OF Suc.prems(1) ne] inv_deq[OF Suc.prems(1) ne]
  have "n \<le> length (list (snd (deq q)))" using Suc.prems(2) d by simp
  from Suc.IH[OF d(2) this] d ne show ?case
    by (cases "list q") (auto simp: Let_def split: prod.splits)
qed

lemma fifo_order:
  assumes "inv q" and "list q = []" and "length xs \<le> cap"
  shows "fst (deq_many (length xs) (foldl (\<lambda>q x. enq x q) q xs)) = xs"
proof -
  from enq_many[OF assms(1), of xs] assms(2,3)
  have "list (foldl (\<lambda>q x. enq x q) q xs) = xs \<and> inv (foldl (\<lambda>q x. enq x q) q xs)" by simp
  then show ?thesis using deq_many_list[of "foldl (\<lambda>q x. enq x q) q xs" "length xs"] by simp
qed

end

end
