(* ===== verification/FsState.thy ===== *)
theory FsState
  imports Prelude
begin

text \<open>
  The state the file system routines share (\<open>include/linux/fs.h\<close>): buffers, super blocks and
  in-core inodes, and the buffer cache as its clients see it. A buffer is identified by what
  it caches, the pair of a device and a block number; a client holds it from
  \<open>getblk\<close> or \<open>bread\<close> to \<open>brelse\<close>. Waiting for the driver is not visible to a client
  (\<open>bread\<close> returns after the transfer), so \<open>b_lock\<close> and \<open>b_wait\<close> have no place here. A block
  the driver cannot read is \<open>None\<close> in \<open>disk\<close>.
\<close>

section \<open>Data\<close>

record buffer_head =
  b_data :: block
  b_uptodate :: bool
  b_dirt :: bool
  b_count :: u8

type_synonym bkey = "u16 \<times> int"

record super_block =
  s_ninodes :: u16
  s_nzones :: u16
  s_imap_blocks :: u16
  s_zmap_blocks :: u16
  s_firstdatazone :: u16
  s_imap :: "nat \<Rightarrow> buffer_head option"
  s_zmap :: "nat \<Rightarrow> buffer_head option"
  s_dev :: u16

record m_inode =
  i_mode :: u16
  i_uid :: u16
  i_size :: u32
  i_mtime :: u32
  i_gid :: u8
  i_nlinks :: u8
  i_zone :: "nat \<Rightarrow> u16"
  i_atime :: u32
  i_ctime :: u32
  i_dev :: u16
  i_num :: u16
  i_count :: u16
  i_dirt :: bool
  i_pipe :: bool
  i_mount :: bool

definition zero_inode :: m_inode where
  "zero_inode = \<lparr>i_mode = 0, i_uid = 0, i_size = 0, i_mtime = 0, i_gid = 0, i_nlinks = 0,
     i_zone = (\<lambda>_. 0), i_atime = 0, i_ctime = 0, i_dev = 0, i_num = 0, i_count = 0,
     i_dirt = False, i_pipe = False, i_mount = False\<rparr>"

record fs_state =
  super :: "nat \<Rightarrow> super_block"
  bufs :: "bkey \<Rightarrow> buffer_head option"
  disk :: "bkey \<Rightarrow> block option"
  cur_time :: u32

definition NR_SUPER :: nat where "NR_SUPER = 8"

section \<open>The super block table\<close>

text \<open>\<open>get_super\<close> (\<open>fs/super.c\<close>): the slot of the device's super block; device 0 has none.\<close>

definition get_super :: "u16 \<Rightarrow> fs_state \<Rightarrow> nat option" where
  "get_super dev s =
     (if dev = 0 then None
      else find (\<lambda>i. s_dev (super s i) = dev) [0..<NR_SUPER])"

lemma find_Some_iff_set: "find P xs = Some x \<Longrightarrow> x \<in> set xs \<and> P x"
  by (induction xs) (auto split: if_splits)

lemma get_super_SomeD:
  "get_super dev s = Some k \<Longrightarrow> dev \<noteq> 0 \<and> k < NR_SUPER \<and> s_dev (super s k) = dev"
  by (auto simp: get_super_def split: if_splits dest!: find_Some_iff_set)

lemma get_super_cong:
  "(\<And>i. s_dev (super s i) = s_dev (super t i)) \<Longrightarrow> get_super dev s = get_super dev t"
  by (simp add: get_super_def)

section \<open>The cache as its clients see it\<close>

definition find_buf :: "bkey \<Rightarrow> fs_state \<Rightarrow> buffer_head option" where
  "find_buf k s = bufs s k"

definition upd_buf :: "bkey \<Rightarrow> (buffer_head \<Rightarrow> buffer_head) \<Rightarrow> fs_state \<Rightarrow> fs_state" where
  "upd_buf k f s = s\<lparr>bufs := (bufs s)(k := map_option f (bufs s k))\<rparr>"

text \<open>\<open>get_hash_table\<close>: whether the block is cached; if it is, the caller now holds it.\<close>

definition get_hash_table :: "bkey \<Rightarrow> fs_state \<Rightarrow> bool \<times> fs_state" where
  "get_hash_table k s =
     (case bufs s k of
        None \<Rightarrow> (False, s)
      | Some b \<Rightarrow> (True, upd_buf k (\<lambda>b. b\<lparr>b_count := b_count b + 1\<rparr>) s))"

definition fresh_buf :: buffer_head where
  "fresh_buf = \<lparr>b_data = zero_block, b_uptodate = False, b_dirt = False, b_count = 1\<rparr>"

definition getblk :: "bkey \<Rightarrow> fs_state \<Rightarrow> fs_state" where
  "getblk k s =
     (case bufs s k of
        None \<Rightarrow> s\<lparr>bufs := (bufs s)(k \<mapsto> fresh_buf)\<rparr>
      | Some b \<Rightarrow> upd_buf k (\<lambda>b. b\<lparr>b_count := b_count b + 1\<rparr>) s)"

text \<open>\<open>brelse\<close> tests the count before it decrements it.\<close>

definition brelse :: "bkey \<Rightarrow> fs_state \<Rightarrow> fs_state kres" where
  "brelse k s =
     (case bufs s k of
        None \<Rightarrow> Inr s
      | Some b \<Rightarrow>
          if b_count b = 0 then Inl (Panic ''Trying to free free buffer'')
          else Inr (upd_buf k (\<lambda>b. b\<lparr>b_count := b_count b - 1\<rparr>) s))"

text \<open>\<open>bread\<close>: \<open>False\<close> when the block cannot be read.\<close>

definition bread :: "bkey \<Rightarrow> fs_state \<Rightarrow> (bool \<times> fs_state) kres" where
  "bread k s =
     (let s1 = getblk k s
      in case bufs s1 k of
           None \<Rightarrow> Inl NullDeref
         | Some b \<Rightarrow>
             if b_uptodate b then Inr (True, s1)
             else case disk s1 k of
                    Some d \<Rightarrow> Inr (True, upd_buf k (\<lambda>b. b\<lparr>b_data := d, b_uptodate := True\<rparr>) s1)
                  | None \<Rightarrow> kbind (brelse k s1) (\<lambda>s2. Inr (False, s2)))"

text \<open>
  What a block holds for the rest of the kernel: the cached contents when the cache has them,
  the disk's otherwise.
\<close>

definition contents :: "fs_state \<Rightarrow> bkey \<Rightarrow> block option" where
  "contents s k =
     (case bufs s k of
        Some b \<Rightarrow> if b_uptodate b then Some (b_data b) else disk s k
      | None \<Rightarrow> disk s k)"

definition held :: "fs_state \<Rightarrow> bkey \<Rightarrow> u8" where
  "held s k = (case bufs s k of Some b \<Rightarrow> b_count b | None \<Rightarrow> 0)"


section \<open>Laws of the cache interface\<close>

lemma contents_cong: "bufs t q = bufs s q \<Longrightarrow> disk t = disk s \<Longrightarrow> contents t q = contents s q"
  by (simp add: contents_def split: option.splits)

lemma held_cong: "bufs t q = bufs s q \<Longrightarrow> held t q = held s q"
  by (simp add: held_def)

lemma super_upd_buf [simp]: "super (upd_buf k f s) = super s"
  by (simp add: upd_buf_def)

lemma disk_upd_buf [simp]: "disk (upd_buf k f s) = disk s"
  by (simp add: upd_buf_def)

lemma cur_time_upd_buf [simp]: "cur_time (upd_buf k f s) = cur_time s"
  by (simp add: upd_buf_def)

lemma bufs_upd_buf [simp]: "bufs (upd_buf k f s) = (bufs s)(k := map_option f (bufs s k))"
  by (simp add: upd_buf_def)

text \<open>
  Two states that agree on everything but who holds buffers and which blocks are cached: the
  relation every read-only use of the cache establishes.
\<close>

definition same_view :: "fs_state \<Rightarrow> fs_state \<Rightarrow> bool" where
  "same_view s t \<longleftrightarrow> super t = super s \<and> disk t = disk s \<and> cur_time t = cur_time s
     \<and> (\<forall>k. contents t k = contents s k) \<and> (\<forall>k. held t k = held s k)"

lemma same_view_refl [simp]: "same_view s s"
  by (simp add: same_view_def)

lemma same_view_trans: "same_view s t \<Longrightarrow> same_view t u \<Longrightarrow> same_view s u"
  by (simp add: same_view_def)

lemma contents_getblk [simp]: "contents (getblk k s) k' = contents s k'"
  by (auto simp: contents_def getblk_def fresh_buf_def split: option.splits)

lemma super_getblk [simp]: "super (getblk k s) = super s"
  and disk_getblk [simp]: "disk (getblk k s) = disk s"
  and cur_time_getblk [simp]: "cur_time (getblk k s) = cur_time s"
  by (simp_all add: getblk_def split: option.splits)

lemma held_getblk: "held (getblk k s) k' = (if k' = k then held s k + 1 else held s k')"
  by (auto simp: held_def getblk_def fresh_buf_def split: option.splits)

lemma bread_ok:
  assumes "bread k s = Inr (True, s1)"
  obtains b where "bufs s1 k = Some b" and "b_uptodate b" and "contents s k = Some (b_data b)"
    and "super s1 = super s" and "disk s1 = disk s" and "cur_time s1 = cur_time s"
    and "\<And>k'. contents s1 k' = contents s k'"
    and "\<And>k'. held s1 k' = (if k' = k then held s k + 1 else held s k')"
proof -
  from assms obtain b where b: "bufs (getblk k s) k = Some b"
    by (auto simp: bread_def Let_def split: option.splits)
  have c: "contents s k = contents (getblk k s) k" by simp
  have c': "contents s k' = contents (getblk k s) k'" for k' by simp
  have h: "held (getblk k s) k' = (if k' = k then held s k + 1 else held s k')" for k'
    by (rule held_getblk)
  show ?thesis
  proof (cases "b_uptodate b")
    case True
    with assms b have "s1 = getblk k s" by (simp add: bread_def Let_def)
    moreover have "contents s k = Some (b_data b)" using b True by (subst c) (simp add: contents_def)
    ultimately show ?thesis
      using b True by (intro that[of b]) (simp_all add: h)
  next
    case False
    let ?f = "\<lambda>d b. b\<lparr>b_data := d, b_uptodate := True\<rparr>"
    from assms b False obtain d where d: "disk s k = Some d"
      and s1: "s1 = upd_buf k (?f d) (getblk k s)"
      by (auto simp: bread_def Let_def kbind_Inr_iff split: option.splits if_splits)
    have "contents s1 k' = contents s k'" for k'
      using b False d by (subst c') (auto simp: s1 contents_def split: option.splits)
    moreover have "held s1 k' = held (getblk k s) k'" for k'
      using b by (auto simp: s1 held_def)
    moreover have "contents s k = Some d" using b False d by (subst c) (auto simp: contents_def)
    ultimately show ?thesis
      using b s1 by (intro that[of "?f d b"]) (auto simp: h)
  qed
qed

lemma bread_fail:
  assumes "bread k s = Inr (False, s1)"
  shows "same_view s s1" and "contents s k = None"
proof -
  let ?s = "getblk k s"
  from assms obtain b where b: "bufs ?s k = Some b" and n: "\<not> b_uptodate b"
    and d: "disk s k = None" and r: "brelse k ?s = Inr s1"
    by (auto simp: bread_def Let_def kbind_Inr_iff split: option.splits if_splits)
  have c': "contents s k' = contents ?s k'" for k' by simp
  show "contents s k = None" using b n d by (subst c') (simp add: contents_def)
  from r b have s1: "s1 = upd_buf k (\<lambda>b. b\<lparr>b_count := b_count b - 1\<rparr>) ?s"
    by (auto simp: brelse_def split: if_splits)
  have "contents s1 k' = contents s k'" for k'
    using b n by (subst c') (auto simp: s1 contents_def split: option.splits)
  moreover have "held s1 k' = held s k'" for k'
  proof -
    have "held s1 k' = (if k' = k then held ?s k - 1 else held ?s k')"
      using b by (auto simp: s1 held_def)
    then show ?thesis by (simp add: held_getblk)
  qed
  ultimately show "same_view s s1" by (simp add: same_view_def s1)
qed

lemma brelse_ok:
  assumes "brelse k s = Inr s1" and "bufs s k = Some b"
  shows "b_count b \<noteq> 0" and "super s1 = super s" and "disk s1 = disk s"
    and "cur_time s1 = cur_time s" and "contents s1 k' = contents s k'"
    and "held s1 k' = (if k' = k then held s k - 1 else held s k')"
  using assms by (auto simp: brelse_def contents_def held_def split: if_splits option.splits)

end
