(* ===== verification/Bitmap.thy ===== *)
theory Bitmap
  imports FsState
begin

text \<open>
  The block and inode bitmaps (\<open>fs/bitmap.c\<close>). A map is up to eight buffers of 8192 bits; the
  inline assembly (\<open>set_bit\<close>, \<open>clear_bit\<close>, \<open>find_first_zero\<close>) is translated instruction by
  instruction: \<open>bts\<close> and \<open>btr\<close> return the old bit, and the search reads a long at a time.
\<close>

section \<open>The bit instructions\<close>

text \<open>\<open>bsf\<close>: the index of the lowest set bit (32 when there is none: the zero flag).\<close>

definition bsf :: "u32 \<Rightarrow> nat" where
  "bsf w = length (takeWhile (\<lambda>n. \<not> bit w n) [0..<32])"

function find_first_zero_from :: "block \<Rightarrow> nat \<Rightarrow> nat" where
  "find_first_zero_from b ecx =
     (let eax = NOT (get32 b (ecx div 32))
      in if eax \<noteq> 0 then ecx + bsf eax
         else if ecx + 32 < 8192 then find_first_zero_from b (ecx + 32) else ecx + 32)"
  by pat_completeness auto
termination
  by (relation "measure (\<lambda>(b, ecx). 8192 - ecx)") auto

declare find_first_zero_from.simps [simp del]

definition find_first_zero :: "block \<Rightarrow> nat" where
  "find_first_zero b = find_first_zero_from b 0"

definition set_bit_at :: "nat \<Rightarrow> block \<Rightarrow> bool \<times> block" where
  "set_bit_at nr b = (blk_bit b nr, blk_set_bit b nr)"

text \<open>\<open>clear_bit\<close> returns the complement of the old bit (\<open>setnb\<close>).\<close>

definition clear_bit_at :: "nat \<Rightarrow> block \<Rightarrow> bool \<times> block" where
  "clear_bit_at nr b = (\<not> blk_bit b nr, blk_clear_bit b nr)"

section \<open>The operations\<close>

definition upd_super :: "nat \<Rightarrow> (super_block \<Rightarrow> super_block) \<Rightarrow> fs_state \<Rightarrow> fs_state" where
  "upd_super k f s = s\<lparr>super := (super s)(k := f (super s k))\<rparr>"

text \<open>
  \<open>free_block\<close>. The result is \<open>False\<close> (0) when another holder of the buffer keeps the block
  busy. The two \<open>printk\<close> lines of an already clear bit have no effect on the state.
\<close>

definition free_block :: "u16 \<Rightarrow> int \<Rightarrow> fs_state \<Rightarrow> (bool \<times> fs_state) kres" where
  "free_block dev block s =
     (case get_super dev s of
        None \<Rightarrow> Inl (Panic ''trying to free block on nonexistent device'')
      | Some k \<Rightarrow>
          let sb = super s k
          in if block < uint (s_firstdatazone sb) \<or> block \<ge> uint (s_nzones sb)
             then Inl (Panic ''trying to free block not in datazone'')
             else
               let (found, s1) = get_hash_table (dev, block) s
               in if found \<and> held s1 (dev, block) > 1
                  then kbind (brelse (dev, block) s1) (\<lambda>s2. Inr (False, s2))
                  else
                    kbind
                      (if found
                       then let s2 = upd_buf (dev, block)
                                  (\<lambda>b. b\<lparr>b_dirt := False, b_uptodate := False\<rparr>) s1
                            in if held s2 (dev, block) \<noteq> 0 then brelse (dev, block) s2 else Inr s2
                       else Inr s1)
                      (\<lambda>s3.
                         let n = nat (block - (uint (s_firstdatazone sb) - 1))
                         in case s_zmap sb (n div 8192) of
                              None \<Rightarrow> Inl NullDeref
                            | Some bh \<Rightarrow>
                                Inr (True,
                                  upd_super k
                                    (\<lambda>sb. sb\<lparr>s_zmap := (s_zmap sb)(n div 8192 \<mapsto>
                                       bh\<lparr>b_data := snd (clear_bit_at (n mod 8192) (b_data bh)),
                                          b_dirt := True\<rparr>)\<rparr>) s3)))"

text \<open>
  The search loop of \<open>new_block\<close> and \<open>new_inode\<close>: \<open>i\<close>, the last non-null buffer's slot, and
  \<open>j\<close> as the loop leaves them.
\<close>

fun map_scan :: "(nat \<Rightarrow> buffer_head option) \<Rightarrow> nat list \<Rightarrow> nat \<Rightarrow> (nat \<times> buffer_head) option \<times> nat" where
  "map_scan m [] j = (None, j)"
| "map_scan m (i # is) j =
     (case m i of
        None \<Rightarrow> map_scan m is j
      | Some bh \<Rightarrow>
          let j' = find_first_zero (b_data bh)
          in if j' < 8192 then (Some (i, bh), j') else map_scan m is j')"

definition new_block :: "u16 \<Rightarrow> fs_state \<Rightarrow> (int \<times> fs_state) kres" where
  "new_block dev s =
     (case get_super dev s of
        None \<Rightarrow> Inl (Panic ''trying to get new block from nonexistant device'')
      | Some k \<Rightarrow>
          let sb = super s k
          in case map_scan (s_zmap sb) [0..<8] 8192 of
               (None, _) \<Rightarrow> Inr (0, s)
             | (Some (i, bh), j) \<Rightarrow>
                 let (old, d) = set_bit_at j (b_data bh)
                 in if old then Inl (Panic ''new_block: bit already set'')
                    else
                      let s1 = upd_super k
                            (\<lambda>sb. sb\<lparr>s_zmap := (s_zmap sb)(i \<mapsto> bh\<lparr>b_data := d, b_dirt := True\<rparr>)\<rparr>) s;
                          z = int j + int i * 8192 + uint (s_firstdatazone sb) - 1
                      in if z \<ge> uint (s_nzones sb) then Inr (0, s1)
                         else
                           let s2 = getblk (dev, z) s1
                           in if held s2 (dev, z) \<noteq> 1
                              then Inl (Panic ''new block: count is != 1'')
                              else kbind
                                (brelse (dev, z) (upd_buf (dev, z)
                                  (\<lambda>b. b\<lparr>b_data := zero_block, b_uptodate := True, b_dirt := True\<rparr>) s2))
                                (\<lambda>s3. Inr (z, s3)))"

text \<open>
  \<open>free_inode\<close>: the caller's in-core inode is passed and returned; \<open>memset\<close> clears it.
\<close>

definition free_inode :: "m_inode \<Rightarrow> fs_state \<Rightarrow> (m_inode \<times> fs_state) kres" where
  "free_inode inode s =
     (if i_dev inode = 0 then Inr (zero_inode, s)
      else if i_count inode > 1 then Inl (Panic ''free_inode'')
      else if i_nlinks inode \<noteq> 0 then Inl (Panic ''trying to free inode with links'')
      else
        case get_super (i_dev inode) s of
          None \<Rightarrow> Inl (Panic ''trying to free inode on nonexistent device'')
        | Some k \<Rightarrow>
            let sb = super s k; n = unat (i_num inode)
            in if n < 1 \<or> n > unat (s_ninodes sb)
               then Inl (Panic ''trying to free inode 0 or nonexistant inode'')
               else
                 case s_imap sb (n div 8192) of
                   None \<Rightarrow> Inl (Panic ''nonexistent imap in superblock'')
                 | Some bh \<Rightarrow>
                     Inr (zero_inode,
                       upd_super k
                         (\<lambda>sb. sb\<lparr>s_imap := (s_imap sb)(n div 8192 \<mapsto>
                            bh\<lparr>b_data := snd (clear_bit_at (n mod 8192) (b_data bh)),
                               b_dirt := True\<rparr>)\<rparr>) s))"

text \<open>
  The part of \<open>new_inode\<close> after \<open>get_empty_inode\<close> has returned \<open>inode\<close>, a cleared slot with
  count 1. \<open>None\<close> is the return of \<open>NULL\<close> after \<open>iput (inode)\<close>, which only drops the count
  of the still device-less slot. The caller's effective ids are arguments.
\<close>

definition new_inode :: "u16 \<Rightarrow> u16 \<Rightarrow> u16 \<Rightarrow> m_inode \<Rightarrow> fs_state \<Rightarrow>
    (m_inode option \<times> fs_state) kres" where
  "new_inode dev euid egid inode s =
     (case get_super dev s of
        None \<Rightarrow> Inl (Panic ''new_inode with unknown device'')
      | Some k \<Rightarrow>
          let sb = super s k
          in case map_scan (s_imap sb) [0..<8] 8192 of
               (None, _) \<Rightarrow> Inr (None, s)
             | (Some (i, bh), j) \<Rightarrow>
                 if j + i * 8192 > unat (s_ninodes sb) then Inr (None, s)
                 else
                   let (old, d) = set_bit_at j (b_data bh)
                   in if old then Inl (Panic ''new_inode: bit already set'')
                      else Inr (Some (inode\<lparr>i_count := 1, i_nlinks := 1, i_dev := dev,
                             i_uid := euid, i_gid := ucast egid, i_dirt := True,
                             i_num := of_nat (j + i * 8192),
                             i_mtime := cur_time s, i_atime := cur_time s,
                             i_ctime := cur_time s\<rparr>),
                           upd_super k
                             (\<lambda>sb. sb\<lparr>s_imap := (s_imap sb)(i \<mapsto> bh\<lparr>b_data := d, b_dirt := True\<rparr>)\<rparr>) s))"

section \<open>The search is the reference search\<close>

lemma bsf_bit:
  assumes "w \<noteq> 0"
  shows "bsf w < 32" and "bit w (bsf w)" and "\<And>n. n < bsf w \<Longrightarrow> \<not> bit w n"
proof -
  let ?t = "takeWhile (\<lambda>n. \<not> bit w n) [0..<32]"
  from assms obtain m where m: "bit w m" by (metis bit_eqI bit_0_eq bot_apply bot_bool_def)
  then have m32: "m < 32" using bit_imp_le_length[of w m] by simp
  have "length ?t \<noteq> length [0..<32]"
  proof
    assume "length ?t = length [0..<32]"
    then have "?t = [0..<32]" by (metis takeWhile_eq_take take_all order_refl)
    then have "\<forall>n \<in> set [0..<32]. \<not> bit w n" by (metis set_takeWhileD)
    with m m32 show False by auto
  qed
  then have l: "length ?t < length [0..<32::nat]" by (metis length_takeWhile_le le_neq_implies_less)
  then show "bsf w < 32" by (simp add: bsf_def)
  from nth_length_takeWhile[OF l] l show "bit w (bsf w)" by (simp add: bsf_def)
  fix n assume n: "n < bsf w"
  then have "[0..<32] ! n \<in> set ?t"
    by (metis bsf_def nth_mem takeWhile_nth)
  then have "\<not> bit w ([0..<32] ! n)" by (auto dest: set_takeWhileD)
  with n l show "\<not> bit w n" by (simp add: bsf_def)
qed


lemma find_first_zero_from_spec:
  assumes "ecx mod 32 = 0" and "ecx < 8192" and "\<forall>n<ecx. blk_bit b n"
  shows "find_first_zero_from b ecx \<le> 8192 \<and> (\<forall>n<find_first_zero_from b ecx. blk_bit b n)
    \<and> (find_first_zero_from b ecx < 8192 \<longrightarrow> \<not> blk_bit b (find_first_zero_from b ecx))"
  using assms
proof (induction b ecx rule: find_first_zero_from.induct)
  case (1 b ecx)
  let ?w = "NOT (get32 b (ecx div 32))"
  have ecx: "32 * (ecx div 32) = ecx" using "1.prems"(1) by auto
  have ecx32: "ecx + 32 \<le> 8192" using "1.prems"(1,2) by (auto simp: mod_eq_0_iff_dvd dvd_def)
  have bits: "k < 32 \<Longrightarrow> bit ?w k \<longleftrightarrow> \<not> blk_bit b (ecx + k)" for k
    using bit_get32_blk[of k b "ecx div 32"] by (simp add: bit_not_iff ecx)
  show ?case
  proof (cases "?w = 0")
    case False
    then have r: "find_first_zero_from b ecx = ecx + bsf ?w"
      by (simp add: find_first_zero_from.simps[of b ecx])
    note f = bsf_bit[OF False]
    have "blk_bit b n" if "n < ecx + bsf ?w" for n
    proof (cases "n < ecx")
      case False
      then obtain k where "n = ecx + k" by (metis le_Suc_ex not_less)
      then show ?thesis using that f bits[of k] by auto
    qed (use "1.prems"(3) in auto)
    with f(1,2) r bits[of "bsf ?w"] ecx32 show ?thesis by auto
  next
    case True
    have all: "\<forall>n<ecx + 32. blk_bit b n"
    proof (intro allI impI)
      fix n assume n: "n < ecx + 32"
      show "blk_bit b n"
      proof (cases "n < ecx")
        case False
        then obtain k where k: "n = ecx + k" by (metis le_Suc_ex not_less)
        with n True bits[of k] show ?thesis by simp
      qed (use "1.prems"(3) in auto)
    qed
    show ?thesis
    proof (cases "ecx + 32 < 8192")
      case True
      have m: "(ecx + 32) mod 32 = 0" using "1.prems"(1) by simp
      show ?thesis
        using "1.IH"[OF refl _ True m True all] \<open>?w = 0\<close> True
        by (simp add: find_first_zero_from.simps[of b ecx])
    next
      case False
      with \<open>?w = 0\<close> have "find_first_zero_from b ecx = ecx + 32"
        by (subst find_first_zero_from.simps) (simp only: Let_def simp_thms if_False)
      with False ecx32 all show ?thesis by simp
    qed
  qed
qed

lemmas find_first_zero_spec =
  find_first_zero_from_spec[of 0, folded find_first_zero_def, simplified]

lemma find_first_zero_clear: "find_first_zero b < 8192 \<Longrightarrow> \<not> blk_bit b (find_first_zero b)"
  using find_first_zero_spec[of b] by blast

lemma find_first_zero_eqI:
  assumes "r \<le> 8192" and "\<forall>n<r. blk_bit b n" and "r < 8192 \<longrightarrow> \<not> blk_bit b r"
  shows "find_first_zero b = r"
  using find_first_zero_spec[of b] assms by (metis linorder_neqE_nat order_less_le_trans)

lemma find_first_zero_takeWhile:
  "find_first_zero b = length (takeWhile (blk_bit b) [0..<8192])"
proof (rule find_first_zero_eqI)
  let ?t = "takeWhile (blk_bit b) [0..<8192]"
  have le: "length ?t \<le> length [0..<8192::nat]" by (rule length_takeWhile_le)
  then show "length ?t \<le> 8192" by simp
  show "\<forall>n<length ?t. blk_bit b n"
  proof (intro allI impI)
    fix n assume n: "n < length ?t"
    then have "?t ! n = n" using le by (simp add: takeWhile_nth)
    with n show "blk_bit b n" by (metis nth_mem set_takeWhileD)
  qed
  show "length ?t < 8192 \<longrightarrow> \<not> blk_bit b (length ?t)"
    using nth_length_takeWhile[of "blk_bit b" "[0..<8192]"] by auto
qed


section \<open>The allocator the maps implement\<close>

text \<open>
  Bit \<open>n\<close> of a map of eight slots; an absent slot has no free bit. Zone \<open>z\<close> of a device is
  bit \<open>z - (s_firstdatazone - 1)\<close> of its zone map.
\<close>

definition map_bit :: "(nat \<Rightarrow> buffer_head option) \<Rightarrow> nat \<Rightarrow> bool" where
  "map_bit m n =
     (case m (n div 8192) of None \<Rightarrow> True | Some bh \<Rightarrow> blk_bit (b_data bh) (n mod 8192))"

definition zone_index :: "super_block \<Rightarrow> int \<Rightarrow> nat" where
  "zone_index sb z = nat (z - (uint (s_firstdatazone sb) - 1))"

definition zone_used :: "super_block \<Rightarrow> int \<Rightarrow> bool" where
  "zone_used sb z = map_bit (s_zmap sb) (zone_index sb z)"

text \<open>What \<open>read_super\<close> establishes: the first data zone follows block 0 and bit 0 is set.\<close>

definition zmap_ok :: "super_block \<Rightarrow> bool" where
  "zmap_ok sb \<longleftrightarrow> s_firstdatazone sb \<noteq> 0 \<and> map_bit (s_zmap sb) 0"

lemma map_bit_upd:
  assumes "m i = Some bh" and "j < 8192"
  shows "map_bit (m(i \<mapsto> bh\<lparr>b_data := blk_set_bit (b_data bh) j, b_dirt := d\<rparr>)) n
      = (n = j + i * 8192 \<or> map_bit m n)"
    and "map_bit (m(i \<mapsto> bh\<lparr>b_data := blk_clear_bit (b_data bh) j, b_dirt := d\<rparr>)) n
      = (n \<noteq> j + i * 8192 \<and> map_bit m n)"
proof -
  have n: "n = j + i * 8192 \<longleftrightarrow> n div 8192 = i \<and> n mod 8192 = j"
    using assms(2) by (auto simp: div_mult_mod_eq)
  show "map_bit (m(i \<mapsto> bh\<lparr>b_data := blk_set_bit (b_data bh) j, b_dirt := d\<rparr>)) n
      = (n = j + i * 8192 \<or> map_bit m n)"
    using assms by (auto simp: n map_bit_def blk_bit_set)
  show "map_bit (m(i \<mapsto> bh\<lparr>b_data := blk_clear_bit (b_data bh) j, b_dirt := d\<rparr>)) n
      = (n \<noteq> j + i * 8192 \<and> map_bit m n)"
    using assms by (auto simp: n map_bit_def blk_bit_clear)
qed

lemma map_scan_Some:
  "map_scan m is j = (Some (i, bh), r) \<Longrightarrow>
    i \<in> set is \<and> m i = Some bh \<and> r = find_first_zero (b_data bh) \<and> r < 8192"
  by (induction m "is" j rule: map_scan.induct)
     (auto simp: Let_def split: option.splits if_splits)

lemma map_scan_None:
  "map_scan m is j = (None, r) \<Longrightarrow> i \<in> set is \<Longrightarrow> m i = Some bh \<Longrightarrow>
    find_first_zero (b_data bh) = 8192"
proof (induction m "is" j rule: map_scan.induct)
  case (2 m i' "is" j)
  then show ?case
    using find_first_zero_spec[of "b_data bh"]
    by (auto simp: Let_def split: option.splits if_splits)
qed simp

text \<open>The scan fails exactly when every bit of every present slot is set.\<close>

lemma map_scan_full:
  assumes "map_scan m [0..<8] j = (None, r)" and "n < 65536"
  shows "map_bit m n"
proof (cases "m (n div 8192)")
  case None
  then show ?thesis by (simp add: map_bit_def)
next
  case (Some bh)
  have "n div 8192 \<in> set [0..<8]" using assms(2) by auto
  from map_scan_None[OF assms(1) this Some] find_first_zero_spec[of "b_data bh"] Some
  show ?thesis by (simp add: map_bit_def)
qed

definition clean_zero_buf :: buffer_head where
  "clean_zero_buf = \<lparr>b_data = zero_block, b_uptodate = True, b_dirt = True, b_count = 0\<rparr>"

lemma clean_zero_buf_upd:
  "b\<lparr>b_data := zero_block, b_uptodate := True, b_dirt := True, b_count := 0\<rparr> = clean_zero_buf"
  by (cases b) (simp add: clean_zero_buf_def)

lemma new_block_cases:
  assumes "new_block dev s = Inr (z, s')"
  obtains (full) k j where "get_super dev s = Some k" and "z = 0" and "s' = s"
      and "map_scan (s_zmap (super s k)) [0..<8] 8192 = (None, j)"
  | (beyond) k i bh j where "get_super dev s = Some k" and "z = 0"
      and "s_zmap (super s k) i = Some bh" and "j < 8192" and "i < 8"
      and "int j + int i * 8192 + uint (s_firstdatazone (super s k)) - 1 \<ge> uint (s_nzones (super s k))"
      and "s' = upd_super k (\<lambda>sb. sb\<lparr>s_zmap := (s_zmap sb)(i \<mapsto>
             bh\<lparr>b_data := blk_set_bit (b_data bh) j, b_dirt := True\<rparr>)\<rparr>) s"
  | (found) k i bh j where "get_super dev s = Some k"
      and "s_zmap (super s k) i = Some bh" and "j < 8192" and "i < 8" and "\<not> blk_bit (b_data bh) j"
      and "z = int j + int i * 8192 + uint (s_firstdatazone (super s k)) - 1"
      and "z < uint (s_nzones (super s k))" and "held s (dev, z) = 0"
      and "s' = (upd_super k (\<lambda>sb. sb\<lparr>s_zmap := (s_zmap sb)(i \<mapsto>
             bh\<lparr>b_data := blk_set_bit (b_data bh) j, b_dirt := True\<rparr>)\<rparr>) s)
             \<lparr>bufs := (bufs s)((dev, z) \<mapsto> clean_zero_buf)\<rparr>"
proof -
  from assms obtain k where k: "get_super dev s = Some k"
    by (auto simp: new_block_def split: option.splits)
  obtain o' j where sc: "map_scan (s_zmap (super s k)) [0..<8] 8192 = (o', j)"
    by (cases "map_scan (s_zmap (super s k)) [0..<8] 8192")
  show ?thesis
  proof (cases o')
    case None
    with assms k sc show ?thesis by (intro full) (auto simp: new_block_def)
  next
    case (Some p)
    obtain i bh where p: "p = (i, bh)" by (cases p)
    with sc Some have sc': "map_scan (s_zmap (super s k)) [0..<8] 8192 = (Some (i, bh), j)" by simp
    note m = map_scan_Some[OF sc']
    then have nb: "\<not> blk_bit (b_data bh) j" using find_first_zero_clear by simp
    let ?z = "int j + int i * 8192 + uint (s_firstdatazone (super s k)) - 1"
    let ?s1 = "upd_super k (\<lambda>sb. sb\<lparr>s_zmap := (s_zmap sb)(i \<mapsto>
             bh\<lparr>b_data := blk_set_bit (b_data bh) j, b_dirt := True\<rparr>)\<rparr>) s"
    show ?thesis
    proof (cases "?z \<ge> uint (s_nzones (super s k))")
      case True
      with assms k sc' nb m show ?thesis
        by (intro beyond[of k i bh j]) (auto simp: new_block_def set_bit_at_def)
    next
      case False
      let ?s2 = "getblk (dev, ?z) ?s1"
      let ?f = "\<lambda>b. b\<lparr>b_data := zero_block, b_uptodate := True, b_dirt := True\<rparr>"
      have h: "held ?s2 (dev, ?z) = held s (dev, ?z) + 1"
        by (simp add: held_getblk) (simp add: held_def upd_super_def)
      from assms k sc' nb False have cnt: "held ?s2 (dev, ?z) = 1"
        and rel: "brelse (dev, ?z) (upd_buf (dev, ?z) ?f ?s2) = Inr s'" and z: "z = ?z"
        by (auto simp: new_block_def set_bit_at_def Let_def kbind_Inr_iff split: if_splits)
      obtain b where b: "bufs ?s2 (dev, ?z) = Some b" and c: "b_count b = 1"
        using cnt by (auto simp: held_def split: option.splits)
      have "s' = ?s1\<lparr>bufs := (bufs s)((dev, ?z) \<mapsto> clean_zero_buf)\<rparr>"
        using rel b c
        by (auto simp: brelse_def upd_buf_def getblk_def clean_zero_buf_upd upd_super_def fresh_buf_def
              split: option.splits) (simp add: clean_zero_buf_def)?
      with False k m nb z cnt h show ?thesis by (intro found[of k i bh j]) auto
    qed
  qed
qed

lemma get_super_upd_super [simp]:
  "(\<And>sb. s_dev (f sb) = s_dev sb) \<Longrightarrow> get_super dev (upd_super k f s) = get_super dev s"
  by (rule get_super_cong) (simp add: upd_super_def)

lemma contents_upd_super [simp]: "contents (upd_super k f s) q = contents s q"
  and held_upd_super [simp]: "held (upd_super k f s) q = held s q"
  and bufs_upd_super [simp]: "bufs (upd_super k f s) = bufs s"
  and disk_upd_super [simp]: "disk (upd_super k f s) = disk s"
  and cur_time_upd_super [simp]: "cur_time (upd_super k f s) = cur_time s"
  by (simp_all add: upd_super_def contents_def held_def split: option.splits)

text \<open>What a successful \<open>new_block\<close> does, in terms of the zone map and of block contents.\<close>

lemma new_block_spec:
  assumes "new_block dev s = Inr (z, s')" and "z \<noteq> 0"
    and k: "get_super dev s = Some k" and ok: "zmap_ok (super s k)"
  shows "uint (s_firstdatazone (super s k)) \<le> z" and "z < uint (s_nzones (super s k))"
    and "\<not> zone_used (super s k) z" and "held s (dev, z) = 0"
    and "zmap_ok (super s' k)"
    and "zone_used (super s' k) z' = (zone_index (super s k) z' = zone_index (super s k) z
           \<or> zone_used (super s k) z')"
    and "s_firstdatazone (super s' k) = s_firstdatazone (super s k)"
    and "s_nzones (super s' k) = s_nzones (super s k)"
    and "get_super dev s' = Some k"
    and "k' \<noteq> k \<Longrightarrow> super s' k' = super s k'"
    and "contents s' (dev, z) = Some zero_block"
    and "q \<noteq> (dev, z) \<Longrightarrow> bufs s' q = bufs s q"
    and "disk s' = disk s" and "cur_time s' = cur_time s" and "held s' (dev, z) = 0"
proof -
  let ?sb = "super s k"
  from assms(1,2) k obtain i bh j where m: "s_zmap ?sb i = Some bh" "j < 8192" "i < 8"
    "\<not> blk_bit (b_data bh) j" and z: "z = int j + int i * 8192 + uint (s_firstdatazone ?sb) - 1"
    "z < uint (s_nzones ?sb)" "held s (dev, z) = 0"
    and s': "s' = (upd_super k (\<lambda>sb. sb\<lparr>s_zmap := (s_zmap sb)(i \<mapsto>
             bh\<lparr>b_data := blk_set_bit (b_data bh) j, b_dirt := True\<rparr>)\<rparr>) s)
             \<lparr>bufs := (bufs s)((dev, z) \<mapsto> clean_zero_buf)\<rparr>"
    by (elim new_block_cases) auto
  have idx: "zone_index ?sb z = j + i * 8192"
    using z(1) by (simp add: zone_index_def nat_add_distrib nat_mult_distrib)
  have nu: "\<not> map_bit (s_zmap ?sb) (j + i * 8192)"
    using m by (simp add: map_bit_def)
  then have "j + i * 8192 \<noteq> 0" using ok by (metis zmap_ok_def)
  then show "uint (s_firstdatazone ?sb) \<le> z" using z(1) by linarith
  show "z < uint (s_nzones ?sb)" "held s (dev, z) = 0" by (rule z)+
  show "\<not> zone_used ?sb z" by (simp add: zone_used_def idx nu)
  have mb: "map_bit (s_zmap (super s' k)) n = (n = j + i * 8192 \<or> map_bit (s_zmap ?sb) n)" for n
    using map_bit_upd(1)[of "s_zmap ?sb" i bh j, OF m(1,2)] by (simp add: s' upd_super_def)
  have fd: "s_firstdatazone (super s' k) = s_firstdatazone ?sb" "s_nzones (super s' k) = s_nzones ?sb"
    by (simp_all add: s' upd_super_def)
  then show "s_firstdatazone (super s' k) = s_firstdatazone ?sb"
    "s_nzones (super s' k) = s_nzones ?sb" by blast+
  show "zmap_ok (super s' k)" using ok by (simp add: zmap_ok_def fd mb)
  show "zone_used (super s' k) z' = (zone_index ?sb z' = zone_index ?sb z \<or> zone_used ?sb z')"
    by (simp add: zone_used_def zone_index_def[of "super s' k"] fd mb idx)
       (simp add: zone_index_def)
  have "get_super dev s' = get_super dev s"
    by (rule get_super_cong) (simp add: s' upd_super_def)
  with k show "get_super dev s' = Some k" by simp
  show "k' \<noteq> k \<Longrightarrow> super s' k' = super s k'" by (simp add: s' upd_super_def)
  show "contents s' (dev, z) = Some zero_block" "held s' (dev, z) = 0"
    by (simp_all add: s' contents_def clean_zero_buf_def held_def)
  show "q \<noteq> (dev, z) \<Longrightarrow> bufs s' q = bufs s q" "disk s' = disk s" "cur_time s' = cur_time s"
    by (simp_all add: s' upd_super_def)
qed


text \<open>
  A failed \<open>new_block\<close> returns 0. It leaves the blocks alone, but the bit of a zone beyond the
  end of the device may have been set on the way.
\<close>

lemma new_block_zero:
  assumes "new_block dev s = Inr (0, s')" and k: "get_super dev s = Some k"
    and ok: "zmap_ok (super s k)"
  shows "bufs s' = bufs s" and "disk s' = disk s" and "cur_time s' = cur_time s"
    and "zone_used (super s k) z' \<Longrightarrow> zone_used (super s' k) z'"
    and "s_firstdatazone (super s' k) = s_firstdatazone (super s k)"
    and "s_nzones (super s' k) = s_nzones (super s k)"
    and "zmap_ok (super s' k)" and "get_super dev s' = Some k"
    and "k' \<noteq> k \<Longrightarrow> super s' k' = super s k'"
proof -
  let ?P = "bufs s' = bufs s \<and> disk s' = disk s \<and> cur_time s' = cur_time s
    \<and> (zone_used (super s k) z' \<longrightarrow> zone_used (super s' k) z')
    \<and> s_firstdatazone (super s' k) = s_firstdatazone (super s k)
    \<and> s_nzones (super s' k) = s_nzones (super s k)
    \<and> zmap_ok (super s' k) \<and> get_super dev s' = Some k \<and> (k' \<noteq> k \<longrightarrow> super s' k' = super s k')"
  from assms(1) have ?P
  proof (cases rule: new_block_cases)
    case full
    then show ?thesis using k ok by simp
  next
    case (beyond k2 i bh j)
    then have k2: "k2 = k" using k by simp
    have mb: "map_bit (s_zmap (super s' k)) n = (n = j + i * 8192 \<or> map_bit (s_zmap (super s k)) n)" for n
      using map_bit_upd(1)[of "s_zmap (super s k)" i bh j] beyond k2 by (simp add: upd_super_def)
    have fd: "s_firstdatazone (super s' k) = s_firstdatazone (super s k)"
      "s_nzones (super s' k) = s_nzones (super s k)"
      using beyond k2 by (simp_all add: upd_super_def)
    have "get_super dev s' = get_super dev s"
      by (rule get_super_cong) (simp add: beyond upd_super_def)
    then show ?thesis
      using beyond k2 k ok fd mb
      by (simp add: zmap_ok_def zone_used_def zone_index_def) (simp add: upd_super_def)
  next
    case (found k2 i bh j)
    then have k2: "k2 = k" using k by simp
    have "\<not> map_bit (s_zmap (super s k)) (j + i * 8192)"
      using found k2 by (simp add: map_bit_def)
    then have "j + i * 8192 \<noteq> 0" using ok by (metis zmap_ok_def)
    moreover have "uint (s_firstdatazone (super s k)) \<noteq> 0" using ok by (simp add: zmap_ok_def uint_0_iff)
    moreover have "0 \<le> uint (s_firstdatazone (super s k))" by simp
    moreover have "0 = int (j + i * 8192) + uint (s_firstdatazone (super s k)) - 1"
      using found(6) k2 by simp
    ultimately have False by linarith
    then show ?thesis ..
  qed
  then show "bufs s' = bufs s" and "disk s' = disk s" and "cur_time s' = cur_time s"
    and "zone_used (super s k) z' \<Longrightarrow> zone_used (super s' k) z'"
    and "s_firstdatazone (super s' k) = s_firstdatazone (super s k)"
    and "s_nzones (super s' k) = s_nzones (super s k)"
    and "zmap_ok (super s' k)" and "get_super dev s' = Some k"
    and "k' \<noteq> k \<Longrightarrow> super s' k' = super s k'"
    by blast+
qed

lemma free_block_spec:
  assumes "free_block dev z s = Inr (True, s')" and k: "get_super dev s = Some k"
  shows "uint (s_firstdatazone (super s k)) \<le> z" and "z < uint (s_nzones (super s k))"
    and "zone_used (super s' k) z' = (zone_index (super s k) z' \<noteq> zone_index (super s k) z
           \<and> zone_used (super s k) z')"
    and "s_firstdatazone (super s' k) = s_firstdatazone (super s k)"
    and "s_nzones (super s' k) = s_nzones (super s k)"
    and "zmap_ok (super s k) \<Longrightarrow> zmap_ok (super s' k)"
    and "get_super dev s' = Some k"
    and "k' \<noteq> k \<Longrightarrow> super s' k' = super s k'"
    and "q \<noteq> (dev, z) \<Longrightarrow> bufs s' q = bufs s q"
    and "disk s' = disk s" and "cur_time s' = cur_time s"
    and "contents s' (dev, z) = disk s (dev, z)"
    and "held s (dev, z) \<noteq> 255 \<Longrightarrow> held s (dev, z) = 0"
    and "held s (dev, z) = 0 \<Longrightarrow> held s' (dev, z) = 0"
    and "s_zmap (super s' k) i = None \<longleftrightarrow> s_zmap (super s k) i = None"
    and "get_super d s' = get_super d s"
proof -
  let ?sb = "super s k"
  let ?n = "nat (z - (uint (s_firstdatazone ?sb) - 1))"
  from assms(1) k have rng: "uint (s_firstdatazone ?sb) \<le> z" "z < uint (s_nzones ?sb)"
    by (auto simp: free_block_def Let_def split: if_splits)
  obtain found s1 where g: "get_hash_table (dev, z) s = (found, s1)" by fastforce
  have nb: "\<not> (found \<and> held s1 (dev, z) > 1)"
    using assms(1) k rng g by (auto simp: free_block_def Let_def kbind_Inr_iff)
  have g1: "super s1 = super s" "disk s1 = disk s" "cur_time s1 = cur_time s"
    "\<And>q. q \<noteq> (dev, z) \<Longrightarrow> bufs s1 q = bufs s q" "found \<longleftrightarrow> bufs s (dev, z) \<noteq> None"
    "found \<Longrightarrow> held s1 (dev, z) = held s (dev, z) + 1" "\<not> found \<Longrightarrow> s1 = s"
    using g by (auto simp: get_hash_table_def held_def split: option.splits if_splits)
  obtain s3 bh where s3: "(if found
                       then let s2 = upd_buf (dev, z)
                                  (\<lambda>b. b\<lparr>b_dirt := False, b_uptodate := False\<rparr>) s1
                            in if held s2 (dev, z) \<noteq> 0 then brelse (dev, z) s2 else Inr s2
                       else Inr s1) = Inr s3"
    and bh: "s_zmap ?sb (?n div 8192) = Some bh"
    and s': "s' = upd_super k (\<lambda>sb. sb\<lparr>s_zmap := (s_zmap sb)(?n div 8192 \<mapsto>
               bh\<lparr>b_data := blk_clear_bit (b_data bh) (?n mod 8192), b_dirt := True\<rparr>)\<rparr>) s3"
    using assms(1) k rng g nb
    by (auto simp: free_block_def Let_def kbind_Inr_iff clear_bit_at_def split: option.splits)
  have s3': "super s3 = super s" "disk s3 = disk s" "cur_time s3 = cur_time s"
    "\<And>q. q \<noteq> (dev, z) \<Longrightarrow> bufs s3 q = bufs s q" "contents s3 (dev, z) = disk s (dev, z)"
    using s3 g1 by (auto simp: Let_def brelse_def contents_def split: if_splits option.splits)
  have h3: "held s3 (dev, z) = held s (dev, z)" if "held s (dev, z) = 0"
    using s3 g1 that by (auto simp: Let_def brelse_def held_def split: if_splits option.splits)
  show "uint (s_firstdatazone ?sb) \<le> z" "z < uint (s_nzones ?sb)" by (rule rng)+
  have mb: "map_bit (s_zmap (super s' k)) n = (n \<noteq> ?n \<and> map_bit (s_zmap ?sb) n)" for n
    using map_bit_upd(2)[of "s_zmap ?sb" "?n div 8192" bh "?n mod 8192" True n] bh
    by (simp add: s' upd_super_def s3')
  have fd: "s_firstdatazone (super s' k) = s_firstdatazone ?sb" "s_nzones (super s' k) = s_nzones ?sb"
    by (simp_all add: s' upd_super_def s3')
  then show "s_firstdatazone (super s' k) = s_firstdatazone ?sb"
    "s_nzones (super s' k) = s_nzones ?sb" by blast+
  show "zone_used (super s' k) z' = (zone_index ?sb z' \<noteq> zone_index ?sb z \<and> zone_used ?sb z')"
    by (simp add: zone_used_def zone_index_def fd mb)
  have "0 < ?n" using rng(1) by simp
  then show "zmap_ok ?sb \<Longrightarrow> zmap_ok (super s' k)"
    by (simp add: zmap_ok_def fd mb del: zero_less_nat_eq nat_eq_iff2)
  show gs: "get_super d s' = get_super d s" for d
    by (rule get_super_cong) (simp add: s' upd_super_def s3')
  show "s_zmap (super s' k) i = None \<longleftrightarrow> s_zmap ?sb i = None"
    using bh by (simp add: s' upd_super_def s3')
  from k gs show "get_super dev s' = Some k" by simp
  show "k' \<noteq> k \<Longrightarrow> super s' k' = super s k'" by (simp add: s' upd_super_def s3')
  show "q \<noteq> (dev, z) \<Longrightarrow> bufs s' q = bufs s q" "disk s' = disk s" "cur_time s' = cur_time s"
    by (simp_all add: s' upd_super_def s3')
  show "contents s' (dev, z) = disk s (dev, z)"
    using s3'(5) by (simp add: s')
  show "held s (dev, z) \<noteq> 255 \<Longrightarrow> held s (dev, z) = 0"
  proof (cases found)
    case True
    assume "held s (dev, z) \<noteq> 255"
    moreover have "\<not> held s (dev, z) + 1 > 1" using nb True g1(6) by simp
    ultimately show ?thesis by (intro u8_succ_le_1) (simp_all add: not_less) 
  next
    case False
    then show ?thesis using g1(5) by (simp add: held_def)
  qed
  show "held s (dev, z) = 0 \<Longrightarrow> held s' (dev, z) = 0"
    using h3 by (simp add: s')
qed


text \<open>
  The zone allocator of one device as the abstract allocator: the numbers in use are the data
  zones whose bit is set.
\<close>

definition zones_inv :: "u16 \<Rightarrow> fs_state \<Rightarrow> bool" where
  "zones_inv dev s \<longleftrightarrow> (case get_super dev s of None \<Rightarrow> False | Some k \<Rightarrow> zmap_ok (super s k))"

definition zones_used :: "u16 \<Rightarrow> fs_state \<Rightarrow> nat set" where
  "zones_used dev s =
     (case get_super dev s of None \<Rightarrow> {}
      | Some k \<Rightarrow> {z. uint (s_firstdatazone (super s k)) \<le> int z \<and> int z < uint (s_nzones (super s k))
                     \<and> zone_used (super s k) (int z)})"

definition zone_alloc :: "u16 \<Rightarrow> fs_state \<Rightarrow> (nat \<times> fs_state) option" where
  "zone_alloc dev s =
     (case new_block dev s of Inl _ \<Rightarrow> None
      | Inr (z, s') \<Rightarrow> if z = 0 then None else Some (nat z, s'))"

definition zone_free :: "u16 \<Rightarrow> fs_state \<Rightarrow> nat \<Rightarrow> fs_state option" where
  "zone_free dev s n =
     (case free_block dev (int n) s of Inr (True, s') \<Rightarrow> Some s' | _ \<Rightarrow> None)"

lemma zone_alloc_SomeD:
  assumes "zones_inv dev s" and "zone_alloc dev s = Some (n, s')"
  obtains k where "get_super dev s = Some k" and "zmap_ok (super s k)"
    and "new_block dev s = Inr (int n, s')" and "int n \<noteq> 0"
proof -
  from assms(1) obtain k where k: "get_super dev s = Some k" "zmap_ok (super s k)"
    by (auto simp: zones_inv_def split: option.splits)
  from assms(2) obtain z where z: "new_block dev s = Inr (z, s')" "z \<noteq> 0" "n = nat z"
    by (auto simp: zone_alloc_def split: sum.splits if_splits)
  from new_block_spec(1)[OF z(1,2) k] have "0 \<le> z" using uint_ge_0 order_trans by blast
  with z k that show ?thesis by auto
qed

lemma zone_index_inj:
  assumes "uint (s_firstdatazone sb) \<le> z" and "uint (s_firstdatazone sb) \<le> z'"
  shows "zone_index sb z = zone_index sb z' \<longleftrightarrow> z = z'"
  using assms by (auto simp: zone_index_def)

interpretation zones: allocator "zones_used dev" "zones_inv dev" "zone_alloc dev" "zone_free dev"
  for dev
proof
  fix s n s'
  assume inv: "zones_inv dev s"
  {
    assume a: "zone_alloc dev s = Some (n, s')"
    from inv a obtain k where k: "get_super dev s = Some k" "zmap_ok (super s k)"
      and nb: "new_block dev s = Inr (int n, s')" "int n \<noteq> 0"
      by (rule zone_alloc_SomeD)
    note sp = new_block_spec[OF nb k]
    show "n \<notin> zones_used dev s" using k sp(3) by (simp add: zones_used_def)
    show "zones_used dev s' = insert n (zones_used dev s)"
      using k sp(1,2,6,7,8,9) zone_index_inj[of "super s k" _ "int n"]
      by (auto simp: zones_used_def)
    show "zones_inv dev s'" using sp(5,9) by (simp add: zones_inv_def)
  }
  assume n: "n \<in> zones_used dev s" and f: "zone_free dev s n = Some s'"
  from inv obtain k where k: "get_super dev s = Some k" "zmap_ok (super s k)"
    by (auto simp: zones_inv_def split: option.splits)
  from f have fb: "free_block dev (int n) s = Inr (True, s')"
    by (auto simp: zone_free_def split: sum.splits prod.splits bool.splits)
  note sp = free_block_spec[OF fb k(1)]
  show "zones_used dev s' = zones_used dev s - {n}"
    using k sp(1-5,7) zone_index_inj[of "super s k" _ "int n"]
    by (auto simp: zones_used_def)
  show "zones_inv dev s'" using sp(6,7) k by (simp add: zones_inv_def)
qed

section \<open>Inode numbers\<close>

definition imap_ok :: "super_block \<Rightarrow> bool" where
  "imap_ok sb \<longleftrightarrow> map_bit (s_imap sb) 0"

lemma new_inode_spec:
  assumes "new_inode dev euid egid inode s = Inr (Some ino, s')"
    and k: "get_super dev s = Some k" and ok: "imap_ok (super s k)"
  shows "1 \<le> unat (i_num ino)" and "unat (i_num ino) \<le> unat (s_ninodes (super s k))"
    and "\<not> map_bit (s_imap (super s k)) (unat (i_num ino))"
    and "map_bit (s_imap (super s' k)) n = (n = unat (i_num ino) \<or> map_bit (s_imap (super s k)) n)"
    and "s_ninodes (super s' k) = s_ninodes (super s k)"
    and "get_super dev s' = Some k" and "imap_ok (super s' k)"
    and "i_count ino = 1" and "i_nlinks ino = 1" and "i_dev ino = dev"
    and "i_uid ino = euid" and "i_dirt ino"
proof -
  let ?sb = "super s k"
  from assms(1) k obtain i bh j where sc: "map_scan (s_imap ?sb) [0..<8] 8192 = (Some (i, bh), j)"
    and le: "\<not> j + i * 8192 > unat (s_ninodes ?sb)"
    and ino: "ino = inode\<lparr>i_count := 1, i_nlinks := 1, i_dev := dev,
                             i_uid := euid, i_gid := ucast egid, i_dirt := True,
                             i_num := of_nat (j + i * 8192),
                             i_mtime := cur_time s, i_atime := cur_time s,
                             i_ctime := cur_time s\<rparr>"
    and s': "s' = upd_super k
               (\<lambda>sb. sb\<lparr>s_imap := (s_imap sb)(i \<mapsto> bh\<lparr>b_data := blk_set_bit (b_data bh) j, b_dirt := True\<rparr>)\<rparr>) s"
    by (auto simp: new_inode_def Let_def set_bit_at_def split: option.splits prod.splits if_splits)
  note m = map_scan_Some[OF sc]
  have "j + i * 8192 < 2 ^ 16"
    using le unat_u16_less[of "s_ninodes ?sb"] by simp
  then have num: "unat (i_num ino) = j + i * 8192"
    by (simp add: ino unat_of_nat_u16 del: of_nat_add of_nat_mult)
  have nu: "\<not> map_bit (s_imap ?sb) (j + i * 8192)"
    using m find_first_zero_clear by (simp add: map_bit_def)
  with ok have "j + i * 8192 \<noteq> 0" by (metis imap_ok_def)
  then show "1 \<le> unat (i_num ino)" unfolding num by linarith
  show "unat (i_num ino) \<le> unat (s_ninodes ?sb)" using le by (simp add: num)
  show "\<not> map_bit (s_imap ?sb) (unat (i_num ino))" using nu by (simp only: num not_False_eq_True)
  have "map_bit (s_imap (super s' k)) n = (n = j + i * 8192 \<or> map_bit (s_imap ?sb) n)" for n
    using map_bit_upd(1)[of "s_imap ?sb" i bh j] m by (simp add: s' upd_super_def)
  then show "map_bit (s_imap (super s' k)) n = (n = unat (i_num ino) \<or> map_bit (s_imap ?sb) n)"
    and "imap_ok (super s' k)"
    using ok by (simp_all add: num imap_ok_def)
  show "s_ninodes (super s' k) = s_ninodes ?sb" by (simp add: s' upd_super_def)
  show "get_super dev s' = Some k" using k by (simp add: s')
qed (use assms k in \<open>auto simp: new_inode_def Let_def set_bit_at_def split: option.splits prod.splits if_splits\<close>)

lemma free_inode_spec:
  assumes "free_inode inode s = Inr (ino', s')" and "i_dev inode \<noteq> 0"
    and k: "get_super (i_dev inode) s = Some k"
  shows "1 \<le> unat (i_num inode)" and "unat (i_num inode) \<le> unat (s_ninodes (super s k))"
    and "i_nlinks inode = 0" and "ino' = zero_inode"
    and "map_bit (s_imap (super s' k)) n = (n \<noteq> unat (i_num inode) \<and> map_bit (s_imap (super s k)) n)"
    and "s_ninodes (super s' k) = s_ninodes (super s k)"
    and "get_super (i_dev inode) s' = Some k"
    and "imap_ok (super s k) \<Longrightarrow> imap_ok (super s' k)"
proof -
  let ?sb = "super s k" and ?n = "unat (i_num inode)"
  from assms obtain bh where rng: "\<not> (?n < 1 \<or> ?n > unat (s_ninodes ?sb))"
    and l: "i_nlinks inode = 0" and z: "ino' = zero_inode"
    and bh: "s_imap ?sb (?n div 8192) = Some bh"
    and s': "s' = upd_super k (\<lambda>sb. sb\<lparr>s_imap := (s_imap sb)(?n div 8192 \<mapsto>
               bh\<lparr>b_data := blk_clear_bit (b_data bh) (?n mod 8192), b_dirt := True\<rparr>)\<rparr>) s"
    by (auto simp: free_inode_def Let_def clear_bit_at_def split: option.splits if_splits)
  show "1 \<le> ?n" "?n \<le> unat (s_ninodes ?sb)" "i_nlinks inode = 0" "ino' = zero_inode"
    using rng l z by auto
  have mb: "map_bit (s_imap (super s' k)) n = (n \<noteq> ?n \<and> map_bit (s_imap ?sb) n)" for n
    using map_bit_upd(2)[of "s_imap ?sb" "?n div 8192" bh "?n mod 8192" True n] bh
    by (simp add: s' upd_super_def)
  then show "map_bit (s_imap (super s' k)) n = (n \<noteq> ?n \<and> map_bit (s_imap ?sb) n)" .
  show "s_ninodes (super s' k) = s_ninodes ?sb" by (simp add: s' upd_super_def)
  show "get_super (i_dev inode) s' = Some k" using k by (simp add: s')
  show "imap_ok ?sb \<Longrightarrow> imap_ok (super s' k)" using mb rng by (auto simp: imap_ok_def)
qed

definition inums_inv :: "u16 \<Rightarrow> fs_state \<Rightarrow> bool" where
  "inums_inv dev s \<longleftrightarrow> (case get_super dev s of None \<Rightarrow> False | Some k \<Rightarrow> imap_ok (super s k))"

definition inums_used :: "u16 \<Rightarrow> fs_state \<Rightarrow> nat set" where
  "inums_used dev s =
     (case get_super dev s of None \<Rightarrow> {}
      | Some k \<Rightarrow> {n. 1 \<le> n \<and> n \<le> unat (s_ninodes (super s k)) \<and> map_bit (s_imap (super s k)) n})"

definition inum_alloc :: "u16 \<Rightarrow> fs_state \<Rightarrow> (nat \<times> fs_state) option" where
  "inum_alloc dev s =
     (case new_inode dev 0 0 (zero_inode\<lparr>i_count := 1\<rparr>) s of
        Inr (Some ino, s') \<Rightarrow> Some (unat (i_num ino), s') | _ \<Rightarrow> None)"

definition inum_free :: "u16 \<Rightarrow> fs_state \<Rightarrow> nat \<Rightarrow> fs_state option" where
  "inum_free dev s n =
     (case free_inode (zero_inode\<lparr>i_count := 1, i_dev := dev, i_num := of_nat n\<rparr>) s of
        Inr (_, s') \<Rightarrow> Some s' | Inl _ \<Rightarrow> None)"

lemma inum_alloc_SomeD:
  assumes "inum_alloc dev s = Some (n, s')"
  obtains ino where "new_inode dev 0 0 (zero_inode\<lparr>i_count := 1\<rparr>) s = Inr (Some ino, s')"
    and "n = unat (i_num ino)"
  using assms by (auto simp: inum_alloc_def split: sum.splits option.splits prod.splits)

interpretation inums: allocator "inums_used dev" "inums_inv dev" "inum_alloc dev" "inum_free dev"
  for dev
proof
  fix s n s'
  assume inv: "inums_inv dev s"
  then obtain k where k: "get_super dev s = Some k" "imap_ok (super s k)"
    by (auto simp: inums_inv_def split: option.splits)
  {
    assume "inum_alloc dev s = Some (n, s')"
    then obtain ino where ni: "new_inode dev 0 0 (zero_inode\<lparr>i_count := 1\<rparr>) s = Inr (Some ino, s')"
      and n: "n = unat (i_num ino)"
      by (rule inum_alloc_SomeD)
    note sp = new_inode_spec[OF ni k]
    show "n \<notin> inums_used dev s" using k sp(3) n by (simp add: inums_used_def)
    show "inums_used dev s' = insert n (inums_used dev s)"
      using k sp(1,2,4,5,6) n by (auto simp: inums_used_def)
    show "inums_inv dev s'" using sp(6,7) by (simp add: inums_inv_def)
  }
  assume n: "n \<in> inums_used dev s" and f: "inum_free dev s n = Some s'"
  let ?i = "zero_inode\<lparr>i_count := 1, i_dev := dev, i_num := of_nat n\<rparr>"
  have d: "i_dev ?i \<noteq> 0" "get_super (i_dev ?i) s = Some k"
    using k get_super_SomeD by auto
  have "n < 2 ^ 16"
    using n k(1) unat_u16_less[of "s_ninodes (super s k)"] by (simp add: inums_used_def)
  then have num: "unat (i_num ?i) = n" by (simp add: unat_of_nat_u16)
  from f obtain ino' where fr: "free_inode ?i s = Inr (ino', s')"
    by (auto simp: inum_free_def split: sum.splits)
  note sp = free_inode_spec[OF fr d]
  show "inums_used dev s' = inums_used dev s - {n}"
    using k sp(5,6,7) num by (auto simp: inums_used_def)
  show "inums_inv dev s'" using sp(7,8) k by (simp add: inums_inv_def)
qed

end
