(* ===== verification/Bmap.thy ===== *)
theory Bmap
  imports Bitmap
begin

text \<open>
  The map from a file's block numbers to disk zones (\<open>_bmap\<close> of \<open>fs/inode.c\<close>): seven direct
  zones, an indirect block of 512 shorts, and a double indirect block. The inode is passed and
  returned. The lemmas of the last sections show that the zones of a file stay distinct and
  allocated, that a created mapping is read back, and that creating one block moves no other.
\<close>

section \<open>The code\<close>

text \<open>
  \<open>if (create && !inode->i_zone[slot]) if (inode->i_zone[slot] = new_block (inode->i_dev)) ...\<close>,
  used for the direct zones and for the two zones of the index blocks.
\<close>

definition alloc_zone :: "m_inode \<Rightarrow> nat \<Rightarrow> bool \<Rightarrow> fs_state \<Rightarrow> (m_inode \<times> fs_state) kres" where
  "alloc_zone ino slot create s =
     (if create \<and> i_zone ino slot = 0
      then kbind (new_block (i_dev ino) s)
             (\<lambda>(z, s1).
                let zone = (word_of_int z :: u16);
                    ino1 = ino\<lparr>i_zone := (i_zone ino)(slot := zone)\<rparr>
                in Inr (if zone \<noteq> 0
                        then ino1\<lparr>i_ctime := cur_time s1, i_dirt := True\<rparr> else ino1, s1))
      else Inr (ino, s))"

text \<open>
  One level of indirection: read the index block, pick the entry, allocate it on demand, and
  release the block. The result is the entry, 0 when the block cannot be read.
\<close>

definition ind_entry :: "u16 \<Rightarrow> int \<Rightarrow> nat \<Rightarrow> bool \<Rightarrow> fs_state \<Rightarrow> (int \<times> fs_state) kres" where
  "ind_entry dev z idx create s =
     kbind (bread (dev, z) s)
       (\<lambda>(ok, s1).
          if \<not> ok then Inr (0, s1)
          else case bufs s1 (dev, z) of
                 None \<Rightarrow> Inl NullDeref
               | Some bh \<Rightarrow>
                   let i = uint (get16 (b_data bh) idx)
                   in kbind
                        (if create \<and> i = 0
                         then kbind (new_block dev s1)
                                (\<lambda>(n, s2).
                                   Inr (n, if n \<noteq> 0
                                           then upd_buf (dev, z) (\<lambda>b. b\<lparr>b_data :=
                                                  put16 (b_data b) idx (word_of_int n),
                                                  b_dirt := True\<rparr>) s2
                                           else s2))
                         else Inr (i, s1))
                        (\<lambda>(i, s3). kbind (brelse (dev, z) s3) (\<lambda>s4. Inr (i, s4))))"

definition bmap_gen :: "m_inode \<Rightarrow> int \<Rightarrow> bool \<Rightarrow> fs_state \<Rightarrow> (int \<times> m_inode \<times> fs_state) kres" where
  "bmap_gen ino block create s =
     (if block < 0 then Inl (Panic ''_bmap: block<0'')
      else if block \<ge> 7 + 512 + 512 * 512 then Inl (Panic ''_bmap: block>big'')
      else if block < 7
      then kbind (alloc_zone ino (nat block) create s)
             (\<lambda>(ino1, s1). Inr (uint (i_zone ino1 (nat block)), ino1, s1))
      else
        let block1 = block - 7
        in if block1 < 512
           then kbind (alloc_zone ino 7 create s)
                  (\<lambda>(ino1, s1).
                     if i_zone ino1 7 = 0 then Inr (0, ino1, s1)
                     else kbind (ind_entry (i_dev ino1) (uint (i_zone ino1 7)) (nat block1) create s1)
                            (\<lambda>(i, s2). Inr (i, ino1, s2)))
           else
             let block2 = nat (block1 - 512)
             in kbind (alloc_zone ino 8 create s)
                  (\<lambda>(ino1, s1).
                     if i_zone ino1 8 = 0 then Inr (0, ino1, s1)
                     else kbind (ind_entry (i_dev ino1) (uint (i_zone ino1 8)) (block2 div 512) create s1)
                            (\<lambda>(i, s2).
                               if i = 0 then Inr (0, ino1, s2)
                               else kbind (ind_entry (i_dev ino1) i (block2 mod 512) create s2)
                                      (\<lambda>(j, s3). Inr (j, ino1, s3)))))"

definition bmap :: "m_inode \<Rightarrow> int \<Rightarrow> fs_state \<Rightarrow> (int \<times> m_inode \<times> fs_state) kres" where
  "bmap ino block s = bmap_gen ino block False s"

definition create_block :: "m_inode \<Rightarrow> int \<Rightarrow> fs_state \<Rightarrow> (int \<times> m_inode \<times> fs_state) kres" where
  "create_block ino block s = bmap_gen ino block True s"

section \<open>The zones of a file\<close>

text \<open>
  Every place of a file's map that holds a zone number: direct slots, the two index slots, and
  the entries of the index blocks. \<open>zref\<close> reads a place; 0 is "no zone", and an index block that
  cannot be read counts as empty.
\<close>

datatype zpos = ZDirect nat | ZInd | ZDInd | ZIndE nat | ZTab nat | ZTabE nat nat

definition entry :: "fs_state \<Rightarrow> u16 \<Rightarrow> u16 \<Rightarrow> nat \<Rightarrow> u16" where
  "entry s dev z i =
     (if z = 0 \<or> i \<ge> 512 then 0
      else case contents s (dev, uint z) of None \<Rightarrow> 0 | Some b \<Rightarrow> get16 b i)"

fun zref :: "fs_state \<Rightarrow> m_inode \<Rightarrow> zpos \<Rightarrow> u16" where
  "zref s ino (ZDirect i) = (if i < 7 then i_zone ino i else 0)"
| "zref s ino ZInd = i_zone ino 7"
| "zref s ino ZDInd = i_zone ino 8"
| "zref s ino (ZIndE i) = entry s (i_dev ino) (i_zone ino 7) i"
| "zref s ino (ZTab i) = entry s (i_dev ino) (i_zone ino 8) i"
| "zref s ino (ZTabE i j) = entry s (i_dev ino) (entry s (i_dev ino) (i_zone ino 8) i) j"

text \<open>The place of a block of the file.\<close>

definition zpos_of :: "int \<Rightarrow> zpos" where
  "zpos_of block =
     (if block < 7 then ZDirect (nat block)
      else if block < 519 then ZIndE (nat (block - 7))
      else ZTabE (nat (block - 519) div 512) (nat (block - 519) mod 512))"

definition zone_ok :: "super_block \<Rightarrow> u16 \<Rightarrow> bool" where
  "zone_ok sb z \<longleftrightarrow> uint (s_firstdatazone sb) \<le> uint z \<and> uint z < uint (s_nzones sb)
     \<and> zone_used sb (uint z)"

text \<open>
  The invariant of a file's map: every zone it names is an allocated data zone of its device,
  and no zone is named twice.
\<close>

definition fmap_ok :: "fs_state \<Rightarrow> nat \<Rightarrow> m_inode \<Rightarrow> bool" where
  "fmap_ok s k ino \<longleftrightarrow> get_super (i_dev ino) s = Some k \<and> zmap_ok (super s k)
     \<and> (\<forall>p. zref s ino p \<noteq> 0 \<longrightarrow> zone_ok (super s k) (zref s ino p))
     \<and> (\<forall>p q. zref s ino p \<noteq> 0 \<longrightarrow> zref s ino p = zref s ino q \<longrightarrow> p = q)"

text \<open>Blocks of a file that are mapped are mapped to different zones.\<close>

lemma zpos_of_inj:
  assumes "0 \<le> a" and "0 \<le> b" and "zpos_of a = zpos_of b"
  shows "a = b"
proof -
  have dm: "x = y" if "x div 512 = y div 512" "x mod 512 = y mod 512" for x y :: nat
    using that by (metis div_mult_mod_eq)
  consider "a < 7" | "7 \<le> a" "a < 519" | "519 \<le> a" by linarith
  then show ?thesis
  proof cases
    case 1
    with assms have "b < 7" "nat a = nat b" by (simp_all add: zpos_of_def split: if_splits)
    with assms show ?thesis by linarith
  next
    case 2
    with assms have "b < 519" "7 \<le> b" "nat (a - 7) = nat (b - 7)"
      by (simp_all add: zpos_of_def split: if_splits)
    with 2 show ?thesis by linarith
  next
    case 3
    with assms have b: "519 \<le> b" and "nat (a - 519) div 512 = nat (b - 519) div 512"
      "nat (a - 519) mod 512 = nat (b - 519) mod 512"
      by (simp_all only: zpos_of_def zpos.inject zpos.distinct not_less if_False split: if_splits)
    from dm[OF this(2,3)] 3 b show ?thesis by linarith
  qed
qed

lemma fmap_ok_zone_distinct:
  assumes "fmap_ok s k ino" and "0 \<le> a" and "0 \<le> b" and "a \<noteq> b"
    and "zref s ino (zpos_of a) \<noteq> 0"
  shows "zref s ino (zpos_of a) \<noteq> zref s ino (zpos_of b)"
  using assms zpos_of_inj unfolding fmap_ok_def by metis

section \<open>One place gets a fresh zone\<close>

text \<open>
  The common shape of every change \<open>_bmap\<close> makes: place \<open>p0\<close>, empty so far, now names a zone
  that was free, and every other place reads as before.
\<close>

definition adds_zone :: "fs_state \<Rightarrow> m_inode \<Rightarrow> nat \<Rightarrow> zpos \<Rightarrow> u16 \<Rightarrow> fs_state \<Rightarrow> m_inode \<Rightarrow> bool" where
  "adds_zone s ino k p0 z s' ino' \<longleftrightarrow>
     zref s ino p0 = 0 \<and> z \<noteq> 0 \<and> \<not> zone_used (super s k) (uint z)
     \<and> (\<forall>p. zref s' ino' p = (if p = p0 then z else zref s ino p))
     \<and> zone_ok (super s' k) z
     \<and> (\<forall>x. zone_ok (super s k) x \<longrightarrow> zone_ok (super s' k) x)
     \<and> get_super (i_dev ino') s' = Some k \<and> zmap_ok (super s' k)"

lemma adds_zone_fmap_ok:
  assumes "fmap_ok s k ino" and "adds_zone s ino k p0 z s' ino'"
  shows "fmap_ok s' k ino'"
proof -
  from assms(1) have fresh: "zref s ino p = z \<Longrightarrow> z \<noteq> 0 \<Longrightarrow> zone_used (super s k) (uint z)" for p
    by (auto simp: fmap_ok_def zone_ok_def)
  from assms(1) have inj: "zref s ino p \<noteq> 0 \<Longrightarrow> zref s ino p = zref s ino q \<Longrightarrow> p = q" for p q
    unfolding fmap_ok_def by blast
  from assms(2) have z: "z \<noteq> 0" "\<not> zone_used (super s k) (uint z)"
    and r: "\<And>p. zref s' ino' p = (if p = p0 then z else zref s ino p)"
    unfolding adds_zone_def by blast+
  have "p = q" if "zref s' ino' p \<noteq> 0" "zref s' ino' p = zref s' ino' q" for p q
  proof (cases "p = p0"; cases "q = p0")
    assume "p \<noteq> p0" and "q \<noteq> p0"
    with that inj[of p q] show ?thesis by (simp add: r)
  next
    assume "p = p0" and "q \<noteq> p0"
    with that fresh[of q] z show ?thesis by (simp add: r)
  next
    assume "p \<noteq> p0" and "q = p0"
    with that fresh[of p] z show ?thesis by (simp add: r)
  qed simp
  moreover have "zone_ok (super s' k) (zref s' ino' p)" if "zref s' ino' p \<noteq> 0" for p
  proof (cases "p = p0")
    case True
    with assms(2) show ?thesis by (simp add: adds_zone_def)
  next
    case False
    with that have "zone_ok (super s k) (zref s ino p)" using assms(1) by (simp add: r fmap_ok_def)
    with False assms(2) show ?thesis by (simp add: adds_zone_def)
  qed
  moreover have "get_super (i_dev ino') s' = Some k" and "zmap_ok (super s' k)"
    using assms(2) unfolding adds_zone_def by blast+
  ultimately show ?thesis unfolding fmap_ok_def by blast
qed


text \<open>Entries of index blocks hang off the place that names the block.\<close>

fun parent :: "zpos \<Rightarrow> (zpos \<times> nat) option" where
  "parent (ZIndE i) = Some (ZInd, i)"
| "parent (ZTab i) = Some (ZDInd, i)"
| "parent (ZTabE i j) = Some (ZTab i, j)"
| "parent _ = None"

lemma zref_parent: "parent p = Some (q, i) \<Longrightarrow> zref s ino p = entry s (i_dev ino) (zref s ino q) i"
  by (cases p) auto

lemma parent_inj: "parent p = Some x \<Longrightarrow> parent q = Some x \<Longrightarrow> p = q"
  by (cases p; cases q) auto

lemma parent_irrefl: "parent p = Some (q, i) \<Longrightarrow> p \<noteq> q"
  by (cases p) auto

lemma zpos_parent_induct [case_names root child]:
  assumes "\<And>p. parent p = None \<Longrightarrow> P p"
    and "\<And>p q i. parent p = Some (q, i) \<Longrightarrow> P q \<Longrightarrow> P p"
  shows "P p"
proof (cases p)
  case (ZTab i)
  then show ?thesis using assms(2)[of p ZDInd] assms(1)[of ZDInd] by simp
next
  case (ZTabE i j)
  have "P (ZTab i)" using assms(2)[of "ZTab i" ZDInd] assms(1)[of ZDInd] by simp
  then show ?thesis using ZTabE assms(2)[of p "ZTab i"] by simp
next
  case (ZIndE i)
  then show ?thesis using assms(2)[of p ZInd] assms(1)[of ZInd] by simp
qed (use assms(1) in auto)

lemma entry_cong:
  "contents s' (dev, uint z) = contents s (dev, uint z) \<Longrightarrow> entry s' dev z i = entry s dev z i"
  by (simp add: entry_def)

lemma entry_zero_block:
  "contents s (dev, uint z) = Some zero_block \<Longrightarrow> entry s dev z i = 0"
  by (simp add: entry_def)

lemma entry_zone_0 [simp]: "entry s dev 0 i = 0"
  by (simp add: entry_def)

text \<open>A root place gets zone \<open>zn\<close>, whose block has just been cleared.\<close>

lemma zref_add_root:
  assumes "parent p0 = None" and "zref s ino p0 = 0"
    and root: "\<And>p. parent p = None \<Longrightarrow> zref s' ino' p = (if p = p0 then zn else zref s ino p)"
    and "i_dev ino' = i_dev ino"
    and zero: "contents s' (i_dev ino, uint zn) = Some zero_block"
    and same: "\<And>x. x \<noteq> zn \<Longrightarrow> contents s' (i_dev ino, uint x) = contents s (i_dev ino, uint x)"
    and fresh: "\<And>p. zref s ino p \<noteq> zn"
  shows "zref s' ino' p = (if p = p0 then zn else zref s ino p)"
proof (induction p rule: zpos_parent_induct)
  case (root p)
  then show ?case by (rule assms(3))
next
  case (child p q i)
  have pe: "zref s' ino' p = entry s' (i_dev ino) (zref s' ino' q) i"
    "zref s ino p = entry s (i_dev ino) (zref s ino q) i" and np: "p \<noteq> p0"
    using zref_parent[OF child(1)] assms(1,4) child(1) by auto
  show ?case
  proof (cases "q = p0")
    case True
    with child.IH pe np assms(2) entry_zero_block[OF zero] show ?thesis by simp
  next
    case False
    with child.IH pe np entry_cong[OF same[OF fresh[of q]]] show ?thesis by simp
  qed
qed

text \<open>Entry \<open>idx\<close> of the index block named at \<open>pz\<close> gets zone \<open>zn\<close>.\<close>

lemma zref_add_entry:
  assumes par: "parent p0 = Some (pz, idx)" and "idx < 512" and nz: "zref s ino pz \<noteq> 0"
    and inj: "\<And>q. zref s ino q = zref s ino pz \<Longrightarrow> q = pz"
    and b: "contents s (i_dev ino, uint (zref s ino pz)) = Some b"
    and b': "contents s' (i_dev ino, uint (zref s ino pz)) = Some (put16 b idx zn)"
    and zero: "contents s' (i_dev ino, uint zn) = Some zero_block"
    and same: "\<And>x. x \<noteq> zn \<Longrightarrow> x \<noteq> zref s ino pz \<Longrightarrow>
      contents s' (i_dev ino, uint x) = contents s (i_dev ino, uint x)"
    and fresh: "\<And>p. zref s ino p \<noteq> zn" and "zref s ino p0 = 0"
  shows "zref s' ino p = (if p = p0 then zn else zref s ino p)"
proof (induction p rule: zpos_parent_induct)
  case (root p)
  then have "zref s' ino p = zref s ino p" by (cases p) auto
  with root par show ?case by auto
next
  case (child p q i)
  have pe: "zref s' ino p = entry s' (i_dev ino) (zref s' ino q) i"
    "zref s ino p = entry s (i_dev ino) (zref s ino q) i"
    using zref_parent[OF child(1)] by auto
  show ?case
  proof (cases "q = p0")
    case True
    with child(1) parent_irrefl have "p \<noteq> p0" by auto
    with True child.IH pe assms(10) entry_zero_block[OF zero] show ?thesis by simp
  next
    case False
    with child.IH have zq: "zref s' ino q = zref s ino q" by simp
    show ?thesis
    proof (cases "q = pz")
      case True
      have "p = p0 \<longleftrightarrow> i = idx" using True child(1) par parent_inj[of p "(pz, idx)" p0] by auto
      with True pe zq nz b b' \<open>idx < 512\<close> show ?thesis
        by (auto simp: entry_def get16_put16)
    next
      case False
      then have "p \<noteq> p0" using child(1) par by auto
      with pe zq entry_cong[OF same[OF fresh[of q]]] inj[of q] False show ?thesis by auto
    qed
  qed
qed


section \<open>What one step of the mapping may change\<close>

fun is_data :: "zpos \<Rightarrow> bool" where
  "is_data (ZDirect i) = True"
| "is_data (ZIndE i) = True"
| "is_data (ZTabE i j) = True"
| "is_data _ = False"

text \<open>
  The frame of \<open>_bmap\<close>: existing places keep their zones, allocated zones stay allocated, a new
  zone was free before, and no block changes except the file's own index blocks and blocks of
  zones that were free. A new data block reads as zeros.
\<close>

definition fmap_step :: "nat \<Rightarrow> fs_state \<Rightarrow> m_inode \<Rightarrow> fs_state \<Rightarrow> m_inode \<Rightarrow> bool" where
  "fmap_step k s ino s' ino' \<longleftrightarrow>
     fmap_ok s' k ino' \<and> i_dev ino' = i_dev ino
     \<and> (\<forall>p. zref s ino p \<noteq> 0 \<longrightarrow> zref s' ino' p = zref s ino p)
     \<and> (\<forall>x. zone_used (super s k) x \<longrightarrow> zone_used (super s' k) x)
     \<and> s_firstdatazone (super s' k) = s_firstdatazone (super s k)
     \<and> s_nzones (super s' k) = s_nzones (super s k)
     \<and> (\<forall>k'. k' \<noteq> k \<longrightarrow> super s' k' = super s k')
     \<and> (\<forall>dev. get_super dev s' = get_super dev s)
     \<and> (\<forall>dev x. dev \<noteq> i_dev ino \<or> (zone_used (super s k) (uint x) \<and> (\<forall>p. zref s ino p \<noteq> x)) \<longrightarrow>
          contents s' (dev, uint x) = contents s (dev, uint x))
     \<and> (\<forall>p. is_data p \<longrightarrow> zref s ino p \<noteq> 0 \<longrightarrow>
          contents s' (i_dev ino, uint (zref s ino p)) = contents s (i_dev ino, uint (zref s ino p)))
     \<and> (\<forall>p. zref s ino p = 0 \<longrightarrow> zref s' ino' p \<noteq> 0 \<longrightarrow>
          \<not> zone_used (super s k) (uint (zref s' ino' p))
          \<and> (is_data p \<longrightarrow> contents s' (i_dev ino, uint (zref s' ino' p)) = Some zero_block))"

lemma fmap_stepD:
  assumes "fmap_step k s ino s' ino'"
  shows "fmap_ok s' k ino'" and "i_dev ino' = i_dev ino"
    and "zref s ino p \<noteq> 0 \<Longrightarrow> zref s' ino' p = zref s ino p"
    and "zone_used (super s k) y \<Longrightarrow> zone_used (super s' k) y"
    and "s_firstdatazone (super s' k) = s_firstdatazone (super s k)"
    and "s_nzones (super s' k) = s_nzones (super s k)"
    and "k' \<noteq> k \<Longrightarrow> super s' k' = super s k'"
    and "get_super dev s' = get_super dev s"
    and "dev \<noteq> i_dev ino \<or> (zone_used (super s k) (uint x) \<and> (\<forall>p. zref s ino p \<noteq> x)) \<Longrightarrow>
      contents s' (dev, uint x) = contents s (dev, uint x)"
    and "is_data p \<Longrightarrow> zref s ino p \<noteq> 0 \<Longrightarrow>
      contents s' (i_dev ino, uint (zref s ino p)) = contents s (i_dev ino, uint (zref s ino p))"
    and "zref s ino p = 0 \<Longrightarrow> zref s' ino' p \<noteq> 0 \<Longrightarrow> \<not> zone_used (super s k) (uint (zref s' ino' p))"
    and "zref s ino p = 0 \<Longrightarrow> zref s' ino' p \<noteq> 0 \<Longrightarrow> is_data p \<Longrightarrow>
      contents s' (i_dev ino, uint (zref s' ino' p)) = Some zero_block"
  using assms unfolding fmap_step_def by blast+

lemma fmap_okD:
  assumes "fmap_ok s k ino"
  shows "get_super (i_dev ino) s = Some k" and "zmap_ok (super s k)"
    and "zref s ino p \<noteq> 0 \<Longrightarrow> zone_ok (super s k) (zref s ino p)"
    and "zref s ino p \<noteq> 0 \<Longrightarrow> zone_used (super s k) (uint (zref s ino p))"
    and "zref s ino p \<noteq> 0 \<Longrightarrow> zref s ino p = zref s ino q \<Longrightarrow> p = q"
  using assms unfolding fmap_ok_def zone_ok_def by blast+

lemma fmap_step_refl: "fmap_ok s k ino \<Longrightarrow> fmap_step k s ino s ino"
  by (simp add: fmap_step_def)

lemma fmap_step_trans:
  assumes ok: "fmap_ok s k ino" and a: "fmap_step k s ino s1 ino1" and b: "fmap_step k s1 ino1 s2 ino2"
  shows "fmap_step k s ino s2 ino2"
proof -
  note A = fmap_stepD[OF a] and B = fmap_stepD[OF b]
  have c: "contents s2 (dev, uint x) = contents s (dev, uint x)"
    if x: "dev \<noteq> i_dev ino \<or> (zone_used (super s k) (uint x) \<and> (\<forall>p. zref s ino p \<noteq> x))" for dev x
  proof -
    have "dev \<noteq> i_dev ino1 \<or> (zone_used (super s1 k) (uint x) \<and> (\<forall>p. zref s1 ino1 p \<noteq> x))"
    proof (cases "dev = i_dev ino")
      case True
      with x have u: "zone_used (super s k) (uint x)" and n: "\<And>p. zref s ino p \<noteq> x" by auto
      have nz: "x \<noteq> 0 \<or> True" by simp
      have "zref s1 ino1 p \<noteq> x" for p
      proof (cases "zref s ino p = 0")
        case True
        then show ?thesis using A(11)[of p] u n[of p] by metis
      next
        case False
        then show ?thesis using A(3)[of p] n[of p] by simp
      qed
      with u A(4) show ?thesis by blast
    qed (simp add: A(2))
    from B(9)[OF this] A(9)[OF x] show ?thesis by simp
  qed
  have d: "contents s2 (i_dev ino, uint (zref s ino p)) = contents s (i_dev ino, uint (zref s ino p))"
    if "is_data p" "zref s ino p \<noteq> 0" for p
    using A(3)[OF that(2)] A(10)[OF that] B(10)[OF that(1)] that(2) A(2) by simp
  have n: "\<not> zone_used (super s k) (uint (zref s2 ino2 p))
      \<and> (is_data p \<longrightarrow> contents s2 (i_dev ino, uint (zref s2 ino2 p)) = Some zero_block)"
    if z: "zref s ino p = 0" "zref s2 ino2 p \<noteq> 0" for p
  proof (cases "zref s1 ino1 p = 0")
    case True
    with B(4) B(11)[OF True z(2)] A(4) B(12)[OF True z(2)] A(2) show ?thesis by auto
  next
    case False
    with A(11,12)[OF z(1) False] B(3)[OF False] B(10)[OF _ False] A(2) show ?thesis by auto
  qed
  have r: "zref s2 ino2 p = zref s ino p" if "zref s ino p \<noteq> 0" for p
    using A(3)[OF that] B(3)[of p] that by simp
  show ?thesis
    unfolding fmap_step_def
    using A B c d n r by (intro conjI allI impI) (simp_all)
qed


section \<open>The steps of \<open>_bmap\<close>\<close>

lemma uint_zone:
  assumes "0 \<le> z" and "z < uint (w :: u16)"
  shows "uint (word_of_int z :: u16) = z"
proof -
  have "uint w < 2 ^ 16" using uint_bounded[of w] by simp
  with assms show ?thesis by (simp add: uint_word_of_int)
qed

text \<open>A place that has just received a zone from \<open>new_block\<close>.\<close>

lemma new_block_zone:
  assumes ok: "fmap_ok s k ino" and nb: "new_block (i_dev ino) s = Inr (z, s')" and "z \<noteq> 0"
  defines "zn \<equiv> word_of_int z :: u16"
  shows "uint zn = z" and "zn \<noteq> 0" and "zone_ok (super s' k) zn" and "zref s ino p \<noteq> zn"
    and "zone_ok (super s k) x \<Longrightarrow> zone_ok (super s' k) x"
    and "contents s' (i_dev ino, uint zn) = Some zero_block"
    and "(dev, y) \<noteq> (i_dev ino, uint zn) \<Longrightarrow> contents s' (dev, y) = contents s (dev, y)"
proof -
  note sp = new_block_spec[OF nb \<open>z \<noteq> 0\<close> fmap_okD(1,2)[OF ok]]
  have z0: "0 \<le> z" using sp(1) uint_ge_0 order_trans by blast
  show u: "uint zn = z" unfolding zn_def by (rule uint_zone[OF z0 sp(2)])
  then show "zn \<noteq> 0" using \<open>z \<noteq> 0\<close> by auto
  show "zone_ok (super s' k) zn" using sp(1,2,6,7,8) u by (simp add: zone_ok_def)
  show "zref s ino p \<noteq> zn"
    using fmap_okD(4)[OF ok, of p] sp(3) u \<open>zn \<noteq> 0\<close> by auto
  show "zone_ok (super s k) x \<Longrightarrow> zone_ok (super s' k) x" using sp(6,7,8) by (simp add: zone_ok_def)
  show "contents s' (i_dev ino, uint zn) = Some zero_block" using sp(11) u by simp
  show "(dev, y) \<noteq> (i_dev ino, uint zn) \<Longrightarrow> contents s' (dev, y) = contents s (dev, y)"
    by (rule contents_cong) (use sp(12)[of "(dev, y)"] sp(13) u in auto)
qed

lemma new_block_frame:
  assumes ok: "fmap_ok s k ino" and nb: "new_block (i_dev ino) s = Inr (z, s')"
  shows "zone_used (super s k) y \<Longrightarrow> zone_used (super s' k) y"
    and "s_firstdatazone (super s' k) = s_firstdatazone (super s k)"
    and "s_nzones (super s' k) = s_nzones (super s k)"
    and "k' \<noteq> k \<Longrightarrow> super s' k' = super s k'"
    and "get_super dev s' = get_super dev s"
    and "zmap_ok (super s' k)"
proof -
  note k = fmap_okD(1,2)[OF ok]
  have A: "(zone_used (super s k) y \<longrightarrow> zone_used (super s' k) y)
    \<and> s_firstdatazone (super s' k) = s_firstdatazone (super s k)
    \<and> s_nzones (super s' k) = s_nzones (super s k)
    \<and> (k' \<noteq> k \<longrightarrow> super s' k' = super s k') \<and> zmap_ok (super s' k)"
    using new_block_spec[OF nb _ k] new_block_zero[of "i_dev ino" s s' k, OF _ k] nb
    by (cases "z = 0") auto
  then show "zone_used (super s k) y \<Longrightarrow> zone_used (super s' k) y"
    and "s_firstdatazone (super s' k) = s_firstdatazone (super s k)"
    and "s_nzones (super s' k) = s_nzones (super s k)"
    and "k' \<noteq> k \<Longrightarrow> super s' k' = super s k'" and "zmap_ok (super s' k)" by blast+
  have "s_dev (super s' i) = s_dev (super s i)" for i
    using nb by (cases rule: new_block_cases) (auto simp: upd_super_def)
  then show "get_super dev s' = get_super dev s" by (rule get_super_cong)
qed

lemma alloc_zone_step:
  assumes ok: "fmap_ok s k ino" and slot: "slot < 9"
    and az: "alloc_zone ino slot create s = Inr (ino', s')"
  shows "fmap_step k s ino s' ino'"
proof (cases "create \<and> i_zone ino slot = 0")
  case False
  with az have "ino' = ino" "s' = s" by (auto simp: alloc_zone_def)
  with fmap_step_refl[OF ok] show ?thesis by simp
next
  case True
  with az obtain z where nb: "new_block (i_dev ino) s = Inr (z, s')"
    and dev: "i_dev ino' = i_dev ino"
    and zone: "i_zone ino' = (i_zone ino)(slot := word_of_int z)"
    by (auto simp: alloc_zone_def kbind_Inr_iff Let_def split: if_splits)
  note fr = new_block_frame[OF ok nb]
  let ?p = "if slot < 7 then ZDirect slot else if slot = 7 then ZInd else ZDInd"
  show ?thesis
  proof (cases "z = 0")
    case True
    with nb have nb0: "new_block (i_dev ino) s = Inr (0, s')" by simp
    note sp = new_block_zero[OF nb0 fmap_okD(1,2)[OF ok]]
    have c: "contents s' q = contents s q" for q by (rule contents_cong) (use sp(1,2) in simp_all)
    have iz: "i_zone ino' = i_zone ino" using zone True \<open>create \<and> i_zone ino slot = 0\<close> by auto
    have r: "zref s' ino' p = zref s ino p" for p
      using c iz dev by (cases p) (simp_all add: entry_def)
    have "fmap_ok s' k ino'"
      using ok fr r sp(8) dev unfolding fmap_ok_def zone_ok_def by simp
    then show ?thesis using fr r c dev by (simp add: fmap_step_def)
  next
    case False
    let ?zn = "word_of_int z :: u16"
    note nz = new_block_zone[OF ok nb False]
    have "slot < 7 \<or> slot = 7 \<or> slot = 8" using slot by linarith
    then have p0: "parent ?p = None" "zref s ino ?p = 0" using True by auto
    have root: "zref s' ino' p = (if p = ?p then ?zn else zref s ino p)" if "parent p = None" for p
      using that slot zone True by (cases p) (auto split: if_splits)
    have r: "zref s' ino' p = (if p = ?p then ?zn else zref s ino p)" for p
      by (rule zref_add_root[OF p0 root dev nz(6)]) (use nz(4,7) in auto)
    have "adds_zone s ino k ?p ?zn s' ino'"
      unfolding adds_zone_def
      using p0(2) nz r fr(6) dev new_block_spec(3,9)[OF nb False fmap_okD(1,2)[OF ok]] by auto
    from adds_zone_fmap_ok[OF ok this] have ok': "fmap_ok s' k ino'" .
    have nu: "\<not> zone_used (super s k) z" by (rule new_block_spec(3)[OF nb False fmap_okD(1,2)[OF ok]])
    have c: "contents s' (dev, uint x) = contents s (dev, uint x)"
      if "dev \<noteq> i_dev ino \<or> x \<noteq> ?zn" for dev x
      using that nz(7) by auto
    show ?thesis
      unfolding fmap_step_def
    proof (intro conjI allI impI)
      fix dev x
      assume "dev \<noteq> i_dev ino \<or> zone_used (super s k) (uint x) \<and> (\<forall>p. zref s ino p \<noteq> x)"
      with nu nz(1) show "contents s' (dev, uint x) = contents s (dev, uint x)" by (intro c) auto
    next
      fix p assume "is_data p" "zref s ino p \<noteq> 0"
      with nz(4) show "contents s' (i_dev ino, uint (zref s ino p)) = contents s (i_dev ino, uint (zref s ino p))"
        by (intro c) auto
    qed (use ok' dev r p0(2) fr nu nz(1,6) in \<open>auto split: if_splits\<close>)
  qed
qed


lemma zref_same:
  assumes "\<And>q. contents t q = contents s q"
  shows "zref t ino p = zref s ino p"
  using assms by (cases p) (simp_all add: entry_def)

lemma fmap_step_same:
  assumes "fmap_ok s k ino" and "\<And>q. contents t q = contents s q" and "super t = super s"
  shows "fmap_step k s ino t ino" and "zref t ino p = zref s ino p"
proof -
  have z: "zref t ino p = zref s ino p" for p by (rule zref_same) (rule assms(2))
  then show "zref t ino p = zref s ino p" .
  have g: "get_super dev t = get_super dev s" for dev
    by (rule get_super_cong) (simp add: assms(3))
  have "fmap_ok t k ino" using assms(1) by (simp add: fmap_ok_def z g assms(3) zone_ok_def)
  then show "fmap_step k s ino t ino" by (simp add: fmap_step_def z g assms(2,3))
qed

text \<open>The step of \<open>ind_entry\<close> with its buffer held: allocate, store the entry.\<close>

lemma store_entry_step:
  assumes ok: "fmap_ok s k ino" and par: "parent p0 = Some (pz, idx)" and idx: "idx < 512"
    and nz: "zref s ino pz \<noteq> 0" and empty: "zref s ino p0 = 0"
    and bh: "bufs s (i_dev ino, uint (zref s ino pz)) = Some bh" "b_uptodate bh"
    and nb: "new_block (i_dev ino) s = Inr (n, s2)" and "n \<noteq> 0"
    and s3: "s3 = upd_buf (i_dev ino, uint (zref s ino pz))
        (\<lambda>b. b\<lparr>b_data := put16 (b_data b) idx (word_of_int n), b_dirt := True\<rparr>) s2"
  shows "fmap_step k s ino s3 ino" and "n = uint (zref s3 ino p0)"
    and "\<exists>b. bufs s3 (i_dev ino, uint (zref s ino pz)) = Some b \<and> b_count b = b_count bh"
proof -
  let ?zz = "zref s ino pz" and ?zn = "word_of_int n :: u16" and ?d = "i_dev ino"
  note n = new_block_zone[OF ok nb \<open>n \<noteq> 0\<close>]
  note fr = new_block_frame[OF ok nb]
  have zne: "?zn \<noteq> ?zz" using n(4)[of pz] by auto
  have kne: "(?d, uint ?zz) \<noteq> (?d, n)" using zne n(1) by auto
  from new_block_spec(12)[OF nb \<open>n \<noteq> 0\<close> fmap_okD(1,2)[OF ok] kne] bh
  have b2: "bufs s2 (?d, uint ?zz) = Some bh" by simp
  have c3: "contents s3 q = (if q = (?d, uint ?zz) then Some (put16 (b_data bh) idx ?zn) else contents s2 q)" for q
    using b2 bh(2) by (simp add: s3 contents_def split: option.splits)
  have sup: "super s3 = super s2" by (simp add: s3)
  have g3: "get_super dev s3 = get_super dev s" for dev
    using fr(5)[of dev] get_super_cong[of s3 s2 dev] sup by simp
  have cb: "contents s (?d, uint ?zz) = Some (b_data bh)" using bh by (simp add: contents_def)
  have zero: "contents s3 (?d, uint ?zn) = Some zero_block"
    using n(6) zne by (simp add: c3 flip: word_uint_eq_iff)
  have same: "contents s3 (dev, uint x) = contents s (dev, uint x)"
    if "dev \<noteq> ?d \<or> (x \<noteq> ?zn \<and> x \<noteq> ?zz)" for dev x
    using that n(7)[of dev "uint x"] by (auto simp: c3)
  have r: "zref s3 ino p = (if p = p0 then ?zn else zref s ino p)" for p
  proof (rule zref_add_entry[OF par idx nz _ cb _ zero same n(4) empty])
    show "\<And>q. zref s ino q = zref s ino pz \<Longrightarrow> q = pz" using fmap_okD(5)[OF ok] nz by metis
    show "contents s3 (?d, uint ?zz) = Some (put16 (b_data bh) idx ?zn)" by (simp add: c3)
  qed auto
  show "n = uint (zref s3 ino p0)" by (simp add: r n(1))
  show "\<exists>b. bufs s3 (?d, uint ?zz) = Some b \<and> b_count b = b_count bh"
    by (simp add: s3 b2)
  have zk: "zone_ok (super s3 k) x = zone_ok (super s2 k) x" for x by (simp add: sup)
  have nu: "\<not> zone_used (super s k) n"
    by (rule new_block_spec(3)[OF nb \<open>n \<noteq> 0\<close> fmap_okD(1,2)[OF ok]])
  have "adds_zone s ino k p0 ?zn s3 ino"
    unfolding adds_zone_def using empty n nu r g3 fr(6) fmap_okD(1)[OF ok] sup
    by (auto simp: zk)
  from adds_zone_fmap_ok[OF ok this] have ok': "fmap_ok s3 k ino" .
  have np: "\<not> is_data pz" using par by (cases p0) auto
  show "fmap_step k s ino s3 ino"
    unfolding fmap_step_def
  proof (intro conjI allI impI)
    fix dev x
    assume "dev \<noteq> ?d \<or> zone_used (super s k) (uint x) \<and> (\<forall>p. zref s ino p \<noteq> x)"
    with nu n(1) show "contents s3 (dev, uint x) = contents s (dev, uint x)" by (intro same) auto
  next
    fix p assume p: "is_data p" "zref s ino p \<noteq> 0"
    have "zref s ino p \<noteq> ?zz" using fmap_okD(5)[OF ok p(2), of pz] p(1) np by auto
    with n(4) show "contents s3 (?d, uint (zref s ino p)) = contents s (?d, uint (zref s ino p))"
      by (intro same) auto
  qed (use ok' r empty fr sup g3 nu n(1) zero in \<open>auto split: if_splits\<close>)
qed

lemma ind_entry_step:
  assumes ok: "fmap_ok s k ino" and par: "parent p0 = Some (pz, idx)" and idx: "idx < 512"
    and nz: "zref s ino pz \<noteq> 0"
    and ie: "ind_entry (i_dev ino) (uint (zref s ino pz)) idx create s = Inr (r, s')"
  shows "fmap_step k s ino s' ino" and "r = uint (zref s' ino p0)"
    and "\<not> create \<Longrightarrow> zref s' ino p = zref s ino p"
proof -
  let ?q = "(i_dev ino, uint (zref s ino pz))"
  from ie obtain okb s1 where br: "bread ?q s = Inr (okb, s1)"
    by (auto simp: ind_entry_def kbind_Inr_iff)
  have ent: "zref s ino p0 = (case contents s ?q of None \<Rightarrow> 0 | Some b \<Rightarrow> get16 b idx)"
    using zref_parent[OF par, of s ino] nz idx by (simp add: entry_def)
  have "fmap_step k s ino s' ino \<and> r = uint (zref s' ino p0) \<and> (\<not> create \<longrightarrow> zref s' ino p = zref s ino p)"
  proof (cases okb)
    case False
    with br have br': "bread ?q s = Inr (False, s1)" by simp
    from False ie br have r: "r = 0" "s' = s1" by (auto simp: ind_entry_def)
    note f = bread_fail[OF br']
    have "fmap_step k s ino s1 ino" "zref s1 ino p = zref s ino p" for p
      using fmap_step_same[OF ok, of s1] f(1) by (auto simp: same_view_def)
    with r f(2) ent show ?thesis by simp
  next
    case True
    with br have br': "bread ?q s = Inr (True, s1)" by simp
    from bread_ok[OF br'] obtain bh where b: "bufs s1 ?q = Some bh" "b_uptodate bh"
      "contents s ?q = Some (b_data bh)" and sup: "super s1 = super s"
      and con: "\<And>q. contents s1 q = contents s q"
      by metis
    note st1 = fmap_step_same[OF ok con sup]
    have ok1: "fmap_ok s1 k ino" using st1(1) by (rule fmap_stepD)
    have i0: "zref s1 ino p0 = get16 (b_data bh) idx" using ent b(3) st1(2) by simp
    show ?thesis
    proof (cases "create \<and> get16 (b_data bh) idx = 0")
      case False
      with ie br True b have rr: "r = uint (get16 (b_data bh) idx)" and rel: "brelse ?q s1 = Inr s'"
        by (auto simp: ind_entry_def Let_def kbind_Inr_iff uint_0_iff split: if_splits)
      note bl = brelse_ok[OF rel b(1)]
      have c': "contents s' q = contents s1 q" for q by (rule bl(5))
      note st2 = fmap_step_same[OF ok1 c' bl(2)]
      from fmap_step_trans[OF ok st1(1) st2(1)] rr i0 st2(2) st1(2) show ?thesis by simp
    next
      case c: True
      from c ie br True b obtain n s2 where nb: "new_block (i_dev ino) s1 = Inr (n, s2)"
        and rr: "r = n" and rel: "brelse ?q (if n \<noteq> 0 then upd_buf ?q (\<lambda>b. b\<lparr>b_data :=
                   put16 (b_data b) idx (word_of_int n), b_dirt := True\<rparr>) s2 else s2) = Inr s'"
        by (auto simp: ind_entry_def Let_def kbind_Inr_iff)
      have q1: "?q = (i_dev ino, uint (zref s1 ino pz))" using st1(2) by simp
      show ?thesis
      proof (cases "n = 0")
        case False
        let ?s3 = "upd_buf ?q (\<lambda>b. b\<lparr>b_data := put16 (b_data b) idx (word_of_int n), b_dirt := True\<rparr>) s2"
        have e1: "zref s1 ino p0 = 0" "zref s1 ino pz \<noteq> 0" using i0 c nz st1(2) by simp_all
        have b1: "bufs s1 (i_dev ino, uint (zref s1 ino pz)) = Some bh" using b(1) q1 by simp
        have s3: "?s3 = upd_buf (i_dev ino, uint (zref s1 ino pz))
            (\<lambda>b. b\<lparr>b_data := put16 (b_data b) idx (word_of_int n), b_dirt := True\<rparr>) s2"
          using q1 by simp
        note se = store_entry_step[OF ok1 par idx e1(2,1) b1 b(2) nb False s3]
        obtain b3 where b3: "bufs ?s3 ?q = Some b3" using se(3) q1 by auto
        from rel False have rel': "brelse ?q ?s3 = Inr s'" by simp
        note bl = brelse_ok[OF rel' b3]
        have c': "contents s' q = contents ?s3 q" for q by (rule bl(5))
        note st4 = fmap_step_same[OF fmap_stepD(1)[OF se(1)] c' bl(2)]
        from fmap_step_trans[OF ok1 se(1) st4(1)] have "fmap_step k s1 ino s' ino" .
        from fmap_step_trans[OF ok st1(1) this] rr se(2) st4(2) c show ?thesis by simp
      next
        case True
        with nb have nb0: "new_block (i_dev ino) s1 = Inr (0, s2)" by simp
        note sp = new_block_zero[OF nb0 fmap_okD(1,2)[OF ok1]]
        note fr = new_block_frame[OF ok1 nb]
        have c2: "contents s2 q = contents s1 q" for q
          by (rule contents_cong) (use sp(1,2) in simp_all)
        have r2: "zref s2 ino p = zref s1 ino p" for p by (rule zref_same) (rule c2)
        have ok2: "fmap_ok s2 k ino"
          using ok1 fr r2 sp(8) unfolding fmap_ok_def zone_ok_def by simp
        then have st2: "fmap_step k s1 ino s2 ino" using fr r2 c2 by (simp add: fmap_step_def)
        from rel True have rel': "brelse ?q s2 = Inr s'" by simp
        have b2: "bufs s2 ?q = Some bh" using b(1) sp(1) by simp
        note bl = brelse_ok[OF rel' b2]
        have c': "contents s' q = contents s2 q" for q by (rule bl(5))
        note st4 = fmap_step_same[OF ok2 c' bl(2)]
        from fmap_step_trans[OF ok1 st2 st4(1)] have "fmap_step k s1 ino s' ino" .
        from fmap_step_trans[OF ok st1(1) this] True rr i0 c r2 st4(2) show ?thesis by simp
      qed
    qed
  qed
  then show "fmap_step k s ino s' ino" and "r = uint (zref s' ino p0)"
    and "\<not> create \<Longrightarrow> zref s' ino p = zref s ino p" by blast+
qed


section \<open>The whole of \<open>_bmap\<close>\<close>

lemma alloc_zone_lookup: "alloc_zone ino slot False s = Inr (ino', s') \<longleftrightarrow> ino' = ino \<and> s' = s"
  by (auto simp: alloc_zone_def)

lemma bmap_gen_spec:
  assumes ok: "fmap_ok s k ino" and bm: "bmap_gen ino block create s = Inr (r, ino', s')"
  shows "0 \<le> block" and "block < 7 + 512 + 512 * 512"
    and "fmap_step k s ino s' ino'" and "r = uint (zref s' ino' (zpos_of block))"
    and "\<not> create \<Longrightarrow> ino' = ino" and "\<not> create \<Longrightarrow> zref s' ino p = zref s ino p"
proof -
  from bm show rng: "0 \<le> block" "block < 7 + 512 + 512 * 512"
    by (auto simp: bmap_gen_def split: if_splits)
  let ?slot = "if block < 7 then nat block else if block < 519 then 7 else 8"
  have sl: "?slot < 9" using rng by auto
  from bm rng obtain s1 where az: "alloc_zone ino ?slot create s = Inr (ino', s1)"
    by (auto simp: bmap_gen_def Let_def kbind_Inr_iff split: if_splits)
  note st1 = alloc_zone_step[OF ok sl az]
  note ok1 = fmap_stepD(1)[OF st1]
  have look: "ino' = ino \<and> s1 = s" if "\<not> create" using az that by (auto simp: alloc_zone_lookup)
  have "fmap_step k s ino s' ino' \<and> r = uint (zref s' ino' (zpos_of block))
    \<and> (\<not> create \<longrightarrow> zref s' ino p = zref s ino p)"
  proof (cases "block < 7")
    case True
    with bm az rng have "s' = s1" "r = uint (i_zone ino' (nat block))"
      by (auto simp: bmap_gen_def kbind_Inr_iff)
    with True rng st1 look show ?thesis by (auto simp: zpos_of_def)
  next
    case nd: False
    show ?thesis
    proof (cases "block < 519")
      case b: True
      let ?i = "nat (block - 7)"
      show ?thesis
      proof (cases "i_zone ino' 7 = 0")
        case True
        with bm az nd b rng have "s' = s1" "r = 0"
          by (auto simp: bmap_gen_def kbind_Inr_iff)
        with True b nd st1 look show ?thesis by (auto simp: zpos_of_def)
      next
        case False
        with bm az nd b rng have ie: "ind_entry (i_dev ino') (uint (zref s1 ino' ZInd)) ?i create s1 = Inr (r, s')"
          by (auto simp: bmap_gen_def kbind_Inr_iff)
        have i: "?i < 512" using b nd by auto
        have par: "parent (ZIndE ?i) = Some (ZInd, ?i)" by simp
        have nz: "zref s1 ino' ZInd \<noteq> 0" using False by simp
        note sp = ind_entry_step[OF ok1 par i nz ie]
        from fmap_step_trans[OF ok st1 sp(1)] sp(2,3) nd b look show ?thesis
          by (auto simp: zpos_of_def simp del: zref.simps)
      qed
    next
      case nb: False
      let ?b = "nat (block - 519)"
      have blk: "nat (block - 7 - 512) = ?b" by simp
      show ?thesis
      proof (cases "i_zone ino' 8 = 0")
        case True
        with bm az nd nb rng have "s' = s1" "r = 0"
          by (auto simp: bmap_gen_def kbind_Inr_iff Let_def)
        with True nb nd st1 look show ?thesis by (auto simp: zpos_of_def)
      next
        case False
        from False bm az nd nb rng obtain i s2 where
          ie: "ind_entry (i_dev ino') (uint (zref s1 ino' ZDInd)) (?b div 512) create s1 = Inr (i, s2)"
          and rest: "(if i = 0 then Inr (0, ino', s2)
               else kbind (ind_entry (i_dev ino') i (?b mod 512) create s2)
                      (\<lambda>(j, s3). Inr (j, ino', s3))) = Inr (r, ino', s')"
          by (auto simp: bmap_gen_def kbind_Inr_iff Let_def)
        have i: "?b div 512 < 512" "?b mod 512 < 512" using rng nb by auto
        have par: "parent (ZTab (?b div 512)) = Some (ZDInd, ?b div 512)"
          "parent (ZTabE (?b div 512) (?b mod 512)) = Some (ZTab (?b div 512), ?b mod 512)" by simp_all
        have nz: "zref s1 ino' ZDInd \<noteq> 0" using False by simp
        note sp = ind_entry_step[OF ok1 par(1) i(1) nz ie]
        have st2: "fmap_step k s ino s2 ino'" by (rule fmap_step_trans[OF ok st1 sp(1)])
        have zp: "zpos_of block = ZTabE (?b div 512) (?b mod 512)"
          using nd nb by (simp add: zpos_of_def)
        show ?thesis
        proof (cases "i = 0")
          case True
          with rest have "s' = s2" "r = 0" by auto
          moreover have "zref s2 ino' (ZTab (?b div 512)) = 0"
            using sp(2) True by (simp add: uint_0_iff del: zref.simps)
          then have "zref s2 ino' (zpos_of block) = 0" by (simp add: zp)
          ultimately show ?thesis using st2 sp(3)[of p] look by (auto simp del: zref.simps)
        next
          case False
          with rest sp(2) have ie2: "ind_entry (i_dev ino') (uint (zref s2 ino' (ZTab (?b div 512))))
              (?b mod 512) create s2 = Inr (r, s')"
            by (auto simp: kbind_Inr_iff simp del: zref.simps)
          have nz2: "zref s2 ino' (ZTab (?b div 512)) \<noteq> 0"
            using sp(2) False by (auto simp del: zref.simps)
          note sp2 = ind_entry_step[OF fmap_stepD(1)[OF sp(1)] par(2) i(2) nz2 ie2]
          from fmap_step_trans[OF ok st2 sp2(1)] sp2(2) sp(3)[of p] sp2(3)[of p] look
          show ?thesis by (auto simp: zp simp del: zref.simps)
        qed
      qed
    qed
  qed
  then show "fmap_step k s ino s' ino'" and "r = uint (zref s' ino' (zpos_of block))"
    and "\<not> create \<Longrightarrow> zref s' ino p = zref s ino p" by blast+
  show "\<not> create \<Longrightarrow> ino' = ino" using look by blast
qed

text \<open>\<open>bmap\<close> reads the map and changes nothing a file can see.\<close>

lemma bmap_spec:
  assumes "fmap_ok s k ino" and "bmap ino block s = Inr (r, ino', s')"
  shows "ino' = ino" and "r = uint (zref s ino (zpos_of block))" and "fmap_ok s' k ino"
    and "zref s' ino p = zref s ino p"
  using bmap_gen_spec[OF assms(1) assms(2)[unfolded bmap_def]] fmap_stepD(1) by simp_all

section \<open>Two files\<close>

definition files_disjoint :: "fs_state \<Rightarrow> m_inode \<Rightarrow> m_inode \<Rightarrow> bool" where
  "files_disjoint s a b \<longleftrightarrow>
     i_dev a \<noteq> i_dev b \<or> (\<forall>p q. zref s a p \<noteq> 0 \<longrightarrow> zref s a p \<noteq> zref s b q)"

lemma fmap_step_other_refs:
  assumes a: "fmap_ok s k a" and b: "fmap_ok s kb b" and dis: "files_disjoint s a b"
    and st: "fmap_step k s a s' a'"
  shows "zref s' b p = zref s b p"
proof (induction p rule: zpos_parent_induct)
  case (root p)
  then show ?case by (cases p) auto
next
  case (child p q i)
  have "entry s' (i_dev b) (zref s b q) i = entry s (i_dev b) (zref s b q) i"
  proof (cases "zref s b q = 0")
    case False
    have "i_dev b = i_dev a \<Longrightarrow> kb = k"
      using fmap_okD(1)[OF a] fmap_okD(1)[OF b] by simp
    then have "i_dev b \<noteq> i_dev a \<or> zone_used (super s k) (uint (zref s b q)) \<and> (\<forall>p. zref s a p \<noteq> zref s b q)"
      using dis False fmap_okD(4)[OF b False] by (metis files_disjoint_def)
    from fmap_stepD(9)[OF st this] show ?thesis by (rule entry_cong)
  qed simp
  with child.IH zref_parent[OF child(1)] show ?case by metis
qed

lemma fmap_step_other_file:
  assumes a: "fmap_ok s k a" and b: "fmap_ok s kb b" and dis: "files_disjoint s a b"
    and st: "fmap_step k s a s' a'"
  shows "fmap_ok s' kb b" and "files_disjoint s' a' b"
proof -
  note refs = fmap_step_other_refs[OF a b dis st]
  note S = fmap_stepD[OF st]
  have zo: "zone_ok (super s' kb) x" if "zone_ok (super s kb) x" for x
    using that S(4-7)[of] by (cases "kb = k") (auto simp: zone_ok_def)
  have "zmap_ok (super s' kb)"
    using S(1,7) fmap_okD(2)[OF b] by (cases "kb = k") (auto simp: fmap_ok_def)
  then show "fmap_ok s' kb b"
    using fmap_okD[OF b] S(8) zo unfolding fmap_ok_def refs by metis
  show "files_disjoint s' a' b"
    unfolding files_disjoint_def
  proof (cases "i_dev a = i_dev b")
    case True
    then have kb: "kb = k" using fmap_okD(1)[OF a] fmap_okD(1)[OF b] by simp
    have "zref s' a' p \<noteq> zref s' b q" if nz: "zref s' a' p \<noteq> 0" for p q
    proof (cases "zref s a p = 0")
      case True
      with S(11)[OF True nz] fmap_okD(4)[OF b, of q] kb nz refs[of q] show ?thesis by metis
    next
      case False
      with S(3)[OF False] dis \<open>i_dev a = i_dev b\<close> refs[of q] show ?thesis
        by (metis files_disjoint_def)
    qed
    then show "i_dev a' \<noteq> i_dev b \<or> (\<forall>p q. zref s' a' p \<noteq> 0 \<longrightarrow> zref s' a' p \<noteq> zref s' b q)" by blast
  next
    case False
    then show "i_dev a' \<noteq> i_dev b \<or> (\<forall>p q. zref s' a' p \<noteq> 0 \<longrightarrow> zref s' a' p \<noteq> zref s' b q)"
      using S(2) by simp
  qed
qed

end
