(* ===== verification/Truncate.thy ===== *)
theory Truncate
  imports Bmap
begin

text \<open>
  Freeing a file's zones (\<open>fs/truncate.c\<close>). \<open>free_ind\<close> and \<open>free_dind\<close> are the same code one
  level apart, so both are instances of one definition over the routine that frees an entry.
\<close>

section \<open>The code\<close>

text \<open>
  The loop over the 512 entries of an index block held in the buffer of \<open>(dev, z)\<close>: an entry
  that is freed is cleared and the buffer marked dirty; an entry that cannot be freed makes the
  block busy.
\<close>

fun free_entries :: "(u16 \<Rightarrow> int \<Rightarrow> fs_state \<Rightarrow> (bool \<times> fs_state) kres) \<Rightarrow> u16 \<Rightarrow> int \<Rightarrow>
    nat list \<Rightarrow> bool \<Rightarrow> fs_state \<Rightarrow> (bool \<times> fs_state) kres" where
  "free_entries f dev z [] busy s = Inr (busy, s)"
| "free_entries f dev z (i # is) busy s =
     (case bufs s (dev, z) of
        None \<Rightarrow> Inl NullDeref
      | Some bh \<Rightarrow>
          let p = get16 (b_data bh) i
          in if p = 0 then free_entries f dev z is busy s
             else kbind (f dev (uint p) s)
                    (\<lambda>(ok, s1).
                       if ok
                       then free_entries f dev z is busy
                              (upd_buf (dev, z)
                                 (\<lambda>b. b\<lparr>b_data := put16 (b_data b) i 0, b_dirt := True\<rparr>) s1)
                       else free_entries f dev z is True s1))"

definition free_index :: "(u16 \<Rightarrow> int \<Rightarrow> fs_state \<Rightarrow> (bool \<times> fs_state) kres) \<Rightarrow> u16 \<Rightarrow> int \<Rightarrow>
    fs_state \<Rightarrow> (bool \<times> fs_state) kres" where
  "free_index f dev block s =
     (if block = 0 then Inr (True, s)
      else kbind (bread (dev, block) s)
             (\<lambda>(ok, s1).
                kbind
                  (if ok
                   then kbind (free_entries f dev block [0..<512] False s1)
                          (\<lambda>(busy, s2). kbind (brelse (dev, block) s2) (\<lambda>s3. Inr (busy, s3)))
                   else Inr (False, s1))
                  (\<lambda>(busy, s4). if busy then Inr (False, s4) else free_block dev block s4)))"

definition free_ind :: "u16 \<Rightarrow> int \<Rightarrow> fs_state \<Rightarrow> (bool \<times> fs_state) kres" where
  "free_ind dev block s = free_index free_block dev block s"

definition free_dind :: "u16 \<Rightarrow> int \<Rightarrow> fs_state \<Rightarrow> (bool \<times> fs_state) kres" where
  "free_dind dev block s = free_index free_ind dev block s"

definition s_isreg :: "u16 \<Rightarrow> bool" where "s_isreg m \<longleftrightarrow> m AND 0xF000 = 0x8000"
definition s_isdir :: "u16 \<Rightarrow> bool" where "s_isdir m \<longleftrightarrow> m AND 0xF000 = 0x4000"
definition s_islnk :: "u16 \<Rightarrow> bool" where "s_islnk m \<longleftrightarrow> m AND 0xF000 = 0xA000"

fun truncate_direct :: "nat list \<Rightarrow> bool \<Rightarrow> m_inode \<Rightarrow> fs_state \<Rightarrow> (bool \<times> m_inode \<times> fs_state) kres" where
  "truncate_direct [] busy ino s = Inr (busy, ino, s)"
| "truncate_direct (i # is) busy ino s =
     (if i_zone ino i = 0 then truncate_direct is busy ino s
      else kbind (free_block (i_dev ino) (uint (i_zone ino i)) s)
             (\<lambda>(ok, s1).
                if ok then truncate_direct is busy (ino\<lparr>i_zone := (i_zone ino)(i := 0)\<rparr>) s1
                else truncate_direct is True ino s1))"

text \<open>One run of the body of \<open>truncate\<close> from \<open>repeat\<close> to the test of \<open>block_busy\<close>.\<close>

definition truncate_pass :: "m_inode \<Rightarrow> fs_state \<Rightarrow> (bool \<times> m_inode \<times> fs_state) kres" where
  "truncate_pass ino s =
     kbind (truncate_direct [0..<7] False ino s)
       (\<lambda>(busy1, ino1, s1).
          kbind (free_ind (i_dev ino1) (uint (i_zone ino1 7)) s1)
            (\<lambda>(ok2, s2).
               let ino2 = (if ok2 then ino1\<lparr>i_zone := (i_zone ino1)(7 := 0)\<rparr> else ino1);
                   busy2 = (busy1 \<or> \<not> ok2)
               in kbind (free_dind (i_dev ino2) (uint (i_zone ino2 8)) s2)
                    (\<lambda>(ok3, s3).
                       let ino3 = (if ok3 then ino2\<lparr>i_zone := (i_zone ino2)(8 := 0)\<rparr> else ino2)
                       in Inr (busy2 \<or> \<not> ok3, ino3\<lparr>i_dirt := True\<rparr>, s3))))"

text \<open>
  While some block is busy the process gives up the processor and starts over; the list says
  what the other processes did at each such \<open>schedule\<close>. \<open>None\<close>: still waiting when the list
  ends.
\<close>

fun truncate_loop :: "(m_inode \<times> fs_state \<Rightarrow> m_inode \<times> fs_state) list \<Rightarrow> m_inode \<Rightarrow> fs_state \<Rightarrow>
    (m_inode \<times> fs_state) option kres" where
  "truncate_loop envs ino s =
     kbind (truncate_pass ino s)
       (\<lambda>(busy, ino1, s1).
          if busy
          then (case envs of [] \<Rightarrow> Inr None
                | e # es \<Rightarrow> (let (ino2, s2) = e (ino1, s1) in truncate_loop es ino2 s2))
          else Inr (Some (ino1\<lparr>i_size := 0, i_mtime := cur_time s1, i_ctime := cur_time s1\<rparr>, s1)))"

declare truncate_loop.simps [simp del]

definition truncate :: "(m_inode \<times> fs_state \<Rightarrow> m_inode \<times> fs_state) list \<Rightarrow> m_inode \<Rightarrow> fs_state \<Rightarrow>
    (m_inode \<times> fs_state) option kres" where
  "truncate envs ino s =
     (if s_isreg (i_mode ino) \<or> s_isdir (i_mode ino) \<or> s_islnk (i_mode ino)
      then truncate_loop envs ino s else Inr (Some (ino, s)))"

section \<open>The zones of an index tree\<close>

fun free_tree :: "nat \<Rightarrow> u16 \<Rightarrow> int \<Rightarrow> fs_state \<Rightarrow> (bool \<times> fs_state) kres" where
  "free_tree 0 = free_block"
| "free_tree (Suc n) = free_index (free_tree n)"

lemma free_ind_tree: "free_ind = free_tree 1" and free_dind_tree: "free_dind = free_tree 2"
  by (auto simp: fun_eq_iff free_ind_def free_dind_def numeral_2_eq_2)
     (metis ext free_ind_def)

fun ztree :: "fs_state \<Rightarrow> u16 \<Rightarrow> nat \<Rightarrow> u16 \<Rightarrow> u16 set" where
  "ztree s dev 0 x = {x}"
| "ztree s dev (Suc n) x =
     insert x (\<Union>i \<in> {i. entry s dev x i \<noteq> 0}. ztree s dev n (entry s dev x i))"

text \<open>A data zone whose map block is in core and whose buffer nobody holds.\<close>

definition freeable :: "fs_state \<Rightarrow> nat \<Rightarrow> u16 \<Rightarrow> u16 \<Rightarrow> bool" where
  "freeable s k dev x \<longleftrightarrow> x \<noteq> 0 \<and> held s (dev, uint x) = 0
     \<and> uint (s_firstdatazone (super s k)) \<le> uint x \<and> uint x < uint (s_nzones (super s k))
     \<and> s_zmap (super s k) (zone_index (super s k) (uint x) div 8192) \<noteq> None"

text \<open>Every zone of the tree can be freed, and none occurs twice.\<close>

fun tree_ok :: "fs_state \<Rightarrow> nat \<Rightarrow> u16 \<Rightarrow> nat \<Rightarrow> u16 \<Rightarrow> bool" where
  "tree_ok s k dev 0 x \<longleftrightarrow> freeable s k dev x"
| "tree_ok s k dev (Suc n) x \<longleftrightarrow> freeable s k dev x
     \<and> (\<forall>i. entry s dev x i \<noteq> 0 \<longrightarrow> tree_ok s k dev n (entry s dev x i)
             \<and> x \<notin> ztree s dev n (entry s dev x i))
     \<and> (\<forall>i j. entry s dev x i \<noteq> 0 \<longrightarrow> entry s dev x j \<noteq> 0 \<longrightarrow> i \<noteq> j \<longrightarrow>
          ztree s dev n (entry s dev x i) \<inter> ztree s dev n (entry s dev x j) = {})"

text \<open>
  \<open>s'\<close> is \<open>s\<close> with the zones \<open>F\<close> freed and nothing but the buffers of the zones \<open>C\<close> touched.
\<close>

definition frees :: "nat \<Rightarrow> u16 \<Rightarrow> fs_state \<Rightarrow> fs_state \<Rightarrow> u16 set \<Rightarrow> u16 set \<Rightarrow> bool" where
  "frees k dev s s' F C \<longleftrightarrow>
     (\<forall>x. zone_used (super s' k) (uint x) \<longleftrightarrow> zone_used (super s k) (uint x) \<and> x \<notin> F)
     \<and> s_firstdatazone (super s' k) = s_firstdatazone (super s k)
     \<and> s_nzones (super s' k) = s_nzones (super s k)
     \<and> (\<forall>i. s_zmap (super s' k) i = None \<longleftrightarrow> s_zmap (super s k) i = None)
     \<and> (zmap_ok (super s k) \<longrightarrow> zmap_ok (super s' k))
     \<and> (\<forall>d. get_super d s' = get_super d s)
     \<and> (\<forall>k'. k' \<noteq> k \<longrightarrow> super s' k' = super s k')
     \<and> (\<forall>d z. d \<noteq> dev \<or> z \<notin> uint ` C \<longrightarrow> bufs s' (d, z) = bufs s (d, z))
     \<and> (\<forall>x :: u16. held s (dev, uint x) = 0 \<longrightarrow> held s' (dev, uint x) = 0)
     \<and> disk s' = disk s \<and> cur_time s' = cur_time s"

lemma freesD:
  assumes "frees k dev s s' F C"
  shows "zone_used (super s' k) (uint x) \<longleftrightarrow> zone_used (super s k) (uint x) \<and> x \<notin> F"
    and "s_firstdatazone (super s' k) = s_firstdatazone (super s k)"
    and "s_nzones (super s' k) = s_nzones (super s k)"
    and "s_zmap (super s' k) i = None \<longleftrightarrow> s_zmap (super s k) i = None"
    and "zmap_ok (super s k) \<Longrightarrow> zmap_ok (super s' k)"
    and "get_super d s' = get_super d s"
    and "k' \<noteq> k \<Longrightarrow> super s' k' = super s k'"
    and "d \<noteq> dev \<or> z \<notin> uint ` C \<Longrightarrow> bufs s' (d, z) = bufs s (d, z)"
    and "held s (dev, uint (x :: u16)) = 0 \<Longrightarrow> held s' (dev, uint x) = 0"
    and "disk s' = disk s" and "cur_time s' = cur_time s"
  using assms unfolding frees_def by blast+

lemma frees_contents:
  "frees k dev s s' F C \<Longrightarrow> d \<noteq> dev \<or> z \<notin> uint ` C \<Longrightarrow> contents s' (d, z) = contents s (d, z)"
  by (rule contents_cong) (auto dest: freesD)

lemma frees_refl: "frees k dev s s {} C"
  by (simp add: frees_def)

lemma frees_trans:
  assumes a: "frees k dev s s1 F C" and b: "frees k dev s1 s2 G D"
  shows "frees k dev s s2 (F \<union> G) (C \<union> D)"
  unfolding frees_def
proof (intro conjI allI impI)
  fix d z assume "d \<noteq> dev \<or> z \<notin> uint ` (C \<union> D)"
  then have "d \<noteq> dev \<or> z \<notin> uint ` C" "d \<noteq> dev \<or> z \<notin> uint ` D" by auto
  then show "bufs s2 (d, z) = bufs s (d, z)" using freesD(8)[OF a] freesD(8)[OF b] by metis
qed (use freesD[OF a] freesD[OF b] in auto)

lemma frees_weaken: "frees k dev s s' F C \<Longrightarrow> C \<subseteq> D \<Longrightarrow> frees k dev s s' F D"
  unfolding frees_def by blast

lemma frees_freeable:
  assumes "frees k dev s s' F C" and "freeable s k dev x"
  shows "freeable s' k dev x"
  using assms(2) freesD(9)[OF assms(1)]
  by (simp add: freeable_def zone_index_def freesD(2,3,4)[OF assms(1)])

text \<open>A tree none of whose blocks was touched is the same tree afterwards.\<close>

lemma tree_same:
  assumes c: "\<And>z :: u16. z \<notin> C \<Longrightarrow> contents s' (dev, uint z) = contents s (dev, uint z)"
    and f: "\<And>z. z \<notin> C \<Longrightarrow> freeable s k dev z \<Longrightarrow> freeable s' k dev z"
  shows "C \<inter> ztree s dev n x = {} \<Longrightarrow> ztree s' dev n x = ztree s dev n x
    \<and> (tree_ok s k dev n x \<longrightarrow> tree_ok s' k dev n x)"
proof (induction n arbitrary: x)
  case 0
  then show ?case using f by simp
next
  case (Suc n)
  have x: "x \<notin> C" using Suc.prems by auto
  have e: "entry s' dev x i = entry s dev x i" for i by (rule entry_cong, rule c, rule x)
  have sub: "C \<inter> ztree s dev n (entry s dev x i) = {}" if "entry s dev x i \<noteq> 0" for i
    using Suc.prems that by auto
  have ih: "ztree s' dev n (entry s dev x i) = ztree s dev n (entry s dev x i)
      \<and> (tree_ok s k dev n (entry s dev x i) \<longrightarrow> tree_ok s' k dev n (entry s dev x i))"
    if "entry s dev x i \<noteq> 0" for i
    by (rule Suc.IH[OF sub[OF that]])
  have "ztree s' dev (Suc n) x = ztree s dev (Suc n) x" using ih by (simp add: e)
  moreover have "tree_ok s' k dev (Suc n) x" if "tree_ok s k dev (Suc n) x"
    using that ih f[OF x] unfolding tree_ok.simps e by metis
  ultimately show ?case by blast
qed

lemma tree_frees:
  assumes "frees k dev s s' F C" and "C \<inter> ztree s dev n x = {}"
  shows "ztree s' dev n x = ztree s dev n x \<and> (tree_ok s k dev n x \<longrightarrow> tree_ok s' k dev n x)"
  by (rule tree_same[OF _ frees_freeable[OF assms(1)] assms(2)])
     (auto intro!: frees_contents[OF assms(1)])

section \<open>Freeing a tree frees exactly its zones\<close>

lemma brelse_bufs:
  assumes "bufs s q = Some b" and "b_count b \<noteq> 0"
  shows "brelse q s = Inr (upd_buf q (\<lambda>b. b\<lparr>b_count := b_count b - 1\<rparr>) s)"
  using assms by (simp add: brelse_def)

text \<open>Reading a block nobody holds cannot fail in the kernel, whatever the driver answers.\<close>

lemma bread_free_buffer:
  assumes "held s q = 0"
  obtains ok s1 where "bread q s = Inr (ok, s1)" and "\<And>q'. q' \<noteq> q \<Longrightarrow> bufs s1 q' = bufs s q'"
    and "super s1 = super s" and "disk s1 = disk s" and "cur_time s1 = cur_time s"
    and "contents s1 q = contents s q"
    and "ok \<longleftrightarrow> contents s q \<noteq> None" and "held s1 q = (if ok then 1 else 0)"
    and "ok \<Longrightarrow> \<exists>b. bufs s1 q = Some b \<and> b_uptodate b \<and> b_count b = 1 \<and> contents s q = Some (b_data b)"
proof (cases "bufs s q")
  case None
  then show ?thesis
    by (cases "disk s q")
       (auto intro!: that simp: bread_def getblk_def fresh_buf_def brelse_def contents_def held_def)
next
  case (Some b)
  with assms have c: "b_count b = 0" by (simp add: held_def)
  show ?thesis
  proof (cases "b_uptodate b")
    case True
    with Some c show ?thesis
      by (intro that[of True "getblk q s"]) (auto simp: bread_def getblk_def contents_def held_def)
  next
    case False
    with Some c show ?thesis
      by (cases "disk s q")
         (auto intro!: that simp: bread_def getblk_def brelse_def contents_def held_def)
  qed
qed

lemma free_block_frees:
  assumes k: "get_super dev s = Some k" and fr: "freeable s k dev x"
  obtains s' where "free_block dev (uint x) s = Inr (True, s')" and "frees k dev s s' {x} {x}"
proof -
  obtain found s1 where g: "get_hash_table (dev, uint x) s = (found, s1)" by fastforce
  have h: "held s (dev, uint x) = 0" using fr by (simp add: freeable_def)
  have g1: "found \<Longrightarrow> held s1 (dev, uint x) = 1" "found \<longleftrightarrow> bufs s (dev, uint x) \<noteq> None"
    using g h by (auto simp: get_hash_table_def held_def split: option.splits if_splits)
  let ?n = "zone_index (super s k) (uint x)"
  obtain bh where bh: "s_zmap (super s k) (?n div 8192) = Some bh"
    using fr by (auto simp: freeable_def)
  let ?s2 = "upd_buf (dev, uint x) (\<lambda>b. b\<lparr>b_dirt := False, b_uptodate := False\<rparr>) s1"
  have "\<exists>s3. (if found then if held ?s2 (dev, uint x) \<noteq> 0 then brelse (dev, uint x) ?s2 else Inr ?s2
        else Inr s1) = Inr s3"
    by (auto simp: brelse_def held_def split: option.splits)
  then obtain s3 where s3: "(if found then if held ?s2 (dev, uint x) \<noteq> 0
        then brelse (dev, uint x) ?s2 else Inr ?s2 else Inr s1) = Inr s3" by blast
  have "\<exists>s'. free_block dev (uint x) s = Inr (True, s')"
    using k fr g g1(1) bh s3
    by (cases found) (simp_all add: free_block_def freeable_def Let_def zone_index_def not_le not_less)
  then obtain s' where s': "free_block dev (uint x) s = Inr (True, s')" by blast
  note sp = free_block_spec[OF s' k]
  have idx: "zone_index (super s k) (uint y) \<noteq> ?n \<longleftrightarrow> y \<noteq> x" for y
  proof (cases "uint (s_firstdatazone (super s k)) \<le> uint y")
    case True
    then show ?thesis using zone_index_inj[OF True sp(1)] by simp
  next
    case False
    then have "zone_index (super s k) (uint y) = 0" "0 < ?n" "y \<noteq> x"
      using sp(1) by (auto simp: zone_index_def)
    then show ?thesis by simp
  qed
  have "frees k dev s s' {x} {x}"
    unfolding frees_def
  proof (intro conjI allI impI)
    fix y :: u16 assume "held s (dev, uint y) = 0"
    then show "held s' (dev, uint y) = 0"
      using sp(14) sp(9)[of "(dev, uint y)"] by (cases "y = x") (auto simp: held_def)
  next
    fix d z assume "d \<noteq> dev \<or> z \<notin> uint ` {x}"
    then show "bufs s' (d, z) = bufs s (d, z)" by (intro sp(9)) auto
  qed (use sp idx in auto)
  with s' show ?thesis by (rule that)
qed

lemma frees_bufs:
  "frees k dev s s' F C \<Longrightarrow> z \<notin> C \<Longrightarrow> bufs s' (dev, uint z) = bufs s (dev, uint z)"
  by (erule freesD(8)) auto

lemma clear_entry_frees:
  assumes "bufs s (dev, uint z) = Some bh" and "get_super dev s = Some k"
  shows "frees k dev s (upd_buf (dev, uint z)
     (\<lambda>b. b\<lparr>b_data := put16 (b_data b) i 0, b_dirt := True\<rparr>) s) {} {z}"
  unfolding frees_def
proof (intro conjI allI impI)
  fix x :: u16 assume "held s (dev, uint x) = 0"
  then show "held (upd_buf (dev, uint z) (\<lambda>b. b\<lparr>b_data := put16 (b_data b) i 0, b_dirt := True\<rparr>) s)
     (dev, uint x) = 0" using assms(1) by (auto simp: held_def)
next
  fix d show "get_super d (upd_buf (dev, uint z) (\<lambda>b. b\<lparr>b_data := put16 (b_data b) i 0, b_dirt := True\<rparr>) s)
      = get_super d s" by (rule get_super_cong) simp
qed auto

text \<open>
  The loop over an index block: with every entry's tree freeable, the loop ends, nothing is busy,
  and the trees of the entries it visited are free. \<open>IH\<close> is the claim for the trees one level
  down.
\<close>

lemma free_entries_frees:
  assumes IH: "\<And>x s. get_super dev s = Some k \<Longrightarrow> tree_ok s k dev n x \<Longrightarrow>
      \<exists>s'. f dev (uint x) s = Inr (True, s') \<and> frees k dev s s' (ztree s dev n x) (ztree s dev n x)"
    and "get_super dev s = Some k" and "distinct is" and "z \<noteq> 0"
    and "bufs s (dev, uint z) = Some bh" and "b_uptodate bh"
    and "\<And>i. i \<in> set is \<Longrightarrow> e i = get16 (b_data bh) i"
    and "\<And>i. i \<in> set is \<Longrightarrow> e i \<noteq> 0 \<Longrightarrow> tree_ok s k dev n (e i) \<and> ztree s dev n (e i) = T i \<and> z \<notin> T i"
    and "\<And>i j. i \<in> set is \<Longrightarrow> j \<in> set is \<Longrightarrow> e i \<noteq> 0 \<Longrightarrow> e j \<noteq> 0 \<Longrightarrow> i \<noteq> j \<Longrightarrow> T i \<inter> T j = {}"
  shows "\<exists>s' bh'. free_entries f dev (uint z) is busy s = Inr (busy, s')
    \<and> frees k dev s s' (\<Union>i \<in> {i \<in> set is. e i \<noteq> 0}. T i) (insert z (\<Union>i \<in> {i \<in> set is. e i \<noteq> 0}. T i))
    \<and> bufs s' (dev, uint z) = Some bh' \<and> b_uptodate bh' \<and> b_count bh' = b_count bh"
  using assms(2-)
proof (induction "is" arbitrary: s bh)
  case Nil
  then show ?case using frees_refl[of k dev s "{z}"] by simp
next
  case (Cons i "is")
  have ei: "get16 (b_data bh) i = e i" using Cons.prems(6)[of i] by simp
  show ?case
  proof (cases "e i = 0")
    case True
    have "{j \<in> set (i # is). e j \<noteq> 0} = {j \<in> set is. e j \<noteq> 0}" using True by auto
    moreover have "\<exists>s' bh'. free_entries f dev (uint z) is busy s = Inr (busy, s')
        \<and> frees k dev s s' (\<Union>i \<in> {i \<in> set is. e i \<noteq> 0}. T i) (insert z (\<Union>i \<in> {i \<in> set is. e i \<noteq> 0}. T i))
        \<and> bufs s' (dev, uint z) = Some bh' \<and> b_uptodate bh' \<and> b_count bh' = b_count bh"
      by (rule Cons.IH) (use Cons.prems in auto)
    ultimately show ?thesis using True ei Cons.prems(4) by (simp add: Let_def)
  next
    case False
    note pi = Cons.prems(7)[of i, simplified, OF False]
    from IH[OF Cons.prems(1), of "e i"] pi obtain s1 where s1: "f dev (uint (e i)) s = Inr (True, s1)"
      and f1: "frees k dev s s1 (T i) (T i)" by auto
    let ?s2 = "upd_buf (dev, uint z) (\<lambda>b. b\<lparr>b_data := put16 (b_data b) i 0, b_dirt := True\<rparr>) s1"
    let ?bh = "bh\<lparr>b_data := put16 (b_data bh) i 0, b_dirt := True\<rparr>"
    have b1: "bufs s1 (dev, uint z) = Some bh" using frees_bufs[OF f1] pi Cons.prems(4) by simp
    have g1: "get_super dev s1 = Some k" using freesD(6)[OF f1] Cons.prems(1) by simp
    from frees_trans[OF f1 clear_entry_frees[OF b1 g1, of i]]
    have f2: "frees k dev s ?s2 (T i) (T i \<union> {z})" by simp
    have g2: "get_super dev ?s2 = Some k" using freesD(6)[OF f2] Cons.prems(1) by simp
    have tr: "ztree ?s2 dev n (e j) = T j \<and> tree_ok ?s2 k dev n (e j) \<and> z \<notin> T j"
      if j: "j \<in> set is" "e j \<noteq> 0" for j
    proof -
      have "i \<noteq> j" using j(1) Cons.prems(2) by auto
      then have "T i \<inter> T j = {}" using Cons.prems(8)[of i j] j False by auto
      moreover note pj = Cons.prems(7)[of j, simplified, OF disjI2, OF j]
      ultimately have "(T i \<union> {z}) \<inter> ztree s dev n (e j) = {}" by auto
      from tree_frees[OF f2 this] pj show ?thesis by auto
    qed
    have "\<exists>s' bh'. free_entries f dev (uint z) is busy ?s2 = Inr (busy, s')
        \<and> frees k dev ?s2 s' (\<Union>i \<in> {i \<in> set is. e i \<noteq> 0}. T i) (insert z (\<Union>i \<in> {i \<in> set is. e i \<noteq> 0}. T i))
        \<and> bufs s' (dev, uint z) = Some bh' \<and> b_uptodate bh' \<and> b_count bh' = b_count ?bh"
    proof (rule Cons.IH)
      show "e j = get16 (b_data ?bh) j" if "j \<in> set is" for j
        using that Cons.prems(2) Cons.prems(6)[of j] by (auto simp: get16_put16)
    qed (use Cons.prems b1 g2 tr in auto)
    then obtain s' bh' where r: "free_entries f dev (uint z) is busy ?s2 = Inr (busy, s')"
      and f3: "frees k dev ?s2 s' (\<Union>i \<in> {i \<in> set is. e i \<noteq> 0}. T i)
          (insert z (\<Union>i \<in> {i \<in> set is. e i \<noteq> 0}. T i))"
      and b': "bufs s' (dev, uint z) = Some bh'" "b_uptodate bh'" "b_count bh' = b_count bh" by auto
    have st: "{j \<in> set (i # is). e j \<noteq> 0} = insert i {j \<in> set is. e j \<noteq> 0}" using False by auto
    have "frees k dev s s' (T i \<union> (\<Union>i \<in> {i \<in> set is. e i \<noteq> 0}. T i))
        ((T i \<union> {z}) \<union> insert z (\<Union>i \<in> {i \<in> set is. e i \<noteq> 0}. T i))"
      by (rule frees_trans[OF f2 f3])
    moreover have "(T i \<union> {z}) \<union> insert z X = insert z (T i \<union> X)" for X by auto
    ultimately have "frees k dev s s' (\<Union>j \<in> {j \<in> set (i # is). e j \<noteq> 0}. T j)
        (insert z (\<Union>j \<in> {j \<in> set (i # is). e j \<noteq> 0}. T j))" unfolding st UN_insert by simp
    moreover have "free_entries f dev (uint z) (i # is) busy s = Inr (busy, s')"
      using False ei Cons.prems(4) s1 r by (simp add: Let_def)
    ultimately show ?thesis using b' by blast
  qed
qed

theorem free_tree_frees:
  assumes "get_super dev s = Some k" and "tree_ok s k dev n x"
  shows "\<exists>s'. free_tree n dev (uint x) s = Inr (True, s')
    \<and> frees k dev s s' (ztree s dev n x) (ztree s dev n x)"
  using assms
proof (induction n arbitrary: x s)
  case 0
  then show ?case using free_block_frees[of dev s k x] by fastforce
next
  case (Suc n)
  let ?e = "entry s dev x"
  let ?T = "\<lambda>i. ztree s dev n (?e i)"
  let ?U = "\<Union>i \<in> {i. ?e i \<noteq> 0}. ?T i"
  from Suc.prems(2) have fx: "freeable s k dev x" by simp
  then have x0: "x \<noteq> 0" and h: "held s (dev, uint x) = 0" by (auto simp: freeable_def)
  obtain ok s1 where br: "bread (dev, uint x) s = Inr (ok, s1)"
    and b1: "\<And>q'. q' \<noteq> (dev, uint x) \<Longrightarrow> bufs s1 q' = bufs s q'"
    and s1: "super s1 = super s" "disk s1 = disk s" "cur_time s1 = cur_time s"
    and cx: "contents s1 (dev, uint x) = contents s (dev, uint x)"
    and okc: "ok \<longleftrightarrow> contents s (dev, uint x) \<noteq> None" and h1: "held s1 (dev, uint x) = (if ok then 1 else 0)"
    and bx: "ok \<Longrightarrow> \<exists>b. bufs s1 (dev, uint x) = Some b \<and> b_uptodate b \<and> b_count b = 1
               \<and> contents s (dev, uint x) = Some (b_data b)"
    by (rule bread_free_buffer[OF h]) (rule that; assumption)
  have g1: "get_super d s1 = get_super d s" for d by (rule get_super_cong) (simp add: s1)
  have "\<exists>s4. (if ok
                   then kbind (free_entries (free_tree n) dev (uint x) [0..<512] False s1)
                          (\<lambda>(busy, s2). kbind (brelse (dev, uint x) s2) (\<lambda>s3. Inr (busy, s3)))
                   else Inr (False, s1)) = Inr (False, s4)
      \<and> frees k dev s s4 ?U (insert x ?U) \<and> held s4 (dev, uint x) = 0"
  proof (cases ok)
    case False
    have "?e i = 0" for i using False okc by (simp add: entry_def)
    moreover have "frees k dev s s1 {} {x}"
      unfolding frees_def
    proof (intro conjI allI impI)
      fix y :: u16 assume "held s (dev, uint y) = 0"
      then show "held s1 (dev, uint y) = 0"
        using h1 False b1[of "(dev, uint y)"] by (cases "y = x") (auto simp: held_def)
    qed (use s1 g1 b1 in auto)
    ultimately show ?thesis using False h1 by auto
  next
    case True
    from bx[OF True] obtain bh where bh: "bufs s1 (dev, uint x) = Some bh" "b_uptodate bh" "b_count bh = 1"
      "contents s (dev, uint x) = Some (b_data bh)" by blast
    have es: "?e i = get16 (b_data bh) i" if "i < 512" for i using that bh(4) x0 by (simp add: entry_def)
    have tr: "tree_ok s1 k dev n (?e i) \<and> ztree s1 dev n (?e i) = ?T i \<and> x \<notin> ?T i" if "?e i \<noteq> 0" for i
    proof -
      have "x \<notin> ?T i" "tree_ok s k dev n (?e i)" using Suc.prems(2) that by auto
      moreover have "ztree s1 dev n (?e i) = ?T i \<and> (tree_ok s k dev n (?e i) \<longrightarrow> tree_ok s1 k dev n (?e i))"
      proof (rule tree_same[where C = "{x}"])
        fix z :: u16 assume "z \<notin> {x}"
        then have b: "bufs s1 (dev, uint z) = bufs s (dev, uint z)" by (intro b1) auto
        then show "contents s1 (dev, uint z) = contents s (dev, uint z)"
          by (rule contents_cong) (rule s1)
        show "freeable s k dev z \<Longrightarrow> freeable s1 k dev z" using held_cong[OF b] s1 by (simp add: freeable_def)
      qed (use \<open>x \<notin> ?T i\<close> in auto)
      ultimately show ?thesis by blast
    qed
    have dj: "?T i \<inter> ?T j = {}" if "?e i \<noteq> 0" "?e j \<noteq> 0" "i \<noteq> j" for i j
      using Suc.prems(2) that by (simp del: ztree.simps)
    have gs1: "get_super dev s1 = Some k" using g1 Suc.prems(1) by simp
    have "\<exists>s' bh'. free_entries (free_tree n) dev (uint x) [0..<512] False s1 = Inr (False, s')
        \<and> frees k dev s1 s' (\<Union>i \<in> {i \<in> set [0..<512]. ?e i \<noteq> 0}. ?T i)
            (insert x (\<Union>i \<in> {i \<in> set [0..<512]. ?e i \<noteq> 0}. ?T i))
        \<and> bufs s' (dev, uint x) = Some bh' \<and> b_uptodate bh' \<and> b_count bh' = b_count bh"
    proof (rule free_entries_frees[where n = n and f = "free_tree n" and k = k and dev = dev
          and s = s1 and bh = bh and e = ?e and T = ?T])
      fix y t assume "get_super dev t = Some k" "tree_ok t k dev n y"
      then show "\<exists>s'. free_tree n dev (uint y) t = Inr (True, s')
          \<and> frees k dev t s' (ztree t dev n y) (ztree t dev n y)" by (rule Suc.IH)
    next
      fix i assume "i \<in> set [0..<512]"
      then show "?e i = get16 (b_data bh) i" by (intro es) auto
    next
      fix i assume "?e i \<noteq> 0"
      then show "tree_ok s1 k dev n (?e i) \<and> ztree s1 dev n (?e i) = ?T i \<and> x \<notin> ?T i" by (rule tr)
    next
      fix i j assume "?e i \<noteq> 0" "?e j \<noteq> 0" "i \<noteq> j"
      then show "?T i \<inter> ?T j = {}" by (rule dj)
    qed (use gs1 x0 bh in auto)
    moreover have "{i \<in> set [0..<512]. ?e i \<noteq> 0} = {i. ?e i \<noteq> 0}" by (auto simp: entry_def)
    ultimately obtain s2 bh' where r: "free_entries (free_tree n) dev (uint x) [0..<512] False s1 = Inr (False, s2)"
      and f2: "frees k dev s1 s2 ?U (insert x ?U)"
      and b2: "bufs s2 (dev, uint x) = Some bh'" "b_count bh' = 1" using bh(3) by auto
    let ?s3 = "upd_buf (dev, uint x) (\<lambda>b. b\<lparr>b_count := b_count b - 1\<rparr>) s2"
    have rel: "brelse (dev, uint x) s2 = Inr ?s3" by (rule brelse_bufs[OF b2(1)]) (simp add: b2)
    have gs3: "get_super d ?s3 = get_super d s2" for d by (rule get_super_cong) simp
    have "frees k dev s ?s3 ?U (insert x ?U)"
      unfolding frees_def
    proof (intro conjI allI impI)
      fix y :: u16 assume hy: "held s (dev, uint y) = 0"
      show "held ?s3 (dev, uint y) = 0"
      proof (cases "y = x")
        case True
        then show ?thesis using b2 by (simp add: held_def)
      next
        case False
        then have "bufs s1 (dev, uint y) = bufs s (dev, uint y)" by (intro b1) auto
        from held_cong[OF this] hy have "held s2 (dev, uint y) = 0" by (intro freesD(9)[OF f2]) simp
        then show ?thesis using False by (simp add: held_def)
      qed
    next
      fix d z assume z: "d \<noteq> dev \<or> z \<notin> uint ` insert x ?U"
      then have "bufs s2 (d, z) = bufs s1 (d, z)" by (rule freesD(8)[OF f2])
      moreover have "(d, z) \<noteq> (dev, uint x)" using z by auto
      ultimately show "bufs ?s3 (d, z) = bufs s (d, z)" using b1[of "(d, z)"] by auto
    qed (use freesD[OF f2] s1 g1 gs3 in simp_all)
    moreover have "held ?s3 (dev, uint x) = 0" using b2 by (simp add: held_def)
    ultimately show ?thesis using True r rel by simp
  qed
  then obtain s4 where s4: "(if ok
                   then kbind (free_entries (free_tree n) dev (uint x) [0..<512] False s1)
                          (\<lambda>(busy, s2). kbind (brelse (dev, uint x) s2) (\<lambda>s3. Inr (busy, s3)))
                   else Inr (False, s1)) = Inr (False, s4)"
    and f4: "frees k dev s s4 ?U (insert x ?U)" and h4: "held s4 (dev, uint x) = 0" by blast
  have g4: "get_super dev s4 = Some k" using freesD(6)[OF f4] Suc.prems(1) by simp
  obtain s' where r: "free_block dev (uint x) s4 = Inr (True, s')" and f': "frees k dev s4 s' {x} {x}"
    by (rule free_block_frees[OF g4 frees_freeable[OF f4 fx]])
  from frees_trans[OF f4 f'] have "frees k dev s s' (insert x ?U) (insert x ?U)" by simp
  moreover have "free_tree (Suc n) dev (uint x) s = Inr (True, s')"
    using x0 by (simp add: free_index_def br s4 r uint_0_iff)
  ultimately show ?case by auto
qed

section \<open>Truncating a file\<close>

text \<open>Every zone the file's map names.\<close>

definition file_zones :: "fs_state \<Rightarrow> m_inode \<Rightarrow> u16 set" where
  "file_zones s ino = {x. x \<noteq> 0 \<and> (\<exists>p. zref s ino p = x)}"

lemma ztree_slot:
  "i_zone ino 7 \<noteq> 0 \<Longrightarrow> ztree s (i_dev ino) 1 (i_zone ino 7)
     = {zref s ino ZInd} \<union> {x. x \<noteq> 0 \<and> (\<exists>i. zref s ino (ZIndE i) = x)}"
  "i_zone ino 8 \<noteq> 0 \<Longrightarrow> ztree s (i_dev ino) 2 (i_zone ino 8)
     = {zref s ino ZDInd} \<union> {x. x \<noteq> 0 \<and> (\<exists>i. zref s ino (ZTab i) = x)}
       \<union> {x. x \<noteq> 0 \<and> (\<exists>i j. zref s ino (ZTabE i j) = x)}"
  by (auto simp: numeral_2_eq_2) (metis entry_zone_0)

lemma truncate_direct_frees:
  assumes "get_super (i_dev ino) s = Some k" and "distinct is"
    and "\<And>j. j \<in> set is \<Longrightarrow> i_zone ino j \<noteq> 0 \<Longrightarrow> freeable s k (i_dev ino) (i_zone ino j)"
  shows "\<exists>s'. truncate_direct is busy ino s
      = Inr (busy, ino\<lparr>i_zone := (\<lambda>j. if j \<in> set is then 0 else i_zone ino j)\<rparr>, s')
    \<and> frees k (i_dev ino) s s' {x. x \<noteq> 0 \<and> (\<exists>j \<in> set is. i_zone ino j = x)}
        {x. x \<noteq> 0 \<and> (\<exists>j \<in> set is. i_zone ino j = x)}"
  using assms
proof (induction "is" arbitrary: ino s)
  case Nil
  then show ?case using frees_refl[of k "i_dev ino" s "{}"] by simp
next
  case (Cons i "is")
  show ?case
  proof (cases "i_zone ino i = 0")
    case True
    have "\<exists>s'. truncate_direct is busy ino s
      = Inr (busy, ino\<lparr>i_zone := (\<lambda>j. if j \<in> set is then 0 else i_zone ino j)\<rparr>, s')
    \<and> frees k (i_dev ino) s s' {x. x \<noteq> 0 \<and> (\<exists>j \<in> set is. i_zone ino j = x)}
        {x. x \<noteq> 0 \<and> (\<exists>j \<in> set is. i_zone ino j = x)}"
      by (rule Cons.IH) (use Cons.prems in auto)
    moreover have "{x. x \<noteq> 0 \<and> (\<exists>j \<in> set (i # is). i_zone ino j = x)}
        = {x. x \<noteq> 0 \<and> (\<exists>j \<in> set is. i_zone ino j = x)}" using True by auto
    moreover have "(\<lambda>j. if j \<in> set (i # is) then 0 else i_zone ino j)
        = (\<lambda>j. if j \<in> set is then 0 else i_zone ino j)" using True by auto
    ultimately show ?thesis using True by simp
  next
    case False
    have "freeable s k (i_dev ino) (i_zone ino i)" by (rule Cons.prems(3)) (use False in auto)
    from free_block_frees[OF Cons.prems(1) this] obtain s1 where
      s1: "free_block (i_dev ino) (uint (i_zone ino i)) s = Inr (True, s1)"
      and f1: "frees k (i_dev ino) s s1 {i_zone ino i} {i_zone ino i}" by blast
    let ?ino = "ino\<lparr>i_zone := (i_zone ino)(i := 0)\<rparr>"
    let ?S = "{x. x \<noteq> 0 \<and> (\<exists>j \<in> set is. i_zone ?ino j = x)}"
    have "\<exists>s'. truncate_direct is busy ?ino s1
      = Inr (busy, ?ino\<lparr>i_zone := (\<lambda>j. if j \<in> set is then 0 else i_zone ?ino j)\<rparr>, s')
    \<and> frees k (i_dev ?ino) s1 s' ?S ?S"
    proof (rule Cons.IH)
      show "get_super (i_dev ?ino) s1 = Some k" using freesD(6)[OF f1] Cons.prems(1) by simp
      show "distinct is" using Cons.prems(2) by simp
      fix j assume j: "j \<in> set is" "i_zone ?ino j \<noteq> 0"
      then have "freeable s k (i_dev ino) (i_zone ino j)"
        by (intro Cons.prems(3)) (auto split: if_splits)
      from frees_freeable[OF f1 this] j show "freeable s1 k (i_dev ?ino) (i_zone ?ino j)"
        by (auto split: if_splits)
    qed
    then obtain s' where r: "truncate_direct is busy ?ino s1
      = Inr (busy, ?ino\<lparr>i_zone := (\<lambda>j. if j \<in> set is then 0 else i_zone ?ino j)\<rparr>, s')"
      and f2: "frees k (i_dev ino) s1 s' ?S ?S" by auto
    have S: "{x. x \<noteq> 0 \<and> (\<exists>j \<in> set (i # is). i_zone ino j = x)} = {i_zone ino i} \<union> ?S"
      using False Cons.prems(2) by (auto split: if_splits)
    have "(\<lambda>j. if j \<in> set is then 0 else i_zone ?ino j)
        = (\<lambda>j. if j \<in> set (i # is) then 0 else i_zone ino j)" by auto
    then have "truncate_direct (i # is) busy ino s
      = Inr (busy, ino\<lparr>i_zone := (\<lambda>j. if j \<in> set (i # is) then 0 else i_zone ino j)\<rparr>, s')"
      using False s1 r by simp
    moreover have "frees k (i_dev ino) s s' ({i_zone ino i} \<union> ?S) ({i_zone ino i} \<union> ?S)"
      by (rule frees_trans[OF f1 f2])
    ultimately show ?thesis unfolding S by blast
  qed
qed

lemma slot_trees:
  assumes ok: "fmap_ok s k ino"
    and fr: "\<And>p. zref s ino p \<noteq> 0 \<Longrightarrow> freeable s k (i_dev ino) (zref s ino p)"
  shows "i_zone ino 7 \<noteq> 0 \<Longrightarrow> tree_ok s k (i_dev ino) 1 (i_zone ino 7)"
    and "i_zone ino 8 \<noteq> 0 \<Longrightarrow> tree_ok s k (i_dev ino) 2 (i_zone ino 8)"
proof -
  note inj = fmap_okD(5)[OF ok]
  have fr': "freeable s k (i_dev ino) x" if "zref s ino p = x" "x \<noteq> 0" for p x
    using fr[of p] that by simp
  show "tree_ok s k (i_dev ino) 1 (i_zone ino 7)" if "i_zone ino 7 \<noteq> 0"
    using that fr'[of ZInd] fr'[of "ZIndE _"] inj[of ZInd "ZIndE _"] inj[of "ZIndE _" "ZIndE _"]
    by auto
  have t1: "tree_ok s k (i_dev ino) 1 (entry s (i_dev ino) (i_zone ino 8) i)"
    if "entry s (i_dev ino) (i_zone ino 8) i \<noteq> 0" for i
    using that fr'[of "ZTab i"] fr'[of "ZTabE i _"] inj[of "ZTab i" "ZTabE i _"]
      inj[of "ZTabE i _" "ZTabE i _"] by auto
  have no8: "i_zone ino 8 \<notin> ztree s (i_dev ino) 1 (entry s (i_dev ino) (i_zone ino 8) i)"
    if "i_zone ino 8 \<noteq> 0" for i
    using that inj[of ZDInd "ZTab i"] inj[of ZDInd "ZTabE i _"] by auto
  have dj: "ztree s (i_dev ino) 1 (entry s (i_dev ino) (i_zone ino 8) i)
      \<inter> ztree s (i_dev ino) 1 (entry s (i_dev ino) (i_zone ino 8) j) = {}"
    if "entry s (i_dev ino) (i_zone ino 8) i \<noteq> 0" "entry s (i_dev ino) (i_zone ino 8) j \<noteq> 0" "i \<noteq> j" for i j
    using that inj[of "ZTab i" "ZTab j"] inj[of "ZTab i" "ZTabE j _"] inj[of "ZTab j" "ZTabE i _"]
      inj[of "ZTabE i _" "ZTabE j _"] by auto
  show "tree_ok s k (i_dev ino) 2 (i_zone ino 8)" if "i_zone ino 8 \<noteq> 0"
    using that fr'[of ZDInd] t1 no8[OF that] dj
    by (simp only: numeral_2_eq_2 One_nat_def tree_ok.simps(2)[of _ _ _ "Suc 0"] zref.simps) simp
qed

definition slot_zones :: "fs_state \<Rightarrow> m_inode \<Rightarrow> nat \<Rightarrow> u16 set" where
  "slot_zones s ino j =
     (if i_zone ino j = 0 then {} else ztree s (i_dev ino) (j - 6) (i_zone ino j))"

definition direct_zones :: "m_inode \<Rightarrow> u16 set" where
  "direct_zones ino = {x. x \<noteq> 0 \<and> (\<exists>j \<in> set [0..<7]. i_zone ino j = x)}"

lemma direct_zonesE:
  assumes "x \<in> direct_zones ino"
  obtains j where "zref s ino (ZDirect j) = x" and "x \<noteq> 0"
proof -
  from assms obtain j where "x \<noteq> 0" "j < 7" "i_zone ino j = x" by (auto simp: direct_zones_def)
  then show ?thesis by (intro that[of j]) auto
qed

lemma slot7E:
  assumes "x \<in> slot_zones s ino 7"
  obtains p where "zref s ino p = x" and "p = ZInd \<or> (\<exists>i. p = ZIndE i)" and "x \<noteq> 0"
proof -
  from assms have n: "i_zone ino 7 \<noteq> 0" and "x \<in> ztree s (i_dev ino) 1 (i_zone ino 7)"
    by (auto simp: slot_zones_def split: if_splits)
  then have x: "x \<in> {zref s ino ZInd} \<union> {x. x \<noteq> 0 \<and> (\<exists>i. zref s ino (ZIndE i) = x)}"
    using ztree_slot(1)[OF n, of s] by blast
  from n have "zref s ino ZInd \<noteq> 0" by simp
  with x that show ?thesis by blast
qed

lemma slot8E:
  assumes "x \<in> slot_zones s ino 8"
  obtains p where "zref s ino p = x" and "p = ZDInd \<or> (\<exists>i. p = ZTab i) \<or> (\<exists>i j. p = ZTabE i j)"
    and "x \<noteq> 0"
proof -
  from assms have n: "i_zone ino 8 \<noteq> 0" and "x \<in> ztree s (i_dev ino) 2 (i_zone ino 8)"
    by (auto simp: slot_zones_def split: if_splits)
  then have x: "x \<in> {zref s ino ZDInd} \<union> {x. x \<noteq> 0 \<and> (\<exists>i. zref s ino (ZTab i) = x)}
       \<union> {x. x \<noteq> 0 \<and> (\<exists>i j. zref s ino (ZTabE i j) = x)}"
    using ztree_slot(2)[OF n, of s] by blast
  from n have "zref s ino ZDInd \<noteq> 0" by simp
  with x that show ?thesis by blast
qed

lemma file_zones_split: "file_zones s ino = direct_zones ino \<union> slot_zones s ino 7 \<union> slot_zones s ino 8"
proof (intro equalityI subsetI)
  fix x assume "x \<in> file_zones s ino"
  then obtain p where x0: "x \<noteq> 0" and z: "zref s ino p = x" by (auto simp: file_zones_def)
  show "x \<in> direct_zones ino \<union> slot_zones s ino 7 \<union> slot_zones s ino 8"
  proof (cases p)
    case (ZDirect i)
    with x0 z have "i \<in> set [0..<7]" "i_zone ino i = x" by (auto split: if_splits)
    with x0 show ?thesis unfolding direct_zones_def by blast
  next
    case ZInd
    with x0 z show ?thesis by (auto simp: slot_zones_def)
  next
    case ZDInd
    with x0 z show ?thesis by (auto simp: slot_zones_def numeral_2_eq_2)
  next
    case (ZIndE i)
    with x0 z have "i_zone ino 7 \<noteq> 0" by (auto simp: entry_def)
    with x0 z ZIndE show ?thesis by (auto simp: slot_zones_def)
  next
    case (ZTab i)
    with x0 z have "i_zone ino 8 \<noteq> 0" by (auto simp: entry_def)
    with x0 z ZTab ztree_slot(2)[of ino s] show ?thesis by (auto simp: slot_zones_def)
  next
    case (ZTabE i j)
    with x0 z have "i_zone ino 8 \<noteq> 0" by (auto simp: entry_def split: if_splits)
    with x0 z ZTabE ztree_slot(2)[of ino s] show ?thesis by (auto simp: slot_zones_def)
  qed
next
  fix x assume "x \<in> direct_zones ino \<union> slot_zones s ino 7 \<union> slot_zones s ino 8"
  then have "x \<noteq> 0 \<and> (\<exists>p. zref s ino p = x)"
    by (auto elim: direct_zonesE[of _ _ s] slot7E slot8E)
  then show "x \<in> file_zones s ino" by (simp add: file_zones_def)
qed

lemma slot_zones_disjoint:
  assumes ok: "fmap_ok s k ino"
  shows "direct_zones ino \<inter> slot_zones s ino 7 = {}"
    and "(direct_zones ino \<union> slot_zones s ino 7) \<inter> slot_zones s ino 8 = {}"
proof -
  note inj = fmap_okD(5)[OF ok]
  show "direct_zones ino \<inter> slot_zones s ino 7 = {}"
  proof (rule ccontr)
    assume "direct_zones ino \<inter> slot_zones s ino 7 \<noteq> {}"
    then obtain x where x: "x \<in> direct_zones ino" "x \<in> slot_zones s ino 7" by blast
    obtain j where j: "zref s ino (ZDirect j) = x" "x \<noteq> 0" using x(1) by (rule direct_zonesE)
    obtain p where p: "zref s ino p = x" "p = ZInd \<or> (\<exists>i. p = ZIndE i)" using x(2) by (rule slot7E)
    from inj[of p "ZDirect j"] j p show False by auto
  qed
  show "(direct_zones ino \<union> slot_zones s ino 7) \<inter> slot_zones s ino 8 = {}"
  proof (rule ccontr)
    assume "(direct_zones ino \<union> slot_zones s ino 7) \<inter> slot_zones s ino 8 \<noteq> {}"
    then obtain x where x: "x \<in> direct_zones ino \<or> x \<in> slot_zones s ino 7" "x \<in> slot_zones s ino 8" by blast
    obtain p where p: "zref s ino p = x" "p = ZDInd \<or> (\<exists>i. p = ZTab i) \<or> (\<exists>i j. p = ZTabE i j)"
      and x0: "x \<noteq> 0" using x(2) by (rule slot8E)
    from x(1) obtain q where q: "zref s ino q = x" "(\<exists>j. q = ZDirect j) \<or> q = ZInd \<or> (\<exists>i. q = ZIndE i)"
      by (metis direct_zonesE slot7E)
    from inj[of p q] p(1) q(1) x0 have "p = q" by simp
    with p(2) q(2) show False by auto
  qed
qed

lemma free_slot_frees:
  assumes "get_super dev s = Some k" and "x \<noteq> 0 \<Longrightarrow> tree_ok s k dev (Suc n) x"
  shows "\<exists>s'. free_tree (Suc n) dev (uint x) s = Inr (True, s')
    \<and> frees k dev s s' (if x = 0 then {} else ztree s dev (Suc n) x)
        (if x = 0 then {} else ztree s dev (Suc n) x)"
proof (cases "x = 0")
  case True
  then show ?thesis by (simp add: free_index_def frees_refl)
next
  case False
  from free_tree_frees[OF assms(1) assms(2)[OF False]] False show ?thesis by simp
qed

text \<open>
  One pass over a file whose buffers nobody holds finds nothing busy: all nine slots are cleared
  and the zones freed are exactly the zones the file's map names.
\<close>

lemma truncate_pass_frees:
  assumes ok: "fmap_ok s k ino"
    and fr: "\<And>p. zref s ino p \<noteq> 0 \<Longrightarrow> freeable s k (i_dev ino) (zref s ino p)"
  shows "\<exists>s'. truncate_pass ino s
      = Inr (False, ino\<lparr>i_zone := (\<lambda>j. if j < 9 then 0 else i_zone ino j), i_dirt := True\<rparr>, s')
    \<and> frees k (i_dev ino) s s' (file_zones s ino) (file_zones s ino)"
proof -
  let ?d = "i_dev ino" and ?D = "direct_zones ino"
    and ?S7 = "slot_zones s ino 7" and ?S8 = "slot_zones s ino 8"
  note dj = slot_zones_disjoint[OF ok]
  have frd: "freeable s k ?d (i_zone ino j)" if "j \<in> set [0..<7]" "i_zone ino j \<noteq> 0" for j
    using that fr[of "ZDirect j"] by simp
  obtain s1 where p1: "truncate_direct [0..<7] False ino s
      = Inr (False, ino\<lparr>i_zone := (\<lambda>j. if j \<in> set [0..<7] then 0 else i_zone ino j)\<rparr>, s1)"
    and f1: "frees k ?d s s1 ?D ?D"
    using truncate_direct_frees[OF fmap_okD(1)[OF ok] distinct_upt frd, where busy = False]
    unfolding direct_zones_def by blast
  have t7: "tree_ok s1 k ?d (Suc 0) (i_zone ino 7)"
    "ztree s1 ?d (Suc 0) (i_zone ino 7) = ztree s ?d (Suc 0) (i_zone ino 7)" if "i_zone ino 7 \<noteq> 0"
    using tree_frees[OF f1, of "Suc 0" "i_zone ino 7"] slot_trees(1)[OF ok fr that] dj(1) that
    by (simp_all add: slot_zones_def del: tree_ok.simps ztree.simps)
  have g1: "get_super ?d s1 = Some k" using freesD(6)[OF f1] fmap_okD(1)[OF ok] by simp
  obtain s2 where p2: "free_tree (Suc 0) ?d (uint (i_zone ino 7)) s1 = Inr (True, s2)"
    and f2: "frees k ?d s1 s2 ?S7 ?S7"
    using free_slot_frees[OF g1 t7(1)] t7(2)
    by (auto simp: slot_zones_def simp del: tree_ok.simps ztree.simps free_tree.simps split: if_splits)
  note f12 = frees_trans[OF f1 f2]
  have t8: "tree_ok s2 k ?d (Suc 1) (i_zone ino 8)"
    "ztree s2 ?d (Suc 1) (i_zone ino 8) = ztree s ?d (Suc 1) (i_zone ino 8)" if "i_zone ino 8 \<noteq> 0"
    using tree_frees[OF f12, of "Suc 1" "i_zone ino 8"] slot_trees(2)[OF ok fr that] dj(2) that
    by (simp_all add: slot_zones_def numeral_2_eq_2 del: tree_ok.simps ztree.simps)
  have g2: "get_super ?d s2 = Some k" using freesD(6)[OF f12] fmap_okD(1)[OF ok] by simp
  obtain s3 where p3: "free_tree (Suc 1) ?d (uint (i_zone ino 8)) s2 = Inr (True, s3)"
    and f3: "frees k ?d s2 s3 ?S8 ?S8"
    using free_slot_frees[OF g2 t8(1)] t8(2)
    by (auto simp: slot_zones_def numeral_2_eq_2 simp del: tree_ok.simps ztree.simps free_tree.simps
        split: if_splits)
  have z: "((\<lambda>j. if j \<in> set [0..<7] then 0 else i_zone ino j)(7 := 0, 8 := 0))
      = (\<lambda>j. if j < 9 then 0 else i_zone ino j)" by auto
  have fi: "free_ind ?d (uint (i_zone ino 7)) s1 = Inr (True, s2)"
    using p2 by (simp add: free_ind_tree del: free_tree.simps)
  have fd: "free_dind ?d (uint (i_zone ino 8)) s2 = Inr (True, s3)"
    using p3 by (simp add: free_dind_tree numeral_2_eq_2 del: free_tree.simps)
  have "truncate_pass ino s
      = Inr (False, ino\<lparr>i_zone := (\<lambda>j. if j < 9 then 0 else i_zone ino j), i_dirt := True\<rparr>, s3)"
    using fi fd unfolding truncate_pass_def p1 by (simp add: Let_def flip: z)
  moreover have "frees k ?d s s3 (file_zones s ino) (file_zones s ino)"
    using frees_trans[OF f12 f3] by (simp add: file_zones_split)
  ultimately show ?thesis by blast
qed

theorem truncate_frees:
  assumes "fmap_ok s k ino" and "s_isreg (i_mode ino) \<or> s_isdir (i_mode ino) \<or> s_islnk (i_mode ino)"
    and "\<And>p. zref s ino p \<noteq> 0 \<Longrightarrow> freeable s k (i_dev ino) (zref s ino p)"
  shows "\<exists>ino' s'. truncate envs ino s = Inr (Some (ino', s')) \<and> i_size ino' = 0
    \<and> i_dev ino' = i_dev ino \<and> (\<forall>j<9. i_zone ino' j = 0)
    \<and> frees k (i_dev ino) s s' (file_zones s ino) (file_zones s ino)"
proof -
  from truncate_pass_frees[OF assms(1,3)] obtain s' where
    "truncate_pass ino s
      = Inr (False, ino\<lparr>i_zone := (\<lambda>j. if j < 9 then 0 else i_zone ino j), i_dirt := True\<rparr>, s')"
    and "frees k (i_dev ino) s s' (file_zones s ino) (file_zones s ino)" by blast
  with assms(2) show ?thesis by (simp add: truncate_def truncate_loop.simps)
qed

lemma zref_empty: "(\<And>j. j < 9 \<Longrightarrow> i_zone ino j = 0) \<Longrightarrow> zref s ino p = 0"
  by (cases p) (simp_all)

end
