(* ===== verification/Task.thy ===== *)
theory Task
  imports Prelude
begin

text \<open>
  The process table (\<open>include/linux/sched.h\<close>, \<open>include/signal.h\<close>): the fields of
  \<open>task_struct\<close> the modelled code uses, and the table \<open>task[NR_TASKS]\<close> with \<open>current\<close>, the clock
  and the helpers that read and write a task through its slot. A pointer to a task is the number
  of its slot. Several loops of the kernel use \<open>*p\<close> without testing it for null; in kernel space
  that reads the memory at address 0 (the page directory) as a task, kept here as \<open>null_task\<close>.
\<close>

section \<open>Data\<close>

datatype task_state = TASK_RUNNING | TASK_INTERRUPTIBLE | TASK_UNINTERRUPTIBLE | TASK_ZOMBIE
  | TASK_STOPPED

record sigaction =
  sa_handler :: u32
  sa_mask :: u32
  sa_flags :: u32
  sa_restorer :: u32

record rlimit =
  rlim_cur :: u32
  rlim_max :: u32

record task =
  t_state :: task_state
  counter :: u32
  priority :: u32
  signal :: u32
  sigact :: "nat \<Rightarrow> sigaction"
  blocked :: u32
  exit_code :: u32
  end_code :: u32
  brk :: u32
  start_stack :: u32
  pid :: int
  pgrp :: int
  session :: int
  leader :: bool
  groups :: "nat \<Rightarrow> int"
  p_pptr :: nat
  p_cptr :: "nat option"
  p_ysptr :: "nat option"
  p_osptr :: "nat option"
  uid :: u16
  euid :: u16
  suid :: u16
  gid :: u16
  egid :: u16
  sgid :: u16
  timeout :: u32
  alarm :: u32
  utime :: u32
  stime :: u32
  cutime :: u32
  cstime :: u32
  start_time :: u32
  rlim :: "nat \<Rightarrow> rlimit"
  t_tty :: int
  umask :: u16

record kernel =
  task :: "nat \<Rightarrow> task option"
  null_task :: task
  current :: nat
  jiffies :: u32
  startup_time :: u32
  jiffies_offset :: u32
  shown_console :: int
  tty_pgrp :: "int \<Rightarrow> int"
  tty_session :: "int \<Rightarrow> int"

definition NR_TASKS :: nat where "NR_TASKS = 64"
definition HZ :: u32 where "HZ = 100"
definition NGROUPS :: nat where "NGROUPS = 32"
definition NOGROUP :: int where "NOGROUP = - 1"

definition SIGHUP :: nat where "SIGHUP = 1"
definition SIGKILL :: nat where "SIGKILL = 9"
definition SIGALRM :: nat where "SIGALRM = 14"
definition SIGCHLD :: nat where "SIGCHLD = 17"
definition SIGCONT :: nat where "SIGCONT = 18"
definition SIGSTOP :: nat where "SIGSTOP = 19"
definition SIGTSTP :: nat where "SIGTSTP = 20"
definition SIGTTIN :: nat where "SIGTTIN = 21"
definition SIGTTOU :: nat where "SIGTTOU = 22"

definition SA_NOCLDSTOP :: u32 where "SA_NOCLDSTOP = 1"
definition SA_INTERRUPT :: u32 where "SA_INTERRUPT = 0x20000000"
definition SA_NOMASK :: u32 where "SA_NOMASK = 0x40000000"
definition SA_ONESHOT :: u32 where "SA_ONESHOT = 0x80000000"

text \<open>\<open>1 << (sig - 1)\<close>\<close>

definition sig_bit :: "nat \<Rightarrow> u32" where
  "sig_bit sig = push_bit (sig - 1) 1"

lemma bit_sig_bit: "bit (sig_bit sig) n \<longleftrightarrow> n = sig - 1 \<and> n < 32"
  unfolding sig_bit_def by (simp only: bit_push_bit_iff bit_1_iff) auto

definition EPERM :: int where "EPERM = 1"
definition ESRCH :: int where "ESRCH = 3"
definition EINTR :: int where "EINTR = 4"
definition EAGAIN :: int where "EAGAIN = 11"
definition ECHILD :: int where "ECHILD = 10"
definition EINVAL :: int where "EINVAL = 22"
definition ENOSYS :: int where "ENOSYS = 38"
definition ERESTARTSYS :: int where "ERESTARTSYS = 512"
definition ERESTARTNOINTR :: int where "ERESTARTNOINTR = 513"

lemmas errno_defs = EPERM_def ESRCH_def EINTR_def EAGAIN_def ECHILD_def EINVAL_def ENOSYS_def
  ERESTARTSYS_def ERESTARTNOINTR_def

section \<open>Access through a slot\<close>

definition ptask :: "kernel \<Rightarrow> nat \<Rightarrow> task" where
  "ptask k i = (case task k i of Some t \<Rightarrow> t | None \<Rightarrow> null_task k)"

definition upd_task :: "nat \<Rightarrow> (task \<Rightarrow> task) \<Rightarrow> kernel \<Rightarrow> kernel" where
  "upd_task i f k =
     (case task k i of
        Some t \<Rightarrow> k\<lparr>task := (task k)(i \<mapsto> f t)\<rparr>
      | None \<Rightarrow> k\<lparr>null_task := f (null_task k)\<rparr>)"

definition cur :: "kernel \<Rightarrow> task" where
  "cur k = ptask k (current k)"

definition upd_cur :: "(task \<Rightarrow> task) \<Rightarrow> kernel \<Rightarrow> kernel" where
  "upd_cur f k = upd_task (current k) f k"

definition suser :: "kernel \<Rightarrow> bool" where
  "suser k \<longleftrightarrow> euid (cur k) = 0"

text \<open>\<open>CURRENT_TIME\<close>\<close>

definition CURRENT_TIME :: "kernel \<Rightarrow> u32" where
  "CURRENT_TIME k = startup_time k + (jiffies k + jiffies_offset k) div HZ"

lemma current_upd_task [simp]: "current (upd_task i f k) = current k"
  and jiffies_upd_task [simp]: "jiffies (upd_task i f k) = jiffies k"
  and startup_time_upd_task [simp]: "startup_time (upd_task i f k) = startup_time k"
  and jiffies_offset_upd_task [simp]: "jiffies_offset (upd_task i f k) = jiffies_offset k"
  by (simp_all add: upd_task_def split: option.splits)

lemma task_upd_task: "task (upd_task i f k) j = (if j = i then map_option f (task k i) else task k j)"
  by (simp add: upd_task_def split: option.splits)

lemma ptask_upd_task:
  "task k i \<noteq> None \<Longrightarrow> ptask (upd_task i f k) j = (if j = i then f (ptask k i) else ptask k j)"
  by (auto simp: ptask_def upd_task_def split: option.splits)

lemma dom_upd_task [simp]: "dom (task (upd_task i f k)) = dom (task k)"
  by (auto simp: upd_task_def split: option.splits)

lemma cur_upd_cur [simp]: "cur (upd_cur f k) = f (cur k)"
  by (simp add: cur_def upd_cur_def ptask_def upd_task_def split: option.splits)

lemma current_upd_cur [simp]: "current (upd_cur f k) = current k"
  and jiffies_upd_cur [simp]: "jiffies (upd_cur f k) = jiffies k"
  and startup_time_upd_cur [simp]: "startup_time (upd_cur f k) = startup_time k"
  and jiffies_offset_upd_cur [simp]: "jiffies_offset (upd_cur f k) = jiffies_offset k"
  by (simp_all add: upd_cur_def)

lemma task_upd_cur_other: "i \<noteq> current k \<Longrightarrow> task (upd_cur f k) i = task k i"
  by (simp add: upd_cur_def task_upd_task)

text \<open>A task with nothing set, for concrete examples and for a cleared table entry.\<close>

definition blank_task :: task where
  "blank_task = \<lparr>t_state = TASK_RUNNING, counter = 15, priority = 15, signal = 0,
     sigact = (\<lambda>_. \<lparr>sa_handler = 0, sa_mask = 0, sa_flags = 0, sa_restorer = 0\<rparr>), blocked = 0,
     exit_code = 0, end_code = 0, brk = 0, start_stack = 0, pid = 0, pgrp = 0, session = 0,
     leader = False, groups = (\<lambda>_. NOGROUP), p_pptr = 0, p_cptr = None, p_ysptr = None,
     p_osptr = None, uid = 0, euid = 0, suid = 0, gid = 0, egid = 0, sgid = 0, timeout = 0,
     alarm = 0, utime = 0, stime = 0, cutime = 0, cstime = 0, start_time = 0,
     rlim = (\<lambda>_. \<lparr>rlim_cur = 0x7fffffff, rlim_max = 0x7fffffff\<rparr>), t_tty = - 1, umask = 18\<rparr>"

end
