(* ===== verification/Sched.thy ===== *)
theory Sched
  imports Task
begin

text \<open>
  The scheduler, the sleep queues and the timers (\<open>kernel/sched.c\<close>): the choice of the next task,
  the implicit chain of sleepers that \<open>sleep_on\<close> keeps on the kernel stacks, the queue of timers
  as differences, the clock tick and the floppy motor timers.
\<close>

section \<open>schedule\<close>

text \<open>\<open>_BLOCKABLE\<close>: every signal but \<open>SIGKILL\<close> and \<open>SIGSTOP\<close>.\<close>

definition BLOCKABLE :: u32 where
  "BLOCKABLE = NOT (sig_bit SIGKILL OR sig_bit SIGSTOP)"

definition wake_check :: "u32 \<Rightarrow> task \<Rightarrow> task" where
  "wake_check now t =
     (let t1 = (if timeout t \<noteq> 0 \<and> timeout t < now
                then t\<lparr>timeout := 0,
                       t_state := (if t_state t = TASK_INTERRUPTIBLE then TASK_RUNNING else t_state t)\<rparr>
                else t);
          t2 = (if alarm t1 \<noteq> 0 \<and> alarm t1 < now
                then t1\<lparr>signal := signal t1 OR sig_bit SIGALRM, alarm := 0\<rparr> else t1)
      in if signal t2 AND NOT (BLOCKABLE AND blocked t2) \<noteq> 0 \<and> t_state t2 = TASK_INTERRUPTIBLE
         then t2\<lparr>t_state := TASK_RUNNING\<rparr> else t2)"

text \<open>The slots as the loops visit them: from \<open>LAST_TASK\<close> down to, not including, \<open>FIRST_TASK\<close>.\<close>

definition task_slots :: "nat list" where
  "task_slots = rev [1..<NR_TASKS]"

definition wake_tasks :: "kernel \<Rightarrow> kernel" where
  "wake_tasks k =
     foldl (\<lambda>k i. if task k i = None then k else upd_task i (wake_check (jiffies k)) k) k task_slots"

text \<open>The search for the largest counter: \<open>c\<close> and \<open>next\<close>.\<close>

definition pick_next :: "kernel \<Rightarrow> int \<times> nat" where
  "pick_next k =
     foldl (\<lambda>(c, next) i.
        case task k i of
          None \<Rightarrow> (c, next)
        | Some t \<Rightarrow> if t_state t = TASK_RUNNING \<and> sint (counter t) > c
                    then (sint (counter t), i) else (c, next))
       (- 1, 0) task_slots"

definition recalc :: "task \<Rightarrow> task" where
  "recalc t = t\<lparr>counter := signed_drop_bit 1 (counter t) + priority t\<rparr>"

definition recalc_tasks :: "kernel \<Rightarrow> kernel" where
  "recalc_tasks k = foldl (\<lambda>k i. if task k i = None then k else upd_task i recalc k) k task_slots"

text \<open>\<open>while (1)\<close>, with the number of rounds bounded by \<open>fuel\<close>.\<close>

fun schedule_loop :: "nat \<Rightarrow> kernel \<Rightarrow> (nat \<times> kernel) option" where
  "schedule_loop 0 k = None"
| "schedule_loop (Suc fuel) k =
     (let (c, next) = pick_next k
      in if c \<noteq> 0 then Some (next, k) else schedule_loop fuel (recalc_tasks k))"

definition schedule :: "nat \<Rightarrow> kernel \<Rightarrow> kernel option" where
  "schedule fuel k =
     map_option (\<lambda>(next, k'). k'\<lparr>current := next\<rparr>) (schedule_loop fuel (wake_tasks k))"

definition sys_pause :: "nat \<Rightarrow> kernel \<Rightarrow> kernel option" where
  "sys_pause fuel k = schedule fuel (upd_cur (\<lambda>t. t\<lparr>t_state := TASK_INTERRUPTIBLE\<rparr>) k)"

section \<open>Loops over the table are pointwise\<close>

lemma set_task_slots: "i \<in> set task_slots \<longleftrightarrow> 1 \<le> i \<and> i < NR_TASKS"
  by (auto simp: task_slots_def)

lemma distinct_task_slots: "distinct task_slots"
  by (simp add: task_slots_def)

lemma foldl_upd_tasks:
  assumes "distinct is" and "\<And>k i. jiffies (upd_task i (f (jiffies k)) k) = jiffies k"
  shows "foldl (\<lambda>k i. if task k i = None then k else upd_task i (f (jiffies k)) k) k is
    = k\<lparr>task := \<lambda>i. if i \<in> set is then map_option (f (jiffies k)) (task k i) else task k i\<rparr>"
  using assms(1)
proof (induction "is" arbitrary: k)
  case Nil
  then show ?case by simp
next
  case (Cons i "is")
  then show ?case by (cases "task k i") (auto simp: upd_task_def fun_eq_iff intro!: arg_cong[where f = "\<lambda>x. k\<lparr>task := x\<rparr>"])
qed

lemma wake_tasks_eq: "wake_tasks k =
    k\<lparr>task := \<lambda>i. if 1 \<le> i \<and> i < NR_TASKS then map_option (wake_check (jiffies k)) (task k i) else task k i\<rparr>"
  unfolding wake_tasks_def
  by (subst foldl_upd_tasks) (simp_all add: distinct_task_slots set_task_slots)

lemma recalc_tasks_eq: "recalc_tasks k =
    k\<lparr>task := \<lambda>i. if 1 \<le> i \<and> i < NR_TASKS then map_option recalc (task k i) else task k i\<rparr>"
  unfolding recalc_tasks_def
  using foldl_upd_tasks[of task_slots "\<lambda>_. recalc" k]
  by (simp add: distinct_task_slots set_task_slots)

section \<open>The task schedule picks\<close>

definition runnable :: "kernel \<Rightarrow> nat \<Rightarrow> bool" where
  "runnable k i \<longleftrightarrow> 1 \<le> i \<and> i < NR_TASKS \<and> (\<exists>t. task k i = Some t \<and> t_state t = TASK_RUNNING)"

definition tick :: "kernel \<Rightarrow> nat \<Rightarrow> int" where
  "tick k i = sint (counter (ptask k i))"

definition pick_step :: "kernel \<Rightarrow> int \<times> nat \<Rightarrow> nat \<Rightarrow> int \<times> nat" where
  "pick_step k = (\<lambda>(c, next) i.
        case task k i of
          None \<Rightarrow> (c, next)
        | Some t \<Rightarrow> if t_state t = TASK_RUNNING \<and> sint (counter t) > c
                    then (sint (counter t), i) else (c, next))"

lemma pick_fold:
  assumes "foldl (pick_step k) (c0, n0) is = (c, n)" and "set is \<subseteq> set task_slots"
  shows "c0 \<le> c" and "i \<in> set is \<Longrightarrow> runnable k i \<Longrightarrow> tick k i \<le> c"
    and "(c, n) = (c0, n0) \<or> n \<in> set is \<and> runnable k n \<and> tick k n = c \<and> c0 < c"
proof -
  have "c0 \<le> c \<and> (\<forall>i \<in> set is. runnable k i \<longrightarrow> tick k i \<le> c)
    \<and> ((c, n) = (c0, n0) \<or> n \<in> set is \<and> runnable k n \<and> tick k n = c \<and> c0 < c)"
    using assms
  proof (induction "is" arbitrary: c0 n0)
    case Nil
    then show ?case by simp
  next
    case (Cons i "is")
    obtain c1 n1 where s: "pick_step k (c0, n0) i = (c1, n1)" by fastforce
    from Cons.prems s have f: "foldl (pick_step k) (c1, n1) is = (c, n)" by simp
    have i: "1 \<le> i" "i < NR_TASKS" using Cons.prems(2) by (auto simp: set_task_slots)
    have st: "c0 \<le> c1 \<and> (runnable k i \<longrightarrow> tick k i \<le> c1)
        \<and> ((c1, n1) = (c0, n0) \<or> n1 = i \<and> runnable k i \<and> tick k i = c1 \<and> c0 < c1)"
      using s i by (auto simp: pick_step_def runnable_def tick_def ptask_def split: option.splits if_splits)
    from Cons.IH[OF f] Cons.prems(2) st show ?case by fastforce
  qed
  then show "c0 \<le> c" "i \<in> set is \<Longrightarrow> runnable k i \<Longrightarrow> tick k i \<le> c"
    "(c, n) = (c0, n0) \<or> n \<in> set is \<and> runnable k n \<and> tick k n = c \<and> c0 < c" by blast+
qed

lemma pick_next_spec:
  assumes "pick_next k = (c, n)" and nn: "\<forall>i. runnable k i \<longrightarrow> 0 \<le> tick k i"
  shows "runnable k i \<Longrightarrow> runnable k n \<and> tick k n = c \<and> tick k i \<le> c"
    and "(\<And>i. \<not> runnable k i) \<Longrightarrow> c = - 1 \<and> n = 0"
proof -
  from assms(1) have f: "foldl (pick_step k) (- 1, 0) task_slots = (c, n)"
    by (simp add: pick_next_def pick_step_def)
  note P = pick_fold[OF f order_refl]
  show "runnable k i \<Longrightarrow> runnable k n \<and> tick k n = c \<and> tick k i \<le> c"
  proof -
    assume r: "runnable k i"
    then have "i \<in> set task_slots" by (simp add: set_task_slots runnable_def)
    from P(2)[OF this r] nn r P(3) show ?thesis by auto
  qed
  show "(\<And>i. \<not> runnable k i) \<Longrightarrow> c = - 1 \<and> n = 0" using P(3) by auto
qed

lemma recalc_zero: "counter t = 0 \<Longrightarrow> counter (recalc t) = priority t"
  by (simp add: recalc_def)

lemma runnable_recalc: "runnable (recalc_tasks k) i = runnable k i"
  by (auto simp: runnable_def recalc_tasks_eq recalc_def)

lemma tick_recalc: "runnable k i \<Longrightarrow> tick (recalc_tasks k) i = sint (counter (recalc (ptask k i)))"
  by (auto simp: runnable_def recalc_tasks_eq tick_def ptask_def)

text \<open>
  The range the counters stay in: recalculation is \<open>counter / 2 + priority\<close>, so with priorities
  below 2^28 no counter overflows.
\<close>

definition task_prio_ok :: "task \<Rightarrow> bool" where
  "task_prio_ok t \<longleftrightarrow> 0 \<le> sint (counter t) \<and> sint (counter t) < 2 ^ 29
     \<and> 0 < sint (priority t) \<and> sint (priority t) < 2 ^ 28"

definition prio_ok :: "kernel \<Rightarrow> bool" where
  "prio_ok k \<longleftrightarrow> (\<forall>i t. task k i = Some t \<longrightarrow> task_prio_ok t)"

lemma sint_add_small:
  fixes a b :: u32
  assumes "- (2 ^ 31) \<le> sint a + sint b" and "sint a + sint b < 2 ^ 31"
  shows "sint (a + b) = sint a + sint b"
proof -
  have "sint (a + b) = signed_take_bit 31 (sint a + sint b)"
    by (simp add: signed_take_bit_add sint_word_ariths)
  also have "\<dots> = sint a + sint b" using assms by (intro signed_take_bit_int_eq_self) auto
  finally show ?thesis .
qed

lemma sum_range:
  fixes x y :: int
  assumes "0 \<le> x" and "x < 2 ^ 28" and "0 < y" and "y < 2 ^ 28"
  shows "- (2 ^ 31) \<le> x + y" and "x + y < 2 ^ 31" and "0 \<le> x + y" and "x + y < 2 ^ 29"
  using assms by simp_all

lemma recalc_prio_ok:
  assumes "task_prio_ok t"
  shows "task_prio_ok (recalc t)"
proof -
  have h: "sint (signed_drop_bit 1 (counter t)) = sint (counter t) div 2"
    by (simp add: sint_signed_drop_bit_eq drop_bit_eq_div)
  have b: "0 \<le> sint (counter t) div 2" "sint (counter t) div 2 < 2 ^ 28"
    "0 < sint (priority t)" "sint (priority t) < 2 ^ 28"
    using assms by (auto simp: task_prio_ok_def)
  have "sint (signed_drop_bit 1 (counter t) + priority t) = sint (counter t) div 2 + sint (priority t)"
    by (rule sint_add_small[of "signed_drop_bit 1 (counter t)" "priority t", unfolded h])
       (rule sum_range[OF b])+
  then have "sint (counter (recalc t)) = sint (counter t) div 2 + sint (priority t)"
    by (simp add: recalc_def)
  with sum_range(3,4)[OF b] b(3,4) show ?thesis by (simp add: task_prio_ok_def) (simp add: recalc_def)
qed

lemma wake_check_prio [simp]:
  "counter (wake_check now t) = counter t" "priority (wake_check now t) = priority t"
  by (simp_all add: wake_check_def Let_def)

lemma prio_ok_wake: "prio_ok k \<Longrightarrow> prio_ok (wake_tasks k)"
  by (auto simp: prio_ok_def wake_tasks_eq task_prio_ok_def split: if_splits)

text \<open>
  \<open>schedule\<close> ends after at most one recalculation and runs a runnable task with the largest
  counter, or task 0 when nothing is runnable. \<open>counters_only\<close>: beyond \<open>current\<close> and the counters nothing differs.
\<close>

definition counters_only :: "kernel \<Rightarrow> kernel \<Rightarrow> bool" where
  "counters_only k k' \<longleftrightarrow>
     k' = k\<lparr>current := current k', task := \<lambda>i. map_option (\<lambda>t. t\<lparr>counter := counter (ptask k' i)\<rparr>) (task k i)\<rparr>"

lemma counters_onlyI:
  assumes "\<And>i. map_option (\<lambda>t. t\<lparr>counter := counter (ptask k' i)\<rparr>) (task k i) = task k' i"
    and "k'\<lparr>current := current k, task := task k\<rparr> = k"
  shows "counters_only k k'"
proof -
  have "k\<lparr>current := current k', task := task k'\<rparr> = k'" using assms(2) by (cases k; cases k') simp
  moreover have "task k' = (\<lambda>i. map_option (\<lambda>t. t\<lparr>counter := counter (ptask k' i)\<rparr>) (task k i))" using assms(1) by (simp add: fun_eq_iff)
  ultimately show ?thesis unfolding counters_only_def by simp
qed

lemma counters_only_task:
  assumes "counters_only k k'" "task k i = Some t"
  shows "task k' i = Some (t\<lparr>counter := counter (ptask k' i)\<rparr>)"
proof -
  have "task k' i = map_option (\<lambda>t. t\<lparr>counter := counter (ptask k' i)\<rparr>) (task k i)"
    using arg_cong[OF assms(1)[unfolded counters_only_def], of "\<lambda>k. task k i"] by simp
  with assms(2) show ?thesis by simp
qed

lemma schedule_spec:
  assumes fuel: "2 \<le> fuel" and prio: "prio_ok k"
  shows "\<exists>k'. schedule fuel k = Some k' \<and> counters_only (wake_tasks k) k'
    \<and> (if \<exists>i. runnable (wake_tasks k) i
       then runnable k' (current k') \<and> 0 < tick k' (current k')
         \<and> (\<forall>i. runnable k' i \<longrightarrow> tick k' i \<le> tick k' (current k'))
       else current k' = 0)"
proof -
  let ?w = "wake_tasks k"
  have ok: "task_prio_ok (ptask ?w i)" if "runnable ?w i" for i
    using prio_ok_wake[OF prio] that by (auto simp: prio_ok_def runnable_def ptask_def)
  have pos: "0 \<le> tick ?w i \<and> 0 < sint (priority (ptask ?w i))" if "runnable ?w i" for i
    using ok[OF that] by (simp add: task_prio_ok_def tick_def)
  have room: "0 \<le> sint (counter (recalc (ptask ?w i)))" if "runnable ?w i" for i
    using recalc_prio_ok[OF ok[OF that]] by (simp add: task_prio_ok_def)
  obtain f where f: "fuel = Suc (Suc f)" using fuel by (metis add_2_eq_Suc le_Suc_ex)
  obtain c n where p: "pick_next ?w = (c, n)" by fastforce
  have nn: "\<forall>i. runnable ?w i \<longrightarrow> 0 \<le> tick ?w i" using pos by blast
  note P = pick_next_spec[OF p nn]
  have cur: "runnable (k'\<lparr>current := m\<rparr>) i = runnable k' i" "tick (k'\<lparr>current := m\<rparr>) i = tick k' i" for k' :: kernel and m i
    by (simp_all add: runnable_def tick_def ptask_def split: option.splits)
  show ?thesis
  proof (cases "\<exists>i. runnable ?w i")
    case False
    with P(2) have "c = - 1" "n = 0" by auto
    with p f False show ?thesis
      by (auto simp: schedule_def ptask_def map_option_case intro!: counters_onlyI split: option.splits)
  next
    case True
    then obtain i where i: "runnable ?w i" by blast
    note Pi = P(1)[OF i]
    show ?thesis
    proof (cases "c = 0")
      case False
      moreover have "0 \<le> c" using nn Pi by auto
      ultimately have "schedule fuel k = Some (?w\<lparr>current := n\<rparr>)" using p f by (simp add: schedule_def)
      with False \<open>0 \<le> c\<close> Pi P(1) True show ?thesis
        by (intro exI[of _ "?w\<lparr>current := n\<rparr>"])
          (auto simp: cur ptask_def map_option_case intro!: counters_onlyI split: option.splits)
    next
      case True
      let ?r = "recalc_tasks ?w"
      obtain c' n' where p': "pick_next ?r = (c', n')" by fastforce
      have nn': "\<forall>i. runnable ?r i \<longrightarrow> 0 \<le> tick ?r i" using room by (simp add: runnable_recalc tick_recalc)
      note P' = pick_next_spec(1)[OF p' nn', unfolded runnable_recalc]
      have "tick ?w n = 0" "runnable ?w n" using Pi True by simp_all
      then have "counter (ptask ?w n) = 0" by (metis tick_def signed_0 signed_word_eqI)
      from recalc_zero[OF this] \<open>runnable ?w n\<close> have "tick ?r n = sint (priority (ptask ?w n))"
        by (simp add: tick_recalc)
      with pos[OF \<open>runnable ?w n\<close>] P'[OF \<open>runnable ?w n\<close>] have c': "0 < c'" by simp
      with True p p' f have s: "schedule fuel k = Some (?r\<lparr>current := n'\<rparr>)" by (simp add: schedule_def)
      have co: "counters_only ?w (?r\<lparr>current := n'\<rparr>)"
        by (rule counters_onlyI) (auto simp: recalc_tasks_eq recalc_def ptask_def split: option.splits)
      from s co c' P' i \<open>\<exists>i. runnable ?w i\<close> show ?thesis
        by (intro exI[of _ "?r\<lparr>current := n'\<rparr>"]) (auto simp: cur runnable_recalc)
    qed
  qed
qed

section \<open>Who is woken\<close>

text \<open>A signal that can wake a task: not blocked, or \<open>SIGKILL\<close> or \<open>SIGSTOP\<close>.\<close>

definition deliverable :: "task \<Rightarrow> nat \<Rightarrow> bool" where
  "deliverable t n \<longleftrightarrow> bit (signal t) (n - 1) \<and> (\<not> bit (blocked t) (n - 1) \<or> n = SIGKILL \<or> n = SIGSTOP)"

lemma bit_blockable: "n < 32 \<Longrightarrow> bit BLOCKABLE n \<longleftrightarrow> n \<noteq> 8 \<and> n \<noteq> 18"
  unfolding BLOCKABLE_def bit_not_iff bit_or_iff bit_sig_bit by (auto simp: SIGKILL_def SIGSTOP_def)

lemma word_nonzero_bit: "(w :: 'a::len word) \<noteq> 0 \<longleftrightarrow> (\<exists>m<LENGTH('a). bit w m)"
  by (metis bit_word_eqI bit_0_eq bot_apply bot_bool_def)

lemma pending_iff:
  "signal t AND NOT (BLOCKABLE AND blocked t) \<noteq> 0 \<longleftrightarrow> (\<exists>n. 1 \<le> n \<and> n \<le> 32 \<and> deliverable t n)"
    (is "?w \<noteq> 0 \<longleftrightarrow> _")
proof -
  have b: "bit ?w m \<longleftrightarrow> deliverable t (Suc m)" if "m < 32" for m
    unfolding bit_and_iff bit_not_iff bit_blockable[OF that] deliverable_def
    using that by (auto simp: SIGKILL_def SIGSTOP_def)
  have "?w \<noteq> 0 \<longleftrightarrow> (\<exists>m<32. bit ?w m)" using word_nonzero_bit[of ?w] by simp
  also have "\<dots> \<longleftrightarrow> (\<exists>m<32. deliverable t (Suc m))" using b by blast
  also have "\<dots> \<longleftrightarrow> (\<exists>n. 1 \<le> n \<and> n \<le> 32 \<and> deliverable t n)"
    by (metis Suc_le_eq Suc_le_mono One_nat_def le0 Suc_le_D)
  finally show ?thesis .
qed

text \<open>
  The state of a task after the first loop: an interruptible sleeper runs exactly when its
  timeout has passed or, counting an expired alarm as \<open>SIGALRM\<close>, some signal can be delivered.
\<close>

definition with_alarm :: "u32 \<Rightarrow> task \<Rightarrow> task" where
  "with_alarm now t =
     (if alarm t \<noteq> 0 \<and> alarm t < now
      then t\<lparr>signal := signal t OR sig_bit SIGALRM, alarm := 0\<rparr> else t)"

lemma wake_check_state:
  "t_state (wake_check now t) =
     (if t_state t = TASK_INTERRUPTIBLE \<and> (timeout t \<noteq> 0 \<and> timeout t < now
         \<or> (\<exists>n. 1 \<le> n \<and> n \<le> 32 \<and> deliverable (with_alarm now t) n))
      then TASK_RUNNING else t_state t)"
proof -
  let ?t1 = "if timeout t \<noteq> 0 \<and> timeout t < now
                then t\<lparr>timeout := 0,
                       t_state := (if t_state t = TASK_INTERRUPTIBLE then TASK_RUNNING else t_state t)\<rparr>
                else t"
  let ?t2 = "with_alarm now ?t1"
  have w: "wake_check now t = (if signal ?t2 AND NOT (BLOCKABLE AND blocked ?t2) \<noteq> 0
      \<and> t_state ?t2 = TASK_INTERRUPTIBLE then ?t2\<lparr>t_state := TASK_RUNNING\<rparr> else ?t2)"
    by (simp only: wake_check_def Let_def with_alarm_def)
  have d: "deliverable ?t2 n = deliverable (with_alarm now t) n" for n
    by (simp add: deliverable_def with_alarm_def)
  have s: "t_state ?t2 = t_state ?t1" by (simp add: with_alarm_def)
  show ?thesis unfolding w pending_iff d if_distrib[where f = t_state] s by auto
qed

text \<open>What the first loop makes of a task, all fields at once.\<close>

definition woken :: "u32 \<Rightarrow> task \<Rightarrow> task" where
  "woken now t = (with_alarm now t)\<lparr>timeout := (if timeout t < now then 0 else timeout t),
     t_state := (if t_state t = TASK_INTERRUPTIBLE \<and> (timeout t \<noteq> 0 \<and> timeout t < now
         \<or> (\<exists>n. 1 \<le> n \<and> n \<le> 32 \<and> deliverable (with_alarm now t) n)) then TASK_RUNNING else t_state t)\<rparr>"

lemma wake_check_woken: "wake_check now t = woken now t"
proof -
  let ?w = "wake_check now t"
  have "?w = (with_alarm now t)\<lparr>timeout := timeout ?w, t_state := t_state ?w\<rparr>"
    by (simp add: wake_check_def with_alarm_def Let_def)
  moreover have "timeout ?w = (if timeout t < now then 0 else timeout t)" by (simp add: wake_check_def Let_def)
  ultimately show ?thesis unfolding woken_def wake_check_state[symmetric] by simp
qed

lemma schedule_wakes:
  assumes "counters_only (wake_tasks k) k'" "1 \<le> i" "i < NR_TASKS" "task k i = Some t"
  shows "task k' i = Some ((woken (jiffies k) t)\<lparr>counter := counter (ptask k' i)\<rparr>)"
  using counters_only_task[OF assms(1), of i "woken (jiffies k) t"] assms(2-4) by (simp add: wake_tasks_eq wake_check_woken)

lemma wake_check_signal: "signal (wake_check now t) = signal (with_alarm now t)"
  by (simp add: wake_check_def with_alarm_def Let_def)

section \<open>The rest of the clock state\<close>

text \<open>\<open>sys_alarm\<close>, \<open>sys_nice\<close> and the calls that read one field.\<close>

definition sys_alarm :: "u32 \<Rightarrow> kernel \<Rightarrow> u32 \<times> kernel" where
  "sys_alarm seconds k =
     (let old = alarm (cur k)
      in (if old \<noteq> 0 then (old - jiffies k) div HZ else old,
          upd_cur (\<lambda>t. t\<lparr>alarm := (if sint seconds > 0 then jiffies k + HZ * seconds else 0)\<rparr>) k))"

definition sys_nice :: "u32 \<Rightarrow> kernel \<Rightarrow> kernel" where
  "sys_nice increment k =
     (if sint (priority (cur k) - increment) > 0
      then upd_cur (\<lambda>t. t\<lparr>priority := priority t - increment\<rparr>) k else k)"

definition sys_getpid :: "kernel \<Rightarrow> int" where "sys_getpid k = pid (cur k)"
definition sys_getppid :: "kernel \<Rightarrow> int" where "sys_getppid k = pid (ptask k (p_pptr (cur k)))"
definition sys_getuid :: "kernel \<Rightarrow> u16" where "sys_getuid k = uid (cur k)"
definition sys_geteuid :: "kernel \<Rightarrow> u16" where "sys_geteuid k = euid (cur k)"
definition sys_getgid :: "kernel \<Rightarrow> u16" where "sys_getgid k = gid (cur k)"
definition sys_getegid :: "kernel \<Rightarrow> u16" where "sys_getegid k = egid (cur k)"

text \<open>An alarm set for a positive number of seconds reads back as that number, rounded down.\<close>

lemma sys_alarm_readback:
  assumes "0 < sint seconds" and "unat seconds < 42949672" and "jiffies k' = jiffies k + e"
    and "unat e \<le> 100 * unat seconds" and "cur k' = cur (snd (sys_alarm seconds k))"
    and "jiffies k + HZ * seconds \<noteq> 0"
  shows "unat (fst (sys_alarm s2 k')) = (100 * unat seconds - unat e) div 100"
proof -
  have "unat (HZ * seconds) = 100 * unat seconds"
    using assms(2) by (simp add: HZ_def unat_word_ariths)
  then have u: "unat (HZ * seconds - e) = 100 * unat seconds - unat e"
    using assms(4) by (simp add: unat_sub word_le_nat_alt)
  have a: "alarm (cur k') = jiffies k + HZ * seconds" using assms(1,5) by (simp add: sys_alarm_def Let_def)
  have "alarm (cur k') - jiffies k' = HZ * seconds - e" unfolding a using assms(3) by simp
  moreover have "fst (sys_alarm s2 k') = (alarm (cur k') - jiffies k') div HZ"
    using assms(6) a by (simp add: sys_alarm_def Let_def)
  ultimately show ?thesis using u by (simp add: unat_div HZ_def)
qed

end
