(* ===== verification/Timer.thy ===== *)
theory Timer
  imports Sched
begin

text \<open>
  The timer queue, the floppy motor timers and the clock tick (\<open>kernel/sched.c\<close>, from \<open>wait_motor\<close>
  to \<open>do_timer\<close>). The queue is the chain of \<open>timer_list\<close> slots from \<open>next_timer\<close>, each holding the
  ticks after its predecessor. A handler is an address, 0 for \<open>NULL\<close>; calls out of the module are
  recorded in order as events.
\<close>

section \<open>The timer queue\<close>

record timers =
  t_jif :: "nat \<Rightarrow> int"
  t_fn :: "nat \<Rightarrow> nat"
  t_queue :: "nat list"

definition TIME_REQUESTS :: nat where "TIME_REQUESTS = 64"

text \<open>
  The sorting loop of \<open>add_timer\<close> along the chain from \<open>p\<close>: contents move, slots do not. The last
  step makes the successor's ticks relative to the new timer.
\<close>

fun sift :: "nat list \<Rightarrow> timers \<Rightarrow> timers" where
  "sift (p # q # r) ts =
     (if t_jif ts q < t_jif ts p
      then sift (q # r)
             (ts\<lparr>t_fn := (t_fn ts)(p := t_fn ts q, q := t_fn ts p),
                 t_jif := (t_jif ts)(p := t_jif ts q, q := t_jif ts p - t_jif ts q)\<rparr>)
      else ts\<lparr>t_jif := (t_jif ts)(q := t_jif ts q - t_jif ts p)\<rparr>)"
| "sift _ ts = ts"

text \<open>The first component lists the handlers called at once.\<close>

definition add_timer :: "int \<Rightarrow> nat \<Rightarrow> timers \<Rightarrow> (nat list \<times> timers) kres" where
  "add_timer j fn ts =
     (if fn = 0 then Inr ([], ts)
      else if j \<le> 0 then Inr ([fn], ts)
      else case find (\<lambda>p. t_fn ts p = 0) [0..<TIME_REQUESTS] of
             None \<Rightarrow> Inl (Panic ''No more time requests free'')
           | Some p \<Rightarrow>
               let ts1 = ts\<lparr>t_fn := (t_fn ts)(p := fn), t_jif := (t_jif ts)(p := j),
                            t_queue := p # t_queue ts\<rparr>
               in Inr ([], sift (t_queue ts1) ts1))"

text \<open>The loop of \<open>do_timer\<close> over expired timers.\<close>

fun expire :: "nat list \<Rightarrow> timers \<Rightarrow> nat list \<times> timers" where
  "expire [] ts = ([], ts\<lparr>t_queue := []\<rparr>)"
| "expire (p # ps) ts =
     (if t_jif ts p \<le> 0
      then let (fs, ts') = expire ps (ts\<lparr>t_fn := (t_fn ts)(p := 0)\<rparr>) in (t_fn ts p # fs, ts')
      else ([], ts\<lparr>t_queue := p # ps\<rparr>))"

definition tick_timers :: "timers \<Rightarrow> nat list \<times> timers" where
  "tick_timers ts =
     (case t_queue ts of
        [] \<Rightarrow> ([], ts)
      | p # ps \<Rightarrow> expire (p # ps) (ts\<lparr>t_jif := (t_jif ts)(p := t_jif ts p - 1)\<rparr>))"

section \<open>The floppy motors\<close>

record floppy =
  mon_timer :: "nat \<Rightarrow> int"
  moff_timer :: "nat \<Rightarrow> int"
  current_DOR :: u8
  fd_selected :: bool

datatype event = Out_DOR u8 | Wake_motor nat | Unblank_screen | Blank_screen | Hd_times_out
  | Sysbeepstop | Call nat

definition ticks_to_floppy_on :: "nat \<Rightarrow> floppy \<Rightarrow> (int \<times> event list \<times> floppy) kres" where
  "ticks_to_floppy_on nr f =
     (if nr > 3 then Inl (Panic ''floppy_on: nr>3'')
      else
        let f1 = f\<lparr>moff_timer := (moff_timer f)(nr := 10000)\<rparr>;
            mask1 = push_bit nr 0x10 OR current_DOR f;
            mask = (if \<not> fd_selected f then (mask1 AND 0xFC) OR of_nat nr else mask1)
        in if mask \<noteq> current_DOR f
           then let f2 = f1\<lparr>mon_timer := (mon_timer f)(nr :=
                         if (mask XOR current_DOR f) AND 0xF0 \<noteq> 0 then 50
                         else if mon_timer f nr < 2 then 2 else mon_timer f nr),
                       current_DOR := mask\<rparr>
                in Inr (mon_timer f2 nr, [Out_DOR mask], f2)
           else Inr (mon_timer f1 nr, [], f1))"

definition floppy_off :: "nat \<Rightarrow> floppy \<Rightarrow> floppy" where
  "floppy_off nr f = f\<lparr>moff_timer := (moff_timer f)(nr := 300)\<rparr>"

definition floppy_timer_step :: "nat \<Rightarrow> floppy \<Rightarrow> event list \<times> floppy" where
  "floppy_timer_step i f =
     (let mask = push_bit i (0x10 :: u8)
      in if mask AND current_DOR f = 0 then ([], f)
         else if mon_timer f i \<noteq> 0
         then (if mon_timer f i - 1 = 0 then [Wake_motor i] else [],
               f\<lparr>mon_timer := (mon_timer f)(i := mon_timer f i - 1)\<rparr>)
         else if moff_timer f i = 0
         then ([Out_DOR (current_DOR f AND NOT mask)], f\<lparr>current_DOR := current_DOR f AND NOT mask\<rparr>)
         else ([], f\<lparr>moff_timer := (moff_timer f)(i := moff_timer f i - 1)\<rparr>))"

definition do_floppy_timer :: "floppy \<Rightarrow> event list \<times> floppy" where
  "do_floppy_timer f =
     foldl (\<lambda>(ev, f) i. let (ev', f') = floppy_timer_step i f in (ev @ ev', f')) ([], f) [0..<4]"

section \<open>The clock tick\<close>

record clock =
  kern :: kernel
  tmrs :: timers
  flop :: floppy
  blankcount :: int
  blankinterval :: int
  blanked :: bool
  hd_timeout :: int
  beepcount :: int

definition blank_step :: "clock \<Rightarrow> event list \<times> clock" where
  "blank_step c =
     (if blankcount c \<noteq> 0 \<or> blankinterval c = 0
      then (if blanked c then [Unblank_screen] else [],
            c\<lparr>blankcount := (if blankcount c \<noteq> 0 then blankcount c - 1 else 0), blanked := False\<rparr>)
      else if \<not> blanked c then ([Blank_screen], c\<lparr>blanked := True\<rparr>)
      else ([], c))"

definition do_timer :: "nat \<Rightarrow> bool \<Rightarrow> clock \<Rightarrow> (event list \<times> clock) option" where
  "do_timer fuel cpl c =
     (let (ev1, c1) = blank_step c;
          (ev2, c2) = (if hd_timeout c1 \<noteq> 0
                       then (if hd_timeout c1 - 1 = 0 then [Hd_times_out] else [],
                             c1\<lparr>hd_timeout := hd_timeout c1 - 1\<rparr>) else ([], c1));
          (ev3, c3) = (if beepcount c2 \<noteq> 0
                       then (if beepcount c2 - 1 = 0 then [Sysbeepstop] else [],
                             c2\<lparr>beepcount := beepcount c2 - 1\<rparr>) else ([], c2));
          c4 = c3\<lparr>kern := upd_cur (\<lambda>t. if cpl then t\<lparr>utime := utime t + 1\<rparr>
                                      else t\<lparr>stime := stime t + 1\<rparr>) (kern c3)\<rparr>;
          (fired, ts) = tick_timers (tmrs c4);
          c5 = c4\<lparr>tmrs := ts\<rparr>;
          (ev6, f) = (if current_DOR (flop c5) AND 0xF0 \<noteq> 0 then do_floppy_timer (flop c5)
                      else ([], flop c5));
          c6 = c5\<lparr>flop := f\<rparr>;
          ev = ev1 @ ev2 @ ev3 @ map Call fired @ ev6;
          k7 = upd_cur (\<lambda>t. t\<lparr>counter := counter t - 1\<rparr>) (kern c6)
      in if sint (counter (cur k7)) > 0 then Some (ev, c6\<lparr>kern := k7\<rparr>)
         else let k8 = upd_cur (\<lambda>t. t\<lparr>counter := 0\<rparr>) k7
              in if \<not> cpl then Some (ev, c6\<lparr>kern := k8\<rparr>)
                 else map_option (\<lambda>k9. (ev, c6\<lparr>kern := k9\<rparr>)) (schedule fuel k8))"

section \<open>The queue as a list of absolute expiry times\<close>

fun expiries :: "int \<Rightarrow> nat list \<Rightarrow> timers \<Rightarrow> (int \<times> nat) list" where
  "expiries now [] ts = []"
| "expiries now (p # ps) ts =
     (now + t_jif ts p, t_fn ts p) # expiries (now + t_jif ts p) ps ts"

definition pending :: "timers \<Rightarrow> (int \<times> nat) list" where
  "pending ts = expiries 0 (t_queue ts) ts"

text \<open>Insertion by time, a new timer before those that expire at the same tick.\<close>

definition insert_by_time :: "int \<times> nat \<Rightarrow> (int \<times> nat) list \<Rightarrow> (int \<times> nat) list" where
  "insert_by_time x xs =
     takeWhile (\<lambda>y. fst y < fst x) xs @ x # dropWhile (\<lambda>y. fst y < fst x) xs"

definition timers_ok :: "timers \<Rightarrow> bool" where
  "timers_ok ts \<longleftrightarrow> distinct (t_queue ts)
     \<and> (\<forall>p \<in> set (t_queue ts). p < TIME_REQUESTS \<and> t_fn ts p \<noteq> 0 \<and> 0 \<le> t_jif ts p)
     \<and> (\<forall>p<TIME_REQUESTS. t_fn ts p \<noteq> 0 \<longrightarrow> p \<in> set (t_queue ts))
     \<and> (t_queue ts \<noteq> [] \<longrightarrow> 0 < t_jif ts (hd (t_queue ts)))"

lemma sift_frame: "p \<notin> set ps \<Longrightarrow> t_jif (sift ps ts) p = t_jif ts p \<and> t_fn (sift ps ts) p = t_fn ts p"
  by (induction ps ts rule: sift.induct) auto

lemma sift_queue [simp]: "t_queue (sift ps ts) = t_queue ts"
  by (induction ps ts rule: sift.induct) auto

lemma expiries_cong:
  "(\<And>p. p \<in> set ps \<Longrightarrow> t_jif ts p = t_jif us p \<and> t_fn ts p = t_fn us p) \<Longrightarrow>
    expiries now ps ts = expiries now ps us"
  by (induction ps arbitrary: now) auto

lemma expiries_sift:
  assumes "distinct (p # ps)" and "\<And>q. q \<in> set ps \<Longrightarrow> 0 \<le> t_jif ts q"
  shows "expiries now (p # ps) (sift (p # ps) ts)
    = insert_by_time (now + t_jif ts p, t_fn ts p) (expiries now ps ts)"
  using assms
proof (induction ps arbitrary: p now ts)
  case Nil
  then show ?case by (simp add: insert_by_time_def)
next
  case (Cons q r)
  show ?case
  proof (cases "t_jif ts q < t_jif ts p")
    case True
    let ?ts = "ts\<lparr>t_fn := (t_fn ts)(p := t_fn ts q, q := t_fn ts p),
                 t_jif := (t_jif ts)(p := t_jif ts q, q := t_jif ts p - t_jif ts q)\<rparr>"
    have s: "sift (p # q # r) ts = sift (q # r) ?ts" using True by simp
    have ih: "expiries (now + t_jif ts q) (q # r) (sift (q # r) ?ts)
      = insert_by_time (now + t_jif ts q + t_jif ?ts q, t_fn ?ts q) (expiries (now + t_jif ts q) r ?ts)"
      by (rule Cons.IH) (use Cons.prems in auto)
    have r: "expiries (now + t_jif ts q) r ?ts = expiries (now + t_jif ts q) r ts"
      by (rule expiries_cong) (use Cons.prems in auto)
    have p: "t_jif (sift (q # r) ?ts) p = t_jif ts q" "t_fn (sift (q # r) ?ts) p = t_fn ts q"
      using sift_frame[of p "q # r" ?ts] Cons.prems(1) by auto
    have "expiries now (p # q # r) (sift (p # q # r) ts)
        = (now + t_jif ts q, t_fn ts q) # expiries (now + t_jif ts q) (q # r) (sift (q # r) ?ts)"
      unfolding s expiries.simps(2)[of now p] p ..
    also have "\<dots> = (now + t_jif ts q, t_fn ts q) #
        insert_by_time (now + t_jif ts p, t_fn ts p) (expiries (now + t_jif ts q) r ts)"
      unfolding ih r using Cons.prems(1) by simp
    finally have eq: "expiries now (p # q # r) (sift (p # q # r) ts) = \<dots>" .
    have "insert_by_time (now + t_jif ts p, t_fn ts p) (expiries now (q # r) ts) = (now + t_jif ts q, t_fn ts q) #
        insert_by_time (now + t_jif ts p, t_fn ts p) (expiries (now + t_jif ts q) r ts)"
      using True by (simp add: insert_by_time_def)
    then show ?thesis by (rule trans[OF eq sym])
  next
    case False
    have "expiries x r (ts\<lparr>t_jif := (t_jif ts)(q := t_jif ts q - t_jif ts p)\<rparr>) = expiries x r ts" for x
      by (rule expiries_cong) (use Cons.prems in auto)
    with False Cons.prems(1) show ?thesis by (simp add: insert_by_time_def)
  qed
qed

lemma sift_fields:
  assumes "distinct (p # ps)" and "\<And>x. x \<in> set (p # ps) \<Longrightarrow> 0 \<le> t_jif ts x \<and> t_fn ts x \<noteq> 0"
  shows "x \<in> set (p # ps) \<Longrightarrow> 0 \<le> t_jif (sift (p # ps) ts) x \<and> t_fn (sift (p # ps) ts) x \<noteq> 0"
  using assms
proof (induction ps arbitrary: p ts)
  case Nil
  then show ?case by simp
next
  case (Cons q r)
  show ?case
  proof (cases "t_jif ts q < t_jif ts p")
    case True
    let ?ts = "ts\<lparr>t_fn := (t_fn ts)(p := t_fn ts q, q := t_fn ts p),
                 t_jif := (t_jif ts)(p := t_jif ts q, q := t_jif ts p - t_jif ts q)\<rparr>"
    have ok: "\<And>x. x \<in> set (q # r) \<Longrightarrow> 0 \<le> t_jif ?ts x \<and> t_fn ?ts x \<noteq> 0"
      using Cons.prems True by auto
    show ?thesis
    proof (cases "x = p")
      case xp: True
      then show ?thesis using sift_frame[of p "q # r" ?ts] True Cons.prems by auto
    next
      case False
      then have "x \<in> set (q # r)" using Cons.prems(1) by auto
      from Cons.IH[OF this _ ok] Cons.prems(2) True show ?thesis by simp
    qed
  next
    case False
    then show ?thesis using Cons.prems by auto
  qed
qed

lemma sift_head:
  "distinct (p # ps) \<Longrightarrow> t_jif (sift (p # ps) ts) p = (if ps = [] then t_jif ts p else min (t_jif ts p) (t_jif ts (hd ps)))"
  by (cases ps) (auto simp: sift_frame min_def)

text \<open>
  \<open>add_timer\<close> with a free slot: the queue stays well formed, and as a list of expiry times it is
  the old list with the new timer inserted; no other timer moves.
\<close>

lemma add_timer_spec:
  assumes ok: "timers_ok ts" and "fn \<noteq> 0" and "0 < j"
    and r: "add_timer j fn ts = Inr (called, ts')"
  shows "timers_ok ts'" and "called = []" and "pending ts' = insert_by_time (j, fn) (pending ts)"
proof -
  from r assms(2,3) obtain p where f: "find (\<lambda>p. t_fn ts p = 0) [0..<TIME_REQUESTS] = Some p"
    and c: "called = []"
    and ts': "ts' = sift (p # t_queue ts) (ts\<lparr>t_fn := (t_fn ts)(p := fn), t_jif := (t_jif ts)(p := j),
                            t_queue := p # t_queue ts\<rparr>)"
    by (auto simp: add_timer_def Let_def split: option.splits)
  let ?ts = "ts\<lparr>t_fn := (t_fn ts)(p := fn), t_jif := (t_jif ts)(p := j), t_queue := p # t_queue ts\<rparr>"
  from f have p: "p < TIME_REQUESTS" "t_fn ts p = 0"
    by (auto simp: find_Some_iff)
  then have np: "p \<notin> set (t_queue ts)" using ok by (auto simp: timers_ok_def)
  have d: "distinct (p # t_queue ts)" using ok np by (simp add: timers_ok_def)
  have q: "t_queue ts' = p # t_queue ts" by (simp add: ts')
  show "called = []" by (rule c)
  have nn: "\<And>q. q \<in> set (t_queue ts) \<Longrightarrow> 0 \<le> t_jif ?ts q" using ok np by (auto simp: timers_ok_def)
  have same: "expiries 0 (t_queue ts) ?ts = expiries 0 (t_queue ts) ts"
    by (rule expiries_cong) (use np in auto)
  show "pending ts' = insert_by_time (j, fn) (pending ts)"
    using expiries_sift[OF d nn, where now = 0] unfolding pending_def q same by (simp add: ts')
  have nz: "\<And>x. x \<in> set (p # t_queue ts) \<Longrightarrow> 0 \<le> t_jif ?ts x \<and> t_fn ?ts x \<noteq> 0"
    using ok np assms(2,3) by (auto simp: timers_ok_def)
  have hd: "0 < t_jif ts' p"
    using ok np assms(3) sift_head[OF d, of ?ts] unfolding ts' timers_ok_def
    by (cases "t_queue ts") auto
  have rest: "x \<in> set (p # t_queue ts)" if "x < TIME_REQUESTS" "t_fn ts' x \<noteq> 0" for x
  proof (rule ccontr)
    assume n: "x \<notin> set (p # t_queue ts)"
    then have "t_fn ts' x = t_fn ts x" using sift_frame[OF n, of ?ts] by (simp add: ts')
    with that ok n show False by (auto simp: timers_ok_def)
  qed
  show "timers_ok ts'"
    unfolding timers_ok_def q
    using d sift_fields[OF d nz] p ok hd rest
    by (auto simp: ts'[symmetric] timers_ok_def)
qed

section \<open>A tick\<close>

lemma expiries_ge: "(\<And>p. p \<in> set ps \<Longrightarrow> 0 \<le> t_jif ts p) \<Longrightarrow> x \<in> set (expiries now ps ts) \<Longrightarrow> now \<le> fst x"
  by (induction ps arbitrary: now) (auto, fastforce)

lemma expiries_shift: "expiries (now - 1) ps ts = map (\<lambda>(t, f). (t - 1, f)) (expiries now ps ts)"
proof (induction ps arbitrary: now)
  case (Cons p ps)
  have "now - 1 + t_jif ts p = (now + t_jif ts p) - 1" by simp
  then show ?case by (simp only: expiries.simps Cons.IH list.map prod.case)
qed simp

lemma expire_spec:
  assumes "distinct ps" and "\<And>p. p \<in> set ps \<Longrightarrow> 0 \<le> t_jif ts p" and "expire ps ts = (fs, ts')"
  shows "fs = map snd (takeWhile (\<lambda>y. fst y \<le> 0) (expiries 0 ps ts))
    \<and> expiries 0 (t_queue ts') ts' = dropWhile (\<lambda>y. fst y \<le> 0) (expiries 0 ps ts)
    \<and> (\<exists>qs. ps = qs @ t_queue ts' \<and> (\<forall>p. t_fn ts' p = (if p \<in> set qs then 0 else t_fn ts p)))
    \<and> t_jif ts' = t_jif ts \<and> (t_queue ts' \<noteq> [] \<longrightarrow> 0 < t_jif ts' (hd (t_queue ts')))"
  using assms
proof (induction ps arbitrary: ts fs ts')
  case Nil
  then show ?case by auto
next
  case (Cons p ps)
  show ?case
  proof (cases "t_jif ts p \<le> 0")
    case True
    then have z: "t_jif ts p = 0" using Cons.prems(2)[of p] by simp
    obtain gs us where e: "expire ps (ts\<lparr>t_fn := (t_fn ts)(p := 0)\<rparr>) = (gs, us)" by fastforce
    from Cons.prems(3) True e have r: "fs = t_fn ts p # gs" "ts' = us" by auto
    have same: "expiries x ps (ts\<lparr>t_fn := (t_fn ts)(p := 0)\<rparr>) = expiries x ps ts" for x
      by (rule expiries_cong) (use Cons.prems(1) in auto)
    have ih: "gs = map snd (takeWhile (\<lambda>y. fst y \<le> 0) (expiries 0 ps ts))
      \<and> expiries 0 (t_queue us) us = dropWhile (\<lambda>y. fst y \<le> 0) (expiries 0 ps ts)
      \<and> (\<exists>qs. ps = qs @ t_queue us \<and> (\<forall>x. t_fn us x = (if x \<in> set qs then 0 else ((t_fn ts)(p := 0)) x)))
      \<and> t_jif us = t_jif ts \<and> (t_queue us \<noteq> [] \<longrightarrow> 0 < t_jif us (hd (t_queue us)))"
      using Cons.IH[OF _ _ e] Cons.prems(1,2)
      unfolding same timers.simps by (simp cong: if_cong) metis
    then obtain qs where "ps = qs @ t_queue us" "\<forall>x. t_fn us x = (if x \<in> set qs then 0 else ((t_fn ts)(p := 0)) x)"
      by blast
    then have "p # ps = (p # qs) @ t_queue us \<and> (\<forall>x. t_fn us x = (if x \<in> set (p # qs) then 0 else t_fn ts x))"
      by auto
    then have "\<exists>qs. p # ps = qs @ t_queue us \<and> (\<forall>x. t_fn us x = (if x \<in> set qs then 0 else t_fn ts x))" by blast
    with ih z r show ?thesis by simp metis
  next
    case False
    have "expiries x ps (ts\<lparr>t_queue := p # ps\<rparr>) = expiries x ps ts" for x
      by (rule expiries_cong) simp
    with False Cons.prems(3) show ?thesis by (auto intro!: exI[of _ "[]"])
  qed
qed

text \<open>
  One tick: every timer is one tick closer, those that reach zero are called in queue order and
  leave the queue, and their slots are free again.
\<close>

definition closer :: "(int \<times> nat) list \<Rightarrow> (int \<times> nat) list" where
  "closer xs = map (\<lambda>(t, f). (t - 1, f)) xs"

lemma tick_timers_spec:
  assumes ok: "timers_ok ts" and r: "tick_timers ts = (fs, ts')"
  shows "timers_ok ts'" and "fs = map snd (takeWhile (\<lambda>y. fst y \<le> 1) (pending ts))"
    and "pending ts' = closer (dropWhile (\<lambda>y. fst y \<le> 1) (pending ts))"
proof -
  have "timers_ok ts' \<and> fs = map snd (takeWhile (\<lambda>y. fst y \<le> 1) (pending ts))
    \<and> pending ts' = closer (dropWhile (\<lambda>y. fst y \<le> 1) (pending ts))"
  proof (cases "t_queue ts")
    case Nil
    with ok r show ?thesis by (simp add: tick_timers_def pending_def closer_def)
  next
    case (Cons p ps)
    let ?ts = "ts\<lparr>t_jif := (t_jif ts)(p := t_jif ts p - 1)\<rparr>"
    from r Cons have e: "expire (p # ps) ?ts = (fs, ts')" by (simp add: tick_timers_def)
    have d: "distinct (p # ps)" using ok Cons by (simp add: timers_ok_def)
    have nn: "\<And>x. x \<in> set (p # ps) \<Longrightarrow> 0 \<le> t_jif ?ts x"
      using ok Cons by (auto simp: timers_ok_def)
    have "expiries x ps ?ts = expiries x ps ts" for x
      by (rule expiries_cong) (use d in auto)
    moreover have "expiries (t_jif ts p - 1) ps ts = closer (expiries (t_jif ts p) ps ts)"
      unfolding closer_def by (rule expiries_shift)
    ultimately have sh: "expiries 0 (p # ps) ?ts = closer (pending ts)"
      using Cons by (simp add: pending_def closer_def)
    have tw: "takeWhile (\<lambda>y. fst y \<le> 0) (closer xs) = closer (takeWhile (\<lambda>y. fst y \<le> 1) xs)"
      "dropWhile (\<lambda>y. fst y \<le> 0) (closer xs) = closer (dropWhile (\<lambda>y. fst y \<le> 1) xs)"
      "map snd (closer xs) = map snd xs" for xs :: "(int \<times> nat) list"
      by (induction xs) (auto simp: closer_def)
    note E = expire_spec[OF d nn e, unfolded sh tw]
    have "t_fn ?ts = t_fn ts" by simp
    with E obtain qs where qs: "p # ps = qs @ t_queue ts'"
      "\<forall>x. t_fn ts' x = (if x \<in> set qs then 0 else t_fn ts x)" by metis
    have dq: "distinct (qs @ t_queue ts')" using d qs(1) by simp
    have "timers_ok ts'"
      unfolding timers_ok_def
    proof (intro conjI ballI allI impI)
      show "distinct (t_queue ts')" using dq by simp
      show "0 < t_jif ts' (hd (t_queue ts'))" if "t_queue ts' \<noteq> []" using E that by blast
    next
      fix x assume x: "x \<in> set (t_queue ts')"
      then have xq: "x \<in> set (p # ps)" "x \<notin> set qs" using qs(1) dq by auto
      then show "x < TIME_REQUESTS" "t_fn ts' x \<noteq> 0" using ok Cons qs(2) by (auto simp: timers_ok_def)
      show "0 \<le> t_jif ts' x" using nn[OF xq(1)] E by simp
    next
      fix x assume x: "x < TIME_REQUESTS" "t_fn ts' x \<noteq> 0"
      then have "x \<notin> set qs" "t_fn ts x \<noteq> 0" using qs(2) by (metis, metis)
      then have "x \<in> set (p # ps)" "x \<notin> set qs" using x(1) ok Cons by (auto simp: timers_ok_def)
      then show "x \<in> set (t_queue ts')" unfolding qs(1) by auto
    qed
    with E show ?thesis by (simp add: pending_def)
  qed
  then show "timers_ok ts'" "fs = map snd (takeWhile (\<lambda>y. fst y \<le> 1) (pending ts))"
    "pending ts' = closer (dropWhile (\<lambda>y. fst y \<le> 1) (pending ts))" by blast+
qed

section \<open>Many ticks\<close>

fun run_ticks :: "nat \<Rightarrow> timers \<Rightarrow> nat list \<times> timers" where
  "run_ticks 0 ts = ([], ts)"
| "run_ticks (Suc n) ts =
     (let (fs, ts1) = tick_timers ts; (gs, ts2) = run_ticks n ts1 in (fs @ gs, ts2))"

lemma sorted_pending: "timers_ok ts \<Longrightarrow> sorted (map fst (pending ts))"
proof -
  have "sorted (map fst (expiries now ps ts))" if "\<forall>p \<in> set ps. 0 \<le> t_jif ts p" for now ps
    using that
  proof (induction ps arbitrary: now)
    case (Cons p ps)
    have "now + t_jif ts p \<le> fst x" if "x \<in> set (expiries (now + t_jif ts p) ps ts)" for x
      by (rule expiries_ge[OF _ that]) (use Cons.prems in auto)
    with Cons show ?case by auto
  qed simp
  then show "timers_ok ts \<Longrightarrow> sorted (map fst (pending ts))"
    by (simp add: timers_ok_def pending_def)
qed

lemma sorted_dropWhile_le:
  assumes "sorted (map fst xs)" and "(a :: int) \<le> b"
  shows "takeWhile (\<lambda>y. fst y \<le> b) xs
    = takeWhile (\<lambda>y. fst y \<le> a) xs @ takeWhile (\<lambda>y. fst y \<le> b) (dropWhile (\<lambda>y. fst y \<le> a) xs)"
  using assms by (induction xs) auto

lemma closer_takeWhile:
  "takeWhile (\<lambda>y. fst y \<le> t) (closer xs) = closer (takeWhile (\<lambda>y. fst y \<le> t + 1) xs)"
  "map snd (closer xs) = map snd xs"
  by (induction xs) (auto simp: closer_def)

text \<open>The handlers called in the next \<open>n\<close> ticks are those due within \<open>n\<close> ticks, in due order.\<close>

lemma run_ticks_fired:
  "timers_ok ts \<Longrightarrow> fst (run_ticks n ts) = map snd (takeWhile (\<lambda>y. fst y \<le> int n) (pending ts))"
proof (induction n arbitrary: ts)
  case 0
  have "takeWhile (\<lambda>y. fst y \<le> 0) (pending ts) = []"
  proof (cases "t_queue ts")
    case (Cons p ps)
    then have "0 < t_jif ts p" using "0" by (simp add: timers_ok_def)
    then show ?thesis using Cons by (simp add: pending_def)
  qed (simp add: pending_def)
  then show ?case by simp
next
  case (Suc n)
  obtain fs ts1 where t: "tick_timers ts = (fs, ts1)" by fastforce
  note T = tick_timers_spec[OF Suc.prems t]
  have "fst (run_ticks (Suc n) ts) = fs @ fst (run_ticks n ts1)"
    using t by (simp add: split_beta Let_def)
  also have "\<dots> = map snd (takeWhile (\<lambda>y. fst y \<le> 1) (pending ts)
      @ takeWhile (\<lambda>y. fst y \<le> int n + 1) (dropWhile (\<lambda>y. fst y \<le> 1) (pending ts)))"
    using Suc.IH[OF T(1)] T(2,3) by (simp add: closer_takeWhile)
  also have "\<dots> = map snd (takeWhile (\<lambda>y. fst y \<le> int n + 1) (pending ts))"
    using sorted_dropWhile_le[OF sorted_pending[OF Suc.prems], of 1 "int n + 1"] by simp
  finally show ?case by (simp add: add.commute)
qed

text \<open>The list a tick leaves and the one an insertion makes are sorted, as a queue interface.\<close>

lemma insert_by_time_set: "set (insert_by_time x xs) = insert x (set xs)"
proof -
  have "set (takeWhile P xs) \<union> set (dropWhile P xs) = set xs" for P
    by (metis set_append takeWhile_dropWhile_id)
  then show ?thesis by (auto simp: insert_by_time_def)
qed

end
