(* ===== verification/SleepQueue.thy ===== *)
theory SleepQueue
  imports Task
begin

text \<open>
  \<open>sleep_on\<close>, \<open>interruptible_sleep_on\<close> and \<open>wake_up\<close> (\<open>kernel/sched.c\<close>) on one wait queue as a
  state machine. The kernel keeps no list of sleepers: the queue head points to the last one,
  and each sleeper has its predecessor in the local \<open>tmp\<close> on its kernel stack. A sleeper is a task
  that is inside the call to \<open>schedule\<close> of \<open>__sleep_on\<close>.
\<close>

record wait_queue =
  wq_head :: "nat option"
  wq_state :: "nat \<Rightarrow> task_state"
  wq_tmp :: "nat \<Rightarrow> nat option"
  wq_asleep :: "nat \<Rightarrow> bool"

section \<open>The code\<close>

text \<open>\<open>__sleep_on\<close> up to the first \<open>schedule\<close>; \<open>c\<close> is the current task, task 0 must not sleep.\<close>

definition sleep_enter :: "nat \<Rightarrow> task_state \<Rightarrow> wait_queue \<Rightarrow> wait_queue kres" where
  "sleep_enter c state w =
     (if c = 0 then Inl (Panic ''task[0] trying to sleep'')
      else Inr (w\<lparr>wq_tmp := (wq_tmp w)(c := wq_head w), wq_head := Some c,
                  wq_state := (wq_state w)(c := state), wq_asleep := (wq_asleep w)(c := True)\<rparr>))"

text \<open>What \<open>__sleep_on\<close> does each time \<open>schedule\<close> returns.\<close>

definition sleep_resume :: "nat \<Rightarrow> wait_queue \<Rightarrow> wait_queue" where
  "sleep_resume c w =
     (case wq_head w of
        Some h \<Rightarrow>
          if h \<noteq> c
          then w\<lparr>wq_state := (wq_state w)(h := TASK_RUNNING, c := TASK_UNINTERRUPTIBLE)\<rparr>
          else w\<lparr>wq_head := wq_tmp w c,
                 wq_state := (case wq_tmp w c of None \<Rightarrow> wq_state w
                              | Some u \<Rightarrow> (wq_state w)(u := TASK_RUNNING)),
                 wq_asleep := (wq_asleep w)(c := False)\<rparr>
      | None \<Rightarrow> w\<lparr>wq_head := wq_tmp w c,
                 wq_state := (case wq_tmp w c of None \<Rightarrow> wq_state w
                              | Some u \<Rightarrow> (wq_state w)(u := TASK_RUNNING)),
                 wq_asleep := (wq_asleep w)(c := False)\<rparr>)"

definition wake_up :: "wait_queue \<Rightarrow> wait_queue" where
  "wake_up w =
     (case wq_head w of None \<Rightarrow> w
      | Some h \<Rightarrow> w\<lparr>wq_state := (wq_state w)(h := TASK_RUNNING)\<rparr>)"

text \<open>
  The steps of the system: a running task goes to sleep in either mode, somebody calls \<open>wake_up\<close>, a
  runnable sleeper is scheduled, or a signal or timeout makes an interruptible sleeper runnable.
\<close>

inductive wq_step :: "wait_queue \<Rightarrow> wait_queue \<Rightarrow> bool" where
  enter: "sleep_enter c state w = Inr w' \<Longrightarrow> \<not> wq_asleep w c \<Longrightarrow>
    state \<in> {TASK_INTERRUPTIBLE, TASK_UNINTERRUPTIBLE} \<Longrightarrow> wq_step w w'"
| wake: "wq_step w (wake_up w)"
| resume: "wq_asleep w c \<Longrightarrow> wq_state w c = TASK_RUNNING \<Longrightarrow> wq_step w (sleep_resume c w)"
| signalled: "wq_asleep w c \<Longrightarrow> wq_state w c = TASK_INTERRUPTIBLE \<Longrightarrow>
    wq_step w (w\<lparr>wq_state := (wq_state w)(c := TASK_RUNNING)\<rparr>)"

inductive wq_reach :: "wait_queue \<Rightarrow> wait_queue \<Rightarrow> bool" where
  refl: "wq_reach w w"
| step: "wq_reach w w' \<Longrightarrow> wq_step w' w'' \<Longrightarrow> wq_reach w w''"

definition wq_empty :: "wait_queue \<Rightarrow> bool" where
  "wq_empty w \<longleftrightarrow> wq_head w = None \<and> (\<forall>c. \<not> wq_asleep w c)"

section \<open>The chain of sleepers\<close>

definition sleepers :: "wait_queue \<Rightarrow> nat list \<Rightarrow> bool" where
  "sleepers w cs \<longleftrightarrow> distinct cs \<and> set cs = {c. wq_asleep w c} \<and> chain (wq_tmp w) (wq_head w) cs"

lemma sleepers_enter:
  assumes "sleepers w cs" and "sleep_enter c state w = Inr w'" and "\<not> wq_asleep w c"
  shows "sleepers w' (c # cs)"
proof -
  from assms have c: "c \<notin> set cs" by (auto simp: sleepers_def)
  from assms(2) have w': "w' = w\<lparr>wq_tmp := (wq_tmp w)(c := wq_head w), wq_head := Some c,
      wq_state := (wq_state w)(c := state), wq_asleep := (wq_asleep w)(c := True)\<rparr>"
    by (auto simp: sleep_enter_def split: if_splits)
  have "chain ((wq_tmp w)(c := wq_head w)) (wq_head w) cs = chain (wq_tmp w) (wq_head w) cs"
    by (rule chain_cong) (use c in auto)
  then show ?thesis using assms(1) c by (auto simp: sleepers_def w')
qed

lemma sleepers_resume:
  assumes "sleepers w cs" and "wq_asleep w c"
  shows "if cs = [] \<or> hd cs \<noteq> c then sleepers (sleep_resume c w) cs
         else sleepers (sleep_resume c w) (tl cs)"
proof (cases cs)
  case Nil
  with assms show ?thesis by (auto simp: sleepers_def)
next
  case (Cons d ds)
  show ?thesis
  proof (cases "d = c")
    case True
    have "chain (wq_tmp w) (wq_tmp w c) ds" using assms(1) Cons True by (simp add: sleepers_def)
    then show ?thesis using assms Cons True by (auto simp: sleepers_def sleep_resume_def)
  next
    case False
    then show ?thesis using assms Cons by (auto simp: sleepers_def sleep_resume_def)
  qed
qed

lemma sleepers_step:
  assumes "wq_step w w'" and "sleepers w cs"
  obtains cs' where "sleepers w' cs'"
  using assms(1)
proof cases
  case (enter c state)
  with sleepers_enter[OF assms(2)] show ?thesis by (blast intro: that)
next
  case wake
  with assms(2) show ?thesis
    by (intro that[of cs]) (auto simp: sleepers_def wake_up_def split: option.splits)
next
  case (resume c)
  with sleepers_resume[OF assms(2)] show ?thesis by (metis that)
next
  case (signalled c)
  with assms(2) show ?thesis by (intro that[of cs]) (simp add: sleepers_def)
qed

lemma reach_sleepers: "wq_reach w0 w \<Longrightarrow> wq_empty w0 \<Longrightarrow> \<exists>cs. sleepers w cs"
proof (induction rule: wq_reach.induct)
  case (refl w)
  then show ?case by (intro exI[of _ "[]"]) (simp add: sleepers_def wq_empty_def)
next
  case (step w w' w'')
  then show ?case by (metis sleepers_step)
qed

text \<open>
  In a reachable state the queue head is not null while anybody sleeps, and the only sleeper that
  can leave is the last one that came.
\<close>

lemma leaves_in_lifo_order:
  assumes "wq_reach w0 w" and "wq_empty w0" and "wq_asleep w c"
  shows "wq_head w \<noteq> None" and "\<not> wq_asleep (sleep_resume c w) c \<longleftrightarrow> wq_head w = Some c"
proof -
  from reach_sleepers[OF assms(1,2)] obtain cs where cs: "sleepers w cs" by blast
  with assms(3) have "c \<in> set cs" by (auto simp: sleepers_def)
  with cs obtain d ds where "cs = d # ds" "wq_head w = Some d"
    by (cases cs) (auto simp: sleepers_def)
  then show "wq_head w \<noteq> None" "\<not> wq_asleep (sleep_resume c w) c \<longleftrightarrow> wq_head w = Some c"
    using assms(3) by (auto simp: sleep_resume_def)
qed

section \<open>No wake-up is lost\<close>

definition some_awake :: "wait_queue \<Rightarrow> bool" where
  "some_awake w \<longleftrightarrow> (\<exists>c. wq_asleep w c \<and> wq_state w c = TASK_RUNNING)"

lemma some_awake_step:
  assumes "wq_step w w'" and "sleepers w cs" and "some_awake w"
  shows "some_awake w' \<or> wq_empty w'"
proof -
  from assms(3) obtain a where a: "wq_asleep w a" "wq_state w a = TASK_RUNNING"
    by (auto simp: some_awake_def)
  from assms(1) show ?thesis
  proof cases
    case (enter c state)
    then have "a \<noteq> c" using a by auto
    with enter a show ?thesis by (auto simp: some_awake_def sleep_enter_def split: if_splits)
  next
    case wake
    with a have "wq_asleep w' a \<and> wq_state w' a = TASK_RUNNING"
      by (simp add: wake_up_def split: option.splits)
    then show ?thesis unfolding some_awake_def by blast
  next
    case (resume c)
    then have "c \<in> set cs" using assms(2) by (auto simp: sleepers_def)
    then obtain d ds where ds: "cs = d # ds" by (cases cs) auto
    have h: "wq_head w = Some d" "wq_asleep w d" using assms(2) ds by (auto simp: sleepers_def)
    show ?thesis
    proof (cases "d = c")
      case False
      with h resume show ?thesis by (auto simp: some_awake_def sleep_resume_def)
    next
      case True
      note s = sleepers_resume[OF assms(2) resume(2)]
      have s': "sleepers w' ds" using s ds True resume(1) by simp
      show ?thesis
      proof (cases ds)
        case Nil
        with s' show ?thesis by (auto simp: sleepers_def wq_empty_def)
      next
        case (Cons e es)
        then have t: "wq_tmp w c = Some e" "e \<noteq> c" "wq_asleep w e"
          using assms(2) ds True by (auto simp: sleepers_def)
        then show ?thesis using resume(1) h True by (auto simp: some_awake_def sleep_resume_def)
      qed
    qed
  next
    case (signalled c)
    with a show ?thesis by (auto simp: some_awake_def)
  qed
qed

text \<open>
  After \<open>wake_up\<close> on a queue with sleepers some sleeper is runnable, and as long as nobody has seen
  the queue empty some sleeper stays runnable: a wake-up passes from one to the next until all
  have left.
\<close>

inductive wq_busy :: "wait_queue \<Rightarrow> wait_queue \<Rightarrow> bool" where
  busy_refl: "wq_busy w w"
| busy_step: "wq_busy w w' \<Longrightarrow> wq_step w' w'' \<Longrightarrow> \<not> wq_empty w'' \<Longrightarrow> wq_busy w w''"

lemma wake_up_awake:
  assumes "sleepers w cs" and "cs \<noteq> []"
  shows "some_awake (wake_up w)"
  using assms by (cases cs) (auto simp: some_awake_def wake_up_def sleepers_def)

lemma busy_awake:
  assumes "wq_busy w w'" and "sleepers w cs" and "some_awake w"
  shows "some_awake w' \<and> (\<exists>cs'. sleepers w' cs')"
  using assms
proof (induction rule: wq_busy.induct)
  case (busy_refl w)
  then show ?case by blast
next
  case (busy_step w w' w'')
  then obtain cs' where "some_awake w'" "sleepers w' cs'" by blast
  with busy_step.hyps some_awake_step sleepers_step show ?case by metis
qed

text \<open>Run in the order of the chain, the sleepers all leave after one \<open>wake_up\<close>.\<close>

lemma drain:
  assumes "sleepers w cs" and "cs \<noteq> [] \<Longrightarrow> wq_state w (hd cs) = TASK_RUNNING"
  shows "wq_empty (foldl (\<lambda>w c. sleep_resume c w) w cs)
    \<and> (\<forall>i<length cs. wq_state (foldl (\<lambda>w c. sleep_resume c w) w (take i cs)) (cs ! i) = TASK_RUNNING)"
  using assms
proof (induction cs arbitrary: w)
  case Nil
  then show ?case by (auto simp: sleepers_def wq_empty_def)
next
  case (Cons c cs)
  have c: "wq_asleep w c" using Cons.prems(1) by (auto simp: sleepers_def)
  let ?w = "sleep_resume c w"
  have s: "sleepers ?w cs" using sleepers_resume[OF Cons.prems(1) c] by simp
  have hd: "wq_state ?w (hd cs) = TASK_RUNNING" if "cs \<noteq> []"
    using that Cons.prems(1) by (cases cs) (auto simp: sleepers_def sleep_resume_def)
  note ih = Cons.IH[OF s hd]
  show ?case
  proof (intro conjI allI impI)
    show "wq_empty (foldl (\<lambda>w c. sleep_resume c w) w (c # cs))" using ih by simp
    fix i assume "i < length (c # cs)"
    then show "wq_state (foldl (\<lambda>w c. sleep_resume c w) w (take i (c # cs))) ((c # cs) ! i) = TASK_RUNNING"
      using ih Cons.prems(2) by (cases i) auto
  qed
qed

end
