(* ===== verification/Sys.thy ===== *)
theory Sys
  imports Task "HOL-Library.Signed_Division"
begin

text \<open>
  The system calls of \<open>kernel/sys.c\<close>: user and group ids, process groups and sessions, the clock,
  resource limits and the host name. A call returns its C result, a negative error number or a
  value, and the new state. What a call reads from user memory is an argument, what it writes
  there is part of its result.
\<close>

section \<open>User and group ids\<close>

definition sys_setregid :: "int \<Rightarrow> int \<Rightarrow> kernel \<Rightarrow> int \<times> kernel" where
  "sys_setregid rgid e k =
     (if rgid > 0 \<and> \<not> (uint (gid (cur k)) = rgid \<or> suser k) then (- EPERM, k)
      else
        let k1 = (if rgid > 0 then upd_cur (\<lambda>t. t\<lparr>gid := word_of_int rgid\<rparr>) k else k)
        in if e > 0
           then if uint (gid (cur k1)) = e \<or> uint (egid (cur k1)) = e \<or> suser k1
                then (0, upd_cur (\<lambda>t. t\<lparr>egid := word_of_int e, sgid := word_of_int e\<rparr>) k1)
                else (- EPERM, k1)
           else (0, k1))"

definition sys_setgid :: "int \<Rightarrow> kernel \<Rightarrow> int \<times> kernel" where
  "sys_setgid g k =
     (if suser k
      then (0, upd_cur (\<lambda>t. t\<lparr>gid := word_of_int g, egid := word_of_int g, sgid := word_of_int g\<rparr>) k)
      else if g = uint (gid (cur k)) \<or> g = uint (sgid (cur k))
      then (0, upd_cur (\<lambda>t. t\<lparr>egid := word_of_int g\<rparr>) k)
      else (- EPERM, k))"

definition sys_setreuid :: "int \<Rightarrow> int \<Rightarrow> kernel \<Rightarrow> int \<times> kernel" where
  "sys_setreuid ruid e k =
     (let old_ruid = uid (cur k)
      in if ruid > 0 \<and> \<not> (uint (euid (cur k)) = ruid \<or> uint old_ruid = ruid \<or> suser k)
         then (- EPERM, k)
         else
           let k1 = (if ruid > 0 then upd_cur (\<lambda>t. t\<lparr>uid := word_of_int ruid\<rparr>) k else k)
           in if e > 0
              then if uint old_ruid = e \<or> uint (euid (cur k1)) = e \<or> suser k1
                   then (0, upd_cur (\<lambda>t. t\<lparr>euid := word_of_int e, suid := word_of_int e\<rparr>) k1)
                   else (- EPERM, upd_cur (\<lambda>t. t\<lparr>uid := old_ruid\<rparr>) k1)
              else (0, k1))"

definition sys_setuid :: "int \<Rightarrow> kernel \<Rightarrow> int \<times> kernel" where
  "sys_setuid u k =
     (if suser k
      then (0, upd_cur (\<lambda>t. t\<lparr>uid := word_of_int u, euid := word_of_int u, suid := word_of_int u\<rparr>) k)
      else if u = uint (uid (cur k)) \<or> u = uint (suid (cur k))
      then (0, upd_cur (\<lambda>t. t\<lparr>euid := word_of_int u\<rparr>) k)
      else (- EPERM, k))"

section \<open>Supplementary groups\<close>

text \<open>
  The loop of \<open>getgroups\<close> from index \<open>i\<close>: the list of shorts written to the user, or \<open>EINVAL\<close> when
  they do not fit. With size 0 only the count is returned.
\<close>

fun getgroups_loop :: "task \<Rightarrow> int \<Rightarrow> nat list \<Rightarrow> nat \<Rightarrow> u16 list \<Rightarrow> int \<times> u16 list" where
  "getgroups_loop t sz [] n out = (int n, out)"
| "getgroups_loop t sz (i # is) n out =
     (if groups t i = NOGROUP then (int n, out)
      else if sz \<noteq> 0
      then if int i \<ge> sz then (- EINVAL, out)
           else getgroups_loop t sz is (Suc n) (out @ [word_of_int (groups t i)])
      else getgroups_loop t sz is (Suc n) out)"

definition sys_getgroups :: "int \<Rightarrow> kernel \<Rightarrow> int \<times> u16 list" where
  "sys_getgroups sz k = getgroups_loop (cur k) sz [0..<NGROUPS] 0 []"

definition sys_setgroups :: "int \<Rightarrow> (nat \<Rightarrow> u16) \<Rightarrow> kernel \<Rightarrow> int \<times> kernel" where
  "sys_setgroups sz grouplist k =
     (if \<not> suser k then (- EPERM, k)
      else if sz > int NGROUPS then (- EINVAL, k)
      else
        let n = nat sz;
            gs = foldl (\<lambda>gs i. gs(i := uint (grouplist i))) (groups (cur k)) [0..<n];
            gs' = (if n < NGROUPS then gs(n := NOGROUP) else gs)
        in (0, upd_cur (\<lambda>t. t\<lparr>groups := gs'\<rparr>) k))"

fun in_groups :: "task \<Rightarrow> u16 \<Rightarrow> nat list \<Rightarrow> bool" where
  "in_groups t g [] = False"
| "in_groups t g (i # is) =
     (if groups t i = NOGROUP then False
      else if groups t i = uint g then True else in_groups t g is)"

definition in_group_p :: "u16 \<Rightarrow> kernel \<Rightarrow> bool" where
  "in_group_p grp k = (grp = egid (cur k) \<or> in_groups (cur k) grp [0..<NGROUPS])"

section \<open>Process groups and sessions\<close>

text \<open>\<open>session_of_pgrp\<close> (\<open>kernel/exit.c\<close>) does not test the slot for null.\<close>

definition session_of_pgrp :: "int \<Rightarrow> kernel \<Rightarrow> int" where
  "session_of_pgrp g k =
     (case find (\<lambda>i. pgrp (ptask k i) = g) (rev [1..<NR_TASKS]) of
        Some i \<Rightarrow> session (ptask k i) | None \<Rightarrow> - 1)"

definition sys_setpgid :: "int \<Rightarrow> int \<Rightarrow> kernel \<Rightarrow> int \<times> kernel" where
  "sys_setpgid p0 g0 k =
     (let p = (if p0 = 0 then pid (cur k) else p0);
          g = (if g0 = 0 then pid (cur k) else g0)
      in if g < 0 then (- EINVAL, k)
         else case find (\<lambda>i. case task k i of None \<Rightarrow> False
                             | Some t \<Rightarrow> pid t = p \<and> (p_pptr t = current k \<or> i = current k))
                     [0..<NR_TASKS] of
                None \<Rightarrow> (- ESRCH, k)
              | Some i \<Rightarrow>
                  if leader (ptask k i) then (- EPERM, k)
                  else if session (ptask k i) \<noteq> session (cur k)
                    \<or> g \<noteq> p \<and> session_of_pgrp g k \<noteq> session (cur k)
                  then (- EPERM, k)
                  else (0, upd_task i (\<lambda>t. t\<lparr>pgrp := g\<rparr>) k))"

definition sys_getpgrp :: "kernel \<Rightarrow> int" where
  "sys_getpgrp k = pgrp (cur k)"

definition sys_setsid :: "kernel \<Rightarrow> int \<times> kernel" where
  "sys_setsid k =
     (if leader (cur k) \<and> \<not> suser k then (- EPERM, k)
      else let k1 = upd_cur (\<lambda>t. t\<lparr>leader := True, pgrp := pid t, session := pid t, t_tty := - 1\<rparr>) k
           in (pgrp (cur k1), k1))"

section \<open>Clock, memory limit, resources, masks\<close>

record sys_state =
  sk :: kernel
  tz_minuteswest :: u32
  tz_dsttime :: u32
  firsttime :: bool
  nodename :: "nat \<Rightarrow> u8"

definition CT_TO_SECS :: "u32 \<Rightarrow> u32" where "CT_TO_SECS x = x div HZ"
definition CT_TO_USECS :: "u32 \<Rightarrow> u32" where "CT_TO_USECS x = (x mod HZ) * 1000000 div HZ"

definition sys_time :: "bool \<Rightarrow> kernel \<Rightarrow> u32 \<times> u32 option" where
  "sys_time tloc k = (CURRENT_TIME k, if tloc then Some (CURRENT_TIME k) else None)"

definition sys_stime :: "u32 \<Rightarrow> kernel \<Rightarrow> int \<times> kernel" where
  "sys_stime t k =
     (if \<not> suser k then (- EPERM, k)
      else (0, k\<lparr>startup_time := t - jiffies k div HZ, jiffies_offset := 0\<rparr>))"

definition sys_times :: "bool \<Rightarrow> kernel \<Rightarrow> u32 \<times> u32 list" where
  "sys_times tbuf k =
     (jiffies k, if tbuf then [utime (cur k), stime (cur k), cutime (cur k), cstime (cur k)] else [])"

definition sys_brk :: "u32 \<Rightarrow> kernel \<Rightarrow> u32 \<times> kernel" where
  "sys_brk end_data_seg k =
     (let k1 = (if end_data_seg \<ge> end_code (cur k) \<and> end_data_seg < start_stack (cur k) - 16384
                then upd_cur (\<lambda>t. t\<lparr>brk := end_data_seg\<rparr>) k else k)
      in (brk (cur k1), k1))"

definition RLIM_NLIMITS :: int where "RLIM_NLIMITS = 6"

text \<open>A negative resource passes the test of both calls and indexes before the array.\<close>

definition sys_getrlimit :: "int \<Rightarrow> kernel \<Rightarrow> (int \<times> rlimit option) kres" where
  "sys_getrlimit resource k =
     (if resource \<ge> RLIM_NLIMITS then Inr (- EINVAL, None)
      else if resource < 0 then Inl OutOfBounds
      else Inr (0, Some (rlim (cur k) (nat resource))))"

definition sys_setrlimit :: "int \<Rightarrow> rlimit \<Rightarrow> kernel \<Rightarrow> (int \<times> kernel) kres" where
  "sys_setrlimit resource new k =
     (if resource \<ge> RLIM_NLIMITS then Inr (- EINVAL, k)
      else if resource < 0 then Inl OutOfBounds
      else
        let old = rlim (cur k) (nat resource)
        in if (sint (rlim_cur new) > sint (rlim_max old) \<or> sint (rlim_max new) > sint (rlim_max old))
              \<and> \<not> suser k
           then Inr (- EPERM, k)
           else Inr (0, upd_cur (\<lambda>t. t\<lparr>rlim := (rlim t)(nat resource := new)\<rparr>) k))"

text \<open>\<open>getrusage\<close>: the first four longs of the structure; the rest are zero.\<close>

definition sys_getrusage :: "int \<Rightarrow> kernel \<Rightarrow> int \<times> u32 list" where
  "sys_getrusage who k =
     (if who \<noteq> 0 \<and> who \<noteq> - 1 then (- EINVAL, [])
      else
        let (u, s) = (if who = 0 then (utime (cur k), stime (cur k)) else (cutime (cur k), cstime (cur k)))
        in (0, [CT_TO_SECS u, CT_TO_USECS u, CT_TO_SECS s, CT_TO_USECS s]))"

definition sys_gettimeofday :: "bool \<Rightarrow> bool \<Rightarrow> sys_state \<Rightarrow> (u32 \<times> u32) option \<times> (u32 \<times> u32) option" where
  "sys_gettimeofday tv tz s =
     (let k = sk s
      in (if tv then Some (startup_time k + CT_TO_SECS (jiffies k + jiffies_offset k),
                           CT_TO_USECS (jiffies k + jiffies_offset k)) else None,
          if tz then Some (tz_minuteswest s, tz_dsttime s) else None))"

definition adjust_clock :: "sys_state \<Rightarrow> sys_state" where
  "adjust_clock s = s\<lparr>sk := (sk s)\<lparr>startup_time := startup_time (sk s) + tz_minuteswest s * 60\<rparr>\<rparr>"

text \<open>\<open>usec * HZ / 1000000\<close> is signed arithmetic; \<open>jiffies % HZ\<close> is unsigned.\<close>

definition sys_settimeofday :: "(u32 \<times> u32) option \<Rightarrow> (u32 \<times> u32) option \<Rightarrow> sys_state \<Rightarrow> int \<times> sys_state" where
  "sys_settimeofday tv tz s =
     (if \<not> suser (sk s) then (- EPERM, s)
      else
        let s1 = (case tz of None \<Rightarrow> s
                  | Some (m, d) \<Rightarrow>
                      let s0 = s\<lparr>tz_minuteswest := m, tz_dsttime := d\<rparr>
                      in if firsttime s
                         then (if tv = None then adjust_clock (s0\<lparr>firsttime := False\<rparr>)
                               else s0\<lparr>firsttime := False\<rparr>)
                         else s0);
            k = sk s1
        in (0, case tv of None \<Rightarrow> s1
               | Some (sec, usec) \<Rightarrow>
                   s1\<lparr>sk := k\<lparr>startup_time := sec - jiffies k div HZ,
                             jiffies_offset := word_of_int (sint (usec * HZ) sdiv 1000000) - jiffies k mod HZ\<rparr>\<rparr>))"

definition sys_umask :: "u16 \<Rightarrow> kernel \<Rightarrow> u16 \<times> kernel" where
  "sys_umask m k = (umask (cur k), upd_cur (\<lambda>t. t\<lparr>umask := m AND 0x1FF\<rparr>) k)"

section \<open>The host name\<close>

definition MAXHOSTNAMELEN :: nat where "MAXHOSTNAMELEN = 8"

text \<open>The copy loop: \<open>i\<close> as it leaves it, and the name.\<close>

fun copy_name :: "(nat \<Rightarrow> u8) \<Rightarrow> nat \<Rightarrow> nat \<Rightarrow> (nat \<Rightarrow> u8) \<Rightarrow> nat \<times> (nat \<Rightarrow> u8)" where
  "copy_name name i 0 nn = (i, nn)"
| "copy_name name i (Suc n) nn =
     (if name i = 0 then (i, nn(i := 0)) else copy_name name (Suc i) n (nn(i := name i)))"

definition sys_sethostname :: "(nat \<Rightarrow> u8) \<Rightarrow> int \<Rightarrow> sys_state \<Rightarrow> int \<times> sys_state" where
  "sys_sethostname name len s =
     (if \<not> suser (sk s) then (- EPERM, s)
      else if len > int MAXHOSTNAMELEN then (- EINVAL, s)
      else
        let (i, nn) = copy_name name 0 (nat len) (nodename s)
        in (0, s\<lparr>nodename := if nn i \<noteq> 0
                 then nn((if i > MAXHOSTNAMELEN then MAXHOSTNAMELEN else i) := 0) else nn\<rparr>))"

section \<open>Unprivileged processes cannot gain ids\<close>

datatype cred_op = SetReuid int int | SetUid int | SetRegid int int | SetGid int

fun cred_step :: "kernel \<Rightarrow> cred_op \<Rightarrow> kernel" where
  "cred_step k (SetReuid r e) = snd (sys_setreuid r e k)"
| "cred_step k (SetUid u) = snd (sys_setuid u k)"
| "cred_step k (SetRegid r e) = snd (sys_setregid r e k)"
| "cred_step k (SetGid g) = snd (sys_setgid g k)"

definition uids :: "task \<Rightarrow> u16 set" where "uids t = {uid t, euid t, suid t}"
definition gids :: "task \<Rightarrow> u16 set" where "gids t = {gid t, egid t, sgid t}"

text \<open>The ids stay inside the sets \<open>U\<close> and \<open>G\<close>, and \<open>U\<close> does not hold the superuser.\<close>

definition cred_inv :: "u16 set \<Rightarrow> u16 set \<Rightarrow> kernel \<Rightarrow> bool" where
  "cred_inv U G k \<longleftrightarrow> 0 \<notin> U \<and> uids (cur k) \<subseteq> U \<and> gids (cur k) \<subseteq> G"

lemma word_of_int_eq: "uint (x :: u16) = i \<Longrightarrow> word_of_int i = x" "i = uint x \<Longrightarrow> word_of_int i = x"
  by auto

lemma suser_upd_cur: "suser (upd_cur f k) \<longleftrightarrow> euid (f (cur k)) = 0"
  by (simp add: suser_def)

lemma cred_step_inv:
  assumes "cred_inv U G k"
  shows "cred_inv U G (cred_step k ev)"
proof -
  from assms have n: "\<not> suser k" and u: "uids (cur k) \<subseteq> U" "gids (cur k) \<subseteq> G" "0 \<notin> U"
    by (auto simp: cred_inv_def suser_def uids_def)
  from u have m: "uid (cur k) \<in> U" "euid (cur k) \<in> U" "suid (cur k) \<in> U"
    "gid (cur k) \<in> G" "egid (cur k) \<in> G" "sgid (cur k) \<in> G" by (auto simp: uids_def gids_def)
  then have nz: "euid (cur k) \<noteq> 0" using u(3) by metis
  show ?thesis
    using n m u(3) nz
    by (cases ev)
       (auto simp: cred_inv_def uids_def gids_def sys_setreuid_def sys_setuid_def sys_setregid_def
          sys_setgid_def Let_def suser_upd_cur dest: word_of_int_eq)
qed

interpretation creds: transition_system cred_step "cred_inv U G" for U G
  by unfold_locales (rule cred_step_inv)

lemma current_cred_step [simp]: "current (cred_step k ev) = current k"
  by (cases ev) (auto simp: sys_setreuid_def sys_setuid_def sys_setregid_def sys_setgid_def Let_def)

lemma cred_step_other: "i \<noteq> current k \<Longrightarrow> task (cred_step k ev) i = task k i"
  by (cases ev) (auto simp: sys_setreuid_def sys_setuid_def sys_setregid_def sys_setgid_def Let_def
      task_upd_cur_other)

lemma unprivileged_run:
  assumes "0 \<notin> uids (cur k)"
  shows "uids (cur (foldl cred_step k ops)) \<subseteq> uids (cur k)"
    and "gids (cur (foldl cred_step k ops)) \<subseteq> gids (cur k)"
  using creds.run_inv[of "uids (cur k)" "gids (cur k)" k ops] assms
  by (auto simp: cred_inv_def)

text \<open>A superuser's \<open>setuid\<close> to another user cannot be undone.\<close>

lemma setuid_drops_for_good:
  assumes "suser k" and "(word_of_int u :: u16) \<noteq> 0"
  shows "uids (cur (foldl cred_step (snd (sys_setuid u k)) ops)) = {word_of_int u}"
proof -
  let ?k = "snd (sys_setuid u k)"
  have s: "uids (cur ?k) = {word_of_int u}" using assms(1) by (simp add: sys_setuid_def uids_def)
  have "uids (cur (foldl cred_step ?k ops)) \<subseteq> {word_of_int u}"
    using unprivileged_run(1)[of ?k ops] assms(2) s by auto
  moreover have "uids (cur (foldl cred_step ?k ops)) \<noteq> {}" by (simp add: uids_def)
  ultimately show ?thesis by blast
qed

section \<open>Errors leave the ids alone, except in one case\<close>

lemma setreuid_error:
  assumes "fst (sys_setreuid r e k) \<noteq> 0"
  shows "cur (snd (sys_setreuid r e k)) = cur k"
proof -
  let ?k1 = "if r > 0 then upd_cur (\<lambda>t. t\<lparr>uid := word_of_int r\<rparr>) k else k"
  let ?bad = "r > 0 \<and> \<not> (uint (euid (cur k)) = r \<or> uint (uid (cur k)) = r \<or> suser k)"
  let ?ok = "uint (uid (cur k)) = e \<or> uint (euid (cur ?k1)) = e \<or> suser ?k1"
  have d: "sys_setreuid r e k = (if ?bad then (- EPERM, k)
      else if e > 0 then if ?ok
                then (0, upd_cur (\<lambda>t. t\<lparr>euid := word_of_int e, suid := word_of_int e\<rparr>) ?k1)
                else (- EPERM, upd_cur (\<lambda>t. t\<lparr>uid := uid (cur k)\<rparr>) ?k1)
           else (0, ?k1))" unfolding sys_setreuid_def Let_def ..
  consider (bad) "?bad" | (good) "\<not> ?bad" "e > 0" "?ok" | (undo) "\<not> ?bad" "e > 0" "\<not> ?ok"
    | (no) "\<not> ?bad" "\<not> e > 0" by blast
  then show ?thesis
  proof cases
    case bad
    then show ?thesis unfolding d by simp
  next
    case good
    have "sys_setreuid r e k
      = (0, upd_cur (\<lambda>t. t\<lparr>euid := word_of_int e, suid := word_of_int e\<rparr>) ?k1)"
      unfolding d if_not_P[OF good(1)] if_P[OF good(2)] if_P[OF good(3)] ..
    with assms show ?thesis by simp
  next
    case undo
    have "sys_setreuid r e k = (- EPERM, upd_cur (\<lambda>t. t\<lparr>uid := uid (cur k)\<rparr>) ?k1)"
      unfolding d if_not_P[OF undo(1)] if_P[OF undo(2)] if_not_P[OF undo(3)] ..
    then have "cur (snd (sys_setreuid r e k)) = (cur ?k1)\<lparr>uid := uid (cur k)\<rparr>" by simp
    then show ?thesis by (cases "cur k") simp
  next
    case no
    have "sys_setreuid r e k = (0, ?k1)" unfolding d if_not_P[OF no(1)] if_not_P[OF no(2)] ..
    with assms show ?thesis by simp
  qed
qed

lemma setregid_error:
  assumes "fst (sys_setregid r e k) \<noteq> 0"
  shows "cur (snd (sys_setregid r e k)) = cur k"
proof -
  let ?k1 = "if r > 0 then upd_cur (\<lambda>t. t\<lparr>gid := word_of_int r\<rparr>) k else k"
  let ?bad = "r > 0 \<and> \<not> (uint (gid (cur k)) = r \<or> suser k)"
  let ?ok = "uint (gid (cur ?k1)) = e \<or> uint (egid (cur ?k1)) = e \<or> suser ?k1"
  have d: "sys_setregid r e k = (if ?bad then (- EPERM, k)
      else if e > 0 then if ?ok
                then (0, upd_cur (\<lambda>t. t\<lparr>egid := word_of_int e, sgid := word_of_int e\<rparr>) ?k1)
                else (- EPERM, ?k1)
           else (0, ?k1))" unfolding sys_setregid_def Let_def ..
  consider (bad) "?bad" | (good) "\<not> ?bad" "e > 0" "?ok" | (undo) "\<not> ?bad" "e > 0" "\<not> ?ok"
    | (no) "\<not> ?bad" "\<not> e > 0" by blast
  then show ?thesis
  proof cases
    case bad
    then show ?thesis unfolding d by simp
  next
    case good
    have "sys_setregid r e k
      = (0, upd_cur (\<lambda>t. t\<lparr>egid := word_of_int e, sgid := word_of_int e\<rparr>) ?k1)"
      unfolding d if_not_P[OF good(1)] if_P[OF good(2)] if_P[OF good(3)] ..
    with assms show ?thesis by simp
  next
    case undo
    have s: "sys_setregid r e k = (- EPERM, ?k1)" unfolding d if_not_P[OF undo(1)] if_P[OF undo(2)] if_not_P[OF undo(3)] ..
    have "\<not> suser ?k1" using undo(3) by blast
    then have "\<not> suser k" by (simp add: suser_def split: if_splits)
    then have "r > 0 \<Longrightarrow> r = uint (gid (cur k))" using undo(1) by simp
    then have "cur ?k1 = cur k" by (cases "cur k") auto
    then show ?thesis by (simp add: s)
  next
    case no
    have "sys_setregid r e k = (0, ?k1)" unfolding d if_not_P[OF no(1)] if_not_P[OF no(2)] ..
    with assms show ?thesis by simp
  qed
qed

text \<open>
  An unprivileged process can make its effective user id its real one, but \<open>setregid\<close> has no such
  case: the real group can only be set to itself.
\<close>

lemma setreuid_real_from_effective:
  assumes "euid (cur k) \<noteq> 0"
  shows "sys_setreuid (uint (euid (cur k))) 0 k = (0, upd_cur (\<lambda>t. t\<lparr>uid := euid t\<rparr>) k)"
proof -
  have "0 < uint (euid (cur k))" using assms by (metis uint_0_iff uint_nonnegative le_less)
  then show ?thesis by (simp add: sys_setreuid_def Let_def upd_cur_def cur_def ptask_def upd_task_def split: option.splits)
qed

lemma setregid_real_fixed:
  assumes "\<not> suser k" and "0 < r" and "r \<noteq> uint (gid (cur k))"
  shows "sys_setregid r e k = (- EPERM, k)"
  using assms by (simp add: sys_setregid_def)

section \<open>Groups\<close>

text \<open>The groups a task is in, up to the first \<open>NOGROUP\<close>.\<close>

definition group_list :: "task \<Rightarrow> int list" where
  "group_list t = takeWhile (\<lambda>g. g \<noteq> NOGROUP) (map (groups t) [0..<NGROUPS])"

lemma in_groups_iff: "in_groups t g is \<longleftrightarrow> uint g \<in> set (takeWhile (\<lambda>g. g \<noteq> NOGROUP) (map (groups t) is))"
  by (induction "is") auto

lemma in_group_p_iff: "in_group_p g k \<longleftrightarrow> g = egid (cur k) \<or> uint g \<in> set (group_list (cur k))"
  by (simp add: in_group_p_def group_list_def in_groups_iff)

lemma foldl_fun_upd:
  "distinct is \<Longrightarrow> foldl (\<lambda>gs i. gs(i := f i)) gs is = (\<lambda>i. if i \<in> set is then f i else gs i)"
  by (induction "is" arbitrary: gs) (auto simp: fun_eq_iff)

lemma takeWhile_map_upt:
  assumes "n \<le> N" and "\<And>i. i < n \<Longrightarrow> f i \<noteq> x" and "n < N \<Longrightarrow> f n = x"
  shows "takeWhile (\<lambda>g. g \<noteq> x) (map f [0..<N]) = map f [0..<n]"
proof -
  have "map f [0..<N] = map f [0..<n] @ map f [n..<N]"
    using assms(1) by (metis le_add_diff_inverse map_append upt_add_eq_append zero_le)
  moreover have "takeWhile (\<lambda>g. g \<noteq> x) (map f [n..<N]) = []"
    using assms(3) by (cases "n < N") (simp_all add: upt_conv_Cons)
  moreover have "takeWhile (\<lambda>g. g \<noteq> x) (map f [0..<n] @ map f [n..<N])
      = map f [0..<n] @ takeWhile (\<lambda>g. g \<noteq> x) (map f [n..<N])"
  proof (rule takeWhile_append2)
    fix y assume "y \<in> set (map f [0..<n])"
    then obtain i where "i < n" "y = f i" by auto
    with assms(2)[of i] show "y \<noteq> x" by simp
  qed
  ultimately show ?thesis by simp
qed

lemma setgroups_list:
  assumes "suser k" and "n \<le> NGROUPS" and "sys_setgroups (int n) gl k = (r, k')"
  shows "r = 0" and "group_list (cur k') = map (\<lambda>i. uint (gl i)) [0..<n]"
proof -
  let ?gs = "\<lambda>i. if i < n then uint (gl i) else groups (cur k) i"
  have g: "foldl (\<lambda>gs i. gs(i := uint (gl i))) (groups (cur k)) [0..<n] = ?gs"
    by (subst foldl_fun_upd) auto
  from assms have k': "k' = upd_cur (\<lambda>t. t\<lparr>groups := if n < NGROUPS then ?gs(n := NOGROUP) else ?gs\<rparr>) k"
    and "r = 0" using g by (auto simp: sys_setgroups_def Let_def)
  then show "r = 0" by blast
  have "uint (gl i) \<noteq> NOGROUP" for i
    using uint_nonnegative[of "gl i"] unfolding NOGROUP_def by linarith
  then have "group_list (cur k') = map (groups (cur k')) [0..<n]"
    unfolding group_list_def k' using assms(2) by (intro takeWhile_map_upt) auto
  then show "group_list (cur k') = map (\<lambda>i. uint (gl i)) [0..<n]" by (simp add: k')
qed

lemma getgroups_loop_spec:
  assumes "sz = 0 \<or> (\<forall>i \<in> set (take (length (takeWhile (\<lambda>g. g \<noteq> NOGROUP) (map (groups t) is))) is). int i < sz)"
  shows "getgroups_loop t sz is n out =
    (int (n + length (takeWhile (\<lambda>g. g \<noteq> NOGROUP) (map (groups t) is))),
     if sz = 0 then out else out @ map word_of_int (takeWhile (\<lambda>g. g \<noteq> NOGROUP) (map (groups t) is)))"
  using assms by (induction "is" arbitrary: n out) (auto split: if_splits)

text \<open>What the superuser sets with \<open>setgroups\<close>, \<open>getgroups\<close> reports.\<close>

lemma groups_roundtrip:
  assumes "suser k" and "n \<le> NGROUPS" and "sys_setgroups (int n) gl k = (r, k')" and "n \<noteq> 0"
  shows "sys_getgroups (int n) k' = (int n, map gl [0..<n])"
proof -
  note l = setgroups_list(2)[OF assms(1-3), unfolded group_list_def]
  have "take n [0..<NGROUPS] = [0..<n]" using assms(2) by (simp add: take_upt)
  then show ?thesis
    unfolding sys_getgroups_def
    by (subst getgroups_loop_spec) (simp_all add: l assms(4) comp_def)
qed

section \<open>Limits, host name, clock\<close>

datatype limit_op = SetLimit int rlimit

fun limit_step :: "kernel \<Rightarrow> limit_op \<Rightarrow> kernel" where
  "limit_step k (SetLimit r l) = (case sys_setrlimit r l k of Inr (_, k') \<Rightarrow> k' | Inl _ \<Rightarrow> k)"

definition limit_inv :: "(nat \<Rightarrow> int) \<Rightarrow> kernel \<Rightarrow> bool" where
  "limit_inv m k \<longleftrightarrow> \<not> suser k \<and> (\<forall>i. sint (rlim_max (rlim (cur k) i)) \<le> m i)"

interpretation limits: transition_system limit_step "limit_inv m" for m
proof
  fix k e assume "limit_inv m k"
  then show "limit_inv m (limit_step k e)"
  proof (cases e)
    case (SetLimit r l)
    show ?thesis
    proof (cases "0 \<le> r \<and> r < RLIM_NLIMITS \<and> sint (rlim_max l) \<le> sint (rlim_max (rlim (cur k) (nat r)))
        \<and> sint (rlim_cur l) \<le> sint (rlim_max (rlim (cur k) (nat r)))")
      case True
      with \<open>limit_inv m k\<close> SetLimit show ?thesis
        using order_trans[of "sint (rlim_max l)" "sint (rlim_max (rlim (cur k) (nat r)))" "m (nat r)"]
        by (auto simp: limit_inv_def sys_setrlimit_def Let_def suser_upd_cur suser_def)
    next
      case False
      then have "limit_step k e = k"
        using \<open>limit_inv m k\<close> SetLimit by (auto simp: limit_inv_def sys_setrlimit_def Let_def)
      with \<open>limit_inv m k\<close> show ?thesis by simp
    qed
  qed
qed

lemma hard_limits_only_fall:
  assumes "\<not> suser k"
  shows "sint (rlim_max (rlim (cur (foldl limit_step k ops)) i)) \<le> sint (rlim_max (rlim (cur k) i))"
  using limits.run_inv[of "\<lambda>i. sint (rlim_max (rlim (cur k) i))" k ops] assms
  by (simp add: limit_inv_def)

text \<open>The C string at \<open>nn\<close>, at most \<open>m\<close> bytes.\<close>

definition cstr :: "(nat \<Rightarrow> u8) \<Rightarrow> nat \<Rightarrow> u8 list" where
  "cstr nn m = takeWhile (\<lambda>b. b \<noteq> 0) (map nn [0..<m])"

lemma copy_name_spec:
  assumes "copy_name name i n nn = (j, nn')"
  shows "i \<le> j \<and> j \<le> i + n \<and> (\<forall>m. m < i \<or> j < m \<longrightarrow> nn' m = nn m)
    \<and> (\<forall>m. i \<le> m \<and> m < j \<longrightarrow> nn' m = name m \<and> name m \<noteq> 0)
    \<and> (j < i + n \<longrightarrow> name j = 0 \<and> nn' j = 0) \<and> (j = i + n \<longrightarrow> nn' j = nn j)"
  using assms
proof (induction n arbitrary: i nn)
  case 0
  then show ?case by auto
next
  case (Suc n)
  show ?case
  proof (cases "name i = 0")
    case True
    with Suc.prems show ?thesis by auto
  next
    case False
    with Suc.prems have "copy_name name (Suc i) n (nn(i := name i)) = (j, nn')" by simp
    from Suc.IH[OF this] False have ih: "Suc i \<le> j" "j \<le> Suc i + n"
      "\<forall>m. m < Suc i \<or> j < m \<longrightarrow> nn' m = (nn(i := name i)) m"
      "\<forall>m. Suc i \<le> m \<and> m < j \<longrightarrow> nn' m = name m \<and> name m \<noteq> 0"
      "j < Suc i + n \<longrightarrow> name j = 0 \<and> nn' j = 0" "j = Suc i + n \<longrightarrow> nn' j = (nn(i := name i)) j"
      by blast+
    have "nn' m = name m \<and> name m \<noteq> 0" if "i \<le> m" "m < j" for m
      using ih(3,4) that False by (cases "m = i") auto
    with ih show ?thesis by auto
  qed
qed

text \<open>
  After a successful \<open>sethostname\<close> the name is the given one up to its first zero byte, it is
  terminated inside the nine bytes of the field, and nothing after the terminator moved.
\<close>

lemma sethostname_spec:
  assumes "suser (sk s)" and "0 \<le> len" and "len \<le> 8"
  shows "fst (sys_sethostname name len s) = 0"
    and "cstr (nodename (snd (sys_sethostname name len s))) 9 = cstr name (nat len)"
proof -
  obtain j nn where c: "copy_name name 0 (nat len) (nodename s) = (j, nn)" by fastforce
  note sp = copy_name_spec[OF c]
  let ?nn = "if nn j \<noteq> 0 then nn((if j > MAXHOSTNAMELEN then MAXHOSTNAMELEN else j) := 0) else nn"
  have r: "sys_sethostname name len s = (0, s\<lparr>nodename := ?nn\<rparr>)"
    using assms c by (simp add: sys_sethostname_def MAXHOSTNAMELEN_def)
  then show "fst (sys_sethostname name len s) = 0" by simp
  have j: "j \<le> nat len" "j \<le> 8" using sp assms(3) by auto
  have a: "takeWhile (\<lambda>b. b \<noteq> 0) (map ?nn [0..<9]) = map ?nn [0..<j]"
    by (rule takeWhile_map_upt) (use sp j in \<open>auto simp: MAXHOSTNAMELEN_def\<close>)
  have b: "map ?nn [0..<j] = map name [0..<j]"
    using sp j by (auto simp: MAXHOSTNAMELEN_def)
  have c: "takeWhile (\<lambda>b. b \<noteq> 0) (map name [0..<nat len]) = map name [0..<j]"
    by (rule takeWhile_map_upt) (use sp j in auto)
  have "nodename (snd (sys_sethostname name len s)) = ?nn" unfolding r by simp
  then show "cstr (nodename (snd (sys_sethostname name len s))) 9 = cstr name (nat len)"
    unfolding cstr_def by (simp only: trans[OF a trans[OF b c[symmetric]]])
qed

text \<open>The time of day set reads back, microseconds rounded down to a tick.\<close>

lemma timeofday_roundtrip:
  assumes su: "suser (sk s)" and us: "unat usec < 1000000" and j: "unat (jiffies (sk s)) < 2 ^ 32 - 200"
  shows "fst (sys_gettimeofday True tz (snd (sys_settimeofday (Some (sec, usec)) None s)))
    = Some (sec, usec div 10000 * 10000)"
proof -
  let ?j = "jiffies (sk s)"
  let ?q = "word_of_int (sint (usec * HZ) sdiv 1000000) :: u32"
  have uh: "unat (usec * HZ) = 100 * unat usec" using us by (simp add: HZ_def unat_word_ariths)
  then have "sint (usec * HZ) = int (100 * unat usec)"
    using us by (subst sint_small) simp_all
  moreover have "int N sdiv 1000000 = int (N div 1000000)" for N
    by (cases "N = 0") (simp_all add: signed_divide_int_def zdiv_int)
  moreover have "100 * unat usec div 1000000 = unat usec div 10000" by simp
  ultimately have "sint (usec * HZ) sdiv 1000000 = int (unat usec div 10000)" by metis
  then have q: "unat ?q = unat usec div 10000"
    using us by (simp add: unat_of_nat flip: of_nat_div)
  have d: "?j - ?j mod HZ = ?j div HZ * HZ"
    by (metis add_diff_cancel_right' div_mult_mod_eq)
  have J: "unat (?j div HZ * HZ) = unat ?j div 100 * 100"
    using j unat_u32_less[of ?j] by (simp add: HZ_def unat_word_ariths unat_div)
  let ?x = "?j + (?q - ?j mod HZ)"
  have "?x = (?j - ?j mod HZ) + ?q" by (simp only: algebra_simps)
  also have "\<dots> = ?j div HZ * HZ + ?q" by (simp only: d)
  finally have e: "?x = ?j div HZ * HZ + ?q" .
  have "unat (?j div HZ * HZ + ?q) = unat ?j div 100 * 100 + unat usec div 10000"
    using us j by (simp add: unat_word_ariths(1) J q)
  then have x: "unat ?x = unat ?j div 100 * 100 + unat usec div 10000" by (simp only: e)
  have "unat usec div 10000 < 100" using us by auto
  then have dm: "unat ?x div 100 = unat ?j div 100" "unat ?x mod 100 = unat usec div 10000"
    unfolding x by simp_all
  define y where "y = ?x"
  have dy: "unat y div 100 = unat ?j div 100" "unat y mod 100 = unat usec div 10000"
    unfolding y_def by (rule dm)+
  have "y div HZ = ?j div HZ" by (rule word_unat_eq_iff[THEN iffD2]) (simp add: HZ_def unat_div dy)
  moreover have "(y mod HZ) * 1000000 div HZ = usec div 10000 * 10000"
    by (rule word_unat_eq_iff[THEN iffD2])
       (use us in \<open>simp add: HZ_def unat_div unat_mod unat_word_ariths dy\<close>)
  moreover have "fst (sys_gettimeofday True tz (snd (sys_settimeofday (Some (sec, usec)) None s)))
      = Some (sec - ?j div HZ + y div HZ, (y mod HZ) * 1000000 div HZ)"
    using su by (simp add: sys_settimeofday_def sys_gettimeofday_def CT_TO_SECS_def CT_TO_USECS_def Let_def y_def)
  ultimately show ?thesis by simp
qed

end
