(* ===== verification/Signal.thy ===== *)
theory Signal
  imports Sched
begin

text \<open>
  Signals: the masks and handlers of \<open>kernel/signal.c\<close>, the frame \<open>do_signal\<close> builds on the user
  stack, and sending (\<open>send_sig\<close> and the \<open>kill\<close> family of \<open>kernel/exit.c\<close>). Signal \<open>sig\<close> is bit
  \<open>sig - 1\<close> of a mask. Signal numbers are the C ints; a number outside 1..32 indexes outside
  \<open>sigaction\<close>.
\<close>

section \<open>Masks and handlers\<close>

definition sys_sgetmask :: "kernel \<Rightarrow> u32" where
  "sys_sgetmask k = blocked (cur k)"

definition sys_ssetmask :: "u32 \<Rightarrow> kernel \<Rightarrow> u32 \<times> kernel" where
  "sys_ssetmask newmask k =
     (blocked (cur k),
      upd_cur (\<lambda>t. t\<lparr>blocked := newmask AND NOT (sig_bit SIGKILL) AND NOT (sig_bit SIGSTOP)\<rparr>) k)"

definition sys_sigpending :: "kernel \<Rightarrow> u32" where
  "sys_sigpending k = blocked (cur k) AND signal (cur k)"

text \<open>
  \<open>sigsuspend\<close>: the arguments \<open>restart\<close> and \<open>old_mask\<close> live on the user stack, so the call is a
  function from and to them. \<open>None\<close>: \<open>schedule\<close> does not return within the fuel.
\<close>

definition sys_sigsuspend :: "nat \<Rightarrow> bool \<times> u32 \<Rightarrow> u32 \<Rightarrow> kernel \<Rightarrow> (int \<times> (bool \<times> u32) \<times> kernel) option" where
  "sys_sigsuspend fuel args newset k =
     (let (restart, old_mask) = args
      in if restart then Some (- EINTR, (restart, old_mask), upd_cur (\<lambda>t. t\<lparr>blocked := old_mask\<rparr>) k)
         else map_option (\<lambda>k'. (- ERESTARTNOINTR, (True, blocked (cur k)), k'))
                (sys_pause fuel (upd_cur (\<lambda>t. t\<lparr>blocked := newset\<rparr>) k)))"

definition bad_signum :: "int \<Rightarrow> bool" where
  "bad_signum s \<longleftrightarrow> s < 1 \<or> s > 32 \<or> s = int SIGKILL \<or> s = int SIGSTOP"

definition sys_signal :: "int \<Rightarrow> u32 \<Rightarrow> u32 \<Rightarrow> kernel \<Rightarrow> u32 \<times> kernel" where
  "sys_signal signum handler restorer k =
     (if bad_signum signum then (word_of_int (- EINVAL), k)
      else
        let n = nat (signum - 1);
            tmp = \<lparr>sa_handler = handler, sa_mask = 0, sa_flags = SA_ONESHOT OR SA_NOMASK,
                   sa_restorer = restorer\<rparr>
        in (sa_handler (sigact (cur k) n), upd_cur (\<lambda>t. t\<lparr>sigact := (sigact t)(n := tmp)\<rparr>) k))"

text \<open>\<open>action\<close> is the structure read from the user; the old one is returned for \<open>oldaction\<close>.\<close>

definition sys_sigaction :: "int \<Rightarrow> sigaction \<Rightarrow> kernel \<Rightarrow> int \<times> sigaction option \<times> kernel" where
  "sys_sigaction signum action k =
     (if bad_signum signum then (- EINVAL, None, k)
      else
        let n = nat (signum - 1);
            old = sigact (cur k) n;
            new = action\<lparr>sa_mask := if sa_flags action AND SA_NOMASK \<noteq> 0 then 0
                                   else sa_mask action OR sig_bit (nat signum)\<rparr>
        in (0, Some old, upd_cur (\<lambda>t. t\<lparr>sigact := (sigact t)(n := new)\<rparr>) k))"

section \<open>do_signal\<close>

record regs =
  r_eax :: u32
  r_ecx :: u32
  r_edx :: u32
  r_orig_eax :: u32
  r_eip :: u32
  r_eflags :: u32
  r_esp :: u32

text \<open>
  The outcome: go on to the next signal (return 1), enter a handler (return 0, the words written
  from the new \<open>esp\<close> upwards), or the process exits with a code.
\<close>

datatype outcome = Next_signal regs kernel | Enter_handler "u32 list" regs kernel | Do_exit nat

text \<open>The restart of an interrupted system call: \<open>old_eip\<close> and the changed registers.\<close>

definition restart_call :: "nat \<Rightarrow> sigaction \<Rightarrow> regs \<Rightarrow> u32 \<times> regs" where
  "restart_call signr sa r =
     (if r_orig_eax r \<noteq> - 1
         \<and> (r_eax r = word_of_int (- ERESTARTSYS) \<or> r_eax r = word_of_int (- ERESTARTNOINTR))
      then if r_eax r = word_of_int (- ERESTARTSYS)
              \<and> (sa_flags sa AND SA_INTERRUPT \<noteq> 0 \<or> signr < SIGCONT \<or> signr > SIGTTOU)
           then (r_eip r, r\<lparr>r_eax := word_of_int (- EINTR)\<rparr>)
           else (r_eip r - 2, r\<lparr>r_eax := r_orig_eax r, r_eip := r_eip r - 2\<rparr>)
      else (r_eip r, r))"

definition do_signal :: "nat \<Rightarrow> regs \<Rightarrow> kernel \<Rightarrow> outcome" where
  "do_signal signr r k =
     (let sa = sigact (cur k) (signr - 1);
          (old_eip, r1) = restart_call signr sa r
      in if sa_handler sa = 1 then Next_signal r1 k
         else if sa_handler sa = 0
         then if signr = SIGCONT \<or> signr = SIGCHLD then Next_signal r1 k
              else if signr \<in> {SIGSTOP, SIGTSTP, SIGTTIN, SIGTTOU}
              then let k1 = upd_cur (\<lambda>t. t\<lparr>t_state := TASK_STOPPED, exit_code := of_nat signr\<rparr>) k;
                       par = p_pptr (cur k)
                   in Next_signal r1
                        (if sa_flags (sigact (ptask k1 par) (SIGCHLD - 1)) AND SA_NOCLDSTOP = 0
                         then upd_task par (\<lambda>t. t\<lparr>signal := signal t OR sig_bit SIGCHLD\<rparr>) k1 else k1)
              else Do_exit signr
         else
           let k1 = (if sa_flags sa AND SA_ONESHOT \<noteq> 0
                     then upd_cur (\<lambda>t. t\<lparr>sigact := (sigact t)(signr - 1 := sa\<lparr>sa_handler := 0\<rparr>)\<rparr>) k
                     else k);
               longs = (if sa_flags sa AND SA_NOMASK \<noteq> 0 then 7 else 8 :: u32);
               frame = [sa_restorer sa, of_nat signr]
                 @ (if sa_flags sa AND SA_NOMASK = 0 then [blocked (cur k)] else [])
                 @ [r_eax r1, r_ecx r, r_edx r, r_eflags r, old_eip]
           in Enter_handler frame (r1\<lparr>r_eip := sa_handler sa, r_esp := r_esp r - longs * 4\<rparr>)
                (upd_cur (\<lambda>t. t\<lparr>blocked := blocked t OR sa_mask sa\<rparr>) k1))"

section \<open>Sending\<close>

text \<open>\<open>send_sig\<close> to the task in slot \<open>i\<close>; an empty slot is the null pointer it tests for.\<close>

definition STOP_SIGS :: u32 where
  "STOP_SIGS = sig_bit SIGSTOP OR sig_bit SIGTSTP OR sig_bit SIGTTIN OR sig_bit SIGTTOU"

definition post_sig :: "nat \<Rightarrow> task \<Rightarrow> task" where
  "post_sig sig t =
     (let t1 = (if sig = SIGKILL \<or> sig = SIGCONT
                then t\<lparr>t_state := (if t_state t = TASK_STOPPED then TASK_RUNNING else t_state t),
                       exit_code := 0, signal := signal t AND NOT STOP_SIGS\<rparr>
                else t)
      in if sa_handler (sigact t1 (sig - 1)) = 1 then t1
         else let t2 = (if SIGSTOP \<le> sig \<and> sig \<le> SIGTTOU
                        then t1\<lparr>signal := signal t1 AND NOT (sig_bit SIGCONT)\<rparr> else t1)
              in t2\<lparr>signal := signal t2 OR sig_bit sig\<rparr>)"

definition send_sig :: "int \<Rightarrow> nat \<Rightarrow> bool \<Rightarrow> kernel \<Rightarrow> (int \<times> kernel) kres" where
  "send_sig sig i priv k =
     (case task k i of
        None \<Rightarrow> Inr (- EINVAL, k)
      | Some t \<Rightarrow>
          if \<not> priv \<and> euid (cur k) \<noteq> euid t \<and> \<not> suser k then Inr (- EPERM, k)
          else if sig < 1 \<or> sig > 32 then Inl OutOfBounds
          else Inr (0, upd_task i (post_sig (nat sig)) k))"

text \<open>
  The loop of \<open>kill_pg\<close>: \<open>retval\<close> and whether one was found. An empty slot has the process group
  that \<open>null_task\<close> reads as.
\<close>

fun kill_pg_loop :: "int \<Rightarrow> int \<Rightarrow> bool \<Rightarrow> nat list \<Rightarrow> int \<times> bool \<Rightarrow> kernel \<Rightarrow> ((int \<times> bool) \<times> kernel) kres" where
  "kill_pg_loop g sig priv [] st k = Inr (st, k)"
| "kill_pg_loop g sig priv (i # is) (retval, found) k =
     (if pgrp (ptask k i) = g
      then kbind (send_sig sig i priv k)
             (\<lambda>(err, k1). kill_pg_loop g sig priv is
                (if err \<noteq> 0 then (err, found) else (retval, True)) k1)
      else kill_pg_loop g sig priv is (retval, found) k)"

definition kill_pg :: "int \<Rightarrow> int \<Rightarrow> bool \<Rightarrow> kernel \<Rightarrow> (int \<times> kernel) kres" where
  "kill_pg g sig priv k =
     (if sig < 1 \<or> sig > 32 \<or> g \<le> 0 then Inr (- EINVAL, k)
      else kbind (kill_pg_loop g sig priv task_slots (- ESRCH, False) k)
             (\<lambda>((retval, found), k'). Inr (if found then 0 else retval, k')))"

definition kill_proc :: "int \<Rightarrow> int \<Rightarrow> bool \<Rightarrow> kernel \<Rightarrow> (int \<times> kernel) kres" where
  "kill_proc p sig priv k =
     (if sig < 1 \<or> sig > 32 then Inr (- EINVAL, k)
      else case find (\<lambda>i. pid (ptask k i) = p) task_slots of
             None \<Rightarrow> Inr (- ESRCH, k)
           | Some i \<Rightarrow> send_sig sig i priv k)"

fun kill_all_loop :: "int \<Rightarrow> nat list \<Rightarrow> int \<Rightarrow> kernel \<Rightarrow> (int \<times> kernel) kres" where
  "kill_all_loop sig [] retval k = Inr (retval, k)"
| "kill_all_loop sig (i # is) retval k =
     kbind (send_sig sig i False k)
       (\<lambda>(err, k1). kill_all_loop sig is (if err \<noteq> 0 then err else retval) k1)"

definition sys_kill :: "int \<Rightarrow> int \<Rightarrow> kernel \<Rightarrow> (int \<times> kernel) kres" where
  "sys_kill p sig k =
     (if p = 0 then kill_pg (pid (cur k)) sig False k
      else if p = - 1 then kill_all_loop sig task_slots 0 k
      else if p < 0 then kill_pg (- p) sig False k
      else kill_proc p sig False k)"

section \<open>Signals that cannot be caught, blocked or lost\<close>

text \<open>\<open>ssetmask\<close> never blocks \<open>SIGKILL\<close> or \<open>SIGSTOP\<close>.\<close>

lemma ssetmask_unblockable:
  "\<not> bit (blocked (cur (snd (sys_ssetmask m k)))) (SIGKILL - 1)"
  "\<not> bit (blocked (cur (snd (sys_ssetmask m k)))) (SIGSTOP - 1)"
  unfolding sys_ssetmask_def snd_conv cur_upd_cur by (simp_all add: bit_and_iff bit_not_iff bit_sig_bit SIGKILL_def SIGSTOP_def)

datatype sigop = Signal int u32 u32 | Sigaction int sigaction

fun sigop_step :: "kernel \<Rightarrow> sigop \<Rightarrow> kernel" where
  "sigop_step k (Signal n h r) = snd (sys_signal n h r k)"
| "sigop_step k (Sigaction n a) = snd (snd (sys_sigaction n a k))"

definition default_kill_stop :: "kernel \<Rightarrow> bool" where
  "default_kill_stop k \<longleftrightarrow> sa_handler (sigact (cur k) (SIGKILL - 1)) = 0
     \<and> sa_handler (sigact (cur k) (SIGSTOP - 1)) = 0"

interpretation handlers: transition_system sigop_step default_kill_stop
proof
  fix k e assume "default_kill_stop k"
  then show "default_kill_stop (sigop_step k e)"
    by (cases e) (auto simp: default_kill_stop_def sys_signal_def sys_sigaction_def bad_signum_def
        Let_def SIGKILL_def SIGSTOP_def)
qed

text \<open>Stop signals and \<open>SIGCONT\<close> are never pending together.\<close>

definition job_ok :: "task \<Rightarrow> bool" where
  "job_ok t \<longleftrightarrow> \<not> (bit (signal t) (SIGCONT - 1) \<and> (\<exists>s \<in> {SIGSTOP, SIGTSTP, SIGTTIN, SIGTTOU}. bit (signal t) (s - 1)))"

lemma bit_u32_nat: "bit (w :: u32) n \<Longrightarrow> n < 32"
  using bit_imp_le_length[of w n] by simp

lemma bit_stop_sigs: "bit STOP_SIGS n \<longleftrightarrow> n \<in> {18, 19, 20, 21}"
  unfolding STOP_SIGS_def bit_or_iff bit_sig_bit
  by (auto simp: SIGSTOP_def SIGTSTP_def SIGTTIN_def SIGTTOU_def)

lemma post_sig_job_ok:
  assumes "job_ok t" and "1 \<le> sig" and "sig \<le> 32"
  shows "job_ok (post_sig sig t)"
proof -
  let ?t1 = "if sig = SIGKILL \<or> sig = SIGCONT
                then t\<lparr>t_state := (if t_state t = TASK_STOPPED then TASK_RUNNING else t_state t),
                       exit_code := 0, signal := signal t AND NOT STOP_SIGS\<rparr>
                else t"
  let ?t2 = "if SIGSTOP \<le> sig \<and> sig \<le> SIGTTOU
                        then ?t1\<lparr>signal := signal ?t1 AND NOT (sig_bit SIGCONT)\<rparr> else ?t1"
  have b1: "bit (signal ?t1) n \<longleftrightarrow> bit (signal t) n \<and> (sig = 9 \<or> sig = 18 \<longrightarrow> n \<notin> {18, 19, 20, 21})" for n
    by (auto simp: SIGKILL_def SIGCONT_def bit_and_iff bit_not_iff bit_stop_sigs dest: bit_u32_nat)
  have b2: "bit (signal ?t2) n \<longleftrightarrow> bit (signal ?t1) n \<and> (19 \<le> sig \<and> sig \<le> 22 \<longrightarrow> n \<noteq> 17)" for n
    by (auto simp: SIGSTOP_def SIGTTOU_def SIGCONT_def bit_and_iff bit_not_iff bit_sig_bit dest: bit_u32_nat)
  have d: "post_sig sig t = (if sa_handler (sigact ?t1 (sig - 1)) = 1 then ?t1
      else ?t2\<lparr>signal := signal ?t2 OR sig_bit sig\<rparr>)" unfolding post_sig_def Let_def ..
  have jt: "\<not> (bit (signal t) 17 \<and> (\<exists>n \<in> {18, 19, 20, 21}. bit (signal t) n))"
    using assms(1) by (auto simp: job_ok_def SIGCONT_def SIGSTOP_def SIGTSTP_def SIGTTIN_def SIGTTOU_def)
  have j: "job_ok u" if "\<not> (bit (signal u) 17 \<and> (\<exists>n \<in> {18, 19, 20, 21}. bit (signal u) n))" for u
    using that by (auto simp: job_ok_def SIGCONT_def SIGSTOP_def SIGTSTP_def SIGTTIN_def SIGTTOU_def)
  show ?thesis
  proof (cases "sa_handler (sigact ?t1 (sig - 1)) = 1")
    case True
    then have eq: "post_sig sig t = ?t1" unfolding d by (rule if_P)
    have "bit (signal (post_sig sig t)) n \<Longrightarrow> bit (signal t) n" for n
      unfolding eq b1 by blast
    with jt show ?thesis by (intro j) blast
  next
    case False
    then have e: "post_sig sig t = ?t2\<lparr>signal := signal ?t2 OR sig_bit sig\<rparr>" unfolding d by (rule if_not_P)
    have "bit (signal (post_sig sig t)) n \<longleftrightarrow> bit (signal ?t2) n \<or> n = sig - 1" for n
      using assms(3) unfolding e by (simp add: bit_or_iff bit_sig_bit) auto
    note bb = this[unfolded b2 b1]
    show ?thesis
    proof (rule j)
      show "\<not> (bit (signal (post_sig sig t)) 17 \<and> (\<exists>n \<in> {18, 19, 20, 21}. bit (signal (post_sig sig t)) n))"
        unfolding bb using jt assms(2) by auto
    qed
  qed
qed

definition all_job_ok :: "kernel \<Rightarrow> bool" where
  "all_job_ok k \<longleftrightarrow> (\<forall>i t. task k i = Some t \<longrightarrow> job_ok t)"

lemma send_sig_job_ok:
  "all_job_ok k \<Longrightarrow> send_sig sig i priv k = Inr (r, k') \<Longrightarrow> all_job_ok k'"
  by (auto simp: all_job_ok_def send_sig_def task_upd_task intro!: post_sig_job_ok
      split: option.splits if_splits)

lemma send_sig_dom: "send_sig sig i priv k = Inr (r, k') \<Longrightarrow> dom (task k') = dom (task k)"
proof -
  assume "send_sig sig i priv k = Inr (r, k')"
  then have "k' = k \<or> k' = upd_task i (post_sig (nat sig)) k"
    by (auto simp: send_sig_def split: option.splits if_splits)
  then show ?thesis by (metis dom_upd_task)
qed

lemma kill_pg_loop_job_ok:
  "all_job_ok k \<Longrightarrow> kill_pg_loop g sig priv is st k = Inr (st', k') \<Longrightarrow> all_job_ok k'"
proof (induction "is" arbitrary: st k)
  case Nil
  then show ?case by simp
next
  case (Cons i "is")
  obtain rv fd where st: "st = (rv, fd)" by fastforce
  show ?case
  proof (cases "pgrp (ptask k i) = g")
    case True
    with Cons.prems(2) obtain err k1 where s: "send_sig sig i priv k = Inr (err, k1)"
      and l: "kill_pg_loop g sig priv is (if err \<noteq> 0 then (err, fd) else (rv, True)) k1 = Inr (st', k')"
      by (auto simp: st kbind_Inr_iff)
    from Cons.IH[OF send_sig_job_ok[OF Cons.prems(1) s] l] show ?thesis .
  next
    case False
    with Cons.prems(2) have "kill_pg_loop g sig priv is st k = Inr (st', k')" by (simp add: st)
    from Cons.IH[OF Cons.prems(1) this] show ?thesis .
  qed
qed

lemma kill_all_loop_job_ok:
  "all_job_ok k \<Longrightarrow> kill_all_loop sig is r k = Inr (r', k') \<Longrightarrow> all_job_ok k'"
proof (induction "is" arbitrary: r k)
  case Nil
  then show ?case by simp
next
  case (Cons i "is")
  from Cons.prems(2) obtain err k1 where s: "send_sig sig i False k = Inr (err, k1)"
    and l: "kill_all_loop sig is (if err \<noteq> 0 then err else r) k1 = Inr (r', k')"
    by (auto simp: kbind_Inr_iff)
  from Cons.IH[OF send_sig_job_ok[OF Cons.prems(1) s] l] show ?case .
qed

lemma kill_pg_job_ok: "all_job_ok k \<Longrightarrow> kill_pg g sig priv k = Inr (r, k') \<Longrightarrow> all_job_ok k'"
  by (auto simp: kill_pg_def kbind_Inr_iff split: if_splits dest: kill_pg_loop_job_ok)

lemma sys_kill_job_ok:
  assumes "all_job_ok k" and "sys_kill p sig k = Inr (r, k')"
  shows "all_job_ok k'"
proof -
  have "all_job_ok k'" if "kill_proc q s pr k = Inr (r, k')" for q s pr
    using that assms(1) by (auto simp: kill_proc_def split: if_splits option.splits dest: send_sig_job_ok)
  then show ?thesis
    using assms by (auto simp: sys_kill_def split: if_splits intro: kill_pg_job_ok kill_all_loop_job_ok)
qed

text \<open>Only \<open>kill (- 1)\<close> can leave the table of handlers, by a signal number it does not check.\<close>

lemma send_sig_in_range: "1 \<le> sig \<Longrightarrow> sig \<le> 32 \<Longrightarrow> \<exists>r k'. send_sig sig i priv k = Inr (r, k')"
  by (auto simp: send_sig_def split: option.splits)

lemma kill_pg_loop_total: "1 \<le> sig \<Longrightarrow> sig \<le> 32 \<Longrightarrow> \<exists>st' k'. kill_pg_loop g sig priv is st k = Inr (st', k')"
proof (induction "is" arbitrary: st k)
  case (Cons i "is")
  obtain rv fd where st: "st = (rv, fd)" by fastforce
  obtain r k1 where "send_sig sig i priv k = Inr (r, k1)" using send_sig_in_range[OF Cons.prems] by blast
  with Cons.IH[OF Cons.prems] show ?case by (simp add: st)
qed simp

lemma kill_all_loop_total: "1 \<le> sig \<Longrightarrow> sig \<le> 32 \<Longrightarrow> \<exists>r' k'. kill_all_loop sig is r k = Inr (r', k')"
proof (induction "is" arbitrary: r k)
  case (Cons i "is")
  obtain e k1 where "send_sig sig i False k = Inr (e, k1)" using send_sig_in_range[OF Cons.prems] by blast
  with Cons.IH[OF Cons.prems] show ?case by simp
qed simp

lemma sys_kill_total:
  assumes "p \<noteq> - 1 \<or> 1 \<le> sig \<and> sig \<le> 32"
  shows "\<exists>r k'. sys_kill p sig k = Inr (r, k')"
proof -
  have g: "\<exists>r k'. kill_pg g sig False k = Inr (r, k')" for g
  proof (cases "sig < 1 \<or> sig > 32 \<or> g \<le> 0")
    case False
    then obtain st k' where "kill_pg_loop g sig False task_slots (- ESRCH, False) k = Inr (st, k')"
      using kill_pg_loop_total by (metis linorder_not_less)
    with False show ?thesis by (cases st) (simp add: kill_pg_def)
  qed (simp add: kill_pg_def)
  have "\<exists>r k'. kill_proc p sig False k = Inr (r, k')"
    using send_sig_in_range by (cases "sig < 1 \<or> sig > 32") (auto simp: kill_proc_def split: option.splits)
  with g kill_all_loop_total assms show ?thesis by (auto simp: sys_kill_def)
qed

text \<open>
  \<open>kill (-1, sig)\<close> passes empty slots to \<open>send_sig\<close> and keeps its \<open>EINVAL\<close>: with an empty slot in
  the table the call cannot succeed, even when every process got the signal.
\<close>

lemma kill_all_loop_nonzero:
  "kill_all_loop sig is r k = Inr (r', k') \<Longrightarrow> r \<noteq> 0 \<Longrightarrow> r' \<noteq> 0"
proof (induction "is" arbitrary: r k)
  case Nil
  then show ?case by simp
next
  case (Cons i "is")
  from Cons.prems(1) obtain err k1 where "kill_all_loop sig is (if err \<noteq> 0 then err else r) k1 = Inr (r', k')"
    by (auto simp: kbind_Inr_iff)
  from Cons.IH[OF this] Cons.prems(2) show ?case by simp
qed

lemma kill_all_loop_empty_slot:
  "kill_all_loop sig is r k = Inr (r', k') \<Longrightarrow> i \<in> set is \<Longrightarrow> task k i = None \<Longrightarrow> r' \<noteq> 0"
proof (induction "is" arbitrary: r k)
  case Nil
  then show ?case by simp
next
  case (Cons j "is")
  from Cons.prems(1) obtain err k1 where s: "send_sig sig j False k = Inr (err, k1)"
    and l: "kill_all_loop sig is (if err \<noteq> 0 then err else r) k1 = Inr (r', k')"
    by (auto simp: kbind_Inr_iff)
  show ?case
  proof (cases "i = j")
    case True
    with s Cons.prems(3) have "err \<noteq> 0" by (auto simp: send_sig_def EINVAL_def)
    with kill_all_loop_nonzero[OF l] show ?thesis by simp
  next
    case False
    with Cons.prems(2) have "i \<in> set is" by simp
    moreover have "task k1 i = None" using send_sig_dom[OF s] Cons.prems(3) by (auto simp: domIff)
    ultimately show ?thesis using Cons.IH[OF l] by blast
  qed
qed

lemma kill_all_reports_einval:
  assumes "1 \<le> i" and "i < NR_TASKS" and "task k i = None" and "sys_kill (- 1) sig k = Inr (r, k')"
  shows "r \<noteq> 0"
  using kill_all_loop_empty_slot[of sig task_slots 0 k r k' i] assms
  by (simp add: sys_kill_def set_task_slots)

section \<open>The frame of a handler\<close>

lemma do_signal_enter:
  assumes "do_signal signr r k = Enter_handler frame r' k'" and sa: "sa = sigact (cur k) (signr - 1)"
    and rc: "restart_call signr sa r = (old_eip, r1)"
  shows "frame = [sa_restorer sa, of_nat signr]
                 @ (if sa_flags sa AND SA_NOMASK = 0 then [blocked (cur k)] else [])
                 @ [r_eax r1, r_ecx r, r_edx r, r_eflags r, old_eip]"
    and "r' = r1\<lparr>r_eip := sa_handler sa,
                 r_esp := r_esp r - (if sa_flags sa AND SA_NOMASK \<noteq> 0 then 7 else 8) * 4\<rparr>"
    and "k' = upd_cur (\<lambda>t. t\<lparr>blocked := blocked t OR sa_mask sa\<rparr>)
                (if sa_flags sa AND SA_ONESHOT \<noteq> 0
                 then upd_cur (\<lambda>t. t\<lparr>sigact := (sigact t)(signr - 1 := sa\<lparr>sa_handler := 0\<rparr>)\<rparr>) k else k)"
proof -
  have "sa_handler sa \<noteq> 1" "sa_handler sa \<noteq> 0"
    using assms(1) unfolding do_signal_def sa[symmetric] Let_def rc
    by (auto split: if_splits)
  then show "frame = [sa_restorer sa, of_nat signr]
                 @ (if sa_flags sa AND SA_NOMASK = 0 then [blocked (cur k)] else [])
                 @ [r_eax r1, r_ecx r, r_edx r, r_eflags r, old_eip]"
    and "r' = r1\<lparr>r_eip := sa_handler sa,
                 r_esp := r_esp r - (if sa_flags sa AND SA_NOMASK \<noteq> 0 then 7 else 8) * 4\<rparr>"
    and "k' = upd_cur (\<lambda>t. t\<lparr>blocked := blocked t OR sa_mask sa\<rparr>)
                (if sa_flags sa AND SA_ONESHOT \<noteq> 0
                 then upd_cur (\<lambda>t. t\<lparr>sigact := (sigact t)(signr - 1 := sa\<lparr>sa_handler := 0\<rparr>)\<rparr>) k else k)"
    using assms(1) unfolding do_signal_def sa[symmetric] Let_def rc by simp_all
qed

lemma handler_frame:
  assumes "do_signal signr r k = Enter_handler frame r' k'"
  shows "r_eip r' = sa_handler (sigact (cur k) (signr - 1))"
    and "r_esp r' = r_esp r - 4 * of_nat (length frame)"
    and "bit (blocked (cur k')) n \<longleftrightarrow> bit (blocked (cur k)) n \<or> bit (sa_mask (sigact (cur k) (signr - 1))) n"
    and "sa_flags (sigact (cur k) (signr - 1)) AND SA_ONESHOT \<noteq> 0 \<Longrightarrow> sa_handler (sigact (cur k') (signr - 1)) = 0"
proof -
  let ?sa = "sigact (cur k) (signr - 1)"
  obtain oe r1 where "restart_call signr ?sa r = (oe, r1)" by fastforce
  note D = do_signal_enter[OF assms refl this]
  show "r_eip r' = sa_handler ?sa" by (simp add: D(2))
  show "r_esp r' = r_esp r - 4 * of_nat (length frame)" by (simp add: D(1,2))
  show "bit (blocked (cur k')) n \<longleftrightarrow> bit (blocked (cur k)) n \<or> bit (sa_mask ?sa) n"
    by (simp add: D(3) bit_or_iff)
  show "sa_flags ?sa AND SA_ONESHOT \<noteq> 0 \<Longrightarrow> sa_handler (sigact (cur k') (signr - 1)) = 0"
    by (simp add: D(3))
qed

text \<open>
  A system call stopped by a signal: the frame holds the state to continue from. After
  \<open>ERESTARTNOINTR\<close> the saved \<open>eip\<close> is that of the \<open>int 0x80\<close> itself, two bytes back, and the saved
  \<open>eax\<close> the call's number, so that the call is issued again after the handler.
\<close>

lemma handler_restart:
  assumes "do_signal signr r k = Enter_handler frame r' k'"
    and "r_orig_eax r \<noteq> - 1" and "r_eax r = word_of_int (- ERESTARTNOINTR)"
  shows "drop (length frame - 5) frame = [r_orig_eax r, r_ecx r, r_edx r, r_eflags r, r_eip r - 2]"
proof -
  have "restart_call signr (sigact (cur k) (signr - 1)) r
      = (r_eip r - 2, r\<lparr>r_eax := r_orig_eax r, r_eip := r_eip r - 2\<rparr>)"
    using assms(2,3) by (simp add: restart_call_def ERESTARTNOINTR_def ERESTARTSYS_def)
  from do_signal_enter(1)[OF assms(1) refl this] show ?thesis by simp
qed

lemma handler_interrupt:
  assumes "do_signal signr r k = Enter_handler frame r' k'"
    and "r_orig_eax r \<noteq> - 1" and "r_eax r = word_of_int (- ERESTARTSYS)" and "signr < SIGCONT"
  shows "drop (length frame - 5) frame
    = [word_of_int (- EINTR), r_ecx r, r_edx r, r_eflags r, r_eip r]"
proof -
  have "restart_call signr (sigact (cur k) (signr - 1)) r
      = (r_eip r, r\<lparr>r_eax := word_of_int (- EINTR)\<rparr>)"
    using assms(2-4) by (simp add: restart_call_def)
  from do_signal_enter(1)[OF assms(1) refl this] show ?thesis by simp
qed

section \<open>SIGKILL\<close>

text \<open>
  \<open>SIGKILL\<close> sent to a stopped or interruptible task makes it runnable at the next \<open>schedule\<close>,
  whatever it blocks.
\<close>

lemma sigkill_wakes:
  assumes "t_state t = TASK_STOPPED \<or> t_state t = TASK_INTERRUPTIBLE"
    and "sa_handler (sigact t (SIGKILL - 1)) = 0"
  shows "t_state (wake_check now (post_sig SIGKILL t)) = TASK_RUNNING"
proof -
  let ?p = "post_sig SIGKILL t"
  have p: "bit (signal ?p) (SIGKILL - 1)" "t_state ?p = (if t_state t = TASK_STOPPED then TASK_RUNNING else t_state t)"
    using assms(2) by (auto simp: post_sig_def Let_def SIGKILL_def SIGSTOP_def SIGTTOU_def bit_or_iff bit_sig_bit)
  then have "deliverable (with_alarm now ?p) SIGKILL"
    by (auto simp: deliverable_def with_alarm_def bit_or_iff)
  then have "\<exists>n. 1 \<le> n \<and> n \<le> 32 \<and> deliverable (with_alarm now ?p) n"
    by (intro exI[of _ SIGKILL]) (simp add: SIGKILL_def)
  then show ?thesis unfolding wake_check_state using assms(1) p(2) by auto
qed

text \<open>\<open>sigsuspend\<close> installs the caller's mask as it is, so it can block \<open>SIGKILL\<close>.\<close>

lemma wake_check_blocked [simp]: "blocked (wake_check now t) = blocked t"
  by (simp add: wake_check_def Let_def)

lemma sigsuspend_installs_mask:
  assumes "sys_sigsuspend fuel (False, om) m k = Some (r, args, k')" and "task k (current k) = Some t"
  shows "\<exists>t'. task k' (current k) = Some t' \<and> blocked t' = m \<and> args = (True, blocked t)"
proof -
  let ?k1 = "upd_cur (\<lambda>t. t\<lparr>t_state := TASK_INTERRUPTIBLE\<rparr>) (upd_cur (\<lambda>t. t\<lparr>blocked := m\<rparr>) k)"
  from assms(1) have s: "schedule fuel ?k1 = Some k'" and a: "args = (True, blocked (cur k))"
    by (auto simp: sys_sigsuspend_def sys_pause_def)
  have rc: "map_option blocked (task (recalc_tasks q) i) = map_option blocked (task q i)" for q i
    by (auto simp: recalc_tasks_eq recalc_def option.map_comp comp_def)
  have lp: "schedule_loop f q = Some (n, q') \<Longrightarrow> map_option blocked (task q' i) = map_option blocked (task q i)" for f q n q' i
    by (induction f q rule: schedule_loop.induct) (auto simp: Let_def rc split: prod.splits if_splits)
  from s obtain n k2 where l: "schedule_loop fuel (wake_tasks ?k1) = Some (n, k2)" and k': "k' = k2\<lparr>current := n\<rparr>"
    by (auto simp: schedule_def)
  have w: "map_option blocked (task (wake_tasks q) i) = map_option blocked (task q i)" for q i
    by (auto simp: wake_tasks_eq option.map_comp comp_def)
  have "map_option blocked (task k' (current k)) = map_option blocked (task ?k1 (current k))"
    using lp[OF l] w by (simp add: k')
  also have "\<dots> = Some m" using assms(2) by (simp add: upd_cur_def task_upd_task)
  finally show ?thesis using a assms(2) by (auto simp: cur_def ptask_def)
qed

text \<open>A \<open>SIGKILL\<close> or \<open>SIGCONT\<close> sent to a process that has exited already overwrites its exit code.\<close>

lemma signal_clears_exit_code:
  assumes "task k i = Some t" and "sig = SIGKILL \<or> sig = SIGCONT" and "priv \<or> suser k"
  shows "\<exists>k'. send_sig (int sig) i priv k = Inr (0, k') \<and> exit_code (ptask k' i) = 0
    \<and> (t_state t = TASK_ZOMBIE \<longrightarrow> t_state (ptask k' i) = TASK_ZOMBIE)"
proof -
  have s: "1 \<le> int sig" "int sig \<le> 32" using assms(2) by (auto simp: SIGKILL_def SIGCONT_def)
  have "send_sig (int sig) i priv k = Inr (0, upd_task i (post_sig sig) k)"
    using assms(1,3) s by (simp add: send_sig_def) (metis)
  moreover have "ptask (upd_task i (post_sig sig) k) i = post_sig sig t"
    using assms(1) by (simp add: ptask_upd_task) (simp add: ptask_def)
  ultimately show ?thesis using assms(2) by (auto simp: post_sig_def Let_def)
qed

end
