(* ===== verification/ProcTree.thy ===== *)
theory ProcTree
  imports Signal
begin

text \<open>
  Creation and end of processes (\<open>kernel/fork.c\<close>, \<open>kernel/exit.c\<close>): the choice of a pid and a slot,
  the family links of \<open>copy_process\<close>, \<open>release\<close>, \<open>do_exit\<close> and \<open>waitpid\<close>. The links
  \<open>p_cptr\<close> (youngest child), \<open>p_osptr\<close> and \<open>p_ysptr\<close> (older and younger sibling) represent, for
  every process, the list of its children from the youngest to the oldest.
\<close>

section \<open>fork\<close>

text \<open>
  \<open>find_empty_process\<close>: the search for an unused pid, one try per unit of fuel; \<open>last_pid\<close> wraps
  from the largest int to 1. The result is the new \<open>last_pid\<close> and the slot or \<open>EAGAIN\<close>.
\<close>

definition next_pid :: "int \<Rightarrow> int" where
  "next_pid p = (let q = sint (word_of_int (p + 1) :: u32) in if q < 0 then 1 else q)"

definition pid_used :: "kernel \<Rightarrow> int \<Rightarrow> bool" where
  "pid_used k p \<longleftrightarrow> (\<exists>i \<in> set [0..<NR_TASKS].
     case task k i of None \<Rightarrow> False | Some t \<Rightarrow> pid t = p \<or> pgrp t = p)"

fun find_pid :: "nat \<Rightarrow> int \<Rightarrow> kernel \<Rightarrow> int option" where
  "find_pid 0 lastp k = None"
| "find_pid (Suc fuel) lastp k =
     (let p = next_pid lastp in if pid_used k p then find_pid fuel p k else Some p)"

definition find_empty_process :: "nat \<Rightarrow> int \<Rightarrow> kernel \<Rightarrow> (int \<times> int) option" where
  "find_empty_process fuel last_pid k =
     map_option (\<lambda>p. (p, case find (\<lambda>i. task k i = None) [1..<NR_TASKS] of
                            None \<Rightarrow> - EAGAIN | Some i \<Rightarrow> int i))
       (find_pid fuel last_pid k)"

text \<open>
  \<open>copy_process\<close> without the hardware state and the reference counts of files and inodes.
  \<open>page_ok\<close> and \<open>mem_ok\<close> say whether \<open>get_free_page\<close> and \<open>copy_mem\<close> succeed.
\<close>

definition child_of :: "kernel \<Rightarrow> int \<Rightarrow> task" where
  "child_of k last_pid =
     (cur k)\<lparr>t_state := TASK_UNINTERRUPTIBLE, pid := last_pid, counter := priority (cur k), signal := 0,
             alarm := 0, leader := False, utime := 0, stime := 0, cutime := 0, cstime := 0,
             start_time := jiffies k\<rparr>"

definition link_child :: "nat \<Rightarrow> kernel \<Rightarrow> kernel" where
  "link_child nr k =
     (let os = p_cptr (cur k);
          k1 = upd_task nr (\<lambda>t. t\<lparr>p_pptr := current k, p_cptr := None, p_ysptr := None, p_osptr := os\<rparr>) k;
          k2 = (case os of None \<Rightarrow> k1 | Some o' \<Rightarrow> upd_task o' (\<lambda>t. t\<lparr>p_ysptr := Some nr\<rparr>) k1);
          k3 = upd_cur (\<lambda>t. t\<lparr>p_cptr := Some nr\<rparr>) k2
      in upd_task nr (\<lambda>t. t\<lparr>t_state := TASK_RUNNING\<rparr>) k3)"

definition copy_process :: "bool \<Rightarrow> bool \<Rightarrow> int \<Rightarrow> nat \<Rightarrow> kernel \<Rightarrow> int \<times> kernel" where
  "copy_process page_ok mem_ok last_pid nr k =
     (if \<not> page_ok then (- EAGAIN, k)
      else
        let k1 = k\<lparr>task := (task k)(nr \<mapsto> child_of k last_pid)\<rparr>
        in if \<not> mem_ok then (- EAGAIN, k1\<lparr>task := (task k1)(nr := None)\<rparr>)
           else (last_pid, link_child nr k1))"

section \<open>exit\<close>

definition release :: "nat \<Rightarrow> kernel \<Rightarrow> kernel kres" where
  "release i k =
     (if i = current k then Inr k
      else if \<not> (1 \<le> i \<and> i < NR_TASKS \<and> task k i \<noteq> None)
      then Inl (Panic ''trying to release non-existent task'')
      else
        let t = ptask k i;
            k1 = k\<lparr>task := (task k)(i := None)\<rparr>;
            k2 = (case p_osptr t of None \<Rightarrow> k1
                  | Some o' \<Rightarrow> upd_task o' (\<lambda>u. u\<lparr>p_ysptr := p_ysptr t\<rparr>) k1)
        in Inr (case p_ysptr t of
                  Some y \<Rightarrow> upd_task y (\<lambda>u. u\<lparr>p_osptr := p_osptr t\<rparr>) k2
                | None \<Rightarrow> upd_task (p_pptr t) (\<lambda>u. u\<lparr>p_cptr := p_osptr t\<rparr>) k2))"

definition is_orphaned_pgrp :: "int \<Rightarrow> kernel \<Rightarrow> bool" where
  "is_orphaned_pgrp g k \<longleftrightarrow> \<not> (\<exists>i \<in> set task_slots.
     case task k i of None \<Rightarrow> False
     | Some t \<Rightarrow> pgrp t = g \<and> t_state t \<noteq> TASK_ZOMBIE \<and> pid (ptask k (p_pptr t)) \<noteq> 1
         \<and> pgrp (ptask k (p_pptr t)) \<noteq> g \<and> session (ptask k (p_pptr t)) = session t)"

definition has_stopped_jobs :: "int \<Rightarrow> kernel \<Rightarrow> bool" where
  "has_stopped_jobs g k \<longleftrightarrow> (\<exists>i \<in> set task_slots.
     pgrp (ptask k i) = g \<and> t_state (ptask k i) = TASK_STOPPED)"

text \<open>The code that \<open>do_exit\<close> has twice: a newly orphaned group with stopped jobs is hung up.\<close>

definition hangup_pgrp :: "int \<Rightarrow> kernel \<Rightarrow> kernel kres" where
  "hangup_pgrp g k =
     kbind (kill_pg g (int SIGHUP) True k)
       (\<lambda>(_, k1). kbind (kill_pg g (int SIGCONT) True k1) (\<lambda>(_, k2). Inr k2))"

text \<open>The end of the list: the last child \<open>p\<close> is linked to the youngest child of process 1.\<close>

definition splice_children :: "nat \<Rightarrow> kernel \<Rightarrow> kernel" where
  "splice_children p k =
     (let k1 = upd_task p (\<lambda>t. t\<lparr>p_osptr := p_cptr (ptask k 1)\<rparr>) k;
          k2 = (case p_cptr (ptask k1 1) of
                  None \<Rightarrow> k1\<lparr>null_task := (null_task k1)\<lparr>p_ysptr := Some p\<rparr>\<rparr>
                | Some h \<Rightarrow> upd_task h (\<lambda>t. t\<lparr>p_ysptr := Some p\<rparr>) k1);
          k3 = upd_task 1 (\<lambda>t. t\<lparr>p_cptr := p_cptr (cur k2)\<rparr>) k2
      in upd_cur (\<lambda>t. t\<lparr>p_cptr := None\<rparr>) k3)"

text \<open>The loop that gives the children to process 1, from child \<open>p\<close>.\<close>

fun adopt :: "nat \<Rightarrow> nat \<Rightarrow> kernel \<Rightarrow> kernel kres option" where
  "adopt 0 p k = None"
| "adopt (Suc fuel) p k =
     (let k1 = upd_task p (\<lambda>t. t\<lparr>p_pptr := 1\<rparr>) k;
          k2 = (if t_state (ptask k1 p) = TASK_ZOMBIE
                then upd_task 1 (\<lambda>t. t\<lparr>signal := signal t OR sig_bit SIGCHLD\<rparr>) k1 else k1)
      in case (if pgrp (ptask k2 p) \<noteq> pgrp (cur k2) \<and> session (ptask k2 p) = session (cur k2)
                  \<and> is_orphaned_pgrp (pgrp (ptask k2 p)) k2 \<and> has_stopped_jobs (pgrp (ptask k2 p)) k2
               then hangup_pgrp (pgrp (ptask k2 p)) k2 else Inr k2) of
           Inl e \<Rightarrow> Some (Inl e)
         | Inr k3 \<Rightarrow>
             (case p_osptr (ptask k3 p) of
                Some q \<Rightarrow> adopt fuel q k3
              | None \<Rightarrow> Some (Inr (splice_children p k3))))"

text \<open>
  \<open>do_exit\<close> from the point where memory, files and inodes have been given up to the final
  \<open>schedule\<close>. A session leader hangs up the foreground group of its terminal and takes the
  terminal from the session. The groups and sessions of the terminals are kept by their places in \<open>tty_table\<close>;
  \<open>TTY_TABLE\<close> is the macro, for which terminal 0 is the console on the screen.
\<close>

definition TTY_TABLE :: "kernel \<Rightarrow> int \<Rightarrow> int" where
  "TTY_TABLE k nr = (if nr \<noteq> 0 then if nr < 64 then nr - 1 else nr else shown_console k)"

definition drop_tty :: "kernel \<Rightarrow> kernel kres" where
  "drop_tty k =
     (let tty = TTY_TABLE k (t_tty (cur k))
      in if t_tty (cur k) < 0 then Inr k
         else kbind (if tty_pgrp k tty > 0
                     then kbind (kill_pg (tty_pgrp k tty) (int SIGHUP) True k) (\<lambda>(_, k'). Inr k') else Inr k)
                (\<lambda>k1. Inr (k1\<lparr>tty_pgrp := (tty_pgrp k1)(tty := 0), tty_session := (tty_session k1)(tty := 0)\<rparr>)))"

definition leave_session :: "kernel \<Rightarrow> kernel kres" where
  "leave_session k =
     (if leader (cur k)
      then kbind (drop_tty k)
             (\<lambda>k1. Inr (foldl (\<lambda>k i. if session (ptask k i) = session (cur k)
                                    then upd_task i (\<lambda>t. t\<lparr>t_tty := - 1\<rparr>) k else k) k1 task_slots))
      else Inr k)"

definition do_exit :: "nat \<Rightarrow> u32 \<Rightarrow> kernel \<Rightarrow> kernel kres option" where
  "do_exit fuel code k =
     (let k1 = upd_cur (\<lambda>t. t\<lparr>t_state := TASK_ZOMBIE, exit_code := code\<rparr>) k;
          par = p_pptr (cur k1)
      in case (if pgrp (ptask k1 par) \<noteq> pgrp (cur k1) \<and> session (ptask k1 par) = session (cur k1)
                  \<and> is_orphaned_pgrp (pgrp (cur k1)) k1 \<and> has_stopped_jobs (pgrp (cur k1)) k1
               then hangup_pgrp (pgrp (cur k1)) k1 else Inr k1) of
           Inl e \<Rightarrow> Some (Inl e)
         | Inr k2 \<Rightarrow>
             let k3 = upd_task (p_pptr (cur k2)) (\<lambda>t. t\<lparr>signal := signal t OR sig_bit SIGCHLD\<rparr>) k2
             in (case (case p_cptr (cur k3) of None \<Rightarrow> Some (Inr k3) | Some p \<Rightarrow> adopt fuel p k3) of
                   None \<Rightarrow> None
                 | Some r \<Rightarrow> Some (kbind r leave_session)))"

definition sys_exit :: "nat \<Rightarrow> u32 \<Rightarrow> kernel \<Rightarrow> kernel kres option" where
  "sys_exit fuel error_code k = do_exit fuel (push_bit 8 (error_code AND 0xFF)) k"

section \<open>waitpid\<close>

text \<open>
  One scan of the children from \<open>p\<close>: a stopped child to report, a dead child to reap, or the end
  of the list with \<open>flag\<close>.
\<close>

datatype scan = Stopped nat | Dead nat | Done bool

definition wait_matches :: "int \<Rightarrow> kernel \<Rightarrow> task \<Rightarrow> bool" where
  "wait_matches p k t =
     (if p > 0 then pid t = p else if p = 0 then pgrp t = pgrp (cur k)
      else if p \<noteq> - 1 then pgrp t = - p else True)"

fun wait_scan :: "nat \<Rightarrow> int \<Rightarrow> bool \<Rightarrow> nat option \<Rightarrow> bool \<Rightarrow> kernel \<Rightarrow> scan option" where
  "wait_scan fuel p untraced None flag k = Some (Done flag)"
| "wait_scan 0 p untraced (Some c) flag k = None"
| "wait_scan (Suc fuel) p untraced (Some c) flag k =
     (let t = ptask k c
      in if \<not> wait_matches p k t then wait_scan fuel p untraced (p_osptr t) flag k
         else case t_state t of
                TASK_STOPPED \<Rightarrow>
                  if \<not> untraced \<or> exit_code t = 0 then wait_scan fuel p untraced (p_osptr t) flag k
                  else Some (Stopped c)
              | TASK_ZOMBIE \<Rightarrow> Some (Dead c)
              | _ \<Rightarrow> wait_scan fuel p untraced (p_osptr t) True k)"

text \<open>
  The call: its result, the status word written, and the state. Each element of the list is what
  the rest of the system does while the caller sleeps.
\<close>

fun sys_waitpid :: "nat \<Rightarrow> int \<Rightarrow> bool \<Rightarrow> bool \<Rightarrow> (kernel \<Rightarrow> kernel) list \<Rightarrow> kernel \<Rightarrow>
    (int \<times> u32 option \<times> kernel) kres option" where
  "sys_waitpid fuel p nohang untraced envs k =
     (case wait_scan fuel p untraced (p_cptr (cur k)) False k of
        None \<Rightarrow> None
      | Some (Stopped c) \<Rightarrow>
          Some (Inr (pid (ptask k c), Some (push_bit 8 (exit_code (ptask k c)) OR 0x7F),
                     upd_task c (\<lambda>t. t\<lparr>exit_code := 0\<rparr>) k))
      | Some (Dead c) \<Rightarrow>
          let t = ptask k c;
              k1 = upd_cur (\<lambda>u. u\<lparr>cutime := cutime u + utime t, cstime := cstime u + stime t\<rparr>) k
          in Some (kbind (release c k1) (\<lambda>k2. Inr (pid t, Some (exit_code t), k2)))
      | Some (Done flag) \<Rightarrow>
          if \<not> flag then Some (Inr (- ECHILD, None, k))
          else if nohang then Some (Inr (0, None, k))
          else
            (case envs of [] \<Rightarrow> None
             | e # es \<Rightarrow>
                 let oldblocked = blocked (cur k);
                     k1 = upd_cur (\<lambda>t. t\<lparr>t_state := TASK_INTERRUPTIBLE,
                                        blocked := blocked t AND NOT (sig_bit SIGCHLD)\<rparr>) k;
                     k2 = upd_cur (\<lambda>t. t\<lparr>blocked := oldblocked\<rparr>) (e k1)
                 in if signal (cur k2) AND NOT (blocked (cur k2) OR sig_bit SIGCHLD) \<noteq> 0
                    then Some (Inr (- ERESTARTSYS, None, k2))
                    else sys_waitpid fuel p nohang untraced es k2))"

declare sys_waitpid.simps [simp del]

section \<open>A fresh pid is found\<close>

lemma find_pid_fresh: "find_pid fuel lastp k = Some p \<Longrightarrow> \<not> pid_used k p"
  by (induction fuel lastp k rule: find_pid.induct) (auto simp: Let_def split: if_splits)

lemma next_pid_nonneg: "0 \<le> next_pid p"
  by (simp add: next_pid_def Let_def)

lemma find_pid_range: "find_pid fuel lastp k = Some p \<Longrightarrow> 0 \<le> p"
  by (induction fuel lastp k rule: find_pid.induct) (auto simp: Let_def next_pid_nonneg split: if_splits)

text \<open>The pids a search of \<open>n\<close> tries visits.\<close>

fun visited :: "nat \<Rightarrow> int \<Rightarrow> int list" where
  "visited 0 p = []"
| "visited (Suc n) p = next_pid p # visited n (next_pid p)"

lemma find_pid_None: "find_pid n p k = None \<Longrightarrow> \<forall>q \<in> set (visited n p). pid_used k q"
  by (induction n p k rule: find_pid.induct) (auto simp: Let_def split: if_splits)

lemma length_visited [simp]: "length (visited n p) = n"
  by (induction n arbitrary: p) auto

lemma used_pids_card:
  shows "finite {q. pid_used k q}" and "card {q. pid_used k q} \<le> 2 * NR_TASKS"
proof -
  let ?f = "\<lambda>i. case task k i of None \<Rightarrow> {} | Some t \<Rightarrow> {pid t, pgrp t}"
  have eq: "{q. pid_used k q} = (\<Union>i \<in> set [0..<NR_TASKS]. ?f i)"
  proof -
    have "(case task k i of None \<Rightarrow> False | Some t \<Rightarrow> pid t = q \<or> pgrp t = q) \<longleftrightarrow> q \<in> ?f i" for i q
      by (auto split: option.splits)
    then show ?thesis unfolding pid_used_def by blast
  qed
  show "finite {q. pid_used k q}" unfolding eq by (auto split: option.splits)
  have "card {q. pid_used k q} \<le> (\<Sum>i \<in> set [0..<NR_TASKS]. card (?f i))"
    unfolding eq by (rule card_UN_le) simp
  also have "\<dots> \<le> (\<Sum>i \<in> set [0..<NR_TASKS]. 2)"
    by (rule sum_mono) (auto split: option.splits simp: card_insert_if)
  also have "\<dots> = 2 * NR_TASKS" by simp
  finally show "card {q. pid_used k q} \<le> 2 * NR_TASKS" .
qed

definition int_ok :: "int \<Rightarrow> bool" where
  "int_ok p \<longleftrightarrow> 0 \<le> p \<and> p < 2 ^ 31"

lemma next_pid_eq:
  assumes "int_ok p"
  shows "next_pid p = (if p + 1 < 2 ^ 31 then p + 1 else 1)"
proof -
  have "sint (word_of_int q :: u32) = signed_take_bit 31 q" for q
    by (simp add: signed_of_int)
  then have n: "next_pid p = (let q = signed_take_bit 31 (p + 1) in if q < 0 then 1 else q)"
    unfolding next_pid_def by (simp only:)
  show ?thesis
  proof (cases "p + 1 < 2 ^ 31")
    case True
    then have "signed_take_bit 31 (p + 1) = p + 1"
      using assms by (intro signed_take_bit_int_eq_self) (auto simp: int_ok_def)
    with True assms show ?thesis by (simp add: n int_ok_def)
  next
    case False
    then have "p + 1 = 2 ^ 31" using assms by (auto simp: int_ok_def)
    then have "signed_take_bit 31 (p + 1) = signed_take_bit 31 (2 ^ 31)" by (simp only:)
    also have "\<dots> = - (2 ^ 31)" by simp
    finally show ?thesis using False by (simp add: n)
  qed
qed

lemma next_pid_ok: "int_ok p \<Longrightarrow> int_ok (next_pid p) \<and> 0 < next_pid p"
  by (auto simp: next_pid_eq int_ok_def)

text \<open>The \<open>j\<close>-th pid tried after \<open>p\<close>.\<close>

definition nth_pid :: "int \<Rightarrow> int \<Rightarrow> int" where
  "nth_pid p j = (if p + j < 2 ^ 31 then p + j else p + j - (2 ^ 31 - 1))"

lemma visited_nth:
  assumes "int_ok p" and "j < n" and "n < 2 ^ 30"
  shows "visited n p ! j = nth_pid p (int j + 1)"
  using assms
proof (induction n arbitrary: p j)
  case 0
  then show ?case by simp
next
  case (Suc n)
  show ?case
  proof (cases j)
    case 0
    then show ?thesis using Suc.prems(1) by (auto simp: next_pid_eq nth_pid_def int_ok_def)
  next
    case (Suc i)
    have "visited n (next_pid p) ! i = nth_pid (next_pid p) (int i + 1)"
      by (rule Suc.IH) (use Suc.prems Suc next_pid_ok in auto)
    also have "\<dots> = nth_pid p (int j + 1)"
      using Suc Suc.prems by (auto simp: next_pid_eq nth_pid_def int_ok_def)
    finally show ?thesis using Suc by simp
  qed
qed

lemma visited_distinct:
  assumes "int_ok p" and "n < 2 ^ 30"
  shows "distinct (visited n p)"
  unfolding distinct_conv_nth
proof (intro allI impI)
  fix i j assume "i < length (visited n p)" "j < length (visited n p)" "i \<noteq> j"
  then show "visited n p ! i \<noteq> visited n p ! j"
    using assms by (auto simp: visited_nth nth_pid_def)
qed

lemma find_pid_int_ok: "find_pid fuel p k = Some q \<Longrightarrow> int_ok p \<Longrightarrow> int_ok q \<and> 0 < q"
  by (induction fuel p k rule: find_pid.induct) (auto simp: Let_def next_pid_ok split: if_splits)

text \<open>
  Sixty-four tasks use at most 128 pids and process groups, so 129 tries are enough; the pid found
  is positive and no task's pid or process group.
\<close>

lemma find_empty_process_total:
  assumes "int_ok last_pid" and "129 \<le> fuel" and "fuel < 2 ^ 30"
  shows "\<exists>p r. find_empty_process fuel last_pid k = Some (p, r) \<and> 0 < p \<and> int_ok p \<and> \<not> pid_used k p"
proof (cases "find_pid fuel last_pid k")
  case None
  from find_pid_None[OF None] have sub: "set (visited fuel last_pid) \<subseteq> {q. pid_used k q}" by blast
  have "fuel = card (set (visited fuel last_pid))"
    using visited_distinct[OF assms(1,3)] by (simp add: distinct_card)
  also have "\<dots> \<le> card {q. pid_used k q}" by (rule card_mono[OF used_pids_card(1) sub])
  also have "\<dots> \<le> 128" using used_pids_card(2)[of k] by (simp add: NR_TASKS_def)
  finally show ?thesis using assms(2) by simp
next
  case (Some p)
  with find_pid_int_ok[OF Some assms(1)] find_pid_fresh[OF Some] show ?thesis
    by (simp add: find_empty_process_def)
qed

lemma find_empty_slot:
  assumes "find_empty_process fuel last_pid k = Some (p, r)" and "0 \<le> r"
  shows "1 \<le> r \<and> r < int NR_TASKS \<and> task k (nat r) = None"
proof -
  from assms obtain i where "find (\<lambda>i. task k i = None) [1..<NR_TASKS] = Some i" "r = int i"
    by (auto simp: find_empty_process_def EAGAIN_def split: option.splits)
  then have "task k i = None" "1 \<le> i" "i < NR_TASKS"
    by (auto simp: find_Some_iff)
  with \<open>r = int i\<close> show ?thesis by simp
qed

section \<open>The links represent a tree\<close>

definition sibs :: "kernel \<Rightarrow> nat \<Rightarrow> nat list \<Rightarrow> bool" where
  "sibs k p cs \<longleftrightarrow> distinct cs
     \<and> (\<forall>c \<in> set cs. task k c \<noteq> None \<and> p_pptr (ptask k c) = p)
     \<and> chain (\<lambda>c. p_osptr (ptask k c)) (p_cptr (ptask k p)) cs
     \<and> back_chain (\<lambda>c. p_ysptr (ptask k c)) None cs"

text \<open>
  \<open>kids p\<close> are the children of \<open>p\<close> from the youngest to the oldest; every process but the first is
  among the children of its parent.
\<close>

definition tree_rep :: "kernel \<Rightarrow> (nat \<Rightarrow> nat list) \<Rightarrow> bool" where
  "tree_rep k kids \<longleftrightarrow>
     (\<forall>p. task k p \<noteq> None \<longrightarrow> sibs k p (kids p))
     \<and> (\<forall>c. task k c \<noteq> None \<longrightarrow> c \<noteq> 0 \<longrightarrow>
          task k (p_pptr (ptask k c)) \<noteq> None \<and> c \<in> set (kids (p_pptr (ptask k c))))"

lemma sibsD:
  assumes "sibs k p cs"
  shows "distinct cs" and "c \<in> set cs \<Longrightarrow> task k c \<noteq> None" and "c \<in> set cs \<Longrightarrow> p_pptr (ptask k c) = p"
    and "chain (\<lambda>c. p_osptr (ptask k c)) (p_cptr (ptask k p)) cs"
    and "back_chain (\<lambda>c. p_ysptr (ptask k c)) None cs"
  using assms by (auto simp: sibs_def)

text \<open>A list of children depends only on its own links.\<close>

lemma sibs_cong:
  assumes "sibs k p cs" and "p_cptr (ptask k' p) = p_cptr (ptask k p)"
    and "\<And>c. c \<in> set cs \<Longrightarrow> task k' c \<noteq> None \<and> p_pptr (ptask k' c) = p
       \<and> p_osptr (ptask k' c) = p_osptr (ptask k c) \<and> p_ysptr (ptask k' c) = p_ysptr (ptask k c)"
  shows "sibs k' p cs"
proof -
  have "chain (\<lambda>c. p_osptr (ptask k' c)) (p_cptr (ptask k' p)) cs
      = chain (\<lambda>c. p_osptr (ptask k c)) (p_cptr (ptask k p)) cs"
    unfolding assms(2) by (rule chain_cong) (use assms(3) in auto)
  moreover have "back_chain (\<lambda>c. p_ysptr (ptask k' c)) None cs = back_chain (\<lambda>c. p_ysptr (ptask k c)) None cs"
    by (rule back_chain_cong) (use assms(3) in auto)
  ultimately show ?thesis using assms by (simp add: sibs_def)
qed

text \<open>Changes that leave pids, groups, links and the set of processes alone keep the tree.\<close>

definition same_links :: "kernel \<Rightarrow> kernel \<Rightarrow> bool" where
  "same_links k k' \<longleftrightarrow> current k' = current k \<and> (\<forall>i. map_option (\<lambda>t. (p_pptr t, p_cptr t, p_ysptr t, p_osptr t)) (task k' i)
     = map_option (\<lambda>t. (p_pptr t, p_cptr t, p_ysptr t, p_osptr t)) (task k i))"

lemma same_links_refl [simp]: "same_links k k"
  by (simp add: same_links_def)

lemma same_links_trans: "same_links a b \<Longrightarrow> same_links b c \<Longrightarrow> same_links a c"
  by (simp add: same_links_def)

lemma same_linksD:
  assumes "same_links k k'"
  shows "task k' i = None \<longleftrightarrow> task k i = None" and "current k' = current k"
    and "task k i \<noteq> None \<Longrightarrow> p_pptr (ptask k' i) = p_pptr (ptask k i) \<and> p_cptr (ptask k' i) = p_cptr (ptask k i)
      \<and> p_ysptr (ptask k' i) = p_ysptr (ptask k i) \<and> p_osptr (ptask k' i) = p_osptr (ptask k i)"
proof -
  have m: "map_option (\<lambda>t. (p_pptr t, p_cptr t, p_ysptr t, p_osptr t)) (task k' i)
     = map_option (\<lambda>t. (p_pptr t, p_cptr t, p_ysptr t, p_osptr t)) (task k i)"
    using assms unfolding same_links_def by blast
  then show "task k' i = None \<longleftrightarrow> task k i = None" by (cases "task k i"; cases "task k' i") simp_all
  show "task k i \<noteq> None \<Longrightarrow> p_pptr (ptask k' i) = p_pptr (ptask k i) \<and> p_cptr (ptask k' i) = p_cptr (ptask k i)
      \<and> p_ysptr (ptask k' i) = p_ysptr (ptask k i) \<and> p_osptr (ptask k' i) = p_osptr (ptask k i)"
    using m by (cases "task k i"; cases "task k' i") (simp_all add: ptask_def)
  show "current k' = current k" using assms by (simp add: same_links_def)
qed

lemma same_links_upd:
  "(\<And>t. p_pptr (f t) = p_pptr t \<and> p_cptr (f t) = p_cptr t \<and> p_ysptr (f t) = p_ysptr t \<and> p_osptr (f t) = p_osptr t)
    \<Longrightarrow> same_links k (upd_task i f k)"
  by (auto simp: same_links_def task_upd_task option.map_comp comp_def)

lemma post_sig_links [simp]:
  "p_pptr (post_sig s t) = p_pptr t" "p_cptr (post_sig s t) = p_cptr t"
  "p_ysptr (post_sig s t) = p_ysptr t" "p_osptr (post_sig s t) = p_osptr t"
  by (simp_all add: post_sig_def Let_def)

lemma send_sig_links:
  assumes "1 \<le> sig" and "sig \<le> 32"
  obtains r k' where "send_sig sig i priv k = Inr (r, k')" and "same_links k k'"
proof -
  have "same_links k (upd_task i (post_sig (nat sig)) k)" by (rule same_links_upd) simp
  moreover have "\<exists>r k'. send_sig sig i priv k = Inr (r, k') \<and> (k' = k \<or> k' = upd_task i (post_sig (nat sig)) k)"
    using assms by (cases "task k i") (simp_all add: send_sig_def)
  ultimately show ?thesis using that same_links_refl by metis
qed

lemma kill_pg_links:
  assumes "1 \<le> sig" and "sig \<le> 32"
  shows "\<exists>r k'. kill_pg g sig priv k = Inr (r, k') \<and> same_links k k'"
proof -
  have "\<exists>st' k'. kill_pg_loop g sig priv is st k = Inr (st', k') \<and> same_links k k'" for "is" st k
  proof (induction "is" arbitrary: st k)
    case Nil
    then show ?case by simp
  next
    case (Cons i "is")
    obtain rv fd where st: "st = (rv, fd)" by fastforce
    obtain r k1 where s: "send_sig sig i priv k = Inr (r, k1)" "same_links k k1"
      by (rule send_sig_links[OF assms])
    from Cons.IH[where k = k1] Cons.IH[where k = k] s show ?case
      unfolding st by simp (meson same_links_trans)
  qed
  from this[of task_slots "(- ESRCH, False)" k]
  obtain rv fd k' where l: "kill_pg_loop g sig priv task_slots (- ESRCH, False) k = Inr ((rv, fd), k')"
    and s: "same_links k k'" by (metis prod.exhaust)
  show ?thesis
  proof (cases "g \<le> 0")
    case False
    then have "kill_pg g sig priv k = Inr (if fd then 0 else rv, k')"
      using assms l by (simp add: kill_pg_def)
    with s show ?thesis by blast
  qed (auto simp: kill_pg_def)
qed

lemma hangup_links: "\<exists>k'. hangup_pgrp g k = Inr k' \<and> same_links k k'"
proof -
  obtain r k1 where a: "kill_pg g (int SIGHUP) True k = Inr (r, k1)" "same_links k k1"
    using kill_pg_links[of "int SIGHUP" g True k] unfolding SIGHUP_def by auto
  obtain r2 k2 where b: "kill_pg g (int SIGCONT) True k1 = Inr (r2, k2)" "same_links k1 k2"
    using kill_pg_links[of "int SIGCONT" g True k1] unfolding SIGCONT_def by auto
  from a b same_links_trans show ?thesis by (auto simp: hangup_pgrp_def)
qed

lemma tree_rep_same_links:
  assumes "tree_rep k kids" and "same_links k k'"
  shows "tree_rep k' kids"
  unfolding tree_rep_def
proof (intro conjI allI impI)
  fix p assume "task k' p \<noteq> None"
  then have p: "task k p \<noteq> None" using same_linksD(1)[OF assms(2)] by simp
  then have s: "sibs k p (kids p)" using assms(1) by (simp add: tree_rep_def)
  show "sibs k' p (kids p)"
    by (rule sibs_cong[OF s]) (use same_linksD[OF assms(2)] p sibsD[OF s] in auto)
next
  fix c assume c: "task k' c \<noteq> None" "c \<noteq> 0"
  then have "task k c \<noteq> None" using same_linksD(1)[OF assms(2)] by simp
  with c assms(1) same_linksD[OF assms(2)]
  show "task k' (p_pptr (ptask k' c)) \<noteq> None" "c \<in> set (kids (p_pptr (ptask k' c)))"
    unfolding tree_rep_def by (metis, metis)
qed

lemma ptask_upd_same: "task k i \<noteq> None \<Longrightarrow> ptask (upd_task i f k) i = f (ptask k i)"
  and ptask_upd_other: "j \<noteq> i \<Longrightarrow> task k i \<noteq> None \<Longrightarrow> ptask (upd_task i f k) j = ptask k j"
  by (simp_all add: ptask_upd_task)

lemma task_upd_None [simp]: "task (upd_task i f k) j = None \<longleftrightarrow> task k j = None"
  by (simp add: task_upd_task)

lemma link_child_fields:
  assumes nr: "task k nr \<noteq> None" and c: "task k (current k) \<noteq> None" and ne: "current k \<noteq> nr"
    and os: "\<And>q. p_cptr (cur k) = Some q \<Longrightarrow> task k q \<noteq> None \<and> q \<noteq> nr"
  shows "task (link_child nr k) x = None \<longleftrightarrow> task k x = None"
    and "current (link_child nr k) = current k"
    and "p_pptr (ptask (link_child nr k) x) = (if x = nr then current k else p_pptr (ptask k x))"
    and "p_cptr (ptask (link_child nr k) x) = (if x = nr then None else if x = current k then Some nr else p_cptr (ptask k x))"
    and "p_ysptr (ptask (link_child nr k) x) = (if x = nr then None else if p_cptr (cur k) = Some x then Some nr else p_ysptr (ptask k x))"
    and "p_osptr (ptask (link_child nr k) x) = (if x = nr then p_cptr (cur k) else p_osptr (ptask k x))"
proof -
  have "(task (link_child nr k) x = None \<longleftrightarrow> task k x = None)
    \<and> current (link_child nr k) = current k
    \<and> p_pptr (ptask (link_child nr k) x) = (if x = nr then current k else p_pptr (ptask k x))
    \<and> p_cptr (ptask (link_child nr k) x) = (if x = nr then None else if x = current k then Some nr else p_cptr (ptask k x))
    \<and> p_ysptr (ptask (link_child nr k) x) = (if x = nr then None else if p_cptr (cur k) = Some x then Some nr else p_ysptr (ptask k x))
    \<and> p_osptr (ptask (link_child nr k) x) = (if x = nr then p_cptr (cur k) else p_osptr (ptask k x))"
  proof (cases "p_cptr (cur k)")
    case None
    with nr c ne show ?thesis by (simp add: link_child_def Let_def ptask_upd_task upd_cur_def)
  next
    case (Some q)
    have "task k q \<noteq> None" "q \<noteq> nr" using os[OF Some] by blast+
    with Some nr c ne show ?thesis by (simp add: link_child_def Let_def ptask_upd_task upd_cur_def)
  qed
  then show "task (link_child nr k) x = None \<longleftrightarrow> task k x = None"
    and "current (link_child nr k) = current k"
    and "p_pptr (ptask (link_child nr k) x) = (if x = nr then current k else p_pptr (ptask k x))"
    and "p_cptr (ptask (link_child nr k) x) = (if x = nr then None else if x = current k then Some nr else p_cptr (ptask k x))"
    and "p_ysptr (ptask (link_child nr k) x) = (if x = nr then None else if p_cptr (cur k) = Some x then Some nr else p_ysptr (ptask k x))"
    and "p_osptr (ptask (link_child nr k) x) = (if x = nr then p_cptr (cur k) else p_osptr (ptask k x))"
    by blast+
qed

lemma tree_repD:
  assumes "tree_rep k kids"
  shows "task k p \<noteq> None \<Longrightarrow> sibs k p (kids p)"
    and "task k c \<noteq> None \<Longrightarrow> c \<noteq> 0 \<Longrightarrow> task k (p_pptr (ptask k c)) \<noteq> None"
    and "task k c \<noteq> None \<Longrightarrow> c \<noteq> 0 \<Longrightarrow> c \<in> set (kids (p_pptr (ptask k c)))"
  using assms by (auto simp: tree_rep_def)

text \<open>\<open>fork\<close> puts the new process in front of its parent's children.\<close>

lemma fork_tree:
  assumes rep: "tree_rep k kids" and free: "task k nr = None" and "nr \<noteq> 0" and c: "task k (current k) \<noteq> None"
    and r: "copy_process True True lp nr k = (res, k')"
  shows "tree_rep k' (kids(nr := [], current k := nr # kids (current k)))"
proof -
  let ?c = "current k"
  let ?k1 = "k\<lparr>task := (task k)(nr \<mapsto> child_of k lp)\<rparr>"
  have ne: "?c \<noteq> nr" using free c by metis
  have k': "k' = link_child nr ?k1" using r by (auto simp: copy_process_def Let_def)
  have pt: "ptask ?k1 x = (if x = nr then child_of k lp else ptask k x)" for x
    by (simp add: ptask_def split: option.splits)
  have cur1: "cur ?k1 = cur k" using ne by (simp add: cur_def pt)
  note sc = tree_repD(1)[OF rep c]
  have os: "task ?k1 q \<noteq> None \<and> q \<noteq> nr" if "p_cptr (cur ?k1) = Some q" for q
  proof -
    have "p_cptr (ptask k ?c) = Some q" using that cur1 by (simp add: cur_def)
    with sibsD(4)[OF sc] have "q \<in> set (kids ?c)" by (cases "kids ?c") auto
    from sibsD(2)[OF sc this] free show ?thesis by auto
  qed
  have t1: "task ?k1 nr \<noteq> None" "task ?k1 (current ?k1) \<noteq> None" "current ?k1 \<noteq> nr" using c ne by auto
  note F = link_child_fields[OF t1 os, folded k']
  have al: "task k' x = None \<longleftrightarrow> x \<noteq> nr \<and> task k x = None" for x using F(1)[of x] by simp
  have pp: "p_pptr (ptask k' x) = (if x = nr then ?c else p_pptr (ptask k x))" for x
    using F(3)[of x] by (simp add: pt)
  have cp: "p_cptr (ptask k' x) = (if x = nr then None else if x = ?c then Some nr else p_cptr (ptask k x))" for x
    using F(4)[of x] by (simp add: pt)
  have ys: "p_ysptr (ptask k' x) = (if x = nr then None else if p_cptr (cur k) = Some x then Some nr else p_ysptr (ptask k x))" for x
    using F(5)[of x] by (simp add: pt cur1)
  have osp: "p_osptr (ptask k' x) = (if x = nr then p_cptr (cur k) else p_osptr (ptask k x))" for x
    using F(6)[of x] by (simp add: pt cur1)
  have nk: "nr \<notin> set (kids p)" if "task k p \<noteq> None" for p
    using sibsD(2)[OF tree_repD(1)[OF rep that], of nr] free by blast
  show ?thesis
    unfolding tree_rep_def
  proof (intro conjI allI impI)
    fix p assume p: "task k' p \<noteq> None"
    consider "p = nr" | "p = ?c" | "p \<noteq> nr" "p \<noteq> ?c" by blast
    then show "sibs k' p ((kids(nr := [], ?c := nr # kids ?c)) p)"
    proof cases
      case 1
      then show ?thesis using ne cp by (simp add: sibs_def)
    next
      case 2
      let ?cs = "kids ?c"
      have ch: "chain (\<lambda>x. p_osptr (ptask k' x)) (p_cptr (cur k)) ?cs"
      proof -
        have "chain (\<lambda>x. p_osptr (ptask k' x)) (p_cptr (cur k)) ?cs
            = chain (\<lambda>x. p_osptr (ptask k x)) (p_cptr (cur k)) ?cs"
          by (rule chain_cong) (use osp nk[OF c] in auto)
        then show ?thesis using sibsD(4)[OF sc] by (simp add: cur_def)
      qed
      have bc: "back_chain (\<lambda>x. p_ysptr (ptask k' x)) (Some nr) ?cs"
      proof (rule back_chain_replace[OF sibsD(5)[OF sc] sibsD(1)[OF sc]])
        fix x assume x: "x \<in> set ?cs"
        then obtain y zs where cs: "?cs = y # zs" by (cases ?cs) auto
        have "p_cptr (cur k) = Some y" using sibsD(4)[OF sc] cs by (simp add: cur_def)
        with x cs ys[of x] nk[OF c] show "p_ysptr (ptask k' x) = (if x = hd ?cs then Some nr else p_ysptr (ptask k x))"
          by auto
      qed
      have "sibs k' ?c (nr # ?cs)"
        unfolding sibs_def
      proof (intro conjI ballI)
        show "distinct (nr # ?cs)" using nk[OF c] sibsD(1)[OF sc] by simp
        show "chain (\<lambda>x. p_osptr (ptask k' x)) (p_cptr (ptask k' ?c)) (nr # ?cs)"
          using cp[of ?c] osp[of nr] ch ne by simp
        show "back_chain (\<lambda>x. p_ysptr (ptask k' x)) None (nr # ?cs)" using ys[of nr] bc by simp
        fix x assume x: "x \<in> set (nr # ?cs)"
        show "task k' x \<noteq> None" using x al[of x] sibsD(2)[OF sc, of x] by (metis set_ConsD)
        show "p_pptr (ptask k' x) = ?c" using x pp[of x] sibsD(3)[OF sc, of x] by (metis set_ConsD)
      qed
      with 2 ne show ?thesis by simp
    next
      case 3
      then have pk: "task k p \<noteq> None" using p al[of p] by metis
      note sp = tree_repD(1)[OF rep pk]
      have "sibs k' p (kids p)"
      proof (rule sibs_cong[OF sp])
        show "p_cptr (ptask k' p) = p_cptr (ptask k p)" using cp 3 by simp
        fix x assume x: "x \<in> set (kids p)"
        then have xn: "x \<noteq> nr" using nk[OF pk] by auto
        have "p_cptr (cur k) \<noteq> Some x"
        proof
          assume "p_cptr (cur k) = Some x"
          then have "x \<in> set (kids ?c)" using sibsD(4)[OF sc] by (cases "kids ?c") (auto simp: cur_def)
          with sibsD(3)[OF sc, of x] sibsD(3)[OF sp x] 3 show False by simp
        qed
        with xn al pp osp ys sibsD(2,3)[OF sp x]
        show "task k' x \<noteq> None \<and> p_pptr (ptask k' x) = p \<and> p_osptr (ptask k' x) = p_osptr (ptask k x)
            \<and> p_ysptr (ptask k' x) = p_ysptr (ptask k x)" by auto
      qed
      with 3 show ?thesis by simp
    qed
  next
    fix x assume x: "task k' x \<noteq> None" "x \<noteq> 0"
    show "task k' (p_pptr (ptask k' x)) \<noteq> None"
      using x al pp c tree_repD(2)[OF rep _ x(2)] by auto
    show "x \<in> set ((kids(nr := [], ?c := nr # kids ?c)) (p_pptr (ptask k' x)))"
    proof (cases "x = nr")
      case True
      then show ?thesis using pp ne by simp
    next
      case False
      then have xk: "task k x \<noteq> None" using x(1) al[of x] by metis
      have "p_pptr (ptask k x) \<noteq> nr" using tree_repD(2)[OF rep xk x(2)] free by auto
      then show ?thesis using tree_repD(3)[OF rep xk x(2)] pp False by auto
    qed
  qed
qed

lemma release_fields:
  assumes r: "release i k = Inr k'" and ni: "i \<noteq> current k"
    and os: "\<And>q. p_osptr (ptask k i) = Some q \<Longrightarrow> task k q \<noteq> None \<and> q \<noteq> i"
    and ys: "\<And>q. p_ysptr (ptask k i) = Some q \<Longrightarrow> task k q \<noteq> None \<and> q \<noteq> i"
    and pp: "task k (p_pptr (ptask k i)) \<noteq> None" "p_pptr (ptask k i) \<noteq> i"
  shows "(task k' x = None \<longleftrightarrow> x = i \<or> task k x = None) \<and> (x \<noteq> i \<longrightarrow>
      p_pptr (ptask k' x) = p_pptr (ptask k x) \<and>
      p_cptr (ptask k' x) =
        (if p_ysptr (ptask k i) = None \<and> x = p_pptr (ptask k i) then p_osptr (ptask k i) else p_cptr (ptask k x)) \<and>
      p_ysptr (ptask k' x) =
        (if p_osptr (ptask k i) = Some x then p_ysptr (ptask k i) else p_ysptr (ptask k x)) \<and>
      p_osptr (ptask k' x) =
        (if p_ysptr (ptask k i) = Some x then p_osptr (ptask k i) else p_osptr (ptask k x)))"
proof -
  let ?k1 = "k\<lparr>task := (task k)(i := None)\<rparr>"
  have pt: "x \<noteq> i \<Longrightarrow> ptask ?k1 x = ptask k x" for x by (simp add: ptask_def split: option.splits)
  show ?thesis
  proof (cases "p_osptr (ptask k i)")
    case n1: None
    show ?thesis
    proof (cases "p_ysptr (ptask k i)")
      case None
      with n1 r ni pp show ?thesis
        by (auto simp: release_def Let_def ptask_upd_task task_upd_task pt split: if_splits)
    next
      case (Some y)
      with ys[OF Some] n1 r ni pp show ?thesis
        by (auto simp: release_def Let_def ptask_upd_task task_upd_task pt split: if_splits)
    qed
  next
    case s1: (Some q)
    show ?thesis
    proof (cases "p_ysptr (ptask k i)")
      case None
      with os[OF s1] s1 r ni pp show ?thesis
        by (auto simp: release_def Let_def ptask_upd_task task_upd_task pt split: if_splits)
    next
      case (Some y)
      with ys[OF Some] os[OF s1] s1 r ni pp show ?thesis
        by (auto simp: release_def Let_def ptask_upd_task task_upd_task pt split: if_splits)
    qed
  qed
qed

text \<open>\<open>release\<close> takes a childless process out of its parent's children.\<close>

lemma release_tree:
  assumes rep: "tree_rep k kids" and "i \<noteq> current k" and i: "1 \<le> i" "i < NR_TASKS" "task k i \<noteq> None"
    and nokids: "kids i = []"
  shows "\<exists>k'. release i k = Inr k' \<and> task k' i = None
    \<and> tree_rep k' (kids(p_pptr (ptask k i) := remove1 i (kids (p_pptr (ptask k i)))))"
proof -
  let ?p = "p_pptr (ptask k i)"
  have i0: "i \<noteq> 0" using i(1) by simp
  have pk: "task k ?p \<noteq> None" and ip: "i \<in> set (kids ?p)" using tree_repD(2,3)[OF rep i(3) i0] by blast+
  have pi: "?p \<noteq> i" using ip nokids by force
  note sp = tree_repD(1)[OF rep pk]
  obtain xs zs where cs: "kids ?p = xs @ i # zs" using ip by (meson split_list)
  have dist: "distinct xs" "distinct zs" "i \<notin> set xs" "i \<notin> set zs" "set xs \<inter> set zs = {}"
    using sibsD(1)[OF sp] cs by auto
  have rm: "remove1 i (kids ?p) = xs @ zs" using cs dist by (simp add: remove1_append)
  let ?os = "\<lambda>c. p_osptr (ptask k c)" and ?ys = "\<lambda>c. p_ysptr (ptask k c)"
  obtain m where sx: "seg ?os (p_cptr (ptask k ?p)) xs m" and sm: "chain ?os m (i # zs)"
    using sibsD(4)[OF sp] unfolding cs chain_append by blast
  have m: "m = Some i" and cz: "chain ?os (?os i) zs" using sm by simp_all
  have bx: "back_chain ?ys None xs" and yi: "?ys i = (if xs = [] then None else Some (last xs))"
    and bz: "back_chain ?ys (Some i) zs"
    using sibsD(5)[OF sp] unfolding cs back_chain_append by simp_all
  have osi: "?os i = (if zs = [] then None else Some (hd zs))" using cz by (cases zs) auto
  obtain k' where r: "release i k = Inr k'"
    using assms(2) i by (auto simp: release_def Let_def)
  have memx: "task k x \<noteq> None \<and> p_pptr (ptask k x) = ?p \<and> x \<noteq> i" if "x \<in> set xs \<union> set zs" for x
    using that sibsD(2,3)[OF sp, of x] cs dist by auto
  have os: "task k q \<noteq> None \<and> q \<noteq> i" if "?os i = Some q" for q
    using that osi memx[of q] by (auto split: if_splits)
  have ys: "task k q \<noteq> None \<and> q \<noteq> i" if "?ys i = Some q" for q
    using that yi memx[of q] by (auto split: if_splits)
  note F = release_fields[OF r assms(2) os ys pk pi]
  have al: "task k' x = None \<longleftrightarrow> x = i \<or> task k x = None" for x using F[of x] by (rule conjunct1)
  have fpp: "x \<noteq> i \<Longrightarrow> p_pptr (ptask k' x) = p_pptr (ptask k x)"
    and fcp: "x \<noteq> i \<Longrightarrow> p_cptr (ptask k' x) = (if ?ys i = None \<and> x = ?p then ?os i else p_cptr (ptask k x))"
    and fys: "x \<noteq> i \<Longrightarrow> p_ysptr (ptask k' x) = (if ?os i = Some x then ?ys i else ?ys x)"
    and fos: "x \<noteq> i \<Longrightarrow> p_osptr (ptask k' x) = (if ?ys i = Some x then ?os i else ?os x)" for x
    using F[of x] by blast+
  have newp: "sibs k' ?p (xs @ zs)"
    unfolding sibs_def
  proof (intro conjI ballI)
    show "distinct (xs @ zs)" using dist by simp
    fix x assume "x \<in> set (xs @ zs)"
    then show "task k' x \<noteq> None" "p_pptr (ptask k' x) = ?p" using memx[of x] al[of x] fpp[of x] by auto
  next
    have c2: "chain (\<lambda>x. p_osptr (ptask k' x)) (?os i) zs"
    proof -
      have "chain (\<lambda>x. p_osptr (ptask k' x)) (?os i) zs = chain ?os (?os i) zs"
      proof (rule chain_cong)
        fix x assume x: "x \<in> set zs"
        then have "x \<notin> set xs" using dist by auto
        then have "?ys i \<noteq> Some x" using yi by (auto split: if_splits)
        then show "p_osptr (ptask k' x) = ?os x" using fos[of x] memx[of x] x by simp
      qed
      with cz show ?thesis by simp
    qed
    show "chain (\<lambda>x. p_osptr (ptask k' x)) (p_cptr (ptask k' ?p)) (xs @ zs)"
    proof (cases "xs = []")
      case True
      then show ?thesis using c2 fcp[OF pi] yi by simp
    next
      case False
      have "seg (\<lambda>x. p_osptr (ptask k' x)) (p_cptr (ptask k ?p)) xs (?os i)"
      proof (rule seg_upd_last[OF sx False dist(1)])
        fix c assume c: "c \<in> set xs" "c \<noteq> last xs"
        then have "?ys i \<noteq> Some c" using yi by (auto split: if_splits)
        then show "p_osptr (ptask k' c) = ?os c" using fos[of c] memx[of c] c(1) by simp
      next
        have "last xs \<in> set xs" using False by simp
        then show "p_osptr (ptask k' (last xs)) = ?os i" using fos[of "last xs"] memx[of "last xs"] yi False by simp
      qed
      moreover have "p_cptr (ptask k' ?p) = p_cptr (ptask k ?p)" using fcp[OF pi] yi False by simp
      ultimately show ?thesis using c2 by (auto simp: chain_append)
    qed
    have b1: "back_chain (\<lambda>x. p_ysptr (ptask k' x)) None xs"
    proof -
      have "back_chain (\<lambda>x. p_ysptr (ptask k' x)) None xs = back_chain ?ys None xs"
      proof (rule back_chain_cong)
        fix x assume x: "x \<in> set xs"
        then have "x \<notin> set zs" using dist by auto
        then have "?os i \<noteq> Some x" using osi by (auto split: if_splits)
        then show "p_ysptr (ptask k' x) = ?ys x" using fys[of x] memx[of x] x by simp
      qed
      with bx show ?thesis by simp
    qed
    have "back_chain (\<lambda>x. p_ysptr (ptask k' x)) (?ys i) zs"
    proof (rule back_chain_replace[OF bz dist(2)])
      fix x assume x: "x \<in> set zs"
      then have "?os i = Some x \<longleftrightarrow> x = hd zs" using osi by (auto split: if_splits)
      then show "p_ysptr (ptask k' x) = (if x = hd zs then ?ys i else ?ys x)"
        using fys[of x] memx[of x] x by simp
    qed
    with b1 yi show "back_chain (\<lambda>x. p_ysptr (ptask k' x)) None (xs @ zs)"
      by (simp add: back_chain_append)
  qed
  have "tree_rep k' (kids(?p := xs @ zs))"
    unfolding tree_rep_def
  proof (intro conjI allI impI)
    fix q assume q: "task k' q \<noteq> None"
    show "sibs k' q ((kids(?p := xs @ zs)) q)"
    proof (cases "q = ?p")
      case True
      with newp show ?thesis by simp
    next
      case False
      have qk: "task k q \<noteq> None" "q \<noteq> i" using q al[of q] by (metis, metis)
      note sq = tree_repD(1)[OF rep qk(1)]
      have "sibs k' q (kids q)"
      proof (rule sibs_cong[OF sq])
        show "p_cptr (ptask k' q) = p_cptr (ptask k q)" using fcp[OF qk(2)] False by simp
        fix x assume x: "x \<in> set (kids q)"
        then have xq: "p_pptr (ptask k x) = q" "task k x \<noteq> None" using sibsD(2,3)[OF sq] by blast+
        then have xi: "x \<noteq> i" using False by auto
        have "?ys i \<noteq> Some x" "?os i \<noteq> Some x"
          using yi osi memx[of x] xq(1) False by (auto split: if_splits)
        then show "task k' x \<noteq> None \<and> p_pptr (ptask k' x) = q \<and> p_osptr (ptask k' x) = p_osptr (ptask k x)
          \<and> p_ysptr (ptask k' x) = p_ysptr (ptask k x)"
          using xi xq fpp fys fos al by simp
      qed
      with False show ?thesis by simp
    qed
  next
    fix c assume c: "task k' c \<noteq> None" "c \<noteq> 0"
    then have ck: "task k c \<noteq> None" "c \<noteq> i" using al[of c] by (metis, metis)
    have pc: "p_pptr (ptask k' c) = p_pptr (ptask k c)" using fpp ck by simp
    have inp: "c \<in> set (kids (p_pptr (ptask k c)))" by (rule tree_repD(3)[OF rep ck(1) c(2)])
    then have "p_pptr (ptask k c) \<noteq> i" using nokids by force
    with tree_repD(2)[OF rep ck(1) c(2)] al pc show "task k' (p_pptr (ptask k' c)) \<noteq> None" by simp
    show "c \<in> set ((kids(?p := xs @ zs)) (p_pptr (ptask k' c)))"
    proof (cases "p_pptr (ptask k c) = ?p")
      case True
      with inp have "c \<in> set (xs @ i # zs)" unfolding cs[symmetric] by simp
      with True ck(2) show ?thesis by (simp add: pc)
    next
      case False
      with inp show ?thesis by (simp add: pc)
    qed
  qed
  moreover have "task k' i = None" using al by blast
  ultimately show ?thesis using r rm by auto
qed

section \<open>The children of a process that exits\<close>

lemma adopt_unfold:
  "\<exists>k3. same_links (upd_task p (\<lambda>t. t\<lparr>p_pptr := 1\<rparr>) k) k3
    \<and> adopt (Suc f) p k = (case p_osptr (ptask k3 p) of
         Some q \<Rightarrow> adopt f q k3 | None \<Rightarrow> Some (Inr (splice_children p k3)))"
proof -
  let ?k1 = "upd_task p (\<lambda>t. t\<lparr>p_pptr := 1\<rparr>) k"
  let ?k2 = "if t_state (ptask ?k1 p) = TASK_ZOMBIE
                then upd_task 1 (\<lambda>t. t\<lparr>signal := signal t OR sig_bit SIGCHLD\<rparr>) ?k1 else ?k1"
  let ?b = "pgrp (ptask ?k2 p) \<noteq> pgrp (cur ?k2) \<and> session (ptask ?k2 p) = session (cur ?k2)
                  \<and> is_orphaned_pgrp (pgrp (ptask ?k2 p)) ?k2 \<and> has_stopped_jobs (pgrp (ptask ?k2 p)) ?k2"
  have l12: "same_links ?k1 ?k2" by (simp add: same_links_upd)
  obtain k3 where k3: "(if ?b then hangup_pgrp (pgrp (ptask ?k2 p)) ?k2 else Inr ?k2) = Inr k3"
    and l23: "same_links ?k2 k3"
  proof (cases ?b)
    case True
    obtain k3 where h: "hangup_pgrp (pgrp (ptask ?k2 p)) ?k2 = Inr k3" "same_links ?k2 k3"
      using hangup_links by blast
    have "(if ?b then hangup_pgrp (pgrp (ptask ?k2 p)) ?k2 else Inr ?k2) = Inr k3"
      unfolding if_P[OF True] by (rule h(1))
    then show ?thesis using h(2) by (rule that)
  next
    case False
    have "(if ?b then hangup_pgrp (pgrp (ptask ?k2 p)) ?k2 else Inr ?k2) = Inr ?k2"
      by (rule if_not_P[OF False])
    then show ?thesis using same_links_refl by (rule that)
  qed
  have "adopt (Suc f) p k = (case p_osptr (ptask k3 p) of
         Some q \<Rightarrow> adopt f q k3 | None \<Rightarrow> Some (Inr (splice_children p k3)))"
    unfolding adopt.simps Let_def k3 by simp
  with same_links_trans[OF l12 l23] show ?thesis by blast
qed

lemma splice_fields:
  assumes "task k p \<noteq> None" and "task k (current k) \<noteq> None" and "task k 1 \<noteq> None" and "current k \<noteq> 1"
    and "p_cptr (ptask k 1) = Some h" and "task k h \<noteq> None"
  shows "current (splice_children p k) = current k
    \<and> (task (splice_children p k) x = None \<longleftrightarrow> task k x = None)
    \<and> p_pptr (ptask (splice_children p k) x) = p_pptr (ptask k x)
    \<and> p_cptr (ptask (splice_children p k) x) =
        (if x = current k then None else if x = 1 then p_cptr (cur k) else p_cptr (ptask k x))
    \<and> p_osptr (ptask (splice_children p k) x) = (if x = p then Some h else p_osptr (ptask k x))
    \<and> p_ysptr (ptask (splice_children p k) x) = (if x = h then Some p else p_ysptr (ptask k x))"
proof -
  let ?k1 = "upd_task p (\<lambda>t. t\<lparr>p_osptr := p_cptr (ptask k 1)\<rparr>) k"
  let ?k2 = "upd_task h (\<lambda>t. t\<lparr>p_ysptr := Some p\<rparr>) ?k1"
  have "p_cptr (ptask ?k1 1) = Some h" using assms(1,5) by (auto simp: ptask_upd_task)
  then have s: "splice_children p k = upd_cur (\<lambda>t. t\<lparr>p_cptr := None\<rparr>)
      (upd_task 1 (\<lambda>t. t\<lparr>p_cptr := p_cptr (cur ?k2)\<rparr>) ?k2)"
    unfolding splice_children_def Let_def by simp
  have k2: "ptask ?k2 y = (let t = if y = p then (ptask k y)\<lparr>p_osptr := Some h\<rparr> else ptask k y
      in if y = h then t\<lparr>p_ysptr := Some p\<rparr> else t)" for y
    using assms(1,5,6) by (simp add: ptask_upd_task Let_def)
  have c: "p_cptr (cur ?k2) = p_cptr (cur k)"
  proof -
    have "current ?k2 = current k" by simp
    then have "p_cptr (cur ?k2) = p_cptr (ptask ?k2 (current k))" by (simp only: cur_def)
    also have "\<dots> = p_cptr (cur k)" unfolding k2 by (simp add: Let_def cur_def)
    finally show ?thesis .
  qed
  have a: "task ?k2 1 \<noteq> None" "task ?k2 (current k) \<noteq> None" using assms by simp_all
  have p: "ptask (splice_children p k) y = (let t = if y = 1 then (ptask ?k2 y)\<lparr>p_cptr := p_cptr (cur k)\<rparr> else ptask ?k2 y
      in if y = current k then t\<lparr>p_cptr := None\<rparr> else t)" for y
    unfolding s upd_cur_def c using a assms(4) by (simp add: ptask_upd_task Let_def)
  have t: "task (splice_children p k) x = None \<longleftrightarrow> task k x = None" "current (splice_children p k) = current k"
    unfolding s by (simp_all add: upd_cur_def)
  show ?thesis unfolding p k2 using t assms(4,5) by (auto simp: Let_def)
qed

lemma adopt_links:
  assumes "chain (\<lambda>c. p_osptr (ptask k c)) (Some p) (p # ds)" and "distinct (p # ds)"
    and "\<And>x. x \<in> set (p # ds) \<Longrightarrow> task k x \<noteq> None" and "length (p # ds) \<le> fuel"
    and "task k (current k) \<noteq> None" and "task k 1 \<noteq> None" and "current k \<noteq> 1"
    and "p_cptr (ptask k 1) = Some h" and "task k h \<noteq> None"
  shows "\<exists>k'. adopt fuel p k = Some (Inr k') \<and> current k' = current k
    \<and> (\<forall>x. (task k' x = None \<longleftrightarrow> task k x = None) \<and> (task k x \<noteq> None \<longrightarrow>
         p_pptr (ptask k' x) = (if x \<in> set (p # ds) then 1 else p_pptr (ptask k x))
       \<and> p_cptr (ptask k' x) = (if x = current k then None else if x = 1 then p_cptr (cur k) else p_cptr (ptask k x))
       \<and> p_osptr (ptask k' x) = (if x = last (p # ds) then Some h else p_osptr (ptask k x))
       \<and> p_ysptr (ptask k' x) = (if x = h then Some (last (p # ds)) else p_ysptr (ptask k x))))"
  using assms
proof (induction ds arbitrary: p k fuel)
  case Nil
  obtain f where f: "fuel = Suc f" using Nil.prems(4) by (cases fuel) auto
  let ?k1 = "upd_task p (\<lambda>t. t\<lparr>p_pptr := 1\<rparr>) k"
  obtain k3 where l: "same_links ?k1 k3" and a: "adopt (Suc f) p k = (case p_osptr (ptask k3 p) of
         Some q \<Rightarrow> adopt f q k3 | None \<Rightarrow> Some (Inr (splice_children p k3)))"
    using adopt_unfold by blast
  have pk: "task k p \<noteq> None" using Nil.prems(3) by simp
  have F: "(task k3 x = None \<longleftrightarrow> task k x = None) \<and> (task k x \<noteq> None \<longrightarrow>
      p_pptr (ptask k3 x) = (if x = p then 1 else p_pptr (ptask k x)) \<and> p_cptr (ptask k3 x) = p_cptr (ptask k x)
      \<and> p_ysptr (ptask k3 x) = p_ysptr (ptask k x) \<and> p_osptr (ptask k3 x) = p_osptr (ptask k x))" for x
    using same_linksD(1,3)[OF l, of x] pk by (auto simp: ptask_upd_task)
  have c3: "current k3 = current k" using same_linksD(2)[OF l] by simp
  have "p_osptr (ptask k3 p) = None" using F[of p] pk Nil.prems(1) by simp
  then have r: "adopt fuel p k = Some (Inr (splice_children p k3))" using a f by simp
  have S: "current (splice_children p k3) = current k3
    \<and> (task (splice_children p k3) x = None \<longleftrightarrow> task k3 x = None)
    \<and> p_pptr (ptask (splice_children p k3) x) = p_pptr (ptask k3 x)
    \<and> p_cptr (ptask (splice_children p k3) x) =
        (if x = current k3 then None else if x = 1 then p_cptr (cur k3) else p_cptr (ptask k3 x))
    \<and> p_osptr (ptask (splice_children p k3) x) = (if x = p then Some h else p_osptr (ptask k3 x))
    \<and> p_ysptr (ptask (splice_children p k3) x) = (if x = h then Some p else p_ysptr (ptask k3 x))" for x
    by (rule splice_fields) (use F pk Nil.prems(5-9) c3 in auto)
  have cc: "p_cptr (cur k3) = p_cptr (cur k)" using F[of "current k"] Nil.prems(5) c3 by (simp add: cur_def)
  have fin: "(task (splice_children p k3) x = None \<longleftrightarrow> task k x = None) \<and> (task k x \<noteq> None \<longrightarrow>
         p_pptr (ptask (splice_children p k3) x) = (if x \<in> set [p] then 1 else p_pptr (ptask k x))
       \<and> p_cptr (ptask (splice_children p k3) x) = (if x = current k then None else if x = 1 then p_cptr (cur k) else p_cptr (ptask k x))
       \<and> p_osptr (ptask (splice_children p k3) x) = (if x = last [p] then Some h else p_osptr (ptask k x))
       \<and> p_ysptr (ptask (splice_children p k3) x) = (if x = h then Some (last [p]) else p_ysptr (ptask k x)))" for x
  proof (cases "task k x = None")
    case True
    then have "task k3 x = None" using F[of x] by simp
    then have "task (splice_children p k3) x = None" using S[of x] by simp
    with True show ?thesis by simp
  next
    case False
    with F[of x] have f: "p_pptr (ptask k3 x) = (if x = p then 1 else p_pptr (ptask k x))" "p_cptr (ptask k3 x) = p_cptr (ptask k x)"
      "p_ysptr (ptask k3 x) = p_ysptr (ptask k x)" "p_osptr (ptask k3 x) = p_osptr (ptask k x)" "task k3 x \<noteq> None" by blast+
    have t: "(task (splice_children p k3) x = None) = (task k x = None)" using S[of x] F[of x] by (simp only:)
    show ?thesis unfolding t using S[of x, unfolded f c3 cc] False by simp
  qed
  have cx: "current (splice_children p k3) = current k" using S c3 by simp
  show ?case by (rule exI[of _ "splice_children p k3"], rule conjI[OF r], rule conjI[OF cx], rule allI, rule fin)
next
  case (Cons q ds)
  obtain f where f: "fuel = Suc f" using Cons.prems(4) by (cases fuel) auto
  let ?k1 = "upd_task p (\<lambda>t. t\<lparr>p_pptr := 1\<rparr>) k"
  obtain k3 where l: "same_links ?k1 k3" and a: "adopt (Suc f) p k = (case p_osptr (ptask k3 p) of
         Some q \<Rightarrow> adopt f q k3 | None \<Rightarrow> Some (Inr (splice_children p k3)))"
    using adopt_unfold by blast
  have pk: "task k p \<noteq> None" using Cons.prems(3) by simp
  have F: "(task k3 x = None \<longleftrightarrow> task k x = None) \<and> (task k x \<noteq> None \<longrightarrow>
      p_pptr (ptask k3 x) = (if x = p then 1 else p_pptr (ptask k x)) \<and> p_cptr (ptask k3 x) = p_cptr (ptask k x)
      \<and> p_ysptr (ptask k3 x) = p_ysptr (ptask k x) \<and> p_osptr (ptask k3 x) = p_osptr (ptask k x))" for x
    using same_linksD(1,3)[OF l, of x] pk by (auto simp: ptask_upd_task)
  have c3: "current k3 = current k" using same_linksD(2)[OF l] by simp
  have "p_osptr (ptask k3 p) = Some q" using F[of p] pk Cons.prems(1) by simp
  then have r: "adopt fuel p k = adopt f q k3" using a f by simp
  have ch: "chain (\<lambda>c. p_osptr (ptask k3 c)) (Some q) (q # ds)"
  proof -
    have "chain (\<lambda>c. p_osptr (ptask k3 c)) (Some q) (q # ds) = chain (\<lambda>c. p_osptr (ptask k c)) (Some q) (q # ds)"
      by (rule chain_cong) (use F Cons.prems(3) in auto)
    then show ?thesis using Cons.prems(1) by simp
  qed
  have cc: "p_cptr (cur k3) = p_cptr (cur k)" using F[of "current k"] Cons.prems(5) c3 by (simp add: cur_def)
  have al: "\<And>x. x \<in> set (q # ds) \<Longrightarrow> task k3 x \<noteq> None" using F Cons.prems(3) by auto
  have d: "distinct (q # ds)" "p \<notin> set (q # ds)" using Cons.prems(2) by auto
  have prems: "length (q # ds) \<le> f" "task k3 (current k3) \<noteq> None" "task k3 1 \<noteq> None" "current k3 \<noteq> 1"
    "p_cptr (ptask k3 1) = Some h" "task k3 h \<noteq> None"
    using Cons.prems(4-9) f c3 F[of "current k"] F[of 1] F[of h] by auto
  obtain k' where k': "adopt f q k3 = Some (Inr k')" "current k' = current k3"
    and G: "\<And>x. (task k' x = None \<longleftrightarrow> task k3 x = None) \<and> (task k3 x \<noteq> None \<longrightarrow>
         p_pptr (ptask k' x) = (if x \<in> set (q # ds) then 1 else p_pptr (ptask k3 x))
       \<and> p_cptr (ptask k' x) = (if x = current k3 then None else if x = 1 then p_cptr (cur k3) else p_cptr (ptask k3 x))
       \<and> p_osptr (ptask k' x) = (if x = last (q # ds) then Some h else p_osptr (ptask k3 x))
       \<and> p_ysptr (ptask k' x) = (if x = h then Some (last (q # ds)) else p_ysptr (ptask k3 x)))"
    using Cons.IH[OF ch d(1) al prems] by blast
  have fin: "(task k' x = None \<longleftrightarrow> task k x = None) \<and> (task k x \<noteq> None \<longrightarrow>
         p_pptr (ptask k' x) = (if x \<in> set (p # q # ds) then 1 else p_pptr (ptask k x))
       \<and> p_cptr (ptask k' x) = (if x = current k then None else if x = 1 then p_cptr (cur k) else p_cptr (ptask k x))
       \<and> p_osptr (ptask k' x) = (if x = last (p # q # ds) then Some h else p_osptr (ptask k x))
       \<and> p_ysptr (ptask k' x) = (if x = h then Some (last (p # q # ds)) else p_ysptr (ptask k x)))" for x
  proof (cases "task k x = None")
    case True
    then have "task k3 x = None" using F[of x] by simp
    then have "task k' x = None" using G[of x] by simp
    with True show ?thesis by simp
  next
    case False
    with F[of x] have f: "p_pptr (ptask k3 x) = (if x = p then 1 else p_pptr (ptask k x))" "p_cptr (ptask k3 x) = p_cptr (ptask k x)"
      "p_ysptr (ptask k3 x) = p_ysptr (ptask k x)" "p_osptr (ptask k3 x) = p_osptr (ptask k x)" "task k3 x \<noteq> None" by blast+
    have t: "(task k' x = None) = (task k x = None)" using G[of x] F[of x] by (simp only:)
    show ?thesis unfolding t using G[of x, unfolded f c3 cc] f(5) False by simp
  qed
  have rx: "adopt fuel p k = Some (Inr k')" using r k'(1) by simp
  have cx: "current k' = current k" using k'(2) c3 by simp
  show ?case by (rule exI[of _ k'], rule conjI[OF rx], rule conjI[OF cx], rule allI, rule fin)
qed

lemma adopt_tree:
  assumes rep: "tree_rep k kids" and cs: "kids (current k) = p # ds" and hs: "kids 1 = h # hs"
    and c: "task k (current k) \<noteq> None" and i: "task k 1 \<noteq> None" and ci: "current k \<noteq> 1"
    and fuel: "length (p # ds) \<le> fuel"
  shows "\<exists>k'. adopt fuel p k = Some (Inr k') \<and> current k' = current k
    \<and> tree_rep k' (kids(current k := [], 1 := kids (current k) @ kids 1))"
proof -
  note sc = tree_repD(1)[OF rep c, unfolded cs]
  note si = tree_repD(1)[OF rep i, unfolded hs]
  have pc: "\<And>x. x \<in> set (p # ds) \<Longrightarrow> p_pptr (ptask k x) = current k" and pi: "\<And>x. x \<in> set (h # hs) \<Longrightarrow> p_pptr (ptask k x) = 1"
    using sibsD(3)[OF sc] sibsD(3)[OF si] by blast+
  have disj: "set (p # ds) \<inter> set (h # hs) = {}"
  proof (rule ccontr)
    assume "set (p # ds) \<inter> set (h # hs) \<noteq> {}"
    then obtain x where "x \<in> set (p # ds)" "x \<in> set (h # hs)" by blast
    with pc pi ci show False by metis
  qed
  have ccp: "p_cptr (cur k) = Some p" "p_cptr (ptask k 1) = Some h"
    using sibsD(4)[OF sc] sibsD(4)[OF si] by (simp_all add: cur_def)
  have ch: "chain (\<lambda>c. p_osptr (ptask k c)) (Some p) (p # ds)" using sibsD(4)[OF sc] by simp
  have chh: "chain (\<lambda>c. p_osptr (ptask k c)) (Some h) (h # hs)" using sibsD(4)[OF si] by simp
  have hk: "task k h \<noteq> None" using sibsD(2)[OF si] by simp
  obtain k' where r: "adopt fuel p k = Some (Inr k')" "current k' = current k"
    and G: "\<And>x. (task k' x = None \<longleftrightarrow> task k x = None) \<and> (task k x \<noteq> None \<longrightarrow>
         p_pptr (ptask k' x) = (if x \<in> set (p # ds) then 1 else p_pptr (ptask k x))
       \<and> p_cptr (ptask k' x) = (if x = current k then None else if x = 1 then p_cptr (cur k) else p_cptr (ptask k x))
       \<and> p_osptr (ptask k' x) = (if x = last (p # ds) then Some h else p_osptr (ptask k x))
       \<and> p_ysptr (ptask k' x) = (if x = h then Some (last (p # ds)) else p_ysptr (ptask k x)))"
    using adopt_links[OF ch sibsD(1)[OF sc] sibsD(2)[OF sc] fuel c i ci ccp(2) hk] by blast
  have al: "(task k' x = None) = (task k x = None)" for x using G[of x] by (rule conjunct1)
  have fp: "p_pptr (ptask k' x) = (if x \<in> set (p # ds) then 1 else p_pptr (ptask k x))"
    and fc: "p_cptr (ptask k' x) = (if x = current k then None else if x = 1 then p_cptr (cur k) else p_cptr (ptask k x))"
    and fo: "p_osptr (ptask k' x) = (if x = last (p # ds) then Some h else p_osptr (ptask k x))"
    and fy: "p_ysptr (ptask k' x) = (if x = h then Some (last (p # ds)) else p_ysptr (ptask k x))"
    if "task k x \<noteq> None" for x using G[of x] that by blast+
  let ?kids = "kids(current k := [], 1 := kids (current k) @ kids 1)"
  have one: "sibs k' 1 ((p # ds) @ (h # hs))"
    unfolding sibs_def
  proof (intro conjI ballI)
    show "distinct ((p # ds) @ (h # hs))" using sibsD(1)[OF sc] sibsD(1)[OF si] disj by auto
  next
    fix x assume x: "x \<in> set ((p # ds) @ (h # hs))"
    then have xk: "task k x \<noteq> None" using sibsD(2)[OF sc] sibsD(2)[OF si] by (metis Un_iff set_append)
    show "task k' x \<noteq> None" unfolding al by (rule xk)
    show "p_pptr (ptask k' x) = 1" using fp[OF xk] x pi by (cases "x \<in> set (p # ds)") auto
  next
    have "seg (\<lambda>x. p_osptr (ptask k' x)) (Some p) (p # ds) (Some h)"
    proof (rule seg_upd_last[OF ch[folded seg_None] _ sibsD(1)[OF sc]])
      fix x assume x: "x \<in> set (p # ds)" "x \<noteq> last (p # ds)"
      with fo[OF sibsD(2)[OF sc x(1)]] show "p_osptr (ptask k' x) = p_osptr (ptask k x)" by simp
    next
      have "last (p # ds) \<in> set (p # ds)" by (rule last_in_set) simp
      then show "p_osptr (ptask k' (last (p # ds))) = Some h" using fo[OF sibsD(2)[OF sc]] by simp
    qed simp
    moreover have "chain (\<lambda>x. p_osptr (ptask k' x)) (Some h) (h # hs)"
    proof -
      have "chain (\<lambda>x. p_osptr (ptask k' x)) (Some h) (h # hs) = chain (\<lambda>c. p_osptr (ptask k c)) (Some h) (h # hs)"
      proof (rule chain_cong)
        fix x assume x: "x \<in> set (h # hs)"
        have "last (p # ds) \<in> set (p # ds)" by (rule last_in_set) simp
        then have "x \<noteq> last (p # ds)" using x disj by blast
        then show "p_osptr (ptask k' x) = p_osptr (ptask k x)" using fo[OF sibsD(2)[OF si x]] by simp
      qed
      with chh show ?thesis by simp
    qed
    moreover have "p_cptr (ptask k' 1) = Some p" using fc[OF i] ci ccp by auto
    ultimately show "chain (\<lambda>x. p_osptr (ptask k' x)) (p_cptr (ptask k' 1)) ((p # ds) @ (h # hs))"
      unfolding chain_append by metis
  next
    have "back_chain (\<lambda>x. p_ysptr (ptask k' x)) None (p # ds)"
    proof -
      have "back_chain (\<lambda>x. p_ysptr (ptask k' x)) None (p # ds) = back_chain (\<lambda>c. p_ysptr (ptask k c)) None (p # ds)"
      proof (rule back_chain_cong)
        fix x assume x: "x \<in> set (p # ds)"
        then have "x \<noteq> h" using disj by auto
        then show "p_ysptr (ptask k' x) = p_ysptr (ptask k x)" using fy[OF sibsD(2)[OF sc x]] by simp
      qed
      with sibsD(5)[OF sc] show ?thesis by simp
    qed
    moreover have "back_chain (\<lambda>x. p_ysptr (ptask k' x)) (Some (last (p # ds))) (h # hs)"
    proof (rule back_chain_replace[OF sibsD(5)[OF si] sibsD(1)[OF si]])
      fix x assume x: "x \<in> set (h # hs)"
      show "p_ysptr (ptask k' x) = (if x = hd (h # hs) then Some (last (p # ds)) else p_ysptr (ptask k x))"
        using fy[OF sibsD(2)[OF si x]] by simp
    qed
    ultimately show "back_chain (\<lambda>x. p_ysptr (ptask k' x)) None ((p # ds) @ (h # hs))"
      unfolding back_chain_append by simp
  qed
  have "tree_rep k' ?kids"
    unfolding tree_rep_def
  proof (intro conjI allI impI)
    fix q assume q: "task k' q \<noteq> None"
    then have qk: "task k q \<noteq> None" unfolding al .
    show "sibs k' q (?kids q)"
    proof (cases "q = 1")
      case True
      have "?kids q = (p # ds) @ (h # hs)" unfolding True fun_upd_same cs hs ..
      with one True show ?thesis by simp
    next
      case False
      note q1 = this
      show ?thesis
      proof (cases "q = current k")
        case True
        with q1 fc[OF c] show ?thesis by (simp add: sibs_def)
      next
        case False
        note sq = tree_repD(1)[OF rep qk]
        have "sibs k' q (kids q)"
        proof (rule sibs_cong[OF sq])
          show "p_cptr (ptask k' q) = p_cptr (ptask k q)" using fc[OF qk] False q1 by simp
          fix x assume x: "x \<in> set (kids q)"
          note xk = sibsD(2)[OF sq x] and xp = sibsD(3)[OF sq x]
          have "last (p # ds) \<in> set (p # ds)" by (rule last_in_set) simp
          then have ne: "x \<notin> set (p # ds)" "x \<noteq> last (p # ds)" "x \<noteq> h"
            using xp pc pi[of h] False q1 by auto
          show "task k' x \<noteq> None \<and> p_pptr (ptask k' x) = q \<and> p_osptr (ptask k' x) = p_osptr (ptask k x)
            \<and> p_ysptr (ptask k' x) = p_ysptr (ptask k x)"
            unfolding al fp[OF xk] fo[OF xk] fy[OF xk] using ne xk xp by simp
        qed
        with q1 False show ?thesis by simp
      qed
    qed
  next
    fix x assume x: "task k' x \<noteq> None" "x \<noteq> 0"
    have xk: "task k x \<noteq> None" using x(1) unfolding al .
    note m = tree_repD(2,3)[OF rep xk x(2)]
    show "task k' (p_pptr (ptask k' x)) \<noteq> None" unfolding al fp[OF xk] using m(1) i by simp
    show "x \<in> set (?kids (p_pptr (ptask k' x)))"
    proof (cases "x \<in> set (p # ds)")
      case True
      then show ?thesis unfolding fp[OF xk] by (auto simp: cs)
    next
      case False
      then have "p_pptr (ptask k x) \<noteq> current k" using m(2) cs by auto
      with m(2) show ?thesis unfolding fp[OF xk] if_not_P[OF False] by auto
    qed
  qed
  with r show ?thesis by blast
qed

lemma same_links_tty [simp]: "same_links k (k\<lparr>tty_pgrp := f, tty_session := g\<rparr>)"
  by (simp add: same_links_def)

lemma drop_tty_links: "\<exists>k'. drop_tty k = Inr k' \<and> same_links k k'"
proof -
  let ?t = "TTY_TABLE k (t_tty (cur k))"
  obtain k1 where k1: "(if tty_pgrp k ?t > 0
      then kbind (kill_pg (tty_pgrp k ?t) (int SIGHUP) True k) (\<lambda>(_, k'). Inr k') else Inr k) = Inr k1" "same_links k k1"
  proof (cases "tty_pgrp k ?t > 0")
    case True
    obtain r k1 where "kill_pg (tty_pgrp k ?t) (int SIGHUP) True k = Inr (r, k1)" "same_links k k1"
      using kill_pg_links[of "int SIGHUP" "tty_pgrp k ?t" True k] unfolding SIGHUP_def by auto
    then show ?thesis using True that[of k1] by simp
  next
    case False
    show ?thesis by (rule that[of k]) (simp_all only: if_not_P[OF False] same_links_refl)
  qed
  from same_links_trans[OF k1(2) same_links_tty] show ?thesis
    unfolding drop_tty_def Let_def k1(1) by simp
qed

lemma leave_session_links: "\<exists>k'. leave_session k = Inr k' \<and> same_links k k'"
proof -
  have f: "same_links k (foldl (\<lambda>k i. if session (ptask k i) = session (cur k)
      then upd_task i (\<lambda>t. t\<lparr>t_tty := - 1\<rparr>) k else k) k xs)" for k xs
  proof (induction xs arbitrary: k)
    case (Cons i xs)
    have "same_links k (upd_task i (\<lambda>t. t\<lparr>t_tty := - 1\<rparr>) k)" by (rule same_links_upd) simp
    from same_links_trans[OF this Cons.IH] Cons.IH show ?case by simp
  qed simp
  obtain k1 where k1: "drop_tty k = Inr k1" "same_links k k1" using drop_tty_links by blast
  show ?thesis
    unfolding leave_session_def k1(1) using same_links_trans[OF k1(2) f] by simp
qed

text \<open>
  \<open>do_exit\<close> returns, and hands all children of the task to process 1, in their order and in front
  of those it had; every other list of children is unchanged.
\<close>

lemma exit_tree_raw:
  assumes rep: "tree_rep k kids" and c: "task k (current k) \<noteq> None" and i: "task k 1 \<noteq> None"
    and ci: "current k \<noteq> 1" and hs: "kids 1 \<noteq> []" and fuel: "length (kids (current k)) \<le> fuel"
  shows "\<exists>k'. do_exit fuel code k = Some (Inr k') \<and> current k' = current k
    \<and> tree_rep k' (kids(current k := [], 1 := kids (current k) @ kids 1))"
proof -
  let ?k1 = "upd_cur (\<lambda>t. t\<lparr>t_state := TASK_ZOMBIE, exit_code := code\<rparr>) k"
  let ?b = "pgrp (ptask ?k1 (p_pptr (cur ?k1))) \<noteq> pgrp (cur ?k1) \<and> session (ptask ?k1 (p_pptr (cur ?k1))) = session (cur ?k1)
                  \<and> is_orphaned_pgrp (pgrp (cur ?k1)) ?k1 \<and> has_stopped_jobs (pgrp (cur ?k1)) ?k1"
  have l1: "same_links k ?k1" unfolding upd_cur_def using c by (auto intro: same_links_upd)
  obtain k2 where k2: "(if ?b then hangup_pgrp (pgrp (cur ?k1)) ?k1 else Inr ?k1) = Inr k2" and l2: "same_links ?k1 k2"
  proof (cases ?b)
    case True
    obtain k2 where h: "hangup_pgrp (pgrp (cur ?k1)) ?k1 = Inr k2" "same_links ?k1 k2"
      using hangup_links by blast
    show ?thesis by (rule that[of k2]) (simp_all only: if_P[OF True] h)
  next
    case False
    show ?thesis by (rule that[of ?k1]) (simp_all only: if_not_P[OF False] same_links_refl)
  qed
  define k3 where "k3 = upd_task (p_pptr (cur k2)) (\<lambda>t. t\<lparr>signal := signal t OR sig_bit SIGCHLD\<rparr>) k2"
  have l3: "same_links k k3"
  proof -
    have "same_links k2 k3" unfolding k3_def by (rule same_links_upd) simp
    with same_links_trans[OF same_links_trans[OF l1 l2]] show ?thesis by blast
  qed
  have cu: "current k3 = current k" by (rule same_linksD(2)[OF l3])
  have rep3: "tree_rep k3 kids" by (rule tree_rep_same_links[OF rep l3])
  have c3: "task k3 (current k3) \<noteq> None" and i3: "task k3 1 \<noteq> None"
    unfolding cu same_linksD(1)[OF l3] by (rule c, rule i)
  have cp: "chain (\<lambda>c. p_osptr (ptask k3 c)) (p_cptr (cur k3)) (kids (current k3))"
    using sibsD(4)[OF tree_repD(1)[OF rep3 c3]] by (simp add: cur_def)
  have "\<exists>k4. (case p_cptr (cur k3) of None \<Rightarrow> Some (Inr k3) | Some p \<Rightarrow> adopt fuel p k3) = Some (Inr k4)
      \<and> current k4 = current k3 \<and> tree_rep k4 (kids(current k3 := [], 1 := kids (current k3) @ kids 1))"
  proof (cases "kids (current k3)")
    case Nil
    then have "kids(current k3 := [], 1 := kids (current k3) @ kids 1) = kids" by auto
    with Nil cp rep3 show ?thesis by simp
  next
    case (Cons p ds)
    obtain h hs' where h: "kids 1 = h # hs'" using hs by (cases "kids 1") auto
    have "p_cptr (cur k3) = Some p" using cp Cons by simp
    with adopt_tree[OF rep3 Cons h c3 i3] cu ci fuel Cons show ?thesis by simp
  qed
  then obtain k4 where k4: "(case p_cptr (cur k3) of None \<Rightarrow> Some (Inr k3) | Some p \<Rightarrow> adopt fuel p k3) = Some (Inr k4)"
    "current k4 = current k" "tree_rep k4 (kids(current k := [], 1 := kids (current k) @ kids 1))"
    unfolding cu by blast
  obtain k5 where k5: "leave_session k4 = Inr k5" "same_links k4 k5" using leave_session_links by blast
  have "do_exit fuel code k = Some (Inr k5)"
    unfolding do_exit_def Let_def k2 sum.case k3_def[symmetric] k4(1) option.case kbind.simps k5(1) ..
  moreover have "current k5 = current k" using same_linksD(2)[OF k5(2)] k4(2) by simp
  moreover note tree_rep_same_links[OF k4(3) k5(2)]
  ultimately show ?thesis by blast
qed

section \<open>Waiting for a child\<close>

text \<open>The children \<open>waitpid\<close> reports: dead ones, and stopped ones when asked and not reported yet.\<close>

definition reportable :: "int \<Rightarrow> bool \<Rightarrow> kernel \<Rightarrow> nat \<Rightarrow> bool" where
  "reportable p untraced k c \<longleftrightarrow> wait_matches p k (ptask k c)
     \<and> (t_state (ptask k c) = TASK_ZOMBIE
        \<or> t_state (ptask k c) = TASK_STOPPED \<and> untraced \<and> exit_code (ptask k c) \<noteq> 0)"

definition still_runs :: "int \<Rightarrow> kernel \<Rightarrow> nat \<Rightarrow> bool" where
  "still_runs p k c \<longleftrightarrow> wait_matches p k (ptask k c)
     \<and> t_state (ptask k c) \<noteq> TASK_ZOMBIE \<and> t_state (ptask k c) \<noteq> TASK_STOPPED"

lemma wait_scan_spec:
  assumes "chain (\<lambda>c. p_osptr (ptask k c)) h cs" and "length cs \<le> fuel"
  shows "wait_scan fuel p u h flag k = Some
    (case find (reportable p u k) cs of
       Some c \<Rightarrow> if t_state (ptask k c) = TASK_ZOMBIE then Dead c else Stopped c
     | None \<Rightarrow> Done (flag \<or> (\<exists>c \<in> set cs. still_runs p k c)))"
  using assms
proof (induction cs arbitrary: h fuel flag)
  case Nil
  then show ?case by simp
next
  case (Cons c cs)
  then obtain f where f: "fuel = Suc f" and h: "h = Some c" by (cases fuel) auto
  have ch: "chain (\<lambda>c. p_osptr (ptask k c)) (p_osptr (ptask k c)) cs" "length cs \<le> f"
    using Cons.prems f h by auto
  note IH = Cons.IH[OF ch]
  show ?case
  proof (cases "wait_matches p k (ptask k c)")
    case False
    then have "\<not> reportable p u k c" "\<not> still_runs p k c" by (simp_all add: reportable_def still_runs_def)
    with False IH[of flag] show ?thesis by (simp add: f h Let_def split: option.split)
  next
    case True
    then have r: "reportable p u k c \<longleftrightarrow> t_state (ptask k c) = TASK_ZOMBIE
        \<or> t_state (ptask k c) = TASK_STOPPED \<and> u \<and> exit_code (ptask k c) \<noteq> 0"
      and s: "still_runs p k c \<longleftrightarrow> t_state (ptask k c) \<noteq> TASK_ZOMBIE \<and> t_state (ptask k c) \<noteq> TASK_STOPPED"
      by (simp_all add: reportable_def still_runs_def)
    from True IH[of flag] IH[of True] show ?thesis
      by (cases "t_state (ptask k c)") (simp_all add: f h Let_def r s split: option.split)
  qed
qed

text \<open>\<open>release\<close> changes nothing of the other tasks but the links of the tree.\<close>

definition same_but_links :: "task option \<Rightarrow> task option \<Rightarrow> bool" where
  "same_but_links a b \<longleftrightarrow>
     (case a of None \<Rightarrow> b = None
      | Some t \<Rightarrow> \<exists>c o' y. b = Some (t\<lparr>p_cptr := c, p_osptr := o', p_ysptr := y\<rparr>))"

lemma same_but_links_trans: "same_but_links a b \<Longrightarrow> same_but_links b c \<Longrightarrow> same_but_links a c"
  by (cases a) (auto simp: same_but_links_def)

lemma same_but_links_refl: "same_but_links a a"
proof (cases a)
  case (Some t)
  have "a = Some (t\<lparr>p_cptr := p_cptr t, p_osptr := p_osptr t, p_ysptr := p_ysptr t\<rparr>)" using Some by simp
  then show ?thesis unfolding same_but_links_def Some option.case by blast
qed (simp add: same_but_links_def)

lemma same_but_links_upd:
  assumes "\<And>t. \<exists>c o' y. f t = t\<lparr>p_cptr := c, p_osptr := o', p_ysptr := y\<rparr>"
  shows "same_but_links (task k j) (task (upd_task m f k) j)"
proof (cases "j = m")
  case True
  then show ?thesis using assms by (cases "task k m") (auto simp: same_but_links_def task_upd_task)
qed (simp add: task_upd_task same_but_links_refl)

lemma release_frame:
  assumes "release i k = Inr k'" and "i \<noteq> current k" and "j \<noteq> i"
  shows "same_but_links (task k j) (task k' j)" and "current k' = current k"
proof -
  let ?t = "ptask k i" and ?k1 = "k\<lparr>task := (task k)(i := None)\<rparr>"
  have ys: "\<exists>c o' y. t\<lparr>p_ysptr := v\<rparr> = t\<lparr>p_cptr := c, p_osptr := o', p_ysptr := y\<rparr>" for t v
    by (rule exI[of _ "p_cptr t"], rule exI[of _ "p_osptr t"]) auto
  have os: "\<exists>c o' y. t\<lparr>p_osptr := v\<rparr> = t\<lparr>p_cptr := c, p_osptr := o', p_ysptr := y\<rparr>" for t v
    by (rule exI[of _ "p_cptr t"], rule exI[of _ v], rule exI[of _ "p_ysptr t"]) simp
  have cs: "\<exists>c o' y. t\<lparr>p_cptr := v\<rparr> = t\<lparr>p_cptr := c, p_osptr := o', p_ysptr := y\<rparr>" for t v
    by (rule exI[of _ v], rule exI[of _ "p_osptr t"], rule exI[of _ "p_ysptr t"]) simp
  note u = same_but_links_upd[OF ys] same_but_links_upd[OF os] same_but_links_upd[OF cs]
  have 1: "same_but_links (task k j) (task ?k1 j)" using assms(3) by (simp add: same_but_links_refl)
  define k2 where "k2 = (case p_osptr ?t of None \<Rightarrow> ?k1 | Some o' \<Rightarrow> upd_task o' (\<lambda>u. u\<lparr>p_ysptr := p_ysptr ?t\<rparr>) ?k1)"
  have 2: "same_but_links (task k j) (task k2 j)" "current k2 = current k"
    using same_but_links_trans[OF 1] u(1)[of ?k1] 1 by (auto simp: k2_def split: option.split)
  have k': "k' = (case p_ysptr ?t of Some y \<Rightarrow> upd_task y (\<lambda>u. u\<lparr>p_osptr := p_osptr ?t\<rparr>) k2
      | None \<Rightarrow> upd_task (p_pptr ?t) (\<lambda>u. u\<lparr>p_cptr := p_osptr ?t\<rparr>) k2)"
    using assms(1,2) unfolding k2_def release_def Let_def if_not_P[OF assms(2)] by (simp split: if_splits)
  show "same_but_links (task k j) (task k' j)"
    using same_but_links_trans[OF 2(1)] u(2,3)[of k2] by (auto simp: k' split: option.split)
  show "current k' = current k" using 2(2) by (simp add: k' split: option.split)
qed

text \<open>A dead child that is found is reported with its exit code, released, and off its parent's list.\<close>

lemma waitpid_reaps_raw:
  assumes rep: "tree_rep k kids" and c: "task k (current k) \<noteq> None"
    and fuel: "length (kids (current k)) \<le> fuel"
    and fd: "find (reportable p u k) (kids (current k)) = Some i" and z: "t_state (ptask k i) = TASK_ZOMBIE"
    and r: "1 \<le> i" "i < NR_TASKS" "kids i = []" "i \<noteq> current k"
  shows "\<exists>k'. sys_waitpid fuel p nohang u envs k = Some (Inr (pid (ptask k i), Some (exit_code (ptask k i)), k'))
    \<and> task k' i = None \<and> tree_rep k' (kids(current k := remove1 i (kids (current k))))
    \<and> cutime (cur k') = cutime (cur k) + utime (ptask k i) \<and> cstime (cur k') = cstime (cur k) + stime (ptask k i)
    \<and> (\<forall>j. j \<noteq> i \<longrightarrow> j \<noteq> current k \<longrightarrow> same_but_links (task k j) (task k' j))"
proof -
  let ?t = "ptask k i"
  let ?k1 = "upd_cur (\<lambda>w. w\<lparr>cutime := cutime w + utime ?t, cstime := cstime w + stime ?t\<rparr>) k"
  note sc = tree_repD(1)[OF rep c]
  have "i \<in> set (kids (current k))" using fd by (auto simp: find_Some_iff)
  then have ik: "task k i \<noteq> None" "p_pptr ?t = current k" using sibsD(2,3)[OF sc] by blast+
  have l: "same_links k ?k1" unfolding upd_cur_def using c by (auto intro: same_links_upd)
  have rep1: "tree_rep ?k1 kids" by (rule tree_rep_same_links[OF rep l])
  have i1: "task ?k1 i \<noteq> None" unfolding same_linksD(1)[OF l] by (rule ik(1))
  have pp: "p_pptr (ptask ?k1 i) = current k" using same_linksD(3)[OF l ik(1)] ik(2) by simp
  have ne: "i \<noteq> current ?k1" using r(4) by simp
  obtain k' where k': "release i ?k1 = Inr k'" "task k' i = None"
    "tree_rep k' (kids(current k := remove1 i (kids (current k))))"
    using release_tree[OF rep1 ne r(1,2) i1 r(3)] unfolding pp by blast
  have "wait_scan fuel p u (p_cptr (cur k)) False k = Some (Dead i)"
    using wait_scan_spec[OF sibsD(4)[OF sc] fuel, of p u False] fd z by (simp add: cur_def)
  then have "sys_waitpid fuel p nohang u envs k = Some (Inr (pid ?t, Some (exit_code ?t), k'))"
    by (subst sys_waitpid.simps) (simp add: Let_def k'(1))
  moreover have "same_but_links (task k j) (task k' j)" if "j \<noteq> i" "j \<noteq> current k" for j
    using release_frame(1)[OF k'(1) ne that(1)] that(2) by (simp add: upd_cur_def task_upd_task)
  moreover have "cutime (cur k') = cutime (cur ?k1)" "cstime (cur k') = cstime (cur ?k1)"
    using release_frame[OF k'(1) ne, of "current k"] r(4) c
    by (auto simp: same_but_links_def cur_def ptask_def upd_cur_def task_upd_task)
  ultimately show ?thesis using k'(2,3) by auto
qed

text \<open>With no child that matches and could still report, the answer is \<open>ECHILD\<close>.\<close>

lemma waitpid_echild_raw:
  assumes rep: "tree_rep k kids" and c: "task k (current k) \<noteq> None"
    and fuel: "length (kids (current k)) \<le> fuel"
    and no: "\<forall>i \<in> set (kids (current k)). \<not> reportable p u k i \<and> \<not> still_runs p k i"
  shows "sys_waitpid fuel p nohang u envs k = Some (Inr (- ECHILD, None, k))"
proof -
  note sc = tree_repD(1)[OF rep c]
  have "find (reportable p u k) (kids (current k)) = None" using no by (auto simp: find_None_iff)
  then have "wait_scan fuel p u (p_cptr (cur k)) False k = Some (Done False)"
    using wait_scan_spec[OF sibsD(4)[OF sc] fuel, of p u False] no by (simp add: cur_def)
  then show ?thesis by (subst sys_waitpid.simps) simp
qed

text \<open>
  What the first look at the children decides: a child to report, dead or stopped; one that may report later; none.
\<close>

lemma waitpid_first_look:
  assumes rep: "tree_rep k kids" and c: "task k (current k) \<noteq> None"
    and fuel: "length (kids (current k)) \<le> fuel"
    and r: "\<And>i. i \<in> set (kids (current k)) \<Longrightarrow> 1 \<le> i \<and> i < NR_TASKS \<and> i \<noteq> current k \<and> (t_state (ptask k i) = TASK_ZOMBIE \<longrightarrow> kids i = [])"
  shows "case find (reportable p u k) (kids (current k)) of
      Some i \<Rightarrow>
        if t_state (ptask k i) = TASK_ZOMBIE
        then \<exists>k'. sys_waitpid fuel p nohang u envs k = Some (Inr (pid (ptask k i), Some (exit_code (ptask k i)), k'))
          \<and> task k' i = None \<and> tree_rep k' (kids(current k := remove1 i (kids (current k))))
          \<and> cutime (cur k') = cutime (cur k) + utime (ptask k i) \<and> cstime (cur k') = cstime (cur k) + stime (ptask k i)
          \<and> (\<forall>j. j \<noteq> i \<longrightarrow> j \<noteq> current k \<longrightarrow> same_but_links (task k j) (task k' j))
        else sys_waitpid fuel p nohang u envs k
          = Some (Inr (pid (ptask k i), Some (push_bit 8 (exit_code (ptask k i)) OR 0x7F), upd_task i (\<lambda>t. t\<lparr>exit_code := 0\<rparr>) k))
    | None \<Rightarrow>
        if \<exists>i\<in>set (kids (current k)). still_runs p k i
        then sys_waitpid fuel p True u envs k = Some (Inr (0, None, k))
        else sys_waitpid fuel p nohang u envs k = Some (Inr (- ECHILD, None, k))"
proof (cases "find (reportable p u k) (kids (current k))")
  case None
  have ws: "wait_scan fuel p u (p_cptr (cur k)) False k = Some (Done (\<exists>i\<in>set (kids (current k)). still_runs p k i))"
    using wait_scan_spec[OF sibsD(4)[OF tree_repD(1)[OF rep c]] fuel, of p u False] None by (simp add: cur_def)
  show ?thesis unfolding None option.case by (subst (1 2) sys_waitpid.simps) (simp add: ws)
next
  case (Some i)
  then have i: "i \<in> set (kids (current k))" by (auto simp: find_Some_iff)
  have ws: "wait_scan fuel p u (p_cptr (cur k)) False k = Some (if t_state (ptask k i) = TASK_ZOMBIE then Dead i else Stopped i)"
    using wait_scan_spec[OF sibsD(4)[OF tree_repD(1)[OF rep c]] fuel, of p u False] Some by (simp add: cur_def)
  show ?thesis
  proof (cases "t_state (ptask k i) = TASK_ZOMBIE")
    case True
    have "1 \<le> i" "i < NR_TASKS" "kids i = []" "i \<noteq> current k" using r[OF i] True by simp_all
    from waitpid_reaps_raw[OF rep c fuel Some True this, of nohang envs] show ?thesis using Some True by simp
  next
    case False
    then have "sys_waitpid fuel p nohang u envs k
        = Some (Inr (pid (ptask k i), Some (push_bit 8 (exit_code (ptask k i)) OR 0x7F), upd_task i (\<lambda>t. t\<lparr>exit_code := 0\<rparr>) k))"
      by (subst sys_waitpid.simps) (simp add: ws Let_def)
    then show ?thesis using Some False by simp
  qed
qed

section \<open>The audit of the tree\<close>

text \<open>
  \<open>audit_ptree\<close> (compiled in under \<open>DEBUG_PROC_TREE\<close>) prints a warning for every link of a task that is
  not what the tree demands. A warning is modelled without its numbers.
\<close>

datatype warning = Parent_bad | Child_bad | Ys_bad | Os_bad | Parent_self | Child_self | Ys_self | Os_self
  | Os_parent | Os_mismatch | Ys_parent | Ys_mismatch | Child_parent | Child_has_ys

definition bad_task_ptr :: "kernel \<Rightarrow> nat option \<Rightarrow> bool" where
  "bad_task_ptr k p =
     (case p of None \<Rightarrow> False
      | Some i \<Rightarrow> \<not> (\<exists>j \<in> set [0..<NR_TASKS]. j = i \<and> task k j \<noteq> None))"

definition audit_task :: "kernel \<Rightarrow> nat \<Rightarrow> warning list" where
  "audit_task k i =
     (let t = ptask k i
      in (if bad_task_ptr k (Some (p_pptr t)) then [Parent_bad] else [])
       @ (if bad_task_ptr k (p_cptr t) then [Child_bad] else [])
       @ (if bad_task_ptr k (p_ysptr t) then [Ys_bad] else [])
       @ (if bad_task_ptr k (p_osptr t) then [Os_bad] else [])
       @ (if p_pptr t = i then [Parent_self] else [])
       @ (if p_cptr t = Some i then [Child_self] else [])
       @ (if p_ysptr t = Some i then [Ys_self] else [])
       @ (if p_osptr t = Some i then [Os_self] else [])
       @ (case p_osptr t of None \<Rightarrow> []
          | Some q \<Rightarrow> (if p_pptr t \<noteq> p_pptr (ptask k q) then [Os_parent] else [])
                    @ (if p_ysptr (ptask k q) \<noteq> Some i then [Os_mismatch] else []))
       @ (case p_ysptr t of None \<Rightarrow> []
          | Some q \<Rightarrow> (if p_pptr t \<noteq> p_pptr (ptask k q) then [Ys_parent] else [])
                    @ (if p_osptr (ptask k q) \<noteq> Some i then [Ys_mismatch] else []))
       @ (case p_cptr t of None \<Rightarrow> []
          | Some q \<Rightarrow> (if p_pptr (ptask k q) \<noteq> i then [Child_parent] else [])
                    @ (if p_ysptr (ptask k q) \<noteq> None then [Child_has_ys] else [])))"

definition audit_ptree :: "kernel \<Rightarrow> (nat \<times> warning) list" where
  "audit_ptree k =
     concat (map (\<lambda>i. if task k i = None then [] else map (\<lambda>w. (i, w)) (audit_task k i)) [1..<NR_TASKS])"

lemma sibs_split:
  assumes "sibs k p (xs @ i # zs)"
  shows "p_osptr (ptask k i) = (case zs of [] \<Rightarrow> None | z # _ \<Rightarrow> Some z)" and "p_ysptr (ptask k i) = last_opt xs"
proof -
  show "p_osptr (ptask k i) = (case zs of [] \<Rightarrow> None | z # _ \<Rightarrow> Some z)"
    using sibsD(4)[OF assms] by (auto simp: chain_append split: list.splits)
  show "p_ysptr (ptask k i) = last_opt xs"
    using sibsD(5)[OF assms] by (auto simp: back_chain_append last_opt_def)
qed

lemma sibs_neighbours:
  assumes s: "sibs k p cs" and i: "i \<in> set cs"
  shows "p_osptr (ptask k i) = Some q \<Longrightarrow> q \<in> set cs \<and> q \<noteq> i \<and> p_ysptr (ptask k q) = Some i"
    and "p_ysptr (ptask k i) = Some q \<Longrightarrow> q \<in> set cs \<and> q \<noteq> i \<and> p_osptr (ptask k q) = Some i"
proof -
  obtain xs zs where cs: "cs = xs @ i # zs" using i by (meson split_list)
  note d = sibsD(1)[OF s[unfolded cs]] and sp = sibs_split[OF s[unfolded cs]]
  show "q \<in> set cs \<and> q \<noteq> i \<and> p_ysptr (ptask k q) = Some i" if o: "p_osptr (ptask k i) = Some q"
  proof -
    obtain ys where z: "zs = q # ys" using sp(1) o by (cases zs) auto
    have "sibs k p ((xs @ [i]) @ q # ys)" using s by (simp add: cs z)
    from sibs_split(2)[OF this] d z show ?thesis by (auto simp: cs last_opt_def)
  qed
  show "q \<in> set cs \<and> q \<noteq> i \<and> p_osptr (ptask k q) = Some i" if "p_ysptr (ptask k i) = Some q"
  proof -
    have "xs \<noteq> []" "last xs = q" using sp(2) that by (auto simp: last_opt_def split: if_splits)
    then obtain ys where x: "xs = ys @ [q]" by (metis append_butlast_last_id)
    have "sibs k p (ys @ q # i # zs)" using s by (simp add: cs x)
    from sibs_split(1)[OF this] d x show ?thesis by (auto simp: cs)
  qed
qed

text \<open>A well-formed tree whose live slots are in the table, with no process its own child, passes the audit.\<close>

lemma audit_passes:
  assumes rep: "tree_rep k kids" and slots: "\<And>i. task k i \<noteq> None \<Longrightarrow> i < NR_TASKS" and noself: "\<And>i. i \<notin> set (kids i)"
  shows "audit_ptree k = []"
proof -
  have good: "\<not> bad_task_ptr k (Some j)" if "task k j \<noteq> None" for j
    using slots[OF that] that by (simp add: bad_task_ptr_def)
  have "audit_task k i = []" if i: "task k i \<noteq> None" "i \<noteq> 0" for i
  proof -
    let ?p = "p_pptr (ptask k i)"
    have p: "task k ?p \<noteq> None" and ip: "i \<in> set (kids ?p)" using tree_repD(2,3)[OF rep i] by blast+
    note sp = tree_repD(1)[OF rep p] and si = tree_repD(1)[OF rep i(1)]
    have pi: "?p \<noteq> i" using ip noself by metis
    have os: "task k q \<noteq> None \<and> q \<noteq> i \<and> p_ysptr (ptask k q) = Some i \<and> p_pptr (ptask k q) = ?p"
      if "p_osptr (ptask k i) = Some q" for q
      using sibs_neighbours(1)[OF sp ip that] sibsD(2,3)[OF sp] by blast
    have ys: "task k q \<noteq> None \<and> q \<noteq> i \<and> p_osptr (ptask k q) = Some i \<and> p_pptr (ptask k q) = ?p"
      if "p_ysptr (ptask k i) = Some q" for q
      using sibs_neighbours(2)[OF sp ip that] sibsD(2,3)[OF sp] by blast
    have cp: "task k q \<noteq> None \<and> q \<noteq> i \<and> p_ysptr (ptask k q) = None \<and> p_pptr (ptask k q) = i"
      if c: "p_cptr (ptask k i) = Some q" for q
    proof -
      obtain cs where cs: "kids i = q # cs" using sibsD(4)[OF si] c by (cases "kids i") auto
      have "sibs k i ([] @ q # cs)" using si cs by simp
      from sibs_split(2)[OF this] sibsD(2,3)[OF si, of q] cs noself[of i] show ?thesis by (auto simp: last_opt_def)
    qed
    have "\<not> bad_task_ptr k None" by (simp add: bad_task_ptr_def)
    then have b: "\<not> bad_task_ptr k (p_cptr (ptask k i))" "\<not> bad_task_ptr k (p_ysptr (ptask k i))" "\<not> bad_task_ptr k (p_osptr (ptask k i))"
      using good cp ys os by (metis option.exhaust)+
    have self: "p_cptr (ptask k i) \<noteq> Some i" "p_ysptr (ptask k i) \<noteq> Some i" "p_osptr (ptask k i) \<noteq> Some i"
      using cp ys os by blast+
    have o: "(case p_osptr (ptask k i) of None \<Rightarrow> []
          | Some q \<Rightarrow> (if ?p \<noteq> p_pptr (ptask k q) then [Os_parent] else [])
                    @ (if p_ysptr (ptask k q) \<noteq> Some i then [Os_mismatch] else [])) = []"
      using os by (cases "p_osptr (ptask k i)") auto
    have y: "(case p_ysptr (ptask k i) of None \<Rightarrow> []
          | Some q \<Rightarrow> (if ?p \<noteq> p_pptr (ptask k q) then [Ys_parent] else [])
                    @ (if p_osptr (ptask k q) \<noteq> Some i then [Ys_mismatch] else [])) = []"
      using ys by (cases "p_ysptr (ptask k i)") auto
    have c: "(case p_cptr (ptask k i) of None \<Rightarrow> []
          | Some q \<Rightarrow> (if p_pptr (ptask k q) \<noteq> i then [Child_parent] else [])
                    @ (if p_ysptr (ptask k q) \<noteq> None then [Child_has_ys] else [])) = []"
      using cp by (cases "p_cptr (ptask k i)") auto
    show ?thesis
      unfolding audit_task_def Let_def o y c using good[OF p] b self pi by simp
  qed
  then show ?thesis by (auto simp: audit_ptree_def)
qed

end
