(* ===== verification/Pipe.thy ===== *)
theory Pipe
  imports Task
begin

text \<open>
  Pipes (\<open>fs/pipe.c\<close>): the page-sized ring behind the two ends, the blocking reader and writer,
  and the creation of a pipe in the file table and in the table of descriptors. The abstract
  content of the ring is \<open>pipe_bytes\<close>, the bytes written and not yet read.
\<close>

section \<open>The ring\<close>

datatype pipe_end = ReadWait | WriteWait

text \<open>
  The inode of a pipe: \<open>i_size\<close> is the page, \<open>i_zone[0]\<close> and \<open>i_zone[1]\<close> the head and the tail.
  \<open>pp_signal\<close> and \<open>pp_blocked\<close> are those of the calling task, \<open>pp_woken\<close> the queues woken, the
  last first.
\<close>

record pipe =
  pp_page :: "nat \<Rightarrow> u8"
  pp_head :: u16
  pp_tail :: u16
  pp_count :: u16
  pp_signal :: u32
  pp_blocked :: u32
  pp_woken :: "pipe_end list"

definition PAGE_SIZE :: int where "PAGE_SIZE = 4096"
definition SIGPIPE :: nat where "SIGPIPE = 13"

definition PIPE_SIZE :: "pipe \<Rightarrow> int" where
  "PIPE_SIZE p = uint ((ucast (pp_head p) - ucast (pp_tail p) :: u32) AND 0xFFF)"

definition wake_end :: "pipe_end \<Rightarrow> pipe \<Rightarrow> pipe" where
  "wake_end e p = p\<lparr>pp_woken := e # pp_woken p\<rparr>"

text \<open>One pass of the copy loop of \<open>read_pipe\<close>: the bytes handed to the caller.\<close>

definition read_chunk :: "int \<Rightarrow> pipe \<Rightarrow> int \<times> u8 list \<times> pipe" where
  "read_chunk count p =
     (let chars = PAGE_SIZE - uint (pp_tail p);
          chars = (if chars > count then count else chars);
          chars = (if chars > PIPE_SIZE p then PIPE_SIZE p else chars);
          size = unat (pp_tail p)
      in (chars, map (\<lambda>j. pp_page p (size + j)) [0..<nat chars],
          p\<lparr>pp_tail := (pp_tail p + word_of_int chars) AND 0xFFF\<rparr>))"

text \<open>One pass of the copy loop of \<open>write_pipe\<close>; \<open>buf\<close> is what is left of the caller's buffer.\<close>

definition write_chunk :: "int \<Rightarrow> (nat \<Rightarrow> u8) \<Rightarrow> pipe \<Rightarrow> int \<times> pipe" where
  "write_chunk count buf p =
     (let chars = PAGE_SIZE - uint (pp_head p);
          chars = (if chars > count then count else chars);
          room = (PAGE_SIZE - 1) - PIPE_SIZE p;
          chars = (if chars > room then room else chars);
          size = unat (pp_head p)
      in (chars, p\<lparr>pp_head := (pp_head p + word_of_int chars) AND 0xFFF,
                   pp_page := (\<lambda>a. if size \<le> a \<and> a < size + nat chars then buf (a - size) else pp_page p a)\<rparr>))"

section \<open>Reading and writing\<close>

text \<open>
  Each element of \<open>envs\<close> is what the rest of the system does while the caller sleeps; fuel is
  spent once per pass or sleep. The result is the value returned, the bytes delivered, the pipe.
\<close>

fun read_pipe :: "nat \<Rightarrow> (pipe \<Rightarrow> pipe) list \<Rightarrow> int \<Rightarrow> int \<Rightarrow> u8 list \<Rightarrow> pipe \<Rightarrow> (int \<times> u8 list \<times> pipe) option" where
  "read_pipe 0 envs count rd out p = None"
| "read_pipe (Suc fuel) envs count rd out p =
     (if count \<le> 0 then Some (rd, out, wake_end WriteWait p)
      else if PIPE_SIZE p = 0 then
        (let p1 = wake_end WriteWait p
         in if pp_count p1 \<noteq> 2 then Some (rd, out, p1)
            else if pp_signal p1 AND NOT (pp_blocked p1) \<noteq> 0
            then Some (if rd \<noteq> 0 then rd else - ERESTARTSYS, out, p1)
            else (case envs of [] \<Rightarrow> None | e # es \<Rightarrow> read_pipe fuel es count rd out (e p1)))
      else
        (let (chars, bs, p1) = read_chunk count p
         in read_pipe fuel envs (count - chars) (rd + chars) (out @ bs) p1))"

fun write_pipe :: "nat \<Rightarrow> (pipe \<Rightarrow> pipe) list \<Rightarrow> int \<Rightarrow> int \<Rightarrow> (nat \<Rightarrow> u8) \<Rightarrow> pipe \<Rightarrow> (int \<times> pipe) option" where
  "write_pipe 0 envs count written buf p = None"
| "write_pipe (Suc fuel) envs count written buf p =
     (if count \<le> 0 then Some (written, wake_end ReadWait p)
      else if (PAGE_SIZE - 1) - PIPE_SIZE p = 0 then
        (let p1 = wake_end ReadWait p
         in if pp_count p1 \<noteq> 2
            then Some (if written \<noteq> 0 then written else - 1,
                       p1\<lparr>pp_signal := pp_signal p1 OR sig_bit SIGPIPE\<rparr>)
            else (case envs of [] \<Rightarrow> None | e # es \<Rightarrow> write_pipe fuel es count written buf (e p1)))
      else
        (let (chars, p1) = write_chunk count (\<lambda>i. buf (nat written + i)) p
         in write_pipe fuel envs (count - chars) (written + chars) buf p1))"

declare read_pipe.simps(2) [simp del] write_pipe.simps(2) [simp del]

section \<open>The creation of a pipe\<close>

record file_entry =
  f_mode :: u16
  f_flags :: u16
  f_count :: u16
  f_inode :: "nat option"
  f_pos :: int

record files =
  file_table :: "nat \<Rightarrow> file_entry"
  filp :: "nat \<Rightarrow> nat option"

definition NR_FILE :: nat where "NR_FILE = 64"
definition NR_OPEN :: nat where "NR_OPEN = 20"

definition upd_file :: "nat \<Rightarrow> (file_entry \<Rightarrow> file_entry) \<Rightarrow> files \<Rightarrow> files" where
  "upd_file i f s = s\<lparr>file_table := (file_table s)(i := f (file_table s i))\<rparr>"

text \<open>
  \<open>pipe_inode\<close> is the answer of \<open>get_pipe_inode\<close>. The result is the value returned, the two
  descriptors stored, and the tables.
\<close>

definition sys_pipe :: "nat option \<Rightarrow> files \<Rightarrow> int \<times> (nat \<times> nat) option \<times> files" where
  "sys_pipe pipe_inode s =
     (case take 2 (filter (\<lambda>i. f_count (file_table s i) = 0) [0..<NR_FILE]) of
        [f0, f1] \<Rightarrow>
          let s1 = upd_file f1 (\<lambda>f. f\<lparr>f_count := f_count f + 1\<rparr>)
                     (upd_file f0 (\<lambda>f. f\<lparr>f_count := f_count f + 1\<rparr>) s);
              clear = (\<lambda>s. upd_file f1 (\<lambda>f. f\<lparr>f_count := 0\<rparr>) (upd_file f0 (\<lambda>f. f\<lparr>f_count := 0\<rparr>) s))
          in (case take 2 (filter (\<lambda>i. filp s1 i = None) [0..<NR_OPEN]) of
                [d0, d1] \<Rightarrow>
                  let s2 = s1\<lparr>filp := (filp s1)(d0 \<mapsto> f0, d1 \<mapsto> f1)\<rparr>
                  in (case pipe_inode of
                        None \<Rightarrow> (- 1, None, clear (s2\<lparr>filp := (filp s2)(d1 := None, d0 := None)\<rparr>))
                      | Some ino \<Rightarrow>
                          (0, Some (d0, d1),
                           upd_file f1 (\<lambda>f. f\<lparr>f_inode := Some ino, f_pos := 0, f_mode := 2\<rparr>)
                             (upd_file f0 (\<lambda>f. f\<lparr>f_inode := Some ino, f_pos := 0, f_mode := 1\<rparr>) s2)))
              | [d0] \<Rightarrow> (- 1, None, clear (s1\<lparr>filp := ((filp s1)(d0 \<mapsto> f0))(d0 := None)\<rparr>))
              | _ \<Rightarrow> (- 1, None, clear s1))
      | [f0] \<Rightarrow> (- 1, None, upd_file f0 (\<lambda>f. f\<lparr>f_count := 0\<rparr>)
                           (upd_file f0 (\<lambda>f. f\<lparr>f_count := f_count f + 1\<rparr>) s))
      | _ \<Rightarrow> (- 1, None, s))"

definition FIONREAD :: int where "FIONREAD = 0x541B"

definition pipe_ioctl :: "pipe \<Rightarrow> int \<Rightarrow> int \<times> int option" where
  "pipe_ioctl p cmd = (if cmd = FIONREAD then (0, Some (PIPE_SIZE p)) else (- EINVAL, None))"

section \<open>What the ring holds\<close>

definition pipe_ok :: "pipe \<Rightarrow> bool" where
  "pipe_ok p \<longleftrightarrow> pp_head p < 4096 \<and> pp_tail p < 4096"

definition pipe_bytes :: "pipe \<Rightarrow> u8 list" where
  "pipe_bytes p = map (\<lambda>j. pp_page p ((unat (pp_tail p) + j) mod 4096)) [0..<nat (PIPE_SIZE p)]"

lemma PIPE_SIZE_mod: "PIPE_SIZE p = (uint (pp_head p) - uint (pp_tail p)) mod 4096"
proof -
  have m: "(0xFFF :: u32) = mask 12" by (simp add: mask_eq_exp_minus_1)
  have "PIPE_SIZE p = (uint (ucast (pp_head p) - ucast (pp_tail p) :: u32)) mod 4096"
    unfolding PIPE_SIZE_def m by (simp only: take_bit_eq_mask[symmetric] unsigned_take_bit_eq) (simp add: take_bit_eq_mod)
  also have "\<dots> = (uint (pp_head p) - uint (pp_tail p)) mod 2 ^ 32 mod 4096"
    by (simp add: uint_word_arith_bintrs take_bit_eq_mod unsigned_ucast_eq mod_diff_eq)
  also have "\<dots> = (uint (pp_head p) - uint (pp_tail p)) mod 4096"
    by (rule mod_mod_cancel) simp
  finally show ?thesis .
qed

lemma PIPE_SIZE_bounds: "0 \<le> PIPE_SIZE p \<and> PIPE_SIZE p < 4096"
  by (simp add: PIPE_SIZE_mod)

lemma length_pipe_bytes: "int (length (pipe_bytes p)) = PIPE_SIZE p"
  using PIPE_SIZE_bounds[of p] by (simp add: pipe_bytes_def)

lemma uint_mask12: "uint ((x :: u16) AND 0xFFF) = uint x mod 4096"
proof -
  have m: "(0xFFF :: u16) = mask 12" by (simp add: mask_eq_exp_minus_1)
  show ?thesis unfolding m by (simp only: take_bit_eq_mask[symmetric] unsigned_take_bit_eq) (simp add: take_bit_eq_mod)
qed

lemma uint_advance: "uint (((x :: u16) + word_of_int c) AND 0xFFF) = (uint x + c) mod 4096"
proof -
  have "uint (x + word_of_int c) = (uint x + c) mod 2 ^ 16"
    by (simp add: uint_word_arith_bintrs take_bit_eq_mod uint_word_of_int mod_add_right_eq)
  then have "uint ((x + word_of_int c) AND 0xFFF) = (uint x + c) mod 2 ^ 16 mod 4096"
    by (simp add: uint_mask12)
  also have "\<dots> = (uint x + c) mod 4096" by (rule mod_mod_cancel) simp
  finally show ?thesis .
qed

text \<open>The ring in natural numbers: tail, head and size below 4096, with at most one wrap.\<close>

lemma mod_once: "a < 8192 \<Longrightarrow> (a :: nat) mod 4096 = (if a < 4096 then a else a - 4096)"
  by (simp add: mod_if)

lemma pipe_okD:
  assumes "pipe_ok p"
  shows "unat (pp_tail p) < 4096" and "unat (pp_head p) < 4096"
    and "unat (pp_head p) = (unat (pp_tail p) + nat (PIPE_SIZE p)) mod 4096"
proof -
  show t: "unat (pp_tail p) < 4096" and h: "unat (pp_head p) < 4096"
    using assms by (simp_all add: pipe_ok_def word_less_nat_alt)
  have "int (unat (pp_head p)) < int 4096" using h by (simp only: of_nat_less_iff)
  then have hu: "uint (pp_head p) < 4096" by simp
  have "(uint (pp_tail p) + PIPE_SIZE p) mod 4096 = uint (pp_head p) mod 4096"
    unfolding PIPE_SIZE_mod mod_add_right_eq by simp
  also have "\<dots> = uint (pp_head p)" using hu by simp
  finally have "int ((unat (pp_tail p) + nat (PIPE_SIZE p)) mod 4096) = int (unat (pp_head p))"
    using PIPE_SIZE_bounds[of p] by (simp add: zmod_int)
  then show "unat (pp_head p) = (unat (pp_tail p) + nat (PIPE_SIZE p)) mod 4096" by (simp only: of_nat_eq_iff)
qed

lemma unat_advance:
  assumes "0 \<le> c"
  shows "unat (((x :: u16) + word_of_int c) AND 0xFFF) = (unat x + nat c) mod 4096"
proof -
  have "int ((unat x + nat c) mod 4096) = (uint x + c) mod 4096" using assms by (simp add: zmod_int)
  then show ?thesis using uint_advance[of x c] by (metis nat_int unat_eq_nat_uint)
qed

lemma advance_ok: "((x :: u16) + word_of_int c) AND 0xFFF < 4096"
proof -
  have "uint ((x + word_of_int c) AND 0xFFF) < 4096" unfolding uint_advance by simp
  then show ?thesis by (simp add: word_less_def)
qed

lemma ring_size:
  assumes "t < 4096" and "n < 4096" and "h = (t + n) mod (4096 :: nat)"
  shows "n = (if t \<le> h then h - t else h + 4096 - t)"
proof (cases "t + n < 4096")
  case True
  with assms show ?thesis by simp
next
  case False
  then have h: "h = t + n - 4096" using assms by (simp add: mod_once)
  show ?thesis unfolding h using False assms(1,2) by auto
qed

lemma PIPE_SIZE_ok:
  assumes "pipe_ok p"
  shows "nat (PIPE_SIZE p) = (if unat (pp_tail p) \<le> unat (pp_head p) then unat (pp_head p) - unat (pp_tail p)
     else unat (pp_head p) + 4096 - unat (pp_tail p))"
proof (rule ring_size[OF pipe_okD(1)[OF assms] _ pipe_okD(3)[OF assms]])
  show "nat (PIPE_SIZE p) < 4096" using PIPE_SIZE_bounds[of p] by linarith
qed

lemma ring_pos:
  assumes "h = (t + n) mod (4096 :: nat)" and "h + c \<le> 4096" and "n \<le> i" and "i < n + c"
  shows "(t + i) mod 4096 = h + (i - n)"
proof -
  have "(t + i) mod 4096 = (t + n + (i - n)) mod 4096" using assms(3) by simp
  also have "\<dots> = ((t + n) mod 4096 + (i - n)) mod 4096" by (rule mod_add_left_eq[symmetric])
  also have "\<dots> = h + (i - n)" unfolding assms(1)[symmetric] using assms(2-4) by (intro mod_less) linarith
  finally show ?thesis .
qed

lemma nth_pipe_bytes: "j < nat (PIPE_SIZE p) \<Longrightarrow> pipe_bytes p ! j = pp_page p ((unat (pp_tail p) + j) mod 4096)"
  by (simp add: pipe_bytes_def)

lemma read_chunk_spec:
  assumes ok: "pipe_ok p" and ne: "PIPE_SIZE p \<noteq> 0" and pos: "0 < count" and r: "read_chunk count p = (c, bs, p')"
  shows "0 < c" and "c \<le> count" and "int (length bs) = c" and "pipe_bytes p = bs @ pipe_bytes p'" and "pipe_ok p'"
    and "pp_count p' = pp_count p"
proof -
  let ?t = "unat (pp_tail p)" and ?n = "nat (PIPE_SIZE p)"
  note P = pipe_okD[OF ok]
  have c: "c = min (min (4096 - int ?t) count) (PIPE_SIZE p)"
    and bs: "bs = map (\<lambda>j. pp_page p (?t + j)) [0..<nat c]"
    and p': "p' = p\<lparr>pp_tail := (pp_tail p + word_of_int c) AND 0xFFF\<rparr>"
    using r by (auto simp: read_chunk_def Let_def PAGE_SIZE_def)
  show c0: "0 < c" using c pos ne PIPE_SIZE_bounds[of p] P(1) by linarith
  show "c \<le> count" using c by simp
  show l: "int (length bs) = c" using bs c0 by simp
  show ok': "pipe_ok p'" using ok advance_ok by (simp add: pipe_ok_def p')
  show "pp_count p' = pp_count p" by (simp add: p')
  have cn: "nat c \<le> ?n" "?t + nat c \<le> 4096" "?n < 4096"
    using c c0 PIPE_SIZE_bounds[of p] P(1) by linarith+
  have t': "unat (pp_tail p') = (?t + nat c) mod 4096" using c0 by (simp add: p' unat_advance)
  have h': "pp_head p' = pp_head p" by (simp add: p')
  have n': "nat (PIPE_SIZE p') = ?n - nat c"
    using PIPE_SIZE_ok[OF ok'] PIPE_SIZE_ok[OF ok] cn P(1,2) unfolding h' t' by (simp add: mod_if split: if_splits)
  show "pipe_bytes p = bs @ pipe_bytes p'"
  proof (rule nth_equalityI)
    show "length (pipe_bytes p) = length (bs @ pipe_bytes p')" using cn by (simp add: pipe_bytes_def bs n')
    fix i assume "i < length (pipe_bytes p)"
    then have i: "i < ?n" by (simp add: pipe_bytes_def)
    show "pipe_bytes p ! i = (bs @ pipe_bytes p') ! i"
    proof (cases "i < nat c")
      case True
      with i cn show ?thesis by (simp add: pipe_bytes_def bs nth_append)
    next
      case False
      have "((?t + nat c) mod 4096 + (i - nat c)) mod 4096 = (?t + nat c + (i - nat c)) mod 4096"
        by (rule mod_add_left_eq)
      also have "?t + nat c + (i - nat c) = ?t + i" using False by simp
      finally have "((?t + nat c) mod 4096 + (i - nat c)) mod 4096 = (?t + i) mod 4096" .
      moreover have "(bs @ pipe_bytes p') ! i = pipe_bytes p' ! (i - nat c)" using False by (simp add: nth_append bs)
      moreover have "pipe_bytes p' ! (i - nat c) = pp_page p' (((?t + nat c) mod 4096 + (i - nat c)) mod 4096)"
        using False i nth_pipe_bytes[of "i - nat c" p'] unfolding n' t' by linarith
      ultimately show ?thesis using nth_pipe_bytes[OF i] by (simp add: p')
    qed
  qed
qed

lemma write_chunk_spec:
  assumes ok: "pipe_ok p" and ne: "4095 - PIPE_SIZE p \<noteq> 0" and pos: "0 < count" and r: "write_chunk count buf p = (c, p')"
  shows "0 < c" and "c \<le> count" and "pipe_bytes p' = pipe_bytes p @ map buf [0..<nat c]" and "pipe_ok p'"
    and "pp_count p' = pp_count p"
proof -
  let ?t = "unat (pp_tail p)" and ?h = "unat (pp_head p)" and ?n = "nat (PIPE_SIZE p)"
  note P = pipe_okD[OF ok]
  have c: "c = min (min (4096 - int ?h) count) (4095 - PIPE_SIZE p)"
    and p': "p' = p\<lparr>pp_head := (pp_head p + word_of_int c) AND 0xFFF,
      pp_page := (\<lambda>a. if ?h \<le> a \<and> a < ?h + nat c then buf (a - ?h) else pp_page p a)\<rparr>"
    using r by (auto simp: write_chunk_def Let_def PAGE_SIZE_def)
  show c0: "0 < c" using c pos ne PIPE_SIZE_bounds[of p] P(2) by linarith
  show "c \<le> count" using c by simp
  show ok': "pipe_ok p'" using ok advance_ok by (simp add: pipe_ok_def p')
  show "pp_count p' = pp_count p" by (simp add: p')
  have cn: "?n + nat c \<le> 4095" "?h + nat c \<le> 4096" "?n < 4096"
    using c c0 PIPE_SIZE_bounds[of p] P(2) by linarith+
  have h': "unat (pp_head p') = (?h + nat c) mod 4096" using c0 by (simp add: p' unat_advance)
  have t': "pp_tail p' = pp_tail p" by (simp add: p')
  have n': "nat (PIPE_SIZE p') = ?n + nat c"
    using PIPE_SIZE_ok[OF ok'] PIPE_SIZE_ok[OF ok] cn P(1,2) unfolding h' t' by (simp add: mod_if split: if_splits) linarith
  have pg: "pp_page p' a = (if ?h \<le> a \<and> a < ?h + nat c then buf (a - ?h) else pp_page p a)" for a
    by (simp add: p')
  show "pipe_bytes p' = pipe_bytes p @ map buf [0..<nat c]"
  proof (rule nth_equalityI)
    show "length (pipe_bytes p') = length (pipe_bytes p @ map buf [0..<nat c])" by (simp add: pipe_bytes_def n')
    fix i assume "i < length (pipe_bytes p')"
    then have i: "i < ?n + nat c" by (simp add: pipe_bytes_def n')
    have e: "pipe_bytes p' ! i = pp_page p' ((?t + i) mod 4096)" using i by (simp add: pipe_bytes_def n' t')
    show "pipe_bytes p' ! i = (pipe_bytes p @ map buf [0..<nat c]) ! i"
    proof (cases "i < ?n")
      case True
      have out: "\<not> (?h \<le> (?t + i) mod 4096 \<and> (?t + i) mod 4096 < ?h + nat c)"
        using True P cn by (simp add: mod_once split: if_splits) linarith+
      show ?thesis unfolding e pg if_not_P[OF out] using True by (simp add: pipe_bytes_def nth_append)
    next
      case False
      then obtain d where d: "i = ?n + d" using le_Suc_ex by (metis not_less)
      have dc: "d < nat c" using i d by simp
      have "(?t + i) mod 4096 = ?h + d" using ring_pos[OF P(3) cn(2), of i] i d by simp
      with d dc show ?thesis unfolding e pg by (simp add: pipe_bytes_def nth_append)
    qed
  qed
qed

text \<open>A byte at a time the ring is a bounded queue.\<close>

definition put_byte :: "u8 \<Rightarrow> pipe \<Rightarrow> pipe" where
  "put_byte x p = snd (write_chunk 1 (\<lambda>_. x) p)"

definition get_byte :: "pipe \<Rightarrow> u8 \<times> pipe" where
  "get_byte p = (let (c, bs, p') = read_chunk 1 p in (hd bs, p'))"

lemma put_byte_spec:
  assumes "pipe_ok p" and "length (pipe_bytes p) < 4095"
  shows "pipe_bytes (put_byte x p) = pipe_bytes p @ [x]" and "pipe_ok (put_byte x p)"
proof -
  obtain c p' where r: "write_chunk 1 (\<lambda>_. x) p = (c, p')" by (cases "write_chunk 1 (\<lambda>_. x) p")
  have "4095 - PIPE_SIZE p \<noteq> 0" using assms(2) length_pipe_bytes[of p] by linarith
  note w = write_chunk_spec[OF assms(1) this _ r]
  have "c = 1" using w(1,2) by simp
  with w(3,4) r show "pipe_bytes (put_byte x p) = pipe_bytes p @ [x]" "pipe_ok (put_byte x p)"
    by (simp_all add: put_byte_def)
qed

lemma get_byte_spec:
  assumes "pipe_ok p" and "pipe_bytes p \<noteq> []"
  shows "pipe_bytes p = fst (get_byte p) # pipe_bytes (snd (get_byte p))" and "pipe_ok (snd (get_byte p))"
proof -
  obtain c bs p' where r: "read_chunk 1 p = (c, bs, p')" by (cases "read_chunk 1 p")
  have "PIPE_SIZE p \<noteq> 0" using assms(2) length_pipe_bytes[of p] by (metis length_0_conv of_nat_eq_0_iff)
  note w = read_chunk_spec[OF assms(1) this _ r]
  have "length bs = 1" using w(1-3) by simp
  then obtain b where "bs = [b]" by (cases bs) auto
  with w(4,5) r show "pipe_bytes p = fst (get_byte p) # pipe_bytes (snd (get_byte p))" "pipe_ok (snd (get_byte p))"
    by (simp_all add: get_byte_def)
qed

interpretation ring: bounded_fifo pipe_bytes pipe_ok 4095 put_byte get_byte
proof unfold_locales
  fix p x
  assume "pipe_ok p" and "length (pipe_bytes p) < 4095"
  then show "pipe_bytes (put_byte x p) = pipe_bytes p @ [x]" "pipe_ok (put_byte x p)" by (rule put_byte_spec)+
next
  fix p
  assume "pipe_ok p" and "pipe_bytes p \<noteq> []"
  note g = get_byte_spec[OF this]
  show "fst (get_byte p) = hd (pipe_bytes p) \<and> pipe_bytes (snd (get_byte p)) = tl (pipe_bytes p)"
    unfolding g(1) by simp
  show "pipe_ok (snd (get_byte p))" by (rule g(2))
qed

section \<open>Calls that need not sleep\<close>

lemma PIPE_SIZE_append: "pipe_bytes p = bs @ pipe_bytes p' \<Longrightarrow> PIPE_SIZE p = int (length bs) + PIPE_SIZE p'"
  unfolding length_pipe_bytes[symmetric] by simp

lemma read_pipe_exact:
  assumes "pipe_ok p" and "0 \<le> count" and "count \<le> PIPE_SIZE p" and "nat count < fuel"
  shows "\<exists>p'. read_pipe fuel envs count rd out p = Some (rd + count, out @ take (nat count) (pipe_bytes p), p')
    \<and> pipe_bytes p' = drop (nat count) (pipe_bytes p) \<and> pipe_ok p' \<and> hd (pp_woken p') = WriteWait"
  using assms
proof (induction fuel arbitrary: count rd out p)
  case (Suc fuel)
  show ?case
  proof (cases "count = 0")
    case True
    have "pipe_bytes (wake_end WriteWait p) = pipe_bytes p" "pipe_ok (wake_end WriteWait p) = pipe_ok p"
      by (simp_all add: wake_end_def pipe_bytes_def PIPE_SIZE_def pipe_ok_def)
    with True Suc.prems show ?thesis by (simp add: read_pipe.simps) (simp add: wake_end_def)
  next
    case False
    then have pos: "0 < count" and ne: "PIPE_SIZE p \<noteq> 0" using Suc.prems by linarith+
    obtain c bs p1 where r: "read_chunk count p = (c, bs, p1)" by (cases "read_chunk count p")
    note R = read_chunk_spec[OF Suc.prems(1) ne pos r]
    have l: "length bs = nat c" using R(3) by linarith
    have IHp: "0 \<le> count - c" "count - c \<le> PIPE_SIZE p1" "nat (count - c) < fuel"
      using R(1-3) Suc.prems PIPE_SIZE_append[OF R(4)] by linarith+
    obtain p' where p': "read_pipe fuel envs (count - c) (rd + c) (out @ bs) p1
        = Some (rd + c + (count - c), (out @ bs) @ take (nat (count - c)) (pipe_bytes p1), p')"
      "pipe_bytes p' = drop (nat (count - c)) (pipe_bytes p1)" "pipe_ok p'" "hd (pp_woken p') = WriteWait"
      using Suc.IH[OF R(5) IHp] by blast
    have n: "nat count = nat c + nat (count - c)" using R(1,2) by linarith
    have "read_pipe (Suc fuel) envs count rd out p = read_pipe fuel envs (count - c) (rd + c) (out @ bs) p1"
      using False ne pos by (simp add: read_pipe.simps r)
    with p' show ?thesis unfolding R(4) n by (simp add: l)
  qed
qed simp

lemma write_pipe_exact:
  assumes "pipe_ok p" and "0 \<le> count" and "count + PIPE_SIZE p \<le> 4095" and "nat count < fuel" and "0 \<le> w"
  shows "\<exists>p'. write_pipe fuel envs count w buf p = Some (w + count, p')
    \<and> pipe_bytes p' = pipe_bytes p @ map buf [nat w..<nat (w + count)] \<and> pipe_ok p' \<and> hd (pp_woken p') = ReadWait"
  using assms
proof (induction fuel arbitrary: count w p)
  case (Suc fuel)
  show ?case
  proof (cases "count = 0")
    case True
    have "pipe_bytes (wake_end ReadWait p) = pipe_bytes p" "pipe_ok (wake_end ReadWait p) = pipe_ok p"
      by (simp_all add: wake_end_def pipe_bytes_def PIPE_SIZE_def pipe_ok_def)
    with True Suc.prems show ?thesis by (simp add: write_pipe.simps) (simp add: wake_end_def)
  next
    case False
    then have pos: "0 < count" and ne: "4095 - PIPE_SIZE p \<noteq> 0" using Suc.prems by linarith+
    obtain c p1 where r: "write_chunk count (\<lambda>i. buf (nat w + i)) p = (c, p1)"
      by (cases "write_chunk count (\<lambda>i. buf (nat w + i)) p")
    note R = write_chunk_spec[OF Suc.prems(1) ne pos r]
    have "int (length (pipe_bytes p1)) = PIPE_SIZE p + c" using R(1,3) length_pipe_bytes[of p] by simp
    then have IHp: "0 \<le> count - c" "count - c + PIPE_SIZE p1 \<le> 4095" "nat (count - c) < fuel" "0 \<le> w + c"
      using R(1,2) Suc.prems length_pipe_bytes[of p1] by linarith+
    obtain p' where p': "write_pipe fuel envs (count - c) (w + c) buf p1 = Some (w + c + (count - c), p')"
      "pipe_bytes p' = pipe_bytes p1 @ map buf [nat (w + c)..<nat (w + c + (count - c))]" "pipe_ok p'" "hd (pp_woken p') = ReadWait"
      using Suc.IH[OF R(4) IHp] by blast
    have m: "map (\<lambda>i. buf (nat w + i)) [0..<nat c] = map buf [nat w..<nat (w + c)]"
      using R(1) Suc.prems(5) by (simp add: list_eq_iff_nth_eq nat_add_distrib)
    have "[nat w..<nat (w + count)] = [nat w..<nat (w + c)] @ [nat (w + c)..<nat (w + count)]"
    proof -
      have "nat w \<le> nat (w + c)" "nat (w + count) = nat (w + c) + (nat (w + count) - nat (w + c))"
        using R(1,2) by linarith+
      then show ?thesis using upt_add_eq_append by metis
    qed
    moreover have "write_pipe (Suc fuel) envs count w buf p = write_pipe fuel envs (count - c) (w + c) buf p1"
      using False ne pos by (simp add: write_pipe.simps r PAGE_SIZE_def)
    ultimately show ?thesis using p' by (simp add: R(3) m)
  qed
qed simp

section \<open>Calls that sleep\<close>

text \<open>
  What the rest of the system does to the pipe while a reader sleeps (the pipe is empty then): writers put \<open>ws\<close> into it. While a
  writer sleeps (the pipe is full then) readers take \<open>n\<close> bytes out of it. Both may also change the number of ends and send signals.
\<close>

definition env_writes :: "u8 list \<Rightarrow> (pipe \<Rightarrow> pipe) \<Rightarrow> bool" where
  "env_writes ws e \<longleftrightarrow> (\<forall>p. pipe_ok p \<longrightarrow> pipe_bytes p = [] \<longrightarrow> pipe_ok (e p) \<and> pipe_bytes (e p) = ws)"

definition env_takes :: "nat \<Rightarrow> (pipe \<Rightarrow> pipe) \<Rightarrow> bool" where
  "env_takes n e \<longleftrightarrow> n \<le> 4095 \<and>
     (\<forall>p. pipe_ok p \<longrightarrow> length (pipe_bytes p) = 4095 \<longrightarrow> pipe_ok (e p) \<and> pipe_bytes (e p) = drop n (pipe_bytes p))"

lemma wake_end_simps [simp]:
  "pipe_bytes (wake_end e p) = pipe_bytes p" "pipe_ok (wake_end e p) = pipe_ok p" "pp_count (wake_end e p) = pp_count p"
  "PIPE_SIZE (wake_end e p) = PIPE_SIZE p" "pp_signal (wake_end e p) = pp_signal p" "pp_blocked (wake_end e p) = pp_blocked p"
  by (simp_all add: wake_end_def pipe_bytes_def PIPE_SIZE_def pipe_ok_def)

lemma pipe_bytes_empty: "pipe_bytes p = [] \<longleftrightarrow> PIPE_SIZE p = 0"
  using length_pipe_bytes[of p] by auto

text \<open>
  A reader that asks for no more than the pipe holds and the writers will write returns: with all it asked for, or with less when the
  pipe is empty and there is no writer left or a signal is pending. What it delivers is a prefix of what was in the
  pipe followed by what was written during the \<open>k\<close> times it slept, and the rest is still there.
\<close>

lemma read_pipe_stream:
  assumes "pipe_ok p" and "list_all2 env_writes ws envs" and "nat count \<le> length (pipe_bytes p @ concat ws)"
    and "nat count + length ws < fuel"
  shows "\<exists>r bs p' k. read_pipe fuel envs count rd out p = Some (r, out @ bs, p') \<and> k \<le> length ws \<and>
    pipe_bytes p @ concat (take k ws) = bs @ pipe_bytes p' \<and> pipe_ok p' \<and> length bs \<le> nat count \<and> (pp_count p \<noteq> 2 \<longrightarrow> k = 0) \<and>
    (length bs = nat count \<and> r = rd + int (length bs) \<or>
     pipe_bytes p' = [] \<and> (pp_count p' \<noteq> 2 \<and> r = rd + int (length bs) \<or>
       pp_signal p' AND NOT (pp_blocked p') \<noteq> 0 \<and> r = (if rd + int (length bs) = 0 then - ERESTARTSYS else rd + int (length bs))))"
    (is "\<exists>r bs p' k. ?R fuel envs count rd out p ws r bs p' k")
  using assms
proof (induction fuel arbitrary: envs ws count rd out p)
  case (Suc fuel)
  let ?w = "wake_end WriteWait p"
  consider (finished) "count \<le> 0"
    | (nobody) "0 < count" "PIPE_SIZE p = 0" "pp_count p \<noteq> 2"
    | (signal) "0 < count" "PIPE_SIZE p = 0" "pp_count p = 2" "pp_signal p AND NOT (pp_blocked p) \<noteq> 0"
    | (sleep) "0 < count" "PIPE_SIZE p = 0" "pp_count p = 2" "pp_signal p AND NOT (pp_blocked p) = 0"
    | (copy) "0 < count" "PIPE_SIZE p \<noteq> 0"
    using not_less by blast
  then show ?case
  proof cases
    case finished
    then have "?R (Suc fuel) envs count rd out p ws rd [] ?w 0" using Suc.prems(1) by (simp add: read_pipe.simps)
    then show ?thesis by blast
  next
    case nobody
    then have "?R (Suc fuel) envs count rd out p ws rd [] ?w 0" using Suc.prems(1) by (simp add: read_pipe.simps pipe_bytes_empty)
    then show ?thesis by blast
  next
    case signal
    then have "?R (Suc fuel) envs count rd out p ws (if rd \<noteq> 0 then rd else - ERESTARTSYS) [] ?w 0"
      using Suc.prems(1) by (simp add: read_pipe.simps pipe_bytes_empty)
    then show ?thesis by blast
  next
    case sleep
    then have e: "pipe_bytes p = []" by (simp add: pipe_bytes_empty)
    have "ws \<noteq> []" using Suc.prems(3) sleep(1) e by auto
    then obtain u us e1 es where w: "ws = u # us" "envs = e1 # es" "env_writes u e1" "list_all2 env_writes us es"
      using Suc.prems(2) by (cases ws) (auto simp: list_all2_Cons1)
    define q where "q = e1 ?w"
    have q: "pipe_ok q" "pipe_bytes q = u" using w(3) Suc.prems(1) e unfolding env_writes_def q_def by simp_all
    have "read_pipe (Suc fuel) envs count rd out p = read_pipe fuel es count rd out q"
      using sleep by (simp add: read_pipe.simps w(2) q_def)
    moreover have "nat count \<le> length (pipe_bytes q @ concat us)" "nat count + length us < fuel"
      using Suc.prems(3,4) e q(2) w(1) by simp_all
    ultimately obtain r bs p' k where R: "?R fuel es count rd out q us r bs p' k"
      and eq: "read_pipe (Suc fuel) envs count rd out p = Some (r, out @ bs, p')" using Suc.IH[OF q(1) w(4)] by metis
    have "?R (Suc fuel) envs count rd out p ws r bs p' (Suc k)" using R eq sleep(3) by (simp add: e w(1) q(2))
    then show ?thesis by blast
  next
    case copy
    obtain c bs p1 where c: "read_chunk count p = (c, bs, p1)" by (cases "read_chunk count p")
    note R = read_chunk_spec[OF Suc.prems(1) copy(2,1) c]
    have eq: "read_pipe (Suc fuel) envs count rd out p = read_pipe fuel envs (count - c) (rd + c) (out @ bs) p1"
      using copy by (simp add: read_pipe.simps c)
    have n: "nat count = length bs + nat (count - c)" "rd + c = rd + int (length bs)" "0 < length bs" using R(1-3) by linarith+
    then have "nat (count - c) + length ws < fuel" using Suc.prems(4) by linarith
    moreover have "nat (count - c) \<le> length (pipe_bytes p1 @ concat ws)" using Suc.prems(3) n(1) R(4) by simp
    ultimately have "nat (count - c) \<le> length (pipe_bytes p1 @ concat ws)" "nat (count - c) + length ws < fuel" by blast+
    from Suc.IH[OF R(5) Suc.prems(2) this, of "rd + c" "out @ bs"] obtain r bs' p' k where
      I: "?R fuel envs (count - c) (rd + c) (out @ bs) p1 ws r bs' p' k" by blast
    have e: "rd + c + int (length bs') = rd + int (length (bs @ bs'))" "length bs' = nat (count - c) \<longleftrightarrow> length (bs @ bs') = nat count"
      using n(1,2) by simp_all
    have "length (bs @ bs') \<le> nat count" using I n(1) by simp
    moreover have "pipe_bytes p @ concat (take k ws) = (bs @ bs') @ pipe_bytes p'" using I R(4) by simp
    moreover have "read_pipe (Suc fuel) envs count rd out p = Some (r, out @ (bs @ bs'), p')" using I eq by simp
    ultimately have "?R (Suc fuel) envs count rd out p ws r (bs @ bs') p' k" using I unfolding e R(6) by blast
    then show ?thesis by blast
  qed
qed simp

text \<open>
  A writer with no more to write than what is free and what the readers will take returns: with all of it written, or with less when the
  pipe is full and there is no reader left, and then \<open>SIGPIPE\<close> is pending.
\<close>

lemma write_pipe_stream:
  assumes "pipe_ok p" and "list_all2 env_takes ts envs" and "0 \<le> w" and "nat count + length (pipe_bytes p) \<le> 4095 + sum_list ts"
    and "nat count + length ts < fuel"
  shows "\<exists>r p' n k gone. write_pipe fuel envs count w buf p = Some (r, p') \<and> k \<le> length ts \<and> n \<le> nat count \<and>
    pipe_bytes p @ map buf [nat w..<nat w + n] = gone @ pipe_bytes p' \<and> length gone = sum_list (take k ts) \<and> pipe_ok p' \<and>
    (pp_count p \<noteq> 2 \<longrightarrow> k = 0) \<and>
    (n = nat count \<and> r = w + int n \<or>
     length (pipe_bytes p') = 4095 \<and> pp_count p' \<noteq> 2 \<and> bit (pp_signal p') 12 \<and> r = (if w + int n = 0 then - 1 else w + int n))"
    (is "\<exists>r p' n k gone. ?R fuel envs count w p ts r p' n k gone")
  using assms
proof (induction fuel arbitrary: envs ts count w p)
  case (Suc fuel)
  let ?b = "\<lambda>i. buf (nat w + i)" and ?w = "wake_end ReadWait p"
  consider (finished) "count \<le> 0"
    | (nobody) "0 < count" "4095 - PIPE_SIZE p = 0" "pp_count p \<noteq> 2"
    | (sleep) "0 < count" "4095 - PIPE_SIZE p = 0" "pp_count p = 2"
    | (copy) "0 < count" "4095 - PIPE_SIZE p \<noteq> 0"
    using not_less by blast
  then show ?case
  proof cases
    case finished
    then have "?R (Suc fuel) envs count w p ts w ?w 0 0 []" using Suc.prems(1,3) by (simp add: write_pipe.simps)
    then show ?thesis by blast
  next
    case nobody
    let ?p = "?w\<lparr>pp_signal := pp_signal ?w OR sig_bit SIGPIPE\<rparr>"
    have l: "length (pipe_bytes p) = 4095" using nobody(2) length_pipe_bytes[of p] by linarith
    have b: "pipe_bytes ?p = pipe_bytes p" "pipe_ok ?p" "bit (pp_signal ?p) 12" "pp_count ?p = pp_count p"
      using Suc.prems(1) by (simp_all add: wake_end_def pipe_bytes_def PIPE_SIZE_def pipe_ok_def bit_or_iff bit_sig_bit SIGPIPE_def)
    have "write_pipe (Suc fuel) envs count w buf p = Some (if w \<noteq> 0 then w else - 1, ?p)"
      using nobody by (simp add: write_pipe.simps PAGE_SIZE_def Let_def)
    then have "?R (Suc fuel) envs count w p ts (if w \<noteq> 0 then w else - 1) ?p 0 0 []"
      using b l nobody(3) by simp
    then show ?thesis by blast
  next
    case sleep
    have l: "length (pipe_bytes p) = 4095" using sleep(2) length_pipe_bytes[of p] by linarith
    have "ts \<noteq> []" using Suc.prems(4) sleep(1) l by auto
    then obtain u us e1 es where t: "ts = u # us" "envs = e1 # es" "env_takes u e1" "list_all2 env_takes us es"
      using Suc.prems(2) by (cases ts) (auto simp: list_all2_Cons1)
    define q where "q = e1 ?w"
    have q: "pipe_ok q" "pipe_bytes q = drop u (pipe_bytes p)" "u \<le> 4095"
      using t(3) Suc.prems(1) l unfolding env_takes_def q_def by simp_all
    have "write_pipe (Suc fuel) envs count w buf p = write_pipe fuel es count w buf q"
      using sleep by (simp add: write_pipe.simps t(2) q_def PAGE_SIZE_def)
    moreover have "nat count + length (pipe_bytes q) \<le> 4095 + sum_list us" "nat count + length us < fuel"
      using Suc.prems(4,5) l q(2,3) t(1) by simp_all
    ultimately obtain r p' n k gone where R: "?R fuel es count w q us r p' n k gone"
      and eq: "write_pipe (Suc fuel) envs count w buf p = Some (r, p')" using Suc.IH[OF q(1) t(4) Suc.prems(3)] by metis
    have "pipe_bytes p = take u (pipe_bytes p) @ pipe_bytes q" "length (take u (pipe_bytes p)) = u" using q(2,3) l by simp_all
    moreover from R have "pipe_bytes q @ map buf [nat w..<nat w + n] = gone @ pipe_bytes p'" by blast
    ultimately have "pipe_bytes p @ map buf [nat w..<nat w + n] = (take u (pipe_bytes p) @ gone) @ pipe_bytes p'"
      by (metis append.assoc)
    moreover have "length (take u (pipe_bytes p) @ gone) = sum_list (take (Suc k) ts)" using R q(3) l by (simp add: t(1))
    moreover have "Suc k \<le> length ts" using R by (simp add: t(1))
    ultimately have "?R (Suc fuel) envs count w p ts r p' n (Suc k) (take u (pipe_bytes p) @ gone)"
      using R eq sleep(3) by blast
    then show ?thesis by blast
  next
    case copy
    obtain c p1 where c: "write_chunk count ?b p = (c, p1)" by (cases "write_chunk count ?b p")
    note R = write_chunk_spec[OF Suc.prems(1) copy(2,1) c]
    have eq: "write_pipe (Suc fuel) envs count w buf p = write_pipe fuel envs (count - c) (w + c) buf p1"
      using copy by (simp add: write_pipe.simps c PAGE_SIZE_def)
    have n: "nat count = nat c + nat (count - c)" "nat (w + c) = nat w + nat c" "0 \<le> w + c" "0 < nat c" using R(1,2) Suc.prems(3) by linarith+
    have m: "map ?b [0..<nat c] = map buf [nat w..<nat w + nat c]" by (simp add: list_eq_iff_nth_eq)
    have "nat (count - c) + length (pipe_bytes p1) \<le> 4095 + sum_list ts" "nat (count - c) + length ts < fuel"
      using Suc.prems(4,5) n(1,4) unfolding R(3) by simp_all
    from Suc.IH[OF R(4) Suc.prems(2) n(3) this] obtain r p' i k gone where
      I: "?R fuel envs (count - c) (w + c) p1 ts r p' i k gone" by blast
    have "pipe_bytes p @ map buf [nat w..<nat w + (nat c + i)] = pipe_bytes p1 @ map buf [nat (w + c)..<nat (w + c) + i]"
      unfolding R(3) m n(2) using upt_add_eq_append[of "nat w" "nat w + nat c" i] by (simp add: add.assoc)
    moreover have e: "w + c + int i = w + int (nat c + i)" "i = nat (count - c) \<longleftrightarrow> nat c + i = nat count" using R(1) n(1) by simp_all
    moreover have "nat c + i \<le> nat count" using I n(1) by simp
    ultimately have "?R (Suc fuel) envs count w p ts r p' (nat c + i) k gone"
      using I[folded eq] unfolding e R(5) by metis
    then show ?thesis by blast
  qed
qed simp

section \<open>The creation of a pipe\<close>

lemma take2_filter:
  assumes "take 2 (filter P xs) = ys" and "distinct xs"
  shows "distinct ys" and "y \<in> set ys \<Longrightarrow> y \<in> set xs \<and> P y" and "length ys \<le> 2"
proof -
  show "distinct ys" using assms by (metis distinct_filter distinct_take)
  show "y \<in> set ys \<Longrightarrow> y \<in> set xs \<and> P y"
    using assms(1) set_take_subset[of 2 "filter P xs"] by auto
  show "length ys \<le> 2" using assms(1) by auto
qed

lemma list_le2_cases:
  assumes "length ys \<le> 2"
  obtains (empty) "ys = []" | (one) a where "ys = [a]" | (two) a b where "ys = [a, b]"
proof (cases ys)
  case (Cons a zs)
  then show ?thesis using that(2,3) assms by (cases zs) auto
qed (rule that(1))

lemma filp_upd_file [simp]: "filp (upd_file i f s) = filp s"
  by (simp add: upd_file_def)

lemma upd_file_filp: "upd_file i f (s\<lparr>filp := F\<rparr>) = (upd_file i f s)\<lparr>filp := F\<rparr>"
  by (simp add: upd_file_def)

text \<open>Giving the two entries back restores the file table.\<close>

lemma files_restored:
  assumes "f_count (file_table s f0) = 0" and "f_count (file_table s f1) = 0" and "f0 \<noteq> f1"
  shows "upd_file f1 (\<lambda>f. f\<lparr>f_count := 0\<rparr>) (upd_file f0 (\<lambda>f. f\<lparr>f_count := 0\<rparr>)
     (upd_file f1 (\<lambda>f. f\<lparr>f_count := f_count f + 1\<rparr>) (upd_file f0 (\<lambda>f. f\<lparr>f_count := f_count f + 1\<rparr>) s))) = s"
proof -
  have "file_table (upd_file f1 (\<lambda>f. f\<lparr>f_count := 0\<rparr>) (upd_file f0 (\<lambda>f. f\<lparr>f_count := 0\<rparr>)
     (upd_file f1 (\<lambda>f. f\<lparr>f_count := f_count f + 1\<rparr>) (upd_file f0 (\<lambda>f. f\<lparr>f_count := f_count f + 1\<rparr>) s)))) = file_table s"
    using assms by (auto simp: upd_file_def fun_eq_iff)
  then show ?thesis by (simp add: upd_file_def)
qed

lemma file_restored: "f_count (file_table s i) = 0 \<Longrightarrow>
    upd_file i (\<lambda>f. f\<lparr>f_count := 0\<rparr>) (upd_file i (\<lambda>f. f\<lparr>f_count := f_count f + 1\<rparr>) s) = s"
  by (simp add: upd_file_def fun_upd_idem)

lemma sys_pipe_spec:
  assumes r: "sys_pipe ino s = (r, fds, s')"
  shows "r = - 1 \<and> fds = None \<and> s' = s
    \<or> (\<exists>d0 d1 f0 f1 i. r = 0 \<and> fds = Some (d0, d1) \<and> ino = Some i \<and> d0 \<noteq> d1 \<and> f0 \<noteq> f1
        \<and> d0 < NR_OPEN \<and> d1 < NR_OPEN \<and> f0 < NR_FILE \<and> f1 < NR_FILE
        \<and> filp s d0 = None \<and> filp s d1 = None \<and> f_count (file_table s f0) = 0 \<and> f_count (file_table s f1) = 0
        \<and> filp s' = (filp s)(d0 \<mapsto> f0, d1 \<mapsto> f1)
        \<and> file_table s' = (file_table s)
            (f0 := (file_table s f0)\<lparr>f_count := 1, f_inode := Some i, f_pos := 0, f_mode := 1\<rparr>,
             f1 := (file_table s f1)\<lparr>f_count := 1, f_inode := Some i, f_pos := 0, f_mode := 2\<rparr>))"
proof -
  define fs where "fs = take 2 (filter (\<lambda>i. f_count (file_table s i) = 0) [0..<NR_FILE])"
  define ds where "ds = take 2 (filter (\<lambda>i. filp s i = None) [0..<NR_OPEN])"
  note F = take2_filter[OF fs_def[symmetric] distinct_upt]
  note D = take2_filter[OF ds_def[symmetric] distinct_upt]
  from F(3) show ?thesis
  proof (cases rule: list_le2_cases)
    case empty
    with r show ?thesis by (simp add: sys_pipe_def flip: fs_def)
  next
    case (one a)
    have "f_count (file_table s a) = 0" using F(2)[of a] one by simp
    with r one show ?thesis by (simp add: sys_pipe_def file_restored flip: fs_def)
  next
    case (two f0 f1)
    have f: "f0 \<noteq> f1" "f0 < NR_FILE" "f1 < NR_FILE" "f_count (file_table s f0) = 0" "f_count (file_table s f1) = 0"
      using F(1) F(2)[of f0] F(2)[of f1] two by auto
    note restore = files_restored[OF f(4,5,1)]
    from D(3) show ?thesis
    proof (cases rule: list_le2_cases)
      case empty
      with r two restore show ?thesis by (simp add: sys_pipe_def Let_def flip: fs_def ds_def)
    next
      case (one d)
      have d: "filp s d = None" using D(2)[of d] one by simp
      with r two one show ?thesis
        by (simp add: sys_pipe_def Let_def upd_file_filp restore fun_upd_idem flip: fs_def ds_def)
    next
      case two': (two d0 d1)
      have d: "d0 \<noteq> d1" "d0 < NR_OPEN" "d1 < NR_OPEN" "filp s d0 = None" "filp s d1 = None"
        using D(1) D(2)[of d0] D(2)[of d1] two' by auto
      show ?thesis
      proof (cases ino)
        case None
        have "(filp s)(d0 \<mapsto> f0, d1 := None, d0 := None) = filp s" using d by auto
        with r two two' None show ?thesis
          by (simp add: sys_pipe_def Let_def upd_file_filp restore flip: fs_def ds_def)
      next
        case (Some i)
        have s': "s' = upd_file f1 (\<lambda>f. f\<lparr>f_inode := Some i, f_pos := 0, f_mode := 2\<rparr>)
            (upd_file f0 (\<lambda>f. f\<lparr>f_inode := Some i, f_pos := 0, f_mode := 1\<rparr>)
              ((upd_file f1 (\<lambda>f. f\<lparr>f_count := f_count f + 1\<rparr>) (upd_file f0 (\<lambda>f. f\<lparr>f_count := f_count f + 1\<rparr>) s))
                 \<lparr>filp := (filp s)(d0 \<mapsto> f0, d1 \<mapsto> f1)\<rparr>))"
          and rf: "r = 0" "fds = Some (d0, d1)"
          using r two two' Some by (simp_all add: sys_pipe_def Let_def flip: fs_def ds_def)
        have "filp s' = (filp s)(d0 \<mapsto> f0, d1 \<mapsto> f1)" unfolding s' by simp
        moreover have "file_table s' = (file_table s)
            (f0 := (file_table s f0)\<lparr>f_count := 1, f_inode := Some i, f_pos := 0, f_mode := 1\<rparr>,
             f1 := (file_table s f1)\<lparr>f_count := 1, f_inode := Some i, f_pos := 0, f_mode := 2\<rparr>)"
          using f unfolding s' by (auto simp: upd_file_def fun_eq_iff)
        ultimately show ?thesis using rf Some f d by blast
      qed
    qed
  qed
qed

end
