(* ===== verification/Vsprintf.thy ===== *)
theory Vsprintf
  imports Prelude
begin

text \<open>
  The kernel's formatted printing (\<open>kernel/vsprintf.c\<close>): the number printer, the parser of conversion
  specifications and \<open>vsprintf\<close>. A format and an output are lists of characters without the final
  NUL; the variable arguments are the list of 32-bit words on the stack, and \<open>strs\<close> gives the string
  at an address. Reading past the last argument is \<open>None\<close>.
\<close>

section \<open>Numbers\<close>

definition is_digit :: "char \<Rightarrow> bool" where
  "is_digit c \<longleftrightarrow> 48 \<le> (of_char c :: nat) \<and> (of_char c :: nat) \<le> 57"

text \<open>\<open>i * 10 + c - '0'\<close> wraps as an \<open>int\<close> does.\<close>

fun skip_atoi :: "u32 \<Rightarrow> string \<Rightarrow> u32 \<times> string" where
  "skip_atoi i [] = (i, [])"
| "skip_atoi i (c # s) =
     (if is_digit c then skip_atoi (i * 10 + (of_nat (of_char c) - 48)) s else (i, c # s))"

record flags =
  zeropad :: bool
  sign_flag :: bool
  plus_flag :: bool
  space_flag :: bool
  left_flag :: bool
  special :: bool
  small :: bool

definition no_flags :: flags where
  "no_flags = \<lparr>zeropad = False, sign_flag = False, plus_flag = False, space_flag = False, left_flag = False,
     special = False, small = False\<rparr>"

definition digits_of :: "bool \<Rightarrow> string" where
  "digits_of sm = (if sm then ''0123456789abcdefghijklmnopqrstuvwxyz''
                   else ''0123456789ABCDEFGHIJKLMNOPQRSTUVWXYZ'')"

text \<open>The loop over \<open>do_div\<close>, an unsigned division: the digits, the last one first.\<close>

fun div_loop :: "nat \<Rightarrow> nat \<Rightarrow> nat list" where
  "div_loop base n = (if n = 0 \<or> base < 2 then [] else n mod base # div_loop base (n div base))"

declare div_loop.simps [simp del]

text \<open>\<open>while (size-- > 0) *str++ = c\<close>: what it writes and what is left of \<open>size\<close>.\<close>

definition pad :: "char \<Rightarrow> int \<Rightarrow> string \<times> int" where
  "pad c sz = (replicate (nat sz) c, if sz > 0 then - 1 else sz - 1)"

text \<open>The sign printed and the number whose digits are.\<close>

definition sign_of :: "flags \<Rightarrow> u32 \<Rightarrow> string" where
  "sign_of fl num =
     (if sign_flag fl \<and> sint num < 0 then ''-'' else if plus_flag fl then ''+''
      else if space_flag fl then '' '' else [])"

definition magnitude :: "flags \<Rightarrow> u32 \<Rightarrow> u32" where
  "magnitude fl num = (if sign_flag fl \<and> sint num < 0 then - num else num)"

definition number :: "u32 \<Rightarrow> nat \<Rightarrow> int \<Rightarrow> int \<Rightarrow> flags \<Rightarrow> string option" where
  "number num base sz precision fl =
     (if base < 2 \<or> base > 36 then None
      else
        let digits = digits_of (small fl);
            zp = (zeropad fl \<and> \<not> left_flag fl);
            c = (if zp then CHR ''0'' else CHR '' '');
            sign = sign_of fl num;
            num1 = magnitude fl num;
            size1 = (if sign \<noteq> [] then sz - 1 else sz);
            size2 = (if special fl then if base = 16 then size1 - 2 else if base = 8 then size1 - 1 else size1
                     else size1);
            tmp = (if num1 = 0 then [0] else div_loop base (unat num1));
            prec = (if int (length tmp) > precision then int (length tmp) else precision);
            size3 = size2 - prec;
            (pre, size4) = (if \<not> (zp \<or> left_flag fl) then pad CHR '' '' size3 else ([], size3));
            prefix = (if special fl then if base = 8 then ''0'' else if base = 16 then [CHR ''0'', digits ! 33] else []
                      else []);
            (fill, size5) = (if \<not> left_flag fl then pad c size4 else ([], size4));
            zeros = replicate (nat (prec - int (length tmp))) CHR ''0'';
            (post, size6) = pad CHR '' '' size5
        in Some (pre @ sign @ prefix @ fill @ zeros @ map (\<lambda>d. digits ! d) (rev tmp) @ post))"

section \<open>Conversion specifications\<close>

fun parse_flags :: "flags \<Rightarrow> string \<Rightarrow> flags \<times> string" where
  "parse_flags fl [] = (fl, [])"
| "parse_flags fl (c # s) =
     (if c = CHR ''-'' then parse_flags (fl\<lparr>left_flag := True\<rparr>) s
      else if c = CHR ''+'' then parse_flags (fl\<lparr>plus_flag := True\<rparr>) s
      else if c = CHR '' '' then parse_flags (fl\<lparr>space_flag := True\<rparr>) s
      else if c = CHR ''#'' then parse_flags (fl\<lparr>special := True\<rparr>) s
      else if c = CHR ''0'' then parse_flags (fl\<lparr>zeropad := True\<rparr>) s
      else (fl, c # s))"

definition va_arg :: "u32 list \<Rightarrow> (u32 \<times> u32 list) option" where
  "va_arg args = (case args of [] \<Rightarrow> None | a # as \<Rightarrow> Some (a, as))"

definition parse_width :: "flags \<Rightarrow> string \<Rightarrow> u32 list \<Rightarrow> (int \<times> flags \<times> string \<times> u32 list) option" where
  "parse_width fl s args =
     (case s of
        [] \<Rightarrow> Some (- 1, fl, s, args)
      | c # s' \<Rightarrow>
          if is_digit c then (let (w, r) = skip_atoi 0 s in Some (sint w, fl, r, args))
          else if c = CHR ''*''
          then map_option (\<lambda>(w, as). if sint w < 0 then (sint (- w), fl\<lparr>left_flag := True\<rparr>, s', as)
                                     else (sint w, fl, s', as)) (va_arg args)
          else Some (- 1, fl, s, args))"

definition parse_precision :: "string \<Rightarrow> u32 list \<Rightarrow> (int \<times> string \<times> u32 list) option" where
  "parse_precision s args =
     (if s \<noteq> [] \<and> hd s = CHR ''.''
      then map_option (\<lambda>(p, r, as). (if p < 0 then 0 else p, r, as))
             (case tl s of
                [] \<Rightarrow> Some (- 1, [], args)
              | c # s' \<Rightarrow>
                  if is_digit c then (let (w, r) = skip_atoi 0 (c # s') in Some (sint w, r, args))
                  else if c = CHR ''*'' then map_option (\<lambda>(w, as). (sint w, s', as)) (va_arg args)
                  else Some (- 1, c # s', args))
      else Some (- 1, s, args))"

definition parse_qualifier :: "string \<Rightarrow> string" where
  "parse_qualifier s = (if s \<noteq> [] \<and> hd s \<in> {CHR ''h'', CHR ''l'', CHR ''L''} then tl s else s)"

text \<open>\<open>\%c\<close>: pads with \<open>--field_width > 0\<close>; \<open>\%s\<close> with \<open>len < field_width--\<close>.\<close>

definition conv_char :: "flags \<Rightarrow> int \<Rightarrow> u32 \<Rightarrow> string" where
  "conv_char fl width a =
     (let c = char_of (unat a);
          sp = replicate (nat (width - 1)) CHR '' ''
      in if \<not> left_flag fl then sp @ [c] else [c] @ sp)"

definition conv_string :: "flags \<Rightarrow> int \<Rightarrow> int \<Rightarrow> string \<Rightarrow> string" where
  "conv_string fl width precision s =
     (let len = (if precision < 0 \<or> int (length s) \<le> precision then int (length s) else precision);
          sp = replicate (nat (width - len)) CHR '' '';
          body = take (nat len) s
      in if \<not> left_flag fl then sp @ body else body @ sp)"

text \<open>
  The \<open>switch\<close> on the conversion character, the first of \<open>s\<close>; \<open>pos\<close> is the number of characters written
  so far, which \<open>\%n\<close> stores. The result is the text, the rest of the arguments, and the stores. At the
  end of the format \<open>--fmt\<close> undoes the \<open>++fmt\<close> of the main loop.
\<close>

definition conversion :: "(u32 \<Rightarrow> string) \<Rightarrow> flags \<Rightarrow> int \<Rightarrow> int \<Rightarrow> string \<Rightarrow> u32 list \<Rightarrow> nat \<Rightarrow>
    (string \<times> u32 list \<times> (u32 \<times> nat) list) option" where
  "conversion strs fl width prec s args pos =
     (let num = (\<lambda>base w fl. case va_arg args of None \<Rightarrow> None
                   | Some (a, as) \<Rightarrow> map_option (\<lambda>out. (out, as, [])) (number a base w prec fl))
      in case s of
           [] \<Rightarrow> Some (''%'', args, [])
         | c # s' \<Rightarrow>
             if c = CHR ''c'' then map_option (\<lambda>(a, as). (conv_char fl width a, as, [])) (va_arg args)
             else if c = CHR ''s'' then map_option (\<lambda>(a, as). (conv_string fl width prec (strs a), as, [])) (va_arg args)
             else if c = CHR ''o'' then num 8 width fl
             else if c = CHR ''p''
             then (if width = - 1 then num 16 8 (fl\<lparr>zeropad := True\<rparr>) else num 16 width fl)
             else if c = CHR ''x'' then num 16 width (fl\<lparr>small := True\<rparr>)
             else if c = CHR ''X'' then num 16 width fl
             else if c = CHR ''d'' \<or> c = CHR ''i'' then num 10 width (fl\<lparr>sign_flag := True\<rparr>)
             else if c = CHR ''u'' then num 10 width fl
             else if c = CHR ''n'' then map_option (\<lambda>(a, as). ([], as, [(a, pos)])) (va_arg args)
             else if c \<noteq> CHR ''%'' then Some ([CHR ''%'', c], args, [])
             else Some ([c], args, []))"

text \<open>A whole specification after its \<open>\%\<close>.\<close>

definition directive :: "(u32 \<Rightarrow> string) \<Rightarrow> string \<Rightarrow> u32 list \<Rightarrow> nat \<Rightarrow>
    (string \<times> string \<times> u32 list \<times> (u32 \<times> nat) list) option" where
  "directive strs s args pos =
     (let (fl, s1) = parse_flags no_flags s
      in case parse_width fl s1 args of
           None \<Rightarrow> None
         | Some (width, fl1, s2, args1) \<Rightarrow>
             (case parse_precision s2 args1 of
                None \<Rightarrow> None
              | Some (prec, s3, args2) \<Rightarrow>
                  let s4 = parse_qualifier s3
                  in map_option (\<lambda>(out, as, ns). (out, tl s4, as, ns))
                       (conversion strs fl1 width prec s4 args2 pos)))"

section \<open>The parser makes progress\<close>

lemma skip_atoi_le: "skip_atoi i s = (w, r) \<Longrightarrow> length r \<le> length s"
  by (induction i s rule: skip_atoi.induct) (auto split: if_splits)

lemma parse_flags_le: "parse_flags fl s = (fl', r) \<Longrightarrow> length r \<le> length s"
  by (induction fl s rule: parse_flags.induct) (auto split: if_splits)

lemma parse_width_le: "parse_width fl s args = Some (w, fl', r, as) \<Longrightarrow> length r \<le> length s"
  by (auto simp: parse_width_def split: list.splits if_splits prod.splits dest!: skip_atoi_le)

lemma parse_precision_le: "parse_precision s args = Some (p, r, as) \<Longrightarrow> length r \<le> length s"
  by (cases s) (auto simp: parse_precision_def split: list.splits if_splits prod.splits dest!: skip_atoi_le)

lemma directive_le:
  assumes "directive strs s args pos = Some (out, r, as, ns)"
  shows "length r \<le> length s"
proof -
  obtain fl s1 where f: "parse_flags no_flags s = (fl, s1)" by fastforce
  obtain w fl1 s2 a1 where w: "parse_width fl s1 args = Some (w, fl1, s2, a1)"
    using assms f by (auto simp: directive_def split: option.splits)
  obtain p s3 a2 where p: "parse_precision s2 a1 = Some (p, s3, a2)"
    using assms f w by (auto simp: directive_def split: option.splits)
  have "r = tl (parse_qualifier s3)" using assms f w p by (auto simp: directive_def Let_def)
  then have "length r \<le> length (parse_qualifier s3)" by simp
  also have "length (parse_qualifier s3) \<le> length s3" by (simp add: parse_qualifier_def)
  also note parse_precision_le[OF p]
  also note parse_width_le[OF w]
  also note parse_flags_le[OF f]
  finally show ?thesis .
qed

function vsprintf_loop :: "(u32 \<Rightarrow> string) \<Rightarrow> string \<Rightarrow> u32 list \<Rightarrow> string \<Rightarrow> (u32 \<times> nat) list \<Rightarrow>
    (string \<times> (u32 \<times> nat) list) option" where
  "vsprintf_loop strs [] args out ns = Some (out, ns)"
| "vsprintf_loop strs (c # s) args out ns =
     (if c \<noteq> CHR ''%'' then vsprintf_loop strs s args (out @ [c]) ns
      else case directive strs s args (length out) of
             None \<Rightarrow> None
           | Some (t, r, as, n) \<Rightarrow> vsprintf_loop strs r as (out @ t) (ns @ n))"
  by pat_completeness auto
termination
  by (relation "measure (\<lambda>(strs, s, args, out, ns). length s)") (auto dest!: directive_le simp: less_Suc_eq_le)

definition vsprintf :: "(u32 \<Rightarrow> string) \<Rightarrow> string \<Rightarrow> u32 list \<Rightarrow> (int \<times> string \<times> (u32 \<times> nat) list) option" where
  "vsprintf strs fmt args =
     map_option (\<lambda>(out, ns). (int (length out), out, ns)) (vsprintf_loop strs fmt args [] [])"

section \<open>Digits\<close>

lemma div_loop_0 [simp]: "div_loop base 0 = []"
  by (simp add: div_loop.simps)

lemma div_loop_step: "n \<noteq> 0 \<Longrightarrow> 2 \<le> base \<Longrightarrow> div_loop base n = n mod base # div_loop base (n div base)"
  by (subst div_loop.simps) simp

lemma div_loop_less: "d \<in> set (div_loop base n) \<Longrightarrow> d < base"
proof (induction base n rule: div_loop.induct)
  case (1 base n)
  show ?case
  proof (cases "n = 0 \<or> base < 2")
    case True
    with 1 show ?thesis by (auto simp: div_loop.simps)
  next
    case False
    with 1 show ?thesis by (auto simp: div_loop_step)
  qed
qed

lemma div_loop_length: "2 \<le> base \<Longrightarrow> n < base ^ k \<Longrightarrow> length (div_loop base n) \<le> k"
proof (induction k arbitrary: n)
  case 0
  then show ?case by simp
next
  case (Suc k)
  show ?case
  proof (cases "n = 0")
    case False
    have "n div base < base ^ k" using Suc.prems by (simp add: less_mult_imp_div_less mult.commute)
    with Suc.IH Suc.prems(1) False show ?thesis by (simp add: div_loop_step)
  qed simp
qed

text \<open>\<open>tmp[36]\<close> is large enough for every base: a 32-bit number has at most 32 digits.\<close>

lemma tmp_fits:
  assumes "2 \<le> base"
  shows "length (div_loop base (unat (n :: u32))) \<le> 32"
proof (rule div_loop_length[OF assms])
  have "unat n < 2 ^ 32" using unsigned_less[of n] by simp
  also have "(2 :: nat) ^ 32 \<le> base ^ 32" using assms by (rule power_mono) simp
  finally show "unat n < base ^ 32" .
qed

section \<open>What is printed can be read back\<close>

lemma digit_char:
  assumes "d < 10"
  shows "is_digit (digits_of sm ! d)" and "of_nat (of_char (digits_of sm ! d)) - 48 = (of_nat d :: u32)"
proof -
  have "d \<in> {0, 1, 2, 3, 4, 5, 6, 7, 8, 9}" using assms by auto
  then show "is_digit (digits_of sm ! d)" "of_nat (of_char (digits_of sm ! d)) - 48 = (of_nat d :: u32)"
    by (cases sm; auto simp: is_digit_def digits_of_def)+
qed

lemma skip_zeros: "skip_atoi 0 (replicate z CHR ''0'' @ s) = skip_atoi 0 s"
  by (induction z) (simp_all add: is_digit_def)

lemma skip_digits: "\<forall>d \<in> set ds. d < 10 \<Longrightarrow>
    skip_atoi i (map (\<lambda>d. digits_of sm ! d) ds @ s) = skip_atoi (foldl (\<lambda>i d. i * 10 + of_nat d) i ds) s"
  by (induction ds arbitrary: i) (simp_all add: digit_char)

lemma foldl_div_loop: "foldl (\<lambda>i d. i * 10 + of_nat d) 0 (rev (div_loop 10 n)) = (of_nat n :: u32)"
proof (induction "10 :: nat" n rule: div_loop.induct)
  case (1 n)
  show ?case
  proof (cases "n = 0")
    case False
    have "of_nat n = (of_nat (n div 10 * 10 + n mod 10) :: u32)" by simp
    also have "\<dots> = of_nat (n div 10) * 10 + of_nat (n mod 10)" by (simp only: of_nat_add of_nat_mult) simp
    finally show ?thesis using 1 False by (simp add: div_loop_step)
  qed simp
qed

lemma skip_blanks: "skip_atoi i (replicate m CHR '' '') = (i, replicate m CHR '' '')"
  by (cases m) (simp_all add: is_digit_def)

lemma read_back:
  "skip_atoi 0 (replicate z CHR ''0'' @ map (\<lambda>d. digits_of sm ! d) (rev (if n = 0 then [0] else div_loop 10 (unat n)))
     @ replicate m CHR '' '') = (n, replicate m CHR '' '')"
proof -
  let ?ds = "rev (if n = 0 then [0] else div_loop 10 (unat n))"
  have l: "\<forall>d \<in> set ?ds. d < 10" using div_loop_less by auto
  have "foldl (\<lambda>i d. i * 10 + of_nat d) 0 ?ds = n" using foldl_div_loop[of "unat n"] by simp
  then show ?thesis unfolding skip_zeros skip_digits[OF l] by (simp only: skip_blanks)
qed

lemma number_shape:
  assumes "2 \<le> base" and "base \<le> 36" and "\<not> special fl"
  shows "\<exists>k z m. number num base sz prec fl = Some (replicate k CHR '' '' @ sign_of fl num @ replicate z CHR ''0''
      @ map (\<lambda>d. digits_of (small fl) ! d) (rev (if magnitude fl num = 0 then [0] else div_loop base (unat (magnitude fl num))))
      @ replicate m CHR '' '')
    \<and> (k = 0 \<or> m = 0)
    \<and> int (k + length (sign_of fl num) + z
        + length (if magnitude fl num = 0 then [0] else div_loop base (unat (magnitude fl num))) + m)
      = max sz (int (length (sign_of fl num))
          + max prec (int (length (if magnitude fl num = 0 then [0] else div_loop base (unat (magnitude fl num))))))"
proof -
  define tmp where "tmp = (if magnitude fl num = 0 then [0] else div_loop base (unat (magnitude fl num)))"
  define sg where "sg = sign_of fl num"
  define pr where "pr = max prec (int (length tmp))"
  define rest where "rest = sz - int (length sg) - pr"
  have sgl: "(if sg \<noteq> [] then sz - 1 else sz) = sz - int (length sg)" by (simp add: sg_def sign_of_def)
  have prl: "(if int (length tmp) > prec then int (length tmp) else prec) = pr" by (simp add: pr_def)
  have n: "number num base sz prec fl =
     (let zp = (zeropad fl \<and> \<not> left_flag fl); c = (if zp then CHR ''0'' else CHR '' '');
          (pre, size4) = (if \<not> (zp \<or> left_flag fl) then pad CHR '' '' rest else ([], rest));
          (fill, size5) = (if \<not> left_flag fl then pad c size4 else ([], size4));
          zeros = replicate (nat (pr - int (length tmp))) CHR ''0'';
          (post, size6) = pad CHR '' '' size5
      in Some (pre @ sg @ fill @ zeros @ map (\<lambda>d. digits_of (small fl) ! d) (rev tmp) @ post))"
    using assms unfolding number_def Let_def tmp_def[symmetric] sg_def[symmetric] sgl prl
    by (simp add: rest_def split: prod.split)
  have len: "pr - int (length tmp) \<ge> 0" by (simp add: pr_def)
  consider (left) "left_flag fl" | (zero) "\<not> left_flag fl" "zeropad fl" | (blank) "\<not> left_flag fl" "\<not> zeropad fl" by blast
  then show ?thesis
    unfolding tmp_def[symmetric] sg_def[symmetric] pr_def[symmetric]
  proof cases
    case left
    then have "number num base sz prec fl = Some (replicate 0 CHR '' '' @ sg @ replicate (nat (pr - int (length tmp))) CHR ''0''
        @ map (\<lambda>d. digits_of (small fl) ! d) (rev tmp) @ replicate (nat rest) CHR '' '')"
      unfolding n by (simp add: pad_def Let_def)
    moreover have "int (0 + length sg + nat (pr - int (length tmp)) + length tmp + nat rest) = max sz (int (length sg) + pr)"
      using len by (simp add: rest_def)
    ultimately show "\<exists>k z m. number num base sz prec fl = Some (replicate k CHR '' '' @ sg @ replicate z CHR ''0''
        @ map (\<lambda>d. digits_of (small fl) ! d) (rev tmp) @ replicate m CHR '' '') \<and> (k = 0 \<or> m = 0)
      \<and> int (k + length sg + z + length tmp + m) = max sz (int (length sg) + pr)" by blast
  next
    case zero
    then have "number num base sz prec fl = Some (replicate 0 CHR '' '' @ sg @ replicate (nat rest + nat (pr - int (length tmp))) CHR ''0''
        @ map (\<lambda>d. digits_of (small fl) ! d) (rev tmp) @ replicate 0 CHR '' '')"
      unfolding n by (simp add: pad_def Let_def replicate_add)
    moreover have "int (0 + length sg + (nat rest + nat (pr - int (length tmp))) + length tmp + 0) = max sz (int (length sg) + pr)"
      using len by (simp add: rest_def)
    ultimately show "\<exists>k z m. number num base sz prec fl = Some (replicate k CHR '' '' @ sg @ replicate z CHR ''0''
        @ map (\<lambda>d. digits_of (small fl) ! d) (rev tmp) @ replicate m CHR '' '') \<and> (k = 0 \<or> m = 0)
      \<and> int (k + length sg + z + length tmp + m) = max sz (int (length sg) + pr)" by blast
  next
    case blank
    then have "number num base sz prec fl = Some (replicate (nat rest) CHR '' '' @ sg @ replicate (nat (pr - int (length tmp))) CHR ''0''
        @ map (\<lambda>d. digits_of (small fl) ! d) (rev tmp) @ replicate 0 CHR '' '')"
      unfolding n by (simp add: pad_def Let_def)
    moreover have "int (nat rest + length sg + nat (pr - int (length tmp)) + length tmp + 0) = max sz (int (length sg) + pr)"
      using len by (simp add: rest_def)
    ultimately show "\<exists>k z m. number num base sz prec fl = Some (replicate k CHR '' '' @ sg @ replicate z CHR ''0''
        @ map (\<lambda>d. digits_of (small fl) ! d) (rev tmp) @ replicate m CHR '' '') \<and> (k = 0 \<or> m = 0)
      \<and> int (k + length sg + z + length tmp + m) = max sz (int (length sg) + pr)" by blast
  qed
qed

section \<open>Whole formats\<close>

lemma vsprintf_loop_plain:
  "CHR ''%'' \<notin> set t \<Longrightarrow> vsprintf_loop strs (t @ s) args out ns = vsprintf_loop strs s args (out @ t) ns"
  by (induction t arbitrary: out) auto

text \<open>The reference: decimal notation, by recursion from the front.\<close>

fun decimal :: "nat \<Rightarrow> string" where
  "decimal n = (if n < 10 then [char_of (48 + n)] else decimal (n div 10) @ [char_of (48 + n mod 10)])"

declare decimal.simps [simp del]

definition decimal_int :: "int \<Rightarrow> string" where
  "decimal_int i = (if i < 0 then CHR ''-'' # decimal (nat (- i)) else decimal (nat i))"

lemma digit_nth: "d < 10 \<Longrightarrow> digits_of sm ! d = char_of (48 + d)"
proof -
  assume "d < 10"
  then have "d \<in> {0, 1, 2, 3, 4, 5, 6, 7, 8, 9}" by auto
  then show ?thesis by (cases sm; auto simp: digits_of_def char_of_def bit_simps)
qed

lemma digits_decimal:
  "map (\<lambda>d. digits_of sm ! d) (rev (if n = 0 then [0] else div_loop 10 n)) = decimal n"
proof (induction n rule: decimal.induct)
  case (1 n)
  show ?case
  proof (cases "n < 10")
    case True
    then show ?thesis
      by (cases "n = 0") (simp_all add: div_loop_step decimal.simps[of n] decimal.simps[of 0] digit_nth)
  next
    case False
    then have "n div 10 \<noteq> 0" by simp
    with 1 False show ?thesis by (simp add: div_loop_step decimal.simps[of n] digit_nth)
  qed
qed

lemma number_decimal:
  assumes "sign_flag fl" and "\<not> plus_flag fl" and "\<not> space_flag fl" and "\<not> special fl"
  shows "number a 10 (- 1) (- 1) fl = Some (decimal_int (sint a))"
proof -
  let ?m = "magnitude fl a"
  let ?tmp = "if ?m = 0 then [0] else div_loop 10 (unat ?m)"
  obtain k z m where n: "number a 10 (- 1) (- 1) fl = Some (replicate k CHR '' '' @ sign_of fl a @ replicate z CHR ''0''
      @ map (\<lambda>d. digits_of (small fl) ! d) (rev ?tmp) @ replicate m CHR '' '')"
    and l: "int (k + length (sign_of fl a) + z + length ?tmp + m)
      = max (- 1) (int (length (sign_of fl a)) + max (- 1) (int (length ?tmp)))"
    using number_shape[of 10 fl a "- 1" "- 1"] assms(4) by auto
  have "k = 0 \<and> z = 0 \<and> m = 0" using l by linarith
  moreover have "map (\<lambda>d. digits_of (small fl) ! d) (rev ?tmp) = decimal (unat ?m)"
    using digits_decimal[of "small fl" "unat ?m"] by (simp add: unat_eq_0)
  ultimately have r: "number a 10 (- 1) (- 1) fl = Some (sign_of fl a @ decimal (unat ?m))" using n by simp
  show ?thesis
  proof (cases "sint a < 0")
    case True
    then have s: "sint a = uint a - 2 ^ 32" "\<not> uint a < 2 ^ 31" by (simp_all add: sint_u32 split: if_splits)
    have "uint a < 2 ^ 32" using unsigned_less[of a] by simp
    have "uint (- a) = (- uint a) mod 2 ^ 32" by (simp add: uint_word_arith_bintrs take_bit_eq_mod)
    also have "\<dots> = (2 ^ 32 - uint a) mod 2 ^ 32" by (simp add: mod_diff_left_eq[symmetric])
    also have "\<dots> = 2 ^ 32 - uint a" using s(2) \<open>uint a < 2 ^ 32\<close> by (intro mod_pos_pos_trivial) simp_all
    finally have "unat (- a) = nat (- sint a)" by (simp add: unat_eq_nat_uint s)
    with r True assms show ?thesis by (simp add: sign_of_def magnitude_def decimal_int_def)
  next
    case False
    have "uint a < 2 ^ 32" using unsigned_less[of a] by simp
    then have "sint a = uint a" using False by (simp add: sint_u32 split: if_splits)
    then have "unat a = nat (sint a)" by simp
    with r False assms show ?thesis by (simp add: sign_of_def magnitude_def decimal_int_def)
  qed
qed

lemma directive_d:
  "directive strs (CHR ''d'' # s) (a # as) pos = Some (decimal_int (sint a), s, as, [])"
proof -
  have "number a 10 (- 1) (- 1) (no_flags\<lparr>sign_flag := True\<rparr>) = Some (decimal_int (sint a))"
    by (rule number_decimal) (simp_all add: no_flags_def)
  then show ?thesis
    by (simp add: directive_def parse_width_def parse_precision_def parse_qualifier_def conversion_def
        is_digit_def va_arg_def Let_def)
qed

lemma vsprintf_d:
  assumes "CHR ''%'' \<notin> set t" and "CHR ''%'' \<notin> set u"
  shows "vsprintf strs (t @ ''%d'' @ u) [a] = Some (int (length (t @ decimal_int (sint a) @ u)), t @ decimal_int (sint a) @ u, [])"
proof -
  have "vsprintf_loop strs (t @ ''%d'' @ u) [a] [] [] = Some (t @ decimal_int (sint a) @ u, [])"
    using vsprintf_loop_plain[OF assms(1), of strs "''%d'' @ u" "[a]" "[]" "[]"]
      vsprintf_loop_plain[OF assms(2), of strs "[]" "[]" "t @ decimal_int (sint a)" "[]"]
    by (simp add: directive_d)
  then show ?thesis by (simp add: vsprintf_def)
qed

end
