(* ===== verification/Mktime.thy ===== *)
theory Mktime
  imports Prelude "HOL-Library.Signed_Division"
begin

text \<open>
  The conversion of the clock's date to seconds since 1970 (\<open>kernel/mktime.c\<close>) and its agreement with
  the Gregorian calendar. Fields of \<open>struct tm\<close> are integers; the sum is computed in a 32-bit \<open>long\<close>.
\<close>

record tm =
  tm_sec :: int
  tm_min :: int
  tm_hour :: int
  tm_mday :: int
  tm_mon :: int
  tm_year :: int

definition MINUTE :: int where "MINUTE = 60"
definition HOUR :: int where "HOUR = 60 * MINUTE"
definition DAY :: int where "DAY = 24 * HOUR"
definition YEAR :: int where "YEAR = 365 * DAY"

text \<open>The table \<open>month\<close>: seconds before each month of a leap year.\<close>

definition month_table :: "int list" where
  "month_table = [0, DAY * 31, DAY * (31 + 29), DAY * (31 + 29 + 31), DAY * (31 + 29 + 31 + 30),
     DAY * (31 + 29 + 31 + 30 + 31), DAY * (31 + 29 + 31 + 30 + 31 + 30),
     DAY * (31 + 29 + 31 + 30 + 31 + 30 + 31), DAY * (31 + 29 + 31 + 30 + 31 + 30 + 31 + 31),
     DAY * (31 + 29 + 31 + 30 + 31 + 30 + 31 + 31 + 30),
     DAY * (31 + 29 + 31 + 30 + 31 + 30 + 31 + 31 + 30 + 31),
     DAY * (31 + 29 + 31 + 30 + 31 + 30 + 31 + 31 + 30 + 31 + 30)]"

text \<open>
  \<open>kernel_mktime\<close> also writes the corrected year back. A month outside the table is out of bounds. The \<open>long\<close> it computes
  in wraps at 32 bits and is signed.
\<close>

definition kernel_mktime :: "tm \<Rightarrow> (int \<times> tm) kres" where
  "kernel_mktime t0 =
     (let t = (if tm_year t0 < 70 then t0\<lparr>tm_year := tm_year t0 + 100\<rparr> else t0);
          year = tm_year t - 70
      in if tm_mon t < 0 \<or> 12 \<le> tm_mon t then Inl OutOfBounds
         else
           let res = word_of_int (YEAR * year + DAY * ((year + 1) sdiv 4)) :: u32;
               res = res + word_of_int (month_table ! nat (tm_mon t));
               res = (if tm_mon t > 1 \<and> (year + 2) mod 4 \<noteq> 0 then res - word_of_int DAY else res);
               res = res + word_of_int (DAY * (tm_mday t - 1));
               res = res + word_of_int (HOUR * tm_hour t);
               res = res + word_of_int (MINUTE * tm_min t);
               res = res + word_of_int (tm_sec t)
           in Inr (sint res, t))"

section \<open>The calendar\<close>

definition leap :: "int \<Rightarrow> bool" where
  "leap y \<longleftrightarrow> y mod 4 = 0 \<and> (y mod 100 \<noteq> 0 \<or> y mod 400 = 0)"

definition month_days :: "int \<Rightarrow> nat \<Rightarrow> int" where
  "month_days y m = (if m = 1 then if leap y then 29 else 28 else if m \<in> {3, 5, 8, 10} then 30 else 31)"

fun days_before_year :: "nat \<Rightarrow> int" where
  "days_before_year 0 = 0"
| "days_before_year (Suc n) = days_before_year n + (if leap (1970 + int n) then 366 else 365)"

fun days_before_month :: "int \<Rightarrow> nat \<Rightarrow> int" where
  "days_before_month y 0 = 0"
| "days_before_month y (Suc m) = days_before_month y m + month_days y m"

text \<open>Seconds from the start of 1970 to a moment of the year \<open>1970 + n\<close>.\<close>

definition epoch_seconds :: "nat \<Rightarrow> nat \<Rightarrow> int \<Rightarrow> int \<Rightarrow> int \<Rightarrow> int \<Rightarrow> int" where
  "epoch_seconds n m d h mi s =
     86400 * (days_before_year n + days_before_month (1970 + int n) m + (d - 1)) + 3600 * h + 60 * mi + s"

text \<open>Between 1970 and 2099 every fourth year is a leap year.\<close>

lemma leap_4: "n < 130 \<Longrightarrow> leap (1970 + int n) \<longleftrightarrow> (int n + 2) mod 4 = 0"
  unfolding leap_def by presburger

lemma days_before_year: "n < 130 \<Longrightarrow> days_before_year n = 365 * int n + (int n + 1) div 4"
proof (induction n)
  case (Suc n)
  have "(int n + 2) div 4 = (int n + 1) div 4 + (if (int n + 2) mod 4 = 0 then 1 else 0)" by presburger
  then show ?case using Suc leap_4[of n] by (simp add: add.commute)
qed simp

lemma days_before_month:
  assumes "m < 12"
  shows "86400 * days_before_month y m = month_table ! m - (if m > 1 \<and> \<not> leap y then DAY else 0)"
proof -
  have "m \<in> {0, 1, 2, 3, 4, 5, 6, 7, 8, 9, 10, 11}" using assms by (simp add: numeral_eq_Suc less_Suc_eq)
  then show ?thesis
    by (auto simp: month_table_def month_days_def DAY_def HOUR_def MINUTE_def eval_nat_numeral)
qed

lemma kernel_mktime_spec:
  assumes y: "tm_year t = int n + 70 \<or> tm_year t = int n - 30 \<and> tm_year t < 70" and n: "n < 130" and m: "tm_mon t = int m" "m < 12"
    and e: "e = epoch_seconds n m (tm_mday t) (tm_hour t) (tm_min t) (tm_sec t)"
  shows "\<exists>r t'. kernel_mktime t = Inr (r, t') \<and> r = sint (word_of_int e :: u32) \<and> tm_year t' = int n + 70"
proof -
  define t1 where "t1 = (if tm_year t < 70 then t\<lparr>tm_year := tm_year t + 100\<rparr> else t)"
  have t1: "tm_year t1 = int n + 70" "tm_mon t1 = int m" "tm_mday t1 = tm_mday t" "tm_hour t1 = tm_hour t"
    "tm_min t1 = tm_min t" "tm_sec t1 = tm_sec t"
    using y m by (auto simp: t1_def)
  have q: "(int n + 1) sdiv 4 = (int n + 1) div 4" by (simp add: signed_divide_int_def sgn_if)
  have "e = (if int m > 1 \<and> (int n + 2) mod 4 \<noteq> 0 then YEAR * int n + DAY * ((int n + 1) div 4) + month_table ! m - DAY
         else YEAR * int n + DAY * ((int n + 1) div 4) + month_table ! m)
        + DAY * (tm_mday t - 1) + HOUR * tm_hour t + MINUTE * tm_min t + tm_sec t"
    unfolding e epoch_seconds_def days_before_year[OF n] distrib_left days_before_month[OF m(2)] leap_4[OF n]
    by (simp add: YEAR_def DAY_def HOUR_def MINUTE_def)
  then have "kernel_mktime t = Inr (sint (word_of_int e :: u32), t1)"
    unfolding kernel_mktime_def t1_def[symmetric] Let_def using t1 m(2) q
    by (cases "m > 1"; cases "(int n + 2) mod 4 = 0") simp_all
  with t1(1) show ?thesis by blast
qed

lemma word_of_int_minus_2p32: "(word_of_int (x - 2 ^ 32) :: u32) = word_of_int x"
proof -
  have "uint (word_of_int (x - 2 ^ 32) :: u32) = uint (word_of_int x :: u32)"
    by (simp only: unsigned_of_int take_bit_eq_mod) simp
  then show ?thesis by (simp only: uint_eq_iff)
qed

text \<open>The signed value of 32 bits: the number itself as long as it fits.\<close>

lemma sint_of_int_u32:
  "sint (word_of_int x :: u32) mod 2 ^ 32 = x mod 2 ^ 32"
  "- (2 ^ 31) \<le> x \<Longrightarrow> x < 2 ^ 31 \<Longrightarrow> sint (word_of_int x :: u32) = x"
proof -
  have s: "sint (word_of_int x :: u32) = signed_take_bit 31 x" by (simp add: signed_of_int)
  have "take_bit 32 (signed_take_bit 31 x) = take_bit 32 x" by (simp add: take_bit_signed_take_bit)
  then show "sint (word_of_int x :: u32) mod 2 ^ 32 = x mod 2 ^ 32" unfolding s take_bit_eq_mod .
  show "- (2 ^ 31) \<le> x \<Longrightarrow> x < 2 ^ 31 \<Longrightarrow> sint (word_of_int x :: u32) = x"
    unfolding s by (rule signed_take_bit_int_eq_self)
qed

end
