(* ===== verification/Memory.thy ===== *)
theory Memory
  imports Prelude
begin

text \<open>
  Physical pages, page tables and swapping (\<open>mm/memory.c\<close>, \<open>mm/swap.c\<close>). Physical memory is an array
  of frames of 1024 words; the page directory is frame 0, the page tables and the pages of processes
  are the frames above 1 MB, counted by \<open>mem_map\<close>. A page table entry and a pointer to one are
  32-bit numbers as in the code. The swap device stores one page per number.
\<close>

section \<open>The state\<close>

type_synonym page = "nat \<Rightarrow> u32"

record mm =
  mem_map :: "nat \<Rightarrow> u8"
  ram :: "u32 \<Rightarrow> page"
  HIGH_MEMORY :: u32
  swap_bitmap :: "(nat \<Rightarrow> bool) option"
  swap_dev :: "nat \<Rightarrow> page"
  dir_entry :: nat
  page_entry :: int

definition LOW_MEM :: u32 where "LOW_MEM = 0x100000"
definition PAGING_PAGES :: nat where "PAGING_PAGES = 3840"
definition PAGING_MEMORY :: u32 where "PAGING_MEMORY = 15 * 1024 * 1024"
definition PAGE_DIRTY :: u32 where "PAGE_DIRTY = 0x40"
definition PAGE_MASK :: u32 where "PAGE_MASK = 0xFFFFF000"
definition TASK_SIZE :: u32 where "TASK_SIZE = 0x04000000"
definition LIBRARY_OFFSET :: u32 where "LIBRARY_OFFSET = TASK_SIZE - 0x00400000"
definition SWAP_BITS :: nat where "SWAP_BITS = 32768"
definition USED :: u8 where "USED = 100"

definition MAP_NR :: "u32 \<Rightarrow> nat" where "MAP_NR addr = unat (drop_bit 12 (addr - LOW_MEM))"

text \<open>Reading and writing the word at a physical address.\<close>

definition frame_of :: "u32 \<Rightarrow> u32" where "frame_of a = drop_bit 12 a"
definition word_of :: "u32 \<Rightarrow> nat" where "word_of a = unat (drop_bit 2 a AND 0x3FF)"

definition rd :: "mm \<Rightarrow> u32 \<Rightarrow> u32" where
  "rd s a = ram s (frame_of a) (word_of a)"

definition wr :: "u32 \<Rightarrow> u32 \<Rightarrow> mm \<Rightarrow> mm" where
  "wr a v s = s\<lparr>ram := (ram s)(frame_of a := (ram s (frame_of a))(word_of a := v))\<rparr>"

definition set_page :: "u32 \<Rightarrow> page \<Rightarrow> mm \<Rightarrow> mm" where
  "set_page a pg s = s\<lparr>ram := (ram s)(frame_of a := pg)\<rparr>"

definition set_map :: "nat \<Rightarrow> u8 \<Rightarrow> mm \<Rightarrow> mm" where
  "set_map n c s = s\<lparr>mem_map := (mem_map s)(n := c)\<rparr>"

definition dir_addr :: "u32 \<Rightarrow> u32" where "dir_addr a = drop_bit 20 a AND 0xFFC"
definition table_index :: "u32 \<Rightarrow> u32" where "table_index a = drop_bit 10 a AND 0xFFC"

section \<open>Pages and swap slots\<close>

definition free_page :: "u32 \<Rightarrow> mm \<Rightarrow> mm kres" where
  "free_page addr s =
     (if addr < LOW_MEM then Inr s
      else if addr \<ge> HIGH_MEMORY s then Inl (Panic ''trying to free nonexistent page'')
      else let n = MAP_NR addr
           in if mem_map s n \<noteq> 0 then Inr (set_map n (mem_map s n - 1) s)
              else Inl (Panic ''trying to free free page''))"

definition get_swap_page :: "mm \<Rightarrow> nat \<times> mm" where
  "get_swap_page s =
     (case swap_bitmap s of
        None \<Rightarrow> (0, s)
      | Some b \<Rightarrow>
          (case find (\<lambda>nr. b nr) [1..<32768] of
             Some nr \<Rightarrow> (nr, s\<lparr>swap_bitmap := Some (b(nr := False))\<rparr>)
           | None \<Rightarrow> (0, s)))"

text \<open>\<open>swap_free\<close>: the second component tells whether the warning is printed.\<close>

definition swap_free :: "nat \<Rightarrow> mm \<Rightarrow> mm \<times> bool" where
  "swap_free nr s =
     (if nr = 0 then (s, False)
      else case swap_bitmap s of
             Some b \<Rightarrow> if nr < SWAP_BITS then (s\<lparr>swap_bitmap := Some (b(nr := True))\<rparr>, b nr) else (s, True)
           | None \<Rightarrow> (s, True))"

definition try_to_swap_out :: "u32 \<Rightarrow> mm \<Rightarrow> (bool \<times> mm) kres" where
  "try_to_swap_out ptr s =
     (let pte = rd s ptr
      in if pte AND 1 = 0 then Inr (False, s)
         else if pte - LOW_MEM > PAGING_MEMORY then Inr (False, s)
         else if pte AND PAGE_DIRTY \<noteq> 0
         then let pg = pte AND PAGE_MASK
              in if mem_map s (MAP_NR pg) \<noteq> 1 then Inr (False, s)
                 else let (nr, s1) = get_swap_page s
                      in if nr = 0 then Inr (False, s1)
                         else
                           let s2 = wr ptr (push_bit 1 (of_nat nr)) s1;
                               s3 = s2\<lparr>swap_dev := (swap_dev s2)(nr := ram s2 (frame_of pg))\<rparr>
                           in kbind (free_page pg s3) (\<lambda>s4. Inr (True, s4))
         else kbind (free_page pte (wr ptr 0 s)) (\<lambda>s2. Inr (True, s2)))"

definition FIRST_DIR :: nat where "FIRST_DIR = 16"

definition next_dir :: "nat \<Rightarrow> nat" where
  "next_dir d = (if d + 1 \<ge> 1024 then FIRST_DIR else d + 1)"

text \<open>The first loop of \<open>swap_out\<close>: the directory entry last read and what is left of the counter.\<close>

function first_table :: "int \<Rightarrow> u32 \<Rightarrow> mm \<Rightarrow> u32 \<times> int \<times> mm" where
  "first_table counter pt s =
     (if counter \<le> 0 then (pt, counter, s)
      else let pt' = rd s (4 * of_nat (dir_entry s))
           in if pt' AND 1 \<noteq> 0 then (pt', counter, s)
              else first_table (counter - 1024) pt' (s\<lparr>dir_entry := next_dir (dir_entry s)\<rparr>))"
  by pat_completeness auto
termination by (relation "measure (\<lambda>(c, pt, s). nat c)") auto

declare first_table.simps [simp del]

text \<open>From \<open>repeat\<close>: the next table, or \<open>None\<close> for the \<open>break\<close>.\<close>

function next_table :: "int \<Rightarrow> mm \<Rightarrow> u32 option \<times> int \<times> mm" where
  "next_table counter s =
     (let s1 = s\<lparr>dir_entry := next_dir (dir_entry s)\<rparr>;
          pt = rd s1 (4 * of_nat (dir_entry s1))
      in if pt AND 1 = 0
         then (if counter - 1024 > 0 then next_table (counter - 1024) s1 else (None, counter - 1024, s1))
         else (Some (pt AND PAGE_MASK), counter, s1))"
  by pat_completeness auto
termination by (relation "measure (\<lambda>(c, s). nat c)") auto

declare next_table.simps [simp del]

lemma next_table_counter: "fst (snd (next_table c s)) \<le> c"
proof (induction c s rule: next_table.induct)
  case (1 c s)
  let ?s1 = "s\<lparr>dir_entry := next_dir (dir_entry s)\<rparr>"
  let ?pt = "rd ?s1 (4 * of_nat (dir_entry ?s1))"
  show ?case
  proof (cases "?pt AND 1 = 0 \<and> c - 1024 > 0")
    case True
    then have "fst (snd (next_table (c - 1024) ?s1)) \<le> c - 1024" using 1 by blast
    with True show ?thesis by (subst next_table.simps) (simp add: Let_def)
  next
    case False
    then show ?thesis by (subst next_table.simps) (simp add: Let_def)
  qed
qed

text \<open>The step at the head of the second loop: the entry to look at next.\<close>

definition next_entry :: "u32 \<Rightarrow> int \<Rightarrow> mm \<Rightarrow> u32 option \<times> int \<times> mm" where
  "next_entry pt counter s =
     (if page_entry s + 1 \<ge> 1024 then next_table (counter - 1) (s\<lparr>page_entry := 0\<rparr>)
      else (Some pt, counter - 1, s\<lparr>page_entry := page_entry s + 1\<rparr>))"

lemma next_entry_counter: "next_entry pt c s = (r, c', s') \<Longrightarrow> c' < c"
  using next_table_counter[of "c - 1" "s\<lparr>page_entry := 0\<rparr>"] by (auto simp: next_entry_def split: if_splits)

function scan_out :: "u32 \<Rightarrow> int \<Rightarrow> mm \<Rightarrow> (bool \<times> mm) kres" where
  "scan_out pt counter s =
     (if counter \<le> 0 then Inr (False, s)
      else
        case next_entry pt counter s of
          (None, c, s1) \<Rightarrow> Inr (False, s1)
        | (Some pt', c, s1) \<Rightarrow>
            (case try_to_swap_out (pt' + 4 * word_of_int (page_entry s1)) s1 of
               Inl e \<Rightarrow> Inl e
             | Inr (True, s2) \<Rightarrow> Inr (True, s2)
             | Inr (False, s2) \<Rightarrow> scan_out pt' c s2))"
  by pat_completeness auto
termination
  by (relation "measure (\<lambda>(pt, c, s). nat c)") (auto dest!: next_entry_counter[OF sym])

declare scan_out.simps [simp del]

definition VM_PAGES :: int where "VM_PAGES = 1024 * 1024 - 0x4000"

definition swap_out :: "mm \<Rightarrow> (bool \<times> mm) kres" where
  "swap_out s =
     (let (pt, counter, s1) = first_table VM_PAGES 0 s in scan_out (pt AND PAGE_MASK) counter s1)"

text \<open>The search of \<open>get_free_page\<close> runs down from the last page; the page found is cleared.\<close>

definition page_addr :: "nat \<Rightarrow> u32" where "page_addr n = push_bit 12 (of_nat n) + LOW_MEM"

definition grab_page :: "mm \<Rightarrow> u32 \<times> mm" where
  "grab_page s =
     (case find (\<lambda>n. mem_map s n = 0) (rev [0..<PAGING_PAGES]) of
        None \<Rightarrow> (0, s)
      | Some n \<Rightarrow>
          let addr = page_addr n
          in (addr, set_page addr (\<lambda>_. 0) (set_map n 1 s)))"

fun get_free_page :: "nat \<Rightarrow> mm \<Rightarrow> (u32 \<times> mm) kres" where
  "get_free_page 0 s = Inl Unfinished"
| "get_free_page (Suc fuel) s =
     (let (res, s1) = grab_page s
      in if res \<ge> HIGH_MEMORY s1 then get_free_page fuel s1
         else if res = 0
         then kbind (swap_out s1) (\<lambda>(out, s2). if out then get_free_page fuel s2 else Inr (0, s2))
         else Inr (res, s1))"

declare get_free_page.simps [simp del]

text \<open>\<open>oom\<close> ends the current process with \<open>do_exit (SIGSEGV)\<close>.\<close>

definition new_page :: "nat \<Rightarrow> mm \<Rightarrow> (u32 \<times> mm) kres" where
  "new_page fuel s = kbind (get_free_page fuel s) (\<lambda>(pg, s1). if pg = 0 then Inl (Exits 11) else Inr (pg, s1))"

text \<open>\<open>swap_in\<close>; the three early returns only print.\<close>

definition swap_in :: "nat \<Rightarrow> u32 \<Rightarrow> mm \<Rightarrow> mm kres" where
  "swap_in fuel ptr s =
     (case swap_bitmap s of
        None \<Rightarrow> Inr s
      | Some _ \<Rightarrow>
          let pte = rd s ptr; nr = unat (drop_bit 1 pte)
          in if pte AND 1 \<noteq> 0 then Inr s
             else if nr = 0 then Inr s
             else kbind (new_page fuel s)
                    (\<lambda>(pg, s1).
                       let s2 = set_page pg (swap_dev s1 nr) s1;
                           s3 = s2\<lparr>swap_bitmap := map_option (\<lambda>b. b(nr := True)) (swap_bitmap s2)\<rparr>
                       in Inr (wr ptr (pg OR (PAGE_DIRTY OR 7)) s3)))"

section \<open>Mapping pages\<close>

text \<open>\<open>put_page\<close> and \<open>put_dirty_page\<close> differ in the flags of the entry; the warnings are left out.\<close>

definition put_page_flags :: "u32 \<Rightarrow> nat \<Rightarrow> u32 \<Rightarrow> u32 \<Rightarrow> mm \<Rightarrow> (u32 \<times> mm) kres" where
  "put_page_flags flags fuel page address s =
     (let de = rd s (dir_addr address)
      in if de AND 1 \<noteq> 0
         then Inr (page, wr ((de AND PAGE_MASK) + table_index address) (page OR flags) s)
         else kbind (get_free_page fuel s)
                (\<lambda>(tmp, s1).
                   if tmp = 0 then Inr (0, s1)
                   else let s2 = wr (dir_addr address) (tmp OR 7) s1
                        in Inr (page, wr (tmp + table_index address) (page OR flags) s2)))"

definition put_page :: "nat \<Rightarrow> u32 \<Rightarrow> u32 \<Rightarrow> mm \<Rightarrow> (u32 \<times> mm) kres" where
  "put_page = put_page_flags 7"

definition put_dirty_page :: "nat \<Rightarrow> u32 \<Rightarrow> u32 \<Rightarrow> mm \<Rightarrow> (u32 \<times> mm) kres" where
  "put_dirty_page = put_page_flags (PAGE_DIRTY OR 7)"

definition un_wp_page :: "nat \<Rightarrow> u32 \<Rightarrow> mm \<Rightarrow> mm kres" where
  "un_wp_page fuel ptr s =
     (let old = rd s ptr AND PAGE_MASK
      in if old \<ge> LOW_MEM \<and> mem_map s (MAP_NR old) = 1 then Inr (wr ptr (rd s ptr OR 2) s)
         else kbind (new_page fuel s)
                (\<lambda>(new, s1).
                   let s2 = (if old \<ge> LOW_MEM then set_map (MAP_NR old) (mem_map s1 (MAP_NR old) - 1) s1 else s1);
                       s3 = set_page new (ram s2 (frame_of old)) s2
                   in Inr (wr ptr (new OR 7) s3)))"

definition do_wp_page :: "nat \<Rightarrow> u32 \<Rightarrow> u32 \<Rightarrow> mm \<Rightarrow> mm kres" where
  "do_wp_page fuel start_code address s =
     (if address - start_code > TASK_SIZE then Inl (Exits 11)
      else un_wp_page fuel (table_index address + (PAGE_MASK AND rd s (dir_addr address))) s)"

definition write_verify :: "nat \<Rightarrow> u32 \<Rightarrow> mm \<Rightarrow> mm kres" where
  "write_verify fuel address s =
     (let pg = rd s (dir_addr address)
      in if pg AND 1 = 0 then Inr s
         else let ptr = (pg AND PAGE_MASK) + table_index address
              in if rd s ptr AND 3 = 1 then un_wp_page fuel ptr s else Inr s)"

definition get_empty_page :: "nat \<Rightarrow> u32 \<Rightarrow> mm \<Rightarrow> mm kres" where
  "get_empty_page fuel address s =
     kbind (get_free_page fuel s)
       (\<lambda>(tmp, s1).
          if tmp = 0 then kbind (free_page tmp s1) (\<lambda>_. Inl (Exits 11))
          else kbind (put_page fuel tmp address s1)
                 (\<lambda>(r, s2). if r = 0 then kbind (free_page tmp s2) (\<lambda>_. Inl (Exits 11)) else Inr s2))"

section \<open>Page tables of a process\<close>

fun free_table :: "u32 \<Rightarrow> nat list \<Rightarrow> mm \<Rightarrow> mm kres" where
  "free_table tbl [] s = Inr s"
| "free_table tbl (nr # nrs) s =
     (let ptr = tbl + 4 * of_nat nr; pte = rd s ptr
      in if pte = 0 then free_table tbl nrs s
         else kbind (if pte AND 1 \<noteq> 0 then free_page (PAGE_MASK AND pte) s
                     else Inr (fst (swap_free (unat (drop_bit 1 pte)) s)))
                (\<lambda>s1. free_table tbl nrs (wr ptr 0 s1)))"

fun free_dirs :: "nat \<Rightarrow> u32 \<Rightarrow> mm \<Rightarrow> mm kres" where
  "free_dirs 0 dir s = Inr s"
| "free_dirs (Suc n) dir s =
     (let de = rd s dir
      in if de AND 1 = 0 then free_dirs n (dir + 4) s
         else kbind (free_table (PAGE_MASK AND de) [0..<1024] s)
                (\<lambda>s1. kbind (free_page (PAGE_MASK AND de) s1)
                        (\<lambda>s2. free_dirs n (dir + 4) (wr dir 0 s2))))"

definition free_page_tables :: "u32 \<Rightarrow> u32 \<Rightarrow> mm \<Rightarrow> mm kres" where
  "free_page_tables from size' s =
     (if from AND 0x3FFFFF \<noteq> 0 then Inl (Panic ''free_page_tables called with wrong alignment'')
      else if from = 0 then Inl (Panic ''Trying to free up swapper memory space'')
      else free_dirs (unat (drop_bit 22 (size' + 0x3FFFFF))) (dir_addr from) s)"

text \<open>A table entry without the write bit.\<close>

definition readonly :: "u32 \<Rightarrow> u32" where "readonly e = e AND NOT 2"

text \<open>The inner loop of \<open>copy_page_tables\<close>; \<open>False\<close> is the return of -1.\<close>

fun copy_entries :: "nat \<Rightarrow> u32 \<Rightarrow> u32 \<Rightarrow> nat list \<Rightarrow> mm \<Rightarrow> (bool \<times> mm) kres" where
  "copy_entries fuel from_tbl to_tbl [] s = Inr (True, s)"
| "copy_entries fuel from_tbl to_tbl (nr # nrs) s =
     (let fp = from_tbl + 4 * of_nat nr; tp = to_tbl + 4 * of_nat nr; this_page = rd s fp
      in if this_page = 0 then copy_entries fuel from_tbl to_tbl nrs s
         else if this_page AND 1 = 0
         then kbind (get_free_page fuel s)
                (\<lambda>(new, s1).
                   if new = 0 then Inr (False, s1)
                   else let s2 = set_page new (swap_dev s1 (unat (drop_bit 1 this_page))) s1
                        in copy_entries fuel from_tbl to_tbl nrs (wr fp (new OR (PAGE_DIRTY OR 7)) (wr tp this_page s2)))
         else
           let ro = readonly this_page;
               s1 = wr tp ro s
           in copy_entries fuel from_tbl to_tbl nrs
                (if ro > LOW_MEM
                 then let n = MAP_NR ro in set_map n (mem_map s1 n + 1) (wr fp ro s1)
                 else s1))"

fun copy_dirs :: "nat \<Rightarrow> bool \<Rightarrow> nat \<Rightarrow> u32 \<Rightarrow> u32 \<Rightarrow> mm \<Rightarrow> (bool \<times> mm) kres" where
  "copy_dirs fuel kernel_space 0 from_dir to_dir s = Inr (True, s)"
| "copy_dirs fuel kernel_space (Suc n) from_dir to_dir s =
     (if rd s to_dir AND 1 \<noteq> 0 then Inl (Panic ''copy_page_tables: already exist'')
      else if rd s from_dir AND 1 = 0 then copy_dirs fuel kernel_space n (from_dir + 4) (to_dir + 4) s
      else
        let from_tbl = PAGE_MASK AND rd s from_dir
        in kbind (get_free_page fuel s)
             (\<lambda>(to_tbl, s1).
                if to_tbl = 0 then Inr (False, s1)
                else kbind (copy_entries fuel from_tbl to_tbl [0..<(if kernel_space then 0xA0 else 1024)]
                              (wr to_dir (to_tbl OR 7) s1))
                       (\<lambda>(ok, s2). if ok then copy_dirs fuel kernel_space n (from_dir + 4) (to_dir + 4) s2
                                   else Inr (False, s2))))"

definition copy_page_tables :: "nat \<Rightarrow> u32 \<Rightarrow> u32 \<Rightarrow> u32 \<Rightarrow> mm \<Rightarrow> (bool \<times> mm) kres" where
  "copy_page_tables fuel from to size' s =
     (if from AND 0x3FFFFF \<noteq> 0 \<or> to AND 0x3FFFFF \<noteq> 0
      then Inl (Panic ''copy_page_tables called with wrong alignment'')
      else copy_dirs fuel (from = 0) (unat (drop_bit 22 (size' + 0x3FFFFF))) (dir_addr from) (dir_addr to) s)"

section \<open>Missing pages\<close>

text \<open>
  What the page fault handler reads of processes, inodes and the disk. \<open>block_of\<close> is \<open>bmap\<close> on the
  inodes concerned and \<open>dev_block\<close> a successful or failed read of a block, as 256 words.
\<close>

record vm_task =
  start_code :: u32
  end_data :: u32
  executable :: "nat option"
  library :: "nat option"

record vm_env =
  vm_tasks :: "nat \<Rightarrow> vm_task option"
  vm_current :: vm_task
  vm_cur :: nat
  vm_count :: "nat \<Rightarrow> u16"
  vm_dev :: "nat \<Rightarrow> u16"
  block_of :: "nat \<Rightarrow> nat \<Rightarrow> nat"
  dev_block :: "u16 \<Rightarrow> nat \<Rightarrow> page option"

definition try_to_share :: "nat \<Rightarrow> vm_task \<Rightarrow> u32 \<Rightarrow> vm_task \<Rightarrow> mm \<Rightarrow> (bool \<times> mm) kres" where
  "try_to_share fuel cur address p s =
     (let from_dir = dir_addr address + dir_addr (start_code p);
          to_dir = dir_addr address + dir_addr (start_code cur);
          from = rd s from_dir
      in if from AND 1 = 0 then Inr (False, s)
         else
           let from_page = (from AND PAGE_MASK) + table_index address;
               phys = rd s from_page
           in if phys AND 0x41 \<noteq> 1 then Inr (False, s)
              else if (phys AND PAGE_MASK) \<ge> HIGH_MEMORY s \<or> (phys AND PAGE_MASK) < LOW_MEM then Inr (False, s)
              else kbind (let to = rd s to_dir
                          in if to AND 1 = 0
                             then kbind (new_page fuel s) (\<lambda>(t, s1). Inr (t, wr to_dir (t OR 7) s1))
                             else Inr (to, s))
                     (\<lambda>(to, s1).
                        let to_page = (to AND PAGE_MASK) + table_index address
                        in if rd s1 to_page AND 1 \<noteq> 0
                           then Inl (Panic ''try_to_share: to_page already exists'')
                           else let s2 = wr from_page (readonly (rd s1 from_page)) s1;
                                    s3 = wr to_page (rd s2 from_page) s2;
                                    n = MAP_NR (phys AND PAGE_MASK)
                                in Inr (True, set_map n (mem_map s3 n + 1) s3)))"

fun share_scan :: "nat \<Rightarrow> vm_env \<Rightarrow> nat \<Rightarrow> u32 \<Rightarrow> nat list \<Rightarrow> mm \<Rightarrow> (bool \<times> mm) kres" where
  "share_scan fuel env inode address [] s = Inr (False, s)"
| "share_scan fuel env inode address (i # is) s =
     (case vm_tasks env i of
        None \<Rightarrow> share_scan fuel env inode address is s
      | Some p \<Rightarrow>
          if i = vm_cur env \<or> (if address < LIBRARY_OFFSET then executable p else library p) \<noteq> Some inode
          then share_scan fuel env inode address is s
          else kbind (try_to_share fuel (vm_current env) address p s)
                 (\<lambda>(ok, s1). if ok then Inr (True, s1) else share_scan fuel env inode address is s1))"

definition share_page :: "nat \<Rightarrow> vm_env \<Rightarrow> nat \<Rightarrow> u32 \<Rightarrow> mm \<Rightarrow> (bool \<times> mm) kres" where
  "share_page fuel env inode address s =
     (if vm_count env inode < 2 then Inr (False, s)
      else share_scan fuel env inode address (rev [1..<64]) s)"

text \<open>\<open>bread_page\<close> of \<open>fs/buffer.c\<close>: blocks that are 0 or cannot be read leave their quarter of the page alone.\<close>

fun bread_page :: "(nat \<Rightarrow> page option) \<Rightarrow> nat \<Rightarrow> nat list \<Rightarrow> page \<Rightarrow> page" where
  "bread_page read i [] pg = pg"
| "bread_page read i (nr # nrs) pg =
     bread_page read (i + 1) nrs
       (case (if nr = 0 then None else read nr) of
          None \<Rightarrow> pg
        | Some blk \<Rightarrow> \<lambda>w. if 256 * i \<le> w \<and> w < 256 * (i + 1) then blk (w - 256 * i) else pg w)"

text \<open>The bytes from \<open>k\<close> to the end of the page become 0.\<close>

definition clear_from :: "nat \<Rightarrow> page \<Rightarrow> page" where
  "clear_from k pg = (\<lambda>w. if k \<le> 4 * w then 0 else if 4 * w + 4 \<le> k then pg w else take_bit (8 * (k - 4 * w)) (pg w))"

definition tail_bytes :: "u32 \<Rightarrow> u32 \<Rightarrow> nat" where
  "tail_bytes tmp end_data' =
     (let i = sint (tmp + 4096 - end_data') in if i > 4095 then 0 else nat i)"

definition load_page :: "nat \<Rightarrow> vm_env \<Rightarrow> nat \<Rightarrow> nat \<Rightarrow> u32 \<Rightarrow> u32 \<Rightarrow> mm \<Rightarrow> mm kres" where
  "load_page fuel env inode block tmp address s =
     kbind (share_page fuel env inode tmp s)
       (\<lambda>(shared, s1).
          if shared then Inr s1
          else kbind (new_page fuel s1)
                 (\<lambda>(pg, s2).
                    let nrs = map (\<lambda>k. block_of env inode (block + k)) [0..<4];
                        loaded = bread_page (dev_block env (vm_dev env inode)) 0 nrs (ram s2 (frame_of pg));
                        kept = 4096 - tail_bytes tmp (end_data (vm_current env));
                        s3 = set_page pg (clear_from kept loaded) s2
                    in kbind (put_page fuel pg address s3)
                         (\<lambda>(r, s4). if r \<noteq> 0 then Inr s4 else kbind (free_page pg s4) (\<lambda>_. Inl (Exits 11)))))"

definition do_no_page :: "nat \<Rightarrow> vm_env \<Rightarrow> u32 \<Rightarrow> mm \<Rightarrow> mm kres" where
  "do_no_page fuel env address s =
     (if address - start_code (vm_current env) > TASK_SIZE then Inl (Exits 11)
      else
        let de = rd s (dir_addr address); ptr = (de AND PAGE_MASK) + table_index address
        in if de AND 1 \<noteq> 0 \<and> rd s ptr \<noteq> 0 \<and> rd s ptr AND 1 = 0 then swap_in fuel ptr s
           else
             let addr = address AND PAGE_MASK;
                 tmp = addr - start_code (vm_current env);
                 (inode, block) =
                   (if tmp \<ge> LIBRARY_OFFSET
                    then (library (vm_current env), 1 + unat ((tmp - LIBRARY_OFFSET) div 1024))
                    else if tmp < end_data (vm_current env)
                    then (executable (vm_current env), 1 + unat (tmp div 1024))
                    else (None, 0))
             in (case inode of
                   None \<Rightarrow> get_empty_page fuel addr s
                 | Some ino \<Rightarrow> load_page fuel env ino block tmp addr s))"

section \<open>Initialisation\<close>

definition mem_init :: "u32 \<Rightarrow> u32 \<Rightarrow> mm \<Rightarrow> mm" where
  "mem_init start_mem end_mem s =
     (let i = MAP_NR start_mem; n = nat (sint (end_mem - start_mem) div 4096)
      in s\<lparr>HIGH_MEMORY := end_mem,
           mem_map := (\<lambda>k. if i \<le> k \<and> k < i + n then 0 else if k < PAGING_PAGES then USED else mem_map s k)\<rparr>)"

definition mem_bit :: "mm \<Rightarrow> u32 \<Rightarrow> nat \<Rightarrow> bool" where
  "mem_bit s a i = bit (rd s (a + of_nat (4 * (i div 32)))) (i mod 32)"

definition page_byte :: "page \<Rightarrow> nat \<Rightarrow> u32" where
  "page_byte pg j = drop_bit (8 * (j mod 4)) (pg (j div 4)) AND 0xFF"

definition swap_signature :: "page \<Rightarrow> bool" where
  "swap_signature pg \<longleftrightarrow> map (page_byte pg) [4086..<4096] = map (\<lambda>c. of_nat (of_char c)) ''SWAP-SPACE''"

text \<open>
  \<open>blk_blocks\<close> is the size the device table gives for the swap device. The loop over the bits
  that must be clear starts with bit 0 and then goes on from \<open>swap_size\<close> without testing it.
\<close>

definition init_swapping :: "nat \<Rightarrow> nat \<Rightarrow> int option \<Rightarrow> mm \<Rightarrow> mm kres" where
  "init_swapping fuel SWAP_DEV blk_blocks s =
     (if SWAP_DEV = 0 then Inr s
      else case blk_blocks of
        None \<Rightarrow> Inr s
      | Some sz \<Rightarrow>
          if sz < 100 then Inr s
          else
            let n = min (nat (sz div 4)) SWAP_BITS
            in kbind (get_free_page fuel s)
                 (\<lambda>(bm, s1).
                    if bm = 0 then Inr s1
                    else
                      let s2 = set_page bm (swap_dev s1 0) s1;
                          s3 = set_page bm (clear_from 4086 (swap_dev s1 0)) s1
                      in if \<not> swap_signature (swap_dev s1 0) then free_page bm s2
                         else if \<exists>i\<in>set (0 # n # [n + 1..<SWAP_BITS]). mem_bit s3 bm i then free_page bm s3
                         else if filter (mem_bit s3 bm) [1..<n] = [] then free_page bm s3
                         else Inr (s3\<lparr>swap_bitmap := Some (mem_bit s3 bm)\<rparr>)))"

section \<open>Addresses\<close>

definition aligned :: "u32 \<Rightarrow> bool" where "aligned a \<longleftrightarrow> a AND 0xFFF = 0"

lemma PAGE_MASK_mask: "PAGE_MASK = NOT (mask 12)"
  by (simp add: PAGE_MASK_def mask_eq_exp_minus_1)

lemma aligned_unat: "aligned a \<longleftrightarrow> 4096 dvd unat a"
proof -
  have "unat (a AND mask 12) = unat a mod 4096"
    by (simp only: take_bit_eq_mask[symmetric] unsigned_take_bit_eq) (simp add: take_bit_eq_mod)
  moreover have "(mask 12 :: u32) = 0xFFF" by (simp add: mask_eq_exp_minus_1)
  ultimately show ?thesis by (metis aligned_def dvd_eq_mod_eq_0 unat_eq_zero)
qed

lemma unat_frame: "unat (frame_of a) = unat a div 4096"
  by (simp only: frame_of_def unat_drop_bit_eq) (simp add: drop_bit_eq_div)

lemma unat_word: "word_of a = (unat a div 4) mod 1024"
proof -
  have "(0x3FF :: u32) = mask 10" by (simp add: mask_eq_exp_minus_1)
  then have "word_of a = unat (take_bit 10 (drop_bit 2 a))" by (simp only: word_of_def take_bit_eq_mask)
  also have "\<dots> = take_bit 10 (drop_bit 2 (unat a))" by (simp only: unsigned_take_bit_eq unat_drop_bit_eq)
  finally show ?thesis by (simp add: take_bit_eq_mod drop_bit_eq_div)
qed

lemma unat_entry:
  assumes "aligned a" and "n < 1024"
  shows "unat (a + 4 * of_nat n) = unat a + 4 * n"
proof -
  obtain q where q: "unat a = 4096 * q" using assms(1) by (auto simp: aligned_unat dvd_def)
  have "unat a < 4294967296" by (rule unat_u32_less)
  with q assms(2) have "unat a + 4 * n < 2 ^ 32" by simp
  moreover have "unat (4 * of_nat n :: u32) = 4 * n"
    using assms(2) by (simp add: unat_word_ariths unat_of_nat)
  ultimately show ?thesis by (simp add: unat_word_ariths)
qed

lemma entry_frame [simp]: "aligned a \<Longrightarrow> n < 1024 \<Longrightarrow> frame_of (a + 4 * of_nat n) = frame_of a"
  by (rule word_unat_eq_iff[THEN iffD2]) (auto simp: unat_frame unat_entry aligned_unat dvd_def)

lemma entry_word [simp]: "aligned a \<Longrightarrow> n < 1024 \<Longrightarrow> word_of (a + 4 * of_nat n) = n"
  by (auto simp: unat_word unat_entry aligned_unat dvd_def)

lemma aligned_mask [simp]: "aligned (a AND PAGE_MASK)" "aligned (PAGE_MASK AND a)"
proof -
  show "aligned (a AND PAGE_MASK)"
    by (simp add: aligned_def PAGE_MASK_def and.assoc)
  then show "aligned (PAGE_MASK AND a)" by (simp add: and.commute)
qed

lemma unat_page_addr: "n < PAGING_PAGES \<Longrightarrow> unat (page_addr n) = 4096 * n + 1048576"
  by (simp add: page_addr_def LOW_MEM_def PAGING_PAGES_def unat_word_ariths push_bit_eq_mult unat_of_nat)

lemma aligned_page_addr [simp]: "n < PAGING_PAGES \<Longrightarrow> aligned (page_addr n)"
  by (simp add: aligned_unat unat_page_addr)

lemma MAP_NR_unat: "LOW_MEM \<le> a \<Longrightarrow> MAP_NR a = (unat a - 1048576) div 4096"
  by (simp only: MAP_NR_def unat_drop_bit_eq unat_sub) (simp add: drop_bit_eq_div LOW_MEM_def)

lemma page_addr_low [simp]: "n < PAGING_PAGES \<Longrightarrow> LOW_MEM \<le> page_addr n"
  by (simp add: word_le_nat_alt unat_page_addr) (simp add: LOW_MEM_def)

lemma MAP_NR_page [simp]: "n < PAGING_PAGES \<Longrightarrow> MAP_NR (page_addr n) = n"
  by (simp add: MAP_NR_unat unat_page_addr)

lemma page_addr_nonzero: "n < PAGING_PAGES \<Longrightarrow> page_addr n \<noteq> 0"
  using unat_page_addr[of n] by (metis add_is_0 unat_0 zero_neq_numeral)

lemma unat_frame_page: "n < PAGING_PAGES \<Longrightarrow> unat (frame_of (page_addr n)) = n + 256"
  by (simp add: unat_frame unat_page_addr)

lemma frame_page_inj: "m < PAGING_PAGES \<Longrightarrow> n < PAGING_PAGES \<Longrightarrow>
    frame_of (page_addr m) = frame_of (page_addr n) \<longleftrightarrow> m = n"
  by (metis add_right_cancel unat_frame_page)

text \<open>An aligned address above 1 MB is the address of its page.\<close>

lemma page_addr_MAP_NR:
  assumes "aligned a" and "LOW_MEM \<le> a" and "MAP_NR a < PAGING_PAGES"
  shows "page_addr (MAP_NR a) = a"
proof -
  have "1048576 \<le> unat a" using assms(2) by (simp add: word_le_nat_alt LOW_MEM_def)
  moreover obtain k where k: "unat a = 4096 * k" using assms(1) by (auto simp: aligned_unat dvd_def)
  ultimately have "unat a - 1048576 = 4096 * (k - 256)" and "256 \<le> k" by (simp_all add: diff_mult_distrib2)
  then have "4096 * MAP_NR a + 1048576 = unat a"
    using k by (simp add: MAP_NR_unat[OF assms(2)])
  with unat_page_addr[OF assms(3)] show ?thesis by (metis word_unat_eq_iff)
qed

lemma flags_page [simp]:
  "aligned p \<Longrightarrow> (p OR 7) AND PAGE_MASK = p" "aligned p \<Longrightarrow> (p OR (PAGE_DIRTY OR 7)) AND PAGE_MASK = p"
  "(p OR 7) AND 1 = (1 :: u32)" "(p OR (PAGE_DIRTY OR 7)) AND 1 = (1 :: u32)"
  for p :: u32
proof -
  have m: "p AND PAGE_MASK = p" if "aligned p"
  proof (rule bit_word_eqI)
    fix k assume "k < LENGTH(32)"
    have "p AND mask 12 = 0" using that by (simp add: aligned_def mask_eq_exp_minus_1)
    then have "\<not> (bit p k \<and> k < 12)" by (metis bit_0_eq bit_and_iff bit_mask_iff bot_apply bot_bool_def min_def possible_bit_word \<open>k < LENGTH(32)\<close>)
    then show "bit (p AND PAGE_MASK) k = bit p k"
      using \<open>k < LENGTH(32)\<close> by (auto simp: PAGE_MASK_mask bit_simps)
  qed
  have d: "(p OR q) AND PAGE_MASK = p AND PAGE_MASK OR q AND PAGE_MASK" "(p OR q) AND 1 = p AND 1 OR q AND 1" for q
    by (simp_all add: bit.conj_disj_distrib2)
  show "aligned p \<Longrightarrow> (p OR 7) AND PAGE_MASK = p" unfolding d(1) m by (simp add: PAGE_MASK_def)
  show "aligned p \<Longrightarrow> (p OR (PAGE_DIRTY OR 7)) AND PAGE_MASK = p" unfolding d(1) m by (simp add: PAGE_MASK_def PAGE_DIRTY_def)
  show "(p OR 7) AND 1 = 1" "(p OR (PAGE_DIRTY OR 7)) AND 1 = 1"
    unfolding d(2) by (rule bit_word_eqI, auto simp: bit_simps PAGE_DIRTY_def)+
qed

lemma LOW_frame: "LOW_MEM \<le> a \<longleftrightarrow> 256 \<le> unat (frame_of a)"
  by (simp add: unat_frame word_le_nat_alt LOW_MEM_def less_eq_div_iff_mult_less_eq)

lemma MAP_NR_frame: "LOW_MEM \<le> a \<Longrightarrow> MAP_NR a = unat (frame_of a) - 256"
proof -
  assume l: "LOW_MEM \<le> a"
  then have "1048576 \<le> unat a" by (simp add: word_le_nat_alt LOW_MEM_def)
  then obtain y where "unat a = 1048576 + y" using le_Suc_ex by blast
  then show ?thesis by (simp add: MAP_NR_unat[OF l] unat_frame)
qed

lemma frame_PAGE_MASK [simp]: "frame_of (PAGE_MASK AND e) = frame_of e" "frame_of (e AND PAGE_MASK) = frame_of e"
proof -
  have "frame_of (e AND PAGE_MASK) = frame_of e"
    by (rule bit_word_eqI) (auto simp: frame_of_def PAGE_MASK_mask bit_simps dest: bit_imp_le_length)
  then show "frame_of (PAGE_MASK AND e) = frame_of e" "frame_of (e AND PAGE_MASK) = frame_of e"
    by (simp_all add: and.commute)
qed

lemma frame_readonly [simp]: "frame_of (readonly e) = frame_of e"
proof -
  have "NOT 2 AND PAGE_MASK = PAGE_MASK" by (simp add: PAGE_MASK_def)
  then have "(e AND NOT 2) AND PAGE_MASK = e AND PAGE_MASK" by (simp only: and.assoc)
  then show ?thesis by (metis readonly_def frame_PAGE_MASK(2))
qed

section \<open>The allocator\<close>

lemma rd_wr_same [simp]: "rd (wr a v s) a = v"
  by (simp add: rd_def wr_def)

lemma ram_wr_other: "f \<noteq> frame_of a \<Longrightarrow> ram (wr a v s) f = ram s f"
  by (simp add: wr_def)

lemma ram_set_page: "ram (set_page a pg s) f = (if f = frame_of a then pg else ram s f)"
  by (simp add: set_page_def)

lemma mm_fields [simp]:
  "mem_map (wr a v s) = mem_map s" "HIGH_MEMORY (wr a v s) = HIGH_MEMORY s"
  "swap_bitmap (wr a v s) = swap_bitmap s" "swap_dev (wr a v s) = swap_dev s"
  "mem_map (set_page a pg s) = mem_map s" "HIGH_MEMORY (set_page a pg s) = HIGH_MEMORY s"
  "swap_bitmap (set_page a pg s) = swap_bitmap s" "swap_dev (set_page a pg s) = swap_dev s"
  "mem_map (set_map n c s) = (mem_map s)(n := c)" "HIGH_MEMORY (set_map n c s) = HIGH_MEMORY s"
  "swap_bitmap (set_map n c s) = swap_bitmap s" "swap_dev (set_map n c s) = swap_dev s"
  "ram (set_map n c s) = ram s"
  by (simp_all add: wr_def set_page_def set_map_def)

lemma rd_cong: "ram s (frame_of a) = ram t (frame_of a) \<Longrightarrow> rd s a = rd t a"
  by (simp add: rd_def)

text \<open>The free pages lie below \<open>HIGH_MEMORY\<close>, which is between 1 and 16 MB.\<close>

definition mm_ok :: "mm \<Rightarrow> bool" where
  "mm_ok s \<longleftrightarrow> LOW_MEM \<le> HIGH_MEMORY s \<and> HIGH_MEMORY s \<le> 0x1000000 \<and>
     (\<forall>n<PAGING_PAGES. mem_map s n = 0 \<longrightarrow> page_addr n < HIGH_MEMORY s)"

lemma find_down:
  "find P (rev [0..<k]) = Some n \<longleftrightarrow> n < k \<and> P n \<and> (\<forall>m. n < m \<and> m < k \<longrightarrow> \<not> P m)"
proof (induction k)
  case 0
  then show ?case by simp
next
  case (Suc k)
  then show ?case by (auto simp: less_Suc_eq)
qed

lemma find_down_None: "find P (rev [0..<k]) = None \<longleftrightarrow> (\<forall>n<k. \<not> P n)"
  by (auto simp: find_None_iff)

lemma grab_page_cases:
  obtains (none) "\<forall>n<PAGING_PAGES. mem_map s n \<noteq> 0" "grab_page s = (0, s)"
  | (page) n where "n < PAGING_PAGES" "mem_map s n = 0" "\<forall>m. n < m \<and> m < PAGING_PAGES \<longrightarrow> mem_map s m \<noteq> 0"
      "grab_page s = (page_addr n, set_page (page_addr n) (\<lambda>_. 0) (set_map n 1 s))"
proof (cases "find (\<lambda>n. mem_map s n = 0) (rev [0..<PAGING_PAGES])")
  case None
  then have "\<forall>n<PAGING_PAGES. mem_map s n \<noteq> 0" by (simp add: find_down_None)
  moreover have "grab_page s = (0, s)" by (simp only: grab_page_def None option.case)
  ultimately show ?thesis by (rule none)
next
  case (Some n)
  then have "n < PAGING_PAGES \<and> mem_map s n = 0 \<and> (\<forall>m. n < m \<and> m < PAGING_PAGES \<longrightarrow> mem_map s m \<noteq> 0)"
    by (simp add: find_down)
  moreover have "grab_page s = (page_addr n, set_page (page_addr n) (\<lambda>_. 0) (set_map n 1 s))"
    by (simp only: grab_page_def Some option.case Let_def)
  ultimately show ?thesis using page by blast
qed

lemma get_free_page_avail:
  assumes "mm_ok s" and "k < PAGING_PAGES" and "mem_map s k = 0"
  obtains n where "n < PAGING_PAGES" "k \<le> n" "mem_map s n = 0"
    "get_free_page (Suc fuel) s = Inr (page_addr n, set_page (page_addr n) (\<lambda>_. 0) (set_map n 1 s))"
proof (cases rule: grab_page_cases[of s])
  case none
  with assms show ?thesis by blast
next
  case (page n)
  then have "\<not> HIGH_MEMORY s \<le> page_addr n" using assms(1) by (simp add: mm_ok_def not_le)
  with page page_addr_nonzero have "get_free_page (Suc fuel) s = Inr (page_addr n, set_page (page_addr n) (\<lambda>_. 0) (set_map n 1 s))"
    by (simp add: get_free_page.simps)
  moreover have "k \<le> n" using page(3) assms(2,3) by (meson not_le)
  ultimately show ?thesis using page that by blast
qed

lemma free_page_page:
  assumes "n < PAGING_PAGES" and "page_addr n < HIGH_MEMORY s" and "mem_map s n \<noteq> 0"
  shows "free_page (page_addr n) s = Inr (set_map n (mem_map s n - 1) s)"
  using assms page_addr_low[OF assms(1)] by (simp add: free_page_def Let_def not_less[symmetric] del: page_addr_low)

text \<open>Pages, each held by one user, and swap slots are two more instances of the allocator interface.\<close>

definition frames_used :: "mm \<Rightarrow> nat set" where
  "frames_used s = {n. n < PAGING_PAGES \<and> mem_map s n \<noteq> 0}"

definition frame_alloc :: "mm \<Rightarrow> (nat \<times> mm) option" where
  "frame_alloc s = (let (a, s') = grab_page s in if a = 0 then None else Some (MAP_NR a, s'))"

definition frame_release :: "mm \<Rightarrow> nat \<Rightarrow> mm option" where
  "frame_release s n =
     (if mem_map s n = 1 then case free_page (page_addr n) s of Inr s' \<Rightarrow> Some s' | Inl _ \<Rightarrow> None else None)"

lemma frame_alloc_cases:
  assumes "frame_alloc s = Some (n, s')"
  shows "n < PAGING_PAGES" "mem_map s n = 0" "s' = set_page (page_addr n) (\<lambda>_. 0) (set_map n 1 s)"
  using assms by (cases rule: grab_page_cases[of s]; simp add: frame_alloc_def page_addr_nonzero; force)+

lemma frame_release_cases:
  assumes "frame_release s n = Some s'" and "n < PAGING_PAGES"
  shows "mem_map s n = 1" "page_addr n < HIGH_MEMORY s" "s' = set_map n 0 s"
proof -
  from assms have m: "mem_map s n = 1" and f: "free_page (page_addr n) s = Inr s'"
    by (auto simp: frame_release_def split: if_splits sum.splits)
  then have h: "page_addr n < HIGH_MEMORY s"
    using page_addr_low[OF assms(2)] by (auto simp: free_page_def not_less split: if_splits)
  with free_page_page[OF assms(2)] m f show "mem_map s n = 1" "page_addr n < HIGH_MEMORY s" "s' = set_map n 0 s"
    by simp_all
qed

interpretation frames: allocator frames_used mm_ok frame_alloc frame_release
proof
  fix s s' n
  show "frame_alloc s = Some (n, s') \<Longrightarrow> n \<notin> frames_used s"
    and "frame_alloc s = Some (n, s') \<Longrightarrow> frames_used s' = insert n (frames_used s)"
    and "mm_ok s \<Longrightarrow> frame_alloc s = Some (n, s') \<Longrightarrow> mm_ok s'"
    by (auto dest: frame_alloc_cases simp: frames_used_def mm_ok_def split: if_splits)
  assume n: "n \<in> frames_used s" and r: "frame_release s n = Some s'"
  then have "n < PAGING_PAGES" by (simp add: frames_used_def)
  note f = frame_release_cases[OF r this]
  show "frames_used s' = frames_used s - {n}" using f by (auto simp: frames_used_def)
  show "mm_ok s'" if "mm_ok s" using f that by (auto simp: mm_ok_def)
qed

definition slots_used :: "mm \<Rightarrow> nat set" where
  "slots_used s = {n. 0 < n \<and> n < SWAP_BITS \<and> (case swap_bitmap s of None \<Rightarrow> True | Some b \<Rightarrow> \<not> b n)}"

definition slot_alloc :: "mm \<Rightarrow> (nat \<times> mm) option" where
  "slot_alloc s = (let (n, s') = get_swap_page s in if n = 0 then None else Some (n, s'))"

definition slot_release :: "mm \<Rightarrow> nat \<Rightarrow> mm option" where
  "slot_release s n = (let (s', warned) = swap_free n s in if warned then None else Some s')"

lemma get_swap_page_cases:
  assumes "get_swap_page s = (n, s')" and "n \<noteq> 0"
  obtains b where "swap_bitmap s = Some b" "b n" "n < SWAP_BITS" "s' = s\<lparr>swap_bitmap := Some (b(n := False))\<rparr>"
  using assms by (auto simp: get_swap_page_def SWAP_BITS_def find_Some_iff split: option.splits)

lemma slot_alloc_cases:
  assumes "slot_alloc s = Some (n, s')"
  obtains b where "swap_bitmap s = Some b" "b n" "0 < n" "n < SWAP_BITS" "s' = s\<lparr>swap_bitmap := Some (b(n := False))\<rparr>"
  using assms by (auto simp: slot_alloc_def split: prod.splits if_splits elim: get_swap_page_cases)

interpretation slots: allocator slots_used "\<lambda>s. swap_bitmap s \<noteq> None" slot_alloc slot_release
proof
  fix s s' n
  show "slot_alloc s = Some (n, s') \<Longrightarrow> n \<notin> slots_used s"
    and "slot_alloc s = Some (n, s') \<Longrightarrow> slots_used s' = insert n (slots_used s)"
    and "slot_alloc s = Some (n, s') \<Longrightarrow> swap_bitmap s' \<noteq> None"
    by (auto elim!: slot_alloc_cases simp: slots_used_def split: if_splits)
  show "swap_bitmap s \<noteq> None \<Longrightarrow> n \<in> slots_used s \<Longrightarrow> slot_release s n = Some s' \<Longrightarrow> slots_used s' = slots_used s - {n}"
    and "swap_bitmap s \<noteq> None \<Longrightarrow> n \<in> slots_used s \<Longrightarrow> slot_release s n = Some s' \<Longrightarrow> swap_bitmap s' \<noteq> None"
    by (auto simp: slots_used_def slot_release_def swap_free_def split: if_splits option.splits prod.splits)
qed

section \<open>Finding a page ends\<close>

text \<open>Every page swapped out lowers the sum of the counts, so as many rounds as that sum are enough.\<close>

definition total_count :: "mm \<Rightarrow> nat" where
  "total_count s = (\<Sum>n<PAGING_PAGES. unat (mem_map s n))"

lemma mm_okD: "mm_ok s \<Longrightarrow> HIGH_MEMORY s \<le> 0x1000000"
  by (simp add: mm_ok_def)

lemma MAP_NR_bound:
  assumes "mm_ok s" and "LOW_MEM \<le> a" and "a < HIGH_MEMORY s"
  shows "MAP_NR a < PAGING_PAGES" and "page_addr (MAP_NR a) < HIGH_MEMORY s"
proof -
  have u: "unat a < unat (HIGH_MEMORY s)" "unat (HIGH_MEMORY s) \<le> 16777216"
    using assms(1,3) by (simp_all add: mm_ok_def word_less_nat_alt word_le_nat_alt)
  then show b: "MAP_NR a < PAGING_PAGES"
    by (simp add: MAP_NR_unat[OF assms(2)] PAGING_PAGES_def)
  have "1048576 \<le> unat a" using assms(2) by (simp add: word_le_nat_alt LOW_MEM_def)
  then have "unat (page_addr (MAP_NR a)) \<le> unat a"
    using unat_page_addr[OF b] MAP_NR_unat[OF assms(2)] times_div_less_eq_dividend[of 4096 "unat a - 1048576"] by linarith
  with u show "page_addr (MAP_NR a) < HIGH_MEMORY s" by (simp add: word_less_nat_alt)
qed

lemma free_page_mm_ok:
  assumes "mm_ok s" and "free_page a s = Inr s'" and "LOW_MEM \<le> a"
  shows "mm_ok s'" and "total_count s = total_count s' + 1" and "s' = set_map (MAP_NR a) (mem_map s (MAP_NR a) - 1) s"
proof -
  from assms(2,3) have h: "a < HIGH_MEMORY s" and c: "mem_map s (MAP_NR a) \<noteq> 0"
    and s': "s' = set_map (MAP_NR a) (mem_map s (MAP_NR a) - 1) s"
    by (auto simp: free_page_def Let_def not_less split: if_splits)
  note b = MAP_NR_bound[OF assms(1,3) h]
  show "s' = set_map (MAP_NR a) (mem_map s (MAP_NR a) - 1) s" by (rule s')
  show "mm_ok s'" using assms(1) b by (auto simp: mm_ok_def s')
  have "unat (mem_map s (MAP_NR a)) = unat (mem_map s (MAP_NR a) - 1) + 1"
    using c unat_gt_0[of "mem_map s (MAP_NR a)"] by (simp add: unat_minus_one)
  then show "total_count s = total_count s' + 1"
    using b(1) by (simp add: total_count_def s' sum.remove[of _ "MAP_NR a"])
qed

lemma get_swap_page_mm:
  assumes "get_swap_page s = (n, s')"
  shows "mem_map s' = mem_map s" "HIGH_MEMORY s' = HIGH_MEMORY s" "ram s' = ram s" "swap_dev s' = swap_dev s"
  using assms by (auto simp: get_swap_page_def split: option.splits)

lemma mm_ok_cong: "mem_map s = mem_map t \<Longrightarrow> HIGH_MEMORY s = HIGH_MEMORY t \<Longrightarrow> mm_ok s = mm_ok t"
  by (simp add: mm_ok_def)

lemma total_cong: "mem_map s = mem_map t \<Longrightarrow> total_count s = total_count t"
  by (simp add: total_count_def)

lemma swappable_low:
  assumes "\<not> pte - LOW_MEM > PAGING_MEMORY"
  shows "LOW_MEM \<le> pte"
proof (rule ccontr)
  assume "\<not> LOW_MEM \<le> pte"
  then have u: "unat pte < 1048576" by (simp add: not_le word_less_nat_alt LOW_MEM_def)
  have "unat (pte - LOW_MEM) = unat pte + 4294967296 - 1048576"
    using u by (simp add: unat_sub_if_size word_size LOW_MEM_def)
  with assms u show False by (simp add: word_less_nat_alt PAGING_MEMORY_def)
qed

lemma LOW_PAGE_MASK [simp]: "LOW_MEM \<le> e AND PAGE_MASK \<longleftrightarrow> LOW_MEM \<le> e" "LOW_MEM \<le> PAGE_MASK AND e \<longleftrightarrow> LOW_MEM \<le> e"
  "e AND PAGE_MASK < LOW_MEM \<longleftrightarrow> e < LOW_MEM" "PAGE_MASK AND e < LOW_MEM \<longleftrightarrow> e < LOW_MEM"
  by (simp_all add: LOW_frame not_le[symmetric])

lemma try_to_swap_out_count:
  assumes "mm_ok s" and "try_to_swap_out ptr s = Inr (b, s')"
  shows "mm_ok s' \<and> total_count s' + (if b then 1 else 0) = total_count s"
proof -
  let ?pte = "rd s ptr"
  let ?pg = "?pte AND PAGE_MASK"
  consider (no) "s' = s" "\<not> b" | (full) n where "get_swap_page s = (n, s')" "\<not> b"
    | (dirty) n s1 where "b" "LOW_MEM \<le> ?pg" "get_swap_page s = (n, s1)"
        "free_page ?pg (wr ptr (push_bit 1 (of_nat n)) s1\<lparr>swap_dev := (swap_dev s1)(n := ram (wr ptr (push_bit 1 (of_nat n)) s1) (frame_of ?pg))\<rparr>) = Inr s'"
    | (clean) "b" "LOW_MEM \<le> ?pte" "free_page ?pte (wr ptr 0 s) = Inr s'"
    using assms(2) unfolding try_to_swap_out_def Let_def kbind_Inr_iff
    by (auto simp: kbind_Inr_iff split: if_splits prod.splits dest!: swappable_low)
  then show ?thesis
  proof cases
    case (full n)
    from get_swap_page_mm[OF full(1)] full(2) assms(1) show ?thesis
      using mm_ok_cong[of s' s] total_cong[of s' s] by simp
  next
    case (dirty n s1)
    note g = get_swap_page_mm[OF dirty(3)]
    let ?t = "wr ptr (push_bit 1 (of_nat n)) s1\<lparr>swap_dev := (swap_dev s1)(n := ram (wr ptr (push_bit 1 (of_nat n)) s1) (frame_of ?pg))\<rparr>"
    have t: "mem_map ?t = mem_map s" "HIGH_MEMORY ?t = HIGH_MEMORY s" using g by simp_all
    then have "mm_ok ?t" using assms(1) mm_ok_cong[OF t] by simp
    from free_page_mm_ok[OF this dirty(4,2)] total_cong[OF t(1)] dirty(1) show ?thesis by simp
  next
    case clean
    have "mm_ok (wr ptr 0 s)" using assms(1) mm_ok_cong[of "wr ptr 0 s" s] by simp
    from free_page_mm_ok[OF this clean(3,2)] total_cong[of "wr ptr 0 s" s] clean(1) show ?thesis by simp
  qed (use assms(1) in auto)
qed

lemma cursor_mm_ok [simp]:
  "mm_ok (s\<lparr>dir_entry := d\<rparr>) = mm_ok s" "mm_ok (s\<lparr>page_entry := e\<rparr>) = mm_ok s"
  "total_count (s\<lparr>dir_entry := d\<rparr>) = total_count s" "total_count (s\<lparr>page_entry := e\<rparr>) = total_count s"
  by (simp_all add: mm_ok_def total_count_def)

lemma first_table_mm_ok: "mm_ok (snd (snd (first_table c pt s))) = mm_ok s \<and> total_count (snd (snd (first_table c pt s))) = total_count s"
proof (induction c pt s rule: first_table.induct)
  case (1 c pt s)
  then show ?case by (subst (1 2) first_table.simps) (simp add: Let_def)
qed

lemma next_table_mm_ok: "mm_ok (snd (snd (next_table c s))) = mm_ok s \<and> total_count (snd (snd (next_table c s))) = total_count s"
proof (induction c s rule: next_table.induct)
  case (1 c s)
  then show ?case by (subst (1 2) next_table.simps) (simp add: Let_def)
qed

lemma next_entry_mm_ok:
  assumes "next_entry pt c s = (r, c', s')"
  shows "mm_ok s' = mm_ok s \<and> total_count s' = total_count s"
proof (cases "page_entry s + 1 \<ge> 1024")
  case True
  with assms have "s' = snd (snd (next_table (c - 1) (s\<lparr>page_entry := 0\<rparr>)))" by (simp add: next_entry_def)
  then show ?thesis by (simp add: next_table_mm_ok)
next
  case False
  with assms show ?thesis by (auto simp: next_entry_def)
qed

lemma scan_out_count:
  "mm_ok s \<Longrightarrow> scan_out pt c s = Inr (b, s') \<Longrightarrow> mm_ok s' \<and> total_count s' + (if b then 1 else 0) = total_count s"
proof (induction pt c s rule: scan_out.induct)
  case (1 pt c s)
  show ?case
  proof (cases "c \<le> 0")
    case True
    with "1.prems" show ?thesis by (simp add: scan_out.simps)
  next
    case False
    obtain r c1 s1 where n: "next_entry pt c s = (r, c1, s1)" by (cases "next_entry pt c s")
    note m = next_entry_mm_ok[OF n]
    show ?thesis
    proof (cases r)
      case None
      with "1.prems" False n m show ?thesis by (subst (asm) scan_out.simps) simp
    next
      case (Some pt')
      let ?p = "pt' + 4 * word_of_int (page_entry s1)"
      obtain b1 s2 where t: "try_to_swap_out ?p s1 = Inr (b1, s2)"
        using "1.prems"(2) False n Some by (subst (asm) scan_out.simps) (auto split: sum.splits prod.splits)
      note k = try_to_swap_out_count[OF _ t] 
      show ?thesis
      proof (cases b1)
        case True
        with "1.prems" False n m Some t k show ?thesis by (subst (asm) scan_out.simps) auto
      next
        case f: False
        then have b1: "b1 = False" by simp
        have "scan_out pt' c1 s2 = Inr (b, s')"
          using "1.prems"(2) False n Some t f by (subst (asm) scan_out.simps) simp
        from "1.IH"[OF False n[symmetric] Some refl t refl b1 _ this] f m k "1.prems"(1) show ?thesis by auto
      qed
    qed
  qed
qed

lemma swap_out_count:
  assumes "mm_ok s" and "swap_out s = Inr (b, s')"
  shows "mm_ok s' \<and> total_count s' + (if b then 1 else 0) = total_count s"
proof -
  obtain pt c s1 where f: "first_table VM_PAGES 0 s = (pt, c, s1)" by (cases "first_table VM_PAGES 0 s")
  from f first_table_mm_ok[of VM_PAGES 0 s] have "mm_ok s1 = mm_ok s" "total_count s1 = total_count s" by simp_all
  with scan_out_count[of s1 "pt AND PAGE_MASK" c b s'] assms f show ?thesis by (simp add: swap_out_def)
qed

lemma free_page_finishes: "free_page a s \<noteq> Inl Unfinished"
  by (simp add: free_page_def Let_def)

lemma try_to_swap_out_finishes: "try_to_swap_out p s \<noteq> Inl Unfinished"
proof -
  have "kbind (free_page a t) (\<lambda>u. Inr (f u)) \<noteq> Inl Unfinished" for a t and f :: "mm \<Rightarrow> bool \<times> mm"
    using free_page_finishes[of a t] by (cases "free_page a t") auto
  then show ?thesis by (simp add: try_to_swap_out_def Let_def split: prod.splits)
qed

lemma scan_out_finishes: "scan_out pt c s \<noteq> Inl Unfinished"
proof (induction pt c s rule: scan_out.induct)
  case (1 pt c s)
  then show ?case
    using try_to_swap_out_finishes
    by (subst scan_out.simps) (auto split: option.splits prod.splits sum.splits bool.splits)
qed

lemma swap_out_finishes: "swap_out s \<noteq> Inl Unfinished"
  using scan_out_finishes by (simp add: swap_out_def split: prod.splits)

lemma get_free_page_ends:
  "mm_ok s \<Longrightarrow> total_count s < fuel \<Longrightarrow> get_free_page fuel s \<noteq> Inl Unfinished"
proof (induction fuel arbitrary: s)
  case 0
  then show ?case by simp
next
  case (Suc fuel)
  show ?case
  proof (cases rule: grab_page_cases[of s])
    case none
    have "\<not> HIGH_MEMORY s \<le> 0" using Suc.prems(1) by (auto simp: mm_ok_def LOW_MEM_def)
    then have g: "get_free_page (Suc fuel) s =
        kbind (swap_out s) (\<lambda>(out, s2). if out then get_free_page fuel s2 else Inr (0, s2))"
      using none(2) by (simp add: get_free_page.simps)
    show ?thesis
    proof (cases "swap_out s")
      case (Inl e)
      with g swap_out_finishes[of s] show ?thesis by auto
    next
      case (Inr r)
      then obtain b s' where r: "swap_out s = Inr (b, s')" by (cases r) simp
      from swap_out_count[OF Suc.prems(1) r] Suc.prems(2) Suc.IH[of s'] g r show ?thesis by auto
    qed
  next
    case (page n)
    from get_free_page_avail[OF Suc.prems(1) page(1,2)] show ?thesis by (metis Inl_Inr_False)
  qed
qed

lemma total_count_bound: "total_count s \<le> 979200"
proof -
  have "total_count s \<le> of_nat (card {..<PAGING_PAGES}) * 255"
    unfolding total_count_def
    using unat_u8_less by (intro sum_bounded_above) (auto simp: less_Suc_eq_le[symmetric])
  then show ?thesis by (simp add: PAGING_PAGES_def)
qed

text \<open>A page returned is clear and counted once.\<close>

lemma get_free_page_result:
  "mm_ok s \<Longrightarrow> get_free_page fuel s = Inr (a, s') \<Longrightarrow>
    mm_ok s' \<and> (a = 0 \<or> (\<exists>n<PAGING_PAGES. a = page_addr n \<and> mem_map s' n = 1 \<and> ram s' (frame_of a) = (\<lambda>_. 0)))"
proof (induction fuel arbitrary: s)
  case 0
  then show ?case by (simp add: get_free_page.simps)
next
  case (Suc fuel)
  show ?case
  proof (cases rule: grab_page_cases[of s])
    case none
    have "\<not> HIGH_MEMORY s \<le> 0" using Suc.prems(1) by (auto simp: mm_ok_def LOW_MEM_def)
    then have g: "kbind (swap_out s) (\<lambda>(out, s2). if out then get_free_page fuel s2 else Inr (0, s2)) = Inr (a, s')"
      using none(2) Suc.prems(2) by (simp add: get_free_page.simps)
    then obtain b s2 where r: "swap_out s = Inr (b, s2)"
      and h: "(if b then get_free_page fuel s2 else Inr (0, s2)) = Inr (a, s')" by (auto simp: kbind_Inr_iff)
    from swap_out_count[OF Suc.prems(1) r] have "mm_ok s2" by simp
    with h Suc.IH[of s2] show ?thesis by (auto split: if_splits)
  next
    case (page n)
    obtain m where m: "m < PAGING_PAGES" "mem_map s m = 0"
      and g: "get_free_page (Suc fuel) s = Inr (page_addr m, set_page (page_addr m) (\<lambda>_. 0) (set_map m 1 s))"
      by (rule get_free_page_avail[OF Suc.prems(1) page(1,2)])
    have "(Inr (a, s') :: (u32 \<times> mm) kres) = Inr (page_addr m, set_page (page_addr m) (\<lambda>_. 0) (set_map m 1 s))"
      using Suc.prems(2) g by (simp only:)
    then have s': "a = page_addr m" "s' = set_page (page_addr m) (\<lambda>_. 0) (set_map m 1 s)" by simp_all
    have "mm_ok s'" using Suc.prems(1) by (auto simp: mm_ok_def s')
    then show ?thesis using m(1) by (auto simp: s' ram_set_page)
  qed
qed

end
