(* ===== verification/Paging.thy ===== *)
theory Paging
  imports Memory
begin

text \<open>
  What the page operations of \<open>Memory\<close> promise: a write fault on a shared page gives the writer a
  private copy, a page swapped out comes back unchanged, and the tables copied by \<open>fork\<close> share
  every page, counted once more, until they are freed.
\<close>

section \<open>Copy on write\<close>

lemma new_page_avail:
  assumes "mm_ok s" and "k < PAGING_PAGES" and "mem_map s k = 0"
  obtains n where "n < PAGING_PAGES" "k \<le> n" "mem_map s n = 0"
    "new_page (Suc fuel) s = Inr (page_addr n, set_page (page_addr n) (\<lambda>_. 0) (set_map n 1 s))"
proof -
  obtain n where n: "n < PAGING_PAGES" "k \<le> n" "mem_map s n = 0"
    and g: "get_free_page (Suc fuel) s = Inr (page_addr n, set_page (page_addr n) (\<lambda>_. 0) (set_map n 1 s))"
    by (rule get_free_page_avail[OF assms])
  show thesis by (rule that[OF n]) (simp add: new_page_def g page_addr_nonzero n)
qed

text \<open>A page table that is in use is not one of the free pages.\<close>

definition in_use :: "mm \<Rightarrow> u32 \<Rightarrow> bool" where
  "in_use s a \<longleftrightarrow> (\<forall>n<PAGING_PAGES. mem_map s n = 0 \<longrightarrow> frame_of (page_addr n) \<noteq> frame_of a)"

lemma un_wp_page_copy:
  assumes ok: "mm_ok s" and free: "k < PAGING_PAGES" "mem_map s k = 0"
    and ptr: "in_use s ptr"
    and old: "old = rd s ptr AND PAGE_MASK" "LOW_MEM \<le> old" "MAP_NR old < PAGING_PAGES"
    and shared: "unat (mem_map s (MAP_NR old)) > 1"
  obtains new s' where "un_wp_page (Suc fuel) ptr s = Inr s'"
    and "new < PAGING_PAGES" "mem_map s new = 0"
    and "rd s' ptr = page_addr new OR 7"
    and "mem_map s' = (mem_map s)(new := 1, MAP_NR old := mem_map s (MAP_NR old) - 1)"
    and "ram s' (frame_of (page_addr new)) = ram s (frame_of old)"
    and "\<And>f. f \<noteq> frame_of ptr \<Longrightarrow> f \<noteq> frame_of (page_addr new) \<Longrightarrow> ram s' f = ram s f"
proof -
  obtain n where n: "n < PAGING_PAGES" "mem_map s n = 0"
    and g: "new_page (Suc fuel) s = Inr (page_addr n, set_page (page_addr n) (\<lambda>_. 0) (set_map n 1 s))"
    by (rule new_page_avail[OF ok free])
  have c: "mem_map s (MAP_NR old) \<noteq> 1" "MAP_NR old \<noteq> n" using shared n(2) by auto
  have f: "frame_of (page_addr n) \<noteq> frame_of ptr" using ptr n by (simp add: in_use_def)
  have o: "frame_of old \<noteq> frame_of (page_addr n)"
  proof
    assume "frame_of old = frame_of (page_addr n)"
    with MAP_NR_frame[OF old(2)] unat_frame_page[OF n(1)] c(2) show False by simp
  qed
  let ?s1 = "set_page (page_addr n) (\<lambda>_. 0) (set_map n 1 s)"
  let ?s2 = "set_map (MAP_NR old) (mem_map ?s1 (MAP_NR old) - 1) ?s1"
  let ?s' = "wr ptr (page_addr n OR 7) (set_page (page_addr n) (ram ?s2 (frame_of old)) ?s2)"
  have "un_wp_page (Suc fuel) ptr s = Inr ?s'"
    using old(2) c(1) by (simp add: un_wp_page_def Let_def g old(1)[symmetric])
  then show ?thesis
  proof (rule that[OF _ n])
    show "rd ?s' ptr = page_addr n OR 7" by simp
    show "mem_map ?s' = (mem_map s)(n := 1, MAP_NR old := mem_map s (MAP_NR old) - 1)"
      using c(2) by (auto simp: fun_eq_iff)
    show "ram ?s' (frame_of (page_addr n)) = ram s (frame_of old)"
      using f o by (simp add: ram_wr_other ram_set_page)
  qed (auto simp: ram_wr_other ram_set_page)
qed

lemma un_wp_page_sole:
  assumes "LOW_MEM \<le> rd s ptr" and "mem_map s (MAP_NR (rd s ptr AND PAGE_MASK)) = 1"
  shows "un_wp_page fuel ptr s = Inr (wr ptr (rd s ptr OR 2) s)"
  using assms by (simp add: un_wp_page_def Let_def)

section \<open>Swapping a page out and in\<close>

lemma slot_entry:
  assumes "n < SWAP_BITS"
  shows "unat (drop_bit 1 (push_bit 1 (of_nat n :: u32))) = n" "push_bit 1 (of_nat n :: u32) AND 1 = 0"
proof -
  have u: "unat (of_nat n :: u32) = n" using assms by (simp add: unat_of_nat SWAP_BITS_def)
  then have "unat (push_bit 1 (of_nat n :: u32)) = 2 * n"
    using assms by (simp add: unat_word_ariths SWAP_BITS_def)
  then show "unat (drop_bit 1 (push_bit 1 (of_nat n :: u32))) = n"
    by (simp only: unat_drop_bit_eq) (simp add: drop_bit_Suc)
  show "push_bit 1 (of_nat n :: u32) AND 1 = 0"
    by (simp add: and_one_eq mod_2_eq_odd)
qed

lemma swap_round_trip:
  assumes ok: "mm_ok s" and ptr: "in_use s ptr" and own: "frame_of ptr \<noteq> frame_of (rd s ptr)"
    and dirty: "rd s ptr AND PAGE_DIRTY \<noteq> 0" and out: "try_to_swap_out ptr s = Inr (True, s1)"
  obtains s2 new where "swap_in (Suc fuel) ptr s1 = Inr s2"
    and "rd s1 ptr AND 1 = 0" "new < PAGING_PAGES" "mem_map s1 new = 0"
    and "rd s2 ptr = page_addr new OR (PAGE_DIRTY OR 7)"
    and "ram s2 (frame_of (page_addr new)) = ram s (frame_of (rd s ptr))"
    and "swap_bitmap s2 = swap_bitmap s"
    and "mem_map s2 = (mem_map s)(MAP_NR (rd s ptr AND PAGE_MASK) := 0, new := 1)"
proof -
  let ?pg = "rd s ptr AND PAGE_MASK"
  have low: "LOW_MEM \<le> ?pg"
    using out by (auto simp: try_to_swap_out_def Let_def dest!: swappable_low split: if_splits)
  obtain n t where g: "get_swap_page s = (n, t)" by (cases "get_swap_page s")
  have one: "mem_map s (MAP_NR ?pg) = 1" and n0: "n \<noteq> 0"
    using out dirty g by (auto simp: try_to_swap_out_def Let_def split: if_splits)
  note gm = get_swap_page_mm[OF g]
  obtain b where b: "swap_bitmap s = Some b" "b n" "n < SWAP_BITS" and t: "t = s\<lparr>swap_bitmap := Some (b(n := False))\<rparr>"
    by (rule get_swap_page_cases[OF g n0])
  let ?pte = "push_bit 1 (of_nat n) :: u32"
  let ?u = "(wr ptr ?pte t)\<lparr>swap_dev := (swap_dev t)(n := ram (wr ptr ?pte t) (frame_of ?pg))\<rparr>"
  have fr: "free_page ?pg ?u = Inr s1"
    using out dirty g n0 one low
    by (auto simp: try_to_swap_out_def Let_def kbind_Inr_iff gm(4) split: if_splits)
  have uok: "mm_ok ?u" using ok mm_ok_cong[of ?u s] gm by simp
  note s1 = free_page_mm_ok[OF uok fr low]
  have m1: "mem_map s1 = (mem_map s)(MAP_NR ?pg := 0)" using s1(3) one gm by simp
  have rd1: "rd s1 ptr = ?pte" unfolding s1(3) by (simp add: rd_def wr_def set_map_def)
  have bm1: "swap_bitmap s1 = Some (b(n := False))" using s1(3) t by simp
  have page: "swap_dev s1 n = ram s (frame_of (rd s ptr))" 
    using s1(3) own by (simp add: t wr_def)
  have h: "?pg < HIGH_MEMORY s" using fr low gm by (auto simp: free_page_def not_less split: if_splits)
  note mb = MAP_NR_bound[OF ok low h]
  obtain k where k: "k < PAGING_PAGES" "mem_map s1 k = 0"
    and np: "new_page (Suc fuel) s1 = Inr (page_addr k, set_page (page_addr k) (\<lambda>_. 0) (set_map k 1 s1))"
    using new_page_avail[OF s1(1) mb(1)] m1 by (metis fun_upd_same)
  have kf: "frame_of (page_addr k) \<noteq> frame_of ptr"
  proof (cases "k = MAP_NR ?pg")
    case True
    have "page_addr (MAP_NR ?pg) = ?pg" by (rule page_addr_MAP_NR[OF aligned_mask(1) low mb(1)])
    with True own show ?thesis by simp
  next
    case False
    with k m1 ptr show ?thesis by (simp add: in_use_def)
  qed
  let ?v = "set_page (page_addr k) (\<lambda>_. 0) (set_map k 1 s1)"
  let ?w = "set_page (page_addr k) (swap_dev ?v n) ?v"
  let ?s2 = "wr ptr (page_addr k OR (PAGE_DIRTY OR 7)) (?w\<lparr>swap_bitmap := map_option (\<lambda>b. b(n := True)) (swap_bitmap ?w)\<rparr>)"
  have "swap_in (Suc fuel) ptr s1 = Inr ?s2"
    using slot_entry[OF b(3)] n0 by (simp add: swap_in_def bm1 rd1 np Let_def del: push_bit_of_nat)
  then show ?thesis
  proof (rule that[OF _ _ k])
    show "rd s1 ptr AND 1 = 0" using slot_entry(2)[OF b(3)] rd1 by simp
    show "rd ?s2 ptr = page_addr k OR (PAGE_DIRTY OR 7)" by simp
    show "ram ?s2 (frame_of (page_addr k)) = ram s (frame_of (rd s ptr))"
      using kf page by (simp add: ram_wr_other ram_set_page) 
    show "swap_bitmap ?s2 = swap_bitmap s" using b bm1 by (auto simp: fun_eq_iff)
    show "mem_map ?s2 = (mem_map s)(MAP_NR ?pg := 0, k := 1)" using m1 by simp
  qed
qed

section \<open>Page tables copied by fork\<close>

text \<open>Whether a table entry maps page \<open>n\<close>, and how many of the entries \<open>nrs\<close> of a table do.\<close>

definition maps :: "u32 \<Rightarrow> nat \<Rightarrow> bool" where
  "maps e n \<longleftrightarrow> e AND 1 \<noteq> 0 \<and> LOW_MEM \<le> e \<and> unat (frame_of e) = n + 256"

definition holders :: "page \<Rightarrow> nat list \<Rightarrow> nat \<Rightarrow> nat" where
  "holders pg nrs n = length (filter (\<lambda>w. maps (pg w) n) nrs)"

lemma holders_simps [simp]:
  "holders pg [] n = 0" "holders pg (w # nrs) n = (if maps (pg w) n then 1 else 0) + holders pg nrs n"
  by (simp_all add: holders_def)

lemma holders_cong: "(\<And>w. w \<in> set nrs \<Longrightarrow> pg w = pg' w) \<Longrightarrow> holders pg nrs n = holders pg' nrs n"
  by (simp add: holders_def cong: filter_cong)

lemma readonly_present [simp]: "readonly e AND 1 = e AND 1"
  unfolding readonly_def by (rule bit_word_eqI) (auto simp: bit_simps)

lemma readonly_0 [simp]: "readonly 0 = 0"
  by (simp add: readonly_def)

lemma LOW_readonly [simp]: "LOW_MEM \<le> readonly e \<longleftrightarrow> LOW_MEM \<le> e"
  by (simp add: LOW_frame)

lemma maps_readonly [simp]: "maps (readonly e) n = maps e n"
  by (simp add: maps_def)

lemma present_above_LOW: "e AND 1 \<noteq> 0 \<Longrightarrow> LOW_MEM < readonly e \<longleftrightarrow> LOW_MEM \<le> e"
proof -
  assume p: "e AND 1 \<noteq> 0"
  have "readonly e \<noteq> LOW_MEM"
  proof
    assume "readonly e = LOW_MEM"
    then have "e AND 1 = LOW_MEM AND 1" by (metis readonly_present)
    with p show False by (simp add: LOW_MEM_def)
  qed
  then show ?thesis using LOW_readonly[of e] by (metis order.order_iff_strict)
qed

lemma maps_MAP_NR: "e AND 1 \<noteq> 0 \<Longrightarrow> LOW_MEM \<le> e \<Longrightarrow> maps e n \<longleftrightarrow> n = MAP_NR e"
  using MAP_NR_frame[of e] by (auto simp: maps_def LOW_frame)

lemma MAP_NR_readonly [simp]: "LOW_MEM \<le> e \<Longrightarrow> MAP_NR (readonly e) = MAP_NR e"
  by (simp add: MAP_NR_frame)

lemma MAP_NR_PAGE_MASK [simp]: "LOW_MEM \<le> e \<Longrightarrow> MAP_NR (PAGE_MASK AND e) = MAP_NR e"
  by (simp add: MAP_NR_frame)

definition shared_table :: "page \<Rightarrow> nat list \<Rightarrow> page \<Rightarrow> page" where
  "shared_table src nrs dst = (\<lambda>w. if w \<in> set nrs \<and> src w \<noteq> 0 then readonly (src w) else dst w)"

definition protected_table :: "page \<Rightarrow> nat list \<Rightarrow> page" where
  "protected_table src nrs = (\<lambda>w. if w \<in> set nrs \<and> LOW_MEM < readonly (src w) then readonly (src w) else src w)"

lemma copy_entries_shares:
  assumes "aligned a" and "aligned b" and "frame_of a \<noteq> frame_of b"
    and "distinct nrs" and "\<forall>w\<in>set nrs. w < 1024 \<and> (ram s (frame_of a) w = 0 \<or> ram s (frame_of a) w AND 1 \<noteq> 0)"
  shows "copy_entries fuel a b nrs s =
    Inr (True, s\<lparr>ram := (ram s)(frame_of a := protected_table (ram s (frame_of a)) nrs,
                                 frame_of b := shared_table (ram s (frame_of a)) nrs (ram s (frame_of b))),
                 mem_map := \<lambda>n. mem_map s n + of_nat (holders (ram s (frame_of a)) nrs n)\<rparr>)"
  using assms(4,5)
proof (induction nrs arbitrary: s)
  case Nil
  then show ?case by (simp add: protected_table_def shared_table_def)
next
  case (Cons w nrs)
  let ?fa = "frame_of a" let ?fb = "frame_of b"
  let ?e = "ram s ?fa w"
  have w: "w < 1024" "w \<notin> set nrs" using Cons.prems by simp_all
  have e: "rd s (a + 4 * of_nat w) = ?e" using assms(1) w by (simp add: rd_def)
  show ?case
  proof (cases "?e = 0")
    case True
    have "protected_table (ram s ?fa) (w # nrs) = protected_table (ram s ?fa) nrs"
      "shared_table (ram s ?fa) (w # nrs) (ram s ?fb) = shared_table (ram s ?fa) nrs (ram s ?fb)"
      using True by (auto simp: protected_table_def shared_table_def fun_eq_iff LOW_MEM_def)
    with True Cons.IH[of s] Cons.prems e show ?thesis by (simp add: Let_def maps_def)
  next
    case False
    then have p: "?e AND 1 \<noteq> 0" using Cons.prems(2) by simp
    let ?ro = "readonly ?e"
    let ?s1 = "wr (b + 4 * of_nat w) ?ro s"
    define t where "t = (if ?ro > LOW_MEM then set_map (MAP_NR ?ro) (mem_map ?s1 (MAP_NR ?ro) + 1) (wr (a + 4 * of_nat w) ?ro ?s1) else ?s1)"
    have step: "copy_entries fuel a b (w # nrs) s = copy_entries fuel a b nrs t"
      using False p by (simp add: e Let_def t_def)
    have ta: "ram t ?fa = (ram s ?fa)(w := if ?ro > LOW_MEM then ?ro else ?e)"
      and tb: "ram t ?fb = (ram s ?fb)(w := ?ro)"
      and to: "\<And>f. f \<noteq> ?fa \<Longrightarrow> f \<noteq> ?fb \<Longrightarrow> ram t f = ram s f"
      using assms(1,2,3) w(1) by (auto simp: wr_def t_def)
    have tm: "mem_map t n + of_nat (holders (ram s ?fa) nrs n) = mem_map s n + of_nat (holders (ram s ?fa) (w # nrs) n)" for n
      using maps_MAP_NR[OF p] present_above_LOW[OF p] by (auto simp: maps_def t_def)
    have te: "\<forall>v\<in>set nrs. v < 1024 \<and> (ram t ?fa v = 0 \<or> ram t ?fa v AND 1 \<noteq> 0)"
      using Cons.prems w(2) unfolding ta by auto
    have hold: "holders (ram t ?fa) nrs n = holders (ram s ?fa) nrs n" for n
      using w(2) unfolding ta by (intro holders_cong) auto
    have prot: "protected_table (ram t ?fa) nrs = protected_table (ram s ?fa) (w # nrs)"
      and shar: "shared_table (ram t ?fa) nrs (ram t ?fb) = shared_table (ram s ?fa) (w # nrs) (ram s ?fb)"
      unfolding ta tb using w(2) False
      by (auto simp: protected_table_def shared_table_def fun_eq_iff)
    have oth: "t\<lparr>ram := r, mem_map := m\<rparr> = s\<lparr>ram := r, mem_map := m\<rparr>" for r m
      by (simp add: wr_def set_map_def t_def)
    have ndist: "distinct nrs" using Cons.prems(1) by simp
    have upd: "(ram t)(?fa := x, ?fb := y) = (ram s)(?fa := x, ?fb := y)" for x y
      using to by (auto simp: fun_eq_iff)
    show ?thesis unfolding step Cons.IH[OF ndist te] hold prot shar oth upd tm by (rule refl)
  qed
qed

text \<open>Freeing a table gives every page it maps back, once for each entry.\<close>

lemma free_table_releases:
  assumes "aligned b" and "distinct nrs"
    and "\<forall>w\<in>set nrs. w < 1024 \<and> (ram s (frame_of b) w = 0 \<or>
           ram s (frame_of b) w AND 1 \<noteq> 0 \<and> PAGE_MASK AND ram s (frame_of b) w < HIGH_MEMORY s)"
    and "\<forall>n. holders (ram s (frame_of b)) nrs n \<le> unat (mem_map s n)"
  shows "free_table b nrs s =
    Inr (s\<lparr>ram := (ram s)(frame_of b := \<lambda>w. if w \<in> set nrs then 0 else ram s (frame_of b) w),
           mem_map := \<lambda>n. mem_map s n - of_nat (holders (ram s (frame_of b)) nrs n)\<rparr>)"
  using assms(2-4)
proof (induction nrs arbitrary: s)
  case Nil
  then show ?case by simp
next
  case (Cons w nrs)
  let ?fb = "frame_of b"
  let ?e = "ram s ?fb w"
  have w: "w < 1024" "w \<notin> set nrs" using Cons.prems by simp_all
  have e: "rd s (b + 4 * of_nat w) = ?e" using assms(1) w by (simp add: rd_def)
  show ?case
  proof (cases "?e = 0")
    case True
    have z: "(\<lambda>v. if v \<in> set (w # nrs) then 0 else ram s ?fb v) = (\<lambda>v. if v \<in> set nrs then 0 else ram s ?fb v)"
      using True by (auto simp: fun_eq_iff)
    have "\<forall>n. holders (ram s ?fb) nrs n \<le> unat (mem_map s n)"
      using Cons.prems(3) True by (simp add: maps_def)
    with Cons.IH[of s] Cons.prems e z show ?thesis by (simp add: True Let_def maps_def)
  next
    case False
    then have p: "?e AND 1 \<noteq> 0" and h: "PAGE_MASK AND ?e < HIGH_MEMORY s" using Cons.prems(2) by simp_all
    define s1 where "s1 = (if LOW_MEM \<le> ?e then set_map (MAP_NR ?e) (mem_map s (MAP_NR ?e) - 1) s else s)"
    have c: "mem_map s (MAP_NR ?e) \<noteq> 0" if "LOW_MEM \<le> ?e"
    proof
      assume "mem_map s (MAP_NR ?e) = 0"
      moreover have "maps ?e (MAP_NR ?e)" using maps_MAP_NR[OF p that] by simp
      ultimately show False using Cons.prems(3)[rule_format, of "MAP_NR ?e"] by simp
    qed
    have f: "free_page (PAGE_MASK AND ?e) s = Inr s1"
      using c h by (auto simp: free_page_def Let_def s1_def not_le)
    define t where "t = wr (b + 4 * of_nat w) 0 s1"
    have step: "free_table b (w # nrs) s = free_table b nrs t"
      using False p by (simp add: e f t_def Let_def)
    have tb: "ram t ?fb = (ram s ?fb)(w := 0)" and to: "\<And>f. f \<noteq> ?fb \<Longrightarrow> ram t f = ram s f"
      using assms(1) w(1) by (auto simp: wr_def t_def s1_def)
    have hold: "holders (ram t ?fb) nrs n = holders (ram s ?fb) nrs n" for n
      using w(2) unfolding tb by (intro holders_cong) auto
    have m: "mem_map t n = mem_map s n - of_nat (if maps ?e n then 1 else 0)" for n
      using maps_MAP_NR[OF p] by (auto simp: t_def s1_def maps_def)
    have tm: "mem_map t n - of_nat (holders (ram s ?fb) nrs n) = mem_map s n - of_nat (holders (ram s ?fb) (w # nrs) n)" for n
      by (simp add: m)
    have te: "\<forall>v\<in>set nrs. v < 1024 \<and> (ram t ?fb v = 0 \<or> ram t ?fb v AND 1 \<noteq> 0 \<and> PAGE_MASK AND ram t ?fb v < HIGH_MEMORY t)"
      using Cons.prems(2) w(2) unfolding tb by (auto simp: t_def s1_def)
    have th: "\<forall>n. holders (ram t ?fb) nrs n \<le> unat (mem_map t n)"
    proof
      fix n
      have l: "(if maps ?e n then 1 else 0) + holders (ram s ?fb) nrs n \<le> unat (mem_map s n)"
        using Cons.prems(3)[rule_format, of n] by simp
      have "unat (mem_map t n) = unat (mem_map s n) - (if maps ?e n then 1 else 0)"
        using l unat_gt_0[of "mem_map s n"] by (auto simp: m unat_minus_one)
      with l show "holders (ram t ?fb) nrs n \<le> unat (mem_map t n)" by (simp add: hold)
    qed
    have oth: "t\<lparr>ram := r, mem_map := m\<rparr> = s\<lparr>ram := r, mem_map := m\<rparr>" for r m
      by (simp add: wr_def set_map_def t_def s1_def)
    have upd: "(ram t)(?fb := x) = (ram s)(?fb := x)" for x
      using to by (auto simp: fun_eq_iff)
    have fin: "(\<lambda>v. if v \<in> set nrs then 0 else ram t ?fb v) = (\<lambda>v. if v \<in> set (w # nrs) then 0 else ram s ?fb v)"
      unfolding tb by (auto simp: fun_eq_iff)
    have nd: "distinct nrs" using Cons.prems(1) by simp
    show ?thesis unfolding step Cons.IH[OF nd te th] hold oth upd tm fin by (rule refl)
  qed
qed

text \<open>
  A table copied by \<open>fork\<close> and then freed: the counts are what they were, and the parent's table
  still maps the same pages, without the write bit. A count has 8 bits, so the copy must not
  bring one to 256.
\<close>

lemma holders_shared:
  "\<forall>w\<in>set nrs. src w = 0 \<or> src w AND 1 \<noteq> 0 \<Longrightarrow>
    holders (shared_table src nrs dst) nrs n = holders src nrs n \<or> \<not> (\<forall>w\<in>set nrs. dst w = 0)"
proof -
  have "maps (shared_table src nrs dst w) n = maps (src w) n" if "w \<in> set nrs" "dst w = 0" for w
    using that by (simp add: shared_table_def maps_def)
  then show ?thesis by (auto simp: holders_def cong: filter_cong)
qed

lemma fork_then_free:
  assumes a: "aligned a" "aligned b" "frame_of a \<noteq> frame_of b" and d: "distinct nrs"
    and e: "\<forall>w\<in>set nrs. w < 1024 \<and> (ram s (frame_of a) w = 0 \<or>
             ram s (frame_of a) w AND 1 \<noteq> 0 \<and> PAGE_MASK AND ram s (frame_of a) w < HIGH_MEMORY s)"
    and z: "\<forall>w\<in>set nrs. ram s (frame_of b) w = 0"
    and c: "\<forall>n. unat (mem_map s n) + holders (ram s (frame_of a)) nrs n < 256"
  obtains s1 where "copy_entries fuel a b nrs s = Inr (True, s1)"
    and "free_table b nrs s1 = Inr (s\<lparr>ram := (ram s)(frame_of a := protected_table (ram s (frame_of a)) nrs)\<rparr>)"
proof -
  let ?A = "ram s (frame_of a)" let ?B = "shared_table ?A nrs (ram s (frame_of b))"
  let ?h = "holders ?A nrs"
  define s1 where "s1 = s\<lparr>ram := (ram s)(frame_of a := protected_table ?A nrs, frame_of b := ?B),
                          mem_map := \<lambda>n. mem_map s n + of_nat (?h n)\<rparr>"
  have e': "\<forall>w\<in>set nrs. w < 1024 \<and> (?A w = 0 \<or> ?A w AND 1 \<noteq> 0)" using e by blast
  have cp: "copy_entries fuel a b nrs s = Inr (True, s1)"
    unfolding s1_def by (rule copy_entries_shares[OF a d e'])
  have B: "ram s1 (frame_of b) = ?B" by (simp add: s1_def)
  have h: "holders ?B nrs n = ?h n" for n
    using holders_shared[of nrs ?A "ram s (frame_of b)" n] e' z by blast
  have u: "unat (mem_map s1 n) = unat (mem_map s n) + ?h n" for n
    using c[rule_format, of n] by (simp add: s1_def unat_word_ariths unat_of_nat)
  have mask: "PAGE_MASK AND readonly x = PAGE_MASK AND x" for x
    by (simp add: readonly_def PAGE_MASK_def and.assoc[symmetric] and.commute[of _ x]) (simp add: and.assoc)
  have "\<forall>w\<in>set nrs. w < 1024 \<and> (?B w = 0 \<or> ?B w AND 1 \<noteq> 0 \<and> PAGE_MASK AND ?B w < HIGH_MEMORY s1)"
    using e z by (auto simp: shared_table_def s1_def mask)
  moreover have "\<forall>n. holders ?B nrs n \<le> unat (mem_map s1 n)" by (simp add: h u)
  ultimately have "free_table b nrs s1 = Inr (s1\<lparr>ram := (ram s1)(frame_of b := \<lambda>w. if w \<in> set nrs then 0 else ?B w),
           mem_map := \<lambda>n. mem_map s1 n - of_nat (holders ?B nrs n)\<rparr>)"
    using free_table_releases[OF a(2) d, of s1] unfolding B by blast
  moreover have "(\<lambda>w. if w \<in> set nrs then 0 else ?B w) = ram s (frame_of b)"
    using z by (auto simp: shared_table_def)
  moreover have "(\<lambda>n. mem_map s1 n - of_nat (holders ?B nrs n)) = mem_map s" by (simp add: h) (simp add: s1_def)
  moreover have "(ram s1)(frame_of b := ram s (frame_of b)) = (ram s)(frame_of a := protected_table ?A nrs)"
    using a(3) by (auto simp: s1_def fun_eq_iff)
  ultimately show ?thesis by (intro that[OF cp]) (simp add: s1_def)
qed

section \<open>Start\<close>

text \<open>After \<open>mem_init\<close> the free pages are those between the two addresses.\<close>

lemma mem_init_frames:
  assumes "LOW_MEM \<le> start" and "start \<le> end'" and "end' \<le> 0x1000000"
  shows "mm_ok (mem_init start end' s)"
    and "frames_used (mem_init start end' s) =
           {n. n < PAGING_PAGES \<and> \<not> (MAP_NR start \<le> n \<and> n < MAP_NR start + unat (end' - start) div 4096)}"
proof -
  let ?n = "unat (end' - start) div 4096"
  have u: "1048576 \<le> unat start" "unat start \<le> unat end'" "unat end' \<le> 16777216"
    using assms by (simp_all add: word_le_nat_alt LOW_MEM_def)
  have d: "unat (end' - start) = unat end' - unat start" by (rule unat_sub[OF assms(2)])
  then have "sint (end' - start) = int (unat (end' - start))" using u by (intro sint_small) simp
  then have n: "nat (sint (end' - start) div 4096) = ?n" by (simp add: nat_div_as_int)
  have f: "MAP_NR start + ?n \<le> (unat end' - 1048576) div 4096"
  proof -
    let ?x = "unat start - 1048576" and ?y = "unat end' - unat start"
    have "4096 * (?x div 4096 + ?y div 4096) \<le> ?x + ?y"
      using times_div_less_eq_dividend[of 4096 ?x] times_div_less_eq_dividend[of 4096 ?y] by (simp add: distrib_left)
    moreover have "?x + ?y = unat end' - 1048576" using u by simp
    ultimately show ?thesis
      unfolding MAP_NR_unat[OF assms(1)] d by (simp add: less_eq_div_iff_mult_less_eq mult.commute)
  qed
  show "frames_used (mem_init start end' s) =
      {n. n < PAGING_PAGES \<and> \<not> (MAP_NR start \<le> n \<and> n < MAP_NR start + ?n)}"
    using n by (auto simp: frames_used_def mem_init_def Let_def USED_def)
  show "mm_ok (mem_init start end' s)"
    unfolding mm_ok_def
  proof (intro conjI allI impI)
    fix k assume k: "k < PAGING_PAGES" "mem_map (mem_init start end' s) k = 0"
    then have "k < MAP_NR start + ?n" using n by (auto simp: mem_init_def Let_def USED_def split: if_splits)
    with f have "k + 1 \<le> (unat end' - 1048576) div 4096" by simp
    then have "4096 * (k + 1) \<le> unat end' - 1048576" by (simp add: less_eq_div_iff_mult_less_eq)
    with u have "4096 * k + 1048576 < unat end'" by simp
    then show "page_addr k < HIGH_MEMORY (mem_init start end' s)"
      by (simp add: word_less_nat_alt unat_page_addr[OF k(1)] mem_init_def Let_def)
  qed (use assms in \<open>auto simp: mem_init_def Let_def intro: order_trans\<close>)
qed

end
