(* ===== verification/Buffer.thy ===== *)
theory Buffer
  imports FsState
begin

text \<open>
  The buffer cache itself (\<open>fs/buffer.c\<close>): the buffer heads with their two pairs of links, the hash
  table and the ring of buffers in order of use. Every place where the code may sleep takes a
  step of an environment (other processes and the driver) from a list; when the list is used up
  while the code still waits, the result is \<open>Unfinished\<close>. The block layer's \<open>ll_rw_block\<close> and
  \<open>sync_inodes\<close> are arguments \<open>io\<close> and \<open>si\<close>; both may sleep and use up steps of the environment.
\<close>

section \<open>State\<close>

record cbuf = buffer_head +
  b_dev :: u16
  b_blocknr :: u32
  b_lock :: bool
  b_prev :: "nat option"
  b_next :: "nat option"
  b_prev_free :: "nat option"
  b_next_free :: "nat option"

record cache =
  bh :: "nat \<Rightarrow> cbuf"
  nr_buffers :: nat
  hash_table :: "nat \<Rightarrow> nat option"
  free_list :: nat

type_synonym env = "(cache \<Rightarrow> cache) list"

text \<open>\<open>ll_rw_block (WRITE or READ, buffer)\<close> and \<open>sync_inodes\<close>\<close>

type_synonym block_io = "bool \<Rightarrow> nat \<Rightarrow> env \<Rightarrow> cache \<Rightarrow> (env \<times> cache) kres"
type_synonym inode_sync = "env \<Rightarrow> cache \<Rightarrow> (env \<times> cache) kres"

definition NR_HASH :: nat where "NR_HASH = 307"

definition hashfn :: "u16 \<Rightarrow> u32 \<Rightarrow> nat" where
  "hashfn dev block = unat ((ucast dev XOR block) mod 307)"

definition upd_bh :: "nat \<Rightarrow> (cbuf \<Rightarrow> cbuf) \<Rightarrow> cache \<Rightarrow> cache" where
  "upd_bh i f c = c\<lparr>bh := (bh c)(i := f (bh c i))\<rparr>"

definition bhash :: "cache \<Rightarrow> nat \<Rightarrow> nat" where
  "bhash c i = hashfn (b_dev (bh c i)) (b_blocknr (bh c i))"

section \<open>Waiting, flushing, invalidating\<close>

fun wait_on_buffer :: "nat \<Rightarrow> env \<Rightarrow> cache \<Rightarrow> (env \<times> cache) kres" where
  "wait_on_buffer i [] c = (if b_lock (bh c i) then Inl Unfinished else Inr ([], c))"
| "wait_on_buffer i (e # es) c = (if b_lock (bh c i) then wait_on_buffer i es (e c) else Inr (e # es, c))"

text \<open>One pass over all buffers of \<open>sync_dev\<close>; \<open>sys_sync\<close> does not look at the device.\<close>

fun sync_pass :: "block_io \<Rightarrow> u16 \<Rightarrow> nat list \<Rightarrow> env \<Rightarrow> cache \<Rightarrow> (env \<times> cache) kres" where
  "sync_pass io dev [] es c = Inr (es, c)"
| "sync_pass io dev (i # is) es c =
     (if b_dev (bh c i) \<noteq> dev then sync_pass io dev is es c
      else kbind (wait_on_buffer i es c)
             (\<lambda>(es1, c1). kbind (if b_dev (bh c1 i) = dev \<and> b_dirt (bh c1 i) then io True i es1 c1 else Inr (es1, c1))
                (\<lambda>(es2, c2). sync_pass io dev is es2 c2)))"

fun sync_all :: "block_io \<Rightarrow> nat list \<Rightarrow> env \<Rightarrow> cache \<Rightarrow> (env \<times> cache) kres" where
  "sync_all io [] es c = Inr (es, c)"
| "sync_all io (i # is) es c =
     kbind (wait_on_buffer i es c)
       (\<lambda>(es1, c1). kbind (if b_dirt (bh c1 i) then io True i es1 c1 else Inr (es1, c1)) (\<lambda>(es2, c2). sync_all io is es2 c2))"

definition sys_sync :: "block_io \<Rightarrow> inode_sync
    \<Rightarrow> env \<Rightarrow> cache \<Rightarrow> (env \<times> cache) kres" where
  "sys_sync io si es c = kbind (si es c) (\<lambda>(es1, c1). sync_all io [0..<nr_buffers c1] es1 c1)"

definition sync_dev :: "block_io \<Rightarrow> inode_sync
    \<Rightarrow> u16 \<Rightarrow> env \<Rightarrow> cache \<Rightarrow> (env \<times> cache) kres" where
  "sync_dev io si dev es c =
     kbind (sync_pass io dev [0..<nr_buffers c] es c)
       (\<lambda>(es1, c1). kbind (si es1 c1)
          (\<lambda>(es2, c2). sync_pass io dev [0..<nr_buffers c2] es2 c2))"

fun invalidate_loop :: "u16 \<Rightarrow> nat list \<Rightarrow> env \<Rightarrow> cache \<Rightarrow> (env \<times> cache) kres" where
  "invalidate_loop dev [] es c = Inr (es, c)"
| "invalidate_loop dev (i # is) es c =
     (if b_dev (bh c i) \<noteq> dev then invalidate_loop dev is es c
      else kbind (wait_on_buffer i es c)
             (\<lambda>(es1, c1). invalidate_loop dev is es1
                (if b_dev (bh c1 i) = dev
                 then upd_bh i (\<lambda>b. b\<lparr>b_uptodate := False, b_dirt := False\<rparr>) c1 else c1)))"

definition invalidate_buffers :: "u16 \<Rightarrow> env \<Rightarrow> cache \<Rightarrow> (env \<times> cache) kres" where
  "invalidate_buffers dev es c = invalidate_loop dev [0..<nr_buffers c] es c"

section \<open>The queues\<close>

definition unhash :: "nat \<Rightarrow> cache \<Rightarrow> cache" where
  "unhash i c =
     (let c1 = (case b_next (bh c i) of None \<Rightarrow> c
                | Some j \<Rightarrow> upd_bh j (\<lambda>b. b\<lparr>b_prev := b_prev (bh c i)\<rparr>) c);
          c2 = (case b_prev (bh c1 i) of None \<Rightarrow> c1
                | Some j \<Rightarrow> upd_bh j (\<lambda>b. b\<lparr>b_next := b_next (bh c1 i)\<rparr>) c1)
      in if hash_table c2 (bhash c2 i) = Some i
         then c2\<lparr>hash_table := (hash_table c2)(bhash c2 i := b_next (bh c2 i))\<rparr> else c2)"

definition unlink_free :: "nat \<Rightarrow> cache \<Rightarrow> cache kres" where
  "unlink_free i c =
     (case (b_prev_free (bh c i), b_next_free (bh c i)) of
        (Some p, Some q) \<Rightarrow>
          let c1 = upd_bh p (\<lambda>b. b\<lparr>b_next_free := Some q\<rparr>) c;
              c2 = upd_bh q (\<lambda>b. b\<lparr>b_prev_free := Some p\<rparr>) c1
          in Inr (if free_list c2 = i then c2\<lparr>free_list := q\<rparr> else c2)
      | _ \<Rightarrow> Inl (Panic ''Free block list corrupted''))"

definition remove_from_queues :: "nat \<Rightarrow> cache \<Rightarrow> cache kres" where
  "remove_from_queues i c = unlink_free i (unhash i c)"

definition link_free :: "nat \<Rightarrow> cache \<Rightarrow> cache kres" where
  "link_free i c =
     (case b_prev_free (bh c (free_list c)) of
        None \<Rightarrow> Inl NullDeref
      | Some l \<Rightarrow>
          let c1 = upd_bh i (\<lambda>b. b\<lparr>b_next_free := Some (free_list c), b_prev_free := Some l\<rparr>) c;
              c2 = upd_bh l (\<lambda>b. b\<lparr>b_next_free := Some i\<rparr>) c1
          in Inr (upd_bh (free_list c) (\<lambda>b. b\<lparr>b_prev_free := Some i\<rparr>) c2))"

definition hash_in :: "nat \<Rightarrow> cache \<Rightarrow> cache" where
  "hash_in i c =
     (let c1 = upd_bh i (\<lambda>b. b\<lparr>b_prev := None, b_next := None\<rparr>) c
      in if b_dev (bh c1 i) = 0 then c1
         else
           let h = bhash c1 i;
               c2 = upd_bh i (\<lambda>b. b\<lparr>b_next := hash_table c1 h\<rparr>) c1;
               c3 = c2\<lparr>hash_table := (hash_table c2)(h := Some i)\<rparr>
           in (case b_next (bh c3 i) of None \<Rightarrow> c3 | Some j \<Rightarrow> upd_bh j (\<lambda>b. b\<lparr>b_prev := Some i\<rparr>) c3))"

definition insert_into_queues :: "nat \<Rightarrow> cache \<Rightarrow> cache kres" where
  "insert_into_queues i c = kbind (link_free i c) (\<lambda>c1. Inr (hash_in i c1))"

fun find_loop :: "nat \<Rightarrow> u16 \<Rightarrow> u32 \<Rightarrow> nat option \<Rightarrow> cache \<Rightarrow> nat option kres" where
  "find_loop fuel dev block None c = Inr None"
| "find_loop 0 dev block (Some i) c = Inl Unfinished"
| "find_loop (Suc fuel) dev block (Some i) c =
     (if b_dev (bh c i) = dev \<and> b_blocknr (bh c i) = block then Inr (Some i)
      else find_loop fuel dev block (b_next (bh c i)) c)"

text \<open>A hash queue holds at most every buffer, so this fuel is enough when the queues are sound.\<close>

definition find_buffer :: "u16 \<Rightarrow> u32 \<Rightarrow> cache \<Rightarrow> nat option kres" where
  "find_buffer dev block c = find_loop (nr_buffers c) dev block (hash_table c (hashfn dev block)) c"

section \<open>Getting and releasing buffers\<close>

definition count_up :: "nat \<Rightarrow> cache \<Rightarrow> cache" where
  "count_up i = upd_bh i (\<lambda>b. b\<lparr>b_count := b_count b + 1\<rparr>)"

definition count_down :: "nat \<Rightarrow> cache \<Rightarrow> cache" where
  "count_down i = upd_bh i (\<lambda>b. b\<lparr>b_count := b_count b - 1\<rparr>)"

fun get_hash_table :: "nat \<Rightarrow> u16 \<Rightarrow> u32 \<Rightarrow> env \<Rightarrow> cache \<Rightarrow> (nat option \<times> env \<times> cache) kres" where
  "get_hash_table 0 dev block es c = Inl Unfinished"
| "get_hash_table (Suc fuel) dev block es c =
     kbind (find_buffer dev block c)
       (\<lambda>r. case r of
          None \<Rightarrow> Inr (None, es, c)
        | Some i \<Rightarrow>
            kbind (wait_on_buffer i es (count_up i c))
              (\<lambda>(es1, c1). if b_dev (bh c1 i) = dev \<and> b_blocknr (bh c1 i) = block then Inr (Some i, es1, c1)
                           else get_hash_table fuel dev block es1 (count_down i c1)))"

definition BADNESS :: "cbuf \<Rightarrow> nat" where
  "BADNESS b = (if b_dirt b then 2 else 0) + (if b_lock b then 1 else 0)"

text \<open>The \<open>do ... while\<close> of \<open>getblk\<close> round the free list, from \<open>tmp\<close> with the best buffer so far.\<close>

fun scan_free :: "nat \<Rightarrow> nat \<Rightarrow> nat option \<Rightarrow> cache \<Rightarrow> nat option kres" where
  "scan_free 0 tmp best c = Inl Unfinished"
| "scan_free (Suc fuel) tmp best c =
     (let better = b_count (bh c tmp) = 0 \<and> (case best of None \<Rightarrow> True | Some b \<Rightarrow> BADNESS (bh c tmp) < BADNESS (bh c b));
          best' = (if better then Some tmp else best)
      in if better \<and> BADNESS (bh c tmp) = 0 then Inr best'
         else case b_next_free (bh c tmp) of
                None \<Rightarrow> Inl NullDeref
              | Some q \<Rightarrow> if q = free_list c then Inr best' else scan_free fuel q best' c)"

text \<open>Writing a dirty buffer out; \<open>True\<close> stands for \<open>goto repeat\<close>.\<close>

fun flush :: "nat \<Rightarrow> block_io \<Rightarrow> inode_sync \<Rightarrow> nat \<Rightarrow> env \<Rightarrow> cache
    \<Rightarrow> (bool \<times> env \<times> cache) kres" where
  "flush 0 io si i es c = Inl Unfinished"
| "flush (Suc fuel) io si i es c =
     (if \<not> b_dirt (bh c i) then Inr (False, es, c)
      else kbind (sync_dev io si (b_dev (bh c i)) es c)
             (\<lambda>(es1, c1). kbind (wait_on_buffer i es1 c1)
                (\<lambda>(es2, c2). if b_count (bh c2 i) \<noteq> 0 then Inr (True, es2, c2) else flush fuel io si i es2 c2)))"

definition reuse :: "nat \<Rightarrow> u16 \<Rightarrow> u32 \<Rightarrow> cache \<Rightarrow> cache kres" where
  "reuse i dev block c =
     kbind (remove_from_queues i (upd_bh i (\<lambda>b. b\<lparr>b_count := 1, b_dirt := False, b_uptodate := False\<rparr>) c))
       (\<lambda>c1. insert_into_queues i (upd_bh i (\<lambda>b. b\<lparr>b_dev := dev, b_blocknr := block\<rparr>) c1))"

fun getblk :: "nat \<Rightarrow> block_io \<Rightarrow> inode_sync \<Rightarrow> u16 \<Rightarrow> u32 \<Rightarrow> env \<Rightarrow> cache
    \<Rightarrow> (nat \<times> env \<times> cache) kres" where
  "getblk 0 io si dev block es c = Inl Unfinished"
| "getblk (Suc fuel) io si dev block es c =
     kbind (get_hash_table (Suc fuel) dev block es c)
       (\<lambda>(r, es1, c1). case r of
          Some i \<Rightarrow> Inr (i, es1, c1)
        | None \<Rightarrow>
            kbind (scan_free (nr_buffers c1) (free_list c1) None c1)
              (\<lambda>best. case best of
                 None \<Rightarrow> (case es1 of [] \<Rightarrow> Inl Unfinished | e # es2 \<Rightarrow> getblk fuel io si dev block es2 (e c1))
               | Some i \<Rightarrow>
                   kbind (wait_on_buffer i es1 c1)
                     (\<lambda>(es2, c2).
                        if b_count (bh c2 i) \<noteq> 0 then getblk fuel io si dev block es2 c2
                        else kbind (flush (Suc fuel) io si i es2 c2)
                               (\<lambda>(again, es3, c3).
                                  if again then getblk fuel io si dev block es3 c3
                                  else kbind (find_buffer dev block c3)
                                         (\<lambda>r'. case r' of
                                            Some j \<Rightarrow> getblk fuel io si dev block es3 c3
                                          | None \<Rightarrow> kbind (reuse i dev block c3) (\<lambda>c4. Inr (i, es3, c4)))))))"

text \<open>\<open>brelse\<close>; the wake-up of the tasks that wait for a free buffer is the caller's.\<close>

definition brelse :: "nat option \<Rightarrow> env \<Rightarrow> cache \<Rightarrow> (env \<times> cache) kres" where
  "brelse r es c =
     (case r of None \<Rightarrow> Inr (es, c)
      | Some i \<Rightarrow>
          kbind (wait_on_buffer i es c)
            (\<lambda>(es1, c1). if b_count (bh c1 i) = 0 then Inl (Panic ''Trying to free free buffer'')
                         else Inr (es1, count_down i c1)))"

definition bread :: "nat \<Rightarrow> block_io \<Rightarrow> inode_sync \<Rightarrow> u16 \<Rightarrow> u32 \<Rightarrow> env \<Rightarrow> cache
    \<Rightarrow> (nat option \<times> env \<times> cache) kres" where
  "bread fuel io si dev block es c =
     kbind (getblk fuel io si dev block es c)
       (\<lambda>(i, es1, c1).
          if b_uptodate (bh c1 i) then Inr (Some i, es1, c1)
          else kbind (io False i es1 c1)
                 (\<lambda>(es2, c2). kbind (wait_on_buffer i es2 c2)
                    (\<lambda>(es3, c3). if b_uptodate (bh c3 i) then Inr (Some i, es3, c3)
                                 else kbind (brelse (Some i) es3 c3) (\<lambda>(es4, c4). Inr (None, es4, c4)))))"

text \<open>\<open>breada\<close>: the blocks after the first are only asked for; \<open>READA\<close> may be dropped by the block layer.\<close>

fun read_ahead :: "nat \<Rightarrow> block_io \<Rightarrow> (nat \<Rightarrow> cache \<Rightarrow> cache) \<Rightarrow> inode_sync
    \<Rightarrow> u16 \<Rightarrow> u32 list \<Rightarrow> env \<Rightarrow> cache \<Rightarrow> (env \<times> cache) kres" where
  "read_ahead fuel io ioa si dev [] es c = Inr (es, c)"
| "read_ahead fuel io ioa si dev (b # bs) es c =
     kbind (getblk fuel io si dev b es c)
       (\<lambda>(i, es1, c1). read_ahead fuel io ioa si dev bs es1
          (count_down i (if b_uptodate (bh c1 i) then c1 else ioa i c1)))"

definition breada :: "nat \<Rightarrow> block_io \<Rightarrow> (nat \<Rightarrow> cache \<Rightarrow> cache) \<Rightarrow> inode_sync
    \<Rightarrow> u16 \<Rightarrow> u32 \<Rightarrow> u32 list \<Rightarrow> env \<Rightarrow> cache \<Rightarrow> (nat option \<times> env \<times> cache) kres" where
  "breada fuel io ioa si dev block ahead es c =
     kbind (getblk fuel io si dev block es c)
       (\<lambda>(i, es1, c1).
          kbind (if b_uptodate (bh c1 i) then Inr (es1, c1) else io False i es1 c1)
            (\<lambda>(es2, c2). kbind (read_ahead fuel io ioa si dev ahead es2 c2)
               (\<lambda>(es3, c3). kbind (wait_on_buffer i es3 c3)
                  (\<lambda>(es4, c4). if b_uptodate (bh c4 i) then Inr (Some i, es4, c4)
                               else kbind (brelse (Some i) es4 c4) (\<lambda>(es5, c5). Inr (None, es5, c5))))))"

section \<open>Initialisation\<close>

text \<open>
  The addresses of the data blocks, from the end of the buffer memory down, while the next header
  (of \<open>hdr\<close> bytes) still fits below; the memory from 640 KB to 1 MB is left out.
\<close>

function init_blocks :: "nat \<Rightarrow> nat \<Rightarrow> nat \<Rightarrow> nat list" where
  "init_blocks hdr b h =
     (if b < 1024 \<or> b - 1024 < h + hdr then []
      else (b - 1024) # init_blocks hdr (if b - 1024 = 0x100000 then 0xA0000 else b - 1024) (h + hdr))"
  by pat_completeness auto
termination by (relation "measure (\<lambda>(hdr, b, h). b)") auto

declare init_blocks.simps [simp del]

definition sizeof_buffer_head :: nat where "sizeof_buffer_head = 36"

definition buffer_init :: "nat \<Rightarrow> nat \<Rightarrow> cache \<Rightarrow> cache" where
  "buffer_init start buffer_end c =
     (let n = length (init_blocks sizeof_buffer_head (if buffer_end = 0x100000 then 640 * 1024 else buffer_end) start);
          fresh = (\<lambda>i. (bh c i)\<lparr>b_dev := 0, b_dirt := False, b_count := 0, b_lock := False, b_uptodate := False,
                      b_next := None, b_prev := None, b_prev_free := Some (i - 1), b_next_free := Some (i + 1)\<rparr>);
          heads = (\<lambda>i. if i < n then fresh i else bh c i);
          first = heads(0 := (heads 0)\<lparr>b_prev_free := Some (n - 1)\<rparr>)
      in c\<lparr>bh := first(n - 1 := (first (n - 1))\<lparr>b_next_free := Some 0\<rparr>),
           nr_buffers := n, free_list := 0, hash_table := (\<lambda>h. if h < NR_HASH then None else hash_table c h)\<rparr>)"

end
