(* ===== verification/Cache.thy ===== *)
theory Cache
  imports Buffer
begin

text \<open>
  The queues of the buffer cache represent lists: the ring of buffers from the least recently used
  one on, and one list for each hash value. Every operation keeps the representation, and
  \<open>getblk\<close> keeps at most one buffer for a block, whatever happens while it sleeps.
\<close>

section \<open>Rings\<close>

text \<open>From \<open>a\<close> the links lead through \<open>xs\<close> to \<open>b\<close>, and back.\<close>

fun links :: "(nat \<Rightarrow> nat option) \<Rightarrow> (nat \<Rightarrow> nat option) \<Rightarrow> nat \<Rightarrow> nat list \<Rightarrow> nat \<Rightarrow> bool" where
  "links nx pv a [] b \<longleftrightarrow> nx a = Some b \<and> pv b = Some a"
| "links nx pv a (x # xs) b \<longleftrightarrow> nx a = Some x \<and> pv x = Some a \<and> links nx pv x xs b"

lemma links_append: "links nx pv a (xs @ y # ys) b \<longleftrightarrow> links nx pv a xs y \<and> links nx pv y ys b"
  by (induction xs arbitrary: a) auto

lemma links_cong:
  "links nx pv a xs b \<Longrightarrow> (\<And>x. x \<in> insert a (set xs) \<Longrightarrow> nx' x = nx x) \<Longrightarrow>
    (\<And>x. x \<in> insert b (set xs) \<Longrightarrow> pv' x = pv x) \<Longrightarrow> links nx' pv' a xs b"
  by (induction xs arbitrary: a) auto

lemma links_last: "links nx pv a xs b \<Longrightarrow> nx (last (a # xs)) = Some b \<and> pv b = Some (last (a # xs))"
  by (induction xs arbitrary: a) auto

lemma links_first: "links nx pv a xs b \<Longrightarrow> nx a = Some (hd (xs @ [b])) \<and> pv (hd (xs @ [b])) = Some a"
  by (cases xs) auto

lemma links_redirect_end:
  assumes "links nx pv a xs b" and "distinct (a # xs)" and "c \<notin> set xs"
  shows "links (nx(last (a # xs) := Some c)) (pv(c := Some (last (a # xs)))) a xs c"
  using assms
proof (induction xs arbitrary: a)
  case Nil
  then show ?case by simp
next
  case (Cons x xs)
  define l where "l = last (x # xs)"
  have l: "l \<in> set (x # xs)" unfolding l_def by (rule last_in_set) simp
  have "links (nx(l := Some c)) (pv(c := Some l)) x xs c"
    unfolding l_def by (rule Cons.IH) (use Cons.prems in auto)
  moreover have "a \<noteq> l" "c \<noteq> x" using l Cons.prems by auto
  moreover have e: "last (a # x # xs) = l" by (simp add: l_def)
  ultimately show ?case using Cons.prems(1) unfolding e links.simps by simp
qed

text \<open>Taking a node out of a path, and putting one at the end of a ring.\<close>

lemma links_remove:
  assumes "links nx pv a (us @ i # vs) b" and "distinct (a # us @ i # vs)" and "b \<notin> set (us @ i # vs)"
  shows "nx i = Some (hd (vs @ [b]))" and "pv i = Some (last (a # us))"
    and "links (nx(last (a # us) := nx i)) (pv(hd (vs @ [b]) := pv i)) a (us @ vs) b"
proof -
  from assms(1) have l: "links nx pv a us i" "links nx pv i vs b" by (simp_all add: links_append)
  show n: "nx i = Some (hd (vs @ [b]))" and p: "pv i = Some (last (a # us))"
    using links_first[OF l(2)] links_last[OF l(1)] by simp_all
  show "links (nx(last (a # us) := nx i)) (pv(hd (vs @ [b]) := pv i)) a (us @ vs) b"
  proof (cases vs)
    case Nil
    have "links (nx(last (a # us) := Some b)) (pv(b := Some (last (a # us)))) a us b"
      by (rule links_redirect_end[OF l(1)]) (use assms in auto)
    then show ?thesis using Nil n p by simp
  next
    case (Cons y ys)
    have 1: "links (nx(last (a # us) := Some y)) (pv(y := Some (last (a # us)))) a us y"
      by (rule links_redirect_end[OF l(1)]) (use assms Cons in auto)
    define p where "p = last (a # us)"
    have "p \<in> set (a # us)" unfolding p_def by (rule last_in_set) simp
    then have pn: "p \<noteq> y" "p \<notin> set ys" using assms(2) Cons by auto
    have "links nx pv y ys b" using l(2) Cons by simp
    then have "links (nx(p := Some y)) (pv(y := Some p)) y ys b"
      by (rule links_cong) (use assms Cons pn in auto)
    then have 2: "links (nx(last (a # us) := Some y)) (pv(y := Some (last (a # us)))) y ys b"
      unfolding p_def .
    from 1 2 show ?thesis using Cons n p by (simp add: links_append)
  qed
qed

lemma ring_insert:
  assumes "links nx pv h t h" and "distinct (h # t)" and "i \<notin> set (h # t)" and "l = last (h # t)"
  shows "links (nx(i := Some h, l := Some i)) (pv(i := Some l, h := Some i)) h (t @ [i]) h"
proof -
  have "links (nx(l := Some i)) (pv(i := Some l)) h t i"
    unfolding assms(4) by (rule links_redirect_end[OF assms(1,2)]) (use assms in auto)
  then have "links (nx(i := Some h, l := Some i)) (pv(i := Some l, h := Some i)) h t i"
    by (rule links_cong) (use assms in auto)
  moreover have "i \<noteq> l" "i \<noteq> h" using assms by auto
  ultimately show ?thesis by (simp add: links_append)
qed

text \<open>Turning a ring by one.\<close>

lemma ring_rotate:
  assumes "links nx pv h (x # xs) h"
  shows "links nx pv x (xs @ [h]) x"
  using assms by (simp add: links_append)

definition ring :: "(nat \<Rightarrow> nat option) \<Rightarrow> (nat \<Rightarrow> nat option) \<Rightarrow> nat list \<Rightarrow> bool" where
  "ring nx pv fl \<longleftrightarrow> fl \<noteq> [] \<and> distinct fl \<and> links nx pv (hd fl) (tl fl) (hd fl)"

text \<open>What \<open>remove_from_queues\<close> and \<open>insert_into_queues\<close> do to the ring: the buffer becomes the last one.\<close>

lemma ring_to_tail:
  assumes r: "ring nx pv fl" and i: "i \<in> set fl"
  obtains p q where "nx i = Some q" and "pv i = Some p" and "p \<in> set fl" and "q \<in> set fl"
    and "q = (if hd fl = i then hd (tl fl @ [i]) else q)"
    and "let nx1 = nx(p := Some q); pv1 = pv(q := Some p); h = (if hd fl = i then q else hd fl)
         in \<exists>l. pv1 h = Some l \<and> l \<in> set fl \<and> h \<in> set fl \<and> h = hd (remove1 i fl @ [i])
            \<and> ring (nx1(i := Some h, l := Some i)) (pv1(i := Some l, h := Some i)) (remove1 i fl @ [i])"
proof (cases fl)
  case Nil
  with i show ?thesis by simp
next
  case (Cons h t)
  from r Cons have l: "links nx pv h t h" and d: "distinct (h # t)" by (simp_all add: ring_def)
  show ?thesis
  proof (cases "h = i")
    case True
    show ?thesis
    proof (cases t)
      case Nil
      with l True have "nx i = Some i" "pv i = Some i" by simp_all
      then show ?thesis by (intro that[of i i]) (simp_all add: Cons Nil True ring_def Let_def)
    next
      case (Cons x xs)
      have fl: "fl = i # x # xs" using \<open>fl = h # t\<close> Cons True by simp
      from l Cons True have a: "nx i = Some x" "pv x = Some i" and lx: "links nx pv x xs i" by simp_all
      have z: "pv i = Some (last (x # xs))" using links_last[OF lx] by simp
      let ?l = "last (x # xs)"
      have dd: "distinct (i # x # xs)" using d Cons True by simp
      have closed: "links (nx(?l := Some x)) (pv(x := Some ?l)) x xs x"
        by (rule links_redirect_end[OF lx]) (use dd in auto)
      have "links ((nx(?l := Some x))(i := Some x, ?l := Some i)) ((pv(x := Some ?l))(i := Some ?l, x := Some i)) x (xs @ [i]) x"
        by (rule ring_insert[OF closed]) (use dd in auto)
      then show ?thesis
        using a z dd by (intro that[of x ?l]) (auto simp: fl ring_def Let_def)
    qed
  next
    case False
    with i Cons obtain us vs where t: "t = us @ i # vs" by (auto simp: in_set_conv_decomp)
    let ?p = "last (h # us)" and ?q = "hd (vs @ [h])"
    have hn: "h \<notin> set (us @ i # vs)" "distinct (h # us @ i # vs)" using d t by simp_all
    note rm = links_remove[OF l[unfolded t] hn(2,1)]
    let ?nx = "nx(?p := Some ?q)" and ?pv = "pv(?q := Some ?p)"
    have lk: "links ?nx ?pv h (us @ vs) h" using rm by simp
    define m where "m = last (h # us @ vs)"
    have pm: "?pv h = Some m" using links_last[OF lk] unfolding m_def by blast
    have "links (?nx(i := Some h, m := Some i)) (?pv(i := Some m, h := Some i)) h ((us @ vs) @ [i]) h"
      by (rule ring_insert[OF lk _ _ m_def]) (use hn in auto)
    moreover have rem: "remove1 i fl = h # us @ vs" using False hn by (simp add: Cons t remove1_append)
    moreover have "m \<in> set (h # us @ vs)" "?p \<in> set (h # us)" unfolding m_def by (rule last_in_set, simp)+
    then have "m \<in> set fl" "?p \<in> set fl" unfolding Cons t by auto
    moreover have "?q \<in> set fl" unfolding Cons t by (cases vs) auto
    ultimately show ?thesis
      using rm(1,2) pm hn False by (intro that[of ?q ?p]) (auto simp: Cons t ring_def Let_def)
  qed
qed

section \<open>The hash queues\<close>

abbreviation nxh :: "cache \<Rightarrow> nat \<Rightarrow> nat option" where "nxh c \<equiv> \<lambda>i. b_next (bh c i)"
abbreviation pvh :: "cache \<Rightarrow> nat \<Rightarrow> nat option" where "pvh c \<equiv> \<lambda>i. b_prev (bh c i)"
abbreviation nxf :: "cache \<Rightarrow> nat \<Rightarrow> nat option" where "nxf c \<equiv> \<lambda>i. b_next_free (bh c i)"
abbreviation pvf :: "cache \<Rightarrow> nat \<Rightarrow> nat option" where "pvf c \<equiv> \<lambda>i. b_prev_free (bh c i)"

lemma hashfn_less: "hashfn dev block < NR_HASH"
  by (simp add: hashfn_def NR_HASH_def unat_mod)

text \<open>The queues \<open>ch\<close> hold the buffers of \<open>S\<close>, each in the queue of its hash value.\<close>

definition hash_links :: "cache \<Rightarrow> (nat \<Rightarrow> nat list) \<Rightarrow> nat set \<Rightarrow> bool" where
  "hash_links c ch S \<longleftrightarrow> (\<forall>h<NR_HASH. chain (nxh c) (hash_table c h) (ch h) \<and> back_chain (pvh c) None (ch h)
     \<and> distinct (ch h) \<and> set (ch h) = {i\<in>S. bhash c i = h})"

lemma hash_links_cong:
  assumes "hash_links c ch S" and "hash_table c' = hash_table c"
    and "\<And>i. i \<in> S \<Longrightarrow> nxh c' i = nxh c i \<and> pvh c' i = pvh c i \<and> bhash c' i = bhash c i"
  shows "hash_links c' ch S"
  unfolding hash_links_def
proof (intro allI impI)
  fix h assume "h < NR_HASH"
  with assms(1) have *: "chain (nxh c) (hash_table c h) (ch h)" "back_chain (pvh c) None (ch h)" "distinct (ch h)"
    "set (ch h) = {i\<in>S. bhash c i = h}" by (simp_all add: hash_links_def)
  then have "\<And>i. i \<in> set (ch h) \<Longrightarrow> nxh c' i = nxh c i \<and> pvh c' i = pvh c i" using assms(3) by blast
  with * assms(2,3) show "chain (nxh c') (hash_table c' h) (ch h) \<and> back_chain (pvh c') None (ch h) \<and> distinct (ch h)
      \<and> set (ch h) = {i\<in>S. bhash c' i = h}"
    using chain_cong[of "ch h" "nxh c'" "nxh c" "hash_table c h"] back_chain_cong[of "ch h" "pvh c'" "pvh c" None] by auto
qed

lemma chain_removed:
  assumes c: "chain nx hd0 (us @ i # vs)" and b: "back_chain pv None (us @ i # vs)" and d: "distinct (us @ i # vs)"
    and nx': "nx' = (case pv i of None \<Rightarrow> nx | Some p \<Rightarrow> nx(p := nx i))"
    and pv': "pv' = (case nx i of None \<Rightarrow> pv | Some n \<Rightarrow> pv(n := pv i))"
  shows "chain nx' (if hd0 = Some i then nx i else hd0) (us @ vs)" and "back_chain pv' None (us @ vs)"
    and "pv i = last_opt us" and "nx i = (case vs of [] \<Rightarrow> None | v # _ \<Rightarrow> Some v)" and "hd0 = Some i \<longleftrightarrow> us = []"
proof -
  obtain m where m: "seg nx hd0 us m" "chain nx m (i # vs)" using c by (auto simp: chain_append)
  then have sg: "seg nx hd0 us (Some i)" and cv: "chain nx (nx i) vs" by simp_all
  show pi: "pv i = last_opt us" using b by (simp add: back_chain_append last_opt_def)
  show ni: "nx i = (case vs of [] \<Rightarrow> None | v # _ \<Rightarrow> Some v)" using cv by (cases vs) auto
  show h: "hd0 = Some i \<longleftrightarrow> us = []" using sg d by (cases us) auto
  show "chain nx' (if hd0 = Some i then nx i else hd0) (us @ vs)"
  proof (cases "us = []")
    case True
    with pi nx' h cv show ?thesis by (simp add: last_opt_def)
  next
    case False
    then have e: "nx' = nx(last us := nx i)" using pi nx' by (simp add: last_opt_def)
    have "seg nx' hd0 us (nx i)" unfolding e by (rule seg_upd_last[OF sg False]) (use d in auto)
    moreover have "last us \<notin> set vs" using d False by (auto dest: last_in_set)
    then have "chain nx' (nx i) vs = chain nx (nx i) vs" by (intro chain_cong) (auto simp: e)
    with cv have "chain nx' (nx i) vs" by simp
    ultimately show ?thesis using False h by (auto simp: chain_append)
  qed
  show "back_chain pv' None (us @ vs)"
  proof (cases vs)
    case Nil
    with b ni pv' show ?thesis by (simp add: back_chain_append)
  next
    case (Cons v ws)
    then have e: "pv' = pv(v := last_opt us)" using ni pi pv' by simp
    have "back_chain pv' None us = back_chain pv None us" "back_chain pv' (Some v) ws = back_chain pv (Some v) ws"
      by (rule back_chain_cong; use d Cons in \<open>auto simp: e\<close>)+
    with b Cons have "back_chain pv' None us" "back_chain pv' (Some v) ws" by (simp_all add: back_chain_append)
    then show ?thesis unfolding Cons back_chain_append by (simp add: e last_opt_def)
  qed
qed

lemma unhash_links:
  assumes l: "hash_links c ch S" and i: "i \<in> S"
  shows "hash_links (unhash i c) (\<lambda>h. remove1 i (ch h)) (S - {i})"
    and "bh (unhash i c) j = (bh c j)\<lparr>b_prev := pvh (unhash i c) j, b_next := nxh (unhash i c) j\<rparr>"
    and "nr_buffers (unhash i c) = nr_buffers c" and "free_list (unhash i c) = free_list c"
    and "j \<notin> S \<Longrightarrow> bh (unhash i c) j = bh c j"
proof -
  let ?h = "bhash c i"
  have hl: "?h < NR_HASH" by (simp add: bhash_def hashfn_less)
  from l hl have h: "chain (nxh c) (hash_table c ?h) (ch ?h)" "back_chain (pvh c) None (ch ?h)" "distinct (ch ?h)"
    and hs: "set (ch ?h) = {j\<in>S. bhash c j = ?h}" by (simp_all add: hash_links_def)
  have "i \<in> set (ch ?h)" using hs i by simp
  then obtain us vs where uv: "ch ?h = us @ i # vs" by (auto simp: in_set_conv_decomp)
  note r = chain_removed[OF h[unfolded uv] refl refl]
  define n where "n = nxh c i" define p where "p = pvh c i"
  have np: "n \<noteq> Some i" "p \<noteq> Some i"
    using r(3,4) h(3) uv by (auto simp: n_def p_def last_opt_def split: list.splits dest: last_in_set)
  have nS: "\<And>j. n = Some j \<or> p = Some j \<Longrightarrow> j \<in> S \<and> bhash c j = ?h"
  proof -
    fix j assume "n = Some j \<or> p = Some j"
    then have "j \<in> set us \<union> set vs"
      using r(3,4) by (auto simp: n_def p_def last_opt_def split: list.splits if_splits)
    then show "j \<in> S \<and> bhash c j = ?h" using hs uv by auto
  qed
  have bh': "bh (unhash i c) = (\<lambda>j. (bh c j)\<lparr>b_prev := (if n = Some j then p else pvh c j),
                                               b_next := (if p = Some j then n else nxh c j)\<rparr>)"
    using np unfolding unhash_def Let_def n_def[symmetric] 
    by (auto simp: upd_bh_def fun_eq_iff p_def n_def split: option.splits)
  have ht: "hash_table (unhash i c) = (hash_table c)(?h := if hash_table c ?h = Some i then n else hash_table c ?h)"
    using np unfolding unhash_def Let_def
    by (auto simp: upd_bh_def fun_eq_iff p_def n_def bhash_def split: option.splits)
  show "nr_buffers (unhash i c) = nr_buffers c" and "free_list (unhash i c) = free_list c"
    by (auto simp: unhash_def Let_def upd_bh_def split: option.splits)
  show "bh (unhash i c) j = (bh c j)\<lparr>b_prev := pvh (unhash i c) j, b_next := nxh (unhash i c) j\<rparr>" by (simp add: bh')
  show "j \<notin> S \<Longrightarrow> bh (unhash i c) j = bh c j" using nS by (auto simp: bh')
  have bhash': "bhash (unhash i c) = bhash c" by (simp add: bhash_def bh' fun_eq_iff)
  have nx': "nxh (unhash i c) = (case pvh c i of None \<Rightarrow> nxh c | Some q \<Rightarrow> (nxh c)(q := nxh c i))"
    and pv': "pvh (unhash i c) = (case nxh c i of None \<Rightarrow> pvh c | Some q \<Rightarrow> (pvh c)(q := pvh c i))"
    by (auto simp: bh' n_def p_def fun_eq_iff split: option.splits)
  show "hash_links (unhash i c) (\<lambda>h. remove1 i (ch h)) (S - {i})"
    unfolding hash_links_def
  proof (intro allI impI)
    fix h assume hn: "h < NR_HASH"
    show "chain (nxh (unhash i c)) (hash_table (unhash i c) h) (remove1 i (ch h)) \<and> back_chain (pvh (unhash i c)) None (remove1 i (ch h))
        \<and> distinct (remove1 i (ch h)) \<and> set (remove1 i (ch h)) = {j\<in>S - {i}. bhash (unhash i c) j = h}"
    proof (cases "h = ?h")
      case True
      have "remove1 i (ch h) = us @ vs" using uv h(3) True by (auto simp: remove1_append)
      moreover have "distinct (us @ vs)" "set (us @ vs) = {j\<in>S - {i}. bhash c j = h}" using uv h(3) hs True by auto
      moreover note chain_removed(1,2)[OF h[unfolded uv] nx' pv']
      moreover have "hash_table (unhash i c) h = (if hash_table c ?h = Some i then nxh c i else hash_table c ?h)"
        by (simp add: ht n_def True)
      ultimately show ?thesis by (simp only: bhash')
    next
      case False
      from l hn have o: "chain (nxh c) (hash_table c h) (ch h)" "back_chain (pvh c) None (ch h)" "distinct (ch h)"
        "set (ch h) = {j\<in>S. bhash c j = h}" by (simp_all add: hash_links_def)
      then have ni: "i \<notin> set (ch h)" using False by auto
      have same: "nxh (unhash i c) j = nxh c j \<and> pvh (unhash i c) j = pvh c j" if "j \<in> set (ch h)" for j
        using that o(4) nS[of j] False by (auto simp: bh')
      have "chain (nxh (unhash i c)) (hash_table c h) (ch h)" "back_chain (pvh (unhash i c)) None (ch h)"
        using o(1,2) same by (auto cong: chain_cong back_chain_cong)
      then show ?thesis using o ni False by (auto simp: remove1_idem ht bhash')
    qed
  qed
qed

lemma hash_in_zero:
  assumes "hash_links c ch S" and "i \<notin> S" and "b_dev (bh c i) = 0"
  shows "hash_links (hash_in i c) ch S" and "hash_in i c = upd_bh i (\<lambda>b. b\<lparr>b_prev := None, b_next := None\<rparr>) c"
proof -
  show e: "hash_in i c = upd_bh i (\<lambda>b. b\<lparr>b_prev := None, b_next := None\<rparr>) c"
    using assms(3) by (simp add: hash_in_def Let_def upd_bh_def)
  show "hash_links (hash_in i c) ch S"
    by (rule hash_links_cong[OF assms(1)]) (use assms(2) in \<open>auto simp: e upd_bh_def bhash_def\<close>)
qed

lemma hash_in_links:
  assumes l: "hash_links c ch S" and i: "i \<notin> S" and d: "b_dev (bh c i) \<noteq> 0"
  shows "hash_links (hash_in i c) (ch(bhash c i := i # ch (bhash c i))) (insert i S)"
    and "bh (hash_in i c) j = (bh c j)\<lparr>b_prev := pvh (hash_in i c) j, b_next := nxh (hash_in i c) j\<rparr>"
    and "nr_buffers (hash_in i c) = nr_buffers c" and "free_list (hash_in i c) = free_list c"
    and "j \<noteq> i \<Longrightarrow> j \<notin> S \<Longrightarrow> bh (hash_in i c) j = bh c j"
proof -
  let ?h = "bhash c i"
  define n where "n = hash_table c ?h"
  have hl: "?h < NR_HASH" by (simp add: bhash_def hashfn_less)
  from l hl have q: "chain (nxh c) n (ch ?h)" "back_chain (pvh c) None (ch ?h)" "distinct (ch ?h)"
    and hs: "set (ch ?h) = {j\<in>S. bhash c j = ?h}" by (simp_all add: hash_links_def n_def)
  have ni: "i \<notin> set (ch ?h)" using hs i by simp
  have nc: "n = (case ch ?h of [] \<Rightarrow> None | v # _ \<Rightarrow> Some v)" using q(1) by (cases "ch ?h") auto
  have nS: "n = Some j \<Longrightarrow> j \<in> S \<and> bhash c j = ?h" for j using nc hs by (auto split: list.splits)
  have ini: "n \<noteq> Some i" using nS i by blast
  have b': "bh (hash_in i c) = (\<lambda>j. (bh c j)\<lparr>b_prev := (if j = i then None else if n = Some j then Some i else pvh c j),
                                             b_next := (if j = i then n else nxh c j)\<rparr>)"
    using d ini by (auto simp: hash_in_def Let_def upd_bh_def fun_eq_iff n_def bhash_def split: option.splits)
  have t': "hash_table (hash_in i c) = (hash_table c)(?h := Some i)"
    using d by (auto simp: hash_in_def Let_def upd_bh_def bhash_def split: option.splits)
  show "nr_buffers (hash_in i c) = nr_buffers c" and "free_list (hash_in i c) = free_list c"
    by (auto simp: hash_in_def Let_def upd_bh_def split: option.splits)
  show "bh (hash_in i c) j = (bh c j)\<lparr>b_prev := pvh (hash_in i c) j, b_next := nxh (hash_in i c) j\<rparr>" by (simp add: b')
  show "j \<noteq> i \<Longrightarrow> j \<notin> S \<Longrightarrow> bh (hash_in i c) j = bh c j" using nS by (auto simp: b')
  have bhash': "bhash (hash_in i c) = bhash c" by (simp add: bhash_def b' fun_eq_iff)
  show "hash_links (hash_in i c) (ch(?h := i # ch ?h)) (insert i S)"
    unfolding hash_links_def
  proof (intro allI impI)
    fix h assume hn: "h < NR_HASH"
    let ?l = "(ch(?h := i # ch ?h)) h"
    show "chain (nxh (hash_in i c)) (hash_table (hash_in i c) h) ?l \<and> back_chain (pvh (hash_in i c)) None ?l
        \<and> distinct ?l \<and> set ?l = {j\<in>insert i S. bhash (hash_in i c) j = h}"
    proof (cases "h = ?h")
      case True
      have "chain (nxh (hash_in i c)) n (ch ?h) = chain (nxh c) n (ch ?h)"
        by (rule chain_cong) (use ni in \<open>auto simp: b'\<close>)
      moreover have "back_chain (pvh (hash_in i c)) (Some i) (ch ?h)"
        by (rule back_chain_replace[OF q(2,3)]) (use ni nc q(3) in \<open>auto simp: b' split: list.splits\<close>)
      moreover have "nxh (hash_in i c) i = n" "pvh (hash_in i c) i = None" by (simp_all add: b')
      ultimately show ?thesis using True q ni hs by (auto simp: t' bhash')
    next
      case False
      from l hn have o: "chain (nxh c) (hash_table c h) (ch h)" "back_chain (pvh c) None (ch h)" "distinct (ch h)"
        "set (ch h) = {j\<in>S. bhash c j = h}" by (simp_all add: hash_links_def)
      have same: "nxh (hash_in i c) j = nxh c j \<and> pvh (hash_in i c) j = pvh c j" if "j \<in> set (ch h)" for j
        using that o(4) nS[of j] False i by (auto simp: b')
      have "chain (nxh (hash_in i c)) (hash_table c h) (ch h)" "back_chain (pvh (hash_in i c)) None (ch h)"
        using o(1,2) same by (auto cong: chain_cong back_chain_cong)
      then show ?thesis using o False by (auto simp: t' bhash')
    qed
  qed
qed

section \<open>The representation\<close>

definition hashed :: "cache \<Rightarrow> nat set" where
  "hashed c = {i. i < nr_buffers c \<and> b_dev (bh c i) \<noteq> 0}"

definition cache_rep :: "cache \<Rightarrow> nat list \<Rightarrow> (nat \<Rightarrow> nat list) \<Rightarrow> bool" where
  "cache_rep c fl ch \<longleftrightarrow> ring (nxf c) (pvf c) fl \<and> set fl = {..<nr_buffers c} \<and> free_list c = hd fl
     \<and> hash_links c ch (hashed c) \<and> (\<forall>i<nr_buffers c. b_dev (bh c i) = 0 \<longrightarrow> nxh c i = None \<and> pvh c i = None)"

text \<open>What is left of a buffer head without its links.\<close>

definition core :: "cbuf \<Rightarrow> cbuf" where
  "core b = b\<lparr>b_prev := None, b_next := None, b_prev_free := None, b_next_free := None\<rparr>"

lemma core_fields [simp]:
  "b_dev (core b) = b_dev b" "b_blocknr (core b) = b_blocknr b" "b_count (core b) = b_count b" "b_lock (core b) = b_lock b"
  "b_dirt (core b) = b_dirt b" "b_uptodate (core b) = b_uptodate b" "b_data (core b) = b_data b"
  by (simp_all add: core_def)

lemma core_eqD:
  assumes "core x = core y"
  shows "b_dev x = b_dev y \<and> b_blocknr x = b_blocknr y \<and> b_count x = b_count y \<and> b_lock x = b_lock y
     \<and> b_dirt x = b_dirt y \<and> b_uptodate x = b_uptodate y \<and> b_data x = b_data y"
  using core_fields[of x, unfolded assms] by (simp only: core_fields)

lemma hash_links_core:
  assumes "hash_links c ch S" and "hash_table c' = hash_table c"
    and "\<And>i. i \<in> S \<Longrightarrow> nxh c' i = nxh c i \<and> pvh c' i = pvh c i \<and> core (bh c' i) = core (bh c i)"
  shows "hash_links c' ch S"
proof (rule hash_links_cong[OF assms(1,2)])
  fix i assume "i \<in> S"
  note a = assms(3)[OF this]
  then have "core (bh c' i) = core (bh c i)" by simp
  from core_eqD[OF this] a show "nxh c' i = nxh c i \<and> pvh c' i = pvh c i \<and> bhash c' i = bhash c i"
    by (simp add: bhash_def)
qed

lemma unhash_rep:
  assumes r: "hash_links c ch (hashed c)" and z: "\<forall>i<nr_buffers c. b_dev (bh c i) = 0 \<longrightarrow> nxh c i = None \<and> pvh c i = None"
    and i: "i < nr_buffers c"
  shows "hash_links (unhash i c) (\<lambda>h. remove1 i (ch h)) (hashed c - {i})"
    and "core (bh (unhash i c) j) = core (bh c j)" and "nxf (unhash i c) = nxf c" and "pvf (unhash i c) = pvf c"
    and "nr_buffers (unhash i c) = nr_buffers c" and "free_list (unhash i c) = free_list c"
    and "j \<notin> hashed c \<Longrightarrow> bh (unhash i c) j = bh c j"
proof -
  have *: "hash_links (unhash i c) (\<lambda>h. remove1 i (ch h)) (hashed c - {i})
    \<and> (\<forall>j. bh (unhash i c) j = (bh c j)\<lparr>b_prev := pvh (unhash i c) j, b_next := nxh (unhash i c) j\<rparr>)
    \<and> nr_buffers (unhash i c) = nr_buffers c \<and> free_list (unhash i c) = free_list c
    \<and> (\<forall>j. j \<notin> hashed c \<longrightarrow> bh (unhash i c) j = bh c j)"
  proof (cases "i \<in> hashed c")
    case True
    from unhash_links[OF r True] show ?thesis by blast
  next
    case False
    then have "b_dev (bh c i) = 0" using i by (simp add: hashed_def)
    with z i have n: "nxh c i = None" "pvh c i = None" by simp_all
    have ht: "hash_table c (bhash c i) \<noteq> Some i"
    proof
      assume a: "hash_table c (bhash c i) = Some i"
      have "bhash c i < NR_HASH" by (simp add: bhash_def hashfn_less)
      with r have "chain (nxh c) (hash_table c (bhash c i)) (ch (bhash c i))"
        and "set (ch (bhash c i)) = {j\<in>hashed c. bhash c j = bhash c i}" by (simp_all add: hash_links_def)
      with a False show False by (cases "ch (bhash c i)") auto
    qed
    have "unhash i c = c" using n ht by (simp add: unhash_def)
    moreover have "(\<lambda>h. remove1 i (ch h)) h = ch h" if "h < NR_HASH" for h
      using r that False by (auto simp: hash_links_def remove1_idem)
    ultimately show ?thesis using r False by (auto simp: hash_links_def)
  qed
  then have b: "bh (unhash i c) j = (bh c j)\<lparr>b_prev := pvh (unhash i c) j, b_next := nxh (unhash i c) j\<rparr>" for j by blast
  show "core (bh (unhash i c) j) = core (bh c j)" by (subst b) (simp add: core_def)
  show "nxf (unhash i c) = nxf c" "pvf (unhash i c) = pvf c" by (rule ext, subst b, simp)+
  show "hash_links (unhash i c) (\<lambda>h. remove1 i (ch h)) (hashed c - {i})" "nr_buffers (unhash i c) = nr_buffers c"
    "free_list (unhash i c) = free_list c" "j \<notin> hashed c \<Longrightarrow> bh (unhash i c) j = bh c j"
    using * by blast+
qed

lemma unlink_free_links:
  assumes "nxf c i = Some q" and "pvf c i = Some p"
  obtains c' where "unlink_free i c = Inr c'"
    and "nxf c' = (nxf c)(p := Some q)" and "pvf c' = (pvf c)(q := Some p)"
    and "free_list c' = (if free_list c = i then q else free_list c)"
    and "nr_buffers c' = nr_buffers c" and "hash_table c' = hash_table c"
    and "nxh c' = nxh c" and "pvh c' = pvh c" and "\<And>j. core (bh c' j) = core (bh c j)"
  using assms
  by (intro that[of "let c1 = upd_bh p (\<lambda>b. b\<lparr>b_next_free := Some q\<rparr>) c; c2 = upd_bh q (\<lambda>b. b\<lparr>b_prev_free := Some p\<rparr>) c1
         in if free_list c2 = i then c2\<lparr>free_list := q\<rparr> else c2"])
    (auto simp: unlink_free_def Let_def upd_bh_def fun_eq_iff core_def)

lemma link_free_links:
  assumes "pvf c (free_list c) = Some l"
  obtains c' where "link_free i c = Inr c'"
    and "nxf c' = (nxf c)(i := Some (free_list c), l := Some i)" and "pvf c' = (pvf c)(i := Some l, free_list c := Some i)"
    and "free_list c' = free_list c" and "nr_buffers c' = nr_buffers c" and "hash_table c' = hash_table c"
    and "nxh c' = nxh c" and "pvh c' = pvh c" and "\<And>j. core (bh c' j) = core (bh c j)"
  using assms
  by (intro that[of "let c1 = upd_bh i (\<lambda>b. b\<lparr>b_next_free := Some (free_list c), b_prev_free := Some l\<rparr>) c;
           c2 = upd_bh l (\<lambda>b. b\<lparr>b_next_free := Some i\<rparr>) c1 in upd_bh (free_list c) (\<lambda>b. b\<lparr>b_prev_free := Some i\<rparr>) c2"])
    (auto simp: link_free_def Let_def upd_bh_def fun_eq_iff core_def)

lemma core_upd_bh: "j \<noteq> i \<Longrightarrow> core (bh (upd_bh i f c) j) = core (bh c j)"
  by (simp add: upd_bh_def)

definition renew :: "u16 \<Rightarrow> u32 \<Rightarrow> cbuf \<Rightarrow> cbuf" where
  "renew dev block b = b\<lparr>b_count := 1, b_dirt := False, b_uptodate := False, b_dev := dev, b_blocknr := block\<rparr>"

lemma reuse_rep:
  assumes r: "cache_rep c fl ch" and i: "i < nr_buffers c"
  obtains c' ch' where "reuse i dev block c = Inr c'" and "cache_rep c' (remove1 i fl @ [i]) ch'"
    and "nr_buffers c' = nr_buffers c" and "core (bh c' i) = core (renew dev block (bh c i))"
    and "\<And>j. j \<noteq> i \<Longrightarrow> core (bh c' j) = core (bh c j)"
proof -
  from r have ring: "ring (nxf c) (pvf c) fl" and fls: "set fl = {..<nr_buffers c}" and flh: "free_list c = hd fl"
    and hl: "hash_links c ch (hashed c)" and z: "\<forall>i<nr_buffers c. b_dev (bh c i) = 0 \<longrightarrow> nxh c i = None \<and> pvh c i = None"
    by (simp_all add: cache_rep_def)
  define c0 where "c0 = upd_bh i (\<lambda>b. b\<lparr>b_count := 1, b_dirt := False, b_uptodate := False\<rparr>) c"
  have c0: "nxf c0 = nxf c" "pvf c0 = pvf c" "nxh c0 = nxh c" "pvh c0 = pvh c" "nr_buffers c0 = nr_buffers c"
    "free_list c0 = free_list c" "hash_table c0 = hash_table c" "hashed c0 = hashed c"
    by (auto simp: c0_def upd_bh_def fun_eq_iff hashed_def)
  have hl0: "hash_links c0 ch (hashed c0)"
    unfolding c0(8) by (rule hash_links_cong[OF hl]) (auto simp: c0_def upd_bh_def bhash_def)
  have z0: "\<forall>i<nr_buffers c0. b_dev (bh c0 i) = 0 \<longrightarrow> nxh c0 i = None \<and> pvh c0 i = None"
    using z by (auto simp: c0_def upd_bh_def)
  have i0: "i < nr_buffers c0" using i c0(5) by simp
  define c1 where "c1 = unhash i c0"
  note u = unhash_rep[OF hl0 z0 i0, folded c1_def]
  have ifl: "i \<in> set fl" using fls i by simp
  obtain p q where n: "nxf c i = Some q" "pvf c i = Some p"
    and t: "let nx1 = (nxf c)(p := Some q); pv1 = (pvf c)(q := Some p); h = (if hd fl = i then q else hd fl)
         in \<exists>l. pv1 h = Some l \<and> l \<in> set fl \<and> h \<in> set fl \<and> h = hd (remove1 i fl @ [i])
            \<and> ring (nx1(i := Some h, l := Some i)) (pv1(i := Some l, h := Some i)) (remove1 i fl @ [i])"
    by (rule ring_to_tail[OF ring ifl])
  have n1: "nxf c1 i = Some q" "pvf c1 i = Some p" using n fun_cong[OF u(3), of i] fun_cong[OF u(4), of i] fun_cong[OF c0(1), of i] fun_cong[OF c0(2), of i] by simp_all
  obtain c2 where c2: "unlink_free i c1 = Inr c2"
    and c2f: "nxf c2 = (nxf c1)(p := Some q)" "pvf c2 = (pvf c1)(q := Some p)"
      "free_list c2 = (if free_list c1 = i then q else free_list c1)"
    and c2o: "nr_buffers c2 = nr_buffers c1" "hash_table c2 = hash_table c1" "nxh c2 = nxh c1" "pvh c2 = pvh c1"
      "\<And>j. core (bh c2 j) = core (bh c1 j)"
    using unlink_free_links[OF n1] by blast
  define c3 where "c3 = upd_bh i (\<lambda>b. b\<lparr>b_dev := dev, b_blocknr := block\<rparr>) c2"
  have c3: "nxf c3 = nxf c2" "pvf c3 = pvf c2" "nxh c3 = nxh c2" "pvh c3 = pvh c2" "nr_buffers c3 = nr_buffers c2"
    "free_list c3 = free_list c2" "hash_table c3 = hash_table c2"
    by (auto simp: c3_def upd_bh_def fun_eq_iff)
  define h where "h = (if hd fl = i then q else hd fl)"
  have fh: "free_list c3 = h" by (simp add: c3 c2f u c0 flh h_def)
  obtain l where l: "((pvf c)(q := Some p)) h = Some l" and hh: "h = hd (remove1 i fl @ [i])"
    and rg: "ring ((nxf c)(p := Some q, i := Some h, l := Some i)) ((pvf c)(q := Some p, i := Some l, h := Some i)) (remove1 i fl @ [i])"
    using t unfolding Let_def h_def[symmetric] by blast
  have nf: "nxf c3 = (nxf c)(p := Some q)" "pvf c3 = (pvf c)(q := Some p)"
    unfolding c3 c2f u(3,4) c0 by (rule refl)+
  have pl: "pvf c3 (free_list c3) = Some l" unfolding fh using l fun_cong[OF nf(2), of h] by simp
  obtain c4 where c4: "link_free i c3 = Inr c4"
    and c4f: "nxf c4 = (nxf c3)(i := Some h, l := Some i)" "pvf c4 = (pvf c3)(i := Some l, h := Some i)" "free_list c4 = h"
    and c4o: "nr_buffers c4 = nr_buffers c3" "hash_table c4 = hash_table c3" "nxh c4 = nxh c3" "pvh c4 = pvh c3"
      "\<And>j. core (bh c4 j) = core (bh c3 j)"
    using link_free_links[OF pl, of i] unfolding fh by blast
  define c5 where "c5 = hash_in i c4"
  have re: "reuse i dev block c = Inr c5"
    by (simp add: reuse_def remove_from_queues_def c0_def[symmetric] c1_def[symmetric] c2 insert_into_queues_def c3_def[symmetric] c4 c5_def)
  have oj: "core (bh c4 j) = core (bh c j)" if "j \<noteq> i" for j
    using that by (simp add: c4o(5) c3_def core_upd_bh c2o(5) u(2) c0_def)
  have di: "b_dev (bh c4 i) = dev" using core_eqD[OF c4o(5)[of i]] by (simp add: c3_def upd_bh_def)
  define S where "S = hashed c - {i}"
  have hl4: "hash_links c4 (\<lambda>h. remove1 i (ch h)) S"
  proof (rule hash_links_core)
    show "hash_links c1 (\<lambda>h. remove1 i (ch h)) S" using u(1) by (simp only: S_def c0(8))
    show "hash_table c4 = hash_table c1" by (simp only: c4o c3 c2o)
    fix j assume "j \<in> S"
    then have "j \<noteq> i" by (simp add: S_def)
    then have "core (bh c4 j) = core (bh c1 j)" by (simp add: c4o(5) c3_def core_upd_bh c2o(5))
    moreover have "nxh c4 = nxh c1" "pvh c4 = pvh c1" by (simp_all only: c4o c3 c2o)
    ultimately show "nxh c4 j = nxh c1 j \<and> pvh c4 j = pvh c1 j \<and> core (bh c4 j) = core (bh c1 j)"
      by (simp add: fun_eq_iff)
  qed
  have iS: "i \<notin> S" by (simp add: S_def)
  have core4: "core (bh c4 i) = core (renew dev block (bh c i))"
  proof -
    have "core (bh c3 i) = (core (bh c2 i))\<lparr>b_dev := dev, b_blocknr := block\<rparr>" by (simp add: c3_def upd_bh_def core_def)
    also have "core (bh c2 i) = core (bh c0 i)" by (simp add: c2o(5) u(2))
    also have "(core (bh c0 i))\<lparr>b_dev := dev, b_blocknr := block\<rparr> = core (renew dev block (bh c i))"
      by (simp add: c0_def upd_bh_def core_def renew_def)
    finally show ?thesis by (simp add: c4o(5))
  qed
  have links5: "hash_links c5 (if dev = 0 then (\<lambda>h. remove1 i (ch h))
       else (\<lambda>h. remove1 i (ch h))(bhash c4 i := i # remove1 i (ch (bhash c4 i)))) (if dev = 0 then S else insert i S)"
    using hash_in_zero(1)[OF hl4 iS] hash_in_links(1)[OF hl4 iS] di unfolding c5_def by simp
  have o5: "nr_buffers c5 = nr_buffers c4" "free_list c5 = free_list c4"
    and b5: "\<And>j. bh c5 j = (bh c4 j)\<lparr>b_prev := pvh c5 j, b_next := nxh c5 j\<rparr>"
    and k5: "\<And>j. j \<noteq> i \<Longrightarrow> j \<notin> S \<Longrightarrow> bh c5 j = bh c4 j"
  proof -
    show "nr_buffers c5 = nr_buffers c4" "free_list c5 = free_list c4"
      by (auto simp: c5_def hash_in_def Let_def upd_bh_def split: option.splits)
    show "bh c5 j = (bh c4 j)\<lparr>b_prev := pvh c5 j, b_next := nxh c5 j\<rparr>" for j
      using hash_in_links(2)[OF hl4 iS, of j] hash_in_zero(2)[OF hl4 iS] di
      by (cases "dev = 0") (simp_all add: c5_def upd_bh_def)
    show "bh c5 j = bh c4 j" if "j \<noteq> i" "j \<notin> S" for j
      using hash_in_links(5)[OF hl4 iS _ that] hash_in_zero(2)[OF hl4 iS] di that
      by (cases "dev = 0") (simp_all add: c5_def upd_bh_def)
  qed
  have core5: "core (bh c5 j) = core (bh c4 j)" for j by (subst b5) (simp add: core_def)
  have nf5: "nxf c5 = nxf c4" "pvf c5 = pvf c4" by (rule ext, subst b5, simp)+
  have nr5: "nr_buffers c5 = nr_buffers c" by (simp only: o5 c4o c3 c2o u c0)
  have dev5: "b_dev (bh c5 j) = (if j = i then dev else b_dev (bh c j))" for j
    using core_eqD[OF core5[of j]] di core_eqD[OF oj[of j]] by auto
  have S5: "hashed c5 = (if dev = 0 then S else insert i S)"
    using i by (auto simp: hashed_def nr5 dev5 S_def)
  have z5: "nxh c5 j = None \<and> pvh c5 j = None" if j: "j < nr_buffers c5" "b_dev (bh c5 j) = 0" for j
  proof (cases "j = i")
    case True
    with j di have "dev = 0" by (simp add: dev5)
    with hash_in_zero(2)[OF hl4 iS] di True show ?thesis by (simp add: c5_def upd_bh_def)
  next
    case False
    with j have "j \<notin> hashed c" by (simp add: dev5 hashed_def)
    then have "bh c5 j = bh c4 j" using False k5[of j] by (simp add: S_def)
    moreover have "nxh c4 = nxh c1" "pvh c4 = pvh c1" by (simp_all only: c4o c3 c2o)
    moreover have "bh c1 j = bh c0 j" using u(7)[of j] \<open>j \<notin> hashed c\<close> c0(8) by simp
    moreover have "nxh c0 j = None \<and> pvh c0 j = None" using z j nr5 False fun_cong[OF c0(3), of j] fun_cong[OF c0(4), of j] by (simp add: dev5)
    ultimately show ?thesis by (metis (no_types, lifting))
  qed
  have setfl: "set (remove1 i fl @ [i]) = {..<nr_buffers c5}"
    using fls ifl ring i by (auto simp: nr5 ring_def)
  have ring5: "ring (nxf c5) (pvf c5) (remove1 i fl @ [i])" unfolding nf5 c4f nf by (rule rg)
  have free5: "free_list c5 = hd (remove1 i fl @ [i])" unfolding o5(2) c4f(3) by (rule hh)
  have rep: "cache_rep c5 (remove1 i fl @ [i]) (if dev = 0 then (\<lambda>h. remove1 i (ch h))
       else (\<lambda>h. remove1 i (ch h))(bhash c4 i := i # remove1 i (ch (bhash c4 i))))"
    unfolding cache_rep_def S5 by (intro conjI ring5 setfl free5 links5 allI impI) (use z5 in blast)+
  show thesis
    by (rule that[OF re rep nr5]) (simp_all add: core5 core4 oj)
qed

section \<open>Searching\<close>

definition caches :: "cache \<Rightarrow> u16 \<Rightarrow> u32 \<Rightarrow> nat \<Rightarrow> bool" where
  "caches c dev block i \<longleftrightarrow> b_dev (bh c i) = dev \<and> b_blocknr (bh c i) = block"

text \<open>At most one buffer caches a block.\<close>

definition uniq :: "cache \<Rightarrow> bool" where
  "uniq c \<longleftrightarrow> (\<forall>i\<in>hashed c. \<forall>j\<in>hashed c. b_dev (bh c i) = b_dev (bh c j) \<and> b_blocknr (bh c i) = b_blocknr (bh c j) \<longrightarrow> i = j)"

definition cache_ok :: "cache \<Rightarrow> bool" where
  "cache_ok c \<longleftrightarrow> (\<exists>fl ch. cache_rep c fl ch) \<and> uniq c"

lemma find_loop_chain:
  "chain (nxh c) p xs \<Longrightarrow> length xs \<le> fuel \<Longrightarrow> find_loop fuel dev block p c = Inr (find (caches c dev block) xs)"
proof (induction xs arbitrary: p fuel)
  case Nil
  then show ?case by simp
next
  case (Cons x xs)
  then obtain f where "fuel = Suc f" by (cases fuel) auto
  with Cons show ?case by (simp add: caches_def)
qed

lemma find_buffer_found:
  assumes "cache_rep c fl ch"
  obtains r where "find_buffer dev block c = Inr r"
    and "r = None \<Longrightarrow> \<forall>i\<in>hashed c. \<not> caches c dev block i"
    and "\<And>i. r = Some i \<Longrightarrow> i \<in> hashed c \<and> caches c dev block i"
proof -
  let ?h = "hashfn dev block"
  have "?h < NR_HASH" by (rule hashfn_less)
  with assms have c: "chain (nxh c) (hash_table c ?h) (ch ?h)" "distinct (ch ?h)" "set (ch ?h) = {i\<in>hashed c. bhash c i = ?h}"
    by (simp_all add: cache_rep_def hash_links_def)
  have "set (ch ?h) \<subseteq> {..<nr_buffers c}" by (auto simp: c(3) hashed_def)
  then have "length (ch ?h) \<le> nr_buffers c"
    using card_mono[of "{..<nr_buffers c}" "set (ch ?h)"] distinct_card[OF c(2)] by simp
  then have f: "find_buffer dev block c = Inr (find (caches c dev block) (ch ?h))"
    unfolding find_buffer_def by (rule find_loop_chain[OF c(1)])
  show thesis
  proof (rule that[OF f])
    assume "find (caches c dev block) (ch ?h) = None"
    then have "\<forall>i\<in>set (ch ?h). \<not> caches c dev block i" by (auto simp: find_None_iff)
    then show "\<forall>i\<in>hashed c. \<not> caches c dev block i" unfolding c(3) by (auto simp: caches_def bhash_def)
  next
    fix i assume "find (caches c dev block) (ch ?h) = Some i"
    then have "i \<in> set (ch ?h) \<and> caches c dev block i" by (rule find_Some_iff_set)
    then show "i \<in> hashed c \<and> caches c dev block i" by (simp add: c(3))
  qed
qed

lemma reuse_ok:
  assumes ok: "cache_ok c" and i: "i < nr_buffers c" and none: "\<forall>j\<in>hashed c. \<not> caches c dev block j"
  obtains c' where "reuse i dev block c = Inr c'" and "cache_ok c'" and "nr_buffers c' = nr_buffers c"
    and "caches c' dev block i" and "b_count (bh c' i) = 1" and "\<not> b_dirt (bh c' i)"
    and "\<And>j. j \<noteq> i \<Longrightarrow> core (bh c' j) = core (bh c j)"
proof -
  from ok obtain fl ch where r: "cache_rep c fl ch" and u: "uniq c" by (auto simp: cache_ok_def)
  obtain c' ch' where c': "reuse i dev block c = Inr c'" "cache_rep c' (remove1 i fl @ [i]) ch'" "nr_buffers c' = nr_buffers c"
    and ci: "core (bh c' i) = core (renew dev block (bh c i))" and cj: "\<And>j. j \<noteq> i \<Longrightarrow> core (bh c' j) = core (bh c j)"
    using reuse_rep[OF r i, of dev block] by blast
  have fi: "b_dev (bh c' i) = dev" "b_blocknr (bh c' i) = block" "b_count (bh c' i) = 1" "\<not> b_dirt (bh c' i)"
    using core_eqD[OF ci] by (simp_all add: renew_def)
  have fj: "b_dev (bh c' j) = b_dev (bh c j)" "b_blocknr (bh c' j) = b_blocknr (bh c j)" if "j \<noteq> i" for j
    using core_eqD[OF cj[OF that]] by simp_all
  have hj: "j \<in> hashed c' \<longleftrightarrow> j \<in> hashed c" if "j \<noteq> i" for j using fj that by (simp add: hashed_def c'(3))
  have "uniq c'"
    unfolding uniq_def
  proof (intro ballI impI)
    fix j k assume jk: "j \<in> hashed c'" "k \<in> hashed c'"
      and e: "b_dev (bh c' j) = b_dev (bh c' k) \<and> b_blocknr (bh c' j) = b_blocknr (bh c' k)"
    show "j = k"
    proof (cases "j = i \<or> k = i")
      case True
      then show ?thesis using jk e fi fj hj none by (metis caches_def)
    next
      case False
      then show ?thesis using jk e fj hj u unfolding uniq_def by metis
    qed
  qed
  with c'(2) have "cache_ok c'" by (auto simp: cache_ok_def)
  then show thesis using c' fi cj by (intro that[of c']) (simp_all add: caches_def)
qed

text \<open>Operations that leave the links, the device and the block alone.\<close>

definition same_rings :: "cache \<Rightarrow> cache \<Rightarrow> bool" where
  "same_rings c c' \<longleftrightarrow> nr_buffers c' = nr_buffers c \<and> hash_table c' = hash_table c \<and> free_list c' = free_list c
     \<and> (\<forall>i. nxf c' i = nxf c i \<and> pvf c' i = pvf c i \<and> nxh c' i = nxh c i \<and> pvh c' i = pvh c i
          \<and> b_dev (bh c' i) = b_dev (bh c i) \<and> b_blocknr (bh c' i) = b_blocknr (bh c i))"

lemma same_rings_ok:
  assumes s: "same_rings c c'" and ok: "cache_ok c"
  shows "cache_ok c'"
proof -
  from ok obtain fl ch where r: "cache_rep c fl ch" and u: "uniq c" by (auto simp: cache_ok_def)
  have h: "hashed c' = hashed c" using s by (auto simp: same_rings_def hashed_def)
  have f: "nxf c' = nxf c" "pvf c' = pvf c" using s by (simp_all add: same_rings_def fun_eq_iff)
  have "hash_links c' ch (hashed c)"
    by (rule hash_links_cong) (use r s in \<open>auto simp: cache_rep_def same_rings_def bhash_def\<close>)
  then have "cache_rep c' fl ch" using r s unfolding cache_rep_def f h by (auto simp: same_rings_def)
  moreover have "uniq c'" using u s unfolding uniq_def h by (auto simp: same_rings_def)
  ultimately show ?thesis by (auto simp: cache_ok_def)
qed

lemma same_rings_upd:
  "(\<And>b. b_next_free (f b) = b_next_free b \<and> b_prev_free (f b) = b_prev_free b \<and> b_next (f b) = b_next b \<and> b_prev (f b) = b_prev b
     \<and> b_dev (f b) = b_dev b \<and> b_blocknr (f b) = b_blocknr b) \<Longrightarrow> same_rings c (upd_bh i f c)"
  by (simp add: same_rings_def upd_bh_def)

lemma same_rings_count [simp]: "same_rings c (count_up i c)" "same_rings c (count_down i c)"
  unfolding count_up_def count_down_def by (rule same_rings_upd, simp)+

end
