(* ===== verification/CacheOps.thy ===== *)
theory CacheOps
  imports Cache
begin

text \<open>
  What \<open>getblk\<close> and its companions promise, whatever the environment does while they sleep as
  long as it keeps the cache sound too; and which buffer a quiet cache gives.
\<close>

section \<open>Results that are not errors\<close>

text \<open>\<open>safe P r\<close>: the only way not to have a result that satisfies \<open>P\<close> is to wait for ever.\<close>

definition safe :: "('a \<Rightarrow> bool) \<Rightarrow> 'a kres \<Rightarrow> bool" where
  "safe P r \<longleftrightarrow> (case r of Inl e \<Rightarrow> e = Unfinished | Inr x \<Rightarrow> P x)"

lemma safe_simps [simp]: "safe P (Inr x) = P x" "safe P (Inl e) = (e = Unfinished)"
  by (simp_all add: safe_def)

lemma safe_bind: "safe P m \<Longrightarrow> (\<And>x. P x \<Longrightarrow> safe Q (f x)) \<Longrightarrow> safe Q (kbind m f)"
  by (cases m) auto

lemma safe_mono: "safe P m \<Longrightarrow> (\<And>x. P x \<Longrightarrow> Q x) \<Longrightarrow> safe Q m"
  by (cases m) auto

lemma safeD: "safe P m \<Longrightarrow> m = Inr x \<Longrightarrow> P x"
  by simp

section \<open>The environment\<close>

definition sound :: "nat \<Rightarrow> cache \<Rightarrow> bool" where
  "sound n c \<longleftrightarrow> cache_ok c \<and> nr_buffers c = n"

definition env_sound :: "nat \<Rightarrow> env \<Rightarrow> bool" where
  "env_sound n es \<longleftrightarrow> (\<forall>e\<in>set es. \<forall>c. sound n c \<longrightarrow> sound n (e c))"

text \<open>The contracts of the block layer and of \<open>sync_inodes\<close>: they may sleep, but return to a sound cache and do not panic.\<close>

definition io_sound :: "nat \<Rightarrow> block_io \<Rightarrow> bool" where
  "io_sound n io \<longleftrightarrow> (\<forall>w i es c. sound n c \<and> env_sound n es \<longrightarrow>
     safe (\<lambda>(es', c'). sound n c' \<and> env_sound n es') (io w i es c))"

definition si_sound :: "nat \<Rightarrow> inode_sync \<Rightarrow> bool" where
  "si_sound n si \<longleftrightarrow> (\<forall>es c. sound n c \<and> env_sound n es \<longrightarrow>
     safe (\<lambda>(es', c'). sound n c' \<and> env_sound n es') (si es c))"

abbreviation sound_pair :: "nat \<Rightarrow> env \<times> cache \<Rightarrow> bool" where
  "sound_pair n \<equiv> \<lambda>(es, c). sound n c \<and> env_sound n es"

lemma env_sound_Cons [simp]: "env_sound n (e # es) \<longleftrightarrow> (\<forall>c. sound n c \<longrightarrow> sound n (e c)) \<and> env_sound n es"
  by (simp add: env_sound_def)

lemma env_sound_Nil [simp]: "env_sound n []"
  by (simp add: env_sound_def)

lemma sound_same_links: "sound n c \<Longrightarrow> same_rings c c' \<Longrightarrow> sound n c'"
  using same_rings_ok by (auto simp: sound_def same_rings_def)

lemma sound_count [simp]: "sound n c \<Longrightarrow> sound n (count_up i c)" "sound n c \<Longrightarrow> sound n (count_down i c)"
  by (auto intro: sound_same_links)

lemma sound_io: "io_sound n io \<Longrightarrow> sound n c \<Longrightarrow> env_sound n es \<Longrightarrow> safe (sound_pair n) (io w i es c)"
  by (auto simp: io_sound_def)

lemma sound_io_if: "io_sound n io \<Longrightarrow> sound n c \<Longrightarrow> env_sound n es \<Longrightarrow>
    safe (sound_pair n) (if b then io w i es c else Inr (es, c))"
  by (simp add: sound_io)

section \<open>Waiting and flushing\<close>

lemma wait_safe:
  "sound n c \<Longrightarrow> env_sound n es \<Longrightarrow>
    safe (\<lambda>(es', c'). sound n c' \<and> env_sound n es' \<and> \<not> b_lock (bh c' i)) (wait_on_buffer i es c)"
  by (induction i es c rule: wait_on_buffer.induct) auto

lemma sync_pass_safe:
  assumes "io_sound n io"
  shows "sound n c \<Longrightarrow> env_sound n es \<Longrightarrow> safe (sound_pair n) (sync_pass io dev is es c)"
proof (induction "is" arbitrary: es c)
  case Nil
  then show ?case by simp
next
  case (Cons i "is")
  show ?case
  proof (cases "b_dev (bh c i) = dev")
    case True
    have "safe (sound_pair n) (kbind (if b_dev (bh c1 i) = dev \<and> b_dirt (bh c1 i) then io True i es1 c1 else Inr (es1, c1))
        (\<lambda>(es2, c2). sync_pass io dev is es2 c2))"
      if "sound n c1" "env_sound n es1" for es1 c1
      by (rule safe_bind[OF sound_io_if[OF assms that]]) (use Cons.IH in auto)
    with True wait_safe[OF Cons.prems] show ?thesis
      by (simp del: safe_simps) (rule safe_bind, assumption, auto)
  next
    case False
    with Cons show ?thesis by simp
  qed
qed

lemma sync_all_safe:
  assumes "io_sound n io"
  shows "sound n c \<Longrightarrow> env_sound n es \<Longrightarrow> safe (sound_pair n) (sync_all io is es c)"
proof (induction "is" arbitrary: es c)
  case Nil
  then show ?case by simp
next
  case (Cons i "is")
  have "safe (sound_pair n) (kbind (if b_dirt (bh c1 i) then io True i es1 c1 else Inr (es1, c1)) (\<lambda>(es2, c2). sync_all io is es2 c2))"
    if "sound n c1" "env_sound n es1" for es1 c1
    by (rule safe_bind[OF sound_io_if[OF assms that]]) (use Cons.IH in auto)
  with wait_safe[OF Cons.prems] show ?case
    by (simp del: safe_simps) (rule safe_bind, assumption, auto)
qed

lemma sys_sync_safe:
  assumes "io_sound n io" and "si_sound n si" and "sound n c" and "env_sound n es"
  shows "safe (sound_pair n) (sys_sync io si es c)"
proof -
  have "safe (sound_pair n) (si es c)" using assms(2-4) by (simp add: si_sound_def)
  then show ?thesis unfolding sys_sync_def by (rule safe_bind) (auto intro: sync_all_safe[OF assms(1)])
qed

lemma sync_dev_safe:
  assumes "io_sound n io" and "si_sound n si" and "sound n c" and "env_sound n es"
  shows "safe (sound_pair n) (sync_dev io si dev es c)"
  unfolding sync_dev_def
proof (rule safe_bind[OF sync_pass_safe[OF assms(1,3,4)]])
  fix x assume "sound_pair n x"
  then have "safe (sound_pair n) (si (fst x) (snd x))" using assms(2) by (auto simp: si_sound_def)
  then show "safe (sound_pair n) (case x of (es1, c1) \<Rightarrow>
      kbind (si es1 c1) (\<lambda>(es2, c2). sync_pass io dev [0..<nr_buffers c2] es2 c2))"
    by (cases x) (auto intro!: safe_bind[of "sound_pair n"] sync_pass_safe[OF assms(1)])
qed

lemma flush_safe:
  assumes "io_sound n io" and "si_sound n si"
  shows "sound n c \<Longrightarrow> env_sound n es \<Longrightarrow> \<not> b_lock (bh c i) \<Longrightarrow> b_count (bh c i) = 0 \<Longrightarrow>
    safe (\<lambda>(again, es', c'). sound n c' \<and> env_sound n es' \<and>
      (again \<or> \<not> b_dirt (bh c' i) \<and> \<not> b_lock (bh c' i) \<and> b_count (bh c' i) = 0)) (flush fuel io si i es c)"
proof (induction fuel arbitrary: es c)
  case 0
  then show ?case by simp
next
  case (Suc fuel)
  show ?case
  proof (cases "b_dirt (bh c i)")
    case False
    with Suc.prems show ?thesis by simp
  next
    case True
    have "safe (\<lambda>(again, es', c'). sound n c' \<and> env_sound n es' \<and>
        (again \<or> \<not> b_dirt (bh c' i) \<and> \<not> b_lock (bh c' i) \<and> b_count (bh c' i) = 0))
      (kbind (wait_on_buffer i es1 c1)
        (\<lambda>(es2, c2). if b_count (bh c2 i) \<noteq> 0 then Inr (True, es2, c2) else flush fuel io si i es2 c2))"
      if "sound n c1" "env_sound n es1" for es1 c1
      by (rule safe_bind[OF wait_safe[OF that]]) (auto intro: Suc.IH)
    with True sync_dev_safe[OF assms Suc.prems(1,2)] show ?thesis
      by (simp del: safe_simps) (rule safe_bind, assumption, auto)
  qed
qed

section \<open>Choosing a buffer\<close>

text \<open>The loop of \<open>getblk\<close> over the buffers of the ring in order.\<close>

fun pick_free :: "cache \<Rightarrow> nat list \<Rightarrow> nat option \<Rightarrow> nat option" where
  "pick_free c [] best = best"
| "pick_free c (i # is) best =
     (if b_count (bh c i) = 0 \<and> (case best of None \<Rightarrow> True | Some b \<Rightarrow> BADNESS (bh c i) < BADNESS (bh c b))
      then if BADNESS (bh c i) = 0 then Some i else pick_free c is (Some i)
      else pick_free c is best)"

lemma scan_free_pick:
  "links (nxf c) (pvf c) i is (free_list c) \<Longrightarrow> free_list c \<notin> set is \<Longrightarrow>
    scan_free (Suc (length is)) i best c = Inr (pick_free c (i # is) best)"
proof (induction "is" arbitrary: i best)
  case Nil
  then show ?case by (auto simp: Let_def split: option.splits)
next
  case (Cons j js)
  then have n: "nxf c i = Some j" "j \<noteq> free_list c" by auto
  define P where "P \<longleftrightarrow> b_count (bh c i) = 0 \<and> (case best of None \<Rightarrow> True | Some b \<Rightarrow> BADNESS (bh c i) < BADNESS (bh c b))"
  have ih: "scan_free (Suc (length js)) j b c = Inr (pick_free c (j # js) b)" for b
    using Cons by simp
  have "scan_free (Suc (length (j # js))) i best c =
      (if P \<and> BADNESS (bh c i) = 0 then Inr (if P then Some i else best)
       else scan_free (Suc (length js)) j (if P then Some i else best) c)"
    unfolding scan_free.simps(2)[of "length (j # js)"] Let_def P_def[symmetric] using n by (simp del: scan_free.simps)
  moreover have "pick_free c (i # j # js) best =
      (if P then if BADNESS (bh c i) = 0 then Some i else pick_free c (j # js) (Some i) else pick_free c (j # js) best)"
    unfolding pick_free.simps(2)[of c i "j # js"] P_def[symmetric] by (rule refl)
  ultimately show ?case using ih by (simp del: scan_free.simps pick_free.simps)
qed

lemma pick_free_in: "pick_free c is best = Some i \<Longrightarrow> best = Some i \<or> i \<in> set is \<and> b_count (bh c i) = 0"
  by (induction "is" arbitrary: best) (auto split: if_splits)

text \<open>A free buffer that is clean and unlocked is taken at once: the least recently used one.\<close>

lemma pick_free_first:
  "(\<And>b. best = Some b \<Longrightarrow> BADNESS (bh c b) \<noteq> 0) \<Longrightarrow>
    find (\<lambda>i. b_count (bh c i) = 0 \<and> BADNESS (bh c i) = 0) is = Some i \<Longrightarrow> pick_free c is best = Some i"
proof (induction "is" arbitrary: best)
  case Nil
  then show ?case by simp
next
  case (Cons j js)
  show ?case
  proof (cases "b_count (bh c j) = 0 \<and> BADNESS (bh c j) = 0")
    case True
    then show ?thesis using Cons.prems by (auto split: option.splits)
  next
    case False
    then have "find (\<lambda>i. b_count (bh c i) = 0 \<and> BADNESS (bh c i) = 0) js = Some i" using Cons.prems(2) by auto
    with False Cons show ?thesis by auto
  qed
qed

lemma scan_free_rep:
  assumes "cache_rep c fl ch"
  shows "scan_free (nr_buffers c) (free_list c) None c = Inr (pick_free c fl None)"
proof -
  from assms obtain h t where fl: "fl = h # t" and l: "links (nxf c) (pvf c) h t h" and d: "distinct (h # t)"
    and f: "free_list c = h" and s: "set fl = {..<nr_buffers c}"
    by (cases fl) (auto simp: cache_rep_def ring_def)
  have "card (set fl) = length fl" using d fl by (intro distinct_card) simp
  then have "nr_buffers c = length fl" unfolding s by simp
  with scan_free_pick[of c h t None] l d f fl show ?thesis by simp
qed

section \<open>Getting a buffer\<close>

lemma get_hash_table_safe:
  "sound n c \<Longrightarrow> env_sound n es \<Longrightarrow>
    safe (\<lambda>(r, es', c'). sound n c' \<and> env_sound n es' \<and>
      (case r of Some i \<Rightarrow> i < n \<and> caches c' dev block i | None \<Rightarrow> \<forall>i\<in>hashed c'. \<not> caches c' dev block i))
     (get_hash_table fuel dev block es c)"
proof (induction fuel arbitrary: es c)
  case 0
  then show ?case by simp
next
  case (Suc fuel)
  from Suc.prems(1) obtain fl ch where r: "cache_rep c fl ch" by (auto simp: sound_def cache_ok_def)
  show ?case
  proof (rule find_buffer_found[OF r, of dev block])
    fix res assume f: "find_buffer dev block c = Inr res"
      and no: "res = None \<Longrightarrow> \<forall>i\<in>hashed c. \<not> caches c dev block i"
      and yes: "\<And>i. res = Some i \<Longrightarrow> i \<in> hashed c \<and> caches c dev block i"
    show ?thesis
    proof (cases res)
      case None
      with f no Suc.prems show ?thesis by simp
    next
      case (Some i)
      with yes have "i < n" using Suc.prems(1) by (auto simp: hashed_def sound_def)
      have again: "safe (\<lambda>(r, es', c'). sound n c' \<and> env_sound n es' \<and>
          (case r of Some i \<Rightarrow> i < n \<and> caches c' dev block i | None \<Rightarrow> \<forall>i\<in>hashed c'. \<not> caches c' dev block i))
        (if b_dev (bh c1 i) = dev \<and> b_blocknr (bh c1 i) = block then Inr (Some i, es1, c1)
         else get_hash_table fuel dev block es1 (count_down i c1))" if "sound n c1" "env_sound n es1" for es1 c1
        using Suc.IH[OF sound_count(2)[OF that(1)] that(2)] that \<open>i < n\<close> by (simp add: caches_def)
      have "safe (\<lambda>(r, es', c'). sound n c' \<and> env_sound n es' \<and>
          (case r of Some i \<Rightarrow> i < n \<and> caches c' dev block i | None \<Rightarrow> \<forall>i\<in>hashed c'. \<not> caches c' dev block i))
        (kbind (wait_on_buffer i es (count_up i c))
          (\<lambda>(es1, c1). if b_dev (bh c1 i) = dev \<and> b_blocknr (bh c1 i) = block then Inr (Some i, es1, c1)
                       else get_hash_table fuel dev block es1 (count_down i c1)))"
        by (rule safe_bind[OF wait_safe[OF sound_count(1)[OF Suc.prems(1)] Suc.prems(2)]]) (use again in auto)
      then show ?thesis using f Some by simp
    qed
  qed
qed

text \<open>
  \<open>getblk\<close> never panics. The buffer it returns caches the block asked for, and the cache is sound: no
  other buffer caches that block, even when another process asked for it while this one slept.
\<close>

lemma getblk_safe:
  assumes io: "io_sound n io" and si: "si_sound n si"
  shows "sound n c \<Longrightarrow> env_sound n es \<Longrightarrow>
    safe (\<lambda>(i, es', c'). sound n c' \<and> env_sound n es' \<and> i < n \<and> caches c' dev block i) (getblk fuel io si dev block es c)"
proof (induction fuel arbitrary: es c)
  case 0
  then show ?case by simp
next
  case (Suc fuel)
  let ?Q = "\<lambda>(i, es', c'). sound n c' \<and> env_sound n es' \<and> i < n \<and> caches c' dev block i"
  have reuse: "safe ?Q (kbind (find_buffer dev block c3)
      (\<lambda>r'. case r' of Some j \<Rightarrow> getblk fuel io si dev block es3 c3
            | None \<Rightarrow> kbind (reuse i dev block c3) (\<lambda>c4. Inr (i, es3, c4))))"
    if s3: "sound n c3" and e3: "env_sound n es3" and i: "i < n" for es3 c3 i
  proof -
    from s3 obtain fl ch where r: "cache_rep c3 fl ch" by (auto simp: sound_def cache_ok_def)
    show ?thesis
    proof (rule find_buffer_found[OF r, of dev block])
      fix res assume f: "find_buffer dev block c3 = Inr res"
        and no: "res = None \<Longrightarrow> \<forall>i\<in>hashed c3. \<not> caches c3 dev block i"
      show ?thesis
      proof (cases res)
        case None
        have ok: "cache_ok c3" and ni: "i < nr_buffers c3" using s3 i by (simp_all add: sound_def)
        show ?thesis
          by (rule reuse_ok[OF ok ni no[OF None]]) (use f None s3 e3 i in \<open>simp add: sound_def\<close>)
      next
        case (Some j)
        with f Suc.IH[OF s3 e3] show ?thesis by simp
      qed
    qed
  qed
  have victim: "safe ?Q (kbind (wait_on_buffer i es1 c1)
      (\<lambda>(es2, c2).
         if b_count (bh c2 i) \<noteq> 0 then getblk fuel io si dev block es2 c2
         else kbind (flush (Suc fuel) io si i es2 c2)
                (\<lambda>(again, es3, c3).
                   if again then getblk fuel io si dev block es3 c3
                   else kbind (find_buffer dev block c3)
                          (\<lambda>r'. case r' of Some j \<Rightarrow> getblk fuel io si dev block es3 c3
                                | None \<Rightarrow> kbind (reuse i dev block c3) (\<lambda>c4. Inr (i, es3, c4))))))"
    if s1: "sound n c1" and e1: "env_sound n es1" and i: "i < n" for es1 c1 i
  proof (rule safe_bind[OF wait_safe[OF s1 e1]])
    fix x assume x: "case x of (es2, c2) \<Rightarrow> sound n c2 \<and> env_sound n es2 \<and> \<not> b_lock (bh c2 i)"
    obtain es2 c2 where xx: "x = (es2, c2)" by (cases x)
    have "safe ?Q (kbind (flush (Suc fuel) io si i es2 c2)
        (\<lambda>(again, es3, c3). if again then getblk fuel io si dev block es3 c3
           else kbind (find_buffer dev block c3)
                  (\<lambda>r'. case r' of Some j \<Rightarrow> getblk fuel io si dev block es3 c3
                        | None \<Rightarrow> kbind (reuse i dev block c3) (\<lambda>c4. Inr (i, es3, c4)))))" if "b_count (bh c2 i) = 0"
      using x xx that by (intro safe_bind[OF flush_safe[OF io si]]) (auto intro: Suc.IH reuse[OF _ _ i])
    then show "safe ?Q (case x of (es2, c2) \<Rightarrow>
         if b_count (bh c2 i) \<noteq> 0 then getblk fuel io si dev block es2 c2
         else kbind (flush (Suc fuel) io si i es2 c2)
                (\<lambda>(again, es3, c3).
                   if again then getblk fuel io si dev block es3 c3
                   else kbind (find_buffer dev block c3)
                          (\<lambda>r'. case r' of Some j \<Rightarrow> getblk fuel io si dev block es3 c3
                                | None \<Rightarrow> kbind (reuse i dev block c3) (\<lambda>c4. Inr (i, es3, c4)))))"
      using x xx Suc.IH by auto
  qed
  show ?case
    unfolding getblk.simps
  proof (rule safe_bind[OF get_hash_table_safe[OF Suc.prems, of dev block "Suc fuel"]])
    fix x assume x: "case x of (r, es', c') \<Rightarrow> sound n c' \<and> env_sound n es' \<and>
      (case r of Some i \<Rightarrow> i < n \<and> caches c' dev block i | None \<Rightarrow> \<forall>i\<in>hashed c'. \<not> caches c' dev block i)"
    obtain r es1 c1 where xx: "x = (r, es1, c1)" by (cases x)
    with x have s1: "sound n c1" "env_sound n es1" by simp_all
    then obtain fl ch where rep: "cache_rep c1 fl ch" by (auto simp: sound_def cache_ok_def)
    note sc = scan_free_rep[OF rep]
    have "i < n" if "pick_free c1 fl None = Some i" for i
      using pick_free_in[OF that] rep s1(1) by (auto simp: cache_rep_def sound_def)
    note vi = victim[OF s1 this]
    have wait: "safe ?Q (case es1 of [] \<Rightarrow> Inl Unfinished | e # es2 \<Rightarrow> getblk fuel io si dev block es2 (e c1))"
      using s1 Suc.IH by (auto split: list.splits)
    show "safe ?Q (case x of (r, es1, c1) \<Rightarrow> case r of
          Some i \<Rightarrow> Inr (i, es1, c1)
        | None \<Rightarrow>
            kbind (scan_free (nr_buffers c1) (free_list c1) None c1)
              (\<lambda>best. case best of
                 None \<Rightarrow> (case es1 of [] \<Rightarrow> Inl Unfinished | e # es2 \<Rightarrow> getblk fuel io si dev block es2 (e c1))
               | Some i \<Rightarrow>
                   kbind (wait_on_buffer i es1 c1)
                     (\<lambda>(es2, c2).
                        if b_count (bh c2 i) \<noteq> 0 then getblk fuel io si dev block es2 c2
                        else kbind (flush (Suc fuel) io si i es2 c2)
                               (\<lambda>(again, es3, c3).
                                  if again then getblk fuel io si dev block es3 c3
                                  else kbind (find_buffer dev block c3)
                                         (\<lambda>r'. case r' of
                                            Some j \<Rightarrow> getblk fuel io si dev block es3 c3
                                          | None \<Rightarrow> kbind (reuse i dev block c3) (\<lambda>c4. Inr (i, es3, c4)))))))"
    proof (cases r)
      case None
      show ?thesis
      proof (cases "pick_free c1 fl None")
        case n: None
        with wait show ?thesis by (simp add: xx None sc)
      next
        case (Some i)
        with vi[OF Some] show ?thesis by (simp add: xx None sc)
      qed
    next
      case (Some i)
      with x xx show ?thesis by simp
    qed
  qed
qed

section \<open>A quiet cache\<close>

lemma wait_unlocked [simp]: "\<not> b_lock (bh c i) \<Longrightarrow> wait_on_buffer i es c = Inr (es, c)"
  by (cases es) simp_all

lemma find_buffer_none:
  assumes "cache_rep c fl ch" and "\<forall>i\<in>hashed c. \<not> caches c dev block i"
  shows "find_buffer dev block c = Inr None"
  by (rule find_buffer_found[OF assms(1), of dev block]) (use assms(2) in \<open>metis option.exhaust\<close>)

lemma find_buffer_hit:
  assumes "cache_rep c fl ch" and "uniq c" and "i \<in> hashed c" and "caches c dev block i"
  shows "find_buffer dev block c = Inr (Some i)"
proof (rule find_buffer_found[OF assms(1), of dev block])
  fix r assume f: "find_buffer dev block c = Inr r" and n: "r = None \<Longrightarrow> \<forall>i\<in>hashed c. \<not> caches c dev block i"
    and y: "\<And>j. r = Some j \<Longrightarrow> j \<in> hashed c \<and> caches c dev block j"
  then obtain j where j: "r = Some j" using assms(3,4) by (cases r) auto
  with y[OF j] assms(2-4) have "j = i" unfolding uniq_def caches_def by metis
  with f j show ?thesis by simp
qed

lemma getblk_hit:
  assumes "cache_rep c fl ch" and "uniq c" and "i \<in> hashed c" and "caches c dev block i" and "\<not> b_lock (bh c i)"
  shows "getblk (Suc fuel) io si dev block es c = Inr (i, es, count_up i c)"
proof -
  have "wait_on_buffer i es (count_up i c) = Inr (es, count_up i c)"
    using assms(5) by (intro wait_unlocked) (simp add: count_up_def upd_bh_def)
  moreover have "b_dev (bh (count_up i c) i) = dev \<and> b_blocknr (bh (count_up i c) i) = block"
    using assms(4) by (simp add: caches_def count_up_def upd_bh_def)
  ultimately show ?thesis by (simp add: find_buffer_hit[OF assms(1-4)])
qed

text \<open>
  A block that is not cached gets the buffer that was used longest ago among those that are free,
  clean and unlocked; that buffer becomes the most recently used one.
\<close>

lemma getblk_lru:
  assumes r: "cache_rep c fl ch" and n: "\<forall>i\<in>hashed c. \<not> caches c dev block i"
    and i: "find (\<lambda>i. b_count (bh c i) = 0 \<and> BADNESS (bh c i) = 0) fl = Some i"
  obtains c' ch' where "getblk (Suc fuel) io si dev block es c = Inr (i, es, c')"
    and "cache_rep c' (remove1 i fl @ [i]) ch'" and "core (bh c' i) = core (renew dev block (bh c i))"
    and "\<And>j. j \<noteq> i \<Longrightarrow> core (bh c' j) = core (bh c j)"
proof -
  from find_Some_iff_set[OF i] have p: "i \<in> set fl" "b_count (bh c i) = 0" "\<not> b_dirt (bh c i)" "\<not> b_lock (bh c i)"
    by (auto simp: BADNESS_def split: if_splits)
  then have "i < nr_buffers c" using r by (auto simp: cache_rep_def)
  from reuse_rep[OF r this, of dev block] obtain c' ch' where c': "reuse i dev block c = Inr c'"
    "cache_rep c' (remove1 i fl @ [i]) ch'" "core (bh c' i) = core (renew dev block (bh c i))"
    "\<And>j. j \<noteq> i \<Longrightarrow> core (bh c' j) = core (bh c j)" by blast
  have "pick_free c fl None = Some i" by (rule pick_free_first[OF _ i]) simp
  then have "getblk (Suc fuel) io si dev block es c = Inr (i, es, c')"
    using p by (simp add: find_buffer_none[OF r n] scan_free_rep[OF r] c'(1))
  then show thesis using c' by (intro that) 
qed

section \<open>The first state\<close>

lemma links_upt:
  assumes "\<And>i. a \<le> i \<Longrightarrow> i < b \<Longrightarrow> nx i = Some (i + 1) \<and> pv (i + 1) = Some i" and "a \<le> b" and "nx b = Some z" and "pv z = Some b"
  shows "links nx pv a [Suc a..<Suc b] z"
  using assms
proof (induction "b - a" arbitrary: a)
  case 0
  then show ?case by simp
next
  case (Suc k)
  then have "links nx pv (Suc a) [Suc (Suc a)..<Suc b] z" by (intro Suc.hyps(1)) auto
  moreover have "Suc a < Suc b" using Suc.hyps(2) by simp
  then have "[Suc a..<Suc b] = Suc a # [Suc (Suc a)..<Suc b]" by (rule upt_conv_Cons)
  moreover have "nx a = Some (Suc a) \<and> pv (Suc a) = Some a" using Suc.prems(1)[of a] Suc.hyps(2) by simp
  ultimately show ?case by simp
qed

lemma buffer_init_rep:
  assumes "nr_buffers (buffer_init start end' c) = n" and "0 < n"
  shows "cache_rep (buffer_init start end' c) [0..<n] (\<lambda>_. [])" and "uniq (buffer_init start end' c)"
    and "i < n \<Longrightarrow> b_count (bh (buffer_init start end' c) i) = 0 \<and> BADNESS (bh (buffer_init start end' c) i) = 0"
proof -
  let ?c = "buffer_init start end' c"
  have n: "n = length (init_blocks sizeof_buffer_head (if end' = 0x100000 then 640 * 1024 else end') start)"
    using assms(1) by (simp add: buffer_init_def Let_def)
  have d: "b_dev (bh ?c i) = 0" "nxh ?c i = None" "pvh ?c i = None" "b_count (bh ?c i) = 0" "\<not> b_dirt (bh ?c i)" "\<not> b_lock (bh ?c i)"
    if "i < n" for i
    using that assms(2) unfolding buffer_init_def n[symmetric] Let_def by auto
  have nx: "nxf ?c i = Some (if i = n - 1 then 0 else i + 1)" and pv: "pvf ?c i = Some (if i = 0 then n - 1 else i - 1)" if "i < n" for i
    using that assms(2) unfolding buffer_init_def n[symmetric] Let_def by auto
  have h: "hashed ?c = {}" using d assms(1) by (auto simp: hashed_def)
  have "links (nxf ?c) (pvf ?c) 0 [Suc 0..<Suc (n - 1)] 0"
    by (rule links_upt) (use nx pv assms(2) in auto)
  then have l: "links (nxf ?c) (pvf ?c) 0 [1..<n] 0" using assms(2) by simp
  have "[0..<n] = 0 # [1..<n]" using assms(2) by (simp add: upt_conv_Cons)
  then have "ring (nxf ?c) (pvf ?c) [0..<n]" using l by (simp add: ring_def)
  moreover have "hash_links ?c (\<lambda>_. []) {}" by (auto simp: hash_links_def buffer_init_def Let_def)
  moreover have "free_list ?c = 0" by (simp add: buffer_init_def Let_def)
  ultimately show "cache_rep ?c [0..<n] (\<lambda>_. [])"
    using d assms by (auto simp: cache_rep_def h)
  show "uniq ?c" by (simp add: uniq_def h)
  show "i < n \<Longrightarrow> b_count (bh ?c i) = 0 \<and> BADNESS (bh ?c i) = 0" using d by (simp add: BADNESS_def)
qed

lemma brelse_sound:
  assumes "brelse r es c = Inr (es', c')" and "sound n c" and "env_sound n es"
  shows "sound n c' \<and> env_sound n es'"
proof (cases r)
  case None
  with assms show ?thesis by (simp add: brelse_def)
next
  case (Some i)
  with assms(1) obtain es1 c1 where w: "wait_on_buffer i es c = Inr (es1, c1)" and e: "es' = es1" "c' = count_down i c1"
    by (auto simp: brelse_def kbind_Inr_iff split: if_splits)
  from safeD[OF wait_safe[OF assms(2,3)] w] e show ?thesis by simp
qed

text \<open>\<open>bread\<close> returns a buffer only when its contents are valid.\<close>

lemma bread_sound:
  assumes "io_sound n io" and "si_sound n si" and "sound n c" and "env_sound n es"
    and b: "bread fuel io si dev block es c = Inr (r, es', c')"
  shows "sound n c' \<and> env_sound n es' \<and> (\<forall>i. r = Some i \<longrightarrow> b_uptodate (bh c' i))"
proof -
  from b obtain i es1 c1 where g: "getblk fuel io si dev block es c = Inr (i, es1, c1)"
    and k: "(if b_uptodate (bh c1 i) then Inr (Some i, es1, c1)
          else kbind (io False i es1 c1)
                 (\<lambda>(es2, c2). kbind (wait_on_buffer i es2 c2)
                    (\<lambda>(es3, c3). if b_uptodate (bh c3 i) then Inr (Some i, es3, c3)
                                 else kbind (brelse (Some i) es3 c3) (\<lambda>(es4, c4). Inr (None, es4, c4))))) = Inr (r, es', c')"
    by (auto simp: bread_def kbind_Inr_iff)
  from safeD[OF getblk_safe[OF assms(1-4)] g] have s: "sound n c1" "env_sound n es1" by simp_all
  show ?thesis
  proof (cases "b_uptodate (bh c1 i)")
    case True
    with k s show ?thesis by auto
  next
    case False
    with k obtain es2 c2 es3 c3 where io: "io False i es1 c1 = Inr (es2, c2)" and w: "wait_on_buffer i es2 c2 = Inr (es3, c3)"
      and k2: "(if b_uptodate (bh c3 i) then Inr (Some i, es3, c3)
                else kbind (brelse (Some i) es3 c3) (\<lambda>(es4, c4). Inr (None, es4, c4))) = Inr (r, es', c')"
      by (auto simp: kbind_Inr_iff)
    from safeD[OF sound_io[OF assms(1) s] io] have s2: "sound n c2" "env_sound n es2" by simp_all
    from safeD[OF wait_safe[OF s2] w] have s3: "sound n c3" "env_sound n es3" by simp_all
    show ?thesis
    proof (cases "b_uptodate (bh c3 i)")
      case True
      with k2 s3 show ?thesis by auto
    next
      case False
      with k2 obtain es4 c4 where "brelse (Some i) es3 c3 = Inr (es4, c4)" "r = None" "es' = es4" "c' = c4"
        by (auto simp: kbind_Inr_iff)
      with brelse_sound[OF _ s3] show ?thesis by auto
    qed
  qed
qed

end
