(* ===== verification/Elevator.thy ===== *)
theory Elevator
  imports Cache
begin

text \<open>
  The queue of block requests (\<open>kernel/blk_drv/ll_rw_block.c\<close>, \<open>end_request\<close> of \<open>blk.h\<close>). Requests are
  slots of a table, linked by \<open>next\<close> from the \<open>current_request\<close> of a device; the buffers are those of the
  cache. Calls of a device's \<open>request_fn\<close>, which program hardware, are recorded.
\<close>

section \<open>State\<close>

record request =
  rq_dev :: int
  rq_cmd :: nat
  rq_errors :: nat
  rq_sector :: u32
  rq_nr_sectors :: u32
  rq_bh :: "nat option"
  rq_waiting :: "nat option"
  rq_next :: "nat option"

record blk =
  bcache :: cache
  request :: "nat \<Rightarrow> request"
  current_request :: "nat \<Rightarrow> nat option"
  has_request_fn :: "nat \<Rightarrow> bool"
  started :: "nat list"

definition NR_REQUEST :: nat where "NR_REQUEST = 32"
definition NR_BLK_DEV :: nat where "NR_BLK_DEV = 7"
definition READ :: nat where "READ = 0"
definition WRITE :: nat where "WRITE = 1"
definition READA :: nat where "READA = 2"
definition WRITEA :: nat where "WRITEA = 3"

definition MAJOR :: "u16 \<Rightarrow> nat" where "MAJOR dev = unat (drop_bit 8 dev)"

definition IN_ORDER :: "request \<Rightarrow> request \<Rightarrow> bool" where
  "IN_ORDER a b \<longleftrightarrow> rq_cmd a < rq_cmd b \<or> rq_cmd a = rq_cmd b \<and>
     (rq_dev a < rq_dev b \<or> rq_dev a = rq_dev b \<and> rq_sector a < rq_sector b)"

definition upd_req :: "nat \<Rightarrow> (request \<Rightarrow> request) \<Rightarrow> blk \<Rightarrow> blk" where
  "upd_req i f s = s\<lparr>request := (request s)(i := f (request s i))\<rparr>"

definition upd_buf_of :: "nat \<Rightarrow> (cbuf \<Rightarrow> cbuf) \<Rightarrow> blk \<Rightarrow> blk" where
  "upd_buf_of i f s = s\<lparr>bcache := upd_bh i f (bcache s)\<rparr>"

section \<open>The elevator\<close>

text \<open>Whether the search for the place of \<open>r\<close> stops between \<open>t\<close> and \<open>n\<close>.\<close>

definition fits :: "request \<Rightarrow> request \<Rightarrow> request \<Rightarrow> bool" where
  "fits r t n \<longleftrightarrow>
     (if rq_bh r = None then rq_bh n \<noteq> None
      else (IN_ORDER t r \<or> \<not> IN_ORDER t n) \<and> IN_ORDER r n)"

text \<open>The loop over the queue from \<open>tmp\<close>; a queue is never longer than the table.\<close>

fun find_place :: "nat \<Rightarrow> nat \<Rightarrow> nat \<Rightarrow> blk \<Rightarrow> nat kres" where
  "find_place 0 r tmp s = Inl Unfinished"
| "find_place (Suc fuel) r tmp s =
     (case rq_next (request s tmp) of
        None \<Rightarrow> Inr tmp
      | Some n \<Rightarrow> if fits (request s r) (request s tmp) (request s n) then Inr tmp else find_place fuel r n s)"

definition add_request :: "nat \<Rightarrow> nat \<Rightarrow> blk \<Rightarrow> blk kres" where
  "add_request major r s =
     (let s1 = upd_req r (\<lambda>q. q\<lparr>rq_next := None\<rparr>) s;
          s2 = (case rq_bh (request s1 r) of None \<Rightarrow> s1 | Some b \<Rightarrow> upd_buf_of b (\<lambda>b. b\<lparr>b_dirt := False\<rparr>) s1)
      in case current_request s2 major of
           None \<Rightarrow> Inr (s2\<lparr>current_request := (current_request s2)(major := Some r), started := started s2 @ [major]\<rparr>)
         | Some t \<Rightarrow>
             kbind (find_place NR_REQUEST r t s2)
               (\<lambda>tmp. Inr (upd_req tmp (\<lambda>q. q\<lparr>rq_next := Some r\<rparr>)
                            (upd_req r (\<lambda>q. q\<lparr>rq_next := rq_next (request s2 tmp)\<rparr>) s2))))"

type_synonym blk_env = "(blk \<Rightarrow> blk) list"

fun lock_buffer :: "nat \<Rightarrow> blk_env \<Rightarrow> blk \<Rightarrow> (blk_env \<times> blk) kres" where
  "lock_buffer b [] s = (if b_lock (bh (bcache s) b) then Inl Unfinished else Inr ([], upd_buf_of b (\<lambda>b. b\<lparr>b_lock := True\<rparr>) s))"
| "lock_buffer b (e # es) s =
     (if b_lock (bh (bcache s) b) then lock_buffer b es (e s) else Inr (e # es, upd_buf_of b (\<lambda>b. b\<lparr>b_lock := True\<rparr>) s))"

definition unlock_buffer :: "nat \<Rightarrow> blk \<Rightarrow> blk" where
  "unlock_buffer b = upd_buf_of b (\<lambda>b. b\<lparr>b_lock := False\<rparr>)"

text \<open>
  The search for a free slot runs down from the end of the table for a read and from two thirds of it
  for a write. \<open>ahead\<close> requests do not wait.
\<close>

definition free_slot :: "nat \<Rightarrow> blk \<Rightarrow> nat option" where
  "free_slot hi s = find (\<lambda>i. rq_dev (request s i) < 0) (rev [0..<hi])"

definition slots_for :: "nat \<Rightarrow> nat" where
  "slots_for rw = (if rw = READ then NR_REQUEST else NR_REQUEST * 2 div 3)"

definition buf_request :: "nat \<Rightarrow> nat \<Rightarrow> cbuf \<Rightarrow> request" where
  "buf_request rw b h = \<lparr>rq_dev = uint (b_dev h), rq_cmd = rw, rq_errors = 0, rq_sector = push_bit 1 (b_blocknr h),
     rq_nr_sectors = 2, rq_bh = Some b, rq_waiting = None, rq_next = None\<rparr>"

fun take_slot :: "nat \<Rightarrow> nat \<Rightarrow> bool \<Rightarrow> nat \<Rightarrow> blk_env \<Rightarrow> blk \<Rightarrow> (blk_env \<times> blk) kres" where
  "take_slot major rw ahead b es s =
     (case free_slot (slots_for rw) s of
        Some i \<Rightarrow> kbind (add_request major i (upd_req i (\<lambda>_. buf_request rw b (bh (bcache s) b)) s)) (\<lambda>s1. Inr (es, s1))
      | None \<Rightarrow> if ahead then Inr (es, unlock_buffer b s)
                else (case es of [] \<Rightarrow> Inl Unfinished | e # es' \<Rightarrow> take_slot major rw ahead b es' (e s)))"

declare take_slot.simps [simp del]

definition make_request :: "nat \<Rightarrow> nat \<Rightarrow> nat \<Rightarrow> blk_env \<Rightarrow> blk \<Rightarrow> (blk_env \<times> blk) kres" where
  "make_request major rw0 b es s =
     (let ahead = (rw0 = READA \<or> rw0 = WRITEA);
          rw = (if rw0 = READA then READ else if rw0 = WRITEA then WRITE else rw0)
      in if ahead \<and> b_lock (bh (bcache s) b) then Inr (es, s)
         else if rw \<noteq> READ \<and> rw \<noteq> WRITE then Inl (Panic ''Bad block dev command, must be R/W/RA/WA'')
         else kbind (lock_buffer b es s)
                (\<lambda>(es1, s1).
                   let h = bh (bcache s1) b
                   in if rw = WRITE \<and> \<not> b_dirt h \<or> rw = READ \<and> b_uptodate h then Inr (es1, unlock_buffer b s1)
                      else take_slot major rw ahead b es1 s1))"

definition ll_rw_block :: "nat \<Rightarrow> nat \<Rightarrow> blk_env \<Rightarrow> blk \<Rightarrow> (blk_env \<times> blk) kres" where
  "ll_rw_block rw b es s =
     (let major = MAJOR (b_dev (bh (bcache s) b))
      in if major \<ge> NR_BLK_DEV \<or> \<not> has_request_fn s major then Inr (es, s) else make_request major rw b es s)"

text \<open>A page is eight sectors; the process waits until the request is done.\<close>

fun take_page_slot :: "nat \<Rightarrow> nat \<Rightarrow> u16 \<Rightarrow> u32 \<Rightarrow> nat \<Rightarrow> blk_env \<Rightarrow> blk \<Rightarrow> (blk_env \<times> blk) kres" where
  "take_page_slot major rw dev page who es s =
     (case free_slot NR_REQUEST s of
        Some i \<Rightarrow>
          kbind (add_request major i (upd_req i (\<lambda>_. \<lparr>rq_dev = uint dev, rq_cmd = rw, rq_errors = 0,
                   rq_sector = push_bit 3 page, rq_nr_sectors = 8, rq_bh = None, rq_waiting = Some who, rq_next = None\<rparr>) s))
            (\<lambda>s1. Inr (es, s1))
      | None \<Rightarrow> (case es of [] \<Rightarrow> Inl Unfinished | e # es' \<Rightarrow> take_page_slot major rw dev page who es' (e s)))"

declare take_page_slot.simps [simp del]

definition ll_rw_page :: "nat \<Rightarrow> u16 \<Rightarrow> u32 \<Rightarrow> nat \<Rightarrow> blk_env \<Rightarrow> blk \<Rightarrow> (blk_env \<times> blk) kres" where
  "ll_rw_page rw dev page who es s =
     (let major = MAJOR dev
      in if major \<ge> NR_BLK_DEV \<or> \<not> has_request_fn s major then Inr (es, s)
         else if rw \<noteq> READ \<and> rw \<noteq> WRITE then Inl (Panic ''Bad block dev command, must be R/W'')
         else take_page_slot major rw dev page who es s)"

definition blk_dev_init :: "blk \<Rightarrow> blk" where
  "blk_dev_init s =
     s\<lparr>request := (\<lambda>i. if i < NR_REQUEST then (request s i)\<lparr>rq_dev := - 1, rq_next := None\<rparr> else request s i)\<rparr>"

text \<open>\<open>end_request\<close>: the message for a failed request reads the buffer without testing for one.\<close>

definition end_request :: "nat \<Rightarrow> bool \<Rightarrow> blk \<Rightarrow> blk kres" where
  "end_request major uptodate s =
     (case current_request s major of
        None \<Rightarrow> Inl NullDeref
      | Some r \<Rightarrow>
          let q = request s r;
              s1 = (case rq_bh q of None \<Rightarrow> s
                    | Some b \<Rightarrow> unlock_buffer b (upd_buf_of b (\<lambda>b. b\<lparr>b_uptodate := uptodate\<rparr>) s))
          in if \<not> uptodate \<and> rq_bh q = None then Inl NullDeref
             else Inr (upd_req r (\<lambda>q. q\<lparr>rq_dev := - 1\<rparr>)
                        (s1\<lparr>current_request := (current_request s1)(major := rq_next q)\<rparr>)))"

section \<open>The queue as a list\<close>

text \<open>The queue \<open>q\<close> of a device and the elevator on lists of requests.\<close>

definition queue_rep :: "blk \<Rightarrow> nat \<Rightarrow> nat list \<Rightarrow> bool" where
  "queue_rep s major q \<longleftrightarrow> chain (\<lambda>i. rq_next (request s i)) (current_request s major) q \<and> distinct q
     \<and> (\<forall>i\<in>set q. i < NR_REQUEST \<and> rq_dev (request s i) \<ge> 0)"

fun place :: "(nat \<Rightarrow> request) \<Rightarrow> nat \<Rightarrow> nat list \<Rightarrow> nat list" where
  "place f r [] = [r]"
| "place f r [t] = [t, r]"
| "place f r (t # n # ts) = (if fits (f r) (f t) (f n) then t # r # n # ts else t # place f r (n # ts))"

lemma place_cong:
  "(\<And>i. i \<in> insert r (set q) \<Longrightarrow> fits (f r) = fits (g r) \<and> (\<forall>t n. t \<in> set q \<longrightarrow> n \<in> set q \<longrightarrow> fits (f r) (f t) (f n) = fits (g r) (g t) (g n))) \<Longrightarrow>
    place f r q = place g r q"
  by (induction f r q rule: place.induct) auto

lemma set_place [simp]: "set (place f r q) = insert r (set q)"
  by (induction f r q rule: place.induct) auto

lemma place_not_Nil [simp]: "place f r q \<noteq> []"
  by (metis set_place insert_not_empty list.set(1))

lemma distinct_place: "distinct q \<Longrightarrow> r \<notin> set q \<Longrightarrow> distinct (place f r q)"
  by (induction f r q rule: place.induct) auto

lemma hd_place: "q \<noteq> [] \<Longrightarrow> hd (place f r q) = hd q"
  by (cases "(f, r, q)" rule: place.cases) auto

text \<open>The rest of the queue keeps its order.\<close>

lemma place_others: "r \<notin> set q \<Longrightarrow> filter (\<lambda>i. i \<noteq> r) (place f r q) = q"
proof (induction f r q rule: place.induct)
  case (3 f r t n ts)
  have "filter (\<lambda>i. i \<noteq> r) ts = ts" using 3(2) by (auto simp: filter_id_conv)
  with 3 show ?case by auto
qed auto

lemma find_place_place:
  assumes "chain (\<lambda>i. rq_next (request s i)) (Some t) (t # q)" and "distinct (t # q)" and "r \<notin> set (t # q)"
    and "length (t # q) \<le> fuel"
  obtains p where "find_place fuel r t s = Inr p" and "p \<in> set (t # q)"
    and "chain ((\<lambda>i. rq_next (request s i))(r := rq_next (request s p), p := Some r)) (Some t) (place (request s) r (t # q))"
  using assms
proof (induction q arbitrary: t fuel thesis)
  case Nil
  have "fuel \<noteq> 0" using Nil.prems(5) by auto
  then obtain f where "fuel = Suc f" by (cases fuel) auto
  with Nil show ?case by (intro Nil(1)[of t]) auto
next
  case (Cons n ts)
  have "fuel \<noteq> 0" using Cons.prems(5) by auto
  then obtain f where f: "fuel = Suc f" by (cases fuel) auto
  let ?nx = "\<lambda>i. rq_next (request s i)"
  from Cons.prems have nx: "?nx t = Some n" and ch: "chain ?nx (Some n) (n # ts)" by simp_all
  show ?case
  proof (cases "fits (request s r) (request s t) (request s n)")
    case True
    have "chain (?nx(r := Some n, t := Some r)) (Some n) (n # ts) = chain ?nx (Some n) (n # ts)"
      by (rule chain_cong) (use Cons.prems in auto)
    then have "chain (?nx(r := rq_next (request s t), t := Some r)) (Some t) (t # r # n # ts)"
      using ch nx Cons.prems(3,4) by (simp add: fun_upd_def)
    with True nx f show ?thesis by (intro Cons.prems(1)[of t]) (simp_all add: fun_upd_def)
  next
    case False
    have pre: "distinct (n # ts)" "r \<notin> set (n # ts)" "length (n # ts) \<le> f" using Cons.prems f by auto
    obtain p where p: "find_place f r n s = Inr p" "p \<in> set (n # ts)"
      "chain (?nx(r := rq_next (request s p), p := Some r)) (Some n) (place (request s) r (n # ts))"
      by (rule Cons.IH[OF _ ch pre])
    have "t \<noteq> p" "t \<noteq> r" using p(2) Cons.prems(3,4) by auto
    then have "(?nx(r := rq_next (request s p), p := Some r)) t = Some n" using nx by simp
    then have "chain (?nx(r := rq_next (request s p), p := Some r)) (Some t) (place (request s) r (t # n # ts))"
      using p(3) False by (simp del: fun_upd_apply)
    note c = this
    have "find_place fuel r t s = Inr p" using p(1) False nx f by simp
    moreover have "p \<in> set (t # n # ts)" using p(2) by simp
    ultimately show ?thesis by (rule Cons.prems(1)[OF _ _ c])
  qed
qed

lemma find_place_cong: "request s = request s' \<Longrightarrow> find_place fuel r t s = find_place fuel r t s'"
  by (induction fuel arbitrary: t) (auto split: option.splits)

lemma request_upd_buf_of [simp]:
  "request (upd_buf_of b f s) = request s" "current_request (upd_buf_of b f s) = current_request s"
  "started (upd_buf_of b f s) = started s" "has_request_fn (upd_buf_of b f s) = has_request_fn s"
  by (simp_all add: upd_buf_of_def)

lemma request_unlock [simp]:
  "request (unlock_buffer b s) = request s" "current_request (unlock_buffer b s) = current_request s"
  by (simp_all add: unlock_buffer_def)

lemma add_request_place:
  assumes q: "queue_rep s major q" and r: "r \<notin> set q" "r < NR_REQUEST" "rq_dev (request s r) \<ge> 0" "rq_next (request s r) = None"
  obtains s' where "add_request major r s = Inr s'" and "queue_rep s' major (place (request s) r q)"
    and "\<And>i. request s' i = (request s i)\<lparr>rq_next := rq_next (request s' i)\<rparr>"
    and "\<And>m. m \<noteq> major \<Longrightarrow> current_request s' m = current_request s m"
    and "\<And>i. i \<notin> insert r (set q) \<Longrightarrow> request s' i = request s i"
    and "started s' = (if q = [] then started s @ [major] else started s)"
    and "same_rings (bcache s) (bcache s')"
proof -
  let ?s1 = "upd_req r (\<lambda>q. q\<lparr>rq_next := None\<rparr>) s"
  have "(request s r)\<lparr>rq_next := None\<rparr> = request s r" using r(4) by (cases "request s r") simp
  then have s1: "?s1 = s" by (simp add: upd_req_def)
  define s2 where "s2 = (case rq_bh (request s r) of None \<Rightarrow> s | Some b \<Rightarrow> upd_buf_of b (\<lambda>b. b\<lparr>b_dirt := False\<rparr>) s)"
  have s2: "request s2 = request s" "current_request s2 = current_request s" "started s2 = started s"
    "same_rings (bcache s) (bcache s2)"
    by (auto simp: s2_def upd_buf_of_def intro: same_rings_upd split: option.splits) (simp add: same_rings_def)
  from q have ch: "chain (\<lambda>i. rq_next (request s i)) (current_request s major) q" and d: "distinct q"
    and b: "\<forall>i\<in>set q. i < NR_REQUEST \<and> rq_dev (request s i) \<ge> 0" by (simp_all add: queue_rep_def)
  show thesis
  proof (cases q)
    case Nil
    then have "current_request s major = None" using ch by simp
    then have "add_request major r s = Inr (s2\<lparr>current_request := (current_request s2)(major := Some r), started := started s2 @ [major]\<rparr>)"
      by (simp add: add_request_def s1 s2_def[symmetric] Let_def s2)
    then show ?thesis by (rule that) (use s2 r Nil in \<open>auto simp: queue_rep_def\<close>)
  next
    case (Cons t ts)
    then have cr: "current_request s major = Some t" using ch by simp
    have len: "length (t # ts) \<le> NR_REQUEST"
      using card_mono[of "{..<NR_REQUEST}" "set q"] b d Cons by (auto simp: distinct_card)
    have ch': "chain (\<lambda>i. rq_next (request s i)) (Some t) (t # ts)" using ch Cons cr by simp
    obtain p where p: "find_place NR_REQUEST r t s = Inr p" "p \<in> set (t # ts)"
      and pc: "chain ((\<lambda>i. rq_next (request s i))(r := rq_next (request s p), p := Some r)) (Some t) (place (request s) r (t # ts))"
      by (rule find_place_place[OF ch' _ _ len]) (use d r Cons in auto)
    have f2: "find_place NR_REQUEST r t s2 = Inr p" using p(1) find_place_cong[OF s2(1)] by metis
    let ?s' = "upd_req p (\<lambda>q. q\<lparr>rq_next := Some r\<rparr>) (upd_req r (\<lambda>q. q\<lparr>rq_next := rq_next (request s2 p)\<rparr>) s2)"
    have "add_request major r s = Inr ?s'"
      by (simp add: add_request_def s1 s2_def[symmetric] Let_def s2 cr f2)
    then show ?thesis
    proof (rule that)
      have nx: "(\<lambda>i. rq_next (request ?s' i)) = (\<lambda>i. rq_next (request s i))(r := rq_next (request s p), p := Some r)"
        using p(2) r(1) Cons by (auto simp: upd_req_def s2 fun_eq_iff)
      show "queue_rep ?s' major (place (request s) r q)"
        unfolding queue_rep_def nx using pc Cons b r d p
        by (auto simp: upd_req_def s2 cr distinct_place)
    qed (use p(2) r(1) Cons s2 in \<open>auto simp: upd_req_def\<close>)
  qed
qed

section \<open>Two sweeps\<close>

text \<open>
  How often the order of the sweep is broken in a queue. At most one break means: the rest of the
  present sweep, then the whole next one.
\<close>

fun breaks :: "(nat \<Rightarrow> request) \<Rightarrow> nat list \<Rightarrow> nat" where
  "breaks f (t # n # ts) = (if IN_ORDER (f t) (f n) then 0 else 1) + breaks f (n # ts)"
| "breaks f q = 0"

lemma breaks_tl: "breaks f (tl q) \<le> breaks f q"
  by (cases "(f, q)" rule: breaks.cases) auto

lemma breaks_Cons: "q \<noteq> [] \<Longrightarrow> breaks f (t # q) = (if IN_ORDER (f t) (f (hd q)) then 0 else 1) + breaks f q"
  by (cases q) auto

definition comparable :: "(nat \<Rightarrow> request) \<Rightarrow> nat \<Rightarrow> nat list \<Rightarrow> bool" where
  "comparable f r q \<longleftrightarrow> rq_bh (f r) \<noteq> None \<and> (\<forall>i\<in>set q. IN_ORDER (f i) (f r) \<or> IN_ORDER (f r) (f i))"

lemma place_sorted:
  "comparable f r q \<Longrightarrow> breaks f q = 0 \<Longrightarrow> q \<noteq> [] \<Longrightarrow> IN_ORDER (f (hd q)) (f r) \<Longrightarrow> breaks f (place f r q) = 0"
proof (induction f r q rule: place.induct)
  case (3 f r t n ts)
  show ?case
  proof (cases "fits (f r) (f t) (f n)")
    case True
    with 3 show ?thesis by (auto simp: fits_def comparable_def split: if_splits)
  next
    case False
    with 3 have "IN_ORDER (f n) (f r)" by (auto simp: fits_def comparable_def)
    moreover have "comparable f r (n # ts)" "breaks f (n # ts) = 0" using 3 by (auto simp: comparable_def split: if_splits)
    ultimately have "breaks f (place f r (n # ts)) = 0" using 3(1)[OF False] by simp
    moreover have "hd (place f r (n # ts)) = n" using hd_place[of "n # ts" f r] by simp
    ultimately show ?thesis using False 3(3) by (simp add: breaks_Cons split: if_splits)
  qed
qed auto

lemma place_two_sweeps:
  "comparable f r q \<Longrightarrow> breaks f q \<le> 1 \<Longrightarrow> breaks f (place f r q) \<le> 1"
proof (induction f r q rule: place.induct)
  case (3 f r t n ts)
  show ?case
  proof (cases "fits (f r) (f t) (f n)")
    case True
    with 3 show ?thesis by (auto simp: fits_def comparable_def split: if_splits)
  next
    case False
    have c: "comparable f r (n # ts)" using 3(2) by (simp add: comparable_def)
    have b: "breaks f (t # place f r (n # ts)) = (if IN_ORDER (f t) (f n) then 0 else 1) + breaks f (place f r (n # ts))"
      using hd_place[of "n # ts" f r] by (subst breaks_Cons) simp_all
    show ?thesis
    proof (cases "IN_ORDER (f t) (f n)")
      case True
      then have "breaks f (place f r (n # ts)) \<le> 1" using 3 False c by simp
      with b True False show ?thesis by simp
    next
      case down: False
      then have "breaks f (n # ts) = 0" using 3(3) by simp
      moreover have "IN_ORDER (f n) (f r)" using False down 3(2) by (auto simp: fits_def comparable_def)
      ultimately have "breaks f (place f r (n # ts)) = 0" using place_sorted[OF c] by simp
      with b down False show ?thesis by simp
    qed
  qed
qed auto

lemma breaks_cong: "(\<And>i j. i \<in> set q \<Longrightarrow> j \<in> set q \<Longrightarrow> IN_ORDER (f i) (f j) = IN_ORDER (g i) (g j)) \<Longrightarrow> breaks f q = breaks g q"
  by (induction f q rule: breaks.induct) auto

lemma IN_ORDER_next [simp]: "IN_ORDER (a\<lparr>rq_next := x\<rparr>) (b\<lparr>rq_next := y\<rparr>) = IN_ORDER a b"
  by (simp add: IN_ORDER_def)

text \<open>The request done is taken off the queue and its slot is free.\<close>

lemma end_request_pops:
  assumes "queue_rep s major (r # q)" and "uptodate \<or> rq_bh (request s r) \<noteq> None"
  obtains s' where "end_request major uptodate s = Inr s'" and "queue_rep s' major q"
    and "rq_dev (request s' r) < 0" and "\<And>i. i \<noteq> r \<Longrightarrow> request s' i = request s i"
proof -
  define s1 where "s1 = (case rq_bh (request s r) of None \<Rightarrow> s
      | Some b \<Rightarrow> unlock_buffer b (upd_buf_of b (\<lambda>b. b\<lparr>b_uptodate := uptodate\<rparr>) s))"
  have s1: "request s1 = request s" "current_request s1 = current_request s" by (auto simp: s1_def split: option.splits)
  have c: "current_request s major = Some r" using assms(1) by (simp add: queue_rep_def)
  let ?s' = "upd_req r (\<lambda>q. q\<lparr>rq_dev := - 1\<rparr>) (s1\<lparr>current_request := (current_request s1)(major := rq_next (request s r))\<rparr>)"
  have "end_request major uptodate s = Inr ?s'"
    using assms(2) by (auto simp: end_request_def c Let_def s1_def)
  moreover have "(\<lambda>i. rq_next (request ?s' i)) = (\<lambda>i. rq_next (request s i))" by (auto simp: upd_req_def s1 fun_eq_iff)
  then have "queue_rep ?s' major q"
    using assms(1) unfolding queue_rep_def by (auto simp: upd_req_def s1)
  moreover have "rq_dev (request ?s' r) < 0" "\<And>i. i \<noteq> r \<Longrightarrow> request ?s' i = request s i" by (simp_all add: upd_req_def s1)
  ultimately show thesis by (rule that)
qed

text \<open>The block layer changes nothing of the buffer heads that the queues of the cache depend on.\<close>

lemma same_rings_refl [simp]: "same_rings c c"
  by (simp add: same_rings_def)

lemma same_rings_trans: "same_rings a b \<Longrightarrow> same_rings b c \<Longrightarrow> same_rings a c"
  by (simp add: same_rings_def)

lemma bcache_upd_req [simp]: "bcache (upd_req i f s) = bcache s"
  by (simp add: upd_req_def)

lemma same_rings_flags [simp]:
  "same_rings c (upd_bh i (b_dirt_update f) c)" "same_rings c (upd_bh i (b_lock_update g) c)"
  "same_rings c (upd_bh i (b_uptodate_update h) c)"
  by (simp_all add: same_rings_def upd_bh_def)

lemma add_request_links: "add_request major r s = Inr s' \<Longrightarrow> same_rings (bcache s) (bcache s')"
  by (auto simp: add_request_def Let_def kbind_Inr_iff upd_buf_of_def split: option.splits)

lemma unlock_links [simp]: "same_rings (bcache s) (bcache (unlock_buffer b s))"
  by (simp add: unlock_buffer_def upd_buf_of_def)

text \<open>
  So \<open>ll_rw_block\<close> meets the contract \<open>getblk\<close> relies on (\<open>io_sound\<close>): whatever is true of the cache because of its queues only (\<open>I\<close>) is
  still true when it returns, if what goes on while it waits for a lock or for a free request keeps it too.
\<close>

definition steps_keep :: "(cache \<Rightarrow> bool) \<Rightarrow> blk_env \<Rightarrow> bool" where
  "steps_keep I es \<longleftrightarrow> (\<forall>e\<in>set es. \<forall>s. I (bcache s) \<longrightarrow> I (bcache (e s)))"

lemma steps_keep_Cons [simp]: "steps_keep I (e # es) \<longleftrightarrow> (\<forall>s. I (bcache s) \<longrightarrow> I (bcache (e s))) \<and> steps_keep I es"
  by (simp add: steps_keep_def)

lemma lock_buffer_keeps:
  assumes "\<And>c c'. I c \<Longrightarrow> same_rings c c' \<Longrightarrow> I c'"
  shows "lock_buffer b es s = Inr (es', s') \<Longrightarrow> I (bcache s) \<Longrightarrow> steps_keep I es \<Longrightarrow> I (bcache s') \<and> steps_keep I es'"
proof (induction b es s rule: lock_buffer.induct)
  case (1 b s)
  then show ?case using assms[OF 1(2)] by (auto simp: upd_buf_of_def split: if_splits)
next
  case (2 b e es s)
  then show ?case using assms[OF 2(3)] by (auto simp: upd_buf_of_def split: if_splits)
qed

lemma take_slot_keeps:
  assumes I: "\<And>c c'. I c \<Longrightarrow> same_rings c c' \<Longrightarrow> I c'"
  shows "take_slot major rw ahead b es s = Inr (es', s') \<Longrightarrow> I (bcache s) \<Longrightarrow> steps_keep I es \<Longrightarrow> I (bcache s') \<and> steps_keep I es'"
proof (induction es arbitrary: s)
  case Nil
  show ?case
  proof (cases "free_slot (slots_for rw) s")
    case None
    with Nil I[OF Nil(2) unlock_links[of s b]] show ?thesis by (auto simp: take_slot.simps split: if_splits)
  next
    case (Some i)
    with Nil(1) have "add_request major i (upd_req i (\<lambda>_. buf_request rw b (bh (bcache s) b)) s) = Inr s'" "es' = []"
      by (auto simp: take_slot.simps kbind_Inr_iff)
    with I[OF Nil(2), of "bcache s'"] add_request_links Nil(3) show ?thesis by fastforce
  qed
next
  case (Cons e es)
  show ?case
  proof (cases "free_slot (slots_for rw) s")
    case None
    with Cons I[OF Cons.prems(2) unlock_links[of s b]] show ?thesis
      by (auto simp: take_slot.simps[of major rw ahead b "e # es"] split: if_splits)
  next
    case (Some i)
    with Cons.prems(1) have "add_request major i (upd_req i (\<lambda>_. buf_request rw b (bh (bcache s) b)) s) = Inr s'" "es' = e # es"
      by (auto simp: take_slot.simps kbind_Inr_iff)
    with I[OF Cons.prems(2), of "bcache s'"] add_request_links Cons.prems(3) show ?thesis by fastforce
  qed
qed

lemma ll_rw_block_keeps:
  assumes I: "\<And>c c'. I c \<Longrightarrow> same_rings c c' \<Longrightarrow> I c'"
    and "I (bcache s)" and "steps_keep I es" and "ll_rw_block rw b es s = Inr (es', s')"
  shows "I (bcache s') \<and> steps_keep I es'"
proof -
  have make: "I (bcache s') \<and> steps_keep I es'" if m: "make_request major rw b es s = Inr (es', s')" for major
  proof (cases "(rw = READA \<or> rw = WRITEA) \<and> b_lock (bh (bcache s) b)")
    case True
    with m assms show ?thesis by (simp add: make_request_def Let_def)
  next
    case False
    define rw1 where "rw1 = (if rw = READA then READ else if rw = WRITEA then WRITE else rw)"
    from m False obtain es1 s1 where l: "lock_buffer b es s = Inr (es1, s1)"
      and k: "(if rw1 = WRITE \<and> \<not> b_dirt (bh (bcache s1) b) \<or> rw1 = READ \<and> b_uptodate (bh (bcache s1) b)
               then Inr (es1, unlock_buffer b s1) else take_slot major rw1 (rw = READA \<or> rw = WRITEA) b es1 s1) = Inr (es', s')"
      unfolding make_request_def Let_def rw1_def[symmetric] by (auto simp: kbind_Inr_iff split: if_splits)
    have "I (bcache s1) \<and> steps_keep I es1" by (rule lock_buffer_keeps[where I = I, OF _ l assms(2,3)]) (rule I)
    then have L: "I (bcache s1)" "steps_keep I es1" by blast+
    show ?thesis
    proof (cases "rw1 = WRITE \<and> \<not> b_dirt (bh (bcache s1) b) \<or> rw1 = READ \<and> b_uptodate (bh (bcache s1) b)")
      case True
      with k have "es' = es1" "s' = unlock_buffer b s1" by simp_all
      with L(2) I[OF L(1) unlock_links[of s1 b]] show ?thesis by simp
    next
      case False
      with k have t: "take_slot major rw1 (rw = READA \<or> rw = WRITEA) b es1 s1 = Inr (es', s')" by (simp only: if_False)
      show ?thesis by (rule take_slot_keeps[where I = I, OF _ t L]) (rule I)
    qed
  qed
  then show ?thesis using assms by (auto simp: ll_rw_block_def Let_def split: if_splits)
qed

lemma ll_rw_block_links:
  assumes "ll_rw_block rw b [] s = Inr (es, s')"
  shows "same_rings (bcache s) (bcache s')"
proof -
  have "same_rings (bcache s) (bcache s') \<and> steps_keep (same_rings (bcache s)) es"
    by (rule ll_rw_block_keeps[where I = "same_rings (bcache s)" and es = "[]", OF _ _ _ assms]) (rule same_rings_trans, assumption+, simp_all add: steps_keep_def)
  then show ?thesis ..
qed

text \<open>
  A request for a page goes behind the current request and the other pages at the head of the queue. A request for a buffer is placed by
  its order alone, so it can go before a page that waits.
\<close>

lemma place_page:
  "rq_bh (f r) = None \<Longrightarrow> q \<noteq> [] \<Longrightarrow>
    place f r q = hd q # takeWhile (\<lambda>i. rq_bh (f i) = None) (tl q) @ r # dropWhile (\<lambda>i. rq_bh (f i) = None) (tl q)"
  by (induction f r q rule: place.induct) (auto simp: fits_def)

lemma buffer_before_page:
  assumes "rq_bh (f r) \<noteq> None" "rq_bh (f n) = None" "IN_ORDER (f t) (f r)" "IN_ORDER (f r) (f n)"
  shows "place f r [t, n] = [t, r, n]"
proof -
  have "fits (f r) (f t) (f n)" using assms by (simp add: fits_def)
  then show ?thesis by simp
qed

end
