(* ===== verification/Inodes.thy ===== *)
theory Inodes
  imports Truncate
begin

text \<open>
  The table of in-core inodes (\<open>fs/inode.c\<close>): reading and writing inodes, \<open>iget\<close> and \<open>iput\<close>. Every
  place where the code may sleep takes a step of the environment from a list: waiting for the
  lock of an inode, and each transfer of a block. Tasks woken up are not part of this state.
\<close>

section \<open>State\<close>

record isys =
  ifs :: fs_state
  inode_table :: "nat \<Rightarrow> m_inode"
  i_lock :: "nat \<Rightarrow> bool"
  last_inode :: nat
  s_imount :: "nat \<Rightarrow> nat option"
  blk_bytes :: "u16 \<Rightarrow> u32 option"
  freed_pages :: "u32 list"

type_synonym ienv = "(isys \<Rightarrow> isys) list"

definition NR_INODE :: nat where "NR_INODE = 64"
definition ROOT_INO :: u16 where "ROOT_INO = 1"
definition INODES_PER_BLOCK :: nat where "INODES_PER_BLOCK = 32"

definition upd_inode :: "nat \<Rightarrow> (m_inode \<Rightarrow> m_inode) \<Rightarrow> isys \<Rightarrow> isys" where
  "upd_inode i f s = s\<lparr>inode_table := (inode_table s)(i := f (inode_table s i))\<rparr>"

definition set_lock :: "nat \<Rightarrow> bool \<Rightarrow> isys \<Rightarrow> isys" where
  "set_lock i b s = s\<lparr>i_lock := (i_lock s)(i := b)\<rparr>"

definition nap :: "ienv \<Rightarrow> isys \<Rightarrow> ienv \<times> isys" where
  "nap es s = (case es of [] \<Rightarrow> ([], s) | e # es' \<Rightarrow> (es', e s))"

fun wait_on_inode :: "nat \<Rightarrow> ienv \<Rightarrow> isys \<Rightarrow> (ienv \<times> isys) kres" where
  "wait_on_inode i [] s = (if i_lock s i then Inl Unfinished else Inr ([], s))"
| "wait_on_inode i (e # es) s = (if i_lock s i then wait_on_inode i es (e s) else Inr (e # es, s))"

definition lock_inode :: "nat \<Rightarrow> ienv \<Rightarrow> isys \<Rightarrow> (ienv \<times> isys) kres" where
  "lock_inode i es s = kbind (wait_on_inode i es s) (\<lambda>(es1, s1). Inr (es1, set_lock i True s1))"

section \<open>Inodes on disk\<close>

text \<open>The 32 bytes of a \<open>d_inode\<close>, number \<open>k\<close> of its block.\<close>

definition put8 :: "block \<Rightarrow> nat \<Rightarrow> u8 \<Rightarrow> block" where "put8 b i v = b(i := v)"

definition put32 :: "block \<Rightarrow> nat \<Rightarrow> u32 \<Rightarrow> block" where
  "put32 b i v = put16 (put16 b (2 * i) (ucast v)) (2 * i + 1) (ucast (drop_bit 16 v))"

fun put_zones :: "nat list \<Rightarrow> nat \<Rightarrow> (nat \<Rightarrow> u16) \<Rightarrow> block \<Rightarrow> block" where
  "put_zones [] o' z b = b"
| "put_zones (j # js) o' z b = put_zones js o' z (put16 b (o' + j) (z j))"

definition store_inode :: "nat \<Rightarrow> m_inode \<Rightarrow> block \<Rightarrow> block" where
  "store_inode k n b =
     (let b1 = put16 b (16 * k) (i_mode n);
          b2 = put16 b1 (16 * k + 1) (i_uid n);
          b3 = put32 b2 (8 * k + 1) (i_size n);
          b4 = put32 b3 (8 * k + 2) (i_mtime n);
          b5 = put8 b4 (32 * k + 12) (i_gid n);
          b6 = put8 b5 (32 * k + 13) (i_nlinks n)
      in put_zones [0..<9] (16 * k + 7) (i_zone n) b6)"

definition load_inode :: "nat \<Rightarrow> block \<Rightarrow> m_inode \<Rightarrow> m_inode" where
  "load_inode k b n =
     n\<lparr>i_mode := get16 b (16 * k), i_uid := get16 b (16 * k + 1), i_size := get32 b (8 * k + 1),
       i_mtime := get32 b (8 * k + 2), i_gid := b (32 * k + 12), i_nlinks := b (32 * k + 13),
       i_zone := (\<lambda>j. if j < 9 then get16 b (16 * k + 7 + j) else i_zone n j)\<rparr>"

text \<open>Block and slot of an inode; number 0 would be the slot before the first of its block.\<close>

definition inode_block :: "super_block \<Rightarrow> m_inode \<Rightarrow> int" where
  "inode_block sb n = 2 + uint (s_imap_blocks sb) + uint (s_zmap_blocks sb) + int ((unat (i_num n) - 1) div 32)"

definition inode_slot :: "m_inode \<Rightarrow> nat" where
  "inode_slot n = (unat (i_num n) - 1) mod 32"

definition s_isblk :: "u16 \<Rightarrow> bool" where "s_isblk m \<longleftrightarrow> m AND 0xF000 = 0x6000"

definition read_inode :: "nat \<Rightarrow> ienv \<Rightarrow> isys \<Rightarrow> (ienv \<times> isys) kres" where
  "read_inode i es s =
     kbind (lock_inode i es s)
       (\<lambda>(es1, s1).
          let n = inode_table s1 i
          in case get_super (i_dev n) (ifs s1) of
               None \<Rightarrow> Inl (Panic ''trying to read inode without dev'')
             | Some k \<Rightarrow>
                 let blk = inode_block (super (ifs s1) k) n; (es2, s2) = nap es1 s1
                 in kbind (bread (i_dev n, blk) (ifs s2))
                      (\<lambda>(ok, f).
                         if \<not> ok then Inl (Panic ''unable to read i-node block'')
                         else if i_num (inode_table s2 i) = 0 then Inl OutOfBounds
                         else case bufs f (i_dev n, blk) of
                                None \<Rightarrow> Inl NullDeref
                              | Some b \<Rightarrow>
                                  let n2 = inode_table s2 i; n3 = load_inode (inode_slot n2) (b_data b) n2
                                  in kbind (brelse (i_dev n, blk) f)
                                       (\<lambda>f2.
                                          let n4 = (if s_isblk (i_mode n3)
                                                    then n3\<lparr>i_size := (case blk_bytes s2 (i_zone n3 0) of Some z \<Rightarrow> z | None \<Rightarrow> 0x7FFFFFFF)\<rparr>
                                                    else n3)
                                          in Inr (es2, set_lock i False (upd_inode i (\<lambda>_. n4) (s2\<lparr>ifs := f2\<rparr>))))))"

definition write_inode :: "nat \<Rightarrow> ienv \<Rightarrow> isys \<Rightarrow> (ienv \<times> isys) kres" where
  "write_inode i es s =
     kbind (lock_inode i es s)
       (\<lambda>(es1, s1).
          let n = inode_table s1 i
          in if \<not> i_dirt n \<or> i_dev n = 0 then Inr (es1, set_lock i False s1)
             else case get_super (i_dev n) (ifs s1) of
               None \<Rightarrow> Inl (Panic ''trying to write inode without device'')
             | Some k \<Rightarrow>
                 let blk = inode_block (super (ifs s1) k) n; (es2, s2) = nap es1 s1
                 in kbind (bread (i_dev n, blk) (ifs s2))
                      (\<lambda>(ok, f).
                         if \<not> ok then Inl (Panic ''unable to read i-node block'')
                         else if i_num (inode_table s2 i) = 0 then Inl OutOfBounds
                         else
                           let n2 = inode_table s2 i;
                               f1 = upd_buf (i_dev n, blk)
                                      (\<lambda>b. b\<lparr>b_data := store_inode (inode_slot n2) n2 (b_data b), b_dirt := True\<rparr>) f
                           in kbind (brelse (i_dev n, blk) f1)
                                (\<lambda>f2. Inr (es2, set_lock i False (upd_inode i (\<lambda>n. n\<lparr>i_dirt := False\<rparr>) (s2\<lparr>ifs := f2\<rparr>))))))"

fun invalidate_inodes_loop :: "u16 \<Rightarrow> nat list \<Rightarrow> ienv \<Rightarrow> isys \<Rightarrow> (ienv \<times> isys) kres" where
  "invalidate_inodes_loop dev [] es s = Inr (es, s)"
| "invalidate_inodes_loop dev (i # is) es s =
     kbind (wait_on_inode i es s)
       (\<lambda>(es1, s1). invalidate_inodes_loop dev is es1
          (if i_dev (inode_table s1 i) = dev then upd_inode i (\<lambda>n. n\<lparr>i_dev := 0, i_dirt := False\<rparr>) s1 else s1))"

definition invalidate_inodes :: "u16 \<Rightarrow> ienv \<Rightarrow> isys \<Rightarrow> (ienv \<times> isys) kres" where
  "invalidate_inodes dev = invalidate_inodes_loop dev [0..<NR_INODE]"

fun sync_inodes_loop :: "nat list \<Rightarrow> ienv \<Rightarrow> isys \<Rightarrow> (ienv \<times> isys) kres" where
  "sync_inodes_loop [] es s = Inr (es, s)"
| "sync_inodes_loop (i # is) es s =
     kbind (wait_on_inode i es s)
       (\<lambda>(es1, s1). kbind (if i_dirt (inode_table s1 i) \<and> \<not> i_pipe (inode_table s1 i)
                           then write_inode i es1 s1 else Inr (es1, s1))
          (\<lambda>(es2, s2). sync_inodes_loop is es2 s2))"

definition sync_inodes :: "ienv \<Rightarrow> isys \<Rightarrow> (ienv \<times> isys) kres" where
  "sync_inodes = sync_inodes_loop [0..<NR_INODE]"

section \<open>Releasing and getting inodes\<close>

definition count_add :: "nat \<Rightarrow> u16 \<Rightarrow> isys \<Rightarrow> isys" where
  "count_add i d = upd_inode i (\<lambda>n. n\<lparr>i_count := i_count n + d\<rparr>)"

text \<open>From the label \<open>repeat\<close> of \<open>iput\<close>. A \<open>truncate\<close> that would have to wait is \<open>Unfinished\<close>.\<close>

fun iput_repeat :: "nat \<Rightarrow> nat \<Rightarrow> ienv \<Rightarrow> isys \<Rightarrow> (ienv \<times> isys) kres" where
  "iput_repeat 0 i es s = Inl Unfinished"
| "iput_repeat (Suc fuel) i es s =
     (let n = inode_table s i
      in if i_count n > 1 then Inr (es, count_add i (- 1) s)
         else if i_nlinks n = 0
         then kbind (Truncate.truncate [] n (ifs s))
                (\<lambda>r. case r of
                   None \<Rightarrow> Inl Unfinished
                 | Some (n1, f1) \<Rightarrow>
                     kbind (free_inode n1 f1)
                       (\<lambda>(n2, f2). Inr (es, set_lock i False (upd_inode i (\<lambda>_. n2) (s\<lparr>ifs := f2\<rparr>)))))
         else if i_dirt n
         then kbind (write_inode i es s)
                (\<lambda>(es1, s1). kbind (wait_on_inode i es1 s1) (\<lambda>(es2, s2). iput_repeat fuel i es2 s2))
         else Inr (es, count_add i (- 1) s))"

definition iput :: "nat \<Rightarrow> nat option \<Rightarrow> ienv \<Rightarrow> isys \<Rightarrow> (ienv \<times> isys) kres" where
  "iput fuel r es s =
     (case r of None \<Rightarrow> Inr (es, s)
      | Some i \<Rightarrow>
          kbind (wait_on_inode i es s)
            (\<lambda>(es1, s1).
               let n = inode_table s1 i
               in if i_count n = 0 then Inl (Panic ''iput: trying to free free inode'')
                  else if i_pipe n
                  then if i_count n - 1 \<noteq> 0 then Inr (es1, count_add i (- 1) s1)
                       else Inr (es1, upd_inode i (\<lambda>n. n\<lparr>i_count := 0, i_dirt := False, i_pipe := False\<rparr>)
                                        (s1\<lparr>freed_pages := i_size n # freed_pages s1\<rparr>))
                  else if i_dev n = 0 then Inr (es1, count_add i (- 1) s1)
                  else if s_isblk (i_mode n)
                  then (let (es2, s2) = nap es1 s1
                        in kbind (wait_on_inode i es2 s2) (\<lambda>(es3, s3). iput_repeat fuel i es3 s3))
                  else iput_repeat fuel i es1 s1))"

text \<open>
  The search of \<open>get_empty_inode\<close>: at most 64 steps from the inode after the last one tried; a free
  inode that is clean and unlocked ends it.
\<close>

fun empty_scan :: "nat \<Rightarrow> nat option \<Rightarrow> isys \<Rightarrow> nat option \<times> isys" where
  "empty_scan 0 found s = (found, s)"
| "empty_scan (Suc k) found s =
     (let l = (if last_inode s + 1 \<ge> NR_INODE then 0 else last_inode s + 1);
          s1 = s\<lparr>last_inode := l\<rparr>
      in if i_count (inode_table s1 l) = 0
         then if \<not> i_dirt (inode_table s1 l) \<and> \<not> i_lock s1 l then (Some l, s1) else empty_scan k (Some l) s1
         else empty_scan k found s1)"

fun clean_inode :: "nat \<Rightarrow> nat \<Rightarrow> ienv \<Rightarrow> isys \<Rightarrow> (ienv \<times> isys) kres" where
  "clean_inode 0 i es s = Inl Unfinished"
| "clean_inode (Suc fuel) i es s =
     (if \<not> i_dirt (inode_table s i) then Inr (es, s)
      else kbind (write_inode i es s)
             (\<lambda>(es1, s1). kbind (wait_on_inode i es1 s1) (\<lambda>(es2, s2). clean_inode fuel i es2 s2)))"

fun get_empty_inode :: "nat \<Rightarrow> ienv \<Rightarrow> isys \<Rightarrow> (nat \<times> ienv \<times> isys) kres" where
  "get_empty_inode 0 es s = Inl Unfinished"
| "get_empty_inode (Suc fuel) es s =
     (case empty_scan NR_INODE None s of
        (None, s1) \<Rightarrow> Inl (Panic ''No free inodes in mem'')
      | (Some i, s1) \<Rightarrow>
          kbind (wait_on_inode i es s1)
            (\<lambda>(es2, s2). kbind (clean_inode fuel i es2 s2)
               (\<lambda>(es3, s3).
                  if i_count (inode_table s3 i) \<noteq> 0 then get_empty_inode fuel es3 s3
                  else Inr (i, es3, set_lock i False (upd_inode i (\<lambda>_. zero_inode\<lparr>i_count := 1\<rparr>) s3)))))"

text \<open>\<open>pg\<close> is what \<open>get_free_page\<close> returns.\<close>

definition get_pipe_inode :: "nat \<Rightarrow> u32 \<Rightarrow> ienv \<Rightarrow> isys \<Rightarrow> (nat option \<times> ienv \<times> isys) kres" where
  "get_pipe_inode fuel pg es s =
     kbind (get_empty_inode fuel es s)
       (\<lambda>(i, es1, s1).
          if pg = 0 then Inr (None, es1, upd_inode i (\<lambda>n. n\<lparr>i_size := 0, i_count := 0\<rparr>) s1)
          else Inr (Some i, es1,
                 upd_inode i (\<lambda>n. n\<lparr>i_size := pg, i_count := 2, i_zone := (i_zone n)(0 := 0, 1 := 0), i_pipe := True\<rparr>) s1))"

definition mounted_on :: "nat \<Rightarrow> isys \<Rightarrow> nat option" where
  "mounted_on i s = find (\<lambda>k. s_imount s k = Some i) [0..<NR_SUPER]"

text \<open>The walk of \<open>iget\<close> over the table, at inode \<open>k\<close>; \<open>spare\<close> is the empty inode taken first.\<close>

fun iget_scan :: "nat \<Rightarrow> u16 \<Rightarrow> u16 \<Rightarrow> nat \<Rightarrow> nat \<Rightarrow> ienv \<Rightarrow> isys \<Rightarrow> (nat \<times> ienv \<times> isys) kres" where
  "iget_scan 0 dev nr k spare es s = Inl Unfinished"
| "iget_scan (Suc fuel) dev nr k spare es s =
     (if k \<ge> NR_INODE
      then kbind (read_inode spare es (upd_inode spare (\<lambda>n. n\<lparr>i_dev := dev, i_num := nr\<rparr>) s))
             (\<lambda>(es1, s1). Inr (spare, es1, s1))
      else if i_dev (inode_table s k) \<noteq> dev \<or> i_num (inode_table s k) \<noteq> nr
      then iget_scan fuel dev nr (k + 1) spare es s
      else kbind (wait_on_inode k es s)
             (\<lambda>(es1, s1).
                if i_dev (inode_table s1 k) \<noteq> dev \<or> i_num (inode_table s1 k) \<noteq> nr
                then iget_scan fuel dev nr 0 spare es1 s1
                else
                  let s2 = count_add k 1 s1
                  in if i_mount (inode_table s2 k)
                     then case mounted_on k s2 of
                            None \<Rightarrow> kbind (iput fuel (Some spare) es1 s2) (\<lambda>(es3, s3). Inr (k, es3, s3))
                          | Some m \<Rightarrow> kbind (iput fuel (Some k) es1 s2)
                                        (\<lambda>(es3, s3). iget_scan fuel (s_dev (super (ifs s3) m)) ROOT_INO 0 spare es3 s3)
                     else kbind (iput fuel (Some spare) es1 s2) (\<lambda>(es3, s3). Inr (k, es3, s3))))"

definition iget :: "nat \<Rightarrow> u16 \<Rightarrow> u16 \<Rightarrow> ienv \<Rightarrow> isys \<Rightarrow> (nat \<times> ienv \<times> isys) kres" where
  "iget fuel dev nr es s =
     (if dev = 0 then Inl (Panic ''iget with dev==0'')
      else kbind (get_empty_inode fuel es s)
             (\<lambda>(i, es1, s1). iget_scan fuel dev nr 0 i es1 s1))"

section \<open>Inodes written are read back\<close>

lemma get16_put8 [simp]: "x div 2 \<noteq> j \<Longrightarrow> get16 (put8 b x v) j = get16 b j"
  by (auto simp: get16_def put8_def)

lemma put16_byte: "x div 2 \<noteq> i \<Longrightarrow> put16 b i v x = b x"
  by (auto simp: put16_def)

lemma put32_byte: "x div 4 \<noteq> i \<Longrightarrow> put32 b i v x = b x"
  unfolding put32_def by (subst put16_byte, presburger)+ (rule refl)

lemma put8_byte [simp]: "put8 b i v x = (if x = i then v else b x)"
  by (simp add: put8_def)

lemma get16_put32: "j div 2 \<noteq> i \<Longrightarrow> get16 (put32 b i v) j = get16 b j"
  unfolding put32_def by (subst get16_put16_other, presburger)+ (rule refl)

lemma get32_put32 [simp]: "get32 (put32 b i v) i = v"
proof (rule bit_word_eqI)
  fix k assume k: "k < LENGTH(32)"
  have "get16 (put32 b i v) (2 * i) = ucast v" "get16 (put32 b i v) (2 * i + 1) = ucast (drop_bit 16 v)"
    by (simp_all add: put32_def)
  then show "bit (get32 (put32 b i v) i) k = bit v k"
    using k by (auto simp: bit_get32 bit_simps)
qed

lemma get32_cong: "get16 b (2 * i) = get16 c (2 * i) \<Longrightarrow> get16 b (2 * i + 1) = get16 c (2 * i + 1) \<Longrightarrow> get32 b i = get32 c i"
  by (simp add: get32_def)

lemma get32_put32_other: "i \<noteq> j \<Longrightarrow> get32 (put32 b i v) j = get32 b j"
  by (intro get32_cong get16_put32) auto

lemma get32_put8: "x div 4 \<noteq> j \<Longrightarrow> get32 (put8 b x v) j = get32 b j"
  by (intro get32_cong get16_put8; presburger)

lemma get16_put_zones:
  "distinct js \<Longrightarrow> get16 (put_zones js p z b) i = (if p \<le> i \<and> i - p \<in> set js then z (i - p) else get16 b i)"
proof (induction js arbitrary: b)
  case (Cons j js)
  then show ?case by (cases "i = p + j") auto
qed simp

lemma put_zones_byte: "x < 2 * p \<Longrightarrow> put_zones js p z b x = b x"
proof (induction js arbitrary: b)
  case (Cons j js)
  then show ?case by (simp add: put16_byte)
qed simp

lemma store_load:
  "load_inode k (store_inode k n b) m =
    m\<lparr>i_mode := i_mode n, i_uid := i_uid n, i_size := i_size n, i_mtime := i_mtime n, i_gid := i_gid n,
      i_nlinks := i_nlinks n, i_zone := (\<lambda>j. if j < 9 then i_zone n j else i_zone m j)\<rparr>"
proof -
  let ?b = "store_inode k n b"
  have g16: "get16 ?b (16 * k) = i_mode n" "get16 ?b (16 * k + 1) = i_uid n"
    by (simp_all add: store_inode_def Let_def get16_put_zones get16_put32)
  have g32: "get32 ?b (8 * k + 1) = i_size n" "get32 ?b (8 * k + 2) = i_mtime n"
  proof -
    let ?c = "put8 (put8 (put32 (put32 (put16 (put16 b (16 * k) (i_mode n)) (16 * k + 1) (i_uid n))
               (8 * k + 1) (i_size n)) (8 * k + 2) (i_mtime n)) (32 * k + 12) (i_gid n)) (32 * k + 13) (i_nlinks n)"
    have "get32 ?b (8 * k + 1) = get32 ?c (8 * k + 1)" "get32 ?b (8 * k + 2) = get32 ?c (8 * k + 2)"
      by (rule get32_cong; simp add: store_inode_def Let_def get16_put_zones)+
    then show "get32 ?b (8 * k + 1) = i_size n" "get32 ?b (8 * k + 2) = i_mtime n"
      by (simp_all add: get32_put8 get32_put32_other)
  qed
  have g8: "?b (32 * k + 12) = i_gid n" "?b (32 * k + 13) = i_nlinks n"
    by (simp_all add: store_inode_def Let_def put_zones_byte)
  have z: "get16 ?b (16 * k + 7 + j) = i_zone n j" if "j < 9" for j
    using that by (simp add: store_inode_def Let_def get16_put_zones)
  show ?thesis
    unfolding load_inode_def g16 g32 g8 using z by (simp cong: if_cong)
qed

text \<open>Storing one inode leaves the others of its block alone.\<close>

lemma put_zones_other: "(\<forall>j\<in>set js. x div 2 \<noteq> p + j) \<Longrightarrow> put_zones js p f c x = c x"
  by (induction js arbitrary: c) (simp_all add: put16_byte)

lemma store_byte:
  assumes "x div 32 \<noteq> k"
  shows "store_inode k n b x = b x"
proof -
  have d2: "x div 2 \<noteq> 16 * k + c" if "c < 16" for c
  proof
    assume "x div 2 = 16 * k + c"
    then have "x div 2 div 16 = k" using that by simp
    with assms show False by (simp add: div_mult2_eq[symmetric])
  qed
  have d4: "x div 4 \<noteq> 8 * k + c" if "c < 8" for c
  proof
    assume "x div 4 = 8 * k + c"
    then have "x div 4 div 8 = k" using that by simp
    with assms show False by (simp add: div_mult2_eq[symmetric])
  qed
  have d1: "x \<noteq> 32 * k + c" if "c < 32" for c using assms that by auto
  have "\<forall>j\<in>set [0..<9]. x div 2 \<noteq> 16 * k + 7 + j" using d2 by (auto simp: add.assoc)
  then show ?thesis
    using d2[of 0] d2[of 1] d4[of 1] d4[of 2] d1[of 12] d1[of 13]
    unfolding store_inode_def Let_def by (subst put_zones_other) (simp_all add: put16_byte put32_byte)
qed

lemma load_inode_cong:
  assumes "\<And>x. x div 32 = j \<Longrightarrow> b x = c x"
  shows "load_inode j b m = load_inode j c m"
proof -
  have b: "b (32 * j + i) = c (32 * j + i)" if "i < 32" for i using that by (intro assms) simp
  have g: "get16 b (16 * j + i) = get16 c (16 * j + i)" if "i < 16" for i
    using b[of "2 * i"] b[of "2 * i + 1"] that by (simp add: get16_def distrib_left)
  have h: "get32 b (8 * j + i) = get32 c (8 * j + i)" if "i < 8" for i
    using g[of "2 * i"] g[of "2 * i + 1"] that by (intro get32_cong) (simp_all add: distrib_left add.assoc)
  show ?thesis
    unfolding load_inode_def
    using g[of 0] g[of 1] h[of 1] h[of 2] b[of 12] b[of 13] g[of "7 + _"]
    by (simp add: add.assoc cong: if_cong)
qed

lemma store_other:
  assumes "j \<noteq> k"
  shows "load_inode j (store_inode k n b) m = load_inode j b m"
  by (rule load_inode_cong, rule store_byte) (use assms in simp)

text \<open>
  With the block in the cache: an inode written out and read into another slot of the table, with
  nothing else running, has the fields a \<open>d_inode\<close> holds.
\<close>

definition disk_fields :: "m_inode \<Rightarrow> m_inode \<Rightarrow> m_inode" where
  "disk_fields n m = m\<lparr>i_mode := i_mode n, i_uid := i_uid n, i_size := i_size n, i_mtime := i_mtime n, i_gid := i_gid n,
      i_nlinks := i_nlinks n, i_zone := (\<lambda>j. if j < 9 then i_zone n j else i_zone m j)\<rparr>"

text \<open>For the inode of a block device the size is not the one on disk but that of the device, if it is known.\<close>

definition loaded_fields :: "(u16 \<Rightarrow> u32 option) \<Rightarrow> m_inode \<Rightarrow> m_inode \<Rightarrow> m_inode" where
  "loaded_fields sizes n m = (disk_fields n m)
     \<lparr>i_size := (if s_isblk (i_mode n) then (case sizes (i_zone n 0) of Some z \<Rightarrow> z | None \<Rightarrow> 0x7FFFFFFF) else i_size n)\<rparr>"

lemma write_then_read:
  assumes w: "write_inode i [] s = Inr (es, s1)" and d: "i_dirt (inode_table s i)" "i_dev (inode_table s i) \<noteq> 0"
    and s2: "s2 = upd_inode j (\<lambda>n. n\<lparr>i_dev := i_dev (inode_table s i), i_num := i_num (inode_table s i)\<rparr>) s1"
    and r: "read_inode j [] s2 = Inr (es', s3)"
  shows "inode_table s3 j = loaded_fields (blk_bytes s2) (inode_table s i) (inode_table s2 j)"
    and "\<not> i_dirt (inode_table s1 i)"
proof -
  let ?n = "inode_table s i"
  from w have l: "\<not> i_lock s i"
    by (auto simp: write_inode_def lock_inode_def kbind_Inr_iff split: if_splits)
  obtain k where k: "get_super (i_dev ?n) (ifs s) = Some k"
    using w d l by (cases "get_super (i_dev ?n) (ifs s)") (auto simp: write_inode_def lock_inode_def set_lock_def Let_def nap_def)
  let ?q = "(i_dev ?n, inode_block (super (ifs s) k) ?n)"
  obtain f f2 where b: "bread ?q (ifs s) = Inr (True, f)" and nz: "i_num ?n \<noteq> 0"
    and br: "brelse ?q (upd_buf ?q (\<lambda>b. b\<lparr>b_data := store_inode (inode_slot ?n) ?n (b_data b), b_dirt := True\<rparr>) f) = Inr f2"
    and s1: "s1 = set_lock i False (upd_inode i (\<lambda>n. n\<lparr>i_dirt := False\<rparr>) ((set_lock i True s)\<lparr>ifs := f2\<rparr>))"
    using w d l k by (auto simp: write_inode_def lock_inode_def set_lock_def Let_def nap_def kbind_Inr_iff split: if_splits)
  show "\<not> i_dirt (inode_table s1 i)" by (simp add: s1 set_lock_def upd_inode_def)
  obtain b0 where b0: "bufs f ?q = Some b0" "b_uptodate b0" and sf: "super f = super (ifs s)"
    using bread_ok[OF b] by metis
  let ?f1 = "upd_buf ?q (\<lambda>b. b\<lparr>b_data := store_inode (inode_slot ?n) ?n (b_data b), b_dirt := True\<rparr>) f"
  have b1: "bufs ?f1 ?q = Some (b0\<lparr>b_data := store_inode (inode_slot ?n) ?n (b_data b0), b_dirt := True\<rparr>)"
    using b0 by simp
  have c2: "contents f2 ?q = Some (store_inode (inode_slot ?n) ?n (b_data b0))" and sp2: "super f2 = super (ifs s)"
    using brelse_ok(2,5)[OF br b1] b0 sf by (simp_all add: contents_def)
  have fs2: "ifs s2 = f2"
    by (simp add: s2 s1 upd_inode_def set_lock_def)
  have n2: "i_dev (inode_table s2 j) = i_dev ?n" "i_num (inode_table s2 j) = i_num ?n"
    by (simp_all add: s2 upd_inode_def)
  have k2: "get_super (i_dev ?n) f2 = Some k" using k get_super_cong[of f2 "ifs s"] sp2 by simp
  have q2: "inode_block (super f2 k) (inode_table s2 j) = snd ?q" "inode_slot (inode_table s2 j) = inode_slot ?n"
    by (simp_all add: inode_block_def inode_slot_def n2 sp2)
  have l2: "\<not> i_lock s2 j" using r by (auto simp: read_inode_def lock_inode_def kbind_Inr_iff split: if_splits)
  obtain g bb g2 where bg: "bread ?q f2 = Inr (True, g)" and bb: "bufs g ?q = Some bb"
    and s3: "inode_table s3 j = (let n3 = load_inode (inode_slot ?n) (b_data bb) (inode_table s2 j)
        in if s_isblk (i_mode n3) then n3\<lparr>i_size := (case blk_bytes s2 (i_zone n3 0) of Some z \<Rightarrow> z | None \<Rightarrow> 0x7FFFFFFF)\<rparr> else n3)"
    using r l2 k2 q2 n2 nz fs2
    by (auto simp: read_inode_def lock_inode_def set_lock_def Let_def nap_def kbind_Inr_iff upd_inode_def
        split: if_splits option.splits)
  obtain bb' where "bufs g ?q = Some bb'" "contents f2 ?q = Some (b_data bb')" using bread_ok[OF bg] by metis
  then have "b_data bb = store_inode (inode_slot ?n) ?n (b_data b0)" using bb c2 by simp
  then have ld: "load_inode (inode_slot ?n) (b_data bb) (inode_table s2 j) = disk_fields ?n (inode_table s2 j)"
    by (simp add: store_load disk_fields_def)
  then show "inode_table s3 j = loaded_fields (blk_bytes s2) ?n (inode_table s2 j)"
    by (simp add: s3 Let_def loaded_fields_def disk_fields_def)
qed

end
