(* ===== verification/InodeTable.thy ===== *)
theory InodeTable
  imports Inodes
begin

text \<open>
  The table of inodes never holds two inodes for the same device and number, whatever other
  processes do while \<open>iget\<close> and \<open>iput\<close> sleep, as long as they keep that too.
\<close>

definition iuniq :: "isys \<Rightarrow> bool" where
  "iuniq s \<longleftrightarrow> (\<forall>i<NR_INODE. \<forall>j<NR_INODE.
     i_dev (inode_table s i) \<noteq> 0 \<and> i_dev (inode_table s i) = i_dev (inode_table s j)
     \<and> i_num (inode_table s i) = i_num (inode_table s j) \<longrightarrow> i = j)"

definition ienv_ok :: "ienv \<Rightarrow> bool" where
  "ienv_ok es \<longleftrightarrow> (\<forall>e\<in>set es. \<forall>s. iuniq s \<longrightarrow> iuniq (e s))"

definition keeps :: "ienv \<times> isys \<Rightarrow> bool" where
  "keeps r \<longleftrightarrow> iuniq (snd r) \<and> ienv_ok (fst r)"

lemma ienv_simps [simp]: "ienv_ok []" "ienv_ok (e # es) \<longleftrightarrow> (\<forall>s. iuniq s \<longrightarrow> iuniq (e s)) \<and> ienv_ok es"
  by (simp_all add: ienv_ok_def)

text \<open>Changes that keep device and number, or clear them.\<close>

lemma iuniq_same:
  assumes "iuniq s" and "\<And>i. i_dev (inode_table s' i) = 0 \<or>
    i_dev (inode_table s' i) = i_dev (inode_table s i) \<and> i_num (inode_table s' i) = i_num (inode_table s i)"
  shows "iuniq s'"
  using assms unfolding iuniq_def by metis

lemma iuniq_upd:
  "iuniq s \<Longrightarrow> (i_dev (f (inode_table s i)) = 0 \<or>
      i_dev (f (inode_table s i)) = i_dev (inode_table s i) \<and> i_num (f (inode_table s i)) = i_num (inode_table s i)) \<Longrightarrow>
    iuniq (upd_inode i f s)"
  by (rule iuniq_same) (auto simp: upd_inode_def)

lemma iuniq_fields [simp]:
  "iuniq (set_lock i b s) = iuniq s" "iuniq (s\<lparr>ifs := f\<rparr>) = iuniq s" "iuniq (s\<lparr>last_inode := l\<rparr>) = iuniq s"
  "iuniq (s\<lparr>freed_pages := p\<rparr>) = iuniq s"
  by (simp_all add: iuniq_def set_lock_def)

lemma iuniq_count [simp]: "iuniq s \<Longrightarrow> iuniq (count_add i d s)"
  unfolding count_add_def by (rule iuniq_upd) simp_all

lemma nap_keeps: "iuniq s \<Longrightarrow> ienv_ok es \<Longrightarrow> keeps (nap es s)"
  by (auto simp: nap_def keeps_def split: list.splits)

lemma wait_keeps: "wait_on_inode i es s = Inr r \<Longrightarrow> iuniq s \<Longrightarrow> ienv_ok es \<Longrightarrow> keeps r"
  by (induction i es s rule: wait_on_inode.induct) (auto simp: keeps_def split: if_splits)

lemma lock_keeps: "lock_inode i es s = Inr r \<Longrightarrow> iuniq s \<Longrightarrow> ienv_ok es \<Longrightarrow> keeps r"
  using wait_keeps[of i es s] by (fastforce simp: lock_inode_def kbind_Inr_iff keeps_def)

lemma load_ids [simp]: "i_dev (load_inode k b n) = i_dev n" "i_num (load_inode k b n) = i_num n"
  by (simp_all add: load_inode_def)

lemma write_keeps:
  assumes "write_inode i es s = Inr r" and "iuniq s" and "ienv_ok es"
  shows "keeps r"
proof -
  from assms(1) obtain es1 s1 where l: "lock_inode i es s = Inr (es1, s1)" by (auto simp: write_inode_def kbind_Inr_iff)
  from lock_keeps[OF l assms(2,3)] have k: "iuniq s1" "ienv_ok es1" by (simp_all add: keeps_def)
  obtain es2 s2 where n: "nap es1 s1 = (es2, s2)" by (cases "nap es1 s1")
  from nap_keeps[OF k] n have k2: "iuniq s2" "ienv_ok es2" by (simp_all add: keeps_def)
  show ?thesis
    using assms(1) l n k k2
    by (auto simp: write_inode_def kbind_Inr_iff Let_def keeps_def intro!: iuniq_upd split: if_splits option.splits)
qed

lemma read_keeps:
  assumes "read_inode i es s = Inr r" and "iuniq s" and "ienv_ok es"
  shows "keeps r"
proof -
  from assms(1) obtain es1 s1 where l: "lock_inode i es s = Inr (es1, s1)" by (auto simp: read_inode_def kbind_Inr_iff)
  from lock_keeps[OF l assms(2,3)] have k: "iuniq s1" "ienv_ok es1" by (simp_all add: keeps_def)
  obtain es2 s2 where n: "nap es1 s1 = (es2, s2)" by (cases "nap es1 s1")
  from nap_keeps[OF k] n have k2: "iuniq s2" "ienv_ok es2" by (simp_all add: keeps_def)
  show ?thesis
    using assms(1) l n k2
    by (auto simp: read_inode_def kbind_Inr_iff Let_def keeps_def intro!: iuniq_upd split: if_splits option.splits)
qed

lemma free_inode_zero: "free_inode n f = Inr (m, g) \<Longrightarrow> m = zero_inode"
  by (auto simp: free_inode_def Let_def split: if_splits option.splits)

lemma iput_repeat_keeps: "iput_repeat fuel i es s = Inr r \<Longrightarrow> iuniq s \<Longrightarrow> ienv_ok es \<Longrightarrow> keeps r"
proof (induction fuel arbitrary: es s)
  case 0
  then show ?case by simp
next
  case (Suc fuel)
  let ?n = "inode_table s i"
  consider (dec) "r = (es, count_add i (- 1) s)"
    | (free) f2 where "r = (es, set_lock i False (upd_inode i (\<lambda>_. zero_inode) (s\<lparr>ifs := f2\<rparr>)))"
    | (again) es1 s1 es2 s2 where "write_inode i es s = Inr (es1, s1)" "wait_on_inode i es1 s1 = Inr (es2, s2)"
        "iput_repeat fuel i es2 s2 = Inr r"
    using Suc.prems(1) by (auto simp: Let_def kbind_Inr_iff dest!: free_inode_zero split: if_splits option.splits)
  then show ?case
  proof cases
    case dec
    with Suc.prems show ?thesis by (simp add: keeps_def)
  next
    case free
    with Suc.prems show ?thesis by (auto simp: keeps_def zero_inode_def intro!: iuniq_upd)
  next
    case again
    from write_keeps[OF again(1) Suc.prems(2,3)] have "iuniq s1" "ienv_ok es1" by (simp_all add: keeps_def)
    from wait_keeps[OF again(2) this] have "iuniq s2" "ienv_ok es2" by (simp_all add: keeps_def)
    from Suc.IH[OF again(3) this] show ?thesis .
  qed
qed

lemma iput_keeps:
  assumes "iput fuel q es s = Inr r" and "iuniq s" and "ienv_ok es"
  shows "keeps r"
proof (cases q)
  case None
  with assms show ?thesis by (auto simp: iput_def keeps_def)
next
  case (Some i)
  with assms(1) obtain es1 s1 where w: "wait_on_inode i es s = Inr (es1, s1)" by (auto simp: iput_def kbind_Inr_iff)
  from wait_keeps[OF w assms(2,3)] have k: "iuniq s1" "ienv_ok es1" by (simp_all add: keeps_def)
  obtain es2 s2 where n: "nap es1 s1 = (es2, s2)" by (cases "nap es1 s1")
  from nap_keeps[OF k] n have k2: "iuniq s2" "ienv_ok es2" by (simp_all add: keeps_def)
  let ?n = "inode_table s1 i"
  have b: "(if i_count ?n = 0 then Inl (Panic ''iput: trying to free free inode'')
      else if i_pipe ?n
      then if i_count ?n - 1 \<noteq> 0 then Inr (es1, count_add i (- 1) s1)
           else Inr (es1, upd_inode i (\<lambda>n. n\<lparr>i_count := 0, i_dirt := False, i_pipe := False\<rparr>)
                            (s1\<lparr>freed_pages := i_size ?n # freed_pages s1\<rparr>))
      else if i_dev ?n = 0 then Inr (es1, count_add i (- 1) s1)
      else if s_isblk (i_mode ?n) then kbind (wait_on_inode i es2 s2) (\<lambda>(es3, s3). iput_repeat fuel i es3 s3)
      else iput_repeat fuel i es1 s1) = Inr r"
    using assms(1) by (simp only: iput_def Some w option.case kbind.simps prod.case Let_def n)
  have dec: "keeps (es1, count_add i (- 1) s1)" using k by (simp add: keeps_def)
  have pipe: "keeps (es1, upd_inode i (\<lambda>n. n\<lparr>i_count := 0, i_dirt := False, i_pipe := False\<rparr>)
                              (s1\<lparr>freed_pages := i_size ?n # freed_pages s1\<rparr>))"
    using k by (auto simp: keeps_def intro!: iuniq_upd)
  have blk: "keeps r" if a: "kbind (wait_on_inode i es2 s2) (\<lambda>(es3, s3). iput_repeat fuel i es3 s3) = Inr r"
  proof -
    from a obtain es3 s3 where w3: "wait_on_inode i es2 s2 = Inr (es3, s3)" and p: "iput_repeat fuel i es3 s3 = Inr r"
      by (auto simp: kbind_Inr_iff)
    from wait_keeps[OF w3 k2] have "iuniq s3" "ienv_ok es3" by (simp_all add: keeps_def)
    from iput_repeat_keeps[OF p this] show ?thesis .
  qed
  have rep: "keeps r" if "iput_repeat fuel i es1 s1 = Inr r" using iput_repeat_keeps[OF that k] .
  show ?thesis
  proof (cases "i_count ?n = 0 \<or> i_pipe ?n \<or> i_dev ?n = 0")
    case True
    with b dec pipe show ?thesis by (metis Inl_Inr_False Inr_inject)
  next
    case False
    with b blk rep show ?thesis by metis
  qed
qed

lemma empty_scan_table: "inode_table (snd (empty_scan k found s)) = inode_table s"
  by (induction k found s rule: empty_scan.induct) (simp_all add: Let_def)

lemma clean_keeps: "clean_inode fuel i es s = Inr r \<Longrightarrow> iuniq s \<Longrightarrow> ienv_ok es \<Longrightarrow> keeps r"
proof (induction fuel arbitrary: es s)
  case (Suc fuel)
  show ?case
  proof (cases "i_dirt (inode_table s i)")
    case False
    with Suc.prems show ?thesis by (auto simp: keeps_def)
  next
    case True
    with Suc.prems(1) obtain es1 s1 es2 s2 where a: "write_inode i es s = Inr (es1, s1)" "wait_on_inode i es1 s1 = Inr (es2, s2)"
      "clean_inode fuel i es2 s2 = Inr r" by (auto simp: kbind_Inr_iff)
    from write_keeps[OF a(1) Suc.prems(2,3)] have "iuniq s1" "ienv_ok es1" by (simp_all add: keeps_def)
    from wait_keeps[OF a(2) this] have "iuniq s2" "ienv_ok es2" by (simp_all add: keeps_def)
    from Suc.IH[OF a(3) this] show ?thesis .
  qed
qed simp

lemma get_empty_keeps:
  "get_empty_inode fuel es s = Inr (i, es', s') \<Longrightarrow> iuniq s \<Longrightarrow> ienv_ok es \<Longrightarrow>
    iuniq s' \<and> ienv_ok es' \<and> inode_table s' i = zero_inode\<lparr>i_count := 1\<rparr> \<and> \<not> i_lock s' i"
proof (induction fuel arbitrary: es s)
  case (Suc fuel)
  obtain c s1 where e: "empty_scan NR_INODE None s = (c, s1)" by (cases "empty_scan NR_INODE None s")
  have t: "iuniq s1" using empty_scan_table[of NR_INODE None s] e Suc.prems(2) by (simp add: iuniq_def)
  obtain j es2 s2 es3 s3 where a: "c = Some j" "wait_on_inode j es s1 = Inr (es2, s2)" "clean_inode fuel j es2 s2 = Inr (es3, s3)"
    and b: "(if i_count (inode_table s3 j) \<noteq> 0 then get_empty_inode fuel es3 s3
             else Inr (j, es3, set_lock j False (upd_inode j (\<lambda>_. zero_inode\<lparr>i_count := 1\<rparr>) s3))) = Inr (i, es', s')"
    using Suc.prems(1) e by (auto simp: kbind_Inr_iff split: option.splits)
  from wait_keeps[OF a(2) t Suc.prems(3)] have "iuniq s2" "ienv_ok es2" by (simp_all add: keeps_def)
  from clean_keeps[OF a(3) this] have k: "iuniq s3" "ienv_ok es3" by (simp_all add: keeps_def)
  show ?case
  proof (cases "i_count (inode_table s3 j) = 0")
    case True
    with b have "i = j" "es' = es3" "s' = set_lock j False (upd_inode j (\<lambda>_. zero_inode\<lparr>i_count := 1\<rparr>) s3)" by auto
    then show ?thesis using k
      by (auto simp: zero_inode_def set_lock_def upd_inode_def intro!: iuniq_same[OF k(1)])
  next
    case False
    with b Suc.IH[of es3 s3] k show ?thesis by simp
  qed
qed simp

definition is_inode :: "isys \<Rightarrow> u16 \<Rightarrow> u16 \<Rightarrow> nat \<Rightarrow> bool" where
  "is_inode s dev nr i \<longleftrightarrow> i_dev (inode_table s i) = dev \<and> i_num (inode_table s i) = nr"

lemma iget_scan_keeps:
  "iget_scan fuel dev nr k spare es s = Inr (i, es', s') \<Longrightarrow> iuniq s \<Longrightarrow> ienv_ok es \<Longrightarrow>
    (\<forall>j<NR_INODE. j < k \<longrightarrow> \<not> is_inode s dev nr j) \<Longrightarrow> iuniq s' \<and> ienv_ok es'"
proof (induction fuel arbitrary: dev nr k es s)
  case (Suc fuel)
  show ?case
  proof (cases "k \<ge> NR_INODE")
    case True
    let ?t = "upd_inode spare (\<lambda>n. n\<lparr>i_dev := dev, i_num := nr\<rparr>) s"
    have "iuniq ?t"
      using Suc.prems(2,4) True unfolding iuniq_def is_inode_def upd_inode_def by auto
    moreover have "read_inode spare es ?t = Inr (es', s')" using Suc.prems(1) True by (auto simp: kbind_Inr_iff)
    ultimately show ?thesis using read_keeps[of spare es ?t] Suc.prems(3) by (auto simp: keeps_def)
  next
    case False
    show ?thesis
    proof (cases "is_inode s dev nr k")
      case no: False
      then have "iget_scan fuel dev nr (k + 1) spare es s = Inr (i, es', s')" using Suc.prems(1) False by (auto simp: is_inode_def split: if_splits)
      moreover have "\<forall>j<NR_INODE. j < k + 1 \<longrightarrow> \<not> is_inode s dev nr j" using Suc.prems(4) no by (auto simp: less_Suc_eq)
      ultimately show ?thesis using Suc.IH Suc.prems(2,3) by blast
    next
      case True
      with Suc.prems(1) False obtain es1 s1 where w: "wait_on_inode k es s = Inr (es1, s1)"
        by (auto simp: is_inode_def kbind_Inr_iff)
      from wait_keeps[OF w Suc.prems(2,3)] have k1: "iuniq s1" "ienv_ok es1" by (simp_all add: keeps_def)
      let ?s2 = "count_add k 1 s1"
      have k2: "iuniq ?s2" using k1 by simp
      consider (again) "iget_scan fuel dev nr 0 spare es1 s1 = Inr (i, es', s')"
        | (put) q where "iput fuel q es1 ?s2 = Inr (es', s')"
        | (mnt) m es3 s3 where "iput fuel (Some k) es1 ?s2 = Inr (es3, s3)"
            "iget_scan fuel (s_dev (super (ifs s3) m)) ROOT_INO 0 spare es3 s3 = Inr (i, es', s')"
        using Suc.prems(1) False True w by (auto simp: is_inode_def kbind_Inr_iff Let_def split: if_splits option.splits)
      then show ?thesis
      proof cases
        case again
        with Suc.IH k1 show ?thesis by blast
      next
        case put
        from iput_keeps[OF this k2 k1(2)] show ?thesis by (simp add: keeps_def)
      next
        case mnt
        from iput_keeps[OF mnt(1) k2 k1(2)] have "iuniq s3" "ienv_ok es3" by (simp_all add: keeps_def)
        with Suc.IH[OF mnt(2)] show ?thesis by blast
      qed
    qed
  qed
qed simp

lemma iget_keeps:
  assumes "iget fuel dev nr es s = Inr (i, es', s')" and "iuniq s" and "ienv_ok es"
  shows "iuniq s' \<and> ienv_ok es'"
proof -
  from assms(1) obtain j es1 s1 where g: "get_empty_inode fuel es s = Inr (j, es1, s1)"
    and sc: "iget_scan fuel dev nr 0 j es1 s1 = Inr (i, es', s')" by (auto simp: iget_def kbind_Inr_iff split: if_splits)
  from get_empty_keeps[OF g assms(2,3)] iget_scan_keeps[OF sc] show ?thesis by simp
qed

end
