(* ===== verification/FsIO.thy ===== *)
theory FsIO
  imports Inodes Sys
begin

text \<open>
  Code above the inode table: a routine is a function of the environment's steps and the state that
  returns a value, the steps not yet taken and the new state, or stops. Small routines here stand for the
  C expressions that read and change inodes and buffers. A quiet run has no steps of the environment;
  \<open>triple\<close> is partial correctness of quiet runs, and \<open>owns\<close> counts the references a routine has
  taken and not yet given back.
\<close>

section \<open>Routines\<close>

type_synonym 'a io = "ienv \<Rightarrow> isys \<Rightarrow> ('a \<times> ienv \<times> isys) kres"

definition io_ret :: "'a \<Rightarrow> 'a io" where "io_ret a es s = Inr (a, es, s)"

definition io_err :: "kerr \<Rightarrow> 'a io" where "io_err e es s = Inl e"

definition io_bind :: "'a io \<Rightarrow> ('a \<Rightarrow> 'b io) \<Rightarrow> 'b io" where
  "io_bind m f es s = kbind (m es s) (\<lambda>(a, es1, s1). f a es1 s1)"

definition io_seq :: "unit io \<Rightarrow> 'b io \<Rightarrow> 'b io" where "io_seq m n = io_bind m (\<lambda>_. n)"

definition io_get :: "(isys \<Rightarrow> 'a) \<Rightarrow> 'a io" where "io_get f es s = Inr (f s, es, s)"

definition io_mod :: "(isys \<Rightarrow> isys) \<Rightarrow> unit io" where "io_mod f es s = Inr ((), es, f s)"

definition the_inode :: "nat \<Rightarrow> m_inode io" where "the_inode i = io_get (\<lambda>s. inode_table s i)"

definition mod_inode :: "nat \<Rightarrow> (m_inode \<Rightarrow> m_inode) \<Rightarrow> unit io" where "mod_inode i f = io_mod (upd_inode i f)"

definition now_io :: "u32 io" where "now_io = io_get (\<lambda>s. cur_time (ifs s))"

text \<open>The data of a buffer the caller holds.\<close>

definition read_buf :: "bkey \<Rightarrow> (block \<Rightarrow> 'a) \<Rightarrow> 'a io" where
  "read_buf q f es s = (case bufs (ifs s) q of None \<Rightarrow> Inl NullDeref | Some b \<Rightarrow> Inr (f (b_data b), es, s))"

definition mod_buf :: "bkey \<Rightarrow> (buffer_head \<Rightarrow> buffer_head) \<Rightarrow> unit io" where
  "mod_buf q f = io_mod (\<lambda>s. s\<lparr>ifs := upd_buf q f (ifs s)\<rparr>)"

section \<open>Calls into the cache and the inode table\<close>

definition bread_io :: "bkey \<Rightarrow> bool io" where
  "bread_io q es s = (let (es1, s1) = nap es s in kbind (bread q (ifs s1)) (\<lambda>(ok, f). Inr (ok, es1, s1\<lparr>ifs := f\<rparr>)))"

definition brelse_io :: "bkey option \<Rightarrow> unit io" where
  "brelse_io q es s =
     (case q of None \<Rightarrow> Inr ((), es, s)
      | Some q \<Rightarrow> kbind (brelse q (ifs s)) (\<lambda>f. Inr ((), es, s\<lparr>ifs := f\<rparr>)))"

definition iput_io :: "nat \<Rightarrow> nat option \<Rightarrow> unit io" where
  "iput_io fu i es s = kbind (iput fu i es s) (\<lambda>(es1, s1). Inr ((), es1, s1))"

definition block_io :: "bool \<Rightarrow> nat \<Rightarrow> int \<Rightarrow> int io" where
  "block_io create i blk es s =
     kbind (bmap_gen (inode_table s i) blk create (ifs s))
       (\<lambda>(z, n, f). Inr (z, es, upd_inode i (\<lambda>_. n) (s\<lparr>ifs := f\<rparr>)))"

definition new_block_io :: "u16 \<Rightarrow> int io" where
  "new_block_io dev es s = kbind (new_block dev (ifs s)) (\<lambda>(z, f). Inr (z, es, s\<lparr>ifs := f\<rparr>))"

definition new_inode_io :: "nat \<Rightarrow> kernel \<Rightarrow> u16 \<Rightarrow> nat option io" where
  "new_inode_io fu k dev es s =
     kbind (get_empty_inode fu es s)
       (\<lambda>(i, es1, s1).
          kbind (new_inode dev (euid (cur k)) (egid (cur k)) (inode_table s1 i) (ifs s1))
            (\<lambda>(r, f). case r of
               None \<Rightarrow> kbind (iput fu (Some i) es1 (s1\<lparr>ifs := f\<rparr>)) (\<lambda>(es2, s2). Inr (None, es2, s2))
             | Some n \<Rightarrow> Inr (Some i, es1, upd_inode i (\<lambda>_. n) (s1\<lparr>ifs := f\<rparr>))))"

definition truncate_io :: "nat \<Rightarrow> unit io" where
  "truncate_io i es s =
     kbind (Truncate.truncate [] (inode_table s i) (ifs s))
       (\<lambda>r. case r of None \<Rightarrow> Inl Unfinished | Some (n, f) \<Rightarrow> Inr ((), es, upd_inode i (\<lambda>_. n) (s\<lparr>ifs := f\<rparr>)))"

section \<open>Partial correctness of quiet runs\<close>

definition triple :: "(isys \<Rightarrow> bool) \<Rightarrow> 'a io \<Rightarrow> ('a \<Rightarrow> isys \<Rightarrow> bool) \<Rightarrow> bool" where
  "triple P m Q \<longleftrightarrow> (\<forall>s a es s'. P s \<longrightarrow> m [] s = Inr (a, es, s') \<longrightarrow> es = [] \<and> Q a s')"

lemma triple_ret: "(\<And>s. P s \<Longrightarrow> Q a s) \<Longrightarrow> triple P (io_ret a) Q"
  by (simp add: triple_def io_ret_def)

lemma triple_err [simp]: "triple P (io_err e) Q"
  by (simp add: triple_def io_err_def)

lemma triple_bind: "triple P m R \<Longrightarrow> (\<And>a. triple (R a) (f a) Q) \<Longrightarrow> triple P (io_bind m f) Q"
  unfolding triple_def io_bind_def by (fastforce simp: kbind_Inr_iff)

lemma triple_seq: "triple P m (\<lambda>_. R) \<Longrightarrow> triple R n Q \<Longrightarrow> triple P (io_seq m n) Q"
  unfolding io_seq_def by (rule triple_bind)

lemma triple_get: "triple P (io_get f) (\<lambda>_. P)"
  by (simp add: triple_def io_get_def)

lemma triple_conseq: "triple P m Q \<Longrightarrow> (\<And>s. P' s \<Longrightarrow> P s) \<Longrightarrow> (\<And>a s. Q a s \<Longrightarrow> Q' a s) \<Longrightarrow> triple P' m Q'"
  unfolding triple_def by blast

lemma triple_if: "(c \<Longrightarrow> triple P m Q) \<Longrightarrow> (\<not> c \<Longrightarrow> triple P n Q) \<Longrightarrow> triple P (if c then m else n) Q"
  by simp

lemma triple_option:
  "(x = None \<Longrightarrow> triple P m Q) \<Longrightarrow> (\<And>y. x = Some y \<Longrightarrow> triple P (n y) Q) \<Longrightarrow>
    triple P (case x of None \<Rightarrow> m | Some y \<Rightarrow> n y) Q"
  by (cases x) simp_all

lemma triple_prod: "(\<And>a b. x = (a, b) \<Longrightarrow> triple P (m a b) Q) \<Longrightarrow> triple P (case x of (a, b) \<Rightarrow> m a b) Q"
  by (cases x) simp

end
