(* ===== verification/Namei.thy ===== *)
theory Namei
  imports FsIO
begin

text \<open>
  Names and directories (\<open>fs/namei.c\<close>). A directory is a file of 16-byte entries: an inode number and a name
  of up to 14 bytes. A path is the list of its bytes before the null byte; 47 is the slash and 46 the dot. The
  kernel-space flag that keeps \<open>follow_link\<close> from following links inside links (the segment in \<open>fs\<close>)
  selects one of two versions of the walk.
\<close>

record caller =
  c_kern :: kernel
  c_root :: nat
  c_pwd :: nat

definition NAME_LEN :: nat where "NAME_LEN = 14"
definition DIR_ENTRIES_PER_BLOCK :: nat where "DIR_ENTRIES_PER_BLOCK = 64"
definition MAY_EXEC :: u32 where "MAY_EXEC = 1"
definition MAY_WRITE :: u32 where "MAY_WRITE = 2"
definition MAY_READ :: u32 where "MAY_READ = 4"

definition O_ACCMODE :: u32 where "O_ACCMODE = 3"
definition O_WRONLY :: u32 where "O_WRONLY = 1"
definition O_CREAT :: u32 where "O_CREAT = 64"
definition O_EXCL :: u32 where "O_EXCL = 128"
definition O_TRUNC :: u32 where "O_TRUNC = 512"
definition I_REGULAR :: u16 where "I_REGULAR = 0x8000"
definition I_DIRECTORY :: u16 where "I_DIRECTORY = 0x4000"
definition S_IFLNK :: u16 where "S_IFLNK = 0xA000"
definition S_ISVTX :: u16 where "S_ISVTX = 0x200"
definition s_ischr :: "u16 \<Rightarrow> bool" where "s_ischr m \<longleftrightarrow> m AND 0xF000 = 0x2000"

definition ENOENT :: int where "ENOENT = 2"
definition EACCES :: int where "EACCES = 13"
definition EEXIST :: int where "EEXIST = 17"
definition EXDEV :: int where "EXDEV = 18"
definition ENOTDIR :: int where "ENOTDIR = 20"
definition EISDIR :: int where "EISDIR = 21"
definition ENOSPC :: int where "ENOSPC = 28"
definition ENOTEMPTY :: int where "ENOTEMPTY = 39"
definition ERROR :: int where "ERROR = 99"

definition umask_bits :: "caller \<Rightarrow> u16" where "umask_bits p = 0x1FF AND NOT (umask (cur (c_kern p)))"

section \<open>Permissions\<close>

text \<open>
  The rights of the owner, of a group member or of others, but nobody has any on an inode of a device that
  has no links left. \<open>ACC_MODE\<close> indexes a string of signed characters.
\<close>

definition permission :: "caller \<Rightarrow> m_inode \<Rightarrow> u32 \<Rightarrow> bool" where
  "permission p n m =
     (if i_dev n \<noteq> 0 \<and> i_nlinks n = 0 then False
      else
        let mode = (ucast (i_mode n) :: u32);
            mode = (if euid (cur (c_kern p)) = i_uid n then drop_bit 6 mode
                    else if in_group_p (ucast (i_gid n)) (c_kern p) then drop_bit 3 mode else mode)
        in mode AND m AND 7 = m \<or> suser (c_kern p))"

definition ACC_MODE :: "u32 \<Rightarrow> u32" where
  "ACC_MODE x = [4, 2, 6, - 1] ! unat (x AND O_ACCMODE)"

section \<open>Directory entries\<close>

text \<open>Entry \<open>k\<close> of a block of directory data.\<close>

definition de_inode :: "block \<Rightarrow> nat \<Rightarrow> u16" where "de_inode d k = get16 d (8 * k)"

definition de_name :: "block \<Rightarrow> nat \<Rightarrow> nat \<Rightarrow> u8" where "de_name d k j = d (16 * k + 2 + j)"

definition set_de_inode :: "nat \<Rightarrow> u16 \<Rightarrow> block \<Rightarrow> block" where "set_de_inode k v d = put16 d (8 * k) v"

definition set_de_name :: "nat \<Rightarrow> u8 list \<Rightarrow> block \<Rightarrow> block" where
  "set_de_name k name d =
     (\<lambda>x. if 16 * k + 2 \<le> x \<and> x < 16 * k + 2 + NAME_LEN
          then let i = x - (16 * k + 2) in if i < length name then name ! i else 0
          else d x)"

text \<open>
  \<open>match\<close>: the empty name stands for the entry \<open>.\<close>; a shorter name must end where the entry does. A
  comparison of no bytes counts as equal.
\<close>

definition match :: "u8 list \<Rightarrow> block \<Rightarrow> nat \<Rightarrow> bool" where
  "match name d k =
     (let len = length name
      in if de_inode d k = 0 \<or> len > NAME_LEN then False
         else if len = 0 \<and> de_name d k 0 = 46 \<and> de_name d k 1 = 0 then True
         else if len < NAME_LEN \<and> de_name d k len \<noteq> 0 then False
         else name = map (de_name d k) [0..<len])"

section \<open>Searching and extending a directory\<close>

text \<open>\<open>..\<close> in the root of the process is \<open>.\<close>, in the root of a mounted device it is that of the directory mounted on.\<close>

definition dotdot :: "nat \<Rightarrow> caller \<Rightarrow> nat \<Rightarrow> u8 list \<Rightarrow> (nat \<times> u8 list) io" where
  "dotdot fu p dir name =
     (if name = [46, 46]
      then if dir = c_root p then io_ret (dir, take 1 name)
           else io_bind (the_inode dir)
             (\<lambda>n. if i_num n = ROOT_INO
                  then io_bind (io_get (\<lambda>s. map_option (s_imount s) (get_super (i_dev n) (ifs s))))
                    (\<lambda>sb. case sb of
                       None \<Rightarrow> io_err NullDeref
                     | Some None \<Rightarrow> io_ret (dir, name)
                     | Some (Some m) \<Rightarrow>
                         io_seq (iput_io fu (Some dir)) (io_seq (io_mod (count_add m 1)) (io_ret (m, name))))
                  else io_ret (dir, name))
      else io_ret (dir, name))"

text \<open>At the end of a block: the next one, or \<open>None\<close> when there is none or it cannot be read.\<close>

definition next_block :: "nat \<Rightarrow> nat \<Rightarrow> bkey \<Rightarrow> bkey option io" where
  "next_block dir i q =
     io_seq (brelse_io (Some q))
       (io_bind (block_io False dir (int (i div DIR_ENTRIES_PER_BLOCK)))
          (\<lambda>z. if z = 0 then io_ret None
               else io_bind (the_inode dir)
                 (\<lambda>n. io_bind (bread_io (i_dev n, z)) (\<lambda>ok. io_ret (if ok then Some (i_dev n, z) else None)))))"

text \<open>
  The loop of \<open>find_entry\<close> at entry \<open>i\<close>, which is number \<open>k\<close> of its block. After a block that is missing the
  test for the end of the block goes through the null pointer \<open>bh\<close>.
\<close>

function find_scan :: "nat \<Rightarrow> u8 list \<Rightarrow> nat \<Rightarrow> nat \<Rightarrow> nat \<Rightarrow> bkey option \<Rightarrow> (bkey \<times> nat) option io" where
  "find_scan dir name entries i k bh =
     (if i \<ge> entries then io_seq (brelse_io bh) (io_ret None)
      else case bh of
             None \<Rightarrow> io_err NullDeref
           | Some q \<Rightarrow>
               io_bind (if k \<ge> DIR_ENTRIES_PER_BLOCK then next_block dir i q else io_ret (Some q))
                 (\<lambda>r. case r of
                    None \<Rightarrow> find_scan dir name entries (i + DIR_ENTRIES_PER_BLOCK) k None
                  | Some q' \<Rightarrow>
                      let k' = (if k \<ge> DIR_ENTRIES_PER_BLOCK then 0 else k)
                      in io_bind (read_buf q' (\<lambda>d. match name d k'))
                           (\<lambda>m. if m then io_ret (Some (q', k'))
                                else find_scan dir name entries (i + 1) (k' + 1) (Some q'))))"
  by pat_completeness auto
termination
  by (relation "measure (\<lambda>(dir, name, entries, i, k, bh). entries - i)") (auto simp: DIR_ENTRIES_PER_BLOCK_def)

declare find_scan.simps [simp del]

text \<open>The number of entries is taken before \<open>..\<close> may leave the directory.\<close>

definition find_entry :: "nat \<Rightarrow> caller \<Rightarrow> nat \<Rightarrow> u8 list \<Rightarrow> (nat \<times> (bkey \<times> nat) option) io" where
  "find_entry fu p dir name =
     io_bind (the_inode dir)
       (\<lambda>n0. io_bind (dotdot fu p dir (take NAME_LEN name))
          (\<lambda>(dir', name').
             io_bind (the_inode dir')
               (\<lambda>n. if i_zone n 0 = 0 then io_ret (dir', None)
                    else let q = (i_dev n, uint (i_zone n 0))
                      in io_bind (bread_io q)
                           (\<lambda>ok. if \<not> ok then io_ret (dir', None)
                                 else io_bind (find_scan dir' name' (unat (i_size n0) div 16) 0 0 (Some q))
                                        (\<lambda>r. io_ret (dir', r))))))"

text \<open>The loop of \<open>add_entry\<close>; an entry beyond the size of the directory extends it.\<close>

definition make_block :: "nat \<Rightarrow> nat \<Rightarrow> bkey \<Rightarrow> bkey option option io" where
  "make_block dir i q =
     io_seq (brelse_io (Some q))
       (io_bind (block_io True dir (int (i div DIR_ENTRIES_PER_BLOCK)))
          (\<lambda>z. if z = 0 then io_ret None
               else io_bind (the_inode dir)
                 (\<lambda>n. io_bind (bread_io (i_dev n, z)) (\<lambda>ok. io_ret (Some (if ok then Some (i_dev n, z) else None))))))"

definition extend_dir :: "nat \<Rightarrow> nat \<Rightarrow> bkey \<Rightarrow> nat \<Rightarrow> unit io" where
  "extend_dir dir i q k =
     io_bind (the_inode dir)
       (\<lambda>n. if of_nat (16 * i) \<ge> i_size n
            then io_seq (mod_buf q (\<lambda>b. b\<lparr>b_data := set_de_inode k 0 (b_data b)\<rparr>))
                   (io_bind now_io
                      (\<lambda>t. mod_inode dir (\<lambda>n. n\<lparr>i_size := of_nat (16 * (i + 1)), i_dirt := True, i_ctime := t\<rparr>)))
            else io_ret ())"

fun add_scan :: "nat \<Rightarrow> nat \<Rightarrow> u8 list \<Rightarrow> nat \<Rightarrow> nat \<Rightarrow> bkey option \<Rightarrow> (bkey \<times> nat) option io" where
  "add_scan 0 dir name i k bh = io_err Unfinished"
| "add_scan (Suc fuel) dir name i k bh =
     (case bh of
        None \<Rightarrow> io_err NullDeref
      | Some q \<Rightarrow>
          io_bind (if k \<ge> DIR_ENTRIES_PER_BLOCK then make_block dir i q else io_ret (Some (Some q)))
            (\<lambda>r. case r of
               None \<Rightarrow> io_ret None
             | Some None \<Rightarrow> add_scan fuel dir name (i + DIR_ENTRIES_PER_BLOCK) k None
             | Some (Some q') \<Rightarrow>
                 let k' = (if k \<ge> DIR_ENTRIES_PER_BLOCK then 0 else k)
                 in io_seq (extend_dir dir i q' k')
                      (io_bind (read_buf q' (\<lambda>d. de_inode d k'))
                         (\<lambda>ino. if ino = 0
                            then io_bind now_io
                                   (\<lambda>t. io_seq (mod_inode dir (\<lambda>n. n\<lparr>i_mtime := t\<rparr>))
                                      (io_seq (mod_buf q' (\<lambda>b. b\<lparr>b_data := set_de_name k' name (b_data b), b_dirt := True\<rparr>))
                                         (io_ret (Some (q', k')))))
                            else add_scan fuel dir name (i + 1) (k' + 1) (Some q')))))"

definition add_entry :: "nat \<Rightarrow> nat \<Rightarrow> u8 list \<Rightarrow> (bkey \<times> nat) option io" where
  "add_entry fu dir name =
     (if name = [] then io_ret None
      else io_bind (the_inode dir)
        (\<lambda>n. if i_zone n 0 = 0 then io_ret None
             else let q = (i_dev n, uint (i_zone n 0))
               in io_bind (bread_io q)
                    (\<lambda>ok. if \<not> ok then io_ret None else add_scan fu dir (take NAME_LEN name) 0 0 (Some q))))"

section \<open>Walking a path\<close>

text \<open>
  \<open>get_dir\<close> from the inode \<open>i\<close>: \<open>follow\<close> is \<open>follow_link\<close> of a directory and the inode found in it. The part
  of the path after the last slash is left to the caller.
\<close>

function walk :: "(nat option \<Rightarrow> nat option \<Rightarrow> nat option io) \<Rightarrow> nat \<Rightarrow> caller \<Rightarrow> u8 list \<Rightarrow> nat \<Rightarrow> nat option io" where
  "walk follow fu p path i =
     io_bind (the_inode i)
       (\<lambda>n. if \<not> s_isdir (i_mode n) \<or> \<not> permission p n MAY_EXEC
            then io_seq (iput_io fu (Some i)) (io_ret None)
            else case dropWhile (\<lambda>c. c \<noteq> 47) path of
                   [] \<Rightarrow> io_ret (Some i)
                 | _ # rest \<Rightarrow>
                     io_bind (find_entry fu p i (takeWhile (\<lambda>c. c \<noteq> 47) path))
                       (\<lambda>(dir, r). case r of
                          None \<Rightarrow> io_seq (iput_io fu (Some dir)) (io_ret None)
                        | Some (q, k) \<Rightarrow>
                            io_bind (read_buf q (\<lambda>d. de_inode d k))
                              (\<lambda>inr. io_seq (brelse_io (Some q))
                                 (io_bind (the_inode dir)
                                    (\<lambda>nd. io_bind (iget fu (i_dev nd) inr)
                                       (\<lambda>j. io_bind (follow (Some dir) (Some j))
                                          (\<lambda>f. case f of None \<Rightarrow> io_ret None
                                             | Some i' \<Rightarrow> walk follow fu p rest i')))))))"
  by pat_completeness auto
termination
proof (relation "measure (\<lambda>(follow, fu, p, path, i). length path)", simp)
  fix follow :: "nat option \<Rightarrow> nat option \<Rightarrow> nat option io" and path rest :: "u8 list" and c :: u8
    and fu fu' :: nat and p p' :: caller and i i' :: nat
  assume "dropWhile (\<lambda>c. c \<noteq> 47) path = c # rest"
  then have "length (c # rest) \<le> length path" by (metis length_dropWhile_le)
  then show "((follow, fu, p, rest, i'), follow, fu, p, path, i)
      \<in> measure (\<lambda>(follow, fu, p, path, i). length path)" by simp
qed

declare walk.simps [simp del]

definition get_dir :: "(nat option \<Rightarrow> nat option \<Rightarrow> nat option io) \<Rightarrow> nat \<Rightarrow> caller \<Rightarrow> u8 list \<Rightarrow> nat option \<Rightarrow> nat option io" where
  "get_dir follow fu p path base =
     io_bind (case base of None \<Rightarrow> io_seq (io_mod (count_add (c_pwd p) 1)) (io_ret (c_pwd p)) | Some i \<Rightarrow> io_ret i)
       (\<lambda>i. case path of
          c # rest \<Rightarrow>
            if c = 47
            then io_seq (iput_io fu (Some i))
                   (io_seq (io_mod (count_add (c_root p) 1)) (walk follow fu p rest (c_root p)))
            else walk follow fu p path i
        | [] \<Rightarrow> walk follow fu p path i)"

definition basename :: "u8 list \<Rightarrow> u8 list" where
  "basename path = rev (takeWhile (\<lambda>c. c \<noteq> 47) (rev path))"

text \<open>The directory of the last component and that component.\<close>

definition dir_namei :: "(nat option \<Rightarrow> nat option \<Rightarrow> nat option io) \<Rightarrow> nat \<Rightarrow> caller \<Rightarrow> u8 list \<Rightarrow> nat option
    \<Rightarrow> (nat \<times> u8 list) option io" where
  "dir_namei follow fu p path base =
     io_bind (get_dir follow fu p path base)
       (\<lambda>r. case r of None \<Rightarrow> io_ret None | Some dir \<Rightarrow> io_ret (Some (dir, basename path)))"

text \<open>The time of access is set through the result without a test for null.\<close>

definition namei_gen :: "(nat option \<Rightarrow> nat option \<Rightarrow> nat option io) \<Rightarrow> nat \<Rightarrow> caller \<Rightarrow> u8 list \<Rightarrow> nat option \<Rightarrow> bool \<Rightarrow> nat option io" where
  "namei_gen follow fu p path base follow_links =
     io_bind (dir_namei follow fu p path base)
       (\<lambda>r. case r of
          None \<Rightarrow> io_ret None
        | Some (dir0, name) \<Rightarrow>
            if name = [] then io_ret (Some dir0)
            else io_bind (find_entry fu p dir0 name)
              (\<lambda>(dir, r). case r of
                 None \<Rightarrow> io_seq (iput_io fu (Some dir)) (io_ret None)
               | Some (q, k) \<Rightarrow>
                   io_bind (read_buf q (\<lambda>d. de_inode d k))
                     (\<lambda>inr. io_seq (brelse_io (Some q))
                        (io_bind (the_inode dir)
                           (\<lambda>nd. io_bind (iget fu (i_dev nd) inr)
                              (\<lambda>j. io_bind (if follow_links then follow (Some dir) (Some j)
                                            else io_seq (iput_io fu (Some dir)) (io_ret (Some j)))
                                 (\<lambda>f. case f of
                                    None \<Rightarrow> io_err NullDeref
                                  | Some i \<Rightarrow>
                                      io_bind now_io
                                        (\<lambda>t. io_seq (mod_inode i (\<lambda>n. n\<lparr>i_atime := t, i_dirt := True\<rparr>)) (io_ret (Some i))))))))))"

text \<open>
  \<open>follow_link\<close> up to the call of \<open>_namei\<close>, which is the argument \<open>resolve\<close>: \<open>None\<close> inside the resolution of another link.
  The text of a link is its first block up to a null byte.
\<close>

definition link_text :: "block \<Rightarrow> u8 list option" where
  "link_text d = (if \<exists>x<1024. d x = 0 then Some (takeWhile (\<lambda>c. c \<noteq> 0) (map d [0..<1024])) else None)"

definition follow_link_gen :: "(u8 list \<Rightarrow> nat option \<Rightarrow> nat option io) option \<Rightarrow> nat \<Rightarrow> caller \<Rightarrow> nat option \<Rightarrow> nat option \<Rightarrow> nat option io" where
  "follow_link_gen resolve fu p dir0 inode =
     io_bind (case dir0 of None \<Rightarrow> io_seq (io_mod (count_add (c_root p) 1)) (io_ret (c_root p)) | Some d \<Rightarrow> io_ret d)
       (\<lambda>dir. case inode of
          None \<Rightarrow> io_seq (iput_io fu (Some dir)) (io_ret None)
        | Some i \<Rightarrow>
            io_bind (the_inode i)
              (\<lambda>n. if \<not> s_islnk (i_mode n) then io_seq (iput_io fu (Some dir)) (io_ret (Some i))
                   else
                     let refuse = io_seq (iput_io fu (Some dir)) (io_seq (iput_io fu (Some i)) (io_ret None));
                         q = (i_dev n, uint (i_zone n 0))
                     in case resolve of
                          None \<Rightarrow> refuse
                        | Some nam \<Rightarrow>
                            if i_zone n 0 = 0 then refuse
                            else io_bind (bread_io q)
                              (\<lambda>ok. if \<not> ok then refuse
                                    else io_seq (iput_io fu (Some i))
                                      (io_bind (read_buf q link_text)
                                         (\<lambda>tx. case tx of
                                            None \<Rightarrow> io_err OutOfBounds
                                          | Some path \<Rightarrow>
                                              io_bind (nam path (Some dir))
                                                (\<lambda>r. io_seq (brelse_io (Some q)) (io_ret r)))))))"

definition follow_link_kernel :: "nat \<Rightarrow> caller \<Rightarrow> nat option \<Rightarrow> nat option \<Rightarrow> nat option io" where
  "follow_link_kernel fu p = follow_link_gen None fu p"

definition namei_kernel :: "nat \<Rightarrow> caller \<Rightarrow> u8 list \<Rightarrow> nat option \<Rightarrow> nat option io" where
  "namei_kernel fu p path base = namei_gen (follow_link_kernel fu p) fu p path base False"

definition follow_link :: "nat \<Rightarrow> caller \<Rightarrow> nat option \<Rightarrow> nat option \<Rightarrow> nat option io" where
  "follow_link fu p = follow_link_gen (Some (namei_kernel fu p)) fu p"

definition lnamei :: "nat \<Rightarrow> caller \<Rightarrow> u8 list \<Rightarrow> nat option io" where
  "lnamei fu p path = namei_gen (follow_link fu p) fu p path None False"

definition namei :: "nat \<Rightarrow> caller \<Rightarrow> u8 list \<Rightarrow> nat option io" where
  "namei fu p path = namei_gen (follow_link fu p) fu p path None True"

text \<open>\<open>dir_namei (pathname, \<dots>, NULL)\<close> of the system calls.\<close>

definition dir_of :: "nat \<Rightarrow> caller \<Rightarrow> u8 list \<Rightarrow> (nat \<times> u8 list) option io" where
  "dir_of fu p path = dir_namei (follow_link fu p) fu p path None"

section \<open>Opening and creating\<close>

text \<open>\<open>iput\<close> of some inodes and an error or result.\<close>

definition leave :: "nat \<Rightarrow> nat list \<Rightarrow> 'a \<Rightarrow> 'a io" where
  "leave fu is r = foldr (\<lambda>i m. io_seq (iput_io fu (Some i)) m) is (io_ret r)"

definition touch :: "nat \<Rightarrow> (u32 \<Rightarrow> m_inode \<Rightarrow> m_inode) \<Rightarrow> unit io" where
  "touch i f = io_bind now_io (\<lambda>t. mod_inode i (f t))"

text \<open>The new inode of \<open>open_namei\<close> with \<open>O_CREAT\<close>.\<close>

definition open_create :: "nat \<Rightarrow> caller \<Rightarrow> nat \<Rightarrow> u8 list \<Rightarrow> u16 \<Rightarrow> (int \<times> nat option) io" where
  "open_create fu p dir name mode =
     io_bind (the_inode dir)
       (\<lambda>nd. if \<not> permission p nd MAY_WRITE then leave fu [dir] (- EACCES, None)
             else io_bind (new_inode_io fu (c_kern p) (i_dev nd))
               (\<lambda>r. case r of
                  None \<Rightarrow> leave fu [dir] (- ENOSPC, None)
                | Some i \<Rightarrow>
                    io_seq (mod_inode i (\<lambda>n. n\<lparr>i_uid := euid (cur (c_kern p)), i_mode := mode, i_dirt := True\<rparr>))
                      (io_bind (add_entry fu dir name)
                         (\<lambda>e. case e of
                            None \<Rightarrow> io_seq (mod_inode i (\<lambda>n. n\<lparr>i_nlinks := i_nlinks n - 1\<rparr>)) (leave fu [i, dir] (- ENOSPC, None))
                          | Some (q, k) \<Rightarrow>
                              io_bind (the_inode i)
                                (\<lambda>n. io_seq (mod_buf q (\<lambda>b. b\<lparr>b_data := set_de_inode k (i_num n) (b_data b), b_dirt := True\<rparr>))
                                   (io_seq (brelse_io (Some q)) (leave fu [dir] (0, Some i))))))))"

text \<open>A name that exists.\<close>

definition open_existing :: "nat \<Rightarrow> caller \<Rightarrow> nat \<Rightarrow> bkey \<Rightarrow> nat \<Rightarrow> u32 \<Rightarrow> (int \<times> nat option) io" where
  "open_existing fu p dir q k flag =
     io_bind (read_buf q (\<lambda>d. de_inode d k))
       (\<lambda>inr. io_bind (the_inode dir)
          (\<lambda>nd. io_seq (brelse_io (Some q))
             (if flag AND O_EXCL \<noteq> 0 then leave fu [dir] (- EEXIST, None)
              else io_bind (iget fu (i_dev nd) inr)
                (\<lambda>j. io_bind (follow_link fu p (Some dir) (Some j))
                   (\<lambda>r. case r of
                      None \<Rightarrow> io_ret (- EACCES, None)
                    | Some i \<Rightarrow>
                        io_bind (the_inode i)
                          (\<lambda>n. if (s_isdir (i_mode n) \<and> flag AND O_ACCMODE \<noteq> 0) \<or> \<not> permission p n (ACC_MODE flag)
                               then leave fu [i] (- EPERM, None)
                               else io_seq (touch i (\<lambda>t n. n\<lparr>i_atime := t\<rparr>))
                                      (io_seq (if flag AND O_TRUNC \<noteq> 0 then truncate_io i else io_ret ())
                                         (io_ret (0, Some i)))))))))"

definition open_namei :: "nat \<Rightarrow> caller \<Rightarrow> u8 list \<Rightarrow> u32 \<Rightarrow> u16 \<Rightarrow> (int \<times> nat option) io" where
  "open_namei fu p path flag0 mode0 =
     (let flag = (if flag0 AND O_TRUNC \<noteq> 0 \<and> flag0 AND O_ACCMODE = 0 then flag0 OR O_WRONLY else flag0);
          mode = (mode0 AND umask_bits p) OR I_REGULAR
      in io_bind (dir_of fu p path)
           (\<lambda>r. case r of
              None \<Rightarrow> io_ret (- ENOENT, None)
            | Some (dir0, name) \<Rightarrow>
                if name = []
                then if flag AND (O_ACCMODE OR O_CREAT OR O_TRUNC) = 0 then io_ret (0, Some dir0)
                     else leave fu [dir0] (- EISDIR, None)
                else io_bind (find_entry fu p dir0 name)
                  (\<lambda>(dir, e). case e of
                     None \<Rightarrow> if flag AND O_CREAT = 0 then leave fu [dir] (- ENOENT, None)
                             else open_create fu p dir name mode
                   | Some (q, k) \<Rightarrow> open_existing fu p dir q k flag)))"

text \<open>The new entry of \<open>mknod\<close>, \<open>mkdir\<close> and \<open>symlink\<close>, with the inode it names.\<close>

definition put_entry :: "bkey \<Rightarrow> nat \<Rightarrow> nat \<Rightarrow> unit io" where
  "put_entry q k i =
     io_bind (the_inode i) (\<lambda>n. mod_buf q (\<lambda>b. b\<lparr>b_data := set_de_inode k (i_num n) (b_data b), b_dirt := True\<rparr>))"

definition sys_mknod :: "nat \<Rightarrow> caller \<Rightarrow> u8 list \<Rightarrow> u16 \<Rightarrow> u16 \<Rightarrow> int io" where
  "sys_mknod fu p path mode dev =
     (if \<not> suser (c_kern p) then io_ret (- EPERM)
      else io_bind (dir_of fu p path)
        (\<lambda>r. case r of
           None \<Rightarrow> io_ret (- ENOENT)
         | Some (dir0, name) \<Rightarrow>
             if name = [] then leave fu [dir0] (- ENOENT)
             else io_bind (the_inode dir0)
               (\<lambda>nd0. if \<not> permission p nd0 MAY_WRITE then leave fu [dir0] (- EPERM)
                 else io_bind (find_entry fu p dir0 name)
                   (\<lambda>(dir, e). case e of
                      Some (q, k) \<Rightarrow> io_seq (brelse_io (Some q)) (leave fu [dir] (- EEXIST))
                    | None \<Rightarrow>
                        io_bind (the_inode dir)
                          (\<lambda>nd. io_bind (new_inode_io fu (c_kern p) (i_dev nd))
                             (\<lambda>r. case r of
                                None \<Rightarrow> leave fu [dir] (- ENOSPC)
                              | Some i \<Rightarrow>
                                  io_seq (touch i (\<lambda>t n.
                                    (if s_isblk mode \<or> s_ischr mode then n\<lparr>i_zone := (i_zone n)(0 := dev)\<rparr> else n)
                                      \<lparr>i_mode := mode, i_mtime := t, i_atime := t, i_dirt := True\<rparr>))
                                    (io_bind (add_entry fu dir name)
                                       (\<lambda>e. case e of
                                          None \<Rightarrow>
                                            io_seq (iput_io fu (Some dir))
                                              (io_seq (mod_inode i (\<lambda>n. n\<lparr>i_nlinks := 0\<rparr>)) (leave fu [i] (- ENOSPC)))
                                        | Some (q, k) \<Rightarrow>
                                            io_seq (put_entry q k i)
                                              (io_seq (iput_io fu (Some dir)) (io_seq (iput_io fu (Some i))
                                                (io_seq (brelse_io (Some q)) (io_ret 0))))))))))))"

definition dot_entries :: "u16 \<Rightarrow> u16 \<Rightarrow> block \<Rightarrow> block" where
  "dot_entries self up d =
     (let d1 = (set_de_inode 0 self d)(2 := 46, 3 := 0)
      in (set_de_inode 1 up d1)(18 := 46, 19 := 46, 20 := 0))"

text \<open>The new directory of \<open>mkdir\<close>; \<open>None\<close> when it could not be made.\<close>

definition mkdir_body :: "nat \<Rightarrow> nat \<Rightarrow> nat \<Rightarrow> u16 \<Rightarrow> int option io" where
  "mkdir_body fu dir i mode =
     io_seq (touch i (\<lambda>t n. n\<lparr>i_size := 32, i_dirt := True, i_mtime := t, i_atime := t\<rparr>))
       (io_bind (the_inode i)
          (\<lambda>n. io_bind (new_block_io (i_dev n))
             (\<lambda>z. io_seq (mod_inode i (\<lambda>n. n\<lparr>i_zone := (i_zone n)(0 := word_of_int z)\<rparr>))
                (if z = 0
                 then io_seq (iput_io fu (Some dir))
                        (io_seq (mod_inode i (\<lambda>n. n\<lparr>i_nlinks := i_nlinks n - 1\<rparr>)) (leave fu [i] (Some (- ENOSPC))))
                 else io_seq (mod_inode i (\<lambda>n. n\<lparr>i_dirt := True\<rparr>))
                   (io_bind (the_inode i)
                      (\<lambda>n. let q = (i_dev n, uint (i_zone n 0))
                        in io_bind (bread_io q)
                             (\<lambda>ok. if \<not> ok
                                then io_seq (iput_io fu (Some dir))
                                       (io_seq (mod_inode i (\<lambda>n. n\<lparr>i_nlinks := i_nlinks n - 1\<rparr>)) (leave fu [i] (Some (- ERROR))))
                                else io_bind (the_inode dir)
                                  (\<lambda>nd. io_seq (mod_buf q (\<lambda>b. b\<lparr>b_data := dot_entries (i_num n) (i_num nd) (b_data b), b_dirt := True\<rparr>))
                                     (io_seq (brelse_io (Some q))
                                        (io_seq (mod_inode i (\<lambda>n. n\<lparr>i_nlinks := 2, i_mode := mode, i_dirt := True\<rparr>))
                                           (io_ret None)))))))))))"

definition sys_mkdir :: "nat \<Rightarrow> caller \<Rightarrow> u8 list \<Rightarrow> u16 \<Rightarrow> int io" where
  "sys_mkdir fu p path mode =
     io_bind (dir_of fu p path)
       (\<lambda>r. case r of
          None \<Rightarrow> io_ret (- ENOENT)
        | Some (dir0, name) \<Rightarrow>
            if name = [] then leave fu [dir0] (- ENOENT)
            else io_bind (the_inode dir0)
              (\<lambda>nd0. if \<not> permission p nd0 MAY_WRITE then leave fu [dir0] (- EPERM)
                else io_bind (find_entry fu p dir0 name)
                  (\<lambda>(dir, e). case e of
                     Some (q, k) \<Rightarrow> io_seq (brelse_io (Some q)) (leave fu [dir] (- EEXIST))
                   | None \<Rightarrow>
                       io_bind (the_inode dir)
                         (\<lambda>nd. io_bind (new_inode_io fu (c_kern p) (i_dev nd))
                            (\<lambda>r. case r of
                               None \<Rightarrow> leave fu [dir] (- ENOSPC)
                             | Some i \<Rightarrow>
                                 io_bind (mkdir_body fu dir i (I_DIRECTORY OR (mode AND umask_bits p)))
                                   (\<lambda>b. case b of
                                      Some err \<Rightarrow> io_ret err
                                    | None \<Rightarrow>
                                        io_bind (add_entry fu dir name)
                                          (\<lambda>e. case e of
                                             None \<Rightarrow>
                                               io_seq (iput_io fu (Some dir))
                                                 (io_seq (mod_inode i (\<lambda>n. n\<lparr>i_nlinks := 0\<rparr>)) (leave fu [i] (- ENOSPC)))
                                           | Some (q, k) \<Rightarrow>
                                               io_seq (put_entry q k i)
                                                 (io_seq (mod_inode dir (\<lambda>n. n\<lparr>i_nlinks := i_nlinks n + 1, i_dirt := True\<rparr>))
                                                   (io_seq (iput_io fu (Some dir)) (io_seq (iput_io fu (Some i))
                                                     (io_seq (brelse_io (Some q)) (io_ret 0))))))))))))"

section \<open>Removing and linking\<close>

text \<open>
  \<open>empty_dir\<close>: the first two entries must be \<open>.\<close> and \<open>..\<close>, and no other in use. When they are not, the
  buffer is not released; at a missing block the buffer that has just been released is kept, and released again.
\<close>

function empty_scan_dir :: "nat \<Rightarrow> nat \<Rightarrow> nat \<Rightarrow> nat \<Rightarrow> bkey \<Rightarrow> bool io" where
  "empty_scan_dir i len nr k q =
     (if nr \<ge> len then io_seq (brelse_io (Some q)) (io_ret True)
      else io_bind (if k \<ge> DIR_ENTRIES_PER_BLOCK
                    then io_seq (brelse_io (Some q)) (block_io False i (int (nr div DIR_ENTRIES_PER_BLOCK)))
                    else io_ret 1)
        (\<lambda>z. if z = 0 then empty_scan_dir i len (nr + DIR_ENTRIES_PER_BLOCK) k q
             else io_bind (the_inode i)
               (\<lambda>n. let q' = (if k \<ge> DIR_ENTRIES_PER_BLOCK then (i_dev n, z) else q);
                        k' = (if k \<ge> DIR_ENTRIES_PER_BLOCK then 0 else k)
                    in io_bind (if k \<ge> DIR_ENTRIES_PER_BLOCK then bread_io q' else io_ret True)
                         (\<lambda>ok. if \<not> ok then io_ret False
                               else io_bind (read_buf q' (\<lambda>d. de_inode d k'))
                                 (\<lambda>ino. if ino \<noteq> 0 then io_seq (brelse_io (Some q')) (io_ret False)
                                        else empty_scan_dir i len (nr + 1) (k' + 1) q')))))"
  by pat_completeness auto
termination
  by (relation "measure (\<lambda>(i, len, nr, k, q). len - nr)") (auto simp: DIR_ENTRIES_PER_BLOCK_def)

declare empty_scan_dir.simps [simp del]

definition dots_ok :: "u16 \<Rightarrow> block \<Rightarrow> bool" where
  "dots_ok self d \<longleftrightarrow> de_inode d 0 = self \<and> de_inode d 1 \<noteq> 0 \<and> de_name d 0 0 = 46 \<and> de_name d 0 1 = 0
     \<and> de_name d 1 0 = 46 \<and> de_name d 1 1 = 46 \<and> de_name d 1 2 = 0"

definition empty_dir :: "nat \<Rightarrow> bool io" where
  "empty_dir i =
     io_bind (the_inode i)
       (\<lambda>n. let len = unat (i_size n) div 16; q = (i_dev n, uint (i_zone n 0))
            in if len < 2 \<or> i_zone n 0 = 0 then io_ret False
               else io_bind (bread_io q)
                 (\<lambda>ok. if \<not> ok then io_ret False
                       else io_bind (read_buf q (dots_ok (i_num n)))
                         (\<lambda>dots. if \<not> dots then io_ret False else empty_scan_dir i len 2 2 q)))"

definition clear_entry :: "bkey \<Rightarrow> nat \<Rightarrow> unit io" where
  "clear_entry q k =
     io_seq (mod_buf q (\<lambda>b. b\<lparr>b_data := set_de_inode k 0 (b_data b), b_dirt := True\<rparr>)) (brelse_io (Some q))"

text \<open>Errors after the entry was found: inodes, then the buffer.\<close>

definition leave_buf :: "nat \<Rightarrow> nat list \<Rightarrow> bkey \<Rightarrow> int \<Rightarrow> int io" where
  "leave_buf fu is q e = foldr (\<lambda>i m. io_seq (iput_io fu (Some i)) m) is (io_seq (brelse_io (Some q)) (io_ret e))"

definition rmdir_found :: "nat \<Rightarrow> caller \<Rightarrow> nat \<Rightarrow> nat \<Rightarrow> bkey \<Rightarrow> nat \<Rightarrow> int io" where
  "rmdir_found fu p dir i q k =
     io_bind (the_inode dir)
       (\<lambda>nd. io_bind (the_inode i)
          (\<lambda>n. if i_mode nd AND S_ISVTX \<noteq> 0 \<and> euid (cur (c_kern p)) \<noteq> 0 \<and> i_uid n \<noteq> euid (cur (c_kern p))
               then leave_buf fu [dir, i] q (- EPERM)
               else if i_dev n \<noteq> i_dev nd \<or> i_count n > 1 then leave_buf fu [dir, i] q (- EPERM)
               else if i = dir then leave_buf fu [i, dir] q (- EPERM)
               else if \<not> s_isdir (i_mode n) then leave_buf fu [i, dir] q (- ENOTDIR)
               else io_bind (empty_dir i)
                 (\<lambda>empty. if \<not> empty then leave_buf fu [i, dir] q (- ENOTEMPTY)
                    else io_seq (clear_entry q k)
                      (io_seq (mod_inode i (\<lambda>n. n\<lparr>i_nlinks := 0, i_dirt := True\<rparr>))
                        (io_seq (touch dir (\<lambda>t n. n\<lparr>i_nlinks := i_nlinks n - 1, i_ctime := t, i_mtime := t, i_dirt := True\<rparr>))
                          (leave fu [dir, i] 0))))))"

definition sys_rmdir :: "nat \<Rightarrow> caller \<Rightarrow> u8 list \<Rightarrow> int io" where
  "sys_rmdir fu p path =
     io_bind (dir_of fu p path)
       (\<lambda>r. case r of
          None \<Rightarrow> io_ret (- ENOENT)
        | Some (dir0, name) \<Rightarrow>
            if name = [] then leave fu [dir0] (- ENOENT)
            else io_bind (the_inode dir0)
              (\<lambda>nd0. if \<not> permission p nd0 MAY_WRITE then leave fu [dir0] (- EPERM)
                else io_bind (find_entry fu p dir0 name)
                  (\<lambda>(dir, e). case e of
                     None \<Rightarrow> leave fu [dir] (- ENOENT)
                   | Some (q, k) \<Rightarrow>
                       io_bind (read_buf q (\<lambda>d. de_inode d k))
                         (\<lambda>inr. io_bind (the_inode dir)
                            (\<lambda>nd. io_bind (iget fu (i_dev nd) inr) (\<lambda>i. rmdir_found fu p dir i q k))))))"

definition unlink_found :: "nat \<Rightarrow> caller \<Rightarrow> nat \<Rightarrow> nat \<Rightarrow> bkey \<Rightarrow> nat \<Rightarrow> int io" where
  "unlink_found fu p dir i q k =
     io_bind (the_inode dir)
       (\<lambda>nd. io_bind (the_inode i)
          (\<lambda>n. if i_mode nd AND S_ISVTX \<noteq> 0 \<and> \<not> suser (c_kern p) \<and> euid (cur (c_kern p)) \<noteq> i_uid n
                  \<and> euid (cur (c_kern p)) \<noteq> i_uid nd
               then leave_buf fu [dir, i] q (- EPERM)
               else if s_isdir (i_mode n) then leave_buf fu [i, dir] q (- EPERM)
               else
                 io_seq (if i_nlinks n = 0 then mod_inode i (\<lambda>n. n\<lparr>i_nlinks := 1\<rparr>) else io_ret ())
                   (io_seq (clear_entry q k)
                     (io_seq (touch i (\<lambda>t n. n\<lparr>i_nlinks := i_nlinks n - 1, i_dirt := True, i_ctime := t\<rparr>))
                       (leave fu [i, dir] 0)))))"

definition sys_unlink :: "nat \<Rightarrow> caller \<Rightarrow> u8 list \<Rightarrow> int io" where
  "sys_unlink fu p path =
     io_bind (dir_of fu p path)
       (\<lambda>r. case r of
          None \<Rightarrow> io_ret (- ENOENT)
        | Some (dir0, name) \<Rightarrow>
            if name = [] then leave fu [dir0] (- ENOENT)
            else io_bind (the_inode dir0)
              (\<lambda>nd0. if \<not> permission p nd0 MAY_WRITE then leave fu [dir0] (- EPERM)
                else io_bind (find_entry fu p dir0 name)
                  (\<lambda>(dir, e). case e of
                     None \<Rightarrow> leave fu [dir] (- ENOENT)
                   | Some (q, k) \<Rightarrow>
                       io_bind (read_buf q (\<lambda>d. de_inode d k))
                         (\<lambda>inr. io_bind (the_inode dir)
                            (\<lambda>nd. io_bind (iget fu (i_dev nd) inr) (\<lambda>i. unlink_found fu p dir i q k))))))"

text \<open>The text of a symbolic link: at most 1023 bytes and a null byte.\<close>

definition set_link_text :: "u8 list \<Rightarrow> block \<Rightarrow> block" where
  "set_link_text path d =
     (let t = take 1023 path
      in (\<lambda>x. if x < length t then t ! x else if x = length t then 0 else d x))"

definition symlink_body :: "nat \<Rightarrow> caller \<Rightarrow> nat \<Rightarrow> nat \<Rightarrow> u8 list \<Rightarrow> int option io" where
  "symlink_body fu p dir i target =
     io_seq (mod_inode i (\<lambda>n. n\<lparr>i_mode := S_IFLNK OR umask_bits p, i_dirt := True\<rparr>))
       (io_bind (the_inode i)
          (\<lambda>n. io_bind (new_block_io (i_dev n))
             (\<lambda>z. io_seq (mod_inode i (\<lambda>n. n\<lparr>i_zone := (i_zone n)(0 := word_of_int z)\<rparr>))
                (if z = 0
                 then io_seq (iput_io fu (Some dir))
                        (io_seq (mod_inode i (\<lambda>n. n\<lparr>i_nlinks := i_nlinks n - 1\<rparr>)) (leave fu [i] (Some (- ENOSPC))))
                 else io_seq (mod_inode i (\<lambda>n. n\<lparr>i_dirt := True\<rparr>))
                   (io_bind (the_inode i)
                      (\<lambda>n. let q = (i_dev n, uint (i_zone n 0))
                        in io_bind (bread_io q)
                             (\<lambda>ok. if \<not> ok
                                then io_seq (iput_io fu (Some dir))
                                       (io_seq (mod_inode i (\<lambda>n. n\<lparr>i_nlinks := i_nlinks n - 1\<rparr>)) (leave fu [i] (Some (- ERROR))))
                                else io_seq (mod_buf q (\<lambda>b. b\<lparr>b_data := set_link_text target (b_data b), b_dirt := True\<rparr>))
                                  (io_seq (brelse_io (Some q))
                                     (io_seq (mod_inode i (\<lambda>n. n\<lparr>i_size := of_nat (length (take 1023 target)), i_dirt := True\<rparr>))
                                        (io_ret None))))))))))"

definition sys_symlink :: "nat \<Rightarrow> caller \<Rightarrow> u8 list \<Rightarrow> u8 list \<Rightarrow> int io" where
  "sys_symlink fu p target path =
     io_bind (dir_of fu p path)
       (\<lambda>r. case r of
          None \<Rightarrow> io_ret (- EACCES)
        | Some (dir0, name) \<Rightarrow>
            if name = [] then leave fu [dir0] (- EPERM)
            else io_bind (the_inode dir0)
              (\<lambda>nd0. if \<not> permission p nd0 MAY_WRITE then leave fu [dir0] (- EACCES)
                else io_bind (new_inode_io fu (c_kern p) (i_dev nd0))
                  (\<lambda>r. case r of
                     None \<Rightarrow> leave fu [dir0] (- ENOSPC)
                   | Some i \<Rightarrow>
                       io_bind (symlink_body fu p dir0 i target)
                         (\<lambda>b. case b of
                            Some err \<Rightarrow> io_ret err
                          | None \<Rightarrow>
                              io_bind (find_entry fu p dir0 name)
                                (\<lambda>(dir, e). case e of
                                   Some (q, k) \<Rightarrow>
                                     io_seq (mod_inode i (\<lambda>n. n\<lparr>i_nlinks := i_nlinks n - 1\<rparr>))
                                       (io_seq (iput_io fu (Some i)) (io_seq (brelse_io (Some q)) (leave fu [dir] (- EEXIST))))
                                 | None \<Rightarrow>
                                     io_bind (add_entry fu dir name)
                                       (\<lambda>e. case e of
                                          None \<Rightarrow> io_seq (mod_inode i (\<lambda>n. n\<lparr>i_nlinks := i_nlinks n - 1\<rparr>)) (leave fu [i, dir] (- ENOSPC))
                                        | Some (q, k) \<Rightarrow>
                                            io_seq (put_entry q k i) (io_seq (brelse_io (Some q)) (leave fu [dir, i] 0))))))))"

definition sys_link :: "nat \<Rightarrow> caller \<Rightarrow> u8 list \<Rightarrow> u8 list \<Rightarrow> int io" where
  "sys_link fu p old path =
     io_bind (namei fu p old)
       (\<lambda>o'. case o' of
          None \<Rightarrow> io_ret (- ENOENT)
        | Some i \<Rightarrow>
            io_bind (the_inode i)
              (\<lambda>n. if s_isdir (i_mode n) then leave fu [i] (- EPERM)
                else io_bind (dir_of fu p path)
                  (\<lambda>r. case r of
                     None \<Rightarrow> leave fu [i] (- EACCES)
                   | Some (dir0, name) \<Rightarrow>
                       if name = [] then leave fu [i, dir0] (- EPERM)
                       else io_bind (the_inode dir0)
                         (\<lambda>nd0. io_bind (the_inode i)
                            (\<lambda>n. if i_dev nd0 \<noteq> i_dev n then leave fu [dir0, i] (- EXDEV)
                               else if \<not> permission p nd0 MAY_WRITE then leave fu [dir0, i] (- EACCES)
                               else io_bind (find_entry fu p dir0 name)
                                 (\<lambda>(dir, e). case e of
                                    Some (q, k) \<Rightarrow> io_seq (brelse_io (Some q)) (leave fu [dir, i] (- EEXIST))
                                  | None \<Rightarrow>
                                      io_bind (add_entry fu dir name)
                                        (\<lambda>e. case e of
                                           None \<Rightarrow> leave fu [dir, i] (- ENOSPC)
                                         | Some (q, k) \<Rightarrow>
                                             io_seq (put_entry q k i)
                                               (io_seq (brelse_io (Some q))
                                                 (io_seq (iput_io fu (Some dir))
                                                   (io_seq (touch i (\<lambda>t n. n\<lparr>i_nlinks := i_nlinks n + 1, i_ctime := t, i_dirt := True\<rparr>))
                                                     (leave fu [i] 0)))))))))))"
end
