(* ===== verification/FsRefs.thy ===== *)
theory FsRefs
  imports FsIO "HOL-Library.Multiset"
begin

text \<open>
  References are given back: the routines below the system calls leave the counts of buffers and of
  inodes as their callers expect. \<open>kept\<close> compares two states of the cache, \<open>owns\<close> says by how much the
  counts of a state exceed those of an earlier one.
\<close>

section \<open>Counts of buffers\<close>

definition kept :: "fs_state \<Rightarrow> fs_state \<Rightarrow> bool" where
  "kept f g \<longleftrightarrow> (\<forall>q. held g q = held f q) \<and> (\<forall>q. bufs f q \<noteq> None \<longrightarrow> bufs g q \<noteq> None)"

definition room :: "nat \<Rightarrow> fs_state \<Rightarrow> bool" where
  "room n f \<longleftrightarrow> (\<forall>q. unat (held f q) + n < 256)"

definition grab :: "bkey \<Rightarrow> fs_state \<Rightarrow> fs_state \<Rightarrow> bool" where
  "grab q f g \<longleftrightarrow> (\<forall>x. held g x = held f x + (if x = q then 1 else 0))
     \<and> (\<forall>x. bufs f x \<noteq> None \<longrightarrow> bufs g x \<noteq> None) \<and> bufs g q \<noteq> None"

lemma grabD:
  assumes "grab q f g"
  shows "held g x = held f x + (if x = q then 1 else 0)" and "bufs f x \<noteq> None \<Longrightarrow> bufs g x \<noteq> None" and "bufs g q \<noteq> None"
  using assms unfolding grab_def by blast+

lemma kept_refl [simp]: "kept f f" by (simp add: kept_def)

lemma kept_trans: "kept f g \<Longrightarrow> kept g h \<Longrightarrow> kept f h" by (simp add: kept_def)

lemma room_mono: "room n f \<Longrightarrow> m \<le> n \<Longrightarrow> room m f"
  by (meson add_left_mono le_less_trans room_def)

lemma kept_room: "kept f g \<Longrightarrow> room n g = room n f" by (simp add: kept_def room_def)

lemma grab_kept: "grab q f g \<Longrightarrow> kept g h \<Longrightarrow> grab q f h" unfolding grab_def kept_def by metis

lemma kept_grab: "kept f g \<Longrightarrow> grab q g h \<Longrightarrow> grab q f h" unfolding grab_def kept_def by metis

lemma grab_room:
  assumes "grab q f g" and "room (Suc n) f"
  shows "room n g"
  unfolding room_def
proof
  fix x
  have "unat (held f x) + Suc n < 256" using assms(2) unfolding room_def by blast
  moreover have "held g x = held f x + 1 \<or> held g x = held f x" using grabD(1)[OF assms(1), of x] by (cases "x = q") simp_all
  moreover have "unat (held f x + 1) \<le> unat (held f x) + 1" by (simp add: unat_word_ariths)
  ultimately show "unat (held g x) + n < 256" by auto
qed

lemma held_upd_buf: "(\<And>b. b_count (h b) = b_count b) \<Longrightarrow> held (upd_buf q h f) x = held f x"
  by (auto simp: held_def split: option.splits)

lemma kept_upd_buf: "(\<And>b. b_count (h b) = b_count b) \<Longrightarrow> kept f (upd_buf q h f)"
  by (simp add: kept_def held_upd_buf)

lemma kept_super: "kept f (upd_super k h f)"
  by (simp add: kept_def held_def upd_super_def)

lemma getblk_grab: "grab q f (getblk q f)"
  unfolding grab_def held_getblk by (auto simp: getblk_def upd_buf_def split: option.splits)

lemma get_hash_table_grab:
  "get_hash_table q f = (found, g) \<Longrightarrow> if found then grab q f g else g = f"
  by (auto simp: get_hash_table_def grab_def held_def split: option.splits)

lemma brelse_grab:
  assumes "grab q f g" and "brelse q g = Inr h"
  shows "kept f h"
proof -
  from assms obtain b where b: "bufs g q = Some b" by (auto simp: grab_def)
  from assms(2) b have h: "h = upd_buf q (\<lambda>b. b\<lparr>b_count := b_count b - 1\<rparr>) g"
    by (simp add: brelse_def split: if_splits)
  have "held h x = (if x = q then held g x - 1 else held g x)" for x
    using b by (simp add: h held_def)
  moreover have "bufs h x \<noteq> None" if "bufs g x \<noteq> None" for x using that by (cases "x = q") (auto simp: h)
  ultimately show ?thesis unfolding kept_def using grabD(1,2)[OF assms(1)] by auto
qed

lemma bread_grab:
  assumes "bread q f = Inr (ok, g)"
  shows "if ok then grab q f g else kept f g"
proof -
  let ?g = "getblk q f"
  obtain b where b: "bufs ?g q = Some b" using getblk_grab[of q f] by (auto simp: grab_def)
  show ?thesis
  proof (cases "b_uptodate b")
    case True
    with assms b getblk_grab[of q f] show ?thesis by (simp add: bread_def Let_def)
  next
    case False
    show ?thesis
    proof (cases "disk ?g q")
      case None
      with assms b False have "\<not> ok" "brelse q ?g = Inr g" by (auto simp: bread_def Let_def kbind_Inr_iff)
      with brelse_grab[OF getblk_grab] show ?thesis by simp
    next
      case (Some d)
      with assms b False have "ok" "g = upd_buf q (\<lambda>b. b\<lparr>b_data := d, b_uptodate := True\<rparr>) ?g"
        by (auto simp: bread_def Let_def)
      with grab_kept[OF getblk_grab kept_upd_buf] show ?thesis by simp
    qed
  qed
qed

section \<open>Zones\<close>

lemma new_block_kept:
  assumes "new_block dev f = Inr (z, g)"
  shows "kept f g"
proof (cases "get_super dev f")
  case (Some k)
  note d = new_block_def Some option.case Let_def
  obtain r j where ms: "map_scan (s_zmap (super f k)) [0..<8] 8192 = (r, j)" by fastforce
  show ?thesis
  proof (cases r)
    case None
    with assms ms show ?thesis by (simp add: d)
  next
    case (Some ib)
    obtain i bh where ib: "ib = (i, bh)" by fastforce
    let ?f1 = "upd_super k (\<lambda>sb. sb\<lparr>s_zmap := (s_zmap sb)(i \<mapsto> bh\<lparr>b_data := snd (set_bit_at j (b_data bh)), b_dirt := True\<rparr>)\<rparr>) f"
    let ?z = "int j + int i * 8192 + uint (s_firstdatazone (super f k)) - 1"
    let ?f2 = "getblk (dev, ?z) ?f1"
    let ?h = "\<lambda>b. b\<lparr>b_data := zero_block, b_uptodate := True, b_dirt := True\<rparr>"
    have k1: "kept f ?f1" by (rule kept_super)
    have "g = ?f1 \<or> brelse (dev, ?z) (upd_buf (dev, ?z) ?h ?f2) = Inr g"
      using assms ms Some ib
      by (auto simp: d kbind_Inr_iff case_prod_beta split: if_splits)
    moreover have "kept f g" if "brelse (dev, ?z) (upd_buf (dev, ?z) ?h ?f2) = Inr g"
      by (rule brelse_grab[OF kept_grab[OF k1 grab_kept[OF getblk_grab kept_upd_buf]] that]) simp
    ultimately show ?thesis using k1 by blast
  qed
qed (use assms in \<open>simp add: new_block_def\<close>)

lemma free_block_kept:
  assumes "free_block dev z f = Inr (ok, g)" and "room 1 f"
  shows "kept f g"
proof -
  from assms(1) obtain k where k: "get_super dev f = Some k" by (cases "get_super dev f") (auto simp: free_block_def)
  obtain found f1 where ht: "get_hash_table (dev, z) f = (found, f1)" by fastforce
  note gr = get_hash_table_grab[OF ht]
  let ?h = "\<lambda>b. b\<lparr>b_dirt := False, b_uptodate := False\<rparr>"
  have nz: "held (upd_buf (dev, z) ?h f1) (dev, z) \<noteq> 0" if found
  proof -
    have "held f1 (dev, z) = held f (dev, z) + 1" using gr that by (simp add: grab_def)
    moreover have "unat (held f (dev, z) + 1) = unat (held f (dev, z)) + 1"
      using assms(2) by (auto simp: room_def unat_word_ariths)
    ultimately show ?thesis by (auto simp: held_upd_buf)
  qed
  have a: "kept f f3" if "brelse (dev, z) f1 = Inr f3" and found for f3
    using brelse_grab[OF _ that(1)] gr that(2) by simp
  have b: "kept f f3" if "brelse (dev, z) (upd_buf (dev, z) ?h f1) = Inr f3" and found for f3
    using brelse_grab[OF grab_kept[OF _ kept_upd_buf] that(1)] gr that(2) by simp
  show ?thesis
  proof (cases found)
    case True
    with assms(1) k ht nz a b kept_trans[OF b kept_super] show ?thesis
      by (auto simp: free_block_def Let_def kbind_Inr_iff split: if_splits option.splits)
  next
    case False
    with gr assms(1) k ht show ?thesis
      by (auto simp: free_block_def Let_def kept_super split: if_splits option.splits)
  qed
qed

lemma alloc_zone_kept: "alloc_zone n slot create f = Inr (m, g) \<Longrightarrow> kept f g"
  by (auto simp: alloc_zone_def Let_def kbind_Inr_iff dest: new_block_kept split: if_splits)

lemma ind_entry_kept:
  assumes "ind_entry dev z idx create f = Inr (i, g)"
  shows "kept f g"
proof -
  from assms obtain ok f1 where br: "bread (dev, z) f = Inr (ok, f1)" by (auto simp: ind_entry_def kbind_Inr_iff)
  show ?thesis
  proof (cases ok)
    case False
    with assms br bread_grab[OF br] show ?thesis by (auto simp: ind_entry_def)
  next
    case True
    then have gr: "grab (dev, z) f f1" using bread_grab[OF br] by simp
    then obtain bh where bh: "bufs f1 (dev, z) = Some bh" by (auto simp: grab_def)
    let ?u = "upd_buf (dev, z) (\<lambda>b. b\<lparr>b_data := put16 (b_data b) idx (word_of_int i), b_dirt := True\<rparr>)"
    obtain f2 f3 where rel: "brelse (dev, z) f3 = Inr g" and f3: "f3 = f1 \<or> (new_block dev f1 = Inr (i, f2) \<and> (f3 = f2 \<or> f3 = ?u f2))"
      using assms True br bh by (auto simp: ind_entry_def Let_def kbind_Inr_iff split: if_splits)
    have "kept f1 f3" using f3 new_block_kept[of dev f1 i f2] kept_trans[of f1 f2 "?u f2"] kept_upd_buf by auto
    from brelse_grab[OF grab_kept[OF gr this(1)] rel] show ?thesis .
  qed
qed

lemma bmap_gen_kept:
  assumes "bmap_gen n blk create f = Inr (z, m, g)"
  shows "kept f g"
  using assms
  by (auto simp: bmap_gen_def Let_def kbind_Inr_iff split: if_splits
      dest!: alloc_zone_kept ind_entry_kept) (metis kept_trans)+

section \<open>Truncation\<close>

text \<open>A release of zones that needs room for \<open>n\<close> more references on every buffer.\<close>

definition frugal :: "nat \<Rightarrow> (u16 \<Rightarrow> int \<Rightarrow> fs_state \<Rightarrow> (bool \<times> fs_state) kres) \<Rightarrow> bool" where
  "frugal n h \<longleftrightarrow> (\<forall>dev z f ok g. h dev z f = Inr (ok, g) \<longrightarrow> room n f \<longrightarrow> kept f g)"

lemma frugal_block: "frugal 1 free_block"
  unfolding frugal_def using free_block_kept by blast

lemma free_entries_kept:
  assumes h: "frugal n h"
  shows "free_entries h dev z is busy f = Inr (b, g) \<Longrightarrow> room n f \<Longrightarrow> kept f g"
proof (induction "is" arbitrary: busy f)
  case (Cons i "is")
  then obtain bh where bh: "bufs f (dev, z) = Some bh" by (auto split: option.splits)
  let ?p = "get16 (b_data bh) i"
  show ?case
  proof (cases "?p = 0")
    case True
    with Cons bh show ?thesis by simp
  next
    case False
    with Cons.prems bh obtain ok f1 where f1: "h dev (uint ?p) f = Inr (ok, f1)"
      and r: "free_entries h dev z is (busy \<or> \<not> ok)
        (if ok then upd_buf (dev, z) (\<lambda>b. b\<lparr>b_data := put16 (b_data b) i 0, b_dirt := True\<rparr>) f1 else f1) = Inr (b, g)
        \<or> (\<not> ok \<and> free_entries h dev z is True f1 = Inr (b, g)) \<or> (ok \<and> free_entries h dev z is busy
          (upd_buf (dev, z) (\<lambda>b. b\<lparr>b_data := put16 (b_data b) i 0, b_dirt := True\<rparr>) f1) = Inr (b, g))"
      by (auto simp: Let_def kbind_Inr_iff split: if_splits)
    have k1: "kept f f1" using h f1 Cons.prems(2) unfolding frugal_def by blast
    have k2: "kept f (upd_buf (dev, z) (\<lambda>b. b\<lparr>b_data := put16 (b_data b) i 0, b_dirt := True\<rparr>) f1)"
      by (rule kept_trans[OF k1 kept_upd_buf]) simp
    from r show ?thesis
      using Cons.IH kept_trans[OF k1] kept_trans[OF k2] kept_room[OF k1] kept_room[OF k2] Cons.prems(2)
      by (auto split: if_splits)
  qed
qed simp

lemma frugal_index:
  assumes "frugal n h" and "1 \<le> n"
  shows "frugal (Suc n) (free_index h)"
  unfolding frugal_def
proof (intro allI impI)
  fix dev z f ok g
  assume a: "free_index h dev z f = Inr (ok, g)" and r: "room (Suc n) f"
  show "kept f g"
  proof (cases "z = 0")
    case True
    with a show ?thesis by (simp add: free_index_def)
  next
    case False
    with a obtain o1 f1 where br: "bread (dev, z) f = Inr (o1, f1)" by (auto simp: free_index_def kbind_Inr_iff)
    obtain busy f4 where k4: "kept f f4" and t: "(if busy then Inr (False, f4) else free_block dev z f4) = Inr (ok, g)"
    proof (cases o1)
      case True
      with False a br obtain busy f2 f3 where e: "free_entries h dev z [0..<512] False f1 = Inr (busy, f2)"
        and rel: "brelse (dev, z) f2 = Inr f3" and t: "(if busy then Inr (False, f3) else free_block dev z f3) = Inr (ok, g)"
        by (auto simp: free_index_def kbind_Inr_iff split: if_splits)
      have gr: "grab (dev, z) f f1" using bread_grab[OF br] True by simp
      from free_entries_kept[OF assms(1) e grab_room[OF gr r]] have "kept f1 f2" .
      from brelse_grab[OF grab_kept[OF gr this] rel] t show ?thesis by (rule that)
    next
      case False
      with \<open>z \<noteq> 0\<close> a br bread_grab[OF br] show ?thesis by (intro that[of f1 False]) (auto simp: free_index_def)
    qed
    have "kept f4 g"
    proof (cases busy)
      case False
      have "room 1 f4" using r room_mono[of "Suc n" f 1] kept_room[OF k4] by simp
      with t False free_block_kept show ?thesis by simp
    qed (use t in simp)
    with k4 show ?thesis by (rule kept_trans)
  qed
qed

lemma frugal_ind: "frugal 2 free_ind" and frugal_dind: "frugal 3 free_dind"
proof -
  have "free_ind = free_index free_block" "free_dind = free_index free_ind"
    by (simp_all add: fun_eq_iff free_ind_def free_dind_def)
  then show "frugal 2 free_ind" "frugal 3 free_dind"
    using frugal_index[OF frugal_block] frugal_index[of 2 free_ind] by (simp_all add: numeral_eq_Suc)
qed

lemma truncate_direct_kept:
  "truncate_direct is busy n f = Inr (b, m, g) \<Longrightarrow> room 1 f \<Longrightarrow> kept f g \<and> i_count m = i_count n"
proof (induction "is" arbitrary: busy n f)
  case (Cons i "is")
  show ?case
  proof (cases "i_zone n i = 0")
    case True
    with Cons show ?thesis by simp
  next
    case False
    with Cons.prems obtain ok f1 n' b' where f1: "free_block (i_dev n) (uint (i_zone n i)) f = Inr (ok, f1)"
      and r: "truncate_direct is b' n' f1 = Inr (b, m, g)" and n': "i_count n' = i_count n"
      by (auto simp: kbind_Inr_iff split: if_splits)
    note k = free_block_kept[OF f1 Cons.prems(2)]
    from Cons.IH[OF r] kept_room[OF k] Cons.prems(2) kept_trans[OF k] n' show ?thesis by auto
  qed
qed simp

lemma truncate_kept:
  assumes "Truncate.truncate [] n f = Inr (Some (m, g))" and "room 3 f"
  shows "kept f g \<and> i_count m = i_count n"
proof (cases "s_isreg (i_mode n) \<or> s_isdir (i_mode n) \<or> s_islnk (i_mode n)")
  case False
  with assms show ?thesis by (simp add: Truncate.truncate_def)
next
  case True
  with assms(1) obtain m1 g1 where p: "truncate_pass n f = Inr (False, m1, g1)" and m: "i_count m = i_count m1" "g = g1"
    by (auto simp: Truncate.truncate_def truncate_loop.simps kbind_Inr_iff split: if_splits)
  obtain b1 n1 f1 where d: "truncate_direct [0..<7] False n f = Inr (b1, n1, f1)"
    using p by (auto simp: truncate_pass_def kbind_Inr_iff)
  obtain o2 f2 where i: "free_ind (i_dev n1) (uint (i_zone n1 7)) f1 = Inr (o2, f2)"
    using p d by (auto simp: truncate_pass_def kbind_Inr_iff)
  let ?n2 = "if o2 then n1\<lparr>i_zone := (i_zone n1)(7 := 0)\<rparr> else n1"
  obtain o3 where dd: "free_dind (i_dev ?n2) (uint (i_zone ?n2 8)) f2 = Inr (o3, g1)" and c3: "i_count m1 = i_count ?n2"
    using p d i by (auto simp: truncate_pass_def kbind_Inr_iff Let_def split: if_splits)
  have c2: "i_count ?n2 = i_count n1" by simp
  have k1: "kept f f1" "i_count n1 = i_count n"
    using truncate_direct_kept[OF d] assms(2) room_mono[of 3 f 1] by simp_all
  have k2: "kept f1 f2"
    using frugal_ind i assms(2) room_mono[of 3 f 2] kept_room[OF k1(1)] unfolding frugal_def by fastforce
  have "kept f2 g1"
    using frugal_dind dd assms(2) kept_room[OF kept_trans[OF k1(1) k2]] unfolding frugal_def by blast
  with kept_trans[OF k1(1) k2] kept_trans m c2 c3 k1 show ?thesis by metis
qed

section \<open>Counts of inodes\<close>

text \<open>
  \<open>owns t K I s\<close>: compared with the state \<open>t\<close>, the buffers \<open>K\<close> and the inodes \<open>I\<close> have been taken (one reference
  for each occurrence) and nothing else has changed the counts.
\<close>

definition owns :: "isys \<Rightarrow> bkey multiset \<Rightarrow> nat multiset \<Rightarrow> isys \<Rightarrow> bool" where
  "owns t K I s \<longleftrightarrow> (\<forall>q. held (ifs s) q = held (ifs t) q + of_nat (count K q))
     \<and> (\<forall>i. i_count (inode_table s i) = i_count (inode_table t i) + of_nat (count I i))
     \<and> (\<forall>q\<in>#K. bufs (ifs s) q \<noteq> None)"

text \<open>No buffer is held so often that its count of one byte could overflow.\<close>

definition quiet_start :: "isys \<Rightarrow> bool" where "quiet_start t \<longleftrightarrow> room 8 (ifs t)"

lemma ownsD:
  assumes "owns t K I s"
  shows "held (ifs s) q = held (ifs t) q + of_nat (count K q)"
    and "i_count (inode_table s i) = i_count (inode_table t i) + of_nat (count I i)"
    and "q \<in># K \<Longrightarrow> bufs (ifs s) q \<noteq> None"
  using assms unfolding owns_def by blast+

lemma ownsI:
  assumes "\<And>q. held (ifs s) q = held (ifs t) q + of_nat (count K q)"
    and "\<And>i. i_count (inode_table s i) = i_count (inode_table t i) + of_nat (count I i)"
    and "\<And>q. q \<in># K \<Longrightarrow> bufs (ifs s) q \<noteq> None"
  shows "owns t K I s"
  using assms unfolding owns_def by blast

lemma keptD:
  assumes "kept f g"
  shows "held g q = held f q" and "bufs f q \<noteq> None \<Longrightarrow> bufs g q \<noteq> None"
  using assms unfolding kept_def by blast+

lemma owns_start: "owns t {#} {#} t" by (rule ownsI) simp_all

lemma owns_end:
  assumes "owns t {#} {#} s"
  shows "held (ifs s) q = held (ifs t) q" and "i_count (inode_table s i) = i_count (inode_table t i)"
  using ownsD(1)[OF assms, of q] ownsD(2)[OF assms, of i] by simp_all

lemma owns_room:
  assumes "owns t K I s" and "quiet_start t" and "size K + n \<le> 8"
  shows "room n (ifs s)"
  unfolding room_def
proof
  fix q
  have h: "held (ifs s) q = held (ifs t) q + of_nat (count K q)" by (rule ownsD(1)[OF assms(1)])
  have c: "count K q \<le> size K" by (rule count_le_size)
  have r: "unat (held (ifs t) q) + 8 < 256" using assms(2) unfolding quiet_start_def room_def by blast
  have "unat (held (ifs s) q) \<le> unat (held (ifs t) q) + count K q"
    using le_trans[OF mod_less_eq_dividend add_left_mono[OF mod_less_eq_dividend]]
    by (simp only: h unat_word_ariths unat_of_nat take_bit_eq_mod)
  then show "unat (held (ifs s) q) + n < 256" using c r assms(3) by linarith
qed

lemma owns_kept:
  assumes "owns t K I s" and "kept (ifs s) (ifs s')" and "\<And>i. i_count (inode_table s' i) = i_count (inode_table s i)"
  shows "owns t K I s'"
proof (rule ownsI)
  show "q \<in># K \<Longrightarrow> bufs (ifs s') q \<noteq> None" for q by (rule keptD(2)[OF assms(2) ownsD(3)[OF assms(1)]])
qed (use ownsD(1,2)[OF assms(1)] keptD(1)[OF assms(2)] assms(3) in \<open>simp_all only:\<close>)

lemma owns_grab:
  assumes "owns t K I s" and "grab q (ifs s) (ifs s')" and "\<And>i. i_count (inode_table s' i) = i_count (inode_table s i)"
  shows "owns t (add_mset q K) I s'"
proof (rule ownsI)
  fix x
  show "held (ifs s') x = held (ifs t) x + of_nat (count (add_mset q K) x)"
    unfolding grabD(1)[OF assms(2), of x] ownsD(1)[OF assms(1), of x] by simp
next
  fix i
  show "i_count (inode_table s' i) = i_count (inode_table t i) + of_nat (count I i)"
    unfolding assms(3) by (rule ownsD(2)[OF assms(1)])
next
  fix x assume "x \<in># add_mset q K"
  then show "bufs (ifs s') x \<noteq> None" using ownsD(3)[OF assms(1), of x] grabD(2)[OF assms(2), of x] grabD(3)[OF assms(2)] by (cases "x = q") auto
qed

lemma owns_release:
  assumes "owns t (add_mset q K) I s" and "brelse q (ifs s) = Inr f"
  shows "owns t K I (s\<lparr>ifs := f\<rparr>)"
proof -
  obtain b where b: "bufs (ifs s) q = Some b" using ownsD(3)[OF assms(1), of q] by auto
  from assms(2) b have f: "f = upd_buf q (\<lambda>b. b\<lparr>b_count := b_count b - 1\<rparr>) (ifs s)"
    by (simp add: brelse_def split: if_splits)
  have h: "held f x = (if x = q then held (ifs s) x - 1 else held (ifs s) x)" for x using b by (simp add: f held_def)
  have d: "bufs f x \<noteq> None" if "bufs (ifs s) x \<noteq> None" for x using that by (cases "x = q") (auto simp: f)
  show ?thesis
  proof (rule ownsI)
    fix x
    show "held (ifs (s\<lparr>ifs := f\<rparr>)) x = held (ifs t) x + of_nat (count K x)"
      using ownsD(1)[OF assms(1), of x] h[of x] by (cases "x = q") simp_all
  next
    fix i
    show "i_count (inode_table (s\<lparr>ifs := f\<rparr>) i) = i_count (inode_table t i) + of_nat (count I i)"
      using ownsD(2)[OF assms(1), of i] by simp
  next
    fix x assume "x \<in># K"
    then show "bufs (ifs (s\<lparr>ifs := f\<rparr>)) x \<noteq> None" using d[OF ownsD(3)[OF assms(1), of x]] by simp
  qed
qed

text \<open>One more or one fewer reference to an inode.\<close>

definition recount :: "nat \<Rightarrow> u16 \<Rightarrow> isys \<Rightarrow> isys \<Rightarrow> bool" where
  "recount i d s s' \<longleftrightarrow> kept (ifs s) (ifs s') \<and> (\<forall>j. i_count (inode_table s' j) = i_count (inode_table s j) + (if j = i then d else 0))"

lemma recountD:
  assumes "recount i d s s'"
  shows "kept (ifs s) (ifs s')" and "i_count (inode_table s' j) = i_count (inode_table s j) + (if j = i then d else 0)"
  using assms unfolding recount_def by blast+

lemma owns_take:
  assumes "owns t K I s" and "recount i 1 s s'"
  shows "owns t K (add_mset i I) s'"
proof (rule ownsI)
  fix j
  show "i_count (inode_table s' j) = i_count (inode_table t j) + of_nat (count (add_mset i I) j)"
    unfolding recountD(2)[OF assms(2), of j] ownsD(2)[OF assms(1), of j] by simp
next
  show "q \<in># K \<Longrightarrow> bufs (ifs s') q \<noteq> None" for q by (rule keptD(2)[OF recountD(1)[OF assms(2)] ownsD(3)[OF assms(1)]])
qed (use ownsD(1)[OF assms(1)] keptD(1)[OF recountD(1)[OF assms(2)]] in \<open>simp_all only:\<close>)

lemma owns_drop:
  assumes "owns t K (add_mset i I) s" and "recount i (- 1) s s'"
  shows "owns t K I s'"
proof (rule ownsI)
  fix j
  show "i_count (inode_table s' j) = i_count (inode_table t j) + of_nat (count I j)"
    unfolding recountD(2)[OF assms(2), of j] ownsD(2)[OF assms(1), of j] by simp
next
  show "q \<in># K \<Longrightarrow> bufs (ifs s') q \<noteq> None" for q by (rule keptD(2)[OF recountD(1)[OF assms(2)] ownsD(3)[OF assms(1)]])
qed (use ownsD(1)[OF assms(1)] keptD(1)[OF recountD(1)[OF assms(2)]] in \<open>simp_all only:\<close>)

lemma recount_count_add: "recount i d s (count_add i d s)"
  by (simp add: recount_def count_add_def upd_inode_def)

lemma recount_trans: "recount i a s s1 \<Longrightarrow> recount i b s1 s2 \<Longrightarrow> recount i (a + b) s s2"
  unfolding recount_def by (auto intro: kept_trans simp: algebra_simps)

definition same :: "isys \<Rightarrow> isys \<Rightarrow> bool" where
  "same s s' \<longleftrightarrow> kept (ifs s) (ifs s') \<and> (\<forall>j. i_count (inode_table s' j) = i_count (inode_table s j))"

lemma recount_same: "recount i d s s1 \<Longrightarrow> same s1 s2 \<Longrightarrow> recount i d s s2"
  "same s s1 \<Longrightarrow> recount i d s1 s2 \<Longrightarrow> recount i d s s2"
  unfolding recount_def same_def by (auto intro: kept_trans)

lemma same_trans: "same s s1 \<Longrightarrow> same s1 s2 \<Longrightarrow> same s s2"
  unfolding same_def by (auto intro: kept_trans)

lemma same_refl [simp]: "same s s" by (simp add: same_def)

lemma same_room: "same s s' \<Longrightarrow> room n (ifs s') = room n (ifs s)"
  unfolding same_def by (metis kept_room)

lemma same_lock [simp]: "same s (set_lock i b s)" by (simp add: same_def set_lock_def)

lemma same_upd: "i_count (h (inode_table s i)) = i_count (inode_table s i) \<Longrightarrow> same s (upd_inode i h s)"
  by (simp add: same_def upd_inode_def)

section \<open>Inodes read, written and put back\<close>

text \<open>In a quiet run waiting changes nothing.\<close>

lemma quiet_wait: "wait_on_inode i [] s = Inr (es, s') \<Longrightarrow> es = [] \<and> s' = s"
  by (simp split: if_splits)

lemma quiet_lock: "lock_inode i [] s = Inr (es, s') \<Longrightarrow> es = [] \<and> s' = set_lock i True s"
  by (auto simp: lock_inode_def kbind_Inr_iff split: if_splits)

lemma quiet_nap: "nap [] s = ([], s)" by (simp add: nap_def)

lemma count_fields [simp]: "i_count (load_inode k b n) = i_count n" by (simp add: load_inode_def)

lemma same_set_ifs: "kept (ifs s) f \<Longrightarrow> same s (s\<lparr>ifs := f\<rparr>)" by (simp add: same_def)

lemma write_same:
  assumes "write_inode i [] s = Inr (es, s')"
  shows "es = [] \<and> same s s'"
proof -
  let ?s1 = "set_lock i True s" and ?n = "inode_table s i"
  have e: "inode_table ?s1 = inode_table s" "ifs ?s1 = ifs s" by (simp_all add: set_lock_def)
  obtain es1 s1 where "lock_inode i [] s = Inr (es1, s1)"
    using assms by (auto simp: write_inode_def kbind_Inr_iff)
  with quiet_lock[OF this] have l: "lock_inode i [] s = Inr ([], ?s1)" by simp
  show ?thesis
  proof (cases "\<not> i_dirt ?n \<or> i_dev ?n = 0")
    case True
    with assms l e have "es = []" "s' = set_lock i False ?s1" by (auto simp: write_inode_def)
    then show ?thesis using same_trans[OF same_lock same_lock] by simp
  next
    case False
    let ?g = "\<lambda>q b. b\<lparr>b_data := store_inode (inode_slot ?n) ?n (b_data b), b_dirt := True\<rparr>"
    obtain q f f2 where br: "bread q (ifs s) = Inr (True, f)" and rel: "brelse q (upd_buf q (?g q) f) = Inr f2"
      and es: "es = []" and s': "s' = set_lock i False (upd_inode i (\<lambda>n. n\<lparr>i_dirt := False\<rparr>) (?s1\<lparr>ifs := f2\<rparr>))"
      using assms l e False
      by (auto simp: write_inode_def Let_def quiet_nap kbind_Inr_iff split: option.splits if_splits)
    have "grab q (ifs s) f" using bread_grab[OF br] by simp
    then have "kept (ifs s) f2" using brelse_grab[OF grab_kept[OF _ kept_upd_buf] rel] by simp
    then have "same s s'" by (simp add: s' same_def set_lock_def upd_inode_def)
    with es show ?thesis by simp
  qed
qed

lemma read_same:
  assumes "read_inode i [] s = Inr (es, s')"
  shows "es = [] \<and> same s s'"
proof -
  let ?s1 = "set_lock i True s" and ?n = "inode_table s i"
  have e: "inode_table ?s1 = inode_table s" "ifs ?s1 = ifs s" by (simp_all add: set_lock_def)
  obtain es1 s1 where "lock_inode i [] s = Inr (es1, s1)"
    using assms by (auto simp: read_inode_def kbind_Inr_iff)
  with quiet_lock[OF this] have l: "lock_inode i [] s = Inr ([], ?s1)" by simp
  obtain k where k: "get_super (i_dev ?n) (ifs s) = Some k"
    using assms l e by (cases "get_super (i_dev ?n) (ifs s)") (auto simp: read_inode_def Let_def)
  let ?q = "(i_dev ?n, inode_block (super (ifs s) k) ?n)"
  obtain f where br: "bread ?q (ifs s) = Inr (True, f)"
    using assms l e k by (auto simp: read_inode_def Let_def quiet_nap kbind_Inr_iff split: if_splits)
  obtain b where b: "bufs f ?q = Some b"
    using assms l e k br by (cases "bufs f ?q") (auto simp: read_inode_def Let_def quiet_nap split: if_splits)
  obtain f2 where rel: "brelse ?q f = Inr f2"
    using assms l e k br b by (auto simp: read_inode_def Let_def quiet_nap kbind_Inr_iff split: if_splits)
  obtain n where es: "es = []" and s': "s' = set_lock i False (upd_inode i (\<lambda>_. n) (?s1\<lparr>ifs := f2\<rparr>))" and n: "i_count n = i_count ?n"
    using assms l e k br b rel by (auto simp: read_inode_def Let_def quiet_nap intro!: that split: if_splits)
  have "grab ?q (ifs s) f" using bread_grab[OF br] by simp
  then have "kept (ifs s) f2" using brelse_grab[OF _ rel] by simp
  then have "same s s'" using n by (simp add: s' same_def set_lock_def upd_inode_def)
  with es show ?thesis by simp
qed

lemma free_inode_kept: "free_inode n f = Inr (m, g) \<Longrightarrow> kept f g \<and> m = zero_inode"
  by (auto simp: free_inode_def Let_def kept_super split: if_splits option.splits)

lemma zero_count [simp]: "i_count zero_inode = 0" by (simp add: zero_inode_def)

lemma iput_repeat_recount:
  "iput_repeat fuel i [] s = Inr (es, s') \<Longrightarrow> room 3 (ifs s) \<Longrightarrow> i_count (inode_table s i) \<noteq> 0 \<Longrightarrow> es = [] \<and> recount i (- 1) s s'"
proof (induction fuel arbitrary: s)
  case (Suc fuel)
  let ?n = "inode_table s i"
  consider (dec) "es = []" "s' = count_add i (- 1) s"
    | (free) n1 f1 f2 where "\<not> i_count ?n > 1" "Truncate.truncate [] ?n (ifs s) = Inr (Some (n1, f1))"
        "free_inode n1 f1 = Inr (zero_inode, f2)" "es = []" "s' = set_lock i False (upd_inode i (\<lambda>_. zero_inode) (s\<lparr>ifs := f2\<rparr>))"
    | (again) es1 s1 es2 s2 where "write_inode i [] s = Inr (es1, s1)" "wait_on_inode i es1 s1 = Inr (es2, s2)"
        "iput_repeat fuel i es2 s2 = Inr (es, s')"
    using Suc.prems(1)
    by (auto simp: Let_def kbind_Inr_iff dest: free_inode_kept split: if_splits option.splits) (metis free_inode_kept)
  then show ?case
  proof cases
    case dec
    with recount_count_add show ?thesis by simp
  next
    case free
    have k: "kept (ifs s) f2"
      using truncate_kept[OF free(2) Suc.prems(2)] free_inode_kept[OF free(3)] kept_trans by blast
    have "i_count ?n = 1"
      using free(1) Suc.prems(3) by (simp add: word_less_nat_alt word_unat_eq_iff)
    with k free(4,5) show ?thesis by (simp add: recount_def set_lock_def upd_inode_def)
  next
    case again
    from write_same[OF again(1)] have e1: "es1 = []" "same s s1" by simp_all
    from quiet_wait[OF again(2)[unfolded e1(1)]] have e2: "es2 = []" "s2 = s1" by simp_all
    have "es = [] \<and> recount i (- 1) s1 s'"
      using Suc.IH[of s1] again(3) e1 e2 same_room[OF e1(2)] Suc.prems(2,3) by (simp add: same_def)
    with recount_same(2)[OF e1(2)] show ?thesis by blast
  qed
qed simp

lemma iput_recount:
  assumes "iput fuel (Some i) [] s = Inr (es, s')" and "room 3 (ifs s)"
  shows "es = [] \<and> recount i (- 1) s s'"
proof -
  obtain es1 s1 where w: "wait_on_inode i [] s = Inr (es1, s1)" using assms(1) by (auto simp: iput_def kbind_Inr_iff)
  note q = quiet_wait[OF w]
  have r: "iput_repeat fuel i [] s = Inr (es, s') \<Longrightarrow> i_count (inode_table s i) \<noteq> 0 \<Longrightarrow> ?thesis"
    using iput_repeat_recount assms(2) by blast
  have p: "recount i (- 1) s (upd_inode i (\<lambda>n. n\<lparr>i_count := 0, i_dirt := False, i_pipe := False\<rparr>)
             (s\<lparr>freed_pages := x\<rparr>))" if "i_count (inode_table s i) - 1 = 0" for x
    using that by (simp add: recount_def upd_inode_def)
  show ?thesis
    using assms(1) w q r p recount_count_add[of i "- 1" s]
    by (auto simp: iput_def Let_def quiet_nap kbind_Inr_iff dest!: quiet_wait split: if_splits)
qed

lemma clean_same: "clean_inode fuel i [] s = Inr (es, s') \<Longrightarrow> es = [] \<and> same s s'"
proof (induction fuel arbitrary: s)
  case (Suc fuel)
  show ?case
  proof (cases "i_dirt (inode_table s i)")
    case True
    with Suc.prems obtain es1 s1 es2 s2 where a: "write_inode i [] s = Inr (es1, s1)"
      "wait_on_inode i es1 s1 = Inr (es2, s2)" "clean_inode fuel i es2 s2 = Inr (es, s')"
      by (auto simp: kbind_Inr_iff)
    from write_same[OF a(1)] have e1: "es1 = []" "same s s1" by simp_all
    from quiet_wait[OF a(2)[unfolded e1(1)]] have "es2 = []" "s2 = s1" by simp_all
    with Suc.IH[of s1] a(3) same_trans[OF e1(2)] show ?thesis by blast
  qed (use Suc.prems in simp)
qed simp

lemma empty_scan_same: "same s (snd (empty_scan k c s))"
proof -
  have "ifs (snd (empty_scan k c s)) = ifs s \<and> inode_table (snd (empty_scan k c s)) = inode_table s"
    by (induction k c s rule: empty_scan.induct) (simp_all add: Let_def)
  then show ?thesis by (simp add: same_def)
qed

lemma get_empty_recount:
  "get_empty_inode fuel [] s = Inr (i, es, s') \<Longrightarrow> es = [] \<and> recount i 1 s s' \<and> i_count (inode_table s' i) = 1"
proof (induction fuel arbitrary: s)
  case (Suc fuel)
  obtain c s1 where e: "empty_scan NR_INODE None s = (c, s1)" by fastforce
  have s1: "same s s1" using empty_scan_same[of s NR_INODE None] e by simp
  obtain j es2 s2 es3 s3 where a: "c = Some j" "wait_on_inode j [] s1 = Inr (es2, s2)" "clean_inode fuel j es2 s2 = Inr (es3, s3)"
    and b: "(if i_count (inode_table s3 j) \<noteq> 0 then get_empty_inode fuel es3 s3
             else Inr (j, es3, set_lock j False (upd_inode j (\<lambda>_. zero_inode\<lparr>i_count := 1\<rparr>) s3))) = Inr (i, es, s')"
    using Suc.prems e by (auto simp: kbind_Inr_iff split: option.splits)
  from quiet_wait[OF a(2)] have e2: "es2 = []" "s2 = s1" by simp_all
  from clean_same[OF a(3)[unfolded e2]] have e3: "es3 = []" "same s1 s3" by simp_all
  note s3 = same_trans[OF s1 e3(2)]
  show ?case
  proof (cases "i_count (inode_table s3 j) = 0")
    case True
    with b e3 have r: "i = j" "es = []" "s' = set_lock j False (upd_inode j (\<lambda>_. zero_inode\<lparr>i_count := 1\<rparr>) s3)" by auto
    have "recount j 1 s3 s'" using True by (simp add: r recount_def set_lock_def upd_inode_def)
    moreover have "i_count (inode_table s' j) = 1" by (simp add: r set_lock_def upd_inode_def)
    ultimately show ?thesis using recount_same(2)[OF s3] r by simp
  next
    case False
    with b e3 Suc.IH[of s3] recount_same(2)[OF s3] show ?thesis by simp
  qed
qed simp

lemma kbind_pairD: "kbind m (\<lambda>(a, b). Inr (k, a, b)) = Inr (i, es, s') \<Longrightarrow> m = Inr (es, s') \<and> i = k"
  by (auto simp: kbind_Inr_iff)

lemma iget_scan_recount:
  "iget_scan fuel dev nr k spare [] s = Inr (i, es, s') \<Longrightarrow> room 3 (ifs s) \<Longrightarrow>
    es = [] \<and> (\<exists>s1. recount spare (- 1) s s1 \<and> recount i 1 s1 s')"
proof (induction fuel arbitrary: dev nr k s)
  case (Suc fuel)
  let ?n = "inode_table s k"
  have swap: "\<exists>s1. recount spare (- 1) s s1 \<and> recount i 1 s1 s'"
    if "recount i 1 s s2" "recount spare (- 1) s2 s'" for s2
  proof -
    let ?s1 = "s\<lparr>inode_table := (\<lambda>j. (inode_table s j)\<lparr>i_count := i_count (inode_table s j) + (if j = spare then - 1 else 0)\<rparr>)\<rparr>"
    have "recount spare (- 1) s ?s1" by (simp add: recount_def)
    moreover have "kept (ifs ?s1) (ifs s')" using kept_trans[OF recountD(1)[OF that(1)] recountD(1)[OF that(2)]] by simp
    then have "recount i 1 ?s1 s'" using recountD(2)[OF that(1)] recountD(2)[OF that(2)] by (simp add: recount_def)
    ultimately show ?thesis by blast
  qed
  consider (new) "k \<ge> NR_INODE" | (go_on) "\<not> k \<ge> NR_INODE" "i_dev ?n \<noteq> dev \<or> i_num ?n \<noteq> nr"
    | (hit) "\<not> k \<ge> NR_INODE" "\<not> (i_dev ?n \<noteq> dev \<or> i_num ?n \<noteq> nr)" by blast
  then show ?case
  proof cases
    case new
    then have rd: "read_inode spare [] (upd_inode spare (\<lambda>n. n\<lparr>i_dev := dev, i_num := nr\<rparr>) s) = Inr (es, s')" "i = spare"
      using Suc.prems(1) by (auto simp: kbind_Inr_iff)
    have s0: "same s (upd_inode spare (\<lambda>n. n\<lparr>i_dev := dev, i_num := nr\<rparr>) s)" by (rule same_upd) simp
    from read_same[OF rd(1)] have "es = []" "same s s'" using same_trans[OF s0] by simp_all
    moreover have "recount spare (- 1) s (count_add spare (- 1) s)" by (rule recount_count_add)
    moreover have "recount spare 1 (count_add spare (- 1) s) s'"
      using \<open>same s s'\<close> by (simp add: recount_def same_def count_add_def upd_inode_def)
    ultimately show ?thesis using rd(2) by blast
  next
    case go_on
    then have "iget_scan fuel dev nr (k + 1) spare [] s = Inr (i, es, s')" using Suc.prems(1) by simp
    with Suc.IH Suc.prems(2) show ?thesis by blast
  next
    case hit
    have w: "wait_on_inode k [] s = Inr ([], s)" using Suc.prems(1) hit
      by (cases "i_lock s k") auto
    let ?s2 = "count_add k 1 s"
    have k2: "recount k 1 s ?s2" by (rule recount_count_add)
    have r2: "room 3 (ifs ?s2)" using Suc.prems(2) by (simp add: count_add_def upd_inode_def)
    consider (put) "iput fuel (Some spare) [] ?s2 = Inr (es, s')" "i = k"
      | (mnt) m es3 s3 where "iput fuel (Some k) [] ?s2 = Inr (es3, s3)"
          "iget_scan fuel (s_dev (super (ifs s3) m)) ROOT_INO 0 spare es3 s3 = Inr (i, es, s')"
    proof -
      have b: "(if i_mount (inode_table ?s2 k)
         then case mounted_on k ?s2 of
                None \<Rightarrow> kbind (iput fuel (Some spare) [] ?s2) (\<lambda>(es3, s3). Inr (k, es3, s3))
              | Some m \<Rightarrow> kbind (iput fuel (Some k) [] ?s2)
                            (\<lambda>(es3, s3). iget_scan fuel (s_dev (super (ifs s3) m)) ROOT_INO 0 spare es3 s3)
         else kbind (iput fuel (Some spare) [] ?s2) (\<lambda>(es3, s3). Inr (k, es3, s3))) = Inr (i, es, s')"
        using Suc.prems(1) hit
        by (simp only: iget_scan.simps w kbind.simps prod.case Let_def if_False refl)
      show thesis
      proof (cases "i_mount (inode_table ?s2 k) \<and> mounted_on k ?s2 \<noteq> None")
        case True
        then obtain m where m: "i_mount (inode_table ?s2 k)" "mounted_on k ?s2 = Some m" by blast
        from b[unfolded m(2) option.case if_P[OF m(1)]] obtain x where x: "iput fuel (Some k) [] ?s2 = Inr x"
          "(case x of (es3, s3) \<Rightarrow> iget_scan fuel (s_dev (super (ifs s3) m)) ROOT_INO 0 spare es3 s3) = Inr (i, es, s')"
          by (rule kbind_InrE)
        show thesis by (cases x, rule mnt) (use x in \<open>simp_all only: prod.case\<close>)
      next
        case False
        then have "kbind (iput fuel (Some spare) [] ?s2) (\<lambda>(es3, s3). Inr (k, es3, s3)) = Inr (i, es, s')"
          using b by (cases "i_mount (inode_table ?s2 k)") (simp_all only: if_True if_False option.case HOL.simp_thms not_not)
        from kbind_pairD[OF this] show thesis by (intro put) simp_all
      qed
    qed
    then show ?thesis
    proof cases
      case put
      from iput_recount[OF put(1) r2] swap[OF _ , of ?s2] k2 put(2) show ?thesis by blast
    next
      case mnt
      from iput_recount[OF mnt(1) r2] have e3: "es3 = []" and r3: "recount k (- 1) ?s2 s3" by simp_all
      have same3: "same s s3" using recount_trans[OF k2 r3] by (simp add: recount_def same_def)
      from Suc.IH[OF mnt(2)[unfolded e3]] same_room[OF same3] Suc.prems(2)
      obtain s4 where "es = []" "recount spare (- 1) s3 s4" "recount i 1 s4 s'" by blast
      with recount_same(2)[OF same3] show ?thesis by blast
    qed
  qed
qed simp

lemma iget_recount:
  assumes "iget fuel dev nr [] s = Inr (i, es, s')" and "room 3 (ifs s)"
  shows "es = [] \<and> recount i 1 s s'"
proof -
  from assms(1) obtain j es1 s1 where g: "get_empty_inode fuel [] s = Inr (j, es1, s1)"
    and sc: "iget_scan fuel dev nr 0 j es1 s1 = Inr (i, es, s')" by (auto simp: iget_def kbind_Inr_iff split: if_splits)
  from get_empty_recount[OF g] have e1: "es1 = []" and r1: "recount j 1 s s1" by simp_all
  have "room 3 (ifs s1)" using kept_room[OF recountD(1)[OF r1]] assms(2) by simp
  from iget_scan_recount[OF sc[unfolded e1] this] obtain s2 where "es = []"
    and r2: "recount j (- 1) s1 s2" and r3: "recount i 1 s2 s'" by blast
  have "same s s2" using recount_trans[OF r1 r2] by (simp add: recount_def same_def)
  from recount_same(2)[OF this r3] \<open>es = []\<close> show ?thesis by simp
qed

section \<open>The rules for routines\<close>

named_theorems owns_rules \<open>what the small routines take and give back\<close>

lemma owns_get [owns_rules]: "triple (owns t K I) (io_get f) (\<lambda>_. owns t K I)" by (rule triple_get)

lemma owns_the_inode [owns_rules]: "triple (owns t K I) (the_inode i) (\<lambda>_. owns t K I)"
  unfolding the_inode_def by (rule triple_get)

lemma owns_time [owns_rules]: "triple (owns t K I) now_io (\<lambda>_. owns t K I)"
  unfolding now_io_def by (rule triple_get)

lemma owns_read_buf [owns_rules]: "triple (owns t K I) (read_buf q f) (\<lambda>_. owns t K I)"
  by (auto simp: triple_def read_buf_def split: option.splits)

lemma owns_mod_inode [owns_rules]:
  "(\<And>n. i_count (f n) = i_count n) \<Longrightarrow> triple (owns t K I) (mod_inode i f) (\<lambda>_. owns t K I)"
  by (auto simp: triple_def mod_inode_def io_mod_def upd_inode_def intro: owns_kept)

lemma owns_mod_buf [owns_rules]:
  "(\<And>b. b_count (f b) = b_count b) \<Longrightarrow> triple (owns t K I) (mod_buf q f) (\<lambda>_. owns t K I)"
  using owns_kept[of t K I _ "_\<lparr>ifs := upd_buf q f _\<rparr>"] kept_upd_buf[of f _ q] by (simp add: triple_def mod_buf_def io_mod_def)

lemma owns_bread [owns_rules]: "triple (owns t K I) (bread_io q) (\<lambda>ok. owns t (if ok then add_mset q K else K) I)"
  unfolding triple_def bread_io_def
proof (intro allI impI)
  fix s ok es s'
  assume o: "owns t K I s"
    and r: "(let (es1, s1) = nap [] s in kbind (bread q (ifs s1)) (\<lambda>(ok, f). Inr (ok, es1, s1\<lparr>ifs := f\<rparr>))) = Inr (ok, es, s')"
  then obtain f where b: "bread q (ifs s) = Inr (ok, f)" "es = []" "s' = s\<lparr>ifs := f\<rparr>" by (auto simp: quiet_nap kbind_Inr_iff)
  with bread_grab[OF b(1)] owns_grab[OF o, of q s'] owns_kept[OF o, of s']
  show "es = [] \<and> owns t (if ok then add_mset q K else K) I s'" by auto
qed

lemma owns_brelse [owns_rules]: "triple (owns t (add_mset q K) I) (brelse_io (Some q)) (\<lambda>_. owns t K I)"
  using owns_release by (fastforce simp: triple_def brelse_io_def kbind_Inr_iff)

lemma owns_brelse_2 [owns_rules]: "triple (owns t (add_mset p (add_mset q K)) I) (brelse_io (Some q)) (\<lambda>_. owns t (add_mset p K) I)"
  unfolding add_mset_commute[of p q] by (rule owns_brelse)

lemma owns_iput:
  assumes "quiet_start t" and "size K \<le> 5"
  shows "triple (owns t K (add_mset i I)) (iput_io fu (Some i)) (\<lambda>_. owns t K I)"
  unfolding triple_def iput_io_def
proof (intro allI impI)
  fix s a es s'
  assume o: "owns t K (add_mset i I) s" and r: "kbind (iput fu (Some i) [] s) (\<lambda>(es1, s1). Inr ((), es1, s1)) = Inr (a, es, s')"
  then have "iput fu (Some i) [] s = Inr (es, s')" by (auto simp: kbind_Inr_iff)
  with iput_recount owns_room[OF o assms(1), of 3] assms(2) owns_drop[OF o] show "es = [] \<and> owns t K I s'" by fastforce
qed

lemma owns_iput_2:
  assumes "quiet_start t" and "size K \<le> 5"
  shows "triple (owns t K (add_mset j (add_mset i I))) (iput_io fu (Some i)) (\<lambda>_. owns t K (add_mset j I))"
  unfolding add_mset_commute[of j i] by (rule owns_iput[OF assms])

lemma owns_iget:
  assumes "quiet_start t" and "size K \<le> 5"
  shows "triple (owns t K I) (iget fu dev nr) (\<lambda>i. owns t K (add_mset i I))"
  unfolding triple_def
proof (intro allI impI)
  fix s i es s'
  assume o: "owns t K I s" and r: "iget fu dev nr [] s = Inr (i, es, s')"
  with iget_recount[OF r] owns_room[OF o assms(1), of 3] assms(2) owns_take[OF o]
  show "es = [] \<and> owns t K (add_mset i I) s'" by simp
qed

lemma owns_count_up [owns_rules]: "triple (owns t K I) (io_mod (count_add i 1)) (\<lambda>_. owns t K (add_mset i I))"
  using owns_take[OF _ recount_count_add] by (simp add: triple_def io_mod_def)

lemma bmap_gen_count:
  assumes "bmap_gen n blk create f = Inr (z, m, g)"
  shows "i_count m = i_count n"
proof -
  have a: "alloc_zone n slot create f = Inr (m, g) \<Longrightarrow> i_count m = i_count n" for slot m g
    by (auto simp: alloc_zone_def Let_def kbind_Inr_iff split: if_splits)
  from assms show ?thesis by (auto simp: bmap_gen_def Let_def kbind_Inr_iff dest: a split: if_splits)
qed

lemma owns_block [owns_rules]: "triple (owns t K I) (block_io create i blk) (\<lambda>_. owns t K I)"
  unfolding triple_def block_io_def
  by (auto simp: kbind_Inr_iff upd_inode_def dest: bmap_gen_kept bmap_gen_count elim!: owns_kept)

lemma owns_new_block [owns_rules]: "triple (owns t K I) (new_block_io dev) (\<lambda>_. owns t K I)"
  unfolding triple_def new_block_io_def by (auto simp: kbind_Inr_iff dest: new_block_kept elim!: owns_kept)

lemma owns_truncate:
  assumes "quiet_start t" and "size K \<le> 5"
  shows "triple (owns t K I) (truncate_io i) (\<lambda>_. owns t K I)"
  unfolding triple_def truncate_io_def
proof (intro allI impI)
  fix s a es s'
  assume o: "owns t K I s"
    and r: "kbind (Truncate.truncate [] (inode_table s i) (ifs s))
       (\<lambda>r. case r of None \<Rightarrow> Inl Unfinished | Some (n, f) \<Rightarrow> Inr ((), [], upd_inode i (\<lambda>_. n) (s\<lparr>ifs := f\<rparr>))) = Inr (a, es, s')"
  then obtain n f where tr: "Truncate.truncate [] (inode_table s i) (ifs s) = Inr (Some (n, f))" "es = []"
    "s' = upd_inode i (\<lambda>_. n) (s\<lparr>ifs := f\<rparr>)" by (auto simp: kbind_Inr_iff split: option.splits)
  from truncate_kept[OF tr(1)] owns_room[OF o assms(1), of 3] assms(2) have "kept (ifs s) f" "i_count n = i_count (inode_table s i)" by auto
  with tr owns_kept[OF o, of s'] show "es = [] \<and> owns t K I s'" by (auto simp: upd_inode_def)
qed

lemma new_inode_kept:
  assumes "new_inode dev u g n f = Inr (r, f')"
  shows "kept f f' \<and> (\<forall>m. r = Some m \<longrightarrow> i_count m = 1)"
proof -
  have "f' = f \<or> (\<exists>k h. f' = upd_super k h f)" "\<forall>m. r = Some m \<longrightarrow> i_count m = 1"
    using assms by (auto simp: new_inode_def Let_def split: option.splits prod.splits if_splits)
  then show ?thesis using kept_super by auto
qed

lemma owns_new_inode:
  assumes "quiet_start t" and "size K \<le> 5"
  shows "triple (owns t K I) (new_inode_io fu k dev) (\<lambda>r. owns t K (case r of None \<Rightarrow> I | Some i \<Rightarrow> add_mset i I))"
  unfolding triple_def new_inode_io_def
proof (intro allI impI)
  fix s r es s'
  assume o: "owns t K I s"
    and a: "kbind (get_empty_inode fu [] s)
       (\<lambda>(i, es1, s1).
          kbind (new_inode dev (euid (cur k)) (egid (cur k)) (inode_table s1 i) (ifs s1))
            (\<lambda>(r, f). case r of
               None \<Rightarrow> kbind (iput fu (Some i) es1 (s1\<lparr>ifs := f\<rparr>)) (\<lambda>(es2, s2). Inr (None, es2, s2))
             | Some n \<Rightarrow> Inr (Some i, es1, upd_inode i (\<lambda>_. n) (s1\<lparr>ifs := f\<rparr>)))) = Inr (r, es, s')"
  then obtain i es1 s1 where g: "get_empty_inode fu [] s = Inr (i, es1, s1)" by (auto simp: kbind_Inr_iff)
  from get_empty_recount[OF g] have e1: "es1 = []" and r1: "recount i 1 s s1" and c1: "i_count (inode_table s1 i) = 1"
    by simp_all
  note o1 = owns_take[OF o r1]
  obtain ro f where n: "new_inode dev (euid (cur k)) (egid (cur k)) (inode_table s1 i) (ifs s1) = Inr (ro, f)"
    using a g by (auto simp: kbind_Inr_iff)
  note nk = new_inode_kept[OF n]
  show "es = [] \<and> owns t K (case r of None \<Rightarrow> I | Some i \<Rightarrow> add_mset i I) s'"
  proof (cases ro)
    case None
    with a g n e1 have ip: "iput fu (Some i) [] (s1\<lparr>ifs := f\<rparr>) = Inr (es, s')" "r = None" by (auto simp: kbind_Inr_iff)
    have o2: "owns t K (add_mset i I) (s1\<lparr>ifs := f\<rparr>)" by (rule owns_kept[OF o1]) (use nk in simp_all)
    from iput_recount[OF ip(1)] owns_room[OF o2 assms(1), of 3] assms(2) owns_drop[OF o2] ip(2) show ?thesis by simp
  next
    case (Some n')
    with a g n e1 have s': "es = []" "s' = upd_inode i (\<lambda>_. n') (s1\<lparr>ifs := f\<rparr>)" "r = Some i" by auto
    with nk Some c1 have "owns t K (add_mset i I) s'" by (intro owns_kept[OF o1]) (auto simp: upd_inode_def)
    with s' show ?thesis by simp
  qed
qed
end
