(* ===== verification/NameiRefs.thy ===== *)
theory NameiRefs
  imports Namei FsRefs
begin

text \<open>
  Every path through the calls of \<open>fs/namei.c\<close> gives back the buffers and inodes it took: a quiet run of a
  call leaves all counts as they were, apart from the inode it returns.
\<close>

section \<open>Rules for one step\<close>

fun opt_add :: "'a option \<Rightarrow> 'a multiset \<Rightarrow> 'a multiset" where
  "opt_add None M = M"
| "opt_add (Some x) M = add_mset x M"

definition frugal_start :: "isys \<Rightarrow> nat \<Rightarrow> bkey multiset \<Rightarrow> bool" where
  "frugal_start t n K \<longleftrightarrow> quiet_start t \<and> size K \<le> n"

lemma frugal_size [intro]: "frugal_start t n K \<Longrightarrow> n \<le> 5 \<Longrightarrow> quiet_start t" "frugal_start t n K \<Longrightarrow> n \<le> 5 \<Longrightarrow> size K \<le> 5"
  by (simp_all add: frugal_start_def)

lemma frugal_add: "frugal_start t n K \<Longrightarrow> frugal_start t (Suc n) (add_mset q K)"
  by (simp add: frugal_start_def)

lemma frugal_weaken: "frugal_start t n K \<Longrightarrow> n \<le> m \<Longrightarrow> frugal_start t m K"
  by (simp add: frugal_start_def)

text \<open>The rules, each for a routine followed by the rest of the code.\<close>

lemma bind_bread:
  "triple (owns t (add_mset q K) I) (f True) Q \<Longrightarrow> triple (owns t K I) (f False) Q \<Longrightarrow>
    triple (owns t K I) (io_bind (bread_io q) f) Q"
  by (rule triple_bind[OF owns_bread]) (simp split: if_splits)

lemma bind_new_inode:
  assumes "quiet_start t" and "size K \<le> 5" and "triple (owns t K I) (f None) Q"
    and "\<And>i. triple (owns t K (add_mset i I)) (f (Some i)) Q"
  shows "triple (owns t K I) (io_bind (new_inode_io fu k dev) f) Q"
  by (rule triple_bind[OF owns_new_inode[OF assms(1,2)]]) (simp add: assms split: option.splits)

lemma bind_opt:
  assumes "triple P m (\<lambda>r. owns t K (opt_add r I))" and "triple (owns t K I) (f None) Q"
    and "\<And>i. triple (owns t K (add_mset i I)) (f (Some i)) Q"
  shows "triple P (io_bind m f) Q"
proof (rule triple_bind[OF assms(1)])
  show "triple (owns t K (opt_add r I)) (f r) Q" for r using assms(2,3) by (cases r) simp_all
qed

lemma bind_ret: "triple P (f a) Q \<Longrightarrow> triple P (io_bind (io_ret a) f) Q"
  by (simp add: triple_def io_bind_def io_ret_def)

lemma seq_ret: "triple P m Q \<Longrightarrow> triple P (io_seq (io_ret ()) m) Q"
  unfolding io_seq_def by (rule bind_ret)

lemma bind_seq: "triple P (io_seq m (io_bind n f)) Q \<Longrightarrow> triple P (io_bind (io_seq m n) f) Q"
  by (auto simp: triple_def io_bind_def io_seq_def kbind_Inr_iff)

lemma bind_bind: "triple P (io_bind m (\<lambda>a. io_bind (n a) f)) Q \<Longrightarrow> triple P (io_bind (io_bind m n) f) Q"
  by (auto simp: triple_def io_bind_def kbind_Inr_iff)

lemma bind_if: "(c \<Longrightarrow> triple P (io_bind m f) Q) \<Longrightarrow> (\<not> c \<Longrightarrow> triple P (io_bind n f) Q) \<Longrightarrow>
    triple P (io_bind (if c then m else n) f) Q"
  by simp

lemma bind_err: "triple P (io_bind (io_err e) f) Q"
  by (simp add: triple_def io_bind_def io_err_def)

lemma brelse_none: "triple P n Q \<Longrightarrow> triple P (io_seq (brelse_io None) n) Q"
  by (simp add: triple_def io_seq_def io_bind_def brelse_io_def)

lemma owns_brelse_3: "triple (owns t (add_mset p (add_mset r (add_mset q K))) I) (brelse_io (Some q)) (\<lambda>_. owns t (add_mset p (add_mset r K)) I)"
  using owns_brelse[of t q "add_mset p (add_mset r K)" I] by (simp add: add_mset_commute)

lemma owns_iput_3:
  assumes "quiet_start t" and "size K \<le> 5"
  shows "triple (owns t K (add_mset j (add_mset l (add_mset i I)))) (iput_io fu (Some i)) (\<lambda>_. owns t K (add_mset j (add_mset l I)))"
  using owns_iput[OF assms, of i "add_mset j (add_mset l I)"] by (simp add: add_mset_commute)

lemmas step_rules =
  triple_ret triple_err bind_err bind_ret seq_ret bind_bind bind_if
  owns_the_inode[THEN triple_bind] owns_get[THEN triple_bind] owns_time[THEN triple_bind] owns_read_buf[THEN triple_bind]
  owns_mod_inode[THEN triple_seq] owns_mod_buf[THEN triple_seq] bind_bread
  owns_brelse[THEN triple_seq] owns_brelse_2[THEN triple_seq] owns_brelse_3[THEN triple_seq] brelse_none
  owns_iput[THEN triple_seq] owns_iput_2[THEN triple_seq] owns_iput_3[THEN triple_seq]
  owns_iget[THEN triple_bind] owns_count_up[THEN triple_seq]
  owns_block[THEN triple_bind] owns_new_block[THEN triple_bind] owns_truncate[THEN triple_seq] bind_new_inode bind_seq

lemmas last_rules = owns_mod_inode owns_mod_buf owns_brelse owns_block

section \<open>Directories\<close>

lemma owns_dotdot:
  assumes "quiet_start t" and "size K \<le> 5"
  shows "triple (owns t K (add_mset dir I)) (dotdot fu p dir name) (\<lambda>(d, _). owns t K (add_mset d I))"
  unfolding dotdot_def using assms
  by (auto intro!: step_rules split: option.splits)

lemma owns_next_block:
  "triple (owns t (add_mset q K) I) (next_block dir i q) (\<lambda>r. owns t (opt_add r K) I)"
  unfolding next_block_def by (auto intro!: step_rules)

lemma owns_find_scan:
  "triple (owns t (opt_add bh K) I) (find_scan dir name entries i k bh) (\<lambda>r. owns t (opt_add (map_option fst r) K) I)"
proof (induction dir name entries i k bh rule: find_scan.induct)
  case (1 dir name entries i k bh)
  show ?case
  proof (cases "i \<ge> entries")
    case True
    then show ?thesis by (cases bh; subst find_scan.simps) (auto intro!: step_rules)
  next
    case False
    note IH = "1.IH"[OF False]
    show ?thesis
    proof (cases bh)
      case None
      with False show ?thesis by (subst find_scan.simps) simp
    next
      case (Some q)
      note IH = IH[OF Some]
      show ?thesis
        using False Some IH
        by (cases q, subst find_scan.simps)
           (auto intro!: triple_bind[OF owns_next_block] bind_ret triple_bind[OF owns_read_buf] triple_ret simp: Let_def split: option.splits)
    qed
  qed
qed

lemma owns_find_entry:
  assumes "quiet_start t" and "size K \<le> 5"
  shows "triple (owns t K (add_mset dir I)) (find_entry fu p dir name)
    (\<lambda>(d, r). owns t (opt_add (map_option fst r) K) (add_mset d I))"
  unfolding find_entry_def
proof (rule triple_bind[OF owns_the_inode], rule triple_bind[OF owns_dotdot[OF assms]], rule triple_prod, simp only: prod.case,
    rule triple_bind[OF owns_the_inode])
  fix n0 n :: m_inode and a d and nm :: "u8 list"
  let ?Q = "\<lambda>(d, r). owns t (opt_add (map_option fst r) K) (add_mset d I)" and ?q = "(i_dev n, uint (i_zone n 0))"
  have sc: "triple (owns t (add_mset ?q K) (add_mset d I)) (find_scan d nm e 0 0 (Some ?q))
      (\<lambda>r. owns t (opt_add (map_option fst r) K) (add_mset d I))" for e
    using owns_find_scan[of t "Some ?q" K "add_mset d I"] by simp
  show "triple (owns t K (add_mset d I))
     (if i_zone n 0 = 0 then io_ret (d, None)
      else let q = ?q in io_bind (bread_io q) (\<lambda>ok. if \<not> ok then io_ret (d, None)
             else io_bind (find_scan d nm (unat (i_size n0) div 16) 0 0 (Some q)) (\<lambda>r. io_ret (d, r)))) ?Q"
    by (auto simp: Let_def intro!: step_rules triple_bind[OF sc])
qed

lemma owns_make_block:
  "triple (owns t (add_mset q K) I) (make_block dir i q) (\<lambda>r. owns t (case r of Some (Some x) \<Rightarrow> add_mset x K | _ \<Rightarrow> K) I)"
  unfolding make_block_def by (auto intro!: step_rules)

lemma owns_extend_dir: "triple (owns t K I) (extend_dir dir i q k) (\<lambda>_. owns t K I)"
  unfolding extend_dir_def by (auto intro!: step_rules last_rules)

lemma owns_add_scan:
  "triple (owns t (opt_add bh K) I) (add_scan fuel dir name i k bh) (\<lambda>r. owns t (opt_add (map_option fst r) K) I)"
proof (induction fuel arbitrary: i k bh)
  case (Suc fuel)
  show ?case
  proof (cases bh)
    case (Some q)
    have IH: "triple (owns t K I) (add_scan fuel dir name i k None) (\<lambda>r. owns t (opt_add (map_option fst r) K) I)"
      "triple (owns t (add_mset q K) I) (add_scan fuel dir name i k (Some q)) (\<lambda>r. owns t (opt_add (map_option fst r) K) I)" for i k q
      using Suc.IH[of None i k] Suc.IH[of "Some q" i k] by simp_all
    show ?thesis
      unfolding Some add_scan.simps option.case
      by (auto intro!: step_rules triple_bind[OF owns_make_block] triple_seq[OF owns_extend_dir] IH simp: Let_def split: option.splits)
  qed simp
qed simp

lemma owns_add_entry:
  "triple (owns t K I) (add_entry fu dir name) (\<lambda>r. owns t (opt_add (map_option fst r) K) I)"
  unfolding add_entry_def using owns_add_scan[of t "Some _" K I]
  by (auto simp: Let_def intro!: step_rules)

section \<open>Paths\<close>

text \<open>What is asked of \<open>follow_link\<close>: the directory and the inode are given up for the result.\<close>

definition follows :: "isys \<Rightarrow> bkey multiset \<Rightarrow> (nat option \<Rightarrow> nat option \<Rightarrow> nat option io) \<Rightarrow> bool" where
  "follows t K follow \<longleftrightarrow>
     (\<forall>I d i. triple (owns t K (add_mset i (add_mset d I))) (follow (Some d) (Some i)) (\<lambda>r. owns t K (opt_add r I)))"

lemma followsD: "follows t K follow \<Longrightarrow>
    triple (owns t K (add_mset i (add_mset d I))) (follow (Some d) (Some i)) (\<lambda>r. owns t K (opt_add r I))"
  by (simp add: follows_def)

text \<open>The part \<open>walk\<close> and \<open>_namei\<close> share: the entry found, its inode, and the link behind it.\<close>

lemma owns_found:
  assumes "quiet_start t" and "size K \<le> 4"
    and f: "\<And>i. triple (owns t K (add_mset i (add_mset dir I))) (g i) (\<lambda>r. owns t K (opt_add r I))"
    and h: "triple (owns t K I) (h None) Q" "\<And>i. triple (owns t K (add_mset i I)) (h (Some i)) Q"
  shows "triple (owns t (add_mset q K) (add_mset dir I))
    (io_bind (read_buf q f0) (\<lambda>inr. io_seq (brelse_io (Some q))
       (io_bind (the_inode dir) (\<lambda>nd. io_bind (iget fu (i_dev nd) inr) (\<lambda>j. io_bind (g j) h))))) Q"
  using assms(1,2) by (auto intro!: step_rules triple_bind[OF owns_iget] bind_opt[OF f] h)

lemma owns_walk:
  assumes "quiet_start t" and "size K \<le> 4" and "follows t K follow"
  shows "triple (owns t K (add_mset i I)) (walk follow fu p path i) (\<lambda>r. owns t K (opt_add r I))"
  using assms(3)
proof (induction follow fu p path i arbitrary: I rule: walk.induct)
  case (1 follow fu p path i)
  let ?name = "takeWhile (\<lambda>c. c \<noteq> 47) path"
  have k5: "size K \<le> 5" using assms(2) by simp
  note q = assms(1) k5
  have leave: "triple (owns t K (add_mset d I)) (io_seq (iput_io fu (Some d)) (io_ret None)) (\<lambda>r. owns t K (opt_add r I))" for d
    using q by (auto intro!: step_rules)
  show ?case
  proof (subst walk.simps, rule triple_bind[OF owns_the_inode], rule triple_if)
    fix n assume c: "\<not> (\<not> s_isdir (i_mode n) \<or> \<not> permission p n MAY_EXEC)"
    show "triple (owns t K (add_mset i I))
     (case dropWhile (\<lambda>c. c \<noteq> 47) path of [] \<Rightarrow> io_ret (Some i)
      | _ # rest \<Rightarrow> io_bind (find_entry fu p i ?name)
          (\<lambda>(dir, r). case r of None \<Rightarrow> io_seq (iput_io fu (Some dir)) (io_ret None)
             | Some (q, k) \<Rightarrow> io_bind (read_buf q (\<lambda>d. de_inode d k))
                 (\<lambda>inr. io_seq (brelse_io (Some q)) (io_bind (the_inode dir)
                    (\<lambda>nd. io_bind (iget fu (i_dev nd) inr)
                       (\<lambda>j. io_bind (follow (Some dir) (Some j))
                          (\<lambda>f. case f of None \<Rightarrow> io_ret None | Some i' \<Rightarrow> walk follow fu p rest i')))))))
     (\<lambda>r. owns t K (opt_add r I))"
    proof (cases "dropWhile (\<lambda>c. c \<noteq> 47) path")
      case Nil
      show ?thesis unfolding Nil list.case by (rule triple_ret) simp
    next
      case (Cons x rest)
      have IH: "triple (owns t K (add_mset i' I)) (walk follow fu p rest i') (\<lambda>r. owns t K (opt_add r I))" for i'
        by (rule "1.IH"[OF c Cons "1.prems"])
      show ?thesis
        unfolding Cons list.case
      proof (rule triple_bind[OF owns_find_entry[OF q]], rule triple_prod, simp only: prod.case)
        fix d r
        show "triple (owns t (opt_add (map_option fst r) K) (add_mset d I))
          (case r of None \<Rightarrow> io_seq (iput_io fu (Some d)) (io_ret None)
             | Some (q, k) \<Rightarrow> io_bind (read_buf q (\<lambda>d. de_inode d k))
                 (\<lambda>inr. io_seq (brelse_io (Some q)) (io_bind (the_inode d)
                    (\<lambda>nd. io_bind (iget fu (i_dev nd) inr)
                       (\<lambda>j. io_bind (follow (Some d) (Some j))
                          (\<lambda>f. case f of None \<Rightarrow> io_ret None | Some i' \<Rightarrow> walk follow fu p rest i'))))))
          (\<lambda>r. owns t K (opt_add r I))"
        proof (cases r)
          case (Some qk)
          obtain bq k where "qk = (bq, k)" by fastforce
          with Some show ?thesis
            using owns_found[OF assms(1,2) followsD[OF "1.prems"],
                where h = "\<lambda>f. case f of None \<Rightarrow> io_ret None | Some i' \<Rightarrow> walk follow fu p rest i'"]
            by (simp add: IH triple_ret)
        qed (simp add: leave)
      qed
    qed
  qed (rule leave)
qed

lemma owns_get_dir:
  assumes "quiet_start t" and "size K \<le> 4" and "follows t K follow"
  shows "triple (owns t K (opt_add base I)) (get_dir follow fu p path base) (\<lambda>r. owns t K (opt_add r I))"
proof -
  have k5: "size K \<le> 5" using assms(2) by simp
  note q = assms(1) k5
  note w = owns_walk[OF assms]
  have "triple (owns t K (add_mset i I))
    (case path of c # rest \<Rightarrow> if c = 47 then io_seq (iput_io fu (Some i))
                   (io_seq (io_mod (count_add (c_root p) 1)) (walk follow fu p rest (c_root p)))
            else walk follow fu p path i
        | [] \<Rightarrow> walk follow fu p path i) (\<lambda>r. owns t K (opt_add r I))" for i
    using q by (auto intro!: step_rules w split: list.splits)
  then show ?thesis
    unfolding get_dir_def by (cases base) (auto intro!: step_rules)
qed

lemma owns_dir_namei:
  assumes "quiet_start t" and "size K \<le> 4" and "follows t K follow"
  shows "triple (owns t K (opt_add base I)) (dir_namei follow fu p path base) (\<lambda>r. owns t K (opt_add (map_option fst r) I))"
  unfolding dir_namei_def by (rule bind_opt[OF owns_get_dir[OF assms]]) (simp_all add: triple_ret)

lemma owns_namei_gen:
  assumes "quiet_start t" and "size K \<le> 4" and "follows t K follow"
  shows "triple (owns t K (opt_add base I)) (namei_gen follow fu p path base fl) (\<lambda>r. owns t K (opt_add r I))"
proof -
  have k5: "size K \<le> 5" using assms(2) by simp
  note q = assms(1) k5
  let ?P = "\<lambda>r. owns t K (opt_add r I)"
  let ?h = "\<lambda>f. case f of None \<Rightarrow> io_err NullDeref
     | Some i \<Rightarrow> io_bind now_io (\<lambda>t. io_seq (mod_inode i (\<lambda>n. n\<lparr>i_atime := t, i_dirt := True\<rparr>)) (io_ret (Some i)))"
  have h: "triple (owns t K I) (?h None) ?P" "triple (owns t K (add_mset i I)) (?h (Some i)) ?P" for i
    by (auto intro!: step_rules)
  have g: "triple (owns t K (add_mset j (add_mset d I)))
     (if fl then follow (Some d) (Some j) else io_seq (iput_io fu (Some d)) (io_ret (Some j))) (\<lambda>r. owns t K (opt_add r I))" for d j
    using q followsD[OF assms(3)] by (auto intro!: step_rules)
  note found = owns_found[OF assms(1,2) g h]
  show ?thesis
    unfolding namei_gen_def
  proof (rule triple_bind[OF owns_dir_namei[OF assms]])
    fix r
    show "triple (owns t K (opt_add (map_option fst r) I))
     (case r of None \<Rightarrow> io_ret None
        | Some (dir0, name) \<Rightarrow> if name = [] then io_ret (Some dir0)
            else io_bind (find_entry fu p dir0 name)
              (\<lambda>(dir, r). case r of None \<Rightarrow> io_seq (iput_io fu (Some dir)) (io_ret None)
               | Some (q, k) \<Rightarrow> io_bind (read_buf q (\<lambda>d. de_inode d k))
                     (\<lambda>inr. io_seq (brelse_io (Some q)) (io_bind (the_inode dir)
                           (\<lambda>nd. io_bind (iget fu (i_dev nd) inr)
                              (\<lambda>j. io_bind (if fl then follow (Some dir) (Some j) else io_seq (iput_io fu (Some dir)) (io_ret (Some j)))
                                 ?h)))))) ?P"
    proof (cases r)
      case None
      then show ?thesis by (auto intro!: step_rules)
    next
      case (Some dn)
      obtain d nm where dn: "dn = (d, nm)" by fastforce
      have "triple (owns t (opt_add (map_option fst e) K) (add_mset d' I))
        (case e of None \<Rightarrow> io_seq (iput_io fu (Some d')) (io_ret None)
               | Some (q, k) \<Rightarrow> io_bind (read_buf q (\<lambda>d. de_inode d k))
                     (\<lambda>inr. io_seq (brelse_io (Some q)) (io_bind (the_inode d')
                           (\<lambda>nd. io_bind (iget fu (i_dev nd) inr)
                              (\<lambda>j. io_bind (if fl then follow (Some d') (Some j) else io_seq (iput_io fu (Some d')) (io_ret (Some j)))
                                 ?h))))) ?P" for d' e
      proof (cases e)
        case None
        then show ?thesis using q by (auto intro!: step_rules)
      next
        case (Some qk)
        obtain bq k where "qk = (bq, k)" by fastforce
        then show ?thesis unfolding Some by (simp only: option.case prod.case option.map fst_conv opt_add.simps found)
      qed
      then show ?thesis
        unfolding Some dn
        by (auto intro!: triple_ret triple_bind[OF owns_find_entry[OF q]] triple_prod)
    qed
  qed
qed

lemma follows_kernel:
  assumes "quiet_start t" and "size K \<le> 4"
  shows "follows t K (follow_link_kernel fu p)"
  using assms unfolding follows_def follow_link_kernel_def follow_link_gen_def
  by (auto simp: Let_def intro!: step_rules)

lemma owns_namei_kernel:
  assumes "quiet_start t" and "size K \<le> 4"
  shows "triple (owns t K (opt_add base I)) (namei_kernel fu p path base) (\<lambda>r. owns t K (opt_add r I))"
  unfolding namei_kernel_def by (rule owns_namei_gen[OF assms follows_kernel[OF assms]])

lemma follows_link:
  assumes "quiet_start t" and "size K \<le> 3"
  shows "follows t K (follow_link fu p)"
proof -
  have n: "triple (owns t (add_mset q K) (add_mset d I)) (namei_kernel fu p path (Some d)) (\<lambda>r. owns t (add_mset q K) (opt_add r I))" for q d I path
    using owns_namei_kernel[of t "add_mset q K" "Some d" I] assms by simp
  show ?thesis
    using assms unfolding follows_def follow_link_def follow_link_gen_def
    by (auto simp: Let_def intro!: step_rules triple_bind[OF n] split: option.splits)
qed

lemma owns_parent:
  assumes "quiet_start t" and "size K \<le> 3"
  shows "triple (owns t K I) (dir_of fu p path) (\<lambda>r. owns t K (opt_add (map_option fst r) I))"
  using owns_dir_namei[OF assms(1) _ follows_link[OF assms], of None I] assms(2) unfolding dir_of_def by simp

lemma owns_namei:
  assumes "quiet_start t" and "size K \<le> 3"
  shows "triple (owns t K I) (namei fu p path) (\<lambda>r. owns t K (opt_add r I))"
  using owns_namei_gen[OF assms(1) _ follows_link[OF assms], of None I] assms(2) unfolding namei_def by simp


section \<open>The system calls\<close>

text \<open>A call that returns a number gives back all it took; one that returns an inode keeps that.\<close>

lemma owns_leave:
  assumes "quiet_start t" and "size K \<le> 5"
  shows "triple (owns t K (add_mset i I)) (leave fu [i] r) (\<lambda>_. owns t K I)"
    and "triple (owns t K (add_mset i (add_mset j I))) (leave fu [i, j] r) (\<lambda>_. owns t K I)"
    and "triple (owns t K (add_mset j (add_mset i I))) (leave fu [i, j] r) (\<lambda>_. owns t K I)"
  using assms unfolding leave_def by (auto intro!: step_rules)

lemma owns_leave_buf:
  assumes "quiet_start t" and "size K \<le> 4"
  shows "triple (owns t (add_mset q K) (add_mset i (add_mset j I))) (leave_buf fu [i, j] q r) (\<lambda>_. owns t K I)"
    and "triple (owns t (add_mset q K) (add_mset j (add_mset i I))) (leave_buf fu [i, j] q r) (\<lambda>_. owns t K I)"
  using assms unfolding leave_buf_def by (auto intro!: step_rules)

lemma owns_touch: "(\<And>n v. i_count (f v n) = i_count n) \<Longrightarrow> triple (owns t K I) (touch i f) (\<lambda>_. owns t K I)"
  unfolding touch_def by (auto intro!: step_rules last_rules)

lemma owns_put_entry: "triple (owns t K I) (put_entry q k i) (\<lambda>_. owns t K I)"
  unfolding put_entry_def by (auto intro!: step_rules last_rules)

lemma owns_clear_entry: "triple (owns t (add_mset q K) I) (clear_entry q k) (\<lambda>_. owns t K I)"
  unfolding clear_entry_def by (auto intro!: step_rules last_rules)

lemma bind_add_entry:
  assumes "triple (owns t K I) (f None) Q" and "\<And>q k. triple (owns t (add_mset q K) I) (f (Some (q, k))) Q"
  shows "triple (owns t K I) (io_bind (add_entry fu dir name) f) Q"
proof (rule triple_bind[OF owns_add_entry])
  show "triple (owns t (opt_add (map_option fst r) K) I) (f r) Q" for r
    using assms by (cases r) auto
qed

lemma bind_find_entry:
  assumes "quiet_start t" and "size K \<le> 5" and "\<And>d. triple (owns t K (add_mset d I)) (f (d, None)) Q"
    and "\<And>d q k. triple (owns t (add_mset q K) (add_mset d I)) (f (d, Some (q, k))) Q"
  shows "triple (owns t K (add_mset dir I)) (io_bind (find_entry fu p dir name) f) Q"
proof (rule triple_bind[OF owns_find_entry[OF assms(1,2)]])
  show "triple ((\<lambda>(d, r). owns t (opt_add (map_option fst r) K) (add_mset d I)) a) (f a) Q" for a
    using assms(3,4) by (cases a; cases "snd a") auto
qed

lemma bind_parent:
  assumes "quiet_start t" and "size K \<le> 3" and "triple (owns t K I) (f None) Q"
    and "\<And>d nm. triple (owns t K (add_mset d I)) (f (Some (d, nm))) Q"
  shows "triple (owns t K I) (io_bind (dir_of fu p path) f) Q"
proof (rule triple_bind[OF owns_parent[OF assms(1,2)]])
  show "triple (owns t K (opt_add (map_option fst r) I)) (f r) Q" for r using assms(3,4) by (cases r) auto
qed

lemmas call_rules = bind_parent bind_find_entry bind_add_entry owns_leave owns_leave[THEN triple_bind]
  owns_touch[THEN triple_seq] owns_put_entry[THEN triple_seq] owns_clear_entry[THEN triple_seq] owns_leave_buf

lemma owns_sys_unlink:
  assumes "quiet_start t"
  shows "triple (owns t {#} {#}) (sys_unlink fu p path) (\<lambda>_. owns t {#} {#})"
proof -
  have u: "triple (owns t {#q#} {#i, d#}) (unlink_found fu p d i q k) (\<lambda>_. owns t {#} {#})" for q i d k
    unfolding unlink_found_def using assms by (auto intro!: step_rules call_rules)
  show ?thesis
    unfolding sys_unlink_def using assms by (auto intro!: step_rules call_rules u)
qed

lemma owns_sys_link:
  assumes "quiet_start t"
  shows "triple (owns t {#} {#}) (sys_link fu p old path) (\<lambda>_. owns t {#} {#})"
  unfolding sys_link_def using assms
  by (auto intro!: bind_opt[OF owns_namei] step_rules call_rules)

lemma owns_sys_mknod:
  assumes "quiet_start t"
  shows "triple (owns t {#} {#}) (sys_mknod fu p path mode dev) (\<lambda>_. owns t {#} {#})"
  unfolding sys_mknod_def using assms by (auto intro!: step_rules call_rules)

text \<open>\<open>mkdir\<close> and \<open>symlink\<close> build the first block of the new inode; when they fail they have put both inodes back.\<close>

lemma bind_body:
  assumes "triple P m (\<lambda>r. owns t K (case r of None \<Rightarrow> I | Some (e :: int) \<Rightarrow> J))" and "triple (owns t K I) (f None) Q"
    and "\<And>e. triple (owns t K J) (f (Some e)) Q"
  shows "triple P (io_bind m f) Q"
proof (rule triple_bind[OF assms(1)])
  show "triple (owns t K (case r of None \<Rightarrow> I | Some e \<Rightarrow> J)) (f r) Q" for r using assms(2,3) by (cases r) simp_all
qed

lemma owns_mkdir_body:
  assumes "quiet_start t"
  shows "triple (owns t {#} {#i, d#}) (mkdir_body fu d i mode) (\<lambda>r. owns t {#} (case r of None \<Rightarrow> {#i, d#} | Some e \<Rightarrow> {#}))"
  unfolding mkdir_body_def using assms by (auto simp: Let_def leave_def intro!: step_rules call_rules)

lemma owns_symlink_body:
  assumes "quiet_start t"
  shows "triple (owns t {#} {#i, d#}) (symlink_body fu p d i target) (\<lambda>r. owns t {#} (case r of None \<Rightarrow> {#i, d#} | Some e \<Rightarrow> {#}))"
  unfolding symlink_body_def using assms by (auto simp: Let_def leave_def intro!: step_rules call_rules)

lemma owns_sys_mkdir:
  assumes "quiet_start t"
  shows "triple (owns t {#} {#}) (sys_mkdir fu p path mode) (\<lambda>_. owns t {#} {#})"
  unfolding sys_mkdir_def using assms by (auto intro!: step_rules call_rules bind_body[OF owns_mkdir_body])

lemma owns_sys_symlink:
  assumes "quiet_start t"
  shows "triple (owns t {#} {#}) (sys_symlink fu p target path) (\<lambda>_. owns t {#} {#})"
proof -
  have swap: "triple (owns t {#} {#d, i#}) m Q \<Longrightarrow> triple (owns t {#} {#i, d#}) m Q" for d i m and Q :: "int \<Rightarrow> isys \<Rightarrow> bool"
    by (simp add: add_mset_commute)
  have fe: "triple (owns t {#} {#i, d#}) (io_bind (find_entry fu p d nm) f) Q"
    if "\<And>d. triple (owns t {#} {#i, d#}) (f (d, None)) Q" "\<And>d q k. triple (owns t {#q#} {#i, d#}) (f (d, Some (q, k))) Q"
    for d i nm f and Q :: "int \<Rightarrow> isys \<Rightarrow> bool"
    by (rule swap, rule bind_find_entry) (use that in \<open>simp_all add: assms add_mset_commute\<close>)
  show ?thesis
    unfolding sys_symlink_def using assms by (auto intro!: step_rules fe call_rules bind_body[OF owns_symlink_body])
qed

lemma owns_open_namei:
  assumes "quiet_start t"
  shows "triple (owns t {#} {#}) (open_namei fu p path flag mode) (\<lambda>(_, r). owns t {#} (opt_add r {#}))"
proof -
  have fl: "triple (owns t {#} {#i, d#}) (follow_link fu p (Some d) (Some i)) (\<lambda>r. owns t {#} (opt_add r {#}))" for i d
    by (rule followsD[OF follows_link]) (simp_all add: assms)
  have lv: "triple (owns t {#} {#d#}) (leave fu [d] (r :: int \<times> nat option)) (\<lambda>(_, r). owns t {#} (opt_add r {#}))" if "snd r = None" for d r
    using that assms unfolding leave_def by (auto intro!: step_rules)
  have lv2: "triple (owns t {#} {#i, d#}) (leave fu [d] (0, Some i)) (\<lambda>(_, r). owns t {#} (opt_add r {#}))" for d i
    using assms unfolding leave_def by (auto intro!: step_rules)
  have lv3: "triple (owns t {#} {#i, d#}) (leave fu [i, d] (- ENOSPC, None)) (\<lambda>(_, r). owns t {#} (opt_add r {#}))" for d i
    using assms unfolding leave_def by (auto intro!: step_rules)
  have cr: "triple (owns t {#} {#d#}) (open_create fu p d name m) (\<lambda>(_, r). owns t {#} (opt_add r {#}))" for d name m
    unfolding open_create_def using assms by (auto intro!: step_rules lv lv2 lv3 bind_add_entry)
  have ex: "triple (owns t {#q#} {#d#}) (open_existing fu p d q k fl) (\<lambda>(_, r). owns t {#} (opt_add r {#}))" for d q k fl
    unfolding open_existing_def using assms
    by (auto intro!: step_rules lv bind_opt[OF fl] owns_iget[THEN triple_bind] owns_touch[THEN triple_seq])
  show ?thesis
    unfolding open_namei_def Let_def using assms
    by (auto intro!: step_rules lv cr ex bind_parent bind_find_entry)
qed

text \<open>The calls that change directories, apart from \<open>rmdir\<close>.\<close>

datatype dir_call = Mknod "u8 list" u16 u16 | Mkdir "u8 list" u16 | Unlink "u8 list" | Link "u8 list" "u8 list"
  | Symlink "u8 list" "u8 list"

fun run_call :: "nat \<Rightarrow> caller \<Rightarrow> dir_call \<Rightarrow> int io" where
  "run_call fu p (Mknod path mode dev) = sys_mknod fu p path mode dev"
| "run_call fu p (Mkdir path mode) = sys_mkdir fu p path mode"
| "run_call fu p (Unlink path) = sys_unlink fu p path"
| "run_call fu p (Link old path) = sys_link fu p old path"
| "run_call fu p (Symlink target path) = sys_symlink fu p target path"

lemma owns_run_call: "quiet_start t \<Longrightarrow> triple (owns t {#} {#}) (run_call fu p c) (\<lambda>_. owns t {#} {#})"
  by (cases c) (simp_all add: owns_sys_mknod owns_sys_mkdir owns_sys_unlink owns_sys_link owns_sys_symlink)

lemma run_call_balance:
  assumes "room 8 (ifs s)" and "run_call fu p c [] s = Inr (r, es, s')"
  shows "held (ifs s') q = held (ifs s) q" and "i_count (inode_table s' i) = i_count (inode_table s i)"
  using owns_run_call[of s fu p c] assms owns_start[of s] owns_end(1)[of s s' q] owns_end(2)[of s s' i]
  unfolding triple_def quiet_start_def by blast+

lemma open_balance:
  assumes "room 8 (ifs s)" and "open_namei fu p path flag mode [] s = Inr ((e, r), es, s')"
  shows "held (ifs s') q = held (ifs s) q"
    and "i_count (inode_table s' i) = i_count (inode_table s i) + (if r = Some i then 1 else 0)"
proof -
  have o: "owns s {#} (opt_add r {#}) s'"
    using owns_open_namei[of s fu p path flag mode] assms owns_start[of s] unfolding triple_def quiet_start_def by fastforce
  show "held (ifs s') q = held (ifs s) q" using ownsD(1)[OF o, of q] by simp
  show "i_count (inode_table s' i) = i_count (inode_table s i) + (if r = Some i then 1 else 0)"
    using ownsD(2)[OF o, of i] by (cases r) auto
qed

end
