(* ===== verification/Directory.thy ===== *)
theory Directory
  imports NameiRefs
begin

text \<open>
  A directory as its clients see it: the entries of its blocks in order. \<open>find_entry\<close> returns the first entry
  that matches the name.
\<close>

section \<open>Reading the map of a file\<close>

lemma bread_view: "bread q f = Inr (ok, g) \<Longrightarrow> (\<forall>k. contents g k = contents f k) \<and> super g = super f \<and> (ok \<longleftrightarrow> contents f q \<noteq> None)"
proof (cases ok)
  case True
  assume "bread q f = Inr (ok, g)"
  then show ?thesis using True by (auto elim!: bread_ok)
next
  case False
  assume "bread q f = Inr (ok, g)"
  then have "bread q f = Inr (False, g)" using False by simp
  from bread_fail[OF this] False show ?thesis by (simp add: same_view_def)
qed

lemmas bread_contents = bread_view[THEN conjunct1, rule_format]

lemma brelse_view: "brelse q f = Inr g \<Longrightarrow> (\<forall>k. contents g k = contents f k) \<and> super g = super f"
proof (cases "bufs f q")
  case (Some b)
  assume "brelse q f = Inr g"
  from brelse_ok(2,5)[OF this Some] show ?thesis by simp
qed (simp add: brelse_def)

lemmas brelse_contents = brelse_view[THEN conjunct1, rule_format]

lemma bread_total:
  assumes "contents f q \<noteq> None"
  obtains g where "bread q f = Inr (True, g)"
proof -
  obtain b where b: "bufs (getblk q f) q = Some b" using getblk_grab[of q f] by (auto simp: grab_def)
  have c: "contents (getblk q f) q \<noteq> None" using assms by simp
  show thesis
  proof (cases "b_uptodate b")
    case True
    with b show thesis by (intro that[of "getblk q f"]) (simp add: bread_def)
  next
    case False
    then obtain d where "disk (getblk q f) q = Some d" using b c by (auto simp: contents_def)
    with b False show thesis by (intro that) (simp add: bread_def)
  qed
qed

lemma brelse_total:
  assumes "grab q f g" and "room 1 f"
  obtains h where "brelse q g = Inr h"
proof -
  obtain b where b: "bufs g q = Some b" using grabD(3)[OF assms(1)] by auto
  have "held g q = held f q + 1" using grabD(1)[OF assms(1), of q] by simp
  moreover have "unat (held f q + 1) = unat (held f q) + 1"
  proof -
    have "unat (held f q) + 1 < 256" using assms(2) unfolding room_def by blast
    then show ?thesis by (simp add: unat_word_ariths)
  qed
  ultimately have "b_count b \<noteq> 0" using b by (auto simp: held_def)
  with b show thesis by (intro that) (simp add: brelse_def)
qed

text \<open>The number of a block of a file, and its data.\<close>

definition fblock :: "fs_state \<Rightarrow> m_inode \<Rightarrow> int \<Rightarrow> block option" where
  "fblock f n b = (let z = zref f n (zpos_of b) in if z = 0 then None else contents f (i_dev n, uint z))"

lemma ind_entry_lookup:
  assumes "contents f (dev, uint z) \<noteq> None" and "z \<noteq> 0" and "room 1 f" and "idx < 512"
  obtains g where "ind_entry dev (uint z) idx False f = Inr (uint (entry f dev z idx), g)"
    and "kept f g" and "\<forall>k. contents g k = contents f k" and "super g = super f"
proof -
  from bread_total[OF assms(1)] obtain f1 where b1: "bread (dev, uint z) f = Inr (True, f1)" .
  have gr: "grab (dev, uint z) f f1" using bread_grab[OF b1] by simp
  from brelse_total[OF gr assms(3)] obtain g where rel: "brelse (dev, uint z) f1 = Inr g" .
  from bread_ok[OF b1] obtain b where bb: "bufs f1 (dev, uint z) = Some b" "contents f (dev, uint z) = Some (b_data b)" by metis
  have "ind_entry dev (uint z) idx False f = Inr (uint (entry f dev z idx), g)"
    using b1 bb rel assms(2,4) by (simp add: ind_entry_def entry_def Let_def)
  moreover have "kept f g" by (rule brelse_grab[OF gr rel])
  ultimately show thesis using that bread_view[OF b1] brelse_view[OF rel] by simp
qed

lemma entryD: "entry f dev z i \<noteq> 0 \<Longrightarrow> z \<noteq> 0 \<and> i < 512 \<and> contents f (dev, uint z) \<noteq> None"
  by (auto simp: entry_def split: if_splits option.splits)

text \<open>Looking up a block that is there: the cache changes, but not what it shows.\<close>

definition unseen :: "fs_state \<Rightarrow> fs_state \<Rightarrow> bool" where
  "unseen f g \<longleftrightarrow> kept f g \<and> (\<forall>k. contents g k = contents f k) \<and> super g = super f"

lemma unseen_refl [simp]: "unseen f f" by (simp add: unseen_def)

lemma unseenD: "unseen f g \<Longrightarrow> contents g k = contents f k" "unseen f g \<Longrightarrow> kept f g" "unseen f g \<Longrightarrow> super g = super f"
  unfolding unseen_def by blast+

lemma unseen_trans: "unseen f g \<Longrightarrow> unseen g h \<Longrightarrow> unseen f h"
  unfolding unseen_def using kept_trans by metis

lemma unseen_entry: "unseen f g \<Longrightarrow> entry g dev z i = entry f dev z i"
  by (simp add: unseen_def entry_def)

lemma unseen_zref: "unseen f g \<Longrightarrow> zref g n p = zref f n p"
  using unseen_entry by (cases p) simp_all

lemma unseen_fblock: "unseen f g \<Longrightarrow> fblock g n b = fblock f n b"
  using unseen_zref[of f g n] by (simp add: fblock_def Let_def) (simp add: unseen_def)

lemma unseen_room: "unseen f g \<Longrightarrow> room n g = room n f"
  unfolding unseen_def by (metis kept_room)

lemma bmap_lookup:
  assumes "0 \<le> blk" and "blk < 7 + 512 + 512 * 512" and "zref f n (zpos_of blk) \<noteq> 0" and "room 1 f"
  obtains g where "bmap_gen n blk False f = Inr (uint (zref f n (zpos_of blk)), n, g)" and "unseen f g"
proof -
  note az = alloc_zone_lookup[THEN iffD2, OF conjI, OF refl refl]
  consider "blk < 7" | "7 \<le> blk" "blk < 519" | "519 \<le> blk" by linarith
  then show thesis
  proof cases
    case 1
    with assms(1,2) have "bmap_gen n blk False f = Inr (uint (zref f n (zpos_of blk)), n, f)"
      by (simp add: bmap_gen_def az zpos_of_def nat_less_iff)
    then show thesis by (rule that) simp
  next
    case 2
    then have z: "zref f n (zpos_of blk) = entry f (i_dev n) (i_zone n 7) (nat (blk - 7))" by (simp add: zpos_of_def)
    note e = entryD[OF assms(3)[unfolded z]]
    from ind_entry_lookup[of f "i_dev n" "i_zone n 7" "nat (blk - 7)"] e assms(4)
    obtain g where "ind_entry (i_dev n) (uint (i_zone n 7)) (nat (blk - 7)) False f = Inr (uint (zref f n (zpos_of blk)), g)" "unseen f g"
      unfolding z unseen_def by metis
    with 2 e show thesis by (intro that) (simp_all add: bmap_gen_def az Let_def)
  next
    case 3
    let ?i = "nat (blk - 519) div 512" and ?j = "nat (blk - 519) mod 512"
    have z: "zref f n (zpos_of blk) = entry f (i_dev n) (entry f (i_dev n) (i_zone n 8) ?i) ?j" using 3 by (simp add: zpos_of_def)
    note e = entryD[OF assms(3)[unfolded z]]
    note e' = entryD[OF conjunct1[OF e]]
    from ind_entry_lookup[of f "i_dev n" "i_zone n 8" ?i] e' assms(4)
    obtain g where g: "ind_entry (i_dev n) (uint (i_zone n 8)) ?i False f = Inr (uint (entry f (i_dev n) (i_zone n 8) ?i), g)" "unseen f g"
      unfolding unseen_def by metis
    have c: "contents g k = contents f k" for k by (rule unseenD(1)[OF g(2)])
    from ind_entry_lookup[of g "i_dev n" "entry f (i_dev n) (i_zone n 8) ?i" ?j] e assms(4) unseen_room[OF g(2)]
    obtain h where h: "ind_entry (i_dev n) (uint (entry f (i_dev n) (i_zone n 8) ?i)) ?j False g = Inr (uint (zref f n (zpos_of blk)), h)" "unseen g h"
      unfolding z unseen_entry[OF g(2)] unseen_def c by metis
    have "nat (blk - 7 - 512) = nat (blk - 519)" by simp
    with 3 e e' g h unseen_trans[OF g(2) h(2)] assms(2) show thesis
      by (intro that[of h]) (simp_all add: bmap_gen_def az Let_def unsigned_eq_0_iff)
  qed
qed

section \<open>The search\<close>

definition dkey :: "fs_state \<Rightarrow> m_inode \<Rightarrow> nat \<Rightarrow> bkey" where
  "dkey f n j = (i_dev n, uint (zref f n (zpos_of (int (j div DIR_ENTRIES_PER_BLOCK)))))"

text \<open>Entry \<open>j\<close> of a directory matches a name.\<close>

definition dmatch :: "fs_state \<Rightarrow> m_inode \<Rightarrow> u8 list \<Rightarrow> nat \<Rightarrow> bool" where
  "dmatch f n name j =
     (case fblock f n (int (j div DIR_ENTRIES_PER_BLOCK)) of
        None \<Rightarrow> False | Some d \<Rightarrow> match name d (j mod DIR_ENTRIES_PER_BLOCK))"

definition holding :: "fs_state \<Rightarrow> bkey \<Rightarrow> fs_state \<Rightarrow> bool" where
  "holding f q g \<longleftrightarrow> grab q f g \<and> (\<forall>k. contents g k = contents f k) \<and> super g = super f
     \<and> (\<exists>b. bufs g q = Some b \<and> contents f q = Some (b_data b))"

lemma holdingD:
  assumes "holding f q g"
  shows "grab q f g" and "contents g k = contents f k" and "super g = super f"
    and "\<exists>b. bufs g q = Some b \<and> contents f q = Some (b_data b)"
  using assms unfolding holding_def by blast+

lemma bread_holding:
  assumes "unseen f g" and "contents f q \<noteq> None"
  obtains h where "bread q g = Inr (True, h)" and "holding f q h"
proof -
  from bread_total[of g q] assms unseenD(1)[OF assms(1), of q] obtain h where h: "bread q g = Inr (True, h)" by auto
  have gr: "grab q f h" using bread_grab[OF h] kept_grab[OF unseenD(2)[OF assms(1)]] by simp
  from bread_ok[OF h] obtain b where b: "bufs h q = Some b" "contents g q = Some (b_data b)" by metis
  have "contents h k = contents f k" for k by (simp only: bread_contents[OF h] unseenD(1)[OF assms(1)])
  moreover have "super h = super f" using bread_view[OF h] unseenD(3)[OF assms(1)] by simp
  ultimately show thesis using that[OF h] gr b unseenD(1)[OF assms(1), of q] unfolding holding_def by auto
qed

lemma brelse_holding:
  assumes "holding f q g" and "room 1 f"
  obtains h where "brelse q g = Inr h" and "unseen f h"
proof -
  from brelse_total[OF holdingD(1)[OF assms(1)] assms(2)] obtain h where h: "brelse q g = Inr h" .
  have "contents h k = contents f k" for k by (simp only: brelse_contents[OF h] holdingD(2)[OF assms(1)])
  moreover have "super h = super f" using brelse_view[OF h] holdingD(3)[OF assms(1)] by simp
  ultimately show thesis using that[OF h] brelse_grab[OF holdingD(1)[OF assms(1)] h] unfolding unseen_def by blast
qed

text \<open>What \<open>find_scan\<close> is to return from entry \<open>i\<close> on.\<close>

definition first_match :: "fs_state \<Rightarrow> m_inode \<Rightarrow> u8 list \<Rightarrow> nat \<Rightarrow> nat \<Rightarrow> (bkey \<times> nat) option" where
  "first_match f n name i entries =
     map_option (\<lambda>j. (dkey f n j, j mod DIR_ENTRIES_PER_BLOCK)) (find (dmatch f n name) [i..<entries])"

lemma first_match_step:
  "i < entries \<Longrightarrow> first_match f n name i entries =
    (if dmatch f n name i then Some (dkey f n i, i mod DIR_ENTRIES_PER_BLOCK) else first_match f n name (Suc i) entries)"
  by (simp add: first_match_def upt_conv_Cons)

definition found_state :: "fs_state \<Rightarrow> (bkey \<times> nat) option \<Rightarrow> fs_state \<Rightarrow> bool" where
  "found_state f r g = (case r of None \<Rightarrow> unseen f g | Some (q, k) \<Rightarrow> holding f q g)"

lemma next_block_holding:
  assumes "holding f q (ifs s)" and "inode_table s dir = n" and "room 2 f"
    and b: "fblock f n (int (i div DIR_ENTRIES_PER_BLOCK)) \<noteq> None" and l: "i div DIR_ENTRIES_PER_BLOCK < 7 + 512 + 512 * 512"
  obtains s' where "next_block dir i q [] s = Inr (Some (dkey f n i), [], s')" and "inode_table s' = inode_table s"
    and "holding f (dkey f n i) (ifs s')"
proof -
  let ?b = "int (i div DIR_ENTRIES_PER_BLOCK)"
  have r1: "room 1 f" using assms(3) by (rule room_mono) simp
  from brelse_holding[OF assms(1) r1] obtain g where g: "brelse q (ifs s) = Inr g" "unseen f g" .
  have z: "zref f n (zpos_of ?b) \<noteq> 0" "contents f (dkey f n i) \<noteq> None" using b by (auto simp: fblock_def dkey_def Let_def split: if_splits)
  have "?b < int (7 + 512 + 512 * 512)" using l by (simp only: of_nat_less_iff)
  then have "?b < 7 + 512 + 512 * 512" by simp
  then obtain h where h: "bmap_gen n ?b False g = Inr (uint (zref g n (zpos_of ?b)), n, h)" "unseen g h"
    using bmap_lookup[of ?b g n] z(1) unseen_room[OF g(2)] r1 unseen_zref[OF g(2)] by auto
  have zg: "zref g n (zpos_of ?b) = zref f n (zpos_of ?b)" by (rule unseen_zref[OF g(2)])
  have fh: "unseen f h" by (rule unseen_trans[OF g(2) h(2)])
  from bread_holding[OF fh z(2)] obtain e where e: "bread (dkey f n i) h = Inr (True, e)" "holding f (dkey f n i) e" .
  have "next_block dir i q [] s = Inr (Some (dkey f n i), [], s\<lparr>ifs := e\<rparr>)"
    using g(1) h(1) e(1) z(1) assms(2)
    by (simp add: next_block_def io_seq_def io_bind_def brelse_io_def block_io_def the_inode_def io_get_def io_ret_def
        bread_io_def quiet_nap upd_inode_def zg dkey_def fun_upd_idem unsigned_eq_0_iff)
  then show thesis by (rule that) (use e(2) in simp_all)
qed

lemma find_scan_first:
  assumes "holding f q (ifs s)" and "inode_table s dir = n" and "room 2 f"
    and "\<forall>j<entries. fblock f n (int (j div DIR_ENTRIES_PER_BLOCK)) \<noteq> None"
    and "\<forall>j<entries. j div DIR_ENTRIES_PER_BLOCK < 7 + 512 + 512 * 512"
    and "i < entries \<longrightarrow> k < DIR_ENTRIES_PER_BLOCK \<and> k = i mod DIR_ENTRIES_PER_BLOCK \<and> q = dkey f n i
       \<or> k = DIR_ENTRIES_PER_BLOCK \<and> i mod DIR_ENTRIES_PER_BLOCK = 0"
  shows "\<exists>s'. find_scan dir name entries i k (Some q) [] s = Inr (first_match f n name i entries, [], s')
    \<and> inode_table s' = inode_table s \<and> found_state f (first_match f n name i entries) (ifs s')"
  using assms
proof (induction "entries - i" arbitrary: i k q s)
  case 0
  have r1: "room 1 f" using 0(4) by (rule room_mono) simp
  from brelse_holding[OF 0(2) r1] obtain g where "brelse q (ifs s) = Inr g" "unseen f g" .
  with 0(1) show ?case
    by (subst find_scan.simps) (simp add: io_seq_def io_bind_def brelse_io_def io_ret_def first_match_def found_state_def)
next
  case (Suc m)
  then have i: "i < entries" by simp
  let ?k = "i mod DIR_ENTRIES_PER_BLOCK" and ?q = "dkey f n i"
  obtain s1 where s1: "(if k \<ge> DIR_ENTRIES_PER_BLOCK then next_block dir i q else io_ret (Some q)) [] s = Inr (Some ?q, [], s1)"
    and t1: "inode_table s1 = inode_table s" and h1: "holding f ?q (ifs s1)" and k1: "(if k \<ge> DIR_ENTRIES_PER_BLOCK then 0 else k) = ?k"
  proof (cases "k \<ge> DIR_ENTRIES_PER_BLOCK")
    case True
    have b: "fblock f n (int (i div DIR_ENTRIES_PER_BLOCK)) \<noteq> None" "i div DIR_ENTRIES_PER_BLOCK < 7 + 512 + 512 * 512"
      using Suc.prems(4,5) i by blast+
    from next_block_holding[OF Suc.prems(1-3) b] obtain s' where "next_block dir i q [] s = Inr (Some ?q, [], s')"
      "inode_table s' = inode_table s" "holding f ?q (ifs s')" .
    with True Suc.prems(6) i show thesis by (intro that) auto
  next
    case False
    with Suc.prems(1,6) i show thesis by (intro that[of s]) (auto simp: io_ret_def)
  qed
  obtain b where b: "bufs (ifs s1) ?q = Some b" "contents f ?q = Some (b_data b)" using holdingD(4)[OF h1] by blast
  have "fblock f n (int (i div DIR_ENTRIES_PER_BLOCK)) = Some (b_data b)"
    using Suc.prems(4) i b(2) by (auto simp: fblock_def dkey_def Let_def split: if_splits)
  then have dm: "dmatch f n name i = match name (b_data b) ?k" by (simp add: dmatch_def)
  have step: "find_scan dir name entries i k (Some q) [] s =
     (if dmatch f n name i then Inr (Some (?q, ?k), [], s1) else find_scan dir name entries (i + 1) (?k + 1) (Some ?q) [] s1)"
    using i s1 b(1) dm by (subst find_scan.simps) (simp add: io_bind_def read_buf_def io_ret_def k1 Let_def)
  show ?case
  proof (cases "dmatch f n name i")
    case True
    with step i t1 h1 show ?thesis by (simp add: first_match_step found_state_def)
  next
    case False
    have pos: "i + 1 < entries \<longrightarrow> ?k + 1 < DIR_ENTRIES_PER_BLOCK \<and> ?k + 1 = (i + 1) mod DIR_ENTRIES_PER_BLOCK \<and> ?q = dkey f n (i + 1)
       \<or> ?k + 1 = DIR_ENTRIES_PER_BLOCK \<and> (i + 1) mod DIR_ENTRIES_PER_BLOCK = 0"
    proof (cases "?k + 1 < DIR_ENTRIES_PER_BLOCK")
      case True
      then have m: "(i + 1) mod DIR_ENTRIES_PER_BLOCK = ?k + 1" by (simp add: mod_Suc)
      moreover from m have "(i + 1) div DIR_ENTRIES_PER_BLOCK = i div DIR_ENTRIES_PER_BLOCK" by (simp add: div_Suc)
      ultimately show ?thesis using True by (simp add: dkey_def)
    next
      case False
      have "?k < DIR_ENTRIES_PER_BLOCK" by (simp add: DIR_ENTRIES_PER_BLOCK_def)
      with False have "Suc ?k = DIR_ENTRIES_PER_BLOCK" by simp
      then show ?thesis by (simp add: mod_Suc)
    qed
    have tn: "inode_table s1 dir = n" using t1 Suc.prems(2) by simp
    from Suc(1)[OF _ h1 tn Suc.prems(3-5) pos] Suc(2) obtain s' where
      "find_scan dir name entries (i + 1) (?k + 1) (Some ?q) [] s1 = Inr (first_match f n name (i + 1) entries, [], s')"
      "inode_table s' = inode_table s1" "found_state f (first_match f n name (i + 1) entries) (ifs s')" by fastforce
    with step False i t1 show ?thesis by (simp add: first_match_step)
  qed
qed

text \<open>
  The name that is looked for: cut to the length of the entries, and \<open>.\<close> for \<open>..\<close> in the root of the process. A search for \<open>..\<close>
  leaves the directory only where this is the root of a mounted file system.
\<close>

definition effective_name :: "caller \<Rightarrow> nat \<Rightarrow> u8 list \<Rightarrow> u8 list" where
  "effective_name p dir name =
     (if take NAME_LEN name = [46, 46] \<and> dir = c_root p then [46] else take NAME_LEN name)"

definition stays_in :: "caller \<Rightarrow> nat \<Rightarrow> isys \<Rightarrow> bool" where
  "stays_in p dir s \<longleftrightarrow> dir = c_root p \<or> i_num (inode_table s dir) \<noteq> ROOT_INO \<or>
     (\<exists>k. get_super (i_dev (inode_table s dir)) (ifs s) = Some k \<and> s_imount s k = None)"

lemma find_entry_first:
  assumes n: "n = inode_table s dir" and nm: "take NAME_LEN name = [46, 46] \<longrightarrow> stays_in p dir s"
    and nn: "nn = effective_name p dir name" and r: "room 2 (ifs s)"
    and e: "entries = unat (i_size n) div 16" and z: "i_zone n 0 \<noteq> 0"
    and b: "\<forall>j<entries. fblock (ifs s) n (int (j div DIR_ENTRIES_PER_BLOCK)) \<noteq> None"
    and b0: "fblock (ifs s) n 0 \<noteq> None" and l: "entries \<le> 64 * (7 + 512 + 512 * 512)"
  shows "\<exists>s'. find_entry fu p dir name [] s = Inr ((dir, first_match (ifs s) n nn 0 entries), [], s')
    \<and> inode_table s' = inode_table s \<and> found_state (ifs s) (first_match (ifs s) n nn 0 entries) (ifs s')"
proof -
  let ?f = "ifs s" and ?q = "(i_dev n, uint (i_zone n 0))"
  have q: "dkey ?f n 0 = ?q" by (simp add: dkey_def zpos_of_def)
  have "contents ?f ?q \<noteq> None" using b0 z by (simp add: fblock_def zpos_of_def)
  from bread_holding[OF unseen_refl this] obtain g where g: "bread ?q ?f = Inr (True, g)" "holding ?f ?q g" .
  have dd: "dotdot fu p dir (take NAME_LEN name) [] s = Inr ((dir, nn), [], s)"
    using nm nn by (auto simp: dotdot_def io_ret_def io_bind_def the_inode_def io_get_def effective_name_def stays_in_def)
  have h: "holding ?f ?q (ifs (s\<lparr>ifs := g\<rparr>))" and t: "inode_table (s\<lparr>ifs := g\<rparr>) dir = n" using g(2) n by simp_all
  have l': "\<forall>j<entries. j div DIR_ENTRIES_PER_BLOCK < 7 + 512 + 512 * 512"
    using l by (auto simp: DIR_ENTRIES_PER_BLOCK_def less_mult_imp_div_less)
  have p: "0 < entries \<longrightarrow> 0 < DIR_ENTRIES_PER_BLOCK \<and> 0 = 0 mod DIR_ENTRIES_PER_BLOCK \<and> ?q = dkey ?f n 0
       \<or> 0 = DIR_ENTRIES_PER_BLOCK \<and> 0 mod DIR_ENTRIES_PER_BLOCK = 0"
    by (simp add: q DIR_ENTRIES_PER_BLOCK_def)
  from find_scan_first[OF h t r b l' p, of nn] obtain s' where
    "find_scan dir nn entries 0 0 (Some ?q) [] (s\<lparr>ifs := g\<rparr>) = Inr (first_match ?f n nn 0 entries, [], s')"
    "inode_table s' = inode_table s" "found_state ?f (first_match ?f n nn 0 entries) (ifs s')" by auto
  with dd g(1) z e n show ?thesis
    by (intro exI[of _ s']) (simp add: find_entry_def io_bind_def the_inode_def io_get_def bread_io_def quiet_nap io_ret_def Let_def)
qed
end
