(* ===== verification/Malloc.thy ===== *)
theory Malloc
  imports Memory
begin

text \<open>
  The kernel's allocator of small objects (\<open>lib/malloc.c\<close>): pages cut into objects of one size, a
  descriptor per page, a chain of descriptors per size. The model works on the physical memory of
  \<open>Memory\<close>: the links of the free objects are words of the page itself. What the allocator promises
  is that a live object overlaps no other, and that its contents stay until it is released.
\<close>

section \<open>The state\<close>

text \<open>
  A descriptor takes 16 bytes of a page that holds nothing else; the one at position \<open>j\<close> of page
  number \<open>n\<close> has the number \<open>256 * n + j\<close>, so \<open>bdesc + 1\<close> is the next number. The index of \<open>km_chain\<close>
  is the position in \<open>bucket_dir\<close>.
\<close>

record bucket_desc =
  bd_page :: u32
  bd_next :: "nat option"
  bd_freeptr :: u32
  bd_refcnt :: u16
  bd_size :: u16

record kmem =
  km :: mm
  km_desc :: "nat \<Rightarrow> bucket_desc"
  km_chain :: "nat \<Rightarrow> nat option"
  km_free :: "nat option"

definition bucket_sizes :: "nat list" where
  "bucket_sizes = [16, 32, 64, 128, 256, 512, 1024, 2048, 4096]"

definition PAGE_BYTES :: nat where "PAGE_BYTES = 4096"
definition DESCS_PER_PAGE :: nat where "DESCS_PER_PAGE = 256"

definition zero_desc :: bucket_desc where
  "zero_desc = \<lparr>bd_page = 0, bd_next = None, bd_freeptr = 0, bd_refcnt = 0, bd_size = 0\<rparr>"

definition upd_desc :: "nat \<Rightarrow> (bucket_desc \<Rightarrow> bucket_desc) \<Rightarrow> kmem \<Rightarrow> kmem" where
  "upd_desc d f k = k\<lparr>km_desc := (km_desc k)(d := f (km_desc k d))\<rparr>"

section \<open>Allocation\<close>

text \<open>The descriptors of a fresh page are linked one after the other; the page was cleared.\<close>

fun link_descs :: "nat \<Rightarrow> nat \<Rightarrow> kmem \<Rightarrow> nat \<times> kmem" where
  "link_descs i bdesc k =
     (if i > 1 then link_descs (i - 1) (bdesc + 1) (upd_desc bdesc (\<lambda>b. b\<lparr>bd_next := Some (bdesc + 1)\<rparr>) k)
      else (bdesc, k))"

declare link_descs.simps [simp del]

definition init_bucket_desc :: "nat \<Rightarrow> kmem \<Rightarrow> kmem kres" where
  "init_bucket_desc fuel k =
     kbind (get_free_page fuel (km k))
       (\<lambda>(page, m).
          if page = 0 then Inl (Panic ''Out of memory in init_bucket_desc()'')
          else
            let first = DESCS_PER_PAGE * MAP_NR page;
                k1 = k\<lparr>km := m, km_desc := (\<lambda>d. if d div DESCS_PER_PAGE = MAP_NR page then zero_desc else km_desc k d)\<rparr>;
                (bdesc, k2) = link_descs DESCS_PER_PAGE first k1
            in Inr ((upd_desc bdesc (\<lambda>b. b\<lparr>bd_next := km_free k2\<rparr>) k2)\<lparr>km_free := Some first\<rparr>))"

text \<open>The first entry of \<open>bucket_dir\<close> that is large enough.\<close>

definition find_size :: "nat \<Rightarrow> nat option" where
  "find_size len = find (\<lambda>i. bucket_sizes ! i \<ge> len) [0..<9]"

text \<open>The first descriptor of a chain with a free object; one unit of fuel per descriptor.\<close>

fun find_room :: "nat \<Rightarrow> kmem \<Rightarrow> nat option \<Rightarrow> nat option kres" where
  "find_room 0 k p = Inl Unfinished"
| "find_room (Suc fuel) k p =
     (case p of
        None \<Rightarrow> Inr None
      | Some d \<Rightarrow> if bd_freeptr (km_desc k d) \<noteq> 0 then Inr (Some d) else find_room fuel k (bd_next (km_desc k d)))"

text \<open>Cutting a page into objects: each points to the next one, the last is cut off afterwards.\<close>

fun carve :: "nat \<Rightarrow> u32 \<Rightarrow> u32 \<Rightarrow> mm \<Rightarrow> mm" where
  "carve i size' cp m =
     (if i > 1 then carve (i - 1) size' (cp + size') (wr cp (cp + size') m)
      else wr cp 0 m)"

declare carve.simps [simp del]

definition take_desc :: "nat \<Rightarrow> kmem \<Rightarrow> (nat \<times> kmem) kres" where
  "take_desc fuel k =
     kbind (if km_free k = None then init_bucket_desc fuel k else Inr k)
       (\<lambda>k1. case km_free k1 of
               None \<Rightarrow> Inl NullDeref
             | Some d \<Rightarrow> Inr (d, k1\<lparr>km_free := bd_next (km_desc k1 d)\<rparr>))"

definition new_bucket :: "nat \<Rightarrow> nat \<Rightarrow> kmem \<Rightarrow> (nat \<times> kmem) kres" where
  "new_bucket fuel i k =
     kbind (take_desc fuel k)
       (\<lambda>(d, k1).
          let size' = bucket_sizes ! i;
              k2 = upd_desc d (\<lambda>b. b\<lparr>bd_refcnt := 0, bd_size := of_nat size'\<rparr>) k1
          in kbind (get_free_page fuel (km k2))
               (\<lambda>(cp, m).
                  let k3 = upd_desc d (\<lambda>b. b\<lparr>bd_page := cp, bd_freeptr := cp\<rparr>) (k2\<lparr>km := m\<rparr>)
                  in if cp = 0 then Inl (Panic ''Out of memory in kernel malloc()'')
                     else
                       let k4 = k3\<lparr>km := carve (PAGE_BYTES div size') (of_nat size') cp (km k3)\<rparr>;
                           k5 = upd_desc d (\<lambda>b. b\<lparr>bd_next := km_chain k4 i\<rparr>) k4
                       in Inr (d, k5\<lparr>km_chain := (km_chain k5)(i := Some d)\<rparr>)))"

definition malloc :: "nat \<Rightarrow> nat \<Rightarrow> kmem \<Rightarrow> (u32 \<times> kmem) kres" where
  "malloc fuel len k =
     (case find_size len of
        None \<Rightarrow> Inl (Panic ''malloc: bad arg'')
      | Some i \<Rightarrow>
          kbind (find_room fuel k (km_chain k i))
            (\<lambda>found.
               kbind (case found of Some d \<Rightarrow> Inr (d, k) | None \<Rightarrow> new_bucket fuel i k)
                 (\<lambda>(d, k1).
                    let retval = bd_freeptr (km_desc k1 d)
                    in Inr (retval, upd_desc d (\<lambda>b. b\<lparr>bd_freeptr := rd (km k1) retval, bd_refcnt := bd_refcnt b + 1\<rparr>) k1))))"

section \<open>Release\<close>

text \<open>The descriptor of a page in one chain, with the one before it.\<close>

fun find_page :: "nat \<Rightarrow> kmem \<Rightarrow> u32 \<Rightarrow> nat option \<Rightarrow> nat option \<Rightarrow> (nat option \<times> nat) option kres" where
  "find_page 0 k page prev p = Inl Unfinished"
| "find_page (Suc fuel) k page prev p =
     (case p of
        None \<Rightarrow> Inr None
      | Some d \<Rightarrow>
          if bd_page (km_desc k d) = page then Inr (Some (prev, d))
          else find_page fuel k page (Some d) (bd_next (km_desc k d)))"

fun find_desc :: "nat \<Rightarrow> kmem \<Rightarrow> u32 \<Rightarrow> int \<Rightarrow> nat list \<Rightarrow> (nat \<times> nat option \<times> nat) kres" where
  "find_desc fuel k page size' [] = Inl (Panic ''Bad address passed to kernel free_s()'')"
| "find_desc fuel k page size' (i # is) =
     (if int (bucket_sizes ! i) < size' then find_desc fuel k page size' is
      else kbind (find_page fuel k page None (km_chain k i))
             (\<lambda>r. case r of
                    Some (prev, d) \<Rightarrow> Inr (i, prev, d)
                  | None \<Rightarrow> find_desc fuel k page size' is))"

text \<open>The search for the descriptor in front of \<open>d\<close>, made when the one noted is out of date.\<close>

fun find_prev :: "nat \<Rightarrow> kmem \<Rightarrow> nat \<Rightarrow> nat option \<Rightarrow> nat option kres" where
  "find_prev 0 k d p = Inl Unfinished"
| "find_prev (Suc fuel) k d p =
     (case p of
        None \<Rightarrow> Inr None
      | Some q \<Rightarrow> if bd_next (km_desc k q) = Some d then Inr (Some q) else find_prev fuel k d (bd_next (km_desc k q)))"

definition unlink_desc :: "nat \<Rightarrow> nat option \<Rightarrow> nat \<Rightarrow> kmem \<Rightarrow> kmem kres" where
  "unlink_desc i prev d k =
     (case prev of
        Some q \<Rightarrow> Inr (upd_desc q (\<lambda>b. b\<lparr>bd_next := bd_next (km_desc k d)\<rparr>) k)
      | None \<Rightarrow>
          if km_chain k i \<noteq> Some d then Inl (Panic ''malloc bucket chains corrupted'')
          else Inr (k\<lparr>km_chain := (km_chain k)(i := bd_next (km_desc k d))\<rparr>))"

definition drop_bucket :: "nat \<Rightarrow> nat \<Rightarrow> nat option \<Rightarrow> nat \<Rightarrow> kmem \<Rightarrow> kmem kres" where
  "drop_bucket fuel i prev d k =
     (let stale = (case prev of Some q \<Rightarrow> bd_next (km_desc k q) \<noteq> Some d | None \<Rightarrow> km_chain k i \<noteq> Some d)
      in kbind (if stale then find_prev fuel k d (km_chain k i) else Inr prev)
           (\<lambda>prev'. kbind (unlink_desc i prev' d k)
              (\<lambda>k1. kbind (free_page (bd_page (km_desc k1 d)) (km k1))
                 (\<lambda>m. let k2 = upd_desc d (\<lambda>b. b\<lparr>bd_next := km_free k1\<rparr>) (k1\<lparr>km := m\<rparr>)
                       in Inr (k2\<lparr>km_free := Some d\<rparr>)))))"

definition free_s :: "nat \<Rightarrow> u32 \<Rightarrow> int \<Rightarrow> kmem \<Rightarrow> kmem kres" where
  "free_s fuel obj size' k =
     kbind (find_desc fuel k (obj AND PAGE_MASK) size' [0..<9])
       (\<lambda>(i, prev, d).
          let k1 = k\<lparr>km := wr obj (bd_freeptr (km_desc k d)) (km k)\<rparr>;
              k2 = upd_desc d (\<lambda>b. b\<lparr>bd_freeptr := obj, bd_refcnt := bd_refcnt b - 1\<rparr>) k1
          in if bd_refcnt (km_desc k2 d) = 0 then drop_bucket fuel i prev d k2 else Inr k2)"


section \<open>Objects of a page\<close>

definition obj :: "nat \<Rightarrow> nat \<Rightarrow> nat \<Rightarrow> u32" where
  "obj n sz j = page_addr n + of_nat (sz * j)"

definition slots :: "nat \<Rightarrow> nat" where "slots i = PAGE_BYTES div (bucket_sizes ! i)"

lemma size_facts:
  assumes "i < 9"
  shows "16 \<le> bucket_sizes ! i" "4 dvd bucket_sizes ! i" "bucket_sizes ! i * slots i = 4096"
    "bucket_sizes ! i \<le> 4096" "0 < slots i" "slots i \<le> 256"
proof -
  have "i \<in> {0,1,2,3,4,5,6,7,8}" using assms by auto
  then show "16 \<le> bucket_sizes ! i" "4 dvd bucket_sizes ! i" "bucket_sizes ! i * slots i = 4096"
    "bucket_sizes ! i \<le> 4096" "0 < slots i" "slots i \<le> 256"
    by (auto simp: bucket_sizes_def slots_def PAGE_BYTES_def)
qed

lemma slot_end:
  assumes "i < 9" and "j < slots i"
  shows "bucket_sizes ! i * j + bucket_sizes ! i \<le> 4096"
proof -
  have "bucket_sizes ! i * Suc j \<le> bucket_sizes ! i * slots i" using assms(2) by (intro mult_le_mono2) simp
  then show ?thesis using size_facts(3)[OF assms(1)] by simp
qed

lemma slot_lt: "i < 9 \<Longrightarrow> j < slots i \<Longrightarrow> bucket_sizes ! i * j < 4096"
  using slot_end[of i j] size_facts(1)[of i] by simp

lemma unat_obj:
  assumes "n < PAGING_PAGES" and "sz * j < 4096"
  shows "unat (obj n sz j) = 4096 * n + 1048576 + sz * j"
proof -
  have "unat (of_nat (sz * j) :: u32) = sz * j"
    using assms(2) by (simp only: unat_of_nat) simp
  then show ?thesis using assms unat_page_addr[OF assms(1)]
    by (simp add: obj_def unat_word_ariths PAGING_PAGES_def)
qed

lemma frame_obj: "n < PAGING_PAGES \<Longrightarrow> sz * j < 4096 \<Longrightarrow> frame_of (obj n sz j) = frame_of (page_addr n)"
  by (simp add: word_unat_eq_iff unat_frame unat_obj unat_page_addr)

lemma word_obj: "n < PAGING_PAGES \<Longrightarrow> sz * j < 4096 \<Longrightarrow> word_of (obj n sz j) = sz * j div 4"
proof -
  assume a: "n < PAGING_PAGES" "sz * j < 4096"
  have "(4096 * n + 1048576 + sz * j) div 4 = 1024 * (n + 256) + sz * j div 4" by simp
  moreover have "sz * j div 4 < 1024" using a(2) by simp
  ultimately show ?thesis using a by (simp only: unat_word unat_obj mod_mult_self4 mod_less)
qed

lemma obj_nonzero: "n < PAGING_PAGES \<Longrightarrow> sz * j < 4096 \<Longrightarrow> obj n sz j \<noteq> 0"
  by (metis add_is_0 unat_0 unat_obj zero_neq_numeral)

lemma obj_0 [simp]: "obj n sz 0 = page_addr n"
  by (simp add: obj_def)

lemma obj_Suc: "obj n sz j + of_nat sz = obj n sz (Suc j)"
  by (simp add: obj_def algebra_simps)

lemma mask_page: "n < PAGING_PAGES \<Longrightarrow> frame_of a = frame_of (page_addr n) \<Longrightarrow> a AND PAGE_MASK = page_addr n"
  by (metis MAP_NR_frame MAP_NR_page LOW_frame aligned_mask(1) frame_PAGE_MASK(2) page_addr_MAP_NR page_addr_low)

lemma page_obj: "n < PAGING_PAGES \<Longrightarrow> sz * j < 4096 \<Longrightarrow> obj n sz j AND PAGE_MASK = page_addr n"
  by (intro mask_page frame_obj)

lemma obj_eq:
  assumes "n < PAGING_PAGES" "m < PAGING_PAGES" "i < 9" "j < slots i" "l < slots i"
  shows "obj n (bucket_sizes ! i) j = obj m (bucket_sizes ! i) l \<longleftrightarrow> n = m \<and> j = l"
proof
  assume e: "obj n (bucket_sizes ! i) j = obj m (bucket_sizes ! i) l"
  then have "n = m" using assms by (metis frame_obj frame_page_inj slot_lt)
  moreover have "bucket_sizes ! i * j = bucket_sizes ! i * l"
    using e assms slot_lt by (metis \<open>n = m\<close> add_left_cancel unat_obj)
  ultimately show "n = m \<and> j = l" using size_facts(1)[OF assms(3)] by simp
qed simp

lemma rd_wr_other:
  "n < PAGING_PAGES \<Longrightarrow> i < 9 \<Longrightarrow> j < slots i \<Longrightarrow> l < slots i \<Longrightarrow> j \<noteq> l \<Longrightarrow>
    rd (wr (obj n (bucket_sizes ! i) j) v m) (obj n (bucket_sizes ! i) l) = rd m (obj n (bucket_sizes ! i) l)"
proof -
  assume a: "n < PAGING_PAGES" "i < 9" "j < slots i" "l < slots i" "j \<noteq> l"
  obtain s where s: "bucket_sizes ! i = 4 * s" using size_facts(2)[OF a(2)] by (auto simp: dvd_def)
  then have "0 < s" using size_facts(1)[OF a(2)] by simp
  then have "bucket_sizes ! i * l div 4 \<noteq> bucket_sizes ! i * j div 4" using a(5) s by simp
  then show ?thesis using a slot_lt by (simp add: rd_def wr_def frame_obj word_obj)
qed

text \<open>The free objects of a page, from the pointer \<open>p\<close>, as positions.\<close>

fun free_list :: "mm \<Rightarrow> nat \<Rightarrow> nat \<Rightarrow> u32 \<Rightarrow> nat list \<Rightarrow> bool" where
  "free_list m n sz p [] \<longleftrightarrow> p = 0"
| "free_list m n sz p (j # js) \<longleftrightarrow> p = obj n sz j \<and> free_list m n sz (rd m p) js"

lemma free_list_cong:
  "(\<And>j. j \<in> set js \<Longrightarrow> rd m (obj n sz j) = rd m' (obj n sz j)) \<Longrightarrow> free_list m n sz p js = free_list m' n sz p js"
  by (induction js arbitrary: p) auto

lemma free_list_set_map [simp]: "free_list (set_map c v m) n sz p js = free_list m n sz p js"
  by (rule free_list_cong) (simp add: rd_def)

lemma ram_carve: "n < PAGING_PAGES \<Longrightarrow> i < 9 \<Longrightarrow> j + r \<le> slots i \<Longrightarrow> 0 < r \<Longrightarrow> f \<noteq> frame_of (page_addr n) \<Longrightarrow>
    ram (carve r (of_nat (bucket_sizes ! i)) (obj n (bucket_sizes ! i) j) m) f = ram m f"
proof (induction r arbitrary: j m)
  case (Suc r)
  have b: "bucket_sizes ! i * j < 4096" by (rule slot_lt) (use Suc.prems in auto)
  show ?case
  proof (cases "r = 0")
    case True
    then show ?thesis using Suc.prems b by (simp add: carve.simps[of "Suc 0"] ram_wr_other frame_obj)
  next
    case False
    then show ?thesis using Suc.IH[of "Suc j"] Suc.prems b
      by (subst carve.simps) (simp add: obj_Suc ram_wr_other frame_obj)
  qed
qed simp

lemma carve_fields: "mem_map (carve r s p m) = mem_map m \<and> HIGH_MEMORY (carve r s p m) = HIGH_MEMORY m"
proof (induction r arbitrary: p m)
  case (Suc r)
  then show ?case by (subst (1 2) carve.simps) simp
qed (simp add: carve.simps)

lemma carve_free_list:
  "n < PAGING_PAGES \<Longrightarrow> i < 9 \<Longrightarrow> j + Suc r \<le> slots i \<Longrightarrow>
    let sz = bucket_sizes ! i; m' = carve (Suc r) (of_nat sz) (obj n sz j) m
    in free_list m' n sz (obj n sz j) [j..<j + Suc r] \<and> (\<forall>l<j. rd m' (obj n sz l) = rd m (obj n sz l))"
proof (induction r arbitrary: j m)
  case 0
  then show ?case by (simp add: Let_def carve.simps[of "Suc 0"] rd_wr_other)
next
  case (Suc r)
  let ?sz = "bucket_sizes ! i"
  let ?m1 = "wr (obj n ?sz j) (obj n ?sz (Suc j)) m"
  let ?m' = "carve (Suc r) (of_nat ?sz) (obj n ?sz (Suc j)) ?m1"
  have c: "carve (Suc (Suc r)) (of_nat ?sz) (obj n ?sz j) m = ?m'"
    by (subst carve.simps) (simp add: obj_Suc)
  have ih: "free_list ?m' n ?sz (obj n ?sz (Suc j)) [Suc j..<Suc j + Suc r]"
      "\<forall>l<Suc j. rd ?m' (obj n ?sz l) = rd ?m1 (obj n ?sz l)"
    using Suc.IH[of "Suc j" ?m1] Suc.prems by (simp_all add: Let_def)
  have "rd ?m' (obj n ?sz j) = obj n ?sz (Suc j)" using ih(2) by simp
  moreover have "[j..<j + Suc (Suc r)] = j # [Suc j..<Suc j + Suc r]" by (simp add: upt_conv_Cons del: upt_Suc)
  moreover have "rd ?m' (obj n ?sz l) = rd m (obj n ?sz l)" if "l < j" for l
    using ih(2) that Suc.prems by (simp add: rd_wr_other)
  ultimately show ?case using ih(1) by (simp add: Let_def c del: upt_Suc)
qed


section \<open>What the descriptors represent\<close>

text \<open>
  \<open>ds i\<close> lists the descriptors of chain \<open>i\<close>, \<open>ds 9\<close> the unused ones; \<open>pg d\<close> is the page number of
  descriptor \<open>d\<close> and \<open>fr d\<close> the positions of its free objects.
\<close>

definition head :: "kmem \<Rightarrow> nat \<Rightarrow> nat option" where
  "head k i = (if i = 9 then km_free k else km_chain k i)"

definition next_desc :: "kmem \<Rightarrow> nat \<Rightarrow> nat option" where
  "next_desc k d = bd_next (km_desc k d)"

definition bucket :: "kmem \<Rightarrow> nat \<Rightarrow> nat \<Rightarrow> nat list \<Rightarrow> nat \<Rightarrow> bool" where
  "bucket k i n js d \<longleftrightarrow>
     n < PAGING_PAGES \<and> page_addr n < HIGH_MEMORY (km k) \<and> mem_map (km k) n = 1 \<and> bd_page (km_desc k d) = page_addr n \<and>
     free_list (km k) n (bucket_sizes ! i) (bd_freeptr (km_desc k d)) js \<and> distinct js \<and> set js \<subseteq> {..<slots i} \<and>
     unat (bd_refcnt (km_desc k d)) = slots i - length js"

definition used_descs :: "(nat \<Rightarrow> nat list) \<Rightarrow> nat set" where
  "used_descs ds = (\<Union>i<9. set (ds i))"

definition heap_rep :: "kmem \<Rightarrow> (nat \<Rightarrow> nat list) \<Rightarrow> (nat \<Rightarrow> nat) \<Rightarrow> (nat \<Rightarrow> nat list) \<Rightarrow> bool" where
  "heap_rep k ds pg fr \<longleftrightarrow>
     mm_ok (km k) \<and>
     (\<forall>i<10. chain (next_desc k) (head k i) (ds i) \<and> distinct (ds i)) \<and>
     (\<forall>i<10. \<forall>j<10. i \<noteq> j \<longrightarrow> set (ds i) \<inter> set (ds j) = {}) \<and>
     (\<forall>i<9. \<forall>d\<in>set (ds i). bucket k i (pg d) (fr d) d) \<and>
     inj_on pg (used_descs ds) \<and>
     (\<forall>i<10. \<forall>d\<in>set (ds i). d div 256 < PAGING_PAGES \<and> mem_map (km k) (d div 256) \<noteq> 0 \<and> d div 256 \<notin> pg ` used_descs ds)"

text \<open>No page without a live object stays in a chain.\<close>

definition no_idle :: "(nat \<Rightarrow> nat list) \<Rightarrow> (nat \<Rightarrow> nat list) \<Rightarrow> bool" where
  "no_idle ds fr \<longleftrightarrow> (\<forall>i<9. \<forall>d\<in>set (ds i). length (fr d) < slots i)"

definition live_objects :: "(nat \<Rightarrow> nat list) \<Rightarrow> (nat \<Rightarrow> nat) \<Rightarrow> (nat \<Rightarrow> nat list) \<Rightarrow> (u32 \<times> nat) set" where
  "live_objects ds pg fr =
     {(obj (pg d) (bucket_sizes ! i) j, bucket_sizes ! i) | i d j. i < 9 \<and> d \<in> set (ds i) \<and> j < slots i \<and> j \<notin> set (fr d)}"

lemma rep_parts:
  assumes "heap_rep k ds pg fr"
  shows rep_mm: "mm_ok (km k)"
    and rep_chain: "i < 10 \<Longrightarrow> chain (next_desc k) (head k i) (ds i)"
    and rep_distinct: "i < 10 \<Longrightarrow> distinct (ds i)"
    and rep_apart: "i < 10 \<Longrightarrow> j < 10 \<Longrightarrow> d \<in> set (ds i) \<Longrightarrow> d \<in> set (ds j) \<Longrightarrow> i = j"
    and rep_bucket: "i < 9 \<Longrightarrow> d \<in> set (ds i) \<Longrightarrow> bucket k i (pg d) (fr d) d"
    and rep_inj: "inj_on pg (used_descs ds)"
    and rep_home: "i < 10 \<Longrightarrow> d \<in> set (ds i) \<Longrightarrow>
      d div 256 < PAGING_PAGES \<and> mem_map (km k) (d div 256) \<noteq> 0 \<and> d div 256 \<notin> pg ` used_descs ds"
  using assms unfolding heap_rep_def by blast+

lemma heap_repI:
  assumes "mm_ok (km k)"
    and "\<And>i. i < 10 \<Longrightarrow> chain (next_desc k) (head k i) (ds i)"
    and "\<And>i. i < 10 \<Longrightarrow> distinct (ds i)"
    and "\<And>i j. i < 10 \<Longrightarrow> j < 10 \<Longrightarrow> i \<noteq> j \<Longrightarrow> set (ds i) \<inter> set (ds j) = {}"
    and "\<And>i d. i < 9 \<Longrightarrow> d \<in> set (ds i) \<Longrightarrow> bucket k i (pg d) (fr d) d"
    and "inj_on pg (used_descs ds)"
    and "\<And>i d. i < 10 \<Longrightarrow> d \<in> set (ds i) \<Longrightarrow>
      d div 256 < PAGING_PAGES \<and> mem_map (km k) (d div 256) \<noteq> 0 \<and> d div 256 \<notin> pg ` used_descs ds"
  shows "heap_rep k ds pg fr"
  using assms unfolding heap_rep_def by blast

lemma used_descsI: "i < 9 \<Longrightarrow> d \<in> set (ds i) \<Longrightarrow> d \<in> used_descs ds"
  by (auto simp: used_descs_def)

lemma rep_page_eq:
  "heap_rep k ds pg fr \<Longrightarrow> i < 9 \<Longrightarrow> j < 9 \<Longrightarrow> d \<in> set (ds i) \<Longrightarrow> e \<in> set (ds j) \<Longrightarrow> pg d = pg e \<longleftrightarrow> d = e"
  using rep_inj[of k ds pg fr] by (metis inj_onD used_descsI)

lemma bucket_parts:
  assumes "bucket k i n js d"
  shows "n < PAGING_PAGES" "mem_map (km k) n = 1" "bd_page (km_desc k d) = page_addr n"
    "free_list (km k) n (bucket_sizes ! i) (bd_freeptr (km_desc k d)) js" "distinct js" "\<And>j. j \<in> set js \<Longrightarrow> j < slots i"
    "unat (bd_refcnt (km_desc k d)) = slots i - length js" "page_addr n < HIGH_MEMORY (km k)"
  using assms by (auto simp: bucket_def)

lemma bucket_length: "bucket k i n js d \<Longrightarrow> length js \<le> slots i"
  by (metis bucket_def card_lessThan card_mono distinct_card finite_lessThan)

lemma bucket_cong:
  assumes "bucket k i n js d" and "i < 9"
    and "km_desc k' d = km_desc k d" and "mem_map (km k') n = mem_map (km k) n" "HIGH_MEMORY (km k') = HIGH_MEMORY (km k)"
    and "ram (km k') (frame_of (page_addr n)) = ram (km k) (frame_of (page_addr n))"
  shows "bucket k' i n js d"
proof -
  note b = bucket_parts[OF assms(1)]
  have "free_list (km k') n (bucket_sizes ! i) (bd_freeptr (km_desc k d)) js
      = free_list (km k) n (bucket_sizes ! i) (bd_freeptr (km_desc k d)) js"
    by (rule free_list_cong) (use b assms slot_lt in \<open>auto intro!: rd_cong simp: frame_obj\<close>)
  then show ?thesis using b assms(3-5) by (auto simp: bucket_def)
qed

section \<open>One object\<close>

lemma upd_desc_fields [simp]:
  "km (upd_desc d f k) = km k" "km_chain (upd_desc d f k) = km_chain k" "km_free (upd_desc d f k) = km_free k"
  "km_desc (upd_desc d f k) e = (if e = d then f (km_desc k d) else km_desc k e)"
  by (simp_all add: upd_desc_def)

lemma next_desc_cong: "(\<And>d. bd_next (km_desc k' d) = bd_next (km_desc k d)) \<Longrightarrow> next_desc k' = next_desc k"
  by (auto simp: next_desc_def)

lemma refcnt_small: "i < 9 \<Longrightarrow> slots i < 65536"
  using size_facts(6)[of i] by simp

text \<open>The rules for a change of one descriptor's object list.\<close>

lemma rep_upd:
  assumes r: "heap_rep k ds pg fr" and i: "i < 9" and d: "d \<in> set (ds i)"
    and m: "mem_map (km k') = mem_map (km k)" "HIGH_MEMORY (km k') = HIGH_MEMORY (km k)"
    and h: "head k' = head k" and n: "next_desc k' = next_desc k"
    and e: "\<And>e. e \<noteq> d \<Longrightarrow> km_desc k' e = km_desc k e"
    and f: "\<And>f. f \<noteq> frame_of (page_addr (pg d)) \<Longrightarrow> ram (km k') f = ram (km k) f"
    and b: "bucket k' i (pg d) js d"
  shows "heap_rep k' ds pg (fr(d := js))"
proof -
  note rep = rep_parts[OF r]
  have "bucket k' j (pg e') ((fr(d := js)) e') e'" if "j < 9" "e' \<in> set (ds j)" for j e'
  proof (cases "e' = d")
    case True
    then show ?thesis using rep_apart[OF r, of i j d] i d b that by simp
  next
    case False
    then have "pg e' \<noteq> pg d" using rep_page_eq[OF r that(1) i that(2) d] by simp
    then have "frame_of (page_addr (pg e')) \<noteq> frame_of (page_addr (pg d))"
      using bucket_parts(1)[OF rep_bucket[OF r that]] bucket_parts(1)[OF rep_bucket[OF r i d]] by (simp add: frame_page_inj)
    then show ?thesis using bucket_cong[OF rep_bucket[OF r that] that(1)] False e f m by simp
  qed
  then show ?thesis using r m unfolding heap_rep_def h n by (auto simp: mm_ok_cong[OF m])
qed

lemma take_object:
  assumes r: "heap_rep k ds pg fr" and i: "i < 9" and d: "d \<in> set (ds i)" and p: "bd_freeptr (km_desc k d) \<noteq> 0"
  obtains j js where "fr d = j # js" and "bd_freeptr (km_desc k d) = obj (pg d) (bucket_sizes ! i) j"
    and "heap_rep (upd_desc d (\<lambda>b. b\<lparr>bd_freeptr := rd (km k) (bd_freeptr (km_desc k d)), bd_refcnt := bd_refcnt b + 1\<rparr>) k)
           ds pg (fr(d := js))"
proof -
  let ?k' = "upd_desc d (\<lambda>b. b\<lparr>bd_freeptr := rd (km k) (bd_freeptr (km_desc k d)), bd_refcnt := bd_refcnt b + 1\<rparr>) k"
  note b = bucket_parts[OF rep_bucket[OF r i d]]
  obtain j js where f: "fr d = j # js" using b(4) p by (cases "fr d") auto
  have u: "unat (bd_refcnt (km_desc k d)) + 1 = slots i - length js" 
    using b(7) bucket_length[OF rep_bucket[OF r i d]] f by simp
  then have "unat (bd_refcnt (km_desc k d) + 1) = slots i - length js"
    using refcnt_small[OF i] by (subst unat_add_lem[THEN iffD1]) simp_all
  then have "bucket ?k' i (pg d) js d" using b f by (auto simp: bucket_def)
  from rep_upd[OF r i d _ _ _ _ _ _ this] have "heap_rep ?k' ds pg (fr(d := js))"
    by (simp add: head_def fun_eq_iff next_desc_def)
  then show ?thesis using that f b(4) by simp
qed

lemma put_object:
  assumes r: "heap_rep k ds pg fr" and i: "i < 9" and d: "d \<in> set (ds i)" and j: "j < slots i" "j \<notin> set (fr d)"
    and p: "p = obj (pg d) (bucket_sizes ! i) j"
  shows "heap_rep (upd_desc d (\<lambda>b. b\<lparr>bd_freeptr := p, bd_refcnt := bd_refcnt b - 1\<rparr>)
                     (k\<lparr>km := wr p (bd_freeptr (km_desc k d)) (km k)\<rparr>)) ds pg (fr(d := j # fr d))"
    and "unat (bd_refcnt (km_desc k d) - 1) = slots i - Suc (length (fr d))" "length (fr d) < slots i"
proof -
  let ?m = "wr p (bd_freeptr (km_desc k d)) (km k)"
  let ?k' = "upd_desc d (\<lambda>b. b\<lparr>bd_freeptr := p, bd_refcnt := bd_refcnt b - 1\<rparr>) (k\<lparr>km := ?m\<rparr>)"
  note b = bucket_parts[OF rep_bucket[OF r i d]]
  have "insert j (set (fr d)) \<subseteq> {..<slots i}" using b(6) j by auto
  then have "card (insert j (set (fr d))) \<le> slots i" by (metis card_lessThan card_mono finite_lessThan)
  then show l: "length (fr d) < slots i" using j(2) b(5) by (simp add: distinct_card)
  then show u: "unat (bd_refcnt (km_desc k d) - 1) = slots i - Suc (length (fr d))"
    using b(7) by (simp add: unat_sub word_le_nat_alt)
  have "rd ?m p = bd_freeptr (km_desc k d)" by simp
  moreover have "free_list ?m (pg d) (bucket_sizes ! i) (bd_freeptr (km_desc k d)) (fr d)"
    by (subst free_list_cong[where m' = "km k"])
      (use b i j in \<open>auto simp: p intro!: rd_wr_other\<close>)
  ultimately have "bucket ?k' i (pg d) (j # fr d) d" using b j p u by (auto simp: bucket_def)
  from rep_upd[OF r i d _ _ _ _ _ _ this] show "heap_rep ?k' ds pg (fr(d := j # fr d))"
    using b(1) slot_lt[OF i j(1)] by (simp add: head_def fun_eq_iff next_desc_def p frame_obj ram_wr_other)
qed


section \<open>Pages come and go\<close>

definition free_frames :: "mm \<Rightarrow> nat set" where
  "free_frames m = {n. n < PAGING_PAGES \<and> mem_map m n = 0}"

abbreviation fresh_page :: "nat \<Rightarrow> mm \<Rightarrow> mm" where
  "fresh_page n m \<equiv> set_page (page_addr n) (\<lambda>_. 0) (set_map n 1 m)"

lemma free_frames_finite [simp]: "finite (free_frames m)"
  by (simp add: free_frames_def)

lemma free_frames_fresh: "free_frames (fresh_page n m) = free_frames m - {n}"
  by (auto simp: free_frames_def)

lemma get_free_page_free:
  assumes "mm_ok m" and "free_frames m \<noteq> {}"
  obtains n where "n \<in> free_frames m" and "get_free_page (Suc fuel) m = Inr (page_addr n, fresh_page n m)"
proof -
  from assms(2) obtain a where "a < PAGING_PAGES" "mem_map m a = 0" by (auto simp: free_frames_def)
  from get_free_page_avail[OF assms(1) this, of fuel] that show thesis by (auto simp: free_frames_def)
qed

lemma fresh_mm_ok: "mm_ok m \<Longrightarrow> mm_ok (fresh_page n m)"
  by (auto simp: mm_ok_def)

lemma link_descs:
  "link_descs (Suc r) b k = (b + r, k\<lparr>km_desc := (\<lambda>e. if b \<le> e \<and> e < b + r then (km_desc k e)\<lparr>bd_next := Some (e + 1)\<rparr> else km_desc k e)\<rparr>)"
proof (induction r arbitrary: b k)
  case 0
  have "(\<lambda>e. if b \<le> e \<and> e < b then (km_desc k e)\<lparr>bd_next := Some (e + 1)\<rparr> else km_desc k e) = km_desc k"
    by (auto simp: fun_eq_iff)
  then show ?case by (subst link_descs.simps) simp
next
  case (Suc r)
  show ?case
    by (subst link_descs.simps) (simp add: Suc.IH[of "Suc b"] upd_desc_def fun_eq_iff)
qed

lemma chain_upt: "a < b \<Longrightarrow> (\<And>e. a \<le> e \<Longrightarrow> Suc e < b \<Longrightarrow> f e = Some (Suc e)) \<Longrightarrow> f (b - 1) = None \<Longrightarrow> chain f (Some a) [a..<b]"
proof (induction "b - a" arbitrary: a)
  case (Suc m)
  show ?case
  proof (cases "Suc a = b")
    case True
    with Suc.prems show ?thesis by auto
  next
    case False
    then have "f a = Some (Suc a)" "chain f (Some (Suc a)) [Suc a..<b]" using Suc by simp_all
    with Suc.prems(1) show ?thesis by (subst upt_conv_Cons) simp_all
  qed
qed simp

lemma used_descs_free [simp]: "used_descs (ds(9 := fl)) = used_descs ds"
  by (auto simp: used_descs_def)

lemma fresh_not_used:
  assumes "heap_rep k ds pg fr" and "n \<in> free_frames (km k)"
  shows "n \<notin> pg ` used_descs ds" and "i < 10 \<Longrightarrow> d \<in> set (ds i) \<Longrightarrow> d div 256 \<noteq> n"
proof -
  show "n \<notin> pg ` used_descs ds" using rep_bucket[OF assms(1)] assms(2)
    by (fastforce simp: used_descs_def free_frames_def bucket_def)
  show "i < 10 \<Longrightarrow> d \<in> set (ds i) \<Longrightarrow> d div 256 \<noteq> n" using rep_home[OF assms(1)] assms(2) by (auto simp: free_frames_def)
qed

text \<open>The buckets in use are untouched by what happens to a free page and to other descriptors.\<close>

lemma bucket_fresh:
  assumes r: "heap_rep k ds pg fr" and n: "n \<in> free_frames (km k)" and i: "i < 9" "d \<in> set (ds i)"
    and d: "km_desc k' d = km_desc k d" and m: "mem_map (km k') = (mem_map (km k))(n := c)" "HIGH_MEMORY (km k') = HIGH_MEMORY (km k)"
    and ram: "\<And>f. f \<noteq> frame_of (page_addr n) \<Longrightarrow> ram (km k') f = ram (km k) f"
  shows "bucket k' i (pg d) (fr d) d"
proof -
  have "pg d \<noteq> n" using fresh_not_used(1)[OF r n] i by (auto simp: used_descs_def)
  moreover from this have "frame_of (page_addr (pg d)) \<noteq> frame_of (page_addr n)"
    using bucket_parts(1)[OF rep_bucket[OF r i]] n by (simp add: frame_page_inj free_frames_def)
  ultimately show ?thesis by (intro bucket_cong[OF rep_bucket[OF r i] i(1) d]) (simp_all add: m ram)
qed

lemma init_descs:
  assumes r: "heap_rep k ds pg fr" and e: "ds 9 = []" and free: "free_frames (km k) \<noteq> {}"
  obtains n k' where "n \<in> free_frames (km k)" and "init_bucket_desc (Suc fuel) k = Inr k'"
    and "km k' = fresh_page n (km k)" and "km_chain k' = km_chain k"
    and "heap_rep k' (ds(9 := [256 * n..<256 * n + 256])) pg fr"
proof -
  obtain n where n: "n \<in> free_frames (km k)" and g: "get_free_page (Suc fuel) (km k) = Inr (page_addr n, fresh_page n (km k))"
    by (rule get_free_page_free[OF rep_mm[OF r] free])
  then have n': "n < PAGING_PAGES" by (simp add: free_frames_def)
  have none: "km_free k = None" using rep_chain[OF r, of 9] e by (simp add: head_def)
  let ?D = "\<lambda>d. if d div 256 = n then zero_desc else km_desc k d"
  let ?E = "\<lambda>e. if 256 * n \<le> e \<and> e < 256 * n + 255 then (?D e)\<lparr>bd_next := Some (e + 1)\<rparr> else ?D e"
  let ?k' = "k\<lparr>km := fresh_page n (km k), km_desc := ?E(256 * n + 255 := zero_desc), km_free := Some (256 * n)\<rparr>"
  have "256 = Suc 255" by simp
  then have l: "link_descs 256 (256 * n) k1 = (256 * n + 255, k1\<lparr>km_desc := (\<lambda>e. if 256 * n \<le> e \<and> e < 256 * n + 255 then (km_desc k1 e)\<lparr>bd_next := Some (e + 1)\<rparr> else km_desc k1 e)\<rparr>)" for k1
    by (metis link_descs)
  have "(256 * n + 255) div 256 = n" by simp
  then have i: "init_bucket_desc (Suc fuel) k = Inr ?k'"
    by (simp add: init_bucket_desc_def g page_addr_nonzero n' DESCS_PER_PAGE_def l upd_desc_def none Let_def
        zero_desc_def fun_upd_def cong: if_cong)
  have same: "km_desc ?k' d = km_desc k d" if "d div 256 \<noteq> n" for d
    using that by auto
  have old: "km_desc ?k' d = km_desc k d" if "i < 10" "d \<in> set (ds i)" for i d
    by (rule same) (rule fresh_not_used(2)[OF r n that])
  have "chain (next_desc ?k') (head ?k' i) ((ds(9 := [256 * n..<256 * n + 256])) i)" if "i < 10" for i
  proof (cases "i = 9")
    case True
    then show ?thesis by (simp add: head_def del: upt_Suc, intro chain_upt) (auto simp: next_desc_def zero_desc_def)
  next
    case False
    have "chain (next_desc ?k') (head k i) (ds i) = chain (next_desc k) (head k i) (ds i)"
      by (rule chain_cong) (use old[OF that] in \<open>simp only: next_desc_def\<close>)
    then show ?thesis using rep_chain[OF r that] False by (simp add: head_def)
  qed
  moreover have "set ((ds(9 := [256 * n..<256 * n + 256])) i) \<inter> set ((ds(9 := [256 * n..<256 * n + 256])) j) = {}"
    if "i < 10" "j < 10" "i \<noteq> j" for i j
    using that fresh_not_used(2)[OF r n] rep_apart[OF r] by (fastforce split: if_splits)
  moreover have "bucket ?k' i (pg d) (fr d) d" if "i < 9" "d \<in> set (ds i)" for i d
    by (rule bucket_fresh[OF r n that]) (use old[of i d] that in \<open>auto simp: ram_set_page simp del: fun_upd_apply\<close>)
  ultimately have "heap_rep ?k' (ds(9 := [256 * n..<256 * n + 256])) pg fr"
    using r fresh_mm_ok[of "km k" n] fresh_not_used[OF r n] n'
    unfolding heap_rep_def by (auto simp: not_less less_Suc_eq_le)
  then show thesis using that n i by simp
qed


text \<open>A new bucket in front of chain \<open>i\<close>: all its objects are free.\<close>

lemma new_bucket_listed:
  assumes r: "heap_rep k ds pg fr" and i: "i < 9" and u: "ds 9 = d # fl" and free: "free_frames (km k) \<noteq> {}"
  obtains n k' where "n \<in> free_frames (km k)" and "new_bucket (Suc fuel) i k = Inr (d, k')"
    and "bd_freeptr (km_desc k' d) \<noteq> 0"
    and "heap_rep k' (ds(9 := fl, i := d # ds i)) (pg(d := n)) (fr(d := [0..<slots i]))"
    and "mem_map (km k') = (mem_map (km k))(n := 1)"
    and "\<And>f. f \<noteq> frame_of (page_addr n) \<Longrightarrow> ram (km k') f = ram (km k) f"
proof -
  obtain n where n: "n \<in> free_frames (km k)" and g: "get_free_page (Suc fuel) (km k) = Inr (page_addr n, fresh_page n (km k))"
    by (rule get_free_page_free[OF rep_mm[OF r] free])
  then have n': "n < PAGING_PAGES" by (simp add: free_frames_def)
  let ?sz = "bucket_sizes ! i"
  let ?ds = "ds(9 := fl, i := d # ds i)" and ?pg = "pg(d := n)" and ?fr = "fr(d := [0..<slots i])"
  have c9: "km_free k = Some d" "chain (next_desc k) (bd_next (km_desc k d)) fl"
    using rep_chain[OF r, of 9] u by (auto simp: head_def next_desc_def)
  have d9: "d \<notin> set (ds j)" "e \<in> set fl \<Longrightarrow> e \<notin> set (ds j)" if "j < 9" for j e
    using rep_apart[OF r, of j 9] u that by fastforce+
  have dfl: "d \<notin> set fl" "distinct fl" using rep_distinct[OF r, of 9] u by auto
  let ?m = "carve (slots i) (of_nat ?sz) (page_addr n) (fresh_page n (km k))"
  let ?D = "(km_desc k)(d := \<lparr>bd_page = page_addr n, bd_next = km_chain k i, bd_freeptr = page_addr n, bd_refcnt = 0, bd_size = of_nat ?sz\<rparr>)"
  let ?k' = "k\<lparr>km := ?m, km_desc := ?D, km_chain := (km_chain k)(i := Some d), km_free := bd_next (km_desc k d)\<rparr>"
  have nb: "new_bucket (Suc fuel) i k = Inr (d, ?k')"
    by (simp add: new_bucket_def take_desc_def c9 g upd_desc_def Let_def page_addr_nonzero n' slots_def fun_eq_iff)
  have hi: "page_addr n < HIGH_MEMORY (km k)" using n rep_mm[OF r] by (simp add: mm_ok_def free_frames_def)
  obtain q where q: "slots i = Suc q" using size_facts(5)[OF i] by (cases "slots i") auto
  have fl: "free_list ?m n ?sz (page_addr n) [0..<slots i]"
    using carve_free_list[OF n' i, of 0 q "fresh_page n (km k)"] q by (simp add: Let_def del: upt_Suc)
  have mm: "mem_map ?m = (mem_map (km k))(n := 1)" "HIGH_MEMORY ?m = HIGH_MEMORY (km k)" by (simp_all add: carve_fields)
  have ram: "ram ?m f = ram (km k) f" if "f \<noteq> frame_of (page_addr n)" for f
    using ram_carve[OF n' i, of 0 "slots i" f "fresh_page n (km k)"] that size_facts(5)[OF i] by (simp add: ram_set_page)
  have b: "bucket ?k' j (?pg e) (?fr e) e" if "j < 9" "e \<in> set (?ds j)" for j e
  proof (cases "e = d")
    case True
    then have "j = i" using that d9(1)[of j] by (auto split: if_splits)
    then show ?thesis using True n' fl mm hi by (auto simp: bucket_def)
  next
    case False
    then have "e \<in> set (ds j)" using that by (auto split: if_splits)
    then show ?thesis using False bucket_fresh[OF r n that(1), of e ?k' 1] mm ram by simp
  qed
  have nx: "next_desc ?k' e = next_desc k e" if "e \<noteq> d" for e using that by (simp add: next_desc_def)
  have ch: "chain (next_desc ?k') h (ds j) = chain (next_desc k) h (ds j)" if "j < 9" for h j
    by (rule chain_cong) (use nx d9(1)[OF that] in metis)
  have chains: "chain (next_desc ?k') (head ?k' j) (?ds j)" if "j < 10" for j
  proof -
    have "j = 9 \<or> j < 9" using that by linarith
    then consider "j = 9" | "j = i" | "j < 9" "j \<noteq> i" by blast
    then show ?thesis
    proof cases
      case 1
      have "chain (next_desc ?k') (bd_next (km_desc k d)) fl = chain (next_desc k) (bd_next (km_desc k d)) fl"
        by (rule chain_cong) (use nx dfl(1) in metis)
      with 1 i c9(2) show ?thesis by (simp add: head_def)
    next
      case 2
      with i show ?thesis using rep_chain[OF r, of i] ch[OF i] by (simp add: head_def next_desc_def)
    next
      case 3
      then show ?thesis using rep_chain[OF r, of j] ch by (simp add: head_def)
    qed
  qed
  have mem: "e = d \<and> j = i \<or> e \<noteq> d \<and> e \<in> set (ds j)" if "j < 10" "e \<in> set (?ds j)" for j e
  proof (cases "j = i \<or> j = 9")
    case True
    then show ?thesis using that d9(1)[OF i] dfl(1) u i by auto
  next
    case False
    then show ?thesis using that d9(1)[of j] by auto
  qed
  have dist: "distinct (?ds j)" if "j < 10" for j
    using rep_distinct[OF r that] dfl d9(1) i by auto
  have apart: "set (?ds j) \<inter> set (?ds l) = {}" if "j < 10" "l < 10" "j \<noteq> l" for j l
    using mem[OF that(1)] mem[OF that(2)] rep_apart[OF r that(1,2)] that(3) by blast
  have used: "used_descs ?ds = insert d (used_descs ds)" using i by (auto simp: used_descs_def split: if_splits)
  have inj: "inj_on ?pg (insert d (used_descs ds))"
    using rep_inj[OF r] fresh_not_used(1)[OF r n] d9(1)
    by (auto simp: used_descs_def inj_on_def split: if_splits) 
  have home: "e div 256 < PAGING_PAGES \<and> mem_map (km k) (e div 256) \<noteq> 0 \<and> e div 256 \<noteq> n \<and> e div 256 \<notin> pg ` used_descs ds"
    if "j < 10" "e \<in> set (?ds j)" for j e
    using rep_home[OF r, of j e] rep_home[OF r, of 9 e] fresh_not_used(2)[OF r n, of j e] fresh_not_used(2)[OF r n, of 9 e] that u
    by (auto split: if_splits)
  have ok: "mm_ok ?m" using fresh_mm_ok[OF rep_mm[OF r], of n] mm_ok_cong[of ?m "fresh_page n (km k)"] by (simp add: carve_fields)
  have rep: "heap_rep ?k' ?ds ?pg ?fr"
  proof (rule heap_repI)
    show "mm_ok (km ?k')" using ok by simp
    show "inj_on ?pg (used_descs ?ds)" unfolding used by (rule inj)
    fix j e :: nat assume h: "j < 10" "e \<in> set (?ds j)"
    have "?pg ` used_descs ?ds \<subseteq> insert n (pg ` used_descs ds)" by (auto simp: used)
    then show "e div 256 < PAGING_PAGES \<and> mem_map (km ?k') (e div 256) \<noteq> 0 \<and> e div 256 \<notin> ?pg ` used_descs ?ds"
      using home[OF h] mm(1) by auto
  qed (fact chains dist apart b)+
  show thesis
    by (rule that[OF n nb _ rep]) (use mm ram page_addr_nonzero[OF n'] in simp_all)
qed


section \<open>Searches\<close>

lemma find_room_chain:
  "chain (next_desc k) p cs \<Longrightarrow> length cs < fuel \<Longrightarrow>
    find_room fuel k p = Inr (find (\<lambda>d. bd_freeptr (km_desc k d) \<noteq> 0) cs)"
proof (induction cs arbitrary: fuel p)
  case Nil
  then show ?case by (cases fuel) auto
next
  case (Cons c cs)
  then show ?case by (cases fuel) (auto simp: next_desc_def)
qed

definition before :: "nat option \<Rightarrow> nat list \<Rightarrow> nat \<Rightarrow> nat option" where
  "before prev xs d = (if takeWhile (\<lambda>e. e \<noteq> d) xs = [] then prev else Some (last (takeWhile (\<lambda>e. e \<noteq> d) xs)))"

lemma find_page_chain:
  "chain (next_desc k) p cs \<Longrightarrow> length cs < fuel \<Longrightarrow>
    find_page fuel k page prev p =
      Inr (map_option (\<lambda>d. (before prev cs d, d)) (find (\<lambda>d. bd_page (km_desc k d) = page) cs))"
proof (induction cs arbitrary: fuel p prev)
  case Nil
  then show ?case by (cases fuel) auto
next
  case (Cons c cs)
  then obtain f where f: "fuel = Suc f" by (cases fuel) auto
  from Cons f have p: "p = Some c" "chain (next_desc k) (next_desc k c) cs" "length cs < f" by auto
  show ?case
  proof (cases "bd_page (km_desc k c) = page")
    case True
    then show ?thesis by (simp add: f p before_def)
  next
    case False
    have "before (Some c) cs d = before prev (c # cs) d" if "find (\<lambda>d. bd_page (km_desc k d) = page) cs = Some d" for d
    proof -
      from that have "c \<noteq> d" using False by (auto simp: find_Some_iff)
      then show ?thesis by (simp add: before_def)
    qed
    then show ?thesis using False Cons.IH[OF p(2,3), of "Some c"]
      by (cases "find (\<lambda>d. bd_page (km_desc k d) = page) cs") (simp_all add: f p(1) next_desc_def)
  qed
qed

text \<open>A chain is shorter than the number of pages, since each descriptor has its own page.\<close>

lemma chain_short:
  assumes "heap_rep k ds pg fr" and "i < 9"
  shows "length (ds i) \<le> PAGING_PAGES"
proof -
  have "pg ` set (ds i) \<subseteq> {..<PAGING_PAGES}" using rep_bucket[OF assms] bucket_parts(1) by fast
  moreover have "inj_on pg (set (ds i))"
    by (rule inj_on_subset[OF rep_inj[OF assms(1)]]) (use assms(2) in \<open>auto simp: used_descs_def\<close>)
  ultimately have "card (set (ds i)) \<le> PAGING_PAGES"
    by (metis card_image card_lessThan card_mono finite_lessThan)
  then show ?thesis using rep_distinct[OF assms(1), of i] assms(2) by (simp add: distinct_card)
qed

lemma find_page_unique:
  assumes r: "heap_rep k ds pg fr" and "i < 9" "d \<in> set (ds i)" "j < 9"
  shows "find (\<lambda>e. bd_page (km_desc k e) = page_addr (pg d)) (ds j) = (if j = i then Some d else None)"
proof -
  have e: "bd_page (km_desc k e) = page_addr (pg d) \<longleftrightarrow> e = d" if "l < 9" "e \<in> set (ds l)" for l e
  proof -
    note be = bucket_parts[OF rep_bucket[OF r that]] and bd = bucket_parts[OF rep_bucket[OF r assms(2,3)]]
    have "bd_page (km_desc k e) = page_addr (pg d) \<longleftrightarrow> pg e = pg d" using be(1,3) bd(1) by (metis MAP_NR_page)
    then show ?thesis using rep_page_eq[OF r that(1) assms(2) that(2) assms(3)] by simp
  qed
  have s: "find (\<lambda>e. bd_page (km_desc k e) = page_addr (pg d)) cs = find (\<lambda>e. e = d) cs" if "set cs \<subseteq> set (ds j)" for cs
    using that e[OF assms(4)] by (induction cs) auto
  have m: "find (\<lambda>e. e = d) cs = (if d \<in> set cs then Some d else None)" for cs by (induction cs) auto
  have "d \<in> set (ds j) \<longleftrightarrow> j = i" using rep_apart[OF r, of i j d] assms by auto
  then show ?thesis by (simp add: s m)
qed

lemma find_desc_finds:
  assumes r: "heap_rep k ds pg fr" and i: "i < 9" "d \<in> set (ds i)" and s: "size' \<le> int (bucket_sizes ! i)"
    and fuel: "PAGING_PAGES < fuel"
  shows "find_desc fuel k (page_addr (pg d)) size' [0..<9] = Inr (i, before None (ds i) d, d)"
proof -
  have "find_desc fuel k (page_addr (pg d)) size' js = Inr (i, before None (ds i) d, d)"
    if "set js \<subseteq> {..<9}" "i \<in> set js" for js
    using that
  proof (induction js)
    case (Cons j js)
    have j: "j < 9" using Cons.prems by simp
    have f: "find_page fuel k (page_addr (pg d)) None (km_chain k j)
        = Inr (if j = i then Some (before None (ds i) d, d) else None)"
      using find_page_chain[OF rep_chain[OF r, of j]] chain_short[OF r j] fuel j find_page_unique[OF r i j]
      by (simp add: head_def)
    show ?case using f s Cons by (auto simp: not_less)
  qed simp
  then show ?thesis using i(1) by (simp add: lessThan_atLeast0 del: upt_Suc)
qed


section \<open>Giving a page back\<close>

lemma before_split: "d \<notin> set xs \<Longrightarrow> before None (xs @ d # ys) d = last_opt xs"
proof -
  assume "d \<notin> set xs"
  then have "takeWhile (\<lambda>e. e \<noteq> d) (xs @ d # ys) = xs" by (simp add: takeWhile_append2 takeWhile_append)
  then show ?thesis by (simp add: before_def last_opt_def)
qed

lemma drop_idle:
  assumes r: "heap_rep k ds pg fr" and i: "i < 9" and d: "d \<in> set (ds i)"
  obtains k' where "drop_bucket fuel i (before None (ds i) d) d k = Inr k'"
    and "heap_rep k' (ds(i := remove1 d (ds i), 9 := d # ds 9)) pg fr"
    and "mem_map (km k') = (mem_map (km k))(pg d := 0)" and "ram (km k') = ram (km k)"
proof -
  obtain xs ys where x: "ds i = xs @ d # ys" using d by (auto simp: in_set_conv_decomp)
  have dist: "distinct (xs @ d # ys)" using rep_distinct[OF r, of i] i x by simp
  then have nin: "d \<notin> set xs" "d \<notin> set ys" "xs \<noteq> [] \<Longrightarrow> last xs \<noteq> d" by auto
  have rem: "remove1 d (ds i) = xs @ ys" using nin x by (simp add: remove1_append)
  note b = bucket_parts[OF rep_bucket[OF r i d]]
  have c: "chain (next_desc k) (km_chain k i) (xs @ d # ys)" using rep_chain[OF r, of i] i x by (simp add: head_def)
  then have sx: "seg (next_desc k) (km_chain k i) xs (Some d)" and cy: "chain (next_desc k) (next_desc k d) ys"
    by (auto simp: chain_append)
  let ?n = "bd_next (km_desc k d)"
  let ?D = "case last_opt xs of Some q \<Rightarrow> (km_desc k)(q := (km_desc k q)\<lparr>bd_next := ?n\<rparr>) | None \<Rightarrow> km_desc k"
  let ?C = "case last_opt xs of Some q \<Rightarrow> km_chain k | None \<Rightarrow> (km_chain k)(i := ?n)"
  let ?k' = "k\<lparr>km := set_map (pg d) 0 (km k), km_chain := ?C, km_desc := ?D(d := (km_desc k d)\<lparr>bd_next := km_free k\<rparr>), km_free := Some d\<rparr>"
  have bf: "before None (ds i) d = last_opt xs" using before_split[OF nin(1)] x by simp
  have fp: "free_page (page_addr (pg d)) (km k) = Inr (set_map (pg d) 0 (km k))"
    using free_page_page[OF b(1) b(8)] b(2) by simp
  have dr: "drop_bucket fuel i (before None (ds i) d) d k = Inr ?k'"
  proof (cases "xs = []")
    case True
    then show ?thesis using c fp b(3) by (simp add: bf last_opt_def drop_bucket_def unlink_desc_def upd_desc_def Let_def)
  next
    case False
    then have "bd_next (km_desc k (last xs)) = Some d" using seg_last[OF sx] by (simp add: next_desc_def)
    then show ?thesis using False fp b(3) nin
      by (simp add: bf last_opt_def drop_bucket_def unlink_desc_def upd_desc_def Let_def)
  qed
  have same: "next_desc ?k' e = next_desc k e" if "e \<noteq> d" "e \<notin> set xs" for e
    using that by (auto simp: next_desc_def last_opt_def)
  have other: "e \<noteq> d" "e \<notin> set xs" if "e \<in> set (ds j)" "j < 10" "j \<noteq> i" for e j
    using rep_apart[OF r that(2), of i e] that x i by auto
  have ch: "chain (next_desc ?k') h (ds j) = chain (next_desc k) h (ds j)" if "j < 10" "j \<noteq> i" for h j
    by (rule chain_cong) (use same other that in blast)
  have chy: "chain (next_desc ?k') ?n ys"
  proof -
    have "chain (next_desc ?k') (next_desc k d) ys = chain (next_desc k) (next_desc k d) ys"
      by (rule chain_cong, rule same) (use dist in auto)
    with cy show ?thesis by (simp only: next_desc_def)
  qed
  have chx: "chain (next_desc ?k') (?C i) (xs @ ys)"
  proof (cases "xs = []")
    case False
    have "seg (next_desc ?k') (km_chain k i) xs ?n"
      by (rule seg_upd_last[OF sx False]) (use dist False nin in \<open>auto simp: next_desc_def last_opt_def\<close>)
    then show ?thesis using False chy by (auto simp: chain_append last_opt_def)
  qed (use chy in \<open>simp add: last_opt_def\<close>)
  let ?ds = "ds(i := remove1 d (ds i), 9 := d # ds 9)"
  have sd: "set (?ds j) = set (ds j) - {d}" if "j < 9" for j
  proof (cases "j = i")
    case True
    then show ?thesis using that dist by (auto simp: rem x)
  next
    case False
    moreover have "d \<notin> set (ds j)" using rep_apart[OF r, of j i d] that False i d by auto
    ultimately show ?thesis using that by simp
  qed
  have used: "used_descs ?ds = used_descs ds - {d}"
    unfolding used_descs_def using sd by (simp del: fun_upd_apply)
  have home: "pg d \<noteq> e div 256" if "j < 10" "e \<in> set (ds j)" for j e
    using rep_home[OF r that] used_descsI[of i d ds] i d by (metis imageI)
  have mem: "e = d \<and> j = 9 \<or> e \<noteq> d \<and> e \<in> set (ds j)" if "e \<in> set (?ds j)" "j < 10" for e j
  proof -
    have "j = 9 \<or> j < 9" using that(2) by linarith
    then consider "j = 9" | "j < 9" by blast
    then show ?thesis using that sd[of j] rep_apart[OF r, of 9 i d] i d by cases auto
  qed
  have rep: "heap_rep ?k' ?ds pg fr"
  proof (rule heap_repI)
    show "mm_ok (km ?k')" using rep_mm[OF r] b(8) by (auto simp: mm_ok_def)
    show "inj_on pg (used_descs ?ds)" unfolding used using rep_inj[OF r] by (rule inj_on_diff)
  next
    fix j :: nat assume j: "j < 10"
    show "chain (next_desc ?k') (head ?k' j) (?ds j)"
    proof -
      consider "j = 9" | "j = i" | "j \<noteq> 9" "j \<noteq> i" by blast
      then show ?thesis
      proof cases
        case 1
        have "next_desc ?k' d = head k 9" by (simp add: next_desc_def head_def)
        with 1 show ?thesis using ch[of 9] i rep_chain[OF r, of 9] by (simp add: head_def)
      next
        case 2
        with i have "head ?k' j = ?C i" "?ds j = xs @ ys" using rem by (simp_all add: head_def)
        then show ?thesis using chx by (simp only:)
      next
        case 3
        then have "head ?k' j = head k j" "?ds j = ds j" by (simp_all add: head_def split: option.split)
        then show ?thesis using ch[OF j 3(2)] rep_chain[OF r j] by (simp only:)
      qed
    qed
    have "d \<notin> set (ds 9)" using rep_apart[OF r, of 9 i d] i d by auto
    then show "distinct (?ds j)" using rep_distinct[OF r j] rep_distinct[OF r, of 9] rep_distinct[OF r, of i] i by (simp add: distinct_remove1)
  next
    fix j l :: nat assume "j < 10" "l < 10" "j \<noteq> l"
    then show "set (?ds j) \<inter> set (?ds l) = {}"
      using mem[of _ j] mem[of _ l] rep_apart[OF r, of j l] unfolding disjoint_iff by metis
  next
    fix j e :: nat assume j: "j < 9" and e: "e \<in> set (?ds j)"
    then have e': "e \<in> set (ds j)" "e \<noteq> d" unfolding sd[OF j] by auto
    have p: "pg e \<noteq> pg d" using rep_page_eq[OF r j i e'(1) d] e'(2) by simp
    have "bd_page (km_desc ?k' e) = bd_page (km_desc k e) \<and> bd_freeptr (km_desc ?k' e) = bd_freeptr (km_desc k e)
        \<and> bd_refcnt (km_desc ?k' e) = bd_refcnt (km_desc k e)"
      by (simp split: option.split)
    then have "bucket ?k' j (pg e) (fr e) e = bucket k j (pg e) (fr e) e"
      using p unfolding bucket_def by (simp del: fun_upd_apply) simp
    then show "bucket ?k' j (pg e) (fr e) e" using rep_bucket[OF r j e'(1)] by simp
  next
    fix j e :: nat assume j: "j < 10" and e: "e \<in> set (?ds j)"
    have "e \<in> set (ds j) \<or> e = d"
      using e by (auto dest: notin_set_remove1 split: if_splits)
    then have l: "(if e = d then i else j) < 10" "e \<in> set (ds (if e = d then i else j))" using j i d by auto
    have "pg ` used_descs ?ds \<subseteq> pg ` used_descs ds" unfolding used by blast
    moreover have "mem_map (km ?k') (e div 256) = mem_map (km k) (e div 256)" using home[OF l] by simp
    ultimately show "e div 256 < PAGING_PAGES \<and> mem_map (km ?k') (e div 256) \<noteq> 0 \<and> e div 256 \<notin> pg ` used_descs ?ds"
      using rep_home[OF r l] by (metis subset_iff)
  qed
  show thesis by (rule that[OF dr rep]) simp_all
qed


section \<open>Live objects\<close>

lemma sizes_inj: "i < 9 \<Longrightarrow> j < 9 \<Longrightarrow> bucket_sizes ! i = bucket_sizes ! j \<longleftrightarrow> i = j"
  by (subst nth_eq_iff_index_eq) (auto simp: bucket_sizes_def)

lemma live_objectsI: "i < 9 \<Longrightarrow> d \<in> set (ds i) \<Longrightarrow> j < slots i \<Longrightarrow> j \<notin> set (fr d) \<Longrightarrow>
    (obj (pg d) (bucket_sizes ! i) j, bucket_sizes ! i) \<in> live_objects ds pg fr"
  unfolding live_objects_def by blast

lemma live_objectsE:
  assumes "(p, s) \<in> live_objects ds pg fr"
  obtains i d j where "i < 9" "d \<in> set (ds i)" "j < slots i" "j \<notin> set (fr d)"
    "p = obj (pg d) (bucket_sizes ! i) j" "s = bucket_sizes ! i"
  using assms unfolding live_objects_def by blast

text \<open>An object determines its descriptor and its position.\<close>

lemma same_object:
  assumes r: "heap_rep k ds pg fr" and i: "i < 9" "d \<in> set (ds i)" "j < slots i"
    and i': "i' < 9" "d' \<in> set (ds i')" "j' < slots i'"
    and e: "obj (pg d) (bucket_sizes ! i) j = obj (pg d') (bucket_sizes ! i') j'" "bucket_sizes ! i = bucket_sizes ! i'"
  shows "i = i' \<and> d = d' \<and> j = j'"
proof -
  have "i = i'" using sizes_inj[OF i(1) i'(1)] e(2) by simp
  moreover from this have "pg d = pg d' \<and> j = j'"
    using e(1) i' i(3) bucket_parts(1)[OF rep_bucket[OF r i(1,2)]] bucket_parts(1)[OF rep_bucket[OF r i'(1,2)]] 
    by (simp add: obj_eq)
  ultimately show ?thesis using rep_page_eq[OF r i(1) i'(1) i(2) i'(2)] by simp
qed

lemma live_take:
  assumes r: "heap_rep k ds pg fr" and i: "i < 9" "d \<in> set (ds i)" and f: "fr d = j # js"
  shows "live_objects ds pg (fr(d := js)) = insert (obj (pg d) (bucket_sizes ! i) j, bucket_sizes ! i) (live_objects ds pg fr)"
    and "(obj (pg d) (bucket_sizes ! i) j, bucket_sizes ! i) \<notin> live_objects ds pg fr"
proof -
  let ?x = "(obj (pg d) (bucket_sizes ! i) j, bucket_sizes ! i)"
  note b = bucket_parts[OF rep_bucket[OF r i]]
  have j: "j < slots i" "j \<notin> set js" using b(5,6) f by auto
  show "?x \<notin> live_objects ds pg fr"
  proof
    assume "?x \<in> live_objects ds pg fr"
    then obtain i' d' j' where h: "i' < 9" "d' \<in> set (ds i')" "j' < slots i'" "j' \<notin> set (fr d')"
      "obj (pg d) (bucket_sizes ! i) j = obj (pg d') (bucket_sizes ! i') j'" "bucket_sizes ! i = bucket_sizes ! i'"
      by (rule live_objectsE)
    from same_object[OF r i j(1) h(1-3,5,6)] h(4) f show False by simp
  qed
  show "live_objects ds pg (fr(d := js)) = insert ?x (live_objects ds pg fr)"
  proof (intro set_eqI iffI)
    fix x assume "x \<in> live_objects ds pg (fr(d := js))"
    then obtain i' d' j' where h: "i' < 9" "d' \<in> set (ds i')" "j' < slots i'" "j' \<notin> set ((fr(d := js)) d')"
      "x = (obj (pg d') (bucket_sizes ! i') j', bucket_sizes ! i')" by (cases x) (auto elim: live_objectsE)
    show "x \<in> insert ?x (live_objects ds pg fr)"
    proof (cases "d' = d \<and> j' = j")
      case True
      then show ?thesis using h(1,2,5) rep_apart[OF r, of i i' d] i by simp
    next
      case False
      then have "j' \<notin> set (fr d')" using h(4) f by (auto split: if_splits)
      then show ?thesis using h live_objectsI[of i' d' ds j' fr pg] by simp
    qed
  next
    fix x assume "x \<in> insert ?x (live_objects ds pg fr)"
    then consider "x = ?x" | "x \<in> live_objects ds pg fr" by blast
    then show "x \<in> live_objects ds pg (fr(d := js))"
    proof cases
      case 1
      then show ?thesis using live_objectsI[of i d ds j "fr(d := js)" pg] i j by simp
    next
      case 2
      then obtain i' d' j' where h: "i' < 9" "d' \<in> set (ds i')" "j' < slots i'" "j' \<notin> set (fr d')"
        "x = (obj (pg d') (bucket_sizes ! i') j', bucket_sizes ! i')" by (cases x) (auto elim: live_objectsE)
      moreover have "j' \<notin> set ((fr(d := js)) d')" using h(4) f by auto
      ultimately show ?thesis using live_objectsI[of i' d' ds j' "fr(d := js)" pg] by simp
    qed
  qed
qed

lemma live_put:
  assumes r: "heap_rep k ds pg fr" and i: "i < 9" "d \<in> set (ds i)" and j: "j < slots i"
    and r': "heap_rep k' ds pg (fr(d := j # fr d))"
  shows "live_objects ds pg (fr(d := j # fr d)) = live_objects ds pg fr - {(obj (pg d) (bucket_sizes ! i) j, bucket_sizes ! i)}"
proof -
  have "live_objects ds pg fr = live_objects ds pg ((fr(d := j # fr d))(d := fr d))" by simp
  also have "\<dots> = insert (obj (pg d) (bucket_sizes ! i) j, bucket_sizes ! i) (live_objects ds pg (fr(d := j # fr d)))"
    by (rule live_take(1)[OF r' i]) simp
  finally show ?thesis using live_take(2)[OF r' i, of j "fr d"] by simp
qed

lemma object_range:
  assumes "n < PAGING_PAGES" and "i < 9" and "j < slots i" and "b < bucket_sizes ! i"
  shows "frame_of (obj n (bucket_sizes ! i) j + of_nat b) = frame_of (page_addr n)"
    and "word_of (obj n (bucket_sizes ! i) j + of_nat b) = (bucket_sizes ! i * j + b) div 4"
proof -
  have "obj n (bucket_sizes ! i) j + of_nat b = obj n 1 (bucket_sizes ! i * j + b)" by (simp add: obj_def add.assoc)
  moreover have "1 * (bucket_sizes ! i * j + b) < 4096" using slot_end[OF assms(2,3)] assms(4) by simp
  ultimately show "frame_of (obj n (bucket_sizes ! i) j + of_nat b) = frame_of (page_addr n)"
    "word_of (obj n (bucket_sizes ! i) j + of_nat b) = (bucket_sizes ! i * j + b) div 4"
    using frame_obj[OF assms(1)] word_obj[OF assms(1)] by (metis, metis mult_1)
qed

text \<open>No two live objects share a byte.\<close>

lemma live_apart:
  assumes r: "heap_rep k ds pg fr" and "(p, s) \<in> live_objects ds pg fr" "(q, t) \<in> live_objects ds pg fr"
    and ne: "(p, s) \<noteq> (q, t)"
  shows "{unat p..<unat p + s} \<inter> {unat q..<unat q + t} = {}"
proof -
  obtain i d j where a: "i < 9" "d \<in> set (ds i)" "j < slots i" and p: "p = obj (pg d) (bucket_sizes ! i) j" "s = bucket_sizes ! i"
    using assms(2) by (rule live_objectsE)
  obtain i' d' j' where a': "i' < 9" "d' \<in> set (ds i')" "j' < slots i'" and q: "q = obj (pg d') (bucket_sizes ! i') j'" "t = bucket_sizes ! i'"
    using assms(3) by (rule live_objectsE)
  note n = bucket_parts(1)[OF rep_bucket[OF r a(1,2)]] and n' = bucket_parts(1)[OF rep_bucket[OF r a'(1,2)]]
  have up: "unat p = 4096 * pg d + 1048576 + s * j" "s * j + s \<le> 4096" using unat_obj[OF n] slot_lt[OF a(1,3)] slot_end[OF a(1,3)] p by simp_all
  have uq: "unat q = 4096 * pg d' + 1048576 + t * j'" "t * j' + t \<le> 4096" using unat_obj[OF n'] slot_lt[OF a'(1,3)] slot_end[OF a'(1,3)] q by simp_all
  show ?thesis
  proof (cases "pg d = pg d'")
    case True
    then have "d = d'" using rep_page_eq[OF r a(1) a'(1) a(2) a'(2)] by simp
    then have st: "s = t" "j \<noteq> j'" using rep_apart[OF r, of i i' d] a a' p q ne by auto
    then have "Suc j \<le> j' \<or> Suc j' \<le> j" by linarith
    then have "s * Suc j \<le> s * j' \<or> s * Suc j' \<le> s * j" by (meson mult_le_mono2)
    then show ?thesis using up(1) uq(1) True st(1) by auto
  next
    case False
    then have "Suc (pg d) \<le> pg d' \<or> Suc (pg d') \<le> pg d" by linarith
    then show ?thesis using up uq by auto
  qed
qed


section \<open>The promises of the allocator\<close>

text \<open>
  \<open>pool k L\<close>: the live objects of the state are \<open>L\<close>, pairs of address and size. \<open>kept\<close>: the memory
  of the objects in \<open>L\<close> has not changed.
\<close>

definition pool :: "kmem \<Rightarrow> (u32 \<times> nat) set \<Rightarrow> bool" where
  "pool k L \<longleftrightarrow> (\<exists>ds pg fr. heap_rep k ds pg fr \<and> no_idle ds fr \<and> L = live_objects ds pg fr)"

definition kept_objects :: "(u32 \<times> nat) set \<Rightarrow> kmem \<Rightarrow> kmem \<Rightarrow> bool" where
  "kept_objects L k k' \<longleftrightarrow> (\<forall>(q, t)\<in>L. \<forall>b<t. rd (km k') (q + of_nat b) = rd (km k) (q + of_nat b))"

definition apart :: "u32 \<times> nat \<Rightarrow> u32 \<times> nat \<Rightarrow> bool" where
  "apart x y \<longleftrightarrow> {unat (fst x)..<unat (fst x) + snd x} \<inter> {unat (fst y)..<unat (fst y) + snd y} = {}"

lemma poolI: "heap_rep k ds pg fr \<Longrightarrow> no_idle ds fr \<Longrightarrow> L = live_objects ds pg fr \<Longrightarrow> pool k L"
  unfolding pool_def by blast

lemma poolE:
  assumes "pool k L"
  obtains ds pg fr where "heap_rep k ds pg fr" "no_idle ds fr" "L = live_objects ds pg fr"
  using assms unfolding pool_def by blast

lemma kept_frames:
  assumes r: "heap_rep k ds pg fr"
    and f: "\<And>n. n < PAGING_PAGES \<Longrightarrow> mem_map (km k) n \<noteq> 0 \<Longrightarrow> ram (km k') (frame_of (page_addr n)) = ram (km k) (frame_of (page_addr n))"
  shows "kept_objects (live_objects ds pg fr) k k'"
  unfolding kept_objects_def
proof (clarify)
  fix q t b assume "(q, t) \<in> live_objects ds pg fr" and "b < t"
  then obtain i d j where a: "i < 9" "d \<in> set (ds i)" "j < slots i" and q: "q = obj (pg d) (bucket_sizes ! i) j" "b < bucket_sizes ! i"
    by (elim live_objectsE) auto
  note b = bucket_parts[OF rep_bucket[OF r a(1,2)]]
  have "frame_of (q + of_nat b) = frame_of (page_addr (pg d))" unfolding q(1) by (rule object_range(1)[OF b(1) a(1,3) q(2)])
  moreover have "mem_map (km k) (pg d) \<noteq> 0" using b(2) by simp
  ultimately show "rd (km k') (q + of_nat b) = rd (km k) (q + of_nat b)" using f[OF b(1)] by (intro rd_cong) simp
qed

lemma kept_wr:
  assumes r: "heap_rep k ds pg fr" and x: "(p, s) \<in> live_objects ds pg fr" and m: "ram (km k') = ram (wr p v (km k))"
  shows "kept_objects (live_objects ds pg fr - {(p, s)}) k k'"
  unfolding kept_objects_def
proof (clarify)
  fix q t b assume l: "(q, t) \<in> live_objects ds pg fr" and bt: "b < t" and ne: "\<not> (q = p \<and> t = s)"
  from l obtain i d j where a: "i < 9" "d \<in> set (ds i)" "j < slots i" and q: "q = obj (pg d) (bucket_sizes ! i) j" "t = bucket_sizes ! i"
    by (rule live_objectsE)
  from x obtain i' d' j' where a': "i' < 9" "d' \<in> set (ds i')" "j' < slots i'" and p: "p = obj (pg d') (bucket_sizes ! i') j'" "s = bucket_sizes ! i'"
    by (rule live_objectsE)
  note n = bucket_parts(1)[OF rep_bucket[OF r a(1,2)]] and n' = bucket_parts(1)[OF rep_bucket[OF r a'(1,2)]]
  have bs: "b < bucket_sizes ! i" using bt q by simp
  have "frame_of p = frame_of (page_addr (pg d'))" "word_of p = s * j' div 4"
    using p slot_lt[OF a'(1,3)] by (simp_all add: frame_obj n' word_obj)
  moreover have "frame_of (q + of_nat b) = frame_of (page_addr (pg d))" "word_of (q + of_nat b) = (t * j + b) div 4"
    using object_range[OF n a(1,3) bs] q by simp_all
  moreover have "s * j' div 4 \<noteq> (t * j + b) div 4" if "pg d = pg d'"
  proof -
    have "d = d'" using that rep_page_eq[OF r a(1) a'(1) a(2) a'(2)] by simp
    then have st: "s = t" "j \<noteq> j'" using rep_apart[OF r, of i i' d] a a' p q ne by auto
    obtain c where c: "t = 4 * c" using size_facts(2)[OF a(1)] q(2) by (auto simp: dvd_def)
    have "(4 * (c * j) + b) div 4 = c * j + b div 4" by simp
    then have e: "(t * j + b) div 4 = c * j + b div 4" "s * j' div 4 = c * j'" using c st(1) by (simp_all add: mult.assoc)
    have "b div 4 < c" using bt c by (simp add: div_less_iff_less_mult)
    moreover have "Suc j \<le> j' \<or> Suc j' \<le> j" using st(2) by linarith
    then have "c * Suc j \<le> c * j' \<or> c * Suc j' \<le> c * j" by (meson mult_le_mono2)
    ultimately show ?thesis unfolding e by auto
  qed
  ultimately show "rd (km k') (q + of_nat b) = rd (km k) (q + of_nat b)"
    using m n n' by (cases "pg d = pg d'") (simp_all add: rd_def wr_def frame_page_inj)
qed

text \<open>The least bucket size that holds the request.\<close>

lemma find_size_least:
  assumes "len \<le> 4096"
  obtains i where "find_size len = Some i" "i < 9" "len \<le> bucket_sizes ! i" "\<And>j. j < i \<Longrightarrow> bucket_sizes ! j < len"
proof -
  have "find_size len \<noteq> None" using assms unfolding find_size_def find_None_iff by (auto intro!: exI[of _ 8] simp: bucket_sizes_def)
  then obtain i where i: "find_size len = Some i" by blast
  then obtain m where "m < 9" "len \<le> bucket_sizes ! m" "i = m" "\<forall>j<m. \<not> len \<le> bucket_sizes ! j"
    unfolding find_size_def find_Some_iff by (auto simp del: upt_Suc)
  then show thesis using that i by (simp add: not_le)
qed

lemma take_desc_rep:
  assumes r: "heap_rep k ds pg fr" and c: "2 \<le> card (free_frames (km k))"
  obtains k1 d fl where "heap_rep k1 (ds(9 := d # fl)) pg fr" "free_frames (km k1) \<noteq> {}"
    and "take_desc (Suc fuel) k = take_desc (Suc fuel) k1"
    and "km_chain k1 = km_chain k"
    and "\<And>n. n < PAGING_PAGES \<Longrightarrow> mem_map (km k) n \<noteq> 0 \<Longrightarrow> mem_map (km k1) n \<noteq> 0 \<and> ram (km k1) (frame_of (page_addr n)) = ram (km k) (frame_of (page_addr n))"
proof (cases "ds 9")
  case (Cons d fl)
  then have "ds(9 := d # fl) = ds" by auto
  moreover have "free_frames (km k) \<noteq> {}" using c by (metis card.empty not_numeral_le_zero)
  ultimately show thesis using that[of k d fl] r by simp
next
  case Nil
  have "free_frames (km k) \<noteq> {}" using c by (metis card.empty not_numeral_le_zero)
  from init_descs[OF r Nil this, of fuel] obtain n k1 where n: "n \<in> free_frames (km k)" and i: "init_bucket_desc (Suc fuel) k = Inr k1"
    and m: "km k1 = fresh_page n (km k)" and ch: "km_chain k1 = km_chain k"
    and rep: "heap_rep k1 (ds(9 := [256 * n..<256 * n + 256])) pg fr" by blast
  have ne: "[256 * n..<256 * n + 256] = 256 * n # [Suc (256 * n)..<256 * n + 256]" by (simp add: upt_conv_Cons)
  have f: "free_frames (km k1) \<noteq> {}"
  proof
    assume "free_frames (km k1) = {}"
    then have "free_frames (km k) \<subseteq> {n}" by (auto simp: m free_frames_fresh)
    then have "card (free_frames (km k)) \<le> card {n}" by (rule card_mono[rotated]) simp
    with c show False by simp
  qed
  have e: "km_free k = None" using rep_chain[OF r, of 9] Nil by (simp add: head_def)
  have s: "km_free k1 = Some (256 * n)" using rep_chain[OF rep, of 9] unfolding fun_upd_same ne by (simp add: head_def)
  show thesis
  proof (rule that[of k1 "256 * n" "[Suc (256 * n)..<256 * n + 256]", OF _ f _ ch])
    show "heap_rep k1 (ds(9 := 256 * n # [Suc (256 * n)..<256 * n + 256])) pg fr" using rep unfolding ne .
    show "take_desc (Suc fuel) k = take_desc (Suc fuel) k1" by (simp add: take_desc_def i e s)
    show "mem_map (km k1) l \<noteq> 0 \<and> ram (km k1) (frame_of (page_addr l)) = ram (km k) (frame_of (page_addr l))"
      if "l < PAGING_PAGES" "mem_map (km k) l \<noteq> 0" for l
      using that n by (auto simp: m ram_set_page frame_page_inj free_frames_def)
  qed
qed


lemma new_bucket_rep:
  assumes r: "heap_rep k ds pg fr" and c: "2 \<le> card (free_frames (km k))" and i: "i < 9"
  obtains d k' ds' n where "new_bucket (Suc fuel) i k = Inr (d, k')" "bd_freeptr (km_desc k' d) \<noteq> 0"
    and "heap_rep k' ds' (pg(d := n)) (fr(d := [0..<slots i]))"
    and "ds' i = d # ds i" "\<And>j. j < 9 \<Longrightarrow> j \<noteq> i \<Longrightarrow> ds' j = ds j" "\<And>j. j < 9 \<Longrightarrow> d \<notin> set (ds j)"
    and "\<And>n. n < PAGING_PAGES \<Longrightarrow> mem_map (km k) n \<noteq> 0 \<Longrightarrow> ram (km k') (frame_of (page_addr n)) = ram (km k) (frame_of (page_addr n))"
proof -
  obtain k1 d fl where r1: "heap_rep k1 (ds(9 := d # fl)) pg fr" and f1: "free_frames (km k1) \<noteq> {}"
    and t: "take_desc (Suc fuel) k = take_desc (Suc fuel) k1"
    and k1: "\<And>n. n < PAGING_PAGES \<Longrightarrow> mem_map (km k) n \<noteq> 0 \<Longrightarrow> mem_map (km k1) n \<noteq> 0 \<and> ram (km k1) (frame_of (page_addr n)) = ram (km k) (frame_of (page_addr n))"
    using take_desc_rep[OF r c] by metis
  let ?ds = "ds(9 := d # fl)"
  have u: "?ds 9 = d # fl" by simp
  obtain n k' where n: "n \<in> free_frames (km k1)" and nb: "new_bucket (Suc fuel) i k1 = Inr (d, k')"
    and p: "bd_freeptr (km_desc k' d) \<noteq> 0"
    and rep: "heap_rep k' (?ds(9 := fl, i := d # ?ds i)) (pg(d := n)) (fr(d := [0..<slots i]))"
    and "mem_map (km k') = (mem_map (km k1))(n := 1)"
    and ram: "\<And>f. f \<noteq> frame_of (page_addr n) \<Longrightarrow> ram (km k') f = ram (km k1) f"
    using new_bucket_listed[OF r1 i u f1, of fuel] by metis
  have "new_bucket (Suc fuel) i k = new_bucket (Suc fuel) i k1" by (simp only: new_bucket_def t)
  then have nb': "new_bucket (Suc fuel) i k = Inr (d, k')" using nb by simp
  show thesis
  proof (rule that[OF nb' p rep])
    show "d \<notin> set (ds j)" if "j < 9" for j using rep_apart[OF r1, of j 9 d] that by auto
    fix m assume m: "m < PAGING_PAGES" "mem_map (km k) m \<noteq> 0"
    then have "m \<noteq> n" using k1[OF m] n by (auto simp: free_frames_def)
    then have "frame_of (page_addr m) \<noteq> frame_of (page_addr n)" using m(1) n by (simp add: frame_page_inj free_frames_def)
    then show "ram (km k') (frame_of (page_addr m)) = ram (km k) (frame_of (page_addr m))" using ram k1[OF m] by simp
  qed (use i in auto)
qed

lemma live_new:
  assumes i: "i < 9" and "ds' i = d # ds i" "\<And>j. j < 9 \<Longrightarrow> j \<noteq> i \<Longrightarrow> ds' j = ds j" "\<And>j. j < 9 \<Longrightarrow> d \<notin> set (ds j)"
  shows "live_objects ds' (pg(d := n)) (fr(d := [0..<slots i])) = live_objects ds pg fr"
proof (intro set_eqI iffI)
  fix x assume "x \<in> live_objects ds' (pg(d := n)) (fr(d := [0..<slots i]))"
  then obtain i' d' j' where h: "i' < 9" "d' \<in> set (ds' i')" "j' < slots i'" "j' \<notin> set ((fr(d := [0..<slots i])) d')"
    "x = (obj ((pg(d := n)) d') (bucket_sizes ! i') j', bucket_sizes ! i')" by (cases x) (auto elim: live_objectsE)
  have "d' \<noteq> d" using h assms by (cases "i' = i") auto
  moreover from this have "d' \<in> set (ds i')" using h(1,2) assms by (cases "i' = i") auto
  ultimately show "x \<in> live_objects ds pg fr" using h live_objectsI[of i' d' ds j' fr pg] by simp
next
  fix x assume "x \<in> live_objects ds pg fr"
  then obtain i' d' j' where h: "i' < 9" "d' \<in> set (ds i')" "j' < slots i'" "j' \<notin> set (fr d')"
    "x = (obj (pg d') (bucket_sizes ! i') j', bucket_sizes ! i')" by (cases x) (auto elim: live_objectsE)
  then have "d' \<noteq> d" "d' \<in> set (ds' i')" using assms by (auto, metis list.set_intros(2))
  then show "x \<in> live_objects ds' (pg(d := n)) (fr(d := [0..<slots i]))"
    using h live_objectsI[of i' d' ds' j' "fr(d := [0..<slots i])" "pg(d := n)"] by simp
qed

lemma malloc_pool:
  assumes P: "pool k L" and len: "len \<le> 4096" and c: "2 \<le> card (free_frames (km k))" and fuel: "PAGING_PAGES < fuel"
  obtains p s k' where "malloc fuel len k = Inr (p, k')" and "len \<le> s" and "(p, s) \<notin> L"
    and "pool k' (insert (p, s) L)" and "kept_objects L k k'"
proof -
  obtain ds pg fr where r: "heap_rep k ds pg fr" and idle: "no_idle ds fr" and L: "L = live_objects ds pg fr"
    using P by (auto simp: pool_def)
  obtain i where fs: "find_size len = Some i" and i: "i < 9" and li: "len \<le> bucket_sizes ! i" using find_size_least[OF len] by metis
  obtain f where f: "fuel = Suc f" using fuel by (cases fuel) auto
  have room: "find_room fuel k (km_chain k i) = Inr (find (\<lambda>d. bd_freeptr (km_desc k d) \<noteq> 0) (ds i))"
    using find_room_chain[of k "km_chain k i" "ds i" fuel] rep_chain[OF r, of i] chain_short[OF r i] i fuel by (simp add: head_def)
  obtain d k1 ds' pg' fr' where h: "(case find (\<lambda>d. bd_freeptr (km_desc k d) \<noteq> 0) (ds i) of Some d \<Rightarrow> Inr (d, k) | None \<Rightarrow> new_bucket fuel i k) = Inr (d, k1)"
    and r1: "heap_rep k1 ds' pg' fr'" and d: "d \<in> set (ds' i)" "bd_freeptr (km_desc k1 d) \<noteq> 0"
    and idle1: "\<And>j e. j < 9 \<Longrightarrow> e \<in> set (ds' j) \<Longrightarrow> e \<noteq> d \<Longrightarrow> length (fr' e) < slots j"
    and L1: "L = live_objects ds' pg' fr'" and kept: "kept_objects L k k1"
  proof (cases "find (\<lambda>d. bd_freeptr (km_desc k d) \<noteq> 0) (ds i)")
    case (Some d)
    then have "d \<in> set (ds i) \<and> bd_freeptr (km_desc k d) \<noteq> 0" by (auto simp: find_Some_iff)
    then show thesis using that[where d = d and ds' = ds and pg' = pg and fr' = fr] Some r idle L by (auto simp: no_idle_def kept_objects_def)
  next
    case None
    obtain d k1 ds' n where nb: "new_bucket (Suc f) i k = Inr (d, k1)" "bd_freeptr (km_desc k1 d) \<noteq> 0"
      and rep: "heap_rep k1 ds' (pg(d := n)) (fr(d := [0..<slots i]))"
      and ds: "ds' i = d # ds i" "\<And>j. j < 9 \<Longrightarrow> j \<noteq> i \<Longrightarrow> ds' j = ds j" "\<And>j. j < 9 \<Longrightarrow> d \<notin> set (ds j)"
      and ram: "\<And>n. n < PAGING_PAGES \<Longrightarrow> mem_map (km k) n \<noteq> 0 \<Longrightarrow> ram (km k1) (frame_of (page_addr n)) = ram (km k) (frame_of (page_addr n))"
      using new_bucket_rep[OF r c i, of f] by metis
    have "length ((fr(d := [0..<slots i])) e) < slots j" if "j < 9" "e \<in> set (ds' j)" "e \<noteq> d" for j e
      using idle that ds by (cases "j = i") (auto simp: no_idle_def)
    then show thesis
      using that[where d = d and ds' = ds' and pg' = "pg(d := n)" and fr' = "fr(d := [0..<slots i])"] None nb rep ds(1) f
        live_new[of i ds' d ds pg n fr] i ds L kept_frames[OF r ram] by simp
  qed
  obtain j js where fr': "fr' d = j # js" and p: "bd_freeptr (km_desc k1 d) = obj (pg' d) (bucket_sizes ! i) j"
    and r2: "heap_rep (upd_desc d (\<lambda>b. b\<lparr>bd_freeptr := rd (km k1) (bd_freeptr (km_desc k1 d)), bd_refcnt := bd_refcnt b + 1\<rparr>) k1) ds' pg' (fr'(d := js))"
    by (rule take_object[OF r1 i d])
  let ?k2 = "upd_desc d (\<lambda>b. b\<lparr>bd_freeptr := rd (km k1) (bd_freeptr (km_desc k1 d)), bd_refcnt := bd_refcnt b + 1\<rparr>) k1"
  note lt = live_take[where pg = pg', OF r1 i d(1) fr']
  have "length js < slots i" using bucket_length[OF rep_bucket[OF r1 i d(1)]] fr' by simp
  moreover have "j' = i" if "j' < 9" "d \<in> set (ds' j')" for j' using rep_apart[OF r1, of j' i d] that i d(1) by auto
  ultimately have "length ((fr'(d := js)) e) < slots l" if "l < 9" "e \<in> set (ds' l)" for l e
    using idle1[OF that] that by (cases "e = d") simp_all
  then have "no_idle ds' (fr'(d := js))" by (simp add: no_idle_def del: fun_upd_apply)
  then have pool: "pool ?k2 (insert (obj (pg' d) (bucket_sizes ! i) j, bucket_sizes ! i) L)"
    using poolI[OF r2] lt(1) L1 by simp
  have malloc: "malloc fuel len k = Inr (obj (pg' d) (bucket_sizes ! i) j, ?k2)"
    using h unfolding malloc_def fs option.case room kbind.simps by (simp add: p Let_def)
  have kept2: "kept_objects L k ?k2" using kept by (simp add: kept_objects_def)
  have "(obj (pg' d) (bucket_sizes ! i) j, bucket_sizes ! i) \<notin> L" using lt(2) L1 by simp
  from that[OF malloc li this pool kept2] show thesis .
qed

lemma pool_apart:
  assumes "pool k L" "x \<in> L" "y \<in> L" "x \<noteq> y"
  shows "apart x y"
proof -
  obtain ds pg fr where r: "heap_rep k ds pg fr" and L: "L = live_objects ds pg fr" using assms(1) by (auto simp: pool_def)
  from live_apart[OF r, of "fst x" "snd x" "fst y" "snd y"] assms(2-) L show ?thesis by (simp add: apart_def)
qed


text \<open>A released object is gone; its page goes back when it was the last one on it.\<close>

lemma live_drop:
  assumes i: "i < 9" "d \<in> set (ds i)" and full: "{..<slots i} \<subseteq> set (fr d)"
    and ds': "\<And>j. j < 9 \<Longrightarrow> set (ds' j) = set (ds j) - {d}" and u: "\<And>j. j < 9 \<Longrightarrow> d \<in> set (ds j) \<Longrightarrow> j = i"
  shows "live_objects ds' pg fr = live_objects ds pg fr"
proof (intro set_eqI iffI)
  fix x assume "x \<in> live_objects ds' pg fr"
  then show "x \<in> live_objects ds pg fr" using ds' unfolding live_objects_def by blast
next
  fix x assume "x \<in> live_objects ds pg fr"
  then obtain j e l where h: "j < 9" "e \<in> set (ds j)" "l < slots j" "l \<notin> set (fr e)"
    "x = (obj (pg e) (bucket_sizes ! j) l, bucket_sizes ! j)" by (cases x) (auto elim: live_objectsE)
  have "e \<noteq> d" using full u[OF h(1)] h by auto
  then have "e \<in> set (ds' j)" using ds'[OF h(1)] h(2) by simp
  then show "x \<in> live_objects ds' pg fr" using h unfolding live_objects_def by blast
qed

lemma free_s_pool:
  assumes P: "pool k L" and x: "(p, s) \<in> L" and size': "size' \<le> int s" and fuel: "PAGING_PAGES < fuel"
  obtains k' where "free_s fuel p size' k = Inr k'" and "pool k' (L - {(p, s)})" and "kept_objects (L - {(p, s)}) k k'"
proof -
  obtain ds pg fr where r: "heap_rep k ds pg fr" and idle: "no_idle ds fr" and L: "L = live_objects ds pg fr"
    using P by (rule poolE)
  obtain i d j where i: "i < 9" "d \<in> set (ds i)" and j: "j < slots i" "j \<notin> set (fr d)"
    and p: "p = obj (pg d) (bucket_sizes ! i) j" and s: "s = bucket_sizes ! i"
    using x unfolding L by (rule live_objectsE)
  note b = bucket_parts[OF rep_bucket[OF r i]]
  have fd: "find_desc fuel k (p AND PAGE_MASK) size' [0..<9] = Inr (i, before None (ds i) d, d)"
    using find_desc_finds[OF r i _ fuel] size' s page_obj[OF b(1) slot_lt[OF i(1) j(1)]] p by simp
  let ?m = "wr p (bd_freeptr (km_desc k d)) (km k)"
  let ?k2 = "upd_desc d (\<lambda>b. b\<lparr>bd_freeptr := p, bd_refcnt := bd_refcnt b - 1\<rparr>) (k\<lparr>km := ?m\<rparr>)"
  note put = put_object[OF r i j p]
  have live: "live_objects ds pg (fr(d := j # fr d)) = L - {(p, s)}" using live_put[OF r i j(1) put(1)] L p s by simp
  have kept: "kept_objects (L - {(p, s)}) k ?k2" unfolding L by (rule kept_wr[OF r]) (use x L in simp_all)
  have only: "l = i" if "l < 9" "d \<in> set (ds l)" for l using rep_apart[OF r, of l i d] that i by auto
  have idle2: "length ((fr(d := j # fr d)) e) < slots l" if "l < 9" "e \<in> set (ds l)" "e \<noteq> d" for l e
    using idle that by (simp add: no_idle_def)
  have fs: "free_s fuel p size' k = (if bd_refcnt (km_desc k d) - 1 = 0 then drop_bucket fuel i (before None (ds i) d) d ?k2 else Inr ?k2)"
    by (simp add: free_s_def fd Let_def)
  show thesis
  proof (cases "bd_refcnt (km_desc k d) - 1 = 0")
    case False
    then have "Suc (length (fr d)) < slots i" using put(2,3) unfolding word_unat_eq_iff by simp
    then have "length ((fr(d := j # fr d)) e) < slots l" if "l < 9" "e \<in> set (ds l)" for l e
      using idle2[OF that] only that by (cases "e = d") auto
    then have "no_idle ds (fr(d := j # fr d))" by (simp add: no_idle_def del: fun_upd_apply)
    from poolI[OF put(1) this] have "pool ?k2 (L - {(p, s)})" using live by simp
    then show thesis using that[of ?k2] fs False kept by simp
  next
    case True
    then have "Suc (length (fr d)) = slots i" using put(2,3) unfolding word_unat_eq_iff by simp
    moreover have "distinct (j # fr d)" "set (j # fr d) \<subseteq> {..<slots i}" using b(5,6) j by auto
    ultimately have full: "{..<slots i} \<subseteq> set ((fr(d := j # fr d)) d)"
      by (metis card_lessThan card_subset_eq distinct_card finite_lessThan fun_upd_same length_Cons order_refl)
    obtain k3 where k3: "drop_bucket fuel i (before None (ds i) d) d ?k2 = Inr k3"
      and rep: "heap_rep k3 (ds(i := remove1 d (ds i), 9 := d # ds 9)) pg (fr(d := j # fr d))"
      and "mem_map (km k3) = (mem_map (km ?k2))(pg d := 0)" and ram: "ram (km k3) = ram (km ?k2)"
      by (rule drop_idle[OF put(1) i, of fuel])
    let ?ds = "ds(i := remove1 d (ds i), 9 := d # ds 9)"
    have sd: "set (?ds l) = set (ds l) - {d}" if "l < 9" for l
      using only[OF that] that i(1) rep_distinct[OF r, of i] by (cases "l = i") auto
    have "length ((fr(d := j # fr d)) e) < slots l" if "l < 9" "e \<in> set (?ds l)" for l e
      using idle2[OF that(1), of e] that(2) unfolding sd[OF that(1)] by blast
    then have "no_idle ?ds (fr(d := j # fr d))" unfolding no_idle_def by blast
    moreover have "live_objects ?ds pg (fr(d := j # fr d)) = L - {(p, s)}"
      unfolding live[symmetric] by (rule live_drop[of i d ds "fr(d := j # fr d)" ?ds pg, OF i full sd only])
    ultimately have "pool k3 (L - {(p, s)})" by (intro poolI[OF rep]) (simp_all only:)
    moreover have "kept_objects (L - {(p, s)}) k k3" using kept ram by (simp add: kept_objects_def rd_def)
    ultimately show thesis using that[of k3] fs True k3 by simp
  qed
qed

text \<open>With no live object every chain is empty: all pages of objects have gone back.\<close>

lemma pool_empty:
  assumes "pool k {}" and "i < 9"
  shows "km_chain k i = None"
proof -
  obtain ds pg fr where r: "heap_rep k ds pg fr" and idle: "no_idle ds fr" and L: "{} = live_objects ds pg fr"
    using assms(1) by (rule poolE)
  have "ds i = []"
  proof (rule ccontr)
    assume "ds i \<noteq> []"
    then obtain d where d: "d \<in> set (ds i)" by (cases "ds i") auto
    then have "length (fr d) < slots i" using idle assms(2) by (simp add: no_idle_def)
    then have "\<not> {..<slots i} \<subseteq> set (fr d)"
      by (metis card_length card_lessThan card_mono finite_set leD le_trans)
    then obtain j where "j < slots i" "j \<notin> set (fr d)" by auto
    from live_objectsI[of i d ds j fr pg] assms(2) d this L show False by auto
  qed
  then show ?thesis using rep_chain[OF r, of i] assms(2) by (simp add: head_def)
qed


text \<open>Before the first call there is no descriptor.\<close>

definition kmem_start :: "mm \<Rightarrow> kmem" where
  "kmem_start m = \<lparr>km = m, km_desc = (\<lambda>_. zero_desc), km_chain = (\<lambda>_. None), km_free = None\<rparr>"

lemma pool_start: "mm_ok m \<Longrightarrow> pool (kmem_start m) {}"
  by (rule poolI[of _ "\<lambda>_. []" "\<lambda>_. 0" "\<lambda>_. []"])
    (auto simp: heap_rep_def no_idle_def live_objects_def kmem_start_def head_def used_descs_def)

section \<open>An allocator of addresses\<close>

text \<open>The live objects are a function of the state, so the interface of allocators applies.\<close>

lemma chain_unique: "chain f h cs \<Longrightarrow> chain f h cs' \<Longrightarrow> cs = cs'"
proof (induction cs arbitrary: h cs')
  case Nil
  then show ?case by (cases cs') auto
next
  case (Cons c cs)
  then show ?case by (cases cs') auto
qed

lemma free_list_unique:
  assumes "n < PAGING_PAGES" and "i < 9"
  shows "free_list m n (bucket_sizes ! i) p js \<Longrightarrow> free_list m n (bucket_sizes ! i) p js' \<Longrightarrow>
    (\<And>j. j \<in> set js \<Longrightarrow> j < slots i) \<Longrightarrow> (\<And>j. j \<in> set js' \<Longrightarrow> j < slots i) \<Longrightarrow> js = js'"
proof (induction js arbitrary: p js')
  case Nil
  then show ?case using obj_nonzero[OF assms(1)] slot_lt[OF assms(2)] by (cases js') force+
next
  case (Cons j js)
  show ?case
  proof (cases js')
    case Nil
    then show ?thesis using Cons.prems obj_nonzero[OF assms(1)] slot_lt[OF assms(2)] by force
  next
    case (Cons l ls)
    then have "j = l" using Cons.prems obj_eq[OF assms(1,1,2), of j l] by simp
    moreover have "js = ls" by (rule Cons.IH[of "rd m p" ls]) (use Cons.prems Cons in auto)
    ultimately show ?thesis using Cons by simp
  qed
qed

lemma live_mono:
  assumes "\<And>i. i < 9 \<Longrightarrow> ds i = ds' i" and "\<And>i d. i < 9 \<Longrightarrow> d \<in> set (ds i) \<Longrightarrow> pg d = pg' d \<and> fr d = fr' d"
  shows "live_objects ds pg fr \<subseteq> live_objects ds' pg' fr'"
proof (rule subrelI)
  fix p s assume "(p, s) \<in> live_objects ds pg fr"
  then obtain i d j where h: "i < 9" "d \<in> set (ds i)" "j < slots i" "j \<notin> set (fr d)"
    "p = obj (pg d) (bucket_sizes ! i) j" "s = bucket_sizes ! i" by (rule live_objectsE)
  then show "(p, s) \<in> live_objects ds' pg' fr'"
    using assms(1)[OF h(1)] assms(2)[OF h(1,2)] live_objectsI[of i d ds' j fr' pg'] by simp
qed

lemma pool_unique:
  assumes "pool k L" and "pool k L'"
  shows "L = L'"
proof -
  obtain ds pg fr where r: "heap_rep k ds pg fr" and L: "L = live_objects ds pg fr" using assms(1) by (rule poolE)
  obtain ds' pg' fr' where r': "heap_rep k ds' pg' fr'" and L': "L' = live_objects ds' pg' fr'" using assms(2) by (rule poolE)
  have ds: "ds i = ds' i" if "i < 9" for i using chain_unique[OF rep_chain[OF r, of i]] rep_chain[OF r', of i] that by simp
  have same: "pg d = pg' d \<and> fr d = fr' d" if "i < 9" "d \<in> set (ds i)" for i d
  proof -
    note b = bucket_parts[OF rep_bucket[OF r that]]
    have "d \<in> set (ds' i)" using that ds by simp
    note b' = bucket_parts[OF rep_bucket[OF r' that(1) this]]
    have p: "pg d = pg' d" using b(1,3) b'(1,3) by (metis MAP_NR_page)
    from free_list_unique[OF b(1) that(1) b(4) b'(4)[folded p] b(6) b'(6)] p show ?thesis by simp
  qed
  have "L \<subseteq> L'" unfolding L L' by (rule live_mono) (use ds same in auto)
  moreover have "L' \<subseteq> L" unfolding L L' by (rule live_mono) (use ds same in auto)
  ultimately show ?thesis by blast
qed

definition live_addrs :: "kmem \<Rightarrow> nat set" where
  "live_addrs k = {unat p | p s L. pool k L \<and> (p, s) \<in> L}"

definition heap_ok :: "kmem \<Rightarrow> bool" where "heap_ok k \<longleftrightarrow> (\<exists>L. pool k L)"

definition obj_alloc :: "nat \<Rightarrow> kmem \<Rightarrow> (nat \<times> kmem) option" where
  "obj_alloc len k =
     (if 2 \<le> card (free_frames (km k)) \<and> len \<le> 4096
      then case malloc (Suc PAGING_PAGES) len k of Inr (p, k') \<Rightarrow> Some (unat p, k') | Inl _ \<Rightarrow> None
      else None)"

definition obj_release :: "kmem \<Rightarrow> nat \<Rightarrow> kmem option" where
  "obj_release k n = (case free_s (Suc PAGING_PAGES) (of_nat n) 0 k of Inr k' \<Rightarrow> Some k' | Inl _ \<Rightarrow> None)"

lemma live_addrs_pool:
  assumes "pool k L"
  shows "live_addrs k = (\<lambda>(p, s). unat p) ` L"
proof -
  have "pool k L' \<longleftrightarrow> L' = L" for L' using assms pool_unique by blast
  then have "live_addrs k = {unat p | p s. (p, s) \<in> L}" by (simp add: live_addrs_def)
  also have "\<dots> = (\<lambda>(p, s). unat p) ` L" by force
  finally show ?thesis .
qed

lemma pool_sizes: "pool k L \<Longrightarrow> (p, s) \<in> L \<Longrightarrow> 0 < s"
  by (elim poolE) (auto elim!: live_objectsE dest: size_facts(1))

lemma pool_addr_inj:
  assumes "pool k L" "(p, s) \<in> L" "(q, t) \<in> L" "unat p = unat q"
  shows "(p, s) = (q, t)"
proof (rule ccontr)
  assume "(p, s) \<noteq> (q, t)"
  from pool_apart[OF assms(1-3) this] pool_sizes[OF assms(1,2)] pool_sizes[OF assms(1,3)] assms(4)
  show False by (auto simp: apart_def)
qed

interpretation objects: allocator live_addrs heap_ok "obj_alloc len" obj_release for len
proof
  fix k n k'
  assume "heap_ok k"
  then obtain L where L: "pool k L" by (auto simp: heap_ok_def)
  {
    assume a: "obj_alloc len k = Some (n, k')"
    then have "len \<le> 4096" "2 \<le> card (free_frames (km k))" by (auto simp: obj_alloc_def split: if_splits)
    then obtain p s k1 where m: "malloc (Suc PAGING_PAGES) len k = Inr (p, k1)" and f: "(p, s) \<notin> L"
      and P: "pool k1 (insert (p, s) L)" using malloc_pool[OF L, of len "Suc PAGING_PAGES"] by blast
    have n: "n = unat p" "k' = k1" using a m by (auto simp: obj_alloc_def split: if_splits)
    show "n \<notin> live_addrs k"
    proof
      assume "n \<in> live_addrs k"
      then obtain q t where "(q, t) \<in> L" "unat q = unat p" using n by (auto simp: live_addrs_pool[OF L])
      with pool_addr_inj[OF P, of q t p s] f show False by auto
    qed
    show "live_addrs k' = insert n (live_addrs k)" using n by (simp add: live_addrs_pool[OF L] live_addrs_pool[OF P])
    show "heap_ok k'" using P n by (auto simp: heap_ok_def)
  next
    assume "n \<in> live_addrs k" and f: "obj_release k n = Some k'"
    then obtain p s where p: "(p, s) \<in> L" "n = unat p" by (auto simp: live_addrs_pool[OF L])
    obtain k1 where k1: "free_s (Suc PAGING_PAGES) p 0 k = Inr k1" and P: "pool k1 (L - {(p, s)})"
      using free_s_pool[OF L p(1), of 0 "Suc PAGING_PAGES"] by auto
    have k': "k' = k1" using f k1 p(2) by (simp add: obj_release_def)
    have "(\<lambda>(p, s). unat p) ` (L - {(p, s)}) = (\<lambda>(p, s). unat p) ` L - {n}"
      using pool_addr_inj[OF L _ p(1)] p(2) by force
    then show "live_addrs k' = live_addrs k - {n}" using k' by (simp add: live_addrs_pool[OF L] live_addrs_pool[OF P])
    show "heap_ok k'" using P k' by (auto simp: heap_ok_def)
  }
qed

end
