(* ===== verification/Tty.thy ===== *)
theory Tty
  imports ProcTree
begin

text \<open>
  Terminals (\<open>include/linux/tty.h\<close>, \<open>kernel/chr_drv/tty_io.c\<close>, \<open>pty.c\<close>, \<open>serial.c\<close>, with the character
  classes of \<open>lib/ctype.c\<close>): the three ring buffers of a terminal, the line discipline that turns what
  is typed into lines, reading and writing, and the pairs of pseudo terminals. \<open>TtyLine\<close> has what
  they promise. The console driver is a parameter here; its model is \<open>Console\<close>.
\<close>

section \<open>Queues\<close>

definition TTY_BUF_SIZE :: nat where "TTY_BUF_SIZE = 1024"

record tty_queue =
  q_data :: u32
  q_head :: u32
  q_tail :: u32
  q_buf :: "nat \<Rightarrow> u8"

definition INC :: "u32 \<Rightarrow> u32" where "INC a = (a + 1) AND 0x3FF"
definition DEC :: "u32 \<Rightarrow> u32" where "DEC a = (a - 1) AND 0x3FF"
definition EMPTY :: "tty_queue \<Rightarrow> bool" where "EMPTY q \<longleftrightarrow> q_head q = q_tail q"
definition LEFT :: "tty_queue \<Rightarrow> u32" where "LEFT q = (q_tail q - q_head q - 1) AND 0x3FF"
definition LAST :: "tty_queue \<Rightarrow> u8" where "LAST q = q_buf q (unat (0x3FF AND (q_head q - 1)))"
definition FULL :: "tty_queue \<Rightarrow> bool" where "FULL q \<longleftrightarrow> LEFT q = 0"
definition CHARS :: "tty_queue \<Rightarrow> u32" where "CHARS q = (q_head q - q_tail q) AND 0x3FF"

definition GETCH :: "tty_queue \<Rightarrow> u8 \<times> tty_queue" where
  "GETCH q = (q_buf q (unat (q_tail q)), q\<lparr>q_tail := INC (q_tail q)\<rparr>)"

definition PUTCH :: "u8 \<Rightarrow> tty_queue \<Rightarrow> tty_queue" where
  "PUTCH c q = q\<lparr>q_buf := (q_buf q)(unat (q_head q) := c), q_head := INC (q_head q)\<rparr>"

section \<open>Terminals\<close>

record termios =
  c_iflag :: u32
  c_oflag :: u32
  c_cflag :: u32
  c_lflag :: u32
  c_line :: u8
  c_cc :: "nat \<Rightarrow> u8"

text \<open>The pointer \<open>write\<close> of \<open>tty_struct\<close>; \<open>tt_queues\<close> tells whether the three queues are there.\<close>

datatype tty_driver = NoDriver | ConWrite | RsWrite | MptyWrite | SptyWrite

record tty_struct =
  termios :: termios
  tt_pgrp :: int
  tt_session :: int
  tt_stopped :: bool
  tt_write :: tty_driver
  tt_queues :: bool
  read_q :: tty_queue
  write_q :: tty_queue
  secondary :: tty_queue

text \<open>Effects outside the terminals: queues whose sleepers are woken, a transmitter switched on.\<close>

datatype tty_event = WakeRead nat | WakeWrite nat | WakeSecondary nat | EnableTransmit nat

record tty_state =
  ts_kern :: kernel
  tty_table :: "nat \<Rightarrow> tty_struct"
  fg_console :: nat
  cr_flag :: bool
  ts_events :: "tty_event list"

definition VINTR :: nat where "VINTR = 0"
definition VQUIT :: nat where "VQUIT = 1"
definition VERASE :: nat where "VERASE = 2"
definition VKILL :: nat where "VKILL = 3"
definition VEOF :: nat where "VEOF = 4"
definition VTIME :: nat where "VTIME = 5"
definition VMIN :: nat where "VMIN = 6"
definition VSTART :: nat where "VSTART = 8"
definition VSTOP :: nat where "VSTOP = 9"
definition VSUSP :: nat where "VSUSP = 10"

lemmas cc_index = VINTR_def VQUIT_def VERASE_def VKILL_def VEOF_def VTIME_def VMIN_def VSTART_def VSTOP_def VSUSP_def

text \<open>Flags of the four mode words.\<close>

definition I_UCLC :: "tty_struct \<Rightarrow> bool" where "I_UCLC t \<longleftrightarrow> c_iflag (termios t) AND 512 \<noteq> 0"
definition I_NLCR :: "tty_struct \<Rightarrow> bool" where "I_NLCR t \<longleftrightarrow> c_iflag (termios t) AND 64 \<noteq> 0"
definition I_CRNL :: "tty_struct \<Rightarrow> bool" where "I_CRNL t \<longleftrightarrow> c_iflag (termios t) AND 256 \<noteq> 0"
definition I_NOCR :: "tty_struct \<Rightarrow> bool" where "I_NOCR t \<longleftrightarrow> c_iflag (termios t) AND 128 \<noteq> 0"
definition I_IXON :: "tty_struct \<Rightarrow> bool" where "I_IXON t \<longleftrightarrow> c_iflag (termios t) AND 1024 \<noteq> 0"
definition L_ISIG :: "tty_struct \<Rightarrow> bool" where "L_ISIG t \<longleftrightarrow> c_lflag (termios t) AND 1 \<noteq> 0"
definition L_CANON :: "tty_struct \<Rightarrow> bool" where "L_CANON t \<longleftrightarrow> c_lflag (termios t) AND 2 \<noteq> 0"
definition L_ECHO :: "tty_struct \<Rightarrow> bool" where "L_ECHO t \<longleftrightarrow> c_lflag (termios t) AND 8 \<noteq> 0"
definition L_ECHOCTL :: "tty_struct \<Rightarrow> bool" where "L_ECHOCTL t \<longleftrightarrow> c_lflag (termios t) AND 512 \<noteq> 0"
definition L_TOSTOP :: "tty_struct \<Rightarrow> bool" where "L_TOSTOP t \<longleftrightarrow> c_lflag (termios t) AND 256 \<noteq> 0"
definition O_POST :: "tty_struct \<Rightarrow> bool" where "O_POST t \<longleftrightarrow> c_oflag (termios t) AND 1 \<noteq> 0"
definition O_LCUC :: "tty_struct \<Rightarrow> bool" where "O_LCUC t \<longleftrightarrow> c_oflag (termios t) AND 2 \<noteq> 0"
definition O_NLCR :: "tty_struct \<Rightarrow> bool" where "O_NLCR t \<longleftrightarrow> c_oflag (termios t) AND 4 \<noteq> 0"
definition O_CRNL :: "tty_struct \<Rightarrow> bool" where "O_CRNL t \<longleftrightarrow> c_oflag (termios t) AND 8 \<noteq> 0"
definition O_NLRET :: "tty_struct \<Rightarrow> bool" where "O_NLRET t \<longleftrightarrow> c_oflag (termios t) AND 32 \<noteq> 0"
definition C_HUP :: "tty_struct \<Rightarrow> bool" where "C_HUP t \<longleftrightarrow> c_cflag (termios t) AND 15 = 0"

text \<open>
  \<open>c\<close> is a signed character, the control characters are unsigned; a control character of 0 is
  switched off (\<open>_POSIX_VDISABLE\<close>).
\<close>

definition is_cc :: "nat \<Rightarrow> tty_struct \<Rightarrow> int \<Rightarrow> bool" where
  "is_cc n t c \<longleftrightarrow> c_cc (termios t) n \<noteq> 0 \<and> c = uint (c_cc (termios t) n)"

definition upd_tty :: "nat \<Rightarrow> (tty_struct \<Rightarrow> tty_struct) \<Rightarrow> 'a tty_state_scheme \<Rightarrow> 'a tty_state_scheme" where
  "upd_tty i f s = s\<lparr>tty_table := (tty_table s)(i := f (tty_table s i))\<rparr>"

definition put_write :: "nat \<Rightarrow> int \<Rightarrow> 'a tty_state_scheme \<Rightarrow> 'a tty_state_scheme" where
  "put_write i c = upd_tty i (\<lambda>t. t\<lparr>write_q := PUTCH (word_of_int c) (write_q t)\<rparr>)"

definition emit :: "tty_event \<Rightarrow> 'a tty_state_scheme \<Rightarrow> 'a tty_state_scheme" where
  "emit e s = s\<lparr>ts_events := e # ts_events s\<rparr>"

definition pending_signal :: "'a tty_state_scheme \<Rightarrow> bool" where
  "pending_signal s \<longleftrightarrow> signal (cur (ts_kern s)) AND NOT (blocked (cur (ts_kern s))) \<noteq> 0"

definition set_timeout :: "u32 \<Rightarrow> 'a tty_state_scheme \<Rightarrow> 'a tty_state_scheme" where
  "set_timeout v s = s\<lparr>ts_kern := upd_cur (\<lambda>t. t\<lparr>timeout := v\<rparr>) (ts_kern s)\<rparr>"

text \<open>\<open>TTY_TABLE\<close>\<close>

definition tty_index :: "nat \<Rightarrow> 'a tty_state_scheme \<Rightarrow> nat" where
  "tty_index nr s = (if nr \<noteq> 0 then if nr < 64 then nr - 1 else nr else fg_console s)"

section \<open>Character classes\<close>

text \<open>\<open>_ctype\<close>, whose first entry is for -1; the macros read it at \<open>c + 1\<close> without a test.\<close>

definition ctype_table :: "nat list" where
  "ctype_table = [0] @ replicate 9 8 @ replicate 5 0x28 @ replicate 18 8 @ [0xA0] @ replicate 15 16 @ replicate 10 4
     @ replicate 7 16 @ replicate 6 0x41 @ replicate 20 1 @ replicate 6 16 @ replicate 6 0x42 @ replicate 20 2
     @ replicate 4 16 @ [8] @ replicate 128 0"

definition ctype :: "int \<Rightarrow> nat kres" where
  "ctype c = (if - 1 \<le> c \<and> c < 256 then Inr (ctype_table ! nat (c + 1)) else Inl OutOfBounds)"

definition tolower :: "int \<Rightarrow> int kres" where
  "tolower c = kbind (ctype c) (\<lambda>m. Inr (if odd m then c + 32 else c))"

definition toupper :: "int \<Rightarrow> int kres" where
  "toupper c = kbind (ctype c) (\<lambda>m. Inr (if odd (m div 2) then c - 32 else c))"


section \<open>The line discipline\<close>

text \<open>\<open>wr\<close> is the call \<open>tty->write (tty)\<close>, given the number of the terminal.\<close>

type_synonym 's writer = "nat \<Rightarrow> 's \<Rightarrow> 's kres"

text \<open>Echoing the erasure of the character \<open>c\<close>: one that was shown as two takes two.\<close>

definition erase_echo :: "'a tty_state_scheme writer \<Rightarrow> nat \<Rightarrow> int \<Rightarrow> 'a tty_state_scheme \<Rightarrow> 'a tty_state_scheme kres" where
  "erase_echo wr i c s =
     (if L_ECHO (tty_table s i)
      then wr i (put_write i 127 (if c < 32 then put_write i 127 s else s))
      else Inr s)"

definition dec_secondary :: "nat \<Rightarrow> 'a tty_state_scheme \<Rightarrow> 'a tty_state_scheme" where
  "dec_secondary i = upd_tty i (\<lambda>t. t\<lparr>secondary := (secondary t)\<lparr>q_head := DEC (q_head (secondary t))\<rparr>\<rparr>)"

text \<open>The last character of the line being typed; none at the start of a line.\<close>

definition last_typed :: "tty_struct \<Rightarrow> int option" where
  "last_typed t =
     (if EMPTY (secondary t) then None
      else let c = sint (LAST (secondary t))
           in if c = 10 \<or> is_cc VEOF t c then None else Some c)"

fun kill_line :: "nat \<Rightarrow> 'a tty_state_scheme writer \<Rightarrow> nat \<Rightarrow> 'a tty_state_scheme \<Rightarrow> 'a tty_state_scheme kres" where
  "kill_line 0 wr i s = Inl Unfinished"
| "kill_line (Suc fuel) wr i s =
     (case last_typed (tty_table s i) of
        None \<Rightarrow> Inr s
      | Some c \<Rightarrow> kbind (erase_echo wr i c s) (\<lambda>s1. kill_line fuel wr i (dec_secondary i s1)))"

definition erase_char :: "'a tty_state_scheme writer \<Rightarrow> nat \<Rightarrow> 'a tty_state_scheme \<Rightarrow> 'a tty_state_scheme kres" where
  "erase_char wr i s =
     (case last_typed (tty_table s i) of
        None \<Rightarrow> Inr s
      | Some c \<Rightarrow> kbind (erase_echo wr i c s) (\<lambda>s1. Inr (dec_secondary i s1)))"

text \<open>What the input flags make of a character; \<open>None\<close> when it is dropped.\<close>

definition map_input :: "tty_struct \<Rightarrow> int \<Rightarrow> int option kres" where
  "map_input t c =
     (let m = (if c = 13 then if I_CRNL t then Some 10 else if I_NOCR t then None else Some 13
               else if c = 10 \<and> I_NLCR t then Some 13 else Some c)
      in case m of
           None \<Rightarrow> Inr None
         | Some c1 \<Rightarrow> if I_UCLC t then kbind (tolower c1) (\<lambda>c2. Inr (Some c2)) else Inr (Some c1))"

definition signal_group :: "int \<Rightarrow> int \<Rightarrow> 'a tty_state_scheme \<Rightarrow> 'a tty_state_scheme kres" where
  "signal_group g sig s = kbind (kill_pg g sig True (ts_kern s)) (\<lambda>(_, k). Inr (s\<lparr>ts_kern := k\<rparr>))"

definition SIGINT :: nat where "SIGINT = 2"
definition SIGQUIT :: nat where "SIGQUIT = 3"

definition echo_input :: "'a tty_state_scheme writer \<Rightarrow> nat \<Rightarrow> int \<Rightarrow> 'a tty_state_scheme \<Rightarrow> 'a tty_state_scheme kres" where
  "echo_input wr i c s =
     (if L_ECHO (tty_table s i)
      then wr i (if c = 10 then put_write i 13 (put_write i 10 s)
                 else if c < 32 then
                   (if L_ECHOCTL (tty_table s i) then put_write i (c + 64) (put_write i 94 s) else s)
                 else put_write i c s)
      else Inr s)"

text \<open>One character, after it has been mapped.\<close>

definition cook_char :: "nat \<Rightarrow> 'a tty_state_scheme writer \<Rightarrow> nat \<Rightarrow> int \<Rightarrow> 'a tty_state_scheme \<Rightarrow> 'a tty_state_scheme kres" where
  "cook_char fuel wr i c s =
     (let t = tty_table s i
      in if L_CANON t \<and> is_cc VKILL t c then kill_line fuel wr i s
         else if L_CANON t \<and> is_cc VERASE t c then erase_char wr i s
         else if I_IXON t \<and> is_cc VSTOP t c then wr i (upd_tty i (\<lambda>t. t\<lparr>tt_stopped := True\<rparr>) s)
         else if I_IXON t \<and> is_cc VSTART t c then wr i (upd_tty i (\<lambda>t. t\<lparr>tt_stopped := False\<rparr>) s)
         else if L_ISIG t \<and> is_cc VINTR t c then signal_group (tt_pgrp t) (int SIGINT) s
         else if L_ISIG t \<and> is_cc VQUIT t c then signal_group (tt_pgrp t) (int SIGQUIT) s
         else if L_ISIG t \<and> is_cc VSUSP t c
         then (if \<not> is_orphaned_pgrp (tt_pgrp t) (ts_kern s) then signal_group (tt_pgrp t) (int SIGTSTP) s else Inr s)
         else
           let s1 = (if c = 10 \<or> is_cc VEOF t c
                     then upd_tty i (\<lambda>t. t\<lparr>secondary := (secondary t)\<lparr>q_data := q_data (secondary t) + 1\<rparr>\<rparr>) s
                     else s)
           in kbind (echo_input wr i c s1)
                (\<lambda>s2. Inr (upd_tty i (\<lambda>t. t\<lparr>secondary := PUTCH (word_of_int c) (secondary t)\<rparr>) s2)))"

fun cook_loop :: "nat \<Rightarrow> 'a tty_state_scheme writer \<Rightarrow> nat \<Rightarrow> 'a tty_state_scheme \<Rightarrow> 'a tty_state_scheme kres" where
  "cook_loop 0 wr i s = Inl Unfinished"
| "cook_loop (Suc fuel) wr i s =
     (let t = tty_table s i
      in if EMPTY (read_q t) \<or> FULL (secondary t) then Inr s
         else
           let (c, q) = GETCH (read_q t);
               s1 = upd_tty i (\<lambda>t. t\<lparr>read_q := q\<rparr>) s
           in kbind (map_input t (sint c))
                (\<lambda>m. case m of
                       None \<Rightarrow> cook_loop fuel wr i s1
                     | Some c1 \<Rightarrow> kbind (cook_char fuel wr i c1 s1) (\<lambda>s2. cook_loop fuel wr i s2)))"

definition copy_to_cooked :: "nat \<Rightarrow> 'a tty_state_scheme writer \<Rightarrow> 'a tty_state_scheme writer" where
  "copy_to_cooked fuel wr i s =
     (if \<not> tt_queues (tty_table s i) then Inr s
      else kbind (cook_loop fuel wr i s) (\<lambda>s1. Inr (emit (WakeSecondary i) s1)))"

section \<open>The drivers\<close>

definition rs_write :: "'a tty_state_scheme writer" where
  "rs_write i s = Inr (if EMPTY (write_q (tty_table s i)) then s else emit (EnableTransmit i) s)"

text \<open>\<open>pty_copy\<close> from one end to the read queue of the other.\<close>

fun pty_loop :: "nat \<Rightarrow> 'a tty_state_scheme writer \<Rightarrow> nat \<Rightarrow> nat \<Rightarrow> 'a tty_state_scheme \<Rightarrow> 'a tty_state_scheme kres" where
  "pty_loop 0 cook from to s = Inl Unfinished"
| "pty_loop (Suc fuel) cook from to s =
     (if tt_stopped (tty_table s from) \<or> EMPTY (write_q (tty_table s from)) then Inr s
      else if FULL (read_q (tty_table s to))
      then (if FULL (secondary (tty_table s to)) then Inr s
            else kbind (cook to s) (\<lambda>s1. pty_loop fuel cook from to s1))
      else
        let (c, q) = GETCH (write_q (tty_table s from));
            s1 = upd_tty to (\<lambda>t. t\<lparr>read_q := PUTCH c (read_q t)\<rparr>) (upd_tty from (\<lambda>t. t\<lparr>write_q := q\<rparr>) s)
        in if pending_signal s1 then Inr s1 else pty_loop fuel cook from to s1)"

definition pty_copy :: "nat \<Rightarrow> 'a tty_state_scheme writer \<Rightarrow> nat \<Rightarrow> nat \<Rightarrow> 'a tty_state_scheme \<Rightarrow> 'a tty_state_scheme kres" where
  "pty_copy fuel cook from to s =
     kbind (pty_loop fuel cook from to s)
       (\<lambda>s1. kbind (cook to s1) (\<lambda>s2. Inr (emit (WakeWrite from) s2)))"

definition mpty_write :: "nat \<Rightarrow> 'a tty_state_scheme writer \<Rightarrow> 'a tty_state_scheme writer" where
  "mpty_write fuel cook nr s = (if nr div 64 \<noteq> 2 then Inr s else pty_copy fuel cook nr (nr + 64) s)"

definition spty_write :: "nat \<Rightarrow> 'a tty_state_scheme writer \<Rightarrow> 'a tty_state_scheme writer" where
  "spty_write fuel cook nr s = (if nr div 64 \<noteq> 3 then Inr s else pty_copy fuel cook nr (nr - 64) s)"

text \<open>
  The call through \<open>tty->write\<close>. The drivers call \<open>copy_to_cooked\<close>, which calls \<open>tty->write\<close> again for the
  echo; \<open>depth\<close> bounds this recursion. \<open>con\<close> is the driver of the consoles.
\<close>

fun tty_call_write :: "('a tty_state_scheme writer \<Rightarrow> 'a tty_state_scheme writer) \<Rightarrow> nat \<Rightarrow> nat \<Rightarrow> 'a tty_state_scheme writer" where
  "tty_call_write con fuel 0 i s = Inl Unfinished"
| "tty_call_write con fuel (Suc depth) i s =
     (let cook = copy_to_cooked fuel (tty_call_write con fuel depth)
      in case tt_write (tty_table s i) of
           NoDriver \<Rightarrow> Inl NullDeref
         | ConWrite \<Rightarrow> con cook i s
         | RsWrite \<Rightarrow> rs_write i s
         | MptyWrite \<Rightarrow> mpty_write fuel cook i s
         | SptyWrite \<Rightarrow> spty_write fuel cook i s)"

definition do_tty_interrupt :: "nat \<Rightarrow> 'a tty_state_scheme writer \<Rightarrow> nat \<Rightarrow> 'a tty_state_scheme \<Rightarrow> 'a tty_state_scheme kres" where
  "do_tty_interrupt fuel wr tty s = copy_to_cooked fuel wr (tty_index tty s) s"

section \<open>Reading and writing\<close>

definition EIO :: int where "EIO = 5"

definition tty_signal :: "nat \<Rightarrow> 'a tty_state_scheme \<Rightarrow> (int \<times> 'a tty_state_scheme) kres" where
  "tty_signal sig s =
     (let g = pgrp (cur (ts_kern s))
      in if is_orphaned_pgrp g (ts_kern s) then Inr (- EIO, s)
         else kbind (signal_group g (int sig) s)
                (\<lambda>s1. let t = cur (ts_kern s1); h = sa_handler (sigact t (sig - 1))
                      in Inr (if blocked t AND sig_bit sig \<noteq> 0 \<or> h = 1 then - EIO
                              else if h \<noteq> 0 then - EINTR
                              else - ERESTARTSYS, s1)))"

text \<open>
  The \<open>do\<close> loop of \<open>tty_read\<close>, entered with a character in the queue: the bytes delivered, what is left
  of \<open>nr\<close>, the state.
\<close>

definition take_secondary :: "nat \<Rightarrow> 'a tty_state_scheme \<Rightarrow> u8 \<times> 'a tty_state_scheme" where
  "take_secondary i s =
     (let t = tty_table s i; (c, q) = GETCH (secondary t);
          q' = (if is_cc VEOF t (sint c) \<or> sint c = 10 then q\<lparr>q_data := q_data q - 1\<rparr> else q)
      in (c, upd_tty i (\<lambda>t. t\<lparr>secondary := q'\<rparr>) s))"

fun read_line :: "nat \<Rightarrow> nat \<Rightarrow> nat \<Rightarrow> u8 list \<Rightarrow> 'a tty_state_scheme \<Rightarrow> (u8 list \<times> nat \<times> 'a tty_state_scheme) kres" where
  "read_line 0 i nr out s = Inl Unfinished"
| "read_line (Suc fuel) i nr out s =
     (let t = tty_table s i; (c, s1) = take_secondary i s
      in if is_cc VEOF t (sint c) \<and> L_CANON t then Inr (out, nr, s1)
         else if nr = 1 then Inr (out @ [c], 0, s1)
         else if sint c = 10 \<and> L_CANON t then Inr (out @ [c], nr - 1, s1)
         else if EMPTY (secondary (tty_table s1 i)) then Inr (out @ [c], nr - 1, s1)
         else read_line fuel i (nr - 1) (out @ [c]) s1)"

text \<open>Nothing to deliver yet.\<close>

definition must_wait :: "tty_struct \<Rightarrow> bool" where
  "must_wait t \<longleftrightarrow> EMPTY (secondary t) \<or> (L_CANON t \<and> \<not> FULL (read_q t) \<and> q_data (secondary t) = 0)"

text \<open>
  The loop of \<open>tty_read\<close>. \<open>poll\<close> is the call \<open>other_tty->write (other_tty)\<close>, which does nothing unless the
  terminal is one end of a pair; \<open>hup\<close> tells whether the other end of a slave is hung up. Each element of \<open>envs\<close> is what the
  rest of the system does while the caller sleeps.
\<close>

fun read_loop :: "nat \<Rightarrow> ('a tty_state_scheme \<Rightarrow> 'a tty_state_scheme kres) \<Rightarrow> ('a tty_state_scheme \<Rightarrow> bool) \<Rightarrow> nat \<Rightarrow> nat \<Rightarrow> int \<Rightarrow> int
    \<Rightarrow> ('a tty_state_scheme \<Rightarrow> 'a tty_state_scheme) list \<Rightarrow> u8 list \<Rightarrow> 'a tty_state_scheme
    \<Rightarrow> (u8 list \<times> ('a tty_state_scheme \<Rightarrow> 'a tty_state_scheme) list \<times> 'a tty_state_scheme) kres" where
  "read_loop 0 poll hup i nr minimum time envs out s = Inl Unfinished"
| "read_loop (Suc fuel) poll hup i nr minimum time envs out s =
     (if nr = 0 then Inr (out, envs, s)
      else kbind (poll s)
        (\<lambda>s1.
           if must_wait (tty_table s1 i) then
             (if timeout (cur (ts_kern s1)) = 0 \<or> pending_signal s1 then Inr (out, envs, s1)
              else if hup s1 then Inr (out, envs, s1)
              else case envs of
                     [] \<Rightarrow> Inl Unfinished
                   | e # es \<Rightarrow> read_loop fuel poll hup i nr minimum time es out (e s1))
           else kbind (read_line (Suc fuel) i nr out s1)
             (\<lambda>(out', nr', s2).
                let s3 = emit (WakeRead i) s2;
                    s4 = (if time \<noteq> 0 then set_timeout (word_of_int time + jiffies (ts_kern s3)) s3 else s3)
                in if L_CANON (tty_table s4 i) \<or> int (length out') \<ge> minimum then Inr (out', envs, s4)
                   else read_loop fuel poll hup i nr' minimum time envs out' s4)))"

text \<open>\<open>time\<close>, \<open>minimum\<close> and the timeout as the mode of the terminal sets them.\<close>

definition read_setup :: "tty_struct \<Rightarrow> nat \<Rightarrow> 'a tty_state_scheme \<Rightarrow> int \<times> int \<times> 'a tty_state_scheme" where
  "read_setup t nr s =
     (let time = 10 * uint (c_cc (termios t) VTIME); minimum = uint (c_cc (termios t) VMIN);
          (time, minimum, s1) =
            (if L_CANON t then (0, int nr, set_timeout 0xFFFFFFFF s)
             else if minimum \<noteq> 0 then (time, minimum, set_timeout 0xFFFFFFFF s)
             else (0, int nr, if time \<noteq> 0 then set_timeout (word_of_int time + jiffies (ts_kern s)) s else s))
      in (time, min minimum (int nr), s1))"

definition tty_read :: "nat \<Rightarrow> 'a tty_state_scheme writer \<Rightarrow> nat \<Rightarrow> nat \<Rightarrow> ('a tty_state_scheme \<Rightarrow> 'a tty_state_scheme) list
    \<Rightarrow> 'a tty_state_scheme \<Rightarrow> (int \<times> u8 list \<times> 'a tty_state_scheme) kres" where
  "tty_read fuel wr channel nr envs s =
     (if channel > 255 then Inr (- EIO, [], s)
      else
        let i = tty_index channel s; t = tty_table s i
        in if \<not> tt_queues t then Inr (- EIO, [], s)
           else if t_tty (cur (ts_kern s)) = int channel \<and> tt_pgrp t \<noteq> pgrp (cur (ts_kern s))
           then kbind (tty_signal SIGTTIN s) (\<lambda>(r, s1). Inr (r, [], s1))
           else
             let other = (if channel \<ge> 128 then Some (if channel \<ge> 192 then channel - 64 else channel + 64) else None);
                 (time, minimum, s1) = read_setup t nr s
             in kbind (read_loop fuel
                         (\<lambda>s. case other of Some o' \<Rightarrow> wr o' s | None \<Rightarrow> Inr s)
                         (\<lambda>s. channel \<ge> 192 \<and> (case other of Some o' \<Rightarrow> C_HUP (tty_table s o') | None \<Rightarrow> False))
                         i nr minimum time envs [] s1)
                  (\<lambda>(out, envs', s2).
                     let s3 = set_timeout 0 s2
                     in Inr (if pending_signal s3 \<and> out = [] then - ERESTARTSYS else int (length out), out, s3)))"

fun wait_room :: "nat \<Rightarrow> ('a tty_state_scheme \<Rightarrow> 'a tty_state_scheme) list \<Rightarrow> 'a tty_state_scheme
    \<Rightarrow> (('a tty_state_scheme \<Rightarrow> 'a tty_state_scheme) list \<times> 'a tty_state_scheme) kres" where
  "wait_room i envs s =
     (if \<not> pending_signal s \<and> LEFT (write_q (tty_table s i)) < 128
      then (case envs of [] \<Rightarrow> Inl Unfinished | e # es \<Rightarrow> wait_room i es (e s))
      else Inr (envs, s))"

declare wait_room.simps [simp del]

definition sleep_if_full :: "nat \<Rightarrow> ('a tty_state_scheme \<Rightarrow> 'a tty_state_scheme) list \<Rightarrow> 'a tty_state_scheme
    \<Rightarrow> (('a tty_state_scheme \<Rightarrow> 'a tty_state_scheme) list \<times> 'a tty_state_scheme) kres" where
  "sleep_if_full i envs s = (if \<not> FULL (write_q (tty_table s i)) then Inr (envs, s) else wait_room i envs s)"

text \<open>What the output flags make of a character: \<open>Inl\<close> is the extra carriage return, after which the character is looked at again.\<close>

definition map_output :: "tty_struct \<Rightarrow> bool \<Rightarrow> int \<Rightarrow> int option kres" where
  "map_output t crf c =
     (if \<not> O_POST t then Inr (Some c)
      else
        let c1 = (if c = 13 \<and> O_CRNL t then 10 else if c = 10 \<and> O_NLRET t then 13 else c)
        in if c1 = 10 \<and> \<not> crf \<and> O_NLCR t then Inr None
           else if O_LCUC t then kbind (toupper c1) (\<lambda>c2. Inr (Some c2)) else Inr (Some c1))"

fun fill_write :: "nat \<Rightarrow> nat \<Rightarrow> u8 list \<Rightarrow> 'a tty_state_scheme \<Rightarrow> (u8 list \<times> 'a tty_state_scheme) kres" where
  "fill_write 0 i bs s = Inl Unfinished"
| "fill_write (Suc fuel) i bs s =
     (case bs of
        [] \<Rightarrow> Inr ([], s)
      | b # bs' \<Rightarrow>
          if FULL (write_q (tty_table s i)) then Inr (bs, s)
          else kbind (map_output (tty_table s i) (cr_flag s) (sint b))
                 (\<lambda>m. case m of
                        None \<Rightarrow> fill_write fuel i bs (put_write i 13 (s\<lparr>cr_flag := True\<rparr>))
                      | Some c \<Rightarrow> fill_write fuel i bs' (put_write i c (s\<lparr>cr_flag := False\<rparr>))))"

fun write_loop :: "nat \<Rightarrow> 'a tty_state_scheme writer \<Rightarrow> nat \<Rightarrow> u8 list \<Rightarrow> ('a tty_state_scheme \<Rightarrow> 'a tty_state_scheme) list
    \<Rightarrow> 'a tty_state_scheme \<Rightarrow> (u8 list \<times> 'a tty_state_scheme) kres" where
  "write_loop 0 wr i bs envs s = Inl Unfinished"
| "write_loop (Suc fuel) wr i bs envs s =
     (if bs = [] then Inr ([], s)
      else kbind (sleep_if_full i envs s)
        (\<lambda>(envs1, s1).
           if pending_signal s1 then Inr (bs, s1)
           else kbind (fill_write (Suc fuel) i bs s1)
             (\<lambda>(rest, s2). kbind (wr i s2)
                (\<lambda>s3. if rest = [] then Inr ([], s3)
                      else case envs1 of
                             [] \<Rightarrow> Inl Unfinished
                           | e # es \<Rightarrow> write_loop fuel wr i rest es (e s3)))))"

definition tty_write :: "nat \<Rightarrow> 'a tty_state_scheme writer \<Rightarrow> nat \<Rightarrow> u8 list \<Rightarrow> ('a tty_state_scheme \<Rightarrow> 'a tty_state_scheme) list
    \<Rightarrow> 'a tty_state_scheme \<Rightarrow> (int \<times> 'a tty_state_scheme) kres" where
  "tty_write fuel wr channel bs envs s =
     (if channel > 255 then Inr (- EIO, s)
      else
        let i = tty_index channel s; t = tty_table s i
        in if \<not> tt_queues t then Inr (- EIO, s)
           else if L_TOSTOP t \<and> t_tty (cur (ts_kern s)) = int channel \<and> tt_pgrp t \<noteq> pgrp (cur (ts_kern s))
           then tty_signal SIGTTOU s
           else kbind (write_loop fuel wr i bs envs s)
                  (\<lambda>(rest, s1). Inr (int (length bs) - int (length rest), s1)))"

end
