(* ===== verification/TtyLine.thy ===== *)
theory TtyLine
  imports Tty
begin

text \<open>
  What \<open>Tty\<close> promises: a queue is a bounded list, the line discipline edits the line being typed like a
  list function, and a reader in canonical mode gets the edited text line by line. A driver behind
  \<open>tty->write\<close> is an interface (\<open>tty_output\<close>): it may consume the write queue, and leaves input alone.
\<close>

section \<open>A queue is a list\<close>

definition q_list :: "tty_queue \<Rightarrow> u8 list" where
  "q_list q = map (\<lambda>j. q_buf q ((unat (q_tail q) + j) mod 1024)) [0..<unat (CHARS q)]"

definition q_ok :: "tty_queue \<Rightarrow> bool" where
  "q_ok q \<longleftrightarrow> unat (q_head q) < 1024 \<and> unat (q_tail q) < 1024"

lemma uint_mask10: "uint ((x :: u32) AND 0x3FF) = uint x mod 1024"
proof -
  have m: "(0x3FF :: u32) = mask 10" by (simp add: mask_eq_exp_minus_1)
  show ?thesis unfolding m by (simp only: take_bit_eq_mask[symmetric] unsigned_take_bit_eq) (simp add: take_bit_eq_mod)
qed

lemma int_unat_less: "unat (a :: u32) < 1024 \<Longrightarrow> 0 \<le> uint a \<and> uint a < 1024"
proof -
  assume "unat a < 1024"
  then have "int (unat a) < int 1024" by (simp only: of_nat_less_iff)
  then show "0 \<le> uint a \<and> uint a < 1024" by simp
qed

lemma mod1024: "- 1024 \<le> x \<Longrightarrow> x < 1024 \<Longrightarrow> (x :: int) mod 1024 = (if 0 \<le> x then x else x + 1024)"
proof -
  assume x: "- 1024 \<le> x" "x < 1024"
  show ?thesis
  proof (cases "0 \<le> x")
    case False
    have "x mod 1024 = (x + 1024) mod 1024" by (rule mod_add_self2[symmetric])
    also have "\<dots> = x + 1024" by (rule mod_pos_pos_trivial) (use x False in linarith)+
    finally show ?thesis using False by simp
  qed (use x in \<open>simp add: mod_pos_pos_trivial\<close>)
qed

lemma unat_INC: "unat (INC a) = Suc (unat a) mod 1024"
proof -
  have "uint (INC a) = (uint a + 1) mod 2 ^ 32 mod 1024" by (simp add: INC_def uint_mask10 uint_word_arith_bintrs take_bit_eq_mod)
  also have "\<dots> = (uint a + 1) mod 1024" by (rule mod_mod_cancel) simp
  finally have "int (unat (INC a)) = int (Suc (unat a) mod 1024)" by (simp add: zmod_int add.commute)
  then show ?thesis by (simp only: of_nat_eq_iff)
qed

lemma uint_diff10: "uint (((a :: u32) - b) AND 0x3FF) = (uint a - uint b) mod 1024"
proof -
  have "uint ((a - b) AND 0x3FF) = (uint a - uint b) mod 2 ^ 32 mod 1024"
    by (simp add: uint_mask10 uint_word_arith_bintrs take_bit_eq_mod)
  also have "\<dots> = (uint a - uint b) mod 1024" by (rule mod_mod_cancel) simp
  finally show ?thesis .
qed

lemma unat_diff10:
  assumes "unat (a :: u32) < 1024" and "unat b < 1024"
  shows "unat ((a - b) AND 0x3FF) = (if unat b \<le> unat a then unat a - unat b else unat a + 1024 - unat b)"
proof -
  note a = int_unat_less[OF assms(1)] and b = int_unat_less[OF assms(2)]
  have "int (unat ((a - b) AND 0x3FF)) = (uint a - uint b) mod 1024" using uint_diff10[of a b] by simp
  also have "\<dots> = (if 0 \<le> uint a - uint b then uint a - uint b else uint a - uint b + 1024)"
    using a b by (intro mod1024) linarith+
  also have "\<dots> = int (if unat b \<le> unat a then unat a - unat b else unat a + 1024 - unat b)"
  proof -
    have u: "uint a = int (unat a)" "uint b = int (unat b)" by simp_all
    have "(if 0 \<le> int m - int n then int m - int n else int m - int n + 1024) = int (if n \<le> m then m - n else m + 1024 - n)"
      if "m < 1024" "n < 1024" for m n :: nat using that by auto
    from this[OF assms] show ?thesis unfolding u .
  qed
  finally show ?thesis by (simp only: of_nat_eq_iff)
qed


lemma unat_mask10: "unat ((x :: u32) AND 0x3FF) = unat x mod 1024"
proof -
  have "int (unat (x AND 0x3FF)) = int (unat x mod 1024)" using uint_mask10[of x] by (simp add: zmod_int)
  then show ?thesis by (simp only: of_nat_eq_iff)
qed

text \<open>The operations keep the indices of a queue within its buffer.\<close>

lemma q_ok_PUTCH: "q_ok q \<Longrightarrow> q_ok (PUTCH c q)"
  by (simp add: q_ok_def PUTCH_def unat_INC)

lemma q_ok_GETCH: "q_ok q \<Longrightarrow> GETCH q = (c, q') \<Longrightarrow> q_ok q'"
  by (auto simp: q_ok_def GETCH_def unat_INC)

lemma q_ok_DEC: "q_ok q \<Longrightarrow> q_ok (q\<lparr>q_head := DEC h\<rparr>)"
  by (simp add: q_ok_def DEC_def unat_mask10)

lemma q_ok_fold_PUTCH: "q_ok q \<Longrightarrow> q_ok (fold PUTCH bs q)"
  by (induction bs arbitrary: q) (simp_all add: q_ok_PUTCH)

definition queues_ok :: "tty_struct \<Rightarrow> bool" where
  "queues_ok t \<longleftrightarrow> q_ok (read_q t) \<and> q_ok (write_q t) \<and> q_ok (secondary t)"

lemma length_q_list [simp]: "length (q_list q) = unat (CHARS q)"
  by (simp add: q_list_def)

lemma CHARS_less: "unat (CHARS q) < 1024"
  by (simp add: CHARS_def unat_mask10)

lemma head_pos:
  assumes "q_ok q"
  shows "unat (q_head q) = (unat (q_tail q) + unat (CHARS q)) mod 1024"
proof -
  have q: "unat (q_head q) < 1024" "unat (q_tail q) < 1024" using assms by (simp_all add: q_ok_def)
  show ?thesis unfolding CHARS_def unat_diff10[OF q] using q by (auto simp: mod_if)
qed

lemma LEFT_CHARS:
  assumes "q_ok q"
  shows "unat (LEFT q) = 1023 - unat (CHARS q)"
proof -
  have h: "0 \<le> uint (q_head q) \<and> uint (q_head q) < 1024" and t: "0 \<le> uint (q_tail q) \<and> uint (q_tail q) < 1024"
    using assms int_unat_less by (simp_all add: q_ok_def)
  have "uint (LEFT q) = (uint (q_tail q - q_head q) - 1) mod 1024" unfolding LEFT_def by (simp add: uint_diff10)
  also have "\<dots> = ((uint (q_tail q) - uint (q_head q)) mod 2 ^ 32 - 1) mod 1024"
    by (simp add: uint_word_arith_bintrs take_bit_eq_mod)
  also have "\<dots> = (uint (q_tail q) - uint (q_head q) - 1) mod 1024"
    by (rule mod_diff_cong) (simp_all add: mod_mod_cancel)
  finally have l: "uint (LEFT q) = (if 0 \<le> uint (q_tail q) - uint (q_head q) - 1 then uint (q_tail q) - uint (q_head q) - 1
      else uint (q_tail q) - uint (q_head q) - 1 + 1024)" using h t by (simp add: mod1024)
  moreover have "uint (CHARS q) = (if 0 \<le> uint (q_head q) - uint (q_tail q) then uint (q_head q) - uint (q_tail q)
      else uint (q_head q) - uint (q_tail q) + 1024)" unfolding CHARS_def uint_diff10 using h t by (intro mod1024) linarith+
  ultimately have "uint (LEFT q) = 1023 - uint (CHARS q)" by auto
  then have "int (unat (LEFT q)) = int (1023 - unat (CHARS q))" using CHARS_less[of q] by (simp add: of_nat_diff)
  then show ?thesis by (simp only: of_nat_eq_iff)
qed

lemma EMPTY_iff: "q_ok q \<Longrightarrow> EMPTY q \<longleftrightarrow> q_list q = []"
proof -
  assume q: "q_ok q"
  have "EMPTY q \<longleftrightarrow> unat (CHARS q) = 0"
    using head_pos[OF q] CHARS_less[of q] q by (auto simp: EMPTY_def CHARS_def q_ok_def word_unat_eq_iff mod_if split: if_splits)
  then show ?thesis by (metis length_0_conv length_q_list)
qed

lemma FULL_iff: "q_ok q \<Longrightarrow> FULL q \<longleftrightarrow> length (q_list q) = 1023"
  using LEFT_CHARS[of q] CHARS_less[of q] by (auto simp: FULL_def word_unat_eq_iff)

lemma nth_q_list: "j < unat (CHARS q) \<Longrightarrow> q_list q ! j = q_buf q ((unat (q_tail q) + j) mod 1024)"
  by (simp add: q_list_def)


lemma ring_count: "t < 1024 \<Longrightarrow> n < 1024 \<Longrightarrow> h = (t + n) mod (1024 :: nat) \<Longrightarrow> (if t \<le> h then h - t else h + 1024 - t) = n"
  by (auto simp: mod_if split: if_splits)

lemma ring_apart: "j < n \<Longrightarrow> n < 1024 \<Longrightarrow> (t + j) mod 1024 \<noteq> (t + n) mod (1024 :: nat)"
proof
  assume j: "j < n" "n < 1024" and e: "(t + j) mod 1024 = (t + n) mod 1024"
  then have "(t + n - (t + j)) mod 1024 = 0" by (metis mod_eq_dvd_iff_nat dvd_imp_mod_0 add_le_cancel_left less_imp_le)
  with j show False by simp
qed

text \<open>A queue given by its tail and its characters.\<close>

lemma q_list_intro:
  assumes t: "unat (q_tail q) = t" "t < 1024" and h: "unat (q_head q) = (t + length xs) mod 1024" and n: "length xs < 1024"
    and b: "\<And>j. j < length xs \<Longrightarrow> q_buf q ((t + j) mod 1024) = xs ! j"
  shows "q_ok q \<and> q_list q = xs"
proof
  have l: "unat (q_head q) < 1024" "unat (q_tail q) < 1024" using t h by simp_all
  then show "q_ok q" by (simp add: q_ok_def)
  have c: "unat (CHARS q) = length xs"
    unfolding CHARS_def unat_diff10[OF l] t(1) using ring_count[OF t(2) n h] .
  show "q_list q = xs" by (rule nth_equalityI) (simp_all add: c nth_q_list t b)
qed

lemma PUTCH_list:
  assumes "q_ok q" and "length (q_list q) < 1023"
  shows "q_ok (PUTCH c q) \<and> q_list (PUTCH c q) = q_list q @ [c]"
proof (rule q_list_intro[OF HOL.refl])
  let ?n = "unat (CHARS q)" and ?t = "unat (q_tail q)"
  have h: "unat (q_head q) = (?t + ?n) mod 1024" and n: "?n < 1023" using head_pos[OF assms(1)] assms(2) by simp_all
  show "unat (q_tail (PUTCH c q)) < 1024" using assms(1) by (simp add: PUTCH_def q_ok_def)
  show "unat (q_head (PUTCH c q)) = (unat (q_tail (PUTCH c q)) + length (q_list q @ [c])) mod 1024"
    by (simp add: PUTCH_def unat_INC h mod_Suc_eq)
  show "length (q_list q @ [c]) < 1024" using n by simp
  fix j assume "j < length (q_list q @ [c])"
  then have "j < ?n \<or> j = ?n" by auto
  then show "q_buf (PUTCH c q) ((unat (q_tail (PUTCH c q)) + j) mod 1024) = (q_list q @ [c]) ! j"
    using ring_apart[of j ?n ?t] n by (auto simp: PUTCH_def h nth_append nth_q_list)
qed

lemma GETCH_list:
  assumes "q_ok q" and "q_list q \<noteq> []"
  shows "fst (GETCH q) = hd (q_list q) \<and> q_ok (snd (GETCH q)) \<and> q_list (snd (GETCH q)) = tl (q_list q)"
proof
  let ?n = "unat (CHARS q)" and ?t = "unat (q_tail q)"
  have n: "0 < ?n" "?n < 1024" using assms(2) CHARS_less by (simp_all flip: length_q_list)
  have t: "?t < 1024" using assms(1) by (simp add: q_ok_def)
  have h: "unat (q_head q) = (?t + ?n) mod 1024" by (rule head_pos[OF assms(1)])
  show "fst (GETCH q) = hd (q_list q)" using n t by (simp add: GETCH_def hd_conv_nth assms(2) nth_q_list)
  have s: "(Suc ?t mod 1024 + j) mod 1024 = (?t + Suc j) mod 1024" for j by (simp add: mod_simps)
  show "q_ok (snd (GETCH q)) \<and> q_list (snd (GETCH q)) = tl (q_list q)"
  proof (rule q_list_intro)
    show "unat (q_tail (snd (GETCH q))) = Suc ?t mod 1024" by (simp add: GETCH_def unat_INC)
    show "unat (q_head (snd (GETCH q))) = (Suc ?t mod 1024 + length (tl (q_list q))) mod 1024"
      unfolding s using n by (simp add: GETCH_def h)
    show "q_buf (snd (GETCH q)) ((Suc ?t mod 1024 + j) mod 1024) = tl (q_list q) ! j" if "j < length (tl (q_list q))" for j
      unfolding s using that by (simp add: GETCH_def nth_tl nth_q_list)
  qed (use n in simp_all)
qed

lemma DEC_list:
  assumes "q_ok q" and "q_list q \<noteq> []"
  shows "q_ok (q\<lparr>q_head := DEC (q_head q)\<rparr>) \<and> q_list (q\<lparr>q_head := DEC (q_head q)\<rparr>) = butlast (q_list q)"
    and "LAST q = last (q_list q)"
proof -
  let ?n = "unat (CHARS q)" and ?t = "unat (q_tail q)"
  have n: "0 < ?n" "?n < 1024" using assms(2) CHARS_less by (simp_all flip: length_q_list)
  have t: "?t < 1024" "unat (q_head q) < 1024" using assms(1) by (simp_all add: q_ok_def)
  have h: "unat (q_head q) = (?t + ?n) mod 1024" by (rule head_pos[OF assms(1)])
  have "unat ((q_head q - 1) AND 0x3FF) = (if 1 \<le> unat (q_head q) then unat (q_head q) - 1 else unat (q_head q) + 1024 - 1)"
    using unat_diff10[OF t(2), of 1] by simp
  also have "\<dots> = (?t + (?n - 1)) mod 1024" using h n t(1) by (auto simp: mod_if split: if_splits)
  finally have d: "unat ((q_head q - 1) AND 0x3FF) = (?t + (?n - 1)) mod 1024" .
  show "q_ok (q\<lparr>q_head := DEC (q_head q)\<rparr>) \<and> q_list (q\<lparr>q_head := DEC (q_head q)\<rparr>) = butlast (q_list q)"
    by (rule q_list_intro[OF HOL.refl]) (use t n in \<open>simp_all add: DEC_def d nth_butlast nth_q_list\<close>)
  show "LAST q = last (q_list q)" using n by (simp add: LAST_def and.commute d last_conv_nth assms(2) nth_q_list)
qed

interpretation keys: bounded_fifo q_list q_ok 1023 PUTCH GETCH
  by unfold_locales (simp_all add: PUTCH_list GETCH_list)


section \<open>The editing of a line\<close>

definition line_end :: "tty_struct \<Rightarrow> u8 \<Rightarrow> bool" where
  "line_end t b \<longleftrightarrow> sint b = 10 \<or> is_cc VEOF t (sint b)"

text \<open>What one character received does to the text collected so far.\<close>

definition edit :: "tty_struct \<Rightarrow> u8 list \<Rightarrow> u8 \<Rightarrow> u8 list" where
  "edit t xs b =
     (case map_input t (sint b) of
        Inr (Some c) \<Rightarrow>
          if L_CANON t \<and> is_cc VKILL t c then rev (dropWhile (\<lambda>b. \<not> line_end t b) (rev xs))
          else if L_CANON t \<and> is_cc VERASE t c then (if xs = [] \<or> line_end t (last xs) then xs else butlast xs)
          else if I_IXON t \<and> (is_cc VSTOP t c \<or> is_cc VSTART t c) then xs
          else if L_ISIG t \<and> (is_cc VINTR t c \<or> is_cc VQUIT t c \<or> is_cc VSUSP t c) then xs
          else xs @ [word_of_int c]
      | _ \<Rightarrow> xs)"

definition line_count :: "tty_struct \<Rightarrow> u8 list \<Rightarrow> nat" where
  "line_count t xs = length (filter (line_end t) xs)"

definition same_input :: "nat \<Rightarrow> 'a tty_state_scheme \<Rightarrow> 'a tty_state_scheme \<Rightarrow> bool" where
  "same_input i s s' \<longleftrightarrow>
     read_q (tty_table s' i) = read_q (tty_table s i) \<and> secondary (tty_table s' i) = secondary (tty_table s i) \<and>
     termios (tty_table s' i) = termios (tty_table s i) \<and> tt_queues (tty_table s' i) = tt_queues (tty_table s i)"

text \<open>
  The contract of a driver: under its invariant \<open>tty->write\<close> returns and leaves input and modes of the
  terminal alone; putting characters into the write queue keeps the invariant.
\<close>

locale tty_output =
  fixes wr :: "'a tty_state_scheme writer"
    and inv :: "nat \<Rightarrow> 'a tty_state_scheme \<Rightarrow> bool"
  assumes wr_ok: "inv i s \<Longrightarrow> \<exists>s'. wr i s = Inr s' \<and> inv i s' \<and> same_input i s s'"
    and inv_put: "inv i s \<Longrightarrow> inv i (put_write i c s)"
    and inv_upd: "inv i s \<Longrightarrow> (\<And>t. write_q (f t) = write_q t \<and> tt_write (f t) = tt_write t) \<Longrightarrow> inv i (upd_tty i f s)"
    and inv_kern: "inv i s \<Longrightarrow> inv i (s\<lparr>ts_kern := k\<rparr>)"
    and inv_emit: "inv i s \<Longrightarrow> inv i (emit e s)"

lemma upd_tty_same [simp]: "tty_table (upd_tty i f s) i = f (tty_table s i)"
  by (simp add: upd_tty_def)

lemma put_write_fields [simp]:
  "read_q (tty_table (put_write i c s) i) = read_q (tty_table s i)"
  "secondary (tty_table (put_write i c s) i) = secondary (tty_table s i)"
  "termios (tty_table (put_write i c s) i) = termios (tty_table s i)"
  "tt_queues (tty_table (put_write i c s) i) = tt_queues (tty_table s i)"
  by (simp_all add: put_write_def)

text \<open>The flags and the control characters are functions of \<open>termios\<close>.\<close>

lemma flags_cong:
  assumes "termios t = termios u"
  shows "L_CANON t = L_CANON u" "L_ECHO t = L_ECHO u" "L_ECHOCTL t = L_ECHOCTL u" "L_ISIG t = L_ISIG u" "I_IXON t = I_IXON u"
    "is_cc n t c = is_cc n u c" "map_input t c = map_input u c" "line_end t = line_end u" "edit t = edit u" "line_count t = line_count u"
proof -
  show a: "L_CANON t = L_CANON u" "L_ECHO t = L_ECHO u" "L_ECHOCTL t = L_ECHOCTL u" "L_ISIG t = L_ISIG u" "I_IXON t = I_IXON u"
    using assms by (simp_all add: L_CANON_def L_ECHO_def L_ECHOCTL_def L_ISIG_def I_IXON_def)
  show b: "is_cc n t c = is_cc n u c" for n c using assms by (simp add: is_cc_def)
  show c: "map_input t c = map_input u c" for c using assms by (simp add: map_input_def I_CRNL_def I_NOCR_def I_NLCR_def I_UCLC_def)
  show d: "line_end t = line_end u" by (simp add: fun_eq_iff line_end_def b)
  show "edit t = edit u" unfolding fun_eq_iff edit_def a b c d by simp
  show "line_count t = line_count u" unfolding fun_eq_iff line_count_def d by simp
qed

lemma send_sig_total: "1 \<le> sig \<Longrightarrow> sig \<le> 32 \<Longrightarrow> \<exists>r k'. send_sig sig i True k = Inr (r, k')"
  by (auto simp: send_sig_def split: option.split)

lemma kill_pg_total: "\<exists>r k'. kill_pg g sig True k = Inr (r, k')"
proof (cases "sig < 1 \<or> sig > 32 \<or> g \<le> 0")
  case False
  have "\<exists>x k'. kill_pg_loop g sig True is st k = Inr (x, k')" for "is" st k
  proof (induction "is" arbitrary: st k)
    case (Cons i "is")
    obtain a b where st: "st = (a, b)" by (cases st)
    obtain r k1 where "send_sig sig i True k = Inr (r, k1)" using send_sig_total[of sig i k] False by auto
    then show ?case using Cons.IH by (auto simp: st)
  qed simp
  then obtain x k' where "kill_pg_loop g sig True task_slots (- ESRCH, False) k = Inr (x, k')" by blast
  then show ?thesis by (cases x) (simp add: kill_pg_def False)
qed (simp add: kill_pg_def)

lemma signal_group_ok: "\<exists>k. signal_group g sig s = Inr (s\<lparr>ts_kern := k\<rparr>)"
  using kill_pg_total[of g sig "ts_kern s"] by (auto simp: signal_group_def)

text \<open>Seven-bit input is mapped to seven-bit characters.\<close>

lemma sint_u8: "(b :: u8) < 128 \<Longrightarrow> sint b = uint b" 
proof -
  assume "b < 128"
  then have u: "uint b < 128" by (simp add: word_less_def)
  have "sint b = signed_take_bit 7 (uint b)" by (simp add: sint_uint)
  also have "\<dots> = uint b" using u by (intro signed_take_bit_int_eq_self) (auto intro: order_trans[OF _ uint_nonnegative])
  finally show ?thesis .
qed

lemma sint_of_char:
  assumes "- 128 \<le> c" and "c < 128"
  shows "sint (word_of_int c :: u8) = c"
proof -
  have "sint (word_of_int c :: u8) = signed_take_bit 7 c" by (simp add: signed_of_int)
  also have "\<dots> = c" using assms by (intro signed_take_bit_int_eq_self) simp_all
  finally show ?thesis .
qed

lemma map_input_7bit:
  assumes "(b :: u8) < 128"
  shows "map_input t (sint b) = Inr None \<or> (\<exists>c. map_input t (sint b) = Inr (Some c) \<and> 0 \<le> c \<and> c < 128)"
proof -
  have b: "0 \<le> sint b" "sint b < 128" using sint_u8[OF assms] assms by (simp_all add: word_less_def)
  have up: "odd (ctype_table ! nat (c + 1)) \<Longrightarrow> c < 91" if "0 \<le> c" "c < 128" for c
  proof -
    have "\<forall>n\<in>set [92..<129]. even (ctype_table ! n)" unfolding ctype_table_def by code_simp
    then have e: "even (ctype_table ! n)" if "92 \<le> n" "n < 129" for n
      by (rule bspec) (use that in \<open>simp only: set_upt atLeastLessThan_iff\<close>)
    assume "odd (ctype_table ! nat (c + 1))"
    then have "\<not> (92 \<le> nat (c + 1) \<and> nat (c + 1) < 129)" using e[of "nat (c + 1)"] by argo
    then show "c < 91" using that by linarith
  qed
  have l: "\<exists>d. tolower c = Inr d \<and> 0 \<le> d \<and> d < 128" if "0 \<le> c" "c < 128" for c
    using that up[OF that] by (auto simp: tolower_def ctype_def)
  show ?thesis
    using b l[of "sint b"] l[of 10] l[of 13] unfolding map_input_def Let_def by auto
qed


text \<open>Without \<open>IUCLC\<close>, which looks characters up in \<open>_ctype\<close>, every byte is mapped to a character.\<close>

lemma map_input_char:
  assumes "I_UCLC t \<longrightarrow> (b :: u8) < 128"
  shows "map_input t (sint b) = Inr None \<or> (\<exists>c. map_input t (sint b) = Inr (Some c) \<and> - 128 \<le> c \<and> c < 128)"
proof (cases "I_UCLC t")
  case True
  with assms map_input_7bit[of b t] show ?thesis by fastforce
next
  case False
  have "- 128 \<le> sint b" "sint b < 128" using sint_ge[of b] sint_less[of b] by simp_all
  with False show ?thesis by (auto simp: map_input_def Let_def)
qed

text \<open>
  \<open>typed i s ys s'\<close>: terminal \<open>i\<close> has the same read queue and modes in \<open>s'\<close> as in \<open>s\<close>, and the text \<open>ys\<close>
  collected, with its lines counted.
\<close>

definition typed :: "nat \<Rightarrow> 'a tty_state_scheme \<Rightarrow> u8 list \<Rightarrow> 'a tty_state_scheme \<Rightarrow> bool" where
  "typed i s ys s' \<longleftrightarrow>
     read_q (tty_table s' i) = read_q (tty_table s i) \<and> termios (tty_table s' i) = termios (tty_table s i) \<and>
     tt_queues (tty_table s' i) = tt_queues (tty_table s i) \<and> q_ok (secondary (tty_table s' i)) \<and>
     q_list (secondary (tty_table s' i)) = ys \<and>
     q_data (secondary (tty_table s' i)) = of_nat (line_count (tty_table s i) ys)"

lemma typed_trans: "typed i s ys s1 \<Longrightarrow> typed i s1 zs s2 \<Longrightarrow> typed i s zs s2"
  by (auto simp: typed_def dest: flags_cong(10))

lemma typed_same: "typed i s ys s1 \<Longrightarrow> same_input i s1 s2 \<Longrightarrow> typed i s ys s2"
  by (simp add: typed_def same_input_def)

lemma typed_kern: "typed i s ys s1 \<Longrightarrow> typed i s ys (s1\<lparr>ts_kern := k\<rparr>)"
  by (simp add: typed_def)

lemma last_typed_list:
  assumes "q_ok (secondary t)"
  shows "last_typed t = (let xs = q_list (secondary t) in if xs = [] \<or> line_end t (last xs) then None else Some (sint (last xs)))"
  using DEC_list(2)[OF assms] by (simp add: last_typed_def EMPTY_iff[OF assms] line_end_def Let_def)

lemma line_count_butlast: "xs \<noteq> [] \<Longrightarrow> \<not> line_end t (last xs) \<Longrightarrow> line_count t (butlast xs) = line_count t xs"
  by (induction xs rule: rev_induct) (simp_all add: line_count_def)

lemma typed_dec:
  assumes "typed i s ys s1" and "ys \<noteq> []" and "\<not> line_end (tty_table s i) (last ys)"
  shows "typed i s (butlast ys) (dec_secondary i s1)"
  using assms DEC_list(1)[of "secondary (tty_table s1 i)"] line_count_butlast[OF assms(2,3)]
  by (simp add: typed_def dec_secondary_def)

context tty_output begin

lemma erase_echo_ok:
  assumes "inv i s"
  shows "\<exists>s'. erase_echo wr i c s = Inr s' \<and> inv i s' \<and> same_input i s s'"
proof (cases "L_ECHO (tty_table s i)")
  case False
  with assms show ?thesis by (simp add: erase_echo_def same_input_def)
next
  case True
  let ?s = "put_write i 127 (if c < 32 then put_write i 127 s else s)"
  have "inv i ?s" using inv_put assms by auto
  then obtain s' where "wr i ?s = Inr s'" "inv i s'" "same_input i ?s s'" using wr_ok by blast
  then show ?thesis using True by (auto simp: erase_echo_def same_input_def)
qed

lemma dec_secondary_inv: "inv i s \<Longrightarrow> inv i (dec_secondary i s)"
  unfolding dec_secondary_def by (rule inv_upd) auto

lemma erase_step:
  assumes "inv i s1" and "typed i s ys s1" and "ys \<noteq> []" and "\<not> line_end (tty_table s i) (last ys)"
  shows "\<exists>s2. erase_echo wr i c s1 = Inr s2 \<and> inv i (dec_secondary i s2) \<and> typed i s (butlast ys) (dec_secondary i s2)"
proof -
  obtain s2 where "erase_echo wr i c s1 = Inr s2" "inv i s2" "same_input i s1 s2" using erase_echo_ok[OF assms(1)] by blast
  then show ?thesis using typed_dec[OF typed_same[OF assms(2)] assms(3,4)] dec_secondary_inv by blast
qed

lemma kill_line_ok:
  "inv i s1 \<Longrightarrow> typed i s ys s1 \<Longrightarrow> length ys < fuel \<Longrightarrow>
    \<exists>s2. kill_line fuel wr i s1 = Inr s2 \<and> inv i s2 \<and> typed i s (rev (dropWhile (\<lambda>b. \<not> line_end (tty_table s i) b) (rev ys))) s2"
proof (induction fuel arbitrary: s1 ys)
  case (Suc fuel)
  have l: "line_end (tty_table s1 i) = line_end (tty_table s i)" using Suc.prems(2) by (intro flags_cong(8)) (simp add: typed_def)
  have lt: "last_typed (tty_table s1 i) = (if ys = [] \<or> line_end (tty_table s i) (last ys) then None else Some (sint (last ys)))"
    using Suc.prems(2) by (subst last_typed_list) (simp_all add: typed_def l Let_def)
  show ?case
  proof (cases "ys = [] \<or> line_end (tty_table s i) (last ys)")
    case True
    then have "rev (dropWhile (\<lambda>b. \<not> line_end (tty_table s i) b) (rev ys)) = ys" by (cases ys rule: rev_cases) auto
    then show ?thesis using True Suc.prems lt by simp
  next
    case False
    then obtain zs z where y: "ys = zs @ [z]" by (cases ys rule: rev_cases) auto
    obtain s2 where s2: "erase_echo wr i (sint (last ys)) s1 = Inr s2" "inv i (dec_secondary i s2)"
      "typed i s (butlast ys) (dec_secondary i s2)" using erase_step[OF Suc.prems(1,2)] False by blast
    have "length (butlast ys) < fuel" using Suc.prems(3) y by simp
    from Suc.IH[OF s2(2,3) this] show ?thesis using False lt s2(1) y by auto
  qed
qed simp

lemma put_secondary_ok:
  assumes "inv i s1" and "typed i s ys s1" and "length ys < 1023"
    and f: "f = (\<lambda>q. if line_end (tty_table s i) b then q\<lparr>q_data := q_data q + 1\<rparr> else q)"
    and e: "\<And>s. inv i s \<Longrightarrow> \<exists>s'. echo s = Inr s' \<and> inv i s' \<and> same_input i s s'"
  shows "\<exists>s2. kbind (echo (upd_tty i (\<lambda>t. t\<lparr>secondary := f (secondary t)\<rparr>) s1))
      (\<lambda>s. Inr (upd_tty i (\<lambda>t. t\<lparr>secondary := PUTCH b (secondary t)\<rparr>) s)) = Inr s2 \<and> inv i s2 \<and> typed i s (ys @ [b]) s2"
proof -
  let ?s1 = "upd_tty i (\<lambda>t. t\<lparr>secondary := f (secondary t)\<rparr>) s1"
  have i1: "inv i ?s1" by (rule inv_upd[OF assms(1)]) auto
  obtain s2 where s2: "echo ?s1 = Inr s2" "inv i s2" "same_input i ?s1 s2" using e[OF i1] by blast
  have ql: "q_ok (f q) = q_ok q \<and> q_list (f q) = q_list q" for q
    by (simp add: f q_ok_def q_list_def CHARS_def)
  have pd: "q_data (PUTCH b q) = q_data q" for q by (simp add: PUTCH_def)
  have lc: "line_count (tty_table s i) (ys @ [b]) = line_count (tty_table s i) ys + (if line_end (tty_table s i) b then 1 else 0)"
    by (simp add: line_count_def)
  have "typed i s (ys @ [b]) (upd_tty i (\<lambda>t. t\<lparr>secondary := PUTCH b (secondary t)\<rparr>) s2)"
    using assms(2,3) s2(3) ql PUTCH_list[of "f (secondary (tty_table s1 i))" b]
    by (auto simp: typed_def same_input_def pd lc f)
  moreover have "inv i (upd_tty i (\<lambda>t. t\<lparr>secondary := PUTCH b (secondary t)\<rparr>) s2)" by (rule inv_upd[OF s2(2)]) auto
  ultimately show ?thesis using s2(1) by simp
qed

lemma echo_input_ok:
  assumes "inv i s"
  shows "\<exists>s'. echo_input wr i c s = Inr s' \<and> inv i s' \<and> same_input i s s'"
proof (cases "L_ECHO (tty_table s i)")
  case False
  with assms show ?thesis by (simp add: echo_input_def same_input_def)
next
  case True
  let ?s = "if c = 10 then put_write i 13 (put_write i 10 s)
            else if c < 32 then if L_ECHOCTL (tty_table s i) then put_write i (c + 64) (put_write i 94 s) else s
            else put_write i c s"
  have "inv i ?s" using inv_put assms by auto
  then obtain s' where "wr i ?s = Inr s'" "inv i s'" "same_input i ?s s'" using wr_ok by blast
  then show ?thesis using True by (auto simp: echo_input_def same_input_def split: if_splits)
qed

lemma wr_stop_ok:
  assumes "inv i s1" and "typed i s ys s1"
  shows "\<exists>s2. wr i (upd_tty i (\<lambda>t. t\<lparr>tt_stopped := v\<rparr>) s1) = Inr s2 \<and> inv i s2 \<and> typed i s ys s2"
proof -
  let ?s = "upd_tty i (\<lambda>t. t\<lparr>tt_stopped := v\<rparr>) s1"
  have "inv i ?s" by (rule inv_upd[OF assms(1)]) auto
  then obtain s2 where "wr i ?s = Inr s2" "inv i s2" "same_input i ?s s2" using wr_ok by blast
  moreover have "typed i s ys ?s" using assms(2) by (simp add: typed_def)
  ultimately show ?thesis using typed_same by blast
qed

lemma signal_group_typed:
  assumes "inv i s1" and "typed i s ys s1"
  shows "\<exists>s2. signal_group g sig s1 = Inr s2 \<and> inv i s2 \<and> typed i s ys s2"
  using signal_group_ok[of g sig s1] inv_kern[OF assms(1)] typed_kern[OF assms(2)] by blast

lemma cook_char_ok:
  assumes I: "inv i s1" and T: "typed i s ys s1" and len: "length ys < 1023" and fuel: "1023 < fuel"
    and m: "map_input (tty_table s i) (sint b) = Inr (Some c)" and c: "- 128 \<le> c" "c < 128"
  shows "\<exists>s2. cook_char fuel wr i c s1 = Inr s2 \<and> inv i s2 \<and> typed i s (edit (tty_table s i) ys b) s2"
proof -
  let ?t = "tty_table s i" and ?u = "tty_table s1 i"
  have tm: "termios ?u = termios ?t" using T by (simp add: typed_def)
  note fl = flags_cong[OF tm]
  have e: "edit ?t ys b =
      (if L_CANON ?t \<and> is_cc VKILL ?t c then rev (dropWhile (\<lambda>b. \<not> line_end ?t b) (rev ys))
       else if L_CANON ?t \<and> is_cc VERASE ?t c then (if ys = [] \<or> line_end ?t (last ys) then ys else butlast ys)
       else if I_IXON ?t \<and> (is_cc VSTOP ?t c \<or> is_cc VSTART ?t c) then ys
       else if L_ISIG ?t \<and> (is_cc VINTR ?t c \<or> is_cc VQUIT ?t c \<or> is_cc VSUSP ?t c) then ys
       else ys @ [word_of_int c])" by (simp add: edit_def m)
  have lt: "last_typed ?u = (if ys = [] \<or> line_end ?t (last ys) then None else Some (sint (last ys)))"
    using T by (subst last_typed_list) (simp_all add: typed_def fl(8) Let_def)
  note case_simps = cook_char_def Let_def e fl(1,4,5,6)
  consider (kill) "L_CANON ?t \<and> is_cc VKILL ?t c"
    | (erase) "\<not> (L_CANON ?t \<and> is_cc VKILL ?t c)" "L_CANON ?t \<and> is_cc VERASE ?t c"
    | (flow) "\<not> (L_CANON ?t \<and> is_cc VKILL ?t c)" "\<not> (L_CANON ?t \<and> is_cc VERASE ?t c)" "I_IXON ?t \<and> (is_cc VSTOP ?t c \<or> is_cc VSTART ?t c)"
    | (sig) "\<not> (L_CANON ?t \<and> is_cc VKILL ?t c)" "\<not> (L_CANON ?t \<and> is_cc VERASE ?t c)" "\<not> (I_IXON ?t \<and> (is_cc VSTOP ?t c \<or> is_cc VSTART ?t c))"
        "L_ISIG ?t \<and> (is_cc VINTR ?t c \<or> is_cc VQUIT ?t c \<or> is_cc VSUSP ?t c)"
    | (add) "\<not> (L_CANON ?t \<and> is_cc VKILL ?t c)" "\<not> (L_CANON ?t \<and> is_cc VERASE ?t c)" "\<not> (I_IXON ?t \<and> (is_cc VSTOP ?t c \<or> is_cc VSTART ?t c))"
        "\<not> (L_ISIG ?t \<and> (is_cc VINTR ?t c \<or> is_cc VQUIT ?t c \<or> is_cc VSUSP ?t c))" by blast
  then show ?thesis
  proof cases
    case kill
    then show ?thesis using kill_line_ok[OF I T, of fuel] len fuel by (simp add: case_simps)
  next
    case erase
    then have "cook_char fuel wr i c s1 = erase_char wr i s1" by (simp add: case_simps)
    moreover have "\<exists>s2. erase_char wr i s1 = Inr s2 \<and> inv i s2 \<and> typed i s (if ys = [] \<or> line_end ?t (last ys) then ys else butlast ys) s2"
      using erase_step[OF I T, of "sint (last ys)"] I T by (auto simp: erase_char_def lt)
    ultimately show ?thesis using erase by (simp add: e)
  next
    case flow
    then show ?thesis using wr_stop_ok[OF I T] by (auto simp: case_simps)
  next
    case sig
    then show ?thesis using signal_group_typed[OF I T] I T by (auto simp: case_simps)
  next
    case add
    let ?f = "\<lambda>q. if line_end ?t (word_of_int c) then q\<lparr>q_data := q_data q + 1\<rparr> else q"
    have le: "line_end ?t (word_of_int c) \<longleftrightarrow> c = 10 \<or> is_cc VEOF ?t c" by (simp add: line_end_def sint_of_char c)
    have u: "(if c = 10 \<or> is_cc VEOF ?u c then upd_tty i (\<lambda>t. t\<lparr>secondary := (secondary t)\<lparr>q_data := q_data (secondary t) + 1\<rparr>\<rparr>) s1 else s1)
        = upd_tty i (\<lambda>t. t\<lparr>secondary := ?f (secondary t)\<rparr>) s1"
      by (simp add: le fl(6) upd_tty_def)
    have n: "\<not> (L_CANON ?u \<and> is_cc VKILL ?u c)" "\<not> (L_CANON ?u \<and> is_cc VERASE ?u c)" "\<not> (I_IXON ?u \<and> is_cc VSTOP ?u c)"
      "\<not> (I_IXON ?u \<and> is_cc VSTART ?u c)" "\<not> (L_ISIG ?u \<and> is_cc VINTR ?u c)" "\<not> (L_ISIG ?u \<and> is_cc VQUIT ?u c)"
      "\<not> (L_ISIG ?u \<and> is_cc VSUSP ?u c)" using add unfolding fl(1,4,5,6) by blast+
    have "cook_char fuel wr i c s1 = kbind (echo_input wr i c (upd_tty i (\<lambda>t. t\<lparr>secondary := ?f (secondary t)\<rparr>) s1))
        (\<lambda>s. Inr (upd_tty i (\<lambda>t. t\<lparr>secondary := PUTCH (word_of_int c) (secondary t)\<rparr>) s))"
      unfolding cook_char_def Let_def if_not_P[OF n(1)] if_not_P[OF n(2)] if_not_P[OF n(3)] if_not_P[OF n(4)]
        if_not_P[OF n(5)] if_not_P[OF n(6)] if_not_P[OF n(7)] u by (rule HOL.refl)
    moreover have "edit ?t ys b = ys @ [word_of_int c]"
      unfolding e if_not_P[OF add(1)] if_not_P[OF add(2)] if_not_P[OF add(3)] if_not_P[OF add(4)] by (rule HOL.refl)
    ultimately show ?thesis
      using put_secondary_ok[OF I T len HOL.refl, where echo = "echo_input wr i c" and b = "word_of_int c"] echo_input_ok by presburger
  qed
qed

text \<open>
  The loop edits with the characters of the read queue, in order, until none is left or the collected
  text fills its queue.
\<close>

lemma cook_loop_ok:
  "inv i s \<Longrightarrow> q_ok (read_q (tty_table s i)) \<Longrightarrow> q_list (read_q (tty_table s i)) = ks \<Longrightarrow> typed i s ys s \<Longrightarrow>
    I_UCLC (tty_table s i) \<longrightarrow> (\<forall>b\<in>set ks. b < 128) \<Longrightarrow> length ks + 1024 < fuel \<Longrightarrow>
    \<exists>n s'. cook_loop fuel wr i s = Inr s' \<and> n \<le> length ks \<and> inv i s' \<and>
      q_ok (read_q (tty_table s' i)) \<and> q_list (read_q (tty_table s' i)) = drop n ks \<and>
      typed i (upd_tty i (\<lambda>t. t\<lparr>read_q := read_q (tty_table s' i)\<rparr>) s) (foldl (edit (tty_table s i)) ys (take n ks)) s' \<and>
      (n < length ks \<longrightarrow> length (foldl (edit (tty_table s i)) ys (take n ks)) = 1023)"
proof (induction fuel arbitrary: s ks ys)
  case (Suc fuel)
  let ?t = "tty_table s i"
  have ql: "q_ok (secondary ?t)" "q_list (secondary ?t) = ys" using Suc.prems(4) by (simp_all add: typed_def)
  have ts: "typed i (upd_tty i (\<lambda>t. t\<lparr>read_q := read_q ?t\<rparr>) s) ys s" using Suc.prems(4)
    by (simp add: typed_def)
  show ?case
  proof (cases "ks = [] \<or> length ys = 1023")
    case True
    then have "cook_loop (Suc fuel) wr i s = Inr s"
      using EMPTY_iff[OF Suc.prems(2)] FULL_iff[OF ql(1)] Suc.prems(3) ql(2) by (auto simp: Let_def)
    then show ?thesis using Suc.prems ts True by (intro exI[of _ 0] exI[of _ s]) auto
  next
    case False
    then obtain b ks' where ks: "ks = b # ks'" by (cases ks) auto
    have "length ys < 1024" using CHARS_less[of "secondary ?t"] length_q_list[of "secondary ?t"] ql(2) by simp
    then have len: "length ys < 1023" using False by simp
    obtain q where g: "GETCH (read_q ?t) = (b, q)" "q_ok q" "q_list q = ks'"
      using GETCH_list[OF Suc.prems(2)] Suc.prems(3) ks by (cases "GETCH (read_q ?t)") auto
    let ?s1 = "upd_tty i (\<lambda>t. t\<lparr>read_q := q\<rparr>) s"
    have i1: "inv i ?s1" by (rule inv_upd[OF Suc.prems(1)]) auto
    have t1: "typed i ?s1 ys ?s1" using Suc.prems(4) flags_cong(10)[of "?t\<lparr>read_q := q\<rparr>" ?t] by (simp add: typed_def)
    have e1: "edit (tty_table ?s1 i) = edit ?t" by (rule flags_cong(9)) simp
    have step: "cook_loop (Suc fuel) wr i s = kbind (map_input ?t (sint b))
        (\<lambda>m. case m of None \<Rightarrow> cook_loop fuel wr i ?s1 | Some c1 \<Rightarrow> kbind (cook_char fuel wr i c1 ?s1) (\<lambda>s2. cook_loop fuel wr i s2))"
      using False EMPTY_iff[OF Suc.prems(2)] FULL_iff[OF ql(1)] Suc.prems(3) ql(2) ks g(1) by (simp add: Let_def)
    have b: "I_UCLC ?t \<longrightarrow> b < 128" and ks'': "I_UCLC ?t \<longrightarrow> (\<forall>b\<in>set ks'. b < 128)" "length ks' + 1024 < fuel"
      using Suc.prems(5,6) ks by auto
    obtain s2 where s2: "cook_loop (Suc fuel) wr i s = cook_loop fuel wr i s2" "inv i s2" "typed i ?s1 (edit ?t ys b) s2"
    proof (cases "map_input ?t (sint b) = Inr None")
      case True
      then have "edit ?t ys b = ys" by (simp add: edit_def)
      then show thesis using that[of ?s1] True step i1 t1 by simp
    next
      case False
      then obtain c where c: "map_input ?t (sint b) = Inr (Some c)" "- 128 \<le> c" "c < 128" using map_input_char[OF b] by auto
      then have "map_input (tty_table ?s1 i) (sint b) = Inr (Some c)" using flags_cong(7)[of "tty_table ?s1 i" ?t] by simp
      from cook_char_ok[OF i1 t1 len _ this c(2,3), of fuel] ks''(2) obtain s2
        where "cook_char fuel wr i c ?s1 = Inr s2" "inv i s2" "typed i ?s1 (edit ?t ys b) s2" using e1 by auto
      then show thesis using that[of s2] step c(1) by simp
    qed
    have r2: "read_q (tty_table s2 i) = q" "termios (tty_table s2 i) = termios ?t" using s2(3) by (simp_all add: typed_def)
    have t2: "typed i s2 (edit ?t ys b) s2" using s2(3) flags_cong(10)[of "tty_table s2 i" "tty_table ?s1 i"] by (simp add: typed_def)
    have e2: "edit (tty_table s2 i) = edit ?t" by (rule flags_cong(9)[OF r2(2)])
    have u2: "I_UCLC (tty_table s2 i) = I_UCLC ?t" by (simp add: I_UCLC_def r2(2))
    obtain n s' where n: "cook_loop fuel wr i s2 = Inr s'" "n \<le> length ks'" "inv i s'" "q_ok (read_q (tty_table s' i))"
      "q_list (read_q (tty_table s' i)) = drop n ks'"
      "typed i (upd_tty i (\<lambda>t. t\<lparr>read_q := read_q (tty_table s' i)\<rparr>) s2) (foldl (edit ?t) (edit ?t ys b) (take n ks')) s'"
      "n < length ks' \<longrightarrow> length (foldl (edit ?t) (edit ?t ys b) (take n ks')) = 1023"
      using Suc.IH[OF s2(2) _ _ t2, unfolded r2(1) e2 u2, OF _ _ ks''] g(2,3) by blast
    have "typed i (upd_tty i (\<lambda>t. t\<lparr>read_q := read_q (tty_table s' i)\<rparr>) s) (foldl (edit ?t) (edit ?t ys b) (take n ks')) s'"
      using n(6) s2(3) flags_cong(10)[of "(tty_table s2 i)\<lparr>read_q := r\<rparr>" "?t\<lparr>read_q := r\<rparr>" for r]
      by (simp add: typed_def)
    then show ?thesis using n s2(1) ks by (intro exI[of _ "Suc n"] exI[of _ s']) simp
  qed
qed simp

end


section \<open>Lines are read as they were typed\<close>

lemma length_edit: "length (edit t xs b) \<le> Suc (length xs)"
proof -
  have "length (dropWhile P (rev xs)) \<le> Suc (length xs)" for P
    using length_dropWhile_le[of P "rev xs"] by simp
  moreover have "length xs - Suc 0 \<le> Suc (length xs)" by simp
  ultimately show ?thesis by (simp add: edit_def split: sum.split option.split)
qed

lemma length_foldl_edit: "length (foldl (edit t) xs ks) \<le> length xs + length ks"
proof (induction ks arbitrary: xs)
  case (Cons b ks)
  show ?case using Cons.IH[of "edit t xs b"] length_edit[of t xs b] by simp
qed simp

text \<open>
  What a read of \<open>nr\<close> characters takes from a text that has a complete line: the bytes, and what is
  left. The character that ends input is taken and not delivered.
\<close>

definition take_line :: "tty_struct \<Rightarrow> nat \<Rightarrow> u8 list \<Rightarrow> u8 list \<times> u8 list" where
  "take_line t nr xs =
     (let l = takeWhile (\<lambda>b. \<not> line_end t b) xs; rest = drop (length l) xs
      in if nr \<le> length l then (take nr l, drop nr xs)
         else if is_cc VEOF t (sint (hd rest)) then (l, tl rest)
         else (l @ [hd rest], tl rest))"

lemma take_line_Cons:
  "take_line t (Suc nr) (x # xs) =
     (if is_cc VEOF t (sint x) then ([], xs)
      else if nr = 0 \<or> line_end t x then ([x], xs)
      else let (a, b) = take_line t nr xs in (x # a, b))"
  by (auto simp: take_line_def Let_def line_end_def)

lemma typed_tail:
  assumes "typed i s (x # xs) s1"
  shows "fst (take_secondary i s1) = x \<and> typed i s xs (snd (take_secondary i s1))"
proof -
  let ?q = "secondary (tty_table s1 i)"
  have q: "q_ok ?q" "q_list ?q = x # xs" using assms by (simp_all add: typed_def)
  obtain p where g: "GETCH ?q = (x, p)" "q_ok p" "q_list p = xs" "q_data p = q_data ?q"
    using GETCH_list[OF q(1)] q(2) by (cases "GETCH ?q") (auto simp: GETCH_def)
  have tm: "termios (tty_table s1 i) = termios (tty_table s i)" using assms by (simp add: typed_def)
  have n: "q_list (p\<lparr>q_data := n\<rparr>) = q_list p" "q_ok (p\<lparr>q_data := n\<rparr>) = q_ok p" for n
    by (simp_all add: q_list_def q_ok_def CHARS_def)
  have d: "q_data ?q = of_nat (line_count (tty_table s i) (x # xs))" using assms by (simp add: typed_def)
  have e: "is_cc VEOF (tty_table s1 i) (sint x) \<or> sint x = 10 \<longleftrightarrow> line_end (tty_table s i) x"
    unfolding line_end_def flags_cong(6)[OF tm] by blast
  show ?thesis using assms d e g n by (auto simp: take_secondary_def typed_def line_count_def)
qed

lemma read_line_typed:
  "typed i s ys s1 \<Longrightarrow> L_CANON (tty_table s i) \<Longrightarrow> list_ex (line_end (tty_table s i)) ys \<Longrightarrow> 0 < nr \<Longrightarrow> length ys < fuel \<Longrightarrow>
    \<exists>nr' s2. read_line fuel i nr out s1 = Inr (out @ fst (take_line (tty_table s i) nr ys), nr', s2) \<and>
      typed i s (snd (take_line (tty_table s i) nr ys)) s2"
proof (induction fuel arbitrary: ys s1 nr out)
  case (Suc fuel)
  let ?t = "tty_table s i"
  obtain x xs where ys: "ys = x # xs" using Suc.prems(3) by (cases ys) auto
  obtain n where n: "nr = Suc n" using Suc.prems(4) by (cases nr) auto
  obtain s2 where g: "take_secondary i s1 = (x, s2)" "typed i s xs s2"
    using typed_tail[OF Suc.prems(1)[unfolded ys]] by (cases "take_secondary i s1") auto
  have tm: "termios (tty_table s1 i) = termios ?t" using Suc.prems(1) by (simp add: typed_def)
  note fl = flags_cong(1)[OF tm] flags_cong(6)[OF tm]
  have e: "line_end ?t x \<longleftrightarrow> sint x = 10 \<or> is_cc VEOF ?t (sint x)" by (simp add: line_end_def)
  note rl = read_line.simps(2)[of fuel i nr out s1, unfolded Let_def g(1) fl prod.case]
  show ?case
  proof (cases "is_cc VEOF ?t (sint x)")
    case True
    then show ?thesis unfolding rl using Suc.prems(2) g(2) by (simp add: ys n take_line_Cons)
  next
    case False
    note ne = this
    show ?thesis
    proof (cases "n = 0 \<or> sint x = 10")
      case True
      then show ?thesis unfolding rl using ne Suc.prems(2) g(2) e by (auto simp: ys n take_line_Cons)
    next
      case False
      then have le: "\<not> line_end ?t x" using ne e by simp
      then have ex: "list_ex (line_end ?t) xs" using Suc.prems(3) ys by simp
      then have nz: "\<not> EMPTY (secondary (tty_table s2 i))" using g(2) by (auto simp: typed_def EMPTY_iff)
      obtain nr' s3 where "read_line fuel i n (out @ [x]) s2 = Inr ((out @ [x]) @ fst (take_line ?t n xs), nr', s3)"
        "typed i s (snd (take_line ?t n xs)) s3"
        using Suc.IH[OF g(2) Suc.prems(2) ex, of n "out @ [x]"] False Suc.prems(5) ys by auto
      then show ?thesis unfolding rl using ne le nz False
        by (auto simp: ys n take_line_Cons case_prod_beta Let_def)
    qed
  qed
qed simp


context tty_output begin

lemma interrupt_edits:
  assumes "inv i s" and "tt_queues (tty_table s i)" and "q_ok (read_q (tty_table s i))" and "typed i s old s"
    and "I_UCLC (tty_table s i) \<longrightarrow> (\<forall>b\<in>set (q_list (read_q (tty_table s i))). b < 128)" and "2047 < fuel"
    and "length old + length (q_list (read_q (tty_table s i))) \<le> 1023"
  shows "\<exists>s'. copy_to_cooked fuel wr i s = Inr s' \<and> inv i (s'\<lparr>ts_kern := k\<rparr>) \<and> q_list (read_q (tty_table s' i)) = [] \<and>
    typed i s' (foldl (edit (tty_table s i)) old (q_list (read_q (tty_table s i)))) s' \<and> termios (tty_table s' i) = termios (tty_table s i) \<and> tt_queues (tty_table s' i)"
proof -
  let ?t = "tty_table s i" and ?ks = "q_list (read_q (tty_table s i))"
  have l: "length ?ks < 1024" by (simp add: CHARS_less)
  then have fuel: "length ?ks + 1024 < fuel" using assms(6) by linarith
  obtain n s1 where n: "cook_loop fuel wr i s = Inr s1" "n \<le> length ?ks" "inv i s1"
    "q_ok (read_q (tty_table s1 i))" "q_list (read_q (tty_table s1 i)) = drop n ?ks"
    "typed i (upd_tty i (\<lambda>t. t\<lparr>read_q := read_q (tty_table s1 i)\<rparr>) s) (foldl (edit ?t) old (take n ?ks)) s1"
    "n < length ?ks \<longrightarrow> length (foldl (edit ?t) old (take n ?ks)) = 1023"
    using cook_loop_ok[OF assms(1,3) HOL.refl assms(4,5) fuel] by blast
  have "n = length ?ks"
  proof (rule ccontr)
    assume "n \<noteq> length ?ks"
    then have "n < length ?ks" using n(2) by simp
    then show False using n(7) l length_foldl_edit[of ?t old "take n ?ks"] assms(7) by simp
  qed
  then have q: "q_list (read_q (tty_table s1 i)) = []" "take n ?ks = ?ks" using n(5) by simp_all
  let ?s = "emit (WakeSecondary i) s1"
  have tm: "termios (tty_table s1 i) = termios ?t" using n(6) by (simp add: typed_def)
  have lc: "line_count (tty_table s1 i) = line_count ((tty_table s i)\<lparr>read_q := r\<rparr>)" for r
    by (rule flags_cong(10)) (simp add: tm)
  have "typed i ?s (foldl (edit ?t) old ?ks) ?s" using n(6) q(2) lc by (simp add: typed_def emit_def)
  moreover have "copy_to_cooked fuel wr i s = Inr ?s" using n(1) assms(2) by (simp add: copy_to_cooked_def)
  ultimately show ?thesis using q tm n(6) assms(2) inv_emit[OF n(3)] inv_kern by (intro exI[of _ ?s]) (simp add: emit_def typed_def)
qed

end

lemma read_canonical:
  assumes "typed i s ys s" and "L_CANON (tty_table s i)" and "list_ex (line_end (tty_table s i)) ys" and "0 < nr"
    and "channel < 128" and "i = tty_index channel s" and "tt_queues (tty_table s i)" and "1024 < fuel"
    and "t_tty (cur (ts_kern s)) = int channel \<longrightarrow> tt_pgrp (tty_table s i) = pgrp (cur (ts_kern s))"
  shows "\<exists>s'. tty_read fuel wr channel nr envs s =
      Inr (if pending_signal s' \<and> fst (take_line (tty_table s i) nr ys) = [] then - ERESTARTSYS
           else int (length (fst (take_line (tty_table s i) nr ys))), fst (take_line (tty_table s i) nr ys), s') \<and>
    typed i s (snd (take_line (tty_table s i) nr ys)) s'"
proof -
  let ?t = "tty_table s i" and ?out = "fst (take_line (tty_table s i) nr ys)"
  let ?s0 = "set_timeout 0xFFFFFFFF s"
  obtain f where f: "fuel = Suc f" using assms(8) by (cases fuel) auto
  have t0: "typed i s ys ?s0" using assms(1) by (simp add: typed_def set_timeout_def)
  have "length ys = unat (CHARS (secondary ?t))" using assms(1) by (auto simp: typed_def)
  then have len: "length ys < 1024" using CHARS_less by simp
  obtain nr' s1 where r: "read_line fuel i nr [] ?s0 = Inr (?out, nr', s1)" "typed i s (snd (take_line ?t nr ys)) s1"
    using read_line_typed[OF t0 assms(2,3,4), of fuel "[]"] len assms(8) by auto
  have c1: "L_CANON (tty_table s1 i)" using flags_cong(1)[of "tty_table s1 i" ?t] r(2) assms(2) by (simp add: typed_def)
  have ne: "ys \<noteq> []" using assms(3) by auto
  have lc: "0 < line_count ?t ys" "line_count ?t ys < 1024"
  proof -
    show "0 < line_count ?t ys" using assms(3) by (auto simp: line_count_def list_ex_iff filter_empty_conv)
    show "line_count ?t ys < 1024" unfolding line_count_def by (rule le_less_trans[OF length_filter_le len])
  qed
  have "q_data (secondary ?t) \<noteq> 0"
  proof
    assume "q_data (secondary ?t) = 0"
    then have "(of_nat (line_count ?t ys) :: u32) = 0" using assms(1) by (simp add: typed_def)
    then have "line_count ?t ys mod 2 ^ 32 = 0" by (simp add: word_unat_eq_iff unat_of_nat)
    then show False using lc by simp
  qed
  then have w: "\<not> must_wait (tty_table ?s0 i)"
    using assms(1) ne by (simp add: must_wait_def set_timeout_def EMPTY_iff typed_def)
  have su: "read_setup ?t nr s = (0, int nr, ?s0)" using assms(2) by (simp add: read_setup_def)
  have loop: "read_loop fuel (\<lambda>s. Inr s) hup i nr (int nr) 0 envs [] ?s0 = Inr (?out, envs, emit (WakeRead i) s1)" for hup
    using assms(4) w r(1) c1 by (simp add: f emit_def)
  let ?s' = "set_timeout 0 (emit (WakeRead i) s1)"
  have c: "\<not> channel > 255" "\<not> channel \<ge> 128" "\<not> channel \<ge> 192" using assms(5) by simp_all
  have fg: "\<not> (t_tty (cur (ts_kern s)) = int channel \<and> tt_pgrp ?t \<noteq> pgrp (cur (ts_kern s)))" using assms(9) by blast
  have "tty_read fuel wr channel nr envs s = Inr (if pending_signal ?s' \<and> ?out = [] then - ERESTARTSYS else int (length ?out), ?out, ?s')"
    unfolding tty_read_def Let_def if_not_P[OF c(1)] if_not_P[OF c(2)] assms(6)[symmetric] if_not_P[OF fg]
    using assms(7) c(3) by (simp add: su loop)
  moreover have "typed i s (snd (take_line ?t nr ys)) ?s'" using r(2) by (simp add: typed_def set_timeout_def emit_def)
  ultimately show ?thesis by blast
qed


section \<open>Serial lines\<close>

text \<open>The driver of a serial line only switches the transmitter on; the interrupt takes the characters.\<close>

interpretation serial: tty_output "tty_call_write con fuel (Suc d)" "\<lambda>i s. tt_write (tty_table s i) = RsWrite" for con fuel d
proof unfold_locales
  fix i and s :: "'a tty_state_scheme" assume "tt_write (tty_table s i) = RsWrite"
  then show "\<exists>s'. tty_call_write con fuel (Suc d) i s = Inr s' \<and> tt_write (tty_table s' i) = RsWrite \<and> same_input i s s'"
    by (simp add: rs_write_def same_input_def emit_def)
qed (simp_all add: put_write_def emit_def)

lemma serial_line_read:
  assumes "i = tty_index tty s" and "tt_write (tty_table s i) = RsWrite" and "tt_queues (tty_table s i)" and "L_CANON (tty_table s i)"
    and "q_ok (read_q (tty_table s i))" and "I_UCLC (tty_table s i) \<longrightarrow> (\<forall>b\<in>set (q_list (read_q (tty_table s i))). b < 128)"
    and "q_ok (secondary (tty_table s i))"
    and "q_data (secondary (tty_table s i)) = of_nat (line_count (tty_table s i) (q_list (secondary (tty_table s i))))"
    and "length (q_list (secondary (tty_table s i))) + length (q_list (read_q (tty_table s i))) \<le> 1023"
    and "ys = foldl (edit (tty_table s i)) (q_list (secondary (tty_table s i))) (q_list (read_q (tty_table s i)))" and "list_ex (line_end (tty_table s i)) ys"
    and "take_line (tty_table s i) nr ys = (line, rest)"
    and "2047 < fuel" and "0 < nr" and "0 < tty" and "tty < 128"
  shows "\<exists>s1. do_tty_interrupt fuel (tty_call_write con fuel (Suc d)) tty s = Inr s1 \<and>
    (\<forall>k. (t_tty (cur k) = int tty \<longrightarrow> tt_pgrp (tty_table s1 i) = pgrp (cur k)) \<longrightarrow>
      (\<exists>s2. tty_read fuel wr tty nr envs (s1\<lparr>ts_kern := k\<rparr>) =
          Inr (if pending_signal s2 \<and> line = [] then - ERESTARTSYS else int (length line), line, s2) \<and>
        q_list (secondary (tty_table s2 i)) = rest))"
proof -
  have t: "typed i s (q_list (secondary (tty_table s i))) s" using assms(7,8) by (simp add: typed_def)
  obtain s1 where c: "copy_to_cooked fuel (tty_call_write con fuel (Suc d)) i s = Inr s1" "typed i s1 ys s1"
    "termios (tty_table s1 i) = termios (tty_table s i)" "tt_queues (tty_table s1 i)"
    using serial.interrupt_edits[OF assms(2,3,5) t assms(6,13,9), where k = "ts_kern s" and con = con and d = d] assms(10) by blast
  note fl = flags_cong(1,8)[OF c(3)]
  have tl: "take_line (tty_table s1 i) nr ys = (line, rest)"
    using assms(12) unfolding take_line_def fl flags_cong(6)[OF c(3)] .
  have "\<exists>s2. tty_read fuel wr tty nr envs (s1\<lparr>ts_kern := k\<rparr>) =
          Inr (if pending_signal s2 \<and> line = [] then - ERESTARTSYS else int (length line), line, s2) \<and>
        q_list (secondary (tty_table s2 i)) = rest"
    if "t_tty (cur k) = int tty \<longrightarrow> tt_pgrp (tty_table s1 i) = pgrp (cur k)" for k
  proof -
    let ?s = "s1\<lparr>ts_kern := k\<rparr>"
    have "typed i ?s ys ?s" using c(2) by (simp add: typed_def)
    from read_canonical[OF this, of nr tty fuel wr envs] that assms(1,4,11,13-16) c(4) tl fl show ?thesis
      by (auto simp: tty_index_def typed_def)
  qed
  then show ?thesis using c(1) assms(1) by (auto simp: do_tty_interrupt_def)
qed

end
