(* ===== verification/Console.thy ===== *)
theory Console
  imports Tty
begin

text \<open>
  The console driver (\<open>kernel/chr_drv/console.c\<close>): the screens of the virtual consoles as windows of the video
  memory, and the machine that interprets what is written to a console, escape sequences included.
  \<open>Screen\<close> and \<open>ConsoleOk\<close> have what it promises. Ports are a log of writes.
\<close>

section \<open>State\<close>

datatype es = ESnormal | ESesc | ESsquare | ESgetpars | ESgotpars | ESfunckey | ESsetterm | ESsetgraph | ESnone

record vc =
  vc_video_erase_char :: u16
  vc_attr :: u8
  vc_def_attr :: u8
  vc_bold_attr :: u32
  vc_ques :: bool
  vc_state :: es
  vc_restate :: es
  vc_checkin :: u32
  vc_origin :: u32
  vc_scr_end :: u32
  vc_pos :: u32
  vc_x :: u32
  vc_y :: u32
  vc_top :: u32
  vc_bottom :: u32
  vc_npar :: u32
  vc_par :: "nat \<Rightarrow> u32"
  vc_video_mem_start :: u32
  vc_video_mem_end :: u32
  vc_saved_x :: u32
  vc_saved_y :: u32
  vc_iscolor :: bool
  vc_translate :: "u8 list"

datatype video = MDA | CGA | EGAM | EGAC

type_synonym vmem = "u32 \<Rightarrow> u8"

text \<open>
  \<open>table_list\<close> is kept as the number of the console whose queues the keyboard uses; \<open>port_b\<close> is what port 0x61 reads,
  \<open>ports\<close> what was written to ports, the last first.
\<close>

record con_state = tty_state +
  vc_cons :: "nat \<Rightarrow> vc"
  vram :: vmem
  video_type :: video
  video_num_columns :: u32
  video_num_lines :: u32
  video_size_row :: u32
  video_mem_base :: u32
  video_mem_term :: u32
  video_port_reg :: u16
  video_port_val :: u16
  can_do_colour :: bool
  NR_CONSOLES :: u32
  blankinterval :: u32
  blankcount :: u32
  beepcount :: u32
  table_list :: nat
  port_b :: u32
  ports :: "(u32 \<times> u16) list"

definition MAX_CONSOLES :: nat where "MAX_CONSOLES = 8"
definition NPAR :: nat where "NPAR = 16"

definition EGA :: "con_state \<Rightarrow> bool" where "EGA s \<longleftrightarrow> video_type s = EGAC \<or> video_type s = EGAM"

definition upd_vc :: "nat \<Rightarrow> (vc \<Rightarrow> vc) \<Rightarrow> con_state \<Rightarrow> con_state" where
  "upd_vc n f s = s\<lparr>vc_cons := (vc_cons s)(n := f (vc_cons s n))\<rparr>"

definition outb :: "u32 \<Rightarrow> u16 \<Rightarrow> con_state \<Rightarrow> con_state" where
  "outb v p s = s\<lparr>ports := (v AND 0xFF, p) # ports s\<rparr>"

section \<open>Video memory\<close>

definition rd16 :: "u32 \<Rightarrow> vmem \<Rightarrow> u16" where
  "rd16 p m = ucast (m p) OR push_bit 8 (ucast (m (p + 1)))"

definition wr16 :: "u32 \<Rightarrow> u16 \<Rightarrow> vmem \<Rightarrow> vmem" where
  "wr16 p v m = m(p := ucast v, p + 1 := ucast (drop_bit 8 v))"

definition copy32 :: "u32 \<Rightarrow> u32 \<Rightarrow> vmem \<Rightarrow> vmem" where
  "copy32 d s m = m(d := m s, d + 1 := m (s + 1), d + 2 := m (s + 2), d + 3 := m (s + 3))"

text \<open>\<open>rep stosw\<close> and \<open>rep movsl\<close>, going up (\<open>cld\<close>) and down (\<open>std\<close>).\<close>

fun stosw :: "nat \<Rightarrow> u16 \<Rightarrow> u32 \<Rightarrow> vmem \<Rightarrow> vmem" where
  "stosw 0 v d m = m"
| "stosw (Suc n) v d m = stosw n v (d + 2) (wr16 d v m)"

fun movsl :: "nat \<Rightarrow> u32 \<Rightarrow> u32 \<Rightarrow> vmem \<Rightarrow> vmem" where
  "movsl 0 d s m = m"
| "movsl (Suc n) d s m = movsl n (d + 4) (s + 4) (copy32 d s m)"

fun stosw_down :: "nat \<Rightarrow> u16 \<Rightarrow> u32 \<Rightarrow> vmem \<Rightarrow> vmem" where
  "stosw_down 0 v d m = m"
| "stosw_down (Suc n) v d m = stosw_down n v (d - 2) (wr16 d v m)"

fun movsl_down :: "nat \<Rightarrow> u32 \<Rightarrow> u32 \<Rightarrow> vmem \<Rightarrow> vmem" where
  "movsl_down 0 d s m = m"
| "movsl_down (Suc n) d s m = movsl_down n (d - 4) (s - 4) (copy32 d s m)"

text \<open>Moving lines up and clearing the last, moving lines down and clearing the first.\<close>

definition roll_up :: "u32 \<Rightarrow> u32 \<Rightarrow> u16 \<Rightarrow> u32 \<Rightarrow> u32 \<Rightarrow> vmem \<Rightarrow> vmem" where
  "roll_up longs cols v d s m = stosw (unat cols) v (d + 4 * longs) (movsl (unat longs) d s m)"

definition roll_down :: "u32 \<Rightarrow> u32 \<Rightarrow> u16 \<Rightarrow> u32 \<Rightarrow> u32 \<Rightarrow> vmem \<Rightarrow> vmem" where
  "roll_down longs cols v d s m = stosw_down (unat cols) v (d - 4 * longs + 2) (movsl_down (unat longs) d s m)"

section \<open>The cursor\<close>

definition gotoxy :: "nat \<Rightarrow> u32 \<Rightarrow> u32 \<Rightarrow> con_state \<Rightarrow> con_state" where
  "gotoxy n new_x new_y s =
     (if new_x > video_num_columns s \<or> new_y \<ge> video_num_lines s then s
      else upd_vc n (\<lambda>v. v\<lparr>vc_x := new_x, vc_y := new_y,
                           vc_pos := vc_origin v + new_y * video_size_row s + push_bit 1 new_x\<rparr>) s)"

definition crtc :: "u32 \<Rightarrow> u32 \<Rightarrow> con_state \<Rightarrow> con_state" where
  "crtc reg a s =
     outb (drop_bit 1 (a - video_mem_base s)) (video_port_val s) (outb (reg + 1) (video_port_reg s)
       (outb (drop_bit 9 (a - video_mem_base s)) (video_port_val s) (outb reg (video_port_reg s) s)))"

definition set_origin :: "nat \<Rightarrow> con_state \<Rightarrow> con_state" where
  "set_origin n s = (if \<not> EGA s then s else if n \<noteq> fg_console s then s else crtc 12 (vc_origin (vc_cons s n)) s)"

definition set_cursor :: "nat \<Rightarrow> con_state \<Rightarrow> con_state" where
  "set_cursor n s =
     (let s1 = s\<lparr>blankcount := blankinterval s\<rparr>
      in if n \<noteq> fg_console s then s1 else crtc 14 (vc_pos (vc_cons s n)) s1)"

definition hide_cursor :: "nat \<Rightarrow> con_state \<Rightarrow> con_state" where
  "hide_cursor n s = crtc 14 (vc_scr_end (vc_cons s n)) s"

definition update_screen :: "con_state \<Rightarrow> con_state" where
  "update_screen s = (let s1 = set_origin (fg_console s) s in set_cursor (fg_console s1) s1)"

text \<open>\<open>change_console\<close> (\<open>tty_io.c\<close>)\<close>

definition change_console :: "u32 \<Rightarrow> con_state \<Rightarrow> con_state" where
  "change_console new s =
     (if unat new = fg_console s \<or> new \<ge> NR_CONSOLES s then s
      else update_screen (s\<lparr>fg_console := unat new, table_list := unat new\<rparr>))"

section \<open>Scrolling\<close>

definition scroll_region :: "nat \<Rightarrow> con_state \<Rightarrow> con_state" where
  "scroll_region n s =
     (let v = vc_cons s n
      in s\<lparr>vram := roll_up (drop_bit 1 ((vc_bottom v - vc_top v - 1) * video_num_columns s)) (video_num_columns s)
             (vc_video_erase_char v) (vc_origin v + video_size_row s * vc_top v)
             (vc_origin v + video_size_row s * (vc_top v + 1)) (vram s)\<rparr>)"

definition scroll_window :: "nat \<Rightarrow> con_state \<Rightarrow> con_state" where
  "scroll_window n s =
     (let row = video_size_row s;
          s1 = upd_vc n (\<lambda>v. v\<lparr>vc_origin := vc_origin v + row, vc_pos := vc_pos v + row, vc_scr_end := vc_scr_end v + row\<rparr>) s;
          v = vc_cons s1 n
      in set_origin n
           (if vc_scr_end v > vc_video_mem_end v
            then upd_vc n (\<lambda>v. v\<lparr>vc_scr_end := vc_scr_end v - (vc_origin v - vc_video_mem_start v),
                                  vc_pos := vc_pos v - (vc_origin v - vc_video_mem_start v),
                                  vc_origin := vc_video_mem_start v\<rparr>)
                   (s1\<lparr>vram := roll_up (drop_bit 1 ((video_num_lines s - 1) * video_num_columns s)) (video_num_columns s)
                          (vc_video_erase_char v) (vc_video_mem_start v) (vc_origin v) (vram s1)\<rparr>)
            else s1\<lparr>vram := stosw (unat (video_num_columns s)) (vc_video_erase_char v) (vc_scr_end v - row) (vram s1)\<rparr>))"

definition scrup :: "nat \<Rightarrow> con_state \<Rightarrow> con_state" where
  "scrup n s =
     (let v = vc_cons s n
      in if vc_bottom v \<le> vc_top v then s
         else if EGA s then
           (if vc_top v = 0 \<and> vc_bottom v = video_num_lines s then scroll_window n s else scroll_region n s)
         else scroll_region n s)"

text \<open>The two branches of \<open>scrdown\<close> are the same.\<close>

definition scrdown :: "nat \<Rightarrow> con_state \<Rightarrow> con_state" where
  "scrdown n s =
     (let v = vc_cons s n
      in if vc_bottom v \<le> vc_top v then s
         else s\<lparr>vram := roll_down (drop_bit 1 ((vc_bottom v - vc_top v - 1) * video_num_columns s)) (video_num_columns s)
                  (vc_video_erase_char v) (vc_origin v + video_size_row s * vc_bottom v - 4)
                  (vc_origin v + video_size_row s * (vc_bottom v - 1) - 4) (vram s)\<rparr>)"

definition lf :: "nat \<Rightarrow> con_state \<Rightarrow> con_state" where
  "lf n s =
     (if vc_y (vc_cons s n) + 1 < vc_bottom (vc_cons s n)
      then upd_vc n (\<lambda>v. v\<lparr>vc_y := vc_y v + 1, vc_pos := vc_pos v + video_size_row s\<rparr>) s
      else scrup n s)"

definition ri :: "nat \<Rightarrow> con_state \<Rightarrow> con_state" where
  "ri n s =
     (if vc_y (vc_cons s n) > vc_top (vc_cons s n)
      then upd_vc n (\<lambda>v. v\<lparr>vc_y := vc_y v - 1, vc_pos := vc_pos v - video_size_row s\<rparr>) s
      else scrdown n s)"

definition cr :: "nat \<Rightarrow> con_state \<Rightarrow> con_state" where
  "cr n s = upd_vc n (\<lambda>v. v\<lparr>vc_pos := vc_pos v - push_bit 1 (vc_x v), vc_x := 0\<rparr>) s"

definition del :: "nat \<Rightarrow> con_state \<Rightarrow> con_state" where
  "del n s =
     (let v = vc_cons s n
      in if vc_x v \<noteq> 0
         then (upd_vc n (\<lambda>v. v\<lparr>vc_pos := vc_pos v - 2, vc_x := vc_x v - 1\<rparr>) s)
                \<lparr>vram := wr16 (vc_pos v - 2) (vc_video_erase_char v) (vram s)\<rparr>
         else s)"

section \<open>Erasing, inserting and deleting\<close>

definition erase_cells :: "u32 \<Rightarrow> u32 \<Rightarrow> nat \<Rightarrow> con_state \<Rightarrow> con_state" where
  "erase_cells num start n s = s\<lparr>vram := stosw (unat num) (vc_video_erase_char (vc_cons s n)) start (vram s)\<rparr>"

definition csi_J :: "nat \<Rightarrow> u32 \<Rightarrow> con_state \<Rightarrow> con_state" where
  "csi_J n vpar s =
     (let v = vc_cons s n
      in if vpar = 0 then erase_cells (drop_bit 1 (vc_scr_end v - vc_pos v)) (vc_pos v) n s
         else if vpar = 1 then erase_cells (drop_bit 1 (vc_pos v - vc_origin v)) (vc_origin v) n s
         else if vpar = 2 then erase_cells (video_num_columns s * video_num_lines s) (vc_origin v) n s
         else s)"

definition csi_K :: "nat \<Rightarrow> u32 \<Rightarrow> con_state \<Rightarrow> con_state" where
  "csi_K n vpar s =
     (let v = vc_cons s n; cols = video_num_columns s
      in if vpar = 0 then (if vc_x v \<ge> cols then s else erase_cells (cols - vc_x v) (vc_pos v) n s)
         else if vpar = 1 then erase_cells (if vc_x v < cols then vc_x v else cols) (vc_pos v - push_bit 1 (vc_x v)) n s
         else if vpar = 2 then erase_cells cols (vc_pos v - push_bit 1 (vc_x v)) n s
         else s)"

fun shift_right :: "nat \<Rightarrow> u32 \<Rightarrow> u16 \<Rightarrow> vmem \<Rightarrow> vmem" where
  "shift_right 0 p old m = m"
| "shift_right (Suc k) p old m = shift_right k (p + 2) (rd16 p m) (wr16 p old m)"

fun shift_left :: "nat \<Rightarrow> u32 \<Rightarrow> u16 \<Rightarrow> vmem \<Rightarrow> vmem" where
  "shift_left 0 p e m = wr16 p e m"
| "shift_left (Suc k) p e m = shift_left k (p + 2) e (wr16 p (rd16 (p + 2) m) m)"

definition insert_char :: "nat \<Rightarrow> con_state \<Rightarrow> con_state" where
  "insert_char n s =
     (let v = vc_cons s n
      in s\<lparr>vram := shift_right (unat (video_num_columns s) - unat (vc_x v)) (vc_pos v) (vc_video_erase_char v) (vram s)\<rparr>)"

definition delete_char :: "nat \<Rightarrow> con_state \<Rightarrow> con_state" where
  "delete_char n s =
     (let v = vc_cons s n
      in if vc_x v \<ge> video_num_columns s then s
         else s\<lparr>vram := shift_left (unat (video_num_columns s) - unat (vc_x v) - 1) (vc_pos v) (vc_video_erase_char v) (vram s)\<rparr>)"

text \<open>\<open>insert_line\<close> and \<open>delete_line\<close> scroll the part of the screen below the cursor.\<close>

definition below_cursor :: "(nat \<Rightarrow> con_state \<Rightarrow> con_state) \<Rightarrow> nat \<Rightarrow> con_state \<Rightarrow> con_state" where
  "below_cursor f n s =
     (let t = vc_top (vc_cons s n); b = vc_bottom (vc_cons s n);
          s1 = f n (upd_vc n (\<lambda>v. v\<lparr>vc_top := vc_y v, vc_bottom := video_num_lines s\<rparr>) s)
      in upd_vc n (\<lambda>v. v\<lparr>vc_top := t, vc_bottom := b\<rparr>) s1)"

definition insert_line :: "nat \<Rightarrow> con_state \<Rightarrow> con_state" where "insert_line = below_cursor scrdown"
definition delete_line :: "nat \<Rightarrow> con_state \<Rightarrow> con_state" where "delete_line = below_cursor scrup"

definition clip :: "u32 \<Rightarrow> u32 \<Rightarrow> nat" where
  "clip nr most = unat (if nr > most then most else if nr = 0 then 1 else nr)"

definition csi_at :: "nat \<Rightarrow> u32 \<Rightarrow> con_state \<Rightarrow> con_state" where
  "csi_at n nr s = (insert_char n ^^ clip nr (video_num_columns s)) s"

definition csi_L :: "nat \<Rightarrow> u32 \<Rightarrow> con_state \<Rightarrow> con_state" where
  "csi_L n nr s = (insert_line n ^^ clip nr (video_num_lines s)) s"

definition csi_P :: "nat \<Rightarrow> u32 \<Rightarrow> con_state \<Rightarrow> con_state" where
  "csi_P n nr s = (delete_char n ^^ clip nr (video_num_columns s)) s"

definition csi_M :: "nat \<Rightarrow> u32 \<Rightarrow> con_state \<Rightarrow> con_state" where
  "csi_M n nr s = (delete_line n ^^ clip nr (video_num_lines s)) s"

definition save_cur :: "nat \<Rightarrow> con_state \<Rightarrow> con_state" where
  "save_cur n = upd_vc n (\<lambda>v. v\<lparr>vc_saved_x := vc_x v, vc_saved_y := vc_y v\<rparr>)"

definition restore_cur :: "nat \<Rightarrow> con_state \<Rightarrow> con_state" where
  "restore_cur n s = gotoxy n (vc_saved_x (vc_cons s n)) (vc_saved_y (vc_cons s n)) s"

section \<open>Attributes\<close>

definition underline :: "vc \<Rightarrow> u8" where
  "underline v =
     (let a = vc_attr v
      in if \<not> vc_iscolor v then a OR 1
         else if vc_bold_attr v \<noteq> 0xFFFFFFFF then (ucast (vc_bold_attr v) AND 0x0F) OR (0xF0 AND a)
         else let new = (a AND 0xF0) OR (0xF AND NOT a)
              in if new AND 0xF = drop_bit 4 a AND 0xF then (a AND 0xF0) OR (((a AND 0xF) + 1) mod 0xF) else new)"

definition set_attr :: "u32 \<Rightarrow> bool \<Rightarrow> vc \<Rightarrow> vc" where
  "set_attr p colour v =
     (let a = vc_attr v
      in if p = 0 then v\<lparr>vc_attr := vc_def_attr v\<rparr>
         else if p = 1 then v\<lparr>vc_attr := (if vc_iscolor v then a OR 0x08 else a OR 0x0F)\<rparr>
         else if p = 4 then v\<lparr>vc_attr := underline v\<rparr>
         else if p = 5 then v\<lparr>vc_attr := a OR 0x80\<rparr>
         else if p = 7 then v\<lparr>vc_attr := push_bit 4 a OR drop_bit 4 a\<rparr>
         else if p = 22 then v\<lparr>vc_attr := a AND 0xF7\<rparr>
         else if p = 24 then v\<lparr>vc_attr := a AND 0xFE\<rparr>
         else if p = 25 then v\<lparr>vc_attr := a AND 0x7F\<rparr>
         else if p = 27 then v\<lparr>vc_attr := vc_def_attr v\<rparr>
         else if p = 39 then v\<lparr>vc_attr := (a AND 0xF0) OR (vc_def_attr v AND 0x0F)\<rparr>
         else if p = 49 then v\<lparr>vc_attr := (a AND 0x0F) OR (vc_def_attr v AND 0xF0)\<rparr>
         else if \<not> colour then v
         else if 30 \<le> p \<and> p \<le> 38 then v\<lparr>vc_iscolor := True, vc_attr := (a AND 0xF0) OR ucast (p - 30)\<rparr>
         else if 40 \<le> p \<and> p \<le> 48 then v\<lparr>vc_iscolor := True, vc_attr := (a AND 0x0F) OR push_bit 4 (ucast (p - 40))\<rparr>
         else v\<lparr>vc_iscolor := True\<rparr>)"

definition csi_m :: "nat \<Rightarrow> con_state \<Rightarrow> con_state" where
  "csi_m n s =
     upd_vc n (\<lambda>v. foldl (\<lambda>v i. set_attr (vc_par v i) (can_do_colour s) v) v [0..<Suc (unat (vc_npar v))]) s"

section \<open>The machine behind a console\<close>

text \<open>
  The two tables of \<open>translations\<close>. The second has \<open>\\007\<close> where \<open>\007\<close> was meant, so \<open>|\<close>, \<open>}\<close> and \<open>~\<close> are
  shown as a backslash and two zeros.
\<close>

definition NORM_TRANS :: "u8 list" where "NORM_TRANS = map of_nat [32..<127] @ [32]"

definition GRAF_TRANS :: "u8 list" where
  "GRAF_TRANS = map of_nat [32..<95] @ [32] @
     [4, 0xB1, 7, 7, 7, 7, 0xF8, 0xF1, 7, 7, 0xBD, 0xB7, 0xD6, 0xD3, 0xD7, 0xC4,
      0xC4, 0xC4, 0xC4, 0xC4, 0xC7, 0xB6, 0xD0, 0xD2, 0xBA, 0xF3, 0xF2, 0xE3, 0x5C, 0x30, 0x30, 0x37, 0x9C, 7, 32]"

definition RESPONSE :: "u8 list" where "RESPONSE = [27, 0x5B, 0x3F, 0x31, 0x3B, 0x32, 0x63]"

definition respond :: "con_state writer \<Rightarrow> con_state writer" where
  "respond cook i s = cook i (upd_tty i (\<lambda>t. t\<lparr>read_q := fold PUTCH RESPONSE (read_q t)\<rparr>) s)"

definition sysbeep :: "con_state \<Rightarrow> con_state" where
  "sysbeep s = s\<lparr>beepcount := 12, ports := (6, 0x42) # (0x37, 0x42) # (0xB6, 0x43) # ((port_b s OR 3) AND 0xFF, 0x61) # ports s\<rparr>"

definition set_state :: "es \<Rightarrow> nat \<Rightarrow> con_state \<Rightarrow> con_state" where
  "set_state e n = upd_vc n (\<lambda>v. v\<lparr>vc_state := e\<rparr>)"

text \<open>Going on to the next line when the cursor stands behind the last column.\<close>

definition wrap_line :: "nat \<Rightarrow> con_state \<Rightarrow> con_state" where
  "wrap_line n s =
     lf n (upd_vc n (\<lambda>v. v\<lparr>vc_x := vc_x v - video_num_columns s, vc_pos := vc_pos v - video_size_row s\<rparr>) s)"

definition put_cell :: "u8 \<Rightarrow> nat \<Rightarrow> con_state \<Rightarrow> con_state" where
  "put_cell b n s =
     (let s1 = (if vc_x (vc_cons s n) \<ge> video_num_columns s then wrap_line n s else s); v = vc_cons s1 n
      in upd_vc n (\<lambda>v. v\<lparr>vc_pos := vc_pos v + 2, vc_x := vc_x v + 1\<rparr>)
           (s1\<lparr>vram := wr16 (vc_pos v) (ucast b OR push_bit 8 (ucast (vc_attr v))) (vram s1)\<rparr>))"

definition tab :: "nat \<Rightarrow> con_state \<Rightarrow> con_state" where
  "tab n s =
     (let c = 8 - (vc_x (vc_cons s n) AND 7);
          s1 = upd_vc n (\<lambda>v. v\<lparr>vc_x := vc_x v + c, vc_pos := vc_pos v + push_bit 1 c\<rparr>) s
      in if vc_x (vc_cons s1 n) > video_num_columns s then wrap_line n s1 else s1)"

definition backspace :: "nat \<Rightarrow> con_state \<Rightarrow> con_state" where
  "backspace n s =
     (if vc_x (vc_cons s n) \<noteq> 0 then upd_vc n (\<lambda>v. v\<lparr>vc_x := vc_x v - 1, vc_pos := vc_pos v - 2\<rparr>) s else s)"

text \<open>\<open>c\<close> is the character as C compares it, a signed one.\<close>

definition con_normal :: "int \<Rightarrow> nat \<Rightarrow> con_state \<Rightarrow> con_state" where
  "con_normal c n s =
     (if 31 < c \<and> c < 127 then put_cell (vc_translate (vc_cons s n) ! nat (c - 32)) n s
      else if c = 27 then set_state ESesc n s
      else if c = 10 \<or> c = 11 \<or> c = 12 then lf n s
      else if c = 13 then cr n s
      else if c = uint (c_cc (termios (tty_table s n)) VERASE) then del n s
      else if c = 8 then backspace n s
      else if c = 9 then tab n s
      else if c = 7 then sysbeep s
      else if c = 14 then upd_vc n (\<lambda>v. v\<lparr>vc_translate := GRAF_TRANS\<rparr>) s
      else if c = 15 then upd_vc n (\<lambda>v. v\<lparr>vc_translate := NORM_TRANS\<rparr>) s
      else s)"

definition INIT_C_CC :: "nat \<Rightarrow> u8" where
  "INIT_C_CC n = (let cc = [3, 28, 127, 21, 4, 0, 1, 0, 17, 19, 26, 0, 18, 15, 23, 22, 0] in if n < 17 then cc ! n else 0)"

definition DEF_TERMIOS :: termios where
  "DEF_TERMIOS = \<lparr>c_iflag = 0x100, c_oflag = 5, c_cflag = 0, c_lflag = 0x400 OR 1 OR 2 OR 8 OR 0x200 OR 0x800,
     c_line = 0, c_cc = INIT_C_CC\<rparr>"

definition con_esc :: "con_state writer \<Rightarrow> int \<Rightarrow> con_state writer" where
  "con_esc cook c n s =
     (let s1 = set_state ESnormal n s
      in if c = 0x5B then Inr (set_state ESsquare n s1)
         else if c = 0x45 then Inr (gotoxy n 0 (vc_y (vc_cons s1 n) + 1) s1)
         else if c = 0x4D then Inr (ri n s1)
         else if c = 0x44 then Inr (lf n s1)
         else if c = 0x5A then respond cook n s1
         else if c = 0x37 then Inr (save_cur n s1)
         else if c = 0x38 then Inr (restore_cur n s1)
         else if c = 0x28 \<or> c = 0x29 then Inr (set_state ESsetgraph n s1)
         else if c = 0x50 then Inr (set_state ESsetterm n s1)
         else if c = 0x23 then Inr (set_state ESnone n s1)
         else if c = 0x63 then
           Inr (upd_vc n (\<lambda>v. v\<lparr>vc_state := ESnormal, vc_restate := ESnormal, vc_checkin := 0, vc_top := 0,
                                vc_bottom := video_num_lines s\<rparr>)
                  (upd_tty n (\<lambda>t. t\<lparr>termios := DEF_TERMIOS\<rparr>) s1))
         else Inr s1)"

definition set_par :: "nat \<Rightarrow> u32 \<Rightarrow> nat \<Rightarrow> con_state \<Rightarrow> con_state" where
  "set_par k p n = upd_vc n (\<lambda>v. v\<lparr>vc_par := (vc_par v)(k := p)\<rparr>)"

text \<open>A parameter that counts from one; a count of zero means one.\<close>

definition from_one :: "nat \<Rightarrow> nat \<Rightarrow> con_state \<Rightarrow> con_state" where
  "from_one k n s = (let p = vc_par (vc_cons s n) k in if p \<noteq> 0 then set_par k (p - 1) n s else s)"

definition at_least_one :: "nat \<Rightarrow> nat \<Rightarrow> con_state \<Rightarrow> con_state" where
  "at_least_one k n s = (if vc_par (vc_cons s n) k = 0 then set_par k 1 n s else s)"

definition set_margins :: "nat \<Rightarrow> con_state \<Rightarrow> con_state" where
  "set_margins n s =
     (let s1 = from_one 0 n s;
          s2 = (if vc_par (vc_cons s1 n) 1 = 0 then set_par 1 (video_num_lines s1) n s1 else s1);
          p0 = vc_par (vc_cons s2 n) 0; p1 = vc_par (vc_cons s2 n) 1
      in if p0 < p1 \<and> p1 \<le> video_num_lines s2 then upd_vc n (\<lambda>v. v\<lparr>vc_top := p0, vc_bottom := p1\<rparr>) s2 else s2)"

definition set_term :: "int \<Rightarrow> nat \<Rightarrow> con_state \<Rightarrow> con_state" where
  "set_term c n s =
     (let v = vc_cons s n; p = vc_par v
      in if \<not> (vc_npar v \<ge> 2 \<and> p 1 - 13 = p 0 \<and> p 2 - 17 = p 0) then s
         else
           let s1 = (if c = 0x6C \<and> p 0 \<le> 60 then s\<lparr>blankinterval := 6000 * p 0, blankcount := 6000 * p 0\<rparr> else s)
           in if c = 0x62 then upd_vc n (\<lambda>v. v\<lparr>vc_bold_attr := p 0\<rparr>) s1 else s1)"

text \<open>The command that ends a sequence of parameters.\<close>

definition csi_command :: "int \<Rightarrow> nat \<Rightarrow> con_state \<Rightarrow> con_state" where
  "csi_command c n s =
     (let X = \<lambda>s. vc_x (vc_cons s n); Y = \<lambda>s. vc_y (vc_cons s n); P = \<lambda>s. vc_par (vc_cons s n)
      in if c = 0x47 \<or> c = 0x60 then let s1 = from_one 0 n s in gotoxy n (P s1 0) (Y s1) s1
         else if c = 0x41 then let s1 = at_least_one 0 n s in gotoxy n (X s1) (Y s1 - P s1 0) s1
         else if c = 0x42 \<or> c = 0x65 then let s1 = at_least_one 0 n s in gotoxy n (X s1) (Y s1 + P s1 0) s1
         else if c = 0x43 \<or> c = 0x61 then let s1 = at_least_one 0 n s in gotoxy n (X s1 + P s1 0) (Y s1) s1
         else if c = 0x44 then let s1 = at_least_one 0 n s in gotoxy n (X s1 - P s1 0) (Y s1) s1
         else if c = 0x45 then let s1 = at_least_one 0 n s in gotoxy n 0 (Y s1 + P s1 0) s1
         else if c = 0x46 then let s1 = at_least_one 0 n s in gotoxy n 0 (Y s1 - P s1 0) s1
         else if c = 0x64 then let s1 = from_one 0 n s in gotoxy n (X s1) (P s1 0) s1
         else if c = 0x48 \<or> c = 0x66 then let s1 = from_one 1 n (from_one 0 n s) in gotoxy n (P s1 1) (P s1 0) s1
         else if c = 0x4A then csi_J n (P s 0) s
         else if c = 0x4B then csi_K n (P s 0) s
         else if c = 0x4C then csi_L n (P s 0) s
         else if c = 0x4D then csi_M n (P s 0) s
         else if c = 0x50 then csi_P n (P s 0) s
         else if c = 0x40 then csi_at n (P s 0) s
         else if c = 0x6D then csi_m n s
         else if c = 0x72 then set_margins n s
         else if c = 0x73 then save_cur n s
         else if c = 0x75 then restore_cur n s
         else if c = 0x6C \<or> c = 0x62 then set_term c n s
         else s)"

definition con_gotpars :: "int \<Rightarrow> nat \<Rightarrow> con_state \<Rightarrow> con_state" where
  "con_gotpars c n s =
     (let s1 = set_state ESnormal n s
      in if vc_ques (vc_cons s1 n) then upd_vc n (\<lambda>v. v\<lparr>vc_ques := False\<rparr>) s1 else csi_command c n s1)"

definition con_getpars :: "int \<Rightarrow> nat \<Rightarrow> con_state \<Rightarrow> con_state" where
  "con_getpars c n s =
     (let v = vc_cons s n
      in if c = 0x3B \<and> vc_npar v < of_nat (NPAR - 1) then upd_vc n (\<lambda>v. v\<lparr>vc_npar := vc_npar v + 1\<rparr>) s
         else if 0x30 \<le> c \<and> c \<le> 0x39
         then set_par (unat (vc_npar v)) (10 * vc_par v (unat (vc_npar v)) + word_of_int c - 0x30) n s
         else con_gotpars c n (set_state ESgotpars n s))"

definition con_square :: "int \<Rightarrow> nat \<Rightarrow> con_state \<Rightarrow> con_state" where
  "con_square c n s =
     (let s1 = upd_vc n (\<lambda>v. v\<lparr>vc_par := (\<lambda>k. if k < NPAR then 0 else vc_par v k), vc_npar := 0, vc_state := ESgetpars\<rparr>) s
      in if c = 0x5B then set_state ESfunckey n s1
         else
           let s2 = upd_vc n (\<lambda>v. v\<lparr>vc_ques := (c = 0x3F)\<rparr>) s1
           in if c = 0x3F then s2 else con_getpars c n s2)"

definition con_setterm :: "int \<Rightarrow> nat \<Rightarrow> con_state \<Rightarrow> con_state" where
  "con_setterm c n s =
     (let s1 = set_state ESnormal n s
      in if c = 0x53
         then upd_vc n (\<lambda>v. v\<lparr>vc_def_attr := vc_attr v,
                 vc_video_erase_char := (vc_video_erase_char v AND 0xFF) OR push_bit 8 (ucast (vc_attr v))\<rparr>) s1
         else s1)"

definition con_setgraph :: "int \<Rightarrow> nat \<Rightarrow> con_state \<Rightarrow> con_state" where
  "con_setgraph c n s =
     (let s1 = set_state ESnormal n s
      in if c = 0x30 then upd_vc n (\<lambda>v. v\<lparr>vc_translate := GRAF_TRANS\<rparr>) s1
         else if c = 0x42 then upd_vc n (\<lambda>v. v\<lparr>vc_translate := NORM_TRANS\<rparr>) s1
         else s1)"

definition con_char :: "con_state writer \<Rightarrow> int \<Rightarrow> con_state writer" where
  "con_char cook c n s =
     (let s1 = (if c = 24 \<or> c = 26 then set_state ESnormal n s else s)
      in case vc_state (vc_cons s1 n) of
           ESnormal \<Rightarrow> Inr (con_normal c n s1)
         | ESesc \<Rightarrow> con_esc cook c n s1
         | ESsquare \<Rightarrow> Inr (con_square c n s1)
         | ESgetpars \<Rightarrow> Inr (con_getpars c n s1)
         | ESgotpars \<Rightarrow> Inr (con_gotpars c n s1)
         | ESfunckey \<Rightarrow> Inr (set_state ESnormal n s1)
         | ESsetterm \<Rightarrow> Inr (con_setterm c n s1)
         | ESsetgraph \<Rightarrow> Inr (con_setgraph c n s1)
         | ESnone \<Rightarrow> Inr (set_state ESnormal n s1))"

text \<open>As many characters as were in the queue at the start, whatever the characters do to the queue.\<close>

fun con_loop :: "con_state writer \<Rightarrow> nat \<Rightarrow> con_state writer" where
  "con_loop cook 0 n s = Inr s"
| "con_loop cook (Suc nr) n s =
     (if tt_stopped (tty_table s n) then Inr s
      else
        let (b, q) = GETCH (write_q (tty_table s n))
        in kbind (con_char cook (sint b) n (upd_tty n (\<lambda>t. t\<lparr>write_q := q\<rparr>) s)) (\<lambda>s1. con_loop cook nr n s1))"

definition con_write :: "con_state writer \<Rightarrow> con_state writer" where
  "con_write cook n s =
     (if n \<ge> MAX_CONSOLES then Inl (Panic ''con_write: illegal tty'')
      else kbind (con_loop cook (unat (CHARS (write_q (tty_table s n)))) n s) (\<lambda>s1. Inr (set_cursor n s1)))"

section \<open>The kernel's own messages\<close>

definition print_char :: "u8 \<Rightarrow> nat \<Rightarrow> con_state \<Rightarrow> con_state" where
  "print_char b n s = (if b = 10 then lf n (cr n s) else if b = 13 then cr n s else put_cell b n s)"

definition console_print :: "u8 list \<Rightarrow> con_state \<Rightarrow> con_state" where
  "console_print bs s =
     (let n = fg_console s in set_cursor n (foldl (\<lambda>s b. print_char b n s) s (takeWhile (\<lambda>b. b \<noteq> 0) bs)))"

definition del_col :: "u32 \<Rightarrow> con_state \<Rightarrow> con_state" where
  "del_col i s =
     (let n = fg_console s; s1 = gotoxy n (vc_x (vc_cons s n) - i) (vc_y (vc_cons s n)) s in csi_P n i s1)"

text \<open>The bytes \<open>do_screendump\<close> gives the caller: one for each cell, from a screen of two bytes a cell.\<close>

definition do_screendump :: "u8 \<Rightarrow> con_state \<Rightarrow> int \<times> u8 list" where
  "do_screendump c s =
     (let n = sint c
      in if n < 1 \<or> n > sint (NR_CONSOLES s) then (- EIO, [])
         else (0, map (\<lambda>k. vram s (vc_origin (vc_cons s (nat (n - 1))) + of_nat k))
                    [0..<unat (video_num_lines s * video_num_columns s)]))"

section \<open>Setting up\<close>

text \<open>What the boot code left at \<open>0x90000\<close>.\<close>

record boot_screen =
  ORIG_X :: u8
  ORIG_Y :: u8
  ORIG_VIDEO_MODE :: u32
  ORIG_VIDEO_COLS :: u32
  ORIG_VIDEO_LINES :: u32
  ORIG_VIDEO_EGA_BX :: u16

definition detect :: "boot_screen \<Rightarrow> con_state \<Rightarrow> u8 list \<times> con_state" where
  "detect b s =
     (let ega = ORIG_VIDEO_EGA_BX b AND 0xFF \<noteq> 0x10
      in if ORIG_VIDEO_MODE b = 7 then
           (if ega then [0x45, 0x47, 0x41, 0x6D] else [0x2A, 0x4D, 0x44, 0x41],
            s\<lparr>video_mem_base := 0xB0000, video_port_reg := 0x3B4, video_port_val := 0x3B5,
              video_type := (if ega then EGAM else MDA), video_mem_term := (if ega then 0xB8000 else 0xB2000)\<rparr>)
         else
           (if ega then [0x45, 0x47, 0x41, 0x63] else [0x2A, 0x43, 0x47, 0x41],
            s\<lparr>can_do_colour := True, video_mem_base := 0xB8000, video_port_reg := 0x3D4, video_port_val := 0x3D5,
              video_type := (if ega then EGAC else CGA), video_mem_term := (if ega then 0xC0000 else 0xBA000)\<rparr>))"

definition count_consoles :: "u32 \<Rightarrow> con_state \<Rightarrow> u32" where
  "count_consoles memory s =
     (let k = memory div (video_num_lines s * video_size_row s); k1 = (if k > of_nat MAX_CONSOLES then of_nat MAX_CONSOLES else k)
      in if k1 = 0 then 1 else k1)"

fun show_type :: "u8 list \<Rightarrow> u32 \<Rightarrow> vmem \<Rightarrow> vmem" where
  "show_type [] p m = m"
| "show_type (c # cs) p m = show_type cs (p + 2) (m(p := c))"

definition first_console :: "u32 \<Rightarrow> con_state \<Rightarrow> con_state" where
  "first_console memory s =
     upd_vc 0 (\<lambda>v. v\<lparr>vc_origin := video_mem_base s, vc_video_mem_start := video_mem_base s,
        vc_video_mem_end := video_mem_base s + memory,
        vc_scr_end := video_mem_base s + video_num_lines s * video_size_row s, vc_top := 0, vc_bottom := video_num_lines s,
        vc_attr := 7, vc_def_attr := 7, vc_state := ESnormal, vc_restate := ESnormal, vc_checkin := 0, vc_ques := False,
        vc_iscolor := False, vc_translate := NORM_TRANS, vc_bold_attr := 0xFFFFFFFF\<rparr>) s"

definition next_console :: "u32 \<Rightarrow> con_state \<Rightarrow> nat \<Rightarrow> con_state" where
  "next_console memory s n =
     (let start = video_mem_base s + of_nat n * memory
      in gotoxy n 0 0
           (upd_vc n (\<lambda>_. (vc_cons s 0)\<lparr>vc_origin := start, vc_video_mem_start := start,
              vc_scr_end := start + video_num_lines s * video_size_row s,
              vc_video_mem_end := video_mem_base s + memory + of_nat n * memory\<rparr>) s))"

definition con_init :: "boot_screen \<Rightarrow> con_state \<Rightarrow> con_state" where
  "con_init b s =
     (let s1 = upd_vc 0 (\<lambda>v. v\<lparr>vc_video_erase_char := 0x0720\<rparr>)
                 (s\<lparr>video_num_columns := ORIG_VIDEO_COLS b, video_size_row := ORIG_VIDEO_COLS b * 2,
                    video_num_lines := ORIG_VIDEO_LINES b, blankcount := blankinterval s\<rparr>);
          (desc, s2) = detect b s1;
          nr = count_consoles (video_mem_term s2 - video_mem_base s2) s2;
          memory = (video_mem_term s2 - video_mem_base s2) div nr;
          s3 = s2\<lparr>NR_CONSOLES := nr, vram := show_type desc (video_mem_base s2 + video_size_row s2 - 8) (vram s2)\<rparr>;
          s4 = gotoxy 0 (ucast (ORIG_X b)) (ucast (ORIG_Y b)) (first_console memory s3)
      in update_screen (foldl (next_console memory) s4 [1..<unat nr]))"

end
