(* ===== verification/ConsoleOk.thy ===== *)
theory ConsoleOk
  imports Console TtyLine
begin

text \<open>
  Every console stays within its own window of the video memory, whatever is written to it: the invariant
  \<open>window_ok\<close> of a console, what an operation may change (\<open>confined\<close>), and the operations of \<open>Console\<close> one by one.
  Addresses are taken relative to the start of the window, so no sum wraps.
\<close>

section \<open>Block moves\<close>

lemma unat_of_nat_small: "k < 2 ^ 32 \<Longrightarrow> unat (of_nat k :: u32) = k"
  by (simp add: unat_of_nat)

lemma unat_sub_small: "unat (k :: u32) \<le> unat a \<Longrightarrow> unat (a - k) = unat a - unat k"
  by (simp add: unat_sub word_le_nat_alt)

lemma off_step:
  fixes a d k :: u32
  assumes "unat k \<le> unat (a - d)"
  shows "unat (a - (d + k)) = unat (a - d) - unat k"
proof -
  have e: "a - (d + k) = (a - d) - k" by simp
  show ?thesis unfolding e by (rule unat_sub_small[OF assms])
qed

lemma off_ne: "unat (k :: u32) < unat (a - d) \<Longrightarrow> a \<noteq> d + k"
  by (auto simp: add_diff_cancel_left')

lemma off_ne_0: "0 < unat (a - d :: u32) \<Longrightarrow> a \<noteq> d"
  by auto

lemma wr16_outside: "2 \<le> unat (a - d) \<Longrightarrow> wr16 d v m a = m a"
  using off_ne[of 1 a d] off_ne_0[of a d] by (simp add: wr16_def)

lemma copy32_outside: "4 \<le> unat (a - d) \<Longrightarrow> copy32 d s m a = m a"
  using off_ne[of 1 a d] off_ne[of 2 a d] off_ne[of 3 a d] off_ne_0[of a d] by (simp add: copy32_def)

lemma stosw_outside: "2 * n \<le> unat (a - d) \<Longrightarrow> stosw n v d m a = m a"
proof (induction n arbitrary: d m)
  case (Suc n)
  have "2 * n \<le> unat (a - (d + 2))" using Suc.prems off_step[of 2 a d] by simp
  moreover have "wr16 d v m a = m a" using Suc.prems by (intro wr16_outside) simp
  ultimately show ?case using Suc.IH by simp
qed simp

lemma movsl_outside: "4 * n \<le> unat (a - d) \<Longrightarrow> movsl n d s m a = m a"
proof (induction n arbitrary: d s m)
  case (Suc n)
  have "4 * n \<le> unat (a - (d + 4))" using Suc.prems off_step[of 4 a d] by simp
  moreover have "copy32 d s m a = m a" using Suc.prems by (intro copy32_outside) simp
  ultimately show ?case using Suc.IH by simp
qed simp

text \<open>A block given by its lower end \<open>l\<close>: going down starts at its last cell.\<close>

lemma stosw_down_outside: "2 * n \<le> unat (a - l) \<Longrightarrow> stosw_down n v (l + 2 * of_nat n - 2) m a = m a"
proof (induction n arbitrary: m)
  case (Suc n)
  let ?d = "l + 2 * of_nat n :: u32"
  have k: "unat (2 * of_nat n :: u32) = 2 * n"
  proof -
    have "2 * n < 2 ^ 32" using Suc.prems unat_u32_less[of "a - l"] by simp
    then show ?thesis using unat_of_nat_small[of "2 * n"] by simp
  qed
  have "unat (a - ?d) = unat (a - l) - 2 * n" using off_step[of "2 * of_nat n" a l] k Suc.prems by simp
  then have "wr16 ?d v m a = m a" using Suc.prems by (intro wr16_outside) simp
  moreover have "stosw_down n v (?d - 2) (wr16 ?d v m) a = wr16 ?d v m a" by (rule Suc.IH) (use Suc.prems in simp)
  moreover have "l + 2 * of_nat (Suc n) - 2 = ?d" by simp
  ultimately show ?case by simp
qed simp

lemma movsl_down_outside: "4 * n \<le> unat (a - l) \<Longrightarrow> movsl_down n (l + 4 * of_nat n - 4) s m a = m a"
proof (induction n arbitrary: s m)
  case (Suc n)
  let ?d = "l + 4 * of_nat n :: u32"
  have k: "unat (4 * of_nat n :: u32) = 4 * n"
  proof -
    have "4 * n < 2 ^ 32" using Suc.prems unat_u32_less[of "a - l"] by simp
    then show ?thesis using unat_of_nat_small[of "4 * n"] by simp
  qed
  have "unat (a - ?d) = unat (a - l) - 4 * n" using off_step[of "4 * of_nat n" a l] k Suc.prems by simp
  then have "copy32 ?d s m a = m a" using Suc.prems by (intro copy32_outside) simp
  moreover have "movsl_down n (?d - 4) (s - 4) (copy32 ?d s m) a = copy32 ?d s m a" by (rule Suc.IH) (use Suc.prems in simp)
  moreover have "l + 4 * of_nat (Suc n) - 4 = ?d" by simp
  ultimately show ?case by simp
qed simp

lemma shift_right_outside: "2 * n \<le> unat (a - d) \<Longrightarrow> shift_right n d v m a = m a"
proof (induction n arbitrary: d v m)
  case (Suc n)
  have "2 * n \<le> unat (a - (d + 2))" using Suc.prems off_step[of 2 a d] by simp
  moreover have "wr16 d v m a = m a" using Suc.prems by (intro wr16_outside) simp
  ultimately show ?case using Suc.IH by simp
qed simp

lemma shift_left_outside: "2 * Suc n \<le> unat (a - d) \<Longrightarrow> shift_left n d v m a = m a"
proof (induction n arbitrary: d m)
  case 0
  then show ?case by (simp add: wr16_outside)
next
  case (Suc n)
  have "2 * Suc n \<le> unat (a - (d + 2))" using Suc.prems off_step[of 2 a d] by simp
  moreover have "wr16 d (rd16 (d + 2) m) m a = m a" using Suc.prems by (intro wr16_outside) simp
  ultimately show ?case using Suc.IH by simp
qed

section \<open>The window of a console\<close>

definition vc_ok :: "u32 \<Rightarrow> u32 \<Rightarrow> u32 \<Rightarrow> vc \<Rightarrow> bool" where
  "vc_ok cols lines row v \<longleftrightarrow>
     8 \<le> cols \<and> 2 * unat cols = unat row \<and>
     vc_video_mem_start v \<le> vc_video_mem_end v \<and> unat (vc_video_mem_end v) + unat row < 2 ^ 32 \<and>
     unat (vc_origin v - vc_video_mem_start v) + unat lines * unat row \<le> unat (vc_video_mem_end v - vc_video_mem_start v) \<and>
     vc_scr_end v = vc_origin v + lines * row \<and> vc_pos v = vc_origin v + vc_y v * row + 2 * vc_x v \<and>
     vc_x v \<le> cols \<and> vc_y v < lines \<and> vc_top v < vc_bottom v \<and> vc_bottom v \<le> lines \<and>
     vc_npar v < 16 \<and> 96 \<le> length (vc_translate v)"

definition window_ok :: "nat \<Rightarrow> con_state \<Rightarrow> bool" where
  "window_ok n s \<longleftrightarrow> vc_ok (video_num_columns s) (video_num_lines s) (video_size_row s) (vc_cons s n)"

definition outside :: "nat \<Rightarrow> con_state \<Rightarrow> u32 \<Rightarrow> bool" where
  "outside n s a \<longleftrightarrow> \<not> (vc_video_mem_start (vc_cons s n) \<le> a \<and> a < vc_video_mem_end (vc_cons s n))"

definition confined :: "nat \<Rightarrow> con_state \<Rightarrow> con_state \<Rightarrow> bool" where
  "confined n s s' \<longleftrightarrow>
     (\<forall>m. m \<noteq> n \<longrightarrow> vc_cons s' m = vc_cons s m) \<and> (\<forall>a. outside n s a \<longrightarrow> vram s' a = vram s a) \<and>
     vc_video_mem_start (vc_cons s' n) = vc_video_mem_start (vc_cons s n) \<and>
     vc_video_mem_end (vc_cons s' n) = vc_video_mem_end (vc_cons s n) \<and>
     video_num_columns s' = video_num_columns s \<and> video_num_lines s' = video_num_lines s \<and>
     video_size_row s' = video_size_row s \<and> video_type s' = video_type s \<and>
     (\<forall>i. tt_write (tty_table s' i) = tt_write (tty_table s i))"

definition keeps :: "nat \<Rightarrow> con_state \<Rightarrow> con_state \<Rightarrow> bool" where
  "keeps n s s' \<longleftrightarrow> window_ok n s' \<and> confined n s s'"

lemma keeps_trans: "keeps n s s1 \<Longrightarrow> keeps n s1 s2 \<Longrightarrow> keeps n s s2"
  by (simp add: keeps_def confined_def outside_def)

lemma keeps_refl: "window_ok n s \<Longrightarrow> keeps n s s"
  by (simp add: keeps_def confined_def)

lemma keeps_window: "keeps n s s' \<Longrightarrow> window_ok n s'"
  by (simp add: keeps_def)

lemma upd_vc_fields [simp]:
  "vc_cons (upd_vc n f s) n = f (vc_cons s n)" "m \<noteq> n \<Longrightarrow> vc_cons (upd_vc n f s) m = vc_cons s m"
  "vram (upd_vc n f s) = vram s" "video_num_columns (upd_vc n f s) = video_num_columns s"
  "video_num_lines (upd_vc n f s) = video_num_lines s" "video_size_row (upd_vc n f s) = video_size_row s"
  "video_type (upd_vc n f s) = video_type s" "tty_table (upd_vc n f s) = tty_table s"
  "fg_console (upd_vc n f s) = fg_console s" "video_mem_base (upd_vc n f s) = video_mem_base s"
  "can_do_colour (upd_vc n f s) = can_do_colour s"
  by (simp_all add: upd_vc_def)

lemma keeps_upd:
  assumes "window_ok n s"
    and "vc_ok (video_num_columns s) (video_num_lines s) (video_size_row s) (f (vc_cons s n))"
    and "vc_video_mem_start (f (vc_cons s n)) = vc_video_mem_start (vc_cons s n)"
    and "vc_video_mem_end (f (vc_cons s n)) = vc_video_mem_end (vc_cons s n)"
  shows "keeps n s (upd_vc n f s)"
  using assms by (simp add: keeps_def confined_def window_ok_def)

text \<open>Changes outside the screens.\<close>

definition same_screens :: "con_state \<Rightarrow> con_state \<Rightarrow> bool" where
  "same_screens s s' \<longleftrightarrow>
     vc_cons s' = vc_cons s \<and> vram s' = vram s \<and> video_num_columns s' = video_num_columns s \<and>
     video_num_lines s' = video_num_lines s \<and> video_size_row s' = video_size_row s \<and> video_type s' = video_type s \<and>
     (\<forall>i. tt_write (tty_table s' i) = tt_write (tty_table s i))"

lemma keeps_same: "window_ok n s \<Longrightarrow> same_screens s s' \<Longrightarrow> keeps n s s'"
  by (simp add: keeps_def same_screens_def confined_def window_ok_def)

lemma same_crtc: "same_screens s (crtc r a s)"
  by (simp add: same_screens_def crtc_def outb_def)

lemma same_set_cursor: "same_screens s (set_cursor n s)"
  by (simp add: set_cursor_def same_screens_def crtc_def outb_def Let_def)

lemma same_set_origin: "same_screens s (set_origin n s)"
  by (simp add: set_origin_def same_screens_def crtc_def outb_def)

lemma same_upd_tty: "(\<And>t. tt_write (f t) = tt_write t) \<Longrightarrow> same_screens s (upd_tty i f s)"
  by (simp add: upd_tty_def same_screens_def)

text \<open>Writing to the window, at an offset from its start.\<close>

definition off :: "vc \<Rightarrow> u32 \<Rightarrow> nat" where "off v a = unat (a - vc_video_mem_start v)"
definition span :: "vc \<Rightarrow> nat" where "span v = unat (vc_video_mem_end v - vc_video_mem_start v)"

lemma outside_off:
  assumes "window_ok n s" and "outside n s a"
  shows "span (vc_cons s n) \<le> off (vc_cons s n) a"
proof (cases "vc_video_mem_start (vc_cons s n) \<le> a")
  case True
  then have "vc_video_mem_end (vc_cons s n) \<le> a" using assms(2) by (simp add: outside_def not_less)
  then show ?thesis using True assms(1)
    by (auto simp: off_def span_def window_ok_def vc_ok_def unat_sub word_le_nat_alt)
next
  case False
  let ?b = "vc_video_mem_start (vc_cons s n)" and ?e = "vc_video_mem_end (vc_cons s n)"
  have be: "?b \<le> ?e" using assms(1) by (simp add: window_ok_def vc_ok_def)
  have ab: "unat a < unat ?b" using False by (simp add: word_le_nat_alt)
  have "unat (a - ?b) = unat a + 2 ^ 32 - unat ?b"
    using ab unat_sub_if'[of a ?b] by (simp add: word_le_nat_alt)
  moreover have "unat (?e - ?b) = unat ?e - unat ?b" using be by (simp add: unat_sub word_le_nat_alt)
  ultimately show ?thesis using unat_u32_less[of ?e] ab by (simp add: off_def span_def)
qed

lemma off_far:
  assumes "span v \<le> off v a" and "off v d + len \<le> span v"
  shows "len \<le> unat (a - d)"
proof -
  have "a - d = (a - vc_video_mem_start v) - (d - vc_video_mem_start v)" by simp
  moreover have "unat (d - vc_video_mem_start v) \<le> unat (a - vc_video_mem_start v)" using assms by (simp add: off_def span_def)
  ultimately have "unat (a - d) = off v a - off v d" using unat_sub_small by (metis off_def)
  then show ?thesis using assms by simp
qed

lemma keeps_mem:
  assumes "window_ok n s" and "off (vc_cons s n) d + len \<le> span (vc_cons s n)"
    and "\<And>a. len \<le> unat (a - d) \<Longrightarrow> m a = vram s a"
  shows "keeps n s (s\<lparr>vram := m\<rparr>)"
  using assms(1,3) off_far[OF outside_off[OF assms(1)] assms(2)]
  by (simp add: keeps_def window_ok_def confined_def)


section \<open>Cells of the screen\<close>

lemma unat_mult_le: "unat (a * b :: u32) \<le> unat a * unat b"
  by (simp add: unat_word_ariths)

lemma window_okD:
  assumes "window_ok n s"
  shows "unat (video_size_row s) = 2 * unat (video_num_columns s)" "8 \<le> unat (video_num_columns s)"
    "off (vc_cons s n) (vc_origin (vc_cons s n)) + unat (video_num_lines s) * unat (video_size_row s) \<le> span (vc_cons s n)"
    "vc_scr_end (vc_cons s n) = vc_origin (vc_cons s n) + video_num_lines s * video_size_row s"
    "vc_pos (vc_cons s n) = vc_origin (vc_cons s n) + vc_y (vc_cons s n) * video_size_row s + 2 * vc_x (vc_cons s n)"
    "unat (vc_x (vc_cons s n)) \<le> unat (video_num_columns s)" "unat (vc_y (vc_cons s n)) < unat (video_num_lines s)"
    "unat (vc_top (vc_cons s n)) < unat (vc_bottom (vc_cons s n))" "unat (vc_bottom (vc_cons s n)) \<le> unat (video_num_lines s)"
    "video_size_row s = 2 * video_num_columns s"
proof -
  have "unat (2 * video_num_columns s) \<le> 2 * unat (video_num_columns s)" using unat_mult_le[of 2 "video_num_columns s"] by simp
  have r: "unat (video_size_row s) = 2 * unat (video_num_columns s)" using assms by (simp add: window_ok_def vc_ok_def)
  then have "of_nat (unat (video_size_row s)) = (2 * of_nat (unat (video_num_columns s)) :: u32)" by simp
  then show "video_size_row s = 2 * video_num_columns s" by simp
  show "unat (video_size_row s) = 2 * unat (video_num_columns s)" by (rule r)
qed (use assms in \<open>auto simp: window_ok_def vc_ok_def off_def span_def word_le_nat_alt word_less_nat_alt\<close>)

text \<open>The bytes of the screen, from its origin.\<close>

definition screen_bytes :: "con_state \<Rightarrow> nat" where
  "screen_bytes s = unat (video_num_lines s) * unat (video_size_row s)"

definition cursor :: "con_state \<Rightarrow> nat \<Rightarrow> nat" where
  "cursor s n = unat (vc_y (vc_cons s n)) * unat (video_size_row s) + 2 * unat (vc_x (vc_cons s n))"

lemma off_add: "off v a + k < 2 ^ 32 \<Longrightarrow> off v (a + of_nat k) = off v a + k"
proof -
  assume k: "off v a + k < 2 ^ 32"
  have e: "a + of_nat k - vc_video_mem_start v = (a - vc_video_mem_start v) + of_nat k" by simp
  have "unat (of_nat k :: u32) = k" using k by (intro unat_of_nat_small) simp
  then show ?thesis using k unfolding off_def e by (subst unat_add_lem[THEN iffD1]) simp_all
qed

lemma span_less: "span v < 2 ^ 32"
  using unat_u32_less[of "vc_video_mem_end v - vc_video_mem_start v"] by (simp add: span_def)

lemma keeps_screen:
  assumes "window_ok n s" and "k + len \<le> screen_bytes s"
    and "\<And>a. len \<le> unat (a - (vc_origin (vc_cons s n) + of_nat k)) \<Longrightarrow> m a = vram s a"
  shows "keeps n s (s\<lparr>vram := m\<rparr>)"
proof (rule keeps_mem[OF assms(1) _ assms(3)])
  have b: "off (vc_cons s n) (vc_origin (vc_cons s n)) + k + len \<le> span (vc_cons s n)"
    using window_okD(3)[OF assms(1)] assms(2) by (simp add: screen_bytes_def)
  then show "off (vc_cons s n) (vc_origin (vc_cons s n) + of_nat k) + len \<le> span (vc_cons s n)"
    using span_less[of "vc_cons s n"] by (subst off_add) simp_all
qed

lemma screen_bytes_less: "window_ok n s \<Longrightarrow> screen_bytes s < 2 ^ 32"
  using window_okD(3)[of n s] span_less[of "vc_cons s n"] by (simp add: screen_bytes_def)

lemma pos_cursor: "window_ok n s \<Longrightarrow> vc_pos (vc_cons s n) = vc_origin (vc_cons s n) + of_nat (cursor s n)"
  by (simp add: window_okD(5) cursor_def)

lemma end_screen: "window_ok n s \<Longrightarrow> vc_scr_end (vc_cons s n) = vc_origin (vc_cons s n) + of_nat (screen_bytes s)"
  by (simp add: window_okD(4) screen_bytes_def)

lemma row_bound: "y < (l :: nat) \<Longrightarrow> y * r + r \<le> l * r"
  using mult_le_mono1[of "Suc y" l r] by simp

lemma cursor_bound:
  assumes "window_ok n s"
  shows "unat (vc_y (vc_cons s n)) * unat (video_size_row s) + 2 * unat (video_num_columns s) \<le> screen_bytes s"
    "cursor s n \<le> unat (vc_y (vc_cons s n)) * unat (video_size_row s) + 2 * unat (video_num_columns s)"
  using row_bound[OF window_okD(7)[OF assms], of "unat (video_size_row s)"] window_okD(1,6)[OF assms]
  by (simp_all add: screen_bytes_def cursor_def)

lemma keeps_erase:
  assumes "window_ok n s" and "start = vc_origin (vc_cons s n) + of_nat k" and "k + 2 * unat num \<le> screen_bytes s"
  shows "keeps n s (erase_cells num start n s)"
  unfolding erase_cells_def assms(2) using assms(1,3) by (rule keeps_screen) (rule stosw_outside)

lemma unat_half: "2 * unat (drop_bit 1 (w :: u32)) \<le> unat w"
  unfolding unat_drop_bit_eq by (simp add: drop_bit_eq_div)

lemma keeps_csi_J:
  assumes "window_ok n s"
  shows "keeps n s (csi_J n p s)"
proof -
  let ?v = "vc_cons s n"
  have c: "cursor s n \<le> screen_bytes s" using cursor_bound[OF assms] by linarith
  have small: "screen_bytes s < 2 ^ 32" by (rule screen_bytes_less[OF assms])
  have "unat (vc_scr_end ?v - vc_pos ?v) = screen_bytes s - cursor s n"
    unfolding pos_cursor[OF assms] end_screen[OF assms] using c small
    by (simp add: unat_sub_small unat_of_nat_small)
  then have z: "cursor s n + 2 * unat (drop_bit 1 (vc_scr_end ?v - vc_pos ?v)) \<le> screen_bytes s"
    using c unat_half[of "vc_scr_end ?v - vc_pos ?v"] by linarith
  have "unat (vc_pos ?v - vc_origin ?v) = cursor s n"
    unfolding pos_cursor[OF assms] using c small by (simp add: unat_of_nat_small)
  then have o: "0 + 2 * unat (drop_bit 1 (vc_pos ?v - vc_origin ?v)) \<le> screen_bytes s"
    using c unat_half[of "vc_pos ?v - vc_origin ?v"] by linarith
  have t: "0 + 2 * unat (video_num_columns s * video_num_lines s) \<le> screen_bytes s"
    using unat_mult_le[of "video_num_columns s" "video_num_lines s"] window_okD(1)[OF assms]
    by (simp add: screen_bytes_def algebra_simps)
  show ?thesis
    using keeps_erase[OF assms pos_cursor[OF assms] z] keeps_erase[OF assms _ o] keeps_erase[OF assms _ t] keeps_refl[OF assms]
    by (simp add: csi_J_def Let_def)
qed

lemma line_start: "window_ok n s \<Longrightarrow>
    vc_pos (vc_cons s n) - push_bit 1 (vc_x (vc_cons s n)) =
    vc_origin (vc_cons s n) + of_nat (unat (vc_y (vc_cons s n)) * unat (video_size_row s))"
  by (simp add: window_okD(5) push_bit_eq_mult)

lemma keeps_csi_K:
  assumes "window_ok n s"
  shows "keeps n s (csi_K n p s)"
proof -
  let ?v = "vc_cons s n" and ?c = "video_num_columns s"
  note b = cursor_bound[OF assms]
  have z: "cursor s n + 2 * unat (?c - vc_x ?v) \<le> screen_bytes s"
    using b(1) window_okD(6)[OF assms] by (simp add: unat_sub_small cursor_def)
  have o: "unat (vc_y ?v) * unat (video_size_row s) + 2 * unat (if vc_x ?v < ?c then vc_x ?v else ?c) \<le> screen_bytes s"
    using b(1) window_okD(6)[OF assms] by simp
  show ?thesis
    using keeps_erase[OF assms pos_cursor[OF assms] z] keeps_erase[OF assms line_start[OF assms] o]
      keeps_erase[OF assms line_start[OF assms] b(1)] keeps_refl[OF assms]
    by (simp add: csi_K_def Let_def)
qed

lemma keeps_insert_char:
  assumes "window_ok n s"
  shows "keeps n s (insert_char n s)"
proof -
  let ?k = "unat (video_num_columns s) - unat (vc_x (vc_cons s n))"
  have b: "cursor s n + 2 * ?k \<le> screen_bytes s" using cursor_bound(1)[OF assms] window_okD(6)[OF assms] by (simp add: cursor_def)
  show ?thesis unfolding insert_char_def Let_def
    by (rule keeps_screen[OF assms b]) (simp add: pos_cursor[OF assms] shift_right_outside)
qed

lemma keeps_delete_char:
  assumes "window_ok n s"
  shows "keeps n s (delete_char n s)"
proof (cases "vc_x (vc_cons s n) \<ge> video_num_columns s")
  case True
  then show ?thesis using keeps_refl[OF assms] by (simp add: delete_char_def)
next
  case False
  let ?k = "unat (video_num_columns s) - unat (vc_x (vc_cons s n)) - 1"
  have x: "unat (vc_x (vc_cons s n)) < unat (video_num_columns s)" using False by (simp add: word_le_nat_alt)
  have b: "cursor s n + 2 * Suc ?k \<le> screen_bytes s" using cursor_bound(1)[OF assms] x by (simp add: cursor_def)
  have "keeps n s (s\<lparr>vram := shift_left ?k (vc_pos (vc_cons s n)) (vc_video_erase_char (vc_cons s n)) (vram s)\<rparr>)"
    by (rule keeps_screen[OF assms b]) (rule shift_left_outside, simp add: pos_cursor[OF assms])
  then show ?thesis using False by (simp add: delete_char_def Let_def)
qed

section \<open>Scrolling stays in the window\<close>

lemma roll_up_outside:
  assumes "4 * unat longs + 2 * unat cols \<le> unat (a - d)"
  shows "roll_up longs cols v d s m a = m a"
proof -
  have k: "unat (4 * longs) = 4 * unat longs"
    using assms unat_u32_less[of "a - d"] unat_of_nat_small[of "4 * unat longs"] by simp
  have "unat (a - (d + 4 * longs)) = unat (a - d) - 4 * unat longs" using off_step[of "4 * longs" a d] k assms by simp
  then have "stosw (unat cols) v (d + 4 * longs) (movsl (unat longs) d s m) a = movsl (unat longs) d s m a"
    using assms by (intro stosw_outside) simp
  also have "\<dots> = m a" using assms by (intro movsl_outside) simp
  finally show ?thesis by (simp add: roll_up_def)
qed

lemma roll_down_outside:
  assumes "4 * unat longs + 2 * unat cols \<le> unat (a - l)"
  shows "roll_down longs cols v (l + 2 * cols + 4 * longs - 4) s m a = m a"
proof -
  have k: "unat (2 * cols) = 2 * unat cols"
    using assms unat_u32_less[of "a - l"] unat_of_nat_small[of "2 * unat cols"] by simp
  have "unat (a - (l + 2 * cols)) = unat (a - l) - 2 * unat cols" using off_step[of "2 * cols" a l] k assms by simp
  then have "movsl_down (unat longs) ((l + 2 * cols) + 4 * of_nat (unat longs) - 4) s m a = m a"
    using assms by (intro movsl_down_outside) simp
  moreover have "stosw_down (unat cols) v (l + 2 * of_nat (unat cols) - 2) m' a = m' a" for m'
    using assms by (intro stosw_down_outside) simp
  ultimately show ?thesis by (simp add: roll_down_def algebra_simps)
qed

lemma unat_longs:
  assumes "t < b"
  shows "4 * unat (drop_bit 1 ((b - t - 1) * cols :: u32)) + 2 * unat cols \<le> (unat b - unat t) * (2 * unat cols)"
proof -
  have bt: "unat t < unat b" using assms by (simp add: word_less_nat_alt)
  have "unat (b - t) = unat b - unat t" using bt by (intro unat_sub_small) simp
  then have u: "unat (b - t - 1) = unat b - unat t - 1" using bt unat_sub_small[of 1 "b - t"] by simp
  have "2 * unat (drop_bit 1 ((b - t - 1) * cols)) \<le> (unat b - unat t - 1) * unat cols"
    using le_trans[OF unat_half unat_mult_le[of "b - t - 1" cols]] u by (simp add: mult.commute)
  moreover obtain k where k: "unat b - unat t = Suc k" using bt by (metis Suc_diff_Suc)
  ultimately show ?thesis unfolding k by (simp add: algebra_simps)
qed

lemma region_bytes: "t < b \<Longrightarrow> b \<le> (l :: nat) \<Longrightarrow> r * t + (b - t) * r \<le> l * r"
  using mult_le_mono1[of b l r] by (simp add: diff_mult_distrib mult.commute[of r t])

lemma keeps_scroll_region:
  assumes "window_ok n s"
  shows "keeps n s (scroll_region n s)"
proof -
  let ?v = "vc_cons s n" and ?r = "unat (video_size_row s)"
  let ?l = "(vc_bottom ?v - vc_top ?v - 1) * video_num_columns s"
  note w = window_okD[OF assms]
  have "unat (vc_top ?v) < unat (vc_bottom ?v)" by (rule w(8))
  then have l: "4 * unat (drop_bit 1 ?l) + 2 * unat (video_num_columns s) \<le> (unat (vc_bottom ?v) - unat (vc_top ?v)) * ?r"
    using unat_longs[of "vc_top ?v" "vc_bottom ?v" "video_num_columns s"] w(1) by (simp add: word_less_nat_alt)
  have b: "?r * unat (vc_top ?v) + (unat (vc_bottom ?v) - unat (vc_top ?v)) * ?r \<le> screen_bytes s"
    unfolding screen_bytes_def by (rule region_bytes[OF w(8,9)])
  show ?thesis unfolding scroll_region_def Let_def
    by (rule keeps_screen[OF assms b]) (rule roll_up_outside, use l in simp)
qed

lemma keeps_scrdown:
  assumes "window_ok n s"
  shows "keeps n s (scrdown n s)"
proof -
  let ?v = "vc_cons s n" and ?r = "unat (video_size_row s)" and ?c = "video_num_columns s"
  let ?l = "drop_bit 1 ((vc_bottom ?v - vc_top ?v - 1) * ?c)"
  note w = window_okD[OF assms]
  have tb: "\<not> vc_bottom ?v \<le> vc_top ?v" using w(8) by (simp add: word_le_nat_alt)
  have l: "4 * unat ?l + 2 * unat ?c \<le> (unat (vc_bottom ?v) - unat (vc_top ?v)) * ?r"
    using unat_longs[of "vc_top ?v" "vc_bottom ?v" ?c] w(1,8) by (simp add: word_less_nat_alt)
  have "(unat (vc_bottom ?v) - unat (vc_top ?v)) * ?r \<le> unat (vc_bottom ?v) * ?r" by (simp add: mult_le_mono1)
  then have ge: "4 * unat ?l + 2 * unat ?c \<le> unat (vc_bottom ?v) * ?r" using l by linarith
  have "unat (vc_bottom ?v) * ?r \<le> screen_bytes s" unfolding screen_bytes_def using w(9) by (rule mult_le_mono1)
  then have b: "(unat (vc_bottom ?v) * ?r - (4 * unat ?l + 2 * unat ?c)) + (4 * unat ?l + 2 * unat ?c) \<le> screen_bytes s"
    using ge by simp
  let ?k = "vc_origin ?v + of_nat (unat (vc_bottom ?v) * ?r - (4 * unat ?l + 2 * unat ?c))"
  have e: "vc_origin ?v + video_size_row s * vc_bottom ?v - 4 = ?k + 2 * ?c + 4 * ?l - 4"
    using ge by (simp add: of_nat_diff algebra_simps)
  show ?thesis unfolding scrdown_def Let_def if_not_P[OF tb] e
    by (rule keeps_screen[OF assms b]) (rule roll_down_outside)
qed

lemma keeps_scroll_window:
  assumes "window_ok n s"
  shows "keeps n s (scroll_window n s)"
proof -
  let ?v = "vc_cons s n" and ?r = "video_size_row s" and ?c = "video_num_columns s"
  let ?ms = "vc_video_mem_start ?v" and ?me = "vc_video_mem_end ?v"
  note w = window_okD[OF assms]
  have ok: "vc_ok ?c (video_num_lines s) ?r ?v" using assms by (simp add: window_ok_def)
  let ?s1 = "upd_vc n (\<lambda>v. v\<lparr>vc_origin := vc_origin v + ?r, vc_pos := vc_pos v + ?r, vc_scr_end := vc_scr_end v + ?r\<rparr>) s"
  show ?thesis
  proof (cases "vc_scr_end ?v + ?r > ?me")
    case True
    let ?s2 = "?s1\<lparr>vram := roll_up (drop_bit 1 ((video_num_lines s - 1) * ?c)) ?c (vc_video_erase_char ?v) ?ms (vc_origin ?v + ?r) (vram s)\<rparr>"
    let ?s3 = "upd_vc n (\<lambda>v. v\<lparr>vc_scr_end := vc_scr_end v - (vc_origin v - vc_video_mem_start v),
       vc_pos := vc_pos v - (vc_origin v - vc_video_mem_start v), vc_origin := vc_video_mem_start v\<rparr>) ?s2"
    have "unat (0 :: u32) < unat (video_num_lines s)" using w(7) by simp
    then have l: "4 * unat (drop_bit 1 ((video_num_lines s - 1) * ?c)) + 2 * unat ?c \<le> screen_bytes s"
      using unat_longs[of 0 "video_num_lines s" ?c] w(1) by (simp add: word_less_nat_alt screen_bytes_def)
    have o: "off ?v ?ms + screen_bytes s \<le> span ?v" using w(3) by (simp add: screen_bytes_def off_def)
    have m: "keeps n s (s\<lparr>vram := vram ?s2\<rparr>)"
      by (rule keeps_mem[OF assms o]) (use l in \<open>auto intro: roll_up_outside\<close>)
    have v: "vc_ok ?c (video_num_lines s) ?r (vc_cons ?s3 n)"
      using ok o by (simp add: vc_ok_def off_def span_def screen_bytes_def)
    have k: "keeps n s ?s3" using m v by (auto simp: keeps_def confined_def window_ok_def)
    have "scroll_window n s = set_origin n ?s3" using True by (simp add: scroll_window_def Let_def)
    then show ?thesis using keeps_trans[OF k keeps_same[OF keeps_window[OF k] same_set_origin]] by simp
  next
    case False
    let ?s2 = "?s1\<lparr>vram := stosw (unat ?c) (vc_video_erase_char ?v) (vc_scr_end ?v) (vram s)\<rparr>"
    have me: "?ms \<le> ?me" "unat ?me + unat ?r < 2 ^ 32" using ok by (simp_all add: vc_ok_def)
    have se: "unat ?ms + span ?v = unat ?me" using me(1) by (simp add: span_def unat_sub word_le_nat_alt)
    have oo: "off ?v (vc_origin ?v) + screen_bytes s \<le> span ?v" using w(3) by (simp add: screen_bytes_def)
    let ?k = "off ?v (vc_origin ?v) + screen_bytes s + unat ?r"
    have "vc_scr_end ?v + ?r = ?ms + (vc_origin ?v - ?ms) + of_nat (screen_bytes s) + ?r" by (simp add: end_screen[OF assms])
    also have "\<dots> = of_nat (unat ?ms + ?k)" by (simp add: off_def)
    finally have e: "vc_scr_end ?v + ?r = of_nat (unat ?ms + ?k)" .
    have "unat (vc_scr_end ?v + ?r) = unat ?ms + ?k"
      unfolding e by (rule unat_of_nat_small) (use oo se me(2) in linarith)
    then have fit: "?k \<le> span ?v" using False se by (simp add: word_le_nat_alt not_less)
    have o2: "off ?v (vc_origin ?v + ?r) = off ?v (vc_origin ?v) + unat ?r"
      using off_add[of ?v "vc_origin ?v" "unat ?r"] fit span_less[of ?v] by simp
    have b: "off ?v (vc_scr_end ?v) + 2 * unat ?c \<le> span ?v"
      unfolding end_screen[OF assms] using fit span_less[of ?v] w(1) by (subst off_add) simp_all
    have m: "keeps n s (s\<lparr>vram := vram ?s2\<rparr>)"
      by (rule keeps_mem[OF assms b]) (auto intro: stosw_outside)
    have v: "vc_ok ?c (video_num_lines s) ?r (vc_cons ?s2 n)"
      using ok fit o2 by (simp add: vc_ok_def algebra_simps off_def span_def screen_bytes_def)
    have k: "keeps n s ?s2" using m v by (auto simp: keeps_def confined_def window_ok_def)
    have "scroll_window n s = set_origin n ?s2" using False by (simp add: scroll_window_def Let_def)
    then show ?thesis using keeps_trans[OF k keeps_same[OF keeps_window[OF k] same_set_origin]] by simp
  qed
qed

lemma keeps_scrup: "window_ok n s \<Longrightarrow> keeps n s (scrup n s)"
  using keeps_scroll_region keeps_scroll_window keeps_refl by (simp add: scrup_def Let_def)


section \<open>The operations, one by one\<close>

lemma keeps_comp: "keeps n s s1 \<Longrightarrow> (window_ok n s1 \<Longrightarrow> keeps n s1 s2) \<Longrightarrow> keeps n s s2"
  using keeps_trans keeps_window by blast

lemma keeps_if: "(b \<Longrightarrow> keeps n s x) \<Longrightarrow> (\<not> b \<Longrightarrow> keeps n s y) \<Longrightarrow> keeps n s (if b then x else y)"
  by simp

text \<open>Fields that do not bear on the window.\<close>

definition inert :: "(vc \<Rightarrow> vc) \<Rightarrow> bool" where
  "inert f \<longleftrightarrow> (\<forall>cols lines row v. vc_ok cols lines row v \<longrightarrow> vc_ok cols lines row (f v)) \<and>
     (\<forall>v. vc_video_mem_start (f v) = vc_video_mem_start v \<and> vc_video_mem_end (f v) = vc_video_mem_end v)"

lemma keeps_inert: "inert f \<Longrightarrow> keeps n s s1 \<Longrightarrow> keeps n s (upd_vc n f s1)"
  by (rule keeps_comp, assumption, rule keeps_upd) (auto simp: inert_def window_ok_def)

lemma keeps_set_state: "keeps n s s1 \<Longrightarrow> keeps n s (set_state e n s1)"
  unfolding set_state_def by (rule keeps_inert) (simp_all add: inert_def vc_ok_def)

lemma keeps_set_par: "keeps n s s1 \<Longrightarrow> keeps n s (set_par k p n s1)"
  unfolding set_par_def by (rule keeps_inert) (simp_all add: inert_def vc_ok_def)

lemma keeps_gotoxy:
  assumes "keeps n s s1"
  shows "keeps n s (gotoxy n a b s1)"
proof (rule keeps_comp[OF assms])
  assume w: "window_ok n s1"
  then have ok: "vc_ok (video_num_columns s1) (video_num_lines s1) (video_size_row s1) (vc_cons s1 n)" by (simp add: window_ok_def)
  have p: "push_bit 1 a = 2 * a" by (simp add: push_bit_eq_mult)
  show "keeps n s1 (gotoxy n a b s1)"
  proof (cases "a > video_num_columns s1 \<or> b \<ge> video_num_lines s1")
    case False
    then show ?thesis unfolding gotoxy_def if_not_P[OF False]
      by (intro keeps_upd[OF w]) (use ok in \<open>auto simp: vc_ok_def p not_less not_le\<close>)
  qed (simp add: gotoxy_def keeps_refl[OF w])
qed

lemma keeps_lf:
  assumes "keeps n s s1"
  shows "keeps n s (lf n s1)"
proof (rule keeps_comp[OF assms])
  assume w: "window_ok n s1"
  then have ok: "vc_ok (video_num_columns s1) (video_num_lines s1) (video_size_row s1) (vc_cons s1 n)" by (simp add: window_ok_def)
  show "keeps n s1 (lf n s1)"
  proof (cases "vc_y (vc_cons s1 n) + 1 < vc_bottom (vc_cons s1 n)")
    case True
    then show ?thesis unfolding lf_def if_P[OF True]
      by (intro keeps_upd[OF w]) (use ok in \<open>auto simp: vc_ok_def algebra_simps intro: less_le_trans\<close>)
  qed (simp add: lf_def keeps_scrup[OF w])
qed

lemma unat_pred: "(a :: u32) < b \<Longrightarrow> unat (b - 1) = unat b - 1 \<and> 0 < unat b"
  using unat_sub_small[of 1 b] by (auto simp: word_less_nat_alt)

lemma pred_less: "(a :: u32) < b \<Longrightarrow> b \<le> c \<Longrightarrow> b - 1 < c"
  using unat_pred[of a b] by (simp add: word_less_nat_alt word_le_nat_alt)

lemma keeps_ri:
  assumes "keeps n s s1"
  shows "keeps n s (ri n s1)"
proof (rule keeps_comp[OF assms])
  assume w: "window_ok n s1"
  then have ok: "vc_ok (video_num_columns s1) (video_num_lines s1) (video_size_row s1) (vc_cons s1 n)" by (simp add: window_ok_def)
  show "keeps n s1 (ri n s1)"
  proof (cases "vc_y (vc_cons s1 n) > vc_top (vc_cons s1 n)")
    case True
    have "vc_y (vc_cons s1 n) - 1 < video_num_lines s1" using ok by (intro pred_less[OF True]) (simp add: vc_ok_def less_imp_le)
    then show ?thesis unfolding ri_def if_P[OF True]
      by (intro keeps_upd[OF w]) (use ok in \<open>auto simp: vc_ok_def algebra_simps\<close>)
  qed (simp add: ri_def keeps_scrdown[OF w])
qed

lemma keeps_cr:
  assumes "keeps n s s1"
  shows "keeps n s (cr n s1)"
  unfolding cr_def by (rule keeps_comp[OF assms], rule keeps_upd) (auto simp: window_ok_def vc_ok_def push_bit_eq_mult)

lemma step_left:
  assumes "window_ok n s" and "vc_x (vc_cons s n) \<noteq> 0"
  shows "keeps n s (upd_vc n (\<lambda>v. v\<lparr>vc_x := vc_x v - 1, vc_pos := vc_pos v - 2\<rparr>) s)"
proof -
  have ok: "vc_ok (video_num_columns s) (video_num_lines s) (video_size_row s) (vc_cons s n)" using assms(1) by (simp add: window_ok_def)
  have x: "0 < vc_x (vc_cons s n)" using assms(2) by (simp add: word_gt_0)
  have "unat (vc_x (vc_cons s n) - 1) \<le> unat (vc_x (vc_cons s n))" using unat_pred[OF x] by simp
  then have "vc_x (vc_cons s n) - 1 \<le> video_num_columns s" using ok by (simp add: vc_ok_def word_le_nat_alt)
  then show ?thesis by (intro keeps_upd[OF assms(1)]) (use ok in \<open>auto simp: vc_ok_def algebra_simps\<close>)
qed

lemma keeps_backspace: "keeps n s s1 \<Longrightarrow> keeps n s (backspace n s1)"
  unfolding backspace_def by (rule keeps_comp) (auto intro: step_left keeps_refl)

lemma keeps_cell:
  assumes "window_ok n s" and "vc_x (vc_cons s n) < video_num_columns s"
  shows "keeps n s (s\<lparr>vram := wr16 (vc_pos (vc_cons s n)) c (vram s)\<rparr>)"
proof -
  have b: "cursor s n + 2 \<le> screen_bytes s" using cursor_bound(1)[OF assms(1)] assms(2) by (simp add: cursor_def word_less_nat_alt)
  show ?thesis by (rule keeps_screen[OF assms(1) b]) (simp add: pos_cursor[OF assms(1)] wr16_outside)
qed

lemma keeps_del:
  assumes "keeps n s s1"
  shows "keeps n s (del n s1)"
proof (rule keeps_comp[OF assms])
  assume w: "window_ok n s1"
  show "keeps n s1 (del n s1)"
  proof (cases "vc_x (vc_cons s1 n) = 0")
    case False
    let ?s = "upd_vc n (\<lambda>v. v\<lparr>vc_x := vc_x v - 1, vc_pos := vc_pos v - 2\<rparr>) s1"
    have k: "keeps n s1 ?s" by (rule step_left[OF w False])
    have x: "0 < vc_x (vc_cons s1 n)" using False by (simp add: word_gt_0)
    have "vc_x (vc_cons s1 n) \<le> video_num_columns s1" using w by (simp add: window_ok_def vc_ok_def)
    from pred_less[OF x this] have c: "vc_x (vc_cons ?s n) < video_num_columns ?s" by simp
    have u: "upd_vc n (\<lambda>v. v\<lparr>vc_pos := vc_pos v - 2, vc_x := vc_x v - 1\<rparr>) s1 = ?s"
      by (rule arg_cong[of _ _ "\<lambda>f. upd_vc n f s1"], rule ext, rule vc.equality) simp_all
    show ?thesis using keeps_trans[OF k keeps_cell[OF keeps_window[OF k] c, of "vc_video_erase_char (vc_cons s1 n)"]] False
      by (simp add: del_def Let_def u)
  qed (simp add: del_def keeps_refl[OF w])
qed

lemma keeps_below_cursor:
  assumes "keeps n s s1" and f: "\<And>s. window_ok n s \<Longrightarrow> keeps n s (f n s)"
  shows "keeps n s (below_cursor f n s1)"
proof (rule keeps_comp[OF assms(1)])
  assume w: "window_ok n s1"
  let ?v = "vc_cons s1 n"
  let ?s2 = "upd_vc n (\<lambda>v. v\<lparr>vc_top := vc_y v, vc_bottom := video_num_lines s1\<rparr>) s1"
  have k2: "keeps n s1 ?s2" by (rule keeps_upd[OF w]) (use w in \<open>simp_all add: window_ok_def vc_ok_def\<close>)
  have k: "keeps n s1 (f n ?s2)" using keeps_trans[OF k2 f[OF keeps_window[OF k2]]] .
  have tb: "vc_top ?v < vc_bottom ?v" "vc_bottom ?v \<le> video_num_lines (f n ?s2)"
    using w k by (auto simp: window_ok_def vc_ok_def keeps_def confined_def)
  have "keeps n (f n ?s2) (upd_vc n (\<lambda>v. v\<lparr>vc_top := vc_top ?v, vc_bottom := vc_bottom ?v\<rparr>) (f n ?s2))"
    by (rule keeps_upd[OF keeps_window[OF k]]) (use keeps_window[OF k] tb in \<open>simp_all add: window_ok_def vc_ok_def\<close>)
  from keeps_trans[OF k this] show "keeps n s1 (below_cursor f n s1)" by (simp add: below_cursor_def Let_def)
qed

lemma keeps_funpow: "keeps n s s1 \<Longrightarrow> (\<And>s2. keeps n s s2 \<Longrightarrow> keeps n s (f s2)) \<Longrightarrow> keeps n s ((f ^^ k) s1)"
  by (induction k) simp_all

lemma keeps_csi:
  assumes "keeps n s s1"
  shows "keeps n s (csi_at n nr s1)" "keeps n s (csi_L n nr s1)" "keeps n s (csi_P n nr s1)" "keeps n s (csi_M n nr s1)"
    "keeps n s (csi_J n nr s1)" "keeps n s (csi_K n nr s1)"
proof -
  show "keeps n s (csi_at n nr s1)" unfolding csi_at_def
    by (rule keeps_funpow[OF assms]) (erule keeps_comp, rule keeps_insert_char)
  show "keeps n s (csi_P n nr s1)" unfolding csi_P_def
    by (rule keeps_funpow[OF assms]) (erule keeps_comp, rule keeps_delete_char)
  show "keeps n s (csi_L n nr s1)" unfolding csi_L_def insert_line_def
    by (rule keeps_funpow[OF assms]) (erule keeps_below_cursor, rule keeps_scrdown)
  show "keeps n s (csi_M n nr s1)" unfolding csi_M_def delete_line_def
    by (rule keeps_funpow[OF assms]) (erule keeps_below_cursor, rule keeps_scrup)
  show "keeps n s (csi_J n nr s1)" by (rule keeps_comp[OF assms], rule keeps_csi_J)
  show "keeps n s (csi_K n nr s1)" by (rule keeps_comp[OF assms], rule keeps_csi_K)
qed


lemma keeps_wrap:
  assumes "keeps n s s1" and "window_ok n s1"
    and "vc_cons s2 n = (vc_cons s1 n)\<lparr>vc_x := x', vc_pos := vc_pos (vc_cons s1 n) + 2 * (x' - vc_x (vc_cons s1 n))\<rparr>"
    and "s2 = upd_vc n f s1" and "x' - video_num_columns s1 \<le> video_num_columns s1"
  shows "keeps n s (wrap_line n s2)"
proof -
  note w = window_okD(10)[OF assms(2)]
  have eq: "upd_vc n (\<lambda>v. v\<lparr>vc_x := vc_x v - video_num_columns s2, vc_pos := vc_pos v - video_size_row s2\<rparr>) s2 =
      upd_vc n (\<lambda>v. v\<lparr>vc_x := x' - video_num_columns s1,
        vc_pos := vc_pos v + 2 * (x' - vc_x v) - video_size_row s1\<rparr>) s1"
    using assms(3) unfolding assms(4) by (simp add: upd_vc_def)
  have "keeps n s1 (upd_vc n (\<lambda>v. v\<lparr>vc_x := x' - video_num_columns s1,
        vc_pos := vc_pos v + 2 * (x' - vc_x v) - video_size_row s1\<rparr>) s1)"
    by (rule keeps_upd[OF assms(2)]) (use assms(2,5) w in \<open>simp_all add: window_ok_def vc_ok_def algebra_simps\<close>)
  from keeps_lf[OF this] show ?thesis unfolding wrap_line_def eq by (rule keeps_trans[OF assms(1)])
qed

lemma wrap_line_column:
  assumes "window_ok n s" and "vc_x (vc_cons s n) = video_num_columns s"
  shows "keeps n s (wrap_line n s)" and "vc_x (vc_cons (wrap_line n s) n) = 0"
proof -
  let ?s1 = "upd_vc n (\<lambda>v. v\<lparr>vc_x := vc_x v - video_num_columns s, vc_pos := vc_pos v - video_size_row s\<rparr>) s"
  note w = window_okD(10)[OF assms(1)]
  have k: "keeps n s ?s1"
    by (rule keeps_upd[OF assms(1)]) (use assms w in \<open>simp_all add: window_ok_def vc_ok_def algebra_simps\<close>)
  from keeps_lf[OF this] show "keeps n s (wrap_line n s)" by (simp add: wrap_line_def)
  have x: "vc_x (vc_cons (scrup n s) n) = vc_x (vc_cons s n)" for s
    by (simp add: scrup_def scroll_region_def scroll_window_def set_origin_def crtc_def outb_def Let_def)
  show "vc_x (vc_cons (wrap_line n s) n) = 0" using assms(2) by (simp add: wrap_line_def lf_def x)
qed

lemma keeps_put_cell:
  assumes "keeps n s s1"
  shows "keeps n s (put_cell b n s1)"
proof (rule keeps_comp[OF assms])
  assume w: "window_ok n s1"
  define s2 where "s2 = (if vc_x (vc_cons s1 n) \<ge> video_num_columns s1 then wrap_line n s1 else s1)"
  have s2: "keeps n s1 s2 \<and> vc_x (vc_cons s2 n) < video_num_columns s2"
  proof (cases "vc_x (vc_cons s1 n) \<ge> video_num_columns s1")
    case True
    then have "vc_x (vc_cons s1 n) = video_num_columns s1" using w by (simp add: window_ok_def vc_ok_def)
    note k = wrap_line_column[OF w this]
    have "8 \<le> video_num_columns (wrap_line n s1)" using keeps_window[OF k(1)] by (simp add: window_ok_def vc_ok_def)
    then show ?thesis using True k by (auto simp: s2_def word_less_nat_alt word_le_nat_alt)
  next
    case False
    then show ?thesis using keeps_refl[OF w] by (auto simp: s2_def not_le)
  qed
  let ?s3 = "s2\<lparr>vram := wr16 (vc_pos (vc_cons s2 n)) (ucast b OR push_bit 8 (ucast (vc_attr (vc_cons s2 n)))) (vram s2)\<rparr>"
  have k3: "keeps n s1 ?s3" using keeps_trans keeps_cell keeps_window s2 by blast
  have x: "unat (vc_x (vc_cons s2 n)) < unat (video_num_columns s2)" using s2 by (simp add: word_less_nat_alt)
  then have "unat (vc_x (vc_cons s2 n) + 1) = unat (vc_x (vc_cons s2 n)) + 1"
    using unat_u32_less[of "video_num_columns s2"] by (subst unat_add_lem[THEN iffD1]) simp_all
  then have "vc_x (vc_cons s2 n) + 1 \<le> video_num_columns s2" using x by (simp add: word_le_nat_alt)
  then have "keeps n ?s3 (upd_vc n (\<lambda>v. v\<lparr>vc_pos := vc_pos v + 2, vc_x := vc_x v + 1\<rparr>) ?s3)"
    using keeps_window[OF k3] by (intro keeps_upd) (simp_all add: window_ok_def vc_ok_def algebra_simps)
  from keeps_trans[OF k3 this] show "keeps n s1 (put_cell b n s1)" by (simp add: put_cell_def Let_def s2_def)
qed

lemma keeps_tab:
  assumes "keeps n s s1"
  shows "keeps n s (tab n s1)"
proof (rule keeps_comp[OF assms])
  assume w: "window_ok n s1"
  then have ok: "vc_ok (video_num_columns s1) (video_num_lines s1) (video_size_row s1) (vc_cons s1 n)" by (simp add: window_ok_def)
  let ?x = "vc_x (vc_cons s1 n)" and ?C = "video_num_columns s1"
  define c where "c = 8 - (?x AND 7)"
  let ?s2 = "upd_vc n (\<lambda>v. v\<lparr>vc_x := vc_x v + c, vc_pos := vc_pos v + push_bit 1 c\<rparr>) s1"
  have "unat (?x AND 7) \<le> 7" using word_and_le1[of ?x 7] by (simp add: word_le_nat_alt)
  then have c8: "unat c \<le> 8" using unat_sub_small[of "?x AND 7" 8] by (simp add: c_def)
  have big: "2 * unat ?C < 2 ^ 32" "8 \<le> unat ?C" "unat ?x \<le> unat ?C"
    using window_okD(1,2,6)[OF w] unat_u32_less[of "video_size_row s1"] by simp_all
  have xc: "unat (?x + c) = unat ?x + unat c" using c8 big by (subst unat_add_lem[THEN iffD1]) simp_all
  show "keeps n s1 (tab n s1)"
  proof (cases "?x + c > ?C")
    case True
    then have "unat (?x + c - ?C) = unat ?x + unat c - unat ?C" using xc by (subst unat_sub_small) (simp_all add: word_less_nat_alt)
    then have "?x + c - ?C \<le> ?C" using c8 big by (simp add: word_le_nat_alt)
    from keeps_wrap[OF keeps_refl[OF w] w _ HOL.refl this, of "\<lambda>v. v\<lparr>vc_x := vc_x v + c, vc_pos := vc_pos v + push_bit 1 c\<rparr>"]
    have "keeps n s1 (wrap_line n ?s2)" by (simp add: push_bit_eq_mult mult.commute)
    then show ?thesis using True by (simp add: tab_def Let_def c_def[symmetric])
  next
    case False
    have "keeps n s1 ?s2" using False by (intro keeps_upd[OF w]) (use ok in \<open>simp_all add: vc_ok_def push_bit_eq_mult algebra_simps\<close>)
    then show ?thesis using False by (simp add: tab_def Let_def c_def[symmetric])
  qed
qed

lemma keeps_ports: "keeps n s s1 \<Longrightarrow> same_screens s1 s2 \<Longrightarrow> keeps n s s2"
  by (rule keeps_comp, assumption, rule keeps_same)

lemma keeps_beep: "keeps n s s1 \<Longrightarrow> keeps n s (sysbeep s1)"
  by (erule keeps_ports) (simp add: sysbeep_def same_screens_def)

lemma keeps_translate: "96 \<le> length tr \<Longrightarrow> keeps n s s1 \<Longrightarrow> keeps n s (upd_vc n (\<lambda>v. v\<lparr>vc_translate := tr\<rparr>) s1)"
  by (rule keeps_inert) (simp_all add: inert_def vc_ok_def)

lemma length_trans: "length NORM_TRANS = 96" "96 \<le> length GRAF_TRANS"
  by (simp_all add: NORM_TRANS_def GRAF_TRANS_def)

lemmas keeps_ops = keeps_if keeps_set_state keeps_set_par keeps_gotoxy keeps_lf keeps_ri keeps_cr keeps_del keeps_backspace
  keeps_csi keeps_put_cell keeps_tab keeps_beep keeps_translate[OF length_trans(2)] keeps_translate[OF eq_refl[OF length_trans(1)[symmetric]]]

lemma keeps_con_normal: "keeps n s s1 \<Longrightarrow> keeps n s (con_normal c n s1)"
  unfolding con_normal_def by (intro keeps_ops)

lemma keeps_one: "keeps n s s1 \<Longrightarrow> keeps n s (from_one k n s1)" "keeps n s s1 \<Longrightarrow> keeps n s (at_least_one k n s1)"
  unfolding from_one_def at_least_one_def Let_def by (intro keeps_ops, assumption+)+

lemma keeps_save_cur: "keeps n s s1 \<Longrightarrow> keeps n s (save_cur n s1)"
  unfolding save_cur_def by (rule keeps_inert) (simp_all add: inert_def vc_ok_def)

lemma keeps_restore_cur: "keeps n s s1 \<Longrightarrow> keeps n s (restore_cur n s1)"
  unfolding restore_cur_def by (rule keeps_gotoxy)

lemma set_attr_fields:
  "vc_video_mem_start (set_attr p cl v) = vc_video_mem_start v \<and> vc_video_mem_end (set_attr p cl v) = vc_video_mem_end v \<and>
   vc_ok cols lines row (set_attr p cl v) = vc_ok cols lines row v"
  unfolding set_attr_def Let_def by (simp add: vc_ok_def)

lemma keeps_csi_m: "keeps n s s1 \<Longrightarrow> keeps n s (csi_m n s1)"
  unfolding csi_m_def
proof (rule keeps_inert)
  have "vc_video_mem_start (foldl (\<lambda>v i. set_attr (vc_par v i) cl v) v xs) = vc_video_mem_start v \<and>
      vc_video_mem_end (foldl (\<lambda>v i. set_attr (vc_par v i) cl v) v xs) = vc_video_mem_end v \<and>
      vc_ok cols lines row (foldl (\<lambda>v i. set_attr (vc_par v i) cl v) v xs) = vc_ok cols lines row v" for cl v xs cols lines row
    by (induction xs arbitrary: v) (simp_all add: set_attr_fields)
  then show "inert (\<lambda>v. foldl (\<lambda>v i. set_attr (vc_par v i) (can_do_colour s1) v) v [0..<Suc (unat (vc_npar v))])"
    unfolding inert_def by blast
qed

lemma keeps_margins:
  assumes "keeps n s s1"
  shows "keeps n s (set_margins n s1)"
proof -
  define s2 where "s2 = (let s1 = from_one 0 n s1
      in if vc_par (vc_cons s1 n) 1 = 0 then set_par 1 (video_num_lines s1) n s1 else s1)"
  have k: "keeps n s s2" unfolding s2_def Let_def by (intro keeps_if keeps_set_par keeps_one assms)
  let ?p = "vc_par (vc_cons s2 n)"
  have "keeps n s (if ?p 0 < ?p 1 \<and> ?p 1 \<le> video_num_lines s2 then upd_vc n (\<lambda>v. v\<lparr>vc_top := ?p 0, vc_bottom := ?p 1\<rparr>) s2 else s2)"
    by (intro keeps_if keeps_comp[OF k] keeps_upd keeps_refl) (simp_all add: window_ok_def vc_ok_def)
  then show ?thesis unfolding set_margins_def s2_def Let_def .
qed

lemma keeps_set_term: "keeps n s s1 \<Longrightarrow> keeps n s (set_term c n s1)"
proof -
  assume k: "keeps n s s1"
  have b: "keeps n s (s1\<lparr>blankinterval := b, blankcount := b'\<rparr>)" for b b'
    by (rule keeps_ports[OF k]) (simp add: same_screens_def)
  have i: "inert (\<lambda>v. v\<lparr>vc_bold_attr := a\<rparr>)" for a by (simp add: inert_def vc_ok_def)
  show ?thesis unfolding set_term_def Let_def by (intro keeps_if keeps_inert[OF i] b k)
qed

lemma keeps_command: "keeps n s s1 \<Longrightarrow> keeps n s (csi_command c n s1)"
  unfolding csi_command_def Let_def
  by (intro keeps_if keeps_gotoxy keeps_one keeps_csi keeps_csi_m keeps_margins keeps_save_cur keeps_restore_cur keeps_set_term)

lemma keeps_gotpars: "keeps n s s1 \<Longrightarrow> keeps n s (con_gotpars c n s1)"
  unfolding con_gotpars_def Let_def
  by (intro keeps_if keeps_inert keeps_command keeps_set_state) (simp_all add: inert_def vc_ok_def)

lemma keeps_getpars:
  assumes "keeps n s s1"
  shows "keeps n s (con_getpars c n s1)"
proof -
  have "keeps n s (upd_vc n (\<lambda>v. v\<lparr>vc_npar := vc_npar v + 1\<rparr>) s1)" if "vc_npar (vc_cons s1 n) < of_nat (NPAR - 1)"
  proof -
    have "unat (vc_npar (vc_cons s1 n) + 1) < 16" using that
      by (subst unat_add_lem[THEN iffD1]) (simp_all add: word_less_nat_alt NPAR_def)
    then show ?thesis
      by (intro keeps_comp[OF assms] keeps_upd) (simp_all add: window_ok_def vc_ok_def word_less_nat_alt)
  qed
  then show ?thesis unfolding con_getpars_def Let_def
    by (intro keeps_if keeps_set_par keeps_gotpars keeps_set_state assms) simp
qed

lemma keeps_square: "keeps n s s1 \<Longrightarrow> keeps n s (con_square c n s1)"
  unfolding con_square_def Let_def
  by (intro keeps_if keeps_inert keeps_getpars keeps_set_state) (simp_all add: inert_def vc_ok_def)

lemma keeps_setterm: "keeps n s s1 \<Longrightarrow> keeps n s (con_setterm c n s1)"
  unfolding con_setterm_def Let_def
  by (intro keeps_if keeps_inert keeps_set_state) (simp_all add: inert_def vc_ok_def)

lemma keeps_setgraph: "keeps n s s1 \<Longrightarrow> keeps n s (con_setgraph c n s1)"
  unfolding con_setgraph_def Let_def by (intro keeps_ops)

section \<open>A stream of characters\<close>

text \<open>What \<open>tty->write\<close> may change on a terminal it is called for again while it echoes.\<close>

definition cook_keeps :: "nat \<Rightarrow> con_state writer \<Rightarrow> bool" where
  "cook_keeps n cook \<longleftrightarrow>
     (\<forall>s s'. window_ok n s \<longrightarrow> tt_write (tty_table s n) = ConWrite \<longrightarrow> cook n s = Inr s' \<longrightarrow> keeps n s s')"

lemma cook_keepsD:
  "cook_keeps n cook \<Longrightarrow> keeps n s s1 \<Longrightarrow> tt_write (tty_table s n) = ConWrite \<Longrightarrow> cook n s1 = Inr s' \<Longrightarrow> keeps n s s'"
proof -
  assume a: "cook_keeps n cook" "keeps n s s1" "tt_write (tty_table s n) = ConWrite" "cook n s1 = Inr s'"
  then have "tt_write (tty_table s1 n) = ConWrite" by (simp add: keeps_def confined_def)
  then show ?thesis using a keeps_trans keeps_window unfolding cook_keeps_def by blast
qed

lemma keeps_upd_tty: "keeps n s s1 \<Longrightarrow> (\<And>t. tt_write (f t) = tt_write t) \<Longrightarrow> keeps n s (upd_tty i f s1)"
  by (erule keeps_ports, erule same_upd_tty)

lemma keeps_esc:
  assumes "cook_keeps n cook" and k: "keeps n s s1" and "tt_write (tty_table s n) = ConWrite" and r: "con_esc cook c n s1 = Inr s'"
  shows "keeps n s s'"
proof -
  let ?s1 = "set_state ESnormal n s1"
  have k1: "keeps n s ?s1" by (rule keeps_set_state[OF k])
  have re: "keeps n s s'" if "respond cook n ?s1 = Inr s'"
    by (rule cook_keepsD[OF assms(1) keeps_upd_tty[OF k1] assms(3) that[unfolded respond_def]]) simp
  let ?r = "\<lambda>v. v\<lparr>vc_state := ESnormal, vc_restate := ESnormal, vc_checkin := 0, vc_top := 0, vc_bottom := video_num_lines s1\<rparr>"
  have "keeps n s (upd_tty n (\<lambda>t. t\<lparr>termios := DEF_TERMIOS\<rparr>) ?s1)" by (rule keeps_upd_tty[OF k1]) simp
  then have rs: "keeps n s (upd_vc n ?r (upd_tty n (\<lambda>t. t\<lparr>termios := DEF_TERMIOS\<rparr>) ?s1))"
  proof (rule keeps_comp)
    let ?s = "upd_tty n (\<lambda>t. t\<lparr>termios := DEF_TERMIOS\<rparr>) ?s1"
    assume w: "window_ok n ?s"
    have l: "video_num_lines s1 = video_num_lines ?s" by (simp add: upd_tty_def set_state_def)
    have "(0 :: u32) < video_num_lines ?s"
      using w unfolding window_ok_def vc_ok_def by (metis le_less_trans word_zero_le)
    then show "keeps n ?s (upd_vc n ?r ?s)" unfolding l
      using w by (intro keeps_upd) (simp_all add: window_ok_def vc_ok_def)
  qed
  show ?thesis using r re rs
    by (simp add: con_esc_def Let_def split: if_splits)
      (auto intro: keeps_set_state[OF k1] keeps_gotoxy[OF k1] keeps_ri[OF k1] keeps_lf[OF k1] keeps_save_cur[OF k1] keeps_restore_cur[OF k1] k1)
qed

lemma keeps_char:
  assumes "cook_keeps n cook" and k: "keeps n s s1" and "tt_write (tty_table s n) = ConWrite" and r: "con_char cook c n s1 = Inr s'"
  shows "keeps n s s'"
proof -
  define s2 where "s2 = (if c = 24 \<or> c = 26 then set_state ESnormal n s1 else s1)"
  have k2: "keeps n s s2" unfolding s2_def by (intro keeps_if keeps_set_state k)
  from r have "(case vc_state (vc_cons s2 n) of ESnormal \<Rightarrow> Inr (con_normal c n s2) | ESesc \<Rightarrow> con_esc cook c n s2
     | ESsquare \<Rightarrow> Inr (con_square c n s2) | ESgetpars \<Rightarrow> Inr (con_getpars c n s2) | ESgotpars \<Rightarrow> Inr (con_gotpars c n s2)
     | ESfunckey \<Rightarrow> Inr (set_state ESnormal n s2) | ESsetterm \<Rightarrow> Inr (con_setterm c n s2)
     | ESsetgraph \<Rightarrow> Inr (con_setgraph c n s2) | ESnone \<Rightarrow> Inr (set_state ESnormal n s2)) = Inr s'"
    by (simp only: con_char_def Let_def s2_def)
  then show ?thesis
    using keeps_esc[OF assms(1) k2 assms(3)] keeps_con_normal[OF k2] keeps_square[OF k2] keeps_getpars[OF k2] keeps_gotpars[OF k2]
      keeps_set_state[OF k2] keeps_setterm[OF k2] keeps_setgraph[OF k2]
    by (auto split: es.splits)
qed

lemma keeps_loop:
  "cook_keeps n cook \<Longrightarrow> keeps n s s1 \<Longrightarrow> tt_write (tty_table s n) = ConWrite \<Longrightarrow> con_loop cook k n s1 = Inr s' \<Longrightarrow> keeps n s s'"
proof (induction k arbitrary: s1)
  case (Suc k)
  obtain b q where g: "GETCH (write_q (tty_table s1 n)) = (b, q)" by fastforce
  show ?case
  proof (cases "tt_stopped (tty_table s1 n)")
    case False
    let ?s2 = "upd_tty n (\<lambda>t. t\<lparr>write_q := q\<rparr>) s1"
    have k2: "keeps n s ?s2" by (rule keeps_upd_tty[OF Suc.prems(2)]) simp
    obtain s3 where s3: "con_char cook (sint b) n ?s2 = Inr s3" "con_loop cook k n s3 = Inr s'"
      using Suc.prems(4) False g by (auto simp: kbind_Inr_iff)
    show ?thesis using Suc.IH[OF Suc.prems(1) keeps_char[OF Suc.prems(1) k2 Suc.prems(3) s3(1)] Suc.prems(3) s3(2)] .
  qed (use Suc.prems in simp)
qed simp

lemma keeps_con_write:
  assumes "cook_keeps n cook" and "window_ok n s" and "tt_write (tty_table s n) = ConWrite" and "con_write cook n s = Inr s'"
  shows "keeps n s s'"
proof -
  obtain s1 where s1: "con_loop cook (unat (CHARS (write_q (tty_table s n)))) n s = Inr s1" "s' = set_cursor n s1"
    using assms(4) by (auto simp: con_write_def kbind_Inr_iff split: if_splits)
  have "keeps n s s1" by (rule keeps_loop[OF assms(1) keeps_refl[OF assms(2)] assms(3) s1(1)])
  then show ?thesis unfolding s1(2) by (rule keeps_ports) (rule same_set_cursor)
qed


section \<open>Through the line discipline\<close>

text \<open>
  What a terminal's driver leaves alone, the line discipline in front of it leaves alone: an
  assertion kept by \<open>tty->write\<close>, by changes to the terminal that do not replace its driver, by signals and wake-ups.
\<close>

locale tty_frame =
  fixes i :: nat and P :: "'a tty_state_scheme \<Rightarrow> bool" and wr :: "'a tty_state_scheme writer"
  assumes wr_P: "P s \<Longrightarrow> wr i s = Inr s' \<Longrightarrow> P s'"
    and upd_P: "P s \<Longrightarrow> (\<And>t. tt_write (f t) = tt_write t \<and> tt_queues (f t) = tt_queues t) \<Longrightarrow>
      (queues_ok (tty_table s i) \<Longrightarrow> queues_ok (f (tty_table s i))) \<Longrightarrow> P (upd_tty i f s)"
    and kern_P: "P s \<Longrightarrow> P (s\<lparr>ts_kern := k\<rparr>)"
    and emit_P: "P s \<Longrightarrow> P (emit e s)"
begin

lemma put_P: "P s \<Longrightarrow> P (put_write i c s)"
  unfolding put_write_def by (rule upd_P) (simp_all add: queues_ok_def q_ok_PUTCH)

lemma erase_echo_P: "P s \<Longrightarrow> erase_echo wr i c s = Inr s' \<Longrightarrow> P s'"
  by (auto simp: erase_echo_def put_P split: if_splits intro: wr_P[rotated])

lemma dec_P: "P s \<Longrightarrow> P (dec_secondary i s)"
  unfolding dec_secondary_def by (rule upd_P) (simp_all add: queues_ok_def q_ok_DEC)

lemma kill_line_P: "P s \<Longrightarrow> kill_line fuel wr i s = Inr s' \<Longrightarrow> P s'"
proof (induction fuel arbitrary: s)
  case (Suc fuel)
  then show ?case by (auto simp: kbind_Inr_iff split: option.splits) (blast intro: dec_P erase_echo_P)
qed simp

lemma erase_char_P: "P s \<Longrightarrow> erase_char wr i s = Inr s' \<Longrightarrow> P s'"
  by (auto simp: erase_char_def kbind_Inr_iff dec_P split: option.splits dest: erase_echo_P)

lemma signal_group_P: "P s \<Longrightarrow> signal_group g sig s = Inr s' \<Longrightarrow> P s'"
  by (auto simp: signal_group_def kbind_Inr_iff kern_P)

lemma echo_input_P: "P s \<Longrightarrow> echo_input wr i c s = Inr s' \<Longrightarrow> P s'"
  by (auto simp: echo_input_def put_P split: if_splits intro: wr_P[rotated])

lemma cook_char_P:
  assumes "P s" and "cook_char fuel wr i c s = Inr s'"
  shows "P s'"
proof -
  have st: "P (upd_tty i (\<lambda>t. t\<lparr>tt_stopped := v\<rparr>) s)" for v by (rule upd_P[OF assms(1)]) (simp_all add: queues_ok_def)
  have q: "P (upd_tty i (\<lambda>t. t\<lparr>secondary := f (secondary t)\<rparr>) s1)" if "P s1" "\<And>q. q_ok q \<Longrightarrow> q_ok (f q)" for f s1
    by (rule upd_P[OF that(1)]) (simp_all add: queues_ok_def that(2))
  have d: "q_ok (q\<lparr>q_data := n\<rparr>)" if "q_ok q" for q n using that by (simp add: q_ok_def)
  have p: "P s'" if "kbind (echo_input wr i c s1) (\<lambda>s2. Inr (upd_tty i (\<lambda>t. t\<lparr>secondary := PUTCH (word_of_int c) (secondary t)\<rparr>) s2)) = Inr s'"
    "P s1" for s1 using that echo_input_P q[of _ "PUTCH (word_of_int c)", OF _ q_ok_PUTCH] by (auto simp: kbind_Inr_iff)
  show ?thesis
    using assms(2) st wr_P p[OF _ assms(1)] p[OF _ q[OF assms(1), of "\<lambda>q. q\<lparr>q_data := q_data q + 1\<rparr>", OF d]] assms(1)
      kill_line_P[OF assms(1)] erase_char_P[OF assms(1)] signal_group_P[OF assms(1)]
    unfolding cook_char_def Let_def by (simp split: if_splits) blast+
qed

lemma cook_loop_P: "P s \<Longrightarrow> cook_loop fuel wr i s = Inr s' \<Longrightarrow> P s'"
proof (induction fuel arbitrary: s)
  case (Suc fuel)
  obtain b q where g: "GETCH (read_q (tty_table s i)) = (b, q)" by fastforce
  let ?s1 = "upd_tty i (\<lambda>t. t\<lparr>read_q := q\<rparr>) s"
  have p1: "P ?s1" by (rule upd_P[OF Suc.prems(1)]) (use q_ok_GETCH[OF _ g] in \<open>simp_all add: queues_ok_def\<close>)
  show ?case using Suc.prems Suc.IH p1
    by (auto simp: Let_def g kbind_Inr_iff split: if_splits option.splits) (blast intro: cook_char_P)
qed simp

lemma copy_to_cooked_P: "P s \<Longrightarrow> copy_to_cooked fuel wr i s = Inr s' \<Longrightarrow> P s'"
  by (auto simp: copy_to_cooked_def kbind_Inr_iff emit_P split: if_splits dest: cook_loop_P)

lemma tty_signal_P: "P s \<Longrightarrow> tty_signal sig s = Inr (r, s') \<Longrightarrow> P s'"
  by (auto simp: tty_signal_def Let_def kbind_Inr_iff split: if_splits dest: signal_group_P)

text \<open>The other processes are assumed to keep the assertion while the caller sleeps.\<close>

lemma wait_room_P: "P s \<Longrightarrow> (\<And>e s. e \<in> set envs \<Longrightarrow> P s \<Longrightarrow> P (e s)) \<Longrightarrow> wait_room i envs s = Inr (es, s') \<Longrightarrow> P s' \<and> set es \<subseteq> set envs"
proof (induction envs arbitrary: s)
  case (Cons e envs)
  show ?case
  proof (cases "\<not> pending_signal s \<and> LEFT (write_q (tty_table s i)) < 128")
    case True
    have "wait_room i envs (e s) = Inr (es, s')" using Cons.prems(3) True by (subst (asm) wait_room.simps) simp
    then have "P s' \<and> set es \<subseteq> set envs" using Cons.prems by (intro Cons.IH) simp_all
    then show ?thesis by auto
  next
    case False
    then show ?thesis using Cons.prems by (subst (asm) wait_room.simps) auto
  qed
qed (subst (asm) wait_room.simps, auto split: if_splits)

lemma fill_write_P: "P s \<Longrightarrow> (\<And>s b. P s \<Longrightarrow> P (s\<lparr>cr_flag := b\<rparr>)) \<Longrightarrow> fill_write fuel i bs s = Inr (rest, s') \<Longrightarrow> P s'"
proof (induction fuel arbitrary: bs s)
  case (Suc fuel)
  note c = put_P[OF Suc.prems(2)[OF Suc.prems(1)]]
  show ?case using Suc.prems Suc.IH[OF c Suc.prems(2)]
    by (auto simp: kbind_Inr_iff split: if_splits option.splits list.splits)
qed simp

lemma write_loop_P:
  "P s \<Longrightarrow> (\<And>s b. P s \<Longrightarrow> P (s\<lparr>cr_flag := b\<rparr>)) \<Longrightarrow> (\<And>e s. e \<in> set envs \<Longrightarrow> P s \<Longrightarrow> P (e s)) \<Longrightarrow>
    write_loop fuel wr i bs envs s = Inr (rest, s') \<Longrightarrow> P s'"
proof (induction fuel arbitrary: bs envs s)
  case (Suc fuel)
  show ?case
  proof (cases "bs = []")
    case False
    then obtain envs1 s1 where w: "sleep_if_full i envs s = Inr (envs1, s1)"
      and r: "(if pending_signal s1 then Inr (bs, s1)
           else kbind (fill_write (Suc fuel) i bs s1)
             (\<lambda>(rest, s2). kbind (wr i s2)
                (\<lambda>s3. if rest = [] then Inr ([], s3)
                      else case envs1 of [] \<Rightarrow> Inl Unfinished | e # es \<Rightarrow> write_loop fuel wr i rest es (e s3)))) = Inr (rest, s')"
      using Suc.prems(4) by (auto simp: kbind_Inr_iff)
    have p1: "P s1 \<and> set envs1 \<subseteq> set envs"
    proof (cases "FULL (write_q (tty_table s i))")
      case True
      then have "wait_room i envs s = Inr (envs1, s1)" using w by (simp add: sleep_if_full_def)
      then show ?thesis by (rule wait_room_P[of s envs, rotated 2]) (use Suc.prems in auto)
    next
      case False
      then show ?thesis using w Suc.prems(1) by (simp add: sleep_if_full_def)
    qed
    show ?thesis
    proof (cases "pending_signal s1")
      case True
      then show ?thesis using r p1 by simp
    next
      case False
      then obtain rs s2 s3 where f: "fill_write (Suc fuel) i bs s1 = Inr (rs, s2)" "wr i s2 = Inr s3"
        and r3: "(if rs = [] then Inr ([], s3) else case envs1 of [] \<Rightarrow> Inl Unfinished | e # es \<Rightarrow> write_loop fuel wr i rs es (e s3)) = Inr (rest, s')"
        using r by (auto simp: kbind_Inr_iff)
      have "P s2" by (rule fill_write_P[of s1, OF _ _ f(1)]) (use p1 Suc.prems(2) in auto)
      then have p3: "P s3" by (rule wr_P) (rule f(2))
      show ?thesis
      proof (cases "rs = [] \<or> envs1 = []")
        case True
        then show ?thesis using r3 p3 by (auto split: if_splits)
      next
        case False
        then obtain e es where e: "envs1 = e # es" by (cases envs1) auto
        show ?thesis
        proof (rule Suc.IH[of "e s3" es rs])
          show "P (e s3)" using Suc.prems(3)[of e s3] p1 p3 e by auto
          show "P (e' s)" if "e' \<in> set es" "P s" for e' s using Suc.prems(3)[of e' s] p1 e that by auto
          show "write_loop fuel wr i rs es (e s3) = Inr (rest, s')" using r3 False e by simp
        qed (rule Suc.prems(2))
      qed
    qed
  qed (use Suc.prems in simp)
qed simp

end

interpretation serial_frame: tty_frame i "\<lambda>s. tt_write (tty_table s i) = RsWrite" "tty_call_write con fuel (Suc d)" for i con fuel d
  by unfold_locales (auto simp: rs_write_def emit_def)

lemma keeps_state:
  assumes "keeps n s0 s"
  shows "(\<And>t. tt_write (f t) = tt_write t) \<Longrightarrow> keeps n s0 (upd_tty i f s)" "keeps n s0 (s\<lparr>ts_kern := k\<rparr>)" "keeps n s0 (emit e s)"
    "keeps n s0 (s\<lparr>cr_flag := b\<rparr>)"
proof -
  show "keeps n s0 (upd_tty i f s)" if "\<And>t. tt_write (f t) = tt_write t" by (rule keeps_upd_tty[OF assms that])
  show "keeps n s0 (s\<lparr>ts_kern := k\<rparr>)" "keeps n s0 (emit e s)" "keeps n s0 (s\<lparr>cr_flag := b\<rparr>)"
    by (rule keeps_ports[OF assms], simp add: same_screens_def emit_def)+
qed

lemma console_frame:
  assumes "tt_write (tty_table s0 n) = ConWrite"
    and "\<And>s s'. window_ok n s \<Longrightarrow> tt_write (tty_table s n) = ConWrite \<Longrightarrow> wr n s = Inr s' \<Longrightarrow> keeps n s s'"
  shows "tty_frame n (keeps n s0) wr"
proof
  fix s s' assume k: "keeps n s0 s" "wr n s = Inr s'"
  then have "tt_write (tty_table s n) = ConWrite" using assms(1) by (simp add: keeps_def confined_def)
  then show "keeps n s0 s'" using keeps_trans[OF k(1) assms(2)[OF keeps_window[OF k(1)] _ k(2)]] by blast
qed (auto intro: keeps_state)

lemma console_keeps:
  "window_ok n s \<Longrightarrow> tt_write (tty_table s n) = ConWrite \<Longrightarrow> tty_call_write con_write fuel depth n s = Inr s' \<Longrightarrow> keeps n s s'"
proof (induction depth arbitrary: s s')
  case (Suc depth)
  have "cook_keeps n (copy_to_cooked fuel (tty_call_write con_write fuel depth))"
    unfolding cook_keeps_def
    using tty_frame.copy_to_cooked_P[OF console_frame[OF _ Suc.IH]] keeps_refl by blast
  from keeps_con_write[OF this Suc.prems(1,2)] Suc.prems show ?case by simp
qed simp

lemma console_write_keeps:
  assumes "window_ok n s" and "tt_write (tty_table s n) = ConWrite" and "channel = Suc n" and "n < 63"
    and "tty_write fuel' (tty_call_write con_write fuel depth) channel bs envs s = Inr (r, s')"
    and "\<And>e s1. e \<in> set envs \<Longrightarrow> keeps n s s1 \<Longrightarrow> keeps n s (e s1)"
  shows "keeps n s s'"
proof -
  have f: "tty_frame n (keeps n s) (tty_call_write con_write fuel depth)"
    by (rule console_frame[OF assms(2)]) (rule console_keeps)
  have i: "tty_index channel s = n" using assms(3,4) by (simp add: tty_index_def)
  have w: "keeps n s s'" if "write_loop fuel' (tty_call_write con_write fuel depth) n bs envs s = Inr (rest, s')" for rest
    by (rule tty_frame.write_loop_P[OF f _ _ _ that]) (use keeps_refl[OF assms(1)] keeps_state(4) assms(6) in auto)
  have g: "keeps n s s'" if "tty_signal SIGTTOU s = Inr (r, s')"
    by (rule tty_frame.tty_signal_P[OF f _ that]) (rule keeps_refl[OF assms(1)])
  show ?thesis
    using assms(5) keeps_refl[OF assms(1)] w g unfolding tty_write_def Let_def i by (auto simp: kbind_Inr_iff split: if_splits)
qed


section \<open>Setting up\<close>

text \<open>
  What the boot code must leave: at least eight columns, a screen that fits the memory of the adapter (32 KB, or 8 KB when it
  is no EGA), a cursor on it.
\<close>

definition adapter_memory :: "boot_screen \<Rightarrow> nat" where
  "adapter_memory b = (if ORIG_VIDEO_EGA_BX b AND 0xFF \<noteq> 0x10 then 0x8000 else 0x2000)"

definition boot_ok :: "boot_screen \<Rightarrow> bool" where
  "boot_ok b \<longleftrightarrow>
     8 \<le> ORIG_VIDEO_COLS b \<and> 0 < ORIG_VIDEO_LINES b \<and>
     unat (ORIG_VIDEO_LINES b) * (2 * unat (ORIG_VIDEO_COLS b)) \<le> adapter_memory b \<and>
     ucast (ORIG_X b) \<le> ORIG_VIDEO_COLS b \<and> ucast (ORIG_Y b) < ORIG_VIDEO_LINES b"

definition window :: "con_state \<Rightarrow> nat \<Rightarrow> u32 set" where
  "window s n = {vc_video_mem_start (vc_cons s n)..<vc_video_mem_end (vc_cons s n)}"

definition windows_from :: "u32 \<Rightarrow> con_state \<Rightarrow> nat \<Rightarrow> bool" where
  "windows_from memory s n \<longleftrightarrow>
     window_ok n s \<and> vc_video_mem_start (vc_cons s n) = video_mem_base s + of_nat n * memory \<and>
     vc_video_mem_end (vc_cons s n) = video_mem_base s + of_nat (Suc n) * memory"

text \<open>The geometry while the consoles are set up.\<close>

definition layout_ok :: "u32 \<Rightarrow> nat \<Rightarrow> con_state \<Rightarrow> bool" where
  "layout_ok memory k s \<longleftrightarrow>
     8 \<le> video_num_columns s \<and> 2 * unat (video_num_columns s) = unat (video_size_row s) \<and> 0 < video_num_lines s \<and>
     unat (video_num_lines s) * unat (video_size_row s) \<le> unat memory \<and> k * unat memory \<le> 0x8000 \<and>
     unat (video_mem_base s) \<le> 0xB8000"

lemma window_bounds:
  assumes "layout_ok memory k s" and "n < k"
  shows "unat (video_mem_base s + of_nat n * memory) = unat (video_mem_base s) + n * unat memory"
    "unat (video_mem_base s + of_nat (Suc n) * memory) = unat (video_mem_base s) + Suc n * unat memory"
    "unat (video_mem_base s) + Suc n * unat memory \<le> 0xC0000"
proof -
  have k: "k * unat memory \<le> 0x8000" "unat (video_mem_base s) \<le> 0xB8000" using assms(1) by (simp_all add: layout_ok_def)
  have u: "unat (video_mem_base s + of_nat m * memory) = unat (video_mem_base s) + m * unat memory" if "m \<le> k" for m
  proof -
    have "m * unat memory \<le> 0x8000" using mult_le_mono1[OF that, of "unat memory"] k by linarith
    then have b: "unat (video_mem_base s) + m * unat memory < 2 ^ 32" using k by simp
    have "video_mem_base s + of_nat m * memory = of_nat (unat (video_mem_base s) + m * unat memory)" by simp
    then show ?thesis using unat_of_nat_small[OF b] by simp
  qed
  show "unat (video_mem_base s + of_nat n * memory) = unat (video_mem_base s) + n * unat memory" using u assms(2) by simp
  show "unat (video_mem_base s + of_nat (Suc n) * memory) = unat (video_mem_base s) + Suc n * unat memory"
    using u[of "Suc n"] assms(2) by simp
  have "Suc n * unat memory \<le> k * unat memory" using assms(2) by (intro mult_le_mono1) simp
  then show "unat (video_mem_base s) + Suc n * unat memory \<le> 0xC0000" using k by linarith
qed

lemma fresh_window:
  assumes "layout_ok memory k s" and "n < k"
    and "vc_npar v < 16" and "96 \<le> length (vc_translate v)" and "vc_top v = 0" and "vc_bottom v = video_num_lines s"
    and "a \<le> video_num_columns s" and "b < video_num_lines s"
    and "start = video_mem_base s + of_nat n * memory"
  shows "vc_ok (video_num_columns s) (video_num_lines s) (video_size_row s)
     (v\<lparr>vc_origin := start, vc_video_mem_start := start, vc_scr_end := start + video_num_lines s * video_size_row s,
        vc_video_mem_end := video_mem_base s + of_nat (Suc n) * memory,
        vc_x := a, vc_y := b, vc_pos := start + b * video_size_row s + push_bit 1 a\<rparr>)"
proof -
  note w = window_bounds[OF assms(1,2)]
  have row: "unat (video_size_row s) \<le> 0x8000"
  proof -
    have "1 \<le> unat (video_num_lines s)" "1 \<le> k" using assms(1,2) by (simp_all add: layout_ok_def word_less_nat_alt Suc_le_eq)
    then have "1 * unat (video_size_row s) \<le> unat (video_num_lines s) * unat (video_size_row s)" "1 * unat memory \<le> k * unat memory"
      using mult_le_mono1 by blast+
    moreover have "unat (video_num_lines s) * unat (video_size_row s) \<le> unat memory" "k * unat memory \<le> 0x8000"
      using assms(1) by (simp_all add: layout_ok_def)
    ultimately show ?thesis by linarith
  qed
  have e: "video_mem_base s + of_nat (Suc n) * memory - (video_mem_base s + of_nat n * memory) = memory" by (simp add: algebra_simps)
  have "video_mem_base s + of_nat n * memory \<le> video_mem_base s + of_nat (Suc n) * memory"
    unfolding word_le_nat_alt w(1,2) by simp
  moreover have "unat (video_mem_base s + of_nat (Suc n) * memory) + unat (video_size_row s) < 2 ^ 32"
    unfolding w(2) using w(3) row by simp
  ultimately show ?thesis using assms(1,3-8) e unfolding vc_ok_def assms(9) layout_ok_def
    by (simp add: push_bit_eq_mult mult.commute del: of_nat_Suc)
qed

lemma next_console_ok:
  assumes "layout_ok memory k s" and "windows_from memory s 0" and "vc_top (vc_cons s 0) = 0" and "vc_bottom (vc_cons s 0) = video_num_lines s"
    and "0 < n" and "n < k"
  shows "windows_from memory (next_console memory s n) n" and "\<And>m. m \<noteq> n \<Longrightarrow> vc_cons (next_console memory s n) m = vc_cons s m"
    and "video_num_columns (next_console memory s n) = video_num_columns s" "video_num_lines (next_console memory s n) = video_num_lines s"
    "video_size_row (next_console memory s n) = video_size_row s" "video_mem_base (next_console memory s n) = video_mem_base s"
proof -
  let ?start = "video_mem_base s + of_nat n * memory" and ?v = "vc_cons s 0"
  have l: "0 < video_num_lines s" using assms(1) by (simp add: layout_ok_def)
  have nl: "\<not> (0 > video_num_columns s \<or> 0 \<ge> video_num_lines s)" using l by simp
  have e: "video_mem_base s + memory + of_nat n * memory = video_mem_base s + of_nat (Suc n) * memory" by (simp add: algebra_simps)
  have c: "vc_cons (next_console memory s n) n = ?v\<lparr>vc_origin := ?start, vc_video_mem_start := ?start,
      vc_scr_end := ?start + video_num_lines s * video_size_row s, vc_video_mem_end := video_mem_base s + of_nat (Suc n) * memory,
      vc_x := 0, vc_y := 0, vc_pos := ?start + 0 * video_size_row s + push_bit 1 0\<rparr>"
    unfolding next_console_def Let_def gotoxy_def upd_vc_fields if_not_P[OF nl] e by simp
  show g: "video_num_columns (next_console memory s n) = video_num_columns s" "video_num_lines (next_console memory s n) = video_num_lines s"
    "video_size_row (next_console memory s n) = video_size_row s" "video_mem_base (next_console memory s n) = video_mem_base s"
    by (simp_all add: next_console_def gotoxy_def Let_def)
  show "\<And>m. m \<noteq> n \<Longrightarrow> vc_cons (next_console memory s n) m = vc_cons s m" by (simp add: next_console_def gotoxy_def Let_def)
  have w0: "vc_npar ?v < 16" "96 \<le> length (vc_translate ?v)" using assms(2) by (simp_all add: windows_from_def window_ok_def vc_ok_def)
  show "windows_from memory (next_console memory s n) n"
    using fresh_window[OF assms(1,6) w0 assms(3,4) word_zero_le l HOL.refl]
    unfolding windows_from_def window_ok_def g c by simp
qed

lemma next_consoles_ok:
  assumes "layout_ok memory k s" and "windows_from memory s 0" and "vc_top (vc_cons s 0) = 0" and "vc_bottom (vc_cons s 0) = video_num_lines s"
    and "j < k"
  shows "let s' = foldl (next_console memory) s [1..<Suc j]
    in layout_ok memory k s' \<and> vc_cons s' 0 = vc_cons s 0 \<and> video_num_lines s' = video_num_lines s \<and> video_mem_base s' = video_mem_base s \<and>
       video_num_columns s' = video_num_columns s \<and> video_size_row s' = video_size_row s \<and> (\<forall>n\<le>j. windows_from memory s' n)"
  using assms(5)
proof (induction j)
  case 0
  then show ?case using assms by simp
next
  case (Suc j)
  define s1 where "s1 = foldl (next_console memory) s [1..<Suc j]"
  have i: "layout_ok memory k s1" "vc_cons s1 0 = vc_cons s 0" "video_num_lines s1 = video_num_lines s" "video_mem_base s1 = video_mem_base s"
    "video_num_columns s1 = video_num_columns s" "video_size_row s1 = video_size_row s" "\<forall>n\<le>j. windows_from memory s1 n"
    using Suc by (simp_all add: Let_def s1_def)
  have w: "windows_from memory s1 0" "vc_top (vc_cons s1 0) = 0" "vc_bottom (vc_cons s1 0) = video_num_lines s1"
    using i assms(3,4) by simp_all
  note n = next_console_ok[OF i(1) w zero_less_Suc Suc.prems]
  have "windows_from memory (next_console memory s1 (Suc j)) m" if "m \<le> Suc j" for m
  proof (cases "m = Suc j")
    case False
    then have "windows_from memory s1 m" using that i(7) by simp
    then show ?thesis using n(2)[OF False] n(3-6) by (simp add: windows_from_def window_ok_def)
  qed (use n(1) in simp)
  moreover have "foldl (next_console memory) s [1..<Suc (Suc j)] = next_console memory s1 (Suc j)" by (simp add: s1_def)
  moreover have "layout_ok memory k (next_console memory s1 (Suc j))" using i(1) n(3-6) by (simp add: layout_ok_def)
  ultimately show ?case unfolding Let_def using i n(2)[of 0] n(3-6) by simp
qed


lemma count_consoles_bounds:
  assumes "0 < unat (video_num_lines s * video_size_row s)" and "unat (video_num_lines s * video_size_row s) \<le> unat memory"
  shows "1 \<le> unat (count_consoles memory s)" "unat (count_consoles memory s) \<le> 8"
    "unat (count_consoles memory s) \<le> unat memory div unat (video_num_lines s * video_size_row s)"
proof -
  let ?k = "memory div (video_num_lines s * video_size_row s)"
  have k: "unat ?k = unat memory div unat (video_num_lines s * video_size_row s)" by (simp add: unat_div)
  have "0 < unat ?k" unfolding k using assms by (simp add: div_greater_zero_iff)
  then have "?k \<noteq> 0" by auto
  then have c: "count_consoles memory s = (if ?k > 8 then 8 else ?k)" by (simp add: count_consoles_def MAX_CONSOLES_def Let_def)
  show "1 \<le> unat (count_consoles memory s)" "unat (count_consoles memory s) \<le> 8"
    "unat (count_consoles memory s) \<le> unat memory div unat (video_num_lines s * video_size_row s)"
    using \<open>0 < unat ?k\<close> unfolding c k[symmetric] by (auto simp: word_less_nat_alt)
qed

lemma update_screen_same: "same_screens s (update_screen s)" "video_mem_base (update_screen s) = video_mem_base s"
  "NR_CONSOLES (update_screen s) = NR_CONSOLES s"
  by (simp_all add: update_screen_def set_origin_def set_cursor_def crtc_def outb_def same_screens_def Let_def)

lemma foldl_next_NR: "NR_CONSOLES (foldl (next_console memory) s xs) = NR_CONSOLES s"
  by (induction xs arbitrary: s) (simp_all add: next_console_def gotoxy_def upd_vc_def Let_def)

lemma detect_cases:
  assumes "detect b s = (desc, s2)"
  shows "unat (video_mem_term s2 - video_mem_base s2) = adapter_memory b"
    "unat (video_mem_base s2) \<le> 0xB8000" "vc_cons s2 = vc_cons s" "video_num_columns s2 = video_num_columns s"
    "video_num_lines s2 = video_num_lines s" "video_size_row s2 = video_size_row s"
  using assms by (auto simp: detect_def adapter_memory_def Let_def split: if_splits)

lemma con_init_windows:
  assumes "boot_ok b" and "vc_npar (vc_cons s 0) < 16" and "s' = con_init b s"
  shows "1 \<le> unat (NR_CONSOLES s')" "unat (NR_CONSOLES s') \<le> 8"
    "\<exists>memory. \<forall>n<unat (NR_CONSOLES s'). windows_from memory s' n \<and> layout_ok memory (unat (NR_CONSOLES s')) s'"
proof -
  define s1 where "s1 = upd_vc 0 (\<lambda>v. v\<lparr>vc_video_erase_char := 0x0720\<rparr>)
     (s\<lparr>video_num_columns := ORIG_VIDEO_COLS b, video_size_row := ORIG_VIDEO_COLS b * 2, video_num_lines := ORIG_VIDEO_LINES b,
        blankcount := blankinterval s\<rparr>)"
  obtain desc s2 where d: "detect b s1 = (desc, s2)" by fastforce
  note dc = detect_cases[OF d]
  define total where "total = video_mem_term s2 - video_mem_base s2"
  define nr where "nr = count_consoles total s2"
  define memory where "memory = total div nr"
  define s3 where "s3 = s2\<lparr>NR_CONSOLES := nr, vram := show_type desc (video_mem_base s2 + video_size_row s2 - 8) (vram s2)\<rparr>"
  define s4 where "s4 = gotoxy 0 (ucast (ORIG_X b)) (ucast (ORIG_Y b)) (first_console memory s3)"
  have ci: "s' = update_screen (foldl (next_console memory) s4 [1..<unat nr])"
    unfolding assms(3) con_init_def Let_def s1_def[symmetric] d prod.case
    unfolding total_def[symmetric] nr_def[symmetric] memory_def[symmetric] s3_def[symmetric] s4_def[symmetric] ..
  have g: "video_num_columns s3 = ORIG_VIDEO_COLS b" "video_num_lines s3 = ORIG_VIDEO_LINES b" "video_size_row s3 = ORIG_VIDEO_COLS b * 2"
    "vc_cons s3 = vc_cons s1" "unat (video_mem_base s3) \<le> 0xB8000"
    using dc by (simp_all add: s3_def s1_def)
  have bo: "8 \<le> ORIG_VIDEO_COLS b" "0 < ORIG_VIDEO_LINES b" "unat (ORIG_VIDEO_LINES b) * (2 * unat (ORIG_VIDEO_COLS b)) \<le> adapter_memory b"
    "ucast (ORIG_X b) \<le> ORIG_VIDEO_COLS b" "ucast (ORIG_Y b) < ORIG_VIDEO_LINES b" using assms(1) by (simp_all add: boot_ok_def)
  have am: "adapter_memory b \<le> 0x8000" by (simp add: adapter_memory_def)
  have pos: "1 \<le> unat (ORIG_VIDEO_LINES b)" "8 \<le> unat (ORIG_VIDEO_COLS b)"
    using bo(1,2) by (simp_all add: word_less_nat_alt word_le_nat_alt Suc_le_eq)
  have "1 * (2 * unat (ORIG_VIDEO_COLS b)) \<le> 0x8000" using mult_le_mono1[OF pos(1), of "2 * unat (ORIG_VIDEO_COLS b)"] bo(3) am by linarith
  then have row: "unat (ORIG_VIDEO_COLS b * 2) = 2 * unat (ORIG_VIDEO_COLS b)"
    using unat_of_nat_small[of "2 * unat (ORIG_VIDEO_COLS b)"] by (simp add: mult.commute)
  have scr: "unat (video_num_lines s2 * video_size_row s2) = unat (ORIG_VIDEO_LINES b) * (2 * unat (ORIG_VIDEO_COLS b))"
  proof -
    have "video_num_lines s2 * video_size_row s2 = of_nat (unat (ORIG_VIDEO_LINES b) * (2 * unat (ORIG_VIDEO_COLS b)))"
      using dc by (simp add: s1_def algebra_simps)
    moreover have "unat (ORIG_VIDEO_LINES b) * (2 * unat (ORIG_VIDEO_COLS b)) < 2 ^ 32"
      by (rule le_less_trans[OF order_trans[OF bo(3) am]]) simp
    ultimately show ?thesis using unat_of_nat_small by metis
  qed
  have tot: "unat total \<le> 0x8000" "adapter_memory b \<le> unat total" using dc(1) am unfolding total_def by simp_all
  have sp: "0 < unat (video_num_lines s2 * video_size_row s2)" unfolding scr using pos by simp
  have sl: "unat (video_num_lines s2 * video_size_row s2) \<le> unat total" unfolding scr using bo(3) tot by linarith
  note cb = count_consoles_bounds[OF sp sl, folded nr_def]
  have mem: "unat memory = unat total div unat nr" by (simp add: memory_def unat_div)
  have fits: "unat (ORIG_VIDEO_LINES b) * (2 * unat (ORIG_VIDEO_COLS b)) \<le> unat memory"
  proof -
    have "unat nr * unat (video_num_lines s2 * video_size_row s2) \<le> unat total"
      using cb(3) sp by (simp add: less_eq_div_iff_mult_less_eq)
    then show ?thesis unfolding mem scr using cb(1) by (simp add: less_eq_div_iff_mult_less_eq mult.commute)
  qed
  have "unat nr * unat memory \<le> 0x8000" unfolding mem using tot(1) times_div_less_eq_dividend[of "unat nr" "unat total"] by linarith
  then have lay: "layout_ok memory (unat nr) s3" unfolding layout_ok_def g row using bo(1,2) fits g(5) by simp
  define s30 where "s30 = first_console memory s3"
  have nl: "\<not> (ucast (ORIG_X b) > video_num_columns s30 \<or> ucast (ORIG_Y b) \<ge> video_num_lines s30)"
    using bo(4,5) g by (simp add: s30_def first_console_def not_less not_le)
  have geo: "video_num_columns s4 = video_num_columns s3" "video_num_lines s4 = video_num_lines s3" "video_size_row s4 = video_size_row s3"
    "video_mem_base s4 = video_mem_base s3"
    by (simp_all add: s4_def gotoxy_def first_console_def)
  have lay4: "layout_ok memory (unat nr) s4" using lay by (simp add: layout_ok_def geo)
  define v where "v = (vc_cons s3 0)\<lparr>vc_top := 0, vc_bottom := video_num_lines s3, vc_attr := 7, vc_def_attr := 7, vc_state := ESnormal,
     vc_restate := ESnormal, vc_checkin := 0, vc_ques := False, vc_iscolor := False, vc_translate := NORM_TRANS, vc_bold_attr := 0xFFFFFFFF\<rparr>"
  let ?w = "v\<lparr>vc_origin := video_mem_base s3, vc_video_mem_start := video_mem_base s3,
      vc_scr_end := video_mem_base s3 + video_num_lines s3 * video_size_row s3,
      vc_video_mem_end := video_mem_base s3 + of_nat (Suc 0) * memory, vc_x := ucast (ORIG_X b), vc_y := ucast (ORIG_Y b),
      vc_pos := video_mem_base s3 + ucast (ORIG_Y b) * video_size_row s3 + push_bit 1 (ucast (ORIG_X b))\<rparr>"
  have c4: "vc_cons s4 0 = ?w"
    using nl unfolding s4_def s30_def by (intro vc.equality) (simp_all add: gotoxy_def first_console_def v_def)
  have v: "vc_npar v < 16" "96 \<le> length (vc_translate v)" "vc_top v = 0" "vc_bottom v = video_num_lines s3"
    using assms(2) by (simp_all add: v_def g(4) s1_def length_trans)
  have v0: "vc_ok (video_num_columns s3) (video_num_lines s3) (video_size_row s3) ?w"
    by (rule fresh_window[OF lay _ v, of 0]) (use cb(1) bo(4,5) g in auto)
  have w0: "windows_from memory s4 0" using v0 by (simp add: windows_from_def window_ok_def geo c4)
  have "unat nr - 1 < unat nr" using cb(1) by simp
  from next_consoles_ok[OF lay4 w0 _ _ this]
  have f: "let s' = foldl (next_console memory) s4 [1..<unat nr]
    in layout_ok memory (unat nr) s' \<and> (\<forall>n\<le>unat nr - 1. windows_from memory s' n)"
    using cb(1) by (simp add: Let_def c4 geo v)
  let ?s5 = "foldl (next_console memory) s4 [1..<unat nr]"
  note us = update_screen_same[of ?s5]
  have n5: "NR_CONSOLES s' = nr" unfolding ci us(3) foldl_next_NR by (simp add: s4_def gotoxy_def first_console_def upd_vc_def s3_def)
  have "windows_from memory s' n \<and> layout_ok memory (unat nr) s'" if "n < unat nr" for n
  proof -
    have "windows_from memory ?s5 n" "layout_ok memory (unat nr) ?s5" using f that by (simp_all add: Let_def)
    then show ?thesis using us(1,2) unfolding ci windows_from_def window_ok_def layout_ok_def same_screens_def by simp
  qed
  then show "\<exists>memory. \<forall>n<unat (NR_CONSOLES s'). windows_from memory s' n \<and> layout_ok memory (unat (NR_CONSOLES s')) s'"
    unfolding n5 by blast
  show "1 \<le> unat (NR_CONSOLES s')" "unat (NR_CONSOLES s') \<le> 8" unfolding n5 using cb by simp_all
qed

text \<open>The windows lie side by side.\<close>

lemma windows_disjoint:
  assumes "layout_ok memory k s" and "windows_from memory s n" and "windows_from memory s m" and "n < k" and "m < k" and "n \<noteq> m"
  shows "window s n \<inter> window s m = {}"
proof -
  have "window s n \<inter> window s m = {}" if "n < m" "m < k" "n < k" "windows_from memory s n" "windows_from memory s m" for n m
  proof -
    note wn = window_bounds[OF assms(1) that(3)] and wm = window_bounds[OF assms(1) that(2)]
    have "Suc n * unat memory \<le> m * unat memory" using that(1) by (intro mult_le_mono1) simp
    then have "vc_video_mem_end (vc_cons s n) \<le> vc_video_mem_start (vc_cons s m)"
      using that(4,5) wn(2) wm(1) by (simp add: windows_from_def word_le_nat_alt del: of_nat_Suc)
    then show ?thesis by (auto simp: window_def)
  qed
  then show ?thesis using assms by (metis Int_commute linorder_neqE_nat)
qed

end
