(* ===== verification/Screen.thy ===== *)
theory Screen
  imports ConsoleOk
begin

text \<open>
  What is seen on a console: the screen as a grid of cells, and scrolling, which the driver does by moving the
  origin, by copying the window back to the start of its memory, or by copying a region, as one and the
  same operation on the grid.
\<close>

section \<open>Block moves, exactly\<close>

lemma rd16_wr16 [simp]: "rd16 p (wr16 p v m) = v"
proof -
  have "p \<noteq> p + 1" using off_ne[of 0 p p] by (metis add.right_neutral add_left_cancel zero_neq_one)
  then have "wr16 p v m p = ucast v" "wr16 p v m (p + 1) = ucast (drop_bit 8 v)" by (simp_all add: wr16_def)
  then show ?thesis unfolding rd16_def by (simp only:) (rule bit_eqI, auto simp: bit_simps)
qed

definition half :: "nat \<Rightarrow> u16 \<Rightarrow> u8" where
  "half j v = (if even j then ucast v else ucast (drop_bit 8 v))"

lemma wr16_half: "j < 2 \<Longrightarrow> wr16 d v m (d + of_nat j) = half j v"
  by (auto simp: wr16_def half_def less_2_cases_iff)

lemma unat_diff_back: "unat (j :: u32) \<le> unat k \<Longrightarrow> j \<noteq> k \<Longrightarrow> unat (d + j - (d + k)) = 2 ^ 32 - (unat k - unat j)"
proof -
  assume a: "unat j \<le> unat k" "j \<noteq> k"
  then have "unat j < unat k" by (simp add: word_unat_eq_iff order_less_le)
  moreover have "d + j - (d + k) = j - k" by simp
  ultimately show ?thesis using unat_sub_if'[of j k] by (simp add: word_le_nat_alt)
qed

lemma stosw_at: "j < 2 * n \<Longrightarrow> 2 * n \<le> 2 ^ 32 \<Longrightarrow> stosw n v d m (d + of_nat j) = half j v"
proof (induction n arbitrary: d m j)
  case (Suc n)
  show ?case
  proof (cases "j < 2")
    case True
    have "unat (of_nat j :: u32) = j" "unat (2 :: u32) = 2" using True by (simp_all add: unat_of_nat)
    then have "unat (d + of_nat j - (d + 2)) = 2 ^ 32 - (2 - j)"
      using unat_diff_back[of "of_nat j" 2 d] True by (auto simp: word_unat_eq_iff)
    then have "stosw n v (d + 2) (wr16 d v m) (d + of_nat j) = wr16 d v m (d + of_nat j)"
      using Suc.prems True by (intro stosw_outside) simp
    then show ?thesis using wr16_half[OF True] by simp
  next
    case False
    then have e: "d + of_nat j = (d + 2) + of_nat (j - 2)" by (simp add: of_nat_diff)
    have "stosw n v (d + 2) (wr16 d v m) ((d + 2) + of_nat (j - 2)) = half (j - 2) v"
      using Suc.prems False by (intro Suc.IH) simp_all
    moreover have "half (j - 2) v = half j v" using False by (simp add: half_def)
    ultimately show ?thesis unfolding e by simp
  qed
qed simp

lemma copy32_at: "j < 4 \<Longrightarrow> copy32 d s m (d + of_nat j) = m (s + of_nat j)"
proof -
  assume "j < 4"
  then have "j \<in> {0, 1, 2, 3}" by auto
  then show ?thesis by (auto simp: copy32_def)
qed

lemma movsl_at:
  "j < 4 * n \<Longrightarrow> unat (s - d) + 4 * n \<le> 2 ^ 32 \<Longrightarrow> movsl n d s m (d + of_nat j) = m (s + of_nat j)"
proof (induction n arbitrary: d s m j)
  case (Suc n)
  show ?case
  proof (cases "j < 4")
    case True
    have "unat (of_nat j :: u32) = j" "unat (4 :: u32) = 4" using True by (simp_all add: unat_of_nat)
    then have "unat (d + of_nat j - (d + 4)) = 2 ^ 32 - (4 - j)"
      using unat_diff_back[of "of_nat j" 4 d] True by (auto simp: word_unat_eq_iff)
    then have "movsl n (d + 4) (s + 4) (copy32 d s m) (d + of_nat j) = copy32 d s m (d + of_nat j)"
      using Suc.prems True by (intro movsl_outside) simp
    then show ?thesis using copy32_at[OF True] by simp
  next
    case False
    then have e: "d + of_nat j = (d + 4) + of_nat (j - 4)" "s + of_nat j = (s + 4) + of_nat (j - 4)" by (simp_all add: of_nat_diff)
    have sd: "s + 4 - (d + 4) = s - d" by simp
    have "movsl n (d + 4) (s + 4) (copy32 d s m) ((d + 4) + of_nat (j - 4)) = copy32 d s m ((s + 4) + of_nat (j - 4))"
      using Suc.prems False by (intro Suc.IH) (simp_all add: sd)
    moreover have "copy32 d s m (s + of_nat j) = m (s + of_nat j)"
    proof (rule copy32_outside)
      have x: "s + of_nat j - d = (s - d) + of_nat j" by simp
      have "unat (of_nat j :: u32) = j" using Suc.prems by (intro unat_of_nat_small) simp
      then have "unat (s + of_nat j - d) = unat (s - d) + j"
        unfolding x using Suc.prems by (subst unat_add_lem[THEN iffD1]) simp_all
      then show "4 \<le> unat (s + of_nat j - d)" using False by simp
    qed
    ultimately show ?thesis unfolding e by simp
  qed
qed simp

lemma stosw_down_at: "j < 2 * n \<Longrightarrow> 2 * n \<le> 2 ^ 32 \<Longrightarrow> stosw_down n v (l + 2 * of_nat n - 2) m (l + of_nat j) = half j v"
proof (induction n arbitrary: m)
  case (Suc n)
  let ?d = "l + 2 * of_nat n :: u32"
  have e: "l + 2 * of_nat (Suc n) - 2 = ?d" by simp
  show ?case
  proof (cases "j < 2 * n")
    case True
    then show ?thesis using Suc.IH[of "wr16 ?d v m"] Suc.prems by (simp add: e)
  next
    case False
    then obtain i where j: "j = 2 * n + i" "i < 2" using Suc.prems(1) le_Suc_ex[of "2 * n" j] by auto
    have "unat (of_nat j :: u32) = j" using Suc.prems by (intro unat_of_nat_small) simp
    then have "stosw_down n v (l + 2 * of_nat n - 2) (wr16 ?d v m) (l + of_nat j) = wr16 ?d v m (l + of_nat j)"
      using False by (intro stosw_down_outside) simp
    also have "\<dots> = wr16 ?d v m (?d + of_nat i)" by (simp add: j add.assoc)
    also have "\<dots> = half j v" unfolding wr16_half[OF j(2)] by (simp add: half_def j)
    finally show ?thesis by (simp add: e)
  qed
qed simp

lemma movsl_down_at:
  "j < 4 * n \<Longrightarrow> unat (l - s) + 4 * n \<le> 2 ^ 32 \<Longrightarrow> movsl_down n (l + 4 * of_nat n - 4) (s + 4 * of_nat n - 4) m (l + of_nat j) = m (s + of_nat j)"
proof (induction n arbitrary: m)
  case (Suc n)
  let ?d = "l + 4 * of_nat n :: u32" and ?s = "s + 4 * of_nat n :: u32"
  have e: "l + 4 * of_nat (Suc n) - 4 = ?d" "s + 4 * of_nat (Suc n) - 4 = ?s" by simp_all
  have uj: "unat (of_nat j :: u32) = j" using Suc.prems by (intro unat_of_nat_small) simp
  show ?case
  proof (cases "j < 4 * n")
    case True
    have "movsl_down n (l + 4 * of_nat n - 4) (s + 4 * of_nat n - 4) (copy32 ?d ?s m) (l + of_nat j) = copy32 ?d ?s m (s + of_nat j)"
      using Suc.prems True by (intro Suc.IH) simp_all
    also have "\<dots> = m (s + of_nat j)"
    proof (rule copy32_outside)
      let ?k = "unat (l - s) + 4 * n"
      have uk: "unat (of_nat ?k :: u32) = ?k" using Suc.prems by (intro unat_of_nat_small) simp
      have "?d = s + of_nat ?k" by simp
      then have "unat (s + of_nat j - ?d) = 2 ^ 32 - (?k - j)"
        using unat_diff_back[of "of_nat j" "of_nat ?k" s] True uj uk by (auto simp: word_unat_eq_iff)
      then show "4 \<le> unat (s + of_nat j - ?d)" using Suc.prems True by simp
    qed
    finally show ?thesis by (simp add: e)
  next
    case False
    then obtain i where j: "j = 4 * n + i" "i < 4" using Suc.prems(1) le_Suc_ex[of "4 * n" j] by auto
    have "movsl_down n (l + 4 * of_nat n - 4) (s + 4 * of_nat n - 4) (copy32 ?d ?s m) (l + of_nat j) = copy32 ?d ?s m (l + of_nat j)"
      using False uj by (intro movsl_down_outside) simp
    also have "\<dots> = copy32 ?d ?s m (?d + of_nat i)" by (simp add: j add.assoc)
    also have "\<dots> = m (s + of_nat j)" unfolding copy32_at[OF j(2)] by (simp add: j add.assoc)
    finally show ?thesis by (simp add: e)
  qed
qed simp

lemma roll_up_at:
  assumes "unat (s - d) + 4 * unat longs \<le> 2 ^ 32" and "4 * unat longs + 2 * unat cols \<le> 2 ^ 32"
  shows "j < 4 * unat longs \<Longrightarrow> roll_up longs cols v d s m (d + of_nat j) = m (s + of_nat j)"
    and "i < 2 * unat cols \<Longrightarrow> roll_up longs cols v d s m (d + of_nat (4 * unat longs + i)) = half i v"
proof -
  assume j: "j < 4 * unat longs"
  have uj: "unat (of_nat j :: u32) = j" using j assms by (intro unat_of_nat_small) simp
  have "stosw (unat cols) v (d + 4 * longs) (movsl (unat longs) d s m) (d + of_nat j) = movsl (unat longs) d s m (d + of_nat j)"
  proof (cases "unat cols = 0")
    case False
    have ul: "unat (4 * longs) = 4 * unat longs"
      using unat_of_nat_small[of "4 * unat longs"] assms(2) False by simp
    have "unat (d + of_nat j - (d + 4 * longs)) = 2 ^ 32 - (4 * unat longs - j)"
      using unat_diff_back[of "of_nat j" "4 * longs" d] j uj ul by (auto simp: word_unat_eq_iff)
    then show ?thesis using assms(2) j by (intro stosw_outside) simp
  qed simp
  then show "roll_up longs cols v d s m (d + of_nat j) = m (s + of_nat j)" using movsl_at[OF j assms(1)] by (simp add: roll_up_def)
next
  assume i: "i < 2 * unat cols"
  have e: "d + of_nat (4 * unat longs + i) = (d + 4 * longs) + of_nat i" by simp
  show "roll_up longs cols v d s m (d + of_nat (4 * unat longs + i)) = half i v"
    unfolding e roll_up_def using i assms(2) by (intro stosw_at) simp_all
qed

lemma roll_down_at:
  assumes "unat (l + 2 * cols - s) + 4 * unat longs \<le> 2 ^ 32" and "4 * unat longs + 2 * unat cols \<le> 2 ^ 32"
  shows "i < 2 * unat cols \<Longrightarrow> roll_down longs cols v (l + 2 * cols + 4 * longs - 4) (s + 4 * longs - 4) m (l + of_nat i) = half i v"
    and "j < 4 * unat longs \<Longrightarrow>
      roll_down longs cols v (l + 2 * cols + 4 * longs - 4) (s + 4 * longs - 4) m (l + of_nat (2 * unat cols + j)) = m (s + of_nat j)"
proof -
  have d: "roll_down longs cols v (l + 2 * cols + 4 * longs - 4) (s + 4 * longs - 4) m =
     stosw_down (unat cols) v (l + 2 * of_nat (unat cols) - 2)
       (movsl_down (unat longs) ((l + 2 * cols) + 4 * of_nat (unat longs) - 4) (s + 4 * of_nat (unat longs) - 4) m)"
    by (simp add: roll_down_def algebra_simps)
  show "roll_down longs cols v (l + 2 * cols + 4 * longs - 4) (s + 4 * longs - 4) m (l + of_nat i) = half i v" if "i < 2 * unat cols"
    unfolding d using that assms(2) by (intro stosw_down_at) simp_all
  assume j: "j < 4 * unat longs"
  have "unat (of_nat (2 * unat cols + j) :: u32) = 2 * unat cols + j" using j assms(2) by (intro unat_of_nat_small) simp
  then have "stosw_down (unat cols) v (l + 2 * of_nat (unat cols) - 2) m' (l + of_nat (2 * unat cols + j)) = m' (l + of_nat (2 * unat cols + j))" for m'
    by (intro stosw_down_outside) simp
  moreover have "l + of_nat (2 * unat cols + j) = (l + 2 * cols) + of_nat j" by simp
  ultimately show "roll_down longs cols v (l + 2 * cols + 4 * longs - 4) (s + 4 * longs - 4) m (l + of_nat (2 * unat cols + j)) = m (s + of_nat j)"
    unfolding d using movsl_down_at[OF j assms(1)] by (simp add: add.assoc)
qed


section \<open>The grid\<close>

definition cell :: "con_state \<Rightarrow> nat \<Rightarrow> nat \<Rightarrow> nat \<Rightarrow> u16" where
  "cell s n y x = rd16 (vc_origin (vc_cons s n) + of_nat (y * unat (video_size_row s) + 2 * x)) (vram s)"

text \<open>Lines \<open>t\<close> to \<open>b\<close> move up by one and \<open>e\<close> fills the last; the same downwards.\<close>

definition rolled_up :: "nat \<Rightarrow> nat \<Rightarrow> u16 \<Rightarrow> (nat \<Rightarrow> nat \<Rightarrow> u16) \<Rightarrow> nat \<Rightarrow> nat \<Rightarrow> u16" where
  "rolled_up t b e g y x = (if t \<le> y \<and> Suc y < b then g (Suc y) x else if Suc y = b then e else g y x)"

definition rolled_down :: "nat \<Rightarrow> nat \<Rightarrow> u16 \<Rightarrow> (nat \<Rightarrow> nat \<Rightarrow> u16) \<Rightarrow> nat \<Rightarrow> nat \<Rightarrow> u16" where
  "rolled_down t b e g y x = (if t < y \<and> y < b then g (y - 1) x else if y = t then e else g y x)"

definition same_grid :: "con_state \<Rightarrow> nat \<Rightarrow> (nat \<Rightarrow> nat \<Rightarrow> u16) \<Rightarrow> (nat \<Rightarrow> nat \<Rightarrow> u16) \<Rightarrow> bool" where
  "same_grid s n g h \<longleftrightarrow> (\<forall>y<unat (video_num_lines s). \<forall>x<unat (video_num_columns s). g y x = h y x)"

lemma rd16_cong: "m p = m' q \<Longrightarrow> m (p + 1) = m' (q + 1) \<Longrightarrow> rd16 p m = rd16 q m'"
  by (simp add: rd16_def)

lemma rd16_halves: "even i \<Longrightarrow> m p = half i v \<Longrightarrow> m (p + 1) = half (Suc i) v \<Longrightarrow> rd16 p m = v"
  using rd16_wr16[of 0 v m] by (simp add: rd16_def half_def wr16_def)

text \<open>Reading two bytes at an offset.\<close>

lemma rd16_moved:
  assumes "\<And>j. j < len \<Longrightarrow> m' (d + of_nat j) = m (s + of_nat j)" and "Suc k < len"
  shows "rd16 (d + of_nat k) m' = rd16 (s + of_nat k) m"
  using assms(1)[of k] assms(1)[of "Suc k"] assms(2) by (intro rd16_cong) (simp_all add: algebra_simps)

lemma rd16_filled:
  assumes "\<And>i. i < len \<Longrightarrow> m' (d + of_nat (k + i)) = half i v" and "Suc i < len" and "even i"
  shows "rd16 (d + of_nat (k + i)) m' = v"
  using assms(1)[of i] assms(1)[of "Suc i"] assms(2,3) by (intro rd16_halves[of i]) (simp_all add: algebra_simps)

lemma rd16_kept:
  assumes "\<And>a. len \<le> unat (a - d) \<Longrightarrow> m' a = m a" and "len \<le> unat (p - d)" and "len \<le> unat (p + 1 - d)"
  shows "rd16 p m' = rd16 p m"
  using assms by (intro rd16_cong) simp_all

text \<open>Offsets from the origin, apart from a block.\<close>

lemma apart_offset:
  assumes "a + len \<le> N" and "k < N" and "k < a \<or> a + len \<le> k" and "N < 2 ^ 32"
  shows "len \<le> unat ((o' + of_nat k) - (o' + of_nat a) :: u32)"
proof -
  have u: "unat (of_nat k :: u32) = k" "unat (of_nat a :: u32) = a" using assms by (auto intro: unat_of_nat_small)
  show ?thesis
  proof (cases "k < a")
    case True
    then show ?thesis using unat_diff_back[of "of_nat k" "of_nat a" o'] u assms by (auto simp: word_unat_eq_iff)
  next
    case False
    have "o' + of_nat k - (o' + of_nat a) = (of_nat k - of_nat a :: u32)" by simp
    then show ?thesis using unat_sub_small[of "of_nat a" "of_nat k"] False assms u by simp
  qed
qed

lemma rd16_other:
  assumes "\<And>b. len \<le> unat (b - (o' + of_nat a)) \<Longrightarrow> m' b = m b" and "a + len \<le> N" and "Suc k < N" and "Suc k < a \<or> a + len \<le> k" and "N < 2 ^ 32"
  shows "rd16 (o' + of_nat k) m' = rd16 (o' + of_nat k) m"
proof (rule rd16_kept[OF assms(1)])
  show "len \<le> unat (o' + of_nat k - (o' + of_nat a))" by (rule apart_offset[OF assms(2) _ _ assms(5)]) (use assms(3,4) in auto)
  have "len \<le> unat (o' + of_nat (Suc k) - (o' + of_nat a))" by (rule apart_offset[OF assms(2) assms(3) _ assms(5)]) (use assms(4) in auto)
  then show "len \<le> unat (o' + of_nat k + 1 - (o' + of_nat a))" by (simp add: algebra_simps)
qed

lemma cell_offset:
  assumes "window_ok n s" and "y < unat (video_num_lines s)" and "x < unat (video_num_columns s)"
  shows "Suc (y * unat (video_size_row s) + 2 * x) < Suc y * unat (video_size_row s)"
    "Suc (y * unat (video_size_row s) + 2 * x) < screen_bytes s"
proof -
  show a: "Suc (y * unat (video_size_row s) + 2 * x) < Suc y * unat (video_size_row s)"
    using window_okD(1)[OF assms(1)] assms(3) by simp
  have "Suc y * unat (video_size_row s) \<le> screen_bytes s" unfolding screen_bytes_def using assms(2) by (intro mult_le_mono1) simp
  then show "Suc (y * unat (video_size_row s) + 2 * x) < screen_bytes s" using a by linarith
qed

lemma unat_longs_exact:
  assumes "t < b" and "even (unat cols)" and "(unat b - unat t - 1) * unat cols < 2 ^ 32"
  shows "4 * unat (drop_bit 1 ((b - t - 1) * cols :: u32)) = (unat b - unat t - 1) * (2 * unat cols)"
proof -
  have bt: "unat t < unat b" using assms by (simp add: word_less_nat_alt)
  have "unat (b - t) = unat b - unat t" using bt by (intro unat_sub_small) simp
  then have "unat (b - t - 1) = unat b - unat t - 1" using bt unat_sub_small[of 1 "b - t"] by simp
  then have u: "unat ((b - t - 1) * cols) = (unat b - unat t - 1) * unat cols"
    using assms(3) by (simp add: unat_word_ariths)
  obtain h where h: "unat cols = 2 * h" using assms(2) by blast
  show ?thesis unfolding unat_drop_bit_eq u unfolding h by (simp add: drop_bit_eq_div)
qed

lemma longs_less:
  assumes "window_ok n s" and "b \<le> unat (video_num_lines s)"
  shows "(b - t - 1) * unat (video_num_columns s) < 2 ^ 32"
proof -
  have "(b - t - 1) * unat (video_num_columns s) \<le> unat (video_num_lines s) * unat (video_size_row s)"
    using assms(2) window_okD(1)[OF assms(1)] by (intro mult_le_mono) simp_all
  then show ?thesis using screen_bytes_less[OF assms(1)] by (simp add: screen_bytes_def)
qed

lemma scroll_region_grid:
  assumes "window_ok n s" and "even (unat (video_num_columns s))"
  shows "same_grid s n (cell (scroll_region n s) n)
     (rolled_up (unat (vc_top (vc_cons s n))) (unat (vc_bottom (vc_cons s n))) (vc_video_erase_char (vc_cons s n)) (cell s n))"
  unfolding same_grid_def
proof (intro allI impI)
  fix y x assume y: "y < unat (video_num_lines s)" and x: "x < unat (video_num_columns s)"
  let ?v = "vc_cons s n" and ?R = "unat (video_size_row s)" and ?c = "video_num_columns s"
  let ?T = "unat (vc_top ?v)" and ?B = "unat (vc_bottom ?v)"
  define longs where "longs = drop_bit 1 ((vc_bottom ?v - vc_top ?v - 1) * ?c)"
  define m' where "m' = roll_up longs ?c (vc_video_erase_char ?v) (vc_origin ?v + of_nat (?T * ?R)) (vc_origin ?v + of_nat (Suc ?T * ?R)) (vram s)"
  note w = window_okD[OF assms(1)]
  have L: "4 * unat longs = (?B - ?T - 1) * ?R"
    unfolding longs_def using unat_longs_exact[of "vc_top ?v" "vc_bottom ?v" ?c] assms(2) longs_less[OF assms(1) w(9)] w(1,8)
    by (simp add: word_less_nat_alt)
  have C: "2 * unat ?c = ?R" using w(1) by simp
  obtain k where k: "?B = Suc (?T + k)" using less_imp_Suc_add[OF w(8)] by blast
  have L': "4 * unat longs = k * ?R" using L k by simp
  have N: "screen_bytes s < 2 ^ 32" by (rule screen_bytes_less[OF assms(1)])
  have "?B * ?R \<le> screen_bytes s" unfolding screen_bytes_def using w(9) by (rule mult_le_mono1)
  then have fit: "?T * ?R + (4 * unat longs + 2 * unat ?c) \<le> screen_bytes s" unfolding C L' k by (simp add: algebra_simps)
  have sd: "unat (vc_origin ?v + of_nat (Suc ?T * ?R) - (vc_origin ?v + of_nat (?T * ?R))) = ?R"
  proof -
    have "vc_origin ?v + of_nat (Suc ?T * ?R) - (vc_origin ?v + of_nat (?T * ?R)) = video_size_row s" by (simp add: algebra_simps)
    then show ?thesis by simp
  qed
  have ra: "unat (vc_origin ?v + of_nat (Suc ?T * ?R) - (vc_origin ?v + of_nat (?T * ?R))) + 4 * unat longs \<le> 2 ^ 32"
    "4 * unat longs + 2 * unat ?c \<le> 2 ^ 32"
    unfolding sd using fit N C by simp_all
  note at = roll_up_at[OF ra, of _ "vc_video_erase_char ?v" "vram s", folded m'_def]
  have out: "m' a = vram s a" if "4 * unat longs + 2 * unat ?c \<le> unat (a - (vc_origin ?v + of_nat (?T * ?R)))" for a
    unfolding m'_def using that by (rule roll_up_outside)
  have e: "vram (scroll_region n s) = m'" "vc_cons (scroll_region n s) = vc_cons s" "video_size_row (scroll_region n s) = video_size_row s"
    by (simp_all add: scroll_region_def Let_def m'_def longs_def algebra_simps)
  have c: "cell (scroll_region n s) n y x = rd16 (vc_origin ?v + of_nat (y * ?R + 2 * x)) m'" by (simp add: cell_def e)
  have x2: "Suc (2 * x) < ?R" using x C by simp
  consider (moved) j where "y = ?T + j" "j < k" | (last) "y = ?T + k" | (other) "y < ?T \<or> ?B \<le> y"
    unfolding k using le_Suc_ex[of ?T y] by (metis add_less_cancel_left leI le_less_Suc_eq less_SucE)
  then show "cell (scroll_region n s) n y x = rolled_up ?T ?B (vc_video_erase_char ?v) (cell s n) y x"
  proof cases
    case moved
    have "Suc j * ?R \<le> k * ?R" using moved(2) by (intro mult_le_mono1) simp
    then have lt: "Suc (j * ?R + 2 * x) < 4 * unat longs" unfolding L' using x2 by simp
    have "rd16 ((vc_origin ?v + of_nat (?T * ?R)) + of_nat (j * ?R + 2 * x)) m' =
        rd16 ((vc_origin ?v + of_nat (Suc ?T * ?R)) + of_nat (j * ?R + 2 * x)) (vram s)"
      using at(1) lt by (rule rd16_moved)
    then show ?thesis unfolding c using moved by (simp add: rolled_up_def cell_def k algebra_simps)
  next
    case last
    have "rd16 ((vc_origin ?v + of_nat (?T * ?R)) + of_nat (4 * unat longs + 2 * x)) m' = vc_video_erase_char ?v"
      using at(2) by (rule rd16_filled) (use x2 C in simp_all)
    moreover have "vc_origin ?v + of_nat (y * ?R + 2 * x) = (vc_origin ?v + of_nat (?T * ?R)) + of_nat (4 * unat longs + 2 * x)"
      unfolding L' last by (simp add: algebra_simps)
    ultimately have "cell (scroll_region n s) n y x = vc_video_erase_char ?v" unfolding c by (simp only:)
    then show ?thesis using last by (simp add: rolled_up_def k)
  next
    case other
    have "Suc (y * ?R + 2 * x) < ?T * ?R \<or> ?T * ?R + (4 * unat longs + 2 * unat ?c) \<le> y * ?R + 2 * x"
    proof (cases "y < ?T")
      case True
      then have "Suc y * ?R \<le> ?T * ?R" by (intro mult_le_mono1) simp
      then show ?thesis using cell_offset(1)[OF assms(1) y x] by linarith
    next
      case False
      then have "?B * ?R \<le> y * ?R" using other by (intro mult_le_mono1) simp
      then show ?thesis unfolding L' C k by (simp add: algebra_simps)
    qed
    from rd16_other[OF out fit cell_offset(2)[OF assms(1) y x] this N]
    have "cell (scroll_region n s) n y x = cell s n y x" unfolding c by (simp add: cell_def)
    then show ?thesis using other by (auto simp: rolled_up_def k)
  qed
qed


lemma set_origin_screen [simp]: "vc_cons (set_origin n s) = vc_cons s" "vram (set_origin n s) = vram s"
  "video_size_row (set_origin n s) = video_size_row s"
  by (simp_all add: set_origin_def crtc_def outb_def)

text \<open>The whole screen: the window moves down by a line, or starts again at the beginning of its memory.\<close>

lemma scroll_window_grid:
  assumes "window_ok n s" and "even (unat (video_num_columns s))"
  shows "same_grid s n (cell (scroll_window n s) n)
     (rolled_up 0 (unat (video_num_lines s)) (vc_video_erase_char (vc_cons s n)) (cell s n))"
  unfolding same_grid_def
proof (intro allI impI)
  fix y x assume y: "y < unat (video_num_lines s)" and x: "x < unat (video_num_columns s)"
  let ?v = "vc_cons s n" and ?R = "unat (video_size_row s)" and ?c = "video_num_columns s" and ?L = "unat (video_num_lines s)"
  let ?e = "vc_video_erase_char ?v" and ?ms = "vc_video_mem_start ?v" and ?o = "vc_origin ?v"
  note w = window_okD[OF assms(1)]
  have C: "2 * unat ?c = ?R" using w(1) by simp
  have x2: "Suc (2 * x) < ?R" using x C by simp
  obtain k where k: "?L = Suc k" using y by (cases ?L) auto
  have N: "screen_bytes s < 2 ^ 32" by (rule screen_bytes_less[OF assms(1)])
  have sb: "screen_bytes s = k * ?R + ?R" by (simp add: screen_bytes_def k)
  have ins: "off ?v ?o + screen_bytes s \<le> span ?v" using w(3) by (simp add: screen_bytes_def)
  have up: "Suc (y * ?R + 2 * x) < k * ?R" if "y < k"
  proof -
    have "Suc y * ?R \<le> k * ?R" using that by (intro mult_le_mono1) simp
    then show ?thesis using cell_offset(1)[OF assms(1) y x] by linarith
  qed
  show "cell (scroll_window n s) n y x = rolled_up 0 ?L ?e (cell s n) y x"
  proof (cases "vc_scr_end ?v + video_size_row s > vc_video_mem_end ?v")
    case True
    define longs where "longs = drop_bit 1 ((video_num_lines s - 1) * ?c)"
    define m' where "m' = roll_up longs ?c ?e ?ms (?o + video_size_row s) (vram s)"
    have l0: "(0 :: u32) < video_num_lines s" using y by (simp add: word_less_nat_alt)
    have L: "4 * unat longs = k * ?R"
      unfolding longs_def using unat_longs_exact[OF l0 assms(2)] longs_less[OF assms(1) order.refl, of 0] C by (simp add: k)
    have o: "unat (?o + video_size_row s - ?ms) = off ?v ?o + ?R"
      using off_add[of ?v ?o ?R] ins sb N span_less[of ?v] by (simp add: off_def)
    have ra: "unat (?o + video_size_row s - ?ms) + 4 * unat longs \<le> 2 ^ 32" "4 * unat longs + 2 * unat ?c \<le> 2 ^ 32"
      unfolding o L C using ins sb span_less[of ?v] N by simp_all
    note at = roll_up_at[OF ra, of _ ?e "vram s", folded m'_def]
    have c: "cell (scroll_window n s) n y x = rd16 (?ms + of_nat (y * ?R + 2 * x)) m'"
      using True by (simp add: cell_def scroll_window_def Let_def m'_def longs_def)
    show ?thesis
    proof (cases "y < k")
      case True
      have "rd16 (?ms + of_nat (y * ?R + 2 * x)) m' = rd16 ((?o + video_size_row s) + of_nat (y * ?R + 2 * x)) (vram s)"
        using at(1) up[OF True, folded L] by (rule rd16_moved)
      then show ?thesis unfolding c using True by (simp add: rolled_up_def cell_def k algebra_simps)
    next
      case False
      then have yk: "y = k" using y k by simp
      have "rd16 (?ms + of_nat (4 * unat longs + 2 * x)) m' = ?e" using at(2) by (rule rd16_filled) (use x2 C in simp_all)
      then have "cell (scroll_window n s) n y x = ?e" unfolding c unfolding yk L .
      then show ?thesis by (simp add: rolled_up_def k yk)
    qed
  next
    case False
    define m' where "m' = stosw (unat ?c) ?e (vc_scr_end ?v) (vram s)"
    have c: "cell (scroll_window n s) n y x = rd16 (?o + video_size_row s + of_nat (y * ?R + 2 * x)) m'"
      using False by (simp add: cell_def scroll_window_def Let_def m'_def)
    have a: "?o + video_size_row s + of_nat (y * ?R + 2 * x) = ?o + of_nat (Suc y * ?R + 2 * x)" by (simp add: algebra_simps)
    have se: "vc_scr_end ?v = ?o + of_nat (screen_bytes s)" by (rule end_screen[OF assms(1)])
    show ?thesis
    proof (cases "y < k")
      case True
      have out: "m' b = vram s b" if "?R \<le> unat (b - (?o + of_nat (screen_bytes s)))" for b
        unfolding m'_def se using that C by (intro stosw_outside) simp
      have me: "vc_video_mem_start ?v \<le> vc_video_mem_end ?v" "unat (vc_video_mem_end ?v) + ?R < 2 ^ 32"
        using assms(1) by (simp_all add: window_ok_def vc_ok_def)
      have se2: "unat ?ms + span ?v = unat (vc_video_mem_end ?v)" using me(1) by (simp add: span_def unat_sub word_le_nat_alt)
      have big: "screen_bytes s + ?R < 2 ^ 32" using ins se2 me(2) by linarith
      have lt: "Suc (Suc y * ?R + 2 * x) < screen_bytes s" using up[OF True] sb by simp
      have "rd16 (?o + of_nat (Suc y * ?R + 2 * x)) m' = rd16 (?o + of_nat (Suc y * ?R + 2 * x)) (vram s)"
        by (rule rd16_other[OF out order.refl _ _ big]) (use lt in simp_all)
      then show ?thesis unfolding c a using True by (simp add: rolled_up_def cell_def k)
    next
      case False
      then have yk: "y = k" using y k by simp
      have st: "m' (?o + of_nat (screen_bytes s + i)) = half i ?e" if "i < ?R" for i
      proof -
        have "?o + of_nat (screen_bytes s + i) = vc_scr_end ?v + of_nat i" by (simp add: se add.assoc)
        then show ?thesis unfolding m'_def using that C sb N by (simp only:) (intro stosw_at, simp_all)
      qed
      have "rd16 (?o + of_nat (screen_bytes s + 2 * x)) m' = ?e" using st by (rule rd16_filled) (use x2 in simp_all)
      then have "cell (scroll_window n s) n y x = ?e" unfolding c a unfolding yk sb by (simp add: add.commute add.left_commute)
      then show ?thesis by (simp add: rolled_up_def k yk)
    qed
  qed
qed

lemma scrup_grid:
  assumes "window_ok n s" and "even (unat (video_num_columns s))"
  shows "same_grid s n (cell (scrup n s) n)
     (rolled_up (unat (vc_top (vc_cons s n))) (unat (vc_bottom (vc_cons s n))) (vc_video_erase_char (vc_cons s n)) (cell s n))"
proof -
  have tb: "\<not> vc_bottom (vc_cons s n) \<le> vc_top (vc_cons s n)" using window_okD(8)[OF assms(1)] by (simp add: word_le_nat_alt)
  show ?thesis using scroll_region_grid[OF assms] scroll_window_grid[OF assms] tb by (auto simp: scrup_def Let_def)
qed

lemma scrdown_grid:
  assumes "window_ok n s" and "even (unat (video_num_columns s))"
  shows "same_grid s n (cell (scrdown n s) n)
     (rolled_down (unat (vc_top (vc_cons s n))) (unat (vc_bottom (vc_cons s n))) (vc_video_erase_char (vc_cons s n)) (cell s n))"
  unfolding same_grid_def
proof (intro allI impI)
  fix y x assume y: "y < unat (video_num_lines s)" and x: "x < unat (video_num_columns s)"
  let ?v = "vc_cons s n" and ?R = "unat (video_size_row s)" and ?c = "video_num_columns s"
  let ?T = "unat (vc_top ?v)" and ?B = "unat (vc_bottom ?v)" and ?o = "vc_origin ?v" and ?e = "vc_video_erase_char ?v"
  define longs where "longs = drop_bit 1 ((vc_bottom ?v - vc_top ?v - 1) * ?c)"
  note w = window_okD[OF assms(1)]
  have tb: "\<not> vc_bottom ?v \<le> vc_top ?v" using w(8) by (simp add: word_le_nat_alt)
  have L: "4 * unat longs = (?B - ?T - 1) * ?R"
    unfolding longs_def using unat_longs_exact[of "vc_top ?v" "vc_bottom ?v" ?c] assms(2) longs_less[OF assms(1) w(9)] w(1,8)
    by (simp add: word_less_nat_alt)
  have C: "2 * unat ?c = ?R" using w(1) by simp
  obtain k where k: "?B = Suc (?T + k)" using less_imp_Suc_add[OF w(8)] by blast
  have L': "4 * unat longs = k * ?R" using L k by simp
  have N: "screen_bytes s < 2 ^ 32" by (rule screen_bytes_less[OF assms(1)])
  have "?B * ?R \<le> screen_bytes s" unfolding screen_bytes_def using w(9) by (rule mult_le_mono1)
  then have fit: "?T * ?R + (4 * unat longs + 2 * unat ?c) \<le> screen_bytes s" unfolding C L' k by (simp add: algebra_simps)
  define l where "l = ?o + of_nat (?T * ?R)"
  have c2: "2 * ?c = video_size_row s" using w(10) by simp
  have ll: "4 * longs = of_nat (k * ?R)" unfolding L'[symmetric] by simp
  have "vc_bottom ?v = of_nat ?B" by simp
  then have bb: "vc_bottom ?v = of_nat (Suc (?T + k))" unfolding k .
  have e1: "?o + video_size_row s * vc_bottom ?v - 4 = l + 2 * ?c + 4 * longs - 4"
    unfolding c2 ll l_def bb by (simp add: algebra_simps)
  have e2: "?o + video_size_row s * (vc_bottom ?v - 1) - 4 = l + 4 * longs - 4"
    unfolding ll l_def bb by (simp add: algebra_simps)
  define m' where "m' = roll_down longs ?c ?e (l + 2 * ?c + 4 * longs - 4) (l + 4 * longs - 4) (vram s)"
  have sd: "unat (l + 2 * ?c - l) = ?R" unfolding c2 by simp
  have ra: "unat (l + 2 * ?c - l) + 4 * unat longs \<le> 2 ^ 32" "4 * unat longs + 2 * unat ?c \<le> 2 ^ 32"
    unfolding sd using fit N C by simp_all
  note at = roll_down_at[OF ra, of _ ?e "vram s", folded m'_def]
  have out: "m' a = vram s a" if "4 * unat longs + 2 * unat ?c \<le> unat (a - (?o + of_nat (?T * ?R)))" for a
    unfolding m'_def using that by (intro roll_down_outside) (simp add: l_def)
  have sc: "scrdown n s = s\<lparr>vram := m'\<rparr>"
    by (simp only: scrdown_def Let_def if_not_P[OF tb] e1 e2 longs_def[symmetric] m'_def)
  have c: "cell (scrdown n s) n y x = rd16 (?o + of_nat (y * ?R + 2 * x)) m'" by (simp add: cell_def sc)
  have x2: "Suc (2 * x) < ?R" using x C by simp
  consider (first) "y = ?T" | (between) "?T < y" "y < ?B" | (other) "y < ?T \<or> ?B \<le> y" by linarith
  then show "cell (scrdown n s) n y x = rolled_down ?T ?B ?e (cell s n) y x"
  proof cases
    case first
    have "rd16 (l + of_nat (0 + 2 * x)) m' = ?e" by (rule rd16_filled[of ?R]) (use at(1) x2 C in simp_all)
    then have "cell (scrdown n s) n y x = ?e" unfolding c unfolding first l_def by (simp add: add.assoc)
    then show ?thesis using first by (simp add: rolled_down_def)
  next
    case between
    obtain j where j: "y = Suc (?T + j)" using less_imp_Suc_add[OF between(1)] by blast
    then have jk: "j < k" using between(2) k by simp
    note moved = j jk
    have "Suc j * ?R \<le> k * ?R" using jk by (intro mult_le_mono1) simp
    then have lt: "Suc (j * ?R + 2 * x) < 4 * unat longs" unfolding L' using x2 by simp
    have mv: "m' ((l + of_nat ?R) + of_nat i) = vram s (l + of_nat i)" if "i < 4 * unat longs" for i
      using at(2)[OF that] unfolding C by (simp add: add.assoc)
    have "rd16 ((l + of_nat ?R) + of_nat (j * ?R + 2 * x)) m' = rd16 (l + of_nat (j * ?R + 2 * x)) (vram s)"
      using mv lt by (rule rd16_moved)
    then show ?thesis unfolding c using moved by (simp add: rolled_down_def cell_def k l_def algebra_simps)
  next
    case other
    have "Suc (y * ?R + 2 * x) < ?T * ?R \<or> ?T * ?R + (4 * unat longs + 2 * unat ?c) \<le> y * ?R + 2 * x"
    proof (cases "y < ?T")
      case True
      then have "Suc y * ?R \<le> ?T * ?R" by (intro mult_le_mono1) simp
      then show ?thesis using cell_offset(1)[OF assms(1) y x] by linarith
    next
      case False
      then have "?B * ?R \<le> y * ?R" using other by (intro mult_le_mono1) simp
      then show ?thesis unfolding L' C k by (simp add: algebra_simps)
    qed
    from rd16_other[OF out fit cell_offset(2)[OF assms(1) y x] this N]
    have "cell (scrdown n s) n y x = cell s n y x" unfolding c by (simp add: cell_def)
    then show ?thesis using other by (auto simp: rolled_down_def k)
  qed
qed


section \<open>Printing\<close>

definition glyph :: "vc \<Rightarrow> u8 \<Rightarrow> u16" where
  "glyph v b = ucast (vc_translate v ! (unat b - 32)) OR push_bit 8 (ucast (vc_attr v))"

definition printable :: "u8 \<Rightarrow> bool" where "printable b \<longleftrightarrow> 32 \<le> b \<and> b < 127"

text \<open>The text \<open>bs\<close> written over row \<open>y\<close> from column \<open>x\<close> on.\<close>

definition with_text :: "nat \<Rightarrow> nat \<Rightarrow> u16 list \<Rightarrow> (nat \<Rightarrow> nat \<Rightarrow> u16) \<Rightarrow> nat \<Rightarrow> nat \<Rightarrow> u16" where
  "with_text y0 x0 cs g y x = (if y = y0 \<and> x0 \<le> x \<and> x < x0 + length cs then cs ! (x - x0) else g y x)"

lemma with_text_Cons: "with_text y0 (Suc x0) cs (with_text y0 x0 [c] g) = with_text y0 x0 (c # cs) g"
  by (auto simp: with_text_def fun_eq_iff nth_Cons' Suc_le_eq)

text \<open>Between two states the grid has changed by \<open>f\<close>, the cursor has advanced by \<open>k\<close>, the rest is as it was.\<close>

definition printed :: "nat \<Rightarrow> u16 list \<Rightarrow> con_state \<Rightarrow> con_state \<Rightarrow> bool" where
  "printed n cs s s' \<longleftrightarrow>
     keeps n s s' \<and>
     vc_cons s' n = (vc_cons s n)\<lparr>vc_pos := vc_pos (vc_cons s' n), vc_x := vc_x (vc_cons s n) + of_nat (length cs)\<rparr> \<and>
     same_grid s n (cell s' n) (with_text (unat (vc_y (vc_cons s n))) (unat (vc_x (vc_cons s n))) cs (cell s n))"

lemma put_cell_printed:
  assumes "window_ok n s" and "vc_x (vc_cons s n) < video_num_columns s"
  shows "printed n [ucast b OR push_bit 8 (ucast (vc_attr (vc_cons s n)))] s (put_cell b n s)"
proof -
  let ?v = "vc_cons s n" and ?c = "ucast b OR push_bit 8 (ucast (vc_attr (vc_cons s n))) :: u16"
  have e: "put_cell b n s = upd_vc n (\<lambda>v. v\<lparr>vc_pos := vc_pos v + 2, vc_x := vc_x v + 1\<rparr>) (s\<lparr>vram := wr16 (vc_pos ?v) ?c (vram s)\<rparr>)"
    using assms(2) by (simp add: put_cell_def Let_def not_le[symmetric])
  let ?y0 = "unat (vc_y ?v)" and ?x0 = "unat (vc_x ?v)" and ?R = "unat (video_size_row s)"
  have N: "screen_bytes s < 2 ^ 32" by (rule screen_bytes_less[OF assms(1)])
  have x0: "?x0 < unat (video_num_columns s)" using assms(2) by (simp add: word_less_nat_alt)
  have y0: "?y0 < unat (video_num_lines s)" by (rule window_okD(7)[OF assms(1)])
  have p: "vc_pos ?v = vc_origin ?v + of_nat (cursor s n)" by (rule pos_cursor[OF assms(1)])
  have cb: "cursor s n + 2 \<le> screen_bytes s" using cell_offset(2)[OF assms(1) y0 x0] by (simp add: cursor_def)
  have g: "cell (put_cell b n s) n y x = with_text ?y0 ?x0 [?c] (cell s n) y x"
    if y: "y < unat (video_num_lines s)" and x: "x < unat (video_num_columns s)" for y x
  proof -
    have c: "cell (put_cell b n s) n y x = rd16 (vc_origin ?v + of_nat (y * ?R + 2 * x)) (wr16 (vc_pos ?v) ?c (vram s))"
      by (simp add: cell_def e)
    show ?thesis
    proof (cases "y = ?y0 \<and> x = ?x0")
      case True
      then show ?thesis unfolding c p by (simp add: cursor_def with_text_def)
    next
      case False
      have "Suc (y * ?R + 2 * x) < cursor s n \<or> cursor s n + 2 \<le> y * ?R + 2 * x"
      proof (cases y ?y0 rule: linorder_cases)
        case less
        then have "Suc y * ?R \<le> ?y0 * ?R" by (intro mult_le_mono1) simp
        then show ?thesis using cell_offset(1)[OF assms(1) y x] by (simp add: cursor_def)
      next
        case equal
        then show ?thesis using False by (auto simp: cursor_def)
      next
        case greater
        then have "Suc ?y0 * ?R \<le> y * ?R" by (intro mult_le_mono1) simp
        then show ?thesis using cell_offset(1)[OF assms(1) y0 x0] by (simp add: cursor_def)
      qed
      from rd16_other[where m' = "wr16 (vc_pos ?v) ?c (vram s)" and m = "vram s", OF _ cb cell_offset(2)[OF assms(1) y x] this N]
      have "cell (put_cell b n s) n y x = cell s n y x" unfolding c by (simp add: cell_def p wr16_outside)
      then show ?thesis using False by (auto simp: with_text_def)
    qed
  qed
  have k: "keeps n s (put_cell b n s)" by (rule keeps_put_cell[OF keeps_refl[OF assms(1)]])
  have v: "vc_cons (put_cell b n s) n = ?v\<lparr>vc_pos := vc_pos ?v + 2, vc_x := vc_x ?v + 1\<rparr>" by (simp add: e)
  show ?thesis unfolding printed_def same_grid_def using k g v by (simp add: e)
qed

lemma same_grid_text:
  "same_grid s n g h \<Longrightarrow> same_grid s n (with_text y x cs g) (with_text y x cs h)"
  by (auto simp: same_grid_def with_text_def)

lemma printed_trans:
  assumes "printed n [c] s s1" and "printed n cs s1 s2" and "vc_x (vc_cons s n) < video_num_columns s"
  shows "printed n (c # cs) s s2"
proof -
  have k: "keeps n s s1" "keeps n s1 s2" using assms(1,2) by (simp_all add: printed_def)
  have g: "video_num_lines s1 = video_num_lines s" "video_num_columns s1 = video_num_columns s" using k(1) by (simp_all add: keeps_def confined_def)
  have x: "unat (vc_x (vc_cons s n) + 1) = Suc (unat (vc_x (vc_cons s n)))"
    using assms(3) unat_u32_less[of "video_num_columns s"] by (subst unat_add_lem[THEN iffD1]) (simp_all add: word_less_nat_alt)
  have v1: "vc_cons s1 n = (vc_cons s n)\<lparr>vc_pos := vc_pos (vc_cons s1 n), vc_x := vc_x (vc_cons s n) + 1\<rparr>"
    using assms(1) by (simp add: printed_def)
  have v2: "vc_cons s2 n = (vc_cons s1 n)\<lparr>vc_pos := vc_pos (vc_cons s2 n), vc_x := vc_x (vc_cons s1 n) + of_nat (length cs)\<rparr>"
    using assms(2) by (simp add: printed_def)
  have x1: "vc_x (vc_cons s1 n) = vc_x (vc_cons s n) + 1" "vc_y (vc_cons s1 n) = vc_y (vc_cons s n)" by (subst v1, simp)+
  let ?y = "unat (vc_y (vc_cons s n))" and ?x = "unat (vc_x (vc_cons s n))"
  have "same_grid s n (cell s2 n) (with_text ?y (Suc ?x) cs (cell s1 n))"
    using assms(2) by (simp add: printed_def same_grid_def g x1 x)
  moreover have "same_grid s n (cell s1 n) (with_text ?y ?x [c] (cell s n))" using assms(1) by (simp add: printed_def)
  ultimately have "same_grid s n (cell s2 n) (with_text ?y (Suc ?x) cs (with_text ?y ?x [c] (cell s n)))"
    using same_grid_text[of s n "cell s1 n" _ ?y "Suc ?x" cs] by (simp add: same_grid_def)
  then have g2: "same_grid s n (cell s2 n) (with_text ?y ?x (c # cs) (cell s n))" by (simp only: with_text_Cons)
  have "vc_cons s2 n = (vc_cons s n)\<lparr>vc_pos := vc_pos (vc_cons s2 n), vc_x := vc_x (vc_cons s n) + of_nat (length (c # cs))\<rparr>"
    by (subst v2, subst v1) (simp add: x1 add.commute add.left_commute)
  then show ?thesis unfolding printed_def using g2 keeps_trans[OF k] assms(1,2) by (simp add: printed_def)
qed


lemma printed_same:
  assumes "window_ok n s" and "same_screens s s1" and "printed n cs s1 s2"
  shows "printed n cs s s2"
proof -
  have k: "keeps n s s2" using keeps_trans[OF keeps_same[OF assms(1,2)]] assms(3) by (simp add: printed_def)
  have "cell s1 n = cell s n" by (intro ext) (use assms(2) in \<open>simp add: same_screens_def cell_def\<close>)
  then show ?thesis using assms(2,3) k by (simp add: printed_def same_screens_def same_grid_def)
qed

lemma put_cell_tty [simp]: "tty_table (put_cell b n s) = tty_table s"
  by (simp add: put_cell_def wrap_line_def lf_def scrup_def scroll_region_def scroll_window_def set_origin_def crtc_def outb_def Let_def)

lemma printable_sint: "printable b \<Longrightarrow> sint b = int (unat b) \<and> 32 \<le> unat b \<and> unat b < 127"
proof -
  assume b: "printable b"
  then have "unat b < 127" "32 \<le> unat b" by (simp_all add: printable_def word_less_nat_alt word_le_nat_alt)
  moreover then have "b < 128" by (simp add: word_less_nat_alt)
  ultimately show ?thesis using sint_u8[of b] by simp
qed

lemma con_char_printable:
  assumes "printable b" and "vc_state (vc_cons s n) = ESnormal"
  shows "con_char cook (sint b) n s = Inr (put_cell (vc_translate (vc_cons s n) ! (unat b - 32)) n s)"
proof -
  have b: "sint b = int (unat b)" "32 \<le> unat b" "unat b < 127" using printable_sint[OF assms(1)] by simp_all
  then have c: "\<not> (sint b = 24 \<or> sint b = 26)" "31 < sint b \<and> sint b < 127" by linarith+
  have n: "nat (sint b - 32) = unat b - 32" unfolding b(1) using b(2) by linarith
  show ?thesis unfolding con_char_def Let_def if_not_P[OF c(1)] assms(2) es.case con_normal_def if_P[OF c(2)] n by (rule HOL.refl)
qed

lemma con_loop_text:
  "window_ok n s \<Longrightarrow> vc_state (vc_cons s n) = ESnormal \<Longrightarrow> \<not> tt_stopped (tty_table s n) \<Longrightarrow> q_ok (write_q (tty_table s n)) \<Longrightarrow>
    q_list (write_q (tty_table s n)) = bs \<Longrightarrow> \<forall>b\<in>set bs. printable b \<Longrightarrow>
    unat (vc_x (vc_cons s n)) + length bs \<le> unat (video_num_columns s) \<Longrightarrow>
    \<exists>s'. con_loop cook (length bs) n s = Inr s' \<and> printed n (map (glyph (vc_cons s n)) bs) s s' \<and> q_list (write_q (tty_table s' n)) = []"
proof (induction bs arbitrary: s)
  case Nil
  then show ?case using keeps_refl by (auto simp: printed_def same_grid_def with_text_def)
next
  case (Cons b bs)
  let ?v = "vc_cons s n"
  obtain q where g: "GETCH (write_q (tty_table s n)) = (b, q)" "q_ok q" "q_list q = bs"
    using GETCH_list[OF Cons.prems(4)] Cons.prems(5) by (cases "GETCH (write_q (tty_table s n))") auto
  let ?s1 = "upd_tty n (\<lambda>t. t\<lparr>write_q := q\<rparr>) s"
  let ?s2 = "put_cell (vc_translate ?v ! (unat b - 32)) n ?s1"
  have ss: "same_screens s ?s1" by (rule same_upd_tty) simp
  have w1: "window_ok n ?s1" by (rule keeps_window[OF keeps_same[OF Cons.prems(1) ss]])
  have x: "vc_x ?v < video_num_columns s" using Cons.prems(7) by (simp add: word_less_nat_alt)
  have p1: "printed n [glyph ?v b] s ?s2"
    using printed_same[OF Cons.prems(1) ss put_cell_printed[OF w1]] x ss by (simp add: same_screens_def glyph_def)
  have cc: "con_char cook (sint b) n ?s1 = Inr ?s2"
    using con_char_printable[of b ?s1 n cook] Cons.prems(2,6) ss by (simp add: same_screens_def)
  have v2: "vc_cons ?s2 n = ?v\<lparr>vc_pos := vc_pos (vc_cons ?s2 n), vc_x := vc_x ?v + 1\<rparr>" using p1 by (simp add: printed_def)
  have gl: "glyph (vc_cons ?s2 n) = glyph ?v" by (subst v2) (simp add: glyph_def fun_eq_iff)
  have st: "vc_state (vc_cons ?s2 n) = ESnormal" by (subst v2) (simp add: Cons.prems(2))
  have "vc_x (vc_cons ?s2 n) = vc_x ?v + 1" by (subst v2) simp
  then have x2: "unat (vc_x (vc_cons ?s2 n)) = Suc (unat (vc_x ?v))"
    using x unat_u32_less[of "video_num_columns s"] by (simp add: word_less_nat_alt) (subst unat_add_lem[THEN iffD1], simp_all)
  have c2: "video_num_columns ?s2 = video_num_columns s" using p1 by (simp add: printed_def keeps_def confined_def)
  have "keeps n s ?s2" using p1 by (simp add: printed_def)
  then have w2: "window_ok n ?s2" by (rule keeps_window)
  have "\<exists>s'. con_loop cook (length bs) n ?s2 = Inr s' \<and> printed n (map (glyph (vc_cons ?s2 n)) bs) ?s2 s' \<and> q_list (write_q (tty_table s' n)) = []"
    using Cons.prems(3,6,7) g x2 c2 by (intro Cons.IH[OF w2 st]) simp_all
  then obtain s' where s': "con_loop cook (length bs) n ?s2 = Inr s'" "printed n (map (glyph ?v) bs) ?s2 s'"
    "q_list (write_q (tty_table s' n)) = []" unfolding gl by blast
  have "con_loop cook (length (b # bs)) n s = Inr s'" using Cons.prems(3) g(1) cc s'(1) by simp
  moreover have "printed n (map (glyph ?v) (b # bs)) s s'" using printed_trans[OF p1 s'(2) x] by simp
  ultimately show ?case using s'(3) by blast
qed

lemma con_write_text:
  assumes "window_ok n s" and "vc_state (vc_cons s n) = ESnormal" and "\<not> tt_stopped (tty_table s n)" and "q_ok (write_q (tty_table s n))"
    and "q_list (write_q (tty_table s n)) = bs" and "\<forall>b\<in>set bs. printable b"
    and "unat (vc_x (vc_cons s n)) + length bs \<le> unat (video_num_columns s)" and "n < MAX_CONSOLES"
  shows "\<exists>s'. con_write cook n s = Inr s' \<and> q_list (write_q (tty_table s' n)) = [] \<and>
    same_grid s n (cell s' n)
      (with_text (unat (vc_y (vc_cons s n))) (unat (vc_x (vc_cons s n))) (map (glyph (vc_cons s n)) bs) (cell s n)) \<and>
    vc_x (vc_cons s' n) = vc_x (vc_cons s n) + of_nat (length bs) \<and> vc_y (vc_cons s' n) = vc_y (vc_cons s n)"
proof -
  obtain s1 where s1: "con_loop cook (length bs) n s = Inr s1" "printed n (map (glyph (vc_cons s n)) bs) s s1" "q_list (write_q (tty_table s1 n)) = []"
    using con_loop_text[OF assms(1-7)] by blast
  have l: "unat (CHARS (write_q (tty_table s n))) = length bs" using assms(5) by (metis length_q_list)
  have v1: "vc_cons s1 n = (vc_cons s n)\<lparr>vc_pos := vc_pos (vc_cons s1 n), vc_x := vc_x (vc_cons s n) + of_nat (length bs)\<rparr>"
    using s1(2) by (simp add: printed_def)
  have xy: "vc_x (vc_cons s1 n) = vc_x (vc_cons s n) + of_nat (length bs)" "vc_y (vc_cons s1 n) = vc_y (vc_cons s n)" by (subst v1, simp)+
  have sc: "cell (set_cursor n s1) n = cell s1 n" "tty_table (set_cursor n s1) = tty_table s1" "vc_cons (set_cursor n s1) = vc_cons s1"
    by (simp_all add: set_cursor_def crtc_def outb_def cell_def fun_eq_iff Let_def)
  have "con_write cook n s = Inr (set_cursor n s1)" using s1(1) assms(8) by (simp add: con_write_def l)
  then show ?thesis using s1(2,3) xy by (auto simp: sc printed_def)
qed

end
