(* ===== verification/FileDev.thy ===== *)
theory FileDev
  imports Directory Pipe TtyLine
begin

text \<open>
  Reading and writing files (\<open>fs/file_dev.c\<close>) and block devices (\<open>fs/block_dev.c\<close>). The caller's buffer is
  the list of bytes that go to it or come from it; what is returned beside the result is the inode, the open file and the
  state. A position is not negative when it comes from \<open>lseek\<close>; a negative one is \<open>OutOfBounds\<close> here.
  \<open>FileBytes\<close> shows what the bytes of a file are and how these routines change them.
\<close>

section \<open>Files\<close>

definition O_APPEND :: u16 where "O_APPEND = 0x400"

text \<open>The loop of \<open>file_read\<close> from position \<open>pos\<close>, and of \<open>file_write\<close>.\<close>

function file_read_loop :: "m_inode \<Rightarrow> nat \<Rightarrow> nat \<Rightarrow> fs_state \<Rightarrow> (u8 list \<times> nat \<times> m_inode \<times> fs_state) kres" where
  "file_read_loop ino pos left s =
     (if left = 0 then Inr ([], pos, ino, s)
      else
        let nr0 = pos mod 1024; chars = min (1024 - nr0) left
        in kbind (bmap ino (int (pos div 1024)) s)
             (\<lambda>(nr, ino1, s1).
                if nr \<noteq> 0 then
                  kbind (bread (i_dev ino1, nr) s1)
                    (\<lambda>(ok, s2).
                       if \<not> ok then Inr ([], pos, ino1, s2)
                       else case bufs s2 (i_dev ino1, nr) of None \<Rightarrow> Inl NullDeref
                         | Some bh \<Rightarrow>
                             kbind (brelse (i_dev ino1, nr) s2)
                               (\<lambda>s3. kbind (file_read_loop ino1 (pos + chars) (left - chars) s3)
                                  (\<lambda>(bs, r). Inr (map (b_data bh) [nr0..<nr0 + chars] @ bs, r))))
                else kbind (file_read_loop ino1 (pos + chars) (left - chars) s1)
                       (\<lambda>(bs, r). Inr (replicate chars 0 @ bs, r))))"
  by pat_completeness auto
termination
  by (relation "measure (\<lambda>(ino, pos, left, s). left)") (auto simp: Let_def min_def)

definition file_read :: "m_inode \<Rightarrow> file_entry \<Rightarrow> int \<Rightarrow> fs_state \<Rightarrow> (int \<times> u8 list \<times> m_inode \<times> file_entry \<times> fs_state) kres" where
  "file_read inode f cnt s =
     (if cnt \<le> 0 then Inr (0, [], inode, f, s)
      else if f_pos f < 0 then Inl OutOfBounds
      else kbind (file_read_loop inode (nat (f_pos f)) (nat cnt) s)
             (\<lambda>(bs, pos, ino, s1).
                Inr (if bs \<noteq> [] then int (length bs) else - ERROR, bs, ino\<lparr>i_atime := cur_time s1\<rparr>, f\<lparr>f_pos := int pos\<rparr>, s1)))"

text \<open>Bytes put over those of a block from an offset on.\<close>

definition put_bytes :: "nat \<Rightarrow> u8 list \<Rightarrow> block \<Rightarrow> block" where
  "put_bytes c bs d = (\<lambda>i. if c \<le> i \<and> i < c + length bs then bs ! (i - c) else d i)"

function file_write_loop :: "m_inode \<Rightarrow> nat \<Rightarrow> u8 list \<Rightarrow> fs_state \<Rightarrow> (nat \<times> m_inode \<times> fs_state) kres" where
  "file_write_loop ino pos bs s =
     (if bs = [] then Inr (0, ino, s)
      else
        let c0 = pos mod 1024; c = min (1024 - c0) (length bs); pos1 = pos + c
        in kbind (create_block ino (int (pos div 1024)) s)
             (\<lambda>(blk, ino1, s1).
                if blk = 0 then Inr (0, ino1, s1)
                else kbind (bread (i_dev ino1, blk) s1)
                       (\<lambda>(ok, s2).
                          if \<not> ok then Inr (0, ino1, s2)
                          else
                            let s3 = upd_buf (i_dev ino1, blk)
                                       (\<lambda>b. b\<lparr>b_data := put_bytes c0 (take c bs) (b_data b), b_dirt := True\<rparr>) s2;
                                ino2 = (if pos1 > unat (i_size ino1)
                                        then ino1\<lparr>i_size := of_nat pos1, i_dirt := True\<rparr> else ino1)
                            in kbind (brelse (i_dev ino1, blk) s3)
                                 (\<lambda>s4. kbind (file_write_loop ino2 pos1 (drop c bs) s4)
                                         (\<lambda>(n, r). Inr (c + n, r))))))"
  by pat_completeness auto
termination
  by (relation "measure (\<lambda>(ino, pos, bs, s). length bs)") (auto simp: Let_def min_def)

declare file_read_loop.simps [simp del] file_write_loop.simps [simp del]

definition file_write :: "m_inode \<Rightarrow> file_entry \<Rightarrow> u8 list \<Rightarrow> fs_state \<Rightarrow> (int \<times> m_inode \<times> file_entry \<times> fs_state) kres" where
  "file_write inode f bs s =
     (let append = f_flags f AND O_APPEND \<noteq> 0; pos = (if append then sint (i_size inode) else f_pos f)
      in if pos < 0 then Inl OutOfBounds
         else kbind (file_write_loop inode (nat pos) bs s)
                (\<lambda>(i, ino, s1).
                   let ino1 = ino\<lparr>i_mtime := cur_time s1\<rparr>
                   in Inr (if i \<noteq> 0 then int i else - 1,
                           if append then ino1 else ino1\<lparr>i_ctime := cur_time s1\<rparr>,
                           if append then f else f\<lparr>f_pos := pos + int i\<rparr>, s1)))"

section \<open>Block devices\<close>

text \<open>
  \<open>breada\<close> as its client sees it: the first block is read and held, the others may come into the cache. \<open>blk_size\<close>
  is the table of the drivers: the number of blocks of a device, if its major number has one.
\<close>

definition read_ahead :: "bkey \<Rightarrow> fs_state \<Rightarrow> fs_state" where
  "read_ahead q s = upd_buf q (\<lambda>b. b\<lparr>b_count := b_count b - 1\<rparr>) (getblk q s)"

definition breada :: "u16 \<Rightarrow> int \<Rightarrow> int list \<Rightarrow> fs_state \<Rightarrow> (bool \<times> fs_state) kres" where
  "breada dev blk rest s = kbind (bread (dev, blk) s) (\<lambda>(ok, s1). Inr (ok, foldl (\<lambda>s b. read_ahead (dev, b) s) s1 rest))"

definition dev_size :: "(u16 \<Rightarrow> int option) \<Rightarrow> u16 \<Rightarrow> int" where
  "dev_size blk_size dev = (case blk_size dev of Some n \<Rightarrow> n | None \<Rightarrow> 0x7FFFFFFF)"

text \<open>Each loop starts in \<open>block\<close> at \<open>off\<close>, the rest of the blocks from their start.\<close>

function block_write_loop :: "(u16 \<Rightarrow> int option) \<Rightarrow> u16 \<Rightarrow> nat \<Rightarrow> nat \<Rightarrow> u8 list \<Rightarrow> fs_state \<Rightarrow> (nat \<times> bool \<times> fs_state) kres" where
  "block_write_loop bsz dev blk off bs s =
     (if bs = [] then Inr (0, True, s)
      else if int blk \<ge> dev_size bsz dev then Inr (0, False, s)
      else
        let chars = min (1024 - off) (length bs); q = (dev, int blk)
        in if chars = 0 then Inl OutOfBounds
           else kbind (if chars = 1024 then Inr (True, getblk q s) else breada dev (int blk) [int blk + 1, int blk + 2] s)
             (\<lambda>(ok, s1).
                if \<not> ok then Inr (0, False, s1)
                else kbind (brelse q (upd_buf q (\<lambda>b. b\<lparr>b_data := put_bytes off (take chars bs) (b_data b), b_dirt := True\<rparr>) s1))
                       (\<lambda>s2. kbind (block_write_loop bsz dev (blk + 1) 0 (drop chars bs) s2)
                               (\<lambda>(n, r). Inr (chars + n, r)))))"
  by pat_completeness auto
termination
  by (relation "measure (\<lambda>(bsz, dev, blk, off, bs, s). length bs)") (auto simp: Let_def)

function block_read_loop :: "(u16 \<Rightarrow> int option) \<Rightarrow> u16 \<Rightarrow> nat \<Rightarrow> nat \<Rightarrow> nat \<Rightarrow> fs_state \<Rightarrow> (u8 list \<times> bool \<times> fs_state) kres" where
  "block_read_loop bsz dev blk off cnt s =
     (if cnt = 0 then Inr ([], True, s)
      else if int blk \<ge> dev_size bsz dev then Inr ([], False, s)
      else
        let chars = min (1024 - off) cnt; q = (dev, int blk)
        in if chars = 0 then Inl OutOfBounds
           else kbind (breada dev (int blk) [int blk + 1, int blk + 2] s)
             (\<lambda>(ok, s1).
                if \<not> ok then Inr ([], False, s1)
                else case bufs s1 q of None \<Rightarrow> Inl NullDeref
                  | Some bh \<Rightarrow>
                      kbind (brelse q s1)
                        (\<lambda>s2. kbind (block_read_loop bsz dev (blk + 1) 0 (cnt - chars) s2)
                                (\<lambda>(bs, r). Inr (map (b_data bh) [off..<off + chars] @ bs, r)))))"
  by pat_completeness auto
termination
  by (relation "measure (\<lambda>(bsz, dev, blk, off, cnt, s). cnt)") (auto simp: Let_def)

declare block_write_loop.simps [simp del] block_read_loop.simps [simp del]

text \<open>The result, the position after the call, the bytes read, the state.\<close>

definition block_write :: "(u16 \<Rightarrow> int option) \<Rightarrow> u16 \<Rightarrow> int \<Rightarrow> u8 list \<Rightarrow> fs_state \<Rightarrow> (int \<times> int \<times> fs_state) kres" where
  "block_write bsz dev pos bs s =
     (if pos < 0 then Inl OutOfBounds
      else kbind (block_write_loop bsz dev (nat pos div 1024) (nat pos mod 1024) bs s)
             (\<lambda>(n, ok, s1). Inr (if \<not> ok \<and> n = 0 then - EIO else int n, pos + int n, s1)))"

definition block_read :: "(u16 \<Rightarrow> int option) \<Rightarrow> u16 \<Rightarrow> int \<Rightarrow> int \<Rightarrow> fs_state \<Rightarrow> (int \<times> int \<times> u8 list \<times> fs_state) kres" where
  "block_read bsz dev pos cnt s =
     (if pos < 0 then Inl OutOfBounds
      else kbind (block_read_loop bsz dev (nat pos div 1024) (nat pos mod 1024) (nat cnt) s)
             (\<lambda>(bs, ok, s1). Inr (if \<not> ok \<and> bs = [] then - EIO else int (length bs), pos + int (length bs), bs, s1)))"

end
