(* ===== verification/FileBytes.thy ===== *)
theory FileBytes
  imports FileDev
begin

text \<open>
  A file as an array of bytes: \<open>fbyte\<close> is the byte at a position, zero where no zone is mapped and \<open>None\<close> where
  the disk cannot be read. \<open>file_read\<close> returns these bytes, \<open>file_write\<close> overwrites a stretch of them and
  leaves all other bytes of this file and of every other file as they were.
\<close>

section \<open>The bytes of a file\<close>

definition fbyte :: "fs_state \<Rightarrow> m_inode \<Rightarrow> nat \<Rightarrow> u8 option" where
  "fbyte s ino p =
     (let z = zref s ino (zpos_of (int (p div 1024)))
      in if z = 0 then Some 0 else map_option (\<lambda>d. d (p mod 1024)) (contents s (i_dev ino, uint z)))"

text \<open>The bytes after \<open>bs\<close> has been written at \<open>pos\<close>.\<close>

definition overwrite :: "nat \<Rightarrow> u8 list \<Rightarrow> (nat \<Rightarrow> u8 option) \<Rightarrow> nat \<Rightarrow> u8 option" where
  "overwrite pos bs g p = (if pos \<le> p \<and> p < pos + length bs then Some (bs ! (p - pos)) else g p)"

definition MAX_FILE :: nat where "MAX_FILE = (7 + 512 + 512 * 512) * 1024"

lemma is_data_zpos [simp]: "is_data (zpos_of b)"
  by (simp add: zpos_of_def)

lemma block_in_range: "p < MAX_FILE \<Longrightarrow> int (p div 1024) < 7 + 512 + 512 * 512"
  by (simp add: MAX_FILE_def div_less_dividend less_mult_imp_div_less)

lemma unseen_fbyte: "unseen s t \<Longrightarrow> fbyte t n p = fbyte s n p"
  using unseen_zref[of s t n] unseenD(1)[of s t] by (simp add: fbyte_def Let_def)

lemma same_inode_zref: "i_zone n' = i_zone n \<Longrightarrow> i_dev n' = i_dev n \<Longrightarrow> zref s n' p = zref s n p"
  by (cases p) simp_all

lemma same_inode_fbyte: "i_zone n' = i_zone n \<Longrightarrow> i_dev n' = i_dev n \<Longrightarrow> fbyte s n' p = fbyte s n p"
  by (simp add: fbyte_def Let_def same_inode_zref[of n' n])

lemma same_inode_fmap: "i_zone n' = i_zone n \<Longrightarrow> i_dev n' = i_dev n \<Longrightarrow> fmap_ok s k n' = fmap_ok s k n"
  by (simp add: fmap_ok_def same_inode_zref[of n' n])

lemma same_inode_disjoint: "i_zone n' = i_zone n \<Longrightarrow> i_dev n' = i_dev n \<Longrightarrow> files_disjoint s n' b = files_disjoint s n b"
  by (simp add: files_disjoint_def same_inode_zref[of n' n])

section \<open>Looking up a block, mapped or not\<close>

lemma bread_unreadable:
  assumes "contents f q = None" and "room 1 f"
  obtains g where "bread q f = Inr (False, g)" and "unseen f g"
proof -
  obtain b where b: "bufs (getblk q f) q = Some b" using getblk_grab[of q f] by (auto simp: grab_def)
  have c: "contents (getblk q f) q = None" using assms(1) by simp
  then have nu: "\<not> b_uptodate b" "disk (getblk q f) q = None" using b by (auto simp: contents_def split: if_splits)
  from brelse_total[OF getblk_grab assms(2)] obtain g where g: "brelse q (getblk q f) = Inr g" .
  have r: "bread q f = Inr (False, g)" using b nu g by (simp add: bread_def)
  have "unseen f g" using bread_grab[OF r] bread_view[OF r] by (simp add: unseen_def)
  with r show thesis by (rule that)
qed

lemma ind_entry_total:
  assumes "room 1 f" and "idx < 512" and "z \<noteq> 0"
  obtains g where "ind_entry dev (uint z) idx False f = Inr (uint (entry f dev z idx), g)" and "unseen f g"
proof (cases "contents f (dev, uint z) = None")
  case True
  from bread_unreadable[OF True assms(1)] obtain g where "bread (dev, uint z) f = Inr (False, g)" "unseen f g" .
  with True show thesis by (intro that[of g]) (simp_all add: ind_entry_def entry_def)
next
  case False
  from ind_entry_lookup[OF False assms(3,1,2)] that show thesis unfolding unseen_def by metis
qed

lemma bmap_total:
  assumes "0 \<le> blk" and "blk < 7 + 512 + 512 * 512" and "room 1 f"
  obtains g where "bmap n blk f = Inr (uint (zref f n (zpos_of blk)), n, g)" and "unseen f g"
proof (cases "zref f n (zpos_of blk) = 0")
  case False
  from bmap_lookup[OF assms(1,2) False assms(3)] that show thesis by (auto simp: bmap_def)
next
  case True
  note az = alloc_zone_lookup[THEN iffD2, OF conjI, OF HOL.refl HOL.refl]
  consider "blk < 7" | "7 \<le> blk" "blk < 519" | "519 \<le> blk" by linarith
  then show thesis
  proof cases
    case 1
    with assms(1,2) show thesis by (intro that[of f]) (simp_all add: bmap_def bmap_gen_def az zpos_of_def nat_less_iff)
  next
    case 2
    show thesis
    proof (cases "i_zone n 7 = 0")
      case True
      with 2 show thesis by (intro that[of f]) (simp_all add: bmap_def bmap_gen_def az zpos_of_def Let_def)
    next
      case False
      from 2 have "nat (blk - 7) < 512" by simp
      from ind_entry_total[OF assms(3) this False] obtain g where
        "ind_entry (i_dev n) (uint (i_zone n 7)) (nat (blk - 7)) False f = Inr (uint (entry f (i_dev n) (i_zone n 7) (nat (blk - 7))), g)"
        "unseen f g" by metis
      with 2 False show thesis by (intro that[of g]) (simp_all add: bmap_def bmap_gen_def az zpos_of_def Let_def)
    qed
  next
    case 3
    let ?i = "nat (blk - 519) div 512" and ?j = "nat (blk - 519) mod 512"
    have e: "nat (blk - 7 - 512) = nat (blk - 519)" by simp
    have ij: "?i < 512" "?j < 512" using 3 assms(2) by auto
    show thesis
    proof (cases "i_zone n 8 = 0")
      case True
      with 3 e assms(2) show thesis by (intro that[of f]) (simp_all add: bmap_def bmap_gen_def az zpos_of_def Let_def)
    next
      case False
      let ?z = "entry f (i_dev n) (i_zone n 8) ?i"
      from ind_entry_total[OF assms(3) ij(1) False] obtain g where
        g: "ind_entry (i_dev n) (uint (i_zone n 8)) ?i False f = Inr (uint ?z, g)" "unseen f g" by metis
      show thesis
      proof (cases "?z = 0")
        case True
        with 3 e assms(2) False g show thesis
          by (intro that[of g]) (simp_all add: bmap_def bmap_gen_def az zpos_of_def Let_def)
      next
        case nz: False
        have r: "room 1 g" using assms(3) unseen_room[OF g(2)] by simp
        from ind_entry_total[OF r ij(2) nz] obtain h where
          h: "ind_entry (i_dev n) (uint ?z) ?j False g = Inr (uint (entry g (i_dev n) ?z ?j), h)" "unseen g h" by metis
        have eh: "entry g (i_dev n) ?z ?j = entry f (i_dev n) ?z ?j" by (rule unseen_entry[OF g(2)])
        from 3 e assms(2) False nz g h unseen_trans[OF g(2) h(2)] show thesis
          by (intro that[of h]) (simp_all add: bmap_def bmap_gen_def az zpos_of_def Let_def eh unsigned_eq_0_iff)
      qed
    qed
  qed
qed

section \<open>Reading\<close>

lemma chunk_pos:
  assumes "i < 1024 - pos mod 1024"
  shows "(pos + i) div 1024 = pos div 1024" and "(pos + i) mod 1024 = pos mod 1024 + (i :: nat)"
proof -
  have l: "pos mod 1024 + i < 1024" using assms by simp
  have e: "pos + i = 1024 * (pos div 1024) + (pos mod 1024 + i)" by simp
  show "(pos + i) div 1024 = pos div 1024" using l by (subst e, subst div_mult_self4) simp_all
  show "(pos + i) mod 1024 = pos mod 1024 + i" using l by (subst e, subst mod_mult_self4) simp_all
qed

text \<open>What reading \<open>left\<close> bytes at \<open>pos\<close> returns: a prefix that ends at the first byte the disk cannot give.\<close>

definition reads :: "fs_state \<Rightarrow> m_inode \<Rightarrow> nat \<Rightarrow> nat \<Rightarrow> u8 list \<Rightarrow> bool" where
  "reads s ino pos left bs \<longleftrightarrow>
     length bs \<le> left \<and> (\<forall>i<length bs. fbyte s ino (pos + i) = Some (bs ! i)) \<and>
     (length bs < left \<longrightarrow> fbyte s ino (pos + length bs) = None)"

lemma reads_cong: "unseen s t \<Longrightarrow> reads t ino pos left bs = reads s ino pos left bs"
  by (simp add: reads_def unseen_fbyte)

lemma reads_append:
  assumes "length as = c" and "c \<le> left" and "\<And>i. i < c \<Longrightarrow> fbyte s ino (pos + i) = Some (as ! i)"
    and "reads s ino (pos + c) (left - c) bs"
  shows "reads s ino pos left (as @ bs)"
  unfolding reads_def
proof (intro conjI allI impI)
  show "length (as @ bs) \<le> left" using assms(1,2,4) unfolding reads_def by auto
  show "fbyte s ino (pos + i) = Some ((as @ bs) ! i)" if "i < length (as @ bs)" for i
  proof (cases "i < c")
    case False
    then have "i - c < length bs" using assms(1) that by auto
    then have "fbyte s ino (pos + c + (i - c)) = Some (bs ! (i - c))" using assms(4) unfolding reads_def by blast
    with False assms(1) show ?thesis by (simp add: nth_append)
  qed (use assms(1,3) in \<open>simp add: nth_append\<close>)
  show "fbyte s ino (pos + length (as @ bs)) = None" if "length (as @ bs) < left"
    using assms(1,4) that by (simp add: reads_def add.assoc)
qed

lemma file_read_loop_reads:
  assumes "room 1 s" and "pos + left \<le> MAX_FILE"
  shows "\<exists>bs t. file_read_loop ino pos left s = Inr (bs, pos + length bs, ino, t) \<and> unseen s t \<and> reads s ino pos left bs"
  using assms
proof (induction left arbitrary: pos s rule: less_induct)
  case (less left)
  show ?case
  proof (cases "left = 0")
    case True
    then show ?thesis by (subst file_read_loop.simps) (auto simp: reads_def)
  next
    case False
    let ?c = "min (1024 - pos mod 1024) left" and ?z = "zref s ino (zpos_of (int (pos div 1024)))"
    have c: "?c \<le> left" "0 < ?c" using False by simp_all
    have dm: "(pos + i) div 1024 = pos div 1024" "(pos + i) mod 1024 = pos mod 1024 + i" if "i < ?c" for i
      by (rule chunk_pos; use that in simp)+
    have "pos < MAX_FILE" using less.prems(2) False by simp
    from bmap_total[OF _ block_in_range[OF this] less.prems(1), of ino] obtain g where
      g: "bmap ino (int (pos div 1024)) s = Inr (uint ?z, ino, g)" "unseen s g" by auto
    have step: "\<exists>bs u. file_read_loop ino (pos + ?c) (left - ?c) t = Inr (bs, pos + (?c + length bs), ino, u) \<and> unseen s u \<and>
        reads s ino (pos + ?c) (left - ?c) bs" if t: "unseen s t" for t
    proof -
      have "room 1 t" using less.prems(1) unseen_room[OF t] by simp
      moreover have "left - ?c < left" "pos + ?c + (left - ?c) \<le> MAX_FILE" using c less.prems(2) by simp_all
      ultimately obtain bs u where "file_read_loop ino (pos + ?c) (left - ?c) t = Inr (bs, pos + ?c + length bs, ino, u)"
        "unseen t u" "reads t ino (pos + ?c) (left - ?c) bs" using less.IH by blast
      with t show ?thesis using unseen_trans[OF t] reads_cong[OF t] by (auto simp: add.assoc)
    qed
    show ?thesis
    proof (cases "?z = 0")
      case True
      from step[OF g(2)] obtain bs u where r: "file_read_loop ino (pos + ?c) (left - ?c) g = Inr (bs, pos + (?c + length bs), ino, u)"
        "unseen s u" "reads s ino (pos + ?c) (left - ?c) bs" by blast
      have "reads s ino pos left (replicate ?c 0 @ bs)"
        by (rule reads_append[OF _ c(1) _ r(3)]) (simp_all add: fbyte_def dm True)
      moreover have "file_read_loop ino pos left s = Inr (replicate ?c 0 @ bs, pos + length (replicate ?c (0 :: u8) @ bs), ino, u)"
        using False g(1) True r(1) by (subst file_read_loop.simps) (simp add: Let_def)
      ultimately show ?thesis using r(2) by blast
    next
      case nz: False
      let ?q = "(i_dev ino, uint ?z)"
      show ?thesis
      proof (cases "contents s ?q = None")
        case True
        have cg: "contents g ?q = None" and rg: "room 1 g"
          using True less.prems(1) unseenD(1)[OF g(2)] unseen_room[OF g(2)] by simp_all
        from bread_unreadable[OF cg rg] obtain t where t: "bread ?q g = Inr (False, t)" "unseen g t" .
        have "file_read_loop ino pos left s = Inr ([], pos, ino, t)"
          using False g(1) nz t(1) by (subst file_read_loop.simps) (simp add: Let_def unsigned_eq_0_iff)
        moreover have "reads s ino pos left []" using True nz by (simp add: reads_def fbyte_def Let_def)
        ultimately show ?thesis using unseen_trans[OF g(2) t(2)] by auto
      next
        case readable: False
        from bread_holding[OF g(2) readable] obtain h where h: "bread ?q g = Inr (True, h)" "holding s ?q h" .
        from holdingD(4)[OF h(2)] obtain b where b: "bufs h ?q = Some b" "contents s ?q = Some (b_data b)" by blast
        from brelse_holding[OF h(2) less.prems(1)] obtain t where t: "brelse ?q h = Inr t" "unseen s t" .
        from step[OF t(2)] obtain bs u where r: "file_read_loop ino (pos + ?c) (left - ?c) t = Inr (bs, pos + (?c + length bs), ino, u)"
          "unseen s u" "reads s ino (pos + ?c) (left - ?c) bs" by blast
        let ?as = "map (b_data b) [pos mod 1024..<pos mod 1024 + ?c]"
        have "reads s ino pos left (?as @ bs)"
          by (rule reads_append[OF _ c(1) _ r(3)]) (simp_all add: fbyte_def dm nz b(2) Let_def)
        moreover have "file_read_loop ino pos left s = Inr (?as @ bs, pos + length (?as @ bs), ino, u)"
          using False g(1) nz h(1) b(1) t(1) r(1) by (subst file_read_loop.simps) (simp add: Let_def unsigned_eq_0_iff)
        ultimately show ?thesis using r(2) by blast
      qed
    qed
  qed
qed

section \<open>Writing\<close>

text \<open>One block of a file's data gets new contents.\<close>

definition data_step :: "fs_state \<Rightarrow> m_inode \<Rightarrow> zpos \<Rightarrow> block \<Rightarrow> fs_state \<Rightarrow> bool" where
  "data_step s ino p0 d t \<longleftrightarrow>
     is_data p0 \<and> zref s ino p0 \<noteq> 0 \<and> super t = super s \<and>
     (\<forall>q. contents t q = (if q = (i_dev ino, uint (zref s ino p0)) then Some d else contents s q))"

lemma data_stepD:
  assumes "data_step s ino p0 d t"
  shows "is_data p0" and "zref s ino p0 \<noteq> 0" and "super t = super s"
    and "contents t q = (if q = (i_dev ino, uint (zref s ino p0)) then Some d else contents s q)"
  using assms unfolding data_step_def by blast+

lemma parent_not_data: "parent p = Some (q, i) \<Longrightarrow> \<not> is_data q"
  by (cases p) auto

lemma get_super_same: "super t = super s \<Longrightarrow> get_super dev t = get_super dev s"
  by (rule get_super_cong) simp

lemma same_map_fmap:
  assumes "super t = super s" and "\<And>p. zref t n p = zref s n p"
  shows "fmap_ok t k n = fmap_ok s k n"
  by (simp only: fmap_ok_def assms get_super_same[OF assms(1)])

lemma data_step_zref:
  assumes ok: "fmap_ok s k ino" and st: "data_step s ino p0 d t"
  shows "zref t ino p = zref s ino p"
proof (induction p rule: zpos_parent_induct)
  case (root p)
  then show ?case by (cases p) auto
next
  case (child p q i)
  have "zref s ino q \<noteq> 0 \<Longrightarrow> zref s ino q \<noteq> zref s ino p0"
    using fmap_okD(5)[OF ok, of q p0] parent_not_data[OF child(1)] data_stepD(1)[OF st] by blast
  then have "entry t (i_dev ino) (zref s ino q) i = entry s (i_dev ino) (zref s ino q) i"
    by (cases "zref s ino q = 0") (auto intro!: entry_cong simp: data_stepD(4)[OF st])
  with child.IH zref_parent[OF child(1)] show ?case by metis
qed

lemma data_step_fmap:
  assumes "fmap_ok s k ino" and "data_step s ino p0 d t"
  shows "fmap_ok t k ino"
  using assms(1) same_map_fmap[OF data_stepD(3)[OF assms(2)] data_step_zref[OF assms]] by blast

text \<open>The frame of a step on file \<open>a\<close> for another file.\<close>

definition leaves :: "fs_state \<Rightarrow> m_inode \<Rightarrow> fs_state \<Rightarrow> m_inode \<Rightarrow> bool" where
  "leaves s a t a' \<longleftrightarrow>
     (\<forall>kb b. fmap_ok s kb b \<longrightarrow> files_disjoint s a b \<longrightarrow>
        fmap_ok t kb b \<and> files_disjoint t a' b \<and> (\<forall>p. fbyte t b p = fbyte s b p))"

lemma leavesD:
  assumes "leaves s a t a'" and "fmap_ok s kb b" and "files_disjoint s a b"
  shows "fmap_ok t kb b" and "files_disjoint t a' b" and "fbyte t b p = fbyte s b p"
  using assms unfolding leaves_def by blast+

lemma leaves_trans: "leaves s a t a' \<Longrightarrow> leaves t a' u a'' \<Longrightarrow> leaves s a u a''"
  unfolding leaves_def by metis

lemma unseen_fmap: "unseen s t \<Longrightarrow> fmap_ok t k n = fmap_ok s k n"
  by (rule same_map_fmap) (simp_all add: unseen_zref unseenD(3))

lemma unseen_leaves: "unseen s t \<Longrightarrow> leaves s a t a"
  by (simp add: leaves_def unseen_fmap files_disjoint_def unseen_zref unseen_fbyte)

lemma same_inode_leaves: "i_zone a' = i_zone a \<Longrightarrow> i_dev a' = i_dev a \<Longrightarrow> leaves s a s a'"
  by (simp add: leaves_def same_inode_disjoint[of a' a])

lemma data_step_leaves:
  assumes ok: "fmap_ok s k a" and st: "data_step s a p0 d t"
  shows "leaves s a t a"
  unfolding leaves_def
proof (intro allI impI)
  fix kb b
  assume b: "fmap_ok s kb b" "files_disjoint s a b"
  have c: "contents t (i_dev b, uint (zref s b p)) = contents s (i_dev b, uint (zref s b p))" for p
  proof -
    have "i_dev b = i_dev a \<Longrightarrow> zref s b p \<noteq> zref s a p0" using b(2) data_stepD(2)[OF st] unfolding files_disjoint_def by metis
    then show ?thesis by (auto simp: data_stepD(4)[OF st])
  qed
  have z: "zref t b p = zref s b p" for p
  proof (induction p rule: zpos_parent_induct)
    case (root p)
    then show ?case by (cases p) auto
  next
    case (child p q i)
    have "entry t (i_dev b) (zref s b q) i = entry s (i_dev b) (zref s b q) i" by (rule entry_cong) (rule c)
    with child.IH zref_parent[OF child(1)] show ?case by metis
  qed
  have "fmap_ok t kb b" using b(1) same_map_fmap[OF data_stepD(3)[OF st] z] by blast
  moreover have "files_disjoint t a b" using b(2) unfolding files_disjoint_def z data_step_zref[OF ok st] .
  moreover have "fbyte t b p = fbyte s b p" for p by (simp add: fbyte_def z c Let_def)
  ultimately show "fmap_ok t kb b \<and> files_disjoint t a b \<and> (\<forall>p. fbyte t b p = fbyte s b p)" by blast
qed

text \<open>Making a block of the file changes no byte, of this file or another.\<close>

lemma fmap_step_bytes:
  assumes ok: "fmap_ok s k ino" and st: "fmap_step k s ino t ino'"
  shows "fbyte t ino' p = fbyte s ino p" and "leaves s ino t ino'"
proof -
  note S = fmap_stepD[OF st]
  let ?p = "zpos_of (int (p div 1024))"
  show "fbyte t ino' p = fbyte s ino p"
  proof (cases "zref s ino ?p = 0")
    case False
    with S(2) S(3)[of ?p] S(10)[OF is_data_zpos False] show ?thesis by (simp add: fbyte_def)
  next
    case True
    show ?thesis
    proof (cases "zref t ino' ?p = 0")
      case False
      from S(12)[OF True this is_data_zpos] S(2) True False show ?thesis by (simp add: fbyte_def Let_def zero_block_def)
    qed (use True in \<open>simp add: fbyte_def\<close>)
  qed
  show "leaves s ino t ino'"
    unfolding leaves_def
  proof (intro allI impI)
    fix kb b
    assume b: "fmap_ok s kb b" "files_disjoint s ino b"
    have z: "zref t b p = zref s b p" for p by (rule fmap_step_other_refs[OF ok b st])
    have "fbyte t b p = fbyte s b p" for p
    proof (cases "zref s b (zpos_of (int (p div 1024))) = 0")
      case False
      let ?z = "zref s b (zpos_of (int (p div 1024)))"
      have "i_dev b = i_dev ino \<Longrightarrow> kb = k" using fmap_okD(1)[OF ok] fmap_okD(1)[OF b(1)] by simp
      then have "i_dev b \<noteq> i_dev ino \<or> zone_used (super s k) (uint ?z) \<and> (\<forall>p. zref s ino p \<noteq> ?z)"
        using b(2) False fmap_okD(4)[OF b(1) False] by (metis files_disjoint_def)
      from S(9)[OF this] show ?thesis by (simp add: fbyte_def z Let_def)
    qed (simp add: fbyte_def z)
    with fmap_step_other_file[OF ok b st]
    show "fmap_ok t kb b \<and> files_disjoint t ino' b \<and> (\<forall>p. fbyte t b p = fbyte s b p)" by blast
  qed
qed

lemma data_step_bytes:
  assumes ok: "fmap_ok s k ino" and st: "data_step s ino (zpos_of (int (pos div 1024))) (put_bytes (pos mod 1024) as d) t"
    and d: "contents s (i_dev ino, uint (zref s ino (zpos_of (int (pos div 1024))))) = Some d"
    and l: "pos mod 1024 + length as \<le> 1024"
  shows "fbyte t ino = overwrite pos as (fbyte s ino)"
proof
  fix p
  let ?pz = "zpos_of (int (pos div 1024))" and ?p = "zpos_of (int (p div 1024))"
  note z = data_step_zref[OF ok st]
  have eq: "pos = pos div 1024 * 1024 + pos mod 1024" "p = p div 1024 * 1024 + p mod 1024" by simp_all
  have m: "p mod 1024 < 1024" by simp
  show "fbyte t ino p = overwrite pos as (fbyte s ino) p"
  proof (cases "p div 1024 = pos div 1024")
    case True
    then have "pos \<le> p \<longleftrightarrow> pos mod 1024 \<le> p mod 1024" "p < pos + length as \<longleftrightarrow> p mod 1024 < pos mod 1024 + length as"
      "p - pos = p mod 1024 - pos mod 1024"
      using eq by linarith+
    with True d data_stepD(2,4)[OF st] show ?thesis
      by (simp add: fbyte_def z overwrite_def put_bytes_def Let_def)
  next
    case False
    then have "p div 1024 + 1 \<le> pos div 1024 \<or> pos div 1024 + 1 \<le> p div 1024" by linarith
    then have "\<not> (pos \<le> p \<and> p < pos + length as)" using l m eq by linarith
    moreover have "?p \<noteq> ?pz"
    proof
      assume "?p = ?pz"
      then have "int (p div 1024) = int (pos div 1024)" by (rule zpos_of_inj[rotated 2]) (simp_all only: of_nat_0_le_iff)
      with False show False by (simp only: of_nat_eq_iff)
    qed
    then have "zref s ino ?p \<noteq> 0 \<Longrightarrow> zref s ino ?p \<noteq> zref s ino ?pz" using fmap_okD(5)[OF ok, of ?p ?pz] by blast
    ultimately show ?thesis by (auto simp: fbyte_def z overwrite_def Let_def data_stepD(4)[OF st])
  qed
qed

text \<open>What writing \<open>bs\<close> at \<open>pos\<close> does when \<open>n\<close> bytes of it got through.\<close>

definition writes :: "nat \<Rightarrow> fs_state \<Rightarrow> m_inode \<Rightarrow> nat \<Rightarrow> u8 list \<Rightarrow> nat \<Rightarrow> m_inode \<Rightarrow> fs_state \<Rightarrow> bool" where
  "writes k s ino pos bs n ino' t \<longleftrightarrow>
     n \<le> length bs \<and> fmap_ok t k ino' \<and> i_dev ino' = i_dev ino \<and> kept s t \<and> leaves s ino t ino' \<and>
     fbyte t ino' = overwrite pos (take n bs) (fbyte s ino) \<and>
     unat (i_size ino') = (if n = 0 then unat (i_size ino) else max (unat (i_size ino)) (pos + n)) \<and> pos + n \<le> max pos MAX_FILE"

lemma writesD:
  assumes "writes k s ino pos bs n ino' t"
  shows "n \<le> length bs" and "fmap_ok t k ino'" and "i_dev ino' = i_dev ino" and "kept s t" and "leaves s ino t ino'"
    and "fbyte t ino' = overwrite pos (take n bs) (fbyte s ino)"
    and "unat (i_size ino') = (if n = 0 then unat (i_size ino) else max (unat (i_size ino)) (pos + n))"
    and "pos + n \<le> max pos MAX_FILE"
  using assms unfolding writes_def by blast+

lemma overwrite_Nil [simp]: "overwrite pos [] g = g"
  by (rule ext) (auto simp: overwrite_def)

lemma overwrite_append:
  "overwrite (pos + length as) bs (overwrite pos as g) = overwrite pos (as @ bs) g"
  by (rule ext) (auto simp: overwrite_def nth_append)

lemma bread_fail_unseen: "bread q s = Inr (False, t) \<Longrightarrow> unseen s t"
  using bread_grab[of q s False t] bread_view[of q s False t] by (simp add: unseen_def)

lemma create_block_bytes:
  assumes ok: "fmap_ok s k ino" and cb: "create_block ino blk s = Inr (z, ino', t)"
  shows "fmap_ok t k ino'" and "i_dev ino' = i_dev ino" and "i_size ino' = i_size ino" and "kept s t" and "leaves s ino t ino'"
    and "fbyte t ino' = fbyte s ino" and "z = uint (zref t ino' (zpos_of blk))" and "0 \<le> blk" and "blk < 7 + 512 + 512 * 512"
proof -
  note B = bmap_gen_spec[OF ok cb[unfolded create_block_def]]
  show "fmap_ok t k ino'" "i_dev ino' = i_dev ino" using fmap_stepD(1,2)[OF B(3)] by simp_all
  show "fbyte t ino' = fbyte s ino" by (rule ext) (rule fmap_step_bytes(1)[OF ok B(3)])
  show "leaves s ino t ino'" by (rule fmap_step_bytes(2)[OF ok B(3)])
  show "z = uint (zref t ino' (zpos_of blk))" "0 \<le> blk" "blk < 7 + 512 + 512 * 512" by (rule B)+
  show "kept s t" using cb unfolding create_block_def by (rule bmap_gen_kept)
  have az: "alloc_zone n slot True f = Inr (m, g) \<Longrightarrow> i_size m = i_size n" for n m f g slot
    by (auto simp: alloc_zone_def Let_def kbind_Inr_iff split: if_splits)
  show "i_size ino' = i_size ino"
    using cb by (auto simp: create_block_def bmap_gen_def Let_def kbind_Inr_iff split: if_splits dest: az)
qed

lemma size_join: "0 < c \<Longrightarrow> l = (if m = 0 then l1 else max l1 (p + c + m)) \<Longrightarrow> l1 = max l0 (p + c) \<Longrightarrow>
    l = (if c + m = 0 then l0 else max l0 (p + (c + m)))" for l :: nat
  by (auto simp: max_def)

lemma end_join: "p + c + m \<le> max (p + c) l \<Longrightarrow> p + c \<le> l \<Longrightarrow> p + (c + m) \<le> max p l" for l :: nat
  by (auto simp: max_def split: if_splits)

lemma to_block_end: "a < 1024 \<Longrightarrow> b * 1024 + a = p \<Longrightarrow> p + (1024 - a) = (b + 1) * (1024 :: nat)"
  by simp

lemma within_block: "a + c \<le> 1024 \<Longrightarrow> b * 1024 + a = p \<Longrightarrow> p + c \<le> (b + 1) * (1024 :: nat)"
  by simp

text \<open>The step on the buffer of one block.\<close>

lemma put_block_step:
  assumes br: "bread q s = Inr (True, s1)" and q: "q = (i_dev ino, uint (zref s ino p0))"
    and p0: "is_data p0" "zref s ino p0 \<noteq> 0"
    and rel: "brelse q (upd_buf q (\<lambda>b. b\<lparr>b_data := f (b_data b), b_dirt := True\<rparr>) s1) = Inr t"
  obtains d where "contents s q = Some d" and "data_step s ino p0 (f d) t" and "kept s t"
proof -
  let ?h = "\<lambda>b. b\<lparr>b_data := f (b_data b), b_dirt := True\<rparr>"
  from bread_ok[OF br] obtain b where b: "bufs s1 q = Some b" "b_uptodate b" "contents s q = Some (b_data b)"
    "super s1 = super s" "\<And>k. contents s1 k = contents s k" by metis
  have b2: "bufs (upd_buf q ?h s1) q = Some (?h b)" using b(1) by simp
  have c2: "contents (upd_buf q ?h s1) k = (if k = q then Some (f (b_data b)) else contents s1 k)" for k
    using b(1,2) by (auto simp: contents_def split: option.splits)
  have "contents t k = (if k = q then Some (f (b_data b)) else contents s k)" for k
    using brelse_ok(5)[OF rel b2] c2 b(5) by simp
  moreover have "super t = super s" using brelse_ok(2)[OF rel b2] b(4) by simp
  ultimately have "data_step s ino p0 (f (b_data b)) t" using p0 q by (simp add: data_step_def)
  moreover have "grab q s s1" using bread_grab[OF br] by simp
  then have "grab q s (upd_buf q ?h s1)" by (rule grab_kept) (rule kept_upd_buf, simp)
  then have "kept s t" using rel by (rule brelse_grab)
  ultimately show thesis using b(3) by (intro that)
qed

lemma file_write_loop_writes:
  assumes "fmap_ok s k ino" and "file_write_loop ino pos bs s = Inr (n, ino', t)"
  shows "writes k s ino pos bs n ino' t"
  using assms
proof (induction bs arbitrary: pos s ino n rule: length_induct)
  case (1 bs)
  have none: "writes k s ino pos bs 0 ino1 u"
    if "fmap_ok u k ino1" "i_dev ino1 = i_dev ino" "kept s u" "leaves s ino u ino1" "fbyte u ino1 = fbyte s ino" "i_size ino1 = i_size ino" for ino1 u
    using that by (simp add: writes_def)
  show ?case
  proof (cases "bs = []")
    case True
    with 1(3) have "n = 0" "ino' = ino" "t = s" by (subst (asm) file_write_loop.simps, simp)+
    then show ?thesis using none[of s ino] 1(2) unseen_leaves[OF unseen_refl] by (simp add: kept_def)
  next
    case ne: False
    let ?off = "pos mod 1024" and ?pz = "zpos_of (int (pos div 1024))"
    let ?c = "min (1024 - ?off) (length bs)"
    have "?c \<le> 1024 - ?off" "?off < 1024" by simp_all
    then have c: "0 < ?c" "?c \<le> length bs" "?off + ?c \<le> 1024" using ne by (simp, simp) linarith
    from 1(3) ne obtain z ino1 s1 where cb: "create_block ino (int (pos div 1024)) s = Inr (z, ino1, s1)"
      by (subst (asm) file_write_loop.simps) (auto simp: Let_def kbind_Inr_iff)
    note C = create_block_bytes[OF 1(2) cb]
    show ?thesis
    proof (cases "z = 0")
      case True
      with 1(3) ne cb have "n = 0" "ino' = ino1" "t = s1" by (subst (asm) file_write_loop.simps, simp add: Let_def)+
      then show ?thesis using none[of s1 ino1] C by simp
    next
      case nz: False
      let ?q = "(i_dev ino1, z)"
      from 1(3) ne cb nz obtain ok s2 where br: "bread ?q s1 = Inr (ok, s2)"
        by (subst (asm) file_write_loop.simps) (auto simp: Let_def kbind_Inr_iff)
      show ?thesis
      proof (cases ok)
        case False
        with br have u: "unseen s1 s2" using bread_fail_unseen by simp
        from 1(3) ne cb nz br False have "n = 0" "ino' = ino1" "t = s2" by (subst (asm) file_write_loop.simps, simp add: Let_def)+
        moreover have "writes k s ino pos bs 0 ino1 s2"
        proof (rule none)
          show "fmap_ok s2 k ino1" using C(1) unseen_fmap[OF u] by simp
          show "kept s s2" by (rule kept_trans[OF C(4) unseenD(2)[OF u]])
          show "leaves s ino s2 ino1" by (rule leaves_trans[OF C(5) unseen_leaves[OF u]])
          show "fbyte s2 ino1 = fbyte s ino" using C(6) unseen_fbyte[OF u] by (simp add: fun_eq_iff)
        qed (use C(2,3) in simp_all)
        ultimately show ?thesis by simp
      next
        case True
        let ?inode = "if pos + ?c > unat (i_size ino1) then ino1\<lparr>i_size := of_nat (pos + ?c), i_dirt := True\<rparr> else ino1"
        let ?f = "put_bytes ?off (take ?c bs)"
        from 1(3) ne cb nz br True obtain s4 m where
          rel: "brelse ?q (upd_buf ?q (\<lambda>b. b\<lparr>b_data := ?f (b_data b), b_dirt := True\<rparr>) s2) = Inr s4"
          and loop: "file_write_loop ?inode (pos + ?c) (drop ?c bs) s4 = Inr (m, ino', t)" and n: "n = ?c + m"
          by (subst (asm) file_write_loop.simps) (auto simp: Let_def kbind_Inr_iff)
        have br': "bread ?q s1 = Inr (True, s2)" using br True by simp
        have zr: "zref s1 ino1 ?pz \<noteq> 0" using C(7) nz by auto
        have q: "?q = (i_dev ino1, uint (zref s1 ino1 ?pz))" using C(7) by simp
        from put_block_step[OF br' q is_data_zpos zr rel] obtain d where
          d: "contents s1 ?q = Some d" "data_step s1 ino1 ?pz (?f d) s4" "kept s1 s4" .
        have i2: "i_zone ?inode = i_zone ino1" "i_dev ?inode = i_dev ino1" by simp_all
        have ok4: "fmap_ok s4 k ?inode" using data_step_fmap[OF C(1) d(2)] same_inode_fmap[OF i2] by simp
        have l: "length (drop ?c bs) < length bs" using c ne by simp
        have W: "writes k s4 ?inode (pos + ?c) (drop ?c bs) m ino' t" using 1(1) l ok4 loop by blast
        have lt: "length (take ?c bs) = ?c" using c(2) by simp
        then have b4: "fbyte s4 ?inode = overwrite pos (take ?c bs) (fbyte s ino)"
          using data_step_bytes[OF C(1) d(2)] d(1) q c(3) C(6) same_inode_fbyte[OF i2, of s4] by (simp add: fun_eq_iff)
        have lv: "leaves s ino s4 ?inode"
          by (rule leaves_trans[OF C(5) leaves_trans[OF data_step_leaves[OF C(1) d(2)] same_inode_leaves[OF i2]]])
        have "pos + ?c \<le> (pos div 1024 + 1) * 1024" by (rule within_block[OF c(3) div_mult_mod_eq])
        moreover have "int (pos div 1024) + 1 \<le> 7 + 512 + 512 * 512" using C(9) by simp
        then have "pos div 1024 + 1 \<le> 7 + 512 + 512 * 512" by linarith
        then have "(pos div 1024 + 1) * 1024 \<le> MAX_FILE" unfolding MAX_FILE_def by (rule mult_le_mono1)
        ultimately have mx: "pos + ?c \<le> MAX_FILE" by (rule order_trans)
        then have "unat (of_nat (pos + ?c) :: u32) = pos + ?c" by (simp add: unat_of_nat take_bit_nat_eq_self MAX_FILE_def del: of_nat_add)
        then have sz: "unat (i_size ?inode) = max (unat (i_size ino)) (pos + ?c)"
          using C(3) by (simp add: max_def del: of_nat_add)
        show ?thesis
          unfolding writes_def
        proof (intro conjI)
          show "n \<le> length bs" using writesD(1)[OF W] unfolding n length_drop le_diff_conv2[OF c(2)] by (simp only: add.commute)
          show "fmap_ok t k ino'" "i_dev ino' = i_dev ino" using writesD(2,3)[OF W] C(2) by simp_all
          show "kept s t" by (rule kept_trans[OF C(4) kept_trans[OF d(3) writesD(4)[OF W]]])
          show "leaves s ino t ino'" by (rule leaves_trans[OF lv writesD(5)[OF W]])
          have "take n bs = take ?c bs @ take m (drop ?c bs)" unfolding n by (rule take_add)
          then show "fbyte t ino' = overwrite pos (take n bs) (fbyte s ino)"
            using writesD(6)[OF W] unfolding b4 by (simp only: overwrite_append[of pos "take ?c bs" "take m (drop ?c bs)", unfolded lt])
          show "unat (i_size ino') = (if n = 0 then unat (i_size ino) else max (unat (i_size ino)) (pos + n))"
            unfolding n by (rule size_join[OF c(1) writesD(7)[OF W] sz])
          show "pos + n \<le> max pos MAX_FILE" unfolding n by (rule end_join[OF writesD(8)[OF W] mx])
        qed
      qed
    qed
  qed
qed

section \<open>The two calls\<close>

lemma file_read_reads:
  assumes "room 1 s" and "0 < cnt" and "0 \<le> f_pos f" and "f_pos f + cnt \<le> int MAX_FILE"
  shows "\<exists>bs t. file_read ino f cnt s =
      Inr (if bs \<noteq> [] then int (length bs) else - ERROR, bs, ino\<lparr>i_atime := cur_time t\<rparr>, f\<lparr>f_pos := f_pos f + int (length bs)\<rparr>, t) \<and>
    unseen s t \<and> reads s ino (nat (f_pos f)) (nat cnt) bs"
proof -
  have "nat (f_pos f) + nat cnt \<le> MAX_FILE" using assms(2-4) by linarith
  from file_read_loop_reads[OF assms(1) this, of ino] obtain bs t where
    r: "file_read_loop ino (nat (f_pos f)) (nat cnt) s = Inr (bs, nat (f_pos f) + length bs, ino, t)"
    and u: "unseen s t" "reads s ino (nat (f_pos f)) (nat cnt) bs" by blast
  from assms(2,3) r have "file_read ino f cnt s =
      Inr (if bs \<noteq> [] then int (length bs) else - ERROR, bs, ino\<lparr>i_atime := cur_time t\<rparr>, f\<lparr>f_pos := f_pos f + int (length bs)\<rparr>, t)"
    by (simp add: file_read_def)
  with u show ?thesis by blast
qed

text \<open>The position a write starts at.\<close>

definition write_pos :: "m_inode \<Rightarrow> file_entry \<Rightarrow> int" where
  "write_pos ino f = (if f_flags f AND O_APPEND \<noteq> 0 then sint (i_size ino) else f_pos f)"

lemma writes_same_inode:
  assumes "writes k s ino pos bs n a t" and "i_zone b = i_zone a" and "i_dev b = i_dev a" and "i_size b = i_size a"
  shows "writes k s ino pos bs n b t"
  using assms(1) leaves_trans[OF _ same_inode_leaves[OF assms(2,3)], of s ino t]
  by (simp add: writes_def same_inode_fmap[OF assms(2,3)] same_inode_fbyte[OF assms(2,3)] fun_eq_iff assms(3,4))

lemma file_write_writes:
  assumes "fmap_ok s k ino" and "file_write ino f bs s = Inr (r, ino', f', t)"
  obtains n where "writes k s ino (nat (write_pos ino f)) bs n ino' t" and "r = (if n = 0 then - 1 else int n)"
    and "0 \<le> write_pos ino f" and "f' = (if f_flags f AND O_APPEND \<noteq> 0 then f else f\<lparr>f_pos := f_pos f + int n\<rparr>)"
proof -
  from assms(2) have p: "0 \<le> write_pos ino f" by (auto simp: file_write_def write_pos_def Let_def split: if_splits)
  from assms(2) obtain n a where
    w: "file_write_loop ino (nat (write_pos ino f)) bs s = Inr (n, a, t)"
    and r: "r = (if n = 0 then - 1 else int n)" "i_zone ino' = i_zone a" "i_dev ino' = i_dev a" "i_size ino' = i_size a"
      "f' = (if f_flags f AND O_APPEND \<noteq> 0 then f else f\<lparr>f_pos := f_pos f + int n\<rparr>)"
    by (fastforce simp: file_write_def write_pos_def Let_def kbind_Inr_iff split: if_splits)
  from writes_same_inode[OF file_write_loop_writes[OF assms(1) w] r(2-4)] r(1,5) p show thesis by (intro that)
qed

text \<open>What was written is read back.\<close>

lemma file_write_then_read:
  assumes "fmap_ok s k ino" and "room 1 s" and "file_write ino f bs s = Inr (r, ino', f', t)" and "0 < r"
    and "write_pos ino f + r \<le> int MAX_FILE"
  shows "\<exists>ino'' f'' u. file_read ino' (f'\<lparr>f_pos := write_pos ino f\<rparr>) r t = Inr (r, take (nat r) bs, ino'', f'', u)"
proof -
  from file_write_writes[OF assms(1,3)] obtain n where W: "writes k s ino (nat (write_pos ino f)) bs n ino' t"
    and r: "r = (if n = 0 then - 1 else int n)" and p: "0 \<le> write_pos ino f" by metis
  from assms(4) r have n: "r = int n" "0 < n" by (auto split: if_splits)
  have "room 1 t" using assms(2) kept_room[OF writesD(4)[OF W]] by simp
  from file_read_reads[OF this, of r "f'\<lparr>f_pos := write_pos ino f\<rparr>" ino'] assms(4,5) p obtain as u where
    R: "file_read ino' (f'\<lparr>f_pos := write_pos ino f\<rparr>) r t =
      Inr (if as \<noteq> [] then int (length as) else - ERROR, as, ino'\<lparr>i_atime := cur_time u\<rparr>,
        f'\<lparr>f_pos := write_pos ino f + int (length as)\<rparr>, u)"
    and rd: "reads t ino' (nat (write_pos ino f)) (nat r) as" by auto
  have b: "fbyte t ino' (nat (write_pos ino f) + i) = Some (bs ! i)" if "i < n" for i
    using that writesD(1,6)[OF W] by (simp add: overwrite_def)
  have l: "length as = n"
  proof (rule ccontr)
    assume "length as \<noteq> n"
    with rd n have "length as < n" "fbyte t ino' (nat (write_pos ino f) + length as) = None" by (auto simp: reads_def)
    with b show False by simp
  qed
  have "as = take n bs"
  proof (rule nth_equalityI)
    show "length as = length (take n bs)" using l writesD(1)[OF W] by simp
    show "as ! i = take n bs ! i" if "i < length as" for i
      using rd b[of i] that l by (auto simp: reads_def)
  qed
  with R n l show ?thesis by auto
qed

section \<open>Block devices\<close>

lemma read_ahead_unseen: "unseen s (read_ahead q s)"
proof -
  have "contents (read_ahead q s) k = contents (getblk q s) k" for k
    by (auto simp: read_ahead_def contents_def split: option.splits)
  moreover have "held (read_ahead q s) x = held s x" for x
  proof -
    have "held (getblk q s) x = held s x + (if x = q then 1 else 0)" by (simp add: held_getblk)
    moreover have "held (read_ahead q s) x = held (getblk q s) x - (if x = q then 1 else 0)"
      using getblk_grab[of q s] by (auto simp: read_ahead_def held_def grab_def split: option.splits)
    ultimately show ?thesis by simp
  qed
  ultimately show ?thesis using getblk_grab[of q s] by (auto simp: unseen_def kept_def read_ahead_def grab_def)
qed

lemma read_ahead_holding: "holding s q t \<Longrightarrow> holding s q (read_ahead x t)"
proof -
  assume h: "holding s q t"
  have u: "unseen t (read_ahead x t)" by (rule read_ahead_unseen)
  obtain b where b: "bufs t q = Some b" "contents s q = Some (b_data b)" using holdingD(4)[OF h] by blast
  have "\<exists>c. bufs (read_ahead x t) q = Some c \<and> b_data c = b_data b"
    using b(1) by (auto simp: read_ahead_def getblk_def split: option.splits)
  then show ?thesis
    using b(2) grab_kept[OF holdingD(1)[OF h] unseenD(2)[OF u]] holdingD(2,3)[OF h] unseenD(1,3)[OF u]
    unfolding holding_def by auto
qed

lemma breada_holding:
  assumes "contents s (dev, blk) \<noteq> None"
  obtains t where "breada dev blk rest s = Inr (True, t)" and "holding s (dev, blk) t"
proof -
  from bread_holding[OF unseen_refl assms] obtain u where u: "bread (dev, blk) s = Inr (True, u)" "holding s (dev, blk) u" .
  have "holding s (dev, blk) (foldl (\<lambda>s b. read_ahead (dev, b) s) u rest)" if "holding s (dev, blk) u" for u
    using that
  proof (induction rest arbitrary: u)
    case (Cons b rest)
    from Cons.IH[OF read_ahead_holding[OF Cons.prems]] show ?case by simp
  qed simp
  with u show thesis by (intro that[of "foldl (\<lambda>s b. read_ahead (dev, b) s) u rest"]) (auto simp: breada_def)
qed

lemma breada_unreadable:
  assumes "contents s (dev, blk) = None" and "room 1 s"
  obtains t where "breada dev blk rest s = Inr (False, t)" and "unseen s t"
proof -
  from bread_unreadable[OF assms] obtain u where u: "bread (dev, blk) s = Inr (False, u)" "unseen s u" .
  have "unseen s (foldl (\<lambda>s b. read_ahead (dev, b) s) u rest)" if "unseen s u" for u
    using that
  proof (induction rest arbitrary: u)
    case (Cons b rest)
    from Cons.IH[OF unseen_trans[OF Cons.prems read_ahead_unseen]] show ?case by simp
  qed simp
  with u show thesis by (intro that[of "foldl (\<lambda>s b. read_ahead (dev, b) s) u rest"]) (auto simp: breada_def)
qed

text \<open>The bytes of a device.\<close>

definition dbyte :: "fs_state \<Rightarrow> u16 \<Rightarrow> nat \<Rightarrow> u8 option" where
  "dbyte s dev p = map_option (\<lambda>d. d (p mod 1024)) (contents s (dev, int (p div 1024)))"

text \<open>\<open>block_read\<close> returns them, up to the end of the device or the first block that cannot be read.\<close>

definition dreads :: "(u16 \<Rightarrow> int option) \<Rightarrow> fs_state \<Rightarrow> u16 \<Rightarrow> nat \<Rightarrow> nat \<Rightarrow> u8 list \<Rightarrow> bool" where
  "dreads bsz s dev pos cnt bs \<longleftrightarrow>
     length bs \<le> cnt \<and> (\<forall>i<length bs. dbyte s dev (pos + i) = Some (bs ! i)) \<and>
     (length bs < cnt \<longrightarrow> dbyte s dev (pos + length bs) = None \<or> int ((pos + length bs) div 1024) \<ge> dev_size bsz dev)"

lemma dreads_append:
  assumes "length as = c" and "c \<le> cnt" and "\<And>i. i < c \<Longrightarrow> dbyte s dev (pos + i) = Some (as ! i)"
    and "dreads bsz s dev (pos + c) (cnt - c) bs"
  shows "dreads bsz s dev pos cnt (as @ bs)"
  unfolding dreads_def
proof (intro conjI allI impI)
  show "length (as @ bs) \<le> cnt" using assms(1,2,4) unfolding dreads_def by auto
  show "dbyte s dev (pos + i) = Some ((as @ bs) ! i)" if "i < length (as @ bs)" for i
  proof (cases "i < c")
    case False
    then have "i - c < length bs" using assms(1) that by auto
    then have "dbyte s dev (pos + c + (i - c)) = Some (bs ! (i - c))" using assms(4) unfolding dreads_def by blast
    with False assms(1) show ?thesis by (simp add: nth_append)
  qed (use assms(1,3) in \<open>simp add: nth_append\<close>)
  show "dbyte s dev (pos + length (as @ bs)) = None \<or> int ((pos + length (as @ bs)) div 1024) \<ge> dev_size bsz dev"
    if "length (as @ bs) < cnt"
    using assms(1,4) that by (simp add: dreads_def add.assoc)
qed

lemma unseen_dbyte: "unseen s t \<Longrightarrow> dbyte t dev p = dbyte s dev p"
  by (simp add: dbyte_def unseenD(1))

lemma block_read_loop_dreads:
  assumes "room 1 s"
  shows "\<exists>bs ok t. block_read_loop bsz dev (pos div 1024) (pos mod 1024) cnt s = Inr (bs, ok, t) \<and> unseen s t \<and>
    dreads bsz s dev pos cnt bs \<and> ok = (length bs = cnt)"
  using assms
proof (induction cnt arbitrary: pos s rule: less_induct)
  case (less cnt)
  let ?off = "pos mod 1024" and ?blk = "pos div 1024" and ?q = "(dev, int (pos div 1024))"
  let ?c = "min (1024 - ?off) cnt"
  show ?case
  proof (cases "cnt = 0 \<or> int ?blk \<ge> dev_size bsz dev")
    case True
    then show ?thesis by (subst block_read_loop.simps) (auto simp: dreads_def)
  next
    case False
    have c: "0 < ?c" "?c \<le> cnt" using False by simp_all
    have dm: "(pos + i) div 1024 = ?blk" "(pos + i) mod 1024 = ?off + i" if "i < ?c" for i
      by (rule chunk_pos; use that in simp)+
    show ?thesis
    proof (cases "contents s ?q = None")
      case True
      from breada_unreadable[OF this less.prems] obtain t where
        "breada dev (int ?blk) [int ?blk + 1, int ?blk + 2] s = Inr (False, t)" "unseen s t" by metis
      with False c True show ?thesis by (subst block_read_loop.simps) (auto simp: dreads_def dbyte_def Let_def)
    next
      case readable: False
      then obtain t where t: "breada dev (int ?blk) [int ?blk + 1, int ?blk + 2] s = Inr (True, t)" "holding s ?q t"
        by (rule breada_holding)
      from holdingD(4)[OF t(2)] obtain b where b: "bufs t ?q = Some b" "contents s ?q = Some (b_data b)" by blast
      from brelse_holding[OF t(2) less.prems] obtain u where u: "brelse ?q t = Inr u" "unseen s u" .
      have r: "room 1 u" using less.prems unseen_room[OF u(2)] by simp
      have "\<exists>bs ok v. block_read_loop bsz dev (?blk + 1) 0 (cnt - ?c) u = Inr (bs, ok, v) \<and> unseen u v \<and>
        dreads bsz s dev (pos + ?c) (cnt - ?c) bs \<and> ok = (length bs = cnt - ?c)"
      proof (cases "cnt - ?c = 0")
        case True
        then show ?thesis by (subst block_read_loop.simps) (auto simp: dreads_def)
      next
        case False
        then have e: "?c = 1024 - ?off" by simp
        have "pos + ?c = (?blk + 1) * 1024" unfolding e by (rule to_block_end[OF _ div_mult_mod_eq]) simp
        then have dm1: "(pos + ?c) div 1024 = ?blk + 1" "(pos + ?c) mod 1024 = 0" by simp_all
        have dr: "dreads bsz u dev (pos + ?c) (cnt - ?c) bs = dreads bsz s dev (pos + ?c) (cnt - ?c) bs" for bs
          by (simp only: dreads_def unseen_dbyte[OF u(2)])
        have "cnt - ?c < cnt" using c by linarith
        from less.IH[OF this r, of "pos + ?c"] show ?thesis unfolding dm1 dr .
      qed
      then obtain bs ok v where v: "block_read_loop bsz dev (?blk + 1) 0 (cnt - ?c) u = Inr (bs, ok, v)" "unseen u v"
        "dreads bsz s dev (pos + ?c) (cnt - ?c) bs" "ok = (length bs = cnt - ?c)" by blast
      let ?as = "map (b_data b) [?off..<?off + ?c]"
      have "dreads bsz s dev pos cnt (?as @ bs)"
        by (rule dreads_append[OF _ c(2) _ v(3)]) (simp_all add: dbyte_def dm b(2))
      moreover have "block_read_loop bsz dev ?blk ?off cnt s = Inr (?as @ bs, ok, v)"
        using False c t(1) b(1) u(1) v(1) by (subst block_read_loop.simps) (simp add: Let_def)
      moreover have "ok = (length (?as @ bs) = cnt)" using v(4) c(2) by auto
      ultimately show ?thesis using unseen_trans[OF u(2) v(2)] by blast
    qed
  qed
qed

text \<open>
  A whole block that is not up to date in the cache is taken with \<open>getblk\<close> and filled, but never marked up to date: what the
  cache shows is still the old block, and the next reader gets it from the disk over the data just written.
\<close>

lemma block_write_whole_lost:
  assumes "\<forall>b. bufs s (dev, int blk) = Some b \<longrightarrow> \<not> b_uptodate b" and "room 1 s" and "length bs = 1024" and "int blk < dev_size bsz dev"
  shows "\<exists>t. block_write bsz dev (int (blk * 1024)) bs s = Inr (1024, int (blk * 1024) + 1024, t) \<and> (\<forall>p. dbyte t dev p = dbyte s dev p)"
proof -
  let ?q = "(dev, int blk)" and ?h = "\<lambda>b. b\<lparr>b_data := put_bytes 0 bs (b_data b), b_dirt := True\<rparr>"
  obtain b where b: "bufs (getblk ?q s) ?q = Some b" using getblk_grab[of ?q s] by (auto simp: grab_def)
  have nu: "\<not> b_uptodate b" using b assms(1) by (auto simp: getblk_def fresh_buf_def split: option.splits)
  have gr: "grab ?q s (upd_buf ?q ?h (getblk ?q s))" by (rule grab_kept[OF getblk_grab kept_upd_buf]) simp
  from brelse_total[OF gr assms(2)] obtain t where t: "brelse ?q (upd_buf ?q ?h (getblk ?q s)) = Inr t" .
  have "contents (upd_buf ?q ?h (getblk ?q s)) k = contents (getblk ?q s) k" for k
    using b nu by (auto simp: contents_def split: option.splits)
  then have c: "contents t k = contents s k" for k using brelse_contents[OF t] by simp
  have "bs \<noteq> []" using assms(3) by auto
  then have "block_write_loop bsz dev blk 0 bs s = Inr (1024, True, t)"
    using assms(3,4) t by (subst block_write_loop.simps, subst block_write_loop.simps) (simp add: Let_def)
  moreover have "nat (int (blk * 1024)) div 1024 = blk" "nat (int (blk * 1024)) mod 1024 = 0" by (simp_all only: nat_int) simp_all
  ultimately have "block_write bsz dev (int (blk * 1024)) bs s = Inr (1024, int (blk * 1024) + 1024, t)"
    unfolding block_write_def by simp
  then show ?thesis using c by (auto simp: dbyte_def)
qed

end
