(* ===== verification/TtyIoctl.thy ===== *)
theory TtyIoctl
  imports ConsoleOk Sys
begin

text \<open>
  The modes of terminals (\<open>kernel/chr_drv/tty_ioctl.c\<close>), the set-up of their table (\<open>tty_init\<close> of \<open>tty_io.c\<close>) and of
  the serial ports (\<open>serial.c\<close>). What \<open>tty_ioctl\<close> reads at its argument is given to it, what it stores there is returned.
\<close>

section \<open>Data\<close>

record termio =
  tc_iflag :: u16
  tc_oflag :: u16
  tc_cflag :: u16
  tc_lflag :: u16
  tc_line :: u8
  tc_cc :: "nat \<Rightarrow> u8"

definition NCC :: nat where "NCC = 8"
definition NCCS :: nat where "NCCS = 17"
definition ENOTTY :: int where "ENOTTY = 25"

record user_mem =
  um_termios :: termios
  um_termio :: termio
  um_long :: u32

datatype user_store = Nothing_stored | Store_termios termios | Store_termio termio | Store_long u32

definition quotient :: "nat \<Rightarrow> u16" where
  "quotient n = [0, 2304, 1536, 1047, 857, 768, 576, 384, 192, 96, 64, 48, 24, 12, 6, 3] ! n"

section \<open>Getting and setting the mode\<close>

text \<open>
  A terminal without queues has null pointers for them: an operation that goes through one is \<open>NullDeref\<close>.
\<close>

definition change_speed :: "nat \<Rightarrow> con_state \<Rightarrow> con_state kres" where
  "change_speed i s =
     (let t = tty_table s i; port = (ucast (q_data (read_q t)) :: u16);
          quot = quotient (unat (c_cflag (termios t) AND 15))
      in if \<not> tt_queues t then Inl NullDeref
         else if port = 0 then Inr s
         else Inr (outb 3 (port + 3) (outb (ucast (drop_bit 8 quot)) (port + 1) (outb (ucast quot AND 0xFF) port (outb 0x80 (port + 3) s)))))"

definition flush_queue :: "tty_queue \<Rightarrow> tty_queue" where
  "flush_queue q = q\<lparr>q_head := q_tail q\<rparr>"

definition get_termio :: "tty_struct \<Rightarrow> termio" where
  "get_termio t =
     (let m = termios t
      in \<lparr>tc_iflag = ucast (c_iflag m), tc_oflag = ucast (c_oflag m), tc_cflag = ucast (c_cflag m), tc_lflag = ucast (c_lflag m),
          tc_line = c_line m, tc_cc = (\<lambda>n. if n < NCC then c_cc m n else 0)\<rparr>)"

text \<open>A store through a pointer to a short changes the lower half.\<close>

definition low_half :: "u16 \<Rightarrow> u32 \<Rightarrow> u32" where
  "low_half v w = (w AND 0xFFFF0000) OR ucast v"

definition put_termio :: "termio \<Rightarrow> termios \<Rightarrow> termios" where
  "put_termio a m =
     m\<lparr>c_iflag := low_half (tc_iflag a) (c_iflag m), c_oflag := low_half (tc_oflag a) (c_oflag m),
       c_cflag := low_half (tc_cflag a) (c_cflag m), c_lflag := low_half (tc_lflag a) (c_lflag m),
       c_line := tc_line a, c_cc := (\<lambda>n. if n < NCC then tc_cc a n else c_cc m n)\<rparr>"

text \<open>A background process that changes its terminal is stopped first; \<open>f\<close> is the change.\<close>

definition set_mode :: "(termios \<Rightarrow> termios) \<Rightarrow> nat \<Rightarrow> int \<Rightarrow> con_state \<Rightarrow> (int \<times> con_state) kres" where
  "set_mode f i channel s =
     (let me = cur (ts_kern s);
          change = (\<lambda>s. kbind (change_speed i (upd_tty i (\<lambda>t. t\<lparr>termios := f (termios t)\<rparr>) s)) (\<lambda>s1. Inr (0, s1)))
      in if t_tty me = channel \<and> tt_pgrp (tty_table s i) \<noteq> pgrp me
         then kbind (tty_signal SIGTTOU s)
                (\<lambda>(r, s1). if r = - ERESTARTSYS \<or> r = - EINTR then Inr (r, s1) else change s1)
         else change s)"

definition set_termios :: "termios \<Rightarrow> nat \<Rightarrow> int \<Rightarrow> con_state \<Rightarrow> (int \<times> con_state) kres" where
  "set_termios a = set_mode (\<lambda>_. a)"

definition set_termio :: "termio \<Rightarrow> nat \<Rightarrow> int \<Rightarrow> con_state \<Rightarrow> (int \<times> con_state) kres" where
  "set_termio a = set_mode (put_termio a)"

section \<open>The call\<close>

definition through_queue :: "nat \<Rightarrow> con_state \<Rightarrow> 'a \<Rightarrow> 'a kres" where
  "through_queue i s x = (if tt_queues (tty_table s i) then Inr x else Inl NullDeref)"

definition flush_read :: "nat \<Rightarrow> con_state \<Rightarrow> con_state kres" where
  "flush_read i s = through_queue i s (upd_tty i (\<lambda>t. t\<lparr>read_q := flush_queue (read_q t)\<rparr>) s)"

definition flush_write :: "nat \<Rightarrow> con_state \<Rightarrow> con_state kres" where
  "flush_write i s = through_queue i s (upd_tty i (\<lambda>t. t\<lparr>write_q := flush_queue (write_q t)\<rparr>) s)"

definition flow_control :: "con_state writer \<Rightarrow> nat \<Rightarrow> u32 \<Rightarrow> con_state \<Rightarrow> (int \<times> con_state) kres" where
  "flow_control wr i arg s =
     (let cc = \<lambda>n. c_cc (termios (tty_table s i)) n;
          send = (\<lambda>n. if cc n \<noteq> 0 then through_queue i s (0, put_write i (uint (cc n)) s) else Inr (0, s))
      in if arg = 0 then kbind (wr i (upd_tty i (\<lambda>t. t\<lparr>tt_stopped := True\<rparr>) s)) (\<lambda>s1. Inr (0, s1))
         else if arg = 1 then kbind (wr i (upd_tty i (\<lambda>t. t\<lparr>tt_stopped := False\<rparr>) s)) (\<lambda>s1. Inr (0, s1))
         else if arg = 2 then send VSTOP
         else if arg = 3 then send VSTART
         else Inr (- EINVAL, s))"

definition set_pgrp :: "nat \<Rightarrow> int \<Rightarrow> u32 \<Rightarrow> con_state \<Rightarrow> int \<times> con_state" where
  "set_pgrp i dev g s =
     (let me = cur (ts_kern s)
      in if t_tty me < 0 \<or> t_tty me \<noteq> dev \<or> tt_session (tty_table s i) \<noteq> session me then (- ENOTTY, s)
         else if sint g < 0 then (- EINVAL, s)
         else if session_of_pgrp (sint g) (ts_kern s) \<noteq> session me then (- EPERM, s)
         else (0, upd_tty i (\<lambda>t. t\<lparr>tt_pgrp := sint g\<rparr>) s))"

definition tty_ioctl :: "con_state writer \<Rightarrow> u16 \<Rightarrow> u32 \<Rightarrow> u32 \<Rightarrow> user_mem \<Rightarrow> con_state \<Rightarrow> (int \<times> user_store \<times> con_state) kres" where
  "tty_ioctl wr device cmd arg u s =
     (let dev = (if device div 256 = 5 then t_tty (cur (ts_kern s)) else uint (device AND 0xFF));
          i = tty_index (nat dev) s; t = tty_table s i;
          done = (\<lambda>(r, s). Inr (r, Nothing_stored, s))
      in if dev < 0 then Inl (Panic ''tty_ioctl: dev<0'')
         else if cmd = 0x5401 then Inr (0, Store_termios (termios t), s)
         else if cmd = 0x5404 then kbind (flush_read i s) (\<lambda>s1. kbind (set_termios (um_termios u) i dev s1) done)
         else if cmd = 0x5403 \<or> cmd = 0x5402 then kbind (set_termios (um_termios u) i dev s) done
         else if cmd = 0x5405 then Inr (0, Store_termio (get_termio t), s)
         else if cmd = 0x5408 then kbind (flush_read i s) (\<lambda>s1. kbind (set_termio (um_termio u) i dev s1) done)
         else if cmd = 0x5407 \<or> cmd = 0x5406 then kbind (set_termio (um_termio u) i dev s) done
         else if cmd = 0x5409 then Inr (0, Nothing_stored, s)
         else if cmd = 0x540A then kbind (flow_control wr i arg s) done
         else if cmd = 0x540B then
           (if arg = 0 then kbind (flush_read i s) (\<lambda>s1. done (0, s1))
            else if arg = 1 then kbind (flush_write i s) (\<lambda>s1. done (0, s1))
            else if arg = 2 then kbind (flush_read i s) (\<lambda>s1. kbind (flush_write i s1) (\<lambda>s2. done (0, s2)))
            else done (- EINVAL, s))
         else if cmd = 0x540F then Inr (0, Store_long (word_of_int (tt_pgrp t)), s)
         else if cmd = 0x5410 then done (set_pgrp i dev (um_long u) s)
         else if cmd = 0x5411 then through_queue i s (0, Store_long (CHARS (write_q t)), s)
         else if cmd = 0x541B then through_queue i s (0, Store_long (CHARS (secondary t)), s)
         else done (- EINVAL, s))"

section \<open>Setting up\<close>

definition empty_queue :: "u32 \<Rightarrow> tty_queue" where
  "empty_queue d = \<lparr>q_data = d, q_head = 0, q_tail = 0, q_buf = (\<lambda>_. 0)\<rparr>"

text \<open>A terminal with empty queues; \<open>port\<close> is what the first two hold in \<open>data\<close>.\<close>

definition new_tty :: "termios \<Rightarrow> tty_driver \<Rightarrow> u32 \<Rightarrow> tty_struct" where
  "new_tty m d port =
     \<lparr>termios = m, tt_pgrp = 0, tt_session = 0, tt_stopped = False, tt_write = d, tt_queues = d \<noteq> NoDriver,
      read_q = empty_queue port, write_q = empty_queue port, secondary = empty_queue 0\<rparr>"

definition plain_mode :: "u32 \<Rightarrow> u32 \<Rightarrow> termios" where
  "plain_mode c l = \<lparr>c_iflag = 0, c_oflag = 0, c_cflag = c, c_lflag = l, c_line = 0, c_cc = INIT_C_CC\<rparr>"

definition NR_SERIALS :: nat where "NR_SERIALS = 2"
definition NR_PTYS :: nat where "NR_PTYS = 4"

text \<open>\<open>B2400 | CS8\<close>, and \<open>B9600 | CS8\<close> for pairs, whose slaves have \<open>IXON | ISIG | ICANON\<close> in their local flags.\<close>

definition initial_tty :: "nat \<Rightarrow> nat \<Rightarrow> tty_struct" where
  "initial_tty consoles i =
     (if i < consoles then new_tty DEF_TERMIOS ConWrite 0
      else if i = 64 then new_tty (plain_mode 0x3B 0) RsWrite 0x3F8
      else if i = 65 then new_tty (plain_mode 0x3B 0) RsWrite 0x2F8
      else if 128 \<le> i \<and> i < 128 + NR_PTYS then new_tty (plain_mode 0x3D 0) MptyWrite 0
      else if 192 \<le> i \<and> i < 192 + NR_PTYS then new_tty (plain_mode 0x3D 0x403) SptyWrite 0
      else new_tty (plain_mode 0 0) NoDriver 0)"

text \<open>\<open>init\<close> and \<open>rs_init\<close> of \<open>serial.c\<close>\<close>

definition init_port :: "u16 \<Rightarrow> con_state \<Rightarrow> con_state" where
  "init_port port s =
     outb 0x0D (port + 1) (outb 0x0B (port + 4) (outb 3 (port + 3) (outb 0 (port + 1) (outb 0x30 port (outb 0x80 (port + 3) s)))))"

definition rs_init :: "con_state \<Rightarrow> con_state" where
  "rs_init s =
     outb 0xE7 0x21 (init_port (ucast (q_data (read_q (tty_table s 65)))) (init_port (ucast (q_data (read_q (tty_table s 64)))) s))"

definition tty_init :: "boot_screen \<Rightarrow> con_state \<Rightarrow> con_state" where
  "tty_init b s =
     (let s1 = con_init b (s\<lparr>tty_table := (\<lambda>i. if i < 256 then new_tty (plain_mode 0 0) NoDriver 0 else tty_table s i)\<rparr>);
          n = unat (NR_CONSOLES s1)
      in rs_init (s1\<lparr>tty_table := (\<lambda>i. if i < 256 then initial_tty n i else tty_table s1 i)\<rparr>))"

section \<open>The table of terminals\<close>

text \<open>
  What the rest of the kernel relies on: a terminal that has queues has the driver of its range of numbers, one without is
  never written to, and the queues are within their buffers.
\<close>

definition right_driver :: "nat \<Rightarrow> tty_driver \<Rightarrow> bool" where
  "right_driver i d \<longleftrightarrow> (case d of NoDriver \<Rightarrow> False | ConWrite \<Rightarrow> i < MAX_CONSOLES | RsWrite \<Rightarrow> i div 64 = 1
     | MptyWrite \<Rightarrow> i div 64 = 2 | SptyWrite \<Rightarrow> i div 64 = 3)"

definition tty_ok :: "nat \<Rightarrow> tty_struct \<Rightarrow> bool" where
  "tty_ok i t \<longleftrightarrow> (tt_queues t \<longrightarrow> right_driver i (tt_write t)) \<and> queues_ok t"

definition ttys_ok :: "con_state \<Rightarrow> bool" where
  "ttys_ok s \<longleftrightarrow> (\<forall>i<256. tty_ok i (tty_table s i))"

lemma ttys_ok_upd: "ttys_ok s \<Longrightarrow> (\<And>t. tty_ok i t \<Longrightarrow> tty_ok i (f t)) \<Longrightarrow> ttys_ok (upd_tty i f s)"
  by (auto simp: ttys_ok_def upd_tty_def)

lemma ttys_ok_same: "tty_table t = tty_table s \<Longrightarrow> ttys_ok t = ttys_ok s"
  by (simp add: ttys_ok_def)

lemma q_ok_flush: "q_ok q \<Longrightarrow> q_ok (flush_queue q)"
  by (simp add: q_ok_def flush_queue_def)

lemma tty_table_outb [simp]: "tty_table (outb v p s) = tty_table s"
  by (simp add: outb_def)

lemma tty_table_init_port [simp]: "tty_table (init_port p s) = tty_table s"
  by (simp add: init_port_def)

lemma tty_table_change_speed: "change_speed i s = Inr s' \<Longrightarrow> tty_table s' = tty_table s"
  by (auto simp: change_speed_def Let_def split: if_splits)

lemma empty_queue_ok [simp]: "q_ok (empty_queue d)"
  by (simp add: q_ok_def empty_queue_def)

lemma initial_tty_ok: "n \<le> MAX_CONSOLES \<Longrightarrow> i < 256 \<Longrightarrow> tty_ok i (initial_tty n i)"
  by (auto simp: tty_ok_def initial_tty_def new_tty_def queues_ok_def right_driver_def NR_PTYS_def MAX_CONSOLES_def)

lemma tty_init_ok:
  assumes "boot_ok b" and "vc_npar (vc_cons s 0) < 16"
  shows "ttys_ok (tty_init b s)"
proof -
  let ?s = "s\<lparr>tty_table := (\<lambda>i. if i < 256 then new_tty (plain_mode 0 0) NoDriver 0 else tty_table s i)\<rparr>"
  have "unat (NR_CONSOLES (con_init b ?s)) \<le> 8" using con_init_windows(2)[OF assms(1) _ HOL.refl, of ?s] assms(2) by simp
  then show ?thesis by (simp add: ttys_ok_def tty_init_def Let_def rs_init_def initial_tty_ok MAX_CONSOLES_def)
qed

lemma set_mode_ok:
  assumes "ttys_ok s" and "set_mode f i ch s = Inr (r, s')"
  shows "ttys_ok s'"
proof -
  have c: "ttys_ok v" if "ttys_ok u" and "change_speed i (upd_tty i (\<lambda>t. t\<lparr>termios := f (termios t)\<rparr>) u) = Inr v" for u v
    using ttys_ok_upd[OF that(1), of i "\<lambda>t. t\<lparr>termios := f (termios t)\<rparr>"] ttys_ok_same[OF tty_table_change_speed[OF that(2)]]
    by (simp add: tty_ok_def queues_ok_def)
  have sg: "ttys_ok s1" if "tty_signal SIGTTOU s = Inr (r1, s1)" for r1 s1
  proof -
    have "tty_table s1 = tty_table s"
      using that by (auto simp: tty_signal_def Let_def kbind_Inr_iff signal_group_def split: if_splits)
    then show ?thesis using assms(1) ttys_ok_same by blast
  qed
  show ?thesis using assms c sg unfolding set_mode_def Let_def by (auto simp: kbind_Inr_iff split: if_splits)
qed

text \<open>A request whose every return leaves the table well formed.\<close>

definition returns_ok :: "(int \<times> user_store \<times> con_state) kres \<Rightarrow> bool" where
  "returns_ok x \<longleftrightarrow> (\<forall>r st s. x = Inr (r, st, s) \<longrightarrow> ttys_ok s)"

lemma returns_ok_simps [simp]:
  "returns_ok (Inl e)" "returns_ok (Inr (r, st, s)) = ttys_ok s"
  by (auto simp: returns_ok_def)

lemma returns_ok_if: "returns_ok x \<Longrightarrow> returns_ok y \<Longrightarrow> returns_ok (if b then x else y)"
  by simp

lemma returns_ok_bind: "(\<And>y. x = Inr y \<Longrightarrow> returns_ok (f y)) \<Longrightarrow> returns_ok (kbind x f)"
  by (auto simp: returns_ok_def kbind_Inr_iff)

lemma returns_ok_done: "(\<And>r s1. x = Inr (r, s1) \<Longrightarrow> ttys_ok s1) \<Longrightarrow> returns_ok (kbind x (\<lambda>(r, s). Inr (r, Nothing_stored, s)))"
  by (rule returns_ok_bind) auto

text \<open>Every request keeps the table, when the drivers do.\<close>

lemma tty_ioctl_ok:
  assumes "ttys_ok s" and wr: "\<And>s s'. ttys_ok s \<Longrightarrow> wr (tty_index (nat dev) s) s = Inr s' \<Longrightarrow> ttys_ok s'"
    and d: "dev = (if device div 256 = 5 then t_tty (cur (ts_kern s)) else uint (device AND 0xFF))"
    and c: "tty_ioctl wr device cmd arg u s = Inr (r, st, s')"
  shows "ttys_ok s'"
proof -
  let ?i = "tty_index (nat dev) s"
  have rd: "ttys_ok y" if "ttys_ok x" "flush_read ?i x = Inr y" for x y
    using that ttys_ok_upd[OF that(1), of ?i "\<lambda>t. t\<lparr>read_q := flush_queue (read_q t)\<rparr>"]
    by (auto simp: flush_read_def through_queue_def tty_ok_def queues_ok_def q_ok_flush split: if_splits)
  have wt: "ttys_ok y" if "ttys_ok x" "flush_write ?i x = Inr y" for x y
    using that ttys_ok_upd[OF that(1), of ?i "\<lambda>t. t\<lparr>write_q := flush_queue (write_q t)\<rparr>"]
    by (auto simp: flush_write_def through_queue_def tty_ok_def queues_ok_def q_ok_flush split: if_splits)
  have stop: "ttys_ok (upd_tty ?i (\<lambda>t. t\<lparr>tt_stopped := b\<rparr>) s)" for b by (rule ttys_ok_upd[OF assms(1)]) (simp add: tty_ok_def queues_ok_def)
  have same: "tty_index (nat dev) (upd_tty ?i f s) = ?i" for f by (simp add: tty_index_def upd_tty_def)
  have wr': "ttys_ok s1" if "wr ?i (upd_tty ?i (\<lambda>t. t\<lparr>tt_stopped := b\<rparr>) s) = Inr s1" for b s1
    using wr[OF stop, of b] that unfolding same by blast
  have put: "ttys_ok (put_write ?i b s)" for b unfolding put_write_def
    by (rule ttys_ok_upd[OF assms(1)]) (simp add: tty_ok_def queues_ok_def q_ok_PUTCH)
  have fl: "ttys_ok s1" if "flow_control wr ?i arg s = Inr (r1, s1)" for r1 s1
    using that assms(1) put wr' unfolding flow_control_def Let_def through_queue_def by (auto simp: kbind_Inr_iff split: if_splits)
  have pg: "ttys_ok s1" if "set_pgrp ?i dev g s = (r1, s1)" for g r1 s1
    using that assms(1) ttys_ok_upd[OF assms(1), of ?i "\<lambda>t. t\<lparr>tt_pgrp := sint g\<rparr>"]
    by (auto simp: set_pgrp_def Let_def tty_ok_def queues_ok_def split: if_splits)
  have m: "ttys_ok s1" if "set_termios a ?i dev x = Inr (r1, s1)" "ttys_ok x" for a x r1 s1
    using set_mode_ok[OF that(2) that(1)[unfolded set_termios_def]] .
  have m': "ttys_ok s1" if "set_termio a ?i dev x = Inr (r1, s1)" "ttys_ok x" for a x r1 s1
    using set_mode_ok[OF that(2) that(1)[unfolded set_termio_def]] .
  have k1: "returns_ok (kbind (flush_read ?i s) (\<lambda>s1. kbind (set_termios a ?i dev s1) (\<lambda>(r, s). Inr (r, Nothing_stored, s))))"
    "returns_ok (kbind (flush_read ?i s) (\<lambda>s1. kbind (set_termio b ?i dev s1) (\<lambda>(r, s). Inr (r, Nothing_stored, s))))" for a b
    by (rule returns_ok_bind, rule returns_ok_done, erule m m', erule rd[OF assms(1)])+
  have k1': "returns_ok (kbind (flush_read ?i s) (\<lambda>s1. kbind (flush_write ?i s1) (\<lambda>s2. Inr (0, Nothing_stored, s2))))"
    "returns_ok (kbind (flush_read ?i s) (\<lambda>s1. Inr (0, Nothing_stored, s1)))"
    "returns_ok (kbind (flush_write ?i s) (\<lambda>s1. Inr (0, Nothing_stored, s1)))"
    using assms(1) wt by (auto intro!: returns_ok_bind dest: rd)
  have k2: "returns_ok (kbind (set_termios a ?i dev s) (\<lambda>(r, s). Inr (r, Nothing_stored, s)))"
    "returns_ok (kbind (set_termio b ?i dev s) (\<lambda>(r, s). Inr (r, Nothing_stored, s)))"
    "returns_ok (kbind (flow_control wr ?i arg s) (\<lambda>(r, s). Inr (r, Nothing_stored, s)))" for a b
    by (rule returns_ok_done, erule m m' fl, (rule assms(1))?)+
  have k3: "returns_ok (case set_pgrp ?i dev g s of (r, s1) \<Rightarrow> Inr (r, Nothing_stored, s1))" for g
    using pg[of g] by (simp split: prod.split)
  have "returns_ok (tty_ioctl wr device cmd arg u s)"
    unfolding tty_ioctl_def Let_def d[symmetric] through_queue_def prod.case
    by (intro returns_ok_if) (rule k1 k1' k2 k3 | simp add: assms(1))+
  then show ?thesis using c by (simp add: returns_ok_def)
qed

section \<open>The drivers keep the table\<close>

text \<open>The screen is no part of the table of terminals.\<close>

lemma screen_table [simp]:
  "tty_table (upd_vc n f s) = tty_table s" "tty_table (gotoxy n x y s) = tty_table s" "tty_table (crtc r a s) = tty_table s"
  "tty_table (set_origin n s) = tty_table s" "tty_table (set_cursor n s) = tty_table s" "tty_table (set_state e n s) = tty_table s"
  "tty_table (erase_cells m a n s) = tty_table s" "tty_table (sysbeep s) = tty_table s" "tty_table (set_par k p n s) = tty_table s"
  by (simp_all add: upd_vc_def gotoxy_def crtc_def set_origin_def set_cursor_def set_state_def erase_cells_def sysbeep_def set_par_def
      Let_def)

lemma scroll_table [simp]:
  "tty_table (scroll_region n s) = tty_table s" "tty_table (scroll_window n s) = tty_table s" "tty_table (scrup n s) = tty_table s"
  "tty_table (scrdown n s) = tty_table s" "tty_table (lf n s) = tty_table s" "tty_table (ri n s) = tty_table s"
  by (simp_all add: scroll_region_def scroll_window_def scrup_def scrdown_def lf_def ri_def Let_def)

lemma cursor_table [simp]:
  "tty_table (cr n s) = tty_table s" "tty_table (del n s) = tty_table s" "tty_table (wrap_line n s) = tty_table s"
  "tty_table (put_cell b n s) = tty_table s" "tty_table (tab n s) = tty_table s" "tty_table (backspace n s) = tty_table s"
  "tty_table (save_cur n s) = tty_table s" "tty_table (restore_cur n s) = tty_table s"
  "tty_table (from_one k n s) = tty_table s" "tty_table (at_least_one k n s) = tty_table s"
  by (simp_all add: cr_def del_def wrap_line_def put_cell_def tab_def backspace_def save_cur_def restore_cur_def from_one_def
      at_least_one_def Let_def)

lemma edit_table [simp]:
  "tty_table (insert_char n s) = tty_table s" "tty_table (delete_char n s) = tty_table s"
  "tty_table (insert_line n s) = tty_table s" "tty_table (delete_line n s) = tty_table s"
  by (simp_all add: insert_char_def delete_char_def insert_line_def delete_line_def below_cursor_def Let_def)

lemma repeat_table: "(\<And>s. tty_table (f s) = tty_table s) \<Longrightarrow> tty_table ((f ^^ k) s) = tty_table s" for f :: "con_state \<Rightarrow> con_state"
  by (induction k) simp_all

lemma csi_table [simp]:
  "tty_table (csi_J n p s) = tty_table s" "tty_table (csi_K n p s) = tty_table s" "tty_table (csi_L n p s) = tty_table s"
  "tty_table (csi_M n p s) = tty_table s" "tty_table (csi_P n p s) = tty_table s" "tty_table (csi_at n p s) = tty_table s"
  "tty_table (csi_m n s) = tty_table s" "tty_table (set_margins n s) = tty_table s" "tty_table (set_term c n s) = tty_table s"
  by (simp_all add: csi_J_def csi_K_def csi_L_def csi_M_def csi_P_def csi_at_def csi_m_def set_margins_def set_term_def
      repeat_table Let_def)

lemma csi_command_table [simp]: "tty_table (csi_command c n s) = tty_table s"
  by (simp add: csi_command_def Let_def)

lemma machine_table [simp]:
  "tty_table (con_normal c n s) = tty_table s" "tty_table (con_gotpars c n s) = tty_table s" "tty_table (con_getpars c n s) = tty_table s"
  "tty_table (con_square c n s) = tty_table s" "tty_table (con_setterm c n s) = tty_table s" "tty_table (con_setgraph c n s) = tty_table s"
  by (simp_all add: con_normal_def con_gotpars_def con_getpars_def con_square_def con_setterm_def con_setgraph_def Let_def)

text \<open>A change of one terminal that keeps its driver and the soundness of its queues.\<close>

lemma ttys_ok_change:
  assumes "ttys_ok s" and "\<And>t. tt_write (f t) = tt_write t \<and> tt_queues (f t) = tt_queues t"
    and "queues_ok (tty_table s i) \<Longrightarrow> queues_ok (f (tty_table s i))"
  shows "ttys_ok (upd_tty i f s)"
  using assms by (auto simp: ttys_ok_def tty_ok_def upd_tty_def)

lemma ttys_frame:
  assumes "\<And>s s'. ttys_ok s \<Longrightarrow> wr i s = Inr s' \<Longrightarrow> ttys_ok s'"
  shows "tty_frame i ttys_ok wr"
proof
  fix s f assume "ttys_ok s" "\<And>t. tt_write (f t) = tt_write t \<and> tt_queues (f t) = tt_queues t"
    "queues_ok (tty_table s i) \<Longrightarrow> queues_ok (f (tty_table s i))"
  then show "ttys_ok (upd_tty i f s)" by (rule ttys_ok_change)
next
  fix s s' assume "ttys_ok s" "wr i s = Inr s'"
  then show "ttys_ok s'" by (rule assms)
qed (simp_all add: emit_def ttys_ok_def)

text \<open>\<open>cook\<close> is \<open>copy_to_cooked\<close>, for any terminal.\<close>

definition cook_ok :: "con_state writer \<Rightarrow> bool" where
  "cook_ok cook \<longleftrightarrow> (\<forall>i s s'. ttys_ok s \<longrightarrow> cook i s = Inr s' \<longrightarrow> ttys_ok s')"

lemma con_char_ok:
  assumes "cook_ok cook" and "ttys_ok s" and "con_char cook c n s = Inr s'"
  shows "ttys_ok s'"
proof -
  have re: "ttys_ok s'" if "respond cook n s1 = Inr s'" "ttys_ok s1" for s1
  proof -
    have "ttys_ok (upd_tty n (\<lambda>t. t\<lparr>read_q := fold PUTCH RESPONSE (read_q t)\<rparr>) s1)"
      by (rule ttys_ok_change[OF that(2)]) (simp_all add: queues_ok_def q_ok_fold_PUTCH)
    then show ?thesis using assms(1) that(1) by (auto simp: cook_ok_def respond_def)
  qed
  have rs: "ttys_ok (upd_vc n g (upd_tty n (\<lambda>t. t\<lparr>termios := DEF_TERMIOS\<rparr>) s1))" if "ttys_ok s1" for g s1
  proof -
    have "ttys_ok (upd_tty n (\<lambda>t. t\<lparr>termios := DEF_TERMIOS\<rparr>) s1)" by (rule ttys_ok_change[OF that]) (simp_all add: queues_ok_def)
    then show ?thesis by (simp add: ttys_ok_def)
  qed
  have e: "ttys_ok s'" if "con_esc cook c n s1 = Inr s'" "ttys_ok s1" for s1
  proof -
    have s2: "ttys_ok (set_state ESnormal n s1)" using that(2) by (simp add: ttys_ok_def)
    show ?thesis using that re[OF _ s2] rs[OF s2] unfolding con_esc_def Let_def by (auto simp: ttys_ok_def split: if_splits)
  qed
  show ?thesis using assms(2,3) e unfolding con_char_def Let_def by (auto simp: ttys_ok_def split: es.splits if_splits)
qed

lemma con_loop_ok: "cook_ok cook \<Longrightarrow> ttys_ok s \<Longrightarrow> con_loop cook k n s = Inr s' \<Longrightarrow> ttys_ok s'"
proof (induction k arbitrary: s)
  case (Suc k)
  obtain b q where g: "GETCH (write_q (tty_table s n)) = (b, q)" by fastforce
  show ?case
  proof (cases "tt_stopped (tty_table s n)")
    case False
    have o: "ttys_ok (upd_tty n (\<lambda>t. t\<lparr>write_q := q\<rparr>) s)"
      by (rule ttys_ok_change[OF Suc.prems(2)]) (use q_ok_GETCH[OF _ g] in \<open>simp_all add: queues_ok_def\<close>)
    obtain s2 where "con_char cook (sint b) n (upd_tty n (\<lambda>t. t\<lparr>write_q := q\<rparr>) s) = Inr s2" "con_loop cook k n s2 = Inr s'"
      using Suc.prems(3) False g by (auto simp: kbind_Inr_iff)
    then show ?thesis using Suc.IH[OF Suc.prems(1) con_char_ok[OF Suc.prems(1) o]] by blast
  qed (use Suc.prems in simp)
qed simp

lemma con_write_ok: "cook_ok cook \<Longrightarrow> ttys_ok s \<Longrightarrow> con_write cook n s = Inr s' \<Longrightarrow> ttys_ok s'"
  using con_loop_ok by (fastforce simp: con_write_def kbind_Inr_iff ttys_ok_def split: if_splits)

lemma pty_loop_ok: "cook_ok cook \<Longrightarrow> ttys_ok s \<Longrightarrow> pty_loop fuel cook from to s = Inr s' \<Longrightarrow> ttys_ok (s' :: con_state)"
proof (induction fuel arbitrary: s)
  case (Suc fuel)
  obtain c q where g: "GETCH (write_q (tty_table s from)) = (c, q)" by fastforce
  have "ttys_ok (upd_tty from (\<lambda>t. t\<lparr>write_q := q\<rparr>) s)"
    by (rule ttys_ok_change[OF Suc.prems(2)]) (use q_ok_GETCH[OF _ g] in \<open>simp_all add: queues_ok_def\<close>)
  then have "ttys_ok (upd_tty to (\<lambda>t. t\<lparr>read_q := PUTCH c (read_q t)\<rparr>) (upd_tty from (\<lambda>t. t\<lparr>write_q := q\<rparr>) s))"
    by (rule ttys_ok_change) (simp_all add: queues_ok_def q_ok_PUTCH)
  then show ?case using Suc.prems Suc.IH[OF Suc.prems(1)] by (auto simp: g Let_def kbind_Inr_iff cook_ok_def split: if_splits)
qed simp

lemma pty_copy_ok: "cook_ok cook \<Longrightarrow> ttys_ok s \<Longrightarrow> pty_copy fuel cook from to s = Inr s' \<Longrightarrow> ttys_ok (s' :: con_state)"
proof -
  assume a: "cook_ok cook" "ttys_ok s" "pty_copy fuel cook from to s = Inr s'"
  obtain s1 s2 where p: "pty_loop fuel cook from to s = Inr s1" "cook to s1 = Inr s2" "s' = emit (WakeWrite from) s2"
    using a(3) by (auto simp: pty_copy_def kbind_Inr_iff)
  have "ttys_ok s2" using a(1) p(2) pty_loop_ok[OF a(1,2) p(1)] unfolding cook_ok_def by blast
  then show ?thesis unfolding p(3) by (simp add: ttys_ok_def emit_def)
qed

lemma tty_call_write_ok: "ttys_ok s \<Longrightarrow> tty_call_write con_write fuel depth i s = Inr s' \<Longrightarrow> ttys_ok s'"
proof (induction depth arbitrary: i s s')
  case (Suc depth)
  have c: "cook_ok (copy_to_cooked fuel (tty_call_write con_write fuel depth))"
    unfolding cook_ok_def by (blast intro: tty_frame.copy_to_cooked_P[OF ttys_frame] Suc.IH)
  show ?case
  proof (cases "tt_write (tty_table s i)")
    case ConWrite
    then show ?thesis using Suc.prems(2) con_write_ok[OF c Suc.prems(1)] by simp
  next
    case RsWrite
    then show ?thesis using Suc.prems by (auto simp: rs_write_def emit_def ttys_ok_def)
  next
    case MptyWrite
    then show ?thesis using Suc.prems pty_copy_ok[OF c Suc.prems(1)] by (simp add: mpty_write_def split: if_splits)
  next
    case SptyWrite
    then show ?thesis using Suc.prems pty_copy_ok[OF c Suc.prems(1)] by (simp add: spty_write_def split: if_splits)
  qed (use Suc.prems in simp)
qed simp

lemma tty_interrupt_ok:
  "ttys_ok s \<Longrightarrow> do_tty_interrupt fuel (tty_call_write con_write fuel depth) tty s = Inr s' \<Longrightarrow> ttys_ok s'"
  unfolding do_tty_interrupt_def by (rule tty_frame.copy_to_cooked_P[OF ttys_frame]) (rule tty_call_write_ok)

lemma tty_write_ok:
  assumes "ttys_ok s" and "\<And>e s. e \<in> set envs \<Longrightarrow> ttys_ok s \<Longrightarrow> ttys_ok (e s)"
    and "tty_write fuel' (tty_call_write con_write fuel depth) channel bs envs s = Inr (r, s')"
  shows "ttys_ok s'"
proof -
  have f: "tty_frame (tty_index channel s) ttys_ok (tty_call_write con_write fuel depth)" by (rule ttys_frame) (rule tty_call_write_ok)
  have w: "ttys_ok s'" if "write_loop fuel' (tty_call_write con_write fuel depth) (tty_index channel s) bs envs s = Inr (rest, s')" for rest
    by (rule tty_frame.write_loop_P[OF f assms(1) _ _ that]) (auto simp: ttys_ok_def intro: assms(2)[unfolded ttys_ok_def, rule_format])
  have g: "ttys_ok s'" if "tty_signal SIGTTOU s = Inr (r, s')" by (rule tty_frame.tty_signal_P[OF f assms(1) that])
  consider "s' = s" | "tty_signal SIGTTOU s = Inr (r, s')"
    | rest where "write_loop fuel' (tty_call_write con_write fuel depth) (tty_index channel s) bs envs s = Inr (rest, s')"
    using assms(3) unfolding tty_write_def Let_def by (force simp: kbind_Inr_iff split: if_splits)
  then show ?thesis using assms(1) w g by cases blast+
qed

lemma tty_requests_ok:
  assumes "ttys_ok s" and "tty_ioctl (tty_call_write con_write fuel depth) device cmd arg u s = Inr (r, st, s')"
  shows "ttys_ok s'"
  using tty_ioctl_ok[OF assms(1) _ HOL.refl assms(2)] tty_call_write_ok by blast

section \<open>What the requests do\<close>

text \<open>The requests that go through a queue end in a null pointer on a terminal that has none.\<close>

lemma no_queues_null:
  assumes "\<not> tt_queues (tty_table s (tty_index (unat (device AND 0xFF)) s))" and "device div 256 \<noteq> 5"
    and "cmd \<in> {0x5404, 0x5408, 0x5411, 0x541B} \<or> cmd = 0x540B \<and> arg \<in> {0, 1, 2}"
  shows "tty_ioctl wr device cmd arg u s = Inl NullDeref"
  using assms by (auto simp: tty_ioctl_def Let_def flush_read_def flush_write_def through_queue_def)

lemma high_mask: "(0xFFFF0000 :: u32) = push_bit 16 0xFFFF"
  by simp

lemma ucast_low_half [simp]: "ucast (low_half v w) = (v :: u16)"
proof (rule bit_word_eqI)
  fix n assume "n < LENGTH(16)"
  then have "n < 16" by simp
  then show "bit (ucast (low_half v w) :: u16) n = bit v n"
    by (simp only: low_half_def high_mask bit_word_ucast_iff bit_or_iff bit_and_iff bit_push_bit_iff) auto
qed

definition short_cc :: "termio \<Rightarrow> termio" where
  "short_cc a = a\<lparr>tc_cc := (\<lambda>n. if n < NCC then tc_cc a n else 0)\<rparr>"

lemma get_put_termio: "termios t = put_termio a m \<Longrightarrow> get_termio t = short_cc a"
  by (cases a) (auto simp: get_termio_def put_termio_def short_cc_def Let_def fun_eq_iff)

lemma set_mode_done:
  assumes "set_mode f i ch s = Inr (0, s')"
  shows "termios (tty_table s' i) = f (termios (tty_table s i))"
proof -
  have sg: "tty_table s1 = tty_table s" if "tty_signal SIGTTOU s = Inr (r1, s1)" for r1 s1
    using that by (auto simp: tty_signal_def Let_def kbind_Inr_iff signal_group_def split: if_splits)
  let ?ch = "\<lambda>u. change_speed i (upd_tty i (\<lambda>t. t\<lparr>termios := f (termios t)\<rparr>) u)"
  have "\<exists>u. ?ch u = Inr s' \<and> tty_table u = tty_table s"
  proof (cases "t_tty (cur (ts_kern s)) = ch \<and> tt_pgrp (tty_table s i) \<noteq> pgrp (cur (ts_kern s))")
    case True
    with assms obtain r1 s1 where s1: "tty_signal SIGTTOU s = Inr (r1, s1)"
      "(if r1 = - ERESTARTSYS \<or> r1 = - EINTR then Inr (r1, s1) else kbind (?ch s1) (\<lambda>s1. Inr (0, s1))) = Inr (0, s')"
      by (auto simp: set_mode_def Let_def kbind_Inr_iff)
    then have "?ch s1 = Inr s'" by (auto simp: ERESTARTSYS_def EINTR_def kbind_Inr_iff split: if_splits)
    with sg[OF s1(1)] show ?thesis by blast
  next
    case False
    with assms have "?ch s = Inr s'" by (auto simp: set_mode_def Let_def kbind_Inr_iff)
    then show ?thesis by blast
  qed
  then show ?thesis using tty_table_change_speed by (fastforce simp: upd_tty_def)
qed

end
