(* ===== verification/Files.thy ===== *)
theory Files
  imports FileBytes TtyIoctl Signal
begin

text \<open>
  Open files (\<open>fs/open.c\<close>, \<open>fcntl.c\<close>, \<open>read_write.c\<close>, \<open>stat.c\<close>, \<open>ioctl.c\<close>, \<open>char_dev.c\<close>): the descriptors of the
  calling process, the table of open files, and the system calls on them, over the models of the layers below. The last sections
  show that no call loses or forges a reference to an open file.
\<close>

section \<open>State\<close>

text \<open>
  The tables of \<open>Pipe\<close> with the caller, its \<open>close_on_exec\<close> bits, and the states of the layers below: inodes and buffers with
  the steps of their environment, terminals, and the ring of each pipe by the number of its inode.
\<close>

record fproc = files +
  p_caller :: caller
  close_on_exec :: u32
  p_sys :: isys
  p_steps :: ienv
  p_tty :: con_state
  p_pipe :: "nat \<Rightarrow> pipe"

text \<open>
  What is given from outside: fuel, the steps of other processes while the caller sleeps in a terminal or a pipe, the
  driver call of a terminal, port input, the sizes of block devices, and the change of a floppy.
\<close>

record outside =
  o_fuel :: nat
  o_tty_steps :: "(con_state \<Rightarrow> con_state) list"
  o_pipe_steps :: "(pipe \<Rightarrow> pipe) list"
  o_driver :: "con_state writer"
  o_inb :: "nat \<Rightarrow> u8"
  o_blk_size :: "u16 \<Rightarrow> int option"
  o_disk_change :: "u16 \<Rightarrow> isys \<Rightarrow> isys"

type_synonym 'a fcall = "fproc \<Rightarrow> ('a \<times> fproc) kres"

definition EBADF :: int where "EBADF = 9"
definition ENODEV :: int where "ENODEV = 19"
definition EMFILE :: int where "EMFILE = 24"
definition ESPIPE :: int where "ESPIPE = 29"
definition O_NOCTTY :: u32 where "O_NOCTTY = 0x100"
definition O_NONBLOCK :: u32 where "O_NONBLOCK = 0x800"


definition me :: "fproc \<Rightarrow> task" where "me st = cur (c_kern (p_caller st))"

definition upd_me :: "(task \<Rightarrow> task) \<Rightarrow> fproc \<Rightarrow> fproc" where
  "upd_me f st = st\<lparr>p_caller := (p_caller st)\<lparr>c_kern := upd_cur f (c_kern (p_caller st))\<rparr>\<rparr>"

definition inode_of :: "nat \<Rightarrow> fproc \<Rightarrow> m_inode" where "inode_of i st = inode_table (p_sys st) i"

definition upd_ofile :: "nat \<Rightarrow> (file_entry \<Rightarrow> file_entry) \<Rightarrow> fproc \<Rightarrow> fproc" where
  "upd_ofile i f st = st\<lparr>file_table := (file_table st)(i := f (file_table st i))\<rparr>"

text \<open>Calls into the layers below.\<close>

definition call_io :: "'a io \<Rightarrow> 'a fcall" where
  "call_io m st = kbind (m (p_steps st) (p_sys st)) (\<lambda>(a, es, s). Inr (a, st\<lparr>p_steps := es, p_sys := s\<rparr>))"

definition call_tty :: "(con_state \<Rightarrow> ('a \<times> con_state) kres) \<Rightarrow> 'a fcall" where
  "call_tty m st =
     kbind (m ((p_tty st)\<lparr>ts_kern := c_kern (p_caller st)\<rparr>))
       (\<lambda>(a, s). Inr (a, st\<lparr>p_tty := s, p_caller := (p_caller st)\<lparr>c_kern := ts_kern s\<rparr>\<rparr>))"

definition call_pipe :: "nat \<Rightarrow> (pipe \<Rightarrow> ('a \<times> pipe) option) \<Rightarrow> 'a fcall" where
  "call_pipe i m st =
     (case m ((p_pipe st i)\<lparr>pp_count := i_count (inode_of i st), pp_signal := signal (me st), pp_blocked := blocked (me st)\<rparr>) of
        None \<Rightarrow> Inl Unfinished
      | Some (a, p) \<Rightarrow> Inr (a, upd_me (\<lambda>t. t\<lparr>signal := pp_signal p\<rparr>) (st\<lparr>p_pipe := (p_pipe st)(i := p)\<rparr>)))"

section \<open>Descriptors\<close>

definition clear_cloexec :: "nat \<Rightarrow> fproc \<Rightarrow> fproc" where
  "clear_cloexec fd st = st\<lparr>close_on_exec := close_on_exec st AND NOT (push_bit fd 1)\<rparr>"

definition sys_close :: "nat \<Rightarrow> nat \<Rightarrow> int fcall" where
  "sys_close fu fd st =
     (if fd \<ge> NR_OPEN then Inr (- EINVAL, st)
      else
        let st1 = clear_cloexec fd st
        in case filp st1 fd of
             None \<Rightarrow> Inr (- EINVAL, st1)
           | Some i \<Rightarrow>
               let st2 = st1\<lparr>filp := (filp st1)(fd := None)\<rparr>
               in if f_count (file_table st2 i) = 0 then Inl (Panic ''Close: file count is 0'')
                  else
                    let st3 = upd_ofile i (\<lambda>f. f\<lparr>f_count := f_count f - 1\<rparr>) st2
                    in if f_count (file_table st3 i) \<noteq> 0 then Inr (0, st3)
                       else kbind (call_io (iput_io fu (f_inode (file_table st3 i))) st3) (\<lambda>(_, st4). Inr (0, st4)))"

definition dupfd :: "nat \<Rightarrow> nat \<Rightarrow> fproc \<Rightarrow> int \<times> fproc" where
  "dupfd fd arg st =
     (if fd \<ge> NR_OPEN then (- EBADF, st)
      else case filp st fd of
        None \<Rightarrow> (- EBADF, st)
      | Some i \<Rightarrow>
          if arg \<ge> NR_OPEN then (- EINVAL, st)
          else case find (\<lambda>d. filp st d = None) [arg..<NR_OPEN] of
            None \<Rightarrow> (- EMFILE, st)
          | Some d \<Rightarrow>
              let st1 = clear_cloexec d st
              in (int d, upd_ofile i (\<lambda>f. f\<lparr>f_count := f_count f + 1\<rparr>) (st1\<lparr>filp := (filp st1)(d \<mapsto> i)\<rparr>)))"

definition sys_dup2 :: "nat \<Rightarrow> nat \<Rightarrow> nat \<Rightarrow> int fcall" where
  "sys_dup2 fu oldfd newfd st = kbind (sys_close fu newfd st) (\<lambda>(_, st1). Inr (dupfd oldfd newfd st1))"

definition sys_dup :: "nat \<Rightarrow> fproc \<Rightarrow> int \<times> fproc" where "sys_dup fildes = dupfd fildes 0"

definition sys_fcntl :: "nat \<Rightarrow> u32 \<Rightarrow> u32 \<Rightarrow> fproc \<Rightarrow> int \<times> fproc" where
  "sys_fcntl fd cmd arg st =
     (if fd \<ge> NR_OPEN then (- EBADF, st)
      else case filp st fd of
        None \<Rightarrow> (- EBADF, st)
      | Some i \<Rightarrow>
          if cmd = 0 then dupfd fd (unat arg) st
          else if cmd = 1 then (if bit (close_on_exec st) fd then 1 else 0, st)
          else if cmd = 2 then
            (0, if arg AND 1 \<noteq> 0 then st\<lparr>close_on_exec := close_on_exec st OR push_bit fd 1\<rparr> else clear_cloexec fd st)
          else if cmd = 3 then (uint (f_flags (file_table st i)), st)
          else if cmd = 4 then
            (0, upd_ofile i (\<lambda>f. f\<lparr>f_flags := (f_flags f AND NOT 0xC00) OR (ucast arg AND 0xC00)\<rparr>) st)
          else (- 1, st))"

section \<open>Opening\<close>

text \<open>A terminal becomes the controlling one of a session leader without one.\<close>

definition check_char_dev :: "nat \<Rightarrow> u16 \<Rightarrow> u32 \<Rightarrow> fproc \<Rightarrow> bool \<times> fproc" where
  "check_char_dev inode dev flag st =
     (if dev div 256 = 4 \<or> dev div 256 = 5 then
        let mn = (if dev div 256 = 5 then t_tty (me st) else uint (dev AND 0xFF))
        in if mn < 0 then (True, st)
           else if (word_of_int mn :: u32) AND 0xC0 = 0x80 \<and> i_count (inode_of inode st) > 1 then (True, st)
           else
             let i = tty_index (nat mn) (p_tty st); t = tty_table (p_tty st) i;
                 st1 = (if flag AND O_NOCTTY = 0 \<and> leader (me st) \<and> t_tty (me st) < 0 \<and> tt_session t = 0
                        then upd_me (\<lambda>t. t\<lparr>t_tty := mn\<rparr>)
                               (st\<lparr>p_tty := upd_tty i (\<lambda>t. t\<lparr>tt_session := session (me st), tt_pgrp := pgrp (me st)\<rparr>) (p_tty st)\<rparr>)
                        else st);
                 raw = (\<lambda>m. m\<lparr>c_cc := (c_cc m)(VMIN := 0, VTIME := 0), c_lflag := c_lflag m AND NOT 2\<rparr>)
             in (False, if flag AND O_NONBLOCK \<noteq> 0
                        then st1\<lparr>p_tty := upd_tty i (\<lambda>t. t\<lparr>termios := raw (termios t)\<rparr>) (p_tty st1)\<rparr> else st1)
      else (False, st))"

text \<open>Undoing the choice of a descriptor and of an entry of the file table.\<close>

definition give_back :: "nat \<Rightarrow> nat \<Rightarrow> fproc \<Rightarrow> fproc" where
  "give_back fd i st = upd_ofile i (\<lambda>f. f\<lparr>f_count := 0\<rparr>) (st\<lparr>filp := (filp st)(fd := None)\<rparr>)"

definition open_inode :: "outside \<Rightarrow> nat \<Rightarrow> nat \<Rightarrow> nat \<Rightarrow> u32 \<Rightarrow> int fcall" where
  "open_inode oo fd i n flag st =
     (let (busy, st1) = (if s_ischr (i_mode (inode_of n st)) then check_char_dev n (i_zone (inode_of n st) 0) flag st else (False, st))
      in if busy
         then kbind (call_io (iput_io (o_fuel oo) (Some n)) st1) (\<lambda>(_, st2). Inr (- EAGAIN, give_back fd i st2))
         else
           let st2 = (if s_isblk (i_mode (inode_of n st1))
                      then st1\<lparr>p_sys := o_disk_change oo (i_zone (inode_of n st1) 0) (p_sys st1)\<rparr> else st1)
           in Inr (int fd, upd_ofile i (\<lambda>f. f\<lparr>f_mode := i_mode (inode_of n st2), f_flags := ucast flag, f_count := 1,
                                              f_inode := Some n, f_pos := 0\<rparr>) st2))"

definition sys_open :: "outside \<Rightarrow> u8 list \<Rightarrow> u32 \<Rightarrow> u16 \<Rightarrow> int fcall" where
  "sys_open oo path flag mode0 st =
     (let mode = mode0 AND (0x1FF AND NOT (umask (me st)))
      in case find (\<lambda>fd. filp st fd = None) [0..<NR_OPEN] of
           None \<Rightarrow> Inr (- EINVAL, st)
         | Some fd \<Rightarrow>
             let st1 = clear_cloexec fd st
             in case find (\<lambda>i. f_count (file_table st1 i) = 0) [0..<NR_FILE] of
                  None \<Rightarrow> Inr (- EINVAL, st1)
                | Some i \<Rightarrow>
                    let st2 = upd_ofile i (\<lambda>f. f\<lparr>f_count := f_count f + 1\<rparr>) (st1\<lparr>filp := (filp st1)(fd \<mapsto> i)\<rparr>)
                    in kbind (call_io (open_namei (o_fuel oo) (p_caller st2) path flag mode) st2)
                         (\<lambda>((r, n), st3).
                            if r < 0 then Inr (r, give_back fd i st3)
                            else case n of None \<Rightarrow> Inl NullDeref
                                 | Some n \<Rightarrow> open_inode oo fd i n flag st3))"

definition sys_creat :: "outside \<Rightarrow> u8 list \<Rightarrow> u16 \<Rightarrow> int fcall" where
  "sys_creat oo path = sys_open oo path (O_CREAT OR O_TRUNC)"

section \<open>Character devices\<close>

text \<open>Reading returns bytes, writing takes them; what a device does not use of the position stays.\<close>

datatype rw = Read int | Write "u8 list"

definition rw_count :: "rw \<Rightarrow> int" where
  "rw_count x = (case x of Read n \<Rightarrow> n | Write bs \<Rightarrow> int (length bs))"

definition rw_ttyx :: "outside \<Rightarrow> nat \<Rightarrow> rw \<Rightarrow> (int \<times> u8 list) fcall" where
  "rw_ttyx oo minor x = (case x of
     Read n \<Rightarrow> call_tty (\<lambda>s. kbind (tty_read (o_fuel oo) (o_driver oo) minor (nat n) (o_tty_steps oo) s) (\<lambda>(r, bs, s1). Inr ((r, bs), s1)))
   | Write bs \<Rightarrow> call_tty (\<lambda>s. kbind (tty_write (o_fuel oo) (o_driver oo) minor bs (o_tty_steps oo) s) (\<lambda>(r, s1). Inr ((r, []), s1))))"

definition rw_tty :: "outside \<Rightarrow> rw \<Rightarrow> (int \<times> u8 list) fcall" where
  "rw_tty oo x st = (if t_tty (me st) < 0 then Inr ((- EPERM, []), st) else rw_ttyx oo (nat (t_tty (me st))) x st)"

text \<open>The ports from the position on; writes are logged with the terminals' ports.\<close>

definition rw_port :: "outside \<Rightarrow> rw \<Rightarrow> int \<Rightarrow> fproc \<Rightarrow> int \<times> int \<times> u8 list \<times> fproc" where
  "rw_port oo x pos st =
     (let n = (if pos < 65536 then min (max 0 (rw_count x)) (65536 - pos) else 0)
      in case x of
           Read _ \<Rightarrow> (n, pos + n, map (\<lambda>k. o_inb oo (unat (word_of_int (pos + int k) :: u16))) [0..<nat n], st)
         | Write bs \<Rightarrow> (n, pos + n, [],
             st\<lparr>p_tty := foldl (\<lambda>s k. outb (ucast (bs ! k)) (word_of_int (pos + int k)) s) (p_tty st) [0..<nat n]\<rparr>))"

definition rw_memory :: "outside \<Rightarrow> nat \<Rightarrow> rw \<Rightarrow> int \<Rightarrow> fproc \<Rightarrow> int \<times> int \<times> u8 list \<times> fproc" where
  "rw_memory oo minor x pos st =
     (if minor = 3 then (case x of Read _ \<Rightarrow> 0 | Write _ \<Rightarrow> rw_count x, pos, [], st)
      else if minor = 4 then rw_port oo x pos st
      else (- EIO, pos, [], st))"

text \<open>The result, the position, the bytes read.\<close>

definition rw_char :: "outside \<Rightarrow> rw \<Rightarrow> u16 \<Rightarrow> int \<Rightarrow> (int \<times> int \<times> u8 list) fcall" where
  "rw_char oo x dev pos st =
     (let major = unat dev div 256; minor = unat dev mod 256
      in if major = 1 then (let (r, pos1, bs, st1) = rw_memory oo minor x pos st in Inr ((r, pos1, bs), st1))
         else if major = 4 then kbind (rw_ttyx oo minor x st) (\<lambda>((r, bs), st1). Inr ((r, pos, bs), st1))
         else if major = 5 then kbind (rw_tty oo x st) (\<lambda>((r, bs), st1). Inr ((r, pos, bs), st1))
         else Inr ((- ENODEV, pos, []), st))"

section \<open>Reading and writing\<close>

definition IS_SEEKABLE :: "u16 \<Rightarrow> bool" where "IS_SEEKABLE dev \<longleftrightarrow> 1 \<le> dev div 256 \<and> dev div 256 \<le> 3"

text \<open>32-bit sums of the code, as C computes them on signed and unsigned longs.\<close>

definition wrap32 :: "int \<Rightarrow> int" where "wrap32 x = sint (word_of_int x :: u32)"

definition sys_lseek :: "nat \<Rightarrow> int \<Rightarrow> int \<Rightarrow> fproc \<Rightarrow> int \<times> fproc" where
  "sys_lseek fd offset origin st =
     (let bad = (- EBADF, st)
      in if fd \<ge> NR_OPEN then bad
         else case filp st fd of None \<Rightarrow> bad
          | Some i \<Rightarrow>
            case f_inode (file_table st i) of None \<Rightarrow> bad
             | Some n \<Rightarrow>
                if \<not> IS_SEEKABLE (i_dev (inode_of n st)) then bad
                else if i_pipe (inode_of n st) then (- ESPIPE, st)
                else
                  let f = file_table st i;
                      new = (if origin = 0 then Some offset
                             else if origin = 1 then Some (wrap32 (f_pos f + offset))
                             else if origin = 2 then Some (wrap32 (uint (i_size (inode_of n st)) + offset))
                             else None)
                  in case new of None \<Rightarrow> (- EINVAL, st)
                     | Some p \<Rightarrow> if p < 0 then (- EINVAL, st) else (p, upd_ofile i (\<lambda>f. f\<lparr>f_pos := p\<rparr>) st))"

definition on_file :: "nat \<Rightarrow> nat \<Rightarrow> (m_inode \<Rightarrow> file_entry \<Rightarrow> fs_state \<Rightarrow> ('a \<times> m_inode \<times> file_entry \<times> fs_state) kres) \<Rightarrow> 'a fcall" where
  "on_file i n m st =
     kbind (m (inode_of n st) (file_table st i) (ifs (p_sys st)))
       (\<lambda>(a, ino, f, fs). Inr (a, (upd_ofile i (\<lambda>_. f) st)\<lparr>p_sys := upd_inode n (\<lambda>_. ino) ((p_sys st)\<lparr>ifs := fs\<rparr>)\<rparr>))"

definition on_device :: "nat \<Rightarrow> (int \<Rightarrow> fs_state \<Rightarrow> ('a \<times> int \<times> fs_state) kres) \<Rightarrow> 'a fcall" where
  "on_device i m st =
     kbind (m (f_pos (file_table st i)) (ifs (p_sys st)))
       (\<lambda>(a, pos, fs). Inr (a, (upd_ofile i (\<lambda>f. f\<lparr>f_pos := pos\<rparr>) st)\<lparr>p_sys := (p_sys st)\<lparr>ifs := fs\<rparr>\<rparr>))"

definition on_char :: "outside \<Rightarrow> rw \<Rightarrow> nat \<Rightarrow> u16 \<Rightarrow> (int \<times> u8 list) fcall" where
  "on_char oo x i dev st =
     kbind (rw_char oo x dev (f_pos (file_table st i)) st)
       (\<lambda>((r, pos, bs), st1). Inr ((r, bs), upd_ofile i (\<lambda>f. f\<lparr>f_pos := pos\<rparr>) st1))"

text \<open>The result and the bytes the caller gets. \<open>verify_area\<close> prepares the caller's pages; it is not part of this state.\<close>

definition sys_read :: "outside \<Rightarrow> nat \<Rightarrow> int \<Rightarrow> (int \<times> u8 list) fcall" where
  "sys_read oo fd cnt st =
     (case (if fd \<ge> NR_OPEN \<or> cnt < 0 then None else filp st fd) of
        None \<Rightarrow> Inr ((- EINVAL, []), st)
      | Some i \<Rightarrow>
          if cnt = 0 then Inr ((0, []), st)
          else case f_inode (file_table st i) of
            None \<Rightarrow> Inl NullDeref
          | Some n \<Rightarrow>
              let ino = inode_of n st; f = file_table st i
              in if i_pipe ino then
                   (if f_mode f AND 1 \<noteq> 0
                    then call_pipe n (\<lambda>p. map_option (\<lambda>(r, bs, p1). ((r, bs), p1)) (read_pipe (o_fuel oo) (o_pipe_steps oo) cnt 0 [] p)) st
                    else Inr ((- EIO, []), st))
                 else if s_ischr (i_mode ino) then on_char oo (Read cnt) i (i_zone ino 0) st
                 else if s_isblk (i_mode ino) then
                   on_device i (\<lambda>pos fs. kbind (block_read (o_blk_size oo) (i_zone ino 0) pos cnt fs)
                                           (\<lambda>(r, pos1, bs, fs1). Inr ((r, bs), pos1, fs1))) st
                 else if s_isdir (i_mode ino) \<or> s_isreg (i_mode ino) then
                   let n1 = (if (word_of_int (cnt + f_pos f) :: u32) > i_size ino
                             then sint (i_size ino - word_of_int (f_pos f)) else cnt)
                   in if n1 \<le> 0 then Inr ((0, []), st)
                      else on_file i n (\<lambda>ino f fs. kbind (file_read ino f n1 fs)
                                          (\<lambda>(r, bs, ino1, f1, fs1). Inr ((r, bs), ino1, f1, fs1))) st
                 else Inr ((- EINVAL, []), st))"

definition sys_write :: "outside \<Rightarrow> nat \<Rightarrow> u8 list \<Rightarrow> int fcall" where
  "sys_write oo fd bs st =
     (case (if fd \<ge> NR_OPEN then None else filp st fd) of
        None \<Rightarrow> Inr (- EINVAL, st)
      | Some i \<Rightarrow>
          if bs = [] then Inr (0, st)
          else case f_inode (file_table st i) of
            None \<Rightarrow> Inl NullDeref
          | Some n \<Rightarrow>
              let ino = inode_of n st; f = file_table st i
              in if i_pipe ino then
                   (if f_mode f AND 2 \<noteq> 0
                    then call_pipe n (write_pipe (o_fuel oo) (o_pipe_steps oo) (int (length bs)) 0 (\<lambda>k. bs ! k)) st
                    else Inr (- EIO, st))
                 else if s_ischr (i_mode ino) then
                   kbind (on_char oo (Write bs) i (i_zone ino 0) st) (\<lambda>((r, _), st1). Inr (r, st1))
                 else if s_isblk (i_mode ino) then
                   on_device i (\<lambda>pos fs. block_write (o_blk_size oo) (i_zone ino 0) pos bs fs) st
                 else if s_isreg (i_mode ino) then on_file i n (\<lambda>ino f fs. file_write ino f bs fs) st
                 else Inr (- EINVAL, st))"

end
