(* ===== verification/FileCalls.thy ===== *)
theory FileCalls
  imports Files
begin

text \<open>
  The calls on names and on what a descriptor stands for (\<open>fs/open.c\<close>, \<open>stat.c\<close>, \<open>ioctl.c\<close>), and the invariant of all
  calls on descriptors: the count of each open file is the number of references to it.
\<close>

section \<open>Calls on names\<close>

text \<open>With the inode of a name, or \<open>err\<close> without one.\<close>

definition with_name :: "(nat \<Rightarrow> caller \<Rightarrow> u8 list \<Rightarrow> nat option io) \<Rightarrow> outside \<Rightarrow> u8 list \<Rightarrow> 'a \<Rightarrow> (nat \<Rightarrow> 'a fcall) \<Rightarrow> 'a fcall" where
  "with_name look oo path err f st =
     kbind (call_io (look (o_fuel oo) (p_caller st) path) st)
       (\<lambda>(n, st1). case n of None \<Rightarrow> Inr (err, st1) | Some n \<Rightarrow> f n st1)"

definition put_inode :: "outside \<Rightarrow> nat \<Rightarrow> 'a \<Rightarrow> 'a fcall" where
  "put_inode oo n r st = kbind (call_io (iput_io (o_fuel oo) (Some n)) st) (\<lambda>(_, st1). Inr (r, st1))"

definition upd_inode_of :: "nat \<Rightarrow> (m_inode \<Rightarrow> m_inode) \<Rightarrow> fproc \<Rightarrow> fproc" where
  "upd_inode_of n f st = st\<lparr>p_sys := upd_inode n f (p_sys st)\<rparr>"

text \<open>\<open>tb\<close> is what the caller's buffer holds, if it gave one.\<close>

definition sys_utime :: "outside \<Rightarrow> u8 list \<Rightarrow> (u32 \<times> u32) option \<Rightarrow> int fcall" where
  "sys_utime oo path tb = with_name namei oo path (- ENOENT)
     (\<lambda>n st. let now = cur_time (ifs (p_sys st)); (at, mt) = (case tb of Some x \<Rightarrow> x | None \<Rightarrow> (now, now))
             in put_inode oo n 0 (upd_inode_of n (\<lambda>i. i\<lparr>i_atime := at, i_mtime := mt, i_dirt := True\<rparr>) st))"

definition access_ok :: "task \<Rightarrow> m_inode \<Rightarrow> u16 \<Rightarrow> u16 \<Rightarrow> bool" where
  "access_ok t ino mode i_mod =
     (let res = (if uid t = i_uid ino then drop_bit 6 i_mod
                 else if gid t = ucast (i_gid ino) then drop_bit 3 i_mod else i_mod)
      in res AND 7 AND mode = mode \<or> (uid t = 0 \<and> (mode AND 1 = 0 \<or> i_mod AND 0x49 \<noteq> 0)))"

definition sys_access :: "outside \<Rightarrow> u8 list \<Rightarrow> u16 \<Rightarrow> int fcall" where
  "sys_access oo path mode0 = with_name namei oo path (- EACCES)
     (\<lambda>n st. kbind (put_inode oo n (i_mode (inode_of n st) AND 0x1FF) st)
        (\<lambda>(i_mod, st1). Inr (if access_ok (me st1) (inode_of n st1) (mode0 AND 7) i_mod then 0 else - EACCES, st1)))"

definition sys_chdir :: "outside \<Rightarrow> u8 list \<Rightarrow> int fcall" where
  "sys_chdir oo path = with_name namei oo path (- ENOENT)
     (\<lambda>n st. if \<not> s_isdir (i_mode (inode_of n st)) then put_inode oo n (- ENOTDIR) st
             else kbind (put_inode oo (c_pwd (p_caller st)) 0 st)
                    (\<lambda>(r, st1). Inr (r, st1\<lparr>p_caller := (p_caller st1)\<lparr>c_pwd := n\<rparr>\<rparr>)))"

definition sys_chroot :: "outside \<Rightarrow> u8 list \<Rightarrow> int fcall" where
  "sys_chroot oo path = with_name namei oo path (- ENOENT)
     (\<lambda>n st. if \<not> s_isdir (i_mode (inode_of n st)) then put_inode oo n (- ENOTDIR) st
             else kbind (put_inode oo (c_root (p_caller st)) 0 st)
                    (\<lambda>(r, st1). Inr (r, st1\<lparr>p_caller := (p_caller st1)\<lparr>c_root := n\<rparr>\<rparr>)))"

definition sys_chmod :: "outside \<Rightarrow> u8 list \<Rightarrow> u16 \<Rightarrow> int fcall" where
  "sys_chmod oo path mode = with_name namei oo path (- ENOENT)
     (\<lambda>n st. if euid (me st) \<noteq> i_uid (inode_of n st) \<and> \<not> suser (c_kern (p_caller st)) then put_inode oo n (- EACCES) st
             else put_inode oo n 0
                    (upd_inode_of n (\<lambda>i. i\<lparr>i_mode := (mode AND 0xFFF) OR (i_mode i AND NOT 0xFFF), i_dirt := True\<rparr>) st))"

definition sys_chown :: "outside \<Rightarrow> u8 list \<Rightarrow> u16 \<Rightarrow> u8 \<Rightarrow> int fcall" where
  "sys_chown oo path u g = with_name namei oo path (- ENOENT)
     (\<lambda>n st. if \<not> suser (c_kern (p_caller st)) then put_inode oo n (- EACCES) st
             else put_inode oo n 0 (upd_inode_of n (\<lambda>i. i\<lparr>i_uid := u, i_gid := g, i_dirt := True\<rparr>) st))"

section \<open>What an inode says\<close>

record stat =
  st_dev :: u16
  st_ino :: u16
  st_mode :: u16
  st_nlink :: u8
  st_uid :: u16
  st_gid :: u16
  st_rdev :: u16
  st_size :: u32
  st_atime :: u32
  st_mtime :: u32
  st_ctime :: u32

definition cp_stat :: "m_inode \<Rightarrow> stat" where
  "cp_stat i = \<lparr>st_dev = i_dev i, st_ino = i_num i, st_mode = i_mode i, st_nlink = i_nlinks i, st_uid = i_uid i,
     st_gid = ucast (i_gid i), st_rdev = i_zone i 0, st_size = i_size i, st_atime = i_atime i, st_mtime = i_mtime i, st_ctime = i_ctime i\<rparr>"

definition stat_gen :: "(nat \<Rightarrow> caller \<Rightarrow> u8 list \<Rightarrow> nat option io) \<Rightarrow> outside \<Rightarrow> u8 list \<Rightarrow> (int \<times> stat option) fcall" where
  "stat_gen look oo path = with_name look oo path (- ENOENT, None)
     (\<lambda>n st. put_inode oo n (0, Some (cp_stat (inode_of n st))) st)"

definition sys_stat :: "outside \<Rightarrow> u8 list \<Rightarrow> (int \<times> stat option) fcall" where "sys_stat = stat_gen namei"
definition sys_lstat :: "outside \<Rightarrow> u8 list \<Rightarrow> (int \<times> stat option) fcall" where "sys_lstat = stat_gen lnamei"

definition sys_fstat :: "nat \<Rightarrow> fproc \<Rightarrow> int \<times> stat option" where
  "sys_fstat fd st =
     (case (if fd \<ge> NR_OPEN then None else filp st fd) of
        None \<Rightarrow> (- EBADF, None)
      | Some i \<Rightarrow> (case f_inode (file_table st i) of
          None \<Rightarrow> (- EBADF, None) | Some n \<Rightarrow> (0, Some (cp_stat (inode_of n st)))))"

text \<open>The link's text up to a null byte; \<open>iput\<close> comes before the buffer is used.\<close>

definition sys_readlink :: "outside \<Rightarrow> u8 list \<Rightarrow> int \<Rightarrow> (int \<times> u8 list) fcall" where
  "sys_readlink oo path bufsiz st =
     (if bufsiz \<le> 0 then Inr ((- EBADF, []), st)
      else
        let size = nat (min bufsiz 1023)
        in with_name lnamei oo path (- ENOENT, [])
             (\<lambda>n st.
                let ino = inode_of n st; q = (i_dev ino, uint (i_zone ino 0))
                in kbind (if i_zone ino 0 \<noteq> 0 then call_io (bread_io q) st else Inr (False, st))
                     (\<lambda>(ok, st1). kbind (put_inode oo n () st1)
                        (\<lambda>(_, st2).
                           if \<not> ok then Inr ((0, []), st2)
                           else kbind (call_io (read_buf q (\<lambda>d. takeWhile (\<lambda>c. c \<noteq> 0) (map d [0..<size]))) st2)
                                  (\<lambda>(bs, st3). kbind (call_io (brelse_io (Some q)) st3)
                                     (\<lambda>(_, st4). Inr ((int (length bs), bs), st4)))))) st)"

section \<open>Control of devices\<close>

definition ioctl_file :: "outside \<Rightarrow> file_entry \<Rightarrow> nat \<Rightarrow> u32 \<Rightarrow> u32 \<Rightarrow> user_mem \<Rightarrow> (int \<times> user_store) fcall" where
  "ioctl_file oo f n cmd arg u st =
     (let ino = inode_of n st
      in if i_pipe ino then
           (if f_mode f AND 1 \<noteq> 0
            then let (r, x) = pipe_ioctl (p_pipe st n) (uint cmd)
                 in Inr ((r, case x of None \<Rightarrow> Nothing_stored | Some v \<Rightarrow> Store_long (word_of_int v)), st)
            else Inr ((- EBADF, Nothing_stored), st))
         else if \<not> s_ischr (i_mode ino) \<and> \<not> s_isblk (i_mode ino) then Inr ((- EINVAL, Nothing_stored), st)
         else
           let major = unat (i_zone ino 0) div 256
           in if major \<ge> 8 then Inr ((- ENODEV, Nothing_stored), st)
              else if major \<noteq> 4 \<and> major \<noteq> 5 then Inr ((- ENOTTY, Nothing_stored), st)
              else call_tty (\<lambda>s. kbind (tty_ioctl (o_driver oo) (i_zone ino 0) cmd arg u s) (\<lambda>(r, x, s1). Inr ((r, x), s1))) st)"

definition sys_ioctl :: "outside \<Rightarrow> nat \<Rightarrow> u32 \<Rightarrow> u32 \<Rightarrow> user_mem \<Rightarrow> (int \<times> user_store) fcall" where
  "sys_ioctl oo fd cmd arg u st =
     (case (if fd \<ge> NR_OPEN then None else filp st fd) of
        None \<Rightarrow> Inr ((- EBADF, Nothing_stored), st)
      | Some i \<Rightarrow> (case f_inode (file_table st i) of
          None \<Rightarrow> Inl NullDeref
        | Some n \<Rightarrow> ioctl_file oo (file_table st i) n cmd arg u st))"

section \<open>Fork and exit\<close>

text \<open>The part of \<open>copy_process\<close> and of \<open>do_exit\<close> that is about open files.\<close>

definition fork_files :: "fproc \<Rightarrow> fproc" where
  "fork_files st =
     foldl (\<lambda>s fd. case filp s fd of None \<Rightarrow> s | Some i \<Rightarrow> upd_ofile i (\<lambda>f. f\<lparr>f_count := f_count f + 1\<rparr>) s) st [0..<NR_OPEN]"

fun close_all :: "nat \<Rightarrow> nat list \<Rightarrow> fproc \<Rightarrow> fproc kres" where
  "close_all fu [] st = Inr st"
| "close_all fu (fd # fds) st =
     (if filp st fd \<noteq> None then kbind (sys_close fu fd st) (\<lambda>(_, st1). close_all fu fds st1) else close_all fu fds st)"

definition exit_files :: "nat \<Rightarrow> fproc \<Rightarrow> fproc kres" where
  "exit_files fu = close_all fu [0..<NR_OPEN]"

text \<open>What \<open>do_execve\<close> closes.\<close>

fun close_marked :: "nat \<Rightarrow> nat list \<Rightarrow> fproc \<Rightarrow> fproc kres" where
  "close_marked fu [] st = Inr st"
| "close_marked fu (fd # fds) st =
     (if bit (close_on_exec st) fd then kbind (sys_close fu fd st) (\<lambda>(_, st1). close_marked fu fds st1) else close_marked fu fds st)"

definition exec_files :: "nat \<Rightarrow> fproc \<Rightarrow> fproc kres" where
  "exec_files fu st = kbind (close_marked fu [0..<NR_OPEN] st) (\<lambda>st1. Inr (st1\<lparr>close_on_exec := 0\<rparr>))"

section \<open>References\<close>

text \<open>
  The references of the calling process to entry \<open>i\<close> of the file table; \<open>others\<close> counts those of all other processes.
  \<open>counted\<close> says that each entry's count is the number of references to it.
\<close>

definition refs :: "fproc \<Rightarrow> nat \<Rightarrow> nat" where
  "refs st i = card {fd. fd < NR_OPEN \<and> filp st fd = Some i}"

definition counted :: "(nat \<Rightarrow> nat) \<Rightarrow> fproc \<Rightarrow> bool" where
  "counted others st \<longleftrightarrow>
     (\<forall>i<NR_FILE. unat (f_count (file_table st i)) = others i + refs st i) \<and> (\<forall>fd<NR_OPEN. \<forall>i. filp st fd = Some i \<longrightarrow> i < NR_FILE)"

text \<open>Fewer than the counter can hold, after any of the calls.\<close>

definition few :: "(nat \<Rightarrow> nat) \<Rightarrow> bool" where "few others \<longleftrightarrow> (\<forall>i<NR_FILE. others i + NR_OPEN < 65536)"

lemma finite_refs: "finite {fd. fd < NR_OPEN \<and> P fd}"
  by (rule finite_subset[of _ "{..<NR_OPEN}"]) auto

lemma refs_le: "refs st i \<le> NR_OPEN"
proof -
  have "card {fd. fd < NR_OPEN \<and> filp st fd = Some i} \<le> card {..<NR_OPEN}" by (rule card_mono) auto
  then show ?thesis by (simp add: refs_def)
qed

lemma refs_cong: "filp st' = filp st \<Longrightarrow> refs st' i = refs st i"
  by (simp add: refs_def)

lemma refs_add:
  assumes "fd < NR_OPEN" and "filp st fd = None" and "filp st' = (filp st)(fd \<mapsto> i)"
  shows "refs st' j = (if j = i then refs st j + 1 else refs st j)"
proof (cases "j = i")
  case True
  then have "{d. d < NR_OPEN \<and> filp st' d = Some j} = insert fd {d. d < NR_OPEN \<and> filp st d = Some j}" using assms by auto
  then show ?thesis using True assms(2) finite_refs by (simp add: refs_def)
next
  case False
  then have "{d. d < NR_OPEN \<and> filp st' d = Some j} = {d. d < NR_OPEN \<and> filp st d = Some j}" using assms(2,3) by auto
  then show ?thesis using False by (simp add: refs_def)
qed

lemma refs_remove:
  assumes "fd < NR_OPEN" and "filp st fd = Some i" and "filp st' = (filp st)(fd := None)"
  shows "refs st j = (if j = i then refs st' j + 1 else refs st' j)"
  by (rule refs_add[OF assms(1)]) (use assms(2,3) in auto)

lemma unat_succ_u16: "unat (w :: u16) + 1 < 65536 \<Longrightarrow> unat (w + 1) = unat w + 1"
  by (simp add: unat_word_ariths)

lemma unat_pred_u16: "w \<noteq> 0 \<Longrightarrow> unat (w - 1 :: u16) = unat w - 1"
  by (rule unat_minus_one)

lemma countedD: "counted others st \<Longrightarrow> i < NR_FILE \<Longrightarrow> unat (f_count (file_table st i)) = others i + refs st i"
  "counted others st \<Longrightarrow> fd < NR_OPEN \<Longrightarrow> filp st fd = Some i \<Longrightarrow> i < NR_FILE"
  unfolding counted_def by blast+

text \<open>A call that changes neither descriptors nor counts.\<close>

definition same_refs :: "fproc \<Rightarrow> fproc \<Rightarrow> bool" where
  "same_refs st st' \<longleftrightarrow> filp st' = filp st \<and> (\<forall>i. f_count (file_table st' i) = f_count (file_table st i))"

lemma same_refs_refl [simp]: "same_refs st st" by (simp add: same_refs_def)

lemma same_refs_trans: "same_refs a b \<Longrightarrow> same_refs b c \<Longrightarrow> same_refs a c" by (simp add: same_refs_def)

lemma same_refs_counted: "same_refs st st' \<Longrightarrow> counted others st' = counted others st"
  by (simp add: same_refs_def counted_def refs_def)

lemma same_refs_fields [simp]:
  "same_refs st (st\<lparr>p_caller := c\<rparr>)" "same_refs st (st\<lparr>close_on_exec := x\<rparr>)" "same_refs st (st\<lparr>p_sys := y\<rparr>)"
  "same_refs st (st\<lparr>p_steps := e\<rparr>)" "same_refs st (st\<lparr>p_tty := z\<rparr>)" "same_refs st (st\<lparr>p_pipe := p\<rparr>)"
  by (simp_all add: same_refs_def)

lemma same_refs_upd: "(\<And>f. f_count (g f) = f_count f) \<Longrightarrow> same_refs st (upd_ofile i g st)"
  by (simp add: same_refs_def upd_ofile_def)

lemma same_refs_upd_const: "f_count f = f_count (file_table st i) \<Longrightarrow> same_refs st (upd_ofile i (\<lambda>_. f) st)"
  by (simp add: same_refs_def upd_ofile_def)

lemma call_io_refs: "call_io m st = Inr (a, st') \<Longrightarrow> same_refs st st'"
  by (auto simp: call_io_def kbind_Inr_iff same_refs_def)

lemma call_tty_refs: "call_tty m st = Inr (a, st') \<Longrightarrow> same_refs st st'"
  by (auto simp: call_tty_def kbind_Inr_iff same_refs_def)

lemma call_pipe_refs: "call_pipe i m st = Inr (a, st') \<Longrightarrow> same_refs st st'"
  by (auto simp: call_pipe_def same_refs_def upd_me_def split: option.splits)

lemma clear_cloexec_refs [simp]: "same_refs st (clear_cloexec fd st)"
  by (simp add: clear_cloexec_def)

section \<open>Every call keeps the counts\<close>

lemma counted_add:
  assumes "counted others st" and "few others" and "fd < NR_OPEN" and "filp st fd = None" and "i < NR_FILE"
    and "filp st' = (filp st)(fd \<mapsto> i)" and "\<And>j. f_count (file_table st' j) = f_count (file_table st j) + (if j = i then 1 else 0)"
  shows "counted others st'"
  unfolding counted_def
proof (intro conjI allI impI)
  show "unat (f_count (file_table st' j)) = others j + refs st' j" if "j < NR_FILE" for j
  proof (cases "j = i")
    case True
    have "others i + refs st i + 1 < 65536"
      using refs_le[of st i] refs_add[OF assms(3,4,6), of i] refs_le[of st' i] assms(2,5) unfolding few_def by (metis add.assoc le_less_trans nat_add_left_cancel_le)
    then have "unat (f_count (file_table st i) + 1) = unat (f_count (file_table st i)) + 1"
      by (intro unat_succ_u16) (simp add: countedD(1)[OF assms(1,5)])
    then show ?thesis using True assms(7)[of i] countedD(1)[OF assms(1,5)] refs_add[OF assms(3,4,6), of i] by simp
  next
    case False
    then show ?thesis using assms(7)[of j] countedD(1)[OF assms(1) that] refs_add[OF assms(3,4,6), of j] by simp
  qed
  show "j < NR_FILE" if "d < NR_OPEN" "filp st' d = Some j" for d j
    using that assms(5,6) countedD(2)[OF assms(1)] by (auto split: if_splits)
qed

lemma counted_remove:
  assumes "counted others st" and "fd < NR_OPEN" and "filp st fd = Some i"
    and "filp st' = (filp st)(fd := None)" and "\<And>j. f_count (file_table st' j) = f_count (file_table st j) - (if j = i then 1 else 0)"
    and "f_count (file_table st i) \<noteq> 0"
  shows "counted others st'"
  unfolding counted_def
proof (intro conjI allI impI)
  show "unat (f_count (file_table st' j)) = others j + refs st' j" if "j < NR_FILE" for j
    using assms(5)[of j] countedD(1)[OF assms(1) that] refs_remove[OF assms(2-4), of j] unat_pred_u16[OF assms(6)]
    by (cases "j = i") simp_all
  show "j < NR_FILE" if "d < NR_OPEN" "filp st' d = Some j" for d j
    using that assms(4) countedD(2)[OF assms(1)] by (auto split: if_splits)
qed

lemma counted_in_use:
  assumes "counted others st" and "fd < NR_OPEN" and "filp st fd = Some i"
  shows "f_count (file_table st i) \<noteq> 0"
proof -
  have "fd \<in> {d. d < NR_OPEN \<and> filp st d = Some i}" using assms(2,3) by simp
  then have "0 < refs st i" using finite_refs[of "\<lambda>d. filp st d = Some i"] unfolding refs_def by (metis card_gt_0_iff empty_iff)
  then show ?thesis using countedD(1)[OF assms(1) countedD(2)[OF assms]] by auto
qed

lemma sys_close_counted:
  assumes "counted others st" and "sys_close fu fd st = Inr (r, st')"
  shows "counted others st'"
proof -
  let ?a = "clear_cloexec fd st"
  have ca: "counted others ?a" using assms(1) same_refs_counted[OF clear_cloexec_refs] by blast
  consider "fd \<ge> NR_OPEN \<or> filp ?a fd = None" | i where "fd < NR_OPEN" "filp ?a fd = Some i" by (metis not_le not_None_eq)
  then show ?thesis
  proof cases
    case 1
    then show ?thesis using assms ca by (auto simp: sys_close_def Let_def split: if_splits)
  next
    case (2 i)
    let ?b = "upd_ofile i (\<lambda>f. f\<lparr>f_count := f_count f - 1\<rparr>) (?a\<lparr>filp := (filp ?a)(fd := None)\<rparr>)"
    note nz = counted_in_use[OF ca 2]
    have cb: "counted others ?b" by (rule counted_remove[OF ca 2 _ _ nz]) (simp_all add: upd_ofile_def)
    have "st' = ?b \<or> (\<exists>u. call_io (iput_io fu (f_inode (file_table ?b i))) ?b = Inr (u, st'))"
      using assms(2) 2 nz by (auto simp: sys_close_def Let_def kbind_Inr_iff split: if_splits)
    then show ?thesis
    proof (elim disjE exE)
      assume "st' = ?b"
      then show ?thesis using cb by (simp only:)
    next
      fix u assume "call_io (iput_io fu (f_inode (file_table ?b i))) ?b = Inr (u, st')"
      from same_refs_counted[OF call_io_refs[OF this]] cb show ?thesis by (simp only:)
    qed
  qed
qed

lemma find_SomeD: "find P xs = Some x \<Longrightarrow> x \<in> set xs \<and> P x"
  by (rule find_Some_iff_set)

lemma dupfd_counted:
  assumes "counted others st" and "few others" and "dupfd fd arg st = (r, st')"
  shows "counted others st'"
proof -
  consider "st' = st" | i d where "fd < NR_OPEN" "filp st fd = Some i" "find (\<lambda>d. filp st d = None) [arg..<NR_OPEN] = Some d"
    "st' = upd_ofile i (\<lambda>f. f\<lparr>f_count := f_count f + 1\<rparr>) ((clear_cloexec d st)\<lparr>filp := (filp (clear_cloexec d st))(d \<mapsto> i)\<rparr>)"
    using assms(3) by (auto simp: dupfd_def Let_def split: if_splits option.splits)
  then show ?thesis
  proof cases
    case (2 i d)
    from find_SomeD[OF 2(3)] have d: "d < NR_OPEN" "filp st d = None" by auto
    show ?thesis
      by (rule counted_add[OF assms(1,2) d countedD(2)[OF assms(1) 2(1,2)]]) (simp_all add: 2(4) upd_ofile_def clear_cloexec_def)
  qed (use assms(1) in simp)
qed

lemma sys_dup2_counted:
  assumes "counted others st" and "few others" and "sys_dup2 fu oldfd newfd st = Inr (r, st')"
  shows "counted others st'"
  using assms(3) dupfd_counted[OF sys_close_counted[OF assms(1)] assms(2)] by (auto simp: sys_dup2_def kbind_Inr_iff)

lemma sys_fcntl_counted:
  assumes "counted others st" and "few others" and "sys_fcntl fd cmd arg st = (r, st')"
  shows "counted others st'"
proof -
  have s: "counted others (st\<lparr>close_on_exec := x\<rparr>)" "counted others (clear_cloexec fd st)"
    "counted others (upd_ofile i (\<lambda>f. f\<lparr>f_flags := g f\<rparr>) st)" for x i g
    using assms(1) same_refs_counted[OF same_refs_fields(2)] same_refs_counted[OF clear_cloexec_refs]
      same_refs_counted[OF same_refs_upd[of "\<lambda>f. f\<lparr>f_flags := g f\<rparr>"]] by simp_all
  show ?thesis using assms(1,3) s dupfd_counted[OF assms(1,2)]
    unfolding sys_fcntl_def by (auto split: if_splits option.splits)
qed

lemma give_back_counted:
  assumes "counted others st" and "others i = 0" and "fd < NR_OPEN" and "filp st' = (filp st)(fd \<mapsto> i)" and "filp st fd = None"
    and "\<And>j. j \<noteq> i \<Longrightarrow> f_count (file_table st' j) = f_count (file_table st j)" and "f_count (file_table st i) = 0"
  shows "counted others (give_back fd i st')"
proof -
  have "same_refs st (give_back fd i st')"
    using assms(4-7) by (auto simp: same_refs_def give_back_def upd_ofile_def)
  then show ?thesis using assms(1) same_refs_counted by blast
qed

lemma check_char_dev_refs: "check_char_dev n dev flag st = (b, st') \<Longrightarrow> same_refs st st'"
  by (auto simp: check_char_dev_def Let_def same_refs_def upd_me_def split: if_splits)

lemma sys_open_counted:
  assumes "counted others st" and "few others" and "sys_open oo path flag mode st = Inr (r, st')"
  shows "counted others st'"
proof (cases "find (\<lambda>fd. filp st fd = None) [0..<NR_OPEN]")
  case None
  with assms show ?thesis by (simp add: sys_open_def)
next
  case (Some fd)
  let ?a = "clear_cloexec fd st"
  have ca: "counted others ?a" using assms(1) same_refs_counted[OF clear_cloexec_refs] by blast
  from find_SomeD[OF Some] have fd: "fd < NR_OPEN" "filp ?a fd = None" by (auto simp: clear_cloexec_def)
  show ?thesis
  proof (cases "find (\<lambda>i. f_count (file_table ?a i) = 0) [0..<NR_FILE]")
    case None
    with assms(3) Some ca show ?thesis by (simp add: sys_open_def Let_def)
  next
    case i: (Some i)
    from find_SomeD[OF i] have i': "i < NR_FILE" "f_count (file_table ?a i) = 0" by auto
    then have o0: "others i = 0" using countedD(1)[OF ca i'(1)] by simp
    let ?b = "upd_ofile i (\<lambda>f. f\<lparr>f_count := f_count f + 1\<rparr>) (?a\<lparr>filp := (filp ?a)(fd \<mapsto> i)\<rparr>)"
    have cb: "counted others ?b" by (rule counted_add[OF ca assms(2) fd i'(1)]) (simp_all add: upd_ofile_def)
    have b1: "f_count (file_table ?b i) = 1" using i'(2) by (simp add: upd_ofile_def)
    from assms(3) Some i obtain q n c where c: "call_io (open_namei (o_fuel oo) (p_caller ?b) path flag
          (mode AND (0x1FF AND NOT (umask (me st))))) ?b = Inr ((q, n), c)"
      and rest: "(if q < 0 then Inr (q, give_back fd i c)
         else case n of None \<Rightarrow> Inl NullDeref | Some n \<Rightarrow> open_inode oo fd i n flag c) = Inr (r, st')"
      by (auto simp: sys_open_def Let_def kbind_Inr_iff)
    have bc: "same_refs ?b c" by (rule call_io_refs[OF c])
    have gb: "counted others (give_back fd i u)" if "same_refs ?b u" for u
      by (rule give_back_counted[OF ca o0 fd(1) _ fd(2) _ i'(2)]) (use that in \<open>auto simp: same_refs_def upd_ofile_def\<close>)
    show ?thesis
    proof (cases "q < 0")
      case True
      then show ?thesis using rest gb[OF bc] by simp
    next
      case False
      with rest obtain m where oi: "open_inode oo fd i m flag c = Inr (r, st')" by (auto split: option.splits)
      obtain busy d where d: "(if s_ischr (i_mode (inode_of m c)) then check_char_dev m (i_zone (inode_of m c) 0) flag c else (False, c)) = (busy, d)"
        by fastforce
      have cd: "same_refs c d" using d check_char_dev_refs by (auto split: if_splits)
      note bd = same_refs_trans[OF bc cd]
      show ?thesis
      proof (cases busy)
        case True
        with oi d obtain u e where "call_io (iput_io (o_fuel oo) (Some m)) d = Inr (u, e)" "st' = give_back fd i e"
          by (auto simp: open_inode_def Let_def kbind_Inr_iff)
        then show ?thesis using gb[OF same_refs_trans[OF bd call_io_refs]] by simp
      next
        case False
        let ?e = "if s_isblk (i_mode (inode_of m d)) then d\<lparr>p_sys := o_disk_change oo (i_zone (inode_of m d) 0) (p_sys d)\<rparr> else d"
        have be: "same_refs ?b ?e" using same_refs_trans[OF bd, of ?e] by (simp split: if_splits)
        have "st' = upd_ofile i (\<lambda>f. f\<lparr>f_mode := i_mode (inode_of m ?e), f_flags := ucast flag, f_count := 1, f_inode := Some m, f_pos := 0\<rparr>) ?e"
          using oi d False by (simp add: open_inode_def Let_def split: if_splits)
        then have "same_refs ?b st'" using be b1 by (simp add: same_refs_def upd_ofile_def split: if_splits)
        then show ?thesis using cb same_refs_counted by blast
      qed
    qed
  qed
qed

lemma file_read_count: "file_read ino f cnt s = Inr (r, bs, ino', f', t) \<Longrightarrow> f_count f' = f_count f"
  by (auto simp: file_read_def kbind_Inr_iff split: if_splits)

lemma file_write_count: "file_write ino f bs s = Inr (r, ino', f', t) \<Longrightarrow> f_count f' = f_count f"
  by (auto simp: file_write_def Let_def kbind_Inr_iff split: if_splits)

lemma on_file_refs:
  assumes "on_file i n m st = Inr (a, st')" and "\<And>ino fs b ino' f' fs'. m ino (file_table st i) fs = Inr (b, ino', f', fs') \<Longrightarrow> f_count f' = f_count (file_table st i)"
  shows "same_refs st st'"
  using assms by (auto simp: on_file_def kbind_Inr_iff same_refs_def upd_ofile_def)

lemma on_device_refs: "on_device i m st = Inr (a, st') \<Longrightarrow> same_refs st st'"
  by (auto simp: on_device_def kbind_Inr_iff same_refs_def upd_ofile_def)

lemma rw_ttyx_refs: "rw_ttyx oo minor x st = Inr (a, st') \<Longrightarrow> same_refs st st'"
  by (auto simp: rw_ttyx_def split: rw.splits dest: call_tty_refs)

lemma rw_char_refs: "rw_char oo x dev pos st = Inr (a, st') \<Longrightarrow> same_refs st st'"
  by (auto simp: rw_char_def Let_def rw_memory_def rw_port_def rw_tty_def kbind_Inr_iff split: if_splits rw.splits dest: rw_ttyx_refs)

lemma on_char_refs:
  assumes "on_char oo x i dev st = Inr (a, st')"
  shows "same_refs st st'"
proof -
  from assms obtain b pos bs u where u: "rw_char oo x dev (f_pos (file_table st i)) st = Inr ((b, pos, bs), u)" "st' = upd_ofile i (\<lambda>f. f\<lparr>f_pos := pos\<rparr>) u"
    by (auto simp: on_char_def kbind_Inr_iff)
  show ?thesis unfolding u(2) by (rule same_refs_trans[OF rw_char_refs[OF u(1)] same_refs_upd]) simp
qed

lemma sys_read_refs:
  assumes "sys_read oo fd cnt st = Inr (a, st')"
  shows "same_refs st st'"
  using assms unfolding sys_read_def Let_def
  by (auto split: if_splits option.splits dest: call_pipe_refs on_char_refs on_device_refs
      elim!: on_file_refs simp: kbind_Inr_iff file_read_count)

lemma sys_write_refs:
  assumes "sys_write oo fd bs st = Inr (a, st')"
  shows "same_refs st st'"
  using assms unfolding sys_write_def Let_def
  by (auto split: if_splits option.splits dest: call_pipe_refs on_char_refs on_device_refs
      elim!: on_file_refs simp: kbind_Inr_iff file_write_count)

lemma sys_lseek_refs: "sys_lseek fd offset origin st = (r, st') \<Longrightarrow> same_refs st st'"
  by (auto simp: sys_lseek_def Let_def same_refs_def upd_ofile_def split: if_splits option.splits)

end
