(* ===== verification/Descriptors.thy ===== *)
theory Descriptors
  imports FileCalls
begin

text \<open>
  Runs of calls on descriptors, with the counts of the file table as their invariant (\<open>transition_system\<close>), what fork and exit do to
  the counts, and reading back through descriptors what was written.
\<close>

section \<open>Runs of calls\<close>

datatype fd_call = COpen "u8 list" u32 u16 | CClose nat | CDup nat | CDup2 nat nat | CFcntl nat u32 u32
  | CLseek nat int int | CRead nat int | CWrite nat "u8 list" | CIoctl nat u32 u32 user_mem

definition fd_result :: "outside \<Rightarrow> fd_call \<Rightarrow> fproc \<Rightarrow> fproc kres" where
  "fd_result oo c st =
     (case c of
        COpen path flag mode \<Rightarrow> kbind (sys_open oo path flag mode st) (\<lambda>(_, s). Inr s)
      | CClose fd \<Rightarrow> kbind (sys_close (o_fuel oo) fd st) (\<lambda>(_, s). Inr s)
      | CDup fd \<Rightarrow> Inr (snd (sys_dup fd st))
      | CDup2 a b \<Rightarrow> kbind (sys_dup2 (o_fuel oo) a b st) (\<lambda>(_, s). Inr s)
      | CFcntl fd cmd arg \<Rightarrow> Inr (snd (sys_fcntl fd cmd arg st))
      | CLseek fd ofs origin \<Rightarrow> Inr (snd (sys_lseek fd ofs origin st))
      | CRead fd n \<Rightarrow> kbind (sys_read oo fd n st) (\<lambda>(_, s). Inr s)
      | CWrite fd bs \<Rightarrow> kbind (sys_write oo fd bs st) (\<lambda>(_, s). Inr s)
      | CIoctl fd cmd arg u \<Rightarrow> kbind (sys_ioctl oo fd cmd arg u st) (\<lambda>(_, s). Inr s))"

text \<open>A call that does not return leaves the state it was made in.\<close>

definition fd_step :: "outside \<Rightarrow> fproc \<Rightarrow> fd_call \<Rightarrow> fproc" where
  "fd_step oo st c = (case fd_result oo c st of Inl _ \<Rightarrow> st | Inr s \<Rightarrow> s)"

lemma sys_ioctl_refs: "sys_ioctl oo fd cmd arg u st = Inr (a, st') \<Longrightarrow> same_refs st st'"
  by (auto simp: sys_ioctl_def ioctl_file_def Let_def split: option.splits if_splits prod.splits dest: call_tty_refs)

lemma fd_result_counted:
  assumes "counted others st" and "few others" and "fd_result oo c st = Inr st'"
  shows "counted others st'"
proof -
  have same: "counted others u" if "same_refs st u" for u using same_refs_counted[OF that] assms(1) by blast
  show ?thesis
  proof (cases c)
    case (COpen path flag mode)
    then show ?thesis using assms(3) sys_open_counted[OF assms(1,2)] by (auto simp: fd_result_def kbind_Inr_iff)
  next
    case (CClose fd)
    then show ?thesis using assms(3) sys_close_counted[OF assms(1)] by (auto simp: fd_result_def kbind_Inr_iff)
  next
    case (CDup fd)
    then show ?thesis using assms(3) dupfd_counted[OF assms(1,2), of fd 0] by (cases "sys_dup fd st") (auto simp: fd_result_def sys_dup_def)
  next
    case (CDup2 a b)
    then show ?thesis using assms(3) sys_dup2_counted[OF assms(1,2)] by (auto simp: fd_result_def kbind_Inr_iff)
  next
    case (CFcntl fd cmd arg)
    then show ?thesis using assms(3) sys_fcntl_counted[OF assms(1,2), of fd cmd arg]
      by (cases "sys_fcntl fd cmd arg st") (auto simp: fd_result_def)
  next
    case (CLseek fd ofs origin)
    then show ?thesis using assms(3) same[OF sys_lseek_refs[of fd ofs origin]]
      by (cases "sys_lseek fd ofs origin st") (auto simp: fd_result_def)
  next
    case (CRead fd n)
    then show ?thesis using assms(3) same[OF sys_read_refs] by (auto simp: fd_result_def kbind_Inr_iff)
  next
    case (CWrite fd bs)
    then show ?thesis using assms(3) same[OF sys_write_refs] by (auto simp: fd_result_def kbind_Inr_iff)
  next
    case (CIoctl fd cmd arg u)
    then show ?thesis using assms(3) same[OF sys_ioctl_refs] by (auto simp: fd_result_def kbind_Inr_iff)
  qed
qed

interpretation descriptors: transition_system "fd_step oo" "\<lambda>st. few others \<and> counted others st" for oo others
  by unfold_locales (auto simp: fd_step_def fd_result_counted split: sum.splits)

section \<open>Exit and fork\<close>

lemma sys_close_filp:
  assumes "sys_close fu fd st = Inr (r, st')"
  shows "filp st' d = (if d = fd \<and> fd < NR_OPEN then None else filp st d)"
proof -
  let ?a = "clear_cloexec fd st"
  have fa: "filp ?a = filp st" by (simp add: clear_cloexec_def)
  consider "fd \<ge> NR_OPEN \<or> filp st fd = None" | i where "fd < NR_OPEN" "filp st fd = Some i" by (metis not_le not_None_eq)
  then show ?thesis
  proof cases
    case 1
    then show ?thesis using assms by (auto simp: sys_close_def Let_def fa split: if_splits)
  next
    case (2 i)
    let ?b = "upd_ofile i (\<lambda>f. f\<lparr>f_count := f_count f - 1\<rparr>) (?a\<lparr>filp := (filp ?a)(fd := None)\<rparr>)"
    have fb: "filp ?b d = (if d = fd then None else filp st d)" by (simp add: upd_ofile_def fa)
    have "st' = ?b \<or> (\<exists>u. call_io (iput_io fu (f_inode (file_table ?b i))) ?b = Inr (u, st'))"
      using assms 2 by (auto simp: sys_close_def Let_def fa kbind_Inr_iff split: if_splits)
    then have "filp st' = filp ?b"
    proof (elim disjE exE)
      fix u assume "call_io (iput_io fu (f_inode (file_table ?b i))) ?b = Inr (u, st')"
      from call_io_refs[OF this] show ?thesis by (simp only: same_refs_def)
    qed (simp only:)
    then show ?thesis using fb 2(1) by simp
  qed
qed

lemma upt_open: "set [0..<NR_OPEN] \<subseteq> {..<NR_OPEN}"
  by auto

lemma close_all_done:
  assumes "counted others st" and "close_all fu fds st = Inr st'" and "set fds \<subseteq> {..<NR_OPEN}"
  shows "counted others st' \<and> (\<forall>d. filp st' d = (if d \<in> set fds then None else filp st d))"
  using assms
proof (induction fds arbitrary: st)
  case (Cons fd fds)
  show ?case
  proof (cases "filp st fd = None")
    case True
    then have "close_all fu fds st = Inr st'" using Cons.prems(2) by simp
    from Cons.IH[OF Cons.prems(1) this] Cons.prems(3) True show ?thesis by auto
  next
    case False
    then obtain r st1 where c: "sys_close fu fd st = Inr (r, st1)" "close_all fu fds st1 = Inr st'"
      using Cons.prems(2) by (auto simp: kbind_Inr_iff)
    have fd: "fd < NR_OPEN" using Cons.prems(3) by simp
    from Cons.IH[OF sys_close_counted[OF Cons.prems(1) c(1)] c(2)] Cons.prems(3) sys_close_filp[OF c(1)] fd
    show ?thesis by auto
  qed
qed simp

lemma exit_files_counts:
  assumes "counted others st" and "exit_files fu st = Inr st'" and "i < NR_FILE"
  shows "unat (f_count (file_table st' i)) = others i"
proof -
  from close_all_done[OF assms(1) assms(2)[unfolded exit_files_def] upt_open]
  have c: "counted others st'" "\<forall>fd<NR_OPEN. filp st' fd = None" by auto
  have "{fd. fd < NR_OPEN \<and> filp st' fd = Some i} = {}" using c(2) by auto
  then have "refs st' i = 0" unfolding refs_def by (simp only: card.empty)
  then show ?thesis using countedD(1)[OF c(1) assms(3)] by simp
qed

lemma fork_fold:
  assumes "set fds \<subseteq> {..<NR_OPEN}"
  shows "filp (foldl (\<lambda>s fd. case filp s fd of None \<Rightarrow> s | Some i \<Rightarrow> upd_ofile i (\<lambda>f. f\<lparr>f_count := f_count f + 1\<rparr>) s) st fds) = filp st \<and>
    f_count (file_table (foldl (\<lambda>s fd. case filp s fd of None \<Rightarrow> s | Some i \<Rightarrow> upd_ofile i (\<lambda>f. f\<lparr>f_count := f_count f + 1\<rparr>) s) st fds) j) =
      f_count (file_table st j) + of_nat (length (filter (\<lambda>fd. filp st fd = Some j) fds))"
  using assms
proof (induction fds arbitrary: st)
  case (Cons fd fds)
  show ?case
  proof (cases "filp st fd")
    case None
    then show ?thesis using Cons by simp
  next
    case (Some i)
    have f: "filp (upd_ofile i (\<lambda>f. f\<lparr>f_count := f_count f + 1\<rparr>) st) = filp st" by (simp add: upd_ofile_def)
    show ?thesis using Cons.IH[of "upd_ofile i (\<lambda>f. f\<lparr>f_count := f_count f + 1\<rparr>) st"] Cons.prems Some
      by (simp add: f) (simp add: upd_ofile_def)
  qed
qed simp

text \<open>After a fork the child's references are counted too.\<close>

lemma fork_files_counted:
  assumes "counted others st" and "few others" and "\<forall>i<NR_FILE. others i + 2 * NR_OPEN < 65536"
  shows "counted (\<lambda>i. others i + refs st i) (fork_files st)"
proof -
  let ?n = "\<lambda>j. length (filter (\<lambda>fd. filp st fd = Some j) [0..<NR_OPEN])"
  have n: "?n j = refs st j" for j
  proof -
    have "{fd. fd < NR_OPEN \<and> filp st fd = Some j} = set (filter (\<lambda>fd. filp st fd = Some j) [0..<NR_OPEN])" by auto
    then show ?thesis unfolding refs_def by (simp only: distinct_card[OF distinct_filter[OF distinct_upt]])
  qed
  have F: "filp (fork_files st) = filp st" "f_count (file_table (fork_files st) j) = f_count (file_table st j) + of_nat (refs st j)" for j
    using fork_fold[OF upt_open, of st j] n[of j] by (auto simp: fork_files_def)
  have r: "refs (fork_files st) j = refs st j" for j by (rule refs_cong[OF F(1)])
  show ?thesis
    unfolding counted_def
  proof (intro conjI allI impI)
    show "unat (f_count (file_table (fork_files st) i)) = others i + refs st i + refs (fork_files st) i" if i: "i < NR_FILE" for i
    proof -
      have "others i + refs st i + refs st i < 65536" using assms(3) i refs_le[of st i] by fastforce
      then have "unat (f_count (file_table st i) + of_nat (refs st i)) = others i + refs st i + refs st i"
        by (simp add: unat_word_ariths unat_of_nat countedD(1)[OF assms(1) i])
      then show ?thesis by (simp add: F(2) r)
    qed
    show "i < NR_FILE" if "fd < NR_OPEN" "filp (fork_files st) fd = Some i" for fd i
      using that countedD(2)[OF assms(1)] F(1) by auto
  qed
qed

section \<open>What a call does with a descriptor\<close>

text \<open>A new descriptor is the lowest that is free, and stands for a new open file at position 0.\<close>

lemma find_lowest: "find P [0..<n] = Some x \<Longrightarrow> x < n \<and> P x \<and> (\<forall>y<x. \<not> P y)"
  by (auto simp: find_Some_iff)

lemma sys_open_lowest:
  assumes "sys_open oo path flag mode st = Inr (r, st')" and "0 \<le> r"
  shows "\<exists>fd i n. r = int fd \<and> fd < NR_OPEN \<and> filp st fd = None \<and> (\<forall>d<fd. filp st d \<noteq> None) \<and> i < NR_FILE \<and>
    f_count (file_table st i) = 0 \<and> filp st' = (filp st)(fd \<mapsto> i) \<and> f_count (file_table st' i) = 1 \<and>
    f_inode (file_table st' i) = Some n \<and> f_pos (file_table st' i) = 0 \<and> f_flags (file_table st' i) = ucast flag"
proof -
  have ne: "\<not> 0 \<le> - EINVAL" "\<not> 0 \<le> - EAGAIN" by (simp_all add: EINVAL_def EAGAIN_def)
  obtain fd where fd: "find (\<lambda>fd. filp st fd = None) [0..<NR_OPEN] = Some fd"
    using assms ne by (auto simp: sys_open_def split: option.splits)
  let ?a = "clear_cloexec fd st"
  obtain i where i: "find (\<lambda>i. f_count (file_table ?a i) = 0) [0..<NR_FILE] = Some i"
    using assms ne fd by (auto simp: sys_open_def Let_def split: option.splits)
  let ?b = "upd_ofile i (\<lambda>f. f\<lparr>f_count := f_count f + 1\<rparr>) (?a\<lparr>filp := (filp ?a)(fd \<mapsto> i)\<rparr>)"
  from assms(1) fd i obtain q n c where c: "call_io (open_namei (o_fuel oo) (p_caller ?b) path flag
        (mode AND (0x1FF AND NOT (umask (me st))))) ?b = Inr ((q, n), c)"
    and rest: "(if q < 0 then Inr (q, give_back fd i c)
       else case n of None \<Rightarrow> Inl NullDeref | Some n \<Rightarrow> open_inode oo fd i n flag c) = Inr (r, st')"
    by (auto simp: sys_open_def Let_def kbind_Inr_iff)
  from rest assms(2) obtain m where oi: "open_inode oo fd i m flag c = Inr (r, st')" by (auto split: if_splits option.splits)
  obtain busy d where d: "(if s_ischr (i_mode (inode_of m c)) then check_char_dev m (i_zone (inode_of m c) 0) flag c else (False, c)) = (busy, d)"
    by fastforce
  have "\<not> busy" using oi d assms(2) ne by (auto simp: open_inode_def Let_def kbind_Inr_iff)
  let ?e = "if s_isblk (i_mode (inode_of m d)) then d\<lparr>p_sys := o_disk_change oo (i_zone (inode_of m d) 0) (p_sys d)\<rparr> else d"
  have st': "r = int fd" "st' = upd_ofile i (\<lambda>f. f\<lparr>f_mode := i_mode (inode_of m ?e), f_flags := ucast flag, f_count := 1, f_inode := Some m, f_pos := 0\<rparr>) ?e"
    using oi d \<open>\<not> busy\<close> by (simp_all add: open_inode_def Let_def split: if_splits)
  have cd: "same_refs c d" using d check_char_dev_refs by (auto split: if_splits)
  have "filp ?e = filp d" by simp
  moreover have "filp d = filp ?b" using same_refs_trans[OF call_io_refs[OF c] cd] by (simp only: same_refs_def)
  moreover have "filp ?b = (filp st)(fd \<mapsto> i)" by (simp add: upd_ofile_def clear_cloexec_def)
  ultimately have f: "filp st' = (filp st)(fd \<mapsto> i)" unfolding st'(2) by (simp add: upd_ofile_def)
  have "file_table ?a = file_table st" by (simp add: clear_cloexec_def)
  then show ?thesis using find_lowest[OF fd] find_lowest[OF i] f st'(1)
    by (intro exI[of _ fd] exI[of _ i] exI[of _ m]) (simp add: st'(2) upd_ofile_def)
qed

text \<open>Writing, seeking back and reading through a descriptor.\<close>

definition regular_fd :: "fproc \<Rightarrow> nat \<Rightarrow> nat \<Rightarrow> nat \<Rightarrow> bool" where
  "regular_fd st fd i n \<longleftrightarrow>
     fd < NR_OPEN \<and> filp st fd = Some i \<and> f_inode (file_table st i) = Some n \<and> f_flags (file_table st i) AND O_APPEND = 0 \<and>
     \<not> i_pipe (inode_of n st) \<and> i_mode (inode_of n st) AND 0xF000 = 0x8000 \<and> IS_SEEKABLE (i_dev (inode_of n st))"

lemma regular_fdD:
  assumes "regular_fd st fd i n"
  shows "fd < NR_OPEN" and "filp st fd = Some i" and "f_inode (file_table st i) = Some n" and "f_flags (file_table st i) AND O_APPEND = 0"
    and "\<not> i_pipe (inode_of n st)" and "i_mode (inode_of n st) AND 0xF000 = 0x8000" and "IS_SEEKABLE (i_dev (inode_of n st))"
  using assms unfolding regular_fd_def by blast+

lemma bmap_gen_kind: "bmap_gen ino b create s = Inr (z, ino', t) \<Longrightarrow> i_mode ino' = i_mode ino \<and> i_pipe ino' = i_pipe ino"
proof -
  have az: "alloc_zone n slot create f = Inr (m, g) \<Longrightarrow> i_mode m = i_mode n \<and> i_pipe m = i_pipe n" for n m f g slot
    by (auto simp: alloc_zone_def Let_def kbind_Inr_iff split: if_splits)
  show "bmap_gen ino b create s = Inr (z, ino', t) \<Longrightarrow> ?thesis"
    by (auto simp: bmap_gen_def Let_def kbind_Inr_iff split: if_splits dest: az)
qed

lemma file_write_loop_kind:
  "file_write_loop ino pos bs s = Inr (n, ino', t) \<Longrightarrow> i_mode ino' = i_mode ino \<and> i_pipe ino' = i_pipe ino"
proof (induction bs arbitrary: pos s ino n rule: length_induct)
  case (1 bs)
  show ?case
  proof (cases "bs = []")
    case True
    with 1(2) show ?thesis by (subst (asm) file_write_loop.simps) simp
  next
    case False
    let ?c = "min (1024 - pos mod 1024) (length bs)"
    have l: "length (drop ?c bs) < length bs" using False by simp
    from 1(2) False obtain z ino1 s1 where cb: "create_block ino (int (pos div 1024)) s = Inr (z, ino1, s1)"
      by (subst (asm) file_write_loop.simps) (auto simp: Let_def kbind_Inr_iff)
    note k = bmap_gen_kind[OF cb[unfolded create_block_def]]
    show ?thesis
    proof (cases "z = 0")
      case True
      with 1(2) False cb have "ino' = ino1" by (subst (asm) file_write_loop.simps) (simp add: Let_def)
      with k show ?thesis by simp
    next
      case nz: False
      from 1(2) False cb nz obtain ok s2 where br: "bread (i_dev ino1, z) s1 = Inr (ok, s2)"
        by (subst (asm) file_write_loop.simps) (auto simp: Let_def kbind_Inr_iff)
      show ?thesis
      proof (cases ok)
        case f: False
        with 1(2) False cb nz br have "ino' = ino1" by (subst (asm) file_write_loop.simps) (simp add: Let_def)
        with k show ?thesis by simp
      next
        case True
        let ?inode = "if pos + ?c > unat (i_size ino1) then ino1\<lparr>i_size := of_nat (pos + ?c), i_dirt := True\<rparr> else ino1"
        from 1(2) False cb nz br True obtain u m where
          "brelse (i_dev ino1, z) (upd_buf (i_dev ino1, z) (\<lambda>b. b\<lparr>b_data := put_bytes (pos mod 1024) (take ?c bs) (b_data b), b_dirt := True\<rparr>) s2) = Inr u"
          and loop: "file_write_loop ?inode (pos + ?c) (drop ?c bs) u = Inr (m, ino', t)" and "n = ?c + m"
          by (subst (asm) file_write_loop.simps) (auto simp: Let_def kbind_Inr_iff)
        from 1(1) l loop have "i_mode ino' = i_mode ?inode \<and> i_pipe ino' = i_pipe ?inode" by blast
        with k show ?thesis by (simp split: if_splits)
      qed
    qed
  qed
qed

text \<open>What \<open>sys_write\<close> does on a regular file.\<close>

lemma sys_write_regular:
  assumes "regular_fd st fd i n" and "bs \<noteq> []" and "sys_write oo fd bs st = Inr (r, st')"
  obtains ino f fs where "file_write (inode_of n st) (file_table st i) bs (ifs (p_sys st)) = Inr (r, ino, f, fs)"
    and "st' = (upd_ofile i (\<lambda>_. f) st)\<lparr>p_sys := upd_inode n (\<lambda>_. ino) ((p_sys st)\<lparr>ifs := fs\<rparr>)\<rparr>"
proof -
  note R = regular_fdD[OF assms(1)]
  have k: "\<not> s_ischr (i_mode (inode_of n st))" "\<not> s_isblk (i_mode (inode_of n st))" "s_isreg (i_mode (inode_of n st))"
    using R(6) by (simp_all add: s_ischr_def s_isblk_def s_isreg_def)
  have "on_file i n (\<lambda>ino f fs. file_write ino f bs fs) st = Inr (r, st')"
    using assms(2,3) R(1-3,5) k by (simp add: sys_write_def Let_def)
  then show thesis by (auto simp: on_file_def kbind_Inr_iff intro: that)
qed

lemma write_seek_read:
  assumes reg: "regular_fd st fd i n" and ok: "fmap_ok (ifs (p_sys st)) k (inode_of n st)" and room: "room 1 (ifs (p_sys st))"
    and w: "sys_write oo fd bs st = Inr (r, st1)" and "0 < r" and max: "f_pos (file_table st i) + r \<le> int MAX_FILE"
  shows "\<exists>st2 st3. sys_lseek fd (f_pos (file_table st i)) 0 st1 = (f_pos (file_table st i), st2) \<and>
    sys_read oo fd r st2 = Inr ((r, take (nat r) bs), st3)"
proof -
  note R = regular_fdD[OF reg]
  let ?p = "f_pos (file_table st i)"
  have "bs \<noteq> []"
  proof
    assume "bs = []"
    with w R(1-3) have "r = 0" by (simp add: sys_write_def)
    with assms(5) show False by simp
  qed
  from sys_write_regular[OF reg this w] obtain ino f fs where
    fw: "file_write (inode_of n st) (file_table st i) bs (ifs (p_sys st)) = Inr (r, ino, f, fs)"
    and st1: "st1 = (upd_ofile i (\<lambda>_. f) st)\<lparr>p_sys := upd_inode n (\<lambda>_. ino) ((p_sys st)\<lparr>ifs := fs\<rparr>)\<rparr>" .
  have wp: "write_pos (inode_of n st) (file_table st i) = ?p" using R(4) by (simp add: write_pos_def)
  from file_write_writes[OF ok fw] obtain m where
    W: "writes k (ifs (p_sys st)) (inode_of n st) (nat ?p) bs m ino fs" and m: "r = (if m = 0 then - 1 else int m)" "0 \<le> ?p"
      "f = (if f_flags (file_table st i) AND O_APPEND \<noteq> 0 then file_table st i else (file_table st i)\<lparr>f_pos := ?p + int m\<rparr>)"
    unfolding wp by metis
  have rm: "r = int m" "0 < m" using m(1) assms(5) by (auto split: if_splits)
  have f: "f = (file_table st i)\<lparr>f_pos := ?p + int m\<rparr>" using m(3) R(4) by simp
  have kind: "i_mode ino = i_mode (inode_of n st)" "i_pipe ino = i_pipe (inode_of n st)"
    using fw file_write_loop_kind by (auto simp: file_write_def Let_def kbind_Inr_iff split: if_splits)
  let ?st2 = "upd_ofile i (\<lambda>f. f\<lparr>f_pos := ?p\<rparr>) st1"
  have ino1: "inode_of n st1 = ino" "inode_of n ?st2 = ino" by (simp_all add: st1 inode_of_def upd_inode_def upd_ofile_def)
  have ft: "file_table st1 i = f" "filp st1 fd = Some i" "f_inode f = Some n" using R(2,3) f by (simp_all add: st1 upd_ofile_def)
  have ft2: "file_table ?st2 i = f\<lparr>f_pos := ?p\<rparr>" "filp ?st2 fd = Some i" "ifs (p_sys ?st2) = fs"
    using R(2) by (simp_all add: st1 upd_ofile_def upd_inode_def)
  have sk: "sys_lseek fd ?p 0 st1 = (?p, ?st2)"
    using R(1,5,7) ft ino1 kind writesD(3)[OF W] m(2) by (simp add: sys_lseek_def Let_def)
  have p1: "file_table st i = f\<lparr>f_pos := ?p\<rparr>" by (simp add: f)
  have r1: "room 1 fs" using room kept_room[OF writesD(4)[OF W]] by simp
  from file_write_then_read[OF ok room fw assms(5)] max obtain ino2 f2 u where
    rd: "file_read ino (f\<lparr>f_pos := ?p\<rparr>) r fs = Inr (r, take (nat r) bs, ino2, f2, u)" unfolding wp by blast
  have sz: "nat ?p + m \<le> unat (i_size ino)" using writesD(7)[OF W] rm(2) by (simp add: max_def split: if_splits)
  have "(word_of_int (r + ?p) :: u32) \<le> i_size ino"
  proof -
    have "0 \<le> r + ?p" "r + ?p < 2 ^ LENGTH(32)" using max m(2) assms(5) by (simp_all add: MAX_FILE_def)
    then have "unat (word_of_int (r + ?p) :: u32) = nat (r + ?p)"
      by (simp only: nat_uint_eq[symmetric] uint_word_of_int mod_pos_pos_trivial)
    then show ?thesis using sz rm m(2) by (simp add: word_le_nat_alt nat_add_distrib)
  qed
  then have "\<not> (word_of_int (r + ?p) :: u32) > i_size ino" by simp
  moreover have "\<not> s_ischr (i_mode ino)" "\<not> s_isblk (i_mode ino)" "s_isreg (i_mode ino)" "\<not> i_pipe ino"
    using R(5,6) kind by (simp_all add: s_ischr_def s_isblk_def s_isreg_def)
  moreover have "f_inode (f\<lparr>f_pos := ?p\<rparr>) = Some n" "f_pos (f\<lparr>f_pos := ?p\<rparr>) = ?p" using ft(3) by simp_all
  ultimately have "sys_read oo fd r ?st2 = Inr ((r, take (nat r) bs), (upd_ofile i (\<lambda>_. f2) ?st2)\<lparr>p_sys := upd_inode n (\<lambda>_. ino2) ((p_sys ?st2)\<lparr>ifs := u\<rparr>)\<rparr>)"
    using rd ft2 ino1(2) R(1) assms(5) by (simp add: sys_read_def Let_def on_file_def)
  with sk show ?thesis by blast
qed

end
