(* ===== verification/Spec2Isabelle.thy ===== *)
theory Spec2Isabelle
  imports Truncate Timer SleepQueue Sys ProcTree Pipe Vsprintf Mktime Paging CacheOps Elevator InodeTable Directory Malloc TtyLine Screen Descriptors
begin

text \<open>
  A model of the Linux 0.12 kernel (the C files under \<open>src/\<close>) with the theorems that say what its parts
  promise. Kernel code is translated function by function, with the names of the source; a routine that
  can panic, follow a null pointer, leave an array or wait for ever returns \<open>kres\<close>, whose left side
  names what went wrong. Integers have the width of the source.

  Theories, in the order in which they build on each other:

  \<^item> \<open>Prelude\<close>: machine integers, results, blocks of bytes with their 16- and 32-bit views, and the
    interfaces several components implement: \<open>allocator\<close> (frames, swap slots), \<open>bounded_fifo\<close> (pipes)
    and their laws.
  \<^item> \<open>FsState\<close>: the records of \<open>include/linux/fs.h\<close> and the buffer cache as the file system sees it: a block
    is read through \<open>bread\<close> and held until \<open>brelse\<close>. It is the contract the file system routines are proved
    against. \<open>Bitmap\<close> (\<open>fs/bitmap.c\<close>), \<open>Bmap\<close> (\<open>_bmap\<close> of \<open>fs/inode.c\<close>) and \<open>Truncate\<close> (\<open>fs/truncate.c\<close>) rest on it:
    zones are handed out once, the map of a file stays free of sharing, truncation gives every zone back.
  \<^item> \<open>Inodes\<close>, \<open>InodeTable\<close>: the rest of \<open>fs/inode.c\<close>: \<open>iget\<close>, \<open>iput\<close>, reading and writing of disk inodes;
    an inode written is read back, and the table has at most one slot for an inode.
  \<^item> \<open>Buffer\<close>, \<open>Cache\<close>, \<open>CacheOps\<close>: \<open>fs/buffer.c\<close>. \<open>cache_rep\<close> relates the links of the buffer heads to a list in
    order of use and a list per hash value; \<open>getblk\<close> takes the least recently used buffer and keeps one
    buffer per block, whatever happens while it sleeps. The transfer of a block, which may sleep too, is known to it by a
    contract (\<open>io_sound\<close>).
  \<^item> \<open>Elevator\<close>: \<open>kernel/blk_drv/ll_rw_blk.c\<close> and \<open>end_request\<close> of \<open>blk.h\<close>; \<open>queue_rep\<close> relates the linked requests
    of a device to a list, which is at most two sweeps of the head. \<open>ll_rw_block_keeps\<close> shows that the block layer, its sleeps
    included, meets the contract of the buffer cache.
  \<^item> \<open>Memory\<close>, \<open>Paging\<close>: \<open>mm/memory.c\<close> and \<open>mm/swap.c\<close>: frames, page tables, copy on write, swapping, sharing.
  \<^item> \<open>Task\<close>, \<open>Sched\<close>, \<open>Timer\<close>, \<open>SleepQueue\<close> (\<open>include/linux/sched.h\<close>, \<open>kernel/sched.c\<close>): the process table, the choice
    of the next task, the queue of timers, and sleeping as a step relation.
  \<^item> \<open>Sys\<close>, \<open>Signal\<close>, \<open>ProcTree\<close> (\<open>kernel/sys.c\<close>, \<open>signal.c\<close>, \<open>fork.c\<close>, \<open>exit.c\<close>): ids, limits, signals, creation
    and end of processes; \<open>tree_rep\<close> relates the family links to lists of children.
  \<^item> \<open>Pipe\<close> (\<open>fs/pipe.c\<close>): the ring of a pipe as a bounded queue of bytes.
  \<^item> \<open>FsIO\<close>, \<open>Namei\<close>, \<open>FsRefs\<close>, \<open>NameiRefs\<close>, \<open>Directory\<close>: \<open>fs/namei.c\<close>. \<open>FsIO\<close> is a small state monad over the inode table and
    the buffers; \<open>Namei\<close> has the calls themselves, \<open>FsRefs\<close> and \<open>NameiRefs\<close> show that each of them gives back the inodes and
    buffers it took, \<open>Directory\<close> that a search finds the first entry of a name.
  \<^item> \<open>Malloc\<close> (\<open>lib/malloc.c\<close>): objects below a page. \<open>heap_rep\<close> relates descriptors and the links inside free objects to
    lists; live objects do not overlap.
  \<^item> \<open>Tty\<close>, \<open>TtyLine\<close> (\<open>include/linux/tty.h\<close>, \<open>kernel/chr_drv/tty_io.c\<close>, \<open>serial.c\<close>, \<open>pty.c\<close>): queues as bounded lists, the line
    discipline as an edit of the collected text, \<open>tty_output\<close> as the contract of a driver.
  \<^item> \<open>Console\<close>, \<open>ConsoleOk\<close>, \<open>Screen\<close> (\<open>kernel/chr_drv/console.c\<close>): the machine behind a console over the video memory. \<open>ConsoleOk\<close>
    shows that it stays in its window (\<open>keeps\<close>, the contract \<open>tty_frame\<close> of a terminal), \<open>Screen\<close> what scrolling and text
    do to the grid of cells.
  \<^item> \<open>FileDev\<close>, \<open>FileBytes\<close> (\<open>fs/file_dev.c\<close>, \<open>block_dev.c\<close>): reading and writing of files and block devices by bytes. \<open>fbyte\<close> is a file
    as an array of bytes; \<open>file_write\<close> overwrites a stretch of it and leaves every other file alone.
  \<^item> \<open>TtyIoctl\<close> (\<open>kernel/chr_drv/tty_ioctl.c\<close>, \<open>tty_init\<close> of \<open>tty_io.c\<close>): the initial terminals and the calls that change their modes;
    every driver and every call keeps the table of terminals well formed (\<open>ttys_ok\<close>).
  \<^item> \<open>Files\<close>, \<open>FileCalls\<close>, \<open>Descriptors\<close> (\<open>fs/open.c\<close>, \<open>read_write.c\<close>, \<open>char_dev.c\<close>, \<open>fcntl.c\<close>, \<open>ioctl.c\<close>, \<open>stat.c\<close>): the calls on descriptors,
    over regular files, directories, devices, terminals and pipes at once. \<open>counted\<close> is the invariant that the count of an open file
    is the number of descriptors that refer to it.
  \<^item> \<open>Vsprintf\<close>, \<open>Mktime\<close> (\<open>kernel/vsprintf.c\<close>, \<open>kernel/mktime.c\<close>): numerals and the calendar.

  Sleeping. Code that may sleep takes a list of steps of its environment, one for each time it sleeps:
  what other processes and the drivers did meanwhile, an arbitrary function on the state. When the list
  is used up while the code still waits the result is \<open>Unfinished\<close>. Theorems on such code hold for every
  list whose steps keep the invariant they name. A wake-up is visible where the sleepers are state
  (\<open>SleepQueue\<close>, \<open>Pipe\<close>) and left to the environment elsewhere.

  Fuel. Loops of the code that are bounded by the state run on fuel that is enough: the number of buffers for
  a walk along a hash queue or the free list, 32 for the request queue, 129 tries for an unused pid
  (\<open>find_empty_process_ends\<close>), one more than the sum of all page counts for \<open>get_free_page\<close>
  (\<open>get_free_page_ends_clear\<close>). Retry loops (\<open>getblk\<close>, \<open>iget\<close>, \<open>iput\<close>, \<open>truncate\<close>) take their fuel from the caller.

  Not modelled: assembly (boot, entry stubs, serial and keyboard interrupts), code that only moves data to and
  from ports of devices (hard disk, floppy, serial lines), mounting, loading of programs, \<open>select\<close>, the floating point emulator, printing of diagnostics (traps, panic, printk),
  the build tools, test programs and the stubs of the user library. PROJECT.json lists
  every part with what is left out of it.
\<close>

section \<open>Concrete states for the witnesses\<close>

text \<open>
  Four processes: the idle task, \<open>init\<close>, its child (the caller) and a child of that one. The
  super block of device 1 has a hundred zones from number 5 and one block of zone map.
\<close>

definition demo_task :: "nat \<Rightarrow> task option" where
  "demo_task = (\<lambda>_. None)
     (0 \<mapsto> blank_task\<lparr>p_cptr := Some 1\<rparr>,
      1 \<mapsto> blank_task\<lparr>pid := 1, pgrp := 1, session := 1, p_cptr := Some 2\<rparr>,
      2 \<mapsto> blank_task\<lparr>pid := 2, pgrp := 2, session := 2, p_pptr := 1, p_cptr := Some 3, counter := 7\<rparr>,
      3 \<mapsto> blank_task\<lparr>pid := 3, pgrp := 2, session := 2, p_pptr := 2, t_state := TASK_ZOMBIE, exit_code := 256\<rparr>)"

definition demo :: kernel where
  "demo = \<lparr>task = demo_task, null_task = blank_task, current = 2, jiffies = 1000,
     startup_time = 0, jiffies_offset = 0, shown_console = 0, tty_pgrp = (\<lambda>_. 0), tty_session = (\<lambda>_. 0)\<rparr>"

definition demo_kids :: "nat \<Rightarrow> nat list" where
  "demo_kids = (\<lambda>_. [])(0 := [1], 1 := [2], 2 := [3])"

lemma demo_tree: "tree_rep demo demo_kids"
  by (auto simp: tree_rep_def sibs_def demo_def demo_task_def demo_kids_def blank_task_def ptask_def split: if_splits)

definition demo_user :: kernel where
  "demo_user = upd_cur (\<lambda>t. t\<lparr>uid := 7, euid := 8, suid := 9\<rparr>) demo"

definition demo_super :: super_block where
  "demo_super = \<lparr>s_ninodes = 30, s_nzones = 100, s_imap_blocks = 1, s_zmap_blocks = 1, s_firstdatazone = 5,
     s_imap = (\<lambda>_. None)(0 \<mapsto> \<lparr>b_data = blk_set_bit zero_block 0, b_uptodate = True, b_dirt = False, b_count = 1\<rparr>),
     s_zmap = (\<lambda>_. None)(0 \<mapsto> \<lparr>b_data = blk_set_bit (blk_set_bit zero_block 0) 1,
                               b_uptodate = True, b_dirt = False, b_count = 1\<rparr>),
     s_dev = 1\<rparr>"

definition demo_fs :: fs_state where
  "demo_fs = \<lparr>super = (\<lambda>_. demo_super\<lparr>s_dev := 0\<rparr>)(0 := demo_super), bufs = (\<lambda>_. None),
     disk = (\<lambda>_. Some zero_block), cur_time = 99\<rparr>"

text \<open>A file whose first block is zone 5.\<close>

definition demo_file :: m_inode where
  "demo_file = zero_inode\<lparr>i_mode := 0x81A4, i_size := 10, i_zone := (\<lambda>_. 0)(0 := 5), i_dev := 1, i_num := 3,
     i_count := 1, i_nlinks := 1\<rparr>"

lemma demo_super_1: "get_super 1 demo_fs = Some 0"
  by (simp add: get_super_def demo_fs_def demo_super_def NR_SUPER_def upt_rec)

lemma demo_file_zref: "zref s demo_file p = (if p = ZDirect 0 then 5 else 0)"
  by (cases p) (auto simp: demo_file_def)

lemma demo_zones: "zmap_ok demo_super" "zone_used demo_super 5" "\<not> zone_used demo_super 6"
  by (simp_all add: zmap_ok_def zone_used_def zone_index_def map_bit_def demo_super_def blk_bit_set
      del: One_nat_def) (simp_all add: blk_bit_def zero_block_def)

lemma demo_fmap: "fmap_ok demo_fs 0 demo_file"
  using demo_zones demo_super_1 unfolding fmap_ok_def demo_file_zref
  by (simp add: zone_ok_def demo_fs_def) (simp add: demo_super_def demo_file_def)

lemma demo_ffz: "find_first_zero (blk_set_bit (blk_set_bit zero_block 0) 1) = 2"
  by (rule find_first_zero_eqI) (auto simp: blk_bit_set less_Suc_eq numeral_2_eq_2, simp add: blk_bit_def zero_block_def)

lemma demo_new_block: "\<exists>s'. new_block 1 demo_fs = Inr (6, s')"
proof -
  let ?bh = "\<lparr>b_data = blk_set_bit (blk_set_bit zero_block 0) 1, b_uptodate = True, b_dirt = False, b_count = 1\<rparr>"
  have m: "map_scan (s_zmap demo_super) [0..<8] 8192 = (Some (0, ?bh), 2)"
    using demo_ffz by (simp add: upt_conv_Cons demo_super_def Let_def)
  have b: "set_bit_at 2 (b_data ?bh) = (False, blk_set_bit (b_data ?bh) 2)"
    by (simp add: set_bit_at_def blk_bit_set) (simp add: blk_bit_def zero_block_def)
  have d: "super demo_fs 0 = demo_super" by (simp add: demo_fs_def)
  have n: "uint (s_nzones demo_super) = 100" "uint (s_firstdatazone demo_super) = 5" by (simp_all add: demo_super_def)
  have e: "bufs demo_fs = (\<lambda>_. None)" by (simp add: demo_fs_def)
  show ?thesis
    unfolding new_block_def demo_super_1 option.case d Let_def m prod.case b n
    by (simp add: FsState.getblk_def upd_super_def e held_def fresh_buf_def FsState.brelse_def upd_buf_def)
qed

section \<open>Disk zones and inodes\<close>

text \<open>
  C1: \<open>new_block\<close> returns a zone that lies in the data area, was free, is now marked, reads as zeros,
  and marks no other zone.
\<close>

theorem new_block_fresh:
  assumes "new_block dev s = Inr (z, s')" and "z \<noteq> 0" and "get_super dev s = Some k" and "zmap_ok (super s k)"
  shows "uint (s_firstdatazone (super s k)) \<le> z \<and> z < uint (s_nzones (super s k))
    \<and> \<not> zone_used (super s k) z \<and> zone_used (super s' k) z
    \<and> (\<forall>y\<ge>uint (s_firstdatazone (super s k)). y \<noteq> z \<longrightarrow> zone_used (super s' k) y = zone_used (super s k) y)
    \<and> contents s' (dev, z) = Some zero_block"
proof -
  note n = new_block_spec[OF assms]
  have i: "zone_index (super s k) y = zone_index (super s k) z \<longleftrightarrow> y = z" if "uint (s_firstdatazone (super s k)) \<le> y" for y
    using that n(1) by (auto simp: zone_index_def)
  show ?thesis using n(1-3,11) unfolding n(6) using i by auto
qed

theorem new_block_fresh_witness: "\<exists>s'. new_block 1 demo_fs = Inr (6, s') \<and> \<not> zone_used demo_super 6 \<and> zone_used (super s' 0) 6"
proof -
  obtain s' where s': "new_block 1 demo_fs = Inr (6, s')" using demo_new_block by blast
  have k: "zmap_ok (super demo_fs 0)" "super demo_fs 0 = demo_super" using demo_zones by (simp_all add: demo_fs_def)
  show ?thesis using new_block_fresh[OF s' _ demo_super_1 k(1)] s' k(2) by simp
qed

text \<open>
  C2: the word-by-word search of the bitmaps (\<open>find_first_zero\<close> over \<open>bsf\<close>) finds what a bit-by-bit
  scan finds: the number of leading ones of the 8192 bits.
\<close>

theorem find_first_zero_reference: "find_first_zero b = length (takeWhile (blk_bit b) [0..<8192])"
  by (rule find_first_zero_takeWhile)

text \<open>
  C3: \<open>create_block\<close> keeps the file's map valid (every zone allocated, none shared by two blocks),
  moves no block the file had, and \<open>bmap\<close> afterwards finds what it returned.
\<close>

theorem create_then_bmap:
  assumes "fmap_ok s k ino" and "create_block ino block s = Inr (r, ino', s')"
    and "bmap ino' block s' = Inr (r2, ino2, s2)"
  shows "fmap_ok s' k ino' \<and> r2 = r
    \<and> (\<forall>b. zref s ino (zpos_of b) \<noteq> 0 \<longrightarrow> zref s' ino' (zpos_of b) = zref s ino (zpos_of b))"
  using bmap_gen_spec[OF assms(1) assms(2)[unfolded create_block_def]] bmap_spec[OF _ assms(3)] fmap_stepD
  by metis

lemma demo_create: "\<exists>s'. create_block demo_file 1 demo_fs = Inr (6, demo_file\<lparr>i_zone := (i_zone demo_file)(1 := 6), i_ctime := cur_time s', i_dirt := True\<rparr>, s')
    \<and> bmap (demo_file\<lparr>i_zone := (i_zone demo_file)(1 := 6), i_ctime := cur_time s', i_dirt := True\<rparr>) 1 s' = Inr (6, demo_file\<lparr>i_zone := (i_zone demo_file)(1 := 6), i_ctime := cur_time s', i_dirt := True\<rparr>, s')"
proof -
  obtain s' where s': "new_block 1 demo_fs = Inr (6, s')" using demo_new_block by blast
  have d: "i_dev demo_file = 1" "i_zone demo_file (Suc 0) = 0" by (simp_all add: demo_file_def)
  show ?thesis
    by (rule exI[of _ s']) (simp add: create_block_def bmap_def bmap_gen_def alloc_zone_def d s' Let_def)
qed

theorem create_then_bmap_witness:
  "\<exists>ino' s'. create_block demo_file 1 demo_fs = Inr (6, ino', s') \<and> fmap_ok s' 0 ino' \<and> zref s' ino' (zpos_of 0) = 5"
proof -
  obtain ino' s' where c: "create_block demo_file 1 demo_fs = Inr (6, ino', s')" "bmap ino' 1 s' = Inr (6, ino', s')"
    using demo_create by blast
  have "zref demo_fs demo_file (zpos_of 0) = 5" by (simp add: zpos_of_def demo_file_def)
  then show ?thesis using create_then_bmap[OF demo_fmap c] c(1) by force
qed

text \<open>
  Creating a block of one file leaves every block of another file with disjoint zones where it
  was, and keeps the two files disjoint.
\<close>

lemma create_block_isolation:
  assumes "fmap_ok s k a" and "fmap_ok s kb b" and "files_disjoint s a b" and "create_block a block s = Inr (r, a', s')"
  shows "fmap_ok s' kb b \<and> files_disjoint s' a' b \<and> (\<forall>n. zref s' b (zpos_of n) = zref s b (zpos_of n))"
  using bmap_gen_spec(3)[OF assms(1) assms(4)[unfolded create_block_def]] fmap_step_other_file[OF assms(1-3)]
    fmap_step_other_refs[OF assms(1-3)] by blast

definition demo_other :: m_inode where
  "demo_other = zero_inode\<lparr>i_mode := 0x81A4, i_dev := 1, i_num := 4, i_count := 1, i_nlinks := 1\<rparr>"

lemma create_block_isolation_example:
  "\<exists>a' s'. create_block demo_file 1 demo_fs = Inr (6, a', s') \<and> fmap_ok s' 0 demo_other \<and> files_disjoint s' a' demo_other"
proof -
  obtain a' s' where c: "create_block demo_file 1 demo_fs = Inr (6, a', s')" using demo_create by blast
  have z: "zref s demo_other p = 0" for s p by (rule zref_empty) (simp add: demo_other_def zero_inode_def)
  have o: "fmap_ok demo_fs 0 demo_other" "files_disjoint demo_fs demo_file demo_other"
    using demo_fmap by (simp_all add: fmap_ok_def files_disjoint_def z) (simp add: demo_other_def demo_file_def)
  show ?thesis using create_block_isolation[OF demo_fmap o c] c by blast
qed

text \<open>
  C4: \<open>truncate\<close> of a regular file, directory or link whose zones nobody holds always succeeds. It frees
  exactly the zones the map of the file names, index blocks included, touches no other zone, and leaves
  an inode of size 0 with no zones.
\<close>

theorem truncate_total:
  assumes "fmap_ok s k ino" and "s_isreg (i_mode ino) \<or> s_isdir (i_mode ino) \<or> s_islnk (i_mode ino)"
    and "\<forall>p. zref s ino p \<noteq> 0 \<longrightarrow> freeable s k (i_dev ino) (zref s ino p)"
  shows "\<exists>ino' s'. Truncate.truncate envs ino s = Inr (Some (ino', s')) \<and> i_size ino' = 0 \<and> (\<forall>j<9. i_zone ino' j = 0)
    \<and> (\<forall>x. zone_used (super s' k) (uint x) \<longleftrightarrow> zone_used (super s k) (uint x) \<and> x \<notin> file_zones s ino)"
  using truncate_frees[OF assms(1,2)] assms(3) unfolding frees_def by blast

theorem truncate_total_witness:
  "\<exists>ino' s'. Truncate.truncate [] demo_file demo_fs = Inr (Some (ino', s')) \<and> i_size ino' = 0 \<and> \<not> zone_used (super s' 0) 5"
proof -
  have m: "s_isreg (i_mode demo_file)" by (simp add: s_isreg_def demo_file_def)
  have f: "freeable demo_fs 0 (i_dev demo_file) 5"
    by (simp add: freeable_def held_def demo_fs_def demo_super_def zone_index_def)
  then have f': "\<forall>p. zref demo_fs demo_file p \<noteq> 0 \<longrightarrow> freeable demo_fs 0 (i_dev demo_file) (zref demo_fs demo_file p)"
    by (simp add: demo_file_zref)
  have "5 \<in> file_zones demo_fs demo_file" by (auto simp: file_zones_def demo_file_zref)
  then show ?thesis using truncate_total[OF demo_fmap disjI1[OF m] f', of "[]"] by force
qed

section \<open>Scheduling, timers and sleeping\<close>

text \<open>
  C5: with priorities in range \<open>schedule\<close> always returns, after at most one recalculation of the counters. It first treats every task
  of the table as \<open>woken\<close> says: a timeout that has passed is cleared, an alarm that is due raises \<open>SIGALRM\<close>, and an interruptible
  sleeper runs again exactly when its timeout has passed or a signal can be delivered to it. Then it runs a runnable task whose counter is
  positive and largest, or the idle task when nothing is runnable. Beyond this only \<open>current\<close> and the counters change.
\<close>

theorem schedule_picks_best:
  assumes "2 \<le> fuel" and "prio_ok k"
  shows "\<exists>k'. schedule fuel k = Some k' \<and> counters_only (wake_tasks k) k'
    \<and> (\<forall>i t. 1 \<le> i \<longrightarrow> i < NR_TASKS \<longrightarrow> task k i = Some t \<longrightarrow>
         task k' i = Some ((woken (jiffies k) t)\<lparr>counter := counter (ptask k' i)\<rparr>))
    \<and> (if \<exists>i. runnable (wake_tasks k) i
       then runnable k' (current k') \<and> 0 < tick k' (current k')
         \<and> (\<forall>i. runnable k' i \<longrightarrow> tick k' i \<le> tick k' (current k'))
       else current k' = 0)"
  using schedule_spec[OF assms] schedule_wakes by blast

lemma demo_prio: "prio_ok demo"
  by (auto simp: prio_ok_def task_prio_ok_def demo_def demo_task_def blank_task_def split: if_splits)

theorem schedule_picks_best_witness: "\<exists>k'. schedule 2 demo = Some k' \<and> counters_only (wake_tasks demo) k'"
  using schedule_picks_best[OF _ demo_prio, of 2] by auto

text \<open>
  The check \<open>schedule\<close> makes on every task wakes an interruptible sleeper exactly when its timeout
  has passed or a signal it does not block (\<open>SIGKILL\<close> and \<open>SIGSTOP\<close> cannot be blocked) is pending, an
  alarm that has just expired included; no other state changes.
\<close>

lemma wake_check_decides:
  "t_state (wake_check now t) =
     (if t_state t = TASK_INTERRUPTIBLE \<and> (timeout t \<noteq> 0 \<and> timeout t < now
         \<or> (\<exists>n. 1 \<le> n \<and> n \<le> 32 \<and> deliverable (with_alarm now t) n))
      then TASK_RUNNING else t_state t)"
  by (rule wake_check_state)

text \<open>
  C6: \<open>add_timer\<close> inserts into the list of expiry times at its sorted place, leaving every other
  timer's expiry time as it was, and keeps the queue well formed.
\<close>

theorem add_timer_refines_insert:
  assumes "timers_ok ts" and "fn \<noteq> 0" and "0 < j" and "add_timer j fn ts = Inr (called, ts')"
  shows "timers_ok ts' \<and> called = [] \<and> pending ts' = insert_by_time (j, fn) (pending ts)"
  using add_timer_spec[OF assms] by blast

definition demo_timers :: timers where
  "demo_timers = \<lparr>t_jif = (\<lambda>_. 0)(0 := 5, 1 := 3), t_fn = (\<lambda>_. 0)(0 := 77, 1 := 88), t_queue = [0, 1]\<rparr>"

lemma demo_timers_ok: "timers_ok demo_timers"
  by (auto simp: timers_ok_def demo_timers_def TIME_REQUESTS_def split: if_splits)

theorem add_timer_refines_insert_witness:
  "\<exists>ts'. add_timer 6 99 demo_timers = Inr ([], ts') \<and> pending ts' = [(5, 77), (6, 99), (8, 88)]"
proof -
  have "find (\<lambda>p. t_fn demo_timers p = 0) [0..<TIME_REQUESTS] = Some 2"
    by (simp add: TIME_REQUESTS_def demo_timers_def upt_conv_Cons)
  then obtain ts' where r: "add_timer 6 99 demo_timers = Inr ([], ts')"
    by (simp add: add_timer_def Let_def)
  have "pending demo_timers = [(5, 77), (8, 88)]" by (simp add: pending_def demo_timers_def)
  with add_timer_refines_insert[OF demo_timers_ok _ _ r] r show ?thesis by (simp add: insert_by_time_def)
qed

text \<open>
  C7: over any number of ticks the handlers called are exactly those of the timers that expire in that
  time, in the order of their expiry times.
\<close>

theorem ticks_fire_in_order:
  assumes "timers_ok ts"
  shows "fst (run_ticks n ts) = map snd (takeWhile (\<lambda>y. fst y \<le> int n) (pending ts))"
  by (rule run_ticks_fired[OF assms])

theorem ticks_fire_in_order_witness: "fst (run_ticks 6 demo_timers) = [77]"
  using ticks_fire_in_order[OF demo_timers_ok, of 6] by (simp add: pending_def demo_timers_def)

text \<open>
  C8: after a \<open>wake_up\<close> on a queue with sleepers some sleeper is runnable at every moment until the
  queue is empty, whatever tasks join, are signalled or are scheduled meanwhile: no wake-up is lost.
\<close>

theorem no_lost_wakeup:
  assumes "wq_reach w0 w" and "wq_empty w0" and "wq_head w \<noteq> None" and "wq_busy (wake_up w) w'"
  shows "\<exists>c. wq_asleep w' c \<and> wq_state w' c = TASK_RUNNING"
proof -
  obtain cs where cs: "sleepers w cs" using reach_sleepers[OF assms(1,2)] by blast
  have "cs \<noteq> []" using cs assms(3) by (auto simp: sleepers_def)
  then have a: "some_awake (wake_up w)" by (rule wake_up_awake[OF cs])
  obtain cs' where "sleepers (wake_up w) cs'" using sleepers_step[OF wq_step.wake cs] by blast
  then show ?thesis using busy_awake[OF assms(4) _ a] by (simp add: some_awake_def)
qed

definition demo_wq :: wait_queue where
  "demo_wq = \<lparr>wq_head = None, wq_state = (\<lambda>_. TASK_RUNNING), wq_tmp = (\<lambda>_. None), wq_asleep = (\<lambda>_. False)\<rparr>"

theorem no_lost_wakeup_witness:
  "\<exists>w c. sleep_enter 3 TASK_UNINTERRUPTIBLE demo_wq = Inr w \<and> wq_asleep (wake_up w) c \<and> wq_state (wake_up w) c = TASK_RUNNING"
proof -
  obtain w where w: "sleep_enter 3 TASK_UNINTERRUPTIBLE demo_wq = Inr w" and h: "wq_head w \<noteq> None"
    by (simp add: sleep_enter_def)
  have e: "wq_empty demo_wq" and na: "\<not> wq_asleep demo_wq 3" by (simp_all add: wq_empty_def demo_wq_def)
  have "wq_step demo_wq w" by (rule wq_step.enter[OF w na]) simp
  then have r: "wq_reach demo_wq w" by (rule wq_reach.step[OF wq_reach.refl])
  show ?thesis using no_lost_wakeup[OF r e h wq_busy.busy_refl] w by blast
qed

text \<open>
  In every reachable state only the task that came last can leave \<open>sleep_on\<close>, and the queue head
  is not null while anybody sleeps.
\<close>

lemma sleepers_leave_lifo:
  assumes "wq_reach w0 w" and "wq_empty w0" and "wq_asleep w c"
  shows "wq_head w \<noteq> None \<and> (\<not> wq_asleep (sleep_resume c w) c \<longleftrightarrow> wq_head w = Some c)"
  using leaves_in_lifo_order[OF assms] by blast

lemma sleepers_leave_lifo_example:
  "\<exists>w. sleep_enter 3 TASK_UNINTERRUPTIBLE demo_wq = Inr w \<and> \<not> wq_asleep (sleep_resume 3 w) 3"
proof -
  obtain w where w: "sleep_enter 3 TASK_UNINTERRUPTIBLE demo_wq = Inr w" and h: "wq_head w = Some 3" "wq_asleep w 3"
    by (simp add: sleep_enter_def)
  have e: "wq_empty demo_wq" and na: "\<not> wq_asleep demo_wq 3" by (simp_all add: wq_empty_def demo_wq_def)
  have "wq_step demo_wq w" by (rule wq_step.enter[OF w na]) simp
  then have r: "wq_reach demo_wq w" by (rule wq_reach.step[OF wq_reach.refl])
  show ?thesis using sleepers_leave_lifo[OF r e h(2)] w h(1) by blast
qed

section \<open>Credentials, limits and names\<close>

text \<open>
  C9: no sequence of \<open>setreuid\<close>, \<open>setuid\<close>, \<open>setregid\<close> and \<open>setgid\<close> gives a process without the
  superuser's id a user or group id it did not have.
\<close>

theorem no_privilege_gain:
  assumes "0 \<notin> uids (cur k)"
  shows "uids (cur (foldl cred_step k ops)) \<subseteq> uids (cur k) \<and> gids (cur (foldl cred_step k ops)) \<subseteq> gids (cur k)"
  using unprivileged_run[OF assms] by blast

lemma demo_user_ids: "cur demo_user = (cur demo)\<lparr>uid := 7, euid := 8, suid := 9\<rparr>" "uids (cur demo_user) = {7, 8, 9}"
  unfolding demo_user_def cur_upd_cur by (simp_all add: uids_def)

theorem no_privilege_gain_witness: "uids (cur (foldl cred_step demo_user [SetReuid 8 7, SetUid 0])) \<subseteq> {7, 8, 9}"
  using no_privilege_gain[of demo_user "[SetReuid 8 7, SetUid 0]"] unfolding demo_user_ids(2) by simp

text \<open>
  A superuser process that calls \<open>setuid\<close> with another id has that id as its only user id after
  any further sequence of id calls.
\<close>

theorem setuid_is_final:
  assumes "suser k" and "(word_of_int u :: u16) \<noteq> 0"
  shows "uids (cur (foldl cred_step (snd (sys_setuid u k)) ops)) = {word_of_int u}"
  by (rule setuid_drops_for_good[OF assms])

lemma demo_suser: "suser demo"
  by (simp add: suser_def cur_def ptask_def demo_def demo_task_def blank_task_def)

theorem setuid_is_final_witness: "uids (cur (foldl cred_step (snd (sys_setuid 5 demo)) [SetUid 0, SetReuid 0 0])) = {5}"
  using setuid_is_final[OF demo_suser, of 5 "[SetUid 0, SetReuid 0 0]"] by simp

text \<open>
  \<open>getgroups\<close> reads back the list \<open>setgroups\<close> has stored.
\<close>

lemma setgroups_getgroups:
  assumes "suser k" and "n \<le> NGROUPS" and "sys_setgroups (int n) gl k = (r, k')" and "n \<noteq> 0"
  shows "sys_getgroups (int n) k' = (int n, map gl [0..<n])"
  by (rule groups_roundtrip[OF assms])

lemma setgroups_getgroups_example: "sys_getgroups 2 (snd (sys_setgroups 2 (\<lambda>i. of_nat i + 40) demo)) = (2, [40, 41])"
  using setgroups_getgroups[OF demo_suser, of 2 "\<lambda>i. of_nat i + 40"]
  by (cases "sys_setgroups 2 (\<lambda>i. of_nat i + 40) demo") (auto simp: NGROUPS_def upt_conv_Cons)

text \<open>
  No sequence of \<open>setrlimit\<close> calls of an unprivileged process raises a hard limit.
\<close>

lemma hard_limit_monotone:
  assumes "\<not> suser k"
  shows "sint (rlim_max (rlim (cur (foldl limit_step k ops)) i)) \<le> sint (rlim_max (rlim (cur k) i))"
  by (rule hard_limits_only_fall[OF assms])

lemma hard_limit_monotone_example:
  "sint (rlim_max (rlim (cur (foldl limit_step demo_user [SetLimit 1 \<lparr>rlim_cur = 3, rlim_max = 5\<rparr>])) 1))
    \<le> sint (rlim_max (rlim (cur demo_user) 1))"
  using hard_limit_monotone[of demo_user "[SetLimit 1 \<lparr>rlim_cur = 3, rlim_max = 5\<rparr>]" 1]
  by (simp add: suser_def demo_user_ids)

text \<open>
  The time \<open>settimeofday\<close> stores is what \<open>gettimeofday\<close> returns at the same tick, the microseconds
  rounded down to the hundredth of a second.
\<close>

theorem settimeofday_gettimeofday:
  assumes "suser (sk s)" and "unat usec < 1000000" and "unat (jiffies (sk s)) < 2 ^ 32 - 200"
  shows "fst (sys_gettimeofday True tz (snd (sys_settimeofday (Some (sec, usec)) None s))) = Some (sec, usec div 10000 * 10000)"
  by (rule timeofday_roundtrip[OF assms])

definition demo_sys :: sys_state where
  "demo_sys = \<lparr>sk = demo, tz_minuteswest = 0, tz_dsttime = 0, firsttime = True, nodename = (\<lambda>_. 0)\<rparr>"

theorem settimeofday_gettimeofday_witness:
  "fst (sys_gettimeofday True False (snd (sys_settimeofday (Some (700000000, 123456)) None demo_sys))) = Some (700000000, 120000)"
  using settimeofday_gettimeofday[of demo_sys 123456 False 700000000] demo_suser by (simp add: demo_sys_def demo_def)

section \<open>Signals\<close>

text \<open>
  C10: when no process has both \<open>SIGCONT\<close> and a stop signal pending, a \<open>kill\<close> to a process, to a group or to all returns and leaves it so.
  The signal number may be any for a process or a group; for \<open>kill (- 1)\<close>, which does not check it, it has to be one from 1 to 32.
\<close>

theorem kill_keeps_job_control:
  assumes "all_job_ok k" and "p \<noteq> - 1 \<or> 1 \<le> sig \<and> sig \<le> 32"
  shows "\<exists>r k'. sys_kill p sig k = Inr (r, k') \<and> all_job_ok k'"
  using sys_kill_total[OF assms(2)] sys_kill_job_ok[OF assms(1)] by blast

lemma demo_jobs: "all_job_ok demo"
  by (auto simp: all_job_ok_def job_ok_def demo_def demo_task_def blank_task_def split: if_splits)

theorem kill_keeps_job_control_witness: "\<exists>r k'. sys_kill (- 1) 18 demo = Inr (r, k') \<and> all_job_ok k'"
  by (rule kill_keeps_job_control[OF demo_jobs]) simp

text \<open>
  A stopped or interruptibly sleeping process that is sent \<open>SIGKILL\<close> with the default action is made
  runnable by the next \<open>schedule\<close>, whatever its mask is.
\<close>

theorem sigkill_makes_runnable:
  assumes "t_state t = TASK_STOPPED \<or> t_state t = TASK_INTERRUPTIBLE" and "sa_handler (sigact t (SIGKILL - 1)) = 0"
  shows "t_state (wake_check now (post_sig SIGKILL t)) = TASK_RUNNING"
  by (rule sigkill_wakes[OF assms])

theorem sigkill_makes_runnable_witness:
  "t_state (wake_check 5 (post_sig SIGKILL (blank_task\<lparr>t_state := TASK_STOPPED, blocked := - 1\<rparr>))) = TASK_RUNNING"
  by (rule sigkill_makes_runnable) (simp_all add: blank_task_def)

text \<open>
  C11: when a signal is to enter a handler, the user's instruction pointer is the handler's address, the
  stack pointer falls by four bytes per word of the frame stored, the handler's mask is added to the
  blocked signals, and a one-shot handler is reset. A call interrupted with \<open>ERESTARTNOINTR\<close> resumes at its
  \<open>int\<close> instruction with its call number in \<open>eax\<close>.
\<close>

theorem signal_frame:
  assumes "do_signal signr r k = Enter_handler frame r' k'"
  shows "r_eip r' = sa_handler (sigact (cur k) (signr - 1))
    \<and> r_esp r' = r_esp r - 4 * of_nat (length frame)
    \<and> (bit (blocked (cur k')) n \<longleftrightarrow> bit (blocked (cur k)) n \<or> bit (sa_mask (sigact (cur k) (signr - 1))) n)
    \<and> (sa_flags (sigact (cur k) (signr - 1)) AND SA_ONESHOT \<noteq> 0 \<longrightarrow> sa_handler (sigact (cur k') (signr - 1)) = 0)
    \<and> (r_orig_eax r \<noteq> - 1 \<and> r_eax r = word_of_int (- ERESTARTNOINTR) \<longrightarrow>
        drop (length frame - 5) frame = [r_orig_eax r, r_ecx r, r_edx r, r_eflags r, r_eip r - 2])"
  using handler_frame[OF assms] handler_restart[OF assms] by blast

definition demo_handler :: kernel where
  "demo_handler = upd_cur (\<lambda>t. t\<lparr>sigact := (sigact t)(13 := \<lparr>sa_handler = 0x1000, sa_mask = 1, sa_flags = SA_ONESHOT, sa_restorer = 0x2000\<rparr>)\<rparr>) demo"

definition demo_regs :: regs where
  "demo_regs = \<lparr>r_eax = 3, r_ecx = 4, r_edx = 5, r_orig_eax = - 1, r_eip = 0x500, r_eflags = 2, r_esp = 0x8000\<rparr>"

theorem signal_frame_witness:
  "\<exists>frame r' k'. do_signal 14 demo_regs demo_handler = Enter_handler frame r' k' \<and> r_eip r' = 0x1000 \<and> r_esp r' = 0x8000 - 32"
proof -
  have h: "sigact (cur demo_handler) 13 = \<lparr>sa_handler = 0x1000, sa_mask = 1, sa_flags = SA_ONESHOT, sa_restorer = 0x2000\<rparr>"
    unfolding demo_handler_def cur_upd_cur by simp
  obtain frame r' k' where d: "do_signal 14 demo_regs demo_handler = Enter_handler frame r' k'" and l: "length frame = 8"
    by (simp add: do_signal_def h Let_def restart_call_def demo_regs_def SA_ONESHOT_def SA_NOMASK_def)
  from signal_frame[OF d] d l h show ?thesis by (simp add: demo_regs_def)
qed

section \<open>Processes\<close>

text \<open>
  C12: \<open>find_empty_process\<close> always ends: of any 129 pids tried in a row one is free, although the counter
  wraps at the largest integer. The pid found is positive and no task's pid or process group.
\<close>

theorem find_empty_process_ends:
  assumes "int_ok last_pid" and "129 \<le> fuel" and "fuel < 2 ^ 30"
  shows "\<exists>p r. find_empty_process fuel last_pid k = Some (p, r) \<and> 0 < p \<and> int_ok p \<and> \<not> pid_used k p"
  by (rule find_empty_process_total[OF assms])

theorem find_empty_process_ends_witness:
  "\<exists>p r. find_empty_process 129 2147483647 demo = Some (p, r) \<and> 0 < p \<and> \<not> pid_used demo p"
  using find_empty_process_ends[of 2147483647 129 demo] by (auto simp: int_ok_def)

text \<open>
  C13: \<open>fork\<close> into a free slot makes the new process the first child of the caller, childless itself, and
  changes no other list of children.
\<close>

theorem fork_links_child:
  assumes "tree_rep k kids" and "task k nr = None" and "nr \<noteq> 0" and "task k (current k) \<noteq> None"
    and "copy_process True True lp nr k = (res, k')"
  shows "tree_rep k' (kids(nr := [], current k := nr # kids (current k)))"
  by (rule fork_tree[OF assms])

theorem fork_links_child_witness:
  "tree_rep (snd (copy_process True True 50 7 demo)) (demo_kids(7 := [], 2 := [7, 3]))"
proof -
  have "task demo 7 = None" "task demo (current demo) \<noteq> None" "current demo = 2" "demo_kids 2 = [3]"
    by (simp_all add: demo_def demo_task_def demo_kids_def)
  then show ?thesis
    using fork_links_child[OF demo_tree _ _ _ surjective_pairing[of "copy_process True True 50 7 demo"]] by simp
qed

text \<open>
  C14: \<open>do_exit\<close> returns (to its final \<open>schedule\<close>) and hands all children of the process to process 1, in
  their order and in front of those it had; every other list of children is unchanged.
\<close>

theorem exit_reparents:
  assumes "tree_rep k kids" and "task k (current k) \<noteq> None" and "task k 1 \<noteq> None" and "current k \<noteq> 1"
    and "kids 1 \<noteq> []" and "length (kids (current k)) \<le> fuel"
  shows "\<exists>k'. do_exit fuel code k = Some (Inr k') \<and> current k' = current k
    \<and> tree_rep k' (kids(current k := [], 1 := kids (current k) @ kids 1))"
  by (rule exit_tree_raw[OF assms])

theorem exit_reparents_witness:
  "\<exists>k'. do_exit 4 256 demo = Some (Inr k') \<and> tree_rep k' (demo_kids(2 := [], 1 := [3, 2]))"
proof -
  have c: "current demo = 2" "task demo 2 \<noteq> None" "task demo 1 \<noteq> None" by (simp_all add: demo_def demo_task_def)
  have k: "demo_kids 2 = [3]" "demo_kids 1 = [2]" by (simp_all add: demo_kids_def)
  show ?thesis using exit_reparents[OF demo_tree, of 4 256, unfolded c(1)] c k by auto
qed



text \<open>
  \<open>release\<close> of a childless process takes it, and only it, out of the tree.
\<close>

theorem release_unlinks:
  assumes "tree_rep k kids" and "i \<noteq> current k" and "1 \<le> i" and "i < NR_TASKS" and "task k i \<noteq> None" and "kids i = []"
  shows "\<exists>k'. release i k = Inr k' \<and> task k' i = None
    \<and> tree_rep k' (kids(p_pptr (ptask k i) := remove1 i (kids (p_pptr (ptask k i)))))"
  by (rule release_tree[OF assms])

theorem release_unlinks_witness: "\<exists>k'. release 3 demo = Inr k' \<and> task k' 3 = None \<and> tree_rep k' (demo_kids(2 := []))"
proof -
  have "p_pptr (ptask demo 3) = 2" "demo_kids 2 = [3]" "demo_kids 3 = []" "current demo = 2" "task demo 3 \<noteq> None"
    by (simp_all add: ptask_def demo_def demo_task_def demo_kids_def)
  then show ?thesis using release_unlinks[OF demo_tree, of 3] by (simp add: NR_TASKS_def)
qed

section \<open>Pipes\<close>

text \<open>
  C16: let the writers put the byte strings \<open>ws\<close> into the pipe, one each time the reader sleeps, and let the reader ask for no more bytes than
  the pipe holds and they write. Then \<open>read_pipe\<close> returns. What it delivers is a prefix of the bytes in the pipe followed by those written
  while it slept, in order, none lost or repeated, and the rest is still in the pipe. It delivers all that was
  asked for, or the pipe is empty and no writer is left or a signal is pending. The value
  returned is the number of bytes, or \<open>- ERESTARTSYS\<close> when a signal comes before the first.
\<close>

theorem read_pipe_delivers_stream:
  assumes "pipe_ok p" and "list_all2 env_writes ws envs" and "nat nbytes \<le> length (pipe_bytes p @ concat ws)"
    and "nat nbytes + length ws < fuel"
  shows "\<exists>r out p' k. read_pipe fuel envs nbytes 0 [] p = Some (r, out, p') \<and> k \<le> length ws \<and>
    pipe_bytes p @ concat (take k ws) = out @ pipe_bytes p' \<and> pipe_ok p' \<and> length out \<le> nat nbytes \<and> (pp_count p \<noteq> 2 \<longrightarrow> k = 0) \<and>
    (length out = nat nbytes \<and> r = int (length out) \<or>
     pipe_bytes p' = [] \<and> (pp_count p' \<noteq> 2 \<and> r = int (length out) \<or>
       pp_signal p' AND NOT (pp_blocked p') \<noteq> 0 \<and> r = (if out = [] then - ERESTARTSYS else int (length out))))"
  using read_pipe_stream[OF assms, of 0 "[]"] by (simp only: append_Nil add_0 of_nat_eq_0_iff length_0_conv)

definition demo_pipe :: pipe where
  "demo_pipe = \<lparr>pp_page = (\<lambda>a. of_nat a), pp_head = 2, pp_tail = 4094, pp_count = 2, pp_signal = 0, pp_blocked = 0, pp_woken = []\<rparr>"

lemma demo_pipe_bytes: "pipe_ok demo_pipe" "pipe_bytes demo_pipe = [254, 255, 0, 1]"
  by (simp_all add: pipe_ok_def demo_pipe_def pipe_bytes_def PIPE_SIZE_mod upt_conv_Cons)

text \<open>Six bytes from a pipe with four; a writer adds two while the reader sleeps.\<close>

lemma demo_writer: "env_writes [7, 8] (put_byte 8 \<circ> put_byte 7)"
  unfolding env_writes_def
proof (intro allI impI)
  fix p assume p: "pipe_ok p" "pipe_bytes p = []"
  then have 1: "pipe_bytes (put_byte 7 p) = [7]" "pipe_ok (put_byte 7 p)" using put_byte_spec[of p 7] by simp_all
  then show "pipe_ok ((put_byte 8 \<circ> put_byte 7) p) \<and> pipe_bytes ((put_byte 8 \<circ> put_byte 7) p) = [7, 8]"
    using put_byte_spec[OF 1(2), of 8] by simp
qed

theorem read_pipe_delivers_stream_witness:
  "\<exists>r out p' k. read_pipe 8 [put_byte 8 \<circ> put_byte 7] 6 0 [] demo_pipe = Some (r, out, p') \<and>
     [254, 255, 0, 1] @ concat (take k [[7, 8]]) = out @ pipe_bytes p'"
  using read_pipe_delivers_stream[of demo_pipe "[[7, 8]]" "[put_byte 8 \<circ> put_byte 7]" 6 8] demo_pipe_bytes demo_writer
  by simp blast

text \<open>
  C17: let the readers take \<open>ts\<close> bytes out of the pipe, one number each time the writer sleeps, and let the bytes to be written fit into what
  is free and what they take. Then \<open>write_pipe\<close> returns. What it wrote follows the bytes that were in the pipe, in order, and the bytes
  gone are as many as the readers took. It writes all of its bytes and returns their number, or the
  pipe is full and has no reader left; then \<open>SIGPIPE\<close> is pending and it returns the number written, or -1 when there are none.
\<close>

theorem write_pipe_appends_stream:
  assumes "pipe_ok p" and "list_all2 env_takes ts envs" and "nat nbytes + length (pipe_bytes p) \<le> 4095 + sum_list ts"
    and "nat nbytes + length ts < fuel"
  shows "\<exists>r p' n k gone. write_pipe fuel envs nbytes 0 buf p = Some (r, p') \<and> k \<le> length ts \<and> n \<le> nat nbytes \<and>
    pipe_bytes p @ map buf [0..<n] = gone @ pipe_bytes p' \<and> length gone = sum_list (take k ts) \<and> pipe_ok p' \<and>
    (pp_count p \<noteq> 2 \<longrightarrow> k = 0) \<and>
    (n = nat nbytes \<and> r = int n \<or>
     length (pipe_bytes p') = 4095 \<and> pp_count p' \<noteq> 2 \<and> bit (pp_signal p') 12 \<and> r = (if n = 0 then - 1 else int n))"
  using write_pipe_stream[OF assms(1,2) order_refl assms(3,4), of buf] by (simp only: nat_0 add_0 of_nat_eq_0_iff)

text \<open>Two bytes more than the pipe has room for; a reader takes one while the writer sleeps, then another one.\<close>

lemma demo_reader: "env_takes 1 (snd \<circ> get_byte)"
  unfolding env_takes_def
proof (intro conjI allI impI)
  fix p assume p: "pipe_ok p" "length (pipe_bytes p) = 4095"
  then have "pipe_bytes p \<noteq> []" by auto
  from get_byte_spec[OF p(1) this] show "pipe_ok ((snd \<circ> get_byte) p)" "pipe_bytes ((snd \<circ> get_byte) p) = drop 1 (pipe_bytes p)"
    by simp_all
qed simp

theorem write_pipe_appends_stream_witness:
  "\<exists>r p' n k gone. write_pipe 4096 [snd \<circ> get_byte, snd \<circ> get_byte] 4093 0 (\<lambda>_. 9) demo_pipe = Some (r, p') \<and>
     [254, 255, 0, 1] @ replicate n 9 = gone @ pipe_bytes p' \<and> length gone = sum_list (take k [1, 1])"
proof -
  have "map (\<lambda>_. 9 :: u8) [0..<n] = replicate n 9" for n by (simp add: map_replicate_const)
  with write_pipe_appends_stream[of demo_pipe "[1, 1]" "[snd \<circ> get_byte, snd \<circ> get_byte]" 4093 4096 "\<lambda>_. 9"] demo_pipe_bytes demo_reader
  show ?thesis by simp metis
qed

text \<open>
  Bytes written into an empty pipe that has room for them are read back unchanged by a reader that
  asks for as many, even where the ring wraps.
\<close>

lemma pipe_roundtrip:
  assumes "pipe_ok p" and "pipe_bytes p = []" and "0 \<le> nbytes" and "nbytes \<le> 4095" and "nat nbytes < fuel"
  shows "\<exists>p1 p2. write_pipe fuel envs nbytes 0 buf p = Some (nbytes, p1)
    \<and> read_pipe fuel envs' nbytes 0 [] p1 = Some (nbytes, map buf [0..<nat nbytes], p2) \<and> pipe_bytes p2 = []"
proof -
  have z: "PIPE_SIZE p = 0" using length_pipe_bytes[of p] assms(2) by simp
  obtain p1 where w: "write_pipe fuel envs nbytes 0 buf p = Some (nbytes, p1)" "pipe_bytes p1 = map buf [0..<nat nbytes]" "pipe_ok p1"
    using write_pipe_exact[OF assms(1,3), of fuel 0 envs buf] z assms by auto
  have "PIPE_SIZE p1 = nbytes" using length_pipe_bytes[of p1] w(2) assms(3) by simp
  with read_pipe_exact[OF w(3) assms(3) _ assms(5), of envs' 0 "[]"] w show ?thesis by auto
qed

lemma pipe_roundtrip_example:
  "\<exists>p1 p2. write_pipe 10 [] 3 0 (\<lambda>i. of_nat i) (demo_pipe\<lparr>pp_head := 4094\<rparr>) = Some (3, p1)
    \<and> read_pipe 10 [] 3 0 [] p1 = Some (3, [0, 1, 2], p2)"
proof -
  have "pipe_ok (demo_pipe\<lparr>pp_head := 4094\<rparr>)" "pipe_bytes (demo_pipe\<lparr>pp_head := 4094\<rparr>) = []"
    by (simp_all add: pipe_ok_def demo_pipe_def pipe_bytes_def PIPE_SIZE_mod)
  from pipe_roundtrip[OF this, of 3 10 "[]" "\<lambda>i. of_nat i" "[]"] show ?thesis by (auto simp: upt_conv_Cons)
qed

text \<open>
  C18: a \<open>pipe\<close> call that fails leaves the file table and the descriptors exactly as they were; one that
  succeeds installs two free descriptors on two free files, the first to read and the second to write.
\<close>

theorem sys_pipe_all_or_nothing:
  assumes "sys_pipe ino s = (r, fds, s')"
  shows "r = - 1 \<and> fds = None \<and> s' = s
    \<or> (\<exists>d0 d1 f0 f1 i. r = 0 \<and> fds = Some (d0, d1) \<and> ino = Some i \<and> d0 \<noteq> d1 \<and> f0 \<noteq> f1
        \<and> d0 < NR_OPEN \<and> d1 < NR_OPEN \<and> f0 < NR_FILE \<and> f1 < NR_FILE
        \<and> filp s d0 = None \<and> filp s d1 = None \<and> f_count (file_table s f0) = 0 \<and> f_count (file_table s f1) = 0
        \<and> filp s' = (filp s)(d0 \<mapsto> f0, d1 \<mapsto> f1)
        \<and> file_table s' = (file_table s)
            (f0 := (file_table s f0)\<lparr>f_count := 1, f_inode := Some i, f_pos := 0, f_mode := 1\<rparr>,
             f1 := (file_table s f1)\<lparr>f_count := 1, f_inode := Some i, f_pos := 0, f_mode := 2\<rparr>))"
  by (rule sys_pipe_spec[OF assms])

definition demo_files :: files where
  "demo_files = \<lparr>file_table = (\<lambda>_. \<lparr>f_mode = 0, f_flags = 0, f_count = 0, f_inode = None, f_pos = 0\<rparr>), filp = (\<lambda>_. None)\<rparr>"

theorem sys_pipe_all_or_nothing_witness: "snd (snd (sys_pipe None demo_files)) = demo_files"
  using sys_pipe_all_or_nothing[of None demo_files "fst (sys_pipe None demo_files)" "fst (snd (sys_pipe None demo_files))"
      "snd (snd (sys_pipe None demo_files))"] by simp

section \<open>Memory\<close>

text \<open>
  C19: as long as some page of memory is free, a write fault on a page that others map too gives the writer a page of its own with the same
  contents, takes one off the count of the old page, and changes no other page but the table. (When none is free, the search for a page
  may swap out the very entry that is being copied; this case is not covered.)
\<close>

theorem copy_on_write:
  assumes "mm_ok s" and "k < PAGING_PAGES" and "mem_map s k = 0" and "in_use s ptr"
    and "old = rd s ptr AND PAGE_MASK" and "LOW_MEM \<le> old" and "MAP_NR old < PAGING_PAGES"
    and "1 < unat (mem_map s (MAP_NR old))"
  shows "\<exists>new s'. un_wp_page (Suc fuel) ptr s = Inr s' \<and> mem_map s new = 0
    \<and> rd s' ptr = page_addr new OR 7
    \<and> mem_map s' = (mem_map s)(new := 1, MAP_NR old := mem_map s (MAP_NR old) - 1)
    \<and> ram s' (frame_of (page_addr new)) = ram s (frame_of old)
    \<and> (\<forall>f. f \<noteq> frame_of ptr \<and> f \<noteq> frame_of (page_addr new) \<longrightarrow> ram s' f = ram s f)"
  using un_wp_page_copy[OF assms, of fuel] by metis

text \<open>Page 0 holds a table whose entry 3 maps page 1, page 5 is free.\<close>

definition demo_mm :: "u8 \<Rightarrow> u32 \<Rightarrow> mm" where
  "demo_mm c flags = \<lparr>mem_map = (\<lambda>_. USED)(1 := c, 5 := 0),
     ram = (\<lambda>_ _. 0)(256 := (\<lambda>_. 0)(3 := 0x101000 OR flags), 257 := (\<lambda>_. 42)),
     HIGH_MEMORY = 0x1000000, swap_bitmap = Some (\<lambda>n. n = 1), swap_dev = (\<lambda>_ _. 0), dir_entry = 16, page_entry = - 1\<rparr>"
lemma demo_mm_ok: "c \<noteq> 0 \<Longrightarrow> mm_ok (demo_mm c f)" "c \<noteq> 0 \<Longrightarrow> in_use (demo_mm c f) 0x10000C"
  "rd (demo_mm c f) 0x10000C = 0x101000 OR f"
  by (auto simp: mm_ok_def demo_mm_def in_use_def LOW_MEM_def USED_def page_addr_def frame_of_def rd_def word_of_def
      split: if_splits)

lemma demo_mm_page: "ram (demo_mm c f) (frame_of 0x101000) = (\<lambda>_. 42)" "mem_map (demo_mm c f) 5 = 0" "mem_map (demo_mm c f) 1 = c"
  "HIGH_MEMORY (demo_mm c f) = 0x1000000"
  by (simp_all add: frame_of_def) (simp_all add: demo_mm_def)

lemma demo_nr: "MAP_NR 0x101000 = 1" "0x101000 AND PAGE_MASK = 0x101000" "0x101047 AND PAGE_MASK = 0x101000" "0x101005 AND PAGE_MASK = 0x101000"
  by (simp_all add: MAP_NR_def LOW_MEM_def PAGE_MASK_def)

lemma demo_char: "char_of (52 :: nat) = CHR ''4''" "char_of (50 :: nat) = CHR ''2''"
  by code_simp+

theorem copy_on_write_witness:
  "\<exists>new s'. un_wp_page 1 0x10000C (demo_mm 2 5) = Inr s' \<and> ram s' (frame_of (page_addr new)) = (\<lambda>_. 42)"
proof -
  have "0x101000 = rd (demo_mm 2 5) 0x10000C AND PAGE_MASK" "LOW_MEM \<le> 0x101000"
    "MAP_NR 0x101000 < PAGING_PAGES" "1 < unat (mem_map (demo_mm 2 5) (MAP_NR 0x101000))" 
    by (simp_all add: demo_mm_ok(3) demo_nr LOW_MEM_def PAGING_PAGES_def demo_mm_page del: One_nat_def)
  from copy_on_write[OF demo_mm_ok(1) _ demo_mm_page(2) demo_mm_ok(2) this, of 0] show ?thesis
    by (auto simp: PAGING_PAGES_def demo_mm_page)
qed

text \<open>
  C20: a private dirty page that is swapped out and faulted back in has the contents it had, in a page
  counted once; its swap slot is free again and no other page changes its count.
\<close>

theorem swap_preserves_page:
  assumes "mm_ok s" and "in_use s ptr" and "frame_of ptr \<noteq> frame_of (rd s ptr)" and "rd s ptr AND PAGE_DIRTY \<noteq> 0"
    and "try_to_swap_out ptr s = Inr (True, s1)"
  shows "rd s1 ptr AND 1 = 0 \<and> (\<exists>s2 new. swap_in (Suc fuel) ptr s1 = Inr s2
    \<and> rd s2 ptr = page_addr new OR (PAGE_DIRTY OR 7)
    \<and> ram s2 (frame_of (page_addr new)) = ram s (frame_of (rd s ptr))
    \<and> swap_bitmap s2 = swap_bitmap s
    \<and> mem_map s2 = (mem_map s)(MAP_NR (rd s ptr AND PAGE_MASK) := 0, new := 1))"
  using swap_round_trip[OF assms, of fuel] by metis

theorem swap_preserves_page_witness:
  "\<exists>s1 s2 new. try_to_swap_out 0x10000C (demo_mm 1 0x47) = Inr (True, s1) \<and> swap_in 1 0x10000C s1 = Inr s2
    \<and> ram s2 (frame_of (page_addr new)) = (\<lambda>_. 42)"
proof -
  let ?s = "demo_mm 1 0x47"
  have r: "rd ?s 0x10000C = 0x101047" by (simp add: demo_mm_ok)
  have g: "get_swap_page ?s = (1, ?s\<lparr>swap_bitmap := Some ((\<lambda>n. n = 1)(1 := False))\<rparr>)"
    unfolding get_swap_page_def by (subst upt_conv_Cons) (simp_all add: demo_mm_def)
  have "\<exists>s1. try_to_swap_out 0x10000C ?s = Inr (True, s1)"
    by (simp add: try_to_swap_out_def r g demo_mm_page demo_nr Let_def PAGE_DIRTY_def LOW_MEM_def PAGING_MEMORY_def
        free_page_def del: One_nat_def)
  then obtain s1 where s1: "try_to_swap_out 0x10000C ?s = Inr (True, s1)" by blast
  have d: "rd ?s 0x10000C AND PAGE_DIRTY \<noteq> 0" by (simp add: r PAGE_DIRTY_def)
  have f: "frame_of 0x10000C \<noteq> frame_of (rd ?s 0x10000C)" by (simp add: r frame_of_def)
  have p: "ram ?s (frame_of (rd ?s 0x10000C)) = (\<lambda>_. 42)" by (simp add: r frame_of_def) (simp add: demo_mm_def)
  from swap_preserves_page[OF demo_mm_ok(1,2) f d s1, of 0] s1 p show ?thesis by auto
qed



text \<open>
  C22: \<open>get_free_page\<close> ends: swapping out lowers the sum of the page counts, at most 3840 * 255. The page
  it returns, if any, is clear and counted once.
\<close>

theorem get_free_page_ends_clear:
  assumes "mm_ok s" and "979200 < fuel"
  shows "get_free_page fuel s \<noteq> Inl Unfinished
    \<and> (\<forall>a s'. get_free_page fuel s = Inr (a, s') \<longrightarrow> mm_ok s' \<and>
        (a = 0 \<or> (\<exists>n<PAGING_PAGES. a = page_addr n \<and> mem_map s' n = 1 \<and> ram s' (frame_of a) = (\<lambda>_. 0))))"
proof -
  have "total_count s < fuel" using total_count_bound[of s] assms(2) by simp
  with get_free_page_ends[OF assms(1)] get_free_page_result[OF assms(1)] show ?thesis by blast
qed

theorem get_free_page_ends_clear_witness: "get_free_page 979201 (demo_mm 1 7) \<noteq> Inl Unfinished"
  using get_free_page_ends_clear[OF demo_mm_ok(1), of 1 979201 7] by simp

section \<open>Formatting, time and the audit of the process tree\<close>

text \<open>
  C23: \<open>vsprintf\<close> on a format with one \<open>%d\<close> writes the text around it and the decimal numeral of the
  signed argument, for every 32-bit value, and returns the length.
\<close>

theorem vsprintf_decimal:
  assumes "CHR ''%'' \<notin> set t" and "CHR ''%'' \<notin> set u"
  shows "vsprintf strs (t @ ''%d'' @ u) [a] = Some (int (length (t @ decimal_int (sint a) @ u)), t @ decimal_int (sint a) @ u, [])"
  by (rule vsprintf_d[OF assms])

theorem vsprintf_decimal_witness: "\<exists>n. vsprintf (\<lambda>_. []) ''pid %d!'' [- 42] = Some (n, ''pid -42!'', [])"
proof -
  have "decimal_int (sint (- 42 :: u32)) = ''-42''" by (simp add: decimal_int_def decimal.simps demo_char)
  then show ?thesis using vsprintf_decimal[of "''pid ''" "''!''" "\<lambda>_. []" "- 42"] by simp
qed

text \<open>
  The digits of any 32-bit number in any base from 2 fit into the buffer of 36 characters of \<open>number\<close>.
\<close>

lemma number_buffer_suffices:
  assumes "2 \<le> base"
  shows "length (div_loop base (unat (n :: u32))) \<le> 36"
  using tmp_fits[OF assms, of n] by simp

lemma number_buffer_suffices_example: "length (div_loop 2 (unat (- 1 :: u32))) \<le> 36"
  by (rule number_buffer_suffices) simp

text \<open>
  C24: for the years 1970 to 2099, whether the year is counted from 1900 or from 2000, \<open>kernel_mktime\<close> returns a number that agrees modulo
  \<open>2 ^ 32\<close> with the seconds from the start of 1970 to the time it is given, by the calendar. It is this number of seconds
  itself as long as that is below \<open>2 ^ 31\<close>, which is up to 19 January 2038; after that the 32 bits are negative.
\<close>

theorem kernel_mktime_calendar:
  assumes "tm_year t = int n + 70 \<or> tm_year t = int n - 30 \<and> tm_year t < 70" and "n < 130"
    and "tm_mon t = int m" and "m < 12"
    and "e = epoch_seconds n m (tm_mday t) (tm_hour t) (tm_min t) (tm_sec t)"
  shows "\<exists>r t'. kernel_mktime t = Inr (r, t') \<and> tm_year t' = int n + 70 \<and> r mod 2 ^ 32 = e mod 2 ^ 32 \<and>
    (- (2 ^ 31) \<le> e \<and> e < 2 ^ 31 \<longrightarrow> r = e) \<and> (2 ^ 31 \<le> e \<and> e < 2 ^ 32 \<longrightarrow> r = e - 2 ^ 32)"
proof -
  obtain t' where "kernel_mktime t = Inr (sint (word_of_int e :: u32), t')" "tm_year t' = int n + 70"
    using kernel_mktime_spec[OF assms] by blast
  moreover have "sint (word_of_int e :: u32) = e - 2 ^ 32" if "2 ^ 31 \<le> e \<and> e < 2 ^ 32"
    using sint_of_int_u32(2)[of "e - 2 ^ 32"] that unfolding word_of_int_minus_2p32 by simp
  ultimately show ?thesis using sint_of_int_u32[of e] by blast
qed

text \<open>The start of March 2000, and the last second of 2037.\<close>

theorem kernel_mktime_calendar_witness:
  "\<exists>t t'. kernel_mktime \<lparr>tm_sec = 0, tm_min = 0, tm_hour = 0, tm_mday = 1, tm_mon = 2, tm_year = 0\<rparr> = Inr (951868800, t) \<and>
     kernel_mktime \<lparr>tm_sec = 59, tm_min = 59, tm_hour = 23, tm_mday = 31, tm_mon = 11, tm_year = 137\<rparr> = Inr (2145916799, t')"
proof -
  have e: "epoch_seconds 30 2 1 0 0 0 = 951868800" "epoch_seconds 67 11 31 23 59 59 = 2145916799" by code_simp+
  have 1: "\<exists>r t'. kernel_mktime \<lparr>tm_sec = 0, tm_min = 0, tm_hour = 0, tm_mday = 1, tm_mon = 2, tm_year = 0\<rparr> = Inr (r, t') \<and> r = 951868800"
    using kernel_mktime_calendar[of "\<lparr>tm_sec = 0, tm_min = 0, tm_hour = 0, tm_mday = 1, tm_mon = 2, tm_year = 0\<rparr>" 30 2 951868800] e by auto
  have 2: "\<exists>r t'. kernel_mktime \<lparr>tm_sec = 59, tm_min = 59, tm_hour = 23, tm_mday = 31, tm_mon = 11, tm_year = 137\<rparr> = Inr (r, t') \<and> r = 2145916799"
    using kernel_mktime_calendar[of "\<lparr>tm_sec = 59, tm_min = 59, tm_hour = 23, tm_mday = 31, tm_mon = 11, tm_year = 137\<rparr>" 67 11 2145916799] e by auto
  from 1 2 show ?thesis by blast
qed

text \<open>
  The audit of the process tree, run on a table whose links represent lists of children, prints no
  warning and dereferences no bad pointer.
\<close>

lemma audit_accepts_tree:
  assumes "tree_rep k kids" and "\<And>i. task k i \<noteq> None \<Longrightarrow> i < NR_TASKS" and "\<And>i. i \<notin> set (kids i)"
  shows "audit_ptree k = []"
  by (rule audit_passes[OF assms])

lemma audit_accepts_tree_example: "audit_ptree demo = []"
  by (rule audit_accepts_tree[OF demo_tree]) (auto simp: demo_def demo_task_def demo_kids_def NR_TASKS_def split: if_splits)

section \<open>The buffer cache and the block layer\<close>


definition demo_buf :: cbuf where
  "demo_buf = \<lparr>b_data = zero_block, b_uptodate = False, b_dirt = False, b_count = 0, b_dev = 0, b_blocknr = 0, b_lock = False,
     b_prev = None, b_next = None, b_prev_free = None, b_next_free = None\<rparr>"

text \<open>A cache of two buffers.\<close>

definition demo_cache :: cache where
  "demo_cache = buffer_init 0 3000 \<lparr>bh = (\<lambda>_. demo_buf), nr_buffers = 0, hash_table = (\<lambda>_. None), free_list = 0\<rparr>"

lemma demo_cache_nr: "nr_buffers demo_cache = 2"
  by (simp add: demo_cache_def buffer_init_def sizeof_buffer_head_def Let_def init_blocks.simps)

lemma demo_cache_rep: "cache_rep demo_cache [0, 1] (\<lambda>_. [])" "uniq demo_cache" "hashed demo_cache = {}"
  "i < 2 \<Longrightarrow> b_count (bh demo_cache i) = 0 \<and> BADNESS (bh demo_cache i) = 0"
proof -
  note n = demo_cache_nr[unfolded demo_cache_def]
  have u: "[0..<2] = [0, 1::nat]" by (simp add: upt_rec)
  show "cache_rep demo_cache [0, 1] (\<lambda>_. [])" "uniq demo_cache"
    "i < 2 \<Longrightarrow> b_count (bh demo_cache i) = 0 \<and> BADNESS (bh demo_cache i) = 0"
    using buffer_init_rep[OF n, unfolded u] unfolding demo_cache_def by simp_all
  show "hashed demo_cache = {}"
    unfolding hashed_def demo_cache_nr
    by (auto simp: demo_cache_def buffer_init_def sizeof_buffer_head_def Let_def init_blocks.simps)
qed


text \<open>
  A block that is not cached is given the least recently used of the buffers that are free, clean and
  unlocked; it is counted once, not up to date, and now the most recently used. All other buffers keep
  their contents and flags, and ring and hash queues still represent their lists.
\<close>

lemma getblk_takes_lru:
  assumes "cache_rep c fl ch" and "\<forall>i\<in>hashed c. \<not> caches c dev block i"
    and "find (\<lambda>i. b_count (bh c i) = 0 \<and> BADNESS (bh c i) = 0) fl = Some i"
  shows "\<exists>c' ch'. Buffer.getblk (Suc fuel) io si dev block es c = Inr (i, es, c')
    \<and> cache_rep c' (remove1 i fl @ [i]) ch' \<and> core (bh c' i) = core (renew dev block (bh c i))
    \<and> (\<forall>j. j \<noteq> i \<longrightarrow> core (bh c' j) = core (bh c j))"
  by (rule getblk_lru[OF assms, of fuel io si es]) blast

lemma getblk_takes_lru_example:
  "\<exists>c' ch'. Buffer.getblk (Suc 0) (\<lambda>w i es c. Inr (es, c)) (\<lambda>es c. Inr (es, c)) 1 7 [] demo_cache = Inr (0, [], c')
    \<and> cache_rep c' [1, 0] ch'"
proof -
  have "find (\<lambda>i. b_count (bh demo_cache i) = 0 \<and> BADNESS (bh demo_cache i) = 0) [0, 1] = Some 0"
    using demo_cache_rep(4)[of 0] by simp
  moreover have "\<forall>i\<in>hashed demo_cache. \<not> caches demo_cache 1 7 i" by (simp add: demo_cache_rep(3))
  ultimately obtain c' ch' where "Buffer.getblk (Suc 0) (\<lambda>w i es c. Inr (es, c)) (\<lambda>es c. Inr (es, c)) 1 7 [] demo_cache = Inr (0, [], c')"
    "cache_rep c' (remove1 0 [0, 1] @ [0]) ch'"
    using getblk_takes_lru[OF demo_cache_rep(1)] by blast
  then show ?thesis by (intro exI conjI) simp_all
qed

text \<open>
  C26: a request added to the queue of a busy device leaves the current request at the head and the others in their order. A request for a
  buffer that no queued request equals in command, device and sector (\<open>comparable\<close>) keeps a queue that is the rest of one
  sweep followed by another so; it is thus served at the latest in the next sweep. A request for a page, which is how swapping works, goes
  behind the head and the pages that follow it, in front of the first buffer.
\<close>

theorem elevator_two_sweeps:
  assumes "queue_rep s major q" and "r \<notin> set q" and "r < NR_REQUEST" and "0 \<le> rq_dev (request s r)"
    and "rq_next (request s r) = None"
  shows "\<exists>s'. add_request major r s = Inr s' \<and> queue_rep s' major (place (request s) r q)
    \<and> filter (\<lambda>i. i \<noteq> r) (place (request s) r q) = q \<and> (q \<noteq> [] \<longrightarrow> hd (place (request s) r q) = hd q)
    \<and> (comparable (request s) r q \<and> breaks (request s) q \<le> 1 \<longrightarrow> breaks (request s') (place (request s) r q) \<le> 1)
    \<and> (rq_bh (request s r) = None \<and> q \<noteq> [] \<longrightarrow>
         place (request s) r q = hd q # takeWhile (\<lambda>i. rq_bh (request s i) = None) (tl q) @ r #
           dropWhile (\<lambda>i. rq_bh (request s i) = None) (tl q))"
proof -
  obtain s' where s': "add_request major r s = Inr s'" "queue_rep s' major (place (request s) r q)"
    and f: "\<And>i. request s' i = (request s i)\<lparr>rq_next := rq_next (request s' i)\<rparr>"
    using add_request_place[OF assms(1-5)] by metis
  have "IN_ORDER (request s' i) (request s' j) = IN_ORDER (request s i) (request s j)" for i j
    by (subst f, subst (2) f) (simp add: IN_ORDER_def)
  then have "breaks (request s') (place (request s) r q) = breaks (request s) (place (request s) r q)"
    by (rule breaks_cong)
  with place_two_sweeps[of "request s" r q] s' place_others[OF assms(2)] hd_place[of q] place_page[of "request s" r q] show ?thesis by auto
qed

definition demo_req :: "u32 \<Rightarrow> nat option \<Rightarrow> request" where
  "demo_req sector nx = \<lparr>rq_dev = 0x301, rq_cmd = 0, rq_errors = 0, rq_sector = sector, rq_nr_sectors = 2, rq_bh = Some 0,
     rq_waiting = None, rq_next = nx\<rparr>"

text \<open>Sectors 10 and 50 are queued; sector 30 comes in.\<close>

definition demo_blk :: blk where
  "demo_blk = \<lparr>bcache = demo_cache, request = (\<lambda>_. demo_req 30 None)(0 := demo_req 10 (Some 1), 1 := demo_req 50 None),
     current_request = (\<lambda>_. None)(3 \<mapsto> 0), has_request_fn = (\<lambda>_. True), started = []\<rparr>"

theorem elevator_two_sweeps_witness:
  "\<exists>s'. add_request 3 2 demo_blk = Inr s' \<and> queue_rep s' 3 [0, 2, 1]"
proof -
  have "queue_rep demo_blk 3 [0, 1]" "comparable (request demo_blk) 2 [0, 1]" "breaks (request demo_blk) [0, 1] \<le> 1"
    "place (request demo_blk) 2 [0, 1] = [0, 2, 1]"
    by (simp_all add: queue_rep_def demo_blk_def demo_req_def comparable_def IN_ORDER_def fits_def NR_REQUEST_def)
  with elevator_two_sweeps[of demo_blk 3 "[0, 1]" 2] show ?thesis
    by (auto simp: demo_blk_def demo_req_def NR_REQUEST_def)
qed

section \<open>Inodes\<close>

text \<open>
  C27: an inode written out and then read back into a slot of the table, the same or another one, with nothing else running in between, has all
  the fields a disk inode has; only the size of a block device is not taken from the disk but is that of the device. The write leaves the inode clean.
\<close>

theorem inode_write_read:
  assumes "write_inode i [] s = Inr (es, s1)" and "i_dirt (inode_table s i)" and "i_dev (inode_table s i) \<noteq> 0"
    and "s2 = upd_inode j (\<lambda>n. n\<lparr>i_dev := i_dev (inode_table s i), i_num := i_num (inode_table s i)\<rparr>) s1"
    and "read_inode j [] s2 = Inr (es', s3)"
  shows "inode_table s3 j = loaded_fields (blk_bytes s2) (inode_table s i) (inode_table s2 j) \<and> \<not> i_dirt (inode_table s1 i)"
  using write_then_read[OF assms] by blast

definition demo_isys :: isys where
  "demo_isys = \<lparr>ifs = demo_fs, inode_table = (\<lambda>_. zero_inode)(0 := demo_file\<lparr>i_dirt := True\<rparr>), i_lock = (\<lambda>_. False),
     last_inode = 0, s_imount = (\<lambda>_. None), blk_bytes = (\<lambda>_. None), freed_pages = []\<rparr>"

lemma demo_isys_1: "i_dev (inode_table demo_isys 0) = 1" "i_num (inode_table demo_isys 0) = 3"
    "i_dirt (inode_table demo_isys 0)" "i_mode (inode_table demo_isys 0) = 0x81A4" "i_size (inode_table demo_isys 0) = 10"
    "\<not> i_lock demo_isys i" "super (ifs demo_isys) = super demo_fs" "ifs demo_isys = demo_fs"
  by (simp_all add: demo_isys_def demo_file_def)

lemma demo_super_cong: "super f = super demo_fs \<Longrightarrow> get_super 1 f = Some 0"
  using get_super_cong[of f demo_fs] demo_super_1 by simp

lemma demo_block_4: "i_num n = 3 \<Longrightarrow> inode_block (super demo_fs 0) n = 4" "i_num n = 3 \<Longrightarrow> inode_slot n = 2"
  by (simp_all add: inode_block_def inode_slot_def demo_fs_def demo_super_def)

lemma demo_write_inode:
  "\<exists>f. write_inode 0 [] demo_isys = Inr ([], set_lock 0 False (upd_inode 0 (\<lambda>n. n\<lparr>i_dirt := False\<rparr>) (set_lock 0 True demo_isys\<lparr>ifs := f\<rparr>)))
    \<and> super f = super demo_fs \<and> (\<exists>b. bufs f (1, 4) = Some b \<and> b_uptodate b \<and> b_count b = 0)"
proof -
  have "bufs demo_fs = (\<lambda>_. None)" "disk demo_fs = (\<lambda>_. Some zero_block)" by (simp_all add: demo_fs_def)
  note d = this
  let ?f = "upd_buf (1, 4) (\<lambda>b. b\<lparr>b_count := b_count b - 1\<rparr>)
      (upd_buf (1, 4) (\<lambda>b. b\<lparr>b_data := store_inode 2 (inode_table demo_isys 0) (b_data b), b_dirt := True\<rparr>)
        (upd_buf (1, 4) (\<lambda>b. b\<lparr>b_data := zero_block, b_uptodate := True\<rparr>) (demo_fs\<lparr>bufs := [(1, 4) \<mapsto> fresh_buf]\<rparr>)))"
  have "write_inode 0 [] demo_isys
      = Inr ([], set_lock 0 False (upd_inode 0 (\<lambda>n. n\<lparr>i_dirt := False\<rparr>) (set_lock 0 True demo_isys\<lparr>ifs := ?f\<rparr>)))"
    by (simp add: d write_inode_def lock_inode_def demo_isys_1 set_lock_def Let_def demo_super_1 nap_def demo_block_4
        FsState.bread_def FsState.getblk_def fresh_buf_def FsState.brelse_def)
  moreover have "super ?f = super demo_fs \<and> (\<exists>b. bufs ?f (1, 4) = Some b \<and> b_uptodate b \<and> b_count b = 0)"
    by (simp add: fresh_buf_def)
  ultimately show ?thesis by blast
qed

theorem inode_write_read_witness:
  "\<exists>s1 s3. write_inode 0 [] demo_isys = Inr ([], s1)
    \<and> read_inode 1 [] (upd_inode 1 (\<lambda>n. n\<lparr>i_dev := 1, i_num := 3\<rparr>) s1) = Inr ([], s3) \<and> i_size (inode_table s3 1) = 10"
proof -
  obtain f b where w: "write_inode 0 [] demo_isys = Inr ([], set_lock 0 False (upd_inode 0 (\<lambda>n. n\<lparr>i_dirt := False\<rparr>) (set_lock 0 True demo_isys\<lparr>ifs := f\<rparr>)))"
    and f: "super f = super demo_fs" "bufs f (1, 4) = Some b" "b_uptodate b" "b_count b = 0"
    using demo_write_inode by blast
  define s1 where "s1 = set_lock 0 False (upd_inode 0 (\<lambda>n. n\<lparr>i_dirt := False\<rparr>) (set_lock 0 True demo_isys\<lparr>ifs := f\<rparr>))"
  define s2 where "s2 = upd_inode 1 (\<lambda>n. n\<lparr>i_dev := 1, i_num := 3\<rparr>) s1"
  have s2: "i_dev (inode_table s2 1) = 1" "i_num (inode_table s2 1) = 3" "\<not> i_lock s2 1" "ifs s2 = f"
    by (simp_all add: s2_def s1_def upd_inode_def set_lock_def demo_isys_1)
  obtain s3 where r: "read_inode 1 [] s2 = Inr ([], s3)"
    using s2 f by (simp add: read_inode_def lock_inode_def set_lock_def Let_def demo_super_cong nap_def demo_block_4
        FsState.bread_def FsState.getblk_def FsState.brelse_def)
  have "inode_table s3 1 = loaded_fields (blk_bytes s2) (inode_table demo_isys 0) (inode_table s2 1)"
    using inode_write_read[OF w[folded s1_def], of s2 1 "[]" s3] r
    by (simp add: demo_isys_1 s2_def)
  then show ?thesis using w[folded s1_def] r[unfolded s2_def] by (auto simp: loaded_fields_def disk_fields_def demo_isys_1 s_isblk_def)
qed

text \<open>
  C28: the table never has two inodes for one device and number after \<open>iget\<close>, whatever other processes do
  while it sleeps, as long as they keep that.
\<close>

theorem iget_one_inode:
  assumes "iget fuel dev nr es s = Inr (i, es', s')" and "iuniq s" and "ienv_ok es"
  shows "iuniq s' \<and> ienv_ok es'"
  by (rule iget_keeps[OF assms])

theorem iget_one_inode_witness:
  "\<exists>s'. iget (Suc (Suc 0)) 1 3 [] demo_isys = Inr (0, [], s') \<and> iuniq s' \<and> i_count (inode_table s' 0) = 2"
proof -
  have u: "iuniq demo_isys" by (auto simp: iuniq_def demo_isys_def demo_file_def zero_inode_def)
  have "inode_table demo_isys 1 = zero_inode" by (simp add: demo_isys_def)
  then have e: "empty_scan (Suc k) None demo_isys = (Some 1, demo_isys\<lparr>last_inode := 1\<rparr>)" for k
    by (simp add: NR_INODE_def demo_isys_1 Let_def) (simp add: demo_isys_def zero_inode_def)
  have e: "empty_scan NR_INODE None demo_isys = (Some 1, demo_isys\<lparr>last_inode := 1\<rparr>)"
    using e[of 63] by (simp add: NR_INODE_def del: empty_scan.simps)
  let ?s1 = "set_lock 1 False (upd_inode 1 (\<lambda>_. zero_inode\<lparr>i_count := 1\<rparr>) (demo_isys\<lparr>last_inode := 1\<rparr>))"
  have g: "get_empty_inode (Suc (Suc 0)) [] demo_isys = Inr (1, [], ?s1)"
    by (simp add: e) (simp add: demo_isys_def zero_inode_def)
  obtain s' where s': "iget (Suc (Suc 0)) 1 3 [] demo_isys = Inr (0, [], s')" "i_count (inode_table s' 0) = 2"
    by (simp add: iget_def g NR_INODE_def del: get_empty_inode.simps)
       (simp add: upd_inode_def set_lock_def count_add_def demo_isys_def demo_file_def zero_inode_def iput_def Let_def)
  from iget_one_inode[OF s'(1) u] s' show ?thesis by simp
qed

section \<open>Names and directories\<close>

text \<open>
  C29: when nothing else runs, \<open>find_entry\<close> on a directory without holes returns the first entry that matches the name, and holds its
  block; without one it holds nothing. What the cache shows does not change. The name is cut to the length of an entry; \<open>..\<close> in the root of the
  process is looked up as \<open>.\<close>. The one case left out is \<open>..\<close> in the root of a mounted file system, where the search moves to another directory.
\<close>

theorem find_entry_finds_first:
  assumes "n = inode_table s dir" and "take NAME_LEN name = [46, 46] \<longrightarrow> stays_in p dir s" and "nn = effective_name p dir name"
    and "room 2 (ifs s)" and "entries = unat (i_size n) div 16" and "i_zone n 0 \<noteq> 0"
    and "\<forall>j<entries. fblock (ifs s) n (int (j div DIR_ENTRIES_PER_BLOCK)) \<noteq> None"
    and "fblock (ifs s) n 0 \<noteq> None" and "entries \<le> 64 * (7 + 512 + 512 * 512)"
  shows "\<exists>s' r. find_entry fu p dir name [] s = Inr ((dir, r), [], s') \<and> inode_table s' = inode_table s
    \<and> r = map_option (\<lambda>j. (dkey (ifs s) n j, j mod DIR_ENTRIES_PER_BLOCK)) (find (dmatch (ifs s) n nn) [0..<entries])
    \<and> (case r of None \<Rightarrow> unseen (ifs s) (ifs s') | Some (q, k) \<Rightarrow> holding (ifs s) q (ifs s'))"
  using find_entry_first[OF assms] unfolding first_match_def found_state_def by fast

text \<open>A directory with the entries \<open>.\<close>, \<open>..\<close> and \<open>a\<close>; the file is open.\<close>

definition demo_dirblk :: block where
  "demo_dirblk = set_de_name 2 [97] (set_de_inode 2 3 (dot_entries 2 2 zero_block))"

definition demo_dsys :: isys where
  "demo_dsys = \<lparr>ifs = demo_fs\<lparr>bufs := [(1, 5) \<mapsto> \<lparr>b_data = demo_dirblk, b_uptodate = True, b_dirt = False, b_count = 0\<rparr>]\<rparr>,
     inode_table = (\<lambda>_. zero_inode)
       (5 := demo_file\<lparr>i_mode := 0x41FF, i_size := 48, i_num := 2, i_nlinks := 2\<rparr>, 0 := demo_file\<lparr>i_nlinks := 2\<rparr>),
     i_lock = (\<lambda>_. False), last_inode = 6, s_imount = (\<lambda>_. None), blk_bytes = (\<lambda>_. None), freed_pages = []\<rparr>"

definition demo_caller :: caller where "demo_caller = \<lparr>c_kern = demo_user, c_root = 5, c_pwd = 5\<rparr>"

lemma demo_dir_fields:
  "i_dev (inode_table demo_dsys 5) = 1" "i_zone (inode_table demo_dsys 5) 0 = 5" "unat (i_size (inode_table demo_dsys 5)) = 48"
  by (simp_all add: demo_dsys_def demo_file_def)

lemma demo_dir_block: "fblock (ifs demo_dsys) (inode_table demo_dsys 5) 0 = Some demo_dirblk"
  by (simp add: fblock_def zpos_of_def demo_dir_fields Let_def) (simp add: demo_dsys_def contents_def)

lemma demo_dir_entries:
  "de_inode demo_dirblk 2 = 3" "de_name demo_dirblk 0 0 = 46" "de_name demo_dirblk (Suc 0) 0 = 46"
  "de_name demo_dirblk 2 0 = 97" "de_name demo_dirblk 2 (Suc 0) = 0"
  by (simp_all add: demo_dirblk_def de_inode_def de_name_def set_de_name_def set_de_inode_def dot_entries_def get16_def put16_def
      NAME_LEN_def zero_block_def Let_def)

lemma demo_dmatch:
  "dmatch (ifs demo_dsys) (inode_table demo_dsys 5) [97] 0 = False" "dmatch (ifs demo_dsys) (inode_table demo_dsys 5) [97] (Suc 0) = False"
  "dmatch (ifs demo_dsys) (inode_table demo_dsys 5) [97] 2 = True"
  by (simp_all add: dmatch_def DIR_ENTRIES_PER_BLOCK_def demo_dir_block match_def demo_dir_entries NAME_LEN_def Let_def)

lemma demo_room: "room 8 (ifs demo_dsys)"
  by (simp add: room_def held_def demo_dsys_def)

theorem find_entry_finds_first_witness:
  "\<exists>s'. find_entry 9 demo_caller 5 [97] [] demo_dsys = Inr ((5, Some ((1, 5), 2)), [], s') \<and> holding (ifs demo_dsys) (1, 5) (ifs s')"
proof -
  have k: "dkey (ifs demo_dsys) (inode_table demo_dsys 5) 2 = (1, 5)"
    by (simp add: dkey_def DIR_ENTRIES_PER_BLOCK_def zpos_of_def demo_dir_fields)
  have u: "[0..<3] = [0, Suc 0, 2]" by (simp add: upt_rec)
  have "\<forall>j<3. fblock (ifs demo_dsys) (inode_table demo_dsys 5) (int (j div DIR_ENTRIES_PER_BLOCK)) \<noteq> None"
    by (simp add: DIR_ENTRIES_PER_BLOCK_def demo_dir_block)
  note b = this
  have e: "3 = unat (i_size (inode_table demo_dsys 5)) div 16" by (simp add: demo_dir_fields)
  have m: "find (dmatch (ifs demo_dsys) (inode_table demo_dsys 5) (take NAME_LEN [97])) [0..<3] = Some 2"
    by (simp add: NAME_LEN_def u demo_dmatch)
  have r: "room 2 (ifs demo_dsys)" by (rule room_mono[OF demo_room]) simp
  have c: "take NAME_LEN [97] = [46, 46] \<longrightarrow> stays_in demo_caller 5 demo_dsys" "i_zone (inode_table demo_dsys 5) 0 \<noteq> 0"
    "fblock (ifs demo_dsys) (inode_table demo_dsys 5) 0 \<noteq> None" "(3 :: nat) \<le> 64 * (7 + 512 + 512 * 512)"
    by (simp_all add: NAME_LEN_def demo_dir_fields demo_dir_block)
  have en: "take NAME_LEN [97] = effective_name demo_caller 5 [97]" by (simp add: effective_name_def NAME_LEN_def)
  from find_entry_finds_first[OF HOL.refl c(1) en r e c(2) b c(3,4), of 9]
  show ?thesis unfolding m by (auto simp: k DIR_ENTRIES_PER_BLOCK_def)
qed

text \<open>
  C30: \<open>mknod\<close>, \<open>mkdir\<close>, \<open>unlink\<close>, \<open>link\<close> and \<open>symlink\<close> leave every reference count as it was, of buffers and of
  inodes, on every path through them, the error paths included.
\<close>

theorem dir_calls_balance:
  assumes "room 8 (ifs s)" and "run_call fu p c [] s = Inr (r, es, s')"
  shows "(\<forall>q. held (ifs s') q = held (ifs s) q) \<and> (\<forall>i. i_count (inode_table s' i) = i_count (inode_table s i))"
  using run_call_balance[OF assms] by blast

lemma demo_find_scan:
  assumes "bufs (ifs s) (1, 5) = Some b" and "b_data b = demo_dirblk"
  shows "find_scan 5 [97] 3 0 0 (Some (1, 5)) [] s = Inr (Some ((1, 5), 2), [], s)"
proof -
  have m: "match [97] demo_dirblk 0 = False" "match [97] demo_dirblk (Suc 0) = False" "match [97] demo_dirblk 2 = True"
    by (simp_all add: match_def demo_dir_entries NAME_LEN_def Let_def)
  note st = io_bind_def io_ret_def read_buf_def Let_def DIR_ENTRIES_PER_BLOCK_def assms m
  have "find_scan 5 [97] 3 2 2 (Some (1, 5)) [] s = Inr (Some ((1, 5), 2), [], s)"
    by (subst find_scan.simps) (simp add: st)
  moreover have "find_scan 5 [97] 3 (Suc 0) (Suc 0) (Some (1, 5)) [] s = find_scan 5 [97] 3 2 2 (Some (1, 5)) [] s"
    by (subst find_scan.simps) (simp add: st numeral_2_eq_2)
  moreover have "find_scan 5 [97] 3 0 0 (Some (1, 5)) [] s = find_scan 5 [97] 3 (Suc 0) (Suc 0) (Some (1, 5)) [] s"
    by (subst find_scan.simps) (simp add: st)
  ultimately show ?thesis by simp
qed

text \<open>The states of \<open>unlink\<close> after the path has been walked, the entry found and its inode taken.\<close>

definition demo_d1 :: isys where "demo_d1 = count_add 5 1 demo_dsys"

definition demo_d2 :: isys where
  "demo_d2 = demo_d1\<lparr>ifs := upd_buf (1, 5) (\<lambda>b. b\<lparr>b_count := b_count b + 1\<rparr>) (ifs demo_d1)\<rparr>"

lemma demo_tables:
  "inode_table demo_d1 = (inode_table demo_dsys)(5 := (inode_table demo_dsys 5)\<lparr>i_count := 2\<rparr>)" "inode_table demo_d2 = inode_table demo_d1"
  "ifs demo_d1 = ifs demo_dsys" "i_lock demo_d1 = (\<lambda>_. False)" "i_lock demo_d2 = (\<lambda>_. False)" "last_inode demo_d2 = 6"
  "bufs (ifs demo_d2) (1, 5) = Some \<lparr>b_data = demo_dirblk, b_uptodate = True, b_dirt = False, b_count = 1\<rparr>"
  by (simp_all add: demo_d1_def demo_d2_def count_add_def upd_inode_def) (simp_all add: demo_dsys_def demo_file_def)

lemma demo_walk_a: "dir_of fu demo_caller [97] [] demo_dsys = Inr (Some (5, [97]), [], demo_d1)"
proof -
  have "walk (follow_link fu demo_caller) fu demo_caller [97] 5 [] demo_d1 = Inr (Some 5, [], demo_d1)"
    by (subst walk.simps) (simp add: io_bind_def the_inode_def io_get_def demo_tables demo_dsys_def s_isdir_def permission_def
       MAY_EXEC_def suser_def demo_caller_def demo_user_ids demo_file_def io_ret_def Let_def)
  then show ?thesis
    by (simp add: dir_of_def dir_namei_def get_dir_def io_bind_def io_seq_def io_mod_def io_ret_def demo_caller_def basename_def demo_d1_def)
qed

lemma demo_find_a: "find_entry fu p 5 [97] [] demo_d1 = Inr ((5, Some ((1, 5), 2)), [], demo_d2)"
proof -
  have z: "i_zone (inode_table demo_d1 5) 0 = 5" "i_dev (inode_table demo_d1 5) = 1" "unat (i_size (inode_table demo_d1 5)) div 16 = 3"
    by (simp_all add: demo_tables demo_dir_fields)
  have b: "FsState.bread (1, 5) (ifs demo_d1) = Inr (True, ifs demo_d2)"
    by (simp add: FsState.bread_def FsState.getblk_def demo_d2_def demo_tables) (simp add: demo_dsys_def)
  show ?thesis
    using demo_find_scan[of demo_d2] demo_tables(7)
    by (simp add: find_entry_def io_bind_def the_inode_def io_get_def dotdot_def io_ret_def bread_io_def quiet_nap z b NAME_LEN_def Let_def)
       (simp add: demo_d2_def)
qed

definition demo_d3 :: isys where
  "demo_d3 = count_add 7 (- 1) (count_add 0 1 (set_lock 7 False (upd_inode 7 (\<lambda>_. zero_inode\<lparr>i_count := 1\<rparr>) (demo_d2\<lparr>last_inode := 7\<rparr>))))"

lemma demo_iget_a: "iget (Suc (Suc (Suc 0))) 1 3 [] demo_d2 = Inr (0, [], demo_d3)"
proof -
  have t: "inode_table demo_d2 7 = zero_inode" "i_dev (inode_table demo_d2 0) = 1" "i_num (inode_table demo_d2 0) = 3"
    "\<not> i_mount (inode_table demo_d2 0)" "i_num (inode_table demo_d2 5) \<noteq> 3"
    by (simp_all add: demo_tables) (simp_all add: demo_dsys_def demo_file_def zero_inode_def)
  have "empty_scan (Suc k) None demo_d2 = (Some 7, demo_d2\<lparr>last_inode := 7\<rparr>)" for k
    using t(1) by (simp add: NR_INODE_def Let_def demo_tables) (simp add: zero_inode_def)
  from this[of 63] have e: "empty_scan NR_INODE None demo_d2 = (Some 7, demo_d2\<lparr>last_inode := 7\<rparr>)"
    by (simp add: NR_INODE_def del: empty_scan.simps)
  have g: "get_empty_inode (Suc (Suc (Suc 0))) [] demo_d2
      = Inr (7, [], set_lock 7 False (upd_inode 7 (\<lambda>_. zero_inode\<lparr>i_count := 1\<rparr>) (demo_d2\<lparr>last_inode := 7\<rparr>)))"
    using t(1) by (simp add: e demo_tables zero_inode_def)
  show ?thesis
    using t by (simp add: iget_def g NR_INODE_def del: get_empty_inode.simps)
       (simp add: upd_inode_def set_lock_def count_add_def zero_inode_def iput_def Let_def demo_tables demo_d3_def)
qed

theorem dir_calls_balance_witness:
  "\<exists>s'. run_call (Suc (Suc (Suc 0))) demo_caller (Unlink [97]) [] demo_dsys = Inr (0, [], s')
    \<and> i_count (inode_table s' 0) = 1 \<and> i_nlinks (inode_table s' 0) = 1"
proof -
  let ?fu = "Suc (Suc (Suc 0))"
  have t: "i_mode (inode_table demo_d3 5) = 0x41FF" "i_mode (inode_table demo_d3 0) = 0x81A4" "i_nlinks (inode_table demo_d3 0) = 2"
    "i_lock demo_d3 = (\<lambda>_. False)" "bufs (ifs demo_d3) = bufs (ifs demo_d2)" "i_count (inode_table demo_d3 0) = 2"
    "i_count (inode_table demo_d3 5) = 2" "i_dev (inode_table demo_d3 5) = 1" "i_dev (inode_table demo_d3 0) = 1"
    "\<not> i_pipe (inode_table demo_d3 5)" "\<not> i_pipe (inode_table demo_d3 0)"
    by (simp_all add: demo_d3_def count_add_def set_lock_def upd_inode_def demo_tables fun_eq_iff)
       (simp_all add: demo_dsys_def demo_file_def zero_inode_def)
  have "\<exists>s'. unlink_found ?fu demo_caller 5 0 (1, 5) 2 [] demo_d3 = Inr (0, [], s') \<and> i_nlinks (inode_table s' 0) = 1"
    by (simp add: unlink_found_def io_bind_def the_inode_def io_get_def io_seq_def io_ret_def t S_ISVTX_def s_isdir_def clear_entry_def
        mod_buf_def io_mod_def brelse_io_def FsState.brelse_def demo_tables touch_def now_io_def mod_inode_def leave_def iput_io_def
        iput_def Let_def s_isblk_def upd_inode_def count_add_def)
  then obtain s' where u: "unlink_found ?fu demo_caller 5 0 (1, 5) 2 [] demo_d3 = Inr (0, [], s')" "i_nlinks (inode_table s' 0) = 1" by blast
  have p: "permission demo_caller (inode_table demo_d1 5) MAY_WRITE"
    by (simp add: permission_def demo_tables MAY_WRITE_def demo_caller_def demo_user_ids Let_def) (simp add: demo_dsys_def demo_file_def)
  have d: "i_dev (inode_table demo_d2 5) = 1" by (simp add: demo_tables demo_dir_fields)
  have r: "run_call ?fu demo_caller (Unlink [97]) [] demo_dsys = Inr (0, [], s')"
    using u(1) by (simp add: sys_unlink_def io_bind_def demo_walk_a the_inode_def io_get_def p demo_find_a read_buf_def demo_tables(7)
       demo_dir_entries d demo_iget_a)
  have "i_count (inode_table demo_dsys 0) = 1" by (simp add: demo_dsys_def demo_file_def)
  with dir_calls_balance[OF demo_room r] r u(2) show ?thesis by auto
qed


section \<open>The allocator of small objects\<close>

text \<open>
  C31: an object handed out by \<open>malloc\<close> is as large as asked for, shares no byte with any live object, and the
  memory of the live objects, whose list links and descriptors lie beside them, has not changed.
\<close>

theorem malloc_no_overlap:
  assumes "pool k L" and "len \<le> 4096" and "2 \<le> card (free_frames (km k))" and "PAGING_PAGES < fuel"
  shows "\<exists>p s k'. malloc fuel len k = Inr (p, k') \<and> len \<le> s \<and> pool k' (insert (p, s) L)
    \<and> (\<forall>x\<in>L. apart (p, s) x) \<and> kept_objects L k k'"
proof -
  obtain p s k' where m: "malloc fuel len k = Inr (p, k')" "len \<le> s" "(p, s) \<notin> L" "pool k' (insert (p, s) L)" "kept_objects L k k'"
    by (rule malloc_pool[OF assms])
  then have "\<forall>x\<in>L. apart (p, s) x" using pool_apart[OF m(4)] by blast
  with m show ?thesis by blast
qed

definition demo_pages :: mm where
  "demo_pages = \<lparr>mem_map = (\<lambda>_. USED)(5 := 0, 7 := 0), ram = (\<lambda>_ _. 0), HIGH_MEMORY = 0x1000000,
     swap_bitmap = None, swap_dev = (\<lambda>_ _. 0), dir_entry = 16, page_entry = - 1\<rparr>"

lemma demo_pages_ok: "mm_ok demo_pages" "card (free_frames demo_pages) = 2"
proof -
  show "mm_ok demo_pages" by (auto simp: mm_ok_def demo_pages_def LOW_MEM_def USED_def page_addr_def split: if_splits)
  have "free_frames demo_pages = {5, 7}" by (auto simp: free_frames_def demo_pages_def USED_def PAGING_PAGES_def)
  then show "card (free_frames demo_pages) = 2" by simp
qed

theorem malloc_no_overlap_witness:
  "\<exists>p s k'. malloc 3841 100 (kmem_start demo_pages) = Inr (p, k') \<and> 100 \<le> s \<and> pool k' {(p, s)}"
  using malloc_no_overlap[OF pool_start[OF demo_pages_ok(1)], of 100 3841] demo_pages_ok(2)
  by (auto simp: kmem_start_def PAGING_PAGES_def)

text \<open>
  \<open>free_s\<close> accepts every live object with any size it can have been asked for, takes it off the live objects,
  leaves the memory of the others as it was, and after the last one no page is left in any bucket.
\<close>

lemma free_s_releases:
  assumes "pool k L" and "(p, s) \<in> L" and "size' \<le> int s" and "PAGING_PAGES < fuel"
  shows "\<exists>k'. free_s fuel p size' k = Inr k' \<and> pool k' (L - {(p, s)}) \<and> kept_objects (L - {(p, s)}) k k'
    \<and> (L = {(p, s)} \<longrightarrow> (\<forall>i<9. km_chain k' i = None))"
  by (rule free_s_pool[OF assms]) (auto dest: pool_empty)

lemma free_s_releases_example:
  "\<exists>p k' k''. malloc 3841 100 (kmem_start demo_pages) = Inr (p, k') \<and> free_s 3841 p 100 k' = Inr k'' \<and> km_chain k'' 3 = None"
proof -
  have c: "(100 :: nat) \<le> 4096" "2 \<le> card (free_frames (km (kmem_start demo_pages)))" "PAGING_PAGES < 3841"
    by (simp_all add: kmem_start_def demo_pages_ok(2) PAGING_PAGES_def)
  obtain p s k' where m: "malloc 3841 100 (kmem_start demo_pages) = Inr (p, k')" "100 \<le> s" "pool k' {(p, s)}"
    using malloc_pool[OF pool_start[OF demo_pages_ok(1)] c] by metis
  from free_s_releases[OF m(3), of p s 100 3841] m(1,2) show ?thesis by (auto simp: PAGING_PAGES_def)
qed

section \<open>Terminals\<close>

text \<open>
  C32: what arrives on a serial line in canonical mode is edited character by character (erase, kill, signals, flow control,
  CR and NL mapped) onto the text already collected, whose lines are counted in \<open>data\<close>; once the text has a complete line, a
  reader in the foreground, whoever it is, gets its first line, no more than it asked for, with the rest left for the next
  read. The collected and the arrived text fit one queue, and with \<open>IUCLC\<close>, which looks characters up in \<open>_ctype\<close> by a
  signed index, what arrives is 7-bit; without it every byte may arrive.
\<close>

theorem typed_line_is_read:
  assumes "i = tty_index tty s" and "tt_write (tty_table s i) = RsWrite" and "tt_queues (tty_table s i)" and "L_CANON (tty_table s i)"
    and "q_ok (read_q (tty_table s i))" and "I_UCLC (tty_table s i) \<longrightarrow> (\<forall>b\<in>set (q_list (read_q (tty_table s i))). b < 128)"
    and "q_ok (secondary (tty_table s i))"
    and "q_data (secondary (tty_table s i)) = of_nat (line_count (tty_table s i) (q_list (secondary (tty_table s i))))"
    and "length (q_list (secondary (tty_table s i))) + length (q_list (read_q (tty_table s i))) \<le> 1023"
    and "ys = foldl (edit (tty_table s i)) (q_list (secondary (tty_table s i))) (q_list (read_q (tty_table s i)))" and "list_ex (line_end (tty_table s i)) ys"
    and "take_line (tty_table s i) nr ys = (line, rest)"
    and "2047 < fuel" and "0 < nr" and "0 < tty" and "tty < 128"
  shows "\<exists>s1. do_tty_interrupt fuel (tty_call_write con fuel (Suc d)) tty s = Inr s1 \<and>
    (\<forall>k. (t_tty (cur k) = int tty \<longrightarrow> tt_pgrp (tty_table s1 i) = pgrp (cur k)) \<longrightarrow>
      (\<exists>s2. tty_read fuel drv tty nr envs (s1\<lparr>ts_kern := k\<rparr>) =
          Inr (if pending_signal s2 \<and> line = [] then - ERESTARTSYS else int (length line), line, s2) \<and>
        q_list (secondary (tty_table s2 i)) = rest))"
  by (rule serial_line_read[OF assms])

text \<open>On line 64: \<open>l x DEL s CR w\<close> typed with erase on DEL, newline for CR and echo. The reader gets \<open>l s NL\<close>.\<close>

definition demo_keys :: "u8 list" where "demo_keys = [108, 120, 127, 115, 13, 119]"

definition demo_tty :: tty_struct where
  "demo_tty = \<lparr>termios = \<lparr>c_iflag = 256, c_oflag = 0, c_cflag = 0, c_lflag = 11, c_line = 0,
       c_cc = (\<lambda>n. [3, 28, 127, 21, 4, 0, 1, 0, 17, 19, 26, 0, 18, 15, 23, 22, 0] ! n)\<rparr>,
     tt_pgrp = 0, tt_session = 0, tt_stopped = False, tt_write = RsWrite, tt_queues = True,
     read_q = \<lparr>q_data = 0, q_head = 6, q_tail = 0, q_buf = (\<lambda>n. demo_keys ! n)\<rparr>,
     write_q = \<lparr>q_data = 0, q_head = 0, q_tail = 0, q_buf = (\<lambda>_. 0)\<rparr>,
     secondary = \<lparr>q_data = 0, q_head = 0, q_tail = 0, q_buf = (\<lambda>_. 0)\<rparr>\<rparr>"

definition demo_line :: tty_state where
  "demo_line = \<lparr>ts_kern = demo, tty_table = (\<lambda>_. demo_tty), fg_console = 0, cr_flag = False, ts_events = []\<rparr>"

lemma demo_line_keys:
  "q_list (read_q demo_tty) = demo_keys" "q_list (secondary demo_tty) = []" "q_ok (read_q demo_tty)" "q_ok (secondary demo_tty)"
  "foldl (edit demo_tty) [] demo_keys = [108, 115, 10, 119]" "list_ex (line_end demo_tty) [108, 115, 10, 119]"
  "take_line demo_tty 80 [108, 115, 10, 119] = ([108, 115, 10], [119])"
  by code_simp+

theorem typed_line_is_read_witness:
  "\<exists>s1 s2. do_tty_interrupt 2048 (tty_call_write (\<lambda>c i s. Inr s) 2048 1) 64 demo_line = Inr s1 \<and>
     tty_read 2048 (\<lambda>i s. Inr s) 64 80 [] (s1\<lparr>ts_kern := demo\<rparr>) = Inr (3, [108, 115, 10], s2) \<and>
     q_list (secondary (tty_table s2 64)) = [119]"
proof -
  have k: "t_tty (cur demo) \<noteq> 64" by code_simp
  have b: "\<forall>b\<in>set demo_keys. b < 128" by (simp add: demo_keys_def)
  have c: "L_CANON demo_tty" by code_simp
  have f: "tt_write demo_tty = RsWrite" "tt_queues demo_tty" "q_data (secondary demo_tty) = 0" "line_count demo_tty [] = 0"
    by (simp_all add: demo_tty_def line_count_def)
  have l: "length demo_keys \<le> 1023" by (simp add: demo_keys_def)
  from typed_line_is_read[of 64 64 demo_line "[108, 115, 10, 119]" 80 "[108, 115, 10]" "[119]" 2048 "\<lambda>c i s. Inr s" 0 "\<lambda>i s. Inr s" "[]"]
  show ?thesis using k b c f l demo_line_keys by (auto simp: demo_line_def tty_index_def)
qed

section \<open>The console\<close>

text \<open>The windows of the first \<open>k\<close> consoles are sound and apart from each other.\<close>

definition windows_ok :: "nat \<Rightarrow> con_state \<Rightarrow> bool" where
  "windows_ok k s \<longleftrightarrow> (\<forall>n<k. window_ok n s \<and> (\<forall>m<k. m \<noteq> n \<longrightarrow> window s n \<inter> window s m = {}))"

lemma windows_okI: "(\<And>n. n < k \<Longrightarrow> window_ok n s) \<Longrightarrow> (\<And>n m. n < k \<Longrightarrow> m < k \<Longrightarrow> m \<noteq> n \<Longrightarrow> window s n \<inter> window s m = {}) \<Longrightarrow> windows_ok k s"
  by (simp add: windows_ok_def)



text \<open>An EGA with eighty columns and twenty-five lines: eight consoles.\<close>

definition demo_boot :: boot_screen where
  "demo_boot = \<lparr>ORIG_X = 3, ORIG_Y = 5, ORIG_VIDEO_MODE = 3, ORIG_VIDEO_COLS = 80, ORIG_VIDEO_LINES = 25, ORIG_VIDEO_EGA_BX = 3\<rparr>"

text \<open>Two consoles of such a display, each with a page of video memory.\<close>

definition demo_vc :: "nat \<Rightarrow> vc" where
  "demo_vc n = \<lparr>vc_video_erase_char = 0x720, vc_attr = 7, vc_def_attr = 7, vc_bold_attr = 0xFFFFFFFF, vc_ques = False, vc_state = ESnormal,
     vc_restate = ESnormal, vc_checkin = 0, vc_origin = 0xB8000 + of_nat n * 0x1000, vc_scr_end = 0xB8FA0 + of_nat n * 0x1000,
     vc_pos = 0xB8326 + of_nat n * 0x1000, vc_x = 3, vc_y = 5, vc_top = 0, vc_bottom = 25, vc_npar = 0, vc_par = (\<lambda>_. 0),
     vc_video_mem_start = 0xB8000 + of_nat n * 0x1000, vc_video_mem_end = 0xB9000 + of_nat n * 0x1000, vc_saved_x = 0, vc_saved_y = 0,
     vc_iscolor = False, vc_translate = NORM_TRANS\<rparr>"

definition demo_screen :: con_state where
  "demo_screen = tty_state.extend (demo_line\<lparr>tty_table := (\<lambda>_. demo_tty\<lparr>tt_write := ConWrite\<rparr>)\<rparr>)
     (con_state.fields demo_vc (\<lambda>_. 0) EGAC 80 25 160 0xB8000 0xC0000 0x3D4 0x3D5 True 2 0 0 0 0 0 [])"

lemma demo_screen_facts [simp]:
  "vc_cons demo_screen = demo_vc" "tty_table demo_screen = (\<lambda>_. demo_tty\<lparr>tt_write := ConWrite\<rparr>)" "video_num_columns demo_screen = 80"
  "video_num_lines demo_screen = 25" "video_size_row demo_screen = 160" "ts_kern demo_screen = demo" "fg_console demo_screen = 0"
  by (simp_all add: demo_screen_def con_state.defs tty_state.defs demo_line_def)

lemma demo_boot_ok: "boot_ok demo_boot" "vc_npar (vc_cons demo_screen 0) < 16"
  by (simp_all add: boot_ok_def adapter_memory_def demo_boot_def demo_vc_def)

lemma demo_windows: "windows_ok 2 demo_screen"
proof (rule windows_okI)
  show "window_ok n demo_screen" if "n < 2" for n
    using less_2_cases[OF that] by (elim disjE) (simp_all add: window_ok_def vc_ok_def demo_vc_def length_trans)
  show "window demo_screen n \<inter> window demo_screen m = {}" if "n < 2" "m < 2" "m \<noteq> n" for n m
    using less_2_cases[OF that(1)] less_2_cases[OF that(2)] that(3)
    by (elim disjE) (auto simp: demo_vc_def window_def)
qed



lemma keeps_windows:
  assumes "windows_ok k s" and "n < k" and "keeps n s s'"
  shows "windows_ok k s' \<and> (\<forall>m<k. m \<noteq> n \<longrightarrow> vc_cons s' m = vc_cons s m \<and> (\<forall>a\<in>window s m. vram s' a = vram s a))"
proof -
  have c: "confined n s s'" "window_ok n s'" using assms(3) by (simp_all add: keeps_def)
  have win: "window s' m = window s m" for m using c(1) by (cases "m = n") (simp_all add: window_def confined_def)
  have ok: "window_ok m s'" if "m < k" for m
    using c assms(1) that by (cases "m = n") (simp_all add: windows_ok_def window_ok_def confined_def)
  have "vram s' a = vram s a" if "m < k" "m \<noteq> n" "a \<in> window s m" for m a
  proof -
    have "a \<notin> window s n" using assms(1,2) that by (auto simp: windows_ok_def)
    then have "outside n s a" by (auto simp: outside_def window_def)
    then show ?thesis using c(1) by (simp add: confined_def)
  qed
  then show ?thesis using assms(1) ok c(1) by (auto simp: windows_ok_def win confined_def)
qed

lemma demo_ready:
  "window_ok 0 demo_screen" "vc_state (vc_cons demo_screen 0) = ESnormal" "q_ok (write_q (tty_table demo_screen 0))"
  "q_list (write_q (tty_table demo_screen 0)) = []" "\<not> FULL (write_q (tty_table demo_screen 0))"
  using demo_windows by (simp_all add: windows_ok_def demo_vc_def demo_tty_def q_ok_def q_list_def CHARS_def FULL_def LEFT_def)

lemma demo_write:
  obtains s' where "tty_write 3 (tty_call_write con_write 9 1) 1 [65] [] demo_screen = Inr (1, s')"
proof -
  let ?s = "put_write 0 65 (demo_screen\<lparr>cr_flag := False\<rparr>)" and ?cook = "copy_to_cooked 9 (tty_call_write con_write 9 0)"
  have w: "window_ok 0 ?s" using demo_ready(1) by (simp add: window_ok_def put_write_def upd_tty_def)
  have q: "q_ok (PUTCH 65 (write_q demo_tty)) \<and> q_list (PUTCH 65 (write_q demo_tty)) = [65]"
  proof -
    have "length (q_list (write_q demo_tty)) < 1023" using demo_ready(4) by (simp del: length_q_list)
    then show ?thesis using PUTCH_list[of "write_q demo_tty" 65] demo_ready(3,4) by (simp del: length_q_list)
  qed
  have l: "printable 65" "0 < MAX_CONSOLES" by (simp_all add: printable_def MAX_CONSOLES_def)
  obtain s' where s': "con_write ?cook 0 ?s = Inr s'"
    using con_write_text[OF w, of "[65]" ?cook] q l demo_ready(2) by (auto simp: put_write_def upd_tty_def demo_vc_def demo_tty_def)
  have p: "\<not> pending_signal demo_screen" unfolding pending_signal_def by (simp add: demo_def demo_task_def cur_def ptask_def blank_task_def)
  have "tty_write (Suc (Suc (Suc 0))) (tty_call_write con_write 9 (Suc 0)) 1 [65] [] demo_screen = Inr (1, s')"
    using s' p demo_ready(5)
    by (simp add: tty_write_def tty_index_def Let_def sleep_if_full_def map_output_def demo_tty_def L_TOSTOP_def O_POST_def
        pending_signal_def put_write_def upd_tty_def)
  then show thesis using that by (simp add: numeral_3_eq_3)
qed

text \<open>
  C34: nothing written to a console, escape sequences of any form, answers to them and their echo included, changes the window of another
  console or its state; the windows stay sound and apart.
\<close>

theorem console_isolation:
  assumes "windows_ok k s" and "n < k" and "channel = Suc n" and "n < 63" and "tt_write (tty_table s n) = ConWrite"
    and "tty_write fuel (tty_call_write con_write fuel' depth) channel bs [] s = Inr (r, s')"
  shows "windows_ok k s' \<and> (\<forall>m<k. m \<noteq> n \<longrightarrow> vc_cons s' m = vc_cons s m \<and> (\<forall>a\<in>window s m. vram s' a = vram s a))"
proof -
  have w: "window_ok n s" using assms(1,2) by (simp add: windows_ok_def)
  have k: "keeps n s s'" by (rule console_write_keeps[OF w assms(5,3,4,6)]) simp
  show ?thesis by (rule keeps_windows[OF assms(1,2) k])
qed

theorem console_isolation_witness:
  "\<exists>s'. tty_write 3 (tty_call_write con_write 9 1) 1 [65] [] demo_screen = Inr (1, s') \<and> vc_cons s' 1 = vc_cons demo_screen 1"
proof -
  obtain s' where t: "tty_write 3 (tty_call_write con_write 9 1) 1 [65] [] demo_screen = Inr (1, s')" by (rule demo_write)
  from console_isolation[OF demo_windows _ _ _ _ t, of 0] t show ?thesis by auto
qed

text \<open>
  C35: scrolling is the same on the screen however it is done. By moving the origin of the display, by copying the screen back to the start of the
  window when its end is reached, or by copying a region: the lines of the region move up by one and the last is erased, all
  others stay; \<open>scrdown\<close> is the same downwards.
\<close>

theorem scrolling_refines:
  assumes "window_ok n s" and "even (unat (video_num_columns s))"
  shows "same_grid s n (cell (scrup n s) n)
     (rolled_up (unat (vc_top (vc_cons s n))) (unat (vc_bottom (vc_cons s n))) (vc_video_erase_char (vc_cons s n)) (cell s n)) \<and>
   same_grid s n (cell (scrdown n s) n)
     (rolled_down (unat (vc_top (vc_cons s n))) (unat (vc_bottom (vc_cons s n))) (vc_video_erase_char (vc_cons s n)) (cell s n))"
  using scrup_grid[OF assms] scrdown_grid[OF assms] by blast

theorem scrolling_refines_witness:
  "same_grid demo_screen 0 (cell (scrup 0 demo_screen) 0) (rolled_up 0 25 0x720 (cell demo_screen 0))"
  using scrolling_refines[OF demo_ready(1)] by (simp add: demo_vc_def)

text \<open>
  C36: printable text that fits on the rest of its line appears on the screen at the cursor, in the current attribute and character set, over what was
  there; all other cells stay, the cursor stands behind the text and the queue is empty.
\<close>

theorem console_shows_text:
  assumes "window_ok n s" and "vc_state (vc_cons s n) = ESnormal" and "\<not> tt_stopped (tty_table s n)" and "q_ok (write_q (tty_table s n))"
    and "q_list (write_q (tty_table s n)) = bs" and "\<forall>b\<in>set bs. printable b"
    and "unat (vc_x (vc_cons s n)) + length bs \<le> unat (video_num_columns s)" and "n < MAX_CONSOLES"
  shows "\<exists>s'. con_write cook n s = Inr s' \<and> q_list (write_q (tty_table s' n)) = [] \<and>
    same_grid s n (cell s' n)
      (with_text (unat (vc_y (vc_cons s n))) (unat (vc_x (vc_cons s n))) (map (glyph (vc_cons s n)) bs) (cell s n)) \<and>
    vc_x (vc_cons s' n) = vc_x (vc_cons s n) + of_nat (length bs) \<and> vc_y (vc_cons s' n) = vc_y (vc_cons s n)"
  by (rule con_write_text[OF assms])

text \<open>\<open>Hi\<close> at column 3 of row 5.\<close>

definition demo_output :: con_state where
  "demo_output = upd_tty 0 (\<lambda>t. t\<lparr>write_q := \<lparr>q_data = 0, q_head = 2, q_tail = 0, q_buf = (\<lambda>_. 0)(0 := 72, 1 := 105)\<rparr>\<rparr>) demo_screen"

theorem console_shows_text_witness:
  "\<exists>s'. con_write (\<lambda>i s. Inr s) 0 demo_output = Inr s' \<and> cell s' 0 5 3 = 0x748 \<and> cell s' 0 5 4 = 0x769 \<and> vc_x (vc_cons s' 0) = 5"
proof -
  have sc: "vc_cons demo_output = demo_vc" "video_num_columns demo_output = 80" "video_num_lines demo_output = 25"
    by (simp_all add: demo_output_def upd_tty_def)
  have w: "window_ok 0 demo_output" using demo_ready(1) by (simp add: demo_output_def upd_tty_def window_ok_def)
  have q: "q_list (write_q (tty_table demo_output 0)) = [72, 105]" "q_ok (write_q (tty_table demo_output 0))" "\<not> tt_stopped (tty_table demo_output 0)"
    "\<forall>b\<in>set [72, 105]. printable b"
    unfolding demo_output_def by (simp_all add: demo_tty_def q_list_def q_ok_def CHARS_def printable_def upt_rec)
  have g: "glyph (demo_vc 0) 72 = 0x748" "glyph (demo_vc 0) 105 = 0x769" by code_simp+
  have st: "vc_state (vc_cons demo_output 0) = ESnormal" "unat (vc_x (vc_cons demo_output 0)) + length [72 :: u8, 105] \<le> unat (video_num_columns demo_output)"
    "0 < MAX_CONSOLES" by (simp_all add: sc demo_vc_def MAX_CONSOLES_def)
  have xy: "vc_x (demo_vc 0) = 3" "vc_y (demo_vc 0) = 5" by (simp_all add: demo_vc_def)
  obtain s' where s': "con_write (\<lambda>i s. Inr s) 0 demo_output = Inr s'"
    "same_grid demo_output 0 (cell s' 0) (with_text 5 3 [0x748, 0x769] (cell demo_output 0))" "vc_x (vc_cons s' 0) = 5"
    using console_shows_text[OF w st(1) q(3,2,1,4) st(2,3), of "\<lambda>i s. Inr s"] by (auto simp: sc xy g)
  have "cell s' 0 5 3 = 0x748" "cell s' 0 5 4 = 0x769"
    using s'(2) by (simp_all add: same_grid_def sc with_text_def)
  with s'(1,3) show ?thesis by blast
qed

section \<open>Files\<close>

text \<open>
  C37: \<open>file_write\<close> overwrites a stretch of the bytes of its file, from the position (or from the end when appending) as far
  as it reports, extends the size as far as it wrote, and changes no other byte of this or any other file; the maps stay sound and apart.
\<close>

theorem file_write_refines:
  assumes "fmap_ok s k ino" and "file_write ino f bs s = Inr (r, ino', f', t)"
  shows "\<exists>n\<le>length bs. r = (if n = 0 then - 1 else int n) \<and>
    fbyte t ino' = overwrite (nat (write_pos ino f)) (take n bs) (fbyte s ino) \<and>
    unat (i_size ino') = (if n = 0 then unat (i_size ino) else max (unat (i_size ino)) (nat (write_pos ino f) + n)) \<and>
    f' = (if f_flags f AND O_APPEND \<noteq> 0 then f else f\<lparr>f_pos := f_pos f + int n\<rparr>) \<and> fmap_ok t k ino' \<and>
    (\<forall>kb b. fmap_ok s kb b \<longrightarrow> files_disjoint s ino b \<longrightarrow>
       fmap_ok t kb b \<and> files_disjoint t ino' b \<and> (\<forall>p. fbyte t b p = fbyte s b p))"
proof -
  from file_write_writes[OF assms] obtain n where n: "writes k s ino (nat (write_pos ino f)) bs n ino' t"
    "r = (if n = 0 then - 1 else int n)" "f' = (if f_flags f AND O_APPEND \<noteq> 0 then f else f\<lparr>f_pos := f_pos f + int n\<rparr>)" by metis
  then show ?thesis using writesD[OF n(1)] leavesD[OF writesD(5)[OF n(1)]] by blast
qed

text \<open>Two bytes at position 3 of the demonstration file.\<close>

definition demo_open :: file_entry where
  "demo_open = \<lparr>f_mode = 0x81A4, f_flags = 2, f_count = 1, f_inode = Some 0, f_pos = 3\<rparr>"

lemma demo_file_write:
  "\<exists>ino' t. file_write demo_file demo_open [72, 105] demo_fs = Inr (2, ino', demo_open\<lparr>f_pos := 5\<rparr>, t)"
proof -
  have c: "create_block demo_file 0 demo_fs = Inr (5, demo_file, demo_fs)"
    by (simp add: create_block_def bmap_gen_def alloc_zone_def demo_file_def)
  have b: "\<exists>t. FsState.bread (1, 5) demo_fs = Inr (True, t) \<and> (\<exists>b. bufs t (1, 5) = Some b \<and> b_count b = 1)"
    by (simp add: FsState.bread_def FsState.getblk_def demo_fs_def fresh_buf_def upd_buf_def)
  then obtain t b where t: "FsState.bread (1, 5) demo_fs = Inr (True, t)" "bufs t (1, 5) = Some b" "b_count b = 1" by blast
  have "i_dev demo_file = 1" by (simp add: demo_file_def)
  with c t have "\<exists>ino' u. file_write_loop demo_file 3 [72, 105] demo_fs = Inr (2, ino', u)"
    by (subst file_write_loop.simps, subst file_write_loop.simps) (simp add: Let_def FsState.brelse_def)
  then show ?thesis by (auto simp: file_write_def demo_open_def O_APPEND_def Let_def)
qed

theorem file_write_refines_witness:
  "\<exists>ino' f' t. file_write demo_file demo_open [72, 105] demo_fs = Inr (2, ino', f', t) \<and>
     fbyte t ino' 3 = Some 72 \<and> fbyte t ino' 4 = Some 105 \<and> fbyte t ino' 5 = Some 0"
proof -
  obtain ino' t where w: "file_write demo_file demo_open [72, 105] demo_fs = Inr (2, ino', demo_open\<lparr>f_pos := 5\<rparr>, t)"
    using demo_file_write by blast
  have p: "nat (write_pos demo_file demo_open) = 3" by (simp add: write_pos_def demo_open_def O_APPEND_def)
  have z: "fbyte demo_fs demo_file 5 = Some 0"
    by (simp add: fbyte_def zpos_of_def contents_def Let_def demo_file_def demo_fs_def zero_block_def)
  obtain n :: nat where n: "int n = 2" "fbyte t ino' = overwrite 3 (take n [72, 105]) (fbyte demo_fs demo_file)"
    using file_write_refines[OF demo_fmap w] unfolding p by (auto split: if_splits)
  then have "n = 2" by simp
  with n(2) z have "fbyte t ino' 3 = Some 72" "fbyte t ino' 4 = Some 105" "fbyte t ino' 5 = Some 0" by (simp_all add: overwrite_def)
  with w show ?thesis by blast
qed

section \<open>Open files and terminals\<close>

text \<open>
  C38: whatever calls a process makes on descriptors (opening, closing, duplicating, reading, writing and the rest, with their
  errors), the count of every open file stays the number of descriptors of all processes that refer to it.
\<close>

theorem calls_keep_counts:
  assumes "few others" and "counted others st"
  shows "counted others (foldl (fd_step oo) st calls)"
  using descriptors.run_inv[of others st oo calls] assms by blast

text \<open>A disk with the file system of the demonstration, a process with one regular file open at position 3.\<close>

definition demo_disk :: fs_state where
  "demo_disk = demo_fs\<lparr>super := (\<lambda>_. demo_super\<lparr>s_dev := 0\<rparr>)(0 := demo_super\<lparr>s_dev := 0x301\<rparr>)\<rparr>"

definition demo_inode :: m_inode where
  "demo_inode = demo_file\<lparr>i_dev := 0x301\<rparr>"

definition demo_proc :: fproc where
  "demo_proc = \<lparr>file_table = (\<lambda>_. demo_open\<lparr>f_count := 0\<rparr>)(0 := demo_open), filp = (\<lambda>_. None)(0 \<mapsto> 0),
     p_caller = \<lparr>c_kern = demo, c_root = 1, c_pwd = 1\<rparr>, close_on_exec = 0,
     p_sys = \<lparr>ifs = demo_disk, inode_table = (\<lambda>_. zero_inode)(0 := demo_inode), i_lock = (\<lambda>_. False), last_inode = 0,
       s_imount = (\<lambda>_. None), blk_bytes = (\<lambda>_. None), freed_pages = []\<rparr>,
     p_steps = [], p_tty = demo_screen,
     p_pipe = (\<lambda>_. \<lparr>pp_page = (\<lambda>_. 0), pp_head = 0, pp_tail = 0, pp_count = 2, pp_signal = 0, pp_blocked = 0, pp_woken = []\<rparr>)\<rparr>"

definition demo_outside :: outside where
  "demo_outside = \<lparr>o_fuel = 9, o_tty_steps = [], o_pipe_steps = [], o_driver = tty_call_write con_write 9 9, o_inb = (\<lambda>_. 0),
     o_blk_size = (\<lambda>_. None), o_disk_change = (\<lambda>_ s. s)\<rparr>"

lemma demo_counted: "few (\<lambda>_. 0)" "counted (\<lambda>_. 0) demo_proc"
proof -
  have "{fd. fd < NR_OPEN \<and> filp demo_proc fd = Some i} = (if i = 0 then {0} else {})" for i
    by (auto simp: demo_proc_def NR_OPEN_def)
  then have "refs demo_proc i = (if i = 0 then 1 else 0)" for i by (simp add: refs_def)
  then show "counted (\<lambda>_. 0) demo_proc" by (simp add: counted_def demo_proc_def demo_open_def NR_FILE_def)
qed (simp add: few_def NR_OPEN_def)

theorem calls_keep_counts_witness:
  "counted (\<lambda>_. 0) (foldl (fd_step demo_outside) demo_proc [CDup 0, CWrite 1 [72], CClose 0, COpen [47] 0 0, CClose 7])"
  by (rule calls_keep_counts[OF demo_counted])

text \<open>
  C39: what a process writes to a regular file through a descriptor, it reads after seeking back: \<open>write\<close>, \<open>lseek\<close> and \<open>read\<close>
  of as many bytes as were written return these bytes, over all layers down to the blocks of the disk.
\<close>

theorem write_seek_read_back:
  assumes "regular_fd st fd i n" and "fmap_ok (ifs (p_sys st)) k (inode_of n st)" and "room 1 (ifs (p_sys st))"
    and "sys_write oo fd bs st = Inr (r, st1)" and "0 < r" and "f_pos (file_table st i) + r \<le> int MAX_FILE"
  shows "\<exists>st2 st3. sys_lseek fd (f_pos (file_table st i)) 0 st1 = (f_pos (file_table st i), st2) \<and>
    sys_read oo fd r st2 = Inr ((r, take (nat r) bs), st3)"
  by (rule write_seek_read[OF assms])

lemma demo_proc_file:
  "regular_fd demo_proc 0 0 0" "inode_of 0 demo_proc = demo_inode" "ifs (p_sys demo_proc) = demo_disk" "file_table demo_proc 0 = demo_open"
  by (simp_all add: regular_fd_def demo_proc_def inode_of_def demo_inode_def demo_file_def demo_open_def NR_OPEN_def O_APPEND_def
      IS_SEEKABLE_def zero_inode_def)

lemma demo_disk_fmap: "fmap_ok demo_disk 0 demo_inode" "room 1 demo_disk"
proof -
  have g: "get_super 0x301 demo_disk = Some 0" by (simp add: get_super_def demo_disk_def demo_super_def NR_SUPER_def upt_rec)
  have z: "zref s demo_inode p = (if p = ZDirect 0 then 5 else 0)" for s p by (cases p) (auto simp: demo_inode_def demo_file_def)
  have u: "zone_used (sb\<lparr>s_dev := d\<rparr>) x = zone_used sb x" "zmap_ok (sb\<lparr>s_dev := d\<rparr>) = zmap_ok sb" for sb d x
    by (simp_all add: zone_used_def zmap_ok_def zone_index_def map_bit_def)
  show "fmap_ok demo_disk 0 demo_inode"
    using demo_zones g unfolding fmap_ok_def z by (simp add: zone_ok_def demo_disk_def u) (simp add: demo_super_def demo_inode_def)
  show "room 1 demo_disk" by (simp add: room_def held_def demo_disk_def demo_fs_def)
qed

lemma demo_sys_write: "\<exists>st1. sys_write demo_outside 0 [72, 105] demo_proc = Inr (2, st1)"
proof -
  have d: "i_dev demo_inode = 0x301" by (simp add: demo_inode_def)
  have c: "create_block demo_inode 0 demo_disk = Inr (5, demo_inode, demo_disk)"
    by (simp add: create_block_def bmap_gen_def alloc_zone_def demo_inode_def demo_file_def)
  have "\<exists>t. FsState.bread (0x301, 5) demo_disk = Inr (True, t) \<and> (\<exists>b. bufs t (0x301, 5) = Some b \<and> b_count b = 1)"
    by (simp add: FsState.bread_def FsState.getblk_def demo_disk_def demo_fs_def fresh_buf_def upd_buf_def)
  then obtain t b where "FsState.bread (0x301, 5) demo_disk = Inr (True, t)" "bufs t (0x301, 5) = Some b" "b_count b = 1" by blast
  with c d have "\<exists>ino' u. file_write_loop demo_inode 3 [72, 105] demo_disk = Inr (2, ino', u)"
    by (subst file_write_loop.simps, subst file_write_loop.simps) (simp add: Let_def FsState.brelse_def)
  then have "\<exists>x. file_write demo_inode demo_open [72, 105] demo_disk = Inr (2, x)"
    by (auto simp: file_write_def demo_open_def O_APPEND_def Let_def)
  then obtain x where "file_write demo_inode demo_open [72, 105] demo_disk = Inr (2, x)" by blast
  moreover have "\<not> i_pipe demo_inode" "\<not> s_ischr (i_mode demo_inode)" "\<not> s_isblk (i_mode demo_inode)" "s_isreg (i_mode demo_inode)"
    by (simp_all add: demo_inode_def demo_file_def zero_inode_def s_ischr_def s_isblk_def s_isreg_def)
  ultimately show ?thesis using demo_proc_file regular_fdD[OF demo_proc_file(1)]
    by (cases x) (simp add: sys_write_def on_file_def Let_def)
qed

theorem write_seek_read_back_witness:
  "\<exists>st1 st2 st3. sys_write demo_outside 0 [72, 105] demo_proc = Inr (2, st1) \<and> sys_lseek 0 3 0 st1 = (3, st2) \<and>
     sys_read demo_outside 0 2 st2 = Inr ((2, [72, 105]), st3)"
proof -
  obtain st1 where w: "sys_write demo_outside 0 [72, 105] demo_proc = Inr (2, st1)" using demo_sys_write by blast
  have p: "f_pos (file_table demo_proc 0) = 3" by (simp add: demo_proc_file(4) demo_open_def)
  have "fmap_ok (ifs (p_sys demo_proc)) 0 (inode_of 0 demo_proc)" "room 1 (ifs (p_sys demo_proc))"
    using demo_disk_fmap by (simp_all add: demo_proc_file)
  from write_seek_read_back[OF demo_proc_file(1) this w] w show ?thesis unfolding p by (simp add: MAX_FILE_def)
qed

text \<open>
  C40: when the boot code left a usable screen (\<open>boot_ok\<close>, as in the property of \<open>con_init\<close>), every terminal that has queues
  has the driver of its range of numbers after \<open>tty_init\<close>, and the indices of all its queues lie within their buffers. From
  then on every call that returns keeps this, whatever it is asked for: \<open>tty_ioctl\<close> with any request, the interrupt that
  edits what was typed, and \<open>tty_write\<close> (when what other processes do while it sleeps keeps it), each with the drivers of
  the consoles, serial lines and pseudo terminals behind \<open>tty->write\<close>.
\<close>

theorem ttys_well_formed:
  assumes "boot_ok b" and "vc_npar (vc_cons s 0) < 16" and "w = tty_call_write con_write fuel depth"
  shows "ttys_ok (tty_init b s) \<and>
    (\<forall>s1 device cmd arg u r st s2. ttys_ok s1 \<longrightarrow> tty_ioctl w device cmd arg u s1 = Inr (r, st, s2) \<longrightarrow> ttys_ok s2) \<and>
    (\<forall>s1 tty s2. ttys_ok s1 \<longrightarrow> do_tty_interrupt fuel w tty s1 = Inr s2 \<longrightarrow> ttys_ok s2) \<and>
    (\<forall>s1 channel bs envs r s2. ttys_ok s1 \<longrightarrow> (\<forall>e\<in>set envs. \<forall>s. ttys_ok s \<longrightarrow> ttys_ok (e s)) \<longrightarrow>
       tty_write fuel w channel bs envs s1 = Inr (r, s2) \<longrightarrow> ttys_ok s2)"
proof (intro conjI allI impI)
  show "ttys_ok (tty_init b s)" by (rule tty_init_ok[OF assms(1,2)])
  show "ttys_ok s2" if "ttys_ok s1" "tty_ioctl w device cmd arg u s1 = Inr (r, st, s2)" for s1 device cmd arg u r st s2
    by (rule tty_requests_ok[OF that[unfolded assms(3)]])
  show "ttys_ok s2" if "ttys_ok s1" "do_tty_interrupt fuel w tty s1 = Inr s2" for s1 tty s2
    by (rule tty_interrupt_ok[OF that[unfolded assms(3)]])
  show "ttys_ok s2" if "ttys_ok s1" "\<forall>e\<in>set envs. \<forall>s. ttys_ok s \<longrightarrow> ttys_ok (e s)" "tty_write fuel w channel bs envs s1 = Inr (r, s2)"
    for s1 channel bs envs r s2 by (rule tty_write_ok[OF that(1) _ that(3)[unfolded assms(3)]]) (use that(2) in blast)
qed

definition demo_user_mem :: user_mem where
  "demo_user_mem = \<lparr>um_termios = plain_mode 0 0, um_termio = get_termio demo_tty, um_long = 2\<rparr>"

text \<open>Flushing both queues of the first console (\<open>TCFLSH\<close>) right after \<open>tty_init\<close>.\<close>

theorem ttys_well_formed_witness:
  "\<exists>s2. tty_ioctl (tty_call_write con_write 9 9) 0x401 0x540B 2 demo_user_mem (tty_init demo_boot demo_screen)
      = Inr (0, Nothing_stored, s2) \<and> ttys_ok s2"
proof -
  let ?s = "tty_init demo_boot demo_screen"
  let ?d = "demo_screen\<lparr>tty_table := (\<lambda>i. if i < 256 then new_tty (plain_mode 0 0) NoDriver 0 else tty_table demo_screen i)\<rparr>"
  have n: "0 < unat (NR_CONSOLES (con_init demo_boot ?d))" using con_init_windows(1)[OF demo_boot_ok(1) _ HOL.refl, of ?d] demo_boot_ok(2) by simp
  then have q: "tt_queues (tty_table ?s 0)" by (simp add: tty_init_def Let_def rs_init_def initial_tty_def new_tty_def)
  have i: "tty_index (nat 1) ?s = 0" by (simp add: tty_index_def)
  obtain s2 where s2: "tty_ioctl (tty_call_write con_write 9 9) 0x401 0x540B 2 demo_user_mem ?s = Inr (0, Nothing_stored, s2)"
    using q by (simp add: tty_ioctl_def Let_def flush_read_def flush_write_def through_queue_def tty_index_def upd_tty_def)
  with ttys_well_formed[OF demo_boot_ok HOL.refl] show ?thesis by blast
qed

end
